(* ===== verification/Muser_Prelude.thy ===== *)
theory Muser_Prelude
  imports Main "HOL-Library.Word"
begin

section \<open>Shared prelude of the muser development\<close>

text \<open>
  What every component uses: Rust's fixed-width checked and saturating arithmetic on \<^typ>\<open>nat\<close>
  with the 64-bit bound written out (\<open>u64\<close> and \<open>usize\<close> are both 64 bits wide on the targets
  of the program), the result type \<open>'e + 'a\<close> with its sequencing operator (the \<open>?\<close> operator of
  the source), fallible loops, little-endian integers, slices and chunks, intervals that tile a
  range, and two interfaces stated as locales: binary codecs and transition systems with an
  invariant.
\<close>

named_theorems res_simps \<open>unfolding of the result combinators\<close>
named_theorems arith_defs \<open>checked and saturating integer operations\<close>

type_synonym u8 = "8 word"
type_synonym u16 = "16 word"
type_synonym u32 = "32 word"
type_synonym u64 = "64 word"
type_synonym bytes = "8 word list"

subsection \<open>64-bit arithmetic\<close>

abbreviation (input) u64_bound :: nat where
  "u64_bound \<equiv> 2 ^ 64"

definition u64_max :: nat where
  "u64_max = 2 ^ 64 - 1"

definition checked_add :: "nat \<Rightarrow> nat \<Rightarrow> nat option" where
  [arith_defs]: "checked_add a b = (if a + b < 2 ^ 64 then Some (a + b) else None)"

definition checked_mul :: "nat \<Rightarrow> nat \<Rightarrow> nat option" where
  [arith_defs]: "checked_mul a b = (if a * b < 2 ^ 64 then Some (a * b) else None)"

definition checked_sub :: "nat \<Rightarrow> nat \<Rightarrow> nat option" where
  [arith_defs]: "checked_sub a b = (if b \<le> a then Some (a - b) else None)"

definition saturating_add :: "nat \<Rightarrow> nat \<Rightarrow> nat" where
  [arith_defs]: "saturating_add a b = min (a + b) (2 ^ 64 - 1)"

definition saturating_mul :: "nat \<Rightarrow> nat \<Rightarrow> nat" where
  [arith_defs]: "saturating_mul a b = min (a * b) (2 ^ 64 - 1)"

definition saturating_sub :: "nat \<Rightarrow> nat \<Rightarrow> nat" where
  [arith_defs]: "saturating_sub a b = a - b"

definition is_multiple_of :: "nat \<Rightarrow> nat \<Rightarrow> bool" where
  "is_multiple_of a b = (if b = 0 then a = 0 else a mod b = 0)"

definition is_power_of_two :: "nat \<Rightarrow> bool" where
  "is_power_of_two n = list_ex (\<lambda>k. n = 2 ^ k) [0..<64]"

lemma checked_add_Some_iff: "checked_add a b = Some c \<longleftrightarrow> c = a + b \<and> a + b < 2 ^ 64"
  by (auto simp: arith_defs)

lemma checked_mul_Some_iff: "checked_mul a b = Some c \<longleftrightarrow> c = a * b \<and> a * b < 2 ^ 64"
  by (auto simp: arith_defs)

lemma checked_sub_Some_iff: "checked_sub a b = Some c \<longleftrightarrow> c = a - b \<and> b \<le> a"
  by (auto simp: arith_defs)

lemmas checked_iffs = checked_add_Some_iff checked_mul_Some_iff checked_sub_Some_iff

lemma saturating_add_exact: "a + b < 2 ^ 64 \<Longrightarrow> saturating_add a b = a + b"
  by (simp add: arith_defs)

lemma saturating_add_ge: "a < 2 ^ 64 \<Longrightarrow> a \<le> saturating_add a b"
  by (auto simp: arith_defs)

lemma is_multiple_of_dvd: "is_multiple_of a b \<longleftrightarrow> b dvd a"
  by (auto simp: is_multiple_of_def dvd_eq_mod_eq_0)

lemma is_power_of_two_pos: "is_power_of_two n \<Longrightarrow> 0 < n"
  by (auto simp: is_power_of_two_def list_ex_iff)

subsection \<open>Results\<close>

definition bind_res :: "'e + 'a \<Rightarrow> ('a \<Rightarrow> 'e + 'b) \<Rightarrow> 'e + 'b" where
  "bind_res m f = (case m of Inl e \<Rightarrow> Inl e | Inr x \<Rightarrow> f x)"

definition ok_or :: "'a option \<Rightarrow> 'e \<Rightarrow> 'e + 'a" where
  "ok_or x e = (case x of None \<Rightarrow> Inl e | Some a \<Rightarrow> Inr a)"

definition ensure :: "bool \<Rightarrow> 'e \<Rightarrow> 'e + unit" where
  "ensure b e = (if b then Inr () else Inl e)"

definition map_err :: "('e \<Rightarrow> 'f) \<Rightarrow> 'e + 'a \<Rightarrow> 'f + 'a" where
  "map_err g m = (case m of Inl e \<Rightarrow> Inl (g e) | Inr x \<Rightarrow> Inr x)"

lemma bind_res_simps [simp, res_simps]:
  "bind_res (Inl e) f = Inl e"
  "bind_res (Inr x) f = f x"
  by (simp_all add: bind_res_def)

lemma bind_res_cong [fundef_cong]:
  "m = m' \<Longrightarrow> (\<And>x. m' = Inr x \<Longrightarrow> f x = g x) \<Longrightarrow> bind_res m f = bind_res m' g"
  by (simp add: bind_res_def split: sum.splits)

lemma bind_res_Inr_iff: "bind_res m f = Inr y \<longleftrightarrow> (\<exists>x. m = Inr x \<and> f x = Inr y)"
  by (auto simp: bind_res_def split: sum.splits)

lemma bind_res_Inr_unit_iff: "bind_res m f = Inr y \<longleftrightarrow> m = Inr () \<and> f () = Inr y"
  for m :: "'e + unit"
  by (auto simp: bind_res_def split: sum.splits)

lemma bind_res_Inl_iff:
  "bind_res m f = Inl e \<longleftrightarrow> m = Inl e \<or> (\<exists>x. m = Inr x \<and> f x = Inl e)"
  by (auto simp: bind_res_def split: sum.splits)

lemma ok_or_simps [simp, res_simps]: "ok_or None e = Inl e" "ok_or (Some a) e = Inr a"
  by (simp_all add: ok_or_def)

lemma ok_or_Inr_iff: "ok_or x e = Inr a \<longleftrightarrow> x = Some a"
  by (cases x) simp_all

lemma ensure_simps [simp, res_simps]: "ensure True e = Inr u" "ensure False e = Inl e"
  by (simp_all add: ensure_def)

lemma ensure_Inr_iff: "ensure b e = Inr u \<longleftrightarrow> b"
  by (simp add: ensure_def)

lemma ensure_Inl_iff: "ensure b e = Inl e' \<longleftrightarrow> \<not> b \<and> e' = e"
  by (auto simp: ensure_def)

lemma map_err_Inr_iff: "map_err g m = Inr a \<longleftrightarrow> m = Inr a"
  by (auto simp: map_err_def split: sum.splits)

lemma map_err_simps [simp, res_simps]:
  "map_err g (Inr a) = Inr a" "map_err g (Inl e) = Inl (g e)"
  by (simp_all add: map_err_def)

lemmas res_iffs = bind_res_Inr_iff ok_or_Inr_iff ensure_Inr_iff map_err_Inr_iff

text \<open>A \<open>for\<close> loop whose body can leave with an error, and one that folds a state.\<close>

fun for_each :: "('a \<Rightarrow> 'e + unit) \<Rightarrow> 'a list \<Rightarrow> 'e + unit" where
  "for_each f [] = Inr ()"
| "for_each f (x # xs) = bind_res (f x) (\<lambda>_. for_each f xs)"

fun try_fold :: "('s \<Rightarrow> 'a \<Rightarrow> 's option) \<Rightarrow> 's \<Rightarrow> 'a list \<Rightarrow> 's option" where
  "try_fold f s [] = Some s"
| "try_fold f s (x # xs) = (case f s x of None \<Rightarrow> None | Some t \<Rightarrow> try_fold f t xs)"

fun map_res :: "('a \<Rightarrow> 'e + 'b) \<Rightarrow> 'a list \<Rightarrow> 'e + 'b list" where
  "map_res f [] = Inr []"
| "map_res f (x # xs) = bind_res (f x) (\<lambda>y. bind_res (map_res f xs) (\<lambda>ys. Inr (y # ys)))"

lemma for_each_Inr_iff: "for_each f xs = Inr u \<longleftrightarrow> (\<forall>x\<in>set xs. f x = Inr ())"
  by (induction xs) (auto simp: bind_res_Inr_iff)

lemma for_each_Inl_in: "for_each f xs = Inl e \<Longrightarrow> \<exists>x\<in>set xs. f x = Inl e"
  by (induction xs) (auto simp: bind_res_Inl_iff)

lemma map_res_nth:
  "length ys = length xs \<Longrightarrow> (\<And>i. i < length xs \<Longrightarrow> f (xs ! i) = Inr (ys ! i)) \<Longrightarrow> map_res f xs = Inr ys"
proof (induction xs arbitrary: ys)
  case (Cons x xs)
  obtain y ys' where ys: "ys = y # ys'" using Cons.prems(1) by (cases ys) auto
  have "f x = Inr y" using Cons.prems(2) [of 0] ys by simp
  moreover have "map_res f xs = Inr ys'"
  proof (rule Cons.IH)
    show "length ys' = length xs" using Cons.prems(1) ys by simp
    show "f (xs ! i) = Inr (ys' ! i)" if "i < length xs" for i
      using Cons.prems(2) [of "Suc i"] that ys by simp
  qed
  ultimately show ?case by (simp add: ys)
qed simp

lemma try_fold_checked_mul:
  "try_fold checked_mul p xs = Some q \<Longrightarrow> q = p * prod_list xs"
  by (induction xs arbitrary: p) (fastforce simp: checked_iffs split: option.splits)+

lemma try_fold_checked_mul_lt:
  "try_fold checked_mul p xs = Some q \<Longrightarrow> p < 2 ^ 64 \<Longrightarrow> q < 2 ^ 64"
  by (induction xs arbitrary: p) (auto simp: checked_iffs split: option.splits)

lemma try_fold_checked_add:
  "try_fold (\<lambda>s d. checked_add s (f d)) p xs = Some q \<Longrightarrow> q = p + sum_list (map f xs)"
  by (induction xs arbitrary: p) (fastforce simp: checked_iffs split: option.splits)+

lemma try_fold_checked_add_Some:
  "p + sum_list (map f xs) < 2 ^ 64 \<Longrightarrow>
   try_fold (\<lambda>s d. checked_add s (f d)) p xs = Some (p + sum_list (map f xs))"
  by (induction xs arbitrary: p) (auto simp: arith_defs algebra_simps)

subsection \<open>Little-endian integers\<close>

fun le_nat :: "bytes \<Rightarrow> nat" where
  "le_nat [] = 0"
| "le_nat (b # bs) = unat b + 256 * le_nat bs"

fun le_bytes :: "nat \<Rightarrow> nat \<Rightarrow> bytes" where
  "le_bytes 0 v = []"
| "le_bytes (Suc n) v = of_nat (v mod 256) # le_bytes n (v div 256)"

lemma length_le_bytes [simp]: "length (le_bytes n v) = n"
  by (induction n arbitrary: v) simp_all

lemma le_nat_lt: "le_nat bs < 256 ^ length bs"
proof (induction bs)
  case (Cons b bs)
  have "unat b < 256" using unsigned_less [of b] by simp
  then have "unat b + 256 * le_nat bs < 256 * Suc (le_nat bs)" by simp
  also have "\<dots> \<le> 256 * 256 ^ length bs" using Cons by (intro mult_le_mono2) simp
  finally show ?case by simp
qed simp

lemma unat_of_nat_mod_256 [simp]: "unat (of_nat (v mod 256) :: u8) = v mod 256"
  by (simp add: unat_of_nat)

lemma le_nat_le_bytes: "le_nat (le_bytes n v) = v mod 256 ^ n"
proof (induction n arbitrary: v)
  case (Suc n)
  have "v mod (256 * 256 ^ n) = 256 * (v div 256 mod 256 ^ n) + v mod 256"
    by (rule mod_mult2_eq)
  with Suc show ?case by simp
qed simp

lemma le_bytes_le_nat: "le_bytes (length bs) (le_nat bs) = bs"
proof (induction bs)
  case (Cons b bs)
  have "unat b < 256" using unsigned_less [of b] by simp
  with Cons show ?case by simp
qed simp

lemma le_bytes_inj: "v < 256 ^ n \<Longrightarrow> w < 256 ^ n \<Longrightarrow> le_bytes n v = le_bytes n w \<Longrightarrow> v = w"
  by (metis le_nat_le_bytes mod_less)

lemma le_word_roundtrip:
  "LENGTH('a) = 8 * n \<Longrightarrow> of_nat (le_nat (le_bytes n (unat w))) = w" for w :: "'a::len word"
proof -
  assume n: "LENGTH('a) = 8 * n"
  have "unat w < 2 ^ LENGTH('a)" by simp
  also have "(2::nat) ^ LENGTH('a) = 256 ^ n" by (simp add: n power_mult)
  finally show ?thesis by (simp add: le_nat_le_bytes)
qed

text \<open>A string literal of the source as the bytes of its (ASCII) UTF-8 encoding.\<close>

definition str :: "string \<Rightarrow> bytes" where
  "str s = map of_char s"

subsection \<open>UTF-8\<close>

text \<open>\<open>std::str::from_utf8\<close> as a predicate: the well-formed byte sequences of the Unicode
  standard (no overlong forms, no surrogates, nothing above U+10FFFF).\<close>

definition in_range :: "nat \<Rightarrow> nat \<Rightarrow> u8 \<Rightarrow> bool" where
  "in_range lo hi b \<longleftrightarrow> lo \<le> unat b \<and> unat b \<le> hi"

fun utf8_valid :: "bytes \<Rightarrow> bool" where
  "utf8_valid [] = True"
| "utf8_valid (b # bs) =
    (if in_range 0 127 b then utf8_valid bs
     else if in_range 194 223 b then
       (case bs of c1 # r \<Rightarrow> in_range 128 191 c1 \<and> utf8_valid r | _ \<Rightarrow> False)
     else if in_range 224 239 b then
       (case bs of c1 # c2 # r \<Rightarrow>
          in_range (if b = 224 then 160 else 128) (if b = 237 then 159 else 191) c1
          \<and> in_range 128 191 c2 \<and> utf8_valid r
        | _ \<Rightarrow> False)
     else if in_range 240 244 b then
       (case bs of c1 # c2 # c3 # r \<Rightarrow>
          in_range (if b = 240 then 144 else 128) (if b = 244 then 143 else 191) c1
          \<and> in_range 128 191 c2 \<and> in_range 128 191 c3 \<and> utf8_valid r
        | _ \<Rightarrow> False)
     else False)"

subsection \<open>Slices and chunks\<close>

text \<open>Rust's \<open>slice.chunks(n)\<close>: consecutive pieces of \<open>n\<close> elements, the last one shorter.
  The call panics for \<open>n = 0\<close>; callers of the model never pass it, and the definition then
  returns one piece.\<close>

function chunks :: "nat \<Rightarrow> 'a list \<Rightarrow> 'a list list" where
  "chunks n xs =
     (if xs = [] then [] else if n = 0 then [xs] else take n xs # chunks n (drop n xs))"
  by pat_completeness auto
termination
  by (relation "measure (\<lambda>(n, xs). length xs)") auto

declare chunks.simps [simp del]

lemma chunks_Nil [simp]: "chunks n [] = []"
  by (simp add: chunks.simps)

lemma concat_chunks [simp]: "concat (chunks n xs) = xs"
proof (induction n xs rule: chunks.induct)
  case (1 n xs)
  then show ?case by (simp add: chunks.simps [of n xs])
qed

lemma chunks_bounded: "0 < n \<Longrightarrow> c \<in> set (chunks n xs) \<Longrightarrow> c \<noteq> [] \<and> length c \<le> n"
proof (induction n xs rule: chunks.induct)
  case (1 n xs)
  show ?case
  proof (cases "xs = []")
    case False
    with 1 show ?thesis
      by (auto simp: chunks.simps [of n xs])
  qed (use 1 in simp)
qed

lemma find_SomeD: "find P xs = Some y \<Longrightarrow> y \<in> set xs \<and> P y"
  by (induction xs) (auto split: if_splits)

lemma Ball_enumerate: "(\<forall>x\<in>set (List.enumerate 0 xs). P x) \<longleftrightarrow> (\<forall>i<length xs. P (i, xs ! i))"
proof
  assume all: "\<forall>x\<in>set (List.enumerate 0 xs). P x"
  show "\<forall>i<length xs. P (i, xs ! i)"
  proof (intro allI impI)
    fix i assume "i < length xs"
    then have "(i, xs ! i) \<in> set (List.enumerate 0 xs)" by (simp add: in_set_enumerate_eq)
    with all show "P (i, xs ! i)" by blast
  qed
qed (auto simp: in_set_enumerate_eq)

text \<open>\<open>dest[offset .. offset + src.len()].copy_from_slice(src)\<close>.\<close>

definition blit :: "'a list \<Rightarrow> nat \<Rightarrow> 'a list \<Rightarrow> 'a list" where
  "blit dest offset src = take offset dest @ src @ drop (offset + length src) dest"

lemma length_blit: "offset + length src \<le> length dest \<Longrightarrow> length (blit dest offset src) = length dest"
  by (simp add: blit_def)

lemma nth_blit:
  assumes "offset + length src \<le> length dest" and "i < length dest"
  shows "blit dest offset src ! i =
    (if offset \<le> i \<and> i < offset + length src then src ! (i - offset) else dest ! i)"
  using assms by (auto simp: blit_def nth_append)

subsection \<open>Ranges that tile an interval\<close>

text \<open>A list of (start, count) ranges tiles \<open>[a, b)\<close> when each range is nonempty, the first
  starts at \<open>a\<close>, each next one starts where the previous one ends and the last one ends at \<open>b\<close>.\<close>

fun tiles :: "nat \<Rightarrow> nat \<Rightarrow> (nat \<times> nat) list \<Rightarrow> bool" where
  "tiles a b [] \<longleftrightarrow> a = b"
| "tiles a b ((s, n) # rs) \<longleftrightarrow> s = a \<and> 0 < n \<and> tiles (a + n) b rs"

lemma tiles_le: "tiles a b rs \<Longrightarrow> a \<le> b"
  by (induction a b rs rule: tiles.induct) auto

lemma tiles_append: "tiles a b rs \<Longrightarrow> tiles b c ss \<Longrightarrow> tiles a c (rs @ ss)"
  by (induction a b rs rule: tiles.induct) auto

lemma tiles_sum: "tiles a b rs \<Longrightarrow> a + sum_list (map snd rs) = b"
  by (induction a b rs rule: tiles.induct) auto

lemma tiles_within: "tiles a b rs \<Longrightarrow> (s, n) \<in> set rs \<Longrightarrow> a \<le> s \<and> s + n \<le> b"
  by (induction a b rs rule: tiles.induct) (auto dest: tiles_le)

text \<open>Every point of the interval lies in exactly one range of a tiling.\<close>

lemma tiles_exactly_one:
  "tiles a b rs \<Longrightarrow> a \<le> x \<Longrightarrow> x < b \<Longrightarrow>
   \<exists>!i. i < length rs \<and> fst (rs ! i) \<le> x \<and> x < fst (rs ! i) + snd (rs ! i)"
proof (induction a b rs rule: tiles.induct)
  case (2 a b s n rs)
  let ?P = "\<lambda>i. i < length ((s, n) # rs) \<and> fst (((s, n) # rs) ! i) \<le> x
    \<and> x < fst (((s, n) # rs) ! i) + snd (((s, n) # rs) ! i)"
  show ?case
  proof (cases "x < a + n")
    case True
    have "i = 0" if "?P i" for i
    proof (rule ccontr)
      assume "i \<noteq> 0"
      then obtain j where j: "i = Suc j" by (cases i) auto
      with that have "rs ! j \<in> set rs" by simp
      with 2 have "a + n \<le> fst (rs ! j)" by (metis prod.collapse tiles.simps(2) tiles_within)
      with that j True show False by simp
    qed
    moreover have "?P 0" using 2 True by simp
    ultimately show ?thesis by blast
  next
    case False
    with 2 obtain j where j: "j < length rs \<and> fst (rs ! j) \<le> x \<and> x < fst (rs ! j) + snd (rs ! j)"
      and uniq: "\<And>k. k < length rs \<and> fst (rs ! k) \<le> x \<and> x < fst (rs ! k) + snd (rs ! k) \<Longrightarrow> k = j"
      by auto
    have "i = Suc j" if "?P i" for i
    proof (cases i)
      case 0
      with that False 2 show ?thesis by simp
    next
      case (Suc k)
      with that uniq [of k] show ?thesis by simp
    qed
    moreover have "?P (Suc j)" using j by simp
    ultimately show ?thesis by blast
  qed
qed simp

subsection \<open>Reading from the remaining input\<close>

fun read_n :: "nat \<Rightarrow> (bytes \<Rightarrow> 'e + ('a \<times> bytes)) \<Rightarrow> bytes \<Rightarrow> 'e + ('a list \<times> bytes)" where
  "read_n 0 p bs = Inr ([], bs)"
| "read_n (Suc n) p bs =
     bind_res (p bs) (\<lambda>(x, bs1). bind_res (read_n n p bs1) (\<lambda>(xs, bs2). Inr (x # xs, bs2)))"

lemma read_n_roundtrip:
  "(\<And>x r. x \<in> set xs \<Longrightarrow> p (enc x @ r) = Inr (x, r)) \<Longrightarrow>
   read_n (length xs) p (concat (map enc xs) @ rest) = Inr (xs, rest)"
  by (induction xs arbitrary: rest) simp_all

lemma read_n_length: "read_n n p bs = Inr (xs, rest) \<Longrightarrow> length xs = n"
  by (induction n arbitrary: bs xs) (auto simp: bind_res_Inr_iff split: prod.splits)

lemma read_n_all:
  assumes "read_n n p bs = Inr (xs, rest)" and step: "\<And>b x r. p b = Inr (x, r) \<Longrightarrow> Q x"
  shows "\<forall>x\<in>set xs. Q x"
  using assms(1)
proof (induction n arbitrary: bs xs)
  case (Suc n)
  from Suc.prems obtain x b1 ys where x: "p bs = Inr (x, b1)" and ys: "read_n n p b1 = Inr (ys, rest)"
    and "xs = x # ys"
    by (auto simp: bind_res_Inr_iff split: prod.splits)
  moreover from step [OF x] have "Q x" .
  moreover from Suc.IH [OF ys] have "\<forall>x\<in>set ys. Q x" .
  ultimately show ?case by simp
qed simp

text \<open>The contract of a binary codec: decoding an encoded value gives it back and leaves the
  bytes that follow it. Every codec is injective and prefix-free on well-formed values, and
  repeats to a codec of lists of a known length.\<close>

locale codec =
  fixes enc :: "'a \<Rightarrow> bytes"
    and dec :: "bytes \<Rightarrow> 'e + ('a \<times> bytes)"
    and wf :: "'a \<Rightarrow> bool"
  assumes dec_enc: "wf x \<Longrightarrow> dec (enc x @ rest) = Inr (x, rest)"
begin

lemma enc_prefix_free:
  assumes "wf x" and "wf y" and "enc x @ r = enc y @ s"
  shows "x = y \<and> r = s"
proof -
  from assms(3) have "dec (enc x @ r) = dec (enc y @ s)" by (rule arg_cong)
  then have "(Inr (x, r) :: 'e + _) = Inr (y, s)"
    by (simp only: dec_enc [OF assms(1)] dec_enc [OF assms(2)])
  then show ?thesis by simp
qed

lemma enc_inj: "wf x \<Longrightarrow> wf y \<Longrightarrow> enc x = enc y \<Longrightarrow> x = y"
  using enc_prefix_free [of x y "[]" "[]"] by simp

lemma dec_list:
  "\<forall>x\<in>set xs. wf x \<Longrightarrow> read_n (length xs) dec (concat (map enc xs) @ rest) = Inr (xs, rest)"
  by (rule read_n_roundtrip) (simp add: dec_enc)

end

subsection \<open>Transition systems with an invariant\<close>

inductive reachable :: "('s \<Rightarrow> bool) \<Rightarrow> ('s \<Rightarrow> 's \<Rightarrow> bool) \<Rightarrow> 's \<Rightarrow> bool" for init step where
  reach_init: "init s \<Longrightarrow> reachable init step s"
| reach_step: "reachable init step s \<Longrightarrow> step s t \<Longrightarrow> reachable init step t"

locale invariant_system =
  fixes init :: "'s \<Rightarrow> bool"
    and step :: "'s \<Rightarrow> 's \<Rightarrow> bool"
    and inv :: "'s \<Rightarrow> bool"
  assumes inv_init: "init s \<Longrightarrow> inv s"
    and inv_step: "step s t \<Longrightarrow> inv s \<Longrightarrow> inv t"
begin

lemma inv_reachable: "reachable init step s \<Longrightarrow> inv s"
  by (induction rule: reachable.induct) (auto intro: inv_init inv_step)

lemma inv_steps: "step\<^sup>*\<^sup>* s t \<Longrightarrow> inv s \<Longrightarrow> inv t"
  by (induction rule: rtranclp_induct) (auto intro: inv_step)

end

end
