(* ===== verification/Gguf.thy ===== *)
theory Gguf
  imports Muser_Prelude "HOL-Library.List_Lexorder"
begin

section \<open>The GGUF model-file parser\<close>

text \<open>
  Models \<open>crates/muser-engine/src/gguf\<close>: the primitive readers (\<open>reader.rs\<close>), the metadata values
  (\<open>metadata.rs\<close>), the header parser with its limits (\<open>parser.rs\<close>), the descriptor types
  (\<open>types.rs\<close>) and the accessors with the canonical tokenizer hash (\<open>accessors.rs\<close>).

  A reader is the list of bytes not read yet; the stream position is the file length minus the
  number of remaining bytes. A Rust \<open>String\<close> is its UTF-8 bytes, a float is its IEEE bit pattern
  (the parser moves it, never computes with it), and the metadata \<open>HashMap\<close> is an association
  list with distinct keys. SHA-256 is a parameter.

  Shown here: a parsed file is well formed (every tensor lies inside the file, names and keys are
  distinct, the data offset is aligned, nesting and counts are bounded), a well-formed header
  parses back to the value it encodes, the saturating and the checked tensor size agree on
  parsed tensors, and the tokenizer hash preimage determines the tokenizer metadata.
\<close>

subsection \<open>Types\<close>

datatype ggml_type =
    GT_F32 | GT_F16 | GT_Q4_0 | GT_Q4_1 | GT_Q5_0 | GT_Q5_1 | GT_Q8_0
  | GT_Q2_K | GT_Q3_K | GT_Q4_K | GT_Q5_K | GT_Q6_K
  | GT_IQ2_XXS | GT_IQ2_XS | GT_IQ3_XXS | GT_IQ1_S | GT_IQ4_NL | GT_IQ3_S | GT_IQ2_S
  | GT_IQ4_XS | GT_IQ1_M | GT_BF16 | GT_IQ3_K | GT_NVFP4_E2M1 | GT_F8_E4M3FN

datatype io_error = UnexpectedEof | InvalidData

datatype gguf_error =
    BadMagic u32
  | UnsupportedVersion u32
  | UnsupportedType u32
  | UnsupportedMetadataType u32
  | LimitExceeded string nat nat
  | InvalidAlignment nat
  | TensorSizeOverflow bytes
  | TensorOutOfBounds bytes
  | DuplicateMetadataKey bytes
  | DuplicateTensorName bytes
  | Io io_error

datatype metadata_value =
    U8 u8 | I8 u8 | U16 u16 | I16 u16 | U32 u32 | I32 u32 | U64 u64 | I64 u64
  | F32 u32 | F64 u64 | Bool bool | Str bytes | Array "metadata_value list"

record tensor_info =
  tensor_name :: bytes
  shape :: "nat list"
  dtype :: ggml_type
  offset :: nat

record gguf_file =
  version :: u32
  metadata :: "(bytes \<times> metadata_value) list"
  tensors :: "tensor_info list"
  data_offset :: nat

definition GGUF_MAGIC :: u32 where "GGUF_MAGIC = 0x46554747"
definition MAX_METADATA_ITEMS :: nat where "MAX_METADATA_ITEMS = 100000"
definition MAX_TENSORS :: nat where "MAX_TENSORS = 1000000"
definition MAX_TENSOR_DIMS :: nat where "MAX_TENSOR_DIMS = 32"
definition MAX_METADATA_ARRAY_ITEMS :: nat where "MAX_METADATA_ARRAY_ITEMS = 1000000"
definition MAX_METADATA_NESTING :: nat where "MAX_METADATA_NESTING = 32"
definition MAX_GGUF_STRING_BYTES :: nat where "MAX_GGUF_STRING_BYTES = 16 * 1024 * 1024"

lemmas gguf_limits =
  MAX_METADATA_ITEMS_def MAX_TENSORS_def MAX_TENSOR_DIMS_def MAX_METADATA_ARRAY_ITEMS_def
  MAX_METADATA_NESTING_def MAX_GGUF_STRING_BYTES_def

definition from_u32 :: "u32 \<Rightarrow> gguf_error + ggml_type" where
  "from_u32 v =
     (if v = 0 then Inr GT_F32 else if v = 1 then Inr GT_F16
      else if v = 2 then Inr GT_Q4_0 else if v = 3 then Inr GT_Q4_1
      else if v = 6 then Inr GT_Q5_0 else if v = 7 then Inr GT_Q5_1
      else if v = 8 then Inr GT_Q8_0 else if v = 10 then Inr GT_Q2_K
      else if v = 11 then Inr GT_Q3_K else if v = 12 then Inr GT_Q4_K
      else if v = 13 then Inr GT_Q5_K else if v = 14 then Inr GT_Q6_K
      else if v = 16 then Inr GT_IQ2_XXS else if v = 17 then Inr GT_IQ2_XS
      else if v = 18 then Inr GT_IQ3_XXS else if v = 19 then Inr GT_IQ1_S
      else if v = 20 then Inr GT_IQ4_NL else if v = 21 then Inr GT_IQ3_S
      else if v = 22 then Inr GT_IQ2_S else if v = 23 then Inr GT_IQ4_XS
      else if v = 29 then Inr GT_IQ1_M else if v = 30 then Inr GT_BF16
      else if v = 138 then Inr GT_IQ3_K else if v = 1000 then Inr GT_NVFP4_E2M1
      else if v = 1001 then Inr GT_F8_E4M3FN
      else Inl (UnsupportedType v))"

text \<open>The discriminants of the \<open>repr(u32)\<close> enumeration.\<close>

fun ggml_code :: "ggml_type \<Rightarrow> u32" where
  "ggml_code GT_F32 = 0" | "ggml_code GT_F16 = 1" | "ggml_code GT_Q4_0 = 2"
| "ggml_code GT_Q4_1 = 3" | "ggml_code GT_Q5_0 = 6" | "ggml_code GT_Q5_1 = 7"
| "ggml_code GT_Q8_0 = 8" | "ggml_code GT_Q2_K = 10" | "ggml_code GT_Q3_K = 11"
| "ggml_code GT_Q4_K = 12" | "ggml_code GT_Q5_K = 13" | "ggml_code GT_Q6_K = 14"
| "ggml_code GT_IQ2_XXS = 16" | "ggml_code GT_IQ2_XS = 17" | "ggml_code GT_IQ3_XXS = 18"
| "ggml_code GT_IQ1_S = 19" | "ggml_code GT_IQ4_NL = 20" | "ggml_code GT_IQ3_S = 21"
| "ggml_code GT_IQ2_S = 22" | "ggml_code GT_IQ4_XS = 23" | "ggml_code GT_IQ1_M = 29"
| "ggml_code GT_BF16 = 30" | "ggml_code GT_IQ3_K = 138" | "ggml_code GT_NVFP4_E2M1 = 1000"
| "ggml_code GT_F8_E4M3FN = 1001"

fun block_size :: "ggml_type \<Rightarrow> nat" where
  "block_size GT_F32 = 4" | "block_size GT_F16 = 2" | "block_size GT_Q4_0 = 2 + 16"
| "block_size GT_Q4_1 = 4 + 16" | "block_size GT_Q5_0 = 22" | "block_size GT_Q5_1 = 24"
| "block_size GT_Q8_0 = 2 + 32" | "block_size GT_Q2_K = 84" | "block_size GT_Q3_K = 110"
| "block_size GT_Q4_K = 144" | "block_size GT_Q5_K = 176" | "block_size GT_Q6_K = 210"
| "block_size GT_IQ2_XXS = 66" | "block_size GT_IQ2_XS = 74" | "block_size GT_IQ3_XXS = 98"
| "block_size GT_IQ3_S = 110" | "block_size GT_IQ2_S = 82" | "block_size GT_IQ4_NL = 18"
| "block_size GT_IQ4_XS = 136" | "block_size GT_IQ1_S = 50" | "block_size GT_IQ1_M = 56"
| "block_size GT_BF16 = 2" | "block_size GT_IQ3_K = 110" | "block_size GT_NVFP4_E2M1 = 1"
| "block_size GT_F8_E4M3FN = 1"

definition block_elements :: "ggml_type \<Rightarrow> nat" where
  "block_elements t =
     (if t \<in> {GT_F32, GT_F16, GT_BF16} then 1
      else if t = GT_F8_E4M3FN then 1
      else if t = GT_NVFP4_E2M1 then 2
      else if t \<in> {GT_Q4_0, GT_Q4_1, GT_Q5_0, GT_Q5_1, GT_Q8_0, GT_IQ4_NL} then 32
      else 256)"

definition n_elements :: "tensor_info \<Rightarrow> nat" where
  "n_elements t =
     max (case try_fold checked_mul 1 (shape t) of None \<Rightarrow> 2 ^ 64 - 1 | Some n \<Rightarrow> n) 1"

definition div_ceil :: "nat \<Rightarrow> nat \<Rightarrow> nat" where
  "div_ceil a b = a div b + (if a mod b > 0 then 1 else 0)"

definition data_size :: "tensor_info \<Rightarrow> nat" where
  "data_size t =
     saturating_mul (div_ceil (n_elements t) (block_elements (dtype t))) (block_size (dtype t))"

subsection \<open>Readers\<close>

definition read_exact :: "nat \<Rightarrow> bytes \<Rightarrow> io_error + (bytes \<times> bytes)" where
  "read_exact n r = (if n \<le> length r then Inr (take n r, drop n r) else Inl UnexpectedEof)"

definition read_u8 :: "bytes \<Rightarrow> io_error + (u8 \<times> bytes)" where
  "read_u8 r = bind_res (read_exact 1 r) (\<lambda>(b, r). Inr (of_nat (le_nat b), r))"

definition read_u16 :: "bytes \<Rightarrow> io_error + (u16 \<times> bytes)" where
  "read_u16 r = bind_res (read_exact 2 r) (\<lambda>(b, r). Inr (of_nat (le_nat b), r))"

definition read_u32 :: "bytes \<Rightarrow> io_error + (u32 \<times> bytes)" where
  "read_u32 r = bind_res (read_exact 4 r) (\<lambda>(b, r). Inr (of_nat (le_nat b), r))"

definition read_u64 :: "bytes \<Rightarrow> io_error + (u64 \<times> bytes)" where
  "read_u64 r = bind_res (read_exact 8 r) (\<lambda>(b, r). Inr (of_nat (le_nat b), r))"

definition read_string :: "bytes \<Rightarrow> io_error + (bytes \<times> bytes)" where
  "read_string r =
     bind_res (read_u64 r) (\<lambda>(raw_len, r).
     if unat raw_len > MAX_GGUF_STRING_BYTES then Inl InvalidData
     else bind_res (read_exact (unat raw_len) r) (\<lambda>(buf, r).
     if utf8_valid buf then Inr (buf, r) else Inl InvalidData))"

definition read_bool :: "bytes \<Rightarrow> io_error + (bool \<times> bytes)" where
  "read_bool r = bind_res (read_u8 r) (\<lambda>(b, r). Inr (b \<noteq> 0, r))"

text \<open>The signed and floating-point readers reinterpret the same bits, so a value keeps the
  word the unsigned reader returns. \<open>io\<close> is the conversion the \<open>?\<close> operator inserts.\<close>

definition io :: "io_error + 'a \<Rightarrow> gguf_error + 'a" where
  "io m = map_err Io m"

definition read_as :: "('w \<Rightarrow> metadata_value) \<Rightarrow> io_error + ('w \<times> bytes)
    \<Rightarrow> gguf_error + (metadata_value \<times> bytes)" where
  "read_as C m = bind_res (io m) (\<lambda>(w, r). Inr (C w, r))"

function read_metadata_value_at_depth ::
    "nat \<Rightarrow> u32 \<Rightarrow> bytes \<Rightarrow> gguf_error + (metadata_value \<times> bytes)" where
  "read_metadata_value_at_depth depth tag r =
     (if tag = 0 then read_as U8 (read_u8 r)
      else if tag = 1 then read_as I8 (read_u8 r)
      else if tag = 2 then read_as U16 (read_u16 r)
      else if tag = 3 then read_as I16 (read_u16 r)
      else if tag = 4 then read_as U32 (read_u32 r)
      else if tag = 5 then read_as I32 (read_u32 r)
      else if tag = 6 then read_as F32 (read_u32 r)
      else if tag = 7 then read_as Bool (read_bool r)
      else if tag = 8 then read_as Str (read_string r)
      else if tag = 10 then read_as U64 (read_u64 r)
      else if tag = 11 then read_as I64 (read_u64 r)
      else if tag = 12 then read_as F64 (read_u64 r)
      else if tag = 9 then
        (if depth \<ge> 32 then Inl (LimitExceeded ''metadata nesting'' (depth + 1) 32)
         else bind_res (io (read_u32 r)) (\<lambda>(elem_type, r).
              bind_res (io (read_u64 r)) (\<lambda>(raw_len, r).
              if unat raw_len > MAX_METADATA_ARRAY_ITEMS
              then Inl (LimitExceeded ''metadata array items'' (unat raw_len)
                     MAX_METADATA_ARRAY_ITEMS)
              else bind_res
                (read_n (unat raw_len) (\<lambda>b. read_metadata_value_at_depth (depth + 1) elem_type b) r)
                (\<lambda>(elems, r). Inr (Array elems, r)))))
      else Inl (UnsupportedMetadataType tag))"
  by pat_completeness auto
termination
  by (relation "measure (\<lambda>(depth, tag, r). 32 - depth)") auto

declare read_metadata_value_at_depth.simps [simp del]

definition read_metadata_value :: "bytes \<Rightarrow> u32 \<Rightarrow> gguf_error + (metadata_value \<times> bytes)" where
  "read_metadata_value r tag = read_metadata_value_at_depth 0 tag r"

subsection \<open>The parser\<close>

definition bounded_count :: "nat \<Rightarrow> nat \<Rightarrow> string \<Rightarrow> gguf_error + nat" where
  "bounded_count raw limit what =
     (if raw > limit then Inl (LimitExceeded what raw limit)
      else if raw > u64_max then Inl (LimitExceeded what raw u64_max)
      else Inr raw)"

text \<open>\<open>stream_position\<close> is \<open>file_end - length r\<close> for the remaining bytes \<open>r\<close>.\<close>

definition ensure_minimum_bytes ::
    "bytes \<Rightarrow> nat \<Rightarrow> nat \<Rightarrow> nat \<Rightarrow> string \<Rightarrow> gguf_error + unit" where
  "ensure_minimum_bytes r file_end count bytes_per_item what =
     (let remaining = saturating_sub file_end (file_end - length r) in
      if count > remaining div bytes_per_item
      then Inl (LimitExceeded what count (remaining div bytes_per_item)) else Inr ())"

definition checked_tensor_size :: "tensor_info \<Rightarrow> gguf_error + nat" where
  "checked_tensor_size t =
     (let overflow = TensorSizeOverflow (tensor_name t) in
      bind_res (ok_or (try_fold checked_mul 1 (shape t)) overflow) (\<lambda>product.
      let elements = max product 1; block_elems = block_elements (dtype t) in
      bind_res (ok_or (map_option (\<lambda>v. v div block_elems) (checked_add elements (block_elems - 1)))
        overflow) (\<lambda>blocks.
      ok_or (checked_mul blocks (block_size (dtype t))) overflow)))"

text \<open>One turn of the metadata loop and one turn of the tensor loop; the loops themselves collect
  the entries read so far, which the duplicate checks consult.\<close>

definition read_entry :: "(bytes \<times> metadata_value) list \<Rightarrow> bytes
    \<Rightarrow> gguf_error + ((bytes \<times> metadata_value) \<times> bytes)" where
  "read_entry m r =
     bind_res (io (read_string r)) (\<lambda>(key, r).
     bind_res (io (read_u32 r)) (\<lambda>(type_tag, r).
     bind_res (read_metadata_value r type_tag) (\<lambda>(value, r).
     if map_of m key \<noteq> None then Inl (DuplicateMetadataKey key) else Inr ((key, value), r))))"

definition read_tensor :: "tensor_info list \<Rightarrow> bytes \<Rightarrow> gguf_error + (tensor_info \<times> bytes)" where
  "read_tensor ts r =
     bind_res (io (read_string r)) (\<lambda>(name, r).
     if name \<in> set (map tensor_name ts) then Inl (DuplicateTensorName name)
     else bind_res (io (read_u32 r)) (\<lambda>(raw_dims, r).
     bind_res (bounded_count (unat raw_dims) MAX_TENSOR_DIMS ''tensor dimensions'') (\<lambda>n_dims.
     bind_res (read_n n_dims (\<lambda>b. io (read_u64 b)) r) (\<lambda>(dims, r).
     bind_res (io (read_u32 r)) (\<lambda>(code, r).
     bind_res (from_u32 code) (\<lambda>ty.
     bind_res (io (read_u64 r)) (\<lambda>(off, r).
     Inr (\<lparr>tensor_name = name, shape = map unat dims, dtype = ty, offset = unat off\<rparr>, r))))))))"

fun collect :: "('a list \<Rightarrow> bytes \<Rightarrow> 'e + ('a \<times> bytes)) \<Rightarrow> nat \<Rightarrow> 'a list \<Rightarrow> bytes
    \<Rightarrow> 'e + ('a list \<times> bytes)" where
  "collect p 0 acc r = Inr (acc, r)"
| "collect p (Suc n) acc r = bind_res (p acc r) (\<lambda>(x, r). collect p n (acc @ [x]) r)"

definition read_metadata :: "nat \<Rightarrow> bytes \<Rightarrow> gguf_error + ((bytes \<times> metadata_value) list \<times> bytes)" where
  "read_metadata n r = collect read_entry n [] r"

definition read_tensors :: "nat \<Rightarrow> bytes \<Rightarrow> gguf_error + (tensor_info list \<times> bytes)" where
  "read_tensors n r = collect read_tensor n [] r"

definition alignment_of :: "(bytes \<times> metadata_value) list \<Rightarrow> nat" where
  "alignment_of m = (case map_of m (str ''general.alignment'') of Some (U32 a) \<Rightarrow> unat a | _ \<Rightarrow> 32)"

definition aligned_data_offset :: "nat \<Rightarrow> nat \<Rightarrow> gguf_error + nat" where
  "aligned_data_offset alignment pos =
     ok_or (map_option (\<lambda>v. v div alignment * alignment) (checked_add pos (alignment - 1)))
       (LimitExceeded ''aligned header offset'' pos (2 ^ 64 - 1 - alignment + 1))"

definition check_tensor_bounds :: "nat \<Rightarrow> nat \<Rightarrow> tensor_info \<Rightarrow> gguf_error + unit" where
  "check_tensor_bounds d_off file_end t =
     bind_res (checked_tensor_size t) (\<lambda>byte_size.
     bind_res (ok_or (Option.bind (checked_add d_off (offset t)) (\<lambda>off. checked_add off byte_size))
       (TensorSizeOverflow (tensor_name t))) (\<lambda>tensor_end.
     if tensor_end > file_end then Inl (TensorOutOfBounds (tensor_name t)) else Inr ()))"

definition gguf_parse :: "bytes \<Rightarrow> nat \<Rightarrow> gguf_error + gguf_file" where
  "gguf_parse file start =
     (let file_end = length file; r = drop start file in
      bind_res (io (read_u32 r)) (\<lambda>(magic, r).
      if magic \<noteq> GGUF_MAGIC then Inl (BadMagic magic) else
      bind_res (io (read_u32 r)) (\<lambda>(ver, r).
      if \<not> (2 \<le> ver \<and> ver \<le> 3) then Inl (UnsupportedVersion ver) else
      bind_res (io (read_u64 r)) (\<lambda>(raw_tensors, r).
      bind_res (io (read_u64 r)) (\<lambda>(raw_metadata, r).
      bind_res (bounded_count (unat raw_tensors) MAX_TENSORS ''tensor entries'') (\<lambda>n_tensors.
      bind_res (bounded_count (unat raw_metadata) MAX_METADATA_ITEMS ''metadata entries'') (\<lambda>n_kv.
      bind_res (ensure_minimum_bytes r file_end (unat raw_metadata) 12 ''metadata entries'') (\<lambda>_.
      bind_res (read_metadata n_kv r) (\<lambda>(m, r).
      bind_res (ensure_minimum_bytes r file_end (unat raw_tensors) 24 ''tensor entries'') (\<lambda>_.
      bind_res (read_tensors n_tensors r) (\<lambda>(ts, r).
      let alignment = alignment_of m in
      if alignment = 0 \<or> \<not> is_power_of_two alignment then Inl (InvalidAlignment alignment) else
      bind_res (aligned_data_offset alignment (file_end - length r)) (\<lambda>d_off.
      bind_res (for_each (check_tensor_bounds d_off file_end) ts) (\<lambda>_.
      Inr \<lparr>version = ver, metadata = m, tensors = ts, data_offset = d_off\<rparr>)))))))))))))"

subsection \<open>Accessors\<close>

definition meta_get :: "gguf_file \<Rightarrow> bytes \<Rightarrow> metadata_value option" where
  "meta_get g key = map_of (metadata g) key"

definition meta_str :: "gguf_file \<Rightarrow> bytes \<Rightarrow> bytes option" where
  "meta_str g key = (case meta_get g key of Some (Str s) \<Rightarrow> Some s | _ \<Rightarrow> None)"

definition meta_u32 :: "gguf_file \<Rightarrow> bytes \<Rightarrow> u32 option" where
  "meta_u32 g key = (case meta_get g key of Some (U32 v) \<Rightarrow> Some v | _ \<Rightarrow> None)"

definition meta_u64 :: "gguf_file \<Rightarrow> bytes \<Rightarrow> u64 option" where
  "meta_u64 g key = (case meta_get g key of Some (U64 v) \<Rightarrow> Some v | _ \<Rightarrow> None)"

definition meta_bool :: "gguf_file \<Rightarrow> bytes \<Rightarrow> bool option" where
  "meta_bool g key = (case meta_get g key of Some (Bool v) \<Rightarrow> Some v | _ \<Rightarrow> None)"

definition meta_f32 :: "gguf_file \<Rightarrow> bytes \<Rightarrow> u32 option" where
  "meta_f32 g key = (case meta_get g key of Some (F32 v) \<Rightarrow> Some v | _ \<Rightarrow> None)"

text \<open>\<open>iter().filter_map(f).collect()\<close>, and the \<open>(!vals.is_empty()).then_some(vals)\<close> idiom.\<close>

definition nonempty_array :: "(metadata_value \<Rightarrow> 'a option) \<Rightarrow> metadata_value option \<Rightarrow> 'a list option" where
  "nonempty_array f v =
     (case v of Some (Array arr) \<Rightarrow>
        (let vals = List.map_filter f arr in if vals = [] then None else Some vals)
      | _ \<Rightarrow> None)"

fun as_u32 :: "metadata_value \<Rightarrow> u32 option" where
  "as_u32 (U32 n) = Some n"
| "as_u32 (I32 n) = Some n"
| "as_u32 _ = None"

fun as_bool :: "metadata_value \<Rightarrow> bool option" where
  "as_bool (Bool b) = Some b"
| "as_bool (U8 n) = Some (n \<noteq> 0)"
| "as_bool (U32 n) = Some (n \<noteq> 0)"
| "as_bool (I32 n) = Some (n \<noteq> 0)"
| "as_bool _ = None"

fun as_f32 :: "metadata_value \<Rightarrow> u32 option" where
  "as_f32 (F32 v) = Some v"
| "as_f32 _ = None"

fun as_str :: "metadata_value \<Rightarrow> bytes option" where
  "as_str (Str s) = Some s"
| "as_str _ = None"

definition meta_u32_array :: "gguf_file \<Rightarrow> bytes \<Rightarrow> u32 list option" where
  "meta_u32_array g key = nonempty_array as_u32 (meta_get g key)"

definition meta_bool_array :: "gguf_file \<Rightarrow> bytes \<Rightarrow> bool list option" where
  "meta_bool_array g key = nonempty_array as_bool (meta_get g key)"

definition meta_f32_array :: "gguf_file \<Rightarrow> bytes \<Rightarrow> u32 list option" where
  "meta_f32_array g key = nonempty_array as_f32 (meta_get g key)"

definition meta_array_len :: "gguf_file \<Rightarrow> bytes \<Rightarrow> nat option" where
  "meta_array_len g key = (case meta_get g key of Some (Array vs) \<Rightarrow> Some (length vs) | _ \<Rightarrow> None)"

definition array_or_empty :: "(metadata_value \<Rightarrow> 'a option) \<Rightarrow> metadata_value option \<Rightarrow> 'a list" where
  "array_or_empty f v = (case v of Some (Array arr) \<Rightarrow> List.map_filter f arr | _ \<Rightarrow> [])"

definition token_types :: "gguf_file \<Rightarrow> u32 list" where
  "token_types g = array_or_empty as_u32 (meta_get g (str ''tokenizer.ggml.token_type''))"

definition vocab :: "gguf_file \<Rightarrow> bytes list" where
  "vocab g = array_or_empty as_str (meta_get g (str ''tokenizer.ggml.tokens''))"

text \<open>\<open>splitn(2, ' ')\<close>: the part before the first space and, if there is one, the rest.\<close>

definition split_space :: "bytes \<Rightarrow> (bytes \<times> bytes) option" where
  "split_space s =
     (let a = takeWhile (\<lambda>b. b \<noteq> 32) s in
      if length a < length s then Some (a, drop (length a + 1) s) else None)"

definition merges :: "gguf_file \<Rightarrow> (bytes \<times> bytes) list" where
  "merges g =
     array_or_empty (\<lambda>v. Option.bind (as_str v) split_space)
       (meta_get g (str ''tokenizer.ggml.merges''))"

definition chat_template :: "gguf_file \<Rightarrow> bytes option" where
  "chat_template g = meta_str g (str ''tokenizer.chat_template'')"

definition find_tensor :: "gguf_file \<Rightarrow> bytes \<Rightarrow> tensor_info option" where
  "find_tensor g name = find (\<lambda>t. tensor_name t = name) (tensors g)"

text \<open>The source adds two \<open>u64\<close>; release builds wrap, and the parser has checked that the sum
  does not (\<open>check_tensor_bounds\<close>).\<close>

definition tensor_file_offset :: "gguf_file \<Rightarrow> tensor_info \<Rightarrow> nat" where
  "tensor_file_offset g t = (data_offset g + offset t) mod 2 ^ 64"

definition hash_len_bytes :: "bytes \<Rightarrow> bytes" where
  "hash_len_bytes b = le_bytes 8 (length b) @ b"

fun hash_metadata_value :: "metadata_value \<Rightarrow> bytes" where
  "hash_metadata_value (U8 v) = 0 # le_bytes 1 (unat v)"
| "hash_metadata_value (I8 v) = 1 # le_bytes 1 (unat v)"
| "hash_metadata_value (U16 v) = 2 # le_bytes 2 (unat v)"
| "hash_metadata_value (I16 v) = 3 # le_bytes 2 (unat v)"
| "hash_metadata_value (U32 v) = 4 # le_bytes 4 (unat v)"
| "hash_metadata_value (I32 v) = 5 # le_bytes 4 (unat v)"
| "hash_metadata_value (U64 v) = 6 # le_bytes 8 (unat v)"
| "hash_metadata_value (I64 v) = 7 # le_bytes 8 (unat v)"
| "hash_metadata_value (F32 v) = 8 # le_bytes 4 (unat v)"
| "hash_metadata_value (F64 v) = 9 # le_bytes 8 (unat v)"
| "hash_metadata_value (Bool v) = [10, if v then 1 else 0]"
| "hash_metadata_value (Str v) = 11 # hash_len_bytes v"
| "hash_metadata_value (Array vs) =
     12 # le_bytes 8 (length vs) @ concat (map hash_metadata_value vs)"

definition is_tokenizer_key :: "bytes \<Rightarrow> bool" where
  "is_tokenizer_key key \<longleftrightarrow>
     take (length (str ''tokenizer.'')) key = str ''tokenizer.''
     \<and> key \<noteq> str ''tokenizer.chat_template''"

text \<open>What is fed to the hasher, in order; successive \<open>update\<close> calls hash the concatenation.\<close>

definition tokenizer_metadata_preimage :: "gguf_file \<Rightarrow> bytes" where
  "tokenizer_metadata_preimage g =
     str ''muser.gguf-tokenizer-metadata.v1'' @ [0] @
     concat (map (\<lambda>key. hash_len_bytes key @ hash_metadata_value (the (map_of (metadata g) key)))
       (sort (filter is_tokenizer_key (map fst (metadata g)))))"

definition tokenizer_metadata_sha256 :: "(bytes \<Rightarrow> bytes) \<Rightarrow> gguf_file \<Rightarrow> bytes" where
  "tokenizer_metadata_sha256 sha256 g = sha256 (tokenizer_metadata_preimage g)"

definition chat_template_sha256 :: "(bytes \<Rightarrow> bytes) \<Rightarrow> gguf_file \<Rightarrow> bytes option" where
  "chat_template_sha256 sha256 g = map_option sha256 (chat_template g)"

subsection \<open>The format the parser reads, and well-formed files\<close>

fun value_tag :: "metadata_value \<Rightarrow> u32" where
  "value_tag (U8 _) = 0" | "value_tag (I8 _) = 1" | "value_tag (U16 _) = 2"
| "value_tag (I16 _) = 3" | "value_tag (U32 _) = 4" | "value_tag (I32 _) = 5"
| "value_tag (F32 _) = 6" | "value_tag (Bool _) = 7" | "value_tag (Str _) = 8"
| "value_tag (Array _) = 9" | "value_tag (U64 _) = 10" | "value_tag (I64 _) = 11"
| "value_tag (F64 _) = 12"

definition enc_string :: "bytes \<Rightarrow> bytes" where
  "enc_string s = le_bytes 8 (length s) @ s"

definition elem_tag :: "metadata_value list \<Rightarrow> u32" where
  "elem_tag vs = (case vs of [] \<Rightarrow> 0 | v # _ \<Rightarrow> value_tag v)"

fun enc_value :: "metadata_value \<Rightarrow> bytes" where
  "enc_value (U8 v) = le_bytes 1 (unat v)"
| "enc_value (I8 v) = le_bytes 1 (unat v)"
| "enc_value (U16 v) = le_bytes 2 (unat v)"
| "enc_value (I16 v) = le_bytes 2 (unat v)"
| "enc_value (U32 v) = le_bytes 4 (unat v)"
| "enc_value (I32 v) = le_bytes 4 (unat v)"
| "enc_value (F32 v) = le_bytes 4 (unat v)"
| "enc_value (U64 v) = le_bytes 8 (unat v)"
| "enc_value (I64 v) = le_bytes 8 (unat v)"
| "enc_value (F64 v) = le_bytes 8 (unat v)"
| "enc_value (Bool v) = [if v then 1 else 0]"
| "enc_value (Str s) = enc_string s"
| "enc_value (Array vs) =
     le_bytes 4 (unat (elem_tag vs)) @ le_bytes 8 (length vs) @ concat (map enc_value vs)"

definition wf_string :: "bytes \<Rightarrow> bool" where
  "wf_string s \<longleftrightarrow> utf8_valid s \<and> length s \<le> MAX_GGUF_STRING_BYTES"

text \<open>A value a reader at nesting depth \<open>d\<close> accepts: arrays are homogeneous and bounded.\<close>

fun wf_value :: "nat \<Rightarrow> metadata_value \<Rightarrow> bool" where
  "wf_value d (Str s) = wf_string s"
| "wf_value d (Array vs) =
     (d < 32 \<and> length vs \<le> MAX_METADATA_ARRAY_ITEMS
      \<and> (\<forall>v\<in>set vs. value_tag v = elem_tag vs \<and> wf_value (d + 1) v))"
| "wf_value d _ = True"

fun nesting :: "metadata_value \<Rightarrow> nat" where
  "nesting (Array vs) = Suc (fold max (map nesting vs) 0)"
| "nesting _ = 0"

definition enc_entry :: "bytes \<times> metadata_value \<Rightarrow> bytes" where
  "enc_entry kv = enc_string (fst kv) @ le_bytes 4 (unat (value_tag (snd kv))) @ enc_value (snd kv)"

definition enc_tensor :: "tensor_info \<Rightarrow> bytes" where
  "enc_tensor t = enc_string (tensor_name t) @ le_bytes 4 (length (shape t))
     @ concat (map (le_bytes 8) (shape t)) @ le_bytes 4 (unat (ggml_code (dtype t)))
     @ le_bytes 8 (offset t)"

definition enc_header :: "gguf_file \<Rightarrow> bytes" where
  "enc_header g = le_bytes 4 (unat GGUF_MAGIC) @ le_bytes 4 (unat (version g))
     @ le_bytes 8 (length (tensors g)) @ le_bytes 8 (length (metadata g))
     @ concat (map enc_entry (metadata g)) @ concat (map enc_tensor (tensors g))"

definition wf_tensor :: "tensor_info \<Rightarrow> bool" where
  "wf_tensor t \<longleftrightarrow> wf_string (tensor_name t) \<and> length (shape t) \<le> MAX_TENSOR_DIMS
     \<and> (\<forall>d\<in>set (shape t). d < 2 ^ 64) \<and> offset t < 2 ^ 64"

definition wf_entries :: "(bytes \<times> metadata_value) list \<Rightarrow> bool" where
  "wf_entries m \<longleftrightarrow> distinct (map fst m) \<and> (\<forall>kv\<in>set m. wf_string (fst kv) \<and> wf_value 0 (snd kv))"

definition wf_tensors :: "tensor_info list \<Rightarrow> bool" where
  "wf_tensors ts \<longleftrightarrow> distinct (map tensor_name ts) \<and> (\<forall>t\<in>set ts. wf_tensor t)"

text \<open>What does not depend on the file's bytes, and where the tensor data lies in the file.\<close>

definition wf_gguf :: "gguf_file \<Rightarrow> bool" where
  "wf_gguf g \<longleftrightarrow> (version g = 2 \<or> version g = 3)
     \<and> length (metadata g) \<le> MAX_METADATA_ITEMS \<and> length (tensors g) \<le> MAX_TENSORS
     \<and> wf_entries (metadata g) \<and> wf_tensors (tensors g)
     \<and> is_power_of_two (alignment_of (metadata g))"

definition tensor_bytes :: "tensor_info \<Rightarrow> nat" where
  "tensor_bytes t =
     (max (prod_list (shape t)) 1 + (block_elements (dtype t) - 1)) div block_elements (dtype t)
     * block_size (dtype t)"

definition tensors_inside :: "gguf_file \<Rightarrow> nat \<Rightarrow> bool" where
  "tensors_inside g file_end \<longleftrightarrow>
     (\<forall>t\<in>set (tensors g). data_offset g + offset t + tensor_bytes t \<le> file_end)"

text \<open>A tensor whose size the parser computes without overflow.\<close>

definition representable :: "tensor_info \<Rightarrow> bool" where
  "representable t \<longleftrightarrow> (\<forall>k\<le>length (shape t). prod_list (take k (shape t)) < 2 ^ 64)
     \<and> prod_list (shape t) + 256 < 2 ^ 64 \<and> tensor_bytes t < 2 ^ 64"

text \<open>The entries the tokenizer hash covers, in its order, and the bytes of one of them.\<close>

fun sized :: "metadata_value \<Rightarrow> bool" where
  "sized (Str s) = (length s < 2 ^ 64)"
| "sized (Array vs) = (length vs < 2 ^ 64 \<and> (\<forall>v\<in>set vs. sized v))"
| "sized _ = True"

definition tokenizer_entries :: "gguf_file \<Rightarrow> (bytes \<times> metadata_value) list" where
  "tokenizer_entries g = map (\<lambda>k. (k, the (map_of (metadata g) k)))
     (sort (filter is_tokenizer_key (map fst (metadata g))))"

definition hash_entry :: "bytes \<times> metadata_value \<Rightarrow> bytes" where
  "hash_entry kv = hash_len_bytes (fst kv) @ hash_metadata_value (snd kv)"

subsection \<open>Reader lemmas\<close>

lemma read_exact_append [simp]: "length b = n \<Longrightarrow> read_exact n (b @ r) = Inr (b, r)"
  by (auto simp: read_exact_def)

lemma read_exact_Inr_iff:
  "read_exact n r = Inr (b, r') \<longleftrightarrow> n \<le> length r \<and> b = take n r \<and> r' = drop n r"
  by (auto simp: read_exact_def)

lemmas read_defs = read_u8_def read_u16_def read_u32_def read_u64_def

interpretation u8_codec: codec "\<lambda>w. le_bytes 1 (unat w)" read_u8 "\<lambda>_. True"
  by unfold_locales (simp add: read_defs le_word_roundtrip del: One_nat_def)

interpretation u16_codec: codec "\<lambda>w. le_bytes 2 (unat w)" read_u16 "\<lambda>_. True"
  by unfold_locales (simp add: read_defs le_word_roundtrip)

interpretation u32_codec: codec "\<lambda>w. le_bytes 4 (unat w)" read_u32 "\<lambda>_. True"
  by unfold_locales (simp add: read_defs le_word_roundtrip)

interpretation u64_codec: codec "\<lambda>w. le_bytes 8 (unat w)" read_u64 "\<lambda>_. True"
  by unfold_locales (simp add: read_defs le_word_roundtrip)

lemma unat_of_nat_u64: "n < 2 ^ 64 \<Longrightarrow> unat (of_nat n :: u64) = n"
  by (simp add: unat_of_nat)

lemma unat_of_nat_u32: "n < 2 ^ 32 \<Longrightarrow> unat (of_nat n :: u32) = n"
  by (simp add: unat_of_nat)

lemma read_u64_nat: "n < 2 ^ 64 \<Longrightarrow> read_u64 (le_bytes 8 n @ r) = Inr (of_nat n, r)"
  using u64_codec.dec_enc [of "of_nat n" r] by (simp add: unat_of_nat_u64)

lemma read_u32_nat: "n < 2 ^ 32 \<Longrightarrow> read_u32 (le_bytes 4 n @ r) = Inr (of_nat n, r)"
  using u32_codec.dec_enc [of "of_nat n" r] by (simp add: unat_of_nat_u32)

lemma read_string_enc: "wf_string s \<Longrightarrow> read_string (enc_string s @ r) = Inr (s, r)"
  by (simp add: read_string_def enc_string_def wf_string_def gguf_limits read_u64_nat unat_of_nat_u64)

interpretation string_codec: codec enc_string read_string wf_string
  by unfold_locales (rule read_string_enc)

lemma io_simps [simp]: "io (Inr x) = Inr x" "io (Inl e) = Inl (Io e)"
  by (simp_all add: io_def)

lemma io_Inr_iff: "io m = Inr x \<longleftrightarrow> m = Inr x"
  by (simp add: io_def map_err_Inr_iff)

lemma read_string_Inr_wf: "read_string b = Inr (s, r) \<Longrightarrow> wf_string s"
  by (auto simp: read_string_def wf_string_def bind_res_Inr_iff read_exact_Inr_iff split: if_splits)

subsection \<open>Metadata values\<close>

lemma read_metadata_value_enc:
  "wf_value d v \<Longrightarrow> read_metadata_value_at_depth d (value_tag v) (enc_value v @ r) = Inr (v, r)"
proof (induction v arbitrary: d r)
  case (Array vs)
  have elems: "read_n (length vs) (read_metadata_value_at_depth (d + 1) (elem_tag vs))
      (concat (map enc_value vs) @ r) = Inr (vs, r)"
    by (rule read_n_roundtrip) (use Array in force)
  from Array.prems have "length vs < 2 ^ 64" by (simp add: gguf_limits)
  with Array.prems elems show ?case
    by (subst read_metadata_value_at_depth.simps)
      (simp add: u32_codec.dec_enc read_u64_nat unat_of_nat_u64)
qed (simp_all add: read_metadata_value_at_depth.simps read_as_def read_bool_def
      u8_codec.dec_enc u16_codec.dec_enc u32_codec.dec_enc u64_codec.dec_enc
      string_codec.dec_enc del: One_nat_def,
    auto simp: read_defs read_exact_def)

lemma read_as_Inr_iff: "read_as C m = Inr (v, r) \<longleftrightarrow> (\<exists>w. m = Inr (w, r) \<and> v = C w)"
  by (auto simp: read_as_def bind_res_Inr_iff io_Inr_iff)

text \<open>What the reader accepts is well formed at its depth, and nested at most 32 deep.\<close>

lemma fold_max_le: "(\<forall>x\<in>set xs. x \<le> (m::nat)) \<Longrightarrow> a \<le> m \<Longrightarrow> fold max xs a \<le> m"
  by (induction xs arbitrary: a) auto

lemma wf_value_nesting: "wf_value d v \<Longrightarrow> nesting v \<le> 32 - d"
proof (induction v arbitrary: d)
  case (Array vs)
  have "\<forall>x\<in>set (map nesting vs). x \<le> 32 - (d + 1)"
    using Array.IH [of _ "d + 1"] Array.prems by auto
  then have "fold max (map nesting vs) 0 \<le> 32 - (d + 1)" by (rule fold_max_le) simp
  moreover from Array.prems have "d < 32" by simp
  ultimately show ?case by simp
qed simp_all

lemma read_metadata_array:
  "read_metadata_value_at_depth depth 9 r =
     (if depth \<ge> 32 then Inl (LimitExceeded ''metadata nesting'' (depth + 1) 32)
      else bind_res (io (read_u32 r)) (\<lambda>(elem_type, r).
           bind_res (io (read_u64 r)) (\<lambda>(raw_len, r).
           if unat raw_len > MAX_METADATA_ARRAY_ITEMS
           then Inl (LimitExceeded ''metadata array items'' (unat raw_len) MAX_METADATA_ARRAY_ITEMS)
           else bind_res
             (read_n (unat raw_len) (read_metadata_value_at_depth (depth + 1) elem_type) r)
             (\<lambda>(elems, r). Inr (Array elems, r)))))"
  by (subst read_metadata_value_at_depth.simps) simp

lemma read_metadata_value_wf:
  "read_metadata_value_at_depth d tag b = Inr (v, r) \<Longrightarrow> wf_value d v \<and> value_tag v = tag"
proof (induction "32 - d" arbitrary: d tag b v r rule: less_induct)
  case less
  show ?case
  proof (cases "tag = 9")
    case False
    with less.prems show ?thesis
      by (subst (asm) read_metadata_value_at_depth.simps)
        (auto simp: read_as_Inr_iff dest: read_string_Inr_wf split: if_splits)
  next
    case True
    have array: "wf_value d (Array vs)"
      if "d < 32" "n \<le> MAX_METADATA_ARRAY_ITEMS"
        and vs: "read_n n (read_metadata_value_at_depth (Suc d) et) r2 = Inr (vs, r1)" for n et r2 vs r1
    proof -
      have "\<forall>x\<in>set vs. wf_value (d + 1) x \<and> value_tag x = et"
        by (rule read_n_all [OF vs]) (use less.hyps [of "Suc d"] that in auto)
      moreover from this have "\<forall>x\<in>set vs. value_tag x = elem_tag vs"
        by (cases vs) (auto simp: elem_tag_def)
      ultimately show ?thesis using that read_n_length [OF vs] by simp
    qed
    from less.prems True show ?thesis
      by (auto simp: read_metadata_array bind_res_Inr_iff not_le not_less split: if_splits intro: array
          simp del: wf_value.simps)
  qed
qed

subsection \<open>Entries and tensors\<close>

lemma collect_roundtrip:
  assumes "\<And>acc x r. Q (acc @ [x]) \<Longrightarrow> p acc (enc x @ r) = Inr (x, r)"
    and prefix: "\<And>acc x. Q (acc @ [x]) \<Longrightarrow> Q acc"
  shows "Q (acc @ xs) \<Longrightarrow> collect p (length xs) acc (concat (map enc xs) @ r) = Inr (acc @ xs, r)"
proof (induction xs arbitrary: acc)
  case (Cons x xs)
  have "Q (acc @ [x])"
    using Cons.prems
  proof (induction xs rule: rev_induct)
    case (snoc y ys)
    then have "Q ((acc @ x # ys) @ [y])" by simp
    then have "Q (acc @ x # ys)" by (rule prefix)
    then show ?case by (rule snoc.IH)
  qed simp
  then have "p acc (enc x @ concat (map enc xs) @ r) = Inr (x, concat (map enc xs) @ r)"
    by (rule assms(1))
  with Cons show ?case by simp
qed simp

lemma collect_sound:
  assumes "\<And>acc r x r'. p acc r = Inr (x, r') \<Longrightarrow> Q acc \<Longrightarrow> Q (acc @ [x])"
  shows "collect p n acc r = Inr (xs, r') \<Longrightarrow> Q acc \<Longrightarrow> Q xs \<and> length xs = length acc + n"
proof (induction n arbitrary: acc r)
  case (Suc n)
  from Suc.prems obtain x r1 where x: "p acc r = Inr (x, r1)"
    and rest: "collect p n (acc @ [x]) r1 = Inr (xs, r')"
    by (auto simp: bind_res_Inr_iff)
  from assms [OF x Suc.prems(2)] Suc.IH [OF rest] show ?case by simp
qed simp

lemma read_entry_enc: "wf_entries (m @ [kv]) \<Longrightarrow> read_entry m (enc_entry kv @ r) = Inr (kv, r)"
proof (cases kv)
  case (Pair k v)
  assume wf: "wf_entries (m @ [kv])"
  with Pair have "map_of m k = None" by (simp add: wf_entries_def map_of_eq_None_iff)
  moreover from wf Pair have "wf_string k" "wf_value 0 v" by (auto simp: wf_entries_def)
  ultimately show ?thesis using Pair
    by (simp add: read_entry_def enc_entry_def string_codec.dec_enc u32_codec.dec_enc
        read_metadata_value_def read_metadata_value_enc)
qed

lemma read_entry_sound: "read_entry m r = Inr (kv, r') \<Longrightarrow> wf_entries m \<Longrightarrow> wf_entries (m @ [kv])"
  by (auto simp: read_entry_def wf_entries_def bind_res_Inr_iff io_Inr_iff read_metadata_value_def
      image_iff dest!: read_string_Inr_wf read_metadata_value_wf split: if_splits)

lemma read_metadata_enc:
  "wf_entries m \<Longrightarrow> read_metadata (length m) (concat (map enc_entry m) @ r) = Inr (m, r)"
  using collect_roundtrip [of wf_entries read_entry enc_entry "[]" m r] read_entry_enc
  by (auto simp: read_metadata_def) (auto simp: wf_entries_def)

lemma read_metadata_sound: "read_metadata n r = Inr (m, r') \<Longrightarrow> wf_entries m \<and> length m = n"
  using collect_sound [of read_entry wf_entries n "[]" r m r'] read_entry_sound
  by (auto simp: read_metadata_def) (auto simp: wf_entries_def)

lemma from_u32_code: "from_u32 (ggml_code t) = Inr t"
  by (cases t) (simp_all add: from_u32_def)

lemma read_dims_enc:
  "\<forall>d\<in>set ds. d < 2 ^ 64 \<Longrightarrow>
   read_n (length ds) (\<lambda>b. io (read_u64 b)) (concat (map (le_bytes 8) ds) @ r)
     = Inr (map of_nat ds, r)"
  by (induction ds) (simp_all add: read_u64_nat)

lemma map_unat_of_nat: "\<forall>d\<in>set ds. d < 2 ^ 64 \<Longrightarrow> map (unat \<circ> (of_nat :: nat \<Rightarrow> u64)) ds = ds"
  by (induction ds) (simp_all add: unat_of_nat_u64)

lemma bounded_count_Inr_iff:
  "bounded_count raw limit what = Inr n \<longleftrightarrow> n = raw \<and> raw \<le> limit \<and> raw \<le> u64_max"
  by (auto simp: bounded_count_def)

lemma u64_lt: "unat w < 18446744073709551616" for w :: u64
  using unsigned_less [of w] by simp

lemma read_tensor_enc: "wf_tensors (ts @ [u]) \<Longrightarrow> read_tensor ts (enc_tensor u @ r) = Inr (u, r)"
proof (cases u)
  case (fields nm sh ty off)
  assume "wf_tensors (ts @ [u])"
  with fields have wf: "wf_string nm" "length sh \<le> 32" "\<forall>d\<in>set sh. d < 2 ^ 64" "off < 2 ^ 64"
    "nm \<notin> tensor_name ` set ts"
    by (auto simp: wf_tensors_def wf_tensor_def gguf_limits)
  moreover from wf(2) have "unat (of_nat (length sh) :: u32) = length sh"
    by (intro unat_of_nat_u32) simp
  ultimately show ?thesis using fields
    by (simp add: read_tensor_def enc_tensor_def string_codec.dec_enc u32_codec.dec_enc read_u32_nat
        read_u64_nat bounded_count_def u64_max_def gguf_limits read_dims_enc from_u32_code
        map_unat_of_nat unat_of_nat_u64)
qed

lemma read_tensor_sound: "read_tensor ts r = Inr (t, r') \<Longrightarrow> wf_tensors ts \<Longrightarrow> wf_tensors (ts @ [t])"
  by (auto simp: read_tensor_def wf_tensors_def wf_tensor_def bind_res_Inr_iff io_Inr_iff
      bounded_count_Inr_iff u64_lt image_iff dest!: read_string_Inr_wf read_n_length
      split: if_splits)

lemma read_tensors_enc:
  "wf_tensors ts \<Longrightarrow> read_tensors (length ts) (concat (map enc_tensor ts) @ r) = Inr (ts, r)"
  using collect_roundtrip [of wf_tensors read_tensor enc_tensor "[]" ts r] read_tensor_enc
  by (auto simp: read_tensors_def) (auto simp: wf_tensors_def)

lemma read_tensors_sound: "read_tensors n r = Inr (ts, r') \<Longrightarrow> wf_tensors ts \<and> length ts = n"
  using collect_sound [of read_tensor wf_tensors n "[]" r ts r'] read_tensor_sound
  by (auto simp: read_tensors_def) (auto simp: wf_tensors_def)

subsection \<open>Tensor sizes\<close>

lemma try_fold_checked_mul_Some:
  "\<forall>k\<le>length xs. p * prod_list (take k xs) < 2 ^ 64 \<Longrightarrow>
   try_fold checked_mul p xs = Some (p * prod_list xs)"
proof (induction xs arbitrary: p)
  case (Cons x xs)
  have "(p * x) * prod_list (take k xs) < 2 ^ 64" if "k \<le> length xs" for k
    using Cons.prems [rule_format, of "Suc k"] that by (simp add: mult.assoc)
  moreover have "p * x < 2 ^ 64"
    using Cons.prems [rule_format, of 1] by simp
  ultimately show ?case using Cons.IH [of "p * x"] by (simp add: arith_defs mult.assoc)
qed simp

lemma block_elements_bounds: "0 < block_elements t \<and> block_elements t \<le> 256"
  by (simp add: block_elements_def)

lemma checked_tensor_size_Inr:
  "checked_tensor_size t = Inr n \<Longrightarrow> n = tensor_bytes t \<and> n < 2 ^ 64
   \<and> try_fold checked_mul 1 (shape t) = Some (prod_list (shape t))"
  by (auto simp: checked_tensor_size_def tensor_bytes_def Let_def res_iffs checked_iffs
      dest: try_fold_checked_mul [of 1, simplified])

lemma checked_tensor_size_representable:
  assumes "representable t"
  shows "checked_tensor_size t = Inr (tensor_bytes t)"
proof -
  from assms have "try_fold checked_mul 1 (shape t) = Some (prod_list (shape t))"
    using try_fold_checked_mul_Some [of "shape t" 1] by (simp add: representable_def)
  moreover have "max (prod_list (shape t)) 1 + (block_elements (dtype t) - 1) < 2 ^ 64"
    using assms block_elements_bounds [of "dtype t"]
    by (cases "prod_list (shape t) = 0") (auto simp: representable_def max_def)
  ultimately show ?thesis using assms
    by (simp add: checked_tensor_size_def Let_def arith_defs tensor_bytes_def representable_def)
qed

lemma div_ceil_eq: "0 < b \<Longrightarrow> div_ceil a b = (a + (b - 1)) div b"
proof -
  assume b: "0 < b"
  have "a + (b - 1) = (a mod b + (b - 1)) + b * (a div b)" by simp
  then have "(a + (b - 1)) div b = a div b + (a mod b + (b - 1)) div b"
    using b by (metis div_mult_self2 less_numeral_extra(3) add.commute)
  also have "(a mod b + (b - 1)) div b = (if a mod b > 0 then 1 else 0)"
  proof (cases "a mod b = 0")
    case False
    have "a mod b < b" using b by simp
    with False have "a mod b + (b - 1) = b + (a mod b - 1)" "(a mod b - 1) div b = 0" by simp_all
    moreover have "(b + (a mod b - 1)) div b = Suc ((a mod b - 1) div b)"
      using b by (subst div_add_self1) auto
    ultimately show ?thesis using False by simp
  qed (use b in simp)
  finally show ?thesis by (simp add: div_ceil_def)
qed

lemma data_size_checked: "checked_tensor_size t = Inr n \<Longrightarrow> data_size t = n"
  using checked_tensor_size_Inr [of t n] block_elements_bounds [of "dtype t"]
  by (simp add: data_size_def n_elements_def div_ceil_eq saturating_mul_def tensor_bytes_def)

subsection \<open>The whole parser\<close>

lemma check_tensor_bounds_Inr_iff:
  "check_tensor_bounds d file_end t = Inr u \<longleftrightarrow>
   (\<exists>n. checked_tensor_size t = Inr n \<and> d + offset t + n < 2 ^ 64 \<and> d + offset t + n \<le> file_end)"
  by (fastforce simp: check_tensor_bounds_def res_iffs checked_iffs bind_eq_Some_conv not_less
      split: if_splits)

lemma aligned_data_offset_Inr_iff:
  "aligned_data_offset a pos = Inr d \<longleftrightarrow> pos + (a - 1) < 2 ^ 64 \<and> d = (pos + (a - 1)) div a * a"
  by (auto simp: aligned_data_offset_def res_iffs checked_iffs)

lemma gguf_version_iff: "(2 \<le> v \<and> v \<le> 3) \<longleftrightarrow> v = 2 \<or> v = 3" for v :: u32
proof
  assume "2 \<le> v \<and> v \<le> 3"
  then have "2 \<le> unat v" "unat v \<le> 3" by (simp_all add: word_le_nat_alt)
  then have "unat v = unat (2::u32) \<or> unat v = unat (3::u32)" by auto
  then show "v = 2 \<or> v = 3" by (simp only: word_unat_eq_iff)
qed auto

lemma gguf_parse_Inr:
  assumes "gguf_parse file start = Inr g"
  shows "wf_gguf g \<and> (\<exists>pos. aligned_data_offset (alignment_of (metadata g)) pos = Inr (data_offset g))
    \<and> (\<forall>t\<in>set (tensors g). check_tensor_bounds (data_offset g) (length file) t = Inr ())"
  using assms
  by (auto simp: gguf_parse_def Let_def res_iffs io_Inr_iff bounded_count_Inr_iff wf_gguf_def
      gguf_version_iff for_each_Inr_iff dest!: read_metadata_sound read_tensors_sound
      split: if_splits)

lemma length_enc_entry: "12 \<le> length (enc_entry kv)"
  by (simp add: enc_entry_def enc_string_def)

lemma length_enc_tensor: "24 \<le> length (enc_tensor t)"
  by (simp add: enc_tensor_def enc_string_def)

lemma length_concat_ge: "(\<And>x. c \<le> length (f x)) \<Longrightarrow> c * length xs \<le> length (concat (map f xs))"
  by (induction xs) (auto simp: add_mono)

lemma ensure_minimum_bytes_ok:
  "length r \<le> file_end \<Longrightarrow> 0 < c \<Longrightarrow> c * n \<le> length r \<Longrightarrow> ensure_minimum_bytes r file_end n c what = Inr ()"
  by (simp add: ensure_minimum_bytes_def saturating_sub_def Let_def not_less less_eq_div_iff_mult_less_eq
      mult.commute)

lemma gguf_parse_enc:
  assumes wf: "wf_gguf g"
    and off: "data_offset g = (length (enc_header g) + (alignment_of (metadata g) - 1))
      div alignment_of (metadata g) * alignment_of (metadata g)"
    and size: "length (enc_header g @ tail) + alignment_of (metadata g) \<le> 2 ^ 64"
    and rep: "\<forall>t\<in>set (tensors g). representable t"
    and inside: "tensors_inside g (length (enc_header g @ tail))"
  shows "gguf_parse (enc_header g @ tail) 0 = Inr g"
proof -
  let ?m = "metadata g" and ?ts = "tensors g"
  let ?kvs = "concat (map enc_entry ?m)" and ?tns = "concat (map enc_tensor ?ts)"
  from wf have lens: "length ?m \<le> 100000" "length ?ts \<le> 1000000"
    and we: "wf_entries ?m" and wt: "wf_tensors ?ts"
    and pow: "is_power_of_two (alignment_of ?m)" and ver: "2 \<le> version g \<and> version g \<le> 3"
    by (auto simp: wf_gguf_def gguf_limits gguf_version_iff)
  from lens have un: "unat (of_nat (length ?m) :: u64) = length ?m"
    "unat (of_nat (length ?ts) :: u64) = length ?ts"
    by (simp_all add: unat_of_nat_u64)
  have "12 * length ?m \<le> length ?kvs" "24 * length ?ts \<le> length ?tns"
    by (rule length_concat_ge, rule length_enc_entry) (rule length_concat_ge, rule length_enc_tensor)
  moreover have "for_each (check_tensor_bounds (data_offset g) (length (enc_header g @ tail))) ?ts = Inr ()"
    using rep inside size is_power_of_two_pos [OF pow]
    by (fastforce simp: for_each_Inr_iff check_tensor_bounds_Inr_iff checked_tensor_size_representable
        tensors_inside_def)
  moreover have "aligned_data_offset (alignment_of ?m) (length (enc_header g)) = Inr (data_offset g)"
    using off size is_power_of_two_pos [OF pow] by (simp add: aligned_data_offset_Inr_iff)
  ultimately show ?thesis
    using lens un ver pow is_power_of_two_pos [OF pow]
    by (simp add: gguf_parse_def enc_header_def u32_codec.dec_enc read_u64_nat bounded_count_def
        gguf_limits u64_max_def ensure_minimum_bytes_ok read_metadata_enc [OF we]
        read_tensors_enc [OF wt])
qed

subsection \<open>The tokenizer hash preimage\<close>

lemma le_word_append_iff:
  fixes a b :: "'a::len word"
  assumes "LENGTH('a) = 8 * n"
  shows "le_bytes n (unat a) @ r = le_bytes n (unat b) @ s \<longleftrightarrow> a = b \<and> r = s"
proof -
  have "le_bytes n (unat a) = le_bytes n (unat b) \<Longrightarrow> a = b"
    using le_word_roundtrip [OF assms] by metis
  then show ?thesis by auto
qed

lemmas le_append_iffs =
  le_word_append_iff [where 'a = 8 and n = 1, simplified] le_word_append_iff [where 'a = 16 and n = 2, simplified]
  le_word_append_iff [where 'a = 32 and n = 4, simplified] le_word_append_iff [where 'a = 64 and n = 8, simplified]

lemma le_len_inj: "v < 2 ^ 64 \<Longrightarrow> w < 2 ^ 64 \<Longrightarrow> le_bytes 8 v = le_bytes 8 w \<longleftrightarrow> v = w"
  using le_bytes_inj [of v 8 w] by auto

lemma hash_len_prefix_free:
  "length a < 2 ^ 64 \<Longrightarrow> length b < 2 ^ 64 \<Longrightarrow> hash_len_bytes a @ r = hash_len_bytes b @ s \<Longrightarrow>
   a = b \<and> r = s"
  by (auto simp: hash_len_bytes_def le_len_inj)

lemma concat_prefix_free:
  assumes "\<And>x y r s. x \<in> set xs \<Longrightarrow> y \<in> set ys \<Longrightarrow> f x @ r = f y @ s \<Longrightarrow> x = y \<and> r = s"
    and "length xs = length ys" and "concat (map f xs) @ r = concat (map f ys) @ s"
  shows "xs = ys \<and> r = s"
  using assms(2,1,3)
proof (induction xs ys rule: list_induct2)
  case (Cons x xs y ys)
  from Cons.prems(2) have "f x @ (concat (map f xs) @ r) = f y @ (concat (map f ys) @ s)" by simp
  then have xy: "x = y" and rest: "concat (map f xs) @ r = concat (map f ys) @ s"
    using Cons.prems(1) [of x y] by auto
  have "xs = ys \<and> r = s"
    by (rule Cons.IH [OF _ rest]) (rule Cons.prems(1), auto)
  with xy show ?case by simp
qed simp

lemma wf_value_sized: "wf_value d v \<Longrightarrow> sized v"
  by (induction v arbitrary: d) (auto simp: wf_string_def gguf_limits)

lemma hash_value_prefix_free:
  "sized v \<Longrightarrow> sized w \<Longrightarrow> hash_metadata_value v @ r = hash_metadata_value w @ s \<Longrightarrow> v = w \<and> r = s"
proof (induction v arbitrary: w r s)
  case (Str x)
  then obtain y where w: "w = Str y" by (cases w) auto
  with Str have "x = y \<and> r = s" by (intro hash_len_prefix_free) auto
  with w show ?case by simp
next
  case (Array vs)
  then obtain ws where w: "w = Array ws" by (cases w) auto
  with Array.prems have "length vs = length ws"
    and eq: "concat (map hash_metadata_value vs) @ r = concat (map hash_metadata_value ws) @ s"
    by (auto simp: le_len_inj)
  moreover have "x = y \<and> r = s" if "x \<in> set vs" "y \<in> set ws"
    "hash_metadata_value x @ r = hash_metadata_value y @ s" for x y r s
    using Array.IH [of x y r s] Array.prems w that by auto
  ultimately show ?case using concat_prefix_free [of vs ws hash_metadata_value r s] w by auto
qed (case_tac w; auto simp: le_append_iffs split: if_splits)+

lemma tokenizer_preimage_entries:
  "tokenizer_metadata_preimage g =
     str ''muser.gguf-tokenizer-metadata.v1'' @ [0] @ concat (map hash_entry (tokenizer_entries g))"
  by (simp add: tokenizer_metadata_preimage_def tokenizer_entries_def hash_entry_def comp_def)

lemma hash_entry_prefix_free:
  assumes "length (fst x) < 2 ^ 64" "length (fst y) < 2 ^ 64" "sized (snd x)" "sized (snd y)"
    and "hash_entry x @ r = hash_entry y @ s"
  shows "x = y \<and> r = s"
proof -
  from assms(5) have "hash_len_bytes (fst x) @ (hash_metadata_value (snd x) @ r)
      = hash_len_bytes (fst y) @ (hash_metadata_value (snd y) @ s)"
    by (simp add: hash_entry_def)
  then have "fst x = fst y" "hash_metadata_value (snd x) @ r = hash_metadata_value (snd y) @ s"
    using hash_len_prefix_free assms(1,2) by blast+
  with hash_value_prefix_free assms(3,4) show ?thesis by (metis prod.expand)
qed

lemma hash_entry_ne: "hash_entry x \<noteq> []"
  by (auto simp: hash_entry_def hash_len_bytes_def dest: arg_cong [of _ "[]" length])

lemma hash_entries_inj:
  "\<forall>x\<in>set xs \<union> set ys. length (fst x) < 2 ^ 64 \<and> sized (snd x) \<Longrightarrow>
   concat (map hash_entry xs) = concat (map hash_entry ys) \<Longrightarrow> xs = ys"
proof (induction xs arbitrary: ys)
  case Nil
  then show ?case by (cases ys) (auto simp: hash_entry_ne)
next
  case (Cons x xs)
  then obtain y zs where ys: "ys = y # zs" by (cases ys) (auto simp: hash_entry_ne)
  with Cons.prems have "x = y \<and> concat (map hash_entry xs) = concat (map hash_entry zs)"
    by (intro hash_entry_prefix_free) auto
  with Cons ys show ?case by auto
qed

lemma tokenizer_entries_sized:
  assumes "wf_entries (metadata g)" and "x \<in> set (tokenizer_entries g)"
  shows "length (fst x) < 2 ^ 64 \<and> sized (snd x)"
proof -
  from assms(2) obtain k v where x: "x = (k, v)" and v: "map_of (metadata g) k = Some v"
    by (force simp: tokenizer_entries_def dest: weak_map_of_SomeI)
  from v have "(k, v) \<in> set (metadata g)" by (rule map_of_SomeD)
  with assms(1) have "wf_string k" "wf_value 0 v" by (auto simp: wf_entries_def)
  then show ?thesis using x wf_value_sized [of 0 v] by (simp add: wf_string_def gguf_limits)
qed

lemma map_of_tokenizer_entries:
  assumes "is_tokenizer_key k"
  shows "map_of (tokenizer_entries g) k = meta_get g k"
proof (cases "map_of (metadata g) k")
  case None
  then have "k \<notin> fst ` set (metadata g)" by (simp add: map_of_eq_None_iff)
  then show ?thesis using None
    by (simp add: tokenizer_entries_def meta_get_def map_of_map_restrict restrict_map_def)
next
  case (Some v)
  then have "k \<in> fst ` set (metadata g)" by (metis domI dom_map_of_conv_image_fst)
  then show ?thesis using Some assms
    by (simp add: tokenizer_entries_def meta_get_def map_of_map_restrict restrict_map_def)
qed

lemma tokenizer_preimage_inj:
  assumes "wf_entries (metadata g)" and "wf_entries (metadata h)"
    and "tokenizer_metadata_preimage g = tokenizer_metadata_preimage h"
  shows "tokenizer_entries g = tokenizer_entries h"
proof -
  have "concat (map hash_entry (tokenizer_entries g)) = concat (map hash_entry (tokenizer_entries h))"
    using assms(3) by (simp add: tokenizer_preimage_entries)
  then show ?thesis
    by (rule hash_entries_inj [rotated]) (use assms tokenizer_entries_sized in auto)
qed

subsection \<open>Properties\<close>

lemma is_power_of_two_power: "k < 64 \<Longrightarrow> is_power_of_two (2 ^ k)"
  by (auto simp: is_power_of_two_def list_ex_iff)

definition demo_gguf :: gguf_file where
  "demo_gguf = \<lparr>version = 3, metadata = [([97], Array [U8 1, U8 2])],
     tensors = [\<lparr>tensor_name = [119], shape = [2, 3], dtype = GT_F16, offset = 0\<rparr>],
     data_offset = 96\<rparr>"

definition demo_tail :: bytes where
  "demo_tail = replicate 40 0"

lemma demo_alignment: "alignment_of (metadata demo_gguf) = 32"
  by (simp add: demo_gguf_def alignment_of_def str_def)

lemma demo_header: "length (enc_header demo_gguf) = 92"
  by (simp add: demo_gguf_def enc_header_def enc_entry_def enc_tensor_def enc_string_def)

lemma demo_wf: "wf_gguf demo_gguf"
  using is_power_of_two_power [of 5] demo_alignment
  by (simp add: wf_gguf_def) (simp add: demo_gguf_def wf_entries_def wf_tensors_def wf_tensor_def
      wf_string_def in_range_def gguf_limits elem_tag_def)

lemma demo_representable: "\<forall>t\<in>set (tensors demo_gguf). representable t"
  by (auto simp: demo_gguf_def representable_def tensor_bytes_def block_elements_def le_Suc_eq)

lemma demo_inside: "tensors_inside demo_gguf (length (enc_header demo_gguf @ demo_tail))"
  by (simp add: tensors_inside_def demo_header demo_tail_def)
    (simp add: demo_gguf_def tensor_bytes_def block_elements_def)

lemma demo_offset:
  "data_offset demo_gguf = (length (enc_header demo_gguf) + (alignment_of (metadata demo_gguf) - 1))
     div alignment_of (metadata demo_gguf) * alignment_of (metadata demo_gguf)"
  by (simp add: demo_alignment demo_header) (simp add: demo_gguf_def)

lemma demo_size: "length (enc_header demo_gguf @ demo_tail) + alignment_of (metadata demo_gguf) \<le> 2 ^ 64"
  by (simp add: demo_alignment demo_header demo_tail_def)

lemma demo_parse: "gguf_parse (enc_header demo_gguf @ demo_tail) 0 = Inr demo_gguf"
  by (rule gguf_parse_enc [OF demo_wf demo_offset demo_size demo_representable demo_inside])

text \<open>C37: A file the parser accepts is well formed: version 2 or 3, bounded counts, distinct valid
  UTF-8 keys and tensor names, homogeneous bounded arrays, a power-of-two alignment that divides
  the data offset, and every tensor's byte range ends inside the file.\<close>

theorem gguf_parse_sound:
  assumes "gguf_parse file start = Inr g"
  shows "wf_gguf g \<and> alignment_of (metadata g) dvd data_offset g \<and> tensors_inside g (length file)"
  using gguf_parse_Inr [OF assms]
  by (auto simp: aligned_data_offset_Inr_iff tensors_inside_def check_tensor_bounds_Inr_iff
      dest!: checked_tensor_size_Inr)

theorem gguf_parse_sound_witness:
  "gguf_parse (enc_header demo_gguf @ demo_tail) 0 = Inr demo_gguf
   \<and> wf_gguf demo_gguf \<and> 32 dvd data_offset demo_gguf"
  using gguf_parse_sound [OF demo_parse] demo_parse demo_alignment by simp

text \<open>C38: Parsing the bytes of a well-formed header followed by any data gives back exactly the
  file description that was encoded: the parser rejects no well-formed GGUF file.\<close>

theorem gguf_parse_roundtrip:
  assumes "wf_gguf g"
    and "data_offset g = (length (enc_header g) + (alignment_of (metadata g) - 1))
      div alignment_of (metadata g) * alignment_of (metadata g)"
    and "length (enc_header g @ tail) + alignment_of (metadata g) \<le> 2 ^ 64"
    and "\<forall>t\<in>set (tensors g). representable t"
    and "tensors_inside g (length (enc_header g @ tail))"
  shows "gguf_parse (enc_header g @ tail) 0 = Inr g"
  using assms by (rule gguf_parse_enc)

theorem gguf_parse_roundtrip_witness:
  "gguf_parse (enc_header demo_gguf @ demo_tail) 0 = Inr demo_gguf"
  by (rule gguf_parse_roundtrip [OF demo_wf demo_offset demo_size demo_representable demo_inside])

text \<open>For every tensor of a parsed file the saturating size that readers use equals the exact
  size, and the file offset plus that size does not wrap and stays inside the file.\<close>

theorem gguf_tensor_range:
  assumes "gguf_parse file start = Inr g" and "t \<in> set (tensors g)"
  shows "data_size t = tensor_bytes t \<and> tensor_file_offset g t = data_offset g + offset t
    \<and> tensor_file_offset g t + data_size t \<le> length file"
  using gguf_parse_Inr [OF assms(1)] assms(2)
  by (auto simp: check_tensor_bounds_Inr_iff tensor_file_offset_def data_size_checked
      dest!: bspec dest: checked_tensor_size_Inr)

theorem gguf_tensor_range_witness:
  "data_size (hd (tensors demo_gguf)) = tensor_bytes (hd (tensors demo_gguf))"
proof -
  have "hd (tensors demo_gguf) \<in> set (tensors demo_gguf)" by (simp add: demo_gguf_def)
  from gguf_tensor_range [OF demo_parse this] show ?thesis by simp
qed

text \<open>A metadata value that the reader returns at any depth is nested at most 32 arrays deep,
  and it is a value of the type the tag announced, so a hostile file cannot drive the recursion
  of the reader further.\<close>

theorem gguf_metadata_nesting:
  assumes "read_metadata_value r tag = Inr (v, r')"
  shows "nesting v \<le> 32 \<and> value_tag v = tag"
proof -
  from assms have "wf_value 0 v \<and> value_tag v = tag"
    unfolding read_metadata_value_def by (rule read_metadata_value_wf)
  then show ?thesis using wf_value_nesting [of 0 v] by simp
qed

theorem gguf_metadata_nesting_witness:
  "read_metadata_value (enc_value (Array [U8 1, U8 2])) 9 = Inr (Array [U8 1, U8 2], [])
   \<and> nesting (Array [U8 1, U8 2]) \<le> 32"
proof -
  have "read_metadata_value (enc_value (Array [U8 1, U8 2])) 9 = Inr (Array [U8 1, U8 2], [])"
    using read_metadata_value_enc [of 0 "Array [U8 1, U8 2]" "[]"]
    by (simp add: read_metadata_value_def gguf_limits elem_tag_def)
  then show ?thesis using gguf_metadata_nesting by blast
qed

text \<open>The bytes hashed for the tokenizer identity determine the tokenizer metadata: two
  well-formed files with equal preimages agree on every \<open>tokenizer.\<close> key except the chat
  template, so (up to SHA-256 collisions) equal digests mean equal tokenizers.\<close>

theorem tokenizer_preimage_canonical:
  assumes "wf_gguf g" and "wf_gguf h"
    and "tokenizer_metadata_preimage g = tokenizer_metadata_preimage h"
    and "is_tokenizer_key k"
  shows "meta_get g k = meta_get h k"
proof -
  have "tokenizer_entries g = tokenizer_entries h"
    using assms(1-3) by (intro tokenizer_preimage_inj) (simp_all add: wf_gguf_def)
  then show ?thesis using map_of_tokenizer_entries [OF assms(4)] by metis
qed

theorem tokenizer_preimage_canonical_witness:
  "is_tokenizer_key (str ''tokenizer.x'')
   \<and> meta_get demo_gguf (str ''tokenizer.x'')
     = meta_get (demo_gguf\<lparr>tensors := [], data_offset := 64\<rparr>) (str ''tokenizer.x'')"
proof -
  have k: "is_tokenizer_key (str ''tokenizer.x'')" by (simp add: is_tokenizer_key_def str_def)
  have "wf_gguf (demo_gguf\<lparr>tensors := [], data_offset := 64\<rparr>)"
    using demo_wf by (simp add: wf_gguf_def wf_tensors_def)
  moreover have "tokenizer_metadata_preimage demo_gguf
      = tokenizer_metadata_preimage (demo_gguf\<lparr>tensors := [], data_offset := 64\<rparr>)"
    by (simp add: tokenizer_metadata_preimage_def)
  ultimately show ?thesis
    using tokenizer_preimage_canonical [OF demo_wf _ _ k] k by blast
qed

end
