(* ===== verification/Radix_Tree.thy ===== *)
theory Radix_Tree
  imports Muser_Prelude "HOL-Library.AList" "HOL-Library.Sublist"
begin

section \<open>Compressed radix tree\<close>

text \<open>
  The tree of \<open>crates/muser-kvpack/src/resident.rs\<close> over any key words and entries: insertion with
  edge splitting (\<open>insert_recursive\<close>), removal of an entry, pruning, and the traversals. The
  children \<open>HashMap\<close> is an association list; its order is the iteration order of the map, which
  the source leaves unspecified, and no lemma depends on it.

  The abstraction is the partial map \<open>radix_get\<close> from key to entry, or equivalently the list
  \<open>entry_list\<close> of keys and entries in traversal order. Shown here: the tree invariant is kept by
  every operation, insertion is a map update, removal deletes the first matching entry of the
  traversal, pruning changes no entry. The contract is the locale \<open>prefix_index\<close>.
\<close>

subsection \<open>The interface of an index of entries by key\<close>

locale prefix_index =
  fixes empty :: 't
    and put :: "'t \<Rightarrow> 'k list \<Rightarrow> 'e \<Rightarrow> 't"
    and get :: "'t \<Rightarrow> 'k list \<Rightarrow> 'e option"
    and invar :: "'t \<Rightarrow> bool"
  assumes invar_empty: "invar empty"
    and get_empty: "get empty k = None"
    and invar_put: "invar t \<Longrightarrow> invar (put t k x)"
    and get_put: "invar t \<Longrightarrow> get (put t k x) = (get t)(k \<mapsto> x)"
begin

definition puts :: "('k list \<times> 'e) list \<Rightarrow> 't" where
  "puts kvs = foldl (\<lambda>t (k, x). put t k x) empty kvs"

lemma puts_snoc: "puts (kvs @ [(k, x)]) = put (puts kvs) k x"
  by (simp add: puts_def)

lemma invar_puts: "invar (puts kvs)"
  by (induction kvs rule: rev_induct) (auto simp: puts_snoc invar_put, simp add: puts_def invar_empty)

lemma get_puts: "get (puts kvs) = map_of (rev kvs)"
  by (induction kvs rule: rev_induct)
    (auto simp: puts_snoc get_put invar_puts, auto simp: puts_def get_empty)

text \<open>The order in which distinct keys were stored is not observable.\<close>

lemma get_puts_perm:
  assumes "distinct (map fst kvs)" "distinct (map fst kws)" "set kvs = set kws"
  shows "get (puts kvs) = get (puts kws)"
proof -
  have "map_of (rev kvs) = map_of (rev kws)"
    by (rule map_of_eqI) (use assms in \<open>auto simp: rev_map [symmetric]\<close>)
  then show ?thesis by (simp add: get_puts)
qed

end

subsection \<open>The tree\<close>

datatype ('k, 'e) radix_node =
  Node (edge: "'k list") (node_entry: "'e option") (children: "('k \<times> ('k, 'e) radix_node) list")

definition empty_node :: "('k, 'e) radix_node" where
  "empty_node = Node [] None []"

lemma child_size:
  "map_of ch k = Some c \<Longrightarrow> Suc (size c) \<le> size_list (size_prod (\<lambda>x. 0) size) ch"
  by (induction ch) (auto split: if_splits)

definition shared_prefix_len :: "'k list \<Rightarrow> 'k list \<Rightarrow> nat" where
  "shared_prefix_len a b = length (takeWhile (\<lambda>(l, r). l = r) (zip a b))"

text \<open>The split of an edge: the old child keeps the rest of its edge below a new node that owns
  the shared part; the new entry sits at that node or in a new leaf below it.\<close>

definition split_child :: "('k, 'e) radix_node \<Rightarrow> nat \<Rightarrow> 'k list \<Rightarrow> 'e \<Rightarrow> ('k, 'e) radix_node" where
  "split_child old shared tokens x =
     (let old_suffix = drop shared (edge old);
          moved = (hd old_suffix, Node old_suffix (node_entry old) (children old));
          new_suffix = drop shared tokens
      in if new_suffix = []
         then Node (take shared (edge old)) (Some x) [moved]
         else Node (take shared (edge old)) None
                (AList.update (hd new_suffix) (Node new_suffix (Some x) []) [moved]))"

function insert_recursive :: "('k, 'e) radix_node \<Rightarrow> 'k list \<Rightarrow> 'e \<Rightarrow> ('k, 'e) radix_node" where
  "insert_recursive (Node e en ch) tokens x =
     (case tokens of
        [] \<Rightarrow> Node e (Some x) ch
      | first # _ \<Rightarrow>
         (case map_of ch first of
            Some child \<Rightarrow>
              (let shared = shared_prefix_len (edge child) tokens in
               if shared = length (edge child)
               then Node e en (AList.update first (insert_recursive child (drop shared tokens) x) ch)
               else Node e en ((first, split_child child shared tokens x) # AList.delete first ch))
          | None \<Rightarrow> Node e en ((first, Node tokens (Some x) []) # ch)))"
  by pat_completeness auto
termination
  by (relation "measure (\<lambda>(t, ks, x). size t)") (auto dest!: child_size)

declare insert_recursive.simps [simp del]

fun remove_where :: "('e \<Rightarrow> bool) \<Rightarrow> ('k, 'e) radix_node \<Rightarrow> ('k, 'e) radix_node \<times> bool"
  and remove_children :: "('e \<Rightarrow> bool) \<Rightarrow> ('k \<times> ('k, 'e) radix_node) list
    \<Rightarrow> ('k \<times> ('k, 'e) radix_node) list \<times> bool" where
  "remove_where P (Node e en ch) =
     (if (case en of Some x \<Rightarrow> P x | None \<Rightarrow> False) then (Node e None ch, True)
      else let (ch', found) = remove_children P ch in (Node e en ch', found))"
| "remove_children P [] = ([], False)"
| "remove_children P ((k, c) # ch) =
     (let (c', found) = remove_where P c in
      if found then ((k, c') # ch, True)
      else let (ch', found') = remove_children P ch in ((k, c') # ch', found'))"

fun prune_empty :: "('k, 'e) radix_node \<Rightarrow> ('k, 'e) radix_node" where
  "prune_empty (Node e en ch) =
     Node e en (filter (\<lambda>(k, c). node_entry c \<noteq> None \<or> children c \<noteq> [])
       (map (\<lambda>(k, c). (k, prune_empty c)) ch))"

fun any_entry :: "('e \<Rightarrow> bool) \<Rightarrow> ('k, 'e) radix_node \<Rightarrow> bool" where
  "any_entry P (Node e en ch) =
     ((case en of Some x \<Rightarrow> P x | None \<Rightarrow> False) \<or> list_ex (\<lambda>(k, c). any_entry P c) ch)"

text \<open>\<open>count_nodes\<close> adds to two counters: entries and nodes.\<close>

fun count_nodes :: "('k, 'e) radix_node \<Rightarrow> nat \<times> nat" where
  "count_nodes (Node e en ch) =
     (let below = map (\<lambda>(k, c). count_nodes c) ch in
      ((if en = None then 0 else 1) + sum_list (map fst below), 1 + sum_list (map snd below)))"

subsection \<open>Abstraction and invariant\<close>

fun entry_list :: "('k, 'e) radix_node \<Rightarrow> ('k list \<times> 'e) list" where
  "entry_list (Node e en ch) =
     (case en of Some x \<Rightarrow> [([], x)] | None \<Rightarrow> []) @
     concat (map (\<lambda>(k, c). map (\<lambda>(p, x). (edge c @ p, x)) (entry_list c)) ch)"

function radix_get :: "('k, 'e) radix_node \<Rightarrow> 'k list \<Rightarrow> 'e option" where
  "radix_get (Node e en ch) ks =
     (case ks of [] \<Rightarrow> en
      | k # _ \<Rightarrow> (case map_of ch k of None \<Rightarrow> None
         | Some c \<Rightarrow> if prefix (edge c) ks then radix_get c (drop (length (edge c)) ks) else None))"
  by pat_completeness auto
termination
  by (relation "measure (\<lambda>(t, ks). size t)") (auto dest!: child_size)

declare radix_get.simps [simp del]

fun radix_wf :: "('k, 'e) radix_node \<Rightarrow> bool" where
  "radix_wf (Node e en ch) \<longleftrightarrow> distinct (map fst ch)
     \<and> (\<forall>(k, c)\<in>set ch. edge c \<noteq> [] \<and> hd (edge c) = k \<and> radix_wf c)"

subsection \<open>Prefixes\<close>

lemma shared_prefix_len_Nil [simp]: "shared_prefix_len [] b = 0" "shared_prefix_len a [] = 0"
  by (simp_all add: shared_prefix_len_def)

lemma shared_prefix_len_Cons [simp]:
  "shared_prefix_len (x # a) (y # b) = (if x = y then Suc (shared_prefix_len a b) else 0)"
  by (simp add: shared_prefix_len_def)

lemma shared_prefix_len_le: "shared_prefix_len a b \<le> length a" "shared_prefix_len a b \<le> length b"
  by (induction a b rule: list_induct2') auto

lemma shared_prefix_take: "take (shared_prefix_len a b) a = take (shared_prefix_len a b) b"
  by (induction a b rule: list_induct2') auto

lemma shared_prefix_full_iff: "shared_prefix_len a b = length a \<longleftrightarrow> prefix a b"
  by (induction a b rule: list_induct2') auto

lemma shared_prefix_differs:
  "shared_prefix_len a b < length a \<Longrightarrow> shared_prefix_len a b < length b \<Longrightarrow>
   a ! shared_prefix_len a b \<noteq> b ! shared_prefix_len a b"
  by (induction a b rule: list_induct2') auto

lemma radix_get_Nil [simp]: "radix_get (Node e en ch) [] = en"
  by (simp add: radix_get.simps)

lemma radix_get_Cons:
  "radix_get (Node e en ch) (k # ks) =
     (case map_of ch k of None \<Rightarrow> None
      | Some c \<Rightarrow> if prefix (edge c) (k # ks) then radix_get c (drop (length (edge c)) (k # ks)) else None)"
  by (simp add: radix_get.simps)

lemma radix_get_edge [simp]: "radix_get (Node e' (node_entry t) (children t)) = radix_get t"
  by (cases t) (simp add: fun_eq_iff radix_get.simps)

lemma radix_wf_edge [simp]: "radix_wf (Node e' (node_entry t) (children t)) = radix_wf t"
  by (cases t) simp

lemma radix_wf_child: "radix_wf (Node e en ch) \<Longrightarrow> map_of ch k = Some c \<Longrightarrow> edge c \<noteq> [] \<and> hd (edge c) = k \<and> radix_wf c"
  by (auto dest: map_of_SomeD)

subsection \<open>Insertion is a map update\<close>

lemma edge_insert_recursive [simp]: "edge (insert_recursive t ks x) = edge t"
  by (cases t) (auto simp: insert_recursive.simps Let_def split: list.splits option.splits)

lemma split_child_cases:
  assumes "shared = shared_prefix_len (edge old) tokens" "shared < length (edge old)"
  obtains p s n where "edge old = p @ s" "tokens = p @ n" "s \<noteq> []" "length p = shared"
    "n \<noteq> [] \<Longrightarrow> hd n \<noteq> hd s"
    "split_child old shared tokens x =
       (if n = [] then Node p (Some x) [(hd s, Node s (node_entry old) (children old))]
        else Node p None [(hd s, Node s (node_entry old) (children old)), (hd n, Node n (Some x) [])])"
proof -
  let ?p = "take shared (edge old)" and ?s = "drop shared (edge old)" and ?n = "drop shared tokens"
  have p: "?p = take shared tokens" using shared_prefix_take [of "edge old" tokens] assms(1) by simp
  have "edge old = ?p @ ?s" by simp
  moreover have "tokens = ?p @ ?n" unfolding p by simp
  moreover have "?s \<noteq> []" "length ?p = shared" using assms(2) by simp_all
  moreover have differ: "hd ?n \<noteq> hd ?s" if "?n \<noteq> []"
    using that assms shared_prefix_differs [of "edge old" tokens] by (auto simp: hd_drop_conv_nth)
  moreover have "split_child old shared tokens x =
      (if ?n = [] then Node ?p (Some x) [(hd ?s, Node ?s (node_entry old) (children old))]
       else Node ?p None [(hd ?s, Node ?s (node_entry old) (children old)), (hd ?n, Node ?n (Some x) [])])"
  proof (cases "?n = []")
    case True
    then show ?thesis unfolding split_child_def Let_def by simp
  next
    case False
    from differ [OF False] have "hd ?s \<noteq> hd ?n" by (rule not_sym)
    with False show ?thesis
      unfolding split_child_def Let_def by (simp only: if_False AList.update.simps fst_conv)
  qed
  ultimately show ?thesis by (rule that)
qed

lemma radix_get_leaf: "radix_get (Node e (Some x) []) ks = (if ks = [] then Some x else None)"
  by (cases ks) (simp_all add: radix_get_Cons)

lemma split_child_get:
  assumes "shared = shared_prefix_len (edge old) tokens" "shared < length (edge old)"
  shows "(if prefix (edge (split_child old shared tokens x)) qs
          then radix_get (split_child old shared tokens x) (drop (length (edge (split_child old shared tokens x))) qs)
          else None) =
    (if qs = tokens then Some x
     else if prefix (edge old) qs then radix_get old (drop (length (edge old)) qs) else None)"
  using assms
proof (rule split_child_cases [of shared old tokens x])
  fix p s n
  assume h: "edge old = p @ s" "tokens = p @ n" "s \<noteq> []" "length p = shared"
    "n \<noteq> [] \<Longrightarrow> hd n \<noteq> hd s"
    "split_child old shared tokens x =
       (if n = [] then Node p (Some x) [(hd s, Node s (node_entry old) (children old))]
        else Node p None [(hd s, Node s (node_entry old) (children old)), (hd n, Node n (Some x) [])])"
  show ?thesis
  proof (cases "prefix p qs")
    case False
    with h show ?thesis by (auto simp: prefix_def)
  next
    case True
    then obtain r where qs: "qs = p @ r" by (auto simp: prefix_def)
    show ?thesis
    proof (cases r)
      case Nil
      with h qs show ?thesis by auto
    next
      case (Cons k ks)
      have "drop (length n) (k # ks) = [] \<longleftrightarrow> k # ks = n" if "prefix n (k # ks)"
      proof -
        from that obtain w where "k # ks = n @ w" by (auto simp: prefix_def)
        then show ?thesis by simp
      qed
      with Cons h qs show ?thesis
        by (cases s; cases n) (auto simp: radix_get_Cons radix_get_leaf prefix_def)
    qed
  qed
qed

lemma radix_get_insert:
  "radix_wf t \<Longrightarrow> radix_get (insert_recursive t ks x) qs = (if qs = ks then Some x else radix_get t qs)"
proof (induction t ks x arbitrary: qs rule: insert_recursive.induct)
  case (1 e en ch tokens x)
  show ?case
  proof (cases tokens)
    case Nil
    then show ?thesis by (cases qs) (simp_all add: insert_recursive.simps radix_get_Cons)
  next
    case (Cons f ts)
    show ?thesis
    proof (cases qs)
      case Nil
      with Cons show ?thesis
        by (auto simp: insert_recursive.simps Let_def split: option.splits)
    next
      case qs: (Cons q qt)
      show ?thesis
      proof (cases "map_of ch f")
        case None
        with Cons qs show ?thesis
          by (auto simp: insert_recursive.simps radix_get_Cons radix_get_leaf prefix_def)
      next
        case (Some c)
        note wf = radix_wf_child [OF "1.prems" Some]
        show ?thesis
        proof (cases "shared_prefix_len (edge c) tokens = length (edge c)")
          case True
          then have pre: "prefix (edge c) tokens" by (simp add: shared_prefix_full_iff)
          have IH: "radix_get (insert_recursive c (drop (length (edge c)) tokens) x) ks =
              (if ks = drop (length (edge c)) tokens then Some x else radix_get c ks)" for ks
            using "1.IH" [of f ts c] Cons Some True wf by simp
          have "qs = tokens" if "prefix (edge c) qs" "drop (length (edge c)) qs = drop (length (edge c)) tokens"
            using that pre by (auto simp: prefix_def)
          with Cons qs Some True pre IH show ?thesis
            by (auto simp: insert_recursive.simps radix_get_Cons map_of_Cons_code Let_def
                simp: update_conv')
        next
          case False
          then have lt: "shared_prefix_len (edge c) tokens < length (edge c)"
            using shared_prefix_len_le(1) [of "edge c" tokens] by simp
          have "q = f \<longleftrightarrow> True" if "qs = tokens" using that Cons qs by simp
          with Cons qs Some False split_child_get [OF refl lt, of x qs] show ?thesis
            by (auto simp: insert_recursive.simps radix_get_Cons Let_def delete_conv')
        qed
      qed
    qed
  qed
qed

subsection \<open>The invariant is kept\<close>

lemma in_set_updateD: "kv \<in> set (AList.update k v al) \<Longrightarrow> kv = (k, v) \<or> kv \<in> set al"
  by (induction al) (auto split: if_splits)

lemma in_set_deleteD: "kv \<in> set (AList.delete k al) \<Longrightarrow> kv \<in> set al \<and> fst kv \<noteq> k"
  by (auto simp: AList.delete_eq)

definition children_wf :: "('k \<times> ('k, 'e) radix_node) list \<Rightarrow> bool" where
  "children_wf ch \<longleftrightarrow> (\<forall>(k, c)\<in>set ch. edge c \<noteq> [] \<and> hd (edge c) = k \<and> radix_wf c)"

lemma children_wf_simps:
  "children_wf []"
  "children_wf ((k, c) # ch) \<longleftrightarrow> edge c \<noteq> [] \<and> hd (edge c) = k \<and> radix_wf c \<and> children_wf ch"
  "radix_wf (Node e en ch) \<longleftrightarrow> distinct (map fst ch) \<and> children_wf ch"
  by (auto simp: children_wf_def)

lemma split_child_wf:
  assumes "shared = shared_prefix_len (edge old) tokens" "0 < shared" "shared < length (edge old)"
    "radix_wf old"
  shows "radix_wf (split_child old shared tokens x)"
    and "edge (split_child old shared tokens x) \<noteq> []"
    and "hd (edge (split_child old shared tokens x)) = hd (edge old)"
proof -
  obtain p s n where h: "edge old = p @ s" "tokens = p @ n" "s \<noteq> []" "length p = shared"
    "n \<noteq> [] \<Longrightarrow> hd n \<noteq> hd s"
    "split_child old shared tokens x =
       (if n = [] then Node p (Some x) [(hd s, Node s (node_entry old) (children old))]
        else Node p None [(hd s, Node s (node_entry old) (children old)), (hd n, Node n (Some x) [])])"
    using split_child_cases [OF assms(1,3)] by metis
  have p: "p \<noteq> []" using h(4) assms(2) by auto
  have "radix_wf (Node s (node_entry old) (children old))"
    using assms(4) by (simp only: radix_wf_edge)
  then show "radix_wf (split_child old shared tokens x)"
    using h(3,5,6) by (auto simp: children_wf_simps simp del: radix_wf.simps radix_wf_edge)
  show "edge (split_child old shared tokens x) \<noteq> []"
    "hd (edge (split_child old shared tokens x)) = hd (edge old)" using h p by auto
qed

lemma radix_wf_insert: "radix_wf t \<Longrightarrow> radix_wf (insert_recursive t ks x)"
proof (induction t ks x rule: insert_recursive.induct)
  case (1 e en ch tokens x)
  show ?case
  proof (cases tokens)
    case Nil
    with "1.prems" show ?thesis by (simp add: insert_recursive.simps)
  next
    case (Cons f ts)
    show ?thesis
    proof (cases "map_of ch f")
      case None
      then have "f \<notin> fst ` set ch" by (simp add: map_of_eq_None_iff)
      with None Cons "1.prems" show ?thesis by (auto simp: insert_recursive.simps)
    next
      case (Some c)
      note wf = radix_wf_child [OF "1.prems" Some]
      let ?s = "shared_prefix_len (edge c) tokens"
      show ?thesis
      proof (cases "?s = length (edge c)")
        case True
        have IH: "radix_wf (insert_recursive c (drop (length (edge c)) tokens) x)"
          using "1.IH" [of f ts c] Cons Some True wf by simp
        with Cons Some True wf "1.prems" show ?thesis
          by (auto simp: insert_recursive.simps Let_def distinct_update dest!: in_set_updateD)
      next
        case False
        then have lt: "?s < length (edge c)"
          using shared_prefix_len_le(1) [of "edge c" tokens] by simp
        have pos: "0 < ?s" using wf Cons by (cases "edge c") auto
        note sp = split_child_wf [OF refl pos lt, of x]
        with Cons Some False wf "1.prems" show ?thesis
          by (auto simp: insert_recursive.simps Let_def distinct_delete delete_notin_dom [simplified image_iff]
              dest!: in_set_deleteD)
      qed
    qed
  qed
qed

lemma remove_where_keeps:
  fixes t :: "('k, 'e) radix_node" and ch :: "('k \<times> ('k, 'e) radix_node) list"
  shows "edge (fst (remove_where P t)) = edge t \<and> (radix_wf t \<longrightarrow> radix_wf (fst (remove_where P t)))"
    and "map fst (fst (remove_children P ch)) = map fst ch \<and>
      (children_wf ch \<longrightarrow> children_wf (fst (remove_children P ch)))"
proof (induction P t and P ch rule: remove_where_remove_children.induct)
  case (1 P e en ch)
  then show ?case
    by (cases "remove_children P ch")
      (auto simp: children_wf_simps(3) simp del: radix_wf.simps split: option.splits)
next
  case (2 P)
  then show ?case by simp
next
  case (3 P k c ch)
  then show ?case
    by (cases "remove_where P c"; cases "remove_children P ch")
      (auto simp: children_wf_simps(2) simp del: radix_wf.simps)
qed

lemma edge_prune_empty [simp]: "edge (prune_empty t) = edge t"
  by (cases t) simp

lemma prune_empty_wf: "radix_wf t \<Longrightarrow> radix_wf (prune_empty t)"
proof (induction t rule: prune_empty.induct)
  case (1 e en ch)
  have "distinct (map fst (filter P (map (\<lambda>(k, c). (k, prune_empty c)) ch)))" for P
    using "1.prems" by (auto simp: comp_def case_prod_beta intro!: distinct_map_filter)
  with 1 show ?case by fastforce
qed

subsection \<open>The traversal lists the map\<close>

lemma entry_list_keys_edge [simp]: "entry_list (Node e' (node_entry t) (children t)) = entry_list t"
  by (cases t) simp

lemma entry_list_childD:
  "(p, x) \<in> set (entry_list (Node e en ch)) \<Longrightarrow>
   (p = [] \<and> en = Some x) \<or> (\<exists>k c q. (k, c) \<in> set ch \<and> p = edge c @ q \<and> (q, x) \<in> set (entry_list c))"
  by (auto split: option.splits)

lemma radix_get_entry: "radix_wf t \<Longrightarrow> radix_get t ks = Some x \<longleftrightarrow> (ks, x) \<in> set (entry_list t)"
proof (induction t ks rule: radix_get.induct)
  case (1 e en ch ks)
  show ?case
  proof (cases ks)
    case Nil
    with "1.prems" show ?thesis by (auto split: option.splits)
  next
    case (Cons k kt)
    have other: "k' = k \<and> map_of ch k = Some c" if "(k', c) \<in> set ch" "ks = edge c @ q" for k' c q
    proof -
      from that(1) "1.prems" have c: "edge c \<noteq> []" "hd (edge c) = k'" "map_of ch k' = Some c"
        by auto
      with that(2) Cons have "k' = k" by (cases "edge c") auto
      with c show ?thesis by simp
    qed
    have R: "(ks, x) \<in> set (entry_list (Node e en ch)) \<longleftrightarrow>
        (\<exists>c q. map_of ch k = Some c \<and> ks = edge c @ q \<and> (q, x) \<in> set (entry_list c))" (is "?l \<longleftrightarrow> ?r")
    proof
      assume ?l
      then obtain k' c q where c: "(k', c) \<in> set ch" "ks = edge c @ q" "(q, x) \<in> set (entry_list c)"
        using entry_list_childD [of ks x e en ch] Cons by auto
      with other [of k' c q] show ?r by blast
    next
      assume ?r
      then obtain c q where "(k, c) \<in> set ch" "ks = edge c @ q" "(q, x) \<in> set (entry_list c)"
        by (auto dest: map_of_SomeD)
      then show ?l by (auto intro!: bexI [of _ "(k, c)"] image_eqI [of _ _ "(q, x)"])
    qed
    show ?thesis
    proof (cases "map_of ch k")
      case None
      with R Cons show ?thesis by (simp add: radix_get_Cons)
    next
      case (Some c)
      note wf = radix_wf_child [OF "1.prems" Some]
      show ?thesis
      proof (cases "prefix (edge c) ks")
        case True
        with "1.IH" [OF Cons Some] wf Cons
        have "radix_get c (drop (length (edge c)) ks) = Some x
            \<longleftrightarrow> (drop (length (edge c)) ks, x) \<in> set (entry_list c)" by simp
        with True Some R Cons show ?thesis by (auto simp: radix_get_Cons prefix_def)
      next
        case False
        with Some R Cons show ?thesis by (auto simp: radix_get_Cons prefix_def)
      qed
    qed
  qed
qed

lemma distinct_concat_heads:
  assumes "distinct (map fst ch)" "\<And>k c. (k, c) \<in> set ch \<Longrightarrow> distinct (f c)"
    "\<And>k c p. (k, c) \<in> set ch \<Longrightarrow> p \<in> set (f c) \<Longrightarrow> p \<noteq> [] \<and> hd p = k"
  shows "distinct (concat (map (\<lambda>(k, c). f c) ch))"
  using assms
proof (induction ch)
  case (Cons kc ch)
  obtain k c where kc: "kc = (k, c)" by (cases kc)
  have "distinct (concat (map (\<lambda>(k, c). f c) ch))" 
    by (rule Cons.IH) (use Cons.prems in \<open>simp, (metis list.set_intros(2))+\<close>)
  moreover have "set (f c) \<inter> (\<Union>(k', c')\<in>set ch. set (f c')) = {}"
  proof (rule equals0I)
    fix p assume "p \<in> set (f c) \<inter> (\<Union>(k', c')\<in>set ch. set (f c'))"
    then obtain k' c' where "p \<in> set (f c)" "(k', c') \<in> set ch" "p \<in> set (f c')" by auto
    with Cons.prems(3) [of k c p] Cons.prems(3) [of k' c' p] kc have "k = k'" by auto
    with \<open>(k', c') \<in> set ch\<close> Cons.prems(1) kc show False by (auto simp: image_iff)
  qed
  ultimately show ?case using Cons.prems(2) [of k c] kc by (auto simp: split_def)
qed simp

lemma distinct_entry_keys: "radix_wf t \<Longrightarrow> distinct (map fst (entry_list t))"
proof (induction t rule: entry_list.induct)
  case (1 e en ch)
  let ?f = "\<lambda>c. map ((@) (edge c) \<circ> fst) (entry_list c)"
  have keys: "map fst (entry_list (Node e en ch)) =
      (case en of Some x \<Rightarrow> [[]] | None \<Rightarrow> []) @ concat (map (\<lambda>(k, c). ?f c) ch)"
    by (auto simp: map_concat comp_def split_def split: option.splits)
  have "distinct (concat (map (\<lambda>(k, c). ?f c) ch))"
  proof (rule distinct_concat_heads)
    show "distinct (map fst ch)" using "1.prems" by simp
    fix k c assume kc: "(k, c) \<in> set ch"
    with 1 have "distinct (map fst (entry_list c))" by auto
    then show "distinct (?f c)"
      by (simp add: distinct_map comp_inj_on_iff [symmetric] inj_on_def)
    fix p assume "p \<in> set (?f c)"
    with kc "1.prems" show "p \<noteq> [] \<and> hd p = k" by auto
  qed
  moreover have "[] \<notin> set (concat (map (\<lambda>(k, c). ?f c) ch))" using "1.prems" by auto
  ultimately show ?case unfolding keys by (auto split: option.splits)
qed

lemma map_of_entry_list: "radix_wf t \<Longrightarrow> map_of (entry_list t) = radix_get t"
proof
  fix ks
  assume wf: "radix_wf t"
  have "map_of (entry_list t) ks = Some x \<longleftrightarrow> radix_get t ks = Some x" for x
    using radix_get_entry [OF wf] distinct_entry_keys [OF wf] by simp
  then show "map_of (entry_list t) ks = radix_get t ks" by (metis not_Some_eq)
qed

subsection \<open>Removal, pruning and counting on the traversal\<close>

primrec remove_first :: "('a \<Rightarrow> bool) \<Rightarrow> 'a list \<Rightarrow> 'a list" where
  "remove_first P [] = []"
| "remove_first P (x # xs) = (if P x then xs else x # remove_first P xs)"

lemma remove_first_append:
  "remove_first P (xs @ ys) = (if list_ex P xs then remove_first P xs @ ys else xs @ remove_first P ys)"
  by (induction xs) auto

lemma below_entry:
  "list_ex (\<lambda>kx. P (snd kx)) (map (\<lambda>(p, x). (e @ p, x)) xs) = list_ex (\<lambda>kx. P (snd kx)) xs"
  "remove_first (\<lambda>kx. P (snd kx)) (map (\<lambda>(p, x). (e @ p, x)) xs) =
   map (\<lambda>(p, x). (e @ p, x)) (remove_first (\<lambda>kx. P (snd kx)) xs)"
  by (induction xs) auto

lemma set_remove_first: "set (remove_first P xs) \<subseteq> set xs"
  by (induction xs) auto

lemma length_remove_first: "list_ex P xs \<Longrightarrow> Suc (length (remove_first P xs)) = length xs"
  by (induction xs) auto

lemma remove_first_id: "\<not> list_ex P xs \<Longrightarrow> remove_first P xs = xs"
  by (induction xs) auto

definition below :: "('k \<times> ('k, 'e) radix_node) list \<Rightarrow> ('k list \<times> 'e) list" where
  "below ch = concat (map (\<lambda>(k, c). map (\<lambda>(p, x). (edge c @ p, x)) (entry_list c)) ch)"

lemma entry_list_below:
  "entry_list (Node e en ch) = (case en of Some x \<Rightarrow> [([], x)] | None \<Rightarrow> []) @ below ch"
  by (simp add: below_def)

lemma below_Cons:
  "below ((k, c) # ch) = map (\<lambda>(p, x). (edge c @ p, x)) (entry_list c) @ below ch"
  by (simp add: below_def)

lemma remove_where_entries:
  fixes t :: "('k, 'e) radix_node" and ch :: "('k \<times> ('k, 'e) radix_node) list"
  shows "entry_list (fst (remove_where P t)) = remove_first (\<lambda>kx. P (snd kx)) (entry_list t)
     \<and> snd (remove_where P t) = list_ex (\<lambda>kx. P (snd kx)) (entry_list t)"
    and "below (fst (remove_children P ch)) = remove_first (\<lambda>kx. P (snd kx)) (below ch)
     \<and> snd (remove_children P ch) = list_ex (\<lambda>kx. P (snd kx)) (below ch)"
proof (induction P t and P ch rule: remove_where_remove_children.induct)
  case (1 P e en ch)
  then show ?case
    by (auto simp: entry_list_below remove_first_append Let_def simp del: entry_list.simps
        split: prod.splits option.splits)
next
  case (2 P)
  then show ?case by (simp add: below_def)
next
  case (3 P k c ch)
  then show ?case
    using remove_where_keeps(1) [of P c]
    by (cases "remove_where P c"; cases "remove_children P ch")
      (auto simp: Let_def below_Cons remove_first_append below_entry remove_first_id)
qed

lemma entry_list_bare: "node_entry t = None \<Longrightarrow> children t = [] \<Longrightarrow> entry_list t = []"
  by (cases t) simp

lemma below_prune:
  "(\<And>k c. (k, c) \<in> set cs \<Longrightarrow> entry_list (prune_empty c) = entry_list c) \<Longrightarrow>
   below (filter (\<lambda>(k, c). node_entry c \<noteq> None \<or> children c \<noteq> [])
     (map (\<lambda>(k, c). (k, prune_empty c)) cs)) = below cs"
proof (induction cs)
  case (Cons kc cs)
  obtain k c where kc: "kc = (k, c)" by (cases kc)
  have c: "entry_list (prune_empty c) = entry_list c" by (rule Cons.prems [of k]) (simp add: kc)
  note IH = Cons.IH [OF Cons.prems, OF list.set_intros(2)]
  show ?case
  proof (cases "node_entry (prune_empty c) = None \<and> children (prune_empty c) = []")
    case True
    with entry_list_bare [of "prune_empty c"] c have "entry_list c = []" by simp
    with True IH show ?thesis by (simp add: kc below_Cons)
  next
    case False
    with IH show ?thesis by (simp add: kc below_Cons c)
  qed
qed (simp add: below_def)

lemma prune_empty_entries: "entry_list (prune_empty t) = entry_list t"
proof (induction t rule: prune_empty.induct)
  case (1 e en ch)
  have "entry_list (prune_empty c) = entry_list c" if "(k, c) \<in> set ch" for k c
    by (rule "1.IH" [OF that refl])
  from below_prune [of ch, OF this] show ?case
    by (simp only: prune_empty.simps entry_list_below)
qed

lemma count_nodes_entries: "fst (count_nodes t) = length (entry_list t)"
proof (induction t rule: count_nodes.induct)
  case (1 e en ch)
  have "sum_list (map (\<lambda>(k, c). fst (count_nodes c)) ch)
      = sum_list (map (\<lambda>(k, c). length (entry_list c)) ch)"
    by (rule arg_cong [of _ _ sum_list], rule map_cong) (use 1 in auto)
  then show ?case
    by (auto simp: Let_def length_concat comp_def split_def split: option.splits)
qed

lemma any_entry_list: "any_entry P t = list_ex (\<lambda>kx. P (snd kx)) (entry_list t)"
proof (induction P t rule: any_entry.induct)
  case (1 P e en ch)
  have "list_ex (\<lambda>(k, c). any_entry P c) ch = list_ex (\<lambda>kx. P (snd kx)) (below ch)"
    using 1 by (fastforce simp: below_def list_ex_iff)
  then show ?case
    by (simp add: entry_list_below comp_def del: entry_list.simps split: option.splits)
qed

lemma empty_node_simps [simp]:
  "radix_wf empty_node" "radix_get empty_node ks = None" "entry_list empty_node = []"
  "edge empty_node = []"
  by (cases ks; simp add: empty_node_def radix_get_Cons)+

interpretation radix: prefix_index empty_node insert_recursive radix_get radix_wf
  by unfold_locales (auto simp: radix_wf_insert radix_get_insert)

end
