(* ===== verification/Muse_Cache.thy ===== *)
theory Muse_Cache
  imports Muser_Prelude
begin

section \<open>Muse layers and the session cache snapshot\<close>

text \<open>
  Models the layer table of \<open>crates/muser-engine/src/config.rs\<close> and the cache interchange of
  \<open>crates/muser-engine/src/cache.rs\<close>: what a complete restorable cut is (\<open>validate\<close>), the
  little-endian plane conversions, and the scatter of a token-major tile into a token-major or
  head-major plane (\<open>write_f16_tile\<close>). Error messages are constructors that carry the values the
  message prints.

  Shown here: \<open>validate\<close> accepts exactly the snapshots of the documented shape (39 sliding layers
  with the last window of rows, 13 full layers with every row), the conversions are inverse to
  each other, and a tile write changes exactly the rows of the tile.
\<close>

subsection \<open>Layers\<close>

definition MUSE_LAYER_COUNT :: nat where "MUSE_LAYER_COUNT = 52"
definition MUSE_SWA_WINDOW :: nat where "MUSE_SWA_WINDOW = 2048"

datatype muse_layer_kind = SlidingRope | FullNoPe

datatype layer_index_error = LayerIndexError nat

fun is_swa :: "muse_layer_kind \<Rightarrow> bool" where
  "is_swa SlidingRope = True"
| "is_swa FullNoPe = False"

fun uses_rope :: "muse_layer_kind \<Rightarrow> bool" where
  "uses_rope SlidingRope = True"
| "uses_rope FullNoPe = False"

definition layer_kind :: "nat \<Rightarrow> layer_index_error + muse_layer_kind" where
  "layer_kind layer =
     (if layer \<ge> MUSE_LAYER_COUNT then Inl (LayerIndexError layer)
      else if layer mod 4 = 3 then Inr FullNoPe else Inr SlidingRope)"

definition nope_layers :: "nat list" where
  "nope_layers = filter (\<lambda>layer. layer_kind layer = Inr FullNoPe) [0..<MUSE_LAYER_COUNT]"

definition config_swa_layers :: "nat list" where
  "config_swa_layers = filter (\<lambda>layer. layer_kind layer = Inr SlidingRope) [0..<MUSE_LAYER_COUNT]"

subsection \<open>Snapshots\<close>

datatype plane_encoding = F16Le | F32Le

fun width_bytes :: "plane_encoding \<Rightarrow> nat" where
  "width_bytes F16Le = 2"
| "width_bytes F32Le = 4"

record cache_plane_snapshot =
  plane_layer :: nat
  logical_start :: nat
  logical_count :: nat
  plane_enc :: plane_encoding
  plane_key :: bytes
  plane_value :: bytes

record session_cache_snapshot =
  position :: nat
  snap_tokens :: "u32 list"
  elements_per_token :: nat
  layers :: "cache_plane_snapshot list"

datatype snapshot_error =
    ZeroPosition
  | TokenCount nat nat
  | ZeroRowWidth
  | LayerCount nat
  | LayerOrder nat nat
  | LayerRange nat nat nat nat nat
  | LayerSizeOverflow nat
  | LayerBytes nat nat nat nat

definition expected_count :: "nat \<Rightarrow> nat \<Rightarrow> nat \<Rightarrow> nat" where
  "expected_count pos window layer =
     (case layer_kind layer of Inr k \<Rightarrow> if is_swa k then min pos window else pos | Inl _ \<Rightarrow> pos)"

definition validate_plane ::
    "session_cache_snapshot \<Rightarrow> nat \<Rightarrow> nat \<times> cache_plane_snapshot \<Rightarrow> snapshot_error + unit" where
  "validate_plane s window = (\<lambda>(expected_layer, plane).
     if plane_layer plane \<noteq> expected_layer then Inl (LayerOrder (plane_layer plane) expected_layer)
     else
       let count = expected_count (position s) window expected_layer;
           start = position s - count in
       if logical_start plane \<noteq> start \<or> logical_count plane \<noteq> count
       then Inl (LayerRange expected_layer (logical_start plane)
              (saturating_add (logical_start plane) (logical_count plane)) start (position s))
       else bind_res
         (ok_or (Option.bind (checked_mul count (elements_per_token s))
                  (\<lambda>elements. checked_mul elements (width_bytes (plane_enc plane))))
           (LayerSizeOverflow expected_layer))
         (\<lambda>expected_bytes.
            if length (plane_key plane) \<noteq> expected_bytes \<or> length (plane_value plane) \<noteq> expected_bytes
            then Inl (LayerBytes expected_layer (length (plane_key plane))
                   (length (plane_value plane)) expected_bytes)
            else Inr ()))"

definition validate_for_window :: "session_cache_snapshot \<Rightarrow> nat \<Rightarrow> snapshot_error + unit" where
  "validate_for_window s window =
     (if position s = 0 then Inl ZeroPosition
      else if length (snap_tokens s) \<noteq> position s
      then Inl (TokenCount (length (snap_tokens s)) (position s))
      else if elements_per_token s = 0 then Inl ZeroRowWidth
      else if length (layers s) \<noteq> MUSE_LAYER_COUNT then Inl (LayerCount (length (layers s)))
      else for_each (validate_plane s window) (List.enumerate 0 (layers s)))"

definition validate :: "session_cache_snapshot \<Rightarrow> snapshot_error + unit" where
  "validate s = validate_for_window s MUSE_SWA_WINDOW"

definition snapshot_encoding :: "session_cache_snapshot \<Rightarrow> plane_encoding option" where
  "snapshot_encoding s =
     (case layers s of [] \<Rightarrow> None
      | p # _ \<Rightarrow> if list_all (\<lambda>q. plane_enc q = plane_enc p) (layers s)
                then Some (plane_enc p) else None)"

subsection \<open>Plane bytes\<close>

text \<open>\<open>f32::is_finite\<close> on the bit pattern: the exponent field is not all ones.\<close>

definition f32_is_finite :: "u32 \<Rightarrow> bool" where
  "f32_is_finite v \<longleftrightarrow> (unat v div 2 ^ 23) mod 256 \<noteq> 255"

definition u16s_to_le_bytes :: "u16 list \<Rightarrow> bytes" where
  "u16s_to_le_bytes vs = concat (map (\<lambda>v. le_bytes 2 (unat v)) vs)"

definition f32s_to_le_bytes :: "u32 list \<Rightarrow> bytes" where
  "f32s_to_le_bytes vs = concat (map (\<lambda>v. le_bytes 4 (unat v)) vs)"

datatype plane_error =
  OddF16Length | BadF32Length | TileSizeOverflow | TileOffsetOverflow
  | TileGeometry nat nat nat nat nat nat

text \<open>\<open>chunks_exact(n)\<close> followed by \<open>from_le_bytes\<close>; the lengths were checked to be multiples.\<close>

definition le_bytes_to_u16s :: "bytes \<Rightarrow> plane_error + u16 list" where
  "le_bytes_to_u16s b =
     (if \<not> is_multiple_of (length b) 2 then Inl OddF16Length
      else Inr (map (\<lambda>c. of_nat (le_nat c)) (chunks 2 b)))"

definition le_bytes_to_f32s :: "bytes \<Rightarrow> plane_error + u32 list" where
  "le_bytes_to_f32s b =
     (if \<not> is_multiple_of (length b) 4 then Inl BadF32Length
      else Inr (map (\<lambda>c. of_nat (le_nat c)) (chunks 4 b)))"

text \<open>The in-memory view of a \<open>u16\<close> slice as bytes: the writer changes the bytes in place, so the
  new slice is read back from them.\<close>

definition from_bytes_view :: "bytes \<Rightarrow> u16 list" where
  "from_bytes_view b = map (\<lambda>c. of_nat (le_nat c)) (chunks 2 b)"

definition copy_row :: "nat \<Rightarrow> nat \<Rightarrow> nat \<Rightarrow> nat \<Rightarrow> bytes \<Rightarrow> bytes \<Rightarrow> nat \<times> nat \<Rightarrow> bytes" where
  "copy_row capacity kv_dim head_dim physical_start src dest = (\<lambda>(head, token).
     let row_bytes = head_dim * 2;
         source = (token * kv_dim + head * head_dim) * 2;
         destination = (head * capacity + physical_start + token) * row_bytes
     in blit dest destination (take row_bytes (drop source src)))"

definition write_f16_tile ::
    "u16 list \<Rightarrow> nat \<Rightarrow> nat \<Rightarrow> nat \<Rightarrow> bool \<Rightarrow> nat \<Rightarrow> nat \<Rightarrow> bytes \<Rightarrow> plane_error + u16 list" where
  "write_f16_tile dest capacity kv_dim head_dim head_major physical_start count src =
     bind_res (ok_or (Option.bind (checked_mul count kv_dim) (\<lambda>elements. checked_mul elements 2))
       TileSizeOverflow) (\<lambda>expected.
     if length dest \<noteq> saturating_mul capacity kv_dim \<or> kv_dim = 0 \<or> head_dim = 0
        \<or> \<not> is_multiple_of kv_dim head_dim \<or> length src \<noteq> expected
        \<or> (case checked_add physical_start count of None \<Rightarrow> True | Some e \<Rightarrow> e > capacity)
     then Inl (TileGeometry (length dest) capacity kv_dim physical_start count (length src))
     else
       let dest_bytes = u16s_to_le_bytes dest in
       if \<not> head_major then
         bind_res (ok_or (Option.bind (checked_mul physical_start kv_dim)
             (\<lambda>elements. checked_mul elements 2)) TileOffsetOverflow) (\<lambda>off.
         Inr (from_bytes_view (blit dest_bytes off src)))
       else
         let heads = kv_dim div head_dim in
         Inr (from_bytes_view
           (foldl (copy_row capacity kv_dim head_dim physical_start src) dest_bytes
             (List.product [0..<heads] [0..<count]))))"

subsection \<open>Layer lemmas\<close>

lemma layer_kind_Inr: "layer < MUSE_LAYER_COUNT \<Longrightarrow> layer_kind layer = Inr (if layer mod 4 = 3 then FullNoPe else SlidingRope)"
  by (simp add: layer_kind_def)

lemma expected_count_le: "expected_count pos window layer \<le> pos"
  by (auto simp: expected_count_def split: sum.splits)

subsection \<open>Shape of a valid snapshot\<close>

text \<open>The documented shape: layer \<open>i\<close> holds \<open>[position - n, position)\<close> with \<open>n\<close> rows of the row
  width in each of its two planes.\<close>

definition plane_shape :: "session_cache_snapshot \<Rightarrow> nat \<Rightarrow> nat \<Rightarrow> cache_plane_snapshot \<Rightarrow> bool" where
  "plane_shape s window i p \<longleftrightarrow>
     (let n = (if i mod 4 = 3 then position s else min (position s) window);
          size = n * elements_per_token s * width_bytes (plane_enc p) in
      plane_layer p = i \<and> logical_start p + n = position s \<and> logical_count p = n
      \<and> size < 2 ^ 64 \<and> length (plane_key p) = size \<and> length (plane_value p) = size)"

lemma width_bytes_pos: "0 < width_bytes e"
  by (cases e) simp_all

lemma validate_plane_iff:
  assumes "i < MUSE_LAYER_COUNT"
  shows "validate_plane s window (i, p) = Inr () \<longleftrightarrow> plane_shape s window i p"
proof -
  define n where "n = (if i mod 4 = 3 then position s else min (position s) window)"
  have count: "expected_count (position s) window i = n"
    using assms by (simp add: expected_count_def layer_kind_Inr n_def)
  have n: "n \<le> position s" by (simp add: n_def)
  have mono: "n * e < 2 ^ 64" if "n * e * width_bytes (plane_enc p) < 2 ^ 64" for e
    using that by (cases "plane_enc p") (simp_all add: mult.commute [of n e])
  show ?thesis
    unfolding validate_plane_def plane_shape_def Let_def prod.case count n_def [symmetric]
    using n mono [of "elements_per_token s"]
    by (auto simp: res_iffs bind_eq_Some_conv checked_iffs split: if_splits)
qed

lemma validate_for_window_iff:
  "validate_for_window s window = Inr () \<longleftrightarrow>
     0 < position s \<and> length (snap_tokens s) = position s \<and> 0 < elements_per_token s
     \<and> length (layers s) = MUSE_LAYER_COUNT
     \<and> (\<forall>i<MUSE_LAYER_COUNT. plane_shape s window i (layers s ! i))"
  using validate_plane_iff [of _ s window]
  by (auto simp: validate_for_window_def for_each_Inr_iff Ball_enumerate split: if_splits)

subsection \<open>Conversions\<close>

lemma chunks_concat_words:
  "0 < n \<Longrightarrow> chunks n (concat (map (\<lambda>v. le_bytes n (f v)) vs)) = map (\<lambda>v. le_bytes n (f v)) vs"
proof (induction vs)
  case (Cons v vs)
  then have "le_bytes n (f v) \<noteq> []" by (metis length_le_bytes length_0_conv less_numeral_extra(3))
  with Cons show ?case by (subst chunks.simps) simp
qed simp

lemma length_concat_words: "length (concat (map (\<lambda>v. le_bytes n (f v)) vs)) = n * length vs"
  by (induction vs) simp_all

lemma u16s_roundtrip: "le_bytes_to_u16s (u16s_to_le_bytes vs) = Inr vs"
  by (simp add: le_bytes_to_u16s_def u16s_to_le_bytes_def length_concat_words is_multiple_of_def
      chunks_concat_words comp_def le_word_roundtrip)

lemma f32s_roundtrip: "le_bytes_to_f32s (f32s_to_le_bytes vs) = Inr vs"
  by (simp add: le_bytes_to_f32s_def f32s_to_le_bytes_def length_concat_words is_multiple_of_def
      chunks_concat_words comp_def le_word_roundtrip)

lemma chunks_exact_lengths:
  "n dvd length b \<Longrightarrow> 0 < n \<Longrightarrow> c \<in> set (chunks n b) \<Longrightarrow> length c = n"
proof (induction n b rule: chunks.induct)
  case (1 n xs)
  show ?case
  proof (cases "xs = []")
    case False
    with 1 have le: "n \<le> length xs" by (auto dest: dvd_imp_le)
    then have "n dvd length (drop n xs)" using 1 by (simp add: dvd_diff_nat)
    with 1 False le show ?thesis by (auto simp: chunks.simps [of n xs])
  qed (use 1 in simp)
qed

lemma le_bytes_of_chunk: "length c = 2 \<Longrightarrow> le_bytes 2 (unat (of_nat (le_nat c) :: u16)) = c"
proof -
  assume c: "length c = 2"
  then have "unat (of_nat (le_nat c) :: u16) = le_nat c"
    using le_nat_lt [of c] by (simp add: unat_of_nat)
  then show ?thesis using le_bytes_le_nat [of c] c by simp
qed

lemma bytes_view_roundtrip: "even (length b) \<Longrightarrow> u16s_to_le_bytes (from_bytes_view b) = b"
proof -
  assume "even (length b)"
  then have "map (\<lambda>c. le_bytes 2 (unat (of_nat (le_nat c) :: u16))) (chunks 2 b) = chunks 2 b"
    by (intro map_idI) (auto simp: le_bytes_of_chunk chunks_exact_lengths)
  then show ?thesis by (simp add: u16s_to_le_bytes_def from_bytes_view_def comp_def)
qed

lemma length_u16s_to_le_bytes: "length (u16s_to_le_bytes vs) = 2 * length vs"
  by (simp add: u16s_to_le_bytes_def length_concat_words)

subsection \<open>Tile writes\<close>

text \<open>Writing whole rows of width \<open>w\<close> at distinct row numbers: the last write of a row is its
  content, other rows keep theirs.\<close>

lemma row_index:
  "r < n \<Longrightarrow> j < w \<Longrightarrow> r * w + j < n * w" for r n j w :: nat
proof -
  assume "r < n" "j < w"
  then have "r * w + j < Suc r * w" by simp
  also have "\<dots> \<le> n * w" using \<open>r < n\<close> by (intro mult_le_mono1) simp
  finally show ?thesis .
qed

lemma nth_blit_row:
  assumes "length dest = n * w" "q < n" "length src = w" "r < n" "j < w"
  shows "blit dest (q * w) src ! (r * w + j) = (if r = q then src ! j else dest ! (r * w + j))"
proof -
  have "q * w + w \<le> n * w" using assms(2) by (metis Suc_leI add.commute mult_Suc mult_le_mono1)
  moreover have "q * w \<le> r * w + j \<and> r * w + j < q * w + w \<longleftrightarrow> r = q"
  proof
    assume h: "q * w \<le> r * w + j \<and> r * w + j < q * w + w"
    have "(r * w + j) div w = r" using assms(5) by simp
    moreover have "(r * w + j) div w = q" using h by (intro div_nat_eqI) (auto simp: mult.commute)
    ultimately show "r = q" by simp
  qed (use assms(5) in simp)
  ultimately show ?thesis
    using assms row_index [of r n j w] by (auto simp: nth_blit)
qed

lemma foldl_blit_rows:
  assumes "\<forall>x\<in>set xs. row x < n \<and> length (src x) = w" and "length dest = n * w"
    and "r < n" "j < w" "inj_on row (set xs)"
  shows "length (foldl (\<lambda>d x. blit d (row x * w) (src x)) dest xs) = n * w
    \<and> foldl (\<lambda>d x. blit d (row x * w) (src x)) dest xs ! (r * w + j) =
      (case find (\<lambda>x. row x = r) xs of Some x \<Rightarrow> src x ! j | None \<Rightarrow> dest ! (r * w + j))"
  using assms
proof (induction xs rule: rev_induct)
  case (snoc x xs)
  let ?d = "foldl (\<lambda>d x. blit d (row x * w) (src x)) dest xs"
  from snoc have len: "length ?d = n * w"
    and old: "?d ! (r * w + j) = (case find (\<lambda>x. row x = r) xs of Some x \<Rightarrow> src x ! j | None \<Rightarrow> dest ! (r * w + j))"
    by auto
  from snoc.prems have x: "row x < n" "length (src x) = w" by auto
  have "row x * w + w \<le> n * w" using x(1) by (metis Suc_leI add.commute mult_Suc mult_le_mono1)
  then have "length (blit ?d (row x * w) (src x)) = n * w" using len x by (simp add: length_blit)
  moreover have "blit ?d (row x * w) (src x) ! (r * w + j) = (if r = row x then src x ! j else ?d ! (r * w + j))"
    using len x snoc.prems by (intro nth_blit_row) auto
  moreover have "find (\<lambda>x. row x = r) (xs @ [x]) =
      (case find (\<lambda>x. row x = r) xs of Some y \<Rightarrow> Some y | None \<Rightarrow> if row x = r then Some x else None)"
    by (induction xs) auto
  moreover have "y = x" if "find (\<lambda>x. row x = r) xs = Some y" "r = row x" for y
  proof -
    from that(1) have "y \<in> set xs" "row y = r" by (auto simp: find_Some_iff)
    with that(2) snoc.prems(5) show ?thesis by (auto simp: inj_on_def)
  qed
  ultimately show ?case using old by (auto split: option.splits)
qed simp

text \<open>Where the row of one head at one token lies in a plane, by layout.\<close>

definition row_offset :: "bool \<Rightarrow> nat \<Rightarrow> nat \<Rightarrow> nat \<Rightarrow> nat \<Rightarrow> nat \<Rightarrow> nat" where
  "row_offset head_major capacity kv_dim head_dim head pos =
     (if head_major then (head * capacity + pos) * (head_dim * 2)
      else (pos * kv_dim + head * head_dim) * 2)"

lemma tile_geometry:
  assumes "write_f16_tile dest capacity kv_dim head_dim hm ps count src = Inr dest'"
    and "length dest < 2 ^ 63"
  shows "length dest = capacity * kv_dim" "0 < head_dim" "head_dim dvd kv_dim"
    "length src = count * kv_dim * 2" "ps + count \<le> capacity"
  using assms
  by (auto simp: write_f16_tile_def res_iffs bind_eq_Some_conv checked_iffs is_multiple_of_dvd
      saturating_mul_def min_def split: if_splits option.splits)

lemma write_f16_tile_token_major:
  assumes w: "write_f16_tile dest capacity kv_dim head_dim False ps count src = Inr dest'"
    and "length dest < 2 ^ 63"
  shows "u16s_to_le_bytes dest' = blit (u16s_to_le_bytes dest) (ps * kv_dim * 2) src"
proof -
  note g = tile_geometry [OF assms]
  from w have d: "dest' = from_bytes_view (blit (u16s_to_le_bytes dest) (ps * kv_dim * 2) src)"
    by (auto simp: write_f16_tile_def Let_def res_iffs bind_eq_Some_conv checked_iffs
        split: if_splits)
  have "(ps + count) * kv_dim * 2 \<le> capacity * kv_dim * 2"
    using g(5) by (intro mult_le_mono1)
  then have "length (blit (u16s_to_le_bytes dest) (ps * kv_dim * 2) src) = 2 * length dest"
    using g by (subst length_blit) (auto simp: length_u16s_to_le_bytes algebra_simps)
  then show ?thesis by (simp add: d bytes_view_roundtrip)
qed

lemma token_major_index:
  fixes ps pos kv_dim head head_dim j count :: nat
  assumes "head * head_dim + head_dim \<le> kv_dim" "j < head_dim * 2"
  shows "ps * kv_dim * 2 \<le> (pos * kv_dim + head * head_dim) * 2 + j
      \<and> (pos * kv_dim + head * head_dim) * 2 + j < ps * kv_dim * 2 + count * kv_dim * 2
    \<longleftrightarrow> ps \<le> pos \<and> pos < ps + count"
proof -
  let ?k = "kv_dim * 2" and ?r = "head * head_dim * 2 + j"
  have r: "?r < ?k" using assms by simp
  have i: "(pos * kv_dim + head * head_dim) * 2 + j = pos * ?k + ?r" by (simp add: algebra_simps)
  have "pos * ?k + ?r < c * ?k \<longleftrightarrow> pos < c" for c
  proof
    assume "pos < c"
    from this r show "pos * ?k + ?r < c * ?k" by (rule row_index)
  next
    assume "pos * ?k + ?r < c * ?k"
    then have "pos * ?k < c * ?k" by linarith
    then show "pos < c" by (metis mult_less_cancel2)
  qed
  from this [of ps] this [of "ps + count"] show ?thesis
    by (simp add: i algebra_simps flip: linorder_not_less)
qed

lemma heads_index: "head < kv_dim div head_dim \<Longrightarrow> head * head_dim + head_dim \<le> kv_dim"
  for head kv_dim head_dim :: nat
proof -
  assume "head < kv_dim div head_dim"
  then have "Suc head * head_dim \<le> kv_dim div head_dim * head_dim" by (intro mult_le_mono1) simp
  also have "\<dots> \<le> kv_dim" by simp
  finally show ?thesis by simp
qed

lemma mixed_radix_eq:
  fixes h h' t t' c :: nat
  assumes "t < c" "t' < c" "h * c + t = h' * c + t'"
  shows "h = h' \<and> t = t'"
proof -
  have "(h * c + t) div c = h" "(h' * c + t') div c = h'" using assms(1,2) by simp_all
  with assms(3) have "h = h'" by metis
  with assms(3) show ?thesis by simp
qed

text \<open>The (head, token) pairs of a tile, the row each goes to and the bytes it takes.\<close>

abbreviation tile_row :: "nat \<Rightarrow> nat \<Rightarrow> nat \<times> nat \<Rightarrow> nat" where
  "tile_row capacity ps \<equiv> (\<lambda>(h, t). h * capacity + ps + t)"

abbreviation tile_src :: "nat \<Rightarrow> nat \<Rightarrow> bytes \<Rightarrow> nat \<times> nat \<Rightarrow> bytes" where
  "tile_src kv_dim head_dim src \<equiv>
     (\<lambda>(h, t). take (head_dim * 2) (drop ((t * kv_dim + h * head_dim) * 2) src))"

lemma tile_rows_ok:
  assumes "length src = count * kv_dim * 2" "ps + count \<le> capacity"
    and "x \<in> set (List.product [0..<kv_dim div head_dim] [0..<count])"
  shows "tile_row capacity ps x < kv_dim div head_dim * capacity
    \<and> length (tile_src kv_dim head_dim src x) = head_dim * 2"
proof -
  obtain h t where x: "x = (h, t)" and ht: "h < kv_dim div head_dim" "t < count"
    using assms(3) by auto
  have "h * capacity + (ps + t) < kv_dim div head_dim * capacity"
    using ht assms(2) by (intro row_index) auto
  moreover have "t * (kv_dim * 2) + (h * head_dim * 2 + head_dim * 2) \<le> Suc t * (kv_dim * 2)"
    using heads_index [OF ht(1)] by simp
  moreover have "Suc t * (kv_dim * 2) \<le> count * (kv_dim * 2)"
    using ht(2) by (intro mult_le_mono1) simp
  ultimately show ?thesis using assms(1) x by (simp add: algebra_simps)
qed

lemma tile_row_inj:
  "ps + count \<le> capacity \<Longrightarrow>
   inj_on (tile_row capacity ps) (set (List.product [0..<heads] [0..<count]))"
proof (intro inj_onI)
  fix x y
  assume a: "ps + count \<le> capacity" "x \<in> set (List.product [0..<heads] [0..<count])"
    "y \<in> set (List.product [0..<heads] [0..<count])" "tile_row capacity ps x = tile_row capacity ps y"
  obtain h t h' t' where xy: "x = (h, t)" "y = (h', t')" by fastforce
  with a have "ps + t < capacity" "ps + t' < capacity"
    "h * capacity + (ps + t) = h' * capacity + (ps + t')"
    by auto
  from mixed_radix_eq [OF this] xy show "x = y" by simp
qed

lemma tile_find:
  assumes "ps + count \<le> capacity" "head < heads" "pos < capacity"
  shows "find (\<lambda>x. tile_row capacity ps x = head * capacity + pos) (List.product [0..<heads] [0..<count]) =
    (if ps \<le> pos \<and> pos < ps + count then Some (head, pos - ps) else None)"
proof -
  let ?xs = "List.product [0..<heads] [0..<count]"
  have found: "x = (head, pos - ps) \<and> ps \<le> pos \<and> pos < ps + count"
    if "x \<in> set ?xs" "tile_row capacity ps x = head * capacity + pos" for x
  proof -
    obtain h t where x: "x = (h, t)" by fastforce
    with that assms have "ps + t < capacity" "h * capacity + (ps + t) = head * capacity + pos"
      by auto
    then have "h = head \<and> ps + t = pos" using assms(3) by (intro mixed_radix_eq) auto
    with that(1) x show ?thesis by auto
  qed
  show ?thesis
  proof (cases "find (\<lambda>x. tile_row capacity ps x = head * capacity + pos) ?xs")
    case None
    have "\<not> (ps \<le> pos \<and> pos < ps + count)"
    proof
      assume "ps \<le> pos \<and> pos < ps + count"
      then have "(head, pos - ps) \<in> set ?xs" "tile_row capacity ps (head, pos - ps) = head * capacity + pos"
        using assms(2) by auto
      with None show False by (metis (mono_tags, lifting) find_None_iff)
    qed
    with None show ?thesis by auto
  next
    case (Some y)
    then have "y \<in> set ?xs" "tile_row capacity ps y = head * capacity + pos"
      using find_SomeD by fastforce+
    from found [OF this] Some show ?thesis by simp
  qed
qed

lemma write_f16_tile_head_major:
  assumes w: "write_f16_tile dest capacity kv_dim head_dim True ps count src = Inr dest'"
    and small: "length dest < 2 ^ 63"
    and head: "head < kv_dim div head_dim" and pos: "pos < capacity" and j: "j < head_dim * 2"
  shows "u16s_to_le_bytes dest' ! ((head * capacity + pos) * (head_dim * 2) + j) =
    (if ps \<le> pos \<and> pos < ps + count
     then src ! (((pos - ps) * kv_dim + head * head_dim) * 2 + j)
     else u16s_to_le_bytes dest ! ((head * capacity + pos) * (head_dim * 2) + j))"
proof -
  note g = tile_geometry [OF w small]
  let ?heads = "kv_dim div head_dim" and ?w = "head_dim * 2"
  let ?n = "?heads * capacity" and ?xs = "List.product [0..<?heads] [0..<count]"
  let ?row = "tile_row capacity ps" and ?src = "tile_src kv_dim head_dim src"
  let ?fold = "foldl (\<lambda>d x. blit d (?row x * ?w) (?src x)) (u16s_to_le_bytes dest) ?xs"
  have "kv_dim = ?heads * head_dim" using g(3) by simp
  then have "capacity * kv_dim = ?n * head_dim" by (metis mult.assoc mult.commute)
  then have len: "length (u16s_to_le_bytes dest) = ?n * ?w"
    using g(1) by (simp add: length_u16s_to_le_bytes)
  have "copy_row capacity kv_dim head_dim ps src = (\<lambda>d x. blit d (?row x * ?w) (?src x))"
    by (auto simp: copy_row_def Let_def fun_eq_iff)
  with w have dest': "dest' = from_bytes_view ?fold"
    by (auto simp: write_f16_tile_def Let_def res_iffs split: if_splits)
  have rows: "\<forall>x\<in>set ?xs. ?row x < ?n \<and> length (?src x) = ?w"
    using tile_rows_ok [OF g(4,5)] by blast
  have r: "head * capacity + pos < ?n" using head pos by (rule row_index)
  note fold = foldl_blit_rows [of ?xs ?row ?n ?src ?w "u16s_to_le_bytes dest",
      OF rows len r j tile_row_inj [OF g(5)]]
  have "u16s_to_le_bytes dest' = ?fold"
    using fold by (simp add: dest' bytes_view_roundtrip)
  moreover have "?src (head, pos - ps) ! j = src ! (((pos - ps) * kv_dim + head * head_dim) * 2 + j)"
    if "ps \<le> pos \<and> pos < ps + count"
  proof -
    have "(head, pos - ps) \<in> set ?xs" using that head by auto
    with rows have "length (?src (head, pos - ps)) = ?w" by blast
    with j show ?thesis by simp
  qed
  ultimately show ?thesis using fold tile_find [OF g(5) head pos] by simp
qed

subsection \<open>Properties\<close>

text \<open>\<open>validate\<close> accepts a snapshot exactly when it is a complete cut: a nonzero position with
  one token per position, 52 planes in layer order, each full (NoPE) layer holding every row
  \<open>[0, position)\<close> and each sliding layer the last \<open>min position 2048\<close> rows, with key and value
  bytes of exactly that many rows.\<close>

theorem validate_complete_cut:
  "validate s = Inr () \<longleftrightarrow>
     0 < position s \<and> length (snap_tokens s) = position s \<and> 0 < elements_per_token s
     \<and> length (layers s) = 52
     \<and> (\<forall>i\<in>{0..<52}. plane_shape s 2048 i (layers s ! i))"
  unfolding validate_def validate_for_window_iff
  by (auto simp: MUSE_LAYER_COUNT_def MUSE_SWA_WINDOW_def)

definition demo_plane :: "nat \<Rightarrow> cache_plane_snapshot" where
  "demo_plane i = \<lparr>plane_layer = i, logical_start = 0, logical_count = 1, plane_enc = F16Le,
     plane_key = [1, 2], plane_value = [3, 4]\<rparr>"

definition demo_snapshot :: session_cache_snapshot where
  "demo_snapshot = \<lparr>position = 1, snap_tokens = [7], elements_per_token = 1,
     layers = map demo_plane [0..<52]\<rparr>"

lemma demo_shape: "length (layers demo_snapshot) = 52 \<and> (\<forall>i\<in>{0..<52}. plane_shape demo_snapshot 2048 i (layers demo_snapshot ! i))"
  by (simp add: demo_snapshot_def demo_plane_def plane_shape_def)

lemma validate_demo: "validate demo_snapshot = Inr ()"
  using demo_shape unfolding validate_def validate_for_window_iff
  by (simp add: MUSE_LAYER_COUNT_def MUSE_SWA_WINDOW_def demo_snapshot_def)

theorem validate_complete_cut_witness: "validate demo_snapshot = Inr ()"
  unfolding validate_complete_cut
  using demo_shape by (simp add: demo_snapshot_def)

text \<open>Writing a tile puts, for every head and token of the tile, exactly the tile's row bytes
  at that head and token of the plane, in the token-major and in the head-major layout alike, and
  leaves the rows of every other token untouched.\<close>

theorem write_f16_tile_exact:
  assumes "write_f16_tile dest capacity kv_dim head_dim head_major start count src = Inr dest'"
    and "length dest < 2 ^ 63"
    and "head < kv_dim div head_dim" "pos < capacity" "j < head_dim * 2"
  shows "u16s_to_le_bytes dest' ! (row_offset head_major capacity kv_dim head_dim head pos + j) =
    (if start \<le> pos \<and> pos < start + count
     then src ! (((pos - start) * kv_dim + head * head_dim) * 2 + j)
     else u16s_to_le_bytes dest ! (row_offset head_major capacity kv_dim head_dim head pos + j))"
proof (cases head_major)
  case True
  with assms show ?thesis using write_f16_tile_head_major by (simp add: row_offset_def)
next
  case False
  note g = tile_geometry [OF assms(1,2)] and h = heads_index [OF assms(3)]
  let ?i = "(pos * kv_dim + head * head_dim) * 2 + j"
  have "(start + count) * (kv_dim * 2) \<le> capacity * (kv_dim * 2)" using g(5) by (rule mult_le_mono1)
  moreover have "pos * (kv_dim * 2) + (head * head_dim * 2 + j) < capacity * (kv_dim * 2)"
    using assms(4) by (rule row_index) (use h assms(5) in simp)
  ultimately have "u16s_to_le_bytes dest' ! ?i =
      (if start * kv_dim * 2 \<le> ?i \<and> ?i < start * kv_dim * 2 + length src
       then src ! (?i - start * kv_dim * 2) else u16s_to_le_bytes dest ! ?i)"
    using write_f16_tile_token_major [of dest capacity kv_dim head_dim start count src dest']
      assms(1,2) False g
    by (simp add: nth_blit length_u16s_to_le_bytes algebra_simps)
  moreover have "?i - start * kv_dim * 2 = ((pos - start) * kv_dim + head * head_dim) * 2 + j"
    if "start \<le> pos"
  proof -
    from that have "pos * kv_dim = start * kv_dim + (pos - start) * kv_dim"
      by (metis add_mult_distrib le_add_diff_inverse)
    then show ?thesis by simp
  qed
  ultimately show ?thesis using False g(4) token_major_index [OF h assms(5), of start pos count]
    by (simp add: row_offset_def)
qed

theorem write_f16_tile_exact_witness:
  "\<exists>dest'. write_f16_tile [0, 0, 0, 0] 2 2 1 True 1 1 [5, 6, 7, 8] = Inr dest'
   \<and> u16s_to_le_bytes dest' ! (row_offset True 2 2 1 0 1 + 1) = 6"
proof -
  have w: "write_f16_tile [0, 0, 0, 0] 2 2 1 True 1 1 [5, 6, 7, 8] =
      Inr (from_bytes_view (foldl (copy_row 2 2 1 1 [5, 6, 7, 8]) (u16s_to_le_bytes [0, 0, 0, 0])
        (List.product [0..<2] [0..<1])))"
    by (simp add: write_f16_tile_def arith_defs is_multiple_of_def)
  from write_f16_tile_exact [OF w, of 0 1 1] w show ?thesis by simp
qed

text \<open>Plane bytes convert losslessly: reading back the little-endian bytes of any F16 or F32
  plane gives the plane, and byte strings of the wrong length are rejected.\<close>

theorem plane_bytes_roundtrip:
  "le_bytes_to_u16s (u16s_to_le_bytes vs) = Inr vs
   \<and> le_bytes_to_f32s (f32s_to_le_bytes ws) = Inr ws
   \<and> (le_bytes_to_u16s b = Inl OddF16Length) = odd (length b)
   \<and> (le_bytes_to_f32s b = Inl BadF32Length) = (\<not> 4 dvd length b)"
  by (simp add: u16s_roundtrip f32s_roundtrip) (simp add: le_bytes_to_u16s_def le_bytes_to_f32s_def
      is_multiple_of_dvd)

end
