(* ===== verification/Resident.thy ===== *)
theory Resident
  imports Radix_Tree Muse_Cache
begin

section \<open>Resident prefix cache\<close>

text \<open>
  The in-memory tier of \<open>crates/muser-kvpack/src/resident.rs\<close>: completed session snapshots, cut
  into content-interned chunks, indexed by identity and token prefix in the radix tree of
  \<open>Radix_Tree\<close>, evicted by least recent access when the resident bytes exceed the capacity.

  An \<open>Arc\<close> is an address with its contents; a \<open>Weak\<close> is the same pair, and upgrading it succeeds
  exactly while the address occurs in a live value: the tree, a hit that a caller still holds
  (\<open>held\<close>), or a chunk the running call has just interned. Addresses are handed out in order, so
  a freed address is never seen again. SHA-256 is the parameter \<open>sha\<close>; no property assumes
  anything of it, because the pool compares contents. Logits are kept as \<open>f32\<close> bit patterns.

  Shown here: chunking and materializing is the identity, a lookup returns the deepest eligible
  entry of the queried identity, insertion updates one key and never touches another identity,
  the eviction loop ends within capacity, and in every reachable state equal chunk contents share
  one allocation.
\<close>

definition RESIDENT_CUT_TOKENS :: nat where "RESIDENT_CUT_TOKENS = 256"
definition IDENTITY_KEY_WORDS :: nat where "IDENTITY_KEY_WORDS = 9"

definition scoped_key :: "bytes option \<Rightarrow> u32 list \<Rightarrow> u32 list" where
  "scoped_key identity tokens =
     (case identity of
        Some digest \<Rightarrow> 1 # map (\<lambda>w. word_of_nat (le_nat w)) (filter (\<lambda>w. length w = 4) (chunks 4 digest))
      | None \<Rightarrow> replicate IDENTITY_KEY_WORDS 0) @ tokens"

type_synonym arc = "nat \<times> bytes"

record chunked_plane =
  cp_layer :: nat
  cp_logical_start :: nat
  cp_logical_count :: nat
  cp_encoding :: plane_encoding
  cp_key :: "arc list"
  cp_value :: "arc list"

record resident_snapshot =
  rs_position :: nat
  rs_tokens :: "u32 list"
  rs_elements_per_token :: nat
  rs_layers :: "chunked_plane list"
  rs_last_logits :: "u32 list option"

datatype resident_error =
  InvalidSnapshot snapshot_error | ZeroCapacity | TokenMismatch | SizeOverflow | InvalidLogits

definition concatenate :: "arc list \<Rightarrow> bytes" where
  "concatenate arcs = concat (map snd arcs)"

definition materialize_plane :: "chunked_plane \<Rightarrow> cache_plane_snapshot" where
  "materialize_plane p =
     \<lparr>plane_layer = cp_layer p, logical_start = cp_logical_start p,
      logical_count = cp_logical_count p, plane_enc = cp_encoding p,
      plane_key = concatenate (cp_key p), plane_value = concatenate (cp_value p)\<rparr>"

definition materialize :: "resident_snapshot \<Rightarrow> resident_error + session_cache_snapshot" where
  "materialize r =
     (let snapshot = \<lparr>position = rs_position r, snap_tokens = rs_tokens r,
        elements_per_token = rs_elements_per_token r,
        layers = map materialize_plane (rs_layers r)\<rparr>
      in bind_res (map_err InvalidSnapshot (validate snapshot)) (\<lambda>_. Inr snapshot))"

record resident_entry =
  entry_id :: nat
  entry_snapshot :: resident_snapshot
  ancestor_reusable :: bool
  last_access :: nat

type_synonym node = "(u32, resident_entry) radix_node"

record resident_hit =
  cut :: nat
  exact :: bool
  hit_snapshot :: resident_snapshot

record resident_stats =
  stat_entries :: nat
  stat_nodes :: nat
  unique_chunk_bytes :: nat
  stat_queries :: nat
  stat_hits :: nat
  stat_evictions :: nat

subsection \<open>The chunk pool\<close>

record chunk_pool =
  by_digest :: "(bytes \<times> arc list) list"
  next_addr :: nat

definition upgrades :: "arc list \<Rightarrow> arc \<Rightarrow> bool" where
  "upgrades live weak \<longleftrightarrow> fst weak \<in> set (map fst live)"

definition intern :: "(bytes \<Rightarrow> bytes) \<Rightarrow> arc list \<Rightarrow> chunk_pool \<Rightarrow> bytes \<Rightarrow> chunk_pool \<times> arc" where
  "intern sha live pool bytes =
     (let digest = sha bytes;
          candidates = filter (upgrades live)
            (case map_of (by_digest pool) digest of Some cs \<Rightarrow> cs | None \<Rightarrow> [])
      in case find (\<lambda>existing. snd existing = bytes) candidates of
           Some existing \<Rightarrow>
             (pool\<lparr>by_digest := AList.update digest candidates (by_digest pool)\<rparr>, existing)
         | None \<Rightarrow>
             let chunk = (next_addr pool, bytes) in
             (pool\<lparr>by_digest := AList.update digest (candidates @ [chunk]) (by_digest pool),
                   next_addr := next_addr pool + 1\<rparr>, chunk))"

definition live_bytes :: "arc list \<Rightarrow> chunk_pool \<Rightarrow> chunk_pool \<times> nat" where
  "live_bytes live pool =
     (let kept = filter (\<lambda>(d, cs). cs \<noteq> [])
            (map (\<lambda>(d, cs). (d, filter (upgrades live) cs)) (by_digest pool))
      in (pool\<lparr>by_digest := kept\<rparr>,
          foldl (\<lambda>n c. saturating_add n (length (snd c))) 0 (concat (map snd kept))))"

subsection \<open>Chunking a snapshot\<close>

fun intern_all :: "(bytes \<Rightarrow> bytes) \<Rightarrow> arc list \<Rightarrow> chunk_pool \<Rightarrow> bytes list \<Rightarrow> chunk_pool \<times> arc list" where
  "intern_all sha live pool [] = (pool, [])"
| "intern_all sha live pool (b # bs) =
     (let (pool', a) = intern sha live pool b;
          (pool'', as) = intern_all sha (a # live) pool' bs
      in (pool'', a # as))"

fun chunk_planes :: "(bytes \<Rightarrow> bytes) \<Rightarrow> nat \<Rightarrow> arc list \<Rightarrow> chunk_pool \<Rightarrow> cache_plane_snapshot list
    \<Rightarrow> chunk_pool \<times> (resident_error + chunked_plane list)" where
  "chunk_planes sha ept live pool [] = (pool, Inr [])"
| "chunk_planes sha ept live pool (plane # planes) =
     (case Option.bind (checked_mul ept (width_bytes (plane_enc plane)))
             (\<lambda>row_bytes. checked_mul row_bytes RESIDENT_CUT_TOKENS) of
        None \<Rightarrow> (pool, Inl SizeOverflow)
      | Some chunk_bytes \<Rightarrow>
          let (pool1, key) = intern_all sha live pool (chunks chunk_bytes (plane_key plane));
              (pool2, vals) = intern_all sha (key @ live) pool1 (chunks chunk_bytes (plane_value plane));
              (pool3, rest) = chunk_planes sha ept (vals @ key @ live) pool2 planes
          in (pool3, bind_res rest (\<lambda>ps. Inr
               (\<lparr>cp_layer = plane_layer plane, cp_logical_start = logical_start plane,
                 cp_logical_count = logical_count plane, cp_encoding = plane_enc plane,
                 cp_key = key, cp_value = vals\<rparr> # ps))))"

definition chunk_snapshot :: "(bytes \<Rightarrow> bytes) \<Rightarrow> arc list \<Rightarrow> chunk_pool \<Rightarrow> session_cache_snapshot
    \<Rightarrow> u32 list option \<Rightarrow> chunk_pool \<times> (resident_error + resident_snapshot)" where
  "chunk_snapshot sha live pool s logits =
     (let (pool', planes) = chunk_planes sha (elements_per_token s) live pool (layers s)
      in (pool', bind_res planes (\<lambda>ps. Inr
            \<lparr>rs_position = position s, rs_tokens = snap_tokens s,
             rs_elements_per_token = elements_per_token s, rs_layers = ps,
             rs_last_logits = logits\<rparr>)))"

subsection \<open>Tree operations\<close>

definition plane_arcs :: "chunked_plane \<Rightarrow> arc list" where
  "plane_arcs p = cp_key p @ cp_value p"

definition snapshot_arcs :: "resident_snapshot \<Rightarrow> arc list" where
  "snapshot_arcs r = concat (map plane_arcs (rs_layers r))"

definition tree_arcs :: "node \<Rightarrow> arc list" where
  "tree_arcs t = concat (map (\<lambda>(k, x). snapshot_arcs (entry_snapshot x)) (entry_list t))"

fun entry_logits_bytes :: "node \<Rightarrow> nat" where
  "entry_logits_bytes (Node e en ch) =
     foldl (\<lambda>total b. saturating_add total b)
       (case Option.bind en (\<lambda>x. rs_last_logits (entry_snapshot x)) of
          Some vs \<Rightarrow> saturating_mul (length vs) 4 | None \<Rightarrow> 0)
       (map (\<lambda>(k, c). entry_logits_bytes c) ch)"

text \<open>The entry of a visited node: the hit it records and the access time it gets.\<close>

definition own_best :: "resident_entry option \<Rightarrow> u32 list \<Rightarrow> nat \<Rightarrow> nat \<Rightarrow> resident_hit option \<Rightarrow> resident_hit option" where
  "own_best en rem depth max_depth best =
     (case en of
        Some x \<Rightarrow> if depth \<le> max_depth \<and> (rem = [] \<or> ancestor_reusable x)
                  then Some \<lparr>cut = depth - IDENTITY_KEY_WORDS, exact = (rem = []), hit_snapshot = entry_snapshot x\<rparr>
                  else best
      | None \<Rightarrow> best)"

definition own_entry :: "resident_entry option \<Rightarrow> u32 list \<Rightarrow> nat \<Rightarrow> nat \<Rightarrow> nat \<Rightarrow> resident_entry option" where
  "own_entry en rem depth now max_depth =
     (case en of
        Some x \<Rightarrow> if depth \<le> max_depth \<and> (rem = [] \<or> ancestor_reusable x)
                  then Some (x\<lparr>last_access := now\<rparr>) else Some x
      | None \<Rightarrow> None)"

function longest_match_recursive :: "node \<Rightarrow> u32 list \<Rightarrow> nat \<Rightarrow> nat \<Rightarrow> nat \<Rightarrow> resident_hit option
    \<Rightarrow> node \<times> resident_hit option" where
  "longest_match_recursive (Node e en ch) remaining depth now max_depth best =
     (if depth \<ge> max_depth
      then (Node e (own_entry en remaining depth now max_depth) ch, own_best en remaining depth max_depth best)
      else case remaining of
        [] \<Rightarrow> (Node e (own_entry en remaining depth now max_depth) ch, own_best en remaining depth max_depth best)
      | first # _ \<Rightarrow>
         (case map_of ch first of
            None \<Rightarrow> (Node e (own_entry en remaining depth now max_depth) ch, own_best en remaining depth max_depth best)
          | Some child \<Rightarrow>
              if shared_prefix_len (edge child) remaining = length (edge child)
              then (let (child', best') = longest_match_recursive child
                          (drop (length (edge child)) remaining) (depth + length (edge child)) now max_depth
                          (own_best en remaining depth max_depth best)
                    in (Node e (own_entry en remaining depth now max_depth) (AList.update first child' ch), best'))
              else (Node e (own_entry en remaining depth now max_depth) ch,
                    own_best en remaining depth max_depth best)))"
  by pat_completeness auto
termination
  by (relation "measure (\<lambda>(t, ks, d, now, m, b). size t)") (auto dest!: child_size)

declare longest_match_recursive.simps [simp del]

definition lru_step :: "resident_entry \<Rightarrow> (nat \<times> nat) option \<Rightarrow> (nat \<times> nat) option" where
  "lru_step x best =
     (if (case best of None \<Rightarrow> True | Some (i, age) \<Rightarrow> last_access x < age)
      then Some (entry_id x, last_access x) else best)"

fun lru_visit :: "node \<Rightarrow> (nat \<times> nat) option \<Rightarrow> (nat \<times> nat) option" where
  "lru_visit (Node e en ch) best =
     fold (\<lambda>(k, c) b. lru_visit c b) ch
       (case en of None \<Rightarrow> best | Some x \<Rightarrow> lru_step x best)"

definition find_lru :: "node \<Rightarrow> nat option" where
  "find_lru root = map_option fst (lru_visit root None)"

definition remove_entry :: "node \<Rightarrow> nat \<Rightarrow> node" where
  "remove_entry t i = fst (remove_where (\<lambda>x. entry_id x = i) t)"

definition find_id :: "node \<Rightarrow> nat \<Rightarrow> bool" where
  "find_id t i = any_entry (\<lambda>x. entry_id x = i) t"

subsection \<open>The resident index\<close>

record resident_radix =
  root :: node
  chunk_store :: chunk_pool
  capacity_bytes :: nat
  clock :: nat
  next_id :: nat
  queries :: nat
  hits :: nat
  evictions :: nat

definition resident_new :: "nat \<Rightarrow> resident_error + resident_radix" where
  "resident_new capacity =
     (if capacity = 0 then Inl ZeroCapacity
      else Inr \<lparr>root = empty_node, chunk_store = \<lparr>by_digest = [], next_addr = 0\<rparr>,
             capacity_bytes = capacity, clock = 0, next_id = 1, queries = 0, hits = 0,
             evictions = 0\<rparr>)"

definition resident_bytes :: "arc list \<Rightarrow> node \<Rightarrow> chunk_pool \<Rightarrow> chunk_pool \<times> nat" where
  "resident_bytes held t pool =
     (let (pool', n) = live_bytes (tree_arcs t @ held) pool
      in (pool', saturating_add n (entry_logits_bytes t)))"

subsection \<open>Least recent entry\<close>

lemma lru_fold_shift:
  "fold (\<lambda>kx. lru_step (snd kx)) (map (\<lambda>(p, x). (q @ p, x)) xs) b = fold (\<lambda>kx. lru_step (snd kx)) xs b"
  by (induction xs arbitrary: b) auto

lemma lru_fold_below:
  "(\<And>k c b. (k, c) \<in> set cs \<Longrightarrow> lru_visit c b = fold (\<lambda>kx. lru_step (snd kx)) (entry_list c) b) \<Longrightarrow>
   fold (\<lambda>(k, c) b. lru_visit c b) cs b = fold (\<lambda>kx. lru_step (snd kx)) (below cs) b"
proof (induction cs arbitrary: b)
  case (Cons kc cs)
  obtain k c where kc: "kc = (k, c)" by (cases kc)
  have "lru_visit c b = fold (\<lambda>kx. lru_step (snd kx)) (entry_list c) b"
    by (rule Cons.prems [of k]) (simp add: kc)
  moreover have "fold (\<lambda>(k, c) b. lru_visit c b) cs b' = fold (\<lambda>kx. lru_step (snd kx)) (below cs) b'" for b'
    by (rule Cons.IH, rule Cons.prems, rule list.set_intros(2))
  ultimately show ?case by (simp add: kc below_Cons lru_fold_shift)
qed (simp add: below_def)

lemma lru_visit_fold: "lru_visit t b = fold (\<lambda>kx. lru_step (snd kx)) (entry_list t) b"
proof (induction t b rule: lru_visit.induct)
  case (1 e en ch b)
  have "fold (\<lambda>(k, c) b. lru_visit c b) ch b' = fold (\<lambda>kx. lru_step (snd kx)) (below ch) b'" for b'
    by (rule lru_fold_below, erule "1.IH") simp
  then show ?case
    by (simp add: entry_list_below del: entry_list.simps split: option.splits)
qed

lemma lru_step_minimum:
  assumes "fold (\<lambda>kx. lru_step (snd kx)) xs b = r"
  shows "(r = None \<longleftrightarrow> xs = [] \<and> b = None)
    \<and> (\<forall>i age. r = Some (i, age) \<longrightarrow>
        (b = Some (i, age) \<or> (\<exists>(k, x)\<in>set xs. entry_id x = i \<and> last_access x = age))
        \<and> (\<forall>(k, x)\<in>set xs. age \<le> last_access x) \<and> (\<forall>j age'. b = Some (j, age') \<longrightarrow> age \<le> age'))"
  using assms
proof (induction xs arbitrary: b)
  case (Cons kx xs)
  obtain k x where kx: "kx = (k, x)" by (cases kx)
  have step: "lru_step x b \<noteq> None" by (auto simp: lru_step_def split: option.splits)
  note IH = Cons.IH [of "lru_step x b"]
  from Cons.prems kx have r: "fold (\<lambda>kx. lru_step (snd kx)) xs (lru_step x b) = r" by simp
  show ?case
  proof (cases "case b of None \<Rightarrow> True | Some (i, age) \<Rightarrow> last_access x < age")
    case True
    then have "lru_step x b = Some (entry_id x, last_access x)" by (simp add: lru_step_def)
    with IH [OF r] True show ?thesis by (fastforce simp: kx split: option.splits)
  next
    case False
    then obtain j age where "b = Some (j, age)" "age \<le> last_access x" "lru_step x b = b"
      by (auto simp: lru_step_def split: option.splits)
    with IH [OF r] show ?thesis by (fastforce simp: kx)
  qed
qed auto

lemma find_lru_None: "find_lru t = None \<longleftrightarrow> entry_list t = []"
  using lru_step_minimum [of "entry_list t" None] by (simp add: find_lru_def lru_visit_fold)

lemma find_lru_Some:
  assumes "find_lru t = Some i"
  obtains k x where "(k, x) \<in> set (entry_list t)" "entry_id x = i"
    "\<And>k' x'. (k', x') \<in> set (entry_list t) \<Longrightarrow> last_access x \<le> last_access x'"
proof -
  from assms obtain age where "fold (\<lambda>kx. lru_step (snd kx)) (entry_list t) None = Some (i, age)"
    by (auto simp: find_lru_def lru_visit_fold)
  from lru_step_minimum [OF this] that show ?thesis by fastforce
qed

lemma entry_list_remove_entry:
  "entry_list (remove_entry t i) = remove_first (\<lambda>kx. entry_id (snd kx) = i) (entry_list t)"
  by (simp add: remove_entry_def remove_where_entries)

lemma find_lru_removes:
  assumes "find_lru t = Some i"
  shows "length (entry_list (remove_entry t i)) < length (entry_list t)"
proof -
  obtain k x where "(k, x) \<in> set (entry_list t)" "entry_id x = i" using find_lru_Some [OF assms] .
  then have "list_ex (\<lambda>kx. entry_id (snd kx) = i) (entry_list t)"
    by (auto simp: list_ex_iff intro: bexI [of _ "(k, x)"])
  from length_remove_first [OF this] show ?thesis by (simp add: entry_list_remove_entry)
qed

subsection \<open>Insertion with eviction, lookup, statistics\<close>

text \<open>The eviction loop of \<open>insert_with_logits\<close>; it ends because every turn removes an entry.\<close>

function evict_loop :: "arc list \<Rightarrow> nat \<Rightarrow> node \<Rightarrow> chunk_pool \<Rightarrow> nat \<Rightarrow> node \<times> chunk_pool \<times> nat" where
  "evict_loop held capacity t pool evicted_count =
     (let (pool', bytes) = resident_bytes held t pool in
      if bytes > capacity
      then (case find_lru t of
              None \<Rightarrow> (t, pool', evicted_count)
            | Some evicted \<Rightarrow>
                evict_loop held capacity (prune_empty (remove_entry t evicted)) pool'
                  (saturating_add evicted_count 1))
      else (t, pool', evicted_count))"
  by pat_completeness auto
termination
  by (relation "measure (\<lambda>(h, c, t, p, n). length (entry_list t))")
    (auto simp: prune_empty_entries find_lru_removes)

declare evict_loop.simps [simp del]

definition insert_with_logits :: "(bytes \<Rightarrow> bytes) \<Rightarrow> arc list \<Rightarrow> resident_radix \<Rightarrow> bytes option
    \<Rightarrow> session_cache_snapshot \<Rightarrow> u32 list option \<Rightarrow> resident_radix \<times> (resident_error + bool)" where
  "insert_with_logits sha held r identity s logits =
     (case validate s of Inl e \<Rightarrow> (r, Inl (InvalidSnapshot e)) | Inr _ \<Rightarrow>
      if length (snap_tokens s) \<noteq> position s then (r, Inl TokenMismatch)
      else if (case logits of Some vs \<Rightarrow> vs = [] \<or> list_ex (\<lambda>v. \<not> f32_is_finite v) vs | None \<Rightarrow> False)
      then (r, Inl InvalidLogits)
      else
        (case chunk_snapshot sha (tree_arcs (root r) @ held) (chunk_store r) s logits of
           (pool, Inl e) \<Rightarrow> (r\<lparr>chunk_store := pool\<rparr>, Inl e)
         | (pool, Inr resident) \<Rightarrow>
             let clock' = saturating_add (clock r) 1;
                 i = next_id r;
                 entry = \<lparr>entry_id = i, entry_snapshot = resident,
                   ancestor_reusable = is_multiple_of (position s) RESIDENT_CUT_TOKENS,
                   last_access = clock'\<rparr>;
                 inserted = insert_recursive (root r) (scoped_key identity (snap_tokens s)) entry;
                 (t, pool', n) = evict_loop held (capacity_bytes r) inserted pool (evictions r)
             in (r\<lparr>root := t, chunk_store := pool', clock := clock',
                   next_id := saturating_add i 1, evictions := n\<rparr>,
                 Inr (find_id t i))))"

definition resident_insert :: "(bytes \<Rightarrow> bytes) \<Rightarrow> arc list \<Rightarrow> resident_radix \<Rightarrow> bytes option
    \<Rightarrow> session_cache_snapshot \<Rightarrow> resident_radix \<times> (resident_error + bool)" where
  "resident_insert sha held r identity s = insert_with_logits sha held r identity s None"

definition lookup_capped :: "resident_radix \<Rightarrow> bytes option \<Rightarrow> u32 list \<Rightarrow> nat
    \<Rightarrow> resident_radix \<times> resident_hit option" where
  "lookup_capped r identity tokens max_cut =
     (let clock' = saturating_add (clock r) 1;
          key = scoped_key identity tokens;
          max_depth = saturating_add IDENTITY_KEY_WORDS max_cut;
          (t, best) = longest_match_recursive (root r) key 0 clock' max_depth None
      in (r\<lparr>root := t, clock := clock', queries := saturating_add (queries r) 1,
            hits := (if best \<noteq> None then saturating_add (hits r) 1 else hits r)\<rparr>, best))"

definition resident_lookup :: "resident_radix \<Rightarrow> bytes option \<Rightarrow> u32 list
    \<Rightarrow> resident_radix \<times> resident_hit option" where
  "resident_lookup r identity tokens = lookup_capped r identity tokens u64_max"

definition resident_stats_of :: "arc list \<Rightarrow> resident_radix \<Rightarrow> resident_radix \<times> resident_stats" where
  "resident_stats_of held r =
     (let (entries, nodes) = count_nodes (root r);
          (pool, bytes) = live_bytes (tree_arcs (root r) @ held) (chunk_store r)
      in (r\<lparr>chunk_store := pool\<rparr>,
          \<lparr>stat_entries = entries, stat_nodes = nodes, unique_chunk_bytes = bytes,
           stat_queries = queries r, stat_hits = hits r, stat_evictions = evictions r\<rparr>))"

subsection \<open>Chunking and materializing\<close>

lemma intern_snd: "intern sha live pool b = (pool', a) \<Longrightarrow> snd a = b"
  by (auto simp: intern_def Let_def find_Some_iff split: option.splits)

lemma concatenate_intern_all: "intern_all sha live pool bs = (pool', as) \<Longrightarrow> concatenate as = concat bs"
proof (induction bs arbitrary: live pool pool' as)
  case (Cons b bs)
  then show ?case by (auto simp: concatenate_def Let_def dest: intern_snd split: prod.splits)
qed (simp add: concatenate_def)

lemma chunk_planes_materialize:
  "chunk_planes sha ept live pool ps = (pool', Inr cps) \<Longrightarrow> map materialize_plane cps = ps"
proof (induction ps arbitrary: live pool pool' cps)
  case (Cons p ps)
  then show ?case
    by (auto simp: Let_def bind_res_Inr_iff materialize_plane_def dest!: concatenate_intern_all
        split: option.splits prod.splits)
qed simp

lemma chunk_planes_total:
  "ept < 2 ^ 32 \<Longrightarrow> \<exists>cps. snd (chunk_planes sha ept live pool ps) = Inr cps"
proof (induction ps arbitrary: live pool)
  case (Cons p ps)
  have "checked_mul ept (width_bytes (plane_enc p)) = Some (ept * width_bytes (plane_enc p))"
    "checked_mul (ept * width_bytes (plane_enc p)) RESIDENT_CUT_TOKENS
       = Some (ept * width_bytes (plane_enc p) * RESIDENT_CUT_TOKENS)"
    using Cons.prems by (cases "plane_enc p"; simp add: checked_mul_def RESIDENT_CUT_TOKENS_def)+
  with Cons.IH [OF Cons.prems] show ?case
    by (auto simp: Let_def split_def) (metis bind_res_simps(2))
qed simp

lemma chunk_snapshot_materialize:
  assumes "chunk_snapshot sha live pool s logits = (pool', Inr r)" "validate s = Inr ()"
  shows "materialize r = Inr s" "rs_tokens r = snap_tokens s" "rs_position r = position s"
    "rs_last_logits r = logits"
proof -
  obtain ps where ps: "chunk_planes sha (elements_per_token s) live pool (layers s) = (pool', Inr ps)"
    and r: "r = \<lparr>rs_position = position s, rs_tokens = snap_tokens s,
      rs_elements_per_token = elements_per_token s, rs_layers = ps, rs_last_logits = logits\<rparr>"
    using assms(1) by (auto simp: chunk_snapshot_def Let_def bind_res_Inr_iff split: prod.splits)
  from chunk_planes_materialize [OF ps] assms(2) r show "materialize r = Inr s"
    by (cases s) (simp add: materialize_def map_err_def)
  from r show "rs_tokens r = snap_tokens s" "rs_position r = position s" "rs_last_logits r = logits"
    by simp_all
qed

subsection \<open>The pool invariant\<close>

definition registered :: "chunk_pool \<Rightarrow> arc set" where
  "registered pool = (\<Union>(d, cs)\<in>set (by_digest pool). set cs)"

text \<open>For a set \<open>A\<close> of live chunks: digests index contents, addresses are unique, every live chunk
  is registered, and equal live contents share an address.\<close>

definition pool_inv :: "(bytes \<Rightarrow> bytes) \<Rightarrow> arc set \<Rightarrow> chunk_pool \<Rightarrow> bool" where
  "pool_inv sha A pool \<longleftrightarrow>
     distinct (map fst (by_digest pool))
     \<and> (\<forall>(d, cs)\<in>set (by_digest pool). distinct cs \<and> (\<forall>c\<in>set cs. d = sha (snd c) \<and> fst c < next_addr pool))
     \<and> inj_on fst (registered pool) \<and> A \<subseteq> registered pool \<and> inj_on snd A"

lemma pool_bucketD:
  assumes "pool_inv sha A pool" "(d, cs) \<in> set (by_digest pool)"
  shows "distinct cs" "c \<in> set cs \<Longrightarrow> sha (snd c) = d" "c \<in> set cs \<Longrightarrow> fst c < next_addr pool"
  using assms by (auto simp: pool_inv_def)

lemma pool_inv_mono: "pool_inv sha A pool \<Longrightarrow> B \<subseteq> A \<Longrightarrow> pool_inv sha B pool"
  by (auto simp: pool_inv_def intro: inj_on_subset)

lemma registered_upgrade:
  assumes "pool_inv sha (set live) pool" "c \<in> registered pool"
  shows "upgrades live c \<longleftrightarrow> c \<in> set live"
proof
  assume "upgrades live c"
  then obtain c' where c': "c' \<in> set live" "fst c' = fst c" by (auto simp: upgrades_def)
  with assms have "c' \<in> registered pool" "inj_on fst (registered pool)" by (auto simp: pool_inv_def)
  with c' assms(2) show "c \<in> set live" by (metis inj_onD)
qed (auto simp: upgrades_def)

lemma registered_update:
  assumes "distinct (map fst (by_digest pool))"
  shows "registered (pool\<lparr>by_digest := AList.update d cs (by_digest pool)\<rparr>) =
    (\<Union>(d', cs')\<in>set (by_digest pool) - {x. fst x = d}. set cs') \<union> set cs"
proof -
  have "set (AList.update d cs al) = (set al - {x. fst x = d}) \<union> {(d, cs)}" if "distinct (map fst al)" for al
    using that by (induction al) (auto simp: image_iff)
  with assms show ?thesis by (auto simp: registered_def)
qed

lemma candidates_registered:
  assumes "pool_inv sha A pool"
    "c \<in> set (case map_of (by_digest pool) d of Some cs \<Rightarrow> cs | None \<Rightarrow> [])"
  shows "c \<in> registered pool" "d = sha (snd c)" "fst c < next_addr pool"
proof -
  from assms(2) obtain cs where cs: "map_of (by_digest pool) d = Some cs" "c \<in> set cs"
    by (cases "map_of (by_digest pool) d") auto
  then have mem: "(d, cs) \<in> set (by_digest pool)" by (simp add: map_of_SomeD)
  with cs show "c \<in> registered pool" by (auto simp: registered_def)
  show "d = sha (snd c)" "fst c < next_addr pool"
    using assms(1) mem cs(2) by (auto simp: pool_inv_def)
qed

text \<open>Replacing one bucket by live candidates, possibly with a fresh chunk, keeps the invariant.\<close>

lemma registered_bucket:
  assumes inv: "pool_inv sha A pool"
    and pool': "by_digest pool' = AList.update d cs (by_digest pool)"
  shows "registered pool' = (registered pool - {c. d = sha (snd c)}) \<union> set cs"
proof -
  have dist: "distinct (map fst (by_digest pool))" using inv by (simp add: pool_inv_def)
  have "registered pool' = registered (pool\<lparr>by_digest := AList.update d cs (by_digest pool)\<rparr>)"
    by (simp add: registered_def pool')
  also have "\<dots> = (\<Union>(d', cs')\<in>set (by_digest pool) - {x. fst x = d}. set cs') \<union> set cs"
    by (rule registered_update [OF dist])
  also have "(\<Union>(d', cs')\<in>set (by_digest pool) - {x. fst x = d}. set cs') =
      registered pool - {c. d = sha (snd c)}"
    using inv unfolding pool_inv_def registered_def by fastforce
  finally show ?thesis .
qed

lemma bucket_wf:
  assumes inv: "pool_inv sha A pool"
    and pool': "by_digest pool' = AList.update d cs (by_digest pool)" "next_addr pool \<le> next_addr pool'"
    and cs: "distinct cs" "\<And>c. c \<in> set cs \<Longrightarrow> d = sha (snd c) \<and> fst c < next_addr pool'"
  shows "distinct (map fst (by_digest pool'))"
    "\<forall>(d, cs)\<in>set (by_digest pool'). distinct cs \<and> (\<forall>c\<in>set cs. d = sha (snd c) \<and> fst c < next_addr pool')"
proof -
  show "distinct (map fst (by_digest pool'))"
    using inv by (simp add: pool' pool_inv_def distinct_update)
  show "\<forall>(d, cs)\<in>set (by_digest pool'). distinct cs \<and> (\<forall>c\<in>set cs. d = sha (snd c) \<and> fst c < next_addr pool')"
  proof (clarify)
    fix d' cs' assume "(d', cs') \<in> set (by_digest pool')"
    then have "(d', cs') = (d, cs) \<or> (d', cs') \<in> set (by_digest pool)"
      unfolding pool' by (rule in_set_updateD)
    then show "distinct cs' \<and> (\<forall>c\<in>set cs'. d' = sha (snd c) \<and> fst c < next_addr pool')"
      using inv cs pool'(2) unfolding pool_inv_def by fastforce
  qed
qed

lemma intern_inv:
  assumes inv: "pool_inv sha (set live) pool" and run: "intern sha live pool b = (pool', a)"
  shows "pool_inv sha (insert a (set live)) pool'"
proof -
  define old where "old = (case map_of (by_digest pool) (sha b) of Some cs \<Rightarrow> cs | None \<Rightarrow> [])"
  define candidates where "candidates = filter (upgrades live) old"
  note run' = run [unfolded intern_def Let_def, folded old_def, folded candidates_def]
  note old_reg = candidates_registered [OF inv, of _ "sha b", folded old_def]
  have cand: "c \<in> set candidates \<longleftrightarrow> c \<in> set live \<and> c \<in> set old" for c
    using registered_upgrade [OF inv, of c] old_reg(1) [of c] by (auto simp: candidates_def)
  have old: "distinct old" using inv unfolding old_def pool_inv_def
    by (auto split: option.splits dest!: map_of_SomeD)
  have bucket: "c \<in> set candidates" if "c \<in> set live" "sha b = sha (snd c)" for c
  proof -
    from that(1) inv have "c \<in> registered pool" by (auto simp: pool_inv_def)
    then obtain d cs where "(d, cs) \<in> set (by_digest pool)" "c \<in> set cs" by (auto simp: registered_def)
    with inv that(2) have "map_of (by_digest pool) (sha b) = Some cs" "c \<in> set cs"
      unfolding pool_inv_def by (auto simp: case_prod_beta)
    with that show ?thesis by (simp add: cand old_def)
  qed
  have inj: "inj_on fst (registered pool)" "set live \<subseteq> registered pool" "inj_on snd (set live)"
    using inv by (auto simp: pool_inv_def)
  have sub: "set candidates \<subseteq> registered pool" using cand inj(2) by auto
  show ?thesis
  proof (cases "find (\<lambda>e. snd e = b) candidates")
    case (Some e)
    then have e: "a = e" "by_digest pool' = AList.update (sha b) candidates (by_digest pool)"
      "next_addr pool' = next_addr pool" "e \<in> set candidates"
      using run' find_SomeD [OF Some] by (auto simp: Some)
    have reg: "registered pool' = (registered pool - {c. sha b = sha (snd c)}) \<union> set candidates"
      by (rule registered_bucket [OF inv e(2)])
    have "insert a (set live) = set live" using e cand by auto
    moreover have "set live \<subseteq> registered pool'" using reg bucket inj(2) by auto
    moreover have "inj_on fst (registered pool')"
      by (rule inj_on_subset [OF inj(1)]) (use reg sub in auto)
    ultimately show ?thesis
      using bucket_wf [OF inv e(2)] e(3) inj(3) old_reg cand old
      by (auto simp: pool_inv_def candidates_def)
  next
    case None
    then have none: "snd c \<noteq> b" if "c \<in> set candidates" for c
      using that by (cases c) (auto simp: find_None_iff)
    have a: "a = (next_addr pool, b)"
      "by_digest pool' = AList.update (sha b) (candidates @ [a]) (by_digest pool)"
      "next_addr pool' = next_addr pool + 1" "\<And>c. c \<in> set candidates \<Longrightarrow> snd c \<noteq> b"
      using run' none by (simp_all add: None, auto)
    have reg: "registered pool' = (registered pool - {c. sha b = sha (snd c)}) \<union> set (candidates @ [a])"
      by (rule registered_bucket [OF inv a(2)])
    have fresh: "fst c < next_addr pool" if "c \<in> registered pool" for c
      using inv that unfolding pool_inv_def registered_def by fastforce
    have "next_addr pool \<notin> fst ` (registered pool - {a})" using fresh by fastforce
    with inj(1) a(1) have "inj_on fst (insert a (registered pool))" by (simp add: inj_on_insert)
    then have "inj_on fst (registered pool')"
      by (rule inj_on_subset) (use reg sub in auto)
    moreover have "insert a (set live) \<subseteq> registered pool'" using reg bucket inj(2) by auto
    moreover have "b \<notin> snd ` (set live - {a})"
    proof
      assume "b \<in> snd ` (set live - {a})"
      then obtain c where "c \<in> set live" "snd c = b" by blast
      with bucket [of c] none [of c] show False by simp
    qed
    then have "inj_on snd (insert a (set live))" using inj(3) a(1) by (simp add: inj_on_insert)
    moreover have "distinct candidates" using old by (simp add: candidates_def)
    moreover have "a \<notin> set candidates" using none [of a] a(1) by (metis snd_conv)
    moreover have "sha b = sha (snd c) \<and> fst c < next_addr pool'" if "c \<in> set (candidates @ [a])" for c
      using that a(1,3) old_reg(2,3) [of c] cand [of c] by auto
    ultimately show ?thesis
      using bucket_wf [OF inv a(2)] a(3) by (simp add: pool_inv_def)
  qed
qed

lemma intern_all_inv:
  "pool_inv sha (set live) pool \<Longrightarrow> intern_all sha live pool bs = (pool', as) \<Longrightarrow>
   pool_inv sha (set as \<union> set live) pool'"
proof (induction bs arbitrary: live pool pool' as)
  case (Cons b bs)
  obtain p1 a where a: "intern sha live pool b = (p1, a)" by (rule that [OF prod.collapse [symmetric]])
  obtain p2 rest where rest: "intern_all sha (a # live) p1 bs = (p2, rest)"
      by (rule that [OF prod.collapse [symmetric]])
  from intern_inv [OF Cons.prems(1) a] have "pool_inv sha (set (a # live)) p1" by simp
  from Cons.IH [OF this rest] Cons.prems(2) a rest show ?case by (auto simp: Let_def)
qed simp

lemma chunk_planes_inv:
  "pool_inv sha (set live) pool \<Longrightarrow> chunk_planes sha ept live pool ps = (pool', r) \<Longrightarrow>
   pool_inv sha (set live) pool'
   \<and> (\<forall>cps. r = Inr cps \<longrightarrow> pool_inv sha (set (concat (map plane_arcs cps)) \<union> set live) pool')"
proof (induction ps arbitrary: live pool pool' r)
  case (Cons p ps)
  show ?case
  proof (cases "Option.bind (checked_mul ept (width_bytes (plane_enc p)))
        (\<lambda>row_bytes. checked_mul row_bytes RESIDENT_CUT_TOKENS)")
    case None
    with Cons.prems show ?thesis by auto
  next
    case (Some n)
    obtain p1 ks where ks: "intern_all sha live pool (chunks n (plane_key p)) = (p1, ks)"
      by (rule that [OF prod.collapse [symmetric]])
    obtain p2 vs where vs: "intern_all sha (ks @ live) p1 (chunks n (plane_value p)) = (p2, vs)"
      by (rule that [OF prod.collapse [symmetric]])
    obtain p3 rest where rest: "chunk_planes sha ept (vs @ ks @ live) p2 ps = (p3, rest)"
      by (rule that [OF prod.collapse [symmetric]])
    have "pool_inv sha (set (ks @ live)) p1" using intern_all_inv [OF Cons.prems(1) ks] by simp
    from intern_all_inv [OF this vs] have "pool_inv sha (set (vs @ ks @ live)) p2" by (simp add: Un_assoc)
    note IH = Cons.IH [OF this rest]
    have "pool' = p3" "r = bind_res rest (\<lambda>qs. Inr (\<lparr>cp_layer = plane_layer p,
        cp_logical_start = logical_start p, cp_logical_count = logical_count p,
        cp_encoding = plane_enc p, cp_key = ks, cp_value = vs\<rparr> # qs))"
      using Cons.prems(2) Some ks vs rest by (simp_all add: Let_def)
    with IH show ?thesis
      by (auto simp: bind_res_Inr_iff plane_arcs_def Un_ac elim: pool_inv_mono)
  qed
qed simp

lemma chunk_snapshot_inv:
  assumes "pool_inv sha (set live) pool" "chunk_snapshot sha live pool s logits = (pool', r)"
  shows "pool_inv sha (set live) pool'"
    "r = Inr rs \<Longrightarrow> pool_inv sha (set (snapshot_arcs rs) \<union> set live) pool'"
  using chunk_planes_inv [OF assms(1)] assms(2)
  by (auto simp: chunk_snapshot_def Let_def bind_res_Inr_iff snapshot_arcs_def split: prod.splits)

lemma foldl_saturating: "foldl (\<lambda>n c. saturating_add n (f c)) m cs = min (m + sum_list (map f cs)) u64_max"
  if "m \<le> u64_max"
  using that by (induction cs arbitrary: m) (auto simp: saturating_add_def u64_max_def)

lemma distinct_buckets:
  assumes "distinct (map fst al)" "\<And>d cs. (d, cs) \<in> set al \<Longrightarrow> distinct cs"
    "\<And>d cs c. (d, cs) \<in> set al \<Longrightarrow> c \<in> set cs \<Longrightarrow> f c = d"
  shows "distinct (concat (map snd al))"
  using assms
proof (induction al)
  case (Cons dcs al)
  obtain d cs where dcs: "dcs = (d, cs)" by (cases dcs)
  have "distinct (concat (map snd al))"
    by (rule Cons.IH) (use Cons.prems in \<open>simp, (meson list.set_intros(2))+\<close>)
  moreover have "set cs \<inter> \<Union> (set ` snd ` set al) = {}"
  proof (rule equals0I)
    fix c assume "c \<in> set cs \<inter> \<Union> (set ` snd ` set al)"
    then obtain d' cs' where c: "c \<in> set cs" "(d', cs') \<in> set al" "c \<in> set cs'" by auto
    with Cons.prems(3) [of d cs c] Cons.prems(3) [of d' cs' c] dcs have "d = d'" by simp
    with c(2) Cons.prems(1) dcs show False by (auto simp: image_iff)
  qed
  ultimately show ?case using Cons.prems(2) [of d cs] dcs by simp
qed simp

lemma live_bytes_inv:
  assumes inv: "pool_inv sha (set live) pool" and run: "live_bytes live pool = (pool', n)"
  shows "pool_inv sha (set live) pool'" "registered pool' = set live"
    "n = min (\<Sum>b\<in>snd ` set live. length b) u64_max"
proof -
  define kept where "kept = filter (\<lambda>(d, cs). cs \<noteq> [])
    (map (\<lambda>(d, cs). (d, filter (upgrades live) cs)) (by_digest pool))"
  have pool': "pool' = pool\<lparr>by_digest := kept\<rparr>"
    and n: "n = foldl (\<lambda>n c. saturating_add n (length (snd c))) 0 (concat (map snd kept))"
    using run by (auto simp: live_bytes_def kept_def Let_def)
  have up: "upgrades live c \<longleftrightarrow> c \<in> set live" if "(d, cs) \<in> set (by_digest pool)" "c \<in> set cs" for d cs c
    by (rule registered_upgrade [OF inv]) (use that in \<open>auto simp: registered_def\<close>)
  have kept: "set (concat (map snd kept)) = set live"
  proof
    show "set (concat (map snd kept)) \<subseteq> set live" using up by (auto simp: kept_def)
    show "set live \<subseteq> set (concat (map snd kept))"
    proof
      fix c assume c: "c \<in> set live"
      with inv have "c \<in> registered pool" by (auto simp: pool_inv_def)
      then obtain d cs where dcs: "(d, cs) \<in> set (by_digest pool)" "c \<in> set cs"
        by (auto simp: registered_def)
      with up c have "c \<in> set (filter (upgrades live) cs)" by simp
      moreover from this dcs(1) have "(d, filter (upgrades live) cs) \<in> set kept"
        by (auto simp: kept_def filter_empty_conv)
      ultimately show "c \<in> set (concat (map snd kept))" by force
    qed
  qed
  show reg: "registered pool' = set live"
    using kept by (auto simp: registered_def pool' case_prod_beta)
  have "map fst kept = map fst (filter (\<lambda>(d, cs). filter (upgrades live) cs \<noteq> []) (by_digest pool))"
    by (simp add: kept_def filter_map comp_def split_def)
  then have dist: "distinct (map fst kept)" using inv by (simp add: pool_inv_def distinct_map_filter)
  have kept_bucket: "distinct cs \<and> (\<forall>c\<in>set cs. sha (snd c) = d \<and> fst c < next_addr pool)"
    if "(d, cs) \<in> set kept" for d cs
    using that pool_bucketD [OF inv] by (auto simp: kept_def)
  show "pool_inv sha (set live) pool'"
    unfolding pool_inv_def reg
  proof (intro conjI)
    show "distinct (map fst (by_digest pool'))" using dist by (simp add: pool')
    show "\<forall>(d, cs)\<in>set (by_digest pool'). distinct cs
        \<and> (\<forall>c\<in>set cs. d = sha (snd c) \<and> fst c < next_addr pool')"
    proof (clarify)
      fix d cs assume "(d, cs) \<in> set (by_digest pool')"
      with kept_bucket [of d cs] show "distinct cs \<and> (\<forall>c\<in>set cs. d = sha (snd c) \<and> fst c < next_addr pool')"
        by (simp add: pool')
    qed
    show "inj_on fst (set live)" "inj_on snd (set live)"
      using inv by (auto simp: pool_inv_def intro: inj_on_subset)
  qed simp
  have "distinct (concat (map snd kept))"
    by (rule distinct_buckets [OF dist]) (use kept_bucket in blast)+
  then have "sum_list (map (\<lambda>c. length (snd c)) (concat (map snd kept))) = (\<Sum>c\<in>set live. length (snd c))"
    using kept by (simp only: sum_list_distinct_conv_sum_set)
  also have "\<dots> = (\<Sum>b\<in>snd ` set live. length b)"
    using inv by (simp add: pool_inv_def sum.reindex comp_def)
  finally show "n = min (\<Sum>b\<in>snd ` set live. length b) u64_max"
    unfolding n by (subst foldl_saturating) (simp_all add: u64_max_def)
qed

subsection \<open>The deepest eligible entry\<close>

lemma prefix_take_iff: "prefix p (take d xs) \<longleftrightarrow> length p \<le> d \<and> prefix p xs"
proof (induction p arbitrary: d xs)
  case (Cons a p)
  then show ?case by (cases d; cases xs) auto
qed simp

definition eligible_at :: "node \<Rightarrow> u32 list \<Rightarrow> nat \<Rightarrow> nat \<Rightarrow> nat \<Rightarrow> resident_entry \<Rightarrow> bool" where
  "eligible_at t remaining depth max_depth d x \<longleftrightarrow>
     d \<le> length remaining \<and> radix_get t (take d remaining) = Some x \<and> depth + d \<le> max_depth
     \<and> (d = length remaining \<or> ancestor_reusable x)"

definition deepest :: "node \<Rightarrow> u32 list \<Rightarrow> nat \<Rightarrow> nat \<Rightarrow> resident_hit option \<Rightarrow> resident_hit option \<Rightarrow> bool" where
  "deepest t remaining depth max_depth best best' \<longleftrightarrow>
     (best' = best \<and> (\<forall>d x. \<not> eligible_at t remaining depth max_depth d x)) \<or>
     (\<exists>d x. eligible_at t remaining depth max_depth d x
        \<and> (\<forall>d' x'. eligible_at t remaining depth max_depth d' x' \<longrightarrow> d' \<le> d)
        \<and> best' = Some \<lparr>cut = depth + d - IDENTITY_KEY_WORDS, exact = (d = length remaining),
                        hit_snapshot = entry_snapshot x\<rparr>)"

lemma eligible_at_root:
  "eligible_at (Node e en ch) rem depth max_depth 0 x \<longleftrightarrow>
     en = Some x \<and> depth \<le> max_depth \<and> (rem = [] \<or> ancestor_reusable x)"
  by (auto simp: eligible_at_def)

lemma eligible_at_child:
  assumes "map_of ch f = Some c" "prefix (edge c) (f # r)" "0 < d" "edge c \<noteq> []"
  shows "eligible_at (Node e en ch) (f # r) depth max_depth d x \<longleftrightarrow>
    length (edge c) \<le> d \<and>
    eligible_at c (drop (length (edge c)) (f # r)) (depth + length (edge c)) max_depth (d - length (edge c)) x"
proof -
  have le: "length (edge c) \<le> length (f # r)" using assms(2) by (rule prefix_length_le)
  have take: "take d (f # r) = f # take (d - 1) r" using assms(3) by (cases d) auto
  have "radix_get (Node e en ch) (take d (f # r)) =
      (if length (edge c) \<le> d then radix_get c (take (d - length (edge c)) (drop (length (edge c)) (f # r)))
       else None)"
  proof -
    have "prefix (edge c) (f # take (d - 1) r) \<longleftrightarrow> length (edge c) \<le> d"
      using prefix_take_iff [of "edge c" d "f # r"] assms(2) unfolding take by simp
    moreover have "drop (length (edge c)) (f # take (d - 1) r) =
        take (d - length (edge c)) (drop (length (edge c)) (f # r))"
      using drop_take [of "length (edge c)" d "f # r"] unfolding take .
    ultimately show ?thesis unfolding take radix_get_Cons by (simp only: assms(1) option.case)
  qed
  with le show ?thesis by (auto simp: eligible_at_def)
qed

lemma eligible_at_no_child:
  assumes "map_of ch f = None \<or> (\<exists>c. map_of ch f = Some c \<and> \<not> prefix (edge c) (f # r))" "0 < d"
  shows "\<not> eligible_at (Node e en ch) (f # r) depth max_depth d x"
proof -
  have take: "take d (f # r) = f # take (d - 1) r" using assms(2) by (cases d) auto
  have "\<not> prefix (edge c) (f # take (d - 1) r)" if "\<not> prefix (edge c) (f # r)" for c :: node
    using prefix_take_iff [of "edge c" d "f # r"] that unfolding take by simp
  then have "radix_get (Node e en ch) (take d (f # r)) = None"
    unfolding take radix_get_Cons using assms(1) by auto
  then show ?thesis by (simp add: eligible_at_def)
qed

lemma deepest_own:
  assumes "\<And>d x. 0 < d \<Longrightarrow> \<not> eligible_at (Node e en ch) rem depth max_depth d x"
  shows "deepest (Node e en ch) rem depth max_depth best (own_best en rem depth max_depth best)"
proof -
  have elig: "eligible_at (Node e en ch) rem depth max_depth d x \<longleftrightarrow>
      d = 0 \<and> en = Some x \<and> depth \<le> max_depth \<and> (rem = [] \<or> ancestor_reusable x)" for d x
    using assms [of d x] eligible_at_root [of e en ch rem depth max_depth x] by (cases d) auto
  show ?thesis unfolding deepest_def elig by (auto simp: own_best_def split: option.splits)
qed

lemma longest_match_deepest:
  "radix_wf t \<Longrightarrow> deepest t rem depth max_depth best
     (snd (longest_match_recursive t rem depth now max_depth best))"
proof (induction t rem depth now max_depth best rule: longest_match_recursive.induct)
  case (1 e en ch rem depth now max_depth best)
  let ?own = "own_best en rem depth max_depth best"
  show ?case
  proof (cases "depth < max_depth \<and> rem \<noteq> []")
    case False
    then have "\<not> eligible_at (Node e en ch) rem depth max_depth d x" if "0 < d" for d x
      using that by (auto simp: eligible_at_def)
    moreover have "snd (longest_match_recursive (Node e en ch) rem depth now max_depth best) = ?own"
      using False by (auto simp: longest_match_recursive.simps Let_def)
    ultimately show ?thesis using deepest_own by metis
  next
    case True
    then obtain f r where rem: "rem = f # r" by (cases rem) auto
    show ?thesis
    proof (cases "\<exists>c. map_of ch f = Some c \<and> prefix (edge c) rem")
      case False
      then have "map_of ch f = None \<or> (\<exists>c. map_of ch f = Some c \<and> \<not> prefix (edge c) (f # r))"
        using rem by (cases "map_of ch f") auto
      from deepest_own [OF eligible_at_no_child [OF this]]
      have "deepest (Node e en ch) rem depth max_depth best ?own" by (simp add: rem)
      moreover have "snd (longest_match_recursive (Node e en ch) rem depth now max_depth best) = ?own"
        using False True rem
        by (auto simp: longest_match_recursive.simps Let_def shared_prefix_full_iff split: option.splits)
      ultimately show ?thesis by simp
    next
      case child: True
      then obtain c where c: "map_of ch f = Some c" "prefix (edge c) rem" by blast
      note wf = radix_wf_child [OF "1.prems" c(1)]
      let ?n = "length (edge c)"
      let ?best = "snd (longest_match_recursive c (drop ?n rem) (depth + ?n) now max_depth ?own)"
      have IH: "deepest c (drop ?n rem) (depth + ?n) max_depth ?own ?best"
        using "1.IH" [OF _ rem c(1)] True wf c(2) by (simp add: shared_prefix_full_iff)
      have run: "snd (longest_match_recursive (Node e en ch) rem depth now max_depth best) = ?best"
        using True rem c
        by (simp add: longest_match_recursive.simps Let_def split_def shared_prefix_full_iff)
      have pos: "eligible_at (Node e en ch) rem depth max_depth d x \<longleftrightarrow>
          ?n \<le> d \<and> eligible_at c (drop ?n rem) (depth + ?n) max_depth (d - ?n) x" if "0 < d" for d x
        unfolding rem by (rule eligible_at_child) (use c rem that wf in auto)
      have n: "0 < ?n" "?n \<le> length rem" using wf c(2) by (auto dest: prefix_length_le)
      from IH show ?thesis unfolding run deepest_def [of c]
      proof (elim disjE exE conjE)
        assume none: "?best = ?own" "\<forall>d x. \<not> eligible_at c (drop ?n rem) (depth + ?n) max_depth d x"
        then have "\<not> eligible_at (Node e en ch) rem depth max_depth d x" if "0 < d" for d x
          using pos [OF that] by simp
        from deepest_own [OF this] none(1)
        show "deepest (Node e en ch) rem depth max_depth best ?best" by simp
      next
        fix d x
        assume d: "eligible_at c (drop ?n rem) (depth + ?n) max_depth d x"
          "\<forall>d' x'. eligible_at c (drop ?n rem) (depth + ?n) max_depth d' x' \<longrightarrow> d' \<le> d"
          "?best = Some \<lparr>cut = depth + ?n + d - IDENTITY_KEY_WORDS,
             exact = (d = length (drop ?n rem)), hit_snapshot = entry_snapshot x\<rparr>"
        have "eligible_at (Node e en ch) rem depth max_depth (?n + d) x"
          using pos [of "?n + d" x] d(1) n by simp
        moreover have "d' \<le> ?n + d" if "eligible_at (Node e en ch) rem depth max_depth d' x'" for d' x'
          using pos [of d' x'] d(2) that by (cases "d' = 0") fastforce+
        moreover have "?best = Some \<lparr>cut = depth + (?n + d) - IDENTITY_KEY_WORDS,
             exact = (?n + d = length rem), hit_snapshot = entry_snapshot x\<rparr>"
          using d(3) n by (simp add: add.assoc) linarith
        ultimately show "deepest (Node e en ch) rem depth max_depth best ?best"
          unfolding deepest_def by blast
      qed
    qed
  qed
qed

subsection \<open>A lookup changes access times only\<close>

definition untimed :: "node \<Rightarrow> (u32 list \<times> resident_entry) list" where
  "untimed t = map (\<lambda>(k, x). (k, x\<lparr>last_access := 0\<rparr>)) (entry_list t)"

lemma untimed_Node:
  "untimed (Node e en ch) =
     (case en of Some x \<Rightarrow> [([], x\<lparr>last_access := 0\<rparr>)] | None \<Rightarrow> []) @
     concat (map (\<lambda>kc. map (\<lambda>(p, x). (edge (snd kc) @ p, x)) (untimed (snd kc))) ch)"
  by (simp add: untimed_def map_concat comp_def split_def split: option.splits)

lemma update_same_view:
  "distinct (map fst ch) \<Longrightarrow> map_of ch f = Some c \<Longrightarrow> g c' = g c \<Longrightarrow>
   map (\<lambda>kc. g (snd kc)) (AList.update f c' ch) = map (\<lambda>kc. g (snd kc)) ch"
  by (induction ch) (auto simp: map_of_eq_None_iff split: if_splits)

lemma own_entry_untimed:
  "map_option (\<lambda>x. x\<lparr>last_access := 0\<rparr>) (own_entry en rem depth now max_depth)
   = map_option (\<lambda>x. x\<lparr>last_access := 0\<rparr>) en"
  by (simp add: own_entry_def split: option.splits)

lemma untimed_cong:
  assumes "map_option (\<lambda>x. x\<lparr>last_access := 0\<rparr>) en' = map_option (\<lambda>x. x\<lparr>last_access := 0\<rparr>) en"
    "map (\<lambda>kc. map (\<lambda>(p, x). (edge (snd kc) @ p, x)) (untimed (snd kc))) ch'
     = map (\<lambda>kc. map (\<lambda>(p, x). (edge (snd kc) @ p, x)) (untimed (snd kc))) ch"
  shows "untimed (Node e en' ch') = untimed (Node e en ch)"
  unfolding untimed_Node assms(2) using assms(1) by (cases en; cases en') auto

lemma longest_match_keeps:
  "radix_wf t \<Longrightarrow> radix_wf (fst (longest_match_recursive t rem depth now max_depth best))
     \<and> edge (fst (longest_match_recursive t rem depth now max_depth best)) = edge t
     \<and> untimed (fst (longest_match_recursive t rem depth now max_depth best)) = untimed t"
proof (induction t rem depth now max_depth best rule: longest_match_recursive.induct)
  case (1 e en ch rem depth now max_depth best)
  let ?t = "fst (longest_match_recursive (Node e en ch) rem depth now max_depth best)"
  let ?en = "own_entry en rem depth now max_depth"
  consider (plain) "?t = Node e ?en ch"
    | (descend) f r c where "rem = f # r" "map_of ch f = Some c" "depth < max_depth"
        "shared_prefix_len (edge c) rem = length (edge c)"
  proof (cases "\<exists>f r c. rem = f # r \<and> map_of ch f = Some c \<and> depth < max_depth
      \<and> shared_prefix_len (edge c) rem = length (edge c)")
    case False
    then have "?t = Node e ?en ch"
      by (cases rem) (auto simp: longest_match_recursive.simps split: option.splits)
    then show ?thesis by (rule that(1))
  qed (use that(2) in blast)
  then show ?case
  proof cases
    case plain
    with "1.prems" own_entry_untimed show ?thesis by (auto intro: untimed_cong)
  next
    case descend
    let ?c = "fst (longest_match_recursive c (drop (length (edge c)) rem) (depth + length (edge c)) now
      max_depth (own_best en rem depth max_depth best))"
    note wf = radix_wf_child [OF "1.prems" descend(2)]
    have IH: "radix_wf ?c" "edge ?c = edge c" "untimed ?c = untimed c"
      using "1.IH" [OF _ descend(1,2,4)] descend(3) wf by auto
    have t: "?t = Node e ?en (AList.update f ?c ch)"
      using descend by (simp add: longest_match_recursive.simps split_def Let_def)
    have dist: "distinct (map fst ch)" using "1.prems" by simp
    have "untimed (Node e ?en (AList.update f ?c ch)) = untimed (Node e en ch)"
      by (rule untimed_cong [OF own_entry_untimed])
        (rule update_same_view [OF dist descend(2)], simp add: IH)
    moreover have "radix_wf (Node e ?en (AList.update f ?c ch))"
      using "1.prems" IH wf by (auto simp: distinct_update dest!: in_set_updateD)
    ultimately show ?thesis by (simp add: t)
  qed
qed

lemma untimed_eqD:
  assumes "untimed t' = untimed t"
  shows "tree_arcs t' = tree_arcs t" "map (entry_id \<circ> snd) (entry_list t') = map (entry_id \<circ> snd) (entry_list t)"
    "(k, x) \<in> set (entry_list t') \<Longrightarrow> \<exists>y. (k, y) \<in> set (entry_list t) \<and> x\<lparr>last_access := 0\<rparr> = y\<lparr>last_access := 0\<rparr>"
proof -
  have arcs: "tree_arcs t = concat (map (\<lambda>kx. snapshot_arcs (entry_snapshot (snd kx))) (untimed t))" for t
    by (simp add: tree_arcs_def untimed_def comp_def split_def)
  have ids: "map (entry_id \<circ> snd) (entry_list t) = map (\<lambda>kx. entry_id (snd kx)) (untimed t)" for t
    by (simp add: untimed_def comp_def split_def)
  show "tree_arcs t' = tree_arcs t" "map (entry_id \<circ> snd) (entry_list t') = map (entry_id \<circ> snd) (entry_list t)"
    unfolding arcs ids assms by simp_all
  assume "(k, x) \<in> set (entry_list t')"
  then have "(k, x\<lparr>last_access := 0\<rparr>) \<in> set (untimed t')" by (force simp: untimed_def)
  then show "\<exists>y. (k, y) \<in> set (entry_list t) \<and> x\<lparr>last_access := 0\<rparr> = y\<lparr>last_access := 0\<rparr>"
    unfolding assms by (auto simp: untimed_def)
qed

subsection \<open>Eviction\<close>

lemma sum_list_concat_nat: "sum_list (concat xss) = sum_list (map sum_list xss)" for xss :: "nat list list"
  by (induction xss) auto

lemma entry_logits_bytes_sum:
  "entry_logits_bytes t =
     min (\<Sum>(k, x)\<leftarrow>entry_list t. (case rs_last_logits (entry_snapshot x) of Some vs \<Rightarrow> 4 * length vs | None \<Rightarrow> 0)) u64_max"
proof (induction t rule: entry_logits_bytes.induct)
  case (1 e en ch)
  let ?f = "\<lambda>x. case rs_last_logits (entry_snapshot x) of Some vs \<Rightarrow> 4 * length vs | None \<Rightarrow> 0"
  let ?g = "\<lambda>t. \<Sum>(k, x)\<leftarrow>entry_list t. ?f x"
  have IH: "entry_logits_bytes c = min (?g c) u64_max" if "(k, c) \<in> set ch" for k c
    by (rule "1.IH" [OF that refl])
  have fold: "foldl saturating_add m (map (\<lambda>(k, c). entry_logits_bytes c) cs)
      = min (m + (\<Sum>(k, c)\<leftarrow>cs. ?g c)) u64_max" if "set cs \<subseteq> set ch" "m \<le> u64_max" for cs m
    using that
  proof (induction cs arbitrary: m)
    case (Cons kc cs)
    obtain k c where kc: "kc = (k, c)" by (cases kc)
    from Cons.prems IH [of k c] kc have "entry_logits_bytes c = min (?g c) u64_max" by simp
    with Cons.IH [of "saturating_add m (entry_logits_bytes c)"] Cons.prems kc show ?case
      by (auto simp: saturating_add_def u64_max_def min_def)
  qed simp
  have entries: "?g (Node e en ch) = (case en of Some x \<Rightarrow> ?f x | None \<Rightarrow> 0) + (\<Sum>(k, c)\<leftarrow>ch. ?g c)"
    by (simp add: sum_list_concat_nat comp_def split_def map_concat split: option.splits)
  have own: "(case Option.bind en (\<lambda>x. rs_last_logits (entry_snapshot x)) of
      Some vs \<Rightarrow> saturating_mul (length vs) 4 | None \<Rightarrow> 0)
      = min (case en of Some x \<Rightarrow> ?f x | None \<Rightarrow> 0) u64_max"
    by (simp add: saturating_mul_def u64_max_def min_def mult.commute split: option.splits)
  show ?case unfolding entry_logits_bytes.simps own entries
    by (subst fold) (auto simp: min_def)
qed

text \<open>The bytes an index accounts for: every distinct live chunk once, and all logits.\<close>

definition footprint :: "arc list \<Rightarrow> node \<Rightarrow> nat" where
  "footprint held t =
     (\<Sum>b\<in>snd ` set (tree_arcs t @ held). length b) +
     (\<Sum>(k, x)\<leftarrow>entry_list t. (case rs_last_logits (entry_snapshot x) of Some vs \<Rightarrow> 4 * length vs | None \<Rightarrow> 0))"

lemma resident_bytes_footprint:
  assumes "pool_inv sha (set (tree_arcs t @ held)) pool" "resident_bytes held t pool = (pool', n)"
  shows "n = min (footprint held t) u64_max" "pool_inv sha (set (tree_arcs t @ held)) pool'"
proof -
  obtain m where m: "live_bytes (tree_arcs t @ held) pool = (pool', m)" "n = saturating_add m (entry_logits_bytes t)"
    using assms(2) by (auto simp: resident_bytes_def split: prod.splits)
  note lb = live_bytes_inv [OF assms(1) m(1)]
  show "pool_inv sha (set (tree_arcs t @ held)) pool'" by (rule lb(1))
  show "n = min (footprint held t) u64_max"
    unfolding m(2) lb(3) footprint_def entry_logits_bytes_sum
    by (simp add: saturating_add_def u64_max_def min_def)
qed

lemma tree_arcs_mono: "set (entry_list t') \<subseteq> set (entry_list t) \<Longrightarrow> set (tree_arcs t') \<subseteq> set (tree_arcs t)"
  by (auto simp: tree_arcs_def)

lemma evict_step_entries:
  "entry_list (prune_empty (remove_entry t i)) = remove_first (\<lambda>kx. entry_id (snd kx) = i) (entry_list t)"
  by (simp add: prune_empty_entries entry_list_remove_entry)

lemma evict_step_wf: "radix_wf t \<Longrightarrow> radix_wf (prune_empty (remove_entry t i))"
  unfolding remove_entry_def by (intro prune_empty_wf) (use remove_where_keeps(1) in blast)

definition ids_distinct :: "node \<Rightarrow> bool" where
  "ids_distinct t \<longleftrightarrow> distinct (map (entry_id \<circ> snd) (entry_list t))"

lemma remove_first_distinct:
  "distinct (map f xs) \<Longrightarrow> remove_first (\<lambda>x. f x = v) xs = filter (\<lambda>x. f x \<noteq> v) xs"
  by (induction xs) (auto simp: image_iff intro!: filter_True [symmetric])

lemma evict_step_filter:
  "ids_distinct t \<Longrightarrow>
   entry_list (prune_empty (remove_entry t i)) = filter (\<lambda>kx. entry_id (snd kx) \<noteq> i) (entry_list t)"
  unfolding evict_step_entries ids_distinct_def
  using remove_first_distinct [of "entry_id \<circ> snd"] by (simp add: comp_def)

lemma evict_loop_facts:
  assumes "evict_loop held capacity t pool n = (t', pool', n')"
    and "radix_wf t" "pool_inv sha (set (tree_arcs t @ held)) pool"
  shows "radix_wf t' \<and> set (entry_list t') \<subseteq> set (entry_list t)
    \<and> pool_inv sha (set (tree_arcs t' @ held)) pool'
    \<and> (min (footprint held t') u64_max \<le> capacity \<or> entry_list t' = [])"
  using assms
proof (induction held capacity t pool n rule: evict_loop.induct)
  case (1 held capacity t pool n)
  obtain p b where b: "resident_bytes held t pool = (p, b)" by (rule that [OF prod.collapse [symmetric]])
  note fp = resident_bytes_footprint [OF "1.prems"(3) b]
  consider (fits) "b \<le> capacity" | (empty) "capacity < b" "find_lru t = None"
    | (evict) i where "capacity < b" "find_lru t = Some i" by (cases "find_lru t") force+
  then show ?case
  proof cases
    case fits
    then have "t' = t" "pool' = p"
      using "1.prems"(1) b by (simp_all add: evict_loop.simps [of held capacity t])
    with "1.prems"(2) fp fits show ?thesis by simp
  next
    case empty
    then have "t' = t" "pool' = p"
      using "1.prems"(1) b by (simp_all add: evict_loop.simps [of held capacity t])
    with "1.prems"(2) fp empty(2) show ?thesis by (simp add: find_lru_None)
  next
    case evict
    let ?u = "prune_empty (remove_entry t i)"
    have run: "evict_loop held capacity ?u p (saturating_add n 1) = (t', pool', n')"
      using "1.prems"(1) b evict by (simp add: evict_loop.simps [of held capacity t])
    have sub: "set (entry_list ?u) \<subseteq> set (entry_list t)"
      unfolding evict_step_entries by (rule set_remove_first)
    have inv: "pool_inv sha (set (tree_arcs ?u @ held)) p"
      by (rule pool_inv_mono [OF fp(2)]) (use tree_arcs_mono [OF sub] in auto)
    from "1.IH" [OF b [symmetric] refl evict run evict_step_wf [OF "1.prems"(2)] inv] sub
    show ?thesis by blast
  qed
qed

lemma evict_loop_subset:
  "evict_loop held capacity t pool n = (t', pool', n') \<Longrightarrow> set (entry_list t') \<subseteq> set (entry_list t)"
proof (induction held capacity t pool n rule: evict_loop.induct)
  case (1 held capacity t pool n)
  obtain p b where b: "resident_bytes held t pool = (p, b)" by (rule that [OF prod.collapse [symmetric]])
  show ?case
  proof (cases "capacity < b \<and> find_lru t \<noteq> None")
    case False
    with 1 b show ?thesis by (auto simp: evict_loop.simps [of held capacity t] split: if_splits)
  next
    case True
    then obtain i where i: "capacity < b" "find_lru t = Some i" by auto
    then have run: "evict_loop held capacity (prune_empty (remove_entry t i)) p (saturating_add n 1) = (t', pool', n')"
      using "1.prems"(1) b by (simp add: evict_loop.simps [of held capacity t])
    from "1.IH" [OF b [symmetric] refl i run]
      set_remove_first [of "\<lambda>kx. entry_id (snd kx) = i" "entry_list t"]
    show ?thesis unfolding evict_step_entries by blast
  qed
qed

lemma evict_loop_lru:
  assumes "evict_loop held capacity t pool n = (t', pool', n')" "ids_distinct t"
  shows "ids_distinct t' \<and> (\<forall>kx\<in>set (entry_list t) - set (entry_list t').
    \<forall>ky\<in>set (entry_list t'). last_access (snd kx) \<le> last_access (snd ky))"
  using assms
proof (induction held capacity t pool n rule: evict_loop.induct)
  case (1 held capacity t pool n)
  obtain p b where b: "resident_bytes held t pool = (p, b)" by (rule that [OF prod.collapse [symmetric]])
  show ?case
  proof (cases "capacity < b \<and> find_lru t \<noteq> None")
    case False
    then have "t' = t" using "1.prems"(1) b
      by (auto simp: evict_loop.simps [of held capacity t] split: if_splits)
    with "1.prems"(2) show ?thesis by simp
  next
    case True
    then obtain i where i: "capacity < b" "find_lru t = Some i" by auto
    let ?u = "prune_empty (remove_entry t i)"
    have run: "evict_loop held capacity ?u p (saturating_add n 1) = (t', pool', n')"
      using "1.prems"(1) b i by (simp add: evict_loop.simps [of held capacity t])
    have u: "entry_list ?u = filter (\<lambda>kx. entry_id (snd kx) \<noteq> i) (entry_list t)"
      by (rule evict_step_filter [OF "1.prems"(2)])
    then have "ids_distinct ?u" using "1.prems"(2) by (simp add: ids_distinct_def distinct_map_filter)
    note IH = "1.IH" [OF b [symmetric] refl i run this]
    obtain k x where x: "(k, x) \<in> set (entry_list t)" "entry_id x = i"
      "\<And>k' x'. (k', x') \<in> set (entry_list t) \<Longrightarrow> last_access x \<le> last_access x'"
      using find_lru_Some [OF i(2)] by blast
    have sub: "set (entry_list t') \<subseteq> set (entry_list ?u)"
      using run by (rule evict_loop_subset)
    have "last_access (snd kx) \<le> last_access (snd ky)"
      if kx: "kx \<in> set (entry_list t) - set (entry_list t')" and ky: "ky \<in> set (entry_list t')" for kx ky
    proof (cases "entry_id (snd kx) = i")
      case True
      with kx x(1,2) "1.prems"(2) have "kx = (k, x)"
        by (auto simp: ids_distinct_def distinct_map inj_on_def)
      with x(3) [of "fst ky" "snd ky"] ky sub u show ?thesis by auto
    next
      case False
      with kx u have "kx \<in> set (entry_list ?u) - set (entry_list t')" by simp
      with IH ky show ?thesis by blast
    qed
    with IH show ?thesis by blast
  qed
qed

subsection \<open>Keys scope entries to an identity\<close>

definition identity_ok :: "bytes option \<Rightarrow> bool" where
  "identity_ok identity \<longleftrightarrow> (case identity of Some digest \<Rightarrow> length digest = 32 | None \<Rightarrow> True)"

definition scope_words :: "bytes option \<Rightarrow> u32 list" where
  "scope_words identity = scoped_key identity []"

lemma scoped_key_words: "scoped_key identity tokens = scope_words identity @ tokens"
  by (simp add: scope_words_def scoped_key_def)

lemma digest_words:
  "length xs = 4 * n \<Longrightarrow>
   length (filter (\<lambda>w. length w = 4) (chunks 4 xs)) = n
   \<and> concat (map (\<lambda>w. le_bytes 4 (unat (word_of_nat (le_nat w) :: u32))) (filter (\<lambda>w. length w = 4) (chunks 4 xs))) = xs"
proof (induction n arbitrary: xs)
  case (Suc n)
  then have four: "length (take 4 xs) = 4" "xs \<noteq> []" by auto
  have "le_nat (take 4 xs) < 2 ^ 32" using le_nat_lt [of "take 4 xs"] four by simp
  then have "unat (word_of_nat (le_nat (take 4 xs)) :: u32) = le_nat (take 4 xs)"
    by (simp add: unat_of_nat)
  with le_bytes_le_nat [of "take 4 xs"] four
  have "le_bytes 4 (unat (word_of_nat (le_nat (take 4 xs)) :: u32)) = take 4 xs" by simp
  with Suc.IH [of "drop 4 xs"] Suc.prems four show ?case by (simp add: chunks.simps [of 4 xs])
qed simp

lemma scope_words_length: "identity_ok identity \<Longrightarrow> length (scope_words identity) = IDENTITY_KEY_WORDS"
  using digest_words [of _ 8]
  by (auto simp: scope_words_def scoped_key_def identity_ok_def IDENTITY_KEY_WORDS_def split: option.splits)

lemma scope_words_inj:
  assumes "identity_ok a" "identity_ok b" "scope_words a = scope_words b"
  shows "a = b"
proof -
  have some: "scope_words (Some d) = 1 # map (\<lambda>w. word_of_nat (le_nat w)) (filter (\<lambda>w. length w = 4) (chunks 4 d))" for d
    by (simp add: scope_words_def scoped_key_def)
  have none: "scope_words None = 0 # replicate 8 0"
    by (simp add: scope_words_def scoped_key_def IDENTITY_KEY_WORDS_def eval_nat_numeral)
  have digest: "concat (map (\<lambda>w. le_bytes 4 (unat w)) (tl (scope_words (Some d)))) = d" if "length d = 32" for d
    using digest_words [of d 8] that by (simp add: some comp_def)
  show ?thesis
  proof (cases a; cases b)
    fix d d' assume ab: "a = Some d" "b = Some d'"
    have "length d = 32" "length d' = 32" using assms(1,2) ab by (simp_all add: identity_ok_def)
    from digest [OF this(1)] digest [OF this(2)] assms(3) have "d = d'" unfolding ab by metis
    with ab show ?thesis by simp
  next
    fix d assume ab: "a = Some d" "b = None"
    from assms(3) have "(1 :: u32) = 0" unfolding ab some none by (rule list.inject [THEN iffD1, THEN conjunct1])
    then show ?thesis by simp
  next
    fix d assume ab: "a = None" "b = Some d"
    from assms(3) have "(0 :: u32) = 1" unfolding ab some none by (rule list.inject [THEN iffD1, THEN conjunct1])
    then show ?thesis by simp
  qed simp
qed

lemma scoped_key_inj:
  assumes "identity_ok a" "identity_ok b" "scoped_key a ts = scoped_key b us"
  shows "a = b" "ts = us"
proof -
  from assms scope_words_length [of a] scope_words_length [of b]
  have "scope_words a = scope_words b \<and> ts = us" by (simp add: scoped_key_words append_eq_append_conv)
  with scope_words_inj assms(1,2) show "a = b" "ts = us" by auto
qed

lemma scoped_key_take:
  assumes "identity_ok a" "identity_ok b" "take d (scoped_key a ts) = scoped_key b us" "d \<le> 9 + length ts"
  shows "a = b" "us = take (d - 9) ts" "9 \<le> d"
proof -
  have len: "length (scope_words a) = 9" "length (scope_words b) = 9"
    using assms(1,2) scope_words_length by (auto simp: IDENTITY_KEY_WORDS_def)
  have "length (take d (scoped_key a ts)) = d" using assms(4) len by (simp add: scoped_key_words)
  with assms(3) len show d: "9 \<le> d" by (simp add: scoped_key_words)
  have "take d (scoped_key a ts) = scope_words a @ take (d - 9) ts"
    using len d by (simp add: scoped_key_words)
  with assms(3) have "scoped_key a (take (d - 9) ts) = scoped_key b us" by (simp add: scoped_key_words)
  from scoped_key_inj [OF assms(1,2) this] show "a = b" "us = take (d - 9) ts" by simp_all
qed

subsection \<open>The system: an index and the hits its callers hold\<close>

definition entry_ok :: "u32 list \<Rightarrow> resident_entry \<Rightarrow> bool" where
  "entry_ok k x \<longleftrightarrow> (\<exists>identity s. identity_ok identity \<and> k = scoped_key identity (snap_tokens s)
     \<and> materialize (entry_snapshot x) = Inr s \<and> rs_tokens (entry_snapshot x) = snap_tokens s
     \<and> position s = length (snap_tokens s) \<and> (ancestor_reusable x \<longleftrightarrow> 256 dvd position s))"

definition resident_inv :: "(bytes \<Rightarrow> bytes) \<Rightarrow> arc list \<Rightarrow> resident_radix \<Rightarrow> bool" where
  "resident_inv sha held r \<longleftrightarrow>
     radix_wf (root r) \<and> pool_inv sha (set (tree_arcs (root r) @ held)) (chunk_store r)
     \<and> (\<forall>kx\<in>set (entry_list (root r)). entry_ok (fst kx) (snd kx))
     \<and> (next_id r < u64_max \<longrightarrow> ids_distinct (root r)
          \<and> (\<forall>kx\<in>set (entry_list (root r)). entry_id (snd kx) < next_id r))"

record resident_sys =
  sys_index :: resident_radix
  sys_held :: "resident_snapshot list"

definition held_arcs :: "resident_sys \<Rightarrow> arc list" where
  "held_arcs S = concat (map snapshot_arcs (sys_held S))"

definition after_lookup :: "resident_sys \<Rightarrow> resident_radix \<times> resident_hit option \<Rightarrow> resident_sys" where
  "after_lookup S out = S\<lparr>sys_index := fst out,
     sys_held := (case snd out of Some hit \<Rightarrow> hit_snapshot hit # sys_held S | None \<Rightarrow> sys_held S)\<rparr>"

inductive resident_step :: "(bytes \<Rightarrow> bytes) \<Rightarrow> resident_sys \<Rightarrow> resident_sys \<Rightarrow> bool" for sha where
  step_insert: "identity_ok identity \<Longrightarrow>
     resident_step sha S (S\<lparr>sys_index :=
       fst (insert_with_logits sha (held_arcs S) (sys_index S) identity s logits)\<rparr>)"
| step_lookup: "identity_ok identity \<Longrightarrow>
     resident_step sha S (after_lookup S (lookup_capped (sys_index S) identity tokens max_cut))"
| step_stats: "resident_step sha S (S\<lparr>sys_index := fst (resident_stats_of (held_arcs S) (sys_index S))\<rparr>)"
| step_release: "sys_held S = xs @ h # ys \<Longrightarrow> resident_step sha S (S\<lparr>sys_held := xs @ ys\<rparr>)"

inductive_cases resident_stepE: "resident_step sha S S'"

definition resident_start :: "resident_sys \<Rightarrow> bool" where
  "resident_start S \<longleftrightarrow> sys_held S = [] \<and> resident_new (capacity_bytes (sys_index S)) = Inr (sys_index S)"

definition sys_inv :: "(bytes \<Rightarrow> bytes) \<Rightarrow> resident_sys \<Rightarrow> bool" where
  "sys_inv sha S \<longleftrightarrow> resident_inv sha (held_arcs S) (sys_index S)"

lemma resident_inv_new: "resident_new capacity = Inr r \<Longrightarrow> resident_inv sha [] r"
  by (auto simp: resident_new_def resident_inv_def pool_inv_def registered_def tree_arcs_def ids_distinct_def
      split: if_splits)

lemma entry_list_insert:
  assumes "radix_wf t" "(k, y) \<in> set (entry_list (insert_recursive t key x))"
  shows "(k, y) = (key, x) \<or> (k, y) \<in> set (entry_list t) \<and> k \<noteq> key"
proof -
  have "radix_get (insert_recursive t key x) k = Some y"
    using radix_get_entry [OF radix_wf_insert [OF assms(1)]] assms(2) by simp
  with assms(1) show ?thesis by (auto simp: radix_get_insert radix_get_entry split: if_splits)
qed

lemma insert_tree_arcs:
  "radix_wf t \<Longrightarrow> set (tree_arcs (insert_recursive t key x)) \<subseteq> set (snapshot_arcs (entry_snapshot x)) \<union> set (tree_arcs t)"
  by (fastforce simp: tree_arcs_def dest: entry_list_insert)

lemma insert_ids_distinct:
  assumes "radix_wf t" "ids_distinct t" "\<forall>kx\<in>set (entry_list t). entry_id (snd kx) < entry_id x"
  shows "ids_distinct (insert_recursive t key x)"
proof -
  let ?t = "insert_recursive t key x"
  have wf: "radix_wf ?t" by (rule radix_wf_insert [OF assms(1)])
  have "distinct (entry_list ?t)" using distinct_entry_keys [OF wf] by (simp add: distinct_map)
  moreover have "inj_on (entry_id \<circ> snd) (set (entry_list ?t))"
  proof (rule inj_onI)
    fix kx ky assume xy: "kx \<in> set (entry_list ?t)" "ky \<in> set (entry_list ?t)"
      "(entry_id \<circ> snd) kx = (entry_id \<circ> snd) ky"
    have "kx = (key, x) \<or> kx \<in> set (entry_list t)" "ky = (key, x) \<or> ky \<in> set (entry_list t)"
      using entry_list_insert [OF assms(1), of "fst kx" "snd kx" key x]
        entry_list_insert [OF assms(1), of "fst ky" "snd ky" key x] xy(1,2) by auto
    with xy(3) assms(2,3) show "kx = ky"
      by (auto simp: ids_distinct_def distinct_map inj_on_def)
  qed
  ultimately show ?thesis by (simp add: ids_distinct_def distinct_map)
qed

lemma insert_with_logits_cases:
  obtains
    (unchanged) e where "insert_with_logits sha held r identity s logits = (r, Inl e)"
  | (failed) pool e where "chunk_snapshot sha (tree_arcs (root r) @ held) (chunk_store r) s logits = (pool, Inl e)"
      "insert_with_logits sha held r identity s logits = (r\<lparr>chunk_store := pool\<rparr>, Inl e)"
  | (stored) pool rs x t pool' n where "validate s = Inr ()" "position s = length (snap_tokens s)"
      "chunk_snapshot sha (tree_arcs (root r) @ held) (chunk_store r) s logits = (pool, Inr rs)"
      "x = \<lparr>entry_id = next_id r, entry_snapshot = rs,
         ancestor_reusable = is_multiple_of (position s) RESIDENT_CUT_TOKENS,
         last_access = saturating_add (clock r) 1\<rparr>"
      "evict_loop held (capacity_bytes r)
         (insert_recursive (root r) (scoped_key identity (snap_tokens s)) x) pool (evictions r) = (t, pool', n)"
      "insert_with_logits sha held r identity s logits =
         (r\<lparr>root := t, chunk_store := pool', clock := saturating_add (clock r) 1,
            next_id := saturating_add (next_id r) 1, evictions := n\<rparr>, Inr (find_id t (next_id r)))"
proof -
  let ?bad = "case logits of Some vs \<Rightarrow> vs = [] \<or> list_ex (\<lambda>v. \<not> f32_is_finite v) vs | None \<Rightarrow> False"
  show ?thesis
  proof (cases "validate s = Inr () \<and> length (snap_tokens s) = position s \<and> \<not> ?bad")
    case False
    show ?thesis
      by (rule unchanged [of "if validate s \<noteq> Inr () then InvalidSnapshot (projl (validate s))
            else if length (snap_tokens s) \<noteq> position s then TokenMismatch else InvalidLogits"])
        (use False in \<open>auto simp: insert_with_logits_def split: sum.splits if_splits\<close>)
  next
    case True
    obtain pool res where cs: "chunk_snapshot sha (tree_arcs (root r) @ held) (chunk_store r) s logits = (pool, res)"
      by (rule that [OF prod.collapse [symmetric]])
    show ?thesis
    proof (cases res)
      case (Inl e)
      show ?thesis by (rule failed [of pool e]) (use True cs Inl in \<open>simp_all add: insert_with_logits_def\<close>)
    next
      case (Inr rs)
      let ?x = "\<lparr>entry_id = next_id r, entry_snapshot = rs,
         ancestor_reusable = is_multiple_of (position s) RESIDENT_CUT_TOKENS,
         last_access = saturating_add (clock r) 1\<rparr>"
      obtain t pool' n where ev: "evict_loop held (capacity_bytes r)
         (insert_recursive (root r) (scoped_key identity (snap_tokens s)) ?x) pool (evictions r) = (t, pool', n)"
        by (metis prod.collapse)
      show ?thesis
        by (rule stored [OF _ _ _ refl ev]) (use True cs Inr ev in \<open>simp_all add: insert_with_logits_def Let_def\<close>)
    qed
  qed
qed

lemma insert_keeps_inv:
  assumes inv: "resident_inv sha held r" and id: "identity_ok identity"
  shows "resident_inv sha held (fst (insert_with_logits sha held r identity s logits))"
proof (cases rule: insert_with_logits_cases [of sha held r identity s logits])
  case unchanged
  with inv show ?thesis by simp
next
  case failed
  with inv chunk_snapshot_inv(1) [OF _ failed(1)] show ?thesis by (simp add: resident_inv_def)
next
  case (stored pool rs x t pool' n)
  let ?key = "scoped_key identity (snap_tokens s)"
  let ?t = "insert_recursive (root r) ?key x"
  have wf: "radix_wf (root r)" and pool: "pool_inv sha (set (tree_arcs (root r) @ held)) (chunk_store r)"
    using inv by (auto simp: resident_inv_def)
  have "pool_inv sha (set (snapshot_arcs rs) \<union> set (tree_arcs (root r) @ held)) pool"
    using chunk_snapshot_inv(2) [OF pool stored(3) refl] .
  then have "pool_inv sha (set (tree_arcs ?t @ held)) pool"
    by (rule pool_inv_mono) (use insert_tree_arcs [OF wf, of ?key x] stored(4) in auto)
  note ev = evict_loop_facts [OF stored(5) radix_wf_insert [OF wf] this]
  note mat = chunk_snapshot_materialize [OF stored(3,1)]
  have "entry_ok ?key x"
    unfolding entry_ok_def using id mat stored(2,4)
    by (intro exI [of _ identity] exI [of _ s]) (simp add: is_multiple_of_dvd RESIDENT_CUT_TOKENS_def)
  moreover have "kx = (?key, x) \<or> kx \<in> set (entry_list (root r))" if "kx \<in> set (entry_list t)" for kx
    using entry_list_insert [OF wf, of "fst kx" "snd kx" ?key x] ev that by auto
  ultimately have ok: "\<forall>kx\<in>set (entry_list t). entry_ok (fst kx) (snd kx)"
    using inv unfolding resident_inv_def by (metis fst_conv snd_conv)
  have ids: "ids_distinct t \<and> (\<forall>kx\<in>set (entry_list t). entry_id (snd kx) < saturating_add (next_id r) 1)"
    if "saturating_add (next_id r) 1 < u64_max"
  proof -
    have n: "next_id r < u64_max" "saturating_add (next_id r) 1 = next_id r + 1"
      using that by (auto simp: saturating_add_def u64_max_def)
    with inv have old: "ids_distinct (root r)" "\<forall>kx\<in>set (entry_list (root r)). entry_id (snd kx) < next_id r"
      by (auto simp: resident_inv_def)
    have "ids_distinct ?t" by (rule insert_ids_distinct [OF wf old(1)]) (use old(2) stored(4) in simp)
    with evict_loop_lru [OF stored(5)] have "ids_distinct t" by simp
    moreover have "entry_id (snd kx) < next_id r + 1" if "kx \<in> set (entry_list t)" for kx
      using entry_list_insert [OF wf, of "fst kx" "snd kx" ?key x] ev that old(2) stored(4) by fastforce
    ultimately show ?thesis using n(2) by simp
  qed
  show ?thesis unfolding stored(6) using ev ok ids by (simp add: resident_inv_def)
qed

lemma lookup_capped_run:
  "lookup_capped r identity tokens max_cut = (r', best) \<Longrightarrow>
   \<exists>t. longest_match_recursive (root r) (scoped_key identity tokens) 0 (saturating_add (clock r) 1)
        (saturating_add IDENTITY_KEY_WORDS max_cut) None = (t, best) \<and> root r' = t
     \<and> chunk_store r' = chunk_store r \<and> next_id r' = next_id r \<and> capacity_bytes r' = capacity_bytes r"
  by (auto simp: lookup_capped_def Let_def split: prod.splits)

lemma lookup_keeps_inv:
  assumes inv: "resident_inv sha held r" and run: "lookup_capped r identity tokens max_cut = (r', best)"
  shows "resident_inv sha held r'" "tree_arcs (root r') = tree_arcs (root r)"
proof -
  obtain t where t: "longest_match_recursive (root r) (scoped_key identity tokens) 0
      (saturating_add (clock r) 1) (saturating_add IDENTITY_KEY_WORDS max_cut) None = (t, best)"
    "root r' = t" "chunk_store r' = chunk_store r" "next_id r' = next_id r"
    using lookup_capped_run [OF run] by blast
  have keeps: "radix_wf t" "untimed t = untimed (root r)"
    using longest_match_keeps [of "root r" "scoped_key identity tokens" 0 "saturating_add (clock r) 1"
        "saturating_add IDENTITY_KEY_WORDS max_cut" None] inv
    unfolding t(1) resident_inv_def by simp_all
  note same = untimed_eqD [OF keeps(2)]
  show "tree_arcs (root r') = tree_arcs (root r)" using same(1) t(2) by simp
  have origin: "\<exists>y. (fst kx, y) \<in> set (entry_list (root r)) \<and> entry_id y = entry_id (snd kx)
      \<and> (entry_ok (fst kx) y \<longrightarrow> entry_ok (fst kx) (snd kx))" if kx: "kx \<in> set (entry_list t)" for kx
  proof -
    obtain y where y: "(fst kx, y) \<in> set (entry_list (root r))"
      "(snd kx)\<lparr>last_access := 0\<rparr> = y\<lparr>last_access := 0\<rparr>" using same(3) [of "fst kx" "snd kx"] kx by auto
    from y(2) have "entry_id y = entry_id (snd kx)" "entry_snapshot y = entry_snapshot (snd kx)"
      "ancestor_reusable y = ancestor_reusable (snd kx)" by (cases y; cases "snd kx"; simp)+
    then have "entry_id y = entry_id (snd kx)" "entry_ok (fst kx) y = entry_ok (fst kx) (snd kx)"
      by (simp_all add: entry_ok_def)
    with y(1) show ?thesis by blast
  qed
  show "resident_inv sha held r'"
    unfolding resident_inv_def t(2-4) same(1)
    using inv keeps(1) origin same(2) unfolding resident_inv_def ids_distinct_def by (metis fst_conv snd_conv)
qed

lemma deepest_key:
  assumes inv: "resident_inv sha held r" and id: "identity_ok identity"
    and run: "lookup_capped r identity tokens max_cut = (r', best)"
  shows "deepest (root r) (scoped_key identity tokens) 0 (saturating_add 9 max_cut) None best"
proof -
  obtain t where t: "longest_match_recursive (root r) (scoped_key identity tokens) 0
      (saturating_add (clock r) 1) (saturating_add IDENTITY_KEY_WORDS max_cut) None = (t, best)"
    using lookup_capped_run [OF run] by blast
  have "radix_wf (root r)" using inv by (simp add: resident_inv_def)
  from longest_match_deepest [OF this, of "scoped_key identity tokens" 0
      "saturating_add IDENTITY_KEY_WORDS max_cut" None "saturating_add (clock r) 1"]
  show ?thesis unfolding t by (simp add: IDENTITY_KEY_WORDS_def)
qed

text \<open>The entries of one identity, by token list.\<close>

definition resident_view :: "resident_radix \<Rightarrow> bytes option \<Rightarrow> u32 list \<Rightarrow> resident_snapshot option" where
  "resident_view r identity tokens =
     map_option entry_snapshot (radix_get (root r) (scoped_key identity tokens))"

text \<open>A stored cut serves a query for \<open>tokens\<close> at depth \<open>c\<close> under the cap.\<close>

definition serves :: "resident_radix \<Rightarrow> bytes option \<Rightarrow> u32 list \<Rightarrow> nat \<Rightarrow> nat \<Rightarrow> bool" where
  "serves r identity tokens max_cut c \<longleftrightarrow>
     c \<le> length tokens \<and> c \<le> max_cut \<and> resident_view r identity (take c tokens) \<noteq> None
     \<and> (c = length tokens \<or> 256 dvd c)"

lemma stored_entry:
  assumes inv: "resident_inv sha held r" and id: "identity_ok identity"
    and get: "radix_get (root r) (take d (scoped_key identity tokens)) = Some x" "d \<le> 9 + length tokens"
  obtains s where "9 \<le> d" "take d (scoped_key identity tokens) = scoped_key identity (take (d - 9) tokens)"
    "snap_tokens s = take (d - 9) tokens" "materialize (entry_snapshot x) = Inr s"
    "position s = d - 9" "ancestor_reusable x \<longleftrightarrow> 256 dvd d - 9"
proof -
  have "(take d (scoped_key identity tokens), x) \<in> set (entry_list (root r))"
    using inv get(1) by (simp add: resident_inv_def radix_get_entry)
  with inv have "entry_ok (take d (scoped_key identity tokens)) x" by (auto simp: resident_inv_def)
  then obtain id' s where s: "identity_ok id'" "take d (scoped_key identity tokens) = scoped_key id' (snap_tokens s)"
    "materialize (entry_snapshot x) = Inr s" "position s = length (snap_tokens s)"
    "ancestor_reusable x \<longleftrightarrow> 256 dvd position s" unfolding entry_ok_def by blast
  note sk = scoped_key_take [OF id s(1,2) get(2)]
  with s that [of s] get(2) show ?thesis by auto
qed

lemma length_scoped_key: "identity_ok identity \<Longrightarrow> length (scoped_key identity tokens) = 9 + length tokens"
  using scope_words_length by (simp add: scoped_key_words IDENTITY_KEY_WORDS_def)

lemma eligible_serves:
  assumes inv: "resident_inv sha held r" and id: "identity_ok identity" and len: "length tokens + 9 < 2 ^ 64"
  shows "(\<exists>x. eligible_at (root r) (scoped_key identity tokens) 0 (saturating_add 9 max_cut) (9 + c) x)
    \<longleftrightarrow> serves r identity tokens max_cut c"
proof -
  let ?key = "scoped_key identity tokens"
  have key: "length ?key = 9 + length tokens" using id by (rule length_scoped_key)
  have cap: "9 + c \<le> saturating_add 9 max_cut \<longleftrightarrow> c \<le> max_cut" if "c \<le> length tokens"
    using that len by (auto simp: saturating_add_def)
  have take: "take (9 + c) ?key = scoped_key identity (take c tokens)"
    using scope_words_length [OF id] by (simp add: scoped_key_words IDENTITY_KEY_WORDS_def)
  have reusable: "ancestor_reusable x \<longleftrightarrow> 256 dvd c"
    if "radix_get (root r) (take (9 + c) ?key) = Some x" "c \<le> length tokens" for x
    by (rule stored_entry [OF inv id that(1)]) (use that(2) in auto)
  show ?thesis
    unfolding eligible_at_def serves_def resident_view_def key take [symmetric]
    using cap reusable by auto
qed

interpretation resident_system: invariant_system resident_start "resident_step sha" "sys_inv sha"
proof
  show "sys_inv sha S" if "resident_start S" for S
    using that resident_inv_new [of _ "sys_index S" sha]
    by (auto simp: resident_start_def sys_inv_def held_arcs_def)
  show "sys_inv sha S'" if "resident_step sha S S'" "sys_inv sha S" for S S'
    using that
  proof (cases rule: resident_step.cases)
    case (step_insert identity s logits)
    with that(2) insert_keeps_inv show ?thesis by (simp add: sys_inv_def held_arcs_def)
  next
    case (step_lookup identity tokens max_cut)
    obtain r' best where run: "lookup_capped (sys_index S) identity tokens max_cut = (r', best)"
      by (rule that [OF prod.collapse [symmetric]])
    have inv: "resident_inv sha (held_arcs S) (sys_index S)" using \<open>sys_inv sha S\<close> by (simp add: sys_inv_def)
    note keeps = lookup_keeps_inv [OF inv run]
    have "set (snapshot_arcs (hit_snapshot hit)) \<subseteq> set (tree_arcs (root r'))" if "best = Some hit" for hit
    proof -
      from deepest_key [OF inv step_lookup(2) run] that obtain d x where
        x: "radix_get (root (sys_index S)) (take d (scoped_key identity tokens)) = Some x"
          "hit_snapshot hit = entry_snapshot x"
        unfolding deepest_def eligible_at_def by fastforce
      then have "(take d (scoped_key identity tokens), x) \<in> set (entry_list (root (sys_index S)))"
        using inv by (simp add: resident_inv_def radix_get_entry)
      with x(2) keeps(2) show ?thesis by (force simp: tree_arcs_def)
    qed
    with keeps(1) show ?thesis
      unfolding step_lookup(1) run sys_inv_def after_lookup_def held_arcs_def resident_inv_def
      by (auto split: option.splits elim!: pool_inv_mono)
  next
    case step_stats
    have inv: "resident_inv sha (held_arcs S) (sys_index S)" using that(2) by (simp add: sys_inv_def)
    obtain p n where lb: "live_bytes (tree_arcs (root (sys_index S)) @ held_arcs S) (chunk_store (sys_index S)) = (p, n)"
      by (rule that [OF prod.collapse [symmetric]])
    from inv live_bytes_inv(1) [OF _ lb, of sha] show ?thesis
      unfolding step_stats
      by (simp add: sys_inv_def held_arcs_def resident_inv_def resident_stats_of_def lb [unfolded held_arcs_def]
          split: prod.splits)
  next
    case (step_release xs h ys)
    with that(2) show ?thesis
      by (auto simp: sys_inv_def held_arcs_def resident_inv_def elim!: pool_inv_mono)
  qed
qed

subsection \<open>Lookup and insertion on the view\<close>

lemma reachable_inv:
  "reachable resident_start (resident_step sha) S \<Longrightarrow> resident_inv sha (held_arcs S) (sys_index S)"
  using resident_system.inv_reachable by (simp add: sys_inv_def)

lemma lookup_spec:
  assumes inv: "resident_inv sha held r" and id: "identity_ok identity" and len: "length tokens + 9 < 2 ^ 64"
    and run: "lookup_capped r identity tokens max_cut = (r', best)"
  shows "case best of
      None \<Rightarrow> \<forall>c. \<not> serves r identity tokens max_cut c
    | Some hit \<Rightarrow> serves r identity tokens max_cut (cut hit)
        \<and> (\<forall>c. serves r identity tokens max_cut c \<longrightarrow> c \<le> cut hit)
        \<and> exact hit = (cut hit = length tokens)
        \<and> resident_view r identity (take (cut hit) tokens) = Some (hit_snapshot hit)
        \<and> (\<exists>s. materialize (hit_snapshot hit) = Inr s \<and> snap_tokens s = take (cut hit) tokens
              \<and> position s = cut hit)"
proof -
  let ?key = "scoped_key identity tokens" and ?m = "saturating_add 9 max_cut"
  note serves = eligible_serves [OF inv id len, of max_cut]
  from deepest_key [OF inv id run] show ?thesis unfolding deepest_def
  proof (elim disjE exE conjE)
    assume "best = None" "\<forall>d x. \<not> eligible_at (root r) ?key 0 ?m d x"
    then show ?thesis using serves by auto
  next
    fix d x
    assume d: "eligible_at (root r) ?key 0 ?m d x" "\<forall>d' x'. eligible_at (root r) ?key 0 ?m d' x' \<longrightarrow> d' \<le> d"
      "best = Some \<lparr>cut = 0 + d - IDENTITY_KEY_WORDS, exact = (d = length ?key), hit_snapshot = entry_snapshot x\<rparr>"
    have get: "radix_get (root r) (take d ?key) = Some x" "d \<le> 9 + length tokens"
      using d(1) length_scoped_key [OF id] by (auto simp: eligible_at_def)
    obtain s where s: "9 \<le> d" "take d ?key = scoped_key identity (take (d - 9) tokens)"
      "snap_tokens s = take (d - 9) tokens" "materialize (entry_snapshot x) = Inr s" "position s = d - 9"
      using stored_entry [OF inv id get] by metis
    have nine: "9 + (d - 9) = d" using s(1) by simp
    have "serves r identity tokens max_cut (d - 9)" using serves [of "d - 9"] d(1) unfolding nine by blast
    moreover have "c \<le> d - 9" if "serves r identity tokens max_cut c" for c
      using serves [of c] that d(2) by fastforce
    moreover have "(d = length ?key) = (d - 9 = length tokens)"
      using s(1) length_scoped_key [OF id] by auto
    moreover have "resident_view r identity (take (d - 9) tokens) = Some (entry_snapshot x)"
      using get(1) by (simp add: resident_view_def s(2))
    ultimately show ?thesis using s d(3) by (simp add: IDENTITY_KEY_WORDS_def)
  qed
qed

lemma find_id_iff: "find_id t i \<longleftrightarrow> (\<exists>kx\<in>set (entry_list t). entry_id (snd kx) = i)"
  by (simp add: find_id_def any_entry_list list_ex_iff)

lemma insert_stored_entry:
  assumes inv: "resident_inv sha held r" and id: "identity_ok identity" and fresh: "next_id r < u64_max"
    and run: "insert_with_logits sha held r identity s logits = (r', Inr True)"
  shows "\<exists>rs. resident_view r' identity (snap_tokens s) = Some rs \<and> materialize rs = Inr s
    \<and> rs_last_logits rs = logits \<and> position s = length (snap_tokens s)"
proof (cases rule: insert_with_logits_cases [of sha held r identity s logits])
  case (stored pool rs x t pool' n)
  let ?key = "scoped_key identity (snap_tokens s)"
  have wf: "radix_wf (root r)" and old: "\<forall>kx\<in>set (entry_list (root r)). entry_id (snd kx) < next_id r"
    using inv fresh by (auto simp: resident_inv_def)
  have r': "root r' = t" and found: "find_id t (next_id r)" using run stored(6) by auto
  from found obtain kx where kx: "kx \<in> set (entry_list t)" "entry_id (snd kx) = next_id r"
    by (auto simp: find_id_iff)
  then have "kx \<in> set (entry_list (insert_recursive (root r) ?key x))"
    using evict_loop_subset [OF stored(5)] by blast
  with entry_list_insert [OF wf, of "fst kx" "snd kx" ?key x]
  have "kx = (?key, x) \<or> kx \<in> set (entry_list (root r))" by auto
  with kx(2) old have "kx = (?key, x)" by auto
  moreover have "radix_wf t"
    using insert_keeps_inv [OF inv id, of s logits] stored(6) by (simp add: resident_inv_def)
  ultimately have "radix_get t ?key = Some x" using kx(1) by (simp add: radix_get_entry)
  with chunk_snapshot_materialize [OF stored(3,1)] stored(2,4) r' show ?thesis
    by (auto simp: resident_view_def)
qed (use run in auto)

lemma insert_view_cases:
  assumes inv: "resident_inv sha held r" and id: "identity_ok identity" "identity_ok identity'"
    and run: "insert_with_logits sha held r identity s logits = (r', res)"
    and view: "resident_view r' identity' tokens' = Some rs"
  shows "resident_view r identity' tokens' = Some rs \<or>
    (identity' = identity \<and> tokens' = snap_tokens s \<and> materialize rs = Inr s \<and> rs_last_logits rs = logits)"
proof (cases rule: insert_with_logits_cases [of sha held r identity s logits])
  case unchanged
  with run view show ?thesis by simp
next
  case failed
  with run have "root r' = root r" by auto
  with view show ?thesis by (simp add: resident_view_def)
next
  case (stored pool rs' x t pool' n)
  let ?key = "scoped_key identity (snap_tokens s)"
  have wf: "radix_wf (root r)" using inv by (simp add: resident_inv_def)
  have t: "root r' = t" "radix_wf t"
    using run stored(6) insert_keeps_inv [OF inv id(1), of s logits] by (auto simp: resident_inv_def)
  from view obtain y where y: "(scoped_key identity' tokens', y) \<in> set (entry_list t)" "rs = entry_snapshot y"
    using t by (auto simp: resident_view_def radix_get_entry)
  then have "(scoped_key identity' tokens', y) \<in> set (entry_list (insert_recursive (root r) ?key x))"
    using evict_loop_subset [OF stored(5)] by blast
  from entry_list_insert [OF wf this] show ?thesis
  proof
    assume "(scoped_key identity' tokens', y) = (?key, x)"
    with scoped_key_inj [OF id(2,1)] chunk_snapshot_materialize [OF stored(3,1)] stored(4) y(2)
    show ?thesis by auto
  next
    assume "(scoped_key identity' tokens', y) \<in> set (entry_list (root r)) \<and> scoped_key identity' tokens' \<noteq> ?key"
    with wf y(2) show ?thesis by (simp add: resident_view_def radix_get_entry [symmetric])
  qed
qed

subsection \<open>Properties\<close>

text \<open>C1: In every reachable state a lookup under an identity returns the deepest stored cut of that
  identity that is a prefix of the queried tokens, within the cap, and either equal to the query or
  aligned to 256 tokens; it returns nothing exactly when there is none. The hit carries the stored
  snapshot of that prefix, which materializes to a valid session snapshot at that position.\<close>

theorem lookup_capped_deepest:
  assumes "reachable resident_start (resident_step sha) S"
    and "identity_ok identity" "length tokens + 9 < 2 ^ 64"
    and "lookup_capped (sys_index S) identity tokens max_cut = (r', best)"
  shows "case best of
      None \<Rightarrow> \<forall>c. \<not> serves (sys_index S) identity tokens max_cut c
    | Some hit \<Rightarrow> serves (sys_index S) identity tokens max_cut (cut hit)
        \<and> (\<forall>c. serves (sys_index S) identity tokens max_cut c \<longrightarrow> c \<le> cut hit)
        \<and> exact hit = (cut hit = length tokens)
        \<and> resident_view (sys_index S) identity (take (cut hit) tokens) = Some (hit_snapshot hit)
        \<and> (\<exists>s. materialize (hit_snapshot hit) = Inr s \<and> snap_tokens s = take (cut hit) tokens
              \<and> position s = cut hit)"
  by (rule lookup_spec [OF reachable_inv [OF assms(1)] assms(2-4)])

lemma plane_arcs_bytes:
  "sum_list (map (length \<circ> snd) (plane_arcs p))
   = length (plane_key (materialize_plane p)) + length (plane_value (materialize_plane p))"
  by (simp add: plane_arcs_def materialize_plane_def concatenate_def length_concat comp_def)

lemma sum_distinct_le: "(\<Sum>b\<in>f ` set xs. g b) \<le> sum_list (map (g \<circ> f) xs)" for g :: "'b \<Rightarrow> nat"
proof (induction xs)
  case (Cons x xs)
  have "(\<Sum>b\<in>insert (f x) (f ` set xs). g b) \<le> g (f x) + (\<Sum>b\<in>f ` set xs. g b)"
    by (simp add: sum.insert_if)
  with Cons show ?case by (simp add: le_trans)
qed simp

lemma materialize_layers: "materialize rs = Inr s \<Longrightarrow> layers s = map materialize_plane (rs_layers rs)"
  by (auto simp: materialize_def Let_def bind_res_Inr_iff)

lemma insert_capacity [simp]:
  "capacity_bytes (fst (insert_with_logits sha held r identity s logits)) = capacity_bytes r"
  by (cases rule: insert_with_logits_cases [of sha held r identity s logits]) simp_all

lemma snapshot_arcs_bytes:
  assumes "materialize rs = Inr s"
  shows "(\<Sum>b\<in>snd ` set (snapshot_arcs rs). length b)
    \<le> (\<Sum>p\<leftarrow>layers s. length (plane_key p) + length (plane_value p))"
proof -
  from materialize_layers [OF assms] have "sum_list (map (length \<circ> snd) (snapshot_arcs rs))
      = (\<Sum>p\<leftarrow>layers s. length (plane_key p) + length (plane_value p))"
    by (simp add: snapshot_arcs_def map_concat sum_list_concat_nat comp_def plane_arcs_bytes [unfolded comp_def])
  then show ?thesis using sum_distinct_le [of length snd "snapshot_arcs rs"] by simp
qed

definition demo_start :: resident_sys where
  "demo_start = \<lparr>sys_index = \<lparr>root = empty_node, chunk_store = \<lparr>by_digest = [], next_addr = 0\<rparr>,
     capacity_bytes = 1000, clock = 0, next_id = 1, queries = 0, hits = 0, evictions = 0\<rparr>,
     sys_held = []\<rparr>"

definition demo_stored :: "bytes option \<Rightarrow> u32 list option \<Rightarrow> resident_sys" where
  "demo_stored identity logits = demo_start\<lparr>sys_index :=
     fst (insert_with_logits id (held_arcs demo_start) (sys_index demo_start) identity demo_snapshot logits)\<rparr>"

definition demo_logits_ok :: "u32 list option \<Rightarrow> bool" where
  "demo_logits_ok logits \<longleftrightarrow>
     (case logits of Some vs \<Rightarrow> vs \<noteq> [] \<and> list_all f32_is_finite vs \<and> length vs \<le> 100 | None \<Rightarrow> True)"

lemma demo_start_reachable: "reachable resident_start (resident_step sha) demo_start"
  by (rule reach_init) (simp add: resident_start_def demo_start_def resident_new_def)

lemma demo_held [simp]: "held_arcs demo_start = []" "held_arcs (demo_stored identity logits) = []"
  by (simp_all add: held_arcs_def demo_start_def demo_stored_def)

lemma demo_stored_reachable:
  "identity_ok identity \<Longrightarrow> reachable resident_start (resident_step id) (demo_stored identity logits)"
  unfolding demo_stored_def by (rule reach_step [OF demo_start_reachable], rule step_insert)

lemma entry_list_insert_empty: "ks \<noteq> [] \<Longrightarrow> entry_list (insert_recursive empty_node ks x) = [(ks, x)]"
  by (cases ks) (simp_all add: empty_node_def insert_recursive.simps)

lemma demo_insert:
  assumes id: "identity_ok identity" and logits: "demo_logits_ok logits"
  shows "insert_with_logits id (held_arcs demo_start) (sys_index demo_start) identity demo_snapshot logits
    = (sys_index (demo_stored identity logits), Inr True)"
proof -
  let ?r = "sys_index demo_start"
  have r: "root ?r = empty_node" "next_id ?r = 1" "capacity_bytes ?r = 1000" "tree_arcs (root ?r) = []"
    by (simp_all add: demo_start_def tree_arcs_def)
  have inv: "resident_inv id [] ?r" using reachable_inv [OF demo_start_reachable, of id] by simp
  obtain cps where cps: "snd (chunk_planes id 1 [] (chunk_store ?r) (layers demo_snapshot)) = Inr cps"
    using chunk_planes_total [of 1 id "[]" "chunk_store ?r" "layers demo_snapshot"] by auto
  have "snd (insert_with_logits id [] ?r identity demo_snapshot logits) = Inr True"
  proof (cases rule: insert_with_logits_cases [of id "[]" ?r identity demo_snapshot logits])
    case (stored pool rs x t pool' n)
    let ?key = "scoped_key identity (snap_tokens demo_snapshot)"
    let ?t = "insert_recursive empty_node ?key x"
    have "?key \<noteq> []" using length_scoped_key [OF id, of "snap_tokens demo_snapshot"] by auto
    then have el: "entry_list ?t = [(?key, x)]" by (rule entry_list_insert_empty)
    then have arcs: "tree_arcs ?t = snapshot_arcs rs" using stored(4) by (simp add: tree_arcs_def)
    have "pool_inv id (set (snapshot_arcs rs) \<union> set []) pool"
      using chunk_snapshot_inv(2) [OF _ stored(3) refl] inv r(4) by (simp add: resident_inv_def)
    then have pool: "pool_inv id (set (tree_arcs ?t @ [])) pool" by (simp add: arcs)
    obtain p b where rb: "resident_bytes [] ?t pool = (p, b)" by (rule that [OF prod.collapse [symmetric]])
    note fp = resident_bytes_footprint(1) [OF pool rb]
    have x: "entry_snapshot x = rs" "rs_last_logits rs = logits"
      using chunk_snapshot_materialize(4) [OF stored(3,1)] stored(4) by simp_all
    have "(\<Sum>b\<in>snd ` set (snapshot_arcs rs). length b)
        \<le> (\<Sum>p\<leftarrow>layers demo_snapshot. length (plane_key p) + length (plane_value p))"
      by (rule snapshot_arcs_bytes [OF chunk_snapshot_materialize(1) [OF stored(3,1)]])
    also have "\<dots> = 208" by (simp add: demo_snapshot_def demo_plane_def comp_def sum_list_triv)
    finally have "footprint [] ?t \<le> 208 + 400"
      using logits unfolding footprint_def arcs el by (auto simp: x demo_logits_ok_def split: option.splits)
    then have "b \<le> 1000" using fp by simp
    then have "t = ?t" using stored(5) rb r by (simp add: evict_loop.simps [of "[]" 1000 ?t])
    then have "find_id t 1" using el stored(4) r(2) by (simp add: find_id_iff)
    then show ?thesis using stored(6) r(2) by simp
  next
    case (failed pool e)
    then show ?thesis using cps r(4)
      by (auto simp: chunk_snapshot_def Let_def demo_snapshot_def split: prod.splits)
  next
    case (unchanged e)
    have "\<not> (case logits of Some vs \<Rightarrow> vs = [] \<or> list_ex (\<lambda>v. \<not> f32_is_finite v) vs | None \<Rightarrow> False)"
      using logits by (auto simp: demo_logits_ok_def list_ex_iff list_all_iff split: option.splits)
    moreover have "length (snap_tokens demo_snapshot) = position demo_snapshot" "elements_per_token demo_snapshot = 1"
      by (simp_all add: demo_snapshot_def)
    ultimately show ?thesis using unchanged validate_demo cps r(4)
      by (auto simp: insert_with_logits_def chunk_snapshot_def Let_def split: prod.splits)
  qed
  then show ?thesis by (simp add: demo_stored_def prod_eq_iff)
qed

lemma demo_view:
  assumes id: "identity_ok identity" and logits: "demo_logits_ok logits"
  obtains rs where "resident_view (sys_index (demo_stored identity logits)) identity [7] = Some rs"
    "materialize rs = Inr demo_snapshot" "rs_last_logits rs = logits"
proof -
  have "next_id (sys_index demo_start) < u64_max" "snap_tokens demo_snapshot = [7]"
    by (simp_all add: demo_start_def u64_max_def demo_snapshot_def)
  with insert_stored_entry [OF reachable_inv [OF demo_start_reachable] id _ demo_insert [OF id logits]] that
  show ?thesis by auto
qed

lemma demo_none [simp]: "identity_ok None" "demo_logits_ok None"
  by (simp_all add: identity_ok_def demo_logits_ok_def)

lemma demo_live: "tree_arcs (root (sys_index (demo_stored None None))) @ held_arcs (demo_stored None None) \<noteq> []"
proof -
  let ?r = "sys_index (demo_stored None None)"
  obtain rs where rs: "resident_view ?r None [7] = Some rs" "materialize rs = Inr demo_snapshot"
    using demo_view [OF demo_none] by metis
  have wf: "radix_wf (root ?r)"
    using reachable_inv [OF demo_stored_reachable [OF demo_none(1)]] by (simp add: resident_inv_def)
  obtain x where "radix_get (root ?r) (scoped_key None [7]) = Some x" "entry_snapshot x = rs"
    using rs(1) by (auto simp: resident_view_def)
  then have sub: "set (snapshot_arcs rs) \<subseteq> set (tree_arcs (root ?r))"
    using radix_get_entry [OF wf] by (force simp: tree_arcs_def)
  from materialize_layers [OF rs(2)] obtain p ps where p: "rs_layers rs = p # ps" "materialize_plane p = demo_plane 0"
    by (cases "rs_layers rs") (auto simp: demo_snapshot_def upt_conv_Cons)
  then have "cp_key p \<noteq> []" by (auto simp: materialize_plane_def demo_plane_def concatenate_def)
  with p(1) sub show ?thesis by (auto simp: snapshot_arcs_def plane_arcs_def)
qed

theorem lookup_capped_deepest_witness:
  "\<exists>r' hit. lookup_capped (sys_index (demo_stored None None)) None [7] 5 = (r', Some hit) \<and> cut hit = 1"
proof -
  let ?r = "sys_index (demo_stored None None)"
  obtain r' best where run: "lookup_capped ?r None [7] 5 = (r', best)" by (rule that [OF prod.collapse [symmetric]])
  obtain rs where "resident_view ?r None [7] = Some rs" using demo_view [OF demo_none] by metis
  then have "serves ?r None [7] 5 1" by (simp add: serves_def)
  with lookup_capped_deepest [OF demo_stored_reachable [OF demo_none(1)] demo_none(1) _ run]
  obtain hit where hit: "best = Some hit" "1 \<le> cut hit" "serves ?r None [7] 5 (cut hit)"
    by (cases best) auto
  then have "cut hit = 1" by (simp add: serves_def)
  with run hit(1) show ?thesis by blast
qed


text \<open>Inserting a snapshot under one identity makes no entry of another identity, and no other
  token list of the same identity, visible or different: whatever the index serves afterwards it
  served before, or it is the inserted snapshot with its logits under exactly its own key.\<close>

theorem insert_isolated:
  assumes "reachable resident_start (resident_step sha) S"
    and "identity_ok identity" "identity_ok identity'"
    and "insert_with_logits sha (held_arcs S) (sys_index S) identity s logits = (r', res)"
    and "resident_view r' identity' tokens' = Some rs"
  shows "resident_view (sys_index S) identity' tokens' = Some rs \<or>
    (identity' = identity \<and> tokens' = snap_tokens s \<and> materialize rs = Inr s \<and> rs_last_logits rs = logits)"
  by (rule insert_view_cases [OF reachable_inv [OF assms(1)] assms(2-5)])

theorem insert_isolated_witness:
  "\<exists>rs. resident_view (sys_index (demo_stored None None)) None [7] = Some rs \<and> materialize rs = Inr demo_snapshot"
proof -
  obtain rs where rs: "resident_view (sys_index (demo_stored None None)) None [7] = Some rs"
    using demo_view [OF demo_none] by metis
  have "resident_view (sys_index demo_start) None [7] \<noteq> Some rs"
    by (simp add: resident_view_def demo_start_def)
  with insert_isolated [OF demo_start_reachable demo_none(1) demo_none(1) demo_insert [OF demo_none] rs] rs
  show ?thesis by auto
qed

text \<open>C31: A snapshot whose insertion reports that it was kept is found by the next lookup of its own
  tokens under its identity: the hit is exact, sits at the snapshot's position, materializes to the
  inserted snapshot and carries its logits.\<close>

theorem insert_then_lookup:
  assumes "reachable resident_start (resident_step sha) S" "identity_ok identity"
    and "next_id (sys_index S) < u64_max" "length (snap_tokens s) + 9 < 2 ^ 64"
    and "insert_with_logits sha (held_arcs S) (sys_index S) identity s logits = (r', Inr True)"
  shows "\<exists>r'' hit. resident_lookup r' identity (snap_tokens s) = (r'', Some hit) \<and> exact hit
    \<and> cut hit = position s \<and> materialize (hit_snapshot hit) = Inr s
    \<and> rs_last_logits (hit_snapshot hit) = logits"
proof -
  note inv = reachable_inv [OF assms(1)]
  obtain rs where rs: "resident_view r' identity (snap_tokens s) = Some rs" "materialize rs = Inr s"
    "rs_last_logits rs = logits" "position s = length (snap_tokens s)"
    using insert_stored_entry [OF inv assms(2,3,5)] by blast
  have inv': "resident_inv sha (held_arcs S) r'"
    using insert_keeps_inv [OF inv assms(2), of s logits] assms(5) by simp
  obtain r'' best where run: "lookup_capped r' identity (snap_tokens s) u64_max = (r'', best)"
    by (rule that [OF prod.collapse [symmetric]])
  have "serves r' identity (snap_tokens s) u64_max (length (snap_tokens s))"
    using rs(1) assms(4) by (simp add: serves_def u64_max_def)
  with lookup_spec [OF inv' assms(2,4) run] obtain hit where hit: "best = Some hit"
    "length (snap_tokens s) \<le> cut hit" "serves r' identity (snap_tokens s) u64_max (cut hit)"
    "exact hit = (cut hit = length (snap_tokens s))"
    "resident_view r' identity (take (cut hit) (snap_tokens s)) = Some (hit_snapshot hit)"
    by (auto split: option.splits)
  then have "cut hit = length (snap_tokens s)" by (simp add: serves_def)
  with hit rs run show ?thesis by (simp add: resident_lookup_def)
qed

theorem insert_then_lookup_witness:
  "\<exists>r'' hit. resident_lookup (sys_index (demo_stored None None)) None [7] = (r'', Some hit) \<and> exact hit
   \<and> cut hit = 1 \<and> materialize (hit_snapshot hit) = Inr demo_snapshot"
  using insert_then_lookup [OF demo_start_reachable demo_none(1) _ _ demo_insert [OF demo_none]]
  by (auto simp: demo_start_def u64_max_def demo_snapshot_def)

text \<open>C32: After a successful insertion the bytes the index accounts for, every distinct live chunk
  once and all logits, fit the capacity, or the index is empty (the rest is held by callers). The
  eviction loop always ends.\<close>

theorem insert_within_capacity:
  assumes "reachable resident_start (resident_step sha) S" "identity_ok identity"
    and "capacity_bytes (sys_index S) < u64_max"
    and "insert_with_logits sha (held_arcs S) (sys_index S) identity s logits = (r', Inr kept)"
  shows "footprint (held_arcs S) (root r') \<le> capacity_bytes r' \<or> entry_list (root r') = []"
proof (cases rule: insert_with_logits_cases [of sha "held_arcs S" "sys_index S" identity s logits])
  case (stored pool rs x t pool' n)
  note inv = reachable_inv [OF assms(1)]
  have wf: "radix_wf (root (sys_index S))" and pool: "pool_inv sha (set (tree_arcs (root (sys_index S)) @ held_arcs S)) (chunk_store (sys_index S))"
    using inv by (auto simp: resident_inv_def)
  have "pool_inv sha (set (tree_arcs (insert_recursive (root (sys_index S)) (scoped_key identity (snap_tokens s)) x) @ held_arcs S)) pool"
    by (rule pool_inv_mono [OF chunk_snapshot_inv(2) [OF pool stored(3) refl]])
      (use insert_tree_arcs [OF wf, of "scoped_key identity (snap_tokens s)" x] stored(4) in auto)
  from evict_loop_facts [OF stored(5) radix_wf_insert [OF wf] this] stored(6) assms(3,4)
  show ?thesis by (auto simp: min_def split: if_splits)
qed (use assms(4) in auto)

theorem insert_within_capacity_witness:
  "footprint [] (root (sys_index (demo_stored None None))) \<le> 1000
   \<or> entry_list (root (sys_index (demo_stored None None))) = []"
proof -
  have cap: "capacity_bytes (sys_index demo_start) = 1000" by (simp add: demo_start_def)
  then have "capacity_bytes (sys_index (demo_stored None None)) = 1000" by (simp add: demo_stored_def)
  with insert_within_capacity [OF demo_start_reachable demo_none(1) _ demo_insert [OF demo_none]] cap show ?thesis
    by (simp add: u64_max_def)
qed

text \<open>Eviction is least-recently-used: no entry that survives an insertion was accessed earlier
  than an entry the insertion evicted.\<close>

theorem eviction_is_lru:
  assumes "reachable resident_start (resident_step sha) S" "identity_ok identity"
    and "next_id (sys_index S) < u64_max"
    and "insert_with_logits sha (held_arcs S) (sys_index S) identity s logits = (r', Inr kept)"
    and "(k, x) \<in> set (entry_list (root (sys_index S)))" "k \<noteq> scoped_key identity (snap_tokens s)"
    and "(k, x) \<notin> set (entry_list (root r'))"
    and "(k', x') \<in> set (entry_list (root r'))"
  shows "last_access x \<le> last_access x'"
proof (cases rule: insert_with_logits_cases [of sha "held_arcs S" "sys_index S" identity s logits])
  case (stored pool rs y t pool' n)
  note inv = reachable_inv [OF assms(1)]
  let ?t = "insert_recursive (root (sys_index S)) (scoped_key identity (snap_tokens s)) y"
  have wf: "radix_wf (root (sys_index S))" and ids: "ids_distinct (root (sys_index S))"
    "\<forall>kx\<in>set (entry_list (root (sys_index S))). entry_id (snd kx) < next_id (sys_index S)"
    using inv assms(3) by (auto simp: resident_inv_def)
  have "ids_distinct ?t" by (rule insert_ids_distinct [OF wf ids(1)]) (use ids(2) stored(4) in simp)
  note lru = evict_loop_lru [OF stored(5) this]
  have "radix_get ?t k = Some x"
    using assms(5,6) wf by (simp add: radix_get_insert radix_get_entry)
  then have "(k, x) \<in> set (entry_list ?t)" using radix_wf_insert [OF wf] by (simp add: radix_get_entry)
  moreover have "root r' = t" using stored(6) assms(4) by auto
  ultimately show ?thesis
    using lru [THEN conjunct2, rule_format, of "(k, x)" "(k', x')"] assms(7,8) by simp
qed (use assms(4) in auto)

text \<open>In every reachable state equal chunk contents share one allocation across all stored
  snapshots and all hits still held, whatever the digest function does, and the statistics report
  exactly the number of entries and the bytes of the distinct contents.\<close>

theorem chunks_interned:
  assumes "reachable resident_start (resident_step sha) S"
    and "a \<in> set (tree_arcs (root (sys_index S)) @ held_arcs S)"
    and "b \<in> set (tree_arcs (root (sys_index S)) @ held_arcs S)"
    and "resident_stats_of (held_arcs S) (sys_index S) = (r', st)"
  shows "(fst a = fst b \<longleftrightarrow> snd a = snd b)
    \<and> unique_chunk_bytes st =
        min (\<Sum>c\<in>snd ` set (tree_arcs (root (sys_index S)) @ held_arcs S). length c) u64_max
    \<and> stat_entries st = length (entry_list (root (sys_index S)))"
proof -
  let ?live = "tree_arcs (root (sys_index S)) @ held_arcs S"
  have pool: "pool_inv sha (set ?live) (chunk_store (sys_index S))"
    using reachable_inv [OF assms(1)] by (simp add: resident_inv_def)
  obtain p n where lb: "live_bytes ?live (chunk_store (sys_index S)) = (p, n)"
    by (rule that [OF prod.collapse [symmetric]])
  have st: "unique_chunk_bytes st = n" "stat_entries st = fst (count_nodes (root (sys_index S)))"
    using assms(4) lb by (auto simp: resident_stats_of_def split: prod.splits)
  have "inj_on snd (set ?live)" "inj_on fst (set ?live)"
    using pool by (auto simp: pool_inv_def intro: inj_on_subset)
  with assms(2,3) have "(fst a = fst b) = (a = b)" "(snd a = snd b) = (a = b)" by (simp_all add: inj_on_eq_iff)
  then show ?thesis using st live_bytes_inv(3) [OF pool lb] by (simp add: count_nodes_entries)
qed

theorem chunks_interned_witness:
  "let live = tree_arcs (root (sys_index (demo_stored None None))) @ held_arcs (demo_stored None None) in
   live \<noteq> [] \<and> (fst (hd live) = fst (last live) \<longleftrightarrow> snd (hd live) = snd (last live))"
proof -
  let ?live = "tree_arcs (root (sys_index (demo_stored None None))) @ held_arcs (demo_stored None None)"
  obtain r' st where st: "resident_stats_of (held_arcs (demo_stored None None)) (sys_index (demo_stored None None)) = (r', st)"
    by (rule that [OF prod.collapse [symmetric]])
  have "hd ?live \<in> set ?live" "last ?live \<in> set ?live"
    by (rule hd_in_set [OF demo_live], rule last_in_set [OF demo_live])
  from chunks_interned [OF demo_stored_reachable [OF demo_none(1)] this st] demo_live show ?thesis by (simp add: Let_def)
qed

end
