(* ===== verification/Engine_Session.thy ===== *)
theory Engine_Session
  imports Gguf Muse_Cache
begin

section \<open>Session cache state of the CPU engine\<close>

text \<open>
  The cache state of a session on the reference CPU backend: the per-layer KV caches of
  \<open>crates/muser-engine/src/reference.rs\<close> with \<open>append\<close>, \<open>reset\<close>, \<open>export_cache_snapshot\<close> and
  \<open>install_cache_snapshot\<close>, the \<open>Session\<close> wrappers of \<open>crates/muser-engine/src/api.rs\<close>, and the layer
  pattern of \<open>crates/muser-engine/src/config.rs\<close> read from a GGUF file. Floats are their bit
  patterns. The transformer arithmetic that fills the caches is not modelled.

  Shown here: installing a snapshot is all or nothing and exporting afterwards returns exactly that
  snapshot. The contract other components rely on is the locale \<open>engine_session\<close>.
\<close>

subsection \<open>KV caches\<close>

record kv_cache =
  kc_k :: "u32 list"
  kc_v :: "u32 list"
  kc_len :: nat
  kc_dim :: nat

definition kv_cache_new :: "nat \<Rightarrow> nat \<Rightarrow> nat \<Rightarrow> kv_cache list" where
  "kv_cache_new n_layers max_seq dim =
     map (\<lambda>_. \<lparr>kc_k = replicate (max_seq * dim) 0, kc_v = replicate (max_seq * dim) 0, kc_len = 0,
             kc_dim = dim\<rparr>) [0..<n_layers]"

text \<open>\<open>dest[off..off + src.len()].copy_from_slice(src)\<close>; out of range it panics, here \<open>None\<close>.\<close>

definition copy_into :: "u32 list \<Rightarrow> nat \<Rightarrow> u32 list \<Rightarrow> u32 list option" where
  "copy_into dest off src = (if off + length src \<le> length dest then Some (blit dest off src) else None)"

definition kv_append :: "kv_cache \<Rightarrow> u32 list \<Rightarrow> u32 list \<Rightarrow> nat \<Rightarrow> kv_cache option" where
  "kv_append c k v n_tokens =
     (let off = kc_len c * kc_dim c; n = n_tokens * kc_dim c in
      if n \<le> length k \<and> n \<le> length v
      then (case copy_into (kc_k c) off (take n k) of None \<Rightarrow> None | Some k' \<Rightarrow>
            (case copy_into (kc_v c) off (take n v) of None \<Rightarrow> None | Some v' \<Rightarrow>
             Some (c\<lparr>kc_k := k', kc_v := v', kc_len := kc_len c + n_tokens\<rparr>)))
      else None)"

subsection \<open>The layer pattern\<close>

text \<open>\<open>resolve_layer_kinds\<close>; the closing \<open>panic!\<close> is \<open>None\<close>.\<close>

definition resolve_layer_kinds :: "gguf_file \<Rightarrow> nat \<Rightarrow> muse_layer_kind list option" where
  "resolve_layer_kinds g n =
     (let key = str ''muse-glimmer.attention.sliding_window_pattern'' in
      case meta_u32 g key of
        Some period \<Rightarrow>
          Some (map (\<lambda>il. if period = 0 \<or> (il mod 2 ^ 32) mod unat period < unat period - 1
                          then SlidingRope else FullNoPe) [0..<n])
      | None \<Rightarrow>
          (case meta_bool_array g key of
             Some flags \<Rightarrow>
               if length flags = n
               then Some (map (\<lambda>swa. if swa then SlidingRope else FullNoPe) flags) else None
           | None \<Rightarrow> None))"

subsection \<open>The model's cache\<close>

record muse_cfg =
  n_layers :: nat
  layer_kinds :: "muse_layer_kind list"
  sliding_window :: nat
  kv_dim :: nat
  vocab_size :: nat

record cpu_model =
  cfg :: muse_cfg
  kv :: "kv_cache list"
  n_past :: nat

datatype cache_message =
    ExportHistory
  | LayerEnd nat nat nat
  | SnapshotInvalid snapshot_error
  | GeometryMismatch
  | PlaneInvalid plane_error
  | CopyPanic
  | Message string

definition cpu_reset :: "cpu_model \<Rightarrow> cpu_model" where
  "cpu_reset m = m\<lparr>kv := map (\<lambda>c. c\<lparr>kc_len := 0\<rparr>) (kv m), n_past := 0\<rparr>"

definition slice :: "nat \<Rightarrow> nat \<Rightarrow> 'a list \<Rightarrow> 'a list" where
  "slice a b xs = take (b - a) (drop a xs)"

definition export_plane :: "cpu_model \<Rightarrow> nat \<times> kv_cache \<Rightarrow> cache_message + cache_plane_snapshot" where
  "export_plane m = (\<lambda>(layer, cache).
     if kc_len cache \<noteq> n_past m then Inl (LayerEnd layer (kc_len cache) (n_past m))
     else
       let count = (if is_swa (layer_kinds (cfg m) ! layer) then min (n_past m) (sliding_window (cfg m))
                    else n_past m);
           start = n_past m - count;
           element_start = start * kv_dim (cfg m);
           element_end = n_past m * kv_dim (cfg m)
       in Inr \<lparr>plane_layer = layer, logical_start = start, logical_count = count, plane_enc = F32Le,
               plane_key = f32s_to_le_bytes (slice element_start element_end (kc_k cache)),
               plane_value = f32s_to_le_bytes (slice element_start element_end (kc_v cache))\<rparr>)"

definition cpu_export :: "cpu_model \<Rightarrow> u32 list \<Rightarrow> cache_message + session_cache_snapshot" where
  "cpu_export m tokens =
     (if n_past m = 0 \<or> length tokens \<noteq> n_past m then Inl ExportHistory
      else bind_res (map_res (export_plane m) (List.enumerate 0 (kv m))) (\<lambda>planes.
        let snapshot = \<lparr>position = n_past m, snap_tokens = tokens,
              elements_per_token = kv_dim (cfg m), layers = planes\<rparr>
        in bind_res (map_err SnapshotInvalid (validate_for_window snapshot (sliding_window (cfg m))))
             (\<lambda>_. Inr snapshot)))"

definition install_plane :: "nat \<Rightarrow> nat \<Rightarrow> kv_cache list \<Rightarrow> cache_plane_snapshot
    \<Rightarrow> cache_message + kv_cache list" where
  "install_plane dim pos detached plane =
     bind_res (map_err PlaneInvalid (le_bytes_to_f32s (plane_key plane))) (\<lambda>key.
     bind_res (map_err PlaneInvalid (le_bytes_to_f32s (plane_value plane))) (\<lambda>vals.
       let layer = plane_layer plane; start = logical_start plane * dim in
       if layer < length detached \<and> length vals = length key
       then (case copy_into (kc_k (detached ! layer)) start key of None \<Rightarrow> Inl CopyPanic | Some k' \<Rightarrow>
             (case copy_into (kc_v (detached ! layer)) start vals of None \<Rightarrow> Inl CopyPanic | Some v' \<Rightarrow>
              Inr (detached[layer := (detached ! layer)\<lparr>kc_k := k', kc_v := v', kc_len := pos\<rparr>])))
       else Inl CopyPanic))"

fun fold_res :: "('s \<Rightarrow> 'a \<Rightarrow> 'e + 's) \<Rightarrow> 's \<Rightarrow> 'a list \<Rightarrow> 'e + 's" where
  "fold_res f s [] = Inr s"
| "fold_res f s (x # xs) = bind_res (f s x) (\<lambda>t. fold_res f t xs)"

definition cpu_install :: "cpu_model \<Rightarrow> session_cache_snapshot \<Rightarrow> cpu_model \<times> (cache_message + unit)" where
  "cpu_install m snapshot =
     (let dim = kv_dim (cfg m); max_seq = length (kc_k (kv m ! 0)) div dim in
      case bind_res (map_err SnapshotInvalid (validate_for_window snapshot (sliding_window (cfg m)))) (\<lambda>_.
           if elements_per_token snapshot \<noteq> dim \<or> position snapshot > max_seq
              \<or> snapshot_encoding snapshot \<noteq> Some F32Le
           then Inl GeometryMismatch
           else fold_res (install_plane dim (position snapshot))
                  (kv_cache_new (n_layers (cfg m)) max_seq dim) (layers snapshot)) of
        Inl e \<Rightarrow> (m, Inl e)
      | Inr detached \<Rightarrow> (m\<lparr>kv := detached, n_past := position snapshot\<rparr>, Inr ()))"

subsection \<open>Sessions\<close>

record session =
  backend :: cpu_model
  max_context :: nat
  history :: "u32 list"
  last_logits :: "u32 list option"

datatype engine_error =
    InvalidCacheSnapshot cache_message
  | ContextOverflow nat nat
  | InvalidRestoredLogits nat nat

definition session_reset :: "session \<Rightarrow> session" where
  "session_reset s = s\<lparr>backend := cpu_reset (backend s), history := [], last_logits := None\<rparr>"

definition session_export :: "session \<Rightarrow> engine_error + session_cache_snapshot" where
  "session_export s = map_err InvalidCacheSnapshot (cpu_export (backend s) (history s))"

definition session_install :: "session \<Rightarrow> session_cache_snapshot \<Rightarrow> session \<times> (engine_error + unit)" where
  "session_install s snapshot =
     (case validate snapshot of
        Inl e \<Rightarrow> (s, Inl (InvalidCacheSnapshot (SnapshotInvalid e)))
      | Inr _ \<Rightarrow>
          if position snapshot > max_context s
          then (s, Inl (ContextOverflow (position snapshot) (max_context s)))
          else
            (case cpu_install (backend s) snapshot of
               (m, Inl e) \<Rightarrow> (s\<lparr>backend := m\<rparr>, Inl (InvalidCacheSnapshot e))
             | (m, Inr _) \<Rightarrow>
                 (s\<lparr>backend := m, history := snap_tokens snapshot, last_logits := None\<rparr>, Inr ())))"

definition session_install_logits :: "session \<Rightarrow> u32 list \<Rightarrow> session \<times> (engine_error + unit)" where
  "session_install_logits s logits =
     (let expected = vocab_size (cfg (backend s)) in
      if length logits \<noteq> expected \<or> list_ex (\<lambda>v. \<not> f32_is_finite v) logits
      then (s, Inl (InvalidRestoredLogits (length logits) expected))
      else (s\<lparr>last_logits := Some logits\<rparr>, Inr ()))"

subsection \<open>Session invariant\<close>

definition cache_shaped :: "nat \<Rightarrow> nat \<Rightarrow> kv_cache \<Rightarrow> bool" where
  "cache_shaped max_seq dim c \<longleftrightarrow>
     length (kc_k c) = max_seq * dim \<and> length (kc_v c) = max_seq * dim \<and> kc_dim c = dim"

definition cpu_inv :: "cpu_model \<Rightarrow> bool" where
  "cpu_inv m \<longleftrightarrow>
     n_layers (cfg m) = MUSE_LAYER_COUNT \<and> length (kv m) = MUSE_LAYER_COUNT
     \<and> (\<forall>i<MUSE_LAYER_COUNT. layer_kind i = Inr (layer_kinds (cfg m) ! i))
     \<and> 0 < kv_dim (cfg m)
     \<and> (\<exists>max_seq. \<forall>c\<in>set (kv m). cache_shaped max_seq (kv_dim (cfg m)) c)"

definition session_inv :: "session \<Rightarrow> bool" where
  "session_inv s \<longleftrightarrow> cpu_inv (backend s) \<and> n_past (backend s) = length (history s)"

lemma resolve_pattern_four:
  assumes "meta_u32 g (str ''muse-glimmer.attention.sliding_window_pattern'') = Some 4"
  obtains ks where "resolve_layer_kinds g MUSE_LAYER_COUNT = Some ks"
    "\<And>i. i < MUSE_LAYER_COUNT \<Longrightarrow> layer_kind i = Inr (ks ! i)"
proof -
  let ?ks = "map (\<lambda>il. if il mod 2 ^ 32 mod 4 < 3 then SlidingRope else FullNoPe) [0..<MUSE_LAYER_COUNT]"
  have "resolve_layer_kinds g MUSE_LAYER_COUNT = Some ?ks"
    using assms by (simp add: resolve_layer_kinds_def Let_def)
  moreover have "layer_kind i = Inr (?ks ! i)" if "i < MUSE_LAYER_COUNT" for i
  proof -
    have "i mod 4 = 3 \<longleftrightarrow> \<not> i mod 4 < 3" using mod_less_divisor [of 4 i] by linarith
    then show ?thesis using that by (simp add: layer_kind_def MUSE_LAYER_COUNT_def)
  qed
  ultimately show ?thesis by (rule that)
qed

subsection \<open>Plane bytes\<close>

lemma f32s_of_bytes:
  assumes "length b = 4 * n"
  obtains vs where "le_bytes_to_f32s b = Inr vs" "length vs = n" "f32s_to_le_bytes vs = b"
proof -
  have "\<exists>vs. le_bytes_to_f32s b = Inr vs \<and> length vs = n \<and> f32s_to_le_bytes vs = b"
    using assms
  proof (induction n arbitrary: b)
    case 0
    then show ?case by (simp add: le_bytes_to_f32s_def f32s_to_le_bytes_def is_multiple_of_dvd)
  next
    case (Suc n)
    then have four: "length (take 4 b) = 4" "b \<noteq> []" by auto
    from Suc.prems Suc.IH [of "drop 4 b"] obtain vs where vs: "le_bytes_to_f32s (drop 4 b) = Inr vs"
      "length vs = n" "f32s_to_le_bytes vs = drop 4 b" by auto
    have "le_nat (take 4 b) < 2 ^ 32" using le_nat_lt [of "take 4 b"] four by simp
    then have "unat (word_of_nat (le_nat (take 4 b)) :: u32) = le_nat (take 4 b)" by (simp add: unat_of_nat)
    with le_bytes_le_nat [of "take 4 b"] four
    have "le_bytes 4 (unat (word_of_nat (le_nat (take 4 b)) :: u32)) = take 4 b" by simp
    with vs Suc.prems four show ?case
      by (intro exI [of _ "word_of_nat (le_nat (take 4 b)) # vs"])
        (auto simp: le_bytes_to_f32s_def f32s_to_le_bytes_def is_multiple_of_dvd chunks.simps [of 4 b]
          split: if_splits)
  qed
  with that show ?thesis by blast
qed

definition plane_words :: "bytes \<Rightarrow> u32 list" where
  "plane_words b = map (\<lambda>c. of_nat (le_nat c)) (chunks 4 b)"

lemma plane_words:
  assumes "length b = n * dim * 4"
  shows "le_bytes_to_f32s b = Inr (plane_words b)" "length (plane_words b) = n * dim"
    "f32s_to_le_bytes (plane_words b) = b"
proof -
  obtain vs where vs: "le_bytes_to_f32s b = Inr vs" "length vs = n * dim" "f32s_to_le_bytes vs = b"
    using f32s_of_bytes [of b "n * dim"] assms by auto
  moreover have "plane_words b = vs" using vs(1) by (simp add: le_bytes_to_f32s_def plane_words_def split: if_splits)
  ultimately show "le_bytes_to_f32s b = Inr (plane_words b)" "length (plane_words b) = n * dim"
    "f32s_to_le_bytes (plane_words b) = b" by simp_all
qed

lemma slice_blit:
  "off + length src \<le> length dest \<Longrightarrow> slice off (off + length src) (blit dest off src) = src"
  by (simp add: slice_def blit_def)

subsection \<open>Installing planes\<close>

definition plane_fits :: "nat \<Rightarrow> nat \<Rightarrow> nat \<Rightarrow> cache_plane_snapshot \<Rightarrow> bool" where
  "plane_fits dim pos max_seq p \<longleftrightarrow>
     logical_start p + logical_count p = pos \<and> pos \<le> max_seq
     \<and> length (plane_key p) = logical_count p * dim * 4 \<and> length (plane_value p) = logical_count p * dim * 4"

definition cell :: "nat \<Rightarrow> nat \<Rightarrow> nat \<Rightarrow> cache_plane_snapshot \<Rightarrow> kv_cache" where
  "cell dim pos max_seq p =
     \<lparr>kc_k = blit (replicate (max_seq * dim) 0) (logical_start p * dim) (plane_words (plane_key p)),
      kc_v = blit (replicate (max_seq * dim) 0) (logical_start p * dim) (plane_words (plane_value p)),
      kc_len = pos, kc_dim = dim\<rparr>"

lemma plane_fits_range:
  assumes "plane_fits dim pos max_seq p"
  shows "logical_start p * dim + logical_count p * dim \<le> max_seq * dim"
    "logical_start p * dim + logical_count p * dim = pos * dim"
proof -
  show "logical_start p * dim + logical_count p * dim = pos * dim"
    using assms by (metis add_mult_distrib plane_fits_def)
  then show "logical_start p * dim + logical_count p * dim \<le> max_seq * dim"
    using assms by (simp add: plane_fits_def)
qed

lemma install_plane_cell:
  assumes "plane_fits dim pos max_seq p" "plane_layer p = length pre"
  shows "install_plane dim pos (pre @ \<lparr>kc_k = replicate (max_seq * dim) 0, kc_v = replicate (max_seq * dim) 0,
      kc_len = 0, kc_dim = dim\<rparr> # post) p = Inr (pre @ cell dim pos max_seq p # post)"
proof -
  have len: "length (plane_key p) = logical_count p * dim * 4" "length (plane_value p) = logical_count p * dim * 4"
    using assms(1) by (simp_all add: plane_fits_def)
  note k = plane_words [OF len(1)] and v = plane_words [OF len(2)]
  show ?thesis
    unfolding install_plane_def k(1) v(1)
    using plane_fits_range(1) [OF assms(1)] assms(2) k(2) v(2)
    by (simp add: map_err_def Let_def copy_into_def cell_def)
qed

lemma fold_install_cells:
  assumes "\<And>j. j < length ps \<Longrightarrow> plane_fits dim pos max_seq (ps ! j) \<and> plane_layer (ps ! j) = length pre + j"
  shows "fold_res (install_plane dim pos) (pre @ kv_cache_new (length ps) max_seq dim) ps
    = Inr (pre @ map (cell dim pos max_seq) ps)"
  using assms
proof (induction ps arbitrary: pre)
  case (Cons p ps)
  let ?z = "\<lparr>kc_k = replicate (max_seq * dim) 0, kc_v = replicate (max_seq * dim) 0, kc_len = 0, kc_dim = dim\<rparr>"
  have z: "kv_cache_new (length (p # ps)) max_seq dim = ?z # kv_cache_new (length ps) max_seq dim"
    by (simp add: kv_cache_new_def map_replicate_const)
  from Cons.prems [of 0] have p: "plane_fits dim pos max_seq p" "plane_layer p = length pre" by simp_all
  have "fold_res (install_plane dim pos) ((pre @ [cell dim pos max_seq p]) @ kv_cache_new (length ps) max_seq dim) ps
      = Inr ((pre @ [cell dim pos max_seq p]) @ map (cell dim pos max_seq) ps)"
  proof (rule Cons.IH)
    fix j assume "j < length ps"
    with Cons.prems [of "Suc j"]
    show "plane_fits dim pos max_seq (ps ! j) \<and> plane_layer (ps ! j) = length (pre @ [cell dim pos max_seq p]) + j"
      by simp
  qed
  with install_plane_cell [OF p] show ?case unfolding z by simp
qed (simp add: kv_cache_new_def)

lemma snapshot_encoding_F32:
  "snapshot_encoding s = Some F32Le \<Longrightarrow> p \<in> set (layers s) \<Longrightarrow> plane_enc p = F32Le"
  by (auto simp: snapshot_encoding_def list_all_iff split: list.splits if_splits)

lemma cpu_max_seq:
  assumes "cpu_inv m"
  obtains max_seq where "length (kc_k (kv m ! 0)) div kv_dim (cfg m) = max_seq"
    "\<And>c. c \<in> set (kv m) \<Longrightarrow> cache_shaped max_seq (kv_dim (cfg m)) c"
proof -
  from assms obtain ms where ms: "\<forall>c\<in>set (kv m). cache_shaped ms (kv_dim (cfg m)) c" "0 < kv_dim (cfg m)"
    "length (kv m) = 52" by (auto simp: cpu_inv_def MUSE_LAYER_COUNT_def)
  then have "kv m ! 0 \<in> set (kv m)" by (intro nth_mem) simp
  with ms have "length (kc_k (kv m ! 0)) = ms * kv_dim (cfg m)" by (auto simp: cache_shaped_def)
  with ms that [of ms] show ?thesis by simp
qed

text \<open>What a valid F32 snapshot of the model's row width guarantees for each of its planes.\<close>

lemma valid_planes_fit:
  assumes "validate_for_window s window = Inr ()" "elements_per_token s = dim"
    "snapshot_encoding s = Some F32Le" "position s \<le> max_seq" "j < length (layers s)"
  shows "plane_fits dim (position s) max_seq (layers s ! j)" "plane_layer (layers s ! j) = j"
    "plane_enc (layers s ! j) = F32Le"
    "logical_count (layers s ! j) = (if j mod 4 = 3 then position s else min (position s) window)"
    "length (layers s) = MUSE_LAYER_COUNT"
proof -
  show len: "length (layers s) = MUSE_LAYER_COUNT" using assms(1) by (simp add: validate_for_window_iff)
  with assms(1,5) have shape: "plane_shape s window j (layers s ! j)" by (auto simp: validate_for_window_iff)
  show enc: "plane_enc (layers s ! j) = F32Le"
    using snapshot_encoding_F32 [OF assms(3)] assms(5) by simp
  show "plane_fits dim (position s) max_seq (layers s ! j)" "plane_layer (layers s ! j) = j"
    "logical_count (layers s ! j) = (if j mod 4 = 3 then position s else min (position s) window)"
    using shape assms(2,4) enc unfolding plane_shape_def Let_def plane_fits_def by auto
qed

lemma cpu_install_ok:
  assumes inv: "cpu_inv m" and run: "cpu_install m s = (m', Inr u)"
  obtains max_seq where "m' = m\<lparr>kv := map (cell (kv_dim (cfg m)) (position s) max_seq) (layers s), n_past := position s\<rparr>"
    "validate_for_window s (sliding_window (cfg m)) = Inr ()" "elements_per_token s = kv_dim (cfg m)"
    "snapshot_encoding s = Some F32Le" "position s \<le> max_seq"
proof -
  obtain ms where ms: "length (kc_k (kv m ! 0)) div kv_dim (cfg m) = ms" using cpu_max_seq [OF inv] by metis
  let ?f = "fold_res (install_plane (kv_dim (cfg m)) (position s)) (kv_cache_new (n_layers (cfg m)) ms (kv_dim (cfg m))) (layers s)"
  from run have valid: "validate_for_window s (sliding_window (cfg m)) = Inr ()"
    and geo: "elements_per_token s = kv_dim (cfg m)" "position s \<le> ms" "snapshot_encoding s = Some F32Le"
    and m': "\<exists>d. ?f = Inr d \<and> m' = m\<lparr>kv := d, n_past := position s\<rparr>"
    unfolding cpu_install_def Let_def ms
    by (auto simp: bind_res_Inr_iff map_err_def split: sum.splits if_splits)
  have "n_layers (cfg m) = length (layers s)" using inv valid by (simp add: cpu_inv_def validate_for_window_iff)
  then have "?f = Inr (map (cell (kv_dim (cfg m)) (position s) ms) (layers s))"
    using fold_install_cells [of "layers s" "kv_dim (cfg m)" "position s" ms "[]"]
      valid_planes_fit [OF valid geo(1,3,2)] by simp
  with m' valid geo that [of ms] show ?thesis by auto
qed

lemma export_cell:
  assumes kinds: "layer_kind i = Inr (layer_kinds (cfg m) ! i)" "i < MUSE_LAYER_COUNT"
    and p: "plane_fits (kv_dim (cfg m)) (n_past m) max_seq p" "plane_layer p = i" "plane_enc p = F32Le"
      "logical_count p = (if i mod 4 = 3 then n_past m else min (n_past m) (sliding_window (cfg m)))"
  shows "export_plane m (i, cell (kv_dim (cfg m)) (n_past m) max_seq p) = Inr p"
proof -
  let ?dim = "kv_dim (cfg m)"
  have swa: "is_swa (layer_kinds (cfg m) ! i) \<longleftrightarrow> i mod 4 \<noteq> 3"
    using kinds by (auto simp: layer_kind_def split: if_splits)
  have start: "n_past m - logical_count p = logical_start p" using p(1) by (auto simp: plane_fits_def)
  have len: "length (plane_key p) = logical_count p * ?dim * 4" "length (plane_value p) = logical_count p * ?dim * 4"
    using p(1) by (simp_all add: plane_fits_def)
  note k = plane_words [OF len(1)] and v = plane_words [OF len(2)] and fit = plane_fits_range [OF p(1)]
  have "slice (logical_start p * ?dim) (n_past m * ?dim) (kc_k (cell ?dim (n_past m) max_seq p)) = plane_words (plane_key p)"
    "slice (logical_start p * ?dim) (n_past m * ?dim) (kc_v (cell ?dim (n_past m) max_seq p)) = plane_words (plane_value p)"
    using slice_blit [of "logical_start p * ?dim" "plane_words (plane_key p)" "replicate (max_seq * ?dim) 0"]
      slice_blit [of "logical_start p * ?dim" "plane_words (plane_value p)" "replicate (max_seq * ?dim) 0"]
      fit k(2) v(2) by (simp_all add: cell_def)
  moreover have "(if is_swa (layer_kinds (cfg m) ! i) then min (n_past m) (sliding_window (cfg m)) else n_past m)
      = logical_count p" using swa p(4) by simp
  ultimately show ?thesis
    using start k(3) v(3) p(2,3) by (cases p) (simp add: export_plane_def Let_def cell_def)
qed

lemma cpu_install_export:
  assumes inv: "cpu_inv m" and run: "cpu_install m s = (m', Inr u)"
  shows "cpu_export m' (snap_tokens s) = Inr s" "cpu_inv m'" "n_past m' = position s"
    "position s = length (snap_tokens s)" "0 < position s"
proof -
  obtain ms where m': "m' = m\<lparr>kv := map (cell (kv_dim (cfg m)) (position s) ms) (layers s), n_past := position s\<rparr>"
    and valid: "validate_for_window s (sliding_window (cfg m)) = Inr ()"
    and geo: "elements_per_token s = kv_dim (cfg m)" "snapshot_encoding s = Some F32Le" "position s \<le> ms"
    using cpu_install_ok [OF inv run] by metis
  note fit = valid_planes_fit [OF valid geo]
  have cfg: "cfg m' = cfg m" "n_past m' = position s" "kv m' = map (cell (kv_dim (cfg m)) (position s) ms) (layers s)"
    using m' by simp_all
  have "map_res (export_plane m') (List.enumerate 0 (kv m')) = Inr (layers s)"
  proof (rule map_res_nth)
    show "length (layers s) = length (List.enumerate 0 (kv m'))" by (simp add: cfg)
    fix i assume "i < length (List.enumerate 0 (kv m'))"
    then have i: "i < length (layers s)" "i < MUSE_LAYER_COUNT" using fit(5) [of i] by (simp_all add: cfg)
    have "export_plane m' (i, cell (kv_dim (cfg m')) (n_past m') ms (layers s ! i)) = Inr (layers s ! i)"
      by (rule export_cell) (use inv i fit [OF i(1)] cfg in \<open>auto simp: cpu_inv_def\<close>)
    with i show "export_plane m' (List.enumerate 0 (kv m') ! i) = Inr (layers s ! i)"
      by (simp add: cfg nth_enumerate_eq)
  qed
  moreover from valid show pos: "position s = length (snap_tokens s)" "0 < position s"
    by (simp_all add: validate_for_window_iff)
  ultimately show "cpu_export m' (snap_tokens s) = Inr s"
    using valid geo(1) by (cases s) (simp add: cpu_export_def cfg Let_def map_err_def)
  show "n_past m' = position s" by (rule cfg)
  have "cache_shaped ms (kv_dim (cfg m)) (cell (kv_dim (cfg m)) (position s) ms p)" if "p \<in> set (layers s)" for p
  proof -
    from that obtain j where j: "j < length (layers s)" "p = layers s ! j" by (auto simp: in_set_conv_nth)
    note f = fit(1) [OF j(1), folded j(2)]
    then have len: "length (plane_key p) = logical_count p * kv_dim (cfg m) * 4"
      "length (plane_value p) = logical_count p * kv_dim (cfg m) * 4" by (simp_all add: plane_fits_def)
    show ?thesis using plane_words(2) [OF len(1)] plane_words(2) [OF len(2)] plane_fits_range(1) [OF f]
      by (simp add: cache_shaped_def cell_def length_blit)
  qed
  then show "cpu_inv m'"
    using inv valid unfolding cpu_inv_def cfg by (auto simp: validate_for_window_iff)
qed

subsection \<open>The session contract\<close>

record 's session_api =
  token_history :: "'s \<Rightarrow> u32 list"
  session_position :: "'s \<Rightarrow> nat"
  cached_logits :: "'s \<Rightarrow> u32 list option"
  export_cache_snapshot :: "'s \<Rightarrow> engine_error + session_cache_snapshot"
  install_cache_snapshot :: "'s \<Rightarrow> session_cache_snapshot \<Rightarrow> 's \<times> (engine_error + unit)"
  install_restored_logits :: "'s \<Rightarrow> u32 list \<Rightarrow> 's \<times> (engine_error + unit)"
  reset_session :: "'s \<Rightarrow> 's"

definition cpu_api :: "session session_api" where
  "cpu_api = \<lparr>token_history = history, session_position = \<lambda>s. n_past (backend s),
     cached_logits = last_logits, export_cache_snapshot = session_export,
     install_cache_snapshot = session_install, install_restored_logits = session_install_logits,
     reset_session = session_reset\<rparr>"

text \<open>What a caller sees of a session: its position, tokens, exportable cache and logits.\<close>

definition observe :: "'s session_api \<Rightarrow> 's
    \<Rightarrow> nat \<times> u32 list \<times> session_cache_snapshot option \<times> u32 list option" where
  "observe api s = (session_position api s, token_history api s,
     (case export_cache_snapshot api s of Inr snap \<Rightarrow> Some snap | Inl _ \<Rightarrow> None), cached_logits api s)"

locale engine_session =
  fixes api :: "'s session_api" and inv :: "'s \<Rightarrow> bool"
  assumes install_fail: "install_cache_snapshot api s snap = (s', Inl e) \<Longrightarrow> s' = s"
    and install_ok: "inv s \<Longrightarrow> install_cache_snapshot api s snap = (s', Inr u) \<Longrightarrow>
      inv s' \<and> observe api s' = (position snap, snap_tokens snap, Some snap, None)"
    and logits_fail: "install_restored_logits api s logits = (s', Inl e) \<Longrightarrow> s' = s"
    and logits_ok: "inv s \<Longrightarrow> install_restored_logits api s logits = (s', Inr u) \<Longrightarrow>
      inv s' \<and> observe api s' = (session_position api s, token_history api s,
        fst (snd (snd (observe api s))), Some logits)"
    and export_ok: "inv s \<Longrightarrow> export_cache_snapshot api s = Inr snap \<Longrightarrow>
      position snap = session_position api s \<and> snap_tokens snap = token_history api s"
    and reset_ok: "inv s \<Longrightarrow> inv (reset_session api s) \<and> observe api (reset_session api s) = (0, [], None, None)"
    and fresh: "inv s \<Longrightarrow> session_position api s = 0 \<Longrightarrow> observe api s = (0, [], None, cached_logits api s)"

lemma session_install_ok:
  assumes "session_inv s" "session_install s snap = (s', Inr u)"
  shows "session_inv s'" "session_export s' = Inr snap" "history s' = snap_tokens snap"
    "n_past (backend s') = position snap" "last_logits s' = None"
proof -
  obtain m where m: "cpu_install (backend s) snap = (m, Inr ())"
    "s' = s\<lparr>backend := m, history := snap_tokens snap, last_logits := None\<rparr>"
    using assms(2) by (auto simp: session_install_def split: sum.splits if_splits prod.splits)
  note ci = cpu_install_export [OF _ m(1)]
  have inv: "cpu_inv (backend s)" using assms(1) by (simp add: session_inv_def)
  show "session_inv s'" "session_export s' = Inr snap" "history s' = snap_tokens snap"
    "n_past (backend s') = position snap" "last_logits s' = None"
    using ci [OF inv] m(2) by (simp_all add: session_inv_def session_export_def map_err_def)
qed

lemma cpu_install_fail: "cpu_install m snap = (m', Inl e) \<Longrightarrow> m' = m"
  by (auto simp: cpu_install_def Let_def split: sum.splits)

lemma cpu_inv_reset: "cpu_inv m \<Longrightarrow> cpu_inv (cpu_reset m)"
  by (fastforce simp: cpu_inv_def cpu_reset_def cache_shaped_def)

lemma cpu_export_fields: "cpu_export m ts = Inr snap \<Longrightarrow> position snap = n_past m \<and> snap_tokens snap = ts"
  by (auto simp: cpu_export_def Let_def bind_res_Inr_iff split: if_splits)

interpretation cpu: engine_session cpu_api session_inv
proof
  fix s snap s' e logits and u :: unit
  show "s' = s" if "install_cache_snapshot cpu_api s snap = (s', Inl e)"
    using that cpu_install_fail
    by (fastforce simp: cpu_api_def session_install_def split: sum.splits if_splits prod.splits)
  show "session_inv s' \<and> observe cpu_api s' = (position snap, snap_tokens snap, Some snap, None)"
    if "session_inv s" "install_cache_snapshot cpu_api s snap = (s', Inr u)"
    using session_install_ok [OF that(1), of snap s' u] that(2) by (simp add: cpu_api_def observe_def)
  show "s' = s" if "install_restored_logits cpu_api s logits = (s', Inl e)"
    using that by (auto simp: cpu_api_def session_install_logits_def Let_def split: if_splits)
  show "session_inv s' \<and> observe cpu_api s' = (session_position cpu_api s, token_history cpu_api s,
      fst (snd (snd (observe cpu_api s))), Some logits)"
    if "session_inv s" "install_restored_logits cpu_api s logits = (s', Inr u)"
    using that
    by (auto simp: cpu_api_def session_install_logits_def Let_def observe_def session_inv_def session_export_def
        split: if_splits)
  show "position snap = session_position cpu_api s \<and> snap_tokens snap = token_history cpu_api s"
    if "session_inv s" "export_cache_snapshot cpu_api s = Inr snap"
    using that cpu_export_fields
    by (auto simp: cpu_api_def session_export_def map_err_def split: sum.splits)
  show "session_inv (reset_session cpu_api s)
      \<and> observe cpu_api (reset_session cpu_api s) = (0, [], None, None)" if "session_inv s"
    using that cpu_inv_reset [of "backend s"]
    by (simp add: cpu_api_def session_inv_def session_reset_def observe_def session_export_def cpu_export_def
        cpu_reset_def map_err_def)
  show "observe cpu_api s = (0, [], None, cached_logits cpu_api s)"
    if "session_inv s" "session_position cpu_api s = 0"
    using that by (simp add: cpu_api_def session_inv_def observe_def session_export_def cpu_export_def map_err_def)
qed

subsection \<open>Properties\<close>

text \<open>C39: On the CPU engine installing a snapshot is all or nothing: a failed install leaves the
  session exactly as it was, and after a successful one exporting the session returns exactly the
  installed snapshot, the token history is the snapshot's, and no stale logits survive.\<close>

theorem session_install_export:
  assumes "session_inv s"
  shows "case session_install s snap of
      (s', Inl e) \<Rightarrow> s' = s
    | (s', Inr _) \<Rightarrow> session_inv s' \<and> session_export s' = Inr snap \<and> history s' = snap_tokens snap
        \<and> last_logits s' = None"
proof (cases "session_install s snap")
  case (Pair s' out)
  show ?thesis
  proof (cases out)
    case (Inl e)
    with Pair cpu.install_fail [of s snap s' e] show ?thesis by (simp add: cpu_api_def)
  next
    case (Inr u)
    with Pair session_install_ok [OF assms, of snap s' u] show ?thesis by simp
  qed
qed

definition demo_model :: cpu_model where
  "demo_model = \<lparr>cfg = \<lparr>n_layers = 52, layer_kinds = map (\<lambda>i. if i mod 4 = 3 then FullNoPe else SlidingRope) [0..<52],
     sliding_window = 2048, kv_dim = 1, vocab_size = 2\<rparr>, kv = kv_cache_new 52 4 1, n_past = 0\<rparr>"

definition demo_session :: session where
  "demo_session = \<lparr>backend = demo_model, max_context = 4, history = [], last_logits = None\<rparr>"

lemma demo_session_inv: "session_inv demo_session"
proof -
  have "layer_kind i = Inr (map (\<lambda>i. if i mod 4 = 3 then FullNoPe else SlidingRope) [0..<52] ! i)" if "i < 52" for i
    using that by (simp add: layer_kind_def MUSE_LAYER_COUNT_def)
  moreover have "\<forall>c\<in>set (kv_cache_new 52 4 1). cache_shaped 4 1 c"
    by (auto simp: kv_cache_new_def cache_shaped_def)
  ultimately show ?thesis
    by (auto simp: session_inv_def demo_session_def demo_model_def cpu_inv_def MUSE_LAYER_COUNT_def kv_cache_new_def)
qed

definition demo_f32_snapshot :: session_cache_snapshot where
  "demo_f32_snapshot = \<lparr>position = 1, snap_tokens = [7], elements_per_token = 1,
     layers = map (\<lambda>i. \<lparr>plane_layer = i, logical_start = 0, logical_count = 1, plane_enc = F32Le,
       plane_key = [1, 2, 3, 4], plane_value = [5, 6, 7, 8]\<rparr>) [0..<52]\<rparr>"

theorem session_install_export_witness:
  "case session_install demo_session demo_f32_snapshot of
     (s', Inl e) \<Rightarrow> s' = demo_session
   | (s', Inr _) \<Rightarrow> session_export s' = Inr demo_f32_snapshot"
  using session_install_export [OF demo_session_inv, of demo_f32_snapshot]
  by (auto split: prod.splits sum.splits)

end
