(* ===== verification/Prefix_Reuse.thy ===== *)
theory Prefix_Reuse
  imports Resident Engine_Session
begin

section \<open>The prefix reuse ladder\<close>

text \<open>
  \<open>crates/muser-kvpack/src/reuse.rs\<close>: for a prompt, the ladder serves from the current session,
  the resident index, the durable store or a remote store, in that order, and
  \<open>crates/muser-kvpack/src/session.rs\<close> installs an exact generation atomically.

  The engine session is the interface \<open>session_api\<close> of \<open>Engine_Session\<close>, over any session type
  \<open>'s\<close>. The catalogue and artifact calls into the external \<open>kvpack\<close> store and the remote fetch are
  parameters: fields of \<open>durable_api\<close> and \<open>remote_api\<close>. A call that takes the session mutably returns
  it, so what a failed call leaves behind is visible. The cancellation flag is read where the source
  reads it. The two \<open>expect\<close> calls of the source are the error \<open>Panicked\<close>.

  Shown here: a configured durable store caps what the resident index may serve, a failing durable
  catalogue fails closed, the \<open>expect\<close> calls never fail, a served prefix is a prefix of the prompt,
  and installing an exact generation is all or nothing.
\<close>

subsection \<open>Collaborators\<close>

datatype session_cache_error =
  StoreFault string | EngineFailed engine_error | Rollback engine_error engine_error

record durable_hit =
  durable_cut :: nat
  manifest_id :: bytes

record 's durable_api =
  identity_digest :: bytes
  find_deepest :: "u32 list \<Rightarrow> session_cache_error + durable_hit option"
  install_artifact :: "'s \<Rightarrow> u32 list \<Rightarrow> bytes \<Rightarrow> bool \<Rightarrow> 's \<times> (session_cache_error + unit)"
  durable_save :: "'s \<Rightarrow> bytes \<Rightarrow> nat \<Rightarrow> session_cache_error + unit"

definition restore_manifest :: "'s durable_api \<Rightarrow> 's \<Rightarrow> u32 list \<Rightarrow> durable_hit \<Rightarrow> bool
    \<Rightarrow> 's \<times> (session_cache_error + unit)" where
  "restore_manifest d s tokens hit cancelled =
     (if durable_cut hit = 0 \<or> durable_cut hit > length tokens
      then (s, Inl (StoreFault ''durable prefix result is outside the request''))
      else install_artifact d s (take (durable_cut hit) tokens) (manifest_id hit) cancelled)"

record 's remote_api =
  fetch_deepest :: "u32 list \<Rightarrow> bool \<Rightarrow> string + durable_hit option"
  staging :: "'s durable_api"

datatype remote_error = FetchFailed string | Cancelled | StagingFailed session_cache_error

definition restore_deepest :: "'s remote_api \<Rightarrow> 's \<Rightarrow> u32 list \<Rightarrow> bool
    \<Rightarrow> 's \<times> (remote_error + durable_hit option)" where
  "restore_deepest m s tokens cancelled =
     (case fetch_deepest m tokens cancelled of
        Inl e \<Rightarrow> (s, Inl (FetchFailed e))
      | Inr None \<Rightarrow> (s, Inr None)
      | Inr (Some receipt) \<Rightarrow>
          if cancelled then (s, Inl Cancelled)
          else apsnd (\<lambda>out. bind_res (map_err StagingFailed out) (\<lambda>_. Inr (Some receipt)))
                 (restore_manifest (staging m) s tokens receipt cancelled))"

datatype prefix_reuse_error =
    ResidentFailed resident_error
  | DurableFailed session_cache_error
  | RemoteFailed remote_error
  | EngineError engine_error
  | Panicked string

subsection \<open>Installing an exact generation\<close>

record session_checkpoint =
  checkpoint_snapshot :: "session_cache_snapshot option"
  checkpoint_logits :: "u32 list option"

definition capture :: "'s session_api \<Rightarrow> 's \<Rightarrow> engine_error + session_checkpoint" where
  "capture api s =
     bind_res (if session_position api s = 0 then Inr None
               else bind_res (export_cache_snapshot api s) (\<lambda>snap. Inr (Some snap)))
       (\<lambda>snap. Inr \<lparr>checkpoint_snapshot = snap, checkpoint_logits = cached_logits api s\<rparr>)"

definition restore :: "'s session_api \<Rightarrow> session_checkpoint \<Rightarrow> 's \<Rightarrow> 's \<times> (engine_error + unit)" where
  "restore api cp s =
     (case (case checkpoint_snapshot cp of
              Some snap \<Rightarrow> install_cache_snapshot api s snap
            | None \<Rightarrow> (reset_session api s, Inr ())) of
        (s1, Inl e) \<Rightarrow> (s1, Inl e)
      | (s1, Inr _) \<Rightarrow>
          (case checkpoint_logits cp of
             Some logits \<Rightarrow> install_restored_logits api s1 logits
           | None \<Rightarrow> (s1, Inr ())))"

definition install_exact_generation :: "'s session_api \<Rightarrow> 's \<Rightarrow> session_cache_snapshot \<Rightarrow> u32 list
    \<Rightarrow> 's \<times> (session_cache_error + unit)" where
  "install_exact_generation api s snap logits =
     (case capture api s of
        Inl e \<Rightarrow> (s, Inl (EngineFailed e))
      | Inr checkpoint \<Rightarrow>
          (case install_cache_snapshot api s snap of
             (s1, Inl e) \<Rightarrow> (s1, Inl (EngineFailed e))
           | (s1, Inr _) \<Rightarrow>
               (case install_restored_logits api s1 logits of
                  (s2, Inr _) \<Rightarrow> (s2, Inr ())
                | (s2, Inl install_error) \<Rightarrow>
                    (case restore api checkpoint s2 of
                       (s3, Inl rollback) \<Rightarrow> (s3, Inl (Rollback install_error rollback))
                     | (s3, Inr _) \<Rightarrow> (s3, Inl (EngineFailed install_error))))))"

subsection \<open>The ladder\<close>

datatype cache_source = CurrentSession | FromResident | FromDurable | FromRemote | Miss

record prefix_reuse_result =
  source :: cache_source
  matched_tokens :: nat

datatype remote_reuse_action = ServeLocal | ArmDelta | FullTransfer

record remote_reuse_offer =
  offer_action :: remote_reuse_action
  offer_source :: cache_source
  offer_matched :: nat

definition remote_action :: "nat \<Rightarrow> nat \<Rightarrow> nat \<Rightarrow> remote_reuse_action" where
  "remote_action matched prompt cut_align =
     (if prompt < 2 then FullTransfer
      else if matched \<ge> prompt - 1 then ServeLocal
      else if matched > 0 \<and> cut_align > 0 \<and> is_multiple_of matched cut_align then ArmDelta
      else FullTransfer)"

datatype reuse_plan =
  PlanCurrent nat | PlanResident resident_hit | PlanDurable durable_hit | PlanRemoteOrMiss

record 's prefix_reuse =
  resident :: resident_radix
  durable :: "'s durable_api option"
  remote :: "'s remote_api option"

definition prefix_reuse_new :: "nat \<Rightarrow> resident_error + 's prefix_reuse" where
  "prefix_reuse_new capacity =
     bind_res (resident_new capacity) (\<lambda>r. Inr \<lparr>resident = r, durable = None, remote = None\<rparr>)"

definition set_durable :: "'s durable_api \<Rightarrow> 's prefix_reuse \<Rightarrow> 's prefix_reuse" where
  "set_durable d p = p\<lparr>durable := Some d\<rparr>"

definition set_remote :: "'s remote_api \<Rightarrow> 's prefix_reuse \<Rightarrow> 's prefix_reuse" where
  "set_remote m p = p\<lparr>remote := Some m\<rparr>"

definition has_remote :: "'s prefix_reuse \<Rightarrow> bool" where "has_remote p \<longleftrightarrow> remote p \<noteq> None"
definition has_durable :: "'s prefix_reuse \<Rightarrow> bool" where "has_durable p \<longleftrightarrow> durable p \<noteq> None"

definition resident_identity :: "'s prefix_reuse \<Rightarrow> bytes option" where
  "resident_identity p = map_option identity_digest (durable p)"

definition plan :: "'s prefix_reuse \<Rightarrow> u32 list \<Rightarrow> u32 list
    \<Rightarrow> 's prefix_reuse \<times> (prefix_reuse_error + reuse_plan)" where
  "plan p current tokens =
     (if current \<noteq> [] \<and> length current \<le> length tokens \<and> take (length current) tokens = current
      then (p, Inr (PlanCurrent (length current)))
      else
        (case (case durable p of Some d \<Rightarrow> find_deepest d tokens | None \<Rightarrow> Inr None) of
           Inl e \<Rightarrow> (p, Inl (DurableFailed e))
         | Inr authenticated \<Rightarrow>
             let cap = map_option (\<lambda>_. case authenticated of None \<Rightarrow> 0 | Some h \<Rightarrow> durable_cut h) (durable p);
                 (r, hit) = (case cap of
                     Some c \<Rightarrow> lookup_capped (resident p) (resident_identity p) tokens c
                   | None \<Rightarrow> resident_lookup (resident p) (resident_identity p) tokens);
                 rest = (case authenticated of Some h \<Rightarrow> PlanDurable h | None \<Rightarrow> PlanRemoteOrMiss)
             in (p\<lparr>resident := r\<rparr>,
                 Inr (case hit of
                        Some h \<Rightarrow> if \<not> exact h \<or> rs_last_logits (hit_snapshot h) \<noteq> None
                                  then PlanResident h else rest
                      | None \<Rightarrow> rest))))"

definition install_resident_hit :: "'s session_api \<Rightarrow> 's \<Rightarrow> resident_hit
    \<Rightarrow> 's \<times> (prefix_reuse_error + unit)" where
  "install_resident_hit api s hit =
     (case materialize (hit_snapshot hit) of
        Inl e \<Rightarrow> (s, Inl (ResidentFailed e))
      | Inr snapshot \<Rightarrow>
          if exact hit
          then (case rs_last_logits (hit_snapshot hit) of
                  None \<Rightarrow> (s, Inl (Panicked ''exact hit checked in plan''))
                | Some logits \<Rightarrow>
                    apsnd (map_err DurableFailed) (install_exact_generation api s snapshot logits))
          else apsnd (map_err EngineError) (install_cache_snapshot api s snapshot))"

definition install_durable_hit :: "'s session_api \<Rightarrow> 's prefix_reuse \<Rightarrow> 's \<Rightarrow> u32 list \<Rightarrow> durable_hit
    \<Rightarrow> 's \<times> (prefix_reuse_error + unit)" where
  "install_durable_hit api p s tokens hit =
     (case durable p of
        None \<Rightarrow> (s, Inl (Panicked ''durable plan has a tier''))
      | Some d \<Rightarrow>
          (case restore_manifest d s tokens hit False of
             (s1, Inl e) \<Rightarrow> (s1, Inl (DurableFailed e))
           | (s1, Inr _) \<Rightarrow>
               if durable_cut hit = length tokens \<and> cached_logits api s1 = None
               then (s1, Inl (EngineError (InvalidCacheSnapshot (Message ''durable exact hit omitted final logits''))))
               else (s1, Inr ())))"

definition install_remote :: "'s session_api \<Rightarrow> 's prefix_reuse \<Rightarrow> 's \<Rightarrow> u32 list \<Rightarrow> bool
    \<Rightarrow> 's \<times> (prefix_reuse_error + nat option)" where
  "install_remote api p s tokens cancelled =
     (case remote p of
        None \<Rightarrow> (s, Inr None)
      | Some m \<Rightarrow>
          (case restore_deepest m s tokens cancelled of
             (s1, Inl e) \<Rightarrow> (s1, Inl (RemoteFailed e))
           | (s1, Inr None) \<Rightarrow> (s1, Inr None)
           | (s1, Inr (Some hit)) \<Rightarrow>
               if durable_cut hit = length tokens \<and> cached_logits api s1 = None
               then (s1, Inl (EngineError (InvalidCacheSnapshot (Message ''remote exact hit omitted final logits''))))
               else (s1, Inr (Some (durable_cut hit)))))"

definition prepare_with_cancellation :: "'s session_api \<Rightarrow> 's prefix_reuse \<Rightarrow> 's \<Rightarrow> u32 list \<Rightarrow> bool
    \<Rightarrow> 's prefix_reuse \<times> 's \<times> (prefix_reuse_error + prefix_reuse_result)" where
  "prepare_with_cancellation api p s tokens cancelled =
     (case plan p (token_history api s) tokens of
        (p', Inl e) \<Rightarrow> (p', s, Inl e)
      | (p', Inr (PlanCurrent matched)) \<Rightarrow>
          (p', s, Inr \<lparr>source = CurrentSession, matched_tokens = matched\<rparr>)
      | (p', Inr (PlanResident hit)) \<Rightarrow>
          let (s', out) = install_resident_hit api s hit in
          (p', s', bind_res out (\<lambda>_. Inr \<lparr>source = FromResident, matched_tokens = cut hit\<rparr>))
      | (p', Inr (PlanDurable hit)) \<Rightarrow>
          let (s', out) = install_durable_hit api p' s tokens hit in
          (p', s', bind_res out (\<lambda>_. Inr \<lparr>source = FromDurable, matched_tokens = durable_cut hit\<rparr>))
      | (p', Inr PlanRemoteOrMiss) \<Rightarrow>
          let (s', out) = install_remote api p' s tokens cancelled in
          (p', s', bind_res out (\<lambda>hit. Inr (case hit of
             Some c \<Rightarrow> \<lparr>source = FromRemote, matched_tokens = c\<rparr>
           | None \<Rightarrow> \<lparr>source = Miss, matched_tokens = 0\<rparr>))))"

definition prepare :: "'s session_api \<Rightarrow> 's prefix_reuse \<Rightarrow> 's \<Rightarrow> u32 list
    \<Rightarrow> 's prefix_reuse \<times> 's \<times> (prefix_reuse_error + prefix_reuse_result)" where
  "prepare api p s tokens = prepare_with_cancellation api p s tokens False"

definition prepare_remote :: "'s session_api \<Rightarrow> 's prefix_reuse \<Rightarrow> 's \<Rightarrow> u32 list \<Rightarrow> nat
    \<Rightarrow> 's prefix_reuse \<times> 's \<times> (prefix_reuse_error + remote_reuse_offer option)" where
  "prepare_remote api p s tokens cut_align =
     (let offer = (\<lambda>src matched. \<lparr>offer_action = remote_action matched (length tokens) cut_align,
            offer_source = src, offer_matched = matched\<rparr>);
          install = (\<lambda>src matched out. if offer_action (offer src matched) = FullTransfer
            then (s, Inr (Some (offer src matched)))
            else (fst out, bind_res (snd out) (\<lambda>_. Inr (Some (offer src matched)))))
      in case plan p (token_history api s) tokens of
           (p', Inl e) \<Rightarrow> (p', s, Inl e)
         | (p', Inr (PlanCurrent matched)) \<Rightarrow> (p', install CurrentSession matched (s, Inr ()))
         | (p', Inr (PlanResident hit)) \<Rightarrow>
             (p', install FromResident (cut hit) (install_resident_hit api s hit))
         | (p', Inr (PlanDurable hit)) \<Rightarrow>
             (p', install FromDurable (durable_cut hit) (install_durable_hit api p' s tokens hit))
         | (p', Inr PlanRemoteOrMiss) \<Rightarrow>
             let (s', out) = install_remote api p' s tokens False in
             (p', s', bind_res out (\<lambda>hit. Inr (map_option (\<lambda>c. offer FromRemote c) hit))))"

subsection \<open>Publishing\<close>

definition publish_resident :: "(bytes \<Rightarrow> bytes) \<Rightarrow> arc list \<Rightarrow> 's session_api \<Rightarrow> 's prefix_reuse \<Rightarrow> 's
    \<Rightarrow> 's prefix_reuse \<times> (prefix_reuse_error + bool)" where
  "publish_resident sha held api p s =
     (case export_cache_snapshot api s of
        Inl e \<Rightarrow> (p, Inl (EngineError e))
      | Inr snapshot \<Rightarrow>
          let (r, out) = insert_with_logits sha held (resident p) (resident_identity p) snapshot
                (cached_logits api s)
          in (p\<lparr>resident := r\<rparr>, map_err ResidentFailed out))"

definition durable_prompt_preimage :: "u32 list \<Rightarrow> bytes" where
  "durable_prompt_preimage tokens =
     str ''muser-durable-prompt-v1'' @ [0] @ concat (map (\<lambda>t. le_bytes 4 (unat t)) tokens)"

definition publish_durable :: "(bytes \<Rightarrow> bytes) \<Rightarrow> 's session_api \<Rightarrow> 's prefix_reuse \<Rightarrow> 's \<Rightarrow> nat
    \<Rightarrow> prefix_reuse_error + bool" where
  "publish_durable sha api p s generation =
     (case durable p of
        None \<Rightarrow> Inr False
      | Some d \<Rightarrow>
          bind_res (map_err DurableFailed
            (durable_save d s (sha (durable_prompt_preimage (token_history api s))) generation))
            (\<lambda>_. Inr True))"

subsection \<open>The plan\<close>

definition current_prefix :: "u32 list \<Rightarrow> u32 list \<Rightarrow> bool" where
  "current_prefix current tokens \<longleftrightarrow> current \<noteq> [] \<and> prefix current tokens"

lemma current_guard:
  "(current \<noteq> [] \<and> length current \<le> length tokens \<and> take (length current) tokens = current)
   \<longleftrightarrow> current_prefix current tokens"
  by (auto simp: current_prefix_def prefix_def) (metis append_take_drop_id)

definition durable_answer :: "'s prefix_reuse \<Rightarrow> u32 list \<Rightarrow> session_cache_error + durable_hit option" where
  "durable_answer p tokens = (case durable p of Some d \<Rightarrow> find_deepest d tokens | None \<Rightarrow> Inr None)"

definition resident_cap :: "'s prefix_reuse \<Rightarrow> durable_hit option \<Rightarrow> nat" where
  "resident_cap p authenticated =
     (case durable p of None \<Rightarrow> u64_max
      | Some _ \<Rightarrow> (case authenticated of None \<Rightarrow> 0 | Some h \<Rightarrow> durable_cut h))"

lemma plan_unfold:
  "plan p current tokens =
     (if current_prefix current tokens then (p, Inr (PlanCurrent (length current)))
      else case durable_answer p tokens of
        Inl e \<Rightarrow> (p, Inl (DurableFailed e))
      | Inr authenticated \<Rightarrow>
          let out = lookup_capped (resident p) (resident_identity p) tokens (resident_cap p authenticated);
              rest = (case authenticated of Some h \<Rightarrow> PlanDurable h | None \<Rightarrow> PlanRemoteOrMiss)
          in (p\<lparr>resident := fst out\<rparr>,
              Inr (case snd out of
                 Some h \<Rightarrow> if \<not> exact h \<or> rs_last_logits (hit_snapshot h) \<noteq> None then PlanResident h else rest
               | None \<Rightarrow> rest)))"
  unfolding plan_def current_guard durable_answer_def resident_cap_def
  by (cases "durable p") (simp_all add: Let_def resident_lookup_def split_def split: sum.splits)

lemma plan_resident:
  assumes "plan p current tokens = (p', Inr (PlanResident hit))"
  obtains authenticated where "durable_answer p tokens = Inr authenticated"
    "snd (lookup_capped (resident p) (resident_identity p) tokens (resident_cap p authenticated)) = Some hit"
    "exact hit \<Longrightarrow> rs_last_logits (hit_snapshot hit) \<noteq> None"
  using assms
  by (auto simp: plan_unfold Let_def split: if_splits sum.splits option.splits)

lemma plan_durable:
  assumes "plan p current tokens = (p', Inr (PlanDurable hit))"
  shows "durable_answer p tokens = Inr (Some hit)" "\<exists>d. durable p' = Some d \<and> durable p = Some d"
proof -
  show ans: "durable_answer p tokens = Inr (Some hit)"
    using assms by (auto simp: plan_unfold Let_def split: if_splits sum.splits option.splits)
  have "durable p' = durable p"
    using assms by (auto simp: plan_unfold Let_def split: if_splits sum.splits)
  with ans show "\<exists>d. durable p' = Some d \<and> durable p = Some d"
    by (auto simp: durable_answer_def split: option.splits)
qed

lemma plan_current: "plan p current tokens = (p', Inr (PlanCurrent n)) \<Longrightarrow> current_prefix current tokens \<and> n = length current"
  by (auto simp: plan_unfold Let_def split: if_splits sum.splits option.splits)

text \<open>A resident hit of the plan, seen from a reachable index.\<close>

lemma plan_resident_hit:
  assumes "resident_inv sha held (resident p)" "identity_ok (resident_identity p)" "length tokens + 9 < 2 ^ 64"
    and "plan p current tokens = (p', Inr (PlanResident hit))"
  obtains authenticated s where "durable_answer p tokens = Inr authenticated"
    "cut hit \<le> resident_cap p authenticated" "0 < cut hit" "cut hit \<le> length tokens"
    "exact hit \<longleftrightarrow> cut hit = length tokens"
    "exact hit \<Longrightarrow> rs_last_logits (hit_snapshot hit) \<noteq> None"
    "resident_view (resident p) (resident_identity p) (take (cut hit) tokens) = Some (hit_snapshot hit)"
    "materialize (hit_snapshot hit) = Inr s" "snap_tokens s = take (cut hit) tokens" "position s = cut hit"
proof -
  obtain auth where auth: "durable_answer p tokens = Inr auth"
    "snd (lookup_capped (resident p) (resident_identity p) tokens (resident_cap p auth)) = Some hit"
    "exact hit \<Longrightarrow> rs_last_logits (hit_snapshot hit) \<noteq> None"
    using plan_resident [OF assms(4)] by blast
  obtain r' where run: "lookup_capped (resident p) (resident_identity p) tokens (resident_cap p auth) = (r', Some hit)"
    using auth(2) by (metis prod.collapse)
  from lookup_spec [OF assms(1-3) run] obtain s where
    s: "serves (resident p) (resident_identity p) tokens (resident_cap p auth) (cut hit)"
      "exact hit = (cut hit = length tokens)"
      "resident_view (resident p) (resident_identity p) (take (cut hit) tokens) = Some (hit_snapshot hit)"
      "materialize (hit_snapshot hit) = Inr s" "snap_tokens s = take (cut hit) tokens" "position s = cut hit"
    by auto
  have "validate s = Inr ()" using s(4) by (auto simp: materialize_def Let_def bind_res_Inr_iff map_err_Inr_iff)
  then have "0 < position s" by (simp add: validate_def validate_for_window_iff)
  with s auth that show ?thesis by (auto simp: serves_def)
qed

subsection \<open>Installing\<close>

context engine_session
begin

lemma restore_observed:
  assumes "inv s" "inv s2" "capture api s = Inr cp" "restore api cp s2 = (s3, Inr u)"
  shows "inv s3 \<and> observe api s3 = observe api s"
proof -
  obtain snap where cp: "cp = \<lparr>checkpoint_snapshot = snap, checkpoint_logits = cached_logits api s\<rparr>"
    "(if session_position api s = 0 then Inr None
      else bind_res (export_cache_snapshot api s) (\<lambda>snap. Inr (Some snap))) = Inr snap"
    using assms(3) by (auto simp: capture_def bind_res_Inr_iff)
  obtain s1 where s1: "inv s1" "observe api s1 = (session_position api s, token_history api s, fst (snd (snd (observe api s))), None)"
    "(case cached_logits api s of Some logits \<Rightarrow> install_restored_logits api s1 logits | None \<Rightarrow> (s1, Inr ())) = (s3, Inr u)"
  proof (cases "session_position api s = 0")
    case True
    have "observe api s = (0, [], None, cached_logits api s)" using fresh [OF assms(1) True] .
    with True cp assms(4) reset_ok [OF assms(2)] that [of "reset_session api s2"] show ?thesis
      by (simp add: restore_def observe_def)
  next
    case False
    then obtain sn where sn: "export_cache_snapshot api s = Inr sn" "snap = Some sn"
      using cp(2) by (auto simp: bind_res_Inr_iff)
    from assms(4) obtain t where t: "install_cache_snapshot api s2 sn = (t, Inr ())"
      "(case cached_logits api s of Some logits \<Rightarrow> install_restored_logits api t logits | None \<Rightarrow> (t, Inr ())) = (s3, Inr u)"
      by (auto simp: restore_def cp(1) sn(2) split: prod.splits sum.splits)
    from install_ok [OF assms(2) t(1)] export_ok [OF assms(1) sn(1)] sn(1) t(2) that [of t] show ?thesis
      by (simp add: observe_def)
  qed
  show ?thesis
  proof (cases "cached_logits api s")
    case None
    with s1 show ?thesis by (simp add: observe_def)
  next
    case (Some l)
    with s1 logits_ok [OF s1(1), of l s3 u] show ?thesis by (simp add: observe_def)
  qed
qed

lemma install_exact_atomic:
  assumes "inv s"
  shows "case install_exact_generation api s snap logits of
      (s', Inr _) \<Rightarrow> inv s' \<and> observe api s' = (position snap, snap_tokens snap, Some snap, Some logits)
    | (s', Inl (Rollback _ _)) \<Rightarrow> True
    | (s', Inl _) \<Rightarrow> inv s' \<and> observe api s' = observe api s"
proof (cases "capture api s")
  case (Inl e)
  then show ?thesis using assms by (simp add: install_exact_generation_def)
next
  case (Inr cp)
  obtain s1 o1 where i1: "install_cache_snapshot api s snap = (s1, o1)" by (rule that [OF prod.collapse [symmetric]])
  show ?thesis
  proof (cases o1)
    case (Inl e)
    with i1 install_fail [of s snap s1 e] Inr assms show ?thesis by (simp add: install_exact_generation_def)
  next
    case o1: (Inr u)
    from install_ok [OF assms, of snap s1 u] i1 o1
    have s1: "inv s1" "observe api s1 = (position snap, snap_tokens snap, Some snap, None)" by simp_all
    obtain s2 o2 where i2: "install_restored_logits api s1 logits = (s2, o2)" by (rule that [OF prod.collapse [symmetric]])
    show ?thesis
    proof (cases o2)
      case o2: (Inr u')
      with i2 logits_ok [OF s1(1), of logits s2 u'] s1(2) i1 o1 Inr show ?thesis
        by (simp add: install_exact_generation_def observe_def)
    next
      case o2: (Inl e)
      with i2 logits_fail [of s1 logits s2 e] have "s2 = s1" by simp
      obtain s3 o3 where i3: "restore api cp s2 = (s3, o3)" by (rule that [OF prod.collapse [symmetric]])
      show ?thesis
      proof (cases o3)
        case (Inl e')
        with i1 i2 i3 o1 o2 Inr show ?thesis by (simp add: install_exact_generation_def)
      next
        case o3: (Inr u'')
        have "inv s2" using s1(1) \<open>s2 = s1\<close> by simp
        from restore_observed [OF assms this Inr i3 [unfolded o3]] i1 i2 i3 o1 o2 o3 Inr show ?thesis
          by (simp add: install_exact_generation_def)
      qed
    qed
  qed
qed

end

subsection \<open>Properties\<close>

text \<open>C2: With a durable store configured, the resident index never serves beyond what the store has
  authenticated: whenever the plan is a resident hit, the store has answered with an authenticated
  cut at least as deep, and the hit is an entry stored under the store's own identity for exactly
  that prefix of the prompt; an exact hit carries its logits.\<close>

theorem resident_within_durable:
  assumes "reachable resident_start (resident_step sha) S" "resident p = sys_index S"
    and "durable p = Some d" "length (identity_digest d) = 32" "length tokens + 9 < 2 ^ 64"
    and "plan p current tokens = (p', Inr (PlanResident hit))"
  shows "\<exists>h. find_deepest d tokens = Inr (Some h) \<and> 0 < cut hit \<and> cut hit \<le> durable_cut h
    \<and> resident_view (resident p) (Some (identity_digest d)) (take (cut hit) tokens) = Some (hit_snapshot hit)
    \<and> (exact hit \<longrightarrow> rs_last_logits (hit_snapshot hit) \<noteq> None)"
proof -
  have id: "resident_identity p = Some (identity_digest d)" "identity_ok (resident_identity p)"
    using assms(3,4) by (simp_all add: resident_identity_def identity_ok_def)
  have inv: "resident_inv sha (held_arcs S) (resident p)" using reachable_inv [OF assms(1)] assms(2) by simp
  from plan_resident_hit [OF inv id(2) assms(5,6)] obtain auth where
    auth: "durable_answer p tokens = Inr auth" "cut hit \<le> resident_cap p auth" "0 < cut hit"
      "exact hit \<Longrightarrow> rs_last_logits (hit_snapshot hit) \<noteq> None"
      "resident_view (resident p) (resident_identity p) (take (cut hit) tokens) = Some (hit_snapshot hit)"
    by metis
  from auth(2,3) assms(3) obtain h where "auth = Some h" "cut hit \<le> durable_cut h"
    by (auto simp: resident_cap_def split: option.splits)
  with auth assms(3) id(1) show ?thesis by (auto simp: durable_answer_def)
qed

definition demo_digest :: bytes where "demo_digest = replicate 32 1"

definition demo_durable :: "session durable_api" where
  "demo_durable = \<lparr>identity_digest = demo_digest,
     find_deepest = \<lambda>tokens. Inr (Some \<lparr>durable_cut = length tokens, manifest_id = []\<rparr>),
     install_artifact = \<lambda>s tokens m c. (s, Inr ()), durable_save = \<lambda>s k g. Inr ()\<rparr>"

definition demo_ladder :: "session prefix_reuse" where
  "demo_ladder = \<lparr>resident = sys_index (demo_stored (Some demo_digest) (Some [0])), durable = Some demo_durable,
     remote = None\<rparr>"

lemma demo_plan: "\<exists>p' hit. plan demo_ladder [] [7] = (p', Inr (PlanResident hit)) \<and> cut hit = 1"
proof -
  let ?r = "sys_index (demo_stored (Some demo_digest) (Some [0]))"
  have id: "identity_ok (Some demo_digest)" by (simp add: identity_ok_def demo_digest_def)
  have lg: "demo_logits_ok (Some [0])" by (simp add: demo_logits_ok_def f32_is_finite_def)
  have inv: "resident_inv id [] ?r" using reachable_inv [OF demo_stored_reachable [OF id], of "Some [0]"] by simp
  obtain rs where rs: "resident_view ?r (Some demo_digest) [7] = Some rs" "rs_last_logits rs = Some [0]"
    using demo_view [OF id lg] by metis
  obtain r' best where run: "lookup_capped ?r (Some demo_digest) [7] 1 = (r', best)"
    by (rule that [OF prod.collapse [symmetric]])
  have "serves ?r (Some demo_digest) [7] 1 1" using rs(1) by (simp add: serves_def)
  with lookup_spec [OF inv id _ run] obtain hit where hit: "best = Some hit" "1 \<le> cut hit"
    "serves ?r (Some demo_digest) [7] 1 (cut hit)"
    "resident_view ?r (Some demo_digest) (take (cut hit) [7]) = Some (hit_snapshot hit)" by (cases best) auto
  then have "cut hit = 1" "rs_last_logits (hit_snapshot hit) \<noteq> None" using rs by (simp_all add: serves_def)
  with run hit(1) show ?thesis
    by (simp add: plan_unfold current_prefix_def durable_answer_def demo_ladder_def demo_durable_def Let_def
        resident_cap_def resident_identity_def)
qed

theorem resident_within_durable_witness:
  "\<exists>p' hit. plan demo_ladder [] [7] = (p', Inr (PlanResident hit)) \<and> 0 < cut hit
   \<and> resident_view (resident demo_ladder) (Some demo_digest) (take (cut hit) [7]) = Some (hit_snapshot hit)"
proof -
  obtain p' hit where ph: "plan demo_ladder [] [7] = (p', Inr (PlanResident hit))" using demo_plan by blast
  have "identity_ok (Some demo_digest)" by (simp add: identity_ok_def demo_digest_def)
  from resident_within_durable [OF demo_stored_reachable [OF this, of "Some [0]"] _ _ _ _ ph, of demo_durable] ph
  show ?thesis by (auto simp: demo_ladder_def demo_durable_def demo_digest_def)
qed

text \<open>A durable catalogue failure fails closed: unless the session already holds a prefix of the
  prompt, both entry points return the durable error and leave the ladder and the session as they
  were, so no unauthenticated resident state is served.\<close>

theorem durable_failure_fails_closed:
  assumes "durable p = Some d" "find_deepest d tokens = Inl e"
    and "\<not> (token_history api s \<noteq> [] \<and> prefix (token_history api s) tokens)"
  shows "prepare_with_cancellation api p s tokens cancelled = (p, s, Inl (DurableFailed e))
    \<and> prepare_remote api p s tokens cut_align = (p, s, Inl (DurableFailed e))"
proof -
  have "plan p (token_history api s) tokens = (p, Inl (DurableFailed e))"
    using assms by (simp add: plan_unfold current_prefix_def durable_answer_def)
  then show ?thesis by (simp add: prepare_with_cancellation_def prepare_remote_def Let_def)
qed

theorem durable_failure_fails_closed_witness:
  "prepare_with_cancellation cpu_api
     (demo_ladder\<lparr>durable := Some (demo_durable\<lparr>find_deepest := \<lambda>_. Inl (StoreFault ''io'')\<rparr>)\<rparr>)
     demo_session [7] False
   = (demo_ladder\<lparr>durable := Some (demo_durable\<lparr>find_deepest := \<lambda>_. Inl (StoreFault ''io'')\<rparr>)\<rparr>,
      demo_session, Inl (DurableFailed (StoreFault ''io'')))"
  by (rule durable_failure_fails_closed [where d = "demo_durable\<lparr>find_deepest := \<lambda>_. Inl (StoreFault ''io'')\<rparr>", THEN conjunct1])
    (simp_all add: cpu_api_def demo_session_def)

lemma install_resident_no_panic:
  "exact hit \<longrightarrow> rs_last_logits (hit_snapshot hit) \<noteq> None \<Longrightarrow> snd (install_resident_hit api s hit) \<noteq> Inl (Panicked m)"
  by (auto simp: install_resident_hit_def map_err_def split: sum.splits option.splits)

lemma install_durable_no_panic:
  "durable p = Some d \<Longrightarrow> snd (install_durable_hit api p s tokens hit) \<noteq> Inl (Panicked m)"
  by (auto simp: install_durable_hit_def split: prod.splits sum.splits)

lemma install_remote_no_panic: "snd (install_remote api p s tokens c) \<noteq> Inl (Panicked m)"
  by (auto simp: install_remote_def split: prod.splits sum.splits option.splits)

lemma plan_no_panic: "snd (plan p current tokens) \<noteq> Inl (Panicked m)"
  by (auto simp: plan_unfold Let_def split: sum.splits)

lemmas no_panic = install_resident_no_panic install_durable_no_panic install_remote_no_panic

lemma bind_panic: "bind_res out f = Inl e \<Longrightarrow> (\<And>x. f x \<noteq> Inl e) \<Longrightarrow> out = Inl e"
  by (cases out) auto

text \<open>The \<open>expect\<close> calls of the ladder never fail: on a reachable index no prompt makes either
  entry point panic, whatever the engine, the durable store and the remote store answer.\<close>

theorem ladder_never_panics:
  assumes "reachable resident_start (resident_step sha) S" "resident p = sys_index S"
    and "identity_ok (resident_identity p)" "length tokens + 9 < 2 ^ 64"
  shows "snd (snd (prepare_with_cancellation api p s tokens cancelled)) \<noteq> Inl (Panicked m)
    \<and> snd (snd (prepare_remote api p s tokens cut_align)) \<noteq> Inl (Panicked m)"
proof -
  have inv: "resident_inv sha (held_arcs S) (resident p)" using reachable_inv [OF assms(1)] assms(2) by simp
  obtain p' out where plan: "plan p (token_history api s) tokens = (p', out)"
    by (rule that [OF prod.collapse [symmetric]])
  have resident: "snd (install_resident_hit api s hit) \<noteq> Inl (Panicked m)" if "out = Inr (PlanResident hit)" for hit
    using plan_resident_hit [OF inv assms(3,4) plan [unfolded that]] no_panic(1) [of hit api s m] by metis
  have durable: "snd (install_durable_hit api p' s tokens hit) \<noteq> Inl (Panicked m)" if "out = Inr (PlanDurable hit)" for hit
    using plan_durable(2) [OF plan [unfolded that]] no_panic(2) by metis
  have "out \<noteq> Inl (Panicked m)" using plan_no_panic [of p "token_history api s" tokens m] plan by simp
  then have "snd (snd (prepare_with_cancellation api p s tokens cancelled)) \<noteq> Inl (Panicked m)"
    using resident durable no_panic(3) [of api p' s tokens cancelled m]
    by (auto simp: prepare_with_cancellation_def plan Let_def split_def split: sum.splits reuse_plan.splits
        dest!: bind_panic)
  moreover have "snd (snd (prepare_remote api p s tokens cut_align)) \<noteq> Inl (Panicked m)"
    using \<open>out \<noteq> Inl (Panicked m)\<close> resident durable no_panic(3) [of api p' s tokens False m]
    by (auto simp: prepare_remote_def plan Let_def split_def split: sum.splits reuse_plan.splits if_splits
        dest!: bind_panic)
  ultimately show ?thesis by blast
qed

theorem ladder_never_panics_witness:
  "\<forall>m. snd (snd (prepare_with_cancellation cpu_api demo_ladder demo_session [7] False)) \<noteq> Inl (Panicked m)"
proof
  fix m
  have id: "identity_ok (Some demo_digest)" by (simp add: identity_ok_def demo_digest_def)
  show "snd (snd (prepare_with_cancellation cpu_api demo_ladder demo_session [7] False)) \<noteq> Inl (Panicked m)"
    by (rule ladder_never_panics [THEN conjunct1, OF demo_stored_reachable [OF id, of "Some [0]"]])
      (simp_all add: demo_ladder_def demo_durable_def resident_identity_def id)
qed

text \<open>Installing an exact generation on the CPU engine is atomic: it ends with the new cache and
  its logits together, or with the observable state of before (position, tokens, cache and logits),
  unless the rollback itself fails, which is reported as such.\<close>

theorem exact_generation_atomic:
  assumes "session_inv s"
  shows "case install_exact_generation cpu_api s snap logits of
      (s', Inr _) \<Rightarrow> session_inv s'
        \<and> observe cpu_api s' = (position snap, snap_tokens snap, Some snap, Some logits)
    | (s', Inl (Rollback _ _)) \<Rightarrow> True
    | (s', Inl _) \<Rightarrow> session_inv s' \<and> observe cpu_api s' = observe cpu_api s"
  by (rule cpu.install_exact_atomic [OF assms])

theorem exact_generation_atomic_witness:
  "case install_exact_generation cpu_api demo_session demo_f32_snapshot [0, 0, 0] of
     (s', Inr _) \<Rightarrow> session_inv s'
   | (s', Inl (Rollback _ _)) \<Rightarrow> True
   | (s', Inl _) \<Rightarrow> observe cpu_api s' = observe cpu_api demo_session"
  using exact_generation_atomic [OF demo_session_inv, of demo_f32_snapshot "[0, 0, 0]"]
  by (auto split: prod.splits sum.splits session_cache_error.splits)

lemma resident_hit_installed:
  assumes inv: "session_inv s" and mat: "materialize (hit_snapshot hit) = Inr snap"
    and run: "install_resident_hit cpu_api s hit = (s', Inr u)"
  shows "session_inv s' \<and> history s' = snap_tokens snap \<and> session_export s' = Inr snap
    \<and> (exact hit \<longrightarrow> last_logits s' = rs_last_logits (hit_snapshot hit))"
proof (cases "exact hit")
  case True
  then obtain l where l: "rs_last_logits (hit_snapshot hit) = Some l"
    "install_exact_generation cpu_api s snap l = (s', Inr ())"
    using run mat by (auto simp: install_resident_hit_def apsnd_def map_prod_def map_err_def
        split: option.splits prod.splits sum.splits)
  with cpu.install_exact_atomic [OF inv, of snap l] True show ?thesis
    by (auto simp: observe_def cpu_api_def split: sum.splits)
next
  case False
  then have "session_install s snap = (s', Inr ())"
    using run mat by (auto simp: install_resident_hit_def apsnd_def map_prod_def map_err_def cpu_api_def
        split: prod.splits sum.splits)
  with session_install_ok [OF inv, of snap s'] False show ?thesis by simp
qed

text \<open>What the ladder reports is what the session holds. When it reports a resident hit of \<open>n\<close>
  tokens, the CPU session afterwards holds exactly the first \<open>n\<close> prompt tokens, with logits when the
  whole prompt matched; when it reports the current session, the session is untouched and its history
  is a prefix; a durable or remote hit that matches the whole prompt has logits; every hit is
  non-empty and within the prompt, and a miss reports none.\<close>

theorem prepare_reports_session:
  assumes "reachable resident_start (resident_step sha) S" "resident p = sys_index S"
    and "identity_ok (resident_identity p)" "length tokens + 9 < 2 ^ 64" "session_inv s"
    and "prepare_with_cancellation cpu_api p s tokens cancelled = (p', s', Inr res)"
  shows "case source res of
      CurrentSession \<Rightarrow> s' = s \<and> history s = take (matched_tokens res) tokens \<and> 0 < matched_tokens res
        \<and> matched_tokens res \<le> length tokens
    | FromResident \<Rightarrow> session_inv s' \<and> history s' = take (matched_tokens res) tokens \<and> 0 < matched_tokens res
        \<and> matched_tokens res \<le> length tokens
        \<and> (matched_tokens res = length tokens \<longrightarrow> last_logits s' \<noteq> None)
    | Miss \<Rightarrow> matched_tokens res = 0
    | _ \<Rightarrow> 0 < matched_tokens res \<and> matched_tokens res \<le> length tokens
        \<and> (matched_tokens res = length tokens \<longrightarrow> last_logits s' \<noteq> None)"
proof -
  have inv: "resident_inv sha (held_arcs S) (resident p)" using reachable_inv [OF assms(1)] assms(2) by simp
  obtain p1 out where plan: "plan p (history s) tokens = (p1, out)" by (rule that [OF prod.collapse [symmetric]])
  note run = assms(6) [unfolded prepare_with_cancellation_def, simplified cpu_api_def session_api.simps plan, folded cpu_api_def]
  obtain chosen where out: "out = Inr chosen" using run by (cases out) auto
  show ?thesis
  proof (cases chosen)
    case (PlanCurrent n)
    with plan_current plan out have "current_prefix (history s) tokens" "n = length (history s)" by blast+
    with run out PlanCurrent show ?thesis by (auto simp: current_prefix_def prefix_def)
  next
    case (PlanResident hit)
    from plan_resident_hit [OF inv assms(3,4) plan [unfolded out PlanResident]] obtain snap where
      h: "0 < cut hit" "cut hit \<le> length tokens" "exact hit = (cut hit = length tokens)"
        "exact hit \<longrightarrow> rs_last_logits (hit_snapshot hit) \<noteq> None"
        "materialize (hit_snapshot hit) = Inr snap" "snap_tokens snap = take (cut hit) tokens" by metis
    from run out PlanResident have "install_resident_hit cpu_api s hit = (s', Inr ())"
      "res = \<lparr>source = FromResident, matched_tokens = cut hit\<rparr>"
      by (auto simp: Let_def bind_res_Inr_iff split: prod.splits)
    with resident_hit_installed [OF assms(5) h(5)] h show ?thesis by auto
  next
    case (PlanDurable hit)
    from run out PlanDurable have "install_durable_hit cpu_api p1 s tokens hit = (s', Inr ())"
      "res = \<lparr>source = FromDurable, matched_tokens = durable_cut hit\<rparr>"
      by (auto simp: Let_def bind_res_Inr_iff split: prod.splits)
    then show ?thesis
      by (auto simp: install_durable_hit_def restore_manifest_def cpu_api_def
          split: option.splits prod.splits sum.splits if_splits)
  next
    case PlanRemoteOrMiss
    from run out PlanRemoteOrMiss obtain hit where "install_remote cpu_api p1 s tokens cancelled = (s', Inr hit)"
      "res = (case hit of Some c \<Rightarrow> \<lparr>source = FromRemote, matched_tokens = c\<rparr>
         | None \<Rightarrow> \<lparr>source = Miss, matched_tokens = 0\<rparr>)"
      by (auto simp: Let_def bind_res_Inr_iff split: prod.splits)
    then show ?thesis
      by (auto simp: install_remote_def restore_deepest_def restore_manifest_def apsnd_def map_prod_def cpu_api_def
          bind_res_Inr_iff map_err_Inr_iff split: option.splits prod.splits sum.splits if_splits)
  qed
qed

theorem prepare_reports_session_witness:
  "case prepare_with_cancellation cpu_api (demo_ladder\<lparr>durable := None\<rparr>) demo_session [7] False of
     (p', s', out) \<Rightarrow> (case out of Inr res \<Rightarrow> source res = Miss \<longrightarrow> matched_tokens res = 0 | Inl _ \<Rightarrow> True)"
proof -
  let ?p = "demo_ladder\<lparr>durable := None\<rparr>"
  have id: "identity_ok (Some demo_digest)" by (simp add: identity_ok_def demo_digest_def)
  show ?thesis
    using prepare_reports_session [OF demo_stored_reachable [OF id, of "Some [0]"], of ?p "[7]" demo_session False]
    by (auto simp: demo_ladder_def resident_identity_def demo_session_inv split: prod.splits sum.splits)
qed

lemma prepare_remote_action:
  "prepare_remote api p s tokens cut_align = (p', s', Inr (Some offer)) \<Longrightarrow>
   offer_action offer = remote_action (offer_matched offer) (length tokens) cut_align"
  unfolding prepare_remote_def Let_def
  by (auto simp: bind_res_Inr_iff split: prod.splits sum.splits reuse_plan.splits if_splits)

text \<open>A full-transfer offer from a local tier leaves the session exactly as it was, so the transfer
  can start from the untouched state; a delta is offered only on a non-empty strict prefix that the
  handoff can cut, and local service only when at most the last prompt token is missing.\<close>

theorem remote_offer_sound:
  assumes "prepare_remote api p s tokens cut_align = (p', s', Inr (Some offer))"
  shows "(offer_action offer = FullTransfer \<and> offer_source offer \<noteq> FromRemote \<longrightarrow> s' = s)
    \<and> (offer_action offer = ArmDelta \<longrightarrow> 0 < offer_matched offer \<and> offer_matched offer + 1 < length tokens
         \<and> 0 < cut_align \<and> cut_align dvd offer_matched offer)
    \<and> (offer_action offer = ServeLocal \<longrightarrow> 2 \<le> length tokens \<and> length tokens \<le> offer_matched offer + 1)"
proof -
  have act: "offer_action offer = remote_action (offer_matched offer) (length tokens) cut_align"
    using assms by (rule prepare_remote_action)
  have "s' = s" if "offer_action offer = FullTransfer" "offer_source offer \<noteq> FromRemote"
    using assms that unfolding prepare_remote_def Let_def
    by (auto simp: bind_res_Inr_iff split: prod.splits sum.splits reuse_plan.splits if_splits)
  with act show ?thesis
    by (auto simp: remote_action_def is_multiple_of_dvd split: if_splits)
qed

theorem remote_offer_sound_witness:
  "\<exists>offer. prepare_remote cpu_api (demo_ladder\<lparr>durable := None\<rparr>) (demo_session\<lparr>history := [7]\<rparr>) [7, 8] 256
      = (demo_ladder\<lparr>durable := None\<rparr>, demo_session\<lparr>history := [7]\<rparr>, Inr (Some offer))
    \<and> offer_action offer = ServeLocal \<and> 2 \<le> length [7 :: u32, 8]"
proof -
  have "plan (demo_ladder\<lparr>durable := None\<rparr>) [7] [7, 8] = (demo_ladder\<lparr>durable := None\<rparr>, Inr (PlanCurrent 1))"
    by (simp add: plan_unfold current_prefix_def)
  then have run: "prepare_remote cpu_api (demo_ladder\<lparr>durable := None\<rparr>) (demo_session\<lparr>history := [7]\<rparr>) [7, 8] 256
      = (demo_ladder\<lparr>durable := None\<rparr>, demo_session\<lparr>history := [7]\<rparr>,
         Inr (Some \<lparr>offer_action = ServeLocal, offer_source = CurrentSession, offer_matched = 1\<rparr>))"
    by (simp add: prepare_remote_def Let_def cpu_api_def remote_action_def)
  from remote_offer_sound [OF run] run show ?thesis by simp
qed

text \<open>The remote tier is different: its hit is installed before it is classified, so a full-transfer
  offer can come with a changed session.\<close>

definition demo_remote :: "session remote_api" where
  "demo_remote = \<lparr>fetch_deepest = \<lambda>tokens c. Inr (Some \<lparr>durable_cut = 1, manifest_id = []\<rparr>),
     staging = demo_durable\<lparr>install_artifact := \<lambda>s tokens m c. (s\<lparr>history := tokens\<rparr>, Inr ())\<rparr>\<rparr>"

theorem remote_tier_installs_unaligned:
  "\<exists>p' s' offer. prepare_remote cpu_api
       \<lparr>resident = sys_index demo_start, durable = None, remote = Some demo_remote\<rparr> demo_session [7, 8, 9] 256
     = (p', s', Inr (Some offer)) \<and> offer_action offer = FullTransfer \<and> history s' = [7] \<and> s' \<noteq> demo_session"
proof -
  let ?p = "\<lparr>resident = sys_index demo_start, durable = None, remote = Some demo_remote\<rparr>"
  have "snd (lookup_capped (sys_index demo_start) None [7, 8, 9] u64_max) = None"
    by (simp add: lookup_capped_def demo_start_def empty_node_def longest_match_recursive.simps own_best_def
        Let_def split_def split: list.splits)
  then have "\<exists>r. plan ?p [] [7, 8, 9] = (?p\<lparr>resident := r\<rparr>, Inr PlanRemoteOrMiss)"
    by (simp add: plan_unfold current_prefix_def durable_answer_def resident_cap_def resident_identity_def Let_def)
  then show ?thesis
    by (auto simp: prepare_remote_def Let_def cpu_api_def demo_session_def install_remote_def restore_deepest_def
        restore_manifest_def demo_remote_def demo_durable_def remote_action_def is_multiple_of_dvd)
qed

end
