(* ===== verification/Transfer_Schedule.thy ===== *)
theory Transfer_Schedule
  imports Muser_Prelude
begin

section \<open>Transfer schedule\<close>

text \<open>
  \<open>crates/muser-cluster/src/schedule.rs\<close>: which segments a producer sends for a prompt of
  \<open>position\<close> tokens when the receiver already holds \<open>[0, prefix_cut)\<close>, and the DFlash geometry check
  of \<open>crates/muser-engine/src/dflash/config.rs\<close> it relies on. Unchecked \<open>u64\<close> additions wrap, as in
  the release profile; \<open>expect\<close> is a panic value.

  Shown here: the NoPE tiles partition exactly the missing range, each sliding-window group
  partitions exactly the part of the window that is missing, DFlash planes cover exactly the sink
  and the window, sequence numbers are the wire order, and a schedule is refused exactly on an
  invalid cut or geometry.
\<close>

subsection \<open>DFlash geometry\<close>

record dflash_geometry =
  geo_layers :: nat
  geo_elements_per_token :: nat
  sink_size :: nat
  window_size :: nat

datatype geometry_error = ZeroLayers | ZeroElements | ZeroSink | ZeroWindow | LimitOverflow

definition wrapping_add :: "nat \<Rightarrow> nat \<Rightarrow> nat" where
  "wrapping_add a b = (a + b) mod 2 ^ 64"

definition buffered_byte_limit :: "dflash_geometry \<Rightarrow> geometry_error + nat" where
  "buffered_byte_limit g =
     ok_or (Option.bind (checked_mul (geo_layers g) 2) (\<lambda>v.
            Option.bind (checked_mul v (wrapping_add (sink_size g) (window_size g))) (\<lambda>v.
            Option.bind (checked_mul v (geo_elements_per_token g)) (\<lambda>v. checked_mul v 4))))
       LimitOverflow"

definition validate_geometry :: "dflash_geometry \<Rightarrow> geometry_error + unit" where
  "validate_geometry g =
     (if geo_layers g = 0 then Inl ZeroLayers
      else if geo_elements_per_token g = 0 then Inl ZeroElements
      else if sink_size g = 0 then Inl ZeroSink
      else if window_size g = 0 then Inl ZeroWindow
      else bind_res (buffered_byte_limit g) (\<lambda>_. Inr ()))"

subsection \<open>Segments\<close>

definition NOPE_LAYERS :: "nat list" where
  "NOPE_LAYERS = [3, 7, 11, 15, 19, 23, 27, 31, 35, 39, 43, 47, 51]"

definition N_LAYERS :: nat where "N_LAYERS = 52"
definition SWA_WINDOW :: nat where "SWA_WINDOW = 2048"
definition NOPE_TILE :: nat where "NOPE_TILE = 512"
definition SWA_GROUP :: nat where "SWA_GROUP = 13"
definition PACKED_PLANES :: nat where "PACKED_PLANES = 26"
definition PREFIX_CUT_ALIGN :: nat where "PREFIX_CUT_ALIGN = 256"

definition swa_layers :: "nat list" where
  "swa_layers = filter (\<lambda>layer. layer \<notin> set NOPE_LAYERS) [0..<N_LAYERS]"

datatype segment_role = SwaTile | NopeTile | DflashKey | DflashValue

record segment_intent =
  sequence :: nat
  component_id :: string
  role :: segment_role
  seg_layer :: "nat option"
  seg_start :: nat
  seg_count :: nat
  element_type :: string
  seg_elements_per_token :: nat

record transfer_schedule =
  segments :: "segment_intent list"
  first_tile_complete_after_tokens :: nat

text \<open>\<open>segments.push\<close> with the sequence number taken from the current length, as a \<open>u32\<close>.\<close>

definition push :: "segment_intent list \<Rightarrow> string \<Rightarrow> segment_role \<Rightarrow> nat option \<Rightarrow> nat \<Rightarrow> nat \<Rightarrow> string \<Rightarrow> nat
    \<Rightarrow> segment_intent list" where
  "push segs component r l start count ty elems =
     segs @ [\<lparr>sequence = length segs mod 2 ^ 32, component_id = component, role = r, seg_layer = l,
       seg_start = start, seg_count = count, element_type = ty, seg_elements_per_token = elems\<rparr>]"

text \<open>\<open>(cut..position).step_by(NOPE_TILE)\<close> with the length of each tile.\<close>

definition nope_tiles :: "nat \<Rightarrow> nat \<Rightarrow> (nat \<times> nat) list" where
  "nope_tiles pcut position =
     map (\<lambda>i. let tile_start = pcut + NOPE_TILE * i in (tile_start, min (position - tile_start) NOPE_TILE))
       [0..<(position - pcut + NOPE_TILE - 1) div NOPE_TILE]"

definition push_swa_tile :: "string \<Rightarrow> nat \<Rightarrow> nat \<Rightarrow> nat \<Rightarrow> segment_intent list \<Rightarrow> nat \<times> nat \<Rightarrow> segment_intent list" where
  "push_swa_tile ty packed swa_start first segs = (\<lambda>(tile_start, count).
     let tile_end = tile_start + count in
     if tile_end \<le> swa_start then segs
     else let chunk_start = max tile_start swa_start; chunk_count = tile_end - chunk_start in
          push segs ''target'' SwaTile (Some first) chunk_start chunk_count ty packed)"

definition push_swa :: "string \<Rightarrow> nat \<Rightarrow> nat \<Rightarrow> (nat \<times> nat) list \<Rightarrow> segment_intent list \<Rightarrow> segment_intent list" where
  "push_swa ty packed swa_start ts segs =
     foldl (\<lambda>segs grp. foldl (push_swa_tile ty packed swa_start (hd grp)) segs ts) segs
       (chunks SWA_GROUP swa_layers)"

definition push_nope :: "string \<Rightarrow> nat \<Rightarrow> (nat \<times> nat) list \<Rightarrow> segment_intent list \<Rightarrow> segment_intent list" where
  "push_nope ty packed ts segs =
     foldl (\<lambda>segs (tile_start, count). push segs ''target'' NopeTile None tile_start count ty packed) segs ts"

definition dflash_ranges :: "nat \<Rightarrow> nat \<Rightarrow> nat \<Rightarrow> (nat \<times> nat) list" where
  "dflash_ranges position sink window =
     (if position \<le> wrapping_add sink window then [(0, position)]
      else [(0, sink), (position - window, window)])"

definition push_dflash :: "nat \<Rightarrow> dflash_geometry \<Rightarrow> segment_intent list \<Rightarrow> segment_intent list" where
  "push_dflash position g segs =
     foldl (\<lambda>segs layer.
       foldl (\<lambda>segs r.
         foldl (\<lambda>segs (start, count). push segs ''dflash'' r (Some layer) start count ''f32_le'' (geo_elements_per_token g))
           segs (dflash_ranges position (sink_size g) (window_size g)))
         segs [DflashKey, DflashValue])
       segs [0..<geo_layers g]"

text \<open>The outer sum is the \<open>expect\<close> on the packed row width; the option is the source's.\<close>

definition muse_schedule_span_for :: "nat \<Rightarrow> nat \<Rightarrow> dflash_geometry option \<Rightarrow> string \<Rightarrow> nat
    \<Rightarrow> string + transfer_schedule option" where
  "muse_schedule_span_for position prefix_cut geometry ty elements =
     (if position = 0 \<or> prefix_cut \<ge> position \<or> \<not> is_multiple_of prefix_cut PREFIX_CUT_ALIGN then Inr None
      else if elements * PACKED_PLANES \<ge> 2 ^ 32 then Inl ''packed tile elements_per_token overflow''
      else
        let packed = elements * PACKED_PLANES;
            swa_start = max (saturating_sub position SWA_WINDOW) prefix_cut;
            ts = nope_tiles prefix_cut position;
            segs = push_nope ty packed ts (push_swa ty packed swa_start ts [])
        in Inr (map_option
             (\<lambda>segs. \<lparr>segments = segs,
                first_tile_complete_after_tokens = min (saturating_add prefix_cut NOPE_TILE) position\<rparr>)
             (case geometry of
                None \<Rightarrow> Some segs
              | Some g \<Rightarrow>
                  if validate_geometry g = Inr () \<and> geo_layers g < 2 ^ 32 \<and> geo_elements_per_token g < 2 ^ 32
                  then Some (push_dflash position g segs) else None)))"

definition muse_schedule_span :: "nat \<Rightarrow> nat \<Rightarrow> dflash_geometry option \<Rightarrow> string + transfer_schedule option" where
  "muse_schedule_span position prefix_cut geometry =
     muse_schedule_span_for position prefix_cut geometry ''f16_le'' 256"

definition muse_schedule_for :: "nat \<Rightarrow> dflash_geometry option \<Rightarrow> string \<Rightarrow> nat \<Rightarrow> string + transfer_schedule" where
  "muse_schedule_for position geometry ty elements =
     bind_res (muse_schedule_span_for position 0 geometry ty elements)
       (\<lambda>s. ok_or s ''a full schedule needs only a nonempty position'')"

definition muse_schedule :: "nat \<Rightarrow> dflash_geometry option \<Rightarrow> string + transfer_schedule" where
  "muse_schedule position geometry = muse_schedule_for position geometry ''f16_le'' 256"

subsection \<open>Tiles\<close>

lemma nope_tiles_step:
  "pcut < position \<Longrightarrow>
   nope_tiles pcut position = (pcut, min (position - pcut) 512) # nope_tiles (pcut + 512) position"
proof -
  assume "pcut < position"
  then have "(position - pcut + 512 - 1) div 512 = Suc ((position - (pcut + 512) + 512 - 1) div 512)"
  proof (cases "position - pcut \<le> 512")
    case True
    then have "(position - pcut + 512 - 1) div 512 = 1" "(position - (pcut + 512) + 512 - 1) div 512 = 0"
      using \<open>pcut < position\<close> by (auto simp: div_eq_dividend_iff intro!: div_nat_eqI)
    then show ?thesis by simp
  next
    case False
    then have "position - pcut + 512 - 1 = (position - (pcut + 512) + 512 - 1) + 512" by simp
    then show ?thesis by (simp only: div_add_self2)
  qed
  then obtain k where k: "(position - pcut + 512 - 1) div 512 = Suc k" "(position - (pcut + 512) + 512 - 1) div 512 = k"
    by blast
  have "[0..<Suc k] = 0 # map Suc [0..<k]" by (simp add: map_Suc_upt upt_conv_Cons del: upt_Suc)
  then show ?thesis
    unfolding nope_tiles_def NOPE_TILE_def k by (simp add: comp_def Let_def add.assoc)
qed

lemma nope_tiles_done: "position \<le> pcut \<Longrightarrow> nope_tiles pcut position = []"
  by (simp add: nope_tiles_def NOPE_TILE_def)

lemma nope_tiles_tile: "pcut \<le> position \<Longrightarrow> tiles pcut position (nope_tiles pcut position)"
proof (induction "position - pcut" arbitrary: pcut rule: less_induct)
  case less
  show ?case
  proof (cases "pcut < position")
    case True
    show ?thesis
    proof (cases "pcut + 512 \<le> position")
      case le: True
      with less.hyps [of "pcut + 512"] True show ?thesis by (simp add: nope_tiles_step [OF True])
    next
      case False
      with True show ?thesis by (simp add: nope_tiles_step [OF True] nope_tiles_done)
    qed
  next
    case False
    with less.prems show ?thesis by (simp add: nope_tiles_done)
  qed
qed

lemma nope_tiles_bound: "(s, n) \<in> set (nope_tiles pcut position) \<Longrightarrow> n \<le> 512"
  by (auto simp: nope_tiles_def NOPE_TILE_def Let_def)

definition clip :: "nat \<Rightarrow> (nat \<times> nat) list \<Rightarrow> (nat \<times> nat) list" where
  "clip w ts = map (\<lambda>(s, n). (max s w, s + n - max s w)) (filter (\<lambda>(s, n). w < s + n) ts)"

lemma clip_all: "tiles a b ts \<Longrightarrow> w \<le> a \<Longrightarrow> clip w ts = ts"
  by (induction a b ts rule: tiles.induct) (auto simp: clip_def)

lemma tiles_clip: "tiles a b ts \<Longrightarrow> a \<le> w \<Longrightarrow> w \<le> b \<Longrightarrow> tiles w b (clip w ts)"
proof (induction a b ts rule: tiles.induct)
  case (2 a b s n rs)
  then have h: "s = a" "0 < n" "tiles (a + n) b rs" by auto
  show ?case
  proof (cases "w < a + n")
    case True
    then have "clip w ((s, n) # rs) = (w, a + n - w) # rs"
      using h 2 clip_all [OF h(3), of w] by (simp add: clip_def)
    with True h show ?thesis by simp
  next
    case False
    with 2 h show ?thesis by (simp add: clip_def)
  qed
qed (simp add: clip_def)

subsection \<open>The ranges sent for one plane group\<close>

text \<open>The ranges of the segments with the given component, role and layer, in wire order.\<close>

definition ranges :: "string \<Rightarrow> segment_role \<Rightarrow> nat option \<Rightarrow> segment_intent list \<Rightarrow> (nat \<times> nat) list" where
  "ranges c r l segs = map (\<lambda>s. (seg_start s, seg_count s))
     (filter (\<lambda>s. component_id s = c \<and> role s = r \<and> seg_layer s = l) segs)"

definition numbered :: "segment_intent list \<Rightarrow> bool" where
  "numbered segs \<longleftrightarrow> map sequence segs = map (\<lambda>i. i mod 2 ^ 32) [0..<length segs]"

lemma ranges_Nil [simp]: "ranges c r l [] = []" "numbered []"
  by (simp_all add: ranges_def numbered_def)

lemma ranges_push:
  "ranges c r l (push segs c' r' l' st n ty e) = ranges c r l segs @ (if (c', r', l') = (c, r, l) then [(st, n)] else [])"
  by (simp add: ranges_def push_def)

lemma numbered_push: "numbered segs \<Longrightarrow> numbered (push segs c r l st n ty e)"
  by (simp add: numbered_def push_def)

lemma push_nope_ranges:
  "ranges c r l (push_nope ty packed ts segs) =
     ranges c r l segs @ (if (c, r, l) = (''target'', NopeTile, None) then ts else [])"
  "numbered segs \<Longrightarrow> numbered (push_nope ty packed ts segs)"
  by (induction ts arbitrary: segs) (auto simp: push_nope_def ranges_push numbered_push)

lemma push_swa_group_ranges:
  "ranges c r l (foldl (push_swa_tile ty packed w first) segs ts) =
     ranges c r l segs @ (if (c, r, l) = (''target'', SwaTile, Some first) then clip w ts else [])"
  "numbered segs \<Longrightarrow> numbered (foldl (push_swa_tile ty packed w first) segs ts)"
  by (induction ts arbitrary: segs)
    (auto simp: push_swa_tile_def Let_def ranges_push numbered_push clip_def)

lemma swa_groups:
  "chunks SWA_GROUP swa_layers =
     [[0, 1, 2, 4, 5, 6, 8, 9, 10, 12, 13, 14, 16],
      [17, 18, 20, 21, 22, 24, 25, 26, 28, 29, 30, 32, 33],
      [34, 36, 37, 38, 40, 41, 42, 44, 45, 46, 48, 49, 50]]"
  by code_simp

lemma push_swa_ranges:
  "ranges c r l (push_swa ty packed w ts segs) =
     ranges c r l segs @ (if c = ''target'' \<and> r = SwaTile \<and> l \<in> {Some 0, Some 17, Some 34} then clip w ts else [])"
  "numbered segs \<Longrightarrow> numbered (push_swa ty packed w ts segs)"
  by (auto simp: push_swa_def swa_groups push_swa_group_ranges)

lemma push_dflash_ranges_layer:
  "ranges c r l (foldl (\<lambda>segs (start, count). push segs ''dflash'' r' (Some layer) start count ty e) segs rs) =
     ranges c r l segs @ (if (c, r, l) = (''dflash'', r', Some layer) then rs else [])"
  "numbered segs \<Longrightarrow> numbered (foldl (\<lambda>segs (start, count). push segs ''dflash'' r' (Some layer) start count ty e) segs rs)"
  by (induction rs arbitrary: segs) (auto simp: ranges_push numbered_push)

lemma push_dflash_ranges:
  "ranges c r l (push_dflash position g segs) =
     ranges c r l segs @ (if c = ''dflash'' \<and> r \<in> {DflashKey, DflashValue} \<and> (\<exists>i<geo_layers g. l = Some i)
       then dflash_ranges position (sink_size g) (window_size g) else [])"
  "numbered segs \<Longrightarrow> numbered (push_dflash position g segs)"
proof -
  let ?rs = "dflash_ranges position (sink_size g) (window_size g)"
  let ?step = "\<lambda>segs layer. foldl (\<lambda>segs r. foldl (\<lambda>segs (start, count).
      push segs ''dflash'' r (Some layer) start count ''f32_le'' (geo_elements_per_token g)) segs ?rs)
      segs [DflashKey, DflashValue]"
  have "ranges c r l (foldl ?step segs [0..<n]) = ranges c r l segs @
      (if c = ''dflash'' \<and> r \<in> {DflashKey, DflashValue} \<and> (\<exists>i<n. l = Some i) then ?rs else [])" for n
    by (induction n) (auto simp: push_dflash_ranges_layer less_Suc_eq)
  then show "ranges c r l (push_dflash position g segs) = ranges c r l segs @
      (if c = ''dflash'' \<and> r \<in> {DflashKey, DflashValue} \<and> (\<exists>i<geo_layers g. l = Some i) then ?rs else [])"
    by (simp add: push_dflash_def)
  have "numbered (foldl ?step segs [0..<n])" if "numbered segs" for n
    using that by (induction n) (auto simp: push_dflash_ranges_layer)
  then show "numbered (push_dflash position g segs)" if "numbered segs"
    using that by (simp add: push_dflash_def)
qed

lemma schedule_segments:
  assumes "muse_schedule_span_for position pcut geometry ty elements = Inr (Some sched)"
  defines "ts \<equiv> nope_tiles pcut position"
  shows "pcut < position" "256 dvd pcut"
    "ranges c r l (segments sched) =
      (if c = ''target'' \<and> r = SwaTile \<and> l \<in> {Some 0, Some 17, Some 34} then clip (max (position - 2048) pcut) ts else []) @
      (if (c, r, l) = (''target'', NopeTile, None) then ts else []) @
      (case geometry of Some g \<Rightarrow>
         if c = ''dflash'' \<and> r \<in> {DflashKey, DflashValue} \<and> (\<exists>i<geo_layers g. l = Some i)
         then dflash_ranges position (sink_size g) (window_size g) else []
       | None \<Rightarrow> [])"
    "numbered (segments sched)"
proof -
  let ?packed = "elements * PACKED_PLANES"
  let ?segs = "push_nope ty ?packed ts (push_swa ty ?packed (max (position - 2048) pcut) ts [])"
  have sched: "segments sched = (case geometry of None \<Rightarrow> ?segs | Some g \<Rightarrow> push_dflash position g ?segs)"
    and guard: "pcut < position" "256 dvd pcut"
    using assms(1) unfolding muse_schedule_span_for_def Let_def ts_def
    by (auto simp: saturating_sub_def SWA_WINDOW_def is_multiple_of_dvd PREFIX_CUT_ALIGN_def split: if_splits option.splits)
  show "pcut < position" "256 dvd pcut" by (rule guard)+
  show "ranges c r l (segments sched) =
      (if c = ''target'' \<and> r = SwaTile \<and> l \<in> {Some 0, Some 17, Some 34} then clip (max (position - 2048) pcut) ts else []) @
      (if (c, r, l) = (''target'', NopeTile, None) then ts else []) @
      (case geometry of Some g \<Rightarrow>
         if c = ''dflash'' \<and> r \<in> {DflashKey, DflashValue} \<and> (\<exists>i<geo_layers g. l = Some i)
         then dflash_ranges position (sink_size g) (window_size g) else []
       | None \<Rightarrow> [])"
    unfolding sched by (cases geometry) (simp_all add: push_dflash_ranges push_nope_ranges push_swa_ranges)
  show "numbered (segments sched)"
    unfolding sched by (cases geometry) (simp_all add: push_dflash_ranges push_nope_ranges push_swa_ranges)
qed

subsection \<open>Properties\<close>

lemma schedule_nope_ranges:
  assumes "muse_schedule_span_for position pcut geometry ty elements = Inr (Some sched)"
  shows "ranges ''target'' NopeTile None (segments sched) = nope_tiles pcut position"
    and "tiles pcut position (nope_tiles pcut position)"
  using schedule_segments [OF assms] by (simp_all add: nope_tiles_tile split: option.splits)

text \<open>C36: A schedule covers what the receiver is missing, once: the NoPE tiles, in wire order, partition
  \<open>[prefix_cut, position)\<close> into non-empty tiles of at most 512 tokens, and the tiles of each of the
  three sliding-window layer groups partition the part of the 2048-token window that is missing.
  Sequence numbers are the wire order.\<close>

theorem schedule_covers_target:
  assumes "muse_schedule_span_for position pcut geometry ty elements = Inr (Some sched)"
  shows "tiles pcut position (ranges ''target'' NopeTile None (segments sched))
    \<and> (\<forall>(s, n)\<in>set (ranges ''target'' NopeTile None (segments sched)). n \<le> 512)
    \<and> (\<forall>first\<in>{0, 17, 34}. tiles (max (position - 2048) pcut) position
         (ranges ''target'' SwaTile (Some first) (segments sched)))
    \<and> map sequence (segments sched) = map (\<lambda>i. i mod 2 ^ 32) [0..<length (segments sched)]"
proof -
  note seg = schedule_segments [OF assms]
  note ts = schedule_nope_ranges(2) [OF assms]
  have "ranges ''target'' NopeTile None (segments sched) = nope_tiles pcut position"
    by (rule schedule_nope_ranges(1) [OF assms])
  moreover have "ranges ''target'' SwaTile (Some first) (segments sched)
      = clip (max (position - 2048) pcut) (nope_tiles pcut position)" if "first \<in> {0, 17, 34}" for first
    using that by (auto simp: seg(3) split: option.splits)
  moreover have "tiles (max (position - 2048) pcut) position (clip (max (position - 2048) pcut) (nope_tiles pcut position))"
    by (rule tiles_clip [OF ts]) (use seg(1) in auto)
  ultimately show ?thesis using ts seg(4) nope_tiles_bound by (auto simp: numbered_def)
qed

theorem schedule_covers_target_witness:
  "\<exists>sched. muse_schedule_span_for 600 256 None ''f16_le'' 256 = Inr (Some sched)
   \<and> tiles 256 600 (ranges ''target'' NopeTile None (segments sched))"
proof -
  obtain sched where s: "muse_schedule_span_for 600 256 None ''f16_le'' 256 = Inr (Some sched)"
    by (simp add: muse_schedule_span_for_def is_multiple_of_dvd PREFIX_CUT_ALIGN_def PACKED_PLANES_def Let_def)
  from schedule_covers_target [OF s] s show ?thesis by blast
qed

text \<open>For every DFlash layer and both planes the schedule sends exactly the rows the DFlash cache
  keeps, each once: the first \<open>sink_size\<close> positions and the last \<open>window_size\<close> positions of the
  prompt, which is the whole prompt when it is short.\<close>

theorem schedule_covers_dflash:
  assumes "muse_schedule_span_for position pcut (Some g) ty elements = Inr (Some sched)"
    and "sink_size g + window_size g < 2 ^ 64" "layer < geo_layers g" "r \<in> {DflashKey, DflashValue}"
    and "x < position"
  shows "length (filter (\<lambda>(s, n). s \<le> x \<and> x < s + n) (ranges ''dflash'' r (Some layer) (segments sched)))
    = (if x < sink_size g \<or> position \<le> x + window_size g then 1 else 0)"
proof -
  have "ranges ''dflash'' r (Some layer) (segments sched) = dflash_ranges position (sink_size g) (window_size g)"
    using schedule_segments(3) [OF assms(1), of "''dflash''" r "Some layer"] assms(3,4) by auto
  then show ?thesis using assms(2,5) by (auto simp: dflash_ranges_def wrapping_add_def)
qed

theorem schedule_covers_dflash_witness:
  "\<exists>sched. muse_schedule_span_for 600 0
      (Some \<lparr>geo_layers = 2, geo_elements_per_token = 4, sink_size = 64, window_size = 128\<rparr>) ''f16_le'' 256 = Inr (Some sched)
   \<and> length (filter (\<lambda>(s, n). s \<le> 300 \<and> 300 < s + n) (ranges ''dflash'' DflashKey (Some 1) (segments sched))) = 0"
proof -
  let ?g = "\<lparr>geo_layers = 2, geo_elements_per_token = 4, sink_size = 64, window_size = 128\<rparr>"
  obtain sched where s: "muse_schedule_span_for 600 0 (Some ?g) ''f16_le'' 256 = Inr (Some sched)"
    by (simp add: muse_schedule_span_for_def is_multiple_of_dvd PREFIX_CUT_ALIGN_def PACKED_PLANES_def Let_def
        validate_geometry_def buffered_byte_limit_def checked_mul_def wrapping_add_def)
  from schedule_covers_dflash [OF s, of 1 DflashKey 300] s show ?thesis by auto
qed

text \<open>A schedule is refused exactly when there is nothing to send, the cut is not before the end of
  the prompt or not on a 256-token boundary, or the DFlash geometry is invalid; the packed row width
  is the only panic. A cut of zero is the full schedule.\<close>

theorem schedule_refused_iff:
  "(muse_schedule_span_for position pcut geometry ty elements = Inl m \<longleftrightarrow>
      0 < position \<and> pcut < position \<and> 256 dvd pcut \<and> 2 ^ 32 \<le> elements * 26
      \<and> m = ''packed tile elements_per_token overflow'')
   \<and> (muse_schedule_span_for position pcut geometry ty elements = Inr None \<longleftrightarrow>
      position = 0 \<or> position \<le> pcut \<or> \<not> 256 dvd pcut \<or>
      (elements * 26 < 2 ^ 32 \<and> (\<exists>g. geometry = Some g \<and> (validate_geometry g \<noteq> Inr ()
         \<or> 2 ^ 32 \<le> geo_layers g \<or> 2 ^ 32 \<le> geo_elements_per_token g))))
   \<and> (muse_schedule_span_for position 0 geometry ty elements = Inr (Some sched) \<longleftrightarrow>
      muse_schedule_for position geometry ty elements = Inr sched)"
proof -
  have "muse_schedule_span_for position 0 geometry ty elements = Inr (Some sched) \<longleftrightarrow>
      muse_schedule_for position geometry ty elements = Inr sched"
    by (auto simp: muse_schedule_for_def bind_res_Inr_iff ok_or_Inr_iff)
  then show ?thesis
    by (auto simp: muse_schedule_span_for_def is_multiple_of_dvd PREFIX_CUT_ALIGN_def PACKED_PLANES_def Let_def
        not_less not_le split: option.splits if_splits)
qed

theorem schedule_refused_iff_witness:
  "muse_schedule_span_for 10 5 None ''f16_le'' 256 = Inr None
   \<and> muse_schedule_span_for 1000 256 None ''f16_le'' (2 ^ 32) = Inl ''packed tile elements_per_token overflow''"
  using schedule_refused_iff [of 10 5 None "''f16_le''" 256 "[]"]
    schedule_refused_iff [of 1000 256 None "''f16_le''" "2 ^ 32" "''packed tile elements_per_token overflow''"]
  by simp

lemma foldl_extends:
  assumes "\<And>segs a. \<exists>z. f segs a = segs @ z \<and> (\<forall>y\<in>set z. Q y)"
  shows "\<exists>ys. foldl f segs ts = segs @ ys \<and> (\<forall>y\<in>set ys. Q y)"
proof (induction ts arbitrary: segs)
  case (Cons a ts)
  obtain z where z: "f segs a = segs @ z" "\<forall>y\<in>set z. Q y" using assms by blast
  obtain ys where ys: "foldl f (segs @ z) ts = (segs @ z) @ ys" "\<forall>y\<in>set ys. Q y" using Cons.IH by blast
  have "foldl f segs (a # ts) = segs @ (z @ ys)" using z(1) ys(1) by simp
  moreover have "\<forall>y\<in>set (z @ ys). Q y" using z(2) ys(2) by auto
  ultimately show ?case by blast
qed simp

text \<open>The order on the wire: every sliding-window segment precedes every NoPE segment.\<close>

theorem swa_before_nope:
  assumes "muse_schedule_span_for position pcut None ty elements = Inr (Some sched)"
    and "i < length (segments sched)" "j < length (segments sched)"
    and "role (segments sched ! i) = SwaTile" "role (segments sched ! j) = NopeTile"
  shows "i < j"
proof -
  let ?p = "elements * PACKED_PLANES" and ?ts = "nope_tiles pcut position" and ?w = "max (position - 2048) pcut"
  have "\<exists>z. push_swa_tile ty ?p ?w f segs a = segs @ z \<and> (\<forall>y\<in>set z. role y = SwaTile)" for f segs a
    by (simp add: push_swa_tile_def push_def Let_def split_def)
  then have "\<exists>z. foldl (push_swa_tile ty ?p ?w f) segs ?ts = segs @ z \<and> (\<forall>y\<in>set z. role y = SwaTile)" for f segs
    by (rule foldl_extends)
  then have "\<exists>z. push_swa ty ?p ?w ?ts [] = [] @ z \<and> (\<forall>y\<in>set z. role y = SwaTile)"
    unfolding push_swa_def by (rule foldl_extends)
  then have swa: "\<forall>y\<in>set (push_swa ty ?p ?w ?ts []). role y = SwaTile" by auto
  have "\<exists>ys. push_nope ty ?p ?ts segs = segs @ ys \<and> (\<forall>y\<in>set ys. role y = NopeTile)" for segs
    unfolding push_nope_def by (rule foldl_extends) (simp add: push_def split_def)
  moreover have "segments sched = push_nope ty ?p ?ts (push_swa ty ?p ?w ?ts [])"
    using assms(1) unfolding muse_schedule_span_for_def Let_def
    by (auto simp: saturating_sub_def SWA_WINDOW_def split: if_splits)
  ultimately obtain ys where ys: "segments sched = push_swa ty ?p ?w ?ts [] @ ys" "\<forall>y\<in>set ys. role y = NopeTile"
    by metis
  have "i < length (push_swa ty ?p ?w ?ts [])"
  proof (rule ccontr)
    assume "\<not> i < length (push_swa ty ?p ?w ?ts [])"
    with ys assms(2) have "segments sched ! i \<in> set ys" by (simp add: nth_append)
    with ys(2) assms(4) show False by simp
  qed
  moreover have "\<not> j < length (push_swa ty ?p ?w ?ts [])"
  proof
    assume "j < length (push_swa ty ?p ?w ?ts [])"
    with ys have "segments sched ! j \<in> set (push_swa ty ?p ?w ?ts [])" by (simp add: nth_append)
    with swa assms(5) show False by simp
  qed
  ultimately show ?thesis by simp
qed

text \<open>The byte limit of a geometry is computed on the wrapped sum of sink and window, so a geometry
  whose planes cannot be addressed passes the overflow check.\<close>

theorem geometry_sum_wraps:
  "validate_geometry \<lparr>geo_layers = 1, geo_elements_per_token = 1, sink_size = 2 ^ 63, window_size = 2 ^ 63\<rparr> = Inr ()"
  by (simp add: validate_geometry_def buffered_byte_limit_def wrapping_add_def checked_mul_def)

end
