(* ===== verification/Resumable_Stream.thy ===== *)
theory Resumable_Stream
  imports Muser_Prelude "HOL-Library.AList" "HOL-Library.Sublist" "HOL-Library.List_Lexorder"
begin

section \<open>Resumable streams\<close>

text \<open>
  \<open>crates/muser-server/src/resumable_stream.rs\<close>: server-sent-event sessions that keep the last four
  MiB of their output so that a client can resume, and the manager that owns them by id.

  A session is shared (\<open>Arc\<close>): the manager's table maps an id to an address, and a replaced session
  lives on for its holders, so sessions are cells of a list indexed by address. Every call of
  \<open>now()\<close> is an argument. The mutexes make each method one atomic step; the wake-up calls
  (\<open>notify_waiters\<close>) carry no data.

  Shown here: the ring buffer refines the full output history, a read at an offset returns exactly
  the rest of that history or says that it is lost, closed sessions reject writes, and the manager
  replaces, finds and collects sessions by id.
\<close>

definition MAX_STREAM_BYTES :: nat where "MAX_STREAM_BYTES = 4 * 1024 * 1024"
definition COMPLETED_TTL :: nat where "COMPLETED_TTL = 300"

record inner =
  ring :: bytes
  dropped :: nat
  total :: nat
  is_done :: bool
  cancelled :: bool
  completed_at :: nat

record stream_session =
  sess_id :: bytes
  started_at :: nat
  inner_state :: inner

record stream_view =
  conversation_id :: bytes
  view_done :: bool
  total_bytes :: nat
  view_started_at :: nat
  view_completed_at :: nat

datatype read_snapshot = Lost | Data bytes | Pending | Done

subsection \<open>Sessions\<close>

definition fresh_inner :: inner where
  "fresh_inner = \<lparr>ring = [], dropped = 0, total = 0, is_done = False, cancelled = False, completed_at = 0\<rparr>"

definition append_bytes :: "inner \<Rightarrow> bytes \<Rightarrow> inner \<times> bool" where
  "append_bytes i bs =
     (if bs = [] then (i, True)
      else if is_done i \<or> cancelled i then (i, False)
      else
        let t = saturating_add (total i) (length bs) in
        if length bs \<ge> MAX_STREAM_BYTES
        then (i\<lparr>total := t, dropped := t - MAX_STREAM_BYTES,
                ring := drop (length bs - MAX_STREAM_BYTES) bs\<rparr>, True)
        else let excess = saturating_sub (saturating_add (length (ring i)) (length bs)) MAX_STREAM_BYTES in
             (i\<lparr>total := t, dropped := saturating_add (dropped i) excess,
                ring := drop excess (ring i) @ bs\<rparr>, True))"

definition finish :: "nat \<Rightarrow> inner \<Rightarrow> inner" where
  "finish t i = (if is_done i then i else i\<lparr>is_done := True, completed_at := t\<rparr>)"

definition cancel :: "nat \<Rightarrow> inner \<Rightarrow> inner" where
  "cancel t i = i\<lparr>cancelled := True, is_done := True, completed_at := t\<rparr>"

definition snapshot :: "inner \<Rightarrow> nat \<Rightarrow> read_snapshot" where
  "snapshot i offset =
     (if offset < dropped i then Lost
      else if offset < dropped i + length (ring i) then Data (drop (offset - dropped i) (ring i))
      else if is_done i then Done else Pending)"

definition view :: "stream_session \<Rightarrow> stream_view" where
  "view s = \<lparr>conversation_id = sess_id s, view_done = is_done (inner_state s),
     total_bytes = total (inner_state s), view_started_at = started_at s,
     view_completed_at = completed_at (inner_state s)\<rparr>"

subsection \<open>The manager\<close>

record manager =
  cells :: "stream_session list"
  table :: "(bytes \<times> nat) list"

definition cell :: "manager \<Rightarrow> nat \<Rightarrow> stream_session" where
  "cell m a = cells m ! a"

definition on_cell :: "nat \<Rightarrow> (inner \<Rightarrow> inner) \<Rightarrow> manager \<Rightarrow> manager" where
  "on_cell a f m = m\<lparr>cells := (cells m)[a := (cell m a)\<lparr>inner_state := f (inner_state (cell m a))\<rparr>]\<rparr>"

definition gc :: "nat \<Rightarrow> manager \<Rightarrow> manager" where
  "gc t m =
     (let cutoff = saturating_sub t COMPLETED_TTL in
      m\<lparr>table := filter (\<lambda>(k, a). let completed = completed_at (inner_state (cell m a)) in
                            completed = 0 \<or> completed > cutoff) (table m)\<rparr>)"

definition create_or_replace :: "nat \<Rightarrow> nat \<Rightarrow> nat \<Rightarrow> bytes \<Rightarrow> manager \<Rightarrow> manager \<times> nat" where
  "create_or_replace t_gc t_start t_cancel sid m0 =
     (let m = gc t_gc m0;
          fresh = \<lparr>sess_id = sid, started_at = t_start, inner_state = fresh_inner\<rparr>;
          a = length (cells m);
          m' = m\<lparr>cells := cells m @ [fresh], table := AList.update sid a (table m)\<rparr>
      in (case map_of (table m) sid of
            Some previous \<Rightarrow> on_cell previous (cancel t_cancel) m'
          | None \<Rightarrow> m', a))"

definition get :: "nat \<Rightarrow> bytes \<Rightarrow> manager \<Rightarrow> manager \<times> nat option" where
  "get t sid m0 = (let m = gc t m0 in (m, map_of (table m) sid))"

definition evict_and_cancel :: "nat \<Rightarrow> bytes \<Rightarrow> manager \<Rightarrow> manager" where
  "evict_and_cancel t sid m =
     (case map_of (table m) sid of
        Some a \<Rightarrow> on_cell a (cancel t) (m\<lparr>table := AList.delete sid (table m)\<rparr>)
      | None \<Rightarrow> m)"

definition sep :: bytes where "sep = str ''::''"

definition matches :: "bytes \<Rightarrow> bytes \<Rightarrow> bool" where
  "matches requested sid \<longleftrightarrow> sid = requested \<or> prefix (requested @ sep) sid"

definition add_view :: "bytes \<Rightarrow> stream_view list \<Rightarrow> stream_session \<Rightarrow> stream_view list" where
  "add_view requested views s =
     (if matches requested (sess_id s) \<and> \<not> list_ex (\<lambda>v. conversation_id v = conversation_id (view s)) views
      then views @ [view s] else views)"

definition collect_views :: "stream_session list \<Rightarrow> bytes list \<Rightarrow> stream_view list" where
  "collect_views ss requested =
     sort_key conversation_id (foldl (\<lambda>views req. foldl (add_view req) views ss) [] requested)"

definition lookup :: "nat \<Rightarrow> bytes list \<Rightarrow> manager \<Rightarrow> manager \<times> stream_view list" where
  "lookup t requested m0 =
     (let m = gc t m0 in (m, collect_views (map (\<lambda>(k, a). cell m a) (table m)) requested))"

subsection \<open>The ring buffer refines the history\<close>

inductive stream_step :: "inner \<times> bytes \<Rightarrow> inner \<times> bytes \<Rightarrow> bool" where
  step_append: "length h + length bs < 2 ^ 64 \<Longrightarrow> append_bytes i bs = (i', ok) \<Longrightarrow>
     stream_step (i, h) (i', if ok then h @ bs else h)"
| step_finish: "stream_step (i, h) (finish t i, h)"
| step_cancel: "stream_step (i, h) (cancel t i, h)"

inductive_cases stream_stepE: "stream_step s s'"

definition stream_start :: "inner \<times> bytes \<Rightarrow> bool" where
  "stream_start s \<longleftrightarrow> s = (fresh_inner, [])"

definition refines :: "inner \<times> bytes \<Rightarrow> bool" where
  "refines = (\<lambda>(i, h). total i = length h \<and> dropped i = length h - MAX_STREAM_BYTES
     \<and> ring i = drop (length h - MAX_STREAM_BYTES) h \<and> length h < 2 ^ 64
     \<and> (cancelled i \<longrightarrow> is_done i))"

lemma refines_append:
  assumes "refines (i, h)" "length h + length bs < 2 ^ 64" "append_bytes i bs = (i', ok)"
  shows "refines (i', if ok then h @ bs else h)"
proof (cases "bs = [] \<or> is_done i \<or> cancelled i")
  case True
  with assms show ?thesis by (auto simp: append_bytes_def split: if_splits)
next
  case False
  have i: "total i = length h" "dropped i = length h - MAX_STREAM_BYTES"
    "ring i = drop (length h - MAX_STREAM_BYTES) h" "length h < 2 ^ 64"
    using assms(1) by (auto simp: refines_def)
  have t: "saturating_add (total i) (length bs) = length (h @ bs)"
    using i(1) assms(2) by (simp add: saturating_add_def)
  show ?thesis
  proof (cases "length bs \<ge> MAX_STREAM_BYTES")
    case True
    with False assms(3) t have "i' = i\<lparr>total := length (h @ bs), dropped := length (h @ bs) - MAX_STREAM_BYTES,
        ring := drop (length bs - MAX_STREAM_BYTES) bs\<rparr>" "ok"
      by (auto simp: append_bytes_def Let_def)
    with True False assms(2) show ?thesis by (simp add: refines_def)
  next
    case small: False
    define excess where "excess = length (ring i) + length bs - MAX_STREAM_BYTES"
    have "saturating_sub (saturating_add (length (ring i)) (length bs)) MAX_STREAM_BYTES = excess"
      using i(3) assms(2) by (simp add: excess_def saturating_sub_def saturating_add_def)
    moreover have "saturating_add (dropped i) excess = length (h @ bs) - MAX_STREAM_BYTES"
      using i assms(2) small by (auto simp: excess_def saturating_add_def)
    moreover have "drop excess (ring i) @ bs = drop (length (h @ bs) - MAX_STREAM_BYTES) (h @ bs)"
      using i(3) small by (cases "length h \<le> MAX_STREAM_BYTES") (auto simp: excess_def add.commute)
    ultimately have "i' = i\<lparr>total := length (h @ bs), dropped := length (h @ bs) - MAX_STREAM_BYTES,
        ring := drop (length (h @ bs) - MAX_STREAM_BYTES) (h @ bs)\<rparr>" "ok"
      using False small assms(3) t by (auto simp: append_bytes_def Let_def)
    with False assms(2) show ?thesis by (simp add: refines_def)
  qed
qed

interpretation stream: invariant_system stream_start stream_step refines
proof
  show "refines s" if "stream_start s" for s
    using that by (simp add: stream_start_def refines_def fresh_inner_def)
  show "refines s'" if "stream_step s s'" "refines s" for s s'
    using that
  proof (cases rule: stream_step.cases)
    case (step_append h bs i i' ok)
    with that(2) refines_append [of i h bs i' ok] show ?thesis by simp
  qed (auto simp: refines_def finish_def cancel_def)
qed

lemma snapshot_history:
  assumes "reachable stream_start stream_step (i, h)"
  shows "snapshot i offset =
      (if offset + MAX_STREAM_BYTES < length h then Lost
       else if offset < length h then Data (drop offset h)
       else if is_done i then Done else Pending)"
    "total i = length h" "length (ring i) \<le> MAX_STREAM_BYTES"
proof -
  have r: "total i = length h" "dropped i = length h - MAX_STREAM_BYTES"
    "ring i = drop (length h - MAX_STREAM_BYTES) h"
    using stream.inv_reachable [OF assms] by (simp_all add: refines_def)
  then show "snapshot i offset =
      (if offset + MAX_STREAM_BYTES < length h then Lost
       else if offset < length h then Data (drop offset h)
       else if is_done i then Done else Pending)"
    "total i = length h" "length (ring i) \<le> MAX_STREAM_BYTES" by (auto simp: snapshot_def)
qed

subsection \<open>Properties\<close>

text \<open>C40: Whatever sequence of writes, finishes and cancellations a session has seen, a read at an
  offset returns exactly the bytes written from that offset on, as one contiguous piece; it reports
  loss only when more than four MiB were written after the offset, and at the end of the output it
  tells a finished session from one still running.\<close>

theorem snapshot_exact:
  assumes "reachable stream_start stream_step (i, h)"
  shows "snapshot i offset =
      (if offset + MAX_STREAM_BYTES < length h then Lost
       else if offset < length h then Data (drop offset h)
       else if is_done i then Done else Pending)
    \<and> total i = length h \<and> length (ring i) \<le> MAX_STREAM_BYTES"
  using snapshot_history [OF assms] by simp

theorem snapshot_exact_witness:
  "snapshot (fst (append_bytes fresh_inner [1, 2, 3])) 1 = Data [2, 3]"
proof -
  have run: "append_bytes fresh_inner [1, 2, 3] = (fresh_inner\<lparr>ring := [1, 2, 3], total := 3\<rparr>, True)"
    by (simp add: append_bytes_def fresh_inner_def MAX_STREAM_BYTES_def arith_defs)
  have "stream_step (fresh_inner, []) (fst (append_bytes fresh_inner [1, 2, 3]), [1, 2, 3])"
    using step_append [of "[]" "[1, 2, 3]" fresh_inner _ True, OF _ run] run by simp
  then have "reachable stream_start stream_step (fst (append_bytes fresh_inner [1, 2, 3]), [1, 2, 3])"
    by (rule reach_step [OF reach_init, rotated]) (simp add: stream_start_def)
  from snapshot_exact [OF this, of 1] show ?thesis by (simp add: MAX_STREAM_BYTES_def)
qed

text \<open>A client that reads, keeps its offset and reads again misses and repeats nothing: if a first
  read at an offset returned data, then whatever is written in between, a second read at the advanced
  offset returns data that continues the first without gap or overlap, or the session says the
  gap is lost or that there is nothing new.\<close>

theorem resume_continues:
  assumes "reachable stream_start stream_step (i, h)"
    and "snapshot i offset = Data part" "stream_step\<^sup>*\<^sup>* (i, h) (i', h')"
  shows "\<exists>later. h' = h @ later \<and> part = drop offset h \<and>
    snapshot i' (offset + length part) \<in> {Lost, Pending, Done, Data later}"
proof -
  have grows: "\<exists>later. snd s' = snd s @ later" if "stream_step s s'" for s s'
    using that by (cases rule: stream_step.cases) auto
  have "\<exists>later. snd s' = snd s @ later" if "stream_step\<^sup>*\<^sup>* s s'" for s s'
    using that by (induction rule: rtranclp_induct) (auto dest: grows)
  from this [OF assms(3)] obtain later where later: "h' = h @ later" by auto
  have i': "reachable stream_start stream_step (i', h')"
    using assms(3,1) by (induction rule: rtranclp_induct) (auto intro: reach_step)
  have part: "part = drop offset h" "offset < length h"
    using snapshot_history(1) [OF assms(1), of offset] assms(2) by (auto split: if_splits)
  then have "snapshot i' (length h) \<in> {Lost, Pending, Done, Data later}"
    using snapshot_history(1) [OF i', of "length h"] later by (auto split: if_splits)
  with part later show ?thesis by auto
qed

lemma demo_stream_reachable:
  "reachable stream_start stream_step (fresh_inner\<lparr>ring := [1, 2, 3], total := 3\<rparr>, [1, 2, 3])"
proof -
  have run: "append_bytes fresh_inner [1, 2, 3] = (fresh_inner\<lparr>ring := [1, 2, 3], total := 3\<rparr>, True)"
    by (simp add: append_bytes_def fresh_inner_def MAX_STREAM_BYTES_def arith_defs)
  have "stream_step (fresh_inner, []) (fresh_inner\<lparr>ring := [1, 2, 3], total := 3\<rparr>, [1, 2, 3])"
    using step_append [of "[]" "[1, 2, 3]" fresh_inner _ True, OF _ run] by simp
  then show ?thesis by (rule reach_step [OF reach_init, rotated]) (simp add: stream_start_def)
qed

theorem resume_continues_witness:
  "\<exists>later. [1, 2, 3] = [1, 2, 3] @ later \<and>
    snapshot (finish 9 (fresh_inner\<lparr>ring := [1, 2, 3], total := 3\<rparr>)) 3 \<in> {Lost, Pending, Done, Data later}"
proof -
  let ?i = "fresh_inner\<lparr>ring := [1, 2, 3 :: u8], total := 3\<rparr>"
  have "snapshot ?i 1 = Data [2, 3]" by (simp add: snapshot_def fresh_inner_def)
  moreover have "stream_step\<^sup>*\<^sup>* (?i, [1, 2, 3]) (finish 9 ?i, [1, 2, 3])"
    using step_finish by (rule r_into_rtranclp)
  ultimately have "\<exists>later. [1, 2, 3] = [1, 2, 3] @ later \<and> [2, 3] = drop 1 [1, 2, 3 :: u8] \<and>
      snapshot (finish 9 ?i) (1 + length [2, 3 :: u8]) \<in> {Lost, Pending, Done, Data later}"
    by (rule resume_continues [OF demo_stream_reachable])
  then show ?thesis by (simp add: numeral_3_eq_3)
qed

text \<open>A finished or cancelled session is closed for good: from then on every non-empty write is
  rejected and changes nothing, and no later step reopens it or changes its output.\<close>

theorem closed_stays_closed:
  assumes "is_done i" "stream_step\<^sup>*\<^sup>* (i, h) (i', h')"
  shows "is_done i' \<and> h' = h \<and> ring i' = ring i \<and> (bs \<noteq> [] \<longrightarrow> append_bytes i' bs = (i', False))"
proof -
  have "is_done (fst s') \<and> snd s' = snd s \<and> ring (fst s') = ring (fst s)" if "stream_step\<^sup>*\<^sup>* s s'" "is_done (fst s)" for s s'
    using that
  proof (induction rule: rtranclp_induct)
    case (step y z)
    from step.hyps(2) step.IH step.prems show ?case
      by (cases rule: stream_step.cases) (auto simp: append_bytes_def finish_def cancel_def split: if_splits)
  qed simp
  from this [OF assms(2)] assms(1) show ?thesis by (simp add: append_bytes_def)
qed

theorem closed_stays_closed_witness:
  "append_bytes (finish 9 fresh_inner) [1] = (finish 9 fresh_inner, False)"
  using closed_stays_closed [of "finish 9 fresh_inner" "[]" "finish 9 fresh_inner" "[]" "[1]"]
  by (simp add: finish_def fresh_inner_def)

subsection \<open>The manager\<close>

text \<open>The table is a map with distinct ids to existing sessions of that id.\<close>

definition manager_wf :: "manager \<Rightarrow> bool" where
  "manager_wf m \<longleftrightarrow> distinct (map fst (table m))
     \<and> (\<forall>(k, a)\<in>set (table m). a < length (cells m) \<and> sess_id (cells m ! a) = k)"

lemma map_of_filter_Some:
  "distinct (map fst al) \<Longrightarrow> map_of (filter P al) k = Some v \<longleftrightarrow> map_of al k = Some v \<and> P (k, v)"
  by (simp add: distinct_map_filter)

lemma gc_wf: "manager_wf m \<Longrightarrow> manager_wf (gc t m)"
  by (auto simp: manager_wf_def gc_def Let_def intro: distinct_map_filter)

lemma on_cell_wf: "manager_wf m \<Longrightarrow> manager_wf (on_cell a f m)"
  by (cases "a < length (cells m)") (auto simp: manager_wf_def on_cell_def cell_def nth_list_update)

lemma create_wf: "manager_wf m \<Longrightarrow> manager_wf (fst (create_or_replace t1 t2 t3 sid m))"
proof -
  assume wf: "manager_wf m"
  let ?g = "gc t1 m"
  let ?m = "?g\<lparr>cells := cells ?g @ [\<lparr>sess_id = sid, started_at = t2, inner_state = fresh_inner\<rparr>],
    table := AList.update sid (length (cells ?g)) (table ?g)\<rparr>"
  have g: "distinct (map fst (table ?g))" "\<And>k a. (k, a) \<in> set (table ?g) \<Longrightarrow> a < length (cells ?g) \<and> sess_id (cells ?g ! a) = k"
    using gc_wf [OF wf, of t1] by (auto simp: manager_wf_def)
  have upd: "kv \<in> set (AList.update k v al) \<Longrightarrow> kv = (k, v) \<or> kv \<in> set al" for kv k v and al :: "(bytes \<times> nat) list"
    by (induction al) (auto split: if_splits)
  have "manager_wf ?m"
    using g by (auto simp: manager_wf_def distinct_update nth_append dest!: upd)
  then show ?thesis
    by (auto simp: create_or_replace_def Let_def on_cell_wf split: option.splits)
qed

lemma evict_wf: "manager_wf m \<Longrightarrow> manager_wf (evict_and_cancel t sid m)"
proof -
  assume wf: "manager_wf m"
  have "manager_wf (m\<lparr>table := AList.delete sid (table m)\<rparr>)"
    using wf by (auto simp: manager_wf_def AList.delete_eq distinct_map_filter)
  with wf show ?thesis by (auto simp: evict_and_cancel_def on_cell_wf split: option.splits)
qed

lemma gc_table:
  assumes "manager_wf m"
  shows "map_of (table (gc t m)) sid = Some a \<longleftrightarrow>
    map_of (table m) sid = Some a \<and>
    (completed_at (inner_state (cell m a)) = 0 \<or> t < completed_at (inner_state (cell m a)) + COMPLETED_TTL)"
  using assms
  by (auto simp: gc_def Let_def manager_wf_def map_of_filter_Some saturating_sub_def)

text \<open>Creating a session under an id leaves exactly the new, empty session reachable under that id;
  a session it replaces is cancelled and finished for whoever still holds it, but keeps its output,
  and sessions under other ids are found as before except those the collector removes.\<close>

theorem create_or_replace_spec:
  assumes "manager_wf m" "create_or_replace t_gc t_start t_cancel sid m = (m', a)"
  shows "map_of (table m') sid = Some a
    \<and> cells m' ! a = \<lparr>sess_id = sid, started_at = t_start, inner_state = fresh_inner\<rparr>
    \<and> (\<forall>b<length (cells m). cells m' ! b =
         (if map_of (table (gc t_gc m)) sid = Some b
          then (cells m ! b)\<lparr>inner_state := cancel t_cancel (inner_state (cells m ! b))\<rparr> else cells m ! b))
    \<and> (\<forall>other. other \<noteq> sid \<longrightarrow> map_of (table m') other = map_of (table (gc t_gc m)) other)"
proof -
  let ?g = "gc t_gc m"
  have cells: "cells ?g = cells m" by (simp add: gc_def Let_def)
  have prev: "b < length (cells m)" if "map_of (table ?g) sid = Some b" for b
    using gc_wf [OF assms(1), of t_gc] that by (auto simp: manager_wf_def cells dest!: map_of_SomeD)
  show ?thesis
    using assms(2) prev
    by (auto simp: create_or_replace_def Let_def cells on_cell_def cell_def update_conv' nth_append nth_list_update
        list_update_append split: option.splits)
qed

theorem create_or_replace_spec_witness:
  "map_of (table (fst (create_or_replace 5 6 7 [65] \<lparr>cells = [], table = []\<rparr>))) [65] = Some 0"
proof -
  let ?m = "\<lparr>cells = [], table = []\<rparr> :: manager"
  have wf: "manager_wf ?m" by (simp add: manager_wf_def)
  have run: "create_or_replace 5 6 7 [65] ?m = (fst (create_or_replace 5 6 7 [65] ?m), 0)"
    by (simp add: create_or_replace_def gc_def Let_def prod_eq_iff)
  from create_or_replace_spec [OF wf run] show ?thesis by blast
qed

text \<open>The collector removes exactly the sessions that completed more than five minutes ago: a
  running session is never collected, and a lookup by id finds a session exactly while it is
  registered and not expired.\<close>

theorem get_finds_live:
  assumes "manager_wf m" "get t sid m = (m', found)"
  shows "found = Some a \<longleftrightarrow>
    map_of (table m) sid = Some a \<and>
    (completed_at (inner_state (cells m ! a)) = 0 \<or> t < completed_at (inner_state (cells m ! a)) + 300)"
  using assms gc_table [OF assms(1), of t sid a]
  by (auto simp: get_def Let_def cell_def COMPLETED_TTL_def)

theorem get_finds_live_witness:
  "snd (get 400 [65] (fst (create_or_replace 5 6 7 [65] \<lparr>cells = [], table = []\<rparr>))) = Some 0"
proof -
  let ?m = "fst (create_or_replace 5 6 7 [65] \<lparr>cells = [], table = []\<rparr>)"
  have wf: "manager_wf ?m" by (rule create_wf) (simp add: manager_wf_def)
  have "map_of (table ?m) [65] = Some 0 \<and> completed_at (inner_state (cells ?m ! 0)) = 0"
    by (simp add: create_or_replace_def gc_def Let_def fresh_inner_def)
  then show ?thesis
    using get_finds_live [OF wf, of 400 "[65]" "fst (get 400 [65] ?m)" "snd (get 400 [65] ?m)" 0] by simp
qed

text \<open>Views collected for a request.\<close>

lemma add_view_props:
  assumes "distinct (map conversation_id views)"
  shows "distinct (map conversation_id (add_view req views s))"
    "conversation_id ` set (add_view req views s) =
       conversation_id ` set views \<union> (if matches req (sess_id s) then {sess_id s} else {})"
    "set (add_view req views s) \<subseteq> set views \<union> {view s}"
  using assms by (auto simp: add_view_def list_ex_iff view_def image_iff, metis)

lemma add_views_props:
  assumes "distinct (map conversation_id views)"
  shows "distinct (map conversation_id (foldl (add_view req) views ss))
    \<and> conversation_id ` set (foldl (add_view req) views ss) =
        conversation_id ` set views \<union> {sess_id s |s. s \<in> set ss \<and> matches req (sess_id s)}
    \<and> set (foldl (add_view req) views ss) \<subseteq> set views \<union> view ` set ss"
  using assms
proof (induction ss arbitrary: views)
  case (Cons s ss)
  note av = add_view_props [OF Cons.prems, of req s]
  from Cons.IH [OF av(1)] av(2,3) show ?case by (auto split: if_splits)
qed auto

lemma collect_views_props:
  "distinct (map conversation_id (collect_views ss reqs))
   \<and> conversation_id ` set (collect_views ss reqs) =
       {sess_id s |s. s \<in> set ss \<and> (\<exists>req\<in>set reqs. matches req (sess_id s))}
   \<and> set (collect_views ss reqs) \<subseteq> view ` set ss"
proof -
  let ?f = "\<lambda>views req. foldl (add_view req) views ss"
  have "distinct (map conversation_id (foldl ?f views reqs))
    \<and> conversation_id ` set (foldl ?f views reqs) =
        conversation_id ` set views \<union> {sess_id s |s. s \<in> set ss \<and> (\<exists>req\<in>set reqs. matches req (sess_id s))}
    \<and> set (foldl ?f views reqs) \<subseteq> set views \<union> view ` set ss"
    if "distinct (map conversation_id views)" for views
    using that
  proof (induction reqs arbitrary: views)
    case (Cons req reqs)
    note av = add_views_props [OF Cons.prems, of req ss]
    from Cons.IH [of "foldl (add_view req) views ss"] av show ?case by auto
  qed auto
  from this [of "[]"] show ?thesis by (simp add: collect_views_def distinct_map)
qed

text \<open>A lookup lists, sorted by conversation id and without duplicates, exactly the live sessions
  whose id is one of the requested ids or extends one of them by \<open>::\<close>.\<close>

theorem lookup_lists_matching:
  assumes "lookup t requested m = (m', views)"
  shows "sorted (map conversation_id views) \<and> distinct (map conversation_id views)
    \<and> set (map conversation_id views) =
        {sess_id s |s. s \<in> set (map (\<lambda>(k, a). cells m ! a) (table (gc t m)))
           \<and> (\<exists>req\<in>set requested. sess_id s = req \<or> prefix (req @ str ''::'') (sess_id s))}
    \<and> set views \<subseteq> view ` set (map (\<lambda>(k, a). cells m ! a) (table (gc t m)))"
proof -
  let ?ss = "map (\<lambda>(k, a). cells m ! a) (table (gc t m))"
  have "cells (gc t m) = cells m" by (simp add: gc_def Let_def)
  then have views: "views = collect_views ?ss requested"
    using assms by (auto simp: lookup_def Let_def cell_def)
  have "sorted (map conversation_id views)" by (simp add: views collect_views_def)
  with collect_views_props [of ?ss requested] show ?thesis
    unfolding views [symmetric] matches_def sep_def set_map by blast
qed

theorem lookup_lists_matching_witness:
  "\<exists>m' views. lookup 400 [[65]] (fst (create_or_replace 5 6 7 [65] \<lparr>cells = [], table = []\<rparr>)) = (m', views)
   \<and> set (map conversation_id views) = {[65]}"
proof -
  let ?m = "fst (create_or_replace 5 6 7 [65] \<lparr>cells = [], table = []\<rparr>)"
  obtain m' views where run: "lookup 400 [[65]] ?m = (m', views)" by (rule that [OF prod.collapse [symmetric]])
  have "map (\<lambda>(k, a). cells ?m ! a) (table (gc 400 ?m)) =
      [\<lparr>sess_id = [65], started_at = 6, inner_state = fresh_inner\<rparr>]"
    by (simp add: create_or_replace_def gc_def Let_def fresh_inner_def cell_def)
  with lookup_lists_matching [OF run] run show ?thesis by auto
qed

end
