(* ===== verification/Verifier_Protocol.thy ===== *)
theory Verifier_Protocol
  imports Muser_Prelude "HOL-Library.Product_Lexorder"
begin

section \<open>The verifier protocol: records, authentication and validation\<close>

text \<open>
  \<open>crates/muser-cluster/src/verifier.rs\<close>, the wire records of the remote speculative verifier: the
  session genesis, a round request, a round result with its fragment manifest, and the validation and
  authentication of each. \<open>MacKey\<close> of \<open>third_party/kvpack/crates/kvpack-handoff/src/mac.rs\<close> is
  modelled above the HMAC primitive.

  A Rust \<open>String\<close> is a \<^typ>\<open>string\<close>, one character per byte; \<open>u64\<close>, \<open>u32\<close> and \<open>usize\<close> are
  \<^typ>\<open>nat\<close> with the checked, saturating and wrapping operations written out. SHA-256, HMAC-SHA256
  and the canonical JSON serializer are third-party crates: they are the fields of the parameter
  \<open>crypto\<close>. The one thing assumed of them is that a digest has 32 bytes (\<open>crypto_ok\<close>).

  Shown here: what a record that passes each check satisfies, that a signed record verifies and that
  a verified one carries exactly the tag of its canonical bytes, and that an accepted manifest tiles
  the logical range of every component of the session schema.
\<close>

subsection \<open>Errors and checks\<close>

datatype verifier_error =
  Validation string | Authentication | ChangedIntent | StaleHead | Incomplete

definition validation :: "string \<Rightarrow> verifier_error + 'a" where
  "validation m = Inl (Validation m)"

text \<open>\<open>if b { return validation(m); }\<close>, and a sequence of checks that stops at the first error.\<close>

definition reject :: "bool \<Rightarrow> string \<Rightarrow> verifier_error + unit" where
  "reject b m = (if b then validation m else Inr ())"

fun all_ok :: "('e + unit) list \<Rightarrow> 'e + unit" where
  "all_ok [] = Inr ()"
| "all_ok (c # cs) = bind_res c (\<lambda>_. all_ok cs)"

lemma reject_Inr_iff [simp]: "reject b m = Inr u \<longleftrightarrow> \<not> b"
  by (simp add: reject_def validation_def)

lemma reject_False [simp]: "reject False m = Inr ()"
  by (simp add: reject_def)

lemma validation_not_Inr [simp]: "validation m \<noteq> Inr u"
  by (simp add: validation_def)

lemma all_ok_Inr_iff: "all_ok cs = Inr u \<longleftrightarrow> (\<forall>c\<in>set cs. c = Inr ())"
  by (induction cs) (auto simp: bind_res_Inr_iff)

lemma all_ok_Cons_Inr [simp]: "all_ok (c # cs) = Inr u \<longleftrightarrow> c = Inr () \<and> all_ok cs = Inr ()"
  by (simp add: bind_res_Inr_iff)

declare all_ok.simps(2) [simp del]

definition is_digit_byte :: "char \<Rightarrow> bool" where
  "is_digit_byte c \<longleftrightarrow> (let n = of_char c :: nat in 48 \<le> n \<and> n \<le> 57)"

definition is_lower_hex :: "char \<Rightarrow> bool" where
  "is_lower_hex c \<longleftrightarrow> (let n = of_char c :: nat in is_digit_byte c \<or> 97 \<le> n \<and> n \<le> 102)"

definition is_ascii_alphanumeric :: "char \<Rightarrow> bool" where
  "is_ascii_alphanumeric c \<longleftrightarrow>
     (let n = of_char c :: nat in is_digit_byte c \<or> 65 \<le> n \<and> n \<le> 90 \<or> 97 \<le> n \<and> n \<le> 122)"

definition lower_hex_64 :: "string \<Rightarrow> bool" where
  "lower_hex_64 s \<longleftrightarrow> length s = 64 \<and> list_all is_lower_hex s"

definition validate_digest :: "string \<Rightarrow> string \<Rightarrow> verifier_error + unit" where
  "validate_digest name value_str =
     reject (length value_str \<noteq> 64 \<or> \<not> list_all is_lower_hex value_str)
       (name @ '' is not lowercase SHA-256'')"

definition validate_identifier :: "string \<Rightarrow> string \<Rightarrow> nat \<Rightarrow> verifier_error + unit" where
  "validate_identifier name value_str max_len =
     reject (value_str = [] \<or> length value_str > max_len
        \<or> \<not> list_all (\<lambda>c. is_ascii_alphanumeric c \<or> c \<in> set ''-_.'') value_str)
       (''invalid '' @ name)"

definition identifier_ok :: "string \<Rightarrow> bool" where
  "identifier_ok s \<longleftrightarrow> s \<noteq> [] \<and> length s \<le> 128
     \<and> list_all (\<lambda>c. is_ascii_alphanumeric c \<or> c \<in> set ''-_.'') s"

lemma validate_digest_Inr_iff [simp]: "validate_digest n v = Inr u \<longleftrightarrow> lower_hex_64 v"
  by (simp add: validate_digest_def lower_hex_64_def)

lemma validate_identifier_Inr_iff [simp]: "validate_identifier n v 128 = Inr u \<longleftrightarrow> identifier_ok v"
  by (auto simp: validate_identifier_def identifier_ok_def)

subsection \<open>Constants\<close>

definition VERIFIER_SESSION_PROTOCOL_V1 :: string where
  "VERIFIER_SESSION_PROTOCOL_V1 = ''muser-verifier-session-v1''"
definition VERIFIER_ROUND_PROTOCOL_V1 :: string where
  "VERIFIER_ROUND_PROTOCOL_V1 = ''muser-verifier-round-v1''"
definition VERIFIER_RESULT_PROTOCOL_V1 :: string where
  "VERIFIER_RESULT_PROTOCOL_V1 = ''muser-verifier-result-v1''"
definition VERIFIER_SESSION_MAC_DOMAIN_V1 :: bytes where
  "VERIFIER_SESSION_MAC_DOMAIN_V1 = str ''muser-verifier-session-v1''"
definition VERIFIER_ROUND_MAC_DOMAIN_V1 :: bytes where
  "VERIFIER_ROUND_MAC_DOMAIN_V1 = str ''muser-verifier-round-v1''"
definition VERIFIER_RESULT_MAC_DOMAIN_V1 :: bytes where
  "VERIFIER_RESULT_MAC_DOMAIN_V1 = str ''muser-verifier-result-v1''"

definition MAX_VERIFIER_DRAFTS_V1 :: nat where "MAX_VERIFIER_DRAFTS_V1 = 64"
definition MAX_VERIFIER_FRAGMENTS_V1 :: nat where "MAX_VERIFIER_FRAGMENTS_V1 = 4096"
definition MAX_VERIFIER_FRAGMENT_BYTES_V1 :: nat where
  "MAX_VERIFIER_FRAGMENT_BYTES_V1 = 512 * 1024 * 1024"
definition MAX_VERIFIER_TOTAL_FRAGMENT_BYTES_V1 :: nat where
  "MAX_VERIFIER_TOTAL_FRAGMENT_BYTES_V1 = 512 * 1024 * 1024"
definition MAX_VERIFIER_CLOCK_SKEW_MS_V1 :: nat where "MAX_VERIFIER_CLOCK_SKEW_MS_V1 = 30000"
definition MAX_VERIFIER_FRAGMENT_REQUIREMENTS_V1 :: nat where
  "MAX_VERIFIER_FRAGMENT_REQUIREMENTS_V1 = 64"
definition MAX_VERIFIER_SPARSE_SUPPORT_V1 :: nat where "MAX_VERIFIER_SPARSE_SUPPORT_V1 = 4096"
definition MAX_VERIFIER_DRAFT_EVIDENCE_BYTES_V1 :: nat where
  "MAX_VERIFIER_DRAFT_EVIDENCE_BYTES_V1 = 4 * 1024 * 1024"

subsection \<open>Wire records\<close>

datatype fragment_kind =
  TargetHidden | TargetKvDelta | TargetProbabilityEvidence | SamplerWitness | Snapshot

datatype fragment_coverage =
  CommittedInputs | RoundSingleton | FreshDraftDistributionsPlusBonus

datatype coupling_policy = GreedyEquality | SparseMaximal | SharedGumbel

record fragment_requirement =
  req_component_id :: string
  req_kind :: fragment_kind
  req_coverage :: fragment_coverage
  req_required :: bool

record fragment_descriptor =
  d_ordinal :: nat
  d_component_id :: string
  d_kind :: fragment_kind
  d_logical_start :: nat
  d_logical_count :: nat
  d_byte_len :: nat
  d_sha256 :: string

record composite_identity =
  semantic_product_sha256 :: string
  prefix_checkpoint_sha256 :: string
  target_checkpoint_sha256 :: string
  target_engine_sha256 :: string
  target_sampler_sha256 :: string
  draft_checkpoint_sha256 :: string
  draft_engine_sha256 :: string
  tokenizer_sha256 :: string
  vocabulary_sha256 :: string
  target_genesis_root_sha256 :: string
  draft_genesis_root_sha256 :: string
  portable_kv_abi :: string

record session_core =
  s_protocol :: string
  s_session_id :: string
  s_client_incarnation :: string
  s_authority_id :: string
  s_authority_lease_id :: string
  s_authority_term :: nat
  s_created_unix_ms :: nat
  s_expires_unix_ms :: nat
  s_hmac_key_id :: string
  s_hmac_key_epoch :: nat
  s_identity :: composite_identity
  s_sampler_seed :: bytes
  s_coupling_policy :: coupling_policy
  s_sampler_config_sha256 :: string
  s_initial_sampler_state_sha256 :: string
  s_vocab_size :: nat
  s_max_context_tokens :: nat
  s_max_total_fragment_bytes :: nat
  s_max_drafts :: nat
  s_max_sparse_support :: nat
  s_initial_model_position :: nat
  s_initial_output_height :: nat
  s_initial_frontier_ordinal :: nat
  s_initial_head_sha256 :: string
  s_initial_frontier :: nat
  s_fragment_requirements :: "fragment_requirement list"

record sparse_q_entry =
  qe_token :: nat
  qe_probability_f32_bits :: nat

record sparse_q_row =
  qr_vocab_size :: nat
  qr_entries :: "sparse_q_entry list"

datatype draft_evidence =
    EvidenceNone
  | EvidenceSparseMaximal "sparse_q_row list"
  | EvidenceSharedGumbel string

record round_core =
  r_protocol :: string
  r_session_id :: string
  r_authority_term :: nat
  r_request_id :: string
  r_created_unix_ms :: nat
  r_expires_unix_ms :: nat
  r_hmac_key_id :: string
  r_hmac_key_epoch :: nat
  r_base_output_height :: nat
  r_base_head_sha256 :: string
  r_frontier_ordinal :: nat
  r_frontier_in :: nat
  r_draft_tokens :: "nat list"
  r_coupling_policy :: coupling_policy
  r_draft_evidence_sha256 :: string
  r_draft_evidence :: draft_evidence
  r_base_sampler_state_sha256 :: string
  r_post_draft_sampler_state_sha256 :: string

record result_core =
  v_protocol :: string
  v_session_id :: string
  v_authority_term :: nat
  v_request_id :: string
  v_request_intent_sha256 :: string
  v_base_output_height :: nat
  v_base_head_sha256 :: string
  v_base_sampler_state_sha256 :: string
  v_accepted_drafts :: nat
  v_commit_input_count :: nat
  v_committed_tokens :: "nat list"
  v_frontier_out :: nat
  v_frontier_out_ordinal :: nat
  v_new_output_height :: nat
  v_new_head_sha256 :: string
  v_post_verify_sampler_state_sha256 :: string
  v_fragments_sha256 :: string
  v_fragments :: "fragment_descriptor list"
  v_completed_unix_ms :: nat

record transition =
  t_domain :: string
  t_session_id :: string
  t_authority_term :: nat
  t_parent_head_sha256 :: string
  t_base_output_height :: nat
  t_committed_tokens :: "nat list"
  t_frontier_out :: nat
  t_frontier_out_ordinal :: nat
  t_coupling_policy :: coupling_policy
  t_request_intent_sha256 :: string
  t_post_verify_sampler_state_sha256 :: string
  t_fragments_sha256 :: string

text \<open>The three \<open>Authenticated...V1\<close> structs: a core and its tag.\<close>

record 'c authenticated =
  core :: 'c
  hmac_hex :: string

type_synonym authenticated_session = "session_core authenticated"
type_synonym authenticated_round = "round_core authenticated"
type_synonym authenticated_result = "result_core authenticated"

subsection \<open>Digests, tags and canonical bytes\<close>

text \<open>The primitives of the third-party crates. A serializer returns the canonical JSON of a value
  or the text of its error.\<close>

record crypto =
  sha256 :: "bytes \<Rightarrow> bytes"
  hmac_sha256 :: "bytes \<Rightarrow> bytes \<Rightarrow> bytes"
  json_session :: "session_core \<Rightarrow> string + bytes"
  json_round :: "round_core \<Rightarrow> string + bytes"
  json_evidence :: "draft_evidence \<Rightarrow> string + bytes"
  json_result_core :: "result_core \<Rightarrow> string + bytes"
  json_result :: "authenticated_result \<Rightarrow> string + bytes"
  json_fragments :: "fragment_descriptor list \<Rightarrow> string + bytes"
  json_transition :: "transition \<Rightarrow> string + bytes"

definition crypto_ok :: "crypto \<Rightarrow> bool" where
  "crypto_ok c \<longleftrightarrow> (\<forall>m. length (sha256 c m) = 32) \<and> (\<forall>k m. length (hmac_sha256 c k m) = 32)"

definition canonical :: "('a \<Rightarrow> string + bytes) \<Rightarrow> 'a \<Rightarrow> verifier_error + bytes" where
  "canonical json v = map_err (\<lambda>e. Validation (''canonical JSON: '' @ e)) (json v)"

definition hex_digit :: "nat \<Rightarrow> char" where
  "hex_digit n = ''0123456789abcdef'' ! n"

definition hex_encode :: "bytes \<Rightarrow> string" where
  "hex_encode bs = concat (map (\<lambda>b. [hex_digit (unat b div 16), hex_digit (unat b mod 16)]) bs)"

definition hex_value :: "char \<Rightarrow> nat option" where
  "hex_value c = (let n = of_char c :: nat in
     if 48 \<le> n \<and> n \<le> 57 then Some (n - 48)
     else if 97 \<le> n \<and> n \<le> 102 then Some (n - 87)
     else if 65 \<le> n \<and> n \<le> 70 then Some (n - 55) else None)"

fun hex_decode :: "string \<Rightarrow> bytes option" where
  "hex_decode [] = Some []"
| "hex_decode [a] = None"
| "hex_decode (a # b # s) =
     (case (hex_value a, hex_value b, hex_decode s) of
        (Some x, Some y, Some r) \<Rightarrow> Some (of_nat (16 * x + y) # r)
      | _ \<Rightarrow> None)"

definition sha256_hex :: "crypto \<Rightarrow> bytes \<Rightarrow> string" where
  "sha256_hex c m = hex_encode (sha256 c m)"

text \<open>\<open>MacKey\<close>. HMAC takes keys of every length, so \<open>new_from_slice\<close> never fails; the error text
  is dropped by every caller in this file (\<open>map_err(|_| Authentication)\<close>), so it is not kept.\<close>

definition domain_ok :: "bytes \<Rightarrow> bool" where
  "domain_ok domain \<longleftrightarrow> domain \<noteq> [] \<and> length domain \<le> 65535"

definition domain_stream :: "bytes \<Rightarrow> bytes \<Rightarrow> bytes" where
  "domain_stream domain stream =
     str ''kvpack-domain-mac-v1'' @ [0] @ rev (le_bytes 2 (length domain)) @ domain @ stream"

definition tag_domain_hex :: "crypto \<Rightarrow> bytes \<Rightarrow> bytes \<Rightarrow> bytes \<Rightarrow> string option" where
  "tag_domain_hex c key domain stream =
     (if domain = [] \<or> length domain > 65535 then None
      else Some (hex_encode (hmac_sha256 c key (domain_stream domain stream))))"

definition verify_domain_hex :: "crypto \<Rightarrow> bytes \<Rightarrow> bytes \<Rightarrow> bytes \<Rightarrow> string \<Rightarrow> bool" where
  "verify_domain_hex c key domain stream expected_hex =
     (if domain = [] \<or> length domain > 65535 then False
      else if length expected_hex \<noteq> 64 \<or> \<not> list_all is_lower_hex expected_hex then False
      else case hex_decode expected_hex of
          None \<Rightarrow> False
        | Some expected \<Rightarrow> expected = hmac_sha256 c key (domain_stream domain stream))"

lemma all_lt_16: "n < 16 \<Longrightarrow> list_all P [0..<16] \<Longrightarrow> P n" for n :: nat
  by (simp add: list_all_iff)

lemma hex_value_digit: "n < 16 \<Longrightarrow> hex_value (hex_digit n) = Some n"
  by (erule all_lt_16 [where P = "\<lambda>n. hex_value (hex_digit n) = Some n"]) code_simp

lemma is_lower_hex_digit: "n < 16 \<Longrightarrow> is_lower_hex (hex_digit n)"
  by (erule all_lt_16 [where P = "\<lambda>n. is_lower_hex (hex_digit n)"]) code_simp

definition hex_char_ok :: "nat \<Rightarrow> bool" where
  "hex_char_ok n \<longleftrightarrow> (case hex_value (char_of n) of None \<Rightarrow> False
     | Some x \<Rightarrow> x < 16 \<and> hex_digit x = char_of n)"

lemma hex_chars_ok: "list_all hex_char_ok ([48..<58] @ [97..<103])"
  by code_simp

lemma hex_digit_value:
  assumes "is_lower_hex a"
  shows "\<exists>x<16. hex_value a = Some x \<and> hex_digit x = a"
proof -
  let ?n = "of_char a :: nat"
  from assms have "?n \<in> set ([48..<58] @ [97..<103])"
    by (auto simp: is_lower_hex_def is_digit_byte_def Let_def simp del: upt_rec_numeral)
  with hex_chars_ok have "hex_char_ok ?n" unfolding list_all_iff by (rule bspec)
  then show ?thesis by (auto simp: hex_char_ok_def split: option.splits)
qed

lemma unat_u8_lt: "unat (b :: u8) < 256"
  using unsigned_less [of b] by simp

lemma unat_of_nat_u8: "n < 256 \<Longrightarrow> unat (of_nat n :: u8) = n"
  by (simp add: unat_of_nat)

lemma hex_decode_encode [simp]: "hex_decode (hex_encode bs) = Some bs"
proof (induction bs)
  case (Cons b bs)
  have "unat b div 16 < 16" "unat b mod 16 < 16" using unat_u8_lt [of b] by auto
  moreover have "of_nat (16 * (unat b div 16) + unat b mod 16) = b" by simp
  ultimately show ?case using Cons by (simp add: hex_encode_def hex_value_digit)
qed (simp add: hex_encode_def)

lemma length_hex_encode [simp]: "length (hex_encode bs) = 2 * length bs"
  by (induction bs) (simp_all add: hex_encode_def)

lemma hex_encode_lower: "list_all is_lower_hex (hex_encode bs)"
proof (induction bs)
  case (Cons b bs)
  have "unat b div 16 < 16" "unat b mod 16 < 16" using unat_u8_lt [of b] by auto
  with Cons show ?case by (simp add: hex_encode_def is_lower_hex_digit)
qed (simp add: hex_encode_def)

lemma hex_encode_decode:
  "list_all is_lower_hex s \<Longrightarrow> hex_decode s = Some bs \<Longrightarrow> hex_encode bs = s"
proof (induction s arbitrary: bs rule: hex_decode.induct)
  case (3 a b s)
  from 3 obtain x where x: "x < 16" "hex_value a = Some x" "hex_digit x = a"
    using hex_digit_value by auto
  from 3 obtain y where y: "y < 16" "hex_value b = Some y" "hex_digit y = b"
    using hex_digit_value by auto
  from 3 x y obtain r where r: "hex_decode s = Some r" and bs: "bs = of_nat (16 * x + y) # r"
    by (auto split: option.splits)
  have "unat (of_nat (16 * x + y) :: u8) = 16 * x + y" 
    by (rule unat_of_nat_u8) (use x y in simp)
  with 3 x y r bs show ?case by (simp add: hex_encode_def)
qed (simp_all add: hex_encode_def)

lemma sha256_hex_digest: "crypto_ok c \<Longrightarrow> lower_hex_64 (sha256_hex c m)"
  by (simp add: crypto_ok_def lower_hex_64_def sha256_hex_def hex_encode_lower)

lemma tag_domain_hex_digest:
  "crypto_ok c \<Longrightarrow> tag_domain_hex c k d m = Some t \<Longrightarrow> lower_hex_64 t"
  by (auto simp: crypto_ok_def lower_hex_64_def tag_domain_hex_def hex_encode_lower split: if_splits)

text \<open>A tag verifies exactly when it is the tag of the stream: verification accepts no second
  spelling of a tag.\<close>

lemma verify_domain_hex_iff:
  assumes "crypto_ok c"
  shows "verify_domain_hex c k d m t \<longleftrightarrow> tag_domain_hex c k d m = Some t"
proof
  assume v: "verify_domain_hex c k d m t"
  then have low: "list_all is_lower_hex t" by (simp add: verify_domain_hex_def split: if_splits)
  from v have "hex_decode t = Some (hmac_sha256 c k (domain_stream d m))"
    by (simp add: verify_domain_hex_def split: if_splits option.splits)
  from hex_encode_decode [OF low this] v show "tag_domain_hex c k d m = Some t"
    by (simp add: verify_domain_hex_def tag_domain_hex_def split: if_splits)
next
  assume t: "tag_domain_hex c k d m = Some t"
  with tag_domain_hex_digest [OF assms t] show "verify_domain_hex c k d m t"
    by (auto simp: verify_domain_hex_def tag_domain_hex_def lower_hex_64_def split: if_splits)
qed

lemma canonical_Inr_iff: "canonical json v = Inr b \<longleftrightarrow> json v = Inr b"
  by (simp add: canonical_def map_err_Inr_iff)

subsection \<open>Sparse proposal rows\<close>

text \<open>
  An \<open>f32\<close> bit pattern that is finite and positive, and its exact value in units of \<open>2^-149\<close>, the
  smallest positive \<open>f32\<close>. Sums of such values in \<open>f64\<close> stay far below its overflow threshold, so
  every \<open>f64\<close> of the loop is a natural number of these units rounded to 53 significant bits, ties to
  even, and \<open>total.is_finite()\<close> always holds. \<open>1.0\<close> is \<open>2^149\<close> units, and the \<open>f64\<close> nearest to
  \<open>1e-6\<close> is \<open>4722366482869645 * 2^-72\<close>.
\<close>

definition f32_positive_finite :: "nat \<Rightarrow> bool" where
  "f32_positive_finite bits \<longleftrightarrow> bits div 2 ^ 23 mod 256 \<noteq> 255 \<and> \<not> (bits \<ge> 2 ^ 31 \<or> bits = 0)"

definition f32_units :: "nat \<Rightarrow> nat" where
  "f32_units bits =
     (let e = bits div 2 ^ 23 mod 256; m = bits mod 2 ^ 23 in
      if e = 0 then m else (2 ^ 23 + m) * 2 ^ (e - 1))"

fun bit_len :: "nat \<Rightarrow> nat" where
  "bit_len n = (if n = 0 then 0 else Suc (bit_len (n div 2)))"

declare bit_len.simps [simp del]

definition round_f64 :: "nat \<Rightarrow> nat" where
  "round_f64 n =
     (if bit_len n \<le> 53 then n
      else let s = bit_len n - 53; q = n div 2 ^ s; r = n mod 2 ^ s; h = 2 ^ (s - 1) in
           (if r > h \<or> r = h \<and> odd q then q + 1 else q) * 2 ^ s)"

definition f64_abs_sub :: "nat \<Rightarrow> nat \<Rightarrow> nat" where
  "f64_abs_sub a b = round_f64 (if a \<ge> b then a - b else b - a)"

definition ONE_F64 :: nat where "ONE_F64 = 2 ^ 149"
definition MICRO_F64 :: nat where "MICRO_F64 = 4722366482869645 * 2 ^ 77"

fun sparse_entries :: "nat \<Rightarrow> nat list \<Rightarrow> nat \<Rightarrow> sparse_q_entry list \<Rightarrow> verifier_error + nat" where
  "sparse_entries vocab seen tot [] = Inr tot"
| "sparse_entries vocab seen tot (e # es) =
     (if qe_token e \<ge> vocab \<or> qe_token e \<in> set seen
         \<or> \<not> f32_positive_finite (qe_probability_f32_bits e)
      then validation ''sparse q row contains an invalid entry''
      else sparse_entries vocab (qe_token e # seen)
             (round_f64 (tot + f32_units (qe_probability_f32_bits e))) es)"

definition sparse_row_validate :: "sparse_q_row \<Rightarrow> nat \<Rightarrow> nat \<Rightarrow> verifier_error + unit" where
  "sparse_row_validate row vocab max_support =
     all_ok
      [reject (qr_vocab_size row \<noteq> vocab \<or> qr_entries row = [] \<or> length (qr_entries row) > max_support)
         ''sparse q row has invalid vocabulary or support geometry'',
       bind_res (sparse_entries vocab [] 0 (qr_entries row)) (\<lambda>tot.
         reject (f64_abs_sub tot ONE_F64 > MICRO_F64) ''sparse q row is not canonically normalized'')]"

definition sparse_row_contains :: "sparse_q_row \<Rightarrow> nat \<Rightarrow> bool" where
  "sparse_row_contains row token = list_ex (\<lambda>e. qe_token e = token) (qr_entries row)"

lemma sparse_entries_sound:
  "sparse_entries vocab seen tot es = Inr t \<Longrightarrow>
     distinct (map qe_token es) \<and> set (map qe_token es) \<inter> set seen = {}
     \<and> (\<forall>e\<in>set es. qe_token e < vocab \<and> f32_positive_finite (qe_probability_f32_bits e))"
  by (induction vocab seen tot es rule: sparse_entries.induct) (auto split: if_splits)

subsection \<open>Fragment schema and manifest\<close>

fun distinct_requirements :: "(string \<times> fragment_kind) list \<Rightarrow> fragment_requirement list \<Rightarrow> verifier_error + unit" where
  "distinct_requirements seen [] = Inr ()"
| "distinct_requirements seen (q # qs) =
     all_ok
      [validate_identifier ''fragment requirement component id'' (req_component_id q) 128,
       reject ((req_component_id q, req_kind q) \<in> set seen) ''duplicate fragment schema component'',
       distinct_requirements ((req_component_id q, req_kind q) # seen) qs]"

definition validate_fragment_requirements :: "fragment_requirement list \<Rightarrow> verifier_error + unit" where
  "validate_fragment_requirements requirements =
     all_ok
      [reject (requirements = [] \<or> length requirements > MAX_VERIFIER_FRAGMENT_REQUIREMENTS_V1
          \<or> \<not> list_ex req_required requirements)
         ''fragment schema must contain a bounded required component'',
       distinct_requirements [] requirements]"

definition sum_bytes :: "fragment_descriptor list \<Rightarrow> verifier_error + nat" where
  "sum_bytes ds =
     ok_or (try_fold (\<lambda>sum d. checked_add sum (d_byte_len d)) 0 ds) (Validation ''fragment bytes overflow'')"

text \<open>The loop of \<open>validate_fragments\<close>: \<open>ranges\<close> holds, for each component and kind, the ranges
  seen so far (an absent entry of the map is an empty list, as \<open>or_default\<close> makes it).\<close>

type_synonym seen_ranges = "string \<times> fragment_kind \<Rightarrow> (nat \<times> nat) list"

fun validate_fragment_loop :: "seen_ranges \<Rightarrow> nat \<Rightarrow> fragment_descriptor list \<Rightarrow> verifier_error + unit" where
  "validate_fragment_loop ranges i [] = Inr ()"
| "validate_fragment_loop ranges i (d # ds) =
     all_ok
      [reject (d_ordinal d \<noteq> i \<or> d_logical_count d = 0 \<or> d_byte_len d = 0
          \<or> d_byte_len d > MAX_VERIFIER_FRAGMENT_BYTES_V1)
         ''invalid verifier fragment ordinal or bounds'',
       validate_identifier ''fragment component id'' (d_component_id d) 128,
       validate_digest ''fragment'' (d_sha256 d),
       bind_res (ok_or (checked_add (d_logical_start d) (d_logical_count d))
                   (Validation ''fragment range overflow''))
         (\<lambda>fin. let key = (d_component_id d, d_kind d) in
            all_ok
             [reject (list_ex (\<lambda>(start, prior_end). d_logical_start d < prior_end \<and> start < fin) (ranges key))
                ''overlapping verifier fragment ranges'',
              validate_fragment_loop (ranges(key := ranges key @ [(d_logical_start d, fin)])) (Suc i) ds])]"

definition validate_fragments :: "fragment_descriptor list \<Rightarrow> verifier_error + unit" where
  "validate_fragments fragments =
     all_ok
      [reject (length fragments > MAX_VERIFIER_FRAGMENTS_V1) ''too many verifier fragments'',
       validate_fragment_loop (\<lambda>_. []) 0 fragments,
       bind_res (sum_bytes fragments) (\<lambda>total_bytes.
         reject (total_bytes > MAX_VERIFIER_TOTAL_FRAGMENT_BYTES_V1)
           ''verifier fragment set exceeds the protocol byte limit'')]"

subsection \<open>Session genesis\<close>

definition identity_validate :: "composite_identity \<Rightarrow> verifier_error + unit" where
  "identity_validate i =
     all_ok
      (map (\<lambda>(name, value_str). validate_digest name value_str)
        [(''semantic product'', semantic_product_sha256 i),
         (''prefix checkpoint'', prefix_checkpoint_sha256 i),
         (''target checkpoint'', target_checkpoint_sha256 i),
         (''target engine'', target_engine_sha256 i),
         (''target sampler'', target_sampler_sha256 i),
         (''draft checkpoint'', draft_checkpoint_sha256 i),
         (''draft engine'', draft_engine_sha256 i),
         (''tokenizer'', tokenizer_sha256 i),
         (''vocabulary'', vocabulary_sha256 i),
         (''target genesis'', target_genesis_root_sha256 i),
         (''draft genesis'', draft_genesis_root_sha256 i)]
       @ [validate_identifier ''portable KV ABI'' (portable_kv_abi i) 128])"

definition session_geometry_bad :: "session_core \<Rightarrow> bool" where
  "session_geometry_bad s \<longleftrightarrow>
     s_vocab_size s = 0
     \<or> s_max_context_tokens s = 0
     \<or> s_initial_model_position s > s_max_context_tokens s
     \<or> s_max_total_fragment_bytes s = 0
     \<or> s_max_total_fragment_bytes s > MAX_VERIFIER_TOTAL_FRAGMENT_BYTES_V1
     \<or> s_max_drafts s = 0
     \<or> s_max_drafts s > MAX_VERIFIER_DRAFTS_V1
     \<or> s_initial_frontier s \<ge> s_vocab_size s
     \<or> s_initial_frontier_ordinal s \<noteq> s_initial_output_height s"

definition sparse_support_check :: "session_core \<Rightarrow> verifier_error + unit" where
  "sparse_support_check s =
     (case s_coupling_policy s of
        SparseMaximal \<Rightarrow>
          reject (s_max_sparse_support s = 0 \<or> s_max_sparse_support s > MAX_VERIFIER_SPARSE_SUPPORT_V1)
            ''sparse-maximal support cap is invalid''
      | _ \<Rightarrow> reject (s_max_sparse_support s \<noteq> 0)
            ''non-sparse verifier session has a sparse support cap'')"

definition session_validate_historical :: "session_core \<Rightarrow> string \<Rightarrow> nat \<Rightarrow> verifier_error + unit" where
  "session_validate_historical s expected_key_id minimum_epoch =
     all_ok
      [reject (s_protocol s \<noteq> VERIFIER_SESSION_PROTOCOL_V1) ''wrong verifier session protocol'',
       validate_identifier ''session id'' (s_session_id s) 128,
       validate_identifier ''client incarnation'' (s_client_incarnation s) 128,
       validate_identifier ''authority id'' (s_authority_id s) 128,
       validate_identifier ''authority lease id'' (s_authority_lease_id s) 128,
       validate_identifier ''HMAC key id'' (s_hmac_key_id s) 128,
       reject (s_hmac_key_id s \<noteq> expected_key_id \<or> s_hmac_key_epoch s < minimum_epoch)
         ''wrong verifier HMAC key id or stale epoch'',
       reject (s_authority_term s = 0 \<or> s_created_unix_ms s \<ge> s_expires_unix_ms s)
         ''invalid verifier authority term or lifetime'',
       reject (session_geometry_bad s) ''invalid verifier geometry or frontier ordinal'',
       sparse_support_check s,
       validate_digest ''initial head'' (s_initial_head_sha256 s),
       validate_digest ''initial sampler state'' (s_initial_sampler_state_sha256 s),
       validate_digest ''sampler config'' (s_sampler_config_sha256 s),
       validate_fragment_requirements (s_fragment_requirements s),
       identity_validate (s_identity s)]"

definition session_validate :: "session_core \<Rightarrow> nat \<Rightarrow> string \<Rightarrow> nat \<Rightarrow> verifier_error + unit" where
  "session_validate s now expected_key_id minimum_epoch =
     all_ok
      [session_validate_historical s expected_key_id minimum_epoch,
       reject (now > s_expires_unix_ms s
          \<or> s_created_unix_ms s > saturating_add now MAX_VERIFIER_CLOCK_SKEW_MS_V1)
         ''verifier session is expired or created too far in the future'']"

text \<open>Tagging and checking a core, the common part of the three \<open>Authenticated\<close> records.\<close>

definition sign_core :: "crypto \<Rightarrow> bytes \<Rightarrow> bytes \<Rightarrow> ('c \<Rightarrow> string + bytes) \<Rightarrow> 'c \<Rightarrow> verifier_error + 'c authenticated" where
  "sign_core c key domain json k =
     bind_res (canonical json k) (\<lambda>bs.
     bind_res (ok_or (tag_domain_hex c key domain bs) Authentication) (\<lambda>t.
     Inr \<lparr>core = k, hmac_hex = t\<rparr>))"

definition check_core :: "crypto \<Rightarrow> bytes \<Rightarrow> bytes \<Rightarrow> ('c \<Rightarrow> string + bytes) \<Rightarrow> string \<Rightarrow> 'c authenticated \<Rightarrow> verifier_error + unit" where
  "check_core c key domain json name a =
     all_ok
      [validate_digest name (hmac_hex a),
       bind_res (canonical json (core a)) (\<lambda>bs.
         ensure (verify_domain_hex c key domain bs (hmac_hex a)) Authentication)]"

definition session_sign :: "crypto \<Rightarrow> session_core \<Rightarrow> bytes \<Rightarrow> verifier_error + authenticated_session" where
  "session_sign c k key =
     bind_res (session_validate_historical k (s_hmac_key_id k) (s_hmac_key_epoch k)) (\<lambda>_.
     sign_core c key VERIFIER_SESSION_MAC_DOMAIN_V1 (json_session c) k)"

definition session_verify :: "crypto \<Rightarrow> authenticated_session \<Rightarrow> bytes \<Rightarrow> nat \<Rightarrow> string \<Rightarrow> nat \<Rightarrow> verifier_error + unit" where
  "session_verify c a key now expected_key_id minimum_epoch =
     all_ok
      [session_validate (core a) now expected_key_id minimum_epoch,
       check_core c key VERIFIER_SESSION_MAC_DOMAIN_V1 (json_session c) ''session HMAC'' a]"

definition session_verify_historical :: "crypto \<Rightarrow> authenticated_session \<Rightarrow> bytes \<Rightarrow> string \<Rightarrow> nat \<Rightarrow> verifier_error + unit" where
  "session_verify_historical c a key expected_key_id minimum_epoch =
     all_ok
      [session_validate_historical (core a) expected_key_id minimum_epoch,
       check_core c key VERIFIER_SESSION_MAC_DOMAIN_V1 (json_session c) ''session HMAC'' a]"

subsection \<open>Round requests\<close>

text \<open>The model position after the round's candidates: \<open>checked_sub\<close>, then two \<open>checked_add\<close>.
  A vector has fewer than \<open>2^64 - 1\<close> elements, so the candidate count never overflows.\<close>

definition requested_model_end :: "session_core \<Rightarrow> round_core \<Rightarrow> verifier_error + nat" where
  "requested_model_end s r =
     bind_res (ok_or (checked_sub (r_base_output_height r) (s_initial_output_height s))
                 (Validation ''round precedes session genesis'')) (\<lambda>generated_since_genesis.
     let evaluated_candidate_count = length (r_draft_tokens r) + 1 in
     ok_or (case checked_add (s_initial_model_position s) generated_since_genesis of
              None \<Rightarrow> None
            | Some position \<Rightarrow> checked_add position evaluated_candidate_count)
       (Validation ''model position overflow''))"

definition validate_row_for :: "session_core \<Rightarrow> sparse_q_row \<times> nat \<Rightarrow> verifier_error + unit" where
  "validate_row_for s = (\<lambda>(row, token).
     all_ok
      [sparse_row_validate row (s_vocab_size s) (s_max_sparse_support s),
       reject (\<not> sparse_row_contains row token) ''draft token is absent from its declared q support''])"

definition evidence_matches :: "session_core \<Rightarrow> round_core \<Rightarrow> verifier_error + unit" where
  "evidence_matches s r =
     (case (r_coupling_policy r, r_draft_evidence r) of
        (GreedyEquality, EvidenceNone) \<Rightarrow> Inr ()
      | (SharedGumbel, EvidenceSharedGumbel witness) \<Rightarrow> validate_digest ''draft sampler witness'' witness
      | (SparseMaximal, EvidenceSparseMaximal q_rows) \<Rightarrow>
          all_ok
           [reject (length q_rows \<noteq> length (r_draft_tokens r))
              ''sparse q row count differs from draft count'',
            for_each (validate_row_for s) (zip q_rows (r_draft_tokens r))]
      | _ \<Rightarrow> validation ''draft evidence does not match the fixed session policy'')"

definition round_validate_historical :: "crypto \<Rightarrow> round_core \<Rightarrow> session_core \<Rightarrow> verifier_error + unit" where
  "round_validate_historical c r s =
     all_ok
      [reject (r_protocol r \<noteq> VERIFIER_ROUND_PROTOCOL_V1
          \<or> r_session_id r \<noteq> s_session_id s
          \<or> r_authority_term r \<noteq> s_authority_term s
          \<or> r_coupling_policy r \<noteq> s_coupling_policy s)
         ''round addresses the wrong session, authority term, or policy'',
       validate_identifier ''request id'' (r_request_id r) 128,
       validate_identifier ''round HMAC key id'' (r_hmac_key_id r) 128,
       reject (r_hmac_key_id r \<noteq> s_hmac_key_id s
          \<or> r_hmac_key_epoch r \<noteq> s_hmac_key_epoch s
          \<or> r_created_unix_ms r < s_created_unix_ms s
          \<or> r_created_unix_ms r \<ge> r_expires_unix_ms r
          \<or> r_expires_unix_ms r > s_expires_unix_ms s)
         ''round has invalid key identity or lifetime'',
       reject (length (r_draft_tokens r) > s_max_drafts s
          \<or> length (r_draft_tokens r) > MAX_VERIFIER_DRAFTS_V1
          \<or> r_base_output_height r < s_initial_output_height s
          \<or> r_frontier_in r \<ge> s_vocab_size s
          \<or> list_ex (\<lambda>token. token \<ge> s_vocab_size s) (r_draft_tokens r))
         ''round candidates exceed session geometry'',
       bind_res (requested_model_end s r) (\<lambda>fin.
         reject (fin > s_max_context_tokens s)
           ''round candidates exceed the authenticated context limit''),
       validate_digest ''base head'' (r_base_head_sha256 r),
       validate_digest ''draft evidence'' (r_draft_evidence_sha256 r),
       bind_res (canonical (json_evidence c) (r_draft_evidence r)) (\<lambda>evidence_bytes.
         reject (length evidence_bytes > MAX_VERIFIER_DRAFT_EVIDENCE_BYTES_V1
            \<or> sha256_hex c evidence_bytes \<noteq> r_draft_evidence_sha256 r)
           ''inline draft evidence exceeds its cap or differs from its digest''),
       evidence_matches s r,
       validate_digest ''base sampler state'' (r_base_sampler_state_sha256 r),
       validate_digest ''post-draft sampler state'' (r_post_draft_sampler_state_sha256 r)]"

definition round_validate :: "crypto \<Rightarrow> round_core \<Rightarrow> session_core \<Rightarrow> nat \<Rightarrow> verifier_error + unit" where
  "round_validate c r s now =
     all_ok
      [round_validate_historical c r s,
       reject (now > r_expires_unix_ms r
          \<or> r_created_unix_ms r > saturating_add now MAX_VERIFIER_CLOCK_SKEW_MS_V1)
         ''round is expired or created too far in the future'']"

definition round_sign :: "crypto \<Rightarrow> round_core \<Rightarrow> session_core \<Rightarrow> bytes \<Rightarrow> verifier_error + authenticated_round" where
  "round_sign c r s key =
     bind_res (round_validate_historical c r s) (\<lambda>_.
     sign_core c key VERIFIER_ROUND_MAC_DOMAIN_V1 (json_round c) r)"

definition round_verify :: "crypto \<Rightarrow> authenticated_round \<Rightarrow> session_core \<Rightarrow> bytes \<Rightarrow> nat \<Rightarrow> verifier_error + unit" where
  "round_verify c a s key now =
     all_ok
      [round_validate c (core a) s now,
       check_core c key VERIFIER_ROUND_MAC_DOMAIN_V1 (json_round c) ''round HMAC'' a]"

definition round_verify_historical :: "crypto \<Rightarrow> authenticated_round \<Rightarrow> session_core \<Rightarrow> bytes \<Rightarrow> verifier_error + unit" where
  "round_verify_historical c a s key =
     all_ok
      [round_validate_historical c (core a) s,
       check_core c key VERIFIER_ROUND_MAC_DOMAIN_V1 (json_round c) ''round HMAC'' a]"

definition intent_sha256 :: "crypto \<Rightarrow> authenticated_round \<Rightarrow> verifier_error + string" where
  "intent_sha256 c a = bind_res (canonical (json_round c) (core a)) (\<lambda>bs. Inr (sha256_hex c bs))"

subsection \<open>Round results\<close>

definition result_sign :: "crypto \<Rightarrow> result_core \<Rightarrow> bytes \<Rightarrow> verifier_error + authenticated_result" where
  "result_sign c v key = sign_core c key VERIFIER_RESULT_MAC_DOMAIN_V1 (json_result_core c) v"

definition result_verify_tag :: "crypto \<Rightarrow> authenticated_result \<Rightarrow> bytes \<Rightarrow> verifier_error + unit" where
  "result_verify_tag c a key =
     check_core c key VERIFIER_RESULT_MAC_DOMAIN_V1 (json_result_core c) ''result HMAC'' a"

definition fragment_set_sha256 :: "crypto \<Rightarrow> fragment_descriptor list \<Rightarrow> verifier_error + string" where
  "fragment_set_sha256 c ds = bind_res (canonical (json_fragments c) ds) (\<lambda>bs. Inr (sha256_hex c bs))"

definition result_record_sha256 :: "crypto \<Rightarrow> authenticated_result \<Rightarrow> verifier_error + string" where
  "result_record_sha256 c a = bind_res (canonical (json_result c) a) (\<lambda>bs. Inr (sha256_hex c bs))"

definition transition_head_sha256 ::
  "crypto \<Rightarrow> string \<Rightarrow> nat \<Rightarrow> string \<Rightarrow> nat \<Rightarrow> nat list \<Rightarrow> nat \<Rightarrow> nat \<Rightarrow> coupling_policy \<Rightarrow> string \<Rightarrow> string
   \<Rightarrow> string \<Rightarrow> verifier_error + string" where
  "transition_head_sha256 c session_id authority_term parent_head base_height committed frontier_out
     frontier_out_ordinal policy intent sampler_state fragments =
     bind_res (canonical (json_transition c)
       \<lparr>t_domain = ''muser-verifier-head-v1'', t_session_id = session_id,
        t_authority_term = authority_term, t_parent_head_sha256 = parent_head,
        t_base_output_height = base_height, t_committed_tokens = committed,
        t_frontier_out = frontier_out, t_frontier_out_ordinal = frontier_out_ordinal,
        t_coupling_policy = policy, t_request_intent_sha256 = intent,
        t_post_verify_sampler_state_sha256 = sampler_state, t_fragments_sha256 = fragments\<rparr>)
     (\<lambda>bs. Inr (sha256_hex c bs))"

text \<open>The range of logical rows a component must cover.\<close>

definition expected_range :: "result_core \<Rightarrow> round_core \<Rightarrow> fragment_coverage \<Rightarrow> verifier_error + (nat \<times> nat)" where
  "expected_range v r coverage =
     (case coverage of
        CommittedInputs \<Rightarrow> Inr (v_base_output_height v, v_commit_input_count v)
      | RoundSingleton \<Rightarrow> Inr (v_base_output_height v, 1)
      | FreshDraftDistributionsPlusBonus \<Rightarrow>
          bind_res (ok_or (checked_add (v_base_output_height v) 1)
                      (Validation ''fresh target evidence start overflow''))
            (\<lambda>start. Inr (start, length (r_draft_tokens r) + 1)))"

fun collect_ranges :: "fragment_descriptor list \<Rightarrow> verifier_error + (nat \<times> nat) list" where
  "collect_ranges [] = Inr []"
| "collect_ranges (d # ds) =
     bind_res (ok_or (checked_add (d_logical_start d) (d_logical_count d))
                 (Validation ''fragment range overflow'')) (\<lambda>fin.
     bind_res (collect_ranges ds) (\<lambda>rs. Inr ((d_logical_start d, fin) # rs)))"

fun cover_loop :: "nat \<Rightarrow> nat \<Rightarrow> (nat \<times> nat) list \<Rightarrow> verifier_error + nat" where
  "cover_loop cursor expected_end [] = Inr cursor"
| "cover_loop cursor expected_end ((start, fin) # rs) =
     (if start \<noteq> cursor \<or> fin > expected_end
      then validation ''fragment component coverage is gapped or out of range''
      else cover_loop fin expected_end rs)"

definition for_requirement :: "fragment_requirement \<Rightarrow> fragment_descriptor \<Rightarrow> bool" where
  "for_requirement q d \<longleftrightarrow> d_component_id d = req_component_id q \<and> d_kind d = req_kind q"

definition requirement_covered :: "result_core \<Rightarrow> round_core \<Rightarrow> fragment_requirement \<Rightarrow> verifier_error + unit" where
  "requirement_covered v r q =
     bind_res (collect_ranges (filter (for_requirement q) (v_fragments v))) (\<lambda>ranges.
     if ranges = [] then reject (req_required q) ''result omits a required fragment component''
     else
       bind_res (expected_range v r (req_coverage q)) (\<lambda>(expected_start, expected_count).
       bind_res (ok_or (checked_add expected_start expected_count)
                   (Validation ''fragment coverage overflow'')) (\<lambda>expected_end.
       bind_res (cover_loop expected_start expected_end (sort ranges)) (\<lambda>cursor.
       reject (cursor \<noteq> expected_end) ''fragment component coverage is incomplete''))))"

definition validate_fragment_closure :: "result_core \<Rightarrow> round_core \<Rightarrow> session_core \<Rightarrow> verifier_error + unit" where
  "validate_fragment_closure v r s =
     all_ok
      [bind_res (sum_bytes (v_fragments v)) (\<lambda>total_bytes.
         reject (total_bytes > s_max_total_fragment_bytes s)
           ''result exceeds the session fragment byte limit''),
       for_each (\<lambda>d. reject (\<not> list_ex (\<lambda>q. for_requirement q d) (s_fragment_requirements s))
                       ''result contains a component outside the session schema'') (v_fragments v),
       for_each (requirement_covered v r) (s_fragment_requirements s)]"

text \<open>\<open>verify_against\<close>. Its first test is one disjunction that evaluates the intent digest and the
  checked height in the middle; the test is cut there, every part with the same message. The
  additions on \<open>u32\<close> wrap in the release profile.\<close>

definition result_matches_round :: "crypto \<Rightarrow> result_core \<Rightarrow> authenticated_round \<Rightarrow> session_core \<Rightarrow> verifier_error + unit" where
  "result_matches_round c v a s =
     (let r = core a; msg = ''result does not match its authenticated round'' in
      all_ok
       [reject (v_protocol v \<noteq> VERIFIER_RESULT_PROTOCOL_V1
           \<or> v_session_id v \<noteq> r_session_id r
           \<or> v_session_id v \<noteq> s_session_id s
           \<or> v_authority_term v \<noteq> r_authority_term r
           \<or> v_request_id v \<noteq> r_request_id r) msg,
        bind_res (intent_sha256 c a) (\<lambda>intent. reject (v_request_intent_sha256 v \<noteq> intent) msg),
        reject (v_base_output_height v \<noteq> r_base_output_height r
           \<or> v_base_head_sha256 v \<noteq> r_base_head_sha256 r
           \<or> v_base_sampler_state_sha256 v \<noteq> r_base_sampler_state_sha256 r
           \<or> v_accepted_drafts v > length (r_draft_tokens r)
           \<or> v_commit_input_count v \<noteq> (v_accepted_drafts v + 1) mod 2 ^ 32
           \<or> length (v_committed_tokens v) \<noteq> v_commit_input_count v
           \<or> (case v_committed_tokens v of [] \<Rightarrow> True | t # _ \<Rightarrow> t \<noteq> r_frontier_in r)
           \<or> drop 1 (v_committed_tokens v) \<noteq> take (v_accepted_drafts v) (r_draft_tokens r)
           \<or> v_frontier_out v \<ge> s_vocab_size s
           \<or> v_frontier_out_ordinal v \<noteq> v_new_output_height v
           \<or> v_base_output_height v < s_initial_output_height s
           \<or> v_completed_unix_ms v < r_created_unix_ms r
           \<or> v_completed_unix_ms v > r_expires_unix_ms r
           \<or> v_completed_unix_ms v > s_expires_unix_ms s) msg,
        bind_res (ok_or (checked_add (v_base_output_height v) (v_commit_input_count v))
                    (Validation ''output height overflow''))
          (\<lambda>height. reject (v_new_output_height v \<noteq> height) msg)])"

definition result_position_check :: "result_core \<Rightarrow> session_core \<Rightarrow> verifier_error + unit" where
  "result_position_check v s =
     bind_res (ok_or (checked_sub (v_new_output_height v) (s_initial_output_height s))
                 (Validation ''result precedes session genesis'')) (\<lambda>generated_since_genesis.
     bind_res (ok_or (checked_add (s_initial_model_position s) generated_since_genesis)
                 (Validation ''model position overflow'')) (\<lambda>new_model_position.
     reject (new_model_position > s_max_context_tokens s)
       ''result exceeds the authenticated context limit''))"

definition verify_against :: "crypto \<Rightarrow> authenticated_result \<Rightarrow> authenticated_round \<Rightarrow> session_core \<Rightarrow> bytes \<Rightarrow> verifier_error + unit" where
  "verify_against c res a s key =
     (let v = core res; r = core a in
      all_ok
       [result_verify_tag c res key,
        result_matches_round c v a s,
        validate_digest ''new head'' (v_new_head_sha256 v),
        validate_digest ''post-verify sampler state'' (v_post_verify_sampler_state_sha256 v),
        validate_digest ''fragment set'' (v_fragments_sha256 v),
        validate_fragments (v_fragments v),
        validate_fragment_closure v r s,
        bind_res (fragment_set_sha256 c (v_fragments v)) (\<lambda>digest.
          reject (digest \<noteq> v_fragments_sha256 v) ''result fragment commitment differs''),
        result_position_check v s,
        bind_res (transition_head_sha256 c (v_session_id v) (v_authority_term v) (v_base_head_sha256 v)
            (v_base_output_height v) (v_committed_tokens v) (v_frontier_out v) (v_frontier_out_ordinal v)
            (r_coupling_policy r) (v_request_intent_sha256 v) (v_post_verify_sampler_state_sha256 v)
            (v_fragments_sha256 v)) (\<lambda>expected_head.
          reject (expected_head \<noteq> v_new_head_sha256 v) ''result head transition differs'')])"

subsection \<open>Authentication\<close>

lemma check_core_iff:
  assumes "crypto_ok c"
  shows "check_core c key d json n a = Inr u \<longleftrightarrow>
    (\<exists>bs. json (core a) = Inr bs \<and> tag_domain_hex c key d bs = Some (hmac_hex a))"
  using tag_domain_hex_digest [OF assms]
  by (auto simp: check_core_def bind_res_Inr_iff canonical_Inr_iff ensure_Inr_iff
      verify_domain_hex_iff [OF assms])

lemma sign_core_iff:
  "sign_core c key d json k = Inr a \<longleftrightarrow>
    core a = k \<and> (\<exists>bs. json k = Inr bs \<and> tag_domain_hex c key d bs = Some (hmac_hex a))"
  by (cases a) (auto simp: sign_core_def bind_res_Inr_iff canonical_Inr_iff ok_or_Inr_iff)

lemma check_core_signed:
  "crypto_ok c \<Longrightarrow> check_core c key d json n a = Inr u \<longleftrightarrow> sign_core c key d json (core a) = Inr a"
  by (simp add: check_core_iff sign_core_iff)

lemma session_validate_historical_iff:
  "session_validate_historical s key_id epoch = Inr u \<longleftrightarrow>
    session_validate_historical s (s_hmac_key_id s) (s_hmac_key_epoch s) = Inr ()
    \<and> s_hmac_key_id s = key_id \<and> epoch \<le> s_hmac_key_epoch s"
  unfolding session_validate_historical_def by auto

text \<open>C18: Verification accepts exactly what signing produces. For every key and every digest and HMAC
  function with 32-byte outputs, an authenticated session passes \<open>verify\<close> iff signing its core with
  the same key gives this very record, the caller's key id and minimum epoch are met, it is not
  expired and it was not created more than 30 s in the future; an authenticated round passes
  \<open>verify\<close> iff signing its core for the session gives it and its own time window is open.\<close>

theorem verify_iff_signed:
  assumes "crypto_ok c"
  shows "(session_verify c a key now key_id epoch = Inr () \<longleftrightarrow>
      session_sign c (core a) key = Inr a \<and> s_hmac_key_id (core a) = key_id
      \<and> epoch \<le> s_hmac_key_epoch (core a) \<and> now \<le> s_expires_unix_ms (core a)
      \<and> s_created_unix_ms (core a) \<le> saturating_add now MAX_VERIFIER_CLOCK_SKEW_MS_V1)
    \<and> (round_verify c b s key now = Inr () \<longleftrightarrow>
      round_sign c (core b) s key = Inr b \<and> now \<le> r_expires_unix_ms (core b)
      \<and> r_created_unix_ms (core b) \<le> saturating_add now MAX_VERIFIER_CLOCK_SKEW_MS_V1)"
  using session_validate_historical_iff [of "core a" key_id epoch]
  by (auto simp: session_verify_def session_sign_def session_validate_def round_verify_def round_sign_def
      round_validate_def check_core_signed [OF assms] bind_res_Inr_iff not_less)

lemma round_verify_iff_historical:
  "round_verify c a s key now = Inr u \<longleftrightarrow>
    round_verify_historical c a s key = Inr ()
    \<and> now \<le> r_expires_unix_ms (core a)
    \<and> r_created_unix_ms (core a) \<le> saturating_add now MAX_VERIFIER_CLOCK_SKEW_MS_V1"
  by (auto simp: round_verify_def round_verify_historical_def round_validate_def)

subsection \<open>Coverage of an accepted manifest\<close>

definition covers :: "fragment_descriptor \<Rightarrow> nat \<Rightarrow> bool" where
  "covers d x \<longleftrightarrow> d_logical_start d \<le> x \<and> x < d_logical_start d + d_logical_count d"

definition range_of :: "fragment_descriptor \<Rightarrow> nat \<times> nat" where
  "range_of d = (d_logical_start d, d_logical_start d + d_logical_count d)"

lemma validate_fragment_loop_Cons:
  assumes "validate_fragment_loop ranges i (d # ds) = Inr u"
  shows "d_ordinal d = i \<and> 0 < d_logical_count d \<and> d_byte_len d \<le> MAX_VERIFIER_FRAGMENT_BYTES_V1
    \<and> lower_hex_64 (d_sha256 d) \<and> (\<exists>ranges'. validate_fragment_loop ranges' (Suc i) ds = Inr ())"
  using assms by (auto simp: bind_res_Inr_iff Let_def not_less)

lemma validate_fragment_loop_counts:
  "validate_fragment_loop ranges i ds = Inr u \<Longrightarrow> d \<in> set ds \<Longrightarrow> 0 < d_logical_count d"
proof (induction ds arbitrary: ranges i)
  case (Cons e ds)
  from validate_fragment_loop_Cons [OF Cons.prems(1)] Cons show ?case by auto
qed simp

lemma validate_fragment_loop_ordinals:
  "validate_fragment_loop ranges i ds = Inr u \<Longrightarrow> j < length ds \<Longrightarrow> d_ordinal (ds ! j) = i + j"
proof (induction ds arbitrary: ranges i j)
  case (Cons e ds)
  from validate_fragment_loop_Cons [OF Cons.prems(1)] Cons show ?case by (cases j) auto
qed simp

lemma validate_fragments_counts:
  "validate_fragments ds = Inr u \<Longrightarrow> d \<in> set ds \<Longrightarrow> 0 < d_logical_count d"
  by (auto simp: validate_fragments_def intro: validate_fragment_loop_counts)

lemma validate_fragments_ordinals:
  "validate_fragments ds = Inr u \<Longrightarrow> j < length ds \<Longrightarrow> d_ordinal (ds ! j) = j"
  by (auto simp: validate_fragments_def dest: validate_fragment_loop_ordinals)

lemma collect_ranges_Inr: "collect_ranges ds = Inr rs \<Longrightarrow> rs = map range_of ds"
  by (induction ds arbitrary: rs) (auto simp: bind_res_Inr_iff ok_or_Inr_iff checked_iffs range_of_def)

lemma cover_loop_count:
  "cover_loop a b rs = Inr z \<Longrightarrow> \<forall>(s, f)\<in>set rs. s < f \<Longrightarrow> a \<le> z \<and>
   length (filter (\<lambda>(s, f). s \<le> x \<and> x < f) rs) = (if a \<le> x \<and> x < z then 1 else 0)"
proof (induction a b rs rule: cover_loop.induct)
  case (2 cursor b start fin rs)
  then have "fin \<le> z" "cursor < fin" "start = cursor"
    and IH: "length (filter (\<lambda>(s, f). s \<le> x \<and> x < f) rs) = (if fin \<le> x \<and> x < z then 1 else 0)"
    by (auto split: if_splits)
  then show ?case by auto
qed simp

lemma length_filter_sort [simp]: "length (filter P (sort xs)) = length (filter P xs)"
  by (simp add: filter_sort)

lemma requirement_covered_rows:
  assumes "requirement_covered v r q = Inr u"
    and counts: "\<forall>d\<in>set (v_fragments v). 0 < d_logical_count d"
    and present: "req_required q \<or> list_ex (for_requirement q) (v_fragments v)"
  shows "\<exists>start cnt. expected_range v r (req_coverage q) = Inr (start, cnt) \<and>
    (\<forall>x. length (filter (\<lambda>d. for_requirement q d \<and> covers d x) (v_fragments v))
        = (if start \<le> x \<and> x < start + cnt then 1 else 0))"
proof -
  let ?ds = "filter (for_requirement q) (v_fragments v)"
  from assms(1) obtain rs where rs: "collect_ranges ?ds = Inr rs"
    by (auto simp: requirement_covered_def bind_res_Inr_iff)
  then have rs': "rs = map range_of ?ds" by (rule collect_ranges_Inr)
  have "rs \<noteq> []"
  proof
    assume "rs = []"
    with assms(1) rs have "\<not> req_required q" by (simp add: requirement_covered_def)
    with present obtain d where "d \<in> set ?ds" by (auto simp: list_ex_iff)
    with rs' \<open>rs = []\<close> show False by (auto simp: filter_empty_conv)
  qed
  with assms(1) rs obtain start cnt where e: "expected_range v r (req_coverage q) = Inr (start, cnt)"
    and loop: "cover_loop start (start + cnt) (sort rs) = Inr (start + cnt)"
    by (auto simp: requirement_covered_def bind_res_Inr_iff ok_or_Inr_iff checked_iffs)
  have pos: "\<forall>(s, f)\<in>set (sort rs). s < f" using counts by (auto simp: rs' range_of_def)
  have "length (filter (\<lambda>d. for_requirement q d \<and> covers d x) (v_fragments v))
      = (if start \<le> x \<and> x < start + cnt then 1 else 0)" for x
  proof -
    have cov: "(case range_of d of (s, f) \<Rightarrow> s \<le> x \<and> x < f) = covers d x" for d
      by (simp add: range_of_def covers_def)
    from cover_loop_count [OF loop pos, of x] show ?thesis
      by (simp add: rs' filter_map comp_def cov)
  qed
  with e show ?thesis by blast
qed

text \<open>An accepted manifest tiles every component. If a result's fragments pass
  \<open>validate_fragments\<close> and \<open>validate_fragment_closure\<close>, every fragment belongs to a component of the
  session schema; and for every component that is required or present, each logical row of the range
  its coverage rule names lies in exactly one fragment of that component, and rows outside the range
  in none.\<close>

theorem fragment_closure_tiles:
  assumes "validate_fragments (v_fragments v) = Inr ()"
    and "validate_fragment_closure v r s = Inr ()"
  shows "(\<forall>d\<in>set (v_fragments v). \<exists>q\<in>set (s_fragment_requirements s). for_requirement q d)
    \<and> (\<forall>q\<in>set (s_fragment_requirements s). req_required q \<or> list_ex (for_requirement q) (v_fragments v) \<longrightarrow>
        (\<exists>start cnt. expected_range v r (req_coverage q) = Inr (start, cnt) \<and>
          (\<forall>x. length (filter (\<lambda>d. for_requirement q d \<and> covers d x) (v_fragments v))
             = (if start \<le> x \<and> x < start + cnt then 1 else 0))))"
proof -
  have counts: "\<forall>d\<in>set (v_fragments v). 0 < d_logical_count d"
    using validate_fragments_counts [OF assms(1)] by blast
  from assms(2) have "\<forall>d\<in>set (v_fragments v). \<exists>q\<in>set (s_fragment_requirements s). for_requirement q d"
    by (auto simp: validate_fragment_closure_def for_each_Inr_iff list_ex_iff)
  moreover from assms(2) have "\<forall>q\<in>set (s_fragment_requirements s). requirement_covered v r q = Inr ()"
    by (simp add: validate_fragment_closure_def for_each_Inr_iff)
  ultimately show ?thesis using requirement_covered_rows [OF _ counts] by blast
qed

subsection \<open>What an accepted result says\<close>

lemma result_matches_round_facts:
  assumes "result_matches_round c v a s = Inr ()"
  shows "v_request_id v = r_request_id (core a)"
    and "intent_sha256 c a = Inr (v_request_intent_sha256 v)"
    and "v_base_output_height v = r_base_output_height (core a)"
    and "v_base_head_sha256 v = r_base_head_sha256 (core a)"
    and "v_accepted_drafts v \<le> length (r_draft_tokens (core a))"
    and "v_committed_tokens v = r_frontier_in (core a) # take (v_accepted_drafts v) (r_draft_tokens (core a))"
    and "v_commit_input_count v = v_accepted_drafts v + 1"
    and "v_new_output_height v = r_base_output_height (core a) + v_accepted_drafts v + 1"
    and "v_frontier_out v < s_vocab_size s"
    and "v_frontier_out_ordinal v = v_new_output_height v"
    and "s_initial_output_height s \<le> r_base_output_height (core a)"
proof -
  note m = assms [unfolded result_matches_round_def Let_def, simplified bind_res_Inr_iff]
  show "v_request_id v = r_request_id (core a)" using m by simp
  show "intent_sha256 c a = Inr (v_request_intent_sha256 v)" using m by (auto simp: bind_res_Inr_iff)
  show base: "v_base_output_height v = r_base_output_height (core a)" using m by simp
  show "v_base_head_sha256 v = r_base_head_sha256 (core a)" using m by simp
  show acc: "v_accepted_drafts v \<le> length (r_draft_tokens (core a))" using m by simp
  show tokens: "v_committed_tokens v = r_frontier_in (core a) # take (v_accepted_drafts v) (r_draft_tokens (core a))"
    using m by (auto split: list.splits)
  have "length (v_committed_tokens v) = v_commit_input_count v" using m by simp
  then show cnt: "v_commit_input_count v = v_accepted_drafts v + 1" using tokens acc by simp
  from m have "v_new_output_height v = v_base_output_height v + v_commit_input_count v"
    by (auto simp: bind_res_Inr_iff ok_or_Inr_iff checked_iffs)
  then show "v_new_output_height v = r_base_output_height (core a) + v_accepted_drafts v + 1"
    by (simp add: cnt base)
  show "v_frontier_out v < s_vocab_size s" using m by simp
  show "v_frontier_out_ordinal v = v_new_output_height v" using m by simp
  show "s_initial_output_height s \<le> r_base_output_height (core a)" using m base by simp
qed

lemma verify_against_matches:
  "verify_against c res a s key = Inr u \<Longrightarrow> result_matches_round c (core res) a s = Inr ()"
  by (simp add: verify_against_def Let_def)

lemmas verify_against_facts = result_matches_round_facts [OF verify_against_matches]

lemma verify_against_position:
  "verify_against c res a s key = Inr u \<Longrightarrow>
   s_initial_output_height s \<le> v_new_output_height (core res)
   \<and> s_initial_model_position s + (v_new_output_height (core res) - s_initial_output_height s)
     \<le> s_max_context_tokens s"
  by (auto simp: verify_against_def Let_def result_position_check_def bind_res_Inr_iff ok_or_Inr_iff
      checked_iffs)

lemma verify_against_manifest:
  assumes "verify_against c res a s key = Inr u"
  shows "validate_fragments (v_fragments (core res)) = Inr ()"
    and "validate_fragment_closure (core res) (core a) s = Inr ()"
  using assms by (simp_all add: verify_against_def Let_def)

subsection \<open>A concrete session\<close>

text \<open>A greedy session with one required component, a round of two drafts, and crypto primitives that
  return constants: the values on which the hypotheses of the theorems are discharged.\<close>

definition demo_crypto :: crypto where
  "demo_crypto = \<lparr>sha256 = (\<lambda>_. replicate 32 0), hmac_sha256 = (\<lambda>_ _. replicate 32 0),
     json_session = (\<lambda>_. Inr []), json_round = (\<lambda>_. Inr []), json_evidence = (\<lambda>_. Inr []),
     json_result_core = (\<lambda>_. Inr []), json_result = (\<lambda>_. Inr []), json_fragments = (\<lambda>_. Inr []),
     json_transition = (\<lambda>_. Inr [])\<rparr>"

definition demo_digest :: string where
  "demo_digest = replicate 64 CHR ''0''"

definition demo_identity :: composite_identity where
  "demo_identity = \<lparr>semantic_product_sha256 = demo_digest, prefix_checkpoint_sha256 = demo_digest,
     target_checkpoint_sha256 = demo_digest, target_engine_sha256 = demo_digest,
     target_sampler_sha256 = demo_digest, draft_checkpoint_sha256 = demo_digest,
     draft_engine_sha256 = demo_digest, tokenizer_sha256 = demo_digest,
     vocabulary_sha256 = demo_digest, target_genesis_root_sha256 = demo_digest,
     draft_genesis_root_sha256 = demo_digest, portable_kv_abi = ''muse-kv-v2''\<rparr>"

definition demo_session :: session_core where
  "demo_session = \<lparr>s_protocol = VERIFIER_SESSION_PROTOCOL_V1, s_session_id = ''session-a'',
     s_client_incarnation = ''mac-boot-a'', s_authority_id = ''gx10-a'', s_authority_lease_id = ''lease-a'',
     s_authority_term = 1, s_created_unix_ms = 10, s_expires_unix_ms = 1000, s_hmac_key_id = ''key-a'',
     s_hmac_key_epoch = 7, s_identity = demo_identity, s_sampler_seed = [],
     s_coupling_policy = GreedyEquality, s_sampler_config_sha256 = demo_digest,
     s_initial_sampler_state_sha256 = demo_digest, s_vocab_size = 100, s_max_context_tokens = 50,
     s_max_total_fragment_bytes = 64, s_max_drafts = 4, s_max_sparse_support = 0,
     s_initial_model_position = 5, s_initial_output_height = 0, s_initial_frontier_ordinal = 0,
     s_initial_head_sha256 = demo_digest, s_initial_frontier = 11,
     s_fragment_requirements =
       [\<lparr>req_component_id = ''target-hidden'', req_kind = TargetHidden, req_coverage = CommittedInputs,
         req_required = True\<rparr>]\<rparr>"

definition demo_round :: round_core where
  "demo_round = \<lparr>r_protocol = VERIFIER_ROUND_PROTOCOL_V1, r_session_id = ''session-a'',
     r_authority_term = 1, r_request_id = ''request-1'', r_created_unix_ms = 11, r_expires_unix_ms = 100,
     r_hmac_key_id = ''key-a'', r_hmac_key_epoch = 7, r_base_output_height = 0,
     r_base_head_sha256 = demo_digest, r_frontier_ordinal = 0, r_frontier_in = 11,
     r_draft_tokens = [12, 13], r_coupling_policy = GreedyEquality,
     r_draft_evidence_sha256 = demo_digest, r_draft_evidence = EvidenceNone,
     r_base_sampler_state_sha256 = demo_digest, r_post_draft_sampler_state_sha256 = demo_digest\<rparr>"

definition demo_fragments :: "fragment_descriptor list" where
  "demo_fragments =
     [\<lparr>d_ordinal = 0, d_component_id = ''target-hidden'', d_kind = TargetHidden, d_logical_start = 1,
       d_logical_count = 1, d_byte_len = 2, d_sha256 = demo_digest\<rparr>,
      \<lparr>d_ordinal = 1, d_component_id = ''target-hidden'', d_kind = TargetHidden, d_logical_start = 0,
       d_logical_count = 1, d_byte_len = 1, d_sha256 = demo_digest\<rparr>]"

definition demo_result :: result_core where
  "demo_result = \<lparr>v_protocol = VERIFIER_RESULT_PROTOCOL_V1, v_session_id = ''session-a'',
     v_authority_term = 1, v_request_id = ''request-1'', v_request_intent_sha256 = demo_digest,
     v_base_output_height = 0, v_base_head_sha256 = demo_digest, v_base_sampler_state_sha256 = demo_digest,
     v_accepted_drafts = 1, v_commit_input_count = 2, v_committed_tokens = [11, 12], v_frontier_out = 99,
     v_frontier_out_ordinal = 2, v_new_output_height = 2, v_new_head_sha256 = demo_digest,
     v_post_verify_sampler_state_sha256 = demo_digest, v_fragments_sha256 = demo_digest,
     v_fragments = demo_fragments, v_completed_unix_ms = 20\<rparr>"

definition demo_tagged :: "'c \<Rightarrow> 'c authenticated" where
  "demo_tagged k = \<lparr>core = k, hmac_hex = demo_digest\<rparr>"

lemma core_demo_tagged: "core (demo_tagged k) = k"
  by (simp add: demo_tagged_def)

lemma demo_crypto_ok: "crypto_ok demo_crypto"
  by (simp add: crypto_ok_def demo_crypto_def)

lemmas verifier_limits =
  MAX_VERIFIER_DRAFTS_V1_def MAX_VERIFIER_FRAGMENTS_V1_def MAX_VERIFIER_FRAGMENT_BYTES_V1_def
  MAX_VERIFIER_TOTAL_FRAGMENT_BYTES_V1_def MAX_VERIFIER_CLOCK_SKEW_MS_V1_def
  MAX_VERIFIER_FRAGMENT_REQUIREMENTS_V1_def MAX_VERIFIER_SPARSE_SUPPORT_V1_def
  MAX_VERIFIER_DRAFT_EVIDENCE_BYTES_V1_def

lemma demo_digest_ok: "lower_hex_64 demo_digest"
  by code_simp

lemma demo_hex: "hex_encode (replicate 32 0) = demo_digest"
  by code_simp

lemma demo_identity_ok: "identity_validate demo_identity = Inr ()"
  by code_simp

lemma demo_identifiers:
  "identifier_ok ''session-a''" "identifier_ok ''mac-boot-a''" "identifier_ok ''gx10-a''"
  "identifier_ok ''lease-a''" "identifier_ok ''key-a''" "identifier_ok ''request-1''"
  "identifier_ok ''target-hidden''"
  by code_simp+

lemma demo_json [simp]:
  "json_session demo_crypto k = Inr []" "json_round demo_crypto r = Inr []"
  "json_evidence demo_crypto e = Inr []" "json_result_core demo_crypto v = Inr []"
  "json_result demo_crypto w = Inr []" "json_fragments demo_crypto f = Inr []"
  "json_transition demo_crypto t = Inr []" "sha256_hex demo_crypto m = demo_digest"
  by (simp_all add: demo_crypto_def sha256_hex_def demo_hex)

lemma demo_domains:
  "tag_domain_hex demo_crypto [] VERIFIER_SESSION_MAC_DOMAIN_V1 [] = Some demo_digest"
  "tag_domain_hex demo_crypto [] VERIFIER_ROUND_MAC_DOMAIN_V1 [] = Some demo_digest"
  "tag_domain_hex demo_crypto [] VERIFIER_RESULT_MAC_DOMAIN_V1 [] = Some demo_digest"
  by (simp_all add: tag_domain_hex_def VERIFIER_SESSION_MAC_DOMAIN_V1_def VERIFIER_ROUND_MAC_DOMAIN_V1_def
      VERIFIER_RESULT_MAC_DOMAIN_V1_def str_def demo_crypto_def demo_hex)

lemmas demo_facts = verifier_limits demo_digest_ok demo_hex demo_identity_ok demo_identifiers demo_domains

lemma demo_session_valid: "session_validate_historical demo_session ''key-a'' 7 = Inr ()"
  by (simp add: session_validate_historical_def session_geometry_bad_def sparse_support_check_def
      validate_fragment_requirements_def demo_session_def demo_facts)

lemma demo_session_signed: "session_sign demo_crypto demo_session [] = Inr (demo_tagged demo_session)"
proof -
  have "s_hmac_key_id demo_session = ''key-a''" "s_hmac_key_epoch demo_session = 7"
    by (simp_all add: demo_session_def)
  with demo_session_valid show ?thesis
    by (simp add: session_sign_def sign_core_iff demo_tagged_def demo_facts)
qed

lemma demo_round_valid: "round_validate_historical demo_crypto demo_round demo_session = Inr ()"
  by (simp add: round_validate_historical_def requested_model_end_def evidence_matches_def canonical_def
      arith_defs demo_session_def demo_round_def demo_facts)

lemma demo_round_signed: "round_sign demo_crypto demo_round demo_session [] = Inr (demo_tagged demo_round)"
  by (simp add: round_sign_def demo_round_valid sign_core_iff demo_tagged_def demo_facts)

lemma demo_fragments_valid:
  "validate_fragments demo_fragments = Inr ()"
  by (simp add: validate_fragments_def sum_bytes_def arith_defs demo_fragments_def demo_facts)

lemma demo_closure_valid:
  "validate_fragment_closure demo_result demo_round demo_session = Inr ()"
  by (simp add: validate_fragment_closure_def requirement_covered_def sum_bytes_def expected_range_def
      for_requirement_def arith_defs demo_fragments_def demo_result_def demo_session_def demo_facts)

lemma demo_result_verifies:
  "verify_against demo_crypto (demo_tagged demo_result) (demo_tagged demo_round) demo_session [] = Inr ()"
proof -
  have tag: "result_verify_tag demo_crypto (demo_tagged demo_result) [] = Inr ()"
    by (simp add: result_verify_tag_def check_core_iff [OF demo_crypto_ok] demo_tagged_def demo_facts)
  have "v_fragments demo_result = demo_fragments" by (simp add: demo_result_def)
  then show ?thesis using demo_fragments_valid demo_closure_valid tag
    by (simp add: verify_against_def demo_tagged_def result_matches_round_def intent_sha256_def Let_def
      result_position_check_def fragment_set_sha256_def transition_head_sha256_def canonical_def
      arith_defs demo_facts)
      (simp add: demo_result_def demo_round_def demo_session_def demo_facts)
qed

theorem verify_iff_signed_witness:
  "session_verify demo_crypto (demo_tagged demo_session) [] 500 ''key-a'' 3 = Inr ()
   \<and> round_verify demo_crypto (demo_tagged demo_round) demo_session [] 50 = Inr ()"
proof -
  have e: "s_hmac_key_id demo_session = ''key-a''" "s_hmac_key_epoch demo_session = 7"
    "s_expires_unix_ms demo_session = 1000" "s_created_unix_ms demo_session = 10"
    "r_expires_unix_ms demo_round = 100" "r_created_unix_ms demo_round = 11"
    by (simp_all add: demo_session_def demo_round_def)
  have t: "(10 :: nat) \<le> saturating_add 500 MAX_VERIFIER_CLOCK_SKEW_MS_V1"
    "(11 :: nat) \<le> saturating_add 50 MAX_VERIFIER_CLOCK_SKEW_MS_V1"
    by (simp_all add: arith_defs verifier_limits)
  show ?thesis
    using verify_iff_signed [OF demo_crypto_ok, of "demo_tagged demo_session" "[]" 500 "''key-a''" 3]
      verify_iff_signed [OF demo_crypto_ok, where b = "demo_tagged demo_round" and s = demo_session
        and key = "[]" and now = 50]
    by (simp add: core_demo_tagged e t demo_session_signed demo_round_signed)
qed

theorem fragment_closure_tiles_witness:
  "(\<exists>d\<in>set demo_fragments. \<exists>q\<in>set (s_fragment_requirements demo_session). for_requirement q d)
   \<and> (\<exists>q start cnt. expected_range demo_result demo_round (req_coverage q) = Inr (start, cnt)
     \<and> length (filter (\<lambda>d. for_requirement q d \<and> covers d 1) demo_fragments)
       = (if start \<le> 1 \<and> 1 < start + cnt then 1 else 0))"
proof -
  have f: "v_fragments demo_result = demo_fragments" by (simp add: demo_result_def)
  let ?q = "hd (s_fragment_requirements demo_session)"
  have q: "?q \<in> set (s_fragment_requirements demo_session)" "req_required ?q"
    by (simp_all add: demo_session_def)
  have "hd demo_fragments \<in> set demo_fragments" by (simp add: demo_fragments_def)
  with fragment_closure_tiles [OF demo_fragments_valid [folded f] demo_closure_valid] q show ?thesis
    unfolding f by blast
qed

end
