(* ===== verification/Fragment_Assembly.thy ===== *)
theory Fragment_Assembly
  imports Verifier_Protocol
begin

section \<open>Fragment assembly\<close>

text \<open>
  \<open>VerifierFragmentAssemblerV1\<close> and \<open>VerifiedResultClosureV1\<close> of
  \<open>crates/muser-cluster/src/verifier.rs\<close>: the payloads of one authenticated result arrive in any
  order, duplicated or corrupted, and \<open>finish\<close> gives a closure only when every one has been received
  and checked. \<open>insert\<close> takes \<open>&mut self\<close>: it returns the next assembler together with its result,
  because its last error is raised after \<open>received_bytes\<close> has been updated.

  Shown here: what has been received depends only on the set of inserted fragments and not on their
  order, the receiver's byte limit is never exceeded, and \<open>finish\<close> succeeds exactly on a complete set
  with a closure that the round log accepts for that result.
\<close>

datatype fragment_insert = Inserted | Duplicate

record verified_fragment =
  vf_descriptor :: fragment_descriptor
  vf_payload :: bytes

record result_closure =
  clo_result_record_sha256 :: string
  clo_fragments :: "verified_fragment list"

definition closure_verify_result :: "crypto \<Rightarrow> result_closure \<Rightarrow> authenticated_result \<Rightarrow> verifier_error + unit" where
  "closure_verify_result c clo res =
     bind_res (result_record_sha256 c res) (\<lambda>digest.
     reject (clo_result_record_sha256 clo \<noteq> digest
        \<or> length (clo_fragments clo) \<noteq> length (v_fragments (core res))
        \<or> list_ex (\<lambda>(f, d). vf_descriptor f \<noteq> d) (zip (clo_fragments clo) (v_fragments (core res))))
       ''verified closure belongs to a different result'')"

record assembler =
  asm_result_record_sha256 :: string
  asm_descriptors :: "fragment_descriptor list"
  asm_payloads :: "bytes option list"
  asm_received_bytes :: nat
  asm_max_total_bytes :: nat

definition assembler_new ::
  "crypto \<Rightarrow> authenticated_result \<Rightarrow> authenticated_round \<Rightarrow> session_core \<Rightarrow> bytes \<Rightarrow> nat \<Rightarrow> verifier_error + assembler" where
  "assembler_new c res a s key max_total_bytes =
     bind_res (verify_against c res a s key) (\<lambda>_.
     bind_res (reject (max_total_bytes = 0) ''receiver fragment limit must be positive'') (\<lambda>_.
     bind_res (sum_bytes (v_fragments (core res))) (\<lambda>declared.
     let effective_limit = min (min max_total_bytes (s_max_total_fragment_bytes s))
                             MAX_VERIFIER_TOTAL_FRAGMENT_BYTES_V1 in
     bind_res (reject (declared > effective_limit) ''fragment closure exceeds receiver byte limit'') (\<lambda>_.
     bind_res (result_record_sha256 c res) (\<lambda>digest.
     Inr \<lparr>asm_result_record_sha256 = digest, asm_descriptors = v_fragments (core res),
          asm_payloads = replicate (length (v_fragments (core res))) None,
          asm_received_bytes = 0, asm_max_total_bytes = effective_limit\<rparr>)))))"

definition assembler_insert ::
  "crypto \<Rightarrow> assembler \<Rightarrow> nat \<Rightarrow> bytes \<Rightarrow> assembler \<times> (verifier_error + fragment_insert)" where
  "assembler_insert c m ordinal payload =
     (if ordinal \<ge> length (asm_descriptors m) then (m, validation ''undeclared fragment ordinal'')
      else let d = asm_descriptors m ! ordinal in
        if d_ordinal d \<noteq> ordinal \<or> length payload \<noteq> d_byte_len d \<or> sha256_hex c payload \<noteq> d_sha256 d
        then (m, validation ''fragment length or digest differs from manifest'')
        else case asm_payloads m ! ordinal of
            Some existing \<Rightarrow>
              (m, if existing = payload then Inr Duplicate
                  else validation ''duplicate fragment ordinal has different bytes'')
          | None \<Rightarrow>
              (case checked_add (asm_received_bytes m) (d_byte_len d) of
                 None \<Rightarrow> (m, validation ''received bytes overflow'')
               | Some received \<Rightarrow>
                   let m1 = m\<lparr>asm_received_bytes := received\<rparr> in
                   if received > asm_max_total_bytes m
                   then (m1, validation ''received fragments exceed receiver byte limit'')
                   else (m1\<lparr>asm_payloads := (asm_payloads m)[ordinal := Some payload]\<rparr>, Inr Inserted)))"

definition missing_ordinals :: "assembler \<Rightarrow> nat list" where
  "missing_ordinals m =
     map (\<lambda>(i, _). i mod 2 ^ 32) (filter (\<lambda>(_, p). p = None) (List.enumerate 0 (asm_payloads m)))"

definition is_complete :: "assembler \<Rightarrow> bool" where
  "is_complete m = list_all (\<lambda>p. p \<noteq> None) (asm_payloads m)"

text \<open>\<open>finish\<close>; the \<open>expect\<close> on a payload cannot fail after the completeness check.\<close>

definition assembler_finish :: "assembler \<Rightarrow> verifier_error + result_closure" where
  "assembler_finish m =
     (if \<not> is_complete m then Inl Incomplete
      else Inr \<lparr>clo_result_record_sha256 = asm_result_record_sha256 m,
                clo_fragments = map (\<lambda>(d, p). \<lparr>vf_descriptor = d, vf_payload = the p\<rparr>)
                                  (zip (asm_descriptors m) (asm_payloads m))\<rparr>)"

text \<open>A sequence of arrivals.\<close>

fun insert_all :: "crypto \<Rightarrow> assembler \<Rightarrow> (nat \<times> bytes) list \<Rightarrow> assembler" where
  "insert_all c m [] = m"
| "insert_all c m ((ordinal, payload) # ops) = insert_all c (fst (assembler_insert c m ordinal payload)) ops"

subsection \<open>The invariant of an assembler\<close>

definition payload_ok :: "crypto \<Rightarrow> fragment_descriptor \<Rightarrow> bytes \<Rightarrow> bool" where
  "payload_ok c d p \<longleftrightarrow> length p = d_byte_len d \<and> sha256_hex c p = d_sha256 d"

definition received_size :: "fragment_descriptor \<times> bytes option \<Rightarrow> nat" where
  "received_size = (\<lambda>(d, p). if p = None then 0 else d_byte_len d)"

definition asm_inv :: "crypto \<Rightarrow> assembler \<Rightarrow> bool" where
  "asm_inv c m \<longleftrightarrow>
     length (asm_payloads m) = length (asm_descriptors m)
     \<and> length (asm_descriptors m) \<le> MAX_VERIFIER_FRAGMENTS_V1
     \<and> (\<forall>i<length (asm_descriptors m). d_ordinal (asm_descriptors m ! i) = i)
     \<and> (\<forall>i<length (asm_descriptors m). \<forall>p. asm_payloads m ! i = Some p \<longrightarrow> payload_ok c (asm_descriptors m ! i) p)
     \<and> asm_received_bytes m = sum_list (map received_size (zip (asm_descriptors m) (asm_payloads m)))
     \<and> sum_list (map d_byte_len (asm_descriptors m)) \<le> asm_max_total_bytes m
     \<and> asm_max_total_bytes m \<le> MAX_VERIFIER_TOTAL_FRAGMENT_BYTES_V1"

lemma received_size_None:
  "sum_list (map received_size (zip ds (replicate (length ds) None))) = 0"
  by (induction ds) (simp_all add: received_size_def)

lemma received_le:
  "length ps = length ds \<Longrightarrow> sum_list (map received_size (zip ds ps)) \<le> sum_list (map d_byte_len ds)"
  by (induction ds ps rule: list_induct2') (auto simp: received_size_def)

lemma received_update:
  "length ps = length ds \<Longrightarrow> i < length ds \<Longrightarrow> ps ! i = None \<Longrightarrow>
   sum_list (map received_size (zip ds (ps[i := Some p])))
     = sum_list (map received_size (zip ds ps)) + d_byte_len (ds ! i)"
proof (induction ds ps arbitrary: i rule: list_induct2')
  case (4 d ds q ps)
  then show ?case by (cases i) (auto simp: received_size_def)
qed simp_all

lemma assembler_new_inv:
  assumes "assembler_new c res a s key n = Inr m"
  shows "asm_inv c m" and "asm_descriptors m = v_fragments (core res)"
    and "asm_payloads m = replicate (length (v_fragments (core res))) None"
    and "result_record_sha256 c res = Inr (asm_result_record_sha256 m)"
    and "asm_max_total_bytes m \<le> n" and "asm_max_total_bytes m \<le> s_max_total_fragment_bytes s"
    and "verify_against c res a s key = Inr ()"
proof -
  from assms obtain declared digest where
    v: "verify_against c res a s key = Inr ()"
    and sum: "sum_bytes (v_fragments (core res)) = Inr declared"
    and dig: "result_record_sha256 c res = Inr digest"
    and le: "declared \<le> min (min n (s_max_total_fragment_bytes s)) MAX_VERIFIER_TOTAL_FRAGMENT_BYTES_V1"
    and m: "m = \<lparr>asm_result_record_sha256 = digest, asm_descriptors = v_fragments (core res),
          asm_payloads = replicate (length (v_fragments (core res))) None, asm_received_bytes = 0,
          asm_max_total_bytes = min (min n (s_max_total_fragment_bytes s)) MAX_VERIFIER_TOTAL_FRAGMENT_BYTES_V1\<rparr>"
    by (auto simp: assembler_new_def bind_res_Inr_iff Let_def not_less)
  note man = verify_against_manifest(1) [OF v]
  have "length (v_fragments (core res)) \<le> MAX_VERIFIER_FRAGMENTS_V1"
    using man by (simp add: validate_fragments_def)
  moreover from sum have "declared = sum_list (map d_byte_len (v_fragments (core res)))"
    by (auto simp: sum_bytes_def ok_or_Inr_iff dest: try_fold_checked_add)
  ultimately show "asm_inv c m"
    using validate_fragments_ordinals [OF man] le by (auto simp: asm_inv_def m received_size_None)
  show "asm_descriptors m = v_fragments (core res)"
    "asm_payloads m = replicate (length (v_fragments (core res))) None"
    "result_record_sha256 c res = Inr (asm_result_record_sha256 m)"
    "asm_max_total_bytes m \<le> n" "asm_max_total_bytes m \<le> s_max_total_fragment_bytes s"
    by (simp_all add: m dig)
  show "verify_against c res a s key = Inr ()" by (rule v)
qed

text \<open>Under the invariant neither the overflow check nor the byte limit of \<open>insert\<close> is ever hit:
  a valid fragment is stored or recognised.\<close>

lemma assembler_insert_cases:
  assumes inv: "asm_inv c m"
  shows "fst (assembler_insert c m i p) =
    (if i < length (asm_descriptors m) \<and> payload_ok c (asm_descriptors m ! i) p \<and> asm_payloads m ! i = None
     then m\<lparr>asm_received_bytes := asm_received_bytes m + d_byte_len (asm_descriptors m ! i),
            asm_payloads := (asm_payloads m)[i := Some p]\<rparr>
     else m)"
proof (cases "i < length (asm_descriptors m) \<and> payload_ok c (asm_descriptors m ! i) p \<and> asm_payloads m ! i = None")
  case True
  let ?d = "asm_descriptors m ! i"
  have len: "length (asm_payloads m) = length (asm_descriptors m)" using inv by (simp add: asm_inv_def)
  have "asm_received_bytes m + d_byte_len ?d \<le> asm_max_total_bytes m"
    using received_update [OF len, of i p] received_le [of "(asm_payloads m)[i := Some p]" "asm_descriptors m"]
      True inv len by (auto simp: asm_inv_def)
  moreover have "asm_max_total_bytes m < 2 ^ 64"
    using inv by (simp add: asm_inv_def verifier_limits)
  ultimately show ?thesis using True inv
    by (simp add: assembler_insert_def payload_ok_def asm_inv_def checked_add_def Let_def)
next
  case False
  then show ?thesis using inv
    by (auto simp: assembler_insert_def payload_ok_def asm_inv_def Let_def split: option.splits)
qed

lemma assembler_insert_inv:
  assumes inv: "asm_inv c m"
  shows "asm_inv c (fst (assembler_insert c m i p))"
proof (cases "i < length (asm_descriptors m) \<and> payload_ok c (asm_descriptors m ! i) p \<and> asm_payloads m ! i = None")
  case True
  have len: "length (asm_payloads m) = length (asm_descriptors m)" using inv by (simp add: asm_inv_def)
  with received_update [OF len, of i p] True inv show ?thesis
    by (auto simp: assembler_insert_cases [OF inv] asm_inv_def nth_list_update)
qed (use inv in \<open>auto simp: assembler_insert_cases\<close>)

lemma assembler_insert_static [simp]:
  "asm_descriptors (fst (assembler_insert c m i p)) = asm_descriptors m"
  "asm_result_record_sha256 (fst (assembler_insert c m i p)) = asm_result_record_sha256 m"
  "asm_max_total_bytes (fst (assembler_insert c m i p)) = asm_max_total_bytes m"
  by (auto simp: assembler_insert_def Let_def split: option.splits)

lemma insert_all_static [simp]:
  "asm_descriptors (insert_all c m ops) = asm_descriptors m"
  "asm_result_record_sha256 (insert_all c m ops) = asm_result_record_sha256 m"
  "asm_max_total_bytes (insert_all c m ops) = asm_max_total_bytes m"
  by (induction c m ops rule: insert_all.induct) simp_all

lemma insert_all_inv: "asm_inv c m \<Longrightarrow> asm_inv c (insert_all c m ops)"
  by (induction c m ops rule: insert_all.induct) (auto intro: assembler_insert_inv)

text \<open>A slot is filled exactly when it was, or when a matching fragment is among the arrivals.\<close>

lemma insert_all_filled:
  "asm_inv c m \<Longrightarrow> j < length (asm_descriptors m) \<Longrightarrow>
   (asm_payloads (insert_all c m ops) ! j = None \<longleftrightarrow>
    asm_payloads m ! j = None \<and> (\<forall>p. (j, p) \<in> set ops \<longrightarrow> \<not> payload_ok c (asm_descriptors m ! j) p))"
proof (induction ops arbitrary: m)
  case (Cons op ops)
  obtain i p where op: "op = (i, p)" by (cases op)
  let ?m = "fst (assembler_insert c m i p)"
  have len: "length (asm_payloads m) = length (asm_descriptors m)" using Cons.prems by (simp add: asm_inv_def)
  have "asm_payloads ?m ! j = None \<longleftrightarrow>
      asm_payloads m ! j = None \<and> \<not> (i = j \<and> payload_ok c (asm_descriptors m ! j) p)"
    using Cons.prems len by (auto simp: assembler_insert_cases nth_list_update)
  moreover have "asm_inv c ?m" using Cons.prems(1) by (rule assembler_insert_inv)
  ultimately show ?case using Cons.IH [of ?m] Cons.prems op by auto
qed simp

lemma missing_ordinals_eq:
  assumes "length (asm_payloads m) \<le> MAX_VERIFIER_FRAGMENTS_V1"
  shows "missing_ordinals m = filter (\<lambda>i. asm_payloads m ! i = None) [0..<length (asm_payloads m)]"
proof -
  let ?n = "length (asm_payloads m)"
  have "List.enumerate 0 (asm_payloads m) = map (\<lambda>i. (i, asm_payloads m ! i)) [0..<?n]"
    by (rule nth_equalityI) (simp_all add: nth_enumerate_eq)
  moreover have "map (\<lambda>i. i mod 2 ^ 32) (filter P [0..<?n]) = filter P [0..<?n]" for P
    by (rule map_idI) (use assms in \<open>auto simp: verifier_limits\<close>)
  ultimately show ?thesis by (simp add: missing_ordinals_def filter_map comp_def)
qed

lemma is_complete_iff:
  "length (asm_payloads m) \<le> MAX_VERIFIER_FRAGMENTS_V1 \<Longrightarrow> is_complete m \<longleftrightarrow> missing_ordinals m = []"
  by (auto simp: missing_ordinals_eq is_complete_def list_all_length filter_empty_conv)

lemma assembler_finish_payloads:
  assumes "asm_inv c m" and "assembler_finish m = Inr clo" and "f \<in> set (clo_fragments clo)"
  shows "payload_ok c (vf_descriptor f) (vf_payload f)"
proof -
  from assms(2) have comp: "is_complete m" by (simp add: assembler_finish_def split: if_splits)
  from assms(2,3) obtain i where i: "i < length (asm_descriptors m)" "i < length (asm_payloads m)"
    and f: "f = \<lparr>vf_descriptor = asm_descriptors m ! i, vf_payload = the (asm_payloads m ! i)\<rparr>"
    by (auto simp: assembler_finish_def in_set_zip split: if_splits)
  from comp i obtain p where "asm_payloads m ! i = Some p" by (auto simp: is_complete_def list_all_length)
  with assms(1) i f show ?thesis by (simp add: asm_inv_def)
qed

lemma assembler_finish_verifies:
  assumes "asm_inv c m" and "assembler_finish m = Inr clo"
    and "asm_descriptors m = v_fragments (core res)"
    and "result_record_sha256 c res = Inr (asm_result_record_sha256 m)"
  shows "closure_verify_result c clo res = Inr ()"
proof -
  have len: "length (asm_payloads m) = length (v_fragments (core res))" using assms by (simp add: asm_inv_def)
  have "\<not> list_ex (\<lambda>(f, d). vf_descriptor f \<noteq> d) (zip (map (\<lambda>(d, p). \<lparr>vf_descriptor = d, vf_payload = the p\<rparr>)
      (zip ds ps)) ds)" if "length ps = length ds" for ds and ps :: "bytes option list"
    using that by (induction ds ps rule: list_induct2') auto
  from this [OF len] assms len show ?thesis
    by (auto simp: closure_verify_result_def assembler_finish_def split: if_splits)
qed

subsection \<open>Arbitrary arrival\<close>

text \<open>C17: Assembly is exact and independent of arrival order. Start from the assembler of an accepted
  result and insert any sequence of fragments: reordered, duplicated, undeclared or corrupted. The
  missing ordinals are those for which no fragment with the declared length and digest was among
  them, in ascending order; the bytes counted as received never exceed the caller's limit or the
  session's; and \<open>finish\<close> fails with \<open>Incomplete\<close> while an ordinal is missing, and otherwise gives a
  closure that verifies for this result, whose payloads all have the declared length and digest.\<close>

theorem assembly_exact:
  assumes "assembler_new c res a s key n = Inr m"
  shows "missing_ordinals (insert_all c m ops) =
      filter (\<lambda>i. \<forall>(j, p)\<in>set ops. j = i \<longrightarrow> \<not> payload_ok c (v_fragments (core res) ! i) p)
        [0..<length (v_fragments (core res))]
    \<and> asm_received_bytes (insert_all c m ops) \<le> min n (s_max_total_fragment_bytes s)
    \<and> (case assembler_finish (insert_all c m ops) of
        Inl e \<Rightarrow> e = Incomplete \<and> missing_ordinals (insert_all c m ops) \<noteq> []
      | Inr clo \<Rightarrow> missing_ordinals (insert_all c m ops) = []
          \<and> closure_verify_result c clo res = Inr ()
          \<and> (\<forall>f\<in>set (clo_fragments clo). payload_ok c (vf_descriptor f) (vf_payload f)))"
proof -
  note new = assembler_new_inv [OF assms]
  let ?m = "insert_all c m ops"
  have inv: "asm_inv c ?m" by (rule insert_all_inv [OF new(1)])
  have len: "length (asm_payloads ?m) = length (v_fragments (core res))"
    "length (asm_payloads ?m) \<le> MAX_VERIFIER_FRAGMENTS_V1"
    using inv new(2) by (simp_all add: asm_inv_def)
  have "asm_payloads ?m ! i = None \<longleftrightarrow>
      (\<forall>(j, p)\<in>set ops. j = i \<longrightarrow> \<not> payload_ok c (v_fragments (core res) ! i) p)"
    if "i < length (v_fragments (core res))" for i
    using insert_all_filled [OF new(1), of i ops] that by (auto simp: new(2,3))
  then have "missing_ordinals ?m =
      filter (\<lambda>i. \<forall>(j, p)\<in>set ops. j = i \<longrightarrow> \<not> payload_ok c (v_fragments (core res) ! i) p)
        [0..<length (v_fragments (core res))]"
    unfolding missing_ordinals_eq [OF len(2)] len(1) by (intro filter_cong) auto
  moreover have "asm_received_bytes ?m \<le> asm_max_total_bytes ?m"
    using inv received_le [of "asm_payloads ?m" "asm_descriptors ?m"] by (auto simp: asm_inv_def)
  moreover have "is_complete ?m \<longleftrightarrow> missing_ordinals ?m = []" by (rule is_complete_iff [OF len(2)])
  moreover have "closure_verify_result c clo res = Inr ()" if "assembler_finish ?m = Inr clo" for clo
    using assembler_finish_verifies [OF inv that] new(2,4) by simp
  moreover note assembler_finish_payloads [OF inv]
  ultimately show ?thesis using new(5,6)
    by (auto simp: assembler_finish_def split: sum.splits if_splits)
qed

definition demo_assembler :: assembler where
  "demo_assembler = \<lparr>asm_result_record_sha256 = demo_digest, asm_descriptors = demo_fragments,
     asm_payloads = [None, None], asm_received_bytes = 0, asm_max_total_bytes = 10\<rparr>"

lemma demo_assembler_new:
  "assembler_new demo_crypto (demo_tagged demo_result) (demo_tagged demo_round) demo_session [] 10
   = Inr demo_assembler"
  using demo_result_verifies
  by (simp add: assembler_new_def sum_bytes_def result_record_sha256_def canonical_def demo_tagged_def
      demo_result_def demo_assembler_def arith_defs demo_facts)
    (simp add: demo_fragments_def demo_session_def arith_defs)

theorem assembly_exact_witness:
  "missing_ordinals (insert_all demo_crypto demo_assembler [(1, [7]), (5, []), (0, [1]), (1, [7])]) = [0]
   \<and> assembler_finish (insert_all demo_crypto demo_assembler [(1, [7]), (5, []), (0, [1]), (1, [7])])
     = Inl Incomplete"
proof -
  let ?m = "insert_all demo_crypto demo_assembler [(1, [7]), (5, []), (0, [1]), (1, [7])]"
  note e = assembly_exact [OF demo_assembler_new, of "[(1, [7]), (5, []), (0, [1]), (1, [7])]"]
  have "missing_ordinals ?m = [0]"
    using e by (simp add: demo_tagged_def demo_result_def demo_fragments_def payload_ok_def)
  with e show ?thesis by (auto split: sum.splits)
qed

end
