(* ===== verification/Verifier_Log.thy ===== *)
theory Verifier_Log
  imports Fragment_Assembly
begin

section \<open>The verifier round log\<close>

text \<open>
  \<open>VerifierRoundLogV1\<close> of \<open>crates/muser-cluster/src/verifier.rs\<close>: the in-memory projection of a
  session's committed rounds. A request is admitted against the current cut (new, replayed or stale),
  a result is prepared without touching the log, and \<open>apply_durable_result\<close> advances the head once
  the result and the closure of its fragments are verified. \<open>&mut self\<close> is state passing: the method
  assigns only after its last check, so an error leaves the log as it was.

  The contract of a single-writer log is a locale, interpreted on this log: completions are kept, and
  no two of them start from the same height.

  Shown here: a prepared result commits; an applied request is replayed exactly, at any later state;
  conflicting work is refused; every reachable log is one chain of results from the genesis, inside
  the authenticated context limit.
\<close>

record completion =
  cpl_intent_sha256 :: string
  cpl_result :: authenticated_result

record round_log =
  l_session :: session_core
  l_live_admission :: bool
  l_output_height :: nat
  l_head_sha256 :: string
  l_frontier_ordinal :: nat
  l_frontier :: nat
  l_sampler_state_sha256 :: string
  l_completions :: "string \<rightharpoonup> completion"

datatype admission =
    New string
  | Replay authenticated_result
  | Stale nat string nat nat string

definition genesis :: "authenticated_session \<Rightarrow> bool \<Rightarrow> round_log" where
  "genesis a live_admission =
     \<lparr>l_session = core a, l_live_admission = live_admission,
      l_output_height = s_initial_output_height (core a),
      l_head_sha256 = s_initial_head_sha256 (core a),
      l_frontier_ordinal = s_initial_frontier_ordinal (core a),
      l_frontier = s_initial_frontier (core a),
      l_sampler_state_sha256 = s_initial_sampler_state_sha256 (core a),
      l_completions = Map.empty\<rparr>"

definition log_open :: "crypto \<Rightarrow> authenticated_session \<Rightarrow> bytes \<Rightarrow> nat \<Rightarrow> string \<Rightarrow> nat \<Rightarrow> verifier_error + round_log" where
  "log_open c a key now expected_key_id minimum_epoch =
     bind_res (session_verify c a key now expected_key_id minimum_epoch) (\<lambda>_. Inr (genesis a True))"

definition log_open_historical :: "crypto \<Rightarrow> authenticated_session \<Rightarrow> bytes \<Rightarrow> string \<Rightarrow> nat \<Rightarrow> verifier_error + round_log" where
  "log_open_historical c a key expected_key_id minimum_epoch =
     bind_res (session_verify_historical c a key expected_key_id minimum_epoch) (\<lambda>_. Inr (genesis a False))"

definition current_cut :: "round_log \<Rightarrow> nat \<times> string \<times> nat \<times> nat" where
  "current_cut l = (l_output_height l, l_head_sha256 l, l_frontier_ordinal l, l_frontier l)"

definition off_cut :: "round_log \<Rightarrow> round_core \<Rightarrow> bool" where
  "off_cut l r \<longleftrightarrow>
     r_base_output_height r \<noteq> l_output_height l
     \<or> r_base_head_sha256 r \<noteq> l_head_sha256 l
     \<or> r_frontier_ordinal r \<noteq> l_frontier_ordinal l
     \<or> r_frontier_in r \<noteq> l_frontier l
     \<or> r_base_sampler_state_sha256 r \<noteq> l_sampler_state_sha256 l"

definition admit :: "crypto \<Rightarrow> round_log \<Rightarrow> authenticated_round \<Rightarrow> bytes \<Rightarrow> nat \<Rightarrow> verifier_error + admission" where
  "admit c l a key now =
     bind_res (round_verify_historical c a (l_session l) key) (\<lambda>_.
     bind_res (intent_sha256 c a) (\<lambda>intent.
     case l_completions l (r_request_id (core a)) of
       Some completion \<Rightarrow>
         if cpl_intent_sha256 completion \<noteq> intent then Inl ChangedIntent
         else Inr (Replay (cpl_result completion))
     | None \<Rightarrow>
         if \<not> l_live_admission l then validation ''historical verifier log cannot admit new work''
         else bind_res (round_verify c a (l_session l) key now) (\<lambda>_.
           if off_cut l (core a)
           then Inr (Stale (l_output_height l) (l_head_sha256 l) (l_frontier_ordinal l) (l_frontier l)
                       (l_sampler_state_sha256 l))
           else Inr (New intent))))"

text \<open>The result record that \<open>prepare_result\<close> signs, from the values computed before it.\<close>

definition prepared_core ::
  "round_core \<Rightarrow> nat \<Rightarrow> nat \<Rightarrow> string \<Rightarrow> fragment_descriptor list \<Rightarrow> nat \<Rightarrow> nat \<Rightarrow> string \<Rightarrow> string \<Rightarrow> string \<Rightarrow> result_core" where
  "prepared_core r accepted frontier_out sampler fragments completed height intent fragments_digest head =
     \<lparr>v_protocol = VERIFIER_RESULT_PROTOCOL_V1, v_session_id = r_session_id r,
      v_authority_term = r_authority_term r, v_request_id = r_request_id r,
      v_request_intent_sha256 = intent, v_base_output_height = r_base_output_height r,
      v_base_head_sha256 = r_base_head_sha256 r,
      v_base_sampler_state_sha256 = r_base_sampler_state_sha256 r,
      v_accepted_drafts = accepted, v_commit_input_count = (accepted + 1) mod 2 ^ 32,
      v_committed_tokens = r_frontier_in r # take accepted (r_draft_tokens r),
      v_frontier_out = frontier_out, v_frontier_out_ordinal = height, v_new_output_height = height,
      v_new_head_sha256 = head, v_post_verify_sampler_state_sha256 = sampler,
      v_fragments_sha256 = fragments_digest, v_fragments = fragments, v_completed_unix_ms = completed\<rparr>"

definition prepare_result ::
  "crypto \<Rightarrow> round_log \<Rightarrow> authenticated_round \<Rightarrow> nat \<Rightarrow> nat \<Rightarrow> string \<Rightarrow> fragment_descriptor list \<Rightarrow> nat \<Rightarrow> bytes
   \<Rightarrow> verifier_error + authenticated_result" where
  "prepare_result c l a accepted frontier_out sampler fragments completed key =
     bind_res (admit c l a key completed) (\<lambda>admission.
     case admission of
       Replay res \<Rightarrow> Inr res
     | Stale _ _ _ _ _ \<Rightarrow> Inl StaleHead
     | New _ \<Rightarrow>
       let r = core a in
       bind_res (reject (accepted > length (r_draft_tokens r) \<or> frontier_out \<ge> s_vocab_size (l_session l)
           \<or> completed > r_expires_unix_ms r) ''invalid verifier decision or completion time'') (\<lambda>_.
       bind_res (validate_digest ''post-verify sampler state'' sampler) (\<lambda>_.
       bind_res (validate_fragments fragments) (\<lambda>_.
       bind_res (reject (accepted \<ge> 2 ^ 32) ''accepted count overflow'') (\<lambda>_.
       bind_res (ok_or (checked_add (r_base_output_height r) ((accepted + 1) mod 2 ^ 32))
                   (Validation ''output height overflow'')) (\<lambda>height.
       bind_res (intent_sha256 c a) (\<lambda>intent.
       bind_res (fragment_set_sha256 c fragments) (\<lambda>fragments_digest.
       bind_res (transition_head_sha256 c (r_session_id r) (r_authority_term r) (r_base_head_sha256 r)
           (r_base_output_height r) (r_frontier_in r # take accepted (r_draft_tokens r)) frontier_out height
           (r_coupling_policy r) intent sampler fragments_digest) (\<lambda>head.
       bind_res (result_sign c (prepared_core r accepted frontier_out sampler fragments completed height
           intent fragments_digest head) key) (\<lambda>res.
       bind_res (verify_against c res a (l_session l) key) (\<lambda>_.
       Inr res)))))))))))"

definition apply_durable_result ::
  "crypto \<Rightarrow> round_log \<Rightarrow> authenticated_round \<Rightarrow> authenticated_result \<Rightarrow> result_closure \<Rightarrow> bytes \<Rightarrow> nat
   \<Rightarrow> verifier_error + round_log" where
  "apply_durable_result c l a res clo key now =
     bind_res (round_verify_historical c a (l_session l) key) (\<lambda>_.
     bind_res (verify_against c res a (l_session l) key) (\<lambda>_.
     bind_res (closure_verify_result c clo res) (\<lambda>_.
     bind_res (reject (v_completed_unix_ms (core res) > saturating_add now MAX_VERIFIER_CLOCK_SKEW_MS_V1)
                 ''durable result completion is too far in the future'') (\<lambda>_.
     bind_res (intent_sha256 c a) (\<lambda>intent.
     case l_completions l (r_request_id (core a)) of
       Some completion \<Rightarrow>
         if cpl_intent_sha256 completion \<noteq> intent \<or> cpl_result completion \<noteq> res
         then Inl ChangedIntent else Inr l
     | None \<Rightarrow>
         if off_cut l (core a) then Inl StaleHead
         else Inr (l\<lparr>l_output_height := v_new_output_height (core res),
                     l_head_sha256 := v_new_head_sha256 (core res),
                     l_frontier_ordinal := v_frontier_out_ordinal (core res),
                     l_frontier := v_frontier_out (core res),
                     l_sampler_state_sha256 := v_post_verify_sampler_state_sha256 (core res),
                     l_completions := (l_completions l)(r_request_id (core a) \<mapsto>
                        \<lparr>cpl_intent_sha256 = intent, cpl_result = res\<rparr>)\<rparr>))))))"

subsection \<open>Single-writer logs\<close>

text \<open>The contract of a log with one committed history: a step changes nothing or records one new
  entry, based on the current height, and moves the height forward.\<close>

locale single_writer_log =
  fixes height :: "'s \<Rightarrow> nat"
    and entries :: "'s \<Rightarrow> 'i \<rightharpoonup> 'v"
    and base :: "'v \<Rightarrow> nat"
    and step :: "'s \<Rightarrow> 's \<Rightarrow> bool"
  assumes step_effect: "step s t \<Longrightarrow> t = s \<or>
    (\<exists>i v. entries s i = None \<and> entries t = (entries s)(i \<mapsto> v) \<and> base v = height s \<and> height s < height t)"
begin

lemma step_keeps:
  assumes "step s t" and "entries s i = Some v"
  shows "entries t i = Some v"
  using step_effect [OF assms(1)] assms(2) by (auto simp: map_upd_Some_unfold)

lemma steps_keep: "step\<^sup>*\<^sup>* s t \<Longrightarrow> entries s i = Some v \<Longrightarrow> entries t i = Some v"
  by (induction rule: rtranclp_induct) (auto intro: step_keeps)

lemma step_height: "step s t \<Longrightarrow> height s \<le> height t"
  using step_effect [of s t] by auto

lemma steps_height: "step\<^sup>*\<^sup>* s t \<Longrightarrow> height s \<le> height t"
  by (induction rule: rtranclp_induct) (auto dest: step_height)

definition unforked :: "'s \<Rightarrow> bool" where
  "unforked s \<longleftrightarrow> (\<forall>i v. entries s i = Some v \<longrightarrow> base v < height s)
     \<and> (\<forall>i j v w. entries s i = Some v \<longrightarrow> entries s j = Some w \<longrightarrow> base v = base w \<longrightarrow> i = j)"

lemma unforked_below: "unforked s \<Longrightarrow> entries s i = Some v \<Longrightarrow> base v < height s"
  by (auto simp: unforked_def)

lemma unforked_step:
  assumes "step s t" and u: "unforked s"
  shows "unforked t"
  using step_effect [OF assms(1)]
proof
  assume "\<exists>i v. entries s i = None \<and> entries t = (entries s)(i \<mapsto> v) \<and> base v = height s \<and> height s < height t"
  then obtain i v where t: "entries t = (entries s)(i \<mapsto> v)" "base v = height s" "height s < height t"
    by blast
  have below: "base w < height s" if "entries s j = Some w" for j w
    using u that by (auto simp: unforked_def)
  show ?thesis unfolding unforked_def
  proof (intro conjI allI impI)
    fix j w assume "entries t j = Some w"
    with t(1) have "j = i \<and> w = v \<or> entries s j = Some w" by (auto split: if_splits)
    with t(2,3) below show "base w < height t" by fastforce
  next
    fix j k w x assume e: "entries t j = Some w" "entries t k = Some x" "base w = base x"
    from e t(1) have "j = i \<and> w = v \<or> j \<noteq> i \<and> entries s j = Some w"
      "k = i \<and> x = v \<or> k \<noteq> i \<and> entries s k = Some x" by (auto split: if_splits)
    with below [of j w] below [of k x] t(2) e(3) u show "j = k" unfolding unforked_def by (metis less_irrefl)
  qed
qed (use u in simp)

end

subsection \<open>Effect of the operations\<close>

definition advance :: "round_log \<Rightarrow> authenticated_round \<Rightarrow> string \<Rightarrow> authenticated_result \<Rightarrow> round_log" where
  "advance l a intent res =
     l\<lparr>l_output_height := v_new_output_height (core res),
       l_head_sha256 := v_new_head_sha256 (core res),
       l_frontier_ordinal := v_frontier_out_ordinal (core res),
       l_frontier := v_frontier_out (core res),
       l_sampler_state_sha256 := v_post_verify_sampler_state_sha256 (core res),
       l_completions := (l_completions l)(r_request_id (core a) \<mapsto>
          \<lparr>cpl_intent_sha256 = intent, cpl_result = res\<rparr>)\<rparr>"

definition apply_checks :: "crypto \<Rightarrow> round_log \<Rightarrow> authenticated_round \<Rightarrow> authenticated_result \<Rightarrow> result_closure \<Rightarrow> bytes \<Rightarrow> nat \<Rightarrow> bool" where
  "apply_checks c l a res clo key now \<longleftrightarrow>
     round_verify_historical c a (l_session l) key = Inr ()
     \<and> verify_against c res a (l_session l) key = Inr ()
     \<and> closure_verify_result c clo res = Inr ()
     \<and> v_completed_unix_ms (core res) \<le> saturating_add now MAX_VERIFIER_CLOCK_SKEW_MS_V1"

lemma apply_Inr_iff:
  "apply_durable_result c l a res clo key now = Inr l' \<longleftrightarrow>
    apply_checks c l a res clo key now
    \<and> (\<exists>intent. intent_sha256 c a = Inr intent
        \<and> (case l_completions l (r_request_id (core a)) of
             Some k \<Rightarrow> k = \<lparr>cpl_intent_sha256 = intent, cpl_result = res\<rparr> \<and> l' = l
           | None \<Rightarrow> \<not> off_cut l (core a) \<and> l' = advance l a intent res))"
proof (cases "l_completions l (r_request_id (core a))")
  case None
  then show ?thesis
    by (auto simp: apply_durable_result_def apply_checks_def advance_def bind_res_Inr_iff not_less)
next
  case (Some k)
  have "k = \<lparr>cpl_intent_sha256 = i, cpl_result = res\<rparr> \<longleftrightarrow> cpl_intent_sha256 k = i \<and> cpl_result k = res" for i
    by (cases k) simp
  with Some show ?thesis
    by (auto simp: apply_durable_result_def apply_checks_def bind_res_Inr_iff not_less)
qed

lemma apply_cases:
  assumes "apply_durable_result c l a res clo key now = Inr l'"
  obtains (replayed) intent where "apply_checks c l a res clo key now" "intent_sha256 c a = Inr intent"
      "l_completions l (r_request_id (core a)) = Some \<lparr>cpl_intent_sha256 = intent, cpl_result = res\<rparr>" "l' = l"
    | (committed) intent where "apply_checks c l a res clo key now" "intent_sha256 c a = Inr intent"
      "l_completions l (r_request_id (core a)) = None" "\<not> off_cut l (core a)" "l' = advance l a intent res"
proof -
  from assms obtain intent where "apply_checks c l a res clo key now" "intent_sha256 c a = Inr intent"
    and out: "case l_completions l (r_request_id (core a)) of
       Some k \<Rightarrow> k = \<lparr>cpl_intent_sha256 = intent, cpl_result = res\<rparr> \<and> l' = l
     | None \<Rightarrow> \<not> off_cut l (core a) \<and> l' = advance l a intent res"
    unfolding apply_Inr_iff by blast
  with that show thesis by (cases "l_completions l (r_request_id (core a))") simp_all
qed

lemma advance_static [simp]:
  "l_session (advance l a i res) = l_session l"
  "l_live_admission (advance l a i res) = l_live_admission l"
  by (simp_all add: advance_def)

lemma apply_session:
  "apply_durable_result c l a res clo key now = Inr l' \<Longrightarrow>
   l_session l' = l_session l \<and> l_live_admission l' = l_live_admission l"
  by (erule apply_cases) simp_all

lemma apply_completion:
  assumes "apply_durable_result c l a res clo key now = Inr l'" and "intent_sha256 c a = Inr intent"
  shows "l_completions l' (r_request_id (core a)) = Some \<lparr>cpl_intent_sha256 = intent, cpl_result = res\<rparr>"
  using assms by (auto elim!: apply_cases simp: advance_def)

inductive log_step :: "crypto \<Rightarrow> bytes \<Rightarrow> round_log \<Rightarrow> round_log \<Rightarrow> bool" for c key where
  applied: "apply_durable_result c l a res clo key now = Inr l' \<Longrightarrow> log_step c key l l'"

inductive_cases log_stepE: "log_step c key l l'"

definition log_init :: "crypto \<Rightarrow> bytes \<Rightarrow> round_log \<Rightarrow> bool" where
  "log_init c key l \<longleftrightarrow> (\<exists>a key_id epoch.
     session_verify_historical c a key key_id epoch = Inr () \<and> (\<exists>live. l = genesis a live))"

lemma log_step_session:
  "(log_step c key)\<^sup>*\<^sup>* l l' \<Longrightarrow> l_session l' = l_session l \<and> l_live_admission l' = l_live_admission l"
  by (induction rule: rtranclp_induct) (auto elim!: log_stepE dest: apply_session)

definition result_base :: "completion \<Rightarrow> nat" where
  "result_base k = v_base_output_height (core (cpl_result k))"

lemma log_step_effect:
  assumes "log_step c key l l'"
  shows "l' = l \<or> (\<exists>i k. l_completions l i = None \<and> l_completions l' = (l_completions l)(i \<mapsto> k)
    \<and> result_base k = l_output_height l \<and> l_output_height l < l_output_height l')"
  using assms
proof (rule log_stepE)
  fix a res clo now assume "apply_durable_result c l a res clo key now = Inr l'"
  then show ?thesis
  proof (cases rule: apply_cases)
    case (committed intent)
    then have v: "verify_against c res a (l_session l) key = Inr ()" by (simp add: apply_checks_def)
    note f = verify_against_facts [OF v]
    from committed have "r_base_output_height (core a) = l_output_height l" by (simp add: off_cut_def)
    with f(3,8) have "result_base \<lparr>cpl_intent_sha256 = intent, cpl_result = res\<rparr> = l_output_height l"
      "l_output_height l < v_new_output_height (core res)" by (simp_all add: result_base_def)
    moreover have "l_completions l' = (l_completions l)(r_request_id (core a) \<mapsto>
        \<lparr>cpl_intent_sha256 = intent, cpl_result = res\<rparr>)" "l_output_height l' = v_new_output_height (core res)"
      using committed by (simp_all add: advance_def)
    ultimately show ?thesis using committed(3) by metis
  qed simp
qed

interpretation verifier: single_writer_log l_output_height l_completions result_base "log_step c key"
  by unfold_locales (rule log_step_effect)

subsection \<open>Replay\<close>

lemma admit_completed:
  assumes "round_verify_historical c a (l_session l) key = Inr ()" and "intent_sha256 c a = Inr intent"
    and "l_completions l (r_request_id (core a)) = Some k"
  shows "admit c l a key now = (if cpl_intent_sha256 k \<noteq> intent then Inl ChangedIntent else Inr (Replay (cpl_result k)))"
  using assms by (simp add: admit_def)

text \<open>C14: Exact retry. Once a result has been applied, its request is answered by replaying that very
  result, and applying it again changes nothing: at the same log or after any number of further
  rounds, at any later time, even when the request and the session have expired, and also on a log
  opened for audit only.\<close>

theorem replay_forever:
  assumes "apply_durable_result c l a res clo key now = Inr l1" and "(log_step c key)\<^sup>*\<^sup>* l1 l2"
  shows "admit c l2 a key later = Inr (Replay res)
    \<and> (now \<le> later \<longrightarrow> apply_durable_result c l2 a res clo key later = Inr l2)"
proof -
  from assms(1) obtain intent where i: "intent_sha256 c a = Inr intent"
    and chk: "apply_checks c l a res clo key now" by (blast elim: apply_cases)
  let ?k = "\<lparr>cpl_intent_sha256 = intent, cpl_result = res\<rparr>"
  have k: "l_completions l2 (r_request_id (core a)) = Some ?k"
    by (rule verifier.steps_keep [OF assms(2) apply_completion [OF assms(1) i]])
  have s: "l_session l2 = l_session l"
    using apply_session [OF assms(1)] log_step_session [OF assms(2)] by simp
  from chk s have "admit c l2 a key later = Inr (Replay res)"
    by (simp add: admit_completed [OF _ i k] apply_checks_def)
  moreover have "apply_checks c l2 a res clo key later" if "now \<le> later"
    using chk s that by (auto simp: apply_checks_def arith_defs)
  ultimately show ?thesis using i k by (simp add: apply_Inr_iff)
qed

subsection \<open>The invariant of the log\<close>

definition log_inv :: "round_log \<Rightarrow> bool" where
  "log_inv l \<longleftrightarrow>
     l_frontier_ordinal l = l_output_height l
     \<and> s_initial_output_height (l_session l) \<le> l_output_height l
     \<and> l_frontier l < s_vocab_size (l_session l)
     \<and> s_initial_model_position (l_session l) + (l_output_height l - s_initial_output_height (l_session l))
         \<le> s_max_context_tokens (l_session l)
     \<and> verifier.unforked l"

lemma genesis_inv:
  assumes "session_verify_historical c a key key_id epoch = Inr ()"
  shows "log_inv (genesis a live)"
proof -
  from assms have "\<not> session_geometry_bad (core a)"
    by (simp add: session_verify_historical_def session_validate_historical_def)
  then show ?thesis
    by (simp add: log_inv_def genesis_def session_geometry_bad_def verifier.unforked_def not_le not_less)
qed

lemma log_step_inv:
  assumes st: "log_step c key l l'" and inv: "log_inv l"
  shows "log_inv l'"
proof -
  from inv have u: "verifier.unforked l" by (simp add: log_inv_def)
  then have u': "verifier.unforked l'" by (rule verifier.unforked_step [OF st])
  from st obtain a res clo now where "apply_durable_result c l a res clo key now = Inr l'"
    by (rule log_stepE)
  then show ?thesis
  proof (cases rule: apply_cases)
    case (committed intent)
    then have v: "verify_against c res a (l_session l) key = Inr ()" by (simp add: apply_checks_def)
    note f = verify_against_facts [OF v]
    from committed have l': "l_frontier_ordinal l' = v_frontier_out_ordinal (core res)"
      "l_output_height l' = v_new_output_height (core res)" "l_frontier l' = v_frontier_out (core res)"
      "l_session l' = l_session l" by (simp_all add: advance_def)
    from verify_against_position [OF v] f(9,10) u' show ?thesis unfolding log_inv_def l' by blast
  qed (use inv in simp)
qed

interpretation log_system: invariant_system "log_init c key" "log_step c key" log_inv
proof
  show "log_inv l" if "log_init c key l" for l
    using that by (auto simp: log_init_def intro: genesis_inv)
qed (rule log_step_inv)

lemma steps_reachable:
  "reachable init step s \<Longrightarrow> step\<^sup>*\<^sup>* s t \<Longrightarrow> reachable init step t"
  by (rotate_tac, induction rule: rtranclp_induct) (auto intro: reach_step)

text \<open>Bounds of every reachable log. From any authentic session, after any sequence of applied
  results: the frontier ordinal equals the output height, the height never falls below the session's
  initial height, the frontier is a token of the vocabulary, the model position stays within the
  authenticated context limit, and no two completed requests share a base height.\<close>

theorem log_bounds:
  assumes "reachable (log_init c key) (log_step c key) l"
  shows "l_frontier_ordinal l = l_output_height l
    \<and> s_initial_output_height (l_session l) \<le> l_output_height l
    \<and> l_frontier l < s_vocab_size (l_session l)
    \<and> s_initial_model_position (l_session l) + (l_output_height l - s_initial_output_height (l_session l))
        \<le> s_max_context_tokens (l_session l)
    \<and> (\<forall>i j k m. l_completions l i = Some k \<longrightarrow> l_completions l j = Some m \<longrightarrow>
        v_base_output_height (core (cpl_result k)) = v_base_output_height (core (cpl_result m)) \<longrightarrow> i = j)"
  using log_system.inv_reachable [OF assms]
  unfolding log_inv_def verifier.unforked_def result_base_def by blast

subsection \<open>Conflicting work\<close>

text \<open>C15: Conflicting work is refused. Take a reachable log, apply a result for a request, and let any
  number of rounds follow. An authentic request that reuses the request id with another intent is
  refused as a changed intent on admission, and no result can be applied for it. An authentic,
  uncompleted request made for the same base height is answered as stale (on a log opened for audit:
  with a validation error), and no result can be applied for it either.\<close>

theorem conflicts_rejected:
  assumes "reachable (log_init c key) (log_step c key) l"
    and "apply_durable_result c l a res clo key now = Inr l1" and "(log_step c key)\<^sup>*\<^sup>* l1 l2"
    and "round_verify c b (l_session l) key later = Inr ()"
    and "intent_sha256 c a = Inr ia" and "intent_sha256 c b = Inr ib"
  shows "(r_request_id (core b) = r_request_id (core a) \<and> ia \<noteq> ib \<longrightarrow>
      admit c l2 b key later = Inl ChangedIntent
      \<and> (\<forall>res' clo' t l'. apply_durable_result c l2 b res' clo' key t \<noteq> Inr l'))
    \<and> (l_completions l2 (r_request_id (core b)) = None
        \<and> r_base_output_height (core b) = r_base_output_height (core a) \<longrightarrow>
      (if l_live_admission l
       then admit c l2 b key later = Inr (Stale (l_output_height l2) (l_head_sha256 l2)
              (l_frontier_ordinal l2) (l_frontier l2) (l_sampler_state_sha256 l2))
       else admit c l2 b key later = validation ''historical verifier log cannot admit new work'')
      \<and> (\<forall>res' clo' t l'. apply_durable_result c l2 b res' clo' key t \<noteq> Inr l'))"
proof -
  have s: "l_session l2 = l_session l" "l_live_admission l2 = l_live_admission l"
    using apply_session [OF assms(2)] log_step_session [OF assms(3)] by simp_all
  have hist: "round_verify_historical c b (l_session l2) key = Inr ()"
    and live: "round_verify c b (l_session l2) key later = Inr ()"
    using assms(4) s by (simp_all add: round_verify_iff_historical)
  have k: "l_completions l2 (r_request_id (core a)) = Some \<lparr>cpl_intent_sha256 = ia, cpl_result = res\<rparr>"
    by (rule verifier.steps_keep [OF assms(3) apply_completion [OF assms(2,5)]])
  have "reachable (log_init c key) (log_step c key) l2"
    by (rule steps_reachable [OF reach_step [OF assms(1) log_step.applied [OF assms(2)]] assms(3)])
  then have "verifier.unforked l2" using log_system.inv_reachable by (auto simp: log_inv_def)
  from verifier.unforked_below [OF this k] have "v_base_output_height (core res) < l_output_height l2"
    by (simp add: result_base_def)
  moreover have "v_base_output_height (core res) = r_base_output_height (core a)"
    using assms(2) by (rule apply_cases) (auto simp: apply_checks_def dest: verify_against_facts(3))
  ultimately have off: "off_cut l2 (core b)" if "r_base_output_height (core b) = r_base_output_height (core a)"
    using that by (simp add: off_cut_def)
  have no: "apply_durable_result c l2 b res' clo' key t \<noteq> Inr l'"
    if "l_completions l2 (r_request_id (core b)) = None" "off_cut l2 (core b)" for res' clo' t l'
    using that by (simp add: apply_Inr_iff)
  have changed: "apply_durable_result c l2 b res' clo' key t \<noteq> Inr l'"
    if "r_request_id (core b) = r_request_id (core a)" "ia \<noteq> ib" for res' clo' t l'
    using that k assms(6) by (simp add: apply_Inr_iff)
  show ?thesis
  proof (intro conjI impI)
    assume "r_request_id (core b) = r_request_id (core a) \<and> ia \<noteq> ib"
    then show "admit c l2 b key later = Inl ChangedIntent"
      using admit_completed [OF hist assms(6)] k by simp
  qed (use hist live assms(6) s off no changed in \<open>auto simp: admit_def\<close>)
qed

subsection \<open>One chain of results\<close>

text \<open>The abstract view of a log: a list of results, each based on the height and head the previous one
  left, whose first committed token is the carried frontier.\<close>

fun linked :: "nat \<Rightarrow> string \<Rightarrow> nat \<Rightarrow> result_core list \<Rightarrow> nat \<times> string \<times> nat \<Rightarrow> bool" where
  "linked h head f [] fin \<longleftrightarrow> fin = (h, head, f)"
| "linked h head f (v # vs) fin \<longleftrightarrow>
     v_base_output_height v = h \<and> v_base_head_sha256 v = head \<and> hd (v_committed_tokens v) = f
     \<and> v_new_output_height v = h + length (v_committed_tokens v)
     \<and> linked (v_new_output_height v) (v_new_head_sha256 v) (v_frontier_out v) vs fin"

lemma linked_snoc:
  "linked h head f vs (h', head', f') \<Longrightarrow>
   v_base_output_height v = h' \<Longrightarrow> v_base_head_sha256 v = head' \<Longrightarrow> hd (v_committed_tokens v) = f' \<Longrightarrow>
   v_new_output_height v = h' + length (v_committed_tokens v) \<Longrightarrow>
   linked h head f (vs @ [v]) (v_new_output_height v, v_new_head_sha256 v, v_frontier_out v)"
proof (induction vs arbitrary: h head f)
  case (Cons w vs)
  have "linked (v_new_output_height w) (v_new_head_sha256 w) (v_frontier_out w) vs (h', head', f')"
    using Cons.prems(1) unfolding linked.simps by blast
  from Cons.IH [OF this Cons.prems(2-)] Cons.prems(1) show ?case by simp
qed simp

lemma linked_height:
  "linked h head f vs (h', head', f') \<Longrightarrow> h' = h + length (concat (map v_committed_tokens vs))"
proof (induction vs arbitrary: h head f)
  case (Cons w vs)
  have "linked (v_new_output_height w) (v_new_head_sha256 w) (v_frontier_out w) vs (h', head', f')"
    using Cons.prems unfolding linked.simps by blast
  from Cons.IH [OF this] Cons.prems show ?case by simp
qed simp

definition chain_of :: "round_log \<Rightarrow> result_core list \<Rightarrow> bool" where
  "chain_of l vs \<longleftrightarrow>
     linked (s_initial_output_height (l_session l)) (s_initial_head_sha256 (l_session l))
       (s_initial_frontier (l_session l)) vs (l_output_height l, l_head_sha256 l, l_frontier l)
     \<and> distinct (map v_request_id vs)
     \<and> (\<forall>v. v \<in> set vs \<longleftrightarrow> (\<exists>k. l_completions l (v_request_id v) = Some k \<and> core (cpl_result k) = v))
     \<and> (\<forall>i k. l_completions l i = Some k \<longrightarrow> v_request_id (core (cpl_result k)) = i)"

lemma chain_step:
  assumes "log_step c key l l'" and "chain_of l vs"
  shows "\<exists>vs'. chain_of l' vs'"
proof -
  from assms(1) obtain a res clo now where "apply_durable_result c l a res clo key now = Inr l'"
    by (rule log_stepE)
  then show ?thesis
  proof (cases rule: apply_cases)
    case (committed intent)
    let ?v = "core res"
    from committed have v: "verify_against c res a (l_session l) key = Inr ()" by (simp add: apply_checks_def)
    note f = verify_against_facts [OF v]
    have l': "l_output_height l' = v_new_output_height ?v" "l_head_sha256 l' = v_new_head_sha256 ?v"
      "l_frontier l' = v_frontier_out ?v" "l_session l' = l_session l"
      "l_completions l' = (l_completions l)(v_request_id ?v \<mapsto> \<lparr>cpl_intent_sha256 = intent, cpl_result = res\<rparr>)"
      using committed f(1) by (simp_all add: advance_def)
    have cut: "v_base_output_height ?v = l_output_height l" "v_base_head_sha256 ?v = l_head_sha256 l"
      "hd (v_committed_tokens ?v) = l_frontier l"
      "v_new_output_height ?v = l_output_height l + length (v_committed_tokens ?v)"
      using committed(4) f(3-8) by (simp_all add: off_cut_def)
    have fresh: "l_completions l (v_request_id ?v) = None" using committed(3) f(1) by simp
    have "chain_of l' (vs @ [?v])" unfolding chain_of_def l'
    proof (intro conjI allI impI)
      show "linked (s_initial_output_height (l_session l)) (s_initial_head_sha256 (l_session l))
          (s_initial_frontier (l_session l)) (vs @ [?v])
          (v_new_output_height ?v, v_new_head_sha256 ?v, v_frontier_out ?v)"
        using assms(2) cut by (intro linked_snoc) (auto simp: chain_of_def)
      have "v_request_id ?v \<notin> v_request_id ` set vs"
        using assms(2) fresh unfolding chain_of_def by fastforce
      then show "distinct (map v_request_id (vs @ [?v]))" using assms(2) by (simp add: chain_of_def)
      fix w
      show "w \<in> set (vs @ [?v]) \<longleftrightarrow> (\<exists>k. ((l_completions l)(v_request_id ?v \<mapsto>
          \<lparr>cpl_intent_sha256 = intent, cpl_result = res\<rparr>)) (v_request_id w) = Some k \<and> core (cpl_result k) = w)"
        using assms(2) fresh unfolding chain_of_def by (cases "v_request_id w = v_request_id ?v") auto
    next
      fix i k assume "((l_completions l)(v_request_id ?v \<mapsto>
          \<lparr>cpl_intent_sha256 = intent, cpl_result = res\<rparr>)) i = Some k"
      then show "v_request_id (core (cpl_result k)) = i"
        using assms(2) unfolding chain_of_def by (auto split: if_splits)
    qed
    then show ?thesis ..
  qed (use assms(2) in auto)
qed

lemma chain_exists: "reachable (log_init c key) (log_step c key) l \<Longrightarrow> \<exists>vs. chain_of l vs"
proof (induction rule: reachable.induct)
  case (reach_init l)
  then have "chain_of l []" by (auto simp: log_init_def chain_of_def genesis_def)
  then show ?case ..
qed (blast dest: chain_step)

text \<open>C16: The log is one chain. Every reachable log is described by a list of results that starts at
  the session's genesis: each is based on the height and head the previous one left and commits first
  the frontier the previous one carried; the last one leaves the current cut; request ids are
  distinct, the completions are exactly these results, each under its own id; and the output height
  has grown by exactly the number of committed tokens.\<close>

theorem log_is_one_chain:
  assumes "reachable (log_init c key) (log_step c key) l"
  shows "\<exists>vs.
    linked (s_initial_output_height (l_session l)) (s_initial_head_sha256 (l_session l))
      (s_initial_frontier (l_session l)) vs (l_output_height l, l_head_sha256 l, l_frontier l)
    \<and> distinct (map v_request_id vs)
    \<and> (\<forall>v. v \<in> set vs \<longleftrightarrow> (\<exists>k. l_completions l (v_request_id v) = Some k \<and> core (cpl_result k) = v))
    \<and> dom (l_completions l) = v_request_id ` set vs
    \<and> l_output_height l = s_initial_output_height (l_session l) + length (concat (map v_committed_tokens vs))"
proof -
  from chain_exists [OF assms] obtain vs where c: "chain_of l vs" ..
  have "dom (l_completions l) = v_request_id ` set vs"
  proof (intro equalityI subsetI)
    fix i assume "i \<in> dom (l_completions l)"
    then obtain k where k: "l_completions l i = Some k" by blast
    with c have "v_request_id (core (cpl_result k)) = i" by (auto simp: chain_of_def)
    moreover from this k c have "core (cpl_result k) \<in> set vs" unfolding chain_of_def by blast
    ultimately show "i \<in> v_request_id ` set vs" by blast
  next
    fix i assume "i \<in> v_request_id ` set vs"
    with c show "i \<in> dom (l_completions l)" unfolding chain_of_def by blast
  qed
  with c linked_height show ?thesis unfolding chain_of_def by blast
qed

subsection \<open>A prepared result commits\<close>

lemma admit_New:
  assumes "admit c l a key now = Inr (New i)"
  shows "round_verify_historical c a (l_session l) key = Inr ()" and "intent_sha256 c a = Inr i"
    and "l_completions l (r_request_id (core a)) = None" and "\<not> off_cut l (core a)"
    and "now \<le> r_expires_unix_ms (core a)"
proof -
  have "(case q of None \<Rightarrow> x | Some k \<Rightarrow> if P k then Inl e else Inr (Replay (g k))) = Inr (New i) \<longleftrightarrow>
      q = None \<and> x = Inr (New i)" for q :: "completion option" and x P g and e :: verifier_error
    by (cases q) simp_all
  then show "round_verify_historical c a (l_session l) key = Inr ()" "intent_sha256 c a = Inr i"
    "l_completions l (r_request_id (core a)) = None" "\<not> off_cut l (core a)"
    "now \<le> r_expires_unix_ms (core a)"
    using assms by (auto simp: admit_def bind_res_Inr_iff round_verify_iff_historical split: if_splits)
qed

lemma round_verify_historical_facts:
  assumes "round_verify_historical c a s key = Inr ()"
  shows "r_session_id (core a) = s_session_id s" and "r_expires_unix_ms (core a) \<le> s_expires_unix_ms s"
    and "length (r_draft_tokens (core a)) \<le> 64" and "s_initial_output_height s \<le> r_base_output_height (core a)"
    and "s_initial_model_position s + (r_base_output_height (core a) - s_initial_output_height s)
       + length (r_draft_tokens (core a)) + 1 \<le> s_max_context_tokens s
       \<and> s_initial_model_position s + (r_base_output_height (core a) - s_initial_output_height s)
       + length (r_draft_tokens (core a)) + 1 < 2 ^ 64"
proof -
  from assms have v: "round_validate_historical c (core a) s = Inr ()"
    by (simp add: round_verify_historical_def)
  then show "r_session_id (core a) = s_session_id s" "r_expires_unix_ms (core a) \<le> s_expires_unix_ms s"
    "length (r_draft_tokens (core a)) \<le> 64" "s_initial_output_height s \<le> r_base_output_height (core a)"
    by (simp_all add: round_validate_historical_def verifier_limits)
  from v obtain fin where "requested_model_end s (core a) = Inr fin" "fin \<le> s_max_context_tokens s"
    by (auto simp: round_validate_historical_def bind_res_Inr_iff not_less)
  then show "s_initial_model_position s + (r_base_output_height (core a) - s_initial_output_height s)
       + length (r_draft_tokens (core a)) + 1 \<le> s_max_context_tokens s
       \<and> s_initial_model_position s + (r_base_output_height (core a) - s_initial_output_height s)
       + length (r_draft_tokens (core a)) + 1 < 2 ^ 64"
    by (auto simp: requested_model_end_def bind_res_Inr_iff ok_or_Inr_iff checked_iffs Let_def
        split: option.splits)
qed

lemma result_sign_total:
  assumes "json_result_core c v = Inr b"
  shows "\<exists>res. result_sign c v key = Inr res \<and> core res = v"
proof -
  obtain t where "tag_domain_hex c key VERIFIER_RESULT_MAC_DOMAIN_V1 b = Some t"
    by (auto simp: tag_domain_hex_def VERIFIER_RESULT_MAC_DOMAIN_V1_def str_def)
  with assms show ?thesis
    by (auto simp: result_sign_def sign_core_def canonical_def)
qed

lemma prepared_matches:
  assumes hist: "round_verify_historical c a s key = Inr ()" and "intent_sha256 c a = Inr i"
    and "accepted \<le> length (r_draft_tokens (core a))" and "frontier_out < s_vocab_size s"
    and "r_created_unix_ms (core a) \<le> completed" and "completed \<le> r_expires_unix_ms (core a)"
    and "r_base_output_height (core a) + length (r_draft_tokens (core a)) + 1 < 2 ^ 64"
  shows "result_matches_round c (prepared_core (core a) accepted frontier_out sampler fragments completed
      (r_base_output_height (core a) + accepted + 1) i fd head) a s = Inr ()"
    and "result_position_check (prepared_core (core a) accepted frontier_out sampler fragments completed
      (r_base_output_height (core a) + accepted + 1) i fd head) s = Inr ()"
proof -
  note f = round_verify_historical_facts [OF hist]
  have m: "(accepted + 1) mod 2 ^ 32 = accepted + 1" using f(3) assms(3) by simp
  show "result_matches_round c (prepared_core (core a) accepted frontier_out sampler fragments completed
      (r_base_output_height (core a) + accepted + 1) i fd head) a s = Inr ()"
    using assms f(1-4) unfolding result_matches_round_def prepared_core_def m Let_def
    by (simp add: checked_add_def)
  show "result_position_check (prepared_core (core a) accepted frontier_out sampler fragments completed
      (r_base_output_height (core a) + accepted + 1) i fd head) s = Inr ()"
    using assms(3) f(4,5) by (auto simp: result_position_check_def prepared_core_def arith_defs)
qed

text \<open>C13: A round commits. Take a log that admits a request as new, with serializers that do not fail,
  a decision that accepts no more drafts than proposed, a frontier inside the vocabulary, a completion
  time inside the round, a valid sampler digest, and fragments that pass the manifest checks. Then
  \<open>prepare_result\<close> returns a signed result that commits the carried frontier followed by the accepted
  drafts; with any closure verified for it, applying it succeeds and advances the log by exactly the
  committed tokens to the new frontier.\<close>

theorem round_commits:
  assumes "crypto_ok c" and new: "admit c l a key completed = Inr (New i)"
    and json: "\<forall>v. \<exists>b. json_result_core c v = Inr b" "json_fragments c fragments = Inr fb"
      "\<forall>t. \<exists>b. json_transition c t = Inr b"
    and "accepted \<le> length (r_draft_tokens (core a))" and "frontier_out < s_vocab_size (l_session l)"
    and "r_created_unix_ms (core a) \<le> completed" and "lower_hex_64 sampler"
    and "l_output_height l + length (r_draft_tokens (core a)) + 1 < 2 ^ 64"
    and "validate_fragments fragments = Inr ()"
    and "\<forall>head. validate_fragment_closure (prepared_core (core a) accepted frontier_out sampler fragments
        completed (l_output_height l + accepted + 1) i (sha256_hex c fb) head) (core a) (l_session l) = Inr ()"
  shows "\<exists>res. prepare_result c l a accepted frontier_out sampler fragments completed key = Inr res
    \<and> v_committed_tokens (core res) = r_frontier_in (core a) # take accepted (r_draft_tokens (core a))
    \<and> (\<forall>clo now. closure_verify_result c clo res = Inr () \<and> completed \<le> now \<and> now < 2 ^ 64 \<longrightarrow>
        (\<exists>l'. apply_durable_result c l a res clo key now = Inr l'
          \<and> current_cut l' = (l_output_height l + accepted + 1, v_new_head_sha256 (core res),
              l_output_height l + accepted + 1, frontier_out)))"
proof -
  note n = admit_New [OF new]
  from n(4) have base: "l_output_height l = r_base_output_height (core a)" by (simp add: off_cut_def)
  let ?h = "r_base_output_height (core a) + accepted + 1" and ?fd = "sha256_hex c fb"
  have m: "(accepted + 1) mod 2 ^ 32 = accepted + 1" and lt: "\<not> accepted \<ge> 2 ^ 32"
    using round_verify_historical_facts(3) [OF n(1)] assms(6) by auto
  obtain tb where head: "transition_head_sha256 c (r_session_id (core a)) (r_authority_term (core a))
      (r_base_head_sha256 (core a)) (r_base_output_height (core a))
      (r_frontier_in (core a) # take accepted (r_draft_tokens (core a))) frontier_out ?h
      (r_coupling_policy (core a)) i sampler ?fd = Inr (sha256_hex c tb)"
    using json(3) by (fastforce simp: transition_head_sha256_def canonical_def bind_res_Inr_iff map_err_Inr_iff)
  let ?v = "prepared_core (core a) accepted frontier_out sampler fragments completed ?h i ?fd (sha256_hex c tb)"
  from json(1) obtain b where "json_result_core c ?v = Inr b" by blast
  from result_sign_total [OF this] obtain res where sign: "result_sign c ?v key = Inr res" and core: "core res = ?v"
    by blast
  have fset: "fragment_set_sha256 c fragments = Inr ?fd"
    using json(2) by (simp add: fragment_set_sha256_def canonical_def)
  note matches = prepared_matches [OF n(1,2) assms(6,7,8) n(5) assms(10) [unfolded base]]
  have closure: "validate_fragment_closure ?v (core a) (l_session l) = Inr ()" using assms(12) base by simp
  have tag: "result_verify_tag c res key = Inr ()"
    using sign core by (simp add: result_verify_tag_def result_sign_def check_core_signed [OF assms(1)])
  have ver: "verify_against c res a (l_session l) key = Inr ()"
    unfolding verify_against_def Let_def core
    using tag matches closure head fset assms(9,11) sha256_hex_digest [OF assms(1)]
    by (simp add: bind_res_def) (simp add: prepared_core_def)
  have digest: "validate_digest name sampler = Inr ()" for name using assms(9) by simp
  have prep: "prepare_result c l a accepted frontier_out sampler fragments completed key = Inr res"
    unfolding prepare_result_def new m
    using n(2,5) head fset sign ver assms(6,7,9,10,11) lt base by (simp add: checked_add_def not_le digest)
  have "apply_durable_result c l a res clo key now = Inr (advance l a i res)"
    if "closure_verify_result c clo res = Inr ()" "completed \<le> now" "now < 2 ^ 64" for clo now
    using that n ver saturating_add_ge [OF that(3), of MAX_VERIFIER_CLOCK_SKEW_MS_V1] core
    by (simp add: apply_Inr_iff apply_checks_def prepared_core_def)
  moreover have "current_cut (advance l a i res) = (l_output_height l + accepted + 1, v_new_head_sha256 (core res),
      l_output_height l + accepted + 1, frontier_out)"
    by (simp add: current_cut_def advance_def core base prepared_core_def)
  ultimately show ?thesis using prep core by (auto simp: prepared_core_def)
qed

subsection \<open>The concrete session, committed\<close>

definition demo_log :: round_log where
  "demo_log = genesis (demo_tagged demo_session) True"

definition demo_closure :: result_closure where
  "demo_closure = \<lparr>clo_result_record_sha256 = demo_digest,
     clo_fragments = [\<lparr>vf_descriptor = demo_fragments ! 0, vf_payload = [1, 1]\<rparr>,
                      \<lparr>vf_descriptor = demo_fragments ! 1, vf_payload = [7]\<rparr>]\<rparr>"

definition demo_log_1 :: round_log where
  "demo_log_1 = advance demo_log (demo_tagged demo_round) demo_digest (demo_tagged demo_result)"

definition demo_rival :: round_core where
  "demo_rival = demo_round\<lparr>r_request_id := ''lease-a''\<rparr>"

lemma demo_log_init: "log_init demo_crypto [] demo_log"
proof -
  have "session_verify_historical demo_crypto (demo_tagged demo_session) [] ''key-a'' 7 = Inr ()"
    using demo_session_valid
    by (simp add: session_verify_historical_def check_core_iff [OF demo_crypto_ok] demo_tagged_def demo_facts)
  then show ?thesis unfolding log_init_def demo_log_def by blast
qed

lemma demo_log_session: "l_session demo_log = demo_session" "l_live_admission demo_log"
  by (simp_all add: demo_log_def genesis_def demo_tagged_def)

lemma demo_round_historical:
  "round_verify_historical demo_crypto (demo_tagged demo_round) demo_session [] = Inr ()"
  using demo_round_valid
  by (simp add: round_verify_historical_def check_core_iff [OF demo_crypto_ok] demo_tagged_def demo_facts)

lemma demo_intent: "intent_sha256 demo_crypto (demo_tagged r) = Inr demo_digest"
  by (simp add: intent_sha256_def canonical_def)

lemma demo_on_cut: "\<not> off_cut demo_log demo_round"
  by (simp add: off_cut_def demo_log_def genesis_def demo_tagged_def demo_session_def demo_round_def)

lemma demo_closure_verifies: "closure_verify_result demo_crypto demo_closure (demo_tagged demo_result) = Inr ()"
  by (simp add: closure_verify_result_def result_record_sha256_def canonical_def demo_closure_def
      demo_tagged_def demo_result_def demo_fragments_def)

lemma demo_applied:
  "apply_durable_result demo_crypto demo_log (demo_tagged demo_round) (demo_tagged demo_result) demo_closure [] 20
   = Inr demo_log_1"
proof -
  have "l_completions demo_log i = None" for i by (simp add: demo_log_def genesis_def)
  moreover have "v_completed_unix_ms demo_result \<le> saturating_add 20 MAX_VERIFIER_CLOCK_SKEW_MS_V1"
    by (simp add: demo_result_def arith_defs verifier_limits)
  ultimately show ?thesis
    using demo_round_historical demo_result_verifies demo_closure_verifies demo_intent demo_on_cut
    by (simp add: apply_Inr_iff apply_checks_def demo_log_session demo_log_1_def demo_tagged_def)
qed

lemma demo_log_1_reachable: "reachable (log_init demo_crypto []) (log_step demo_crypto []) demo_log_1"
  by (rule reach_step [where s = demo_log])
    (auto intro: reach_init demo_log_init log_step.applied [OF demo_applied])

lemma demo_rival_verifies:
  "round_verify demo_crypto (demo_tagged demo_rival) demo_session [] 50 = Inr ()"
proof -
  have "round_validate_historical demo_crypto demo_rival demo_session = Inr ()"
    by (simp add: round_validate_historical_def requested_model_end_def evidence_matches_def canonical_def
        arith_defs demo_session_def demo_rival_def demo_round_def demo_facts)
  then show ?thesis
    by (simp add: round_verify_def round_validate_def check_core_iff [OF demo_crypto_ok] demo_tagged_def
        demo_facts arith_defs) (simp add: demo_rival_def demo_round_def)
qed

theorem replay_forever_witness:
  "admit demo_crypto demo_log_1 (demo_tagged demo_round) [] 999999 = Inr (Replay (demo_tagged demo_result))"
  using replay_forever [OF demo_applied rtranclp.rtrancl_refl, of 999999] by blast

theorem conflicts_rejected_witness:
  "admit demo_crypto demo_log_1 (demo_tagged demo_rival) [] 50 = Inr (Stale 2 demo_digest 2 99 demo_digest)"
proof -
  have "l_completions demo_log_1 (r_request_id demo_rival) = None"
    by (simp add: demo_log_1_def demo_log_def genesis_def advance_def demo_tagged_def demo_rival_def demo_round_def)
  moreover have "r_base_output_height demo_rival = r_base_output_height demo_round" by (simp add: demo_rival_def)
  moreover have "l_output_height demo_log_1 = 2" "l_head_sha256 demo_log_1 = demo_digest"
    "l_frontier_ordinal demo_log_1 = 2" "l_frontier demo_log_1 = 99" "l_sampler_state_sha256 demo_log_1 = demo_digest"
    by (simp_all add: demo_log_1_def advance_def demo_tagged_def demo_result_def)
  ultimately show ?thesis
    using conflicts_rejected [OF reach_init [of "log_init demo_crypto []", OF demo_log_init] demo_applied
        rtranclp.rtrancl_refl, of "demo_tagged demo_rival" 50 demo_digest demo_digest]
      demo_rival_verifies demo_intent demo_log_session by (simp add: core_demo_tagged)
qed

theorem log_bounds_witness: "l_frontier demo_log_1 < s_vocab_size (l_session demo_log_1)"
  using log_bounds [OF demo_log_1_reachable] by blast

theorem log_is_one_chain_witness:
  "\<exists>vs :: result_core list. l_output_height demo_log_1 = s_initial_output_height (l_session demo_log_1)
     + length (concat (map v_committed_tokens vs))"
  using log_is_one_chain [OF demo_log_1_reachable] by blast

theorem round_commits_witness:
  "\<exists>res. prepare_result demo_crypto demo_log (demo_tagged demo_round) 1 99 demo_digest demo_fragments 20 [] = Inr res"
proof -
  have new: "admit demo_crypto demo_log (demo_tagged demo_round) [] 20 = Inr (New demo_digest)"
  proof -
    have "round_verify demo_crypto (demo_tagged demo_round) demo_session [] 20 = Inr ()"
      using demo_round_historical unfolding round_verify_iff_historical core_demo_tagged
      by (simp add: demo_round_def arith_defs verifier_limits)
    moreover have "l_completions demo_log i = None" for i by (simp add: demo_log_def genesis_def)
    ultimately show ?thesis using demo_round_historical demo_on_cut
      by (simp add: admit_def demo_log_session demo_intent core_demo_tagged)
  qed
  have closure: "validate_fragment_closure (prepared_core demo_round 1 99 demo_digest demo_fragments 20
      2 demo_digest demo_digest head) demo_round demo_session = Inr ()" for head
    by (simp add: validate_fragment_closure_def requirement_covered_def sum_bytes_def expected_range_def
        for_requirement_def arith_defs demo_fragments_def prepared_core_def demo_session_def demo_round_def demo_facts)
  have h: "l_output_height demo_log = 0" "length (r_draft_tokens demo_round) = 2"
    "r_created_unix_ms demo_round = 11" "s_vocab_size demo_session = 100"
    by (simp_all add: demo_log_def genesis_def demo_tagged_def demo_session_def demo_round_def)
  show ?thesis
    using round_commits [OF demo_crypto_ok new, of demo_fragments "[]" 1 99 demo_digest]
      closure [unfolded numeral_2_eq_2] demo_fragments_valid demo_digest_ok
    by (auto simp: core_demo_tagged demo_log_session h)
qed

end
