(* ===== verification/Mt19937.thy ===== *)
theory Mt19937
  imports Muser_Prelude
begin

unbundle bit_operations_syntax

section \<open>The Mersenne twister of the sampler\<close>

text \<open>
  \<open>Mt19937\<close> of \<open>crates/muser-engine/src/sampling.rs\<close>: seeding, the in-place block transformation
  \<open>twist\<close>, the tempered output, and snapshots. Version 2 of the verifier protocol replays a
  drafter's draws from a snapshot, so the generator is part of what a round request commits to.

  \<open>u32\<close> is a 32-bit word and the array \<open>[u32; 624]\<close> a list.

  Shown here: every operation keeps the geometry of the state, a snapshot restores the generator it
  was taken from, and the in-place transformation computes the textbook recurrence
  \<open>x (k + 624) = x (k + 397) XOR mix (x k) (x (k + 1))\<close>, so that the outputs are the tempered terms
  of one linear recurrence, whatever the block boundaries.
\<close>

subsection \<open>The generator\<close>

record mt19937 =
  mt_state :: "u32 list"
  mt_index :: nat

definition mt_size :: nat where "mt_size = 624"

lemma mt_size_pos [simp]: "0 < mt_size" "mt_size \<noteq> 0" "Suc 0 \<le> mt_size"
  by (simp_all add: mt_size_def)

fun mt_seed_loop :: "nat \<Rightarrow> u32 list \<Rightarrow> u32 list" where
  "mt_seed_loop 0 state = state"
| "mt_seed_loop (Suc n) state =
     (let prev = last state in
      mt_seed_loop n
        (state @ [1812433253 * (prev XOR drop_bit 30 prev) + of_nat (length state)]))"

definition mt_new :: "u32 \<Rightarrow> mt19937" where
  "mt_new seed = \<lparr>mt_state = mt_seed_loop 623 [seed], mt_index = 624\<rparr>"

definition mt_joined :: "u32 \<Rightarrow> u32 \<Rightarrow> u32" where
  "mt_joined a b = (a AND 0x80000000) OR (b AND 0x7fffffff)"

definition mt_mix :: "u32 \<Rightarrow> u32 \<Rightarrow> u32" where
  "mt_mix a b =
     (let joined = mt_joined a b in
      drop_bit 1 joined XOR (if joined AND 1 = 0 then 0 else 0x9908b0df))"

definition twist_at :: "nat \<Rightarrow> u32 list \<Rightarrow> u32 list" where
  "twist_at i state =
     state[i := state ! ((i + 397) mod mt_size)
                  XOR mt_mix (state ! i) (state ! ((i + 1) mod mt_size))]"

fun twist_loop :: "nat \<Rightarrow> nat \<Rightarrow> u32 list \<Rightarrow> u32 list" where
  "twist_loop i 0 state = state"
| "twist_loop i (Suc n) state = twist_loop (Suc i) n (twist_at i state)"

definition twist :: "mt19937 \<Rightarrow> mt19937" where
  "twist rng = \<lparr>mt_state = twist_loop 0 mt_size (mt_state rng), mt_index = 0\<rparr>"

definition temper :: "u32 \<Rightarrow> u32" where
  "temper v0 =
     (let v1 = v0 XOR drop_bit 11 v0;
          v2 = v1 XOR (push_bit 7 v1 AND 0x9d2c5680);
          v3 = v2 XOR (push_bit 15 v2 AND 0xefc60000) in
      v3 XOR drop_bit 18 v3)"

definition next_u32 :: "mt19937 \<Rightarrow> u32 \<times> mt19937" where
  "next_u32 rng =
     (let r = (if mt_index rng = mt_size then twist rng else rng) in
      (temper (mt_state r ! mt_index r), r\<lparr>mt_index := mt_index r + 1\<rparr>))"

text \<open>\<open>Mt19937Snapshot\<close> has the fields of the generator with a \<open>Vec\<close> for the array, so a snapshot
  may have the wrong geometry; \<open>from_snapshot\<close> refuses it.\<close>

record mt_snapshot =
  snap_state :: "u32 list"
  snap_index :: nat

definition snapshot :: "mt19937 \<Rightarrow> mt_snapshot" where
  "snapshot rng = \<lparr>snap_state = mt_state rng, snap_index = mt_index rng\<rparr>"

definition from_snapshot :: "mt_snapshot \<Rightarrow> mt19937 option" where
  "from_snapshot s =
     (if length (snap_state s) \<noteq> 624 \<or> snap_index s > 624 then None
      else Some \<lparr>mt_state = snap_state s, mt_index = snap_index s\<rparr>)"

definition mt_wf :: "mt19937 \<Rightarrow> bool" where
  "mt_wf rng \<longleftrightarrow> length (mt_state rng) = mt_size \<and> mt_index rng \<le> mt_size"

subsection \<open>Geometry and snapshots\<close>

lemma length_twist_at [simp]: "length (twist_at i s) = length s"
  by (simp add: twist_at_def)

lemma length_twist_loop [simp]: "length (twist_loop i n s) = length s"
  by (induction i n s rule: twist_loop.induct) simp_all

lemma length_seed_loop [simp]: "length (mt_seed_loop n s) = length s + n"
  by (induction n s rule: mt_seed_loop.induct) (simp_all add: Let_def)

lemma mt_wf_new: "mt_wf (mt_new seed)"
  by (simp add: mt_wf_def mt_new_def mt_size_def)

lemma mt_wf_next: "mt_wf rng \<Longrightarrow> mt_wf (snd (next_u32 rng))"
  by (auto simp: mt_wf_def next_u32_def twist_def Let_def Suc_le_eq)

lemma from_snapshot_wf: "from_snapshot s = Some rng \<Longrightarrow> mt_wf rng \<and> snapshot rng = s"
  by (auto simp: from_snapshot_def mt_wf_def snapshot_def mt_size_def split: if_splits)

lemma from_snapshot_snapshot: "mt_wf rng \<Longrightarrow> from_snapshot (snapshot rng) = Some rng"
  by (simp add: from_snapshot_def mt_wf_def snapshot_def mt_size_def)

subsection \<open>The in-place transformation is the recurrence\<close>

text \<open>A sequence satisfies the recurrence of the generator.\<close>

definition mt_recurrence :: "(nat \<Rightarrow> u32) \<Rightarrow> bool" where
  "mt_recurrence x \<longleftrightarrow> (\<forall>k. x (k + 624) = x (k + 397) XOR mt_mix (x k) (x (k + 1)))"

text \<open>The window of a sequence at offset \<open>b\<close>.\<close>

definition window :: "(nat \<Rightarrow> u32) \<Rightarrow> nat \<Rightarrow> u32 list" where
  "window x b = map (\<lambda>i. x (b + i)) [0..<mt_size]"

lemma nth_window [simp]: "i < mt_size \<Longrightarrow> window x b ! i = x (b + i)"
  by (simp add: window_def)

lemma length_window [simp]: "length (window x b) = mt_size"
  by (simp add: window_def)

text \<open>After \<open>i\<close> iterations the first \<open>i\<close> words belong to the next block and the rest to this one.\<close>

definition half_twisted :: "(nat \<Rightarrow> u32) \<Rightarrow> nat \<Rightarrow> nat \<Rightarrow> u32 list" where
  "half_twisted x b i = map (\<lambda>j. if j < i then x (b + mt_size + j) else x (b + j)) [0..<mt_size]"

lemma nth_half_twisted [simp]:
  "j < mt_size \<Longrightarrow> half_twisted x b i ! j = (if j < i then x (b + mt_size + j) else x (b + j))"
  by (simp add: half_twisted_def)

lemma length_half_twisted [simp]: "length (half_twisted x b i) = mt_size"
  by (simp add: half_twisted_def)

lemma half_twisted_ends:
  "half_twisted x b 0 = window x b" "half_twisted x b mt_size = window x (b + mt_size)"
  by (auto simp: half_twisted_def window_def)

lemma half_twisted_ahead:
  assumes "i < mt_size" "d \<le> 623" "0 < d"
  shows "half_twisted x b i ! ((i + d) mod mt_size) = x (b + i + d)"
proof (cases "i + d < mt_size")
  case True
  then show ?thesis by (simp add: add.assoc)
next
  case False
  then have w: "(i + d) mod mt_size = i + d - mt_size" using assms
    by (subst mod_if) (simp add: le_mod_geq mt_size_def)
  have "i + d - mt_size < i" using assms False by (simp add: mt_size_def)
  moreover have "b + mt_size + (i + d - mt_size) = b + i + d" using False by simp
  ultimately show ?thesis using assms w by (simp add: add.assoc)
qed

lemma twist_at_half_twisted:
  assumes "mt_recurrence x" "i < mt_size"
  shows "twist_at i (half_twisted x b i) = half_twisted x b (Suc i)"
proof (rule nth_equalityI)
  fix j assume "j < length (twist_at i (half_twisted x b i))"
  then have j: "j < mt_size" by simp
  have "x (b + i + 624) = x (b + i + 397) XOR mt_mix (x (b + i)) (x (b + i + 1))"
    using assms(1) by (simp add: mt_recurrence_def)
  moreover have "b + i + 624 = b + mt_size + i" by (simp add: mt_size_def)
  ultimately show "twist_at i (half_twisted x b i) ! j = half_twisted x b (Suc i) ! j"
    using j assms(2) half_twisted_ahead [OF assms(2), of 397 x b]
      half_twisted_ahead [OF assms(2), of 1 x b]
    by (cases "j = i") (simp_all add: twist_at_def)
qed simp

lemma twist_loop_half_twisted:
  "mt_recurrence x \<Longrightarrow> i + n \<le> mt_size
    \<Longrightarrow> twist_loop i n (half_twisted x b i) = half_twisted x b (i + n)"
  by (induction n arbitrary: i) (simp_all add: twist_at_half_twisted)

lemma twist_window:
  assumes "mt_recurrence x"
  shows "twist_loop 0 mt_size (window x b) = window x (b + mt_size)"
  using twist_loop_half_twisted [OF assms, of 0 mt_size b] by (simp add: half_twisted_ends)

text \<open>The sequence of a state: its words, continued by the recurrence.\<close>

fun mt_seq :: "u32 list \<Rightarrow> nat \<Rightarrow> u32" where
  "mt_seq s k =
     (if k < 624 then s ! k
      else mt_seq s (k - 624 + 397) XOR mt_mix (mt_seq s (k - 624)) (mt_seq s (k - 624 + 1)))"

declare mt_seq.simps [simp del]

lemma mt_seq_recurrence: "mt_recurrence (mt_seq s)"
  unfolding mt_recurrence_def
proof
  fix k
  show "mt_seq s (k + 624) = mt_seq s (k + 397) XOR mt_mix (mt_seq s k) (mt_seq s (k + 1))"
    by (subst mt_seq.simps) simp
qed

lemma mt_seq_window: "length s = mt_size \<Longrightarrow> window (mt_seq s) 0 = s"
  by (rule nth_equalityI) (simp_all add: mt_seq.simps mt_size_def)

text \<open>\<open>draws n rng\<close> are the next \<open>n\<close> outputs.\<close>

fun draws :: "nat \<Rightarrow> mt19937 \<Rightarrow> u32 list" where
  "draws 0 rng = []"
| "draws (Suc n) rng = (let (v, rng') = next_u32 rng in v # draws n rng')"

lemma draws_window:
  assumes "mt_recurrence x" "i \<le> mt_size"
  shows "draws n \<lparr>mt_state = window x b, mt_index = i\<rparr> = map (\<lambda>k. temper (x (b + i + k))) [0..<n]"
  using assms(2)
proof (induction n arbitrary: b i)
  case (Suc n)
  have shift: "map (\<lambda>k. f (Suc k)) [0..<n] = map f [1..<Suc n]" for f :: "nat \<Rightarrow> u32"
    by (simp add: map_Suc_upt [symmetric] del: upt_Suc map_Suc_upt)
  show ?case
  proof (cases "i = mt_size")
    case True
    then show ?thesis
      using Suc.IH [of 1 "b + mt_size"] shift [of "\<lambda>k. temper (x (b + mt_size + k))"]
      by (simp add: next_u32_def twist_def Let_def twist_window [OF assms(1)] upt_conv_Cons
          add.assoc del: upt_Suc)
  next
    case False
    with Suc.prems have "i < mt_size" by simp
    then show ?thesis
      using Suc.IH [of "Suc i" b] False shift [of "\<lambda>k. temper (x (b + i + k))"]
      by (simp add: next_u32_def Let_def upt_conv_Cons add.assoc del: upt_Suc)
  qed
qed simp

text \<open>C34: The outputs of a well-formed generator are the tempered terms, from its index on, of the one
  sequence that starts with its state words and continues by the recurrence of the Mersenne twister:
  the in-place block transformation, its wrap-around indices and the block boundaries are invisible
  to the caller, and a generator restored from a snapshot continues the same sequence.\<close>

theorem mt_outputs_are_recurrence:
  assumes "mt_wf rng"
  shows "draws n rng = map (\<lambda>k. temper (mt_seq (mt_state rng) (mt_index rng + k))) [0..<n]
    \<and> mt_recurrence (mt_seq (mt_state rng))
    \<and> map_option (draws n) (from_snapshot (snapshot rng)) = Some (draws n rng)"
proof -
  have w: "window (mt_seq (mt_state rng)) 0 = mt_state rng" and i: "mt_index rng \<le> mt_size"
    using assms by (simp_all add: mt_wf_def mt_seq_window)
  have "draws n rng = draws n \<lparr>mt_state = window (mt_seq (mt_state rng)) 0, mt_index = mt_index rng\<rparr>"
    unfolding w by (cases rng) simp
  also have "\<dots> = map (\<lambda>k. temper (mt_seq (mt_state rng) (mt_index rng + k))) [0..<n]"
    using draws_window [OF mt_seq_recurrence i, of n "mt_state rng" 0] by simp
  finally show ?thesis
    using assms by (simp add: mt_seq_recurrence from_snapshot_snapshot)
qed

theorem mt_outputs_are_recurrence_witness:
  "draws 1 \<lparr>mt_state = replicate 624 1, mt_index = 3\<rparr> = [temper 1]"
  using mt_outputs_are_recurrence [of "\<lparr>mt_state = replicate 624 1, mt_index = 3\<rparr>" 1]
  by (simp add: mt_wf_def mt_size_def mt_seq.simps)

end
