(* ===== verification/Verifier_V2.thy ===== *)
theory Verifier_V2
  imports Verifier_Protocol Mt19937
begin

section \<open>The verifier protocol, version 2: records, validation and results\<close>

text \<open>
  The first half of \<open>crates/muser-cluster/src/verifier_v2.rs\<close>: the carried-frontier protocol. A
  session record fixes the authority, the target's Ed25519 key, the coupling policy, the sampler
  state and the fragment schema; a round request carries the whole evaluated transcript, its frontier
  and draft tokens with their evidence; a result commits a prefix of the drafts, closes or carries the
  frontier on, and names its fragments. Session and round are authenticated by HMAC, the result by the
  target's signature.

  Strings, integers and digests are as in \<open>Verifier_Protocol\<close>. The primitives of third-party
  crates are the fields of the parameter \<open>crypto_v2\<close>: the hash functions (\<open>prim\<close>), the JSON
  serializers, and Ed25519. Of Ed25519 it is assumed that a signature has 64 bytes and that a
  signature of a key pair verifies under its public key (\<open>crypto_v2_ok\<close>). The \<open>f64\<close> arithmetic of
  the sparse rows is exact: natural numbers of a fixed unit, rounded to 53 significant bits.

  Shown here: what every record that passes its checks satisfies, that a signed record verifies, that
  \<open>build_result\<close> only returns results that verify against their request, that an accepted result
  either advances the height or closes the session, and that its fragments tile the rows the schema
  asks for.
\<close>

subsection \<open>Errors, constants and checks\<close>

datatype v2_error =
  ValidationV2 string | AuthenticationV2 | LeaseNotLive | ChangedIntentV2 | StaleHeadV2 | BusyParent
| TerminalV2 | IncompleteV2 | ResyncRequired | RendererError string | IoError string

definition invalid :: "string \<Rightarrow> v2_error" where
  "invalid m = ValidationV2 m"

definition refuse :: "bool \<Rightarrow> string \<Rightarrow> v2_error + unit" where
  "refuse b m = (if b then Inl (invalid m) else Inr ())"

lemma refuse_Inr_iff [simp]: "refuse b m = Inr u \<longleftrightarrow> \<not> b"
  by (simp add: refuse_def)

lemma refuse_False [simp]: "refuse False m = Inr ()"
  by (simp add: refuse_def)

definition VERIFIER_SESSION_PROTOCOL_V2 :: string where
  "VERIFIER_SESSION_PROTOCOL_V2 = ''muser-verifier-session-v2''"
definition VERIFIER_ROUND_PROTOCOL_V2 :: string where
  "VERIFIER_ROUND_PROTOCOL_V2 = ''muser-verifier-round-v2''"
definition VERIFIER_ROUND_PROTOCOL_V3 :: string where
  "VERIFIER_ROUND_PROTOCOL_V3 = ''muser-verifier-round-v3''"
definition VERIFIER_RESULT_PROTOCOL_V2 :: string where
  "VERIFIER_RESULT_PROTOCOL_V2 = ''muser-verifier-result-v2''"
definition VERIFIER_SESSION_MAC_DOMAIN_V2 :: bytes where
  "VERIFIER_SESSION_MAC_DOMAIN_V2 = str ''muser-verifier-session-v2''"
definition VERIFIER_ROUND_MAC_DOMAIN_V2 :: bytes where
  "VERIFIER_ROUND_MAC_DOMAIN_V2 = str ''muser-verifier-round-v2''"
definition VERIFIER_ROUND_MAC_DOMAIN_V3 :: bytes where
  "VERIFIER_ROUND_MAC_DOMAIN_V3 = str ''muser-verifier-round-v3''"
definition STATELESS_SAMPLER_V2 :: string where
  "STATELESS_SAMPLER_V2 = ''muser-stateless-sampler-v2''"

definition MAX_DRAFTS_V2 :: nat where "MAX_DRAFTS_V2 = 64"
definition MAX_SPARSE_SUPPORT_V2 :: nat where "MAX_SPARSE_SUPPORT_V2 = 4096"
definition MAX_CONTEXT_TOKENS_V2 :: nat where "MAX_CONTEXT_TOKENS_V2 = 131072"
definition MAX_FRAGMENT_BYTES_V2 :: nat where "MAX_FRAGMENT_BYTES_V2 = 512 * 1024 * 1024"
definition MAX_TOTAL_FRAGMENT_BYTES_V2 :: nat where "MAX_TOTAL_FRAGMENT_BYTES_V2 = 512 * 1024 * 1024"
definition MAX_FRAGMENTS_V2 :: nat where "MAX_FRAGMENTS_V2 = 4096"
definition MAX_CLOCK_SKEW_MS_V2 :: nat where "MAX_CLOCK_SKEW_MS_V2 = 30000"

definition validate_digest_v2 :: "string \<Rightarrow> string \<Rightarrow> v2_error + unit" where
  "validate_digest_v2 name digest =
     refuse (length digest \<noteq> 64 \<or> list_ex (\<lambda>b. \<not> is_lower_hex b) digest)
       (name @ '' is not lowercase SHA-256'')"

definition validate_identifier_v2 :: "string \<Rightarrow> string \<Rightarrow> v2_error + unit" where
  "validate_identifier_v2 name value_str =
     refuse (value_str = [] \<or> length value_str > 128
        \<or> list_ex (\<lambda>b. \<not> (is_ascii_alphanumeric b \<or> b \<in> set ''._:-'')) value_str)
       (name @ '' is invalid'')"

definition ident_v2 :: "string \<Rightarrow> bool" where
  "ident_v2 s \<longleftrightarrow> s \<noteq> [] \<and> length s \<le> 128
     \<and> list_all (\<lambda>b. is_ascii_alphanumeric b \<or> b \<in> set ''._:-'') s"

lemma validate_digest_v2_Inr_iff [simp]: "validate_digest_v2 n v = Inr u \<longleftrightarrow> lower_hex_64 v"
  by (auto simp: validate_digest_v2_def lower_hex_64_def list_ex_iff list_all_iff)

lemma validate_identifier_v2_Inr_iff [simp]: "validate_identifier_v2 n v = Inr u \<longleftrightarrow> ident_v2 v"
  by (auto simp: validate_identifier_v2_def ident_v2_def list_ex_iff list_all_iff)

subsection \<open>Records\<close>

record identity_v2 =
  i2_semantic_product_sha256 :: string
  i2_prefix_checkpoint_sha256 :: string
  i2_target_checkpoint_sha256 :: string
  i2_target_engine_sha256 :: string
  i2_target_sampler_sha256 :: string
  i2_draft_checkpoint_sha256 :: string
  i2_draft_engine_sha256 :: string
  i2_tokenizer_sha256 :: string
  i2_vocabulary_sha256 :: string
  i2_target_genesis_root_sha256 :: string
  i2_draft_genesis_root_sha256 :: string
  i2_portable_kv_abi :: string

datatype coupling_policy_v2 = GreedyV2 | SparseMaximalV2 nat | SharedGumbelV2

datatype sampler_state_v2 = StatelessSampler string | MtSampler "u32 list" nat

datatype finish_reason = Eos | MaxTokens | Cancelled

datatype round_intent = VerifyIntent | CloseIntent finish_reason

datatype frontier_v2 = OpenFrontier nat nat | ClosedFrontier finish_reason

datatype fragment_kind_v2 =
  TargetHiddenV2 | TargetKvDeltaV2 | TargetProbabilityEvidenceV2 | SamplerWitnessV2 | SnapshotV2

datatype fragment_coverage_v2 = CommittedInputsV2 | FreshTargetRowsV2 | RoundSingletonV2

record requirement_v2 =
  q2_component_id :: string
  q2_kind :: fragment_kind_v2
  q2_coverage :: fragment_coverage_v2
  q2_payload_abi :: string
  q2_bytes_per_logical_row :: nat
  q2_required :: bool

record descriptor_v2 =
  d2_ordinal :: nat
  d2_component_id :: string
  d2_kind :: fragment_kind_v2
  d2_logical_start :: nat
  d2_logical_count :: nat
  d2_payload_abi :: string
  d2_bytes_per_logical_row :: nat
  d2_byte_len :: nat
  d2_sha256 :: string

record session_v2 =
  s2_protocol :: string
  s2_session_id :: string
  s2_client_incarnation :: string
  s2_log_writer_authority_id :: string
  s2_authority_lease_id :: string
  s2_authority_term :: nat
  s2_target_executor_id :: string
  s2_target_public_key :: bytes
  s2_created_unix_ms :: nat
  s2_expires_unix_ms :: nat
  s2_hmac_key_id :: string
  s2_hmac_key_epoch :: nat
  s2_identity :: identity_v2
  s2_coupling_policy :: coupling_policy_v2
  s2_sampler_config_sha256 :: string
  s2_vocab_size :: nat
  s2_max_context_tokens :: nat
  s2_max_drafts :: nat
  s2_max_total_fragment_bytes :: nat
  s2_initial_evaluated_tokens :: "nat list"
  s2_initial_output_height :: nat
  s2_initial_frontier :: frontier_v2
  s2_initial_sampler_state :: sampler_state_v2
  s2_fragment_requirements :: "requirement_v2 list"
  s2_genesis_head_sha256 :: string

record sparse_weight_entry =
  w2_token :: nat
  w2_weight_f32_bits :: nat

record sparse_weight_row =
  w2_vocab_size :: nat
  w2_entries :: "sparse_weight_entry list"

datatype draft_evidence_v2 =
  NoEvidence | SparseEvidence "sparse_weight_row list" | GumbelEvidence string

record round_v2 =
  r2_protocol :: string
  r2_intent :: round_intent
  r2_session_id :: string
  r2_session_genesis_sha256 :: string
  r2_authority_term :: nat
  r2_request_id :: string
  r2_created_unix_ms :: nat
  r2_expires_unix_ms :: nat
  r2_hmac_key_id :: string
  r2_hmac_key_epoch :: nat
  r2_base_output_height :: nat
  r2_base_head_sha256 :: string
  r2_base_evaluated_tokens :: "nat list"
  r2_base_tokens_sha256 :: string
  r2_frontier_in :: frontier_v2
  r2_draft_tokens :: "nat list"
  r2_draft_evidence :: draft_evidence_v2
  r2_base_sampler_state :: sampler_state_v2
  r2_post_draft_sampler_state :: sampler_state_v2

datatype decision_v2 = OpenDecision nat nat | ClosedDecision bool nat finish_reason

record result_v2 =
  o2_protocol :: string
  o2_session_id :: string
  o2_session_genesis_sha256 :: string
  o2_authority_term :: nat
  o2_target_executor_id :: string
  o2_request_id :: string
  o2_request_intent_sha256 :: string
  o2_base_output_height :: nat
  o2_base_head_sha256 :: string
  o2_decision :: decision_v2
  o2_committed_tokens :: "nat list"
  o2_new_output_height :: nat
  o2_new_evaluated_tokens_sha256 :: string
  o2_new_frontier :: frontier_v2
  o2_post_verify_sampler_state :: sampler_state_v2
  o2_fragments_sha256 :: string
  o2_fragments :: "descriptor_v2 list"
  o2_new_head_sha256 :: string
  o2_completed_unix_ms :: nat

record head_transition_v2 =
  t2_protocol :: string
  t2_session_id :: string
  t2_session_genesis_sha256 :: string
  t2_authority_term :: nat
  t2_base_head_sha256 :: string
  t2_base_output_height :: nat
  t2_committed_tokens :: "nat list"
  t2_new_output_height :: nat
  t2_new_evaluated_tokens_sha256 :: string
  t2_new_frontier :: frontier_v2
  t2_post_verify_sampler_state :: sampler_state_v2
  t2_fragments_sha256 :: string
  t2_request_intent_sha256 :: string

text \<open>An authenticated record is its core and the hexadecimal tag: an HMAC for a session or a round,
  the target's signature for a result.\<close>

record 'c tagged =
  body :: 'c
  tag_hex :: string

type_synonym auth_session_v2 = "session_v2 tagged"
type_synonym auth_round_v2 = "round_v2 tagged"
type_synonym auth_result_v2 = "result_v2 tagged"

subsection \<open>Primitives\<close>

record crypto_v2 =
  prim :: crypto
  json_sampler_v2 :: "sampler_state_v2 \<Rightarrow> string + bytes"
  json_session_v2 :: "session_v2 \<Rightarrow> string + bytes"
  json_auth_session_v2 :: "auth_session_v2 \<Rightarrow> string + bytes"
  json_round_v2 :: "round_v2 \<Rightarrow> string + bytes"
  json_result_v2 :: "result_v2 \<Rightarrow> string + bytes"
  json_auth_result_v2 :: "auth_result_v2 \<Rightarrow> string + bytes"
  json_descriptors_v2 :: "descriptor_v2 list \<Rightarrow> string + bytes"
  json_transition_v2 :: "head_transition_v2 \<Rightarrow> string + bytes"
  ed25519_public :: "bytes \<Rightarrow> bytes"
  ed25519_sign :: "bytes \<Rightarrow> bytes \<Rightarrow> bytes"
  ed25519_verify :: "bytes \<Rightarrow> bytes \<Rightarrow> bytes \<Rightarrow> bool"

definition crypto_v2_ok :: "crypto_v2 \<Rightarrow> bool" where
  "crypto_v2_ok c \<longleftrightarrow> crypto_ok (prim c)
     \<and> (\<forall>seed m. length (ed25519_sign c seed m) = 64)
     \<and> (\<forall>seed m. ed25519_verify c (ed25519_public c seed) m (ed25519_sign c seed m))"

definition canonical_v2 :: "('a \<Rightarrow> string + bytes) \<Rightarrow> 'a \<Rightarrow> v2_error + bytes" where
  "canonical_v2 json v = map_err invalid (json v)"

lemma canonical_v2_Inr_iff [simp]: "canonical_v2 json v = Inr b \<longleftrightarrow> json v = Inr b"
  by (simp add: canonical_v2_def map_err_Inr_iff)

definition digest_of :: "crypto_v2 \<Rightarrow> ('a \<Rightarrow> string + bytes) \<Rightarrow> 'a \<Rightarrow> v2_error + string" where
  "digest_of c json v = bind_res (canonical_v2 json v) (\<lambda>b. Inr (sha256_hex (prim c) b))"

lemma digest_of_Inr_iff:
  "digest_of c json v = Inr d \<longleftrightarrow> (\<exists>b. json v = Inr b \<and> d = sha256_hex (prim c) b)"
  by (auto simp: digest_of_def bind_res_Inr_iff)

lemma digest_of_digest: "crypto_v2_ok c \<Longrightarrow> digest_of c json v = Inr d \<Longrightarrow> lower_hex_64 d"
  by (auto simp: digest_of_Inr_iff crypto_v2_ok_def sha256_hex_digest)

definition token_digest :: "crypto_v2 \<Rightarrow> nat list \<Rightarrow> string" where
  "token_digest c tokens = sha256_hex (prim c) (concat (map (le_bytes 4) tokens))"

lemma token_digest_digest: "crypto_v2_ok c \<Longrightarrow> lower_hex_64 (token_digest c ts)"
  by (simp add: token_digest_def crypto_v2_ok_def sha256_hex_digest)

text \<open>\<open>u8::from_str_radix\<close> on two characters that passed the check is their hexadecimal value.\<close>

definition hex_decode_v2 :: "string \<Rightarrow> nat \<Rightarrow> v2_error + bytes" where
  "hex_decode_v2 value_str expected_bytes =
     (if length value_str \<noteq> expected_bytes * 2 \<or> \<not> list_all is_lower_hex value_str
      then Inl AuthenticationV2
      else ok_or (hex_decode value_str) AuthenticationV2)"

lemma hex_decode_v2_encode: "length bs = n \<Longrightarrow> hex_decode_v2 (hex_encode bs) n = Inr bs"
  by (simp add: hex_decode_v2_def hex_encode_lower)

subsection \<open>Identity, sampler states and fragment schemas\<close>

definition identity_validate_v2 :: "identity_v2 \<Rightarrow> v2_error + unit" where
  "identity_validate_v2 i =
     all_ok
      (map (\<lambda>(name, digest). validate_digest_v2 name digest)
        [(''semantic product'', i2_semantic_product_sha256 i),
         (''prefix checkpoint'', i2_prefix_checkpoint_sha256 i),
         (''target checkpoint'', i2_target_checkpoint_sha256 i),
         (''target engine'', i2_target_engine_sha256 i),
         (''target sampler'', i2_target_sampler_sha256 i),
         (''draft checkpoint'', i2_draft_checkpoint_sha256 i),
         (''draft engine'', i2_draft_engine_sha256 i),
         (''tokenizer'', i2_tokenizer_sha256 i),
         (''vocabulary'', i2_vocabulary_sha256 i),
         (''target genesis'', i2_target_genesis_root_sha256 i),
         (''draft genesis'', i2_draft_genesis_root_sha256 i)]
       @ [validate_identifier_v2 ''portable KV ABI'' (i2_portable_kv_abi i)])"

definition stateless :: sampler_state_v2 where
  "stateless = StatelessSampler STATELESS_SAMPLER_V2"

fun sampler_validate :: "sampler_state_v2 \<Rightarrow> v2_error + unit" where
  "sampler_validate (StatelessSampler implementation) =
     refuse (implementation \<noteq> STATELESS_SAMPLER_V2) ''sampler state geometry or implementation differs''"
| "sampler_validate (MtSampler state index) =
     refuse (\<not> (length state = 624 \<and> index \<le> 624)) ''sampler state geometry or implementation differs''"

definition from_mt :: "mt_snapshot \<Rightarrow> v2_error + sampler_state_v2" where
  "from_mt snap =
     (if snap_index snap \<ge> 2 ^ 32 then Inl (invalid ''MT index overflow'')
      else let state = MtSampler (snap_state snap) (snap_index snap) in
           bind_res (sampler_validate state) (\<lambda>_. Inr state))"

definition SAMPLING_ERROR_RNG_STATE :: string where
  "SAMPLING_ERROR_RNG_STATE = ''invalid MT19937 snapshot''"

fun to_mt :: "sampler_state_v2 \<Rightarrow> v2_error + mt19937" where
  "to_mt (StatelessSampler implementation) = Inl (invalid ''sampler state is not MT19937'')"
| "to_mt (MtSampler state index) =
     ok_or (from_snapshot \<lparr>snap_state = state, snap_index = index\<rparr>) (invalid SAMPLING_ERROR_RNG_STATE)"

definition sampler_digest :: "crypto_v2 \<Rightarrow> sampler_state_v2 \<Rightarrow> v2_error + string" where
  "sampler_digest c s = digest_of c (json_sampler_v2 c) s"

definition sampler_validate_for :: "sampler_state_v2 \<Rightarrow> coupling_policy_v2 \<Rightarrow> v2_error + unit" where
  "sampler_validate_for s policy =
     bind_res (sampler_validate s) (\<lambda>_.
       case (policy, s) of
         (SparseMaximalV2 _, MtSampler _ _) \<Rightarrow> Inr ()
       | (GreedyV2, StatelessSampler _) \<Rightarrow> Inr ()
       | (SharedGumbelV2, StatelessSampler _) \<Rightarrow> Inr ()
       | _ \<Rightarrow> Inl (invalid ''sampler state does not match coupling policy''))"

fun requirement_loop :: "(string \<times> fragment_kind_v2) list \<Rightarrow> requirement_v2 list \<Rightarrow> v2_error + unit" where
  "requirement_loop components [] = Inr ()"
| "requirement_loop components (q # qs) =
     all_ok
      [validate_identifier_v2 ''fragment component'' (q2_component_id q),
       validate_identifier_v2 ''fragment payload ABI'' (q2_payload_abi q),
       refuse ((q2_component_id q, q2_kind q) \<in> set components
          \<or> q2_bytes_per_logical_row q = 0 \<or> q2_bytes_per_logical_row q > MAX_FRAGMENT_BYTES_V2)
         ''fragment requirement is duplicate or invalid'',
       requirement_loop ((q2_component_id q, q2_kind q) # components) qs]"

definition validate_requirements_v2 :: "requirement_v2 list \<Rightarrow> v2_error + unit" where
  "validate_requirements_v2 requirements =
     all_ok
      [refuse (requirements = [] \<or> length requirements > 64) ''fragment requirement count differs'',
       requirement_loop [] requirements]"

subsection \<open>The session\<close>

definition session_geometry_bad_v2 :: "session_v2 \<Rightarrow> string \<Rightarrow> nat \<Rightarrow> bool" where
  "session_geometry_bad_v2 s expected_key_id minimum_epoch \<longleftrightarrow>
     s2_hmac_key_id s \<noteq> expected_key_id
     \<or> s2_hmac_key_epoch s < minimum_epoch
     \<or> s2_authority_term s = 0
     \<or> s2_created_unix_ms s \<ge> s2_expires_unix_ms s
     \<or> s2_vocab_size s = 0
     \<or> s2_max_context_tokens s = 0
     \<or> s2_max_context_tokens s > MAX_CONTEXT_TOKENS_V2
     \<or> s2_initial_evaluated_tokens s = []
     \<or> length (s2_initial_evaluated_tokens s) > s2_max_context_tokens s
     \<or> s2_max_drafts s = 0
     \<or> s2_max_drafts s > MAX_DRAFTS_V2
     \<or> s2_max_total_fragment_bytes s = 0
     \<or> s2_max_total_fragment_bytes s > MAX_TOTAL_FRAGMENT_BYTES_V2
     \<or> s2_target_public_key s = replicate 32 0
     \<or> list_ex (\<lambda>token. token \<ge> s2_vocab_size s) (s2_initial_evaluated_tokens s)"

definition initial_frontier_ok :: "session_v2 \<Rightarrow> bool" where
  "initial_frontier_ok s =
     (case (s2_coupling_policy s, s2_initial_frontier s) of
        (SparseMaximalV2 max_support, OpenFrontier token output_ordinal) \<Rightarrow>
          max_support > 0 \<and> max_support \<le> MAX_SPARSE_SUPPORT_V2
          \<and> token < s2_vocab_size s \<and> output_ordinal = s2_initial_output_height s
      | (GreedyV2, OpenFrontier token output_ordinal) \<Rightarrow>
          token < s2_vocab_size s \<and> output_ordinal = s2_initial_output_height s
      | (SharedGumbelV2, OpenFrontier token output_ordinal) \<Rightarrow>
          token < s2_vocab_size s \<and> output_ordinal = s2_initial_output_height s
      | _ \<Rightarrow> False)"

definition validate_without_head :: "session_v2 \<Rightarrow> string \<Rightarrow> nat \<Rightarrow> v2_error + unit" where
  "validate_without_head s expected_key_id minimum_epoch =
     all_ok
      ([refuse (s2_protocol s \<noteq> VERIFIER_SESSION_PROTOCOL_V2) ''wrong session protocol'']
       @ map (\<lambda>(name, value_str). validate_identifier_v2 name value_str)
          [(''session id'', s2_session_id s), (''client incarnation'', s2_client_incarnation s),
           (''log writer'', s2_log_writer_authority_id s), (''authority lease'', s2_authority_lease_id s),
           (''target executor'', s2_target_executor_id s), (''HMAC key id'', s2_hmac_key_id s)]
       @ [refuse (session_geometry_bad_v2 s expected_key_id minimum_epoch)
            ''invalid session lifetime or geometry'',
          refuse (\<not> initial_frontier_ok s) ''invalid initial policy or frontier'',
          sampler_validate_for (s2_initial_sampler_state s) (s2_coupling_policy s),
          validate_digest_v2 ''sampler config'' (s2_sampler_config_sha256 s),
          identity_validate_v2 (s2_identity s),
          validate_requirements_v2 (s2_fragment_requirements s)])"

definition genesis_digest :: "crypto_v2 \<Rightarrow> session_v2 \<Rightarrow> v2_error + string" where
  "genesis_digest c s =
     digest_of c (json_session_v2 c) (s\<lparr>s2_genesis_head_sha256 := replicate 64 CHR ''0''\<rparr>)"

definition session_validate_v2 :: "crypto_v2 \<Rightarrow> session_v2 \<Rightarrow> string \<Rightarrow> nat \<Rightarrow> v2_error + unit" where
  "session_validate_v2 c s expected_key_id minimum_epoch =
     all_ok
      [validate_without_head s expected_key_id minimum_epoch,
       validate_digest_v2 ''genesis head'' (s2_genesis_head_sha256 s),
       bind_res (genesis_digest c s) (\<lambda>expected.
         refuse (s2_genesis_head_sha256 s \<noteq> expected)
           ''session genesis head is not derived from genesis state'')]"

definition session_sign_v2 :: "crypto_v2 \<Rightarrow> session_v2 \<Rightarrow> bytes \<Rightarrow> v2_error + auth_session_v2" where
  "session_sign_v2 c core0 key =
     (let core1 = core0\<lparr>s2_genesis_head_sha256 := replicate 64 CHR ''0''\<rparr> in
      bind_res (validate_without_head core1 (s2_hmac_key_id core1) (s2_hmac_key_epoch core1)) (\<lambda>_.
      bind_res (genesis_digest c core1) (\<lambda>head.
      let core2 = core1\<lparr>s2_genesis_head_sha256 := head\<rparr> in
      bind_res (canonical_v2 (json_session_v2 c) core2) (\<lambda>b.
      bind_res (ok_or (tag_domain_hex (prim c) key VERIFIER_SESSION_MAC_DOMAIN_V2 b) AuthenticationV2)
        (\<lambda>tag. Inr \<lparr>body = core2, tag_hex = tag\<rparr>)))))"

definition session_verify_historical_v2 ::
  "crypto_v2 \<Rightarrow> auth_session_v2 \<Rightarrow> bytes \<Rightarrow> string \<Rightarrow> nat \<Rightarrow> v2_error + unit" where
  "session_verify_historical_v2 c session key expected_key_id minimum_epoch =
     all_ok
      [session_validate_v2 c (body session) expected_key_id minimum_epoch,
       validate_digest_v2 ''session HMAC'' (tag_hex session),
       bind_res (canonical_v2 (json_session_v2 c) (body session)) (\<lambda>b.
         ensure (verify_domain_hex (prim c) key VERIFIER_SESSION_MAC_DOMAIN_V2 b (tag_hex session))
           AuthenticationV2)]"

definition session_verify_live ::
  "crypto_v2 \<Rightarrow> auth_session_v2 \<Rightarrow> bytes \<Rightarrow> nat \<Rightarrow> string \<Rightarrow> nat \<Rightarrow> v2_error + unit" where
  "session_verify_live c session key now_unix_ms expected_key_id minimum_epoch =
     all_ok
      [session_verify_historical_v2 c session key expected_key_id minimum_epoch,
       refuse (now_unix_ms > s2_expires_unix_ms (body session)
          \<or> s2_created_unix_ms (body session) > saturating_add now_unix_ms MAX_CLOCK_SKEW_MS_V2)
         ''session is expired or created in the future'']"

definition session_record_digest :: "crypto_v2 \<Rightarrow> auth_session_v2 \<Rightarrow> v2_error + string" where
  "session_record_digest c session = digest_of c (json_auth_session_v2 c) session"

subsection \<open>Sparse weight rows\<close>

text \<open>As for version 1, every \<open>f64\<close> sum is a natural number of units of \<open>2^-149\<close> rounded to 53
  significant bits. A uniform draw is a number of units of \<open>2^-64\<close>, so the product of a draw and a
  total is one of units of \<open>2^-213\<close>, far above the smallest normal \<open>f64\<close>.\<close>

fun weight_entries :: "nat \<Rightarrow> nat list \<Rightarrow> nat \<Rightarrow> sparse_weight_entry list \<Rightarrow> v2_error + nat" where
  "weight_entries vocab seen tot [] = Inr tot"
| "weight_entries vocab seen tot (e # es) =
     (if w2_token e \<ge> vocab \<or> w2_token e \<in> set seen \<or> \<not> f32_positive_finite (w2_weight_f32_bits e)
      then Inl (invalid ''sparse weight row has an invalid entry'')
      else weight_entries vocab (w2_token e # seen)
             (round_f64 (tot + f32_units (w2_weight_f32_bits e))) es)"

definition weight_row_validate :: "sparse_weight_row \<Rightarrow> nat \<Rightarrow> nat \<Rightarrow> v2_error + nat" where
  "weight_row_validate row vocab_size max_support =
     (if w2_vocab_size row \<noteq> vocab_size \<or> w2_entries row = [] \<or> length (w2_entries row) > max_support
      then Inl (invalid ''sparse weight row geometry differs'')
      else bind_res (weight_entries vocab_size [] 0 (w2_entries row)) (\<lambda>tot.
             if tot = 0 then Inl (invalid ''sparse weight row has invalid total'') else Inr tot))"

definition uniform_f64 :: "mt19937 \<Rightarrow> nat \<times> mt19937" where
  "uniform_f64 rng =
     (let (low, rng1) = next_u32 rng; (high, rng2) = next_u32 rng1 in
      (round_f64 (unat low + unat high * 2 ^ 32), rng2))"

fun pick_entry :: "nat \<Rightarrow> nat \<Rightarrow> sparse_weight_entry list \<Rightarrow> nat option" where
  "pick_entry target cumulative [] = None"
| "pick_entry target cumulative (e # es) =
     (let cumulative' = round_f64 (cumulative + f32_units (w2_weight_f32_bits e)) in
      if cumulative' * 2 ^ 64 \<ge> target then Some (w2_token e) else pick_entry target cumulative' es)"

definition weight_row_sample ::
  "sparse_weight_row \<Rightarrow> mt19937 \<Rightarrow> nat \<Rightarrow> nat \<Rightarrow> v2_error + nat \<times> mt19937" where
  "weight_row_sample row rng vocab_size max_support =
     bind_res (weight_row_validate row vocab_size max_support) (\<lambda>tot.
       let (u, rng') = uniform_f64 rng; target = round_f64 (u * tot) in
       case pick_entry target 0 (w2_entries row) of
         Some token \<Rightarrow> Inr (token, rng')
       | None \<Rightarrow> Inr (w2_token (last (w2_entries row)), rng'))"

subsection \<open>The round request\<close>

definition mac_domain :: "round_v2 \<Rightarrow> v2_error + bytes" where
  "mac_domain r =
     (if r2_protocol r = VERIFIER_ROUND_PROTOCOL_V2 then Inr VERIFIER_ROUND_MAC_DOMAIN_V2
      else if r2_protocol r = VERIFIER_ROUND_PROTOCOL_V3 then Inr VERIFIER_ROUND_MAC_DOMAIN_V3
      else Inl (invalid ''wrong round protocol''))"

definition compatible_protocol :: "round_v2 \<Rightarrow> bool" where
  "compatible_protocol r \<longleftrightarrow>
     r2_protocol r = VERIFIER_ROUND_PROTOCOL_V2 \<and> r2_intent r = VerifyIntent
     \<or> r2_protocol r = VERIFIER_ROUND_PROTOCOL_V3"

definition round_wrong_session :: "round_v2 \<Rightarrow> session_v2 \<Rightarrow> bool" where
  "round_wrong_session r s \<longleftrightarrow>
     \<not> compatible_protocol r
     \<or> r2_session_id r \<noteq> s2_session_id s
     \<or> r2_session_genesis_sha256 r \<noteq> s2_genesis_head_sha256 s
     \<or> r2_authority_term r \<noteq> s2_authority_term s
     \<or> r2_hmac_key_id r \<noteq> s2_hmac_key_id s
     \<or> r2_hmac_key_epoch r \<noteq> s2_hmac_key_epoch s
     \<or> r2_created_unix_ms r < s2_created_unix_ms s
     \<or> r2_created_unix_ms r \<ge> r2_expires_unix_ms r
     \<or> r2_expires_unix_ms r > s2_expires_unix_ms s"

definition round_tokens_differ :: "crypto_v2 \<Rightarrow> round_v2 \<Rightarrow> session_v2 \<Rightarrow> bool" where
  "round_tokens_differ c r s \<longleftrightarrow>
     token_digest c (r2_base_evaluated_tokens r) \<noteq> r2_base_tokens_sha256 r
     \<or> length (r2_base_evaluated_tokens r) > s2_max_context_tokens s
     \<or> list_ex (\<lambda>token. token \<ge> s2_vocab_size s) (r2_base_evaluated_tokens r @ r2_draft_tokens r)
     \<or> length (r2_draft_tokens r) > s2_max_drafts s"

definition context_inputs :: "round_v2 \<Rightarrow> nat" where
  "context_inputs r = (case r2_intent r of VerifyIntent \<Rightarrow> 1 + length (r2_draft_tokens r) | CloseIntent _ \<Rightarrow> 0)"

definition round_context_differs :: "round_v2 \<Rightarrow> session_v2 \<Rightarrow> nat \<Rightarrow> bool" where
  "round_context_differs r s generated \<longleftrightarrow>
     length (r2_base_evaluated_tokens r)
        \<noteq> saturating_add (length (s2_initial_evaluated_tokens s)) generated
     \<or> take (length (s2_initial_evaluated_tokens s)) (r2_base_evaluated_tokens r)
        \<noteq> s2_initial_evaluated_tokens s
     \<or> (case checked_add (length (r2_base_evaluated_tokens r)) (context_inputs r) of
          None \<Rightarrow> True | Some fin \<Rightarrow> fin > s2_max_context_tokens s)"

definition frontier_check :: "round_v2 \<Rightarrow> session_v2 \<Rightarrow> v2_error + unit" where
  "frontier_check r s =
     (case r2_frontier_in r of
        ClosedFrontier _ \<Rightarrow> Inl TerminalV2
      | OpenFrontier token output_ordinal \<Rightarrow>
          refuse (token \<ge> s2_vocab_size s \<or> output_ordinal \<noteq> r2_base_output_height r)
            ''round carried frontier differs'')"

fun replay_rows :: "nat \<Rightarrow> nat \<Rightarrow> mt19937 \<Rightarrow> sparse_weight_row list \<Rightarrow> nat list \<Rightarrow> v2_error + mt19937" where
  "replay_rows vocab max_support rng (row # rows) (token # tokens) =
     bind_res (weight_row_sample row rng vocab max_support) (\<lambda>(drawn, rng').
       if drawn \<noteq> token then Inl (invalid ''draft token was not sampled from its q row'')
       else replay_rows vocab max_support rng' rows tokens)"
| "replay_rows vocab max_support rng _ _ = Inr rng"

definition draft_evidence_check :: "round_v2 \<Rightarrow> session_v2 \<Rightarrow> v2_error + unit" where
  "draft_evidence_check r s =
     (case (s2_coupling_policy s, r2_draft_evidence r) of
        (GreedyV2, NoEvidence) \<Rightarrow>
          refuse (r2_base_sampler_state r \<noteq> r2_post_draft_sampler_state r)
            ''greedy round changed stateless sampler state''
      | (SharedGumbelV2, GumbelEvidence witness_sha256) \<Rightarrow>
          all_ok
           [validate_digest_v2 ''shared-Gumbel witness'' witness_sha256,
            refuse (r2_base_sampler_state r \<noteq> r2_post_draft_sampler_state r)
              ''shared-Gumbel round changed stateless sampler state'']
      | (SparseMaximalV2 max_support, SparseEvidence q_rows) \<Rightarrow>
          bind_res (refuse (length q_rows \<noteq> length (r2_draft_tokens r))
                      ''sparse q row count differs from draft count'') (\<lambda>_.
          bind_res (to_mt (r2_base_sampler_state r)) (\<lambda>rng.
          bind_res (replay_rows (s2_vocab_size s) max_support rng q_rows (r2_draft_tokens r)) (\<lambda>rng'.
          bind_res (from_mt (snapshot rng')) (\<lambda>post.
            refuse (post \<noteq> r2_post_draft_sampler_state r)
              ''post-draft MT snapshot does not replay''))))
      | _ \<Rightarrow> Inl (invalid ''draft evidence does not match fixed session policy''))"

definition round_evidence_check :: "round_v2 \<Rightarrow> session_v2 \<Rightarrow> v2_error + unit" where
  "round_evidence_check r s =
     (case r2_intent r of
        CloseIntent reason \<Rightarrow>
          refuse (reason = Eos \<or> r2_draft_tokens r \<noteq> [] \<or> r2_draft_evidence r \<noteq> NoEvidence
             \<or> r2_base_sampler_state r \<noteq> r2_post_draft_sampler_state r)
            ''close intent or sampler boundary differs''
      | VerifyIntent \<Rightarrow> draft_evidence_check r s)"

definition round_validate_v2 :: "crypto_v2 \<Rightarrow> round_v2 \<Rightarrow> session_v2 \<Rightarrow> v2_error + unit" where
  "round_validate_v2 c r s =
     all_ok
      [refuse (round_wrong_session r s) ''round addresses the wrong session or lifetime'',
       validate_identifier_v2 ''request id'' (r2_request_id r),
       validate_digest_v2 ''base head'' (r2_base_head_sha256 r),
       validate_digest_v2 ''base transcript'' (r2_base_tokens_sha256 r),
       refuse (round_tokens_differ c r s) ''round transcript or candidate geometry differs'',
       bind_res (ok_or (checked_sub (r2_base_output_height r) (s2_initial_output_height s))
                   (invalid ''round output precedes genesis'')) (\<lambda>generated.
         refuse (round_context_differs r s generated) ''round transcript length or context limit differs''),
       frontier_check r s,
       sampler_validate_for (r2_base_sampler_state r) (s2_coupling_policy s),
       sampler_validate_for (r2_post_draft_sampler_state r) (s2_coupling_policy s),
       round_evidence_check r s]"

definition round_sign_v2 :: "crypto_v2 \<Rightarrow> round_v2 \<Rightarrow> session_v2 \<Rightarrow> bytes \<Rightarrow> v2_error + auth_round_v2" where
  "round_sign_v2 c r s key =
     bind_res (round_validate_v2 c r s) (\<lambda>_.
     bind_res (mac_domain r) (\<lambda>domain.
     bind_res (canonical_v2 (json_round_v2 c) r) (\<lambda>b.
     bind_res (ok_or (tag_domain_hex (prim c) key domain b) AuthenticationV2)
       (\<lambda>tag. Inr \<lparr>body = r, tag_hex = tag\<rparr>))))"

definition round_verify_historical_v2 ::
  "crypto_v2 \<Rightarrow> auth_round_v2 \<Rightarrow> session_v2 \<Rightarrow> bytes \<Rightarrow> v2_error + unit" where
  "round_verify_historical_v2 c request s key =
     all_ok
      [round_validate_v2 c (body request) s,
       validate_digest_v2 ''round HMAC'' (tag_hex request),
       bind_res (mac_domain (body request)) (\<lambda>domain.
       bind_res (canonical_v2 (json_round_v2 c) (body request)) (\<lambda>b.
         ensure (verify_domain_hex (prim c) key domain b (tag_hex request)) AuthenticationV2))]"

definition round_verify_live ::
  "crypto_v2 \<Rightarrow> auth_round_v2 \<Rightarrow> session_v2 \<Rightarrow> bytes \<Rightarrow> nat \<Rightarrow> v2_error + unit" where
  "round_verify_live c request s key now_unix_ms =
     all_ok
      [round_verify_historical_v2 c request s key,
       refuse (r2_protocol (body request) \<noteq> VERIFIER_ROUND_PROTOCOL_V3)
         ''round-v2 is historical-only; new live work requires round-v3'',
       refuse (now_unix_ms > r2_expires_unix_ms (body request)
          \<or> r2_created_unix_ms (body request) > saturating_add now_unix_ms MAX_CLOCK_SKEW_MS_V2)
         ''round is expired or created in the future'']"

definition intent_sha256_v2 :: "crypto_v2 \<Rightarrow> auth_round_v2 \<Rightarrow> v2_error + string" where
  "intent_sha256_v2 c request = digest_of c (json_round_v2 c) (body request)"

subsection \<open>Decisions and results\<close>

fun accepted_drafts :: "decision_v2 \<Rightarrow> nat" where
  "accepted_drafts (OpenDecision accepted frontier_out) = accepted"
| "accepted_drafts (ClosedDecision commit_frontier accepted reason) = accepted"

fun committed_input_count :: "decision_v2 \<Rightarrow> v2_error + nat" where
  "committed_input_count (OpenDecision accepted frontier_out) = Inr (accepted + 1)"
| "committed_input_count (ClosedDecision True accepted reason) = Inr (accepted + 1)"
| "committed_input_count (ClosedDecision False accepted reason) =
     (if accepted = 0 then Inr 0
      else Inl (invalid ''terminal decision cannot accept drafts without its frontier''))"

definition validate_for_intent ::
  "decision_v2 \<Rightarrow> string \<Rightarrow> round_intent \<Rightarrow> sampler_state_v2 \<Rightarrow> sampler_state_v2 \<Rightarrow> v2_error + unit" where
  "validate_for_intent decision protocol intent base_sampler post_sampler =
     (if protocol = VERIFIER_ROUND_PROTOCOL_V2 \<and> intent = VerifyIntent then Inr ()
      else case (intent, decision) of
        (VerifyIntent, OpenDecision _ _) \<Rightarrow> Inr ()
      | (VerifyIntent, ClosedDecision commit_frontier _ reason) \<Rightarrow>
          refuse (\<not> (commit_frontier \<and> reason = Eos)) ''verify may close only on target-observed EOS''
      | (CloseIntent requested, ClosedDecision commit_frontier accepted returned) \<Rightarrow>
          refuse (\<not> (\<not> commit_frontier \<and> accepted = 0 \<and> requested = returned \<and> base_sampler = post_sampler))
            ''result does not honor authenticated close intent''
      | (CloseIntent _, OpenDecision _ _) \<Rightarrow>
          Inl (invalid ''result does not honor authenticated close intent''))"

fun descriptor_loop :: "nat \<Rightarrow> nat \<Rightarrow> descriptor_v2 list \<Rightarrow> v2_error + nat" where
  "descriptor_loop i tot [] = Inr tot"
| "descriptor_loop i tot (d # ds) =
     bind_res
      (all_ok
        [validate_identifier_v2 ''fragment component'' (d2_component_id d),
         validate_identifier_v2 ''fragment payload ABI'' (d2_payload_abi d),
         validate_digest_v2 ''fragment'' (d2_sha256 d),
         refuse (d2_ordinal d \<noteq> i \<or> d2_logical_count d = 0 \<or> d2_bytes_per_logical_row d = 0
            \<or> d2_byte_len d = 0 \<or> d2_byte_len d > MAX_FRAGMENT_BYTES_V2
            \<or> checked_mul (d2_logical_count d) (d2_bytes_per_logical_row d) \<noteq> Some (d2_byte_len d))
           ''fragment descriptor geometry differs'']) (\<lambda>_.
      bind_res (ok_or (checked_add tot (d2_byte_len d)) (invalid ''fragment bytes overflow'')) (\<lambda>tot'.
        descriptor_loop (Suc i) tot' ds))"

definition validate_descriptors :: "descriptor_v2 list \<Rightarrow> nat \<Rightarrow> v2_error + unit" where
  "validate_descriptors descriptors session_limit =
     bind_res (refuse (length descriptors > MAX_FRAGMENTS_V2) ''too many result fragments'') (\<lambda>_.
     bind_res (descriptor_loop 0 0 descriptors) (\<lambda>tot.
       refuse (tot > session_limit \<or> tot > MAX_TOTAL_FRAGMENT_BYTES_V2)
         ''fragment set exceeds byte limit''))"

text \<open>The row range a requirement asks for. \<open>start + count\<close> wraps at 64 bits.\<close>

definition required_rows :: "round_v2 \<Rightarrow> nat \<Rightarrow> fragment_coverage_v2 \<Rightarrow> nat \<times> nat" where
  "required_rows r committed coverage =
     (case r2_intent r of
        CloseIntent _ \<Rightarrow> (r2_base_output_height r, 0)
      | VerifyIntent \<Rightarrow>
          (case coverage of
             CommittedInputsV2 \<Rightarrow> (r2_base_output_height r, committed)
           | FreshTargetRowsV2 \<Rightarrow>
               ((r2_base_output_height r + 1) mod 2 ^ 64, length (r2_draft_tokens r) + 1)
           | RoundSingletonV2 \<Rightarrow> (r2_base_output_height r, 1)))"

fun closure_cursor :: "nat \<Rightarrow> descriptor_v2 list \<Rightarrow> v2_error + nat" where
  "closure_cursor cursor [] = Inr cursor"
| "closure_cursor cursor (d # ds) =
     (if d2_logical_start d \<noteq> cursor then Inl (invalid ''fragment logical coverage has a gap or overlap'')
      else bind_res (ok_or (checked_add cursor (d2_logical_count d))
                       (invalid ''fragment logical range overflow'')) (\<lambda>cursor'.
             closure_cursor cursor' ds))"

definition component_rows :: "descriptor_v2 list \<Rightarrow> requirement_v2 \<Rightarrow> descriptor_v2 list" where
  "component_rows ds q =
     filter (\<lambda>d. d2_component_id d = q2_component_id q \<and> d2_kind d = q2_kind q) ds"

definition requirement_check :: "result_v2 \<Rightarrow> round_v2 \<Rightarrow> requirement_v2 \<Rightarrow> v2_error + unit" where
  "requirement_check o2 r q =
     (let rows = component_rows (o2_fragments o2) q;
          (start, count) = required_rows r (length (o2_committed_tokens o2)) (q2_coverage q) in
      if rows = [] then
        (if count = 0 then Inr ()
         else if q2_required q then Inl (invalid ''required result component is absent'') else Inr ())
      else bind_res (refuse (list_ex (\<lambda>d. d2_payload_abi d \<noteq> q2_payload_abi q
                        \<or> d2_bytes_per_logical_row d \<noteq> q2_bytes_per_logical_row q) rows)
                     ''fragment payload ABI differs from session'') (\<lambda>_.
           bind_res (closure_cursor start rows) (\<lambda>cursor.
             refuse (cursor \<noteq> (start + count) mod 2 ^ 64) ''fragment logical coverage is incomplete'')))"

definition validate_closure_geometry :: "result_v2 \<Rightarrow> auth_round_v2 \<Rightarrow> session_v2 \<Rightarrow> v2_error + unit" where
  "validate_closure_geometry o2 request s =
     bind_res (for_each (requirement_check o2 (body request)) (s2_fragment_requirements s)) (\<lambda>_.
       refuse (list_ex (\<lambda>d. \<not> list_ex (\<lambda>q. q2_component_id q = d2_component_id d
                  \<and> q2_kind q = d2_kind d) (s2_fragment_requirements s)) (o2_fragments o2))
         ''result has an undeclared component'')"

definition fragment_set_digest :: "crypto_v2 \<Rightarrow> descriptor_v2 list \<Rightarrow> v2_error + string" where
  "fragment_set_digest c ds = digest_of c (json_descriptors_v2 c) ds"

definition transition_head :: "crypto_v2 \<Rightarrow> result_v2 \<Rightarrow> v2_error + string" where
  "transition_head c o2 =
     digest_of c (json_transition_v2 c)
       \<lparr>t2_protocol = VERIFIER_RESULT_PROTOCOL_V2,
        t2_session_id = o2_session_id o2,
        t2_session_genesis_sha256 = o2_session_genesis_sha256 o2,
        t2_authority_term = o2_authority_term o2,
        t2_base_head_sha256 = o2_base_head_sha256 o2,
        t2_base_output_height = o2_base_output_height o2,
        t2_committed_tokens = o2_committed_tokens o2,
        t2_new_output_height = o2_new_output_height o2,
        t2_new_evaluated_tokens_sha256 = o2_new_evaluated_tokens_sha256 o2,
        t2_new_frontier = o2_new_frontier o2,
        t2_post_verify_sampler_state = o2_post_verify_sampler_state o2,
        t2_fragments_sha256 = o2_fragments_sha256 o2,
        t2_request_intent_sha256 = o2_request_intent_sha256 o2\<rparr>"

definition result_sign_v2 :: "crypto_v2 \<Rightarrow> result_v2 \<Rightarrow> bytes \<Rightarrow> v2_error + auth_result_v2" where
  "result_sign_v2 c o2 seed =
     bind_res (canonical_v2 (json_result_v2 c) o2) (\<lambda>b.
       Inr \<lparr>body = o2, tag_hex = hex_encode (ed25519_sign c seed b)\<rparr>)"

definition expected_tokens :: "round_v2 \<Rightarrow> nat \<Rightarrow> nat \<Rightarrow> nat \<Rightarrow> nat list" where
  "expected_tokens r frontier_in count accepted =
     (if count \<noteq> 0 then frontier_in # take accepted (r2_draft_tokens r) else [])"

definition result_off_session :: "result_v2 \<Rightarrow> round_v2 \<Rightarrow> session_v2 \<Rightarrow> bool" where
  "result_off_session o2 r s \<longleftrightarrow>
     o2_protocol o2 \<noteq> VERIFIER_RESULT_PROTOCOL_V2
     \<or> o2_session_id o2 \<noteq> s2_session_id s
     \<or> o2_session_genesis_sha256 o2 \<noteq> s2_genesis_head_sha256 s
     \<or> o2_authority_term o2 \<noteq> s2_authority_term s
     \<or> o2_target_executor_id o2 \<noteq> s2_target_executor_id s
     \<or> o2_request_id o2 \<noteq> r2_request_id r"

definition result_off_request ::
  "result_v2 \<Rightarrow> round_v2 \<Rightarrow> string \<Rightarrow> nat \<Rightarrow> nat list \<Rightarrow> nat \<Rightarrow> bool" where
  "result_off_request o2 r intent output_ordinal expected expected_height \<longleftrightarrow>
     o2_request_intent_sha256 o2 \<noteq> intent
     \<or> o2_base_output_height o2 \<noteq> r2_base_output_height r
     \<or> o2_base_head_sha256 o2 \<noteq> r2_base_head_sha256 r
     \<or> output_ordinal \<noteq> o2_base_output_height o2
     \<or> o2_committed_tokens o2 \<noteq> expected
     \<or> o2_new_output_height o2 \<noteq> expected_height
     \<or> o2_completed_unix_ms o2 < r2_created_unix_ms r
     \<or> o2_completed_unix_ms o2 > r2_expires_unix_ms r"

fun frontier_transition_ok :: "decision_v2 \<Rightarrow> frontier_v2 \<Rightarrow> nat \<Rightarrow> nat \<Rightarrow> bool" where
  "frontier_transition_ok (OpenDecision _ frontier_out) (OpenFrontier token output_ordinal) vocab height \<longleftrightarrow>
     frontier_out = token \<and> token < vocab \<and> output_ordinal = height"
| "frontier_transition_ok (ClosedDecision _ _ reason) (ClosedFrontier frontier_reason) vocab height \<longleftrightarrow>
     reason = frontier_reason"
| "frontier_transition_ok _ _ vocab height \<longleftrightarrow> False"

definition signature_check :: "crypto_v2 \<Rightarrow> auth_result_v2 \<Rightarrow> session_v2 \<Rightarrow> v2_error + unit" where
  "signature_check c result s =
     bind_res (hex_decode_v2 (tag_hex result) 64) (\<lambda>signature.
     bind_res (canonical_v2 (json_result_v2 c) (body result)) (\<lambda>b.
       ensure (ed25519_verify c (s2_target_public_key s) b signature) AuthenticationV2))"

definition result_commitments_check :: "crypto_v2 \<Rightarrow> result_v2 \<Rightarrow> auth_round_v2 \<Rightarrow> session_v2 \<Rightarrow> v2_error + unit" where
  "result_commitments_check c o2 request s =
     all_ok
      [sampler_validate_for (o2_post_verify_sampler_state o2) (s2_coupling_policy s),
       validate_digest_v2 ''new transcript'' (o2_new_evaluated_tokens_sha256 o2),
       refuse (token_digest c (r2_base_evaluated_tokens (body request) @ o2_committed_tokens o2)
               \<noteq> o2_new_evaluated_tokens_sha256 o2) ''result transcript commitment differs'',
       validate_descriptors (o2_fragments o2) (s2_max_total_fragment_bytes s),
       validate_closure_geometry o2 request s,
       bind_res (fragment_set_digest c (o2_fragments o2)) (\<lambda>d.
         refuse (d \<noteq> o2_fragments_sha256 o2) ''result fragment commitment differs''),
       bind_res (transition_head c o2) (\<lambda>expected_head.
         refuse (o2_new_head_sha256 o2 \<noteq> expected_head) ''result head transition differs'')]"

definition verify_against_v2 ::
  "crypto_v2 \<Rightarrow> auth_result_v2 \<Rightarrow> auth_round_v2 \<Rightarrow> session_v2 \<Rightarrow> v2_error + unit" where
  "verify_against_v2 c result request s =
     (let o2 = body result; r = body request; accepted = accepted_drafts (o2_decision o2) in
      bind_res (signature_check c result s) (\<lambda>_.
      bind_res (validate_for_intent (o2_decision o2) (r2_protocol r) (r2_intent r)
                  (r2_base_sampler_state r) (o2_post_verify_sampler_state o2)) (\<lambda>_.
      case r2_frontier_in r of
        ClosedFrontier _ \<Rightarrow> Inl TerminalV2
      | OpenFrontier frontier_in output_ordinal \<Rightarrow>
          bind_res (refuse (accepted > length (r2_draft_tokens r)) ''accepted draft count exceeds request'') (\<lambda>_.
          bind_res (committed_input_count (o2_decision o2)) (\<lambda>count.
          let expected = expected_tokens r frontier_in count accepted in
          bind_res (ok_or (checked_add (r2_base_output_height r) (length expected))
                      (invalid ''result height overflow'')) (\<lambda>expected_height.
          bind_res (refuse (result_off_session o2 r s)
                      ''result does not match its authenticated request'') (\<lambda>_.
          bind_res (intent_sha256_v2 c request) (\<lambda>intent.
          bind_res (refuse (result_off_request o2 r intent output_ordinal expected expected_height)
                      ''result does not match its authenticated request'') (\<lambda>_.
          bind_res (refuse (\<not> frontier_transition_ok (o2_decision o2) (o2_new_frontier o2)
                                (s2_vocab_size s) expected_height)
                      ''result terminal/frontier transition differs'') (\<lambda>_.
            result_commitments_check c o2 request s))))))))))"

definition result_record_digest :: "crypto_v2 \<Rightarrow> auth_result_v2 \<Rightarrow> v2_error + string" where
  "result_record_digest c result = digest_of c (json_auth_result_v2 c) result"

fun decided_frontier :: "decision_v2 \<Rightarrow> nat \<Rightarrow> frontier_v2" where
  "decided_frontier (OpenDecision _ frontier_out) height = OpenFrontier frontier_out height"
| "decided_frontier (ClosedDecision _ _ reason) height = ClosedFrontier reason"

definition build_result ::
  "crypto_v2 \<Rightarrow> auth_round_v2 \<Rightarrow> session_v2 \<Rightarrow> decision_v2 \<Rightarrow> sampler_state_v2 \<Rightarrow> descriptor_v2 list
     \<Rightarrow> nat \<Rightarrow> bytes \<Rightarrow> v2_error + auth_result_v2" where
  "build_result c request s decision post_sampler fragments completed_unix_ms seed =
     (let r = body request; accepted = accepted_drafts decision in
      bind_res (validate_for_intent decision (r2_protocol r) (r2_intent r)
                  (r2_base_sampler_state r) post_sampler) (\<lambda>_.
      case r2_frontier_in r of
        ClosedFrontier _ \<Rightarrow> Inl TerminalV2
      | OpenFrontier frontier_in _ \<Rightarrow>
          bind_res (refuse (accepted > length (r2_draft_tokens r)
                       \<or> completed_unix_ms > r2_expires_unix_ms r)
                      ''target decision or completion time differs'') (\<lambda>_.
          bind_res (sampler_validate_for post_sampler (s2_coupling_policy s)) (\<lambda>_.
          bind_res (committed_input_count decision) (\<lambda>count.
          let committed = expected_tokens r frontier_in count accepted in
          bind_res (ok_or (checked_add (r2_base_output_height r) (length committed))
                      (invalid ''result height overflow'')) (\<lambda>new_height.
          bind_res (fragment_set_digest c fragments) (\<lambda>fragments_sha256.
          bind_res (intent_sha256_v2 c request) (\<lambda>intent.
          let o0 = \<lparr>o2_protocol = VERIFIER_RESULT_PROTOCOL_V2,
                    o2_session_id = s2_session_id s,
                    o2_session_genesis_sha256 = s2_genesis_head_sha256 s,
                    o2_authority_term = s2_authority_term s,
                    o2_target_executor_id = s2_target_executor_id s,
                    o2_request_id = r2_request_id r,
                    o2_request_intent_sha256 = intent,
                    o2_base_output_height = r2_base_output_height r,
                    o2_base_head_sha256 = r2_base_head_sha256 r,
                    o2_decision = decision,
                    o2_committed_tokens = committed,
                    o2_new_output_height = new_height,
                    o2_new_evaluated_tokens_sha256 =
                      token_digest c (r2_base_evaluated_tokens r @ committed),
                    o2_new_frontier = decided_frontier decision new_height,
                    o2_post_verify_sampler_state = post_sampler,
                    o2_fragments_sha256 = fragments_sha256,
                    o2_fragments = fragments,
                    o2_new_head_sha256 = replicate 64 CHR ''0'',
                    o2_completed_unix_ms = completed_unix_ms\<rparr> in
          bind_res (transition_head c o0) (\<lambda>head.
          bind_res (result_sign_v2 c (o0\<lparr>o2_new_head_sha256 := head\<rparr>) seed) (\<lambda>result.
          bind_res (verify_against_v2 c result request s) (\<lambda>_. Inr result)))))))))))"

subsection \<open>Closures and their assembly\<close>

record verified_fragment_v2 =
  f2_descriptor :: descriptor_v2
  f2_payload :: bytes

record closure_v2 =
  c2_result_sha256 :: string
  c2_fragments :: "verified_fragment_v2 list"

definition closure_verify_result_v2 :: "crypto_v2 \<Rightarrow> closure_v2 \<Rightarrow> auth_result_v2 \<Rightarrow> v2_error + unit" where
  "closure_verify_result_v2 c closure result =
     bind_res (result_record_digest c result) (\<lambda>digest.
       refuse (c2_result_sha256 closure \<noteq> digest
          \<or> length (c2_fragments closure) \<noteq> length (o2_fragments (body result))
          \<or> list_ex (\<lambda>(fragment, descriptor). f2_descriptor fragment \<noteq> descriptor)
              (zip (c2_fragments closure) (o2_fragments (body result))))
         ''verified closure belongs to a different result'')"

record assembler_v2 =
  a2_result_sha256 :: string
  a2_descriptors :: "descriptor_v2 list"
  a2_payloads :: "bytes option list"

definition assembler_new_v2 ::
  "crypto_v2 \<Rightarrow> auth_result_v2 \<Rightarrow> auth_round_v2 \<Rightarrow> session_v2 \<Rightarrow> v2_error + assembler_v2" where
  "assembler_new_v2 c result request s =
     bind_res (verify_against_v2 c result request s) (\<lambda>_.
     bind_res (result_record_digest c result) (\<lambda>digest.
       Inr \<lparr>a2_result_sha256 = digest, a2_descriptors = o2_fragments (body result),
            a2_payloads = replicate (length (o2_fragments (body result))) None\<rparr>))"

definition assembler_insert_v2 ::
  "crypto_v2 \<Rightarrow> assembler_v2 \<Rightarrow> nat \<Rightarrow> bytes \<Rightarrow> v2_error + bool \<times> assembler_v2" where
  "assembler_insert_v2 c a index payload =
     (if index \<ge> length (a2_descriptors a) then Inl (invalid ''fragment ordinal is out of range'')
      else let descriptor = a2_descriptors a ! index in
        if length payload \<noteq> d2_byte_len descriptor \<or> sha256_hex (prim c) payload \<noteq> d2_sha256 descriptor
        then Inl (invalid ''fragment payload digest or length differs'')
        else case a2_payloads a ! index of
          Some existing \<Rightarrow>
            if existing \<noteq> payload then Inl (invalid ''duplicate fragment has different bytes'')
            else Inr (False, a)
        | None \<Rightarrow> Inr (True, a\<lparr>a2_payloads := (a2_payloads a)[index := Some payload]\<rparr>))"

definition missing_ordinals_v2 :: "assembler_v2 \<Rightarrow> nat list" where
  "missing_ordinals_v2 a = filter (\<lambda>i. a2_payloads a ! i = None) [0..<length (a2_payloads a)]"

definition assembler_finish_v2 :: "assembler_v2 \<Rightarrow> v2_error + closure_v2" where
  "assembler_finish_v2 a =
     (if list_ex Option.is_none (a2_payloads a) then Inl IncompleteV2
      else Inr \<lparr>c2_result_sha256 = a2_result_sha256 a,
                c2_fragments = map (\<lambda>(d, p). \<lparr>f2_descriptor = d, f2_payload = the p\<rparr>)
                  (zip (a2_descriptors a) (a2_payloads a))\<rparr>)"

subsection \<open>What accepted records satisfy\<close>

lemma verify_against_v2_Inr_iff:
  "verify_against_v2 c result request s = Inr u \<longleftrightarrow>
     (\<exists>frontier_in count.
        signature_check c result s = Inr ()
      \<and> validate_for_intent (o2_decision (body result)) (r2_protocol (body request)) (r2_intent (body request))
          (r2_base_sampler_state (body request)) (o2_post_verify_sampler_state (body result)) = Inr ()
      \<and> r2_frontier_in (body request) = OpenFrontier frontier_in (r2_base_output_height (body request))
      \<and> accepted_drafts (o2_decision (body result)) \<le> length (r2_draft_tokens (body request))
      \<and> committed_input_count (o2_decision (body result)) = Inr count
      \<and> \<not> result_off_session (body result) (body request) s
      \<and> intent_sha256_v2 c request = Inr (o2_request_intent_sha256 (body result))
      \<and> o2_base_output_height (body result) = r2_base_output_height (body request)
      \<and> o2_base_head_sha256 (body result) = r2_base_head_sha256 (body request)
      \<and> o2_committed_tokens (body result) =
          expected_tokens (body request) frontier_in count (accepted_drafts (o2_decision (body result)))
      \<and> o2_new_output_height (body result)
          = r2_base_output_height (body request) + length (o2_committed_tokens (body result))
      \<and> o2_new_output_height (body result) < 2 ^ 64
      \<and> r2_created_unix_ms (body request) \<le> o2_completed_unix_ms (body result)
      \<and> o2_completed_unix_ms (body result) \<le> r2_expires_unix_ms (body request)
      \<and> frontier_transition_ok (o2_decision (body result)) (o2_new_frontier (body result))
          (s2_vocab_size s) (o2_new_output_height (body result))
      \<and> result_commitments_check c (body result) request s = Inr ())"
  (is "?l \<longleftrightarrow> ?r")
proof
  assume ?l
  then show ?r
    by (auto simp: verify_against_v2_def Let_def bind_res_Inr_iff ok_or_Inr_iff checked_iffs
        result_off_request_def not_less split: frontier_v2.splits)
next
  assume ?r
  then obtain f n where
    "r2_frontier_in (body request) = OpenFrontier f (r2_base_output_height (body request))"
    "committed_input_count (o2_decision (body result)) = Inr n"
    "o2_committed_tokens (body result) =
       expected_tokens (body request) f n (accepted_drafts (o2_decision (body result)))"
    by blast
  with \<open>?r\<close> show ?l
    by (auto simp: verify_against_v2_def Let_def bind_res_Inr_iff ok_or_Inr_iff checked_iffs
        result_off_request_def not_less)
qed

lemma expected_tokens_length:
  "committed_input_count d = Inr n \<Longrightarrow> accepted_drafts d \<le> length (r2_draft_tokens r)
    \<Longrightarrow> length (expected_tokens r f n (accepted_drafts d)) = n"
  by (cases d rule: committed_input_count.cases) (auto simp: expected_tokens_def split: if_splits)

text \<open>A verified result either moves the height forward or closes the session.\<close>

lemma verified_progress:
  assumes "verify_against_v2 c result request s = Inr ()"
  shows "r2_base_output_height (body request) < o2_new_output_height (body result)
    \<or> (\<exists>reason. o2_new_frontier (body result) = ClosedFrontier reason)"
proof -
  from assms obtain f n where
      t: "o2_committed_tokens (body result) =
         expected_tokens (body request) f n (accepted_drafts (o2_decision (body result)))"
    and n: "committed_input_count (o2_decision (body result)) = Inr n"
    and h: "o2_new_output_height (body result)
          = r2_base_output_height (body request) + length (o2_committed_tokens (body result))"
    and tr: "frontier_transition_ok (o2_decision (body result)) (o2_new_frontier (body result))
          (s2_vocab_size s) (o2_new_output_height (body result))"
    by (auto simp: verify_against_v2_Inr_iff)
  show ?thesis
  proof (cases "o2_decision (body result)")
    case (OpenDecision a b)
    with n t h show ?thesis by (auto simp: expected_tokens_def)
  next
    case (ClosedDecision a b reason)
    with tr show ?thesis by (cases "o2_new_frontier (body result)") auto
  qed
qed

lemma verified_frontier_open:
  "verify_against_v2 c result request s = Inr () \<Longrightarrow>
     \<exists>f. r2_frontier_in (body request) = OpenFrontier f (r2_base_output_height (body request))"
  by (auto simp: verify_against_v2_Inr_iff)

lemma verified_request_id:
  "verify_against_v2 c result request s = Inr () \<Longrightarrow>
     o2_request_id (body result) = r2_request_id (body request)"
  by (auto simp: verify_against_v2_Inr_iff result_off_session_def)

lemma verified_height:
  "verify_against_v2 c result request s = Inr () \<Longrightarrow>
     o2_new_output_height (body result)
       = r2_base_output_height (body request) + length (o2_committed_tokens (body result))"
  by (auto simp: verify_against_v2_Inr_iff)

text \<open>The coverage of the closure: an accepted result's fragments of a declared component are
  adjacent, start where the requirement's rows start and cover them exactly.\<close>

lemma closure_cursor_tiles:
  "closure_cursor a ds = Inr z \<Longrightarrow> \<forall>d\<in>set ds. 0 < d2_logical_count d
    \<Longrightarrow> tiles a z (map (\<lambda>d. (d2_logical_start d, d2_logical_count d)) ds) \<and> (a < 2 ^ 64 \<longrightarrow> z < 2 ^ 64)"
  by (induction a ds rule: closure_cursor.induct)
    (auto simp: bind_res_Inr_iff ok_or_Inr_iff checked_iffs split: if_splits)

lemma descriptor_loop_valid:
  "descriptor_loop i t ds = Inr z \<Longrightarrow>
     (\<forall>j<length ds. d2_ordinal (ds ! j) = i + j \<and> 0 < d2_logical_count (ds ! j)
        \<and> d2_logical_count (ds ! j) * d2_bytes_per_logical_row (ds ! j) = d2_byte_len (ds ! j)
        \<and> lower_hex_64 (d2_sha256 (ds ! j)))
     \<and> z = t + sum_list (map d2_byte_len ds)"
proof (induction i t ds rule: descriptor_loop.induct)
  case (2 i t d ds)
  then show ?case
    by (auto simp: bind_res_Inr_iff ok_or_Inr_iff checked_iffs less_Suc_eq_0_disj all_ok.simps(1))
qed simp

lemma validate_descriptors_valid:
  assumes "validate_descriptors ds limit = Inr ()"
  shows "d \<in> set ds \<Longrightarrow> 0 < d2_logical_count d
      \<and> d2_logical_count d * d2_bytes_per_logical_row d = d2_byte_len d \<and> lower_hex_64 (d2_sha256 d)"
    and "sum_list (map d2_byte_len ds) \<le> limit"
    and "i < length ds \<Longrightarrow> d2_ordinal (ds ! i) = i"
proof -
  from assms obtain z where z: "descriptor_loop 0 0 ds = Inr z" and l: "z \<le> limit"
    by (auto simp: validate_descriptors_def bind_res_Inr_iff)
  note v = descriptor_loop_valid [OF z]
  show "d \<in> set ds \<Longrightarrow> 0 < d2_logical_count d
      \<and> d2_logical_count d * d2_bytes_per_logical_row d = d2_byte_len d \<and> lower_hex_64 (d2_sha256 d)"
    using v by (auto simp: in_set_conv_nth)
  show "sum_list (map d2_byte_len ds) \<le> limit" using v l by simp
  show "i < length ds \<Longrightarrow> d2_ordinal (ds ! i) = i" using v by simp
qed

lemma verified_checks:
  assumes "verify_against_v2 c result request s = Inr ()"
  shows "validate_descriptors (o2_fragments (body result)) (s2_max_total_fragment_bytes s) = Inr ()"
    and "validate_closure_geometry (body result) request s = Inr ()"
    and "sampler_validate_for (o2_post_verify_sampler_state (body result)) (s2_coupling_policy s) = Inr ()"
    and "token_digest c (r2_base_evaluated_tokens (body request) @ o2_committed_tokens (body result))
          = o2_new_evaluated_tokens_sha256 (body result)"
    and "transition_head c (body result) = Inr (o2_new_head_sha256 (body result))"
    and "fragment_set_digest c (o2_fragments (body result)) = Inr (o2_fragments_sha256 (body result))"
  using assms
  by (auto simp: verify_against_v2_Inr_iff result_commitments_check_def bind_res_Inr_iff all_ok.simps(1))

text \<open>C12: In every result that verifies against its request, the fragments of a component the session
  declares lie side by side and cover exactly the rows the schema asks for (the committed inputs, the
  fresh target rows, or the single row of the round; none when the session is closed), a required
  component with rows to cover is present, every payload has the row size the session declares, every
  fragment belongs to a declared component, and their total stays within the session's byte limit.\<close>

theorem verified_fragments_tile:
  assumes v: "verify_against_v2 c result request s = Inr ()"
    and q: "q \<in> set (s2_fragment_requirements s)"
    and r: "required_rows (body request) (length (o2_committed_tokens (body result))) (q2_coverage q)
              = (start, cnt)"
    and small: "start + cnt < 2 ^ 64"
  shows "(let rows = component_rows (o2_fragments (body result)) q in
      (if rows = [] then cnt = 0 \<or> \<not> q2_required q
       else tiles start (start + cnt) (map (\<lambda>d. (d2_logical_start d, d2_logical_count d)) rows))
    \<and> list_all (\<lambda>d. d2_payload_abi d = q2_payload_abi q
         \<and> d2_byte_len d = d2_logical_count d * q2_bytes_per_logical_row q) rows)
    \<and> list_all (\<lambda>d. list_ex (\<lambda>q. d \<in> set (component_rows (o2_fragments (body result)) q))
          (s2_fragment_requirements s)) (o2_fragments (body result))
    \<and> sum_list (map d2_byte_len (o2_fragments (body result))) \<le> s2_max_total_fragment_bytes s"
proof -
  let ?ds = "o2_fragments (body result)" and ?rows = "component_rows (o2_fragments (body result)) q"
  note d = validate_descriptors_valid [OF verified_checks(1) [OF v]]
  have sub: "set ?rows \<subseteq> set ?ds" by (auto simp: component_rows_def)
  from verified_checks(2) [OF v] have
      req: "requirement_check (body result) (body request) q = Inr ()"
    and decl: "\<And>d. d \<in> set ?ds \<Longrightarrow> \<exists>q\<in>set (s2_fragment_requirements s).
          q2_component_id q = d2_component_id d \<and> q2_kind q = d2_kind d"
    using q by (auto simp: validate_closure_geometry_def bind_res_Inr_iff for_each_Inr_iff list_ex_iff)
  have "(if ?rows = [] then cnt = 0 \<or> \<not> q2_required q
       else tiles start (start + cnt) (map (\<lambda>d. (d2_logical_start d, d2_logical_count d)) ?rows))
    \<and> (\<forall>d\<in>set ?rows. d2_payload_abi d = q2_payload_abi q
         \<and> d2_bytes_per_logical_row d = q2_bytes_per_logical_row q)"
  proof (cases "?rows = []")
    case True
    with req r show ?thesis by (auto simp: requirement_check_def Let_def split: if_splits)
  next
    case False
    with req r small have cur: "closure_cursor start ?rows = Inr (start + cnt)"
      and abi: "\<forall>d\<in>set ?rows. d2_payload_abi d = q2_payload_abi q
         \<and> d2_bytes_per_logical_row d = q2_bytes_per_logical_row q"
      by (auto simp: requirement_check_def Let_def bind_res_Inr_iff list_ex_iff)
    from closure_cursor_tiles [OF cur] d(1) sub abi False show ?thesis by auto
  qed
  then show ?thesis using d(1,2) sub decl
    by (auto simp: Let_def list_all_iff list_ex_iff component_rows_def split: if_splits) force+
qed

subsection \<open>Signing and building\<close>

lemma decided_frontier_iff:
  "frontier_transition_ok d f vocab h \<longleftrightarrow>
     f = decided_frontier d h \<and> (case d of OpenDecision _ token \<Rightarrow> token < vocab | ClosedDecision _ _ _ \<Rightarrow> True)"
  by (cases "(d, f, vocab, h)" rule: frontier_transition_ok.cases) auto

lemma transition_head_ignores_head [simp]:
  "transition_head c (o2\<lparr>o2_new_head_sha256 := h\<rparr>) = transition_head c o2"
  by (simp add: transition_head_def)

text \<open>C10: Building and verifying agree. A result signed with the target's key verifies against a
  request exactly when \<open>build_result\<close>, called with the result's own decision, sampler state,
  fragments and completion time, returns that very record: everything else in a result (the committed
  tokens, the height, the transcript digest, the frontier, the fragment digest and the head) is a
  function of the request and those four.\<close>

theorem built_iff_verified:
  assumes sig: "result_sign_v2 c (body result) seed = Inr result"
  shows "verify_against_v2 c result request s = Inr () \<longleftrightarrow>
    build_result c request s (o2_decision (body result)) (o2_post_verify_sampler_state (body result))
      (o2_fragments (body result)) (o2_completed_unix_ms (body result)) seed = Inr result"
    (is "?v \<longleftrightarrow> ?b")
proof
  assume ?b
  then show ?v
    by (auto simp: build_result_def Let_def bind_res_Inr_iff split: frontier_v2.splits)
next
  assume v: ?v
  let ?o = "body result" and ?r = "body request"
  from v obtain f n where
      fin: "r2_frontier_in ?r = OpenFrontier f (r2_base_output_height ?r)"
    and n: "committed_input_count (o2_decision ?o) = Inr n"
    and toks: "o2_committed_tokens ?o = expected_tokens ?r f n (accepted_drafts (o2_decision ?o))"
    and fr: "o2_new_frontier ?o = decided_frontier (o2_decision ?o) (o2_new_output_height ?o)"
    and h: "o2_new_output_height ?o = r2_base_output_height ?r + length (o2_committed_tokens ?o)"
           "o2_new_output_height ?o < 2 ^ 64"
    and same: "\<not> result_off_session ?o ?r s" "intent_sha256_v2 c request = Inr (o2_request_intent_sha256 ?o)"
           "o2_base_output_height ?o = r2_base_output_height ?r"
           "o2_base_head_sha256 ?o = r2_base_head_sha256 ?r"
    and ok: "validate_for_intent (o2_decision ?o) (r2_protocol ?r) (r2_intent ?r)
          (r2_base_sampler_state ?r) (o2_post_verify_sampler_state ?o) = Inr ()"
          "accepted_drafts (o2_decision ?o) \<le> length (r2_draft_tokens ?r)"
          "o2_completed_unix_ms ?o \<le> r2_expires_unix_ms ?r"
    by (auto simp: verify_against_v2_Inr_iff decided_frontier_iff)
  note ch = verified_checks [OF v]
  define o0 where "o0 = ?o\<lparr>o2_new_head_sha256 := replicate 64 CHR ''0''\<rparr>"
  have o0: "o0\<lparr>o2_new_head_sha256 := o2_new_head_sha256 ?o\<rparr> = ?o" by (simp add: o0_def)
  have head: "transition_head c o0 = Inr (o2_new_head_sha256 ?o)" using ch(5) by (simp add: o0_def)
  have add: "checked_add (r2_base_output_height ?r) (length (o2_committed_tokens ?o))
      = Some (o2_new_output_height ?o)"
    using h by (simp add: checked_iffs)
  have eq: "\<lparr>o2_protocol = VERIFIER_RESULT_PROTOCOL_V2,
         o2_session_id = s2_session_id s,
         o2_session_genesis_sha256 = s2_genesis_head_sha256 s,
         o2_authority_term = s2_authority_term s,
         o2_target_executor_id = s2_target_executor_id s,
         o2_request_id = r2_request_id ?r,
         o2_request_intent_sha256 = o2_request_intent_sha256 ?o,
         o2_base_output_height = r2_base_output_height ?r,
         o2_base_head_sha256 = r2_base_head_sha256 ?r,
         o2_decision = o2_decision ?o,
         o2_committed_tokens = o2_committed_tokens ?o,
         o2_new_output_height = o2_new_output_height ?o,
         o2_new_evaluated_tokens_sha256 =
           token_digest c (r2_base_evaluated_tokens ?r @ o2_committed_tokens ?o),
         o2_new_frontier = decided_frontier (o2_decision ?o) (o2_new_output_height ?o),
         o2_post_verify_sampler_state = o2_post_verify_sampler_state ?o,
         o2_fragments_sha256 = o2_fragments_sha256 ?o,
         o2_fragments = o2_fragments ?o,
         o2_new_head_sha256 = replicate 64 CHR ''0'',
         o2_completed_unix_ms = o2_completed_unix_ms ?o\<rparr> = o0"
    using same fr ch(4) by (cases ?o) (simp add: o0_def result_off_session_def)
  note full = arg_cong [OF eq, of "o2_new_head_sha256_update (\<lambda>_. o2_new_head_sha256 ?o)", unfolded o0]
  show ?b
    using fin n ok same(2) add head sig v ch(3,6)
    by (simp add: build_result_def Let_def toks [symmetric] eq full [simplified])
qed

text \<open>Signed rounds and sessions verify, and what verifies is what signing returns.\<close>

lemma round_sign_iff_verify:
  assumes "crypto_v2_ok c"
  shows "round_sign_v2 c (body request) s key = Inr request
    \<longleftrightarrow> round_verify_historical_v2 c request s key = Inr ()"
proof -
  have "crypto_ok (prim c)" using assms by (simp add: crypto_v2_ok_def)
  then show ?thesis
    by (cases request)
      (auto simp: round_sign_v2_def round_verify_historical_v2_def bind_res_Inr_iff ok_or_Inr_iff
        ensure_Inr_iff verify_domain_hex_iff tag_domain_hex_digest all_ok.simps(1))
qed

lemma initial_frontier_ok_head [simp]:
  "initial_frontier_ok (s\<lparr>s2_genesis_head_sha256 := h\<rparr>) = initial_frontier_ok s"
  by (simp add: initial_frontier_ok_def split: coupling_policy_v2.split frontier_v2.split)

lemma validate_without_head_head [simp]:
  "validate_without_head (s\<lparr>s2_genesis_head_sha256 := h\<rparr>) = validate_without_head s"
  by (intro ext) (simp add: validate_without_head_def session_geometry_bad_v2_def)

lemma session_sign_verifies:
  assumes "crypto_v2_ok c" "session_sign_v2 c core0 key = Inr session"
  shows "session_verify_historical_v2 c session key (s2_hmac_key_id core0) (s2_hmac_key_epoch core0) = Inr ()"
proof -
  let ?z = "core0\<lparr>s2_genesis_head_sha256 := replicate 64 CHR ''0''\<rparr>"
  from assms(2) obtain head b tag where
      w: "validate_without_head ?z (s2_hmac_key_id core0) (s2_hmac_key_epoch core0) = Inr ()"
    and g: "genesis_digest c ?z = Inr head"
    and b: "json_session_v2 c (?z\<lparr>s2_genesis_head_sha256 := head\<rparr>) = Inr b"
    and t: "tag_domain_hex (prim c) key VERIFIER_SESSION_MAC_DOMAIN_V2 b = Some tag"
    and s: "session = \<lparr>body = ?z\<lparr>s2_genesis_head_sha256 := head\<rparr>, tag_hex = tag\<rparr>"
    by (auto simp: session_sign_v2_def Let_def bind_res_Inr_iff ok_or_Inr_iff)
  have "genesis_digest c (?z\<lparr>s2_genesis_head_sha256 := head\<rparr>) = Inr head"
    using g by (simp add: genesis_digest_def)
  moreover have "lower_hex_64 head"
    using g digest_of_digest [OF assms(1)] by (simp add: genesis_digest_def)
  moreover have "crypto_ok (prim c)" using assms(1) by (simp add: crypto_v2_ok_def)
  ultimately show ?thesis
    using w b t s by (simp add: session_verify_historical_v2_def session_validate_v2_def
        bind_res_Inr_iff ensure_Inr_iff verify_domain_hex_iff tag_domain_hex_digest all_ok.simps(1))
qed

subsection \<open>Draft tokens are determined by the rows and the sampler state\<close>

lemma pick_entry_in: "pick_entry t cu es = Some k \<Longrightarrow> k \<in> set (map w2_token es)"
  by (induction t cu es rule: pick_entry.induct) (auto simp: Let_def split: if_splits)

lemma weight_entries_sound:
  "weight_entries vocab seen tot es = Inr t \<Longrightarrow> \<forall>e\<in>set es. w2_token e < vocab"
  by (induction vocab seen tot es rule: weight_entries.induct) (auto split: if_splits)

lemma weight_row_sample_support:
  assumes "weight_row_sample row rng vocab m = Inr (token, rng')"
  shows "token \<in> set (map w2_token (w2_entries row)) \<and> token < vocab"
proof -
  from assms obtain t where v: "weight_row_validate row vocab m = Inr t"
    by (auto simp: weight_row_sample_def bind_res_Inr_iff)
  then have ne: "w2_entries row \<noteq> []" and lt: "\<forall>e\<in>set (w2_entries row). w2_token e < vocab"
    by (auto simp: weight_row_validate_def bind_res_Inr_iff dest: weight_entries_sound split: if_splits)
  have "token \<in> set (map w2_token (w2_entries row))"
    using assms v ne
    by (auto simp: weight_row_sample_def Let_def pick_entry_in split: option.splits prod.splits
        dest: pick_entry_in)
  with lt show ?thesis by auto
qed

lemma replay_rows_determined:
  "replay_rows vocab m rng rows ts = Inr g \<Longrightarrow> replay_rows vocab m rng rows us = Inr g' \<Longrightarrow>
     length ts = length rows \<Longrightarrow> length us = length rows \<Longrightarrow> ts = us \<and> g = g'"
proof (induction rows arbitrary: rng ts us)
  case (Cons row rows)
  then obtain a as b bs where tu: "ts = a # as" "us = b # bs"
    by (metis length_Suc_conv)
  from Cons.prems(1,2) tu obtain r where
      "weight_row_sample row rng vocab m = Inr (a, r)" "a = b"
      "replay_rows vocab m r rows as = Inr g" "replay_rows vocab m r rows bs = Inr g'"
    by (auto simp: bind_res_Inr_iff split: if_splits)
  with Cons.IH [of r as bs] Cons.prems(3,4) tu show ?case by simp
qed simp

lemma replay_rows_support:
  "replay_rows vocab m rng rows ts = Inr g \<Longrightarrow> length ts = length rows \<Longrightarrow>
     list_all2 (\<lambda>t row. t \<in> set (map w2_token (w2_entries row))) ts rows"
proof (induction rows arbitrary: rng ts)
  case (Cons row rows)
  then obtain a as where t: "ts = a # as" by (metis length_Suc_conv)
  with Cons.prems(1) obtain r where
      "weight_row_sample row rng vocab m = Inr (a, r)" "replay_rows vocab m r rows as = Inr g"
    by (auto simp: bind_res_Inr_iff split: if_splits)
  with Cons t show ?case by (auto dest: weight_row_sample_support)
qed simp

text \<open>C11: A drafter cannot choose its tokens. In a verify round of a session with sparse maximal
  coupling that passes validation, every draft token is in the support of its proposal row, and two
  valid rounds with the same sampler state and the same proposal rows have the same draft tokens and
  leave the same sampler state.\<close>

theorem sparse_drafts_determined:
  assumes "round_validate_v2 c r s = Inr ()" "round_validate_v2 c r' s = Inr ()"
    and "s2_coupling_policy s = SparseMaximalV2 m"
    and "r2_intent r = VerifyIntent" "r2_intent r' = VerifyIntent"
    and "r2_draft_evidence r' = r2_draft_evidence r"
    and "r2_base_sampler_state r' = r2_base_sampler_state r"
  shows "r2_draft_tokens r' = r2_draft_tokens r
    \<and> r2_post_draft_sampler_state r' = r2_post_draft_sampler_state r
    \<and> (\<exists>rows. r2_draft_evidence r = SparseEvidence rows
          \<and> list_all2 (\<lambda>t row. t \<in> set (map w2_token (w2_entries row))) (r2_draft_tokens r) rows)"
proof -
  have ev: "\<exists>rows rng g. r2_draft_evidence x = SparseEvidence rows
      \<and> length (r2_draft_tokens x) = length rows \<and> to_mt (r2_base_sampler_state x) = Inr rng
      \<and> replay_rows (s2_vocab_size s) m rng rows (r2_draft_tokens x) = Inr g
      \<and> from_mt (snapshot g) = Inr (r2_post_draft_sampler_state x)"
    if "round_validate_v2 c x s = Inr ()" "r2_intent x = VerifyIntent" for x
    using that assms(3)
    by (auto simp: round_validate_v2_def round_evidence_check_def draft_evidence_check_def
        bind_res_Inr_iff split: draft_evidence_v2.splits)
  from ev [OF assms(1,4)] obtain rows rng g where
      a: "r2_draft_evidence r = SparseEvidence rows" "length (r2_draft_tokens r) = length rows"
         "to_mt (r2_base_sampler_state r) = Inr rng"
         "replay_rows (s2_vocab_size s) m rng rows (r2_draft_tokens r) = Inr g"
         "from_mt (snapshot g) = Inr (r2_post_draft_sampler_state r)" by blast
  from ev [OF assms(2,5)] a assms(6,7) obtain g' where
      b: "length (r2_draft_tokens r') = length rows"
         "replay_rows (s2_vocab_size s) m rng rows (r2_draft_tokens r') = Inr g'"
         "from_mt (snapshot g') = Inr (r2_post_draft_sampler_state r')" by auto
  from replay_rows_determined [OF a(4) b(2) a(2) b(1)] a b replay_rows_support [OF a(4) a(2)]
  show ?thesis by auto
qed

subsection \<open>A finished closure holds the payloads its result names\<close>

definition assembler_ok_v2 :: "crypto_v2 \<Rightarrow> assembler_v2 \<Rightarrow> bool" where
  "assembler_ok_v2 c a \<longleftrightarrow> length (a2_payloads a) = length (a2_descriptors a)
     \<and> (\<forall>i<length (a2_payloads a). \<forall>p. a2_payloads a ! i = Some p \<longrightarrow>
          length p = d2_byte_len (a2_descriptors a ! i)
          \<and> sha256_hex (prim c) p = d2_sha256 (a2_descriptors a ! i))"

definition closure_ok_v2 :: "crypto_v2 \<Rightarrow> closure_v2 \<Rightarrow> bool" where
  "closure_ok_v2 c closure =
     list_all (\<lambda>f. length (f2_payload f) = d2_byte_len (f2_descriptor f)
        \<and> sha256_hex (prim c) (f2_payload f) = d2_sha256 (f2_descriptor f)) (c2_fragments closure)"

lemma assembler_new_ok: "assembler_new_v2 c result request s = Inr a \<Longrightarrow> assembler_ok_v2 c a"
  by (auto simp: assembler_new_v2_def bind_res_Inr_iff assembler_ok_v2_def)

lemma assembler_insert_ok:
  "assembler_ok_v2 c a \<Longrightarrow> assembler_insert_v2 c a i p = Inr (b, a') \<Longrightarrow>
     assembler_ok_v2 c a' \<and> a2_descriptors a' = a2_descriptors a \<and> a2_result_sha256 a' = a2_result_sha256 a"
  by (auto simp: assembler_insert_v2_def assembler_ok_v2_def Let_def nth_list_update
      split: if_splits option.splits)

lemma assembler_finish_ok:
  assumes "assembler_ok_v2 c a" "assembler_finish_v2 a = Inr closure"
  shows "closure_ok_v2 c closure" "map f2_descriptor (c2_fragments closure) = a2_descriptors a"
    "c2_result_sha256 closure = a2_result_sha256 a"
proof -
  have len: "length (a2_payloads a) = length (a2_descriptors a)"
    using assms(1) by (simp add: assembler_ok_v2_def)
  have some: "\<forall>i<length (a2_payloads a). \<exists>p. a2_payloads a ! i = Some p"
    using assms(2) by (auto simp: assembler_finish_v2_def list_ex_length Option.is_none_def split: if_splits)
  have cl: "c2_fragments closure = map (\<lambda>(d, p). \<lparr>f2_descriptor = d, f2_payload = the p\<rparr>)
      (zip (a2_descriptors a) (a2_payloads a))" "c2_result_sha256 closure = a2_result_sha256 a"
    using assms(2) by (auto simp: assembler_finish_v2_def split: if_splits)
  show "closure_ok_v2 c closure"
    using cl len some assms(1)
    by (fastforce simp: closure_ok_v2_def assembler_ok_v2_def list_all_length)
  show "map f2_descriptor (c2_fragments closure) = a2_descriptors a"
    using cl len by (auto intro!: nth_equalityI)
  show "c2_result_sha256 closure = a2_result_sha256 a" by (rule cl(2))
qed

subsection \<open>A concrete session\<close>

text \<open>A greedy session with one required component and a round of one draft, a session with sparse
  coupling and a round whose draft is sampled from its row, and primitives that return constants: the
  values on which the hypotheses of the theorems are discharged. The serializer of a session record
  succeeds on this one session only, so that it has an inverse.\<close>

definition demo_identity_v2 :: identity_v2 where
  "demo_identity_v2 = \<lparr>i2_semantic_product_sha256 = demo_digest, i2_prefix_checkpoint_sha256 = demo_digest,
     i2_target_checkpoint_sha256 = demo_digest, i2_target_engine_sha256 = demo_digest,
     i2_target_sampler_sha256 = demo_digest, i2_draft_checkpoint_sha256 = demo_digest,
     i2_draft_engine_sha256 = demo_digest, i2_tokenizer_sha256 = demo_digest,
     i2_vocabulary_sha256 = demo_digest, i2_target_genesis_root_sha256 = demo_digest,
     i2_draft_genesis_root_sha256 = demo_digest, i2_portable_kv_abi = ''muse-kv-v2''\<rparr>"

definition demo_requirement_v2 :: requirement_v2 where
  "demo_requirement_v2 = \<lparr>q2_component_id = ''target-hidden'', q2_kind = TargetHiddenV2,
     q2_coverage = CommittedInputsV2, q2_payload_abi = ''rows-v1'', q2_bytes_per_logical_row = 2,
     q2_required = True\<rparr>"

definition demo_session_v2 :: session_v2 where
  "demo_session_v2 = \<lparr>s2_protocol = VERIFIER_SESSION_PROTOCOL_V2, s2_session_id = ''session-a'',
     s2_client_incarnation = ''mac-boot-a'', s2_log_writer_authority_id = ''gx10-a'',
     s2_authority_lease_id = ''lease-a'', s2_authority_term = 1, s2_target_executor_id = ''target-a'',
     s2_target_public_key = replicate 32 1, s2_created_unix_ms = 10, s2_expires_unix_ms = 1000,
     s2_hmac_key_id = ''key-a'', s2_hmac_key_epoch = 7, s2_identity = demo_identity_v2,
     s2_coupling_policy = GreedyV2, s2_sampler_config_sha256 = demo_digest, s2_vocab_size = 100,
     s2_max_context_tokens = 50, s2_max_drafts = 4, s2_max_total_fragment_bytes = 64,
     s2_initial_evaluated_tokens = [5, 6], s2_initial_output_height = 0,
     s2_initial_frontier = OpenFrontier 11 0, s2_initial_sampler_state = stateless,
     s2_fragment_requirements = [demo_requirement_v2], s2_genesis_head_sha256 = demo_digest\<rparr>"

definition demo_round_v2 :: round_v2 where
  "demo_round_v2 = \<lparr>r2_protocol = VERIFIER_ROUND_PROTOCOL_V3, r2_intent = VerifyIntent,
     r2_session_id = ''session-a'', r2_session_genesis_sha256 = demo_digest, r2_authority_term = 1,
     r2_request_id = ''request-1'', r2_created_unix_ms = 11, r2_expires_unix_ms = 100,
     r2_hmac_key_id = ''key-a'', r2_hmac_key_epoch = 7, r2_base_output_height = 0,
     r2_base_head_sha256 = demo_digest, r2_base_evaluated_tokens = [5, 6],
     r2_base_tokens_sha256 = demo_digest, r2_frontier_in = OpenFrontier 11 0, r2_draft_tokens = [12],
     r2_draft_evidence = NoEvidence, r2_base_sampler_state = stateless,
     r2_post_draft_sampler_state = stateless\<rparr>"

definition demo_fragment_v2 :: descriptor_v2 where
  "demo_fragment_v2 = \<lparr>d2_ordinal = 0, d2_component_id = ''target-hidden'', d2_kind = TargetHiddenV2,
     d2_logical_start = 0, d2_logical_count = 2, d2_payload_abi = ''rows-v1'',
     d2_bytes_per_logical_row = 2, d2_byte_len = 4, d2_sha256 = demo_digest\<rparr>"

definition demo_result_v2 :: result_v2 where
  "demo_result_v2 = \<lparr>o2_protocol = VERIFIER_RESULT_PROTOCOL_V2, o2_session_id = ''session-a'',
     o2_session_genesis_sha256 = demo_digest, o2_authority_term = 1, o2_target_executor_id = ''target-a'',
     o2_request_id = ''request-1'', o2_request_intent_sha256 = demo_digest, o2_base_output_height = 0,
     o2_base_head_sha256 = demo_digest, o2_decision = OpenDecision 1 13, o2_committed_tokens = [11, 12],
     o2_new_output_height = 2, o2_new_evaluated_tokens_sha256 = demo_digest,
     o2_new_frontier = OpenFrontier 13 2, o2_post_verify_sampler_state = stateless,
     o2_fragments_sha256 = demo_digest, o2_fragments = [demo_fragment_v2],
     o2_new_head_sha256 = demo_digest, o2_completed_unix_ms = 20\<rparr>"

definition demo_auth_session :: auth_session_v2 where
  "demo_auth_session = \<lparr>body = demo_session_v2, tag_hex = demo_digest\<rparr>"

definition demo_auth_round :: auth_round_v2 where
  "demo_auth_round = \<lparr>body = demo_round_v2, tag_hex = demo_digest\<rparr>"

definition demo_auth_result :: auth_result_v2 where
  "demo_auth_result = \<lparr>body = demo_result_v2, tag_hex = hex_encode (replicate 64 0)\<rparr>"

definition demo_crypto_v2 :: crypto_v2 where
  "demo_crypto_v2 = \<lparr>prim = demo_crypto, json_sampler_v2 = (\<lambda>_. Inr []), json_session_v2 = (\<lambda>_. Inr []),
     json_auth_session_v2 = (\<lambda>s. if s = demo_auth_session then Inr [1] else Inl ''another session''),
     json_round_v2 = (\<lambda>_. Inr []), json_result_v2 = (\<lambda>_. Inr []), json_auth_result_v2 = (\<lambda>_. Inr []),
     json_descriptors_v2 = (\<lambda>_. Inr []), json_transition_v2 = (\<lambda>_. Inr []),
     ed25519_public = (\<lambda>_. replicate 32 1), ed25519_sign = (\<lambda>_ _. replicate 64 0),
     ed25519_verify = (\<lambda>_ _ _. True)\<rparr>"

lemma demo_crypto_v2_simps [simp]:
  "prim demo_crypto_v2 = demo_crypto" "json_session_v2 demo_crypto_v2 s = Inr []"
  "json_auth_session_v2 demo_crypto_v2 a = (if a = demo_auth_session then Inr [1] else Inl ''another session'')"
  "json_round_v2 demo_crypto_v2 r = Inr []" "json_result_v2 demo_crypto_v2 x = Inr []"
  "json_auth_result_v2 demo_crypto_v2 y = Inr []" "json_descriptors_v2 demo_crypto_v2 ds = Inr []"
  "json_transition_v2 demo_crypto_v2 t = Inr []" "ed25519_sign demo_crypto_v2 seed m = replicate 64 0"
  "ed25519_verify demo_crypto_v2 pk m sg"
  by (simp_all add: demo_crypto_v2_def)

lemma demo_crypto_v2_ok: "crypto_v2_ok demo_crypto_v2"
  by (simp add: crypto_v2_ok_def demo_crypto_ok)

lemma demo_digests_v2 [simp]:
  "digest_of demo_crypto_v2 json v = map_err invalid (case json v of Inl e \<Rightarrow> Inl e | Inr b \<Rightarrow> Inr demo_digest)"
  "token_digest demo_crypto_v2 ts = demo_digest"
  by (simp_all add: digest_of_def canonical_v2_def token_digest_def split: sum.split)

lemma demo_idents:
  "ident_v2 ''session-a''" "ident_v2 ''mac-boot-a''" "ident_v2 ''gx10-a''" "ident_v2 ''lease-a''"
  "ident_v2 ''target-a''" "ident_v2 ''key-a''" "ident_v2 ''request-1''" "ident_v2 ''target-hidden''"
  "ident_v2 ''rows-v1''" "ident_v2 ''muse-kv-v2''"
  by code_simp+

lemma demo_tags_v2:
  "tag_domain_hex demo_crypto [] VERIFIER_SESSION_MAC_DOMAIN_V2 [] = Some demo_digest"
  "tag_domain_hex demo_crypto [] VERIFIER_ROUND_MAC_DOMAIN_V3 [] = Some demo_digest"
  by (simp_all add: tag_domain_hex_def VERIFIER_SESSION_MAC_DOMAIN_V2_def VERIFIER_ROUND_MAC_DOMAIN_V3_def
      str_def demo_crypto_def demo_hex)

lemmas v2_limits = MAX_DRAFTS_V2_def MAX_SPARSE_SUPPORT_V2_def MAX_CONTEXT_TOKENS_V2_def
  MAX_FRAGMENT_BYTES_V2_def MAX_TOTAL_FRAGMENT_BYTES_V2_def MAX_FRAGMENTS_V2_def MAX_CLOCK_SKEW_MS_V2_def

lemma demo_identity_v2_ok: "identity_validate_v2 demo_identity_v2 = Inr ()"
  by (simp add: identity_validate_v2_def demo_identity_v2_def demo_digest_ok demo_idents)

lemma demo_zeros: "replicate 64 CHR ''0'' = demo_digest"
  by (simp add: demo_digest_def)

lemma demo_session_v2_ok: "session_validate_v2 demo_crypto_v2 demo_session_v2 ''key-a'' 7 = Inr ()"
proof -
  have "validate_without_head demo_session_v2 ''key-a'' 7 = Inr ()"
    by (simp add: validate_without_head_def session_geometry_bad_v2_def initial_frontier_ok_def
        validate_requirements_v2_def sampler_validate_for_def stateless_def demo_session_v2_def demo_requirement_v2_def
        demo_identity_v2_ok demo_digest_ok demo_idents v2_limits)
  then show ?thesis
    by (simp add: session_validate_v2_def genesis_digest_def demo_session_v2_def demo_digest_ok)
qed

lemma demo_session_verified:
  "session_verify_live demo_crypto_v2 demo_auth_session [] 500 ''key-a'' 7 = Inr ()"
proof -
  have "verify_domain_hex demo_crypto [] VERIFIER_SESSION_MAC_DOMAIN_V2 [] demo_digest"
    using demo_tags_v2(1) demo_digest_ok demo_crypto_ok by (simp add: verify_domain_hex_iff)
  moreover have "s2_expires_unix_ms demo_session_v2 = 1000" "s2_created_unix_ms demo_session_v2 = 10"
    by (simp_all add: demo_session_v2_def)
  ultimately show ?thesis
    by (simp add: session_verify_live_def session_verify_historical_v2_def demo_auth_session_def
        demo_session_v2_ok demo_digest_ok arith_defs v2_limits canonical_v2_def)
qed

lemma demo_round_v2_ok: "round_validate_v2 demo_crypto_v2 demo_round_v2 demo_session_v2 = Inr ()"
  by (simp add: round_validate_v2_def round_wrong_session_def compatible_protocol_def round_tokens_differ_def
      round_context_differs_def context_inputs_def frontier_check_def sampler_validate_for_def
      round_evidence_check_def draft_evidence_check_def stateless_def arith_defs
      demo_session_v2_def demo_round_v2_def demo_digest_ok demo_idents)

lemma demo_round_verified:
  "round_verify_live demo_crypto_v2 demo_auth_round demo_session_v2 [] 50 = Inr ()"
proof -
  have "verify_domain_hex demo_crypto [] VERIFIER_ROUND_MAC_DOMAIN_V3 [] demo_digest"
    using demo_tags_v2(2) demo_digest_ok demo_crypto_ok by (simp add: verify_domain_hex_iff)
  moreover have "r2_protocol demo_round_v2 = VERIFIER_ROUND_PROTOCOL_V3" "r2_expires_unix_ms demo_round_v2 = 100"
      "r2_created_unix_ms demo_round_v2 = 11" by (simp_all add: demo_round_v2_def)
  moreover have "VERIFIER_ROUND_PROTOCOL_V3 \<noteq> VERIFIER_ROUND_PROTOCOL_V2"
    by (simp add: VERIFIER_ROUND_PROTOCOL_V3_def VERIFIER_ROUND_PROTOCOL_V2_def)
  ultimately show ?thesis
    by (simp add: round_verify_live_def round_verify_historical_v2_def demo_auth_round_def mac_domain_def
        demo_round_v2_ok demo_digest_ok arith_defs v2_limits canonical_v2_def)
qed

lemma demo_result_signed: "result_sign_v2 demo_crypto_v2 demo_result_v2 seed = Inr demo_auth_result"
  by (simp add: result_sign_v2_def demo_auth_result_def canonical_v2_def)

lemma demo_result_v2_ok: "verify_against_v2 demo_crypto_v2 demo_auth_result demo_auth_round demo_session_v2 = Inr ()"
proof -
  have sig: "signature_check demo_crypto_v2 demo_auth_result demo_session_v2 = Inr ()"
    by (simp add: signature_check_def demo_auth_result_def hex_decode_v2_encode canonical_v2_def)
  have geo: "validate_closure_geometry demo_result_v2 demo_auth_round demo_session_v2 = Inr ()"
    by (simp add: validate_closure_geometry_def requirement_check_def required_rows_def component_rows_def
        arith_defs Let_def demo_auth_round_def demo_round_v2_def demo_result_v2_def demo_session_v2_def
        demo_requirement_v2_def demo_fragment_v2_def)
  have desc: "validate_descriptors [demo_fragment_v2] 64 = Inr ()"
    by (simp add: validate_descriptors_def bind_res_Inr_iff demo_fragment_v2_def demo_idents demo_digest_ok arith_defs v2_limits)
  have "result_commitments_check demo_crypto_v2 demo_result_v2 demo_auth_round demo_session_v2 = Inr ()"
    using geo desc
    by (simp add: result_commitments_check_def fragment_set_digest_def transition_head_def
        sampler_validate_for_def stateless_def demo_digest_ok)
      (simp add: demo_result_v2_def demo_session_v2_def stateless_def demo_digest_ok)
  with sig show ?thesis
    unfolding verify_against_v2_Inr_iff
    by (simp add: demo_auth_result_def demo_auth_round_def intent_sha256_v2_def validate_for_intent_def
        result_off_session_def expected_tokens_def demo_result_v2_def demo_round_v2_def demo_session_v2_def
        VERIFIER_ROUND_PROTOCOL_V3_def VERIFIER_ROUND_PROTOCOL_V2_def)
qed

theorem verified_fragments_tile_witness:
  "component_rows (o2_fragments demo_result_v2) demo_requirement_v2 = [demo_fragment_v2]
   \<and> tiles 0 2 (map (\<lambda>d. (d2_logical_start d, d2_logical_count d))
        (component_rows (o2_fragments demo_result_v2) demo_requirement_v2))"
proof -
  have r: "component_rows (o2_fragments demo_result_v2) demo_requirement_v2 = [demo_fragment_v2]"
    by (simp add: component_rows_def demo_result_v2_def demo_requirement_v2_def demo_fragment_v2_def)
  have "demo_requirement_v2 \<in> set (s2_fragment_requirements demo_session_v2)" by (simp add: demo_session_v2_def)
  moreover have "required_rows (body demo_auth_round) (length (o2_committed_tokens (body demo_auth_result)))
      (q2_coverage demo_requirement_v2) = (0, 2)"
    by (simp add: required_rows_def demo_auth_round_def demo_round_v2_def demo_auth_result_def demo_result_v2_def
        demo_requirement_v2_def)
  ultimately show ?thesis
    using verified_fragments_tile [OF demo_result_v2_ok, of demo_requirement_v2 0 2] r
    by (simp add: demo_auth_result_def Let_def)
qed

theorem built_iff_verified_witness:
  "build_result demo_crypto_v2 demo_auth_round demo_session_v2 (OpenDecision 1 13) stateless [demo_fragment_v2] 20 []
     = Inr demo_auth_result"
proof -
  have "result_sign_v2 demo_crypto_v2 (body demo_auth_result) [] = Inr demo_auth_result"
    using demo_result_signed by (simp add: demo_auth_result_def)
  from built_iff_verified [OF this, of demo_auth_round demo_session_v2] demo_result_v2_ok show ?thesis
    by (simp add: demo_auth_result_def demo_result_v2_def)
qed

text \<open>The same session with sparse coupling: a generator of zeros draws the first entry of a row.\<close>

definition demo_mt :: "nat \<Rightarrow> sampler_state_v2" where
  "demo_mt i = MtSampler (replicate mt_size 0) i"

definition demo_row :: sparse_weight_row where
  "demo_row = \<lparr>w2_vocab_size = 100, w2_entries = [\<lparr>w2_token = 12, w2_weight_f32_bits = 1\<rparr>,
     \<lparr>w2_token = 17, w2_weight_f32_bits = 1\<rparr>]\<rparr>"

definition demo_sparse_session :: session_v2 where
  "demo_sparse_session = demo_session_v2\<lparr>s2_coupling_policy := SparseMaximalV2 4,
     s2_initial_sampler_state := demo_mt 0\<rparr>"

definition demo_sparse_round :: round_v2 where
  "demo_sparse_round = demo_round_v2\<lparr>r2_draft_evidence := SparseEvidence [demo_row],
     r2_base_sampler_state := demo_mt 0, r2_post_draft_sampler_state := demo_mt 2\<rparr>"

lemma demo_mt_ok:
  "to_mt (demo_mt 0) = Inr \<lparr>mt_state = replicate mt_size 0, mt_index = 0\<rparr>"
  "i \<le> 624 \<Longrightarrow> from_mt \<lparr>snap_state = replicate mt_size 0, snap_index = i\<rparr> = Inr (demo_mt i)"
  "i \<le> 624 \<Longrightarrow> sampler_validate_for (demo_mt i) (SparseMaximalV2 4) = Inr ()"
  by (simp_all add: demo_mt_def from_snapshot_def from_mt_def sampler_validate_for_def mt_size_def Let_def)

lemma demo_uniform:
  "uniform_f64 \<lparr>mt_state = replicate mt_size 0, mt_index = 0\<rparr>
     = (0, \<lparr>mt_state = replicate mt_size 0, mt_index = 2\<rparr>)"
proof -
  have "(0::nat) < mt_size" "Suc 0 < mt_size" by (simp_all add: mt_size_def)
  moreover have "temper 0 = 0" by (simp add: temper_def Let_def)
  moreover have "round_f64 0 = 0" by code_simp
  ultimately show ?thesis by (simp add: uniform_f64_def next_u32_def Let_def numeral_2_eq_2)
qed

lemma demo_row_total: "\<exists>tot. weight_row_validate demo_row 100 4 = Inr tot"
proof -
  have "f32_positive_finite (Suc 0)" "f32_units (Suc 0) = Suc 0"
    by (simp_all add: f32_positive_finite_def f32_units_def)
  moreover have "round_f64 (Suc 0) = Suc 0" "round_f64 (Suc (Suc 0)) = Suc (Suc 0)"
    by (simp_all add: round_f64_def bit_len.simps)
  ultimately show ?thesis by (simp add: weight_row_validate_def demo_row_def)
qed

lemma demo_sample:
  "weight_row_sample demo_row \<lparr>mt_state = replicate mt_size 0, mt_index = 0\<rparr> 100 4
     = Inr (12, \<lparr>mt_state = replicate mt_size 0, mt_index = 2\<rparr>)"
proof -
  have "round_f64 0 = 0" by code_simp
  with demo_row_total show ?thesis by (auto simp: weight_row_sample_def demo_uniform demo_row_def Let_def)
qed

lemma demo_sparse_ok: "round_validate_v2 demo_crypto_v2 demo_sparse_round demo_sparse_session = Inr ()"
proof -
  have ev: "draft_evidence_check demo_sparse_round demo_sparse_session = Inr ()"
    by (simp add: draft_evidence_check_def demo_sparse_session_def demo_sparse_round_def demo_session_v2_def
        demo_round_v2_def demo_mt_ok demo_sample snapshot_def)
  have "s2_coupling_policy demo_sparse_session = SparseMaximalV2 4"
      "r2_base_sampler_state demo_sparse_round = demo_mt 0" "r2_post_draft_sampler_state demo_sparse_round = demo_mt 2"
    by (simp_all add: demo_sparse_session_def demo_sparse_round_def)
  with ev show ?thesis
    by (simp add: round_validate_v2_def round_evidence_check_def demo_mt_ok)
      (simp add: round_wrong_session_def compatible_protocol_def round_tokens_differ_def
        round_context_differs_def context_inputs_def frontier_check_def arith_defs
        demo_session_v2_def demo_round_v2_def demo_sparse_session_def demo_sparse_round_def
        demo_digest_ok demo_idents)
qed

theorem sparse_drafts_determined_witness:
  "round_validate_v2 demo_crypto_v2 demo_sparse_round demo_sparse_session = Inr ()
   \<and> (\<exists>rows. r2_draft_evidence demo_sparse_round = SparseEvidence rows
        \<and> list_all2 (\<lambda>t row. t \<in> set (map w2_token (w2_entries row))) [12] rows)"
proof -
  have "s2_coupling_policy demo_sparse_session = SparseMaximalV2 4" "r2_intent demo_sparse_round = VerifyIntent"
      "r2_draft_tokens demo_sparse_round = [12]"
    by (simp_all add: demo_sparse_session_def demo_sparse_round_def demo_round_v2_def)
  with sparse_drafts_determined [OF demo_sparse_ok demo_sparse_ok] demo_sparse_ok show ?thesis by simp
qed

end
