(* ===== verification/Verifier_Journal.thy ===== *)
theory Verifier_Journal
  imports Verifier_V2 "HOL-Library.List_Lexorder" "HOL-Library.Char_ord"
begin

section \<open>The durable journal of the verifier\<close>

text \<open>
  The second half of \<open>crates/muser-cluster/src/verifier_v2.rs\<close>, \<open>DurableVerifierJournalV2\<close>: a
  write-ahead journal in a private directory. A round passes through the phases reserved, prepared,
  staged, committed, active, acknowledged and retired; each phase is one file, named by the digest of
  the request id, holding an authenticated envelope. A commit is written before the renderer is
  activated, and opening the journal replays the files.

  The disk is a record: the session file and, for each subdirectory, its files with their contents.
  Every operation returns its result, the journal in memory, and the list of effects it performed in
  order, so that a crash is a prefix of that list. \<open>write_exclusive\<close> is two effects, the creation
  of an empty file and the write of its contents, since a crash can fall between them. The calls of
  the renderer are effects too, which do not change the disk.

  A \<open>BTreeMap\<close> is an association list kept sorted by key. Third-party code is the parameter
  \<open>journal_io\<close>: the primitives of \<open>crypto_v2\<close>, the JSON serializer and parser of an envelope, and
  the conversion of each record to and from a \<open>serde_json::Value\<close>, whose canonical text stands for
  it. What is assumed of them is that parsing inverts printing (\<open>io_ok\<close>). The renderer and the
  authority fence are traits: each call gets the function it uses. The file modes, symbolic links and
  the advisory lock are not part of the model, and file-system calls do not fail on their own.
  \<open>read_dir\<close> lists a directory in no fixed order; here it is the order of names, which can only change
  which error a damaged directory is reported with.
\<close>

subsection \<open>Ordered maps\<close>

type_synonym 'v btree = "(string \<times> 'v) list"

fun bt_insert :: "string \<Rightarrow> 'v \<Rightarrow> 'v btree \<Rightarrow> 'v btree" where
  "bt_insert k v [] = [(k, v)]"
| "bt_insert k v ((k', v') # m) =
     (if k < k' then (k, v) # (k', v') # m
      else if k = k' then (k, v) # m
      else (k', v') # bt_insert k v m)"

definition bt_remove :: "string \<Rightarrow> 'v btree \<Rightarrow> 'v btree" where
  "bt_remove k m = filter (\<lambda>(k', _). k' \<noteq> k) m"

definition bt_has :: "'v btree \<Rightarrow> string \<Rightarrow> bool" where
  "bt_has m k \<longleftrightarrow> map_of m k \<noteq> None"

definition bt_wf :: "'v btree \<Rightarrow> bool" where
  "bt_wf m \<longleftrightarrow> sorted_wrt (<) (map fst m)"

lemma bt_wf_Nil [simp]: "bt_wf []"
  by (simp add: bt_wf_def)

lemma map_of_bt_insert [simp]: "map_of (bt_insert k v m) = (map_of m)(k \<mapsto> v)"
  by (induction k v m rule: bt_insert.induct) (auto simp: fun_eq_iff)

lemma map_of_bt_remove [simp]: "map_of (bt_remove k m) = (map_of m)(k := None)"
  by (induction m) (auto simp: bt_remove_def fun_eq_iff)

lemma fst_bt_insert: "fst ` set (bt_insert k v m) = insert k (fst ` set m)"
  by (induction k v m rule: bt_insert.induct) auto

lemma bt_wf_insert [simp]: "bt_wf m \<Longrightarrow> bt_wf (bt_insert k v m)"
proof (induction k v m rule: bt_insert.induct)
  case (2 k v k' v' m)
  then show ?case using fst_bt_insert [of k v m] by (auto simp: bt_wf_def)
qed (simp add: bt_wf_def)

lemma bt_wf_filter [simp]: "bt_wf m \<Longrightarrow> bt_wf (filter P m)"
  by (induction m) (auto simp: bt_wf_def)

lemma bt_wf_remove [simp]: "bt_wf m \<Longrightarrow> bt_wf (bt_remove k m)"
  by (simp add: bt_remove_def)

lemma bt_wf_distinct: "bt_wf m \<Longrightarrow> distinct (map fst m)"
  unfolding bt_wf_def by (simp add: strict_sorted_iff)

lemma bt_in_iff: "bt_wf m \<Longrightarrow> (k, v) \<in> set m \<longleftrightarrow> map_of m k = Some v"
  by (simp add: bt_wf_distinct map_of_eq_Some_iff)

subsection \<open>The disk\<close>

datatype dir =
  Reservations | Prepared | Staged | Commits | Active | Acks | Tombstones | Fragments

record disk =
  session_file :: "bytes option"
  files :: "dir \<Rightarrow> bytes btree"

record stage_receipt =
  rs_result_sha256 :: string
  rs_render_root_sha256 :: string
  rs_stage_token :: string
  rs_staged_unix_ms :: nat

datatype effect =
  CreateNew dir string
| WriteAll dir string bytes
| RemoveFile dir string
| RendererStage auth_result_v2 closure_v2
| RendererActivate stage_receipt

definition set_file :: "dir \<Rightarrow> string \<Rightarrow> bytes \<Rightarrow> disk \<Rightarrow> disk" where
  "set_file dir name b d = d\<lparr>files := (files d)(dir := bt_insert name b (files d dir))\<rparr>"

fun apply_effect :: "effect \<Rightarrow> disk \<Rightarrow> disk" where
  "apply_effect (CreateNew dir name) d = set_file dir name [] d"
| "apply_effect (WriteAll dir name b) d = set_file dir name b d"
| "apply_effect (RemoveFile dir name) d =
     d\<lparr>files := (files d)(dir := bt_remove name (files d dir))\<rparr>"
| "apply_effect (RendererStage result closure) d = d"
| "apply_effect (RendererActivate receipt) d = d"

definition run_effects :: "effect list \<Rightarrow> disk \<Rightarrow> disk" where
  "run_effects es d = fold apply_effect es d"

abbreviation file_at :: "disk \<Rightarrow> dir \<Rightarrow> string \<Rightarrow> bytes option" where
  "file_at d dir \<equiv> map_of (files d dir)"

definition write_exclusive :: "disk \<Rightarrow> dir \<Rightarrow> string \<Rightarrow> bytes \<Rightarrow> v2_error + effect list" where
  "write_exclusive d dir name payload =
     (if bt_has (files d dir) name then Inl (IoError ''file exists'')
      else Inr [CreateNew dir name, WriteAll dir name payload])"

definition remove_if_exists :: "disk \<Rightarrow> dir \<Rightarrow> string \<Rightarrow> effect list" where
  "remove_if_exists d dir name = (if bt_has (files d dir) name then [RemoveFile dir name] else [])"

definition read_json :: "(bytes \<Rightarrow> string + 'a) \<Rightarrow> nat \<Rightarrow> bytes \<Rightarrow> v2_error + 'a" where
  "read_json parse maximum_bytes b =
     (if length b = 0 \<or> length b > maximum_bytes then Inl (invalid ''journal object mode or size differs'')
      else map_err invalid (parse b))"

subsection \<open>Journal records\<close>

record envelope =
  e_protocol :: string
  e_kind :: string
  e_session_record_sha256 :: string
  e_payload :: bytes
  e_hmac_sha256 :: string

record unsigned_envelope =
  u_protocol :: string
  u_kind :: string
  u_session_record_sha256 :: string
  u_payload :: bytes

record reservation_record =
  rv_request :: auth_round_v2
  rv_reserved_unix_ms :: nat

record prepared_record =
  pr_request_intent_sha256 :: string
  pr_result :: auth_result_v2
  pr_prepared_unix_ms :: nat

record staged_record =
  sg_request_id :: string
  sg_request_intent_sha256 :: string
  sg_result_sha256 :: string
  sg_renderer :: stage_receipt
  sg_staged_unix_ms :: nat

record commit_record =
  cm_request :: auth_round_v2
  cm_result :: auth_result_v2
  cm_renderer :: stage_receipt
  cm_committed_unix_ms :: nat

record active_record =
  ac_request_id :: string
  ac_result_sha256 :: string
  ac_new_head_sha256 :: string
  ac_activated_unix_ms :: nat

record ack_record =
  ak_request_id :: string
  ak_result_sha256 :: string
  ak_applied_head_sha256 :: string
  ak_acknowledged_unix_ms :: nat

record tombstone_record =
  tb_request_id :: string
  tb_result_sha256 :: string
  tb_retired_unix_ms :: nat

text \<open>\<open>RequestIdentityV2\<close>: the request id each record is filed under.\<close>

definition rv_id :: "reservation_record \<Rightarrow> string" where "rv_id x = r2_request_id (body (rv_request x))"
definition pr_id :: "prepared_record \<Rightarrow> string" where "pr_id x = o2_request_id (body (pr_result x))"
definition cm_id :: "commit_record \<Rightarrow> string" where "cm_id x = r2_request_id (body (cm_request x))"

datatype reserve_outcome =
  Reserved
| PreparedOutcome auth_result_v2
| Replay auth_result_v2
| StaleOutcome nat string frontier_v2 sampler_state_v2 string

datatype pending_round_v2 =
  PendingReserved auth_round_v2
| PendingPrepared auth_round_v2 auth_result_v2
| PendingStaged auth_round_v2 auth_result_v2 stage_receipt

text \<open>The conversion of a record to a JSON value and back.\<close>

type_synonym 'r serde = "('r \<Rightarrow> string + bytes) \<times> (bytes \<Rightarrow> string + 'r)"

record journal_io =
  io_crypto :: crypto_v2
  io_json_envelope :: "envelope \<Rightarrow> string + bytes"
  io_parse_envelope :: "bytes \<Rightarrow> string + envelope"
  io_json_unsigned :: "unsigned_envelope \<Rightarrow> string + bytes"
  io_parse_session :: "bytes \<Rightarrow> string + auth_session_v2"
  io_reservation :: "reservation_record serde"
  io_prepared :: "prepared_record serde"
  io_staged :: "staged_record serde"
  io_commit :: "commit_record serde"
  io_active :: "active_record serde"
  io_ack :: "ack_record serde"
  io_tombstone :: "tombstone_record serde"

definition serde_ok :: "'r serde \<Rightarrow> bool" where
  "serde_ok sd \<longleftrightarrow> (\<forall>r v. fst sd r = Inr v \<longrightarrow> snd sd v = Inr r)"

definition io_ok :: "journal_io \<Rightarrow> bool" where
  "io_ok io \<longleftrightarrow> crypto_v2_ok (io_crypto io)
     \<and> (\<forall>e b. io_json_envelope io e = Inr b \<longrightarrow> b \<noteq> [] \<and> io_parse_envelope io b = Inr e)
     \<and> (\<forall>s b. json_auth_session_v2 (io_crypto io) s = Inr b \<longrightarrow> b \<noteq> [] \<and> io_parse_session io b = Inr s)
     \<and> serde_ok (io_reservation io) \<and> serde_ok (io_prepared io) \<and> serde_ok (io_staged io)
     \<and> serde_ok (io_commit io) \<and> serde_ok (io_active io) \<and> serde_ok (io_ack io)
     \<and> serde_ok (io_tombstone io)"

record journal =
  j_key :: bytes
  j_session :: auth_session_v2
  j_session_record_sha256 :: string
  j_evaluated_tokens :: "nat list"
  j_output_height :: nat
  j_head_sha256 :: string
  j_frontier :: frontier_v2
  j_sampler_state :: sampler_state_v2
  j_reservations :: "reservation_record btree"
  j_prepared :: "prepared_record btree"
  j_staged :: "staged_record btree"
  j_completions :: "auth_result_v2 btree"
  j_acknowledgements :: "ack_record btree"
  j_tombstones :: "tombstone_record btree"
  j_pending_activation :: "commit_record option"

subsection \<open>Envelopes and slots\<close>

definition VERIFIER_JOURNAL_PROTOCOL_V2 :: string where
  "VERIFIER_JOURNAL_PROTOCOL_V2 = ''muser-verifier-journal-v2''"
definition VERIFIER_JOURNAL_MAC_DOMAIN_V2 :: bytes where
  "VERIFIER_JOURNAL_MAC_DOMAIN_V2 = str ''muser-verifier-journal-v2''"
definition SLOT_BYTES :: nat where "SLOT_BYTES = 16 * 1024 * 1024"
definition SESSION_BYTES :: nat where "SESSION_BYTES = 4 * 1024 * 1024"

definition journal_envelope ::
  "journal_io \<Rightarrow> string \<Rightarrow> string \<Rightarrow> ('r \<Rightarrow> string + bytes) \<Rightarrow> 'r \<Rightarrow> bytes \<Rightarrow> v2_error + envelope" where
  "journal_envelope io kind session_sha to_value payload key =
     bind_res (validate_identifier_v2 ''journal kind'' kind) (\<lambda>_.
     bind_res (validate_digest_v2 ''journal session'' session_sha) (\<lambda>_.
     bind_res (map_err invalid (to_value payload)) (\<lambda>v.
     bind_res (canonical_v2 (io_json_unsigned io)
         \<lparr>u_protocol = VERIFIER_JOURNAL_PROTOCOL_V2, u_kind = kind,
          u_session_record_sha256 = session_sha, u_payload = v\<rparr>) (\<lambda>b.
     bind_res (ok_or (tag_domain_hex (prim (io_crypto io)) key VERIFIER_JOURNAL_MAC_DOMAIN_V2 b)
                 AuthenticationV2) (\<lambda>tag.
       Inr \<lparr>e_protocol = VERIFIER_JOURNAL_PROTOCOL_V2, e_kind = kind,
            e_session_record_sha256 = session_sha, e_payload = v, e_hmac_sha256 = tag\<rparr>)))))"

definition decode_journal ::
  "journal_io \<Rightarrow> envelope \<Rightarrow> string \<Rightarrow> string \<Rightarrow> (bytes \<Rightarrow> string + 'r) \<Rightarrow> bytes \<Rightarrow> v2_error + 'r" where
  "decode_journal io e expected_kind session_sha from_value key =
     bind_res (refuse (e_protocol e \<noteq> VERIFIER_JOURNAL_PROTOCOL_V2 \<or> e_kind e \<noteq> expected_kind
        \<or> e_session_record_sha256 e \<noteq> session_sha) ''journal envelope identity differs'') (\<lambda>_.
     bind_res (validate_digest_v2 ''journal HMAC'' (e_hmac_sha256 e)) (\<lambda>_.
     bind_res (canonical_v2 (io_json_unsigned io)
         \<lparr>u_protocol = VERIFIER_JOURNAL_PROTOCOL_V2, u_kind = e_kind e,
          u_session_record_sha256 = e_session_record_sha256 e, u_payload = e_payload e\<rparr>) (\<lambda>b.
     bind_res (ensure (verify_domain_hex (prim (io_crypto io)) key VERIFIER_JOURNAL_MAC_DOMAIN_V2 b
                         (e_hmac_sha256 e)) AuthenticationV2) (\<lambda>_.
       map_err invalid (from_value (e_payload e))))))"

definition slot_name :: "journal_io \<Rightarrow> string \<Rightarrow> string" where
  "slot_name io request_id = sha256_hex (prim (io_crypto io)) (str request_id) @ ''.json''"

definition fragment_name :: "string \<Rightarrow> string" where
  "fragment_name digest = digest @ ''.bin''"

definition write_slot ::
  "journal_io \<Rightarrow> journal \<Rightarrow> disk \<Rightarrow> dir \<Rightarrow> string \<Rightarrow> string \<Rightarrow> ('r \<Rightarrow> string + bytes) \<Rightarrow> 'r
     \<Rightarrow> v2_error + effect list" where
  "write_slot io j d dir request_id kind to_value payload =
     bind_res (journal_envelope io kind (j_session_record_sha256 j) to_value payload (j_key j)) (\<lambda>e.
       case file_at d dir (slot_name io request_id) of
         Some b \<Rightarrow>
           bind_res (read_json (io_parse_envelope io) SLOT_BYTES b) (\<lambda>existing.
           bind_res (canonical_v2 (io_json_envelope io) existing) (\<lambda>old.
           bind_res (canonical_v2 (io_json_envelope io) e) (\<lambda>new.
             if old = new then Inr [] else Inl ChangedIntentV2)))
       | None \<Rightarrow>
           bind_res (canonical_v2 (io_json_envelope io) e) (\<lambda>new.
             write_exclusive d dir (slot_name io request_id) new))"

text \<open>\<open>Path::extension\<close>: what follows the last dot, if the name has a stem before it.\<close>

definition json_extension :: "string \<Rightarrow> bool" where
  "json_extension name \<longleftrightarrow> length name > 5 \<and> drop (length name - 5) name = ''.json''"

fun read_slots_loop ::
  "journal_io \<Rightarrow> journal \<Rightarrow> string \<Rightarrow> (bytes \<Rightarrow> string + 'r) \<Rightarrow> ('r \<Rightarrow> string) \<Rightarrow> 'r btree \<Rightarrow> bytes btree
     \<Rightarrow> v2_error + 'r btree" where
  "read_slots_loop io j kind from_value request_id records [] = Inr records"
| "read_slots_loop io j kind from_value request_id records ((name, b) # entries) =
     bind_res (refuse (\<not> json_extension name) ''journal directory contains an unexpected object'') (\<lambda>_.
     bind_res (read_json (io_parse_envelope io) SLOT_BYTES b) (\<lambda>e.
     bind_res (decode_journal io e kind (j_session_record_sha256 j) from_value (j_key j)) (\<lambda>r.
     bind_res (refuse (slot_name io (request_id r) \<noteq> name \<or> bt_has records (request_id r))
                 ''journal slot filename or identity differs'') (\<lambda>_.
       read_slots_loop io j kind from_value request_id (bt_insert (request_id r) r records) entries))))"

definition read_slots ::
  "journal_io \<Rightarrow> journal \<Rightarrow> disk \<Rightarrow> dir \<Rightarrow> string \<Rightarrow> (bytes \<Rightarrow> string + 'r) \<Rightarrow> ('r \<Rightarrow> string)
     \<Rightarrow> v2_error + 'r btree" where
  "read_slots io j d dir kind from_value request_id =
     read_slots_loop io j kind from_value request_id [] (files d dir)"

definition write_active :: "journal_io \<Rightarrow> journal \<Rightarrow> disk \<Rightarrow> active_record \<Rightarrow> v2_error + effect list" where
  "write_active io j d active =
     (case file_at d Active (slot_name io (ac_request_id active)) of
        Some b \<Rightarrow>
          bind_res (read_json (io_parse_envelope io) SLOT_BYTES b) (\<lambda>e.
          bind_res (decode_journal io e ''active'' (j_session_record_sha256 j) (snd (io_active io)) (j_key j))
            (\<lambda>existing.
             if ac_request_id existing = ac_request_id active
                \<and> ac_result_sha256 existing = ac_result_sha256 active
                \<and> ac_new_head_sha256 existing = ac_new_head_sha256 active
             then Inr [] else Inl ChangedIntentV2))
      | None \<Rightarrow> write_slot io j d Active (ac_request_id active) ''active'' (fst (io_active io)) active)"

definition write_fragment :: "disk \<Rightarrow> verified_fragment_v2 \<Rightarrow> v2_error + effect list" where
  "write_fragment d fragment =
     (let name = fragment_name (d2_sha256 (f2_descriptor fragment)) in
      case file_at d Fragments name of
        Some payload \<Rightarrow>
          if payload \<noteq> f2_payload fragment then Inl (invalid ''content-addressed fragment collision'')
          else Inr []
      | None \<Rightarrow> write_exclusive d Fragments name (f2_payload fragment))"

fun write_fragments :: "disk \<Rightarrow> verified_fragment_v2 list \<Rightarrow> (v2_error + unit) \<times> effect list" where
  "write_fragments d [] = (Inr (), [])"
| "write_fragments d (f # fs) =
     (case write_fragment d f of
        Inl e \<Rightarrow> (Inl e, [])
      | Inr es \<Rightarrow> (let (res, es') = write_fragments (run_effects es d) fs in (res, es @ es')))"

definition verify_fragment_cas :: "journal_io \<Rightarrow> disk \<Rightarrow> auth_result_v2 \<Rightarrow> v2_error + unit" where
  "verify_fragment_cas io d result =
     for_each (\<lambda>descriptor.
       bind_res (ok_or (file_at d Fragments (fragment_name (d2_sha256 descriptor)))
                   (IoError ''no such file'')) (\<lambda>payload.
       bind_res (refuse (length payload \<noteq> d2_byte_len descriptor)
                   ''staged fragment CAS object mode or length differs'') (\<lambda>_.
         refuse (sha256_hex (prim (io_crypto io)) payload \<noteq> d2_sha256 descriptor)
           ''staged fragment CAS digest differs'')))
       (o2_fragments (body result))"

definition validate_stage_receipt :: "journal_io \<Rightarrow> stage_receipt \<Rightarrow> auth_result_v2 \<Rightarrow> v2_error + unit" where
  "validate_stage_receipt io receipt result =
     all_ok
      [validate_digest_v2 ''renderer result'' (rs_result_sha256 receipt),
       validate_digest_v2 ''renderer root'' (rs_render_root_sha256 receipt),
       validate_identifier_v2 ''renderer stage token'' (rs_stage_token receipt),
       bind_res (result_record_digest (io_crypto io) result) (\<lambda>digest.
         refuse (rs_result_sha256 receipt \<noteq> digest
            \<or> rs_render_root_sha256 receipt \<noteq> o2_fragments_sha256 (body result))
           ''renderer stage belongs to a different result'')]"

subsection \<open>Opening and inspecting a journal\<close>

definition from_session :: "journal_io \<Rightarrow> bytes \<Rightarrow> auth_session_v2 \<Rightarrow> v2_error + journal" where
  "from_session io key session =
     bind_res (session_record_digest (io_crypto io) session) (\<lambda>digest.
       Inr \<lparr>j_key = key, j_session = session, j_session_record_sha256 = digest,
            j_evaluated_tokens = s2_initial_evaluated_tokens (body session),
            j_output_height = s2_initial_output_height (body session),
            j_head_sha256 = s2_genesis_head_sha256 (body session),
            j_frontier = s2_initial_frontier (body session),
            j_sampler_state = s2_initial_sampler_state (body session),
            j_reservations = [], j_prepared = [], j_staged = [], j_completions = [],
            j_acknowledgements = [], j_tombstones = [], j_pending_activation = None\<rparr>)"

text \<open>\<open>new_root\<close> says that the destination is an absolute path at which nothing exists.\<close>

definition create ::
  "journal_io \<Rightarrow> bool \<Rightarrow> auth_session_v2 \<Rightarrow> bytes \<Rightarrow> nat \<Rightarrow> string \<Rightarrow> nat \<Rightarrow> v2_error + journal \<times> disk" where
  "create io new_root session key now_unix_ms expected_key_id minimum_epoch =
     bind_res (refuse (\<not> new_root) ''journal destination must be a new absolute path'') (\<lambda>_.
     bind_res (session_verify_live (io_crypto io) session key now_unix_ms expected_key_id minimum_epoch) (\<lambda>_.
     bind_res (canonical_v2 (json_auth_session_v2 (io_crypto io)) session) (\<lambda>b.
     bind_res (from_session io key session) (\<lambda>j.
       Inr (j, \<lparr>session_file = Some b, files = (\<lambda>_. [])\<rparr>)))))"

definition matches_current_parent :: "journal_io \<Rightarrow> journal \<Rightarrow> auth_round_v2 \<Rightarrow> bool" where
  "matches_current_parent io j request \<longleftrightarrow>
     r2_base_output_height (body request) = j_output_height j
     \<and> r2_base_head_sha256 (body request) = j_head_sha256 j
     \<and> r2_frontier_in (body request) = j_frontier j
     \<and> r2_base_sampler_state (body request) = j_sampler_state j
     \<and> r2_base_evaluated_tokens (body request) = j_evaluated_tokens j
     \<and> r2_base_tokens_sha256 (body request) = token_digest (io_crypto io) (j_evaluated_tokens j)"

definition advance_journal :: "auth_round_v2 \<Rightarrow> auth_result_v2 \<Rightarrow> journal \<Rightarrow> journal" where
  "advance_journal request result j =
     j\<lparr>j_evaluated_tokens := j_evaluated_tokens j @ o2_committed_tokens (body result),
       j_output_height := o2_new_output_height (body result),
       j_head_sha256 := o2_new_head_sha256 (body result),
       j_frontier := o2_new_frontier (body result),
       j_sampler_state := o2_post_verify_sampler_state (body result),
       j_completions := bt_insert (r2_request_id (body request)) result (j_completions j)\<rparr>"

definition apply_active :: "journal_io \<Rightarrow> journal \<Rightarrow> auth_round_v2 \<Rightarrow> auth_result_v2 \<Rightarrow> v2_error + journal" where
  "apply_active io j request result =
     bind_res (verify_against_v2 (io_crypto io) result request (body (j_session j))) (\<lambda>_.
       case map_of (j_completions j) (r2_request_id (body request)) of
         Some existing \<Rightarrow> if existing = result then Inr j else Inl ChangedIntentV2
       | None \<Rightarrow>
           if \<not> matches_current_parent io j request then Inl StaleHeadV2
           else Inr (advance_journal request result j))"

lemma filtered_entry_shrinks:
  "filter P m = (k, v) # xs \<Longrightarrow> length (bt_remove k m) < length m"
proof -
  assume "filter P m = (k, v) # xs"
  then have "(k, v) \<in> set m" by (metis filter_is_subset list.set_intros(1) subsetD)
  then show ?thesis unfolding bt_remove_def by (intro length_filter_less) auto
qed

function restore_chain ::
  "journal_io \<Rightarrow> disk \<Rightarrow> active_record btree \<Rightarrow> commit_record btree \<Rightarrow> journal \<Rightarrow> v2_error + journal" where
  "restore_chain io d active [] j = Inr j"
| "restore_chain io d active (x # xs) j =
     (case filter (\<lambda>(_, commit). matches_current_parent io j (cm_request commit)) (x # xs) of
        [(request_id, commit)] \<Rightarrow>
          let rest = bt_remove request_id (x # xs) in
          bind_res (round_verify_historical_v2 (io_crypto io) (cm_request commit) (body (j_session j)) (j_key j)) (\<lambda>_.
          bind_res (verify_against_v2 (io_crypto io) (cm_result commit) (cm_request commit) (body (j_session j))) (\<lambda>_.
          bind_res (validate_stage_receipt io (cm_renderer commit) (cm_result commit)) (\<lambda>_.
          bind_res (if bt_has (j_tombstones j) (cm_id commit) then Inr ()
                    else verify_fragment_cas io d (cm_result commit)) (\<lambda>_.
          bind_res (result_record_digest (io_crypto io) (cm_result commit)) (\<lambda>digest.
          case map_of active (cm_id commit) of
            Some r \<Rightarrow>
              if ac_result_sha256 r = digest
                 \<and> ac_new_head_sha256 r = o2_new_head_sha256 (body (cm_result commit))
              then bind_res (apply_active io j (cm_request commit) (cm_result commit)) (\<lambda>j'.
                     restore_chain io d active rest j')
              else Inl (invalid ''active record differs from WAL commit'')
          | None \<Rightarrow>
              if j_pending_activation j = None \<and> rest = []
              then Inr (j\<lparr>j_pending_activation := Some commit\<rparr>)
              else Inl (invalid ''journal commit/active chain is ambiguous''))))))
      | _ \<Rightarrow> Inl (invalid ''journal commit chain is not uniquely causal''))"
  by pat_completeness auto
termination
  by (relation "measure (\<lambda>(io, d, active, commits, j). length commits)") (auto simp del: filter.simps dest: filtered_entry_shrinks)

definition prepared_check :: "journal_io \<Rightarrow> journal \<Rightarrow> string \<times> prepared_record \<Rightarrow> v2_error + unit" where
  "prepared_check io j = (\<lambda>(request_id, p).
     bind_res (ok_or (map_of (j_reservations j) request_id) (invalid ''PREPARED record has no reservation'')) (\<lambda>reservation.
     bind_res (intent_sha256_v2 (io_crypto io) (rv_request reservation)) (\<lambda>intent.
     bind_res (refuse (pr_request_intent_sha256 p \<noteq> intent) ''PREPARED intent differs from reservation'') (\<lambda>_.
       verify_against_v2 (io_crypto io) (pr_result p) (rv_request reservation) (body (j_session j))))))"

definition staged_check :: "journal_io \<Rightarrow> disk \<Rightarrow> journal \<Rightarrow> string \<times> staged_record \<Rightarrow> v2_error + unit" where
  "staged_check io d j = (\<lambda>(request_id, sg).
     bind_res (ok_or (map_of (j_prepared j) request_id) (invalid ''staged render has no PREPARED result'')) (\<lambda>p.
     bind_res (refuse (sg_request_intent_sha256 sg \<noteq> pr_request_intent_sha256 p)
                 ''staged render differs from PREPARED result'') (\<lambda>_.
     bind_res (result_record_digest (io_crypto io) (pr_result p)) (\<lambda>digest.
     bind_res (refuse (sg_result_sha256 sg \<noteq> digest) ''staged render differs from PREPARED result'') (\<lambda>_.
     bind_res (validate_stage_receipt io (sg_renderer sg) (pr_result p)) (\<lambda>_.
       verify_fragment_cas io d (pr_result p)))))))"

definition ack_check :: "journal_io \<Rightarrow> journal \<Rightarrow> string \<times> ack_record \<Rightarrow> v2_error + unit" where
  "ack_check io j = (\<lambda>(request_id, ack).
     bind_res (ok_or (map_of (j_completions j) request_id) (invalid ''ACK has no active completion'')) (\<lambda>completion.
     bind_res (result_record_digest (io_crypto io) completion) (\<lambda>digest.
       refuse (ak_result_sha256 ack \<noteq> digest
          \<or> ak_applied_head_sha256 ack \<noteq> o2_new_head_sha256 (body completion))
         ''ACK differs from active completion'')))"

definition tombstone_check :: "journal_io \<Rightarrow> journal \<Rightarrow> string \<times> tombstone_record \<Rightarrow> v2_error + unit" where
  "tombstone_check io j = (\<lambda>(request_id, tombstone).
     bind_res (ok_or (map_of (j_completions j) request_id) (invalid ''tombstone has no retained commit'')) (\<lambda>completion.
     bind_res (result_record_digest (io_crypto io) completion) (\<lambda>digest.
       refuse (tb_result_sha256 tombstone \<noteq> digest) ''tombstone differs from retained commit'')))"

definition drop_keys :: "(string \<Rightarrow> bool) \<Rightarrow> 'v btree \<Rightarrow> 'v btree" where
  "drop_keys P m = filter (\<lambda>(k, _). \<not> P k) m"

lemma map_of_drop_keys [simp]: "map_of (drop_keys P m) k = (if P k then None else map_of m k)"
  by (induction m) (auto simp: drop_keys_def)

lemma bt_wf_drop_keys [simp]: "bt_wf m \<Longrightarrow> bt_wf (drop_keys P m)"
  by (simp add: drop_keys_def)

definition restore_records :: "journal_io \<Rightarrow> disk \<Rightarrow> journal \<Rightarrow> v2_error + journal" where
  "restore_records io d j =
     bind_res (read_slots io j d Tombstones ''tombstone'' (snd (io_tombstone io)) tb_request_id) (\<lambda>tombs.
     bind_res (read_slots io j d Reservations ''reservation'' (snd (io_reservation io)) rv_id) (\<lambda>reservations.
     bind_res (read_slots io j d Prepared ''prepared'' (snd (io_prepared io)) pr_id) (\<lambda>prepared.
     bind_res (read_slots io j d Staged ''staged'' (snd (io_staged io)) sg_request_id) (\<lambda>staged.
     bind_res (read_slots io j d Acks ''ack'' (snd (io_ack io)) ak_request_id) (\<lambda>acks.
     let j1 = j\<lparr>j_tombstones := tombs,
                j_reservations := drop_keys (bt_has tombs) reservations,
                j_prepared := drop_keys (bt_has tombs) prepared,
                j_staged := drop_keys (bt_has tombs) staged,
                j_acknowledgements := acks\<rparr> in
     bind_res (for_each (\<lambda>(_, r). round_verify_historical_v2 (io_crypto io) (rv_request r)
                 (body (j_session j)) (j_key j)) (j_reservations j1)) (\<lambda>_.
     bind_res (for_each (prepared_check io j1) (j_prepared j1)) (\<lambda>_.
     bind_res (for_each (staged_check io d j1) (j_staged j1)) (\<lambda>_.
     bind_res (read_slots io j1 d Commits ''commit'' (snd (io_commit io)) cm_id) (\<lambda>commits.
     bind_res (read_slots io j1 d Active ''active'' (snd (io_active io)) ac_request_id) (\<lambda>active.
     bind_res (refuse (list_ex (\<lambda>(request_id, _). \<not> bt_has commits request_id) active)
                 ''active record has no WAL commit'') (\<lambda>_.
     bind_res (restore_chain io d active commits j1) (\<lambda>j2.
     let completed = bt_has (j_completions j2);
         j3 = j2\<lparr>j_reservations := drop_keys completed (j_reservations j2),
                 j_prepared := drop_keys completed (j_prepared j2),
                 j_staged := drop_keys completed (j_staged j2)\<rparr> in
     bind_res (for_each (ack_check io j3) (j_acknowledgements j3)) (\<lambda>_.
     bind_res (for_each (tombstone_check io j3) (j_tombstones j3)) (\<lambda>_.
       Inr j3))))))))))))))"

definition open_journal :: "journal_io \<Rightarrow> disk \<Rightarrow> bytes \<Rightarrow> string \<Rightarrow> nat \<Rightarrow> v2_error + journal" where
  "open_journal io d key expected_key_id minimum_epoch =
     bind_res (ok_or (session_file d) (IoError ''no such file'')) (\<lambda>b.
     bind_res (read_json (io_parse_session io) SESSION_BYTES b) (\<lambda>session.
     bind_res (session_verify_historical_v2 (io_crypto io) session key expected_key_id minimum_epoch) (\<lambda>_.
     bind_res (from_session io key session) (\<lambda>j. restore_records io d j))))"

definition completed_result :: "journal \<Rightarrow> string \<Rightarrow> auth_result_v2 option" where
  "completed_result j request_id = map_of (j_completions j) request_id"

definition current_head :: "journal \<Rightarrow> nat \<times> string \<times> frontier_v2 \<times> sampler_state_v2" where
  "current_head j = (j_output_height j, j_head_sha256 j, j_frontier j, j_sampler_state j)"

definition pending_round :: "journal_io \<Rightarrow> journal \<Rightarrow> v2_error + pending_round_v2 option" where
  "pending_round io j =
     (if j_pending_activation j \<noteq> None then
        Inl (invalid ''journal has a WAL-committed activation; recover it before resuming rounds'')
      else case filter (\<lambda>(request_id, reservation).
             \<not> bt_has (j_completions j) request_id \<and> \<not> bt_has (j_tombstones j) request_id
             \<and> matches_current_parent io j (rv_request reservation)) (j_reservations j) of
        [] \<Rightarrow> Inr None
      | [(request_id, reservation)] \<Rightarrow>
          (case map_of (j_prepared j) request_id of
             None \<Rightarrow> Inr (Some (PendingReserved (rv_request reservation)))
           | Some p \<Rightarrow>
               (case map_of (j_staged j) request_id of
                  None \<Rightarrow> Inr (Some (PendingPrepared (rv_request reservation) (pr_result p)))
                | Some sg \<Rightarrow>
                    Inr (Some (PendingStaged (rv_request reservation) (pr_result p) (sg_renderer sg)))))
      | _ \<Rightarrow> Inl (invalid ''journal has multiple unfinished children of the current head''))"

subsection \<open>Operations\<close>

text \<open>An operation returns its result, the journal in memory and its effects. \<open>unchanged\<close> is an
  operation that changes nothing when it fails.\<close>

type_synonym 'a op = "(v2_error + 'a) \<times> journal \<times> effect list"

definition unchanged :: "journal \<Rightarrow> v2_error + ('a \<times> journal \<times> effect list) \<Rightarrow> 'a op" where
  "unchanged j m = (case m of Inl e \<Rightarrow> (Inl e, j, []) | Inr (a, j', es) \<Rightarrow> (Inr a, j', es))"

type_synonym fence = "string \<Rightarrow> string \<Rightarrow> string \<Rightarrow> nat \<Rightarrow> string \<Rightarrow> nat \<Rightarrow> bool"

definition check_live_fence :: "journal \<Rightarrow> fence \<Rightarrow> nat \<Rightarrow> v2_error + unit" where
  "check_live_fence j permits now_unix_ms =
     (let s = body (j_session j) in
      ensure (permits (s2_session_id s) (s2_log_writer_authority_id s) (s2_authority_lease_id s)
                (s2_authority_term s) (s2_target_executor_id s) now_unix_ms) LeaseNotLive)"

definition reserve_new :: "journal_io \<Rightarrow> journal \<Rightarrow> disk \<Rightarrow> auth_round_v2 \<Rightarrow> fence \<Rightarrow> nat
     \<Rightarrow> v2_error + (reserve_outcome \<times> journal \<times> effect list)" where
  "reserve_new io j d request permits now_unix_ms =
     (let request_id = r2_request_id (body request) in
      bind_res (check_live_fence j permits now_unix_ms) (\<lambda>_.
      bind_res (case j_frontier j of ClosedFrontier _ \<Rightarrow> Inl TerminalV2 | OpenFrontier _ _ \<Rightarrow> Inr ()) (\<lambda>_.
      bind_res (round_verify_live (io_crypto io) request (body (j_session j)) (j_key j) now_unix_ms) (\<lambda>_.
      if \<not> matches_current_parent io j request then
        Inr (StaleOutcome (j_output_height j) (j_head_sha256 j) (j_frontier j) (j_sampler_state j)
               (token_digest (io_crypto io) (j_evaluated_tokens j)), j, [])
      else if list_ex (\<lambda>(_, reservation).
           r2_base_head_sha256 (body (rv_request reservation)) = j_head_sha256 j
           \<and> rv_id reservation \<noteq> request_id) (j_reservations j)
      then Inl BusyParent
      else let r = \<lparr>rv_request = request, rv_reserved_unix_ms = now_unix_ms\<rparr> in
        bind_res (write_slot io j d Reservations request_id ''reservation'' (fst (io_reservation io)) r) (\<lambda>es.
          Inr (Reserved, j\<lparr>j_reservations := bt_insert request_id r (j_reservations j)\<rparr>, es))))))"

definition reserve ::
  "journal_io \<Rightarrow> journal \<Rightarrow> disk \<Rightarrow> auth_round_v2 \<Rightarrow> fence \<Rightarrow> nat \<Rightarrow> reserve_outcome op" where
  "reserve io j d request permits now_unix_ms = unchanged j
     (let request_id = r2_request_id (body request) in
      bind_res (refuse (j_pending_activation j \<noteq> None) ''journal has an unactivated committed result'') (\<lambda>_.
      bind_res (round_verify_historical_v2 (io_crypto io) request (body (j_session j)) (j_key j)) (\<lambda>_.
      bind_res (intent_sha256_v2 (io_crypto io) request) (\<lambda>intent.
      bind_res (case map_of (j_tombstones j) request_id of
                  Some tombstone \<Rightarrow> ensure (tb_request_id tombstone \<noteq> request_id) ResyncRequired
                | None \<Rightarrow> Inr ()) (\<lambda>_.
      case map_of (j_completions j) request_id of
        Some result \<Rightarrow>
          if o2_request_intent_sha256 (body result) \<noteq> intent then Inl ChangedIntentV2
          else Inr (Replay result, j, [])
      | None \<Rightarrow>
      case map_of (j_prepared j) request_id of
        Some p \<Rightarrow>
          if pr_request_intent_sha256 p \<noteq> intent then Inl ChangedIntentV2
          else Inr (PreparedOutcome (pr_result p), j, [])
      | None \<Rightarrow>
      case map_of (j_reservations j) request_id of
        Some reservation \<Rightarrow>
          bind_res (intent_sha256_v2 (io_crypto io) (rv_request reservation)) (\<lambda>reserved_intent.
            if reserved_intent \<noteq> intent then Inl ChangedIntentV2 else Inr (Reserved, j, []))
      | None \<Rightarrow> reserve_new io j d request permits now_unix_ms)))))"

definition record_prepared ::
  "journal_io \<Rightarrow> journal \<Rightarrow> disk \<Rightarrow> auth_round_v2 \<Rightarrow> auth_result_v2 \<Rightarrow> fence \<Rightarrow> nat \<Rightarrow> unit op" where
  "record_prepared io j d request result permits now_unix_ms = unchanged j
     (let request_id = r2_request_id (body request) in
      bind_res (check_live_fence j permits now_unix_ms) (\<lambda>_.
      bind_res (verify_against_v2 (io_crypto io) result request (body (j_session j))) (\<lambda>_.
      bind_res (intent_sha256_v2 (io_crypto io) request) (\<lambda>intent.
      bind_res (ok_or (map_of (j_reservations j) request_id) (invalid ''result has no durable reservation'')) (\<lambda>reservation.
      if rv_request reservation \<noteq> request \<or> \<not> matches_current_parent io j request then Inl StaleHeadV2
      else case map_of (j_prepared j) request_id of
        Some existing \<Rightarrow> if pr_result existing = result then Inr ((), j, []) else Inl ChangedIntentV2
      | None \<Rightarrow>
          let r = \<lparr>pr_request_intent_sha256 = intent, pr_result = result, pr_prepared_unix_ms = now_unix_ms\<rparr> in
          bind_res (write_slot io j d Prepared request_id ''prepared'' (fst (io_prepared io)) r) (\<lambda>es.
            Inr ((), j\<lparr>j_prepared := bt_insert request_id r (j_prepared j)\<rparr>, es)))))))"

definition stage_record ::
  "journal_io \<Rightarrow> journal \<Rightarrow> disk \<Rightarrow> string \<Rightarrow> prepared_record \<Rightarrow> stage_receipt \<Rightarrow> nat
     \<Rightarrow> v2_error + (journal \<times> effect list)" where
  "stage_record io j d request_id p receipt now_unix_ms =
     bind_res (validate_stage_receipt io receipt (pr_result p)) (\<lambda>_.
     bind_res (result_record_digest (io_crypto io) (pr_result p)) (\<lambda>digest.
     let r = \<lparr>sg_request_id = request_id, sg_request_intent_sha256 = pr_request_intent_sha256 p,
              sg_result_sha256 = digest, sg_renderer = receipt, sg_staged_unix_ms = now_unix_ms\<rparr> in
     bind_res (write_slot io j d Staged request_id ''staged'' (fst (io_staged io)) r) (\<lambda>es.
       Inr (j\<lparr>j_staged := bt_insert request_id r (j_staged j)\<rparr>, es))))"

definition stage_new ::
  "journal_io \<Rightarrow> journal \<Rightarrow> disk \<Rightarrow> string \<Rightarrow> prepared_record \<Rightarrow> closure_v2
     \<Rightarrow> (auth_result_v2 \<Rightarrow> closure_v2 \<Rightarrow> nat \<Rightarrow> string + stage_receipt) \<Rightarrow> nat \<Rightarrow> stage_receipt op" where
  "stage_new io j d request_id p closure stage now_unix_ms =
     (case write_fragments d (c2_fragments closure) of
        (Inl e, es) \<Rightarrow> (Inl e, j, es)
      | (Inr _, es) \<Rightarrow>
          let es1 = es @ [RendererStage (pr_result p) closure] in
          (case stage (pr_result p) closure now_unix_ms of
             Inl e \<Rightarrow> (Inl (RendererError e), j, es1)
           | Inr receipt \<Rightarrow>
               (case stage_record io j (run_effects es1 d) request_id p receipt now_unix_ms of
                  Inl e \<Rightarrow> (Inl e, j, es1)
                | Inr (j', es2) \<Rightarrow> (Inr receipt, j', es1 @ es2))))"

definition stage_result ::
  "journal_io \<Rightarrow> journal \<Rightarrow> disk \<Rightarrow> auth_round_v2 \<Rightarrow> closure_v2
     \<Rightarrow> (auth_result_v2 \<Rightarrow> closure_v2 \<Rightarrow> nat \<Rightarrow> string + stage_receipt) \<Rightarrow> nat \<Rightarrow> stage_receipt op" where
  "stage_result io j d request closure stage now_unix_ms =
     (let request_id = r2_request_id (body request) in
      case map_of (j_prepared j) request_id of
        None \<Rightarrow> (Inl (invalid ''cannot stage before PREPARED''), j, [])
      | Some p \<Rightarrow>
          (case closure_verify_result_v2 (io_crypto io) closure (pr_result p) of
             Inl e \<Rightarrow> (Inl e, j, [])
           | Inr _ \<Rightarrow>
               (case map_of (j_staged j) request_id of
                  Some existing \<Rightarrow>
                    (case result_record_digest (io_crypto io) (pr_result p) of
                       Inl e \<Rightarrow> (Inl e, j, [])
                     | Inr digest \<Rightarrow>
                         if sg_result_sha256 existing = digest then (Inr (sg_renderer existing), j, [])
                         else (Inl ChangedIntentV2, j, []))
                | None \<Rightarrow> stage_new io j d request_id p closure stage now_unix_ms)))"

definition publish_active ::
  "journal_io \<Rightarrow> journal \<Rightarrow> disk \<Rightarrow> commit_record \<Rightarrow> nat \<Rightarrow> unit op" where
  "publish_active io j d commit now_unix_ms =
     (case result_record_digest (io_crypto io) (cm_result commit) of
        Inl e \<Rightarrow> (Inl e, j, [])
      | Inr digest \<Rightarrow>
          (case write_active io j d
                  \<lparr>ac_request_id = cm_id commit, ac_result_sha256 = digest,
                   ac_new_head_sha256 = o2_new_head_sha256 (body (cm_result commit)),
                   ac_activated_unix_ms = now_unix_ms\<rparr> of
             Inl e \<Rightarrow> (Inl e, j, [])
           | Inr es \<Rightarrow>
               (case apply_active io j (cm_request commit) (cm_result commit) of
                  Inl e \<Rightarrow> (Inl e, j, es)
                | Inr j' \<Rightarrow> (Inr (), j'\<lparr>j_pending_activation := None\<rparr>, es))))"

definition recover_pending ::
  "journal_io \<Rightarrow> journal \<Rightarrow> disk \<Rightarrow> (stage_receipt \<Rightarrow> string + unit) \<Rightarrow> nat \<Rightarrow> unit op" where
  "recover_pending io j d activate now_unix_ms =
     (case j_pending_activation j of
        None \<Rightarrow> (Inr (), j, [])
      | Some commit \<Rightarrow>
          (case validate_stage_receipt io (cm_renderer commit) (cm_result commit) of
             Inl e \<Rightarrow> (Inl e, j, [])
           | Inr _ \<Rightarrow>
               (case activate (cm_renderer commit) of
                  Inl e \<Rightarrow> (Inl (RendererError e), j, [RendererActivate (cm_renderer commit)])
                | Inr _ \<Rightarrow>
                    (let (res, j', es) = publish_active io j d commit now_unix_ms in
                     (res, j', RendererActivate (cm_renderer commit) # es)))))"

definition commit_record_for ::
  "journal_io \<Rightarrow> journal \<Rightarrow> auth_round_v2 \<Rightarrow> nat \<Rightarrow> v2_error + commit_record" where
  "commit_record_for io j request now_unix_ms =
     (let request_id = r2_request_id (body request) in
      bind_res (ok_or (map_of (j_prepared j) request_id) (invalid ''cannot commit before PREPARED'')) (\<lambda>p.
      bind_res (ok_or (map_of (j_staged j) request_id) (invalid ''cannot commit before durable renderer stage'')) (\<lambda>sg.
      bind_res (intent_sha256_v2 (io_crypto io) request) (\<lambda>intent.
      bind_res (ensure (pr_request_intent_sha256 p = intent) StaleHeadV2) (\<lambda>_.
      bind_res (result_record_digest (io_crypto io) (pr_result p)) (\<lambda>digest.
      bind_res (ensure (sg_result_sha256 sg = digest \<and> matches_current_parent io j request) StaleHeadV2) (\<lambda>_.
        Inr \<lparr>cm_request = request, cm_result = pr_result p, cm_renderer = sg_renderer sg,
             cm_committed_unix_ms = now_unix_ms\<rparr>)))))))"

definition commit_new ::
  "journal_io \<Rightarrow> journal \<Rightarrow> disk \<Rightarrow> auth_round_v2 \<Rightarrow> fence \<Rightarrow> (stage_receipt \<Rightarrow> string + unit) \<Rightarrow> nat
     \<Rightarrow> auth_result_v2 op" where
  "commit_new io j d request permits activate now_unix_ms =
     (let request_id = r2_request_id (body request) in
      case check_live_fence j permits now_unix_ms of
        Inl e \<Rightarrow> (Inl e, j, [])
      | Inr _ \<Rightarrow>
      case map_of (j_completions j) request_id of
        Some result \<Rightarrow> (Inr result, j, [])
      | None \<Rightarrow>
      case commit_record_for io j request now_unix_ms of
        Inl e \<Rightarrow> (Inl e, j, [])
      | Inr commit \<Rightarrow>
      case write_slot io j d Commits request_id ''commit'' (fst (io_commit io)) commit of
        Inl e \<Rightarrow> (Inl e, j, [])
      | Inr es \<Rightarrow>
          let (res, j', es') = recover_pending io (j\<lparr>j_pending_activation := Some commit\<rparr>)
                                 (run_effects es d) activate now_unix_ms in
          (case res of
             Inl e \<Rightarrow> (Inl e, j', es @ es')
           | Inr _ \<Rightarrow>
               (ok_or (map_of (j_completions j') request_id)
                  (invalid ''activation did not publish completion''), j', es @ es')))"

definition commit_and_activate ::
  "journal_io \<Rightarrow> journal \<Rightarrow> disk \<Rightarrow> auth_round_v2 \<Rightarrow> fence \<Rightarrow> (stage_receipt \<Rightarrow> string + unit) \<Rightarrow> nat
     \<Rightarrow> auth_result_v2 op" where
  "commit_and_activate io j d request permits activate now_unix_ms =
     (let (res, j1, es) = (if j_pending_activation j \<noteq> None
                           then recover_pending io j d activate now_unix_ms else (Inr (), j, [])) in
      case res of
        Inl e \<Rightarrow> (Inl e, j1, es)
      | Inr _ \<Rightarrow>
          let (res', j2, es') = commit_new io j1 (run_effects es d) request permits activate now_unix_ms in
          (res', j2, es @ es'))"

definition acknowledge ::
  "journal_io \<Rightarrow> journal \<Rightarrow> disk \<Rightarrow> string \<Rightarrow> string \<Rightarrow> nat \<Rightarrow> unit op" where
  "acknowledge io j d request_id applied_head now_unix_ms = unchanged j
     (bind_res (validate_digest_v2 ''applied head'' applied_head) (\<lambda>_.
      bind_res (ok_or (map_of (j_completions j) request_id) (invalid ''cannot ACK an unknown completion'')) (\<lambda>result.
      bind_res (refuse (applied_head \<noteq> o2_new_head_sha256 (body result)) ''ACK head differs from completion'') (\<lambda>_.
      bind_res (result_record_digest (io_crypto io) result) (\<lambda>digest.
      let ack = \<lparr>ak_request_id = request_id, ak_result_sha256 = digest,
                 ak_applied_head_sha256 = applied_head, ak_acknowledged_unix_ms = now_unix_ms\<rparr> in
      case map_of (j_acknowledgements j) request_id of
        Some existing \<Rightarrow>
          if existing = ack \<or> ak_result_sha256 existing = ak_result_sha256 ack then Inr ((), j, [])
          else Inl ChangedIntentV2
      | None \<Rightarrow>
          bind_res (write_slot io j d Acks request_id ''ack'' (fst (io_ack io)) ack) (\<lambda>es.
            Inr ((), j\<lparr>j_acknowledgements := bt_insert request_id ack (j_acknowledgements j)\<rparr>, es)))))))"

definition retire ::
  "journal_io \<Rightarrow> journal \<Rightarrow> disk \<Rightarrow> string \<Rightarrow> auth_result_v2 \<Rightarrow> nat \<Rightarrow> nat \<Rightarrow> v2_error + (journal \<times> effect list)" where
  "retire io j d request_id result now_unix_ms retry_retention_ms =
     bind_res (result_record_digest (io_crypto io) result) (\<lambda>digest.
       case map_of (j_tombstones j) request_id of
         Some tombstone \<Rightarrow>
           if tb_result_sha256 tombstone \<noteq> digest then Inl ChangedIntentV2 else Inr (j, [])
       | None \<Rightarrow>
           bind_res (ok_or (map_of (j_acknowledgements j) request_id)
                       (invalid ''cannot retire an unacknowledged completion'')) (\<lambda>ack.
           bind_res (refuse (ak_result_sha256 ack \<noteq> digest
                \<or> now_unix_ms < saturating_add (o2_completed_unix_ms (body result)) retry_retention_ms)
              ''completion retry retention has not elapsed'') (\<lambda>_.
           let t = \<lparr>tb_request_id = request_id, tb_result_sha256 = digest, tb_retired_unix_ms = now_unix_ms\<rparr> in
           bind_res (write_slot io j d Tombstones request_id ''tombstone'' (fst (io_tombstone io)) t) (\<lambda>es.
             Inr (j\<lparr>j_tombstones := bt_insert request_id t (j_tombstones j)\<rparr>, es)))))"

definition protected_digests :: "journal \<Rightarrow> string \<Rightarrow> string list" where
  "protected_digests j request_id =
     concat (map (\<lambda>(_, completion). map d2_sha256 (o2_fragments (body completion)))
       (filter (\<lambda>(other, _). other \<noteq> request_id) (j_completions j)))
     @ concat (map (\<lambda>(_, p). map d2_sha256 (o2_fragments (body (pr_result p))))
       (filter (\<lambda>(other, _). other \<noteq> request_id) (j_prepared j)))"

fun remove_all :: "disk \<Rightarrow> (dir \<times> string) list \<Rightarrow> effect list" where
  "remove_all d [] = []"
| "remove_all d ((dir, name) # ps) =
     (let es = remove_if_exists d dir name in es @ remove_all (run_effects es d) ps)"

definition garbage_collect ::
  "journal_io \<Rightarrow> journal \<Rightarrow> disk \<Rightarrow> string \<Rightarrow> nat \<Rightarrow> nat \<Rightarrow> nat op" where
  "garbage_collect io j d request_id now_unix_ms retry_retention_ms =
     (case map_of (j_completions j) request_id of
        None \<Rightarrow> (Inl (invalid ''cannot retire an unknown completion''), j, [])
      | Some result \<Rightarrow>
          (case retire io j d request_id result now_unix_ms retry_retention_ms of
             Inl e \<Rightarrow> (Inl e, j, [])
           | Inr (j1, es) \<Rightarrow>
               let d1 = run_effects es d;
                   names = map fragment_name (filter (\<lambda>digest. digest \<notin> set (protected_digests j1 request_id))
                     (map d2_sha256 (o2_fragments (body result))));
                   removals = remove_all d1 (map (Pair Fragments) names);
                   slots = remove_all (run_effects removals d1)
                     (map (\<lambda>dir. (dir, slot_name io request_id)) [Reservations, Prepared, Staged, Acks]) in
               (Inr (length removals),
                j1\<lparr>j_reservations := bt_remove request_id (j_reservations j1),
                   j_prepared := bt_remove request_id (j_prepared j1),
                   j_staged := bt_remove request_id (j_staged j1),
                   j_completions := bt_remove request_id (j_completions j1),
                   j_acknowledgements := bt_remove request_id (j_acknowledgements j1)\<rparr>,
                es @ removals @ slots)))"

end
