(* ===== verification/Journal_Store.thy ===== *)
theory Journal_Store
  imports Verifier_Journal
begin

section \<open>The slots of the journal as a store of records\<close>

text \<open>
  A directory of the journal seen as a finite map from request ids to records. \<open>holds_slots\<close> relates
  the files of a directory to such a map: every record is in the file its request id names, as the
  bytes of its authenticated envelope, and there is no other file. Shown here: reading the directory
  returns the map, and writing or removing a slot updates it, with no assumption on collisions of the
  digest that names the files except for removal.
\<close>

subsection \<open>Envelopes round-trip\<close>

definition slot_bytes ::
  "journal_io \<Rightarrow> string \<Rightarrow> bytes \<Rightarrow> string \<Rightarrow> 'r serde \<Rightarrow> 'r \<Rightarrow> v2_error + bytes" where
  "slot_bytes io sha key kind sd r =
     bind_res (journal_envelope io kind sha (fst sd) r key) (canonical_v2 (io_json_envelope io))"

definition slot_file ::
  "journal_io \<Rightarrow> string \<Rightarrow> bytes \<Rightarrow> string \<Rightarrow> 'r serde \<Rightarrow> 'r \<Rightarrow> bytes \<Rightarrow> bool" where
  "slot_file io sha key kind sd r b \<longleftrightarrow> slot_bytes io sha key kind sd r = Inr b \<and> length b \<le> SLOT_BYTES"

lemma io_okD:
  assumes "io_ok io"
  shows "crypto_v2_ok (io_crypto io)" "crypto_ok (prim (io_crypto io))"
    "io_json_envelope io e = Inr b \<Longrightarrow> b \<noteq> [] \<and> io_parse_envelope io b = Inr e"
  using assms by (simp_all add: io_ok_def crypto_v2_ok_def)

lemma envelope_decodes:
  assumes "io_ok io" "serde_ok sd" "journal_envelope io kind sha (fst sd) r key = Inr e"
  shows "decode_journal io e kind sha (snd sd) key = Inr r"
  using assms io_okD(2) [OF assms(1)]
  by (auto simp: journal_envelope_def decode_journal_def bind_res_Inr_iff map_err_Inr_iff ok_or_Inr_iff
      ensure_Inr_iff verify_domain_hex_iff tag_domain_hex_digest serde_ok_def)

lemma slot_file_decodes:
  assumes "io_ok io" "serde_ok sd" "slot_file io sha key kind sd r b"
  shows "\<exists>e. read_json (io_parse_envelope io) SLOT_BYTES b = Inr e
    \<and> decode_journal io e kind sha (snd sd) key = Inr r \<and> io_json_envelope io e = Inr b"
proof -
  from assms(3) obtain e where
      e: "journal_envelope io kind sha (fst sd) r key = Inr e" "io_json_envelope io e = Inr b"
      "length b \<le> SLOT_BYTES"
    by (auto simp: slot_file_def slot_bytes_def bind_res_Inr_iff)
  with io_okD(3) [OF assms(1) e(2)] envelope_decodes [OF assms(1,2) e(1)] show ?thesis
    by (simp add: read_json_def)
qed

lemma slot_file_unique:
  assumes "io_ok io" "serde_ok sd" "slot_file io sha key kind sd r b" "slot_file io sha key kind sd r' b"
  shows "r = r'"
  using slot_file_decodes [OF assms(1,2,3)] slot_file_decodes [OF assms(1,2,4)] by force

lemma slot_name_json:
  assumes "io_ok io"
  shows "json_extension (slot_name io request_id)"
proof -
  have "lower_hex_64 (sha256_hex (prim (io_crypto io)) (str request_id))"
    using io_okD(2) [OF assms] by (rule sha256_hex_digest)
  then show ?thesis by (simp add: json_extension_def slot_name_def lower_hex_64_def)
qed

subsection \<open>Directories as maps\<close>

definition holds_slots ::
  "journal_io \<Rightarrow> string \<Rightarrow> bytes \<Rightarrow> string \<Rightarrow> 'r serde \<Rightarrow> ('r \<Rightarrow> string) \<Rightarrow> bytes btree
     \<Rightarrow> (string \<rightharpoonup> 'r) \<Rightarrow> bool" where
  "holds_slots io sha key kind sd rid fs m \<longleftrightarrow> bt_wf fs
     \<and> (\<forall>k r. m k = Some r \<longrightarrow> rid r = k
          \<and> (\<exists>b. map_of fs (slot_name io k) = Some b \<and> slot_file io sha key kind sd r b))
     \<and> (\<forall>name b. map_of fs name = Some b \<longrightarrow> (\<exists>k. m k \<noteq> None \<and> name = slot_name io k))"

lemma holds_slots_empty: "holds_slots io sha key kind sd rid [] Map.empty"
  by (simp add: holds_slots_def)

lemma holds_slots_id: "holds_slots io sha key kind sd rid fs m \<Longrightarrow> m k = Some r \<Longrightarrow> rid r = k"
  by (simp add: holds_slots_def)

lemma holds_slots_entry:
  "holds_slots io sha key kind sd rid fs m \<Longrightarrow> m k = Some r \<Longrightarrow>
     rid r = k \<and> (\<exists>b. map_of fs (slot_name io k) = Some b \<and> slot_file io sha key kind sd r b)"
  by (simp add: holds_slots_def)

lemma holds_slots_owner:
  "holds_slots io sha key kind sd rid fs m \<Longrightarrow> map_of fs name = Some b \<Longrightarrow>
     \<exists>k r. m k = Some r \<and> name = slot_name io k"
  unfolding holds_slots_def by fast

lemma read_slots_loop_ok:
  assumes io: "io_ok io" and sd: "serde_ok sd"
    and "\<forall>(name, b)\<in>set es. \<exists>r. slot_file io (j_session_record_sha256 j) (j_key j) kind sd r b
           \<and> name = slot_name io (rid r)"
    and "distinct (map fst es)"
    and "\<forall>k. bt_has acc k \<longrightarrow> slot_name io k \<notin> fst ` set es"
  shows "\<exists>rs. read_slots_loop io j kind (snd sd) rid acc es = Inr rs \<and> (bt_wf acc \<longrightarrow> bt_wf rs)
    \<and> (\<forall>k r. map_of rs k = Some r \<longleftrightarrow> map_of acc k = Some r
         \<or> rid r = k \<and> (\<exists>b. (slot_name io k, b) \<in> set es
              \<and> slot_file io (j_session_record_sha256 j) (j_key j) kind sd r b))"
  using assms(3,4,5)
proof (induction es arbitrary: acc)
  case (Cons x es)
  obtain name b where x: "x = (name, b)" by force
  let ?sf = "slot_file io (j_session_record_sha256 j) (j_key j) kind sd"
  from Cons.prems(1) x obtain r where r: "?sf r b" "name = slot_name io (rid r)" by auto
  from slot_file_decodes [OF io sd r(1)] obtain e where
      e: "read_json (io_parse_envelope io) SLOT_BYTES b = Inr e"
         "decode_journal io e kind (j_session_record_sha256 j) (snd sd) (j_key j) = Inr r" by blast
  have fresh: "\<not> bt_has acc (rid r)"
    using Cons.prems(3) x r(2) by (metis fst_conv image_eqI list.set_intros(1))
  have sep: "\<forall>k. bt_has (bt_insert (rid r) r acc) k \<longrightarrow> slot_name io k \<notin> fst ` set es"
  proof (intro allI impI)
    fix k assume "bt_has (bt_insert (rid r) r acc) k"
    then have "k = rid r \<or> bt_has acc k" by (simp add: bt_has_def split: if_splits)
    moreover have "name \<notin> fst ` set es" using Cons.prems(2) x by simp
    ultimately show "slot_name io k \<notin> fst ` set es" using Cons.prems(3) r(2) by auto
  qed
  have "\<exists>rs. read_slots_loop io j kind (snd sd) rid (bt_insert (rid r) r acc) es = Inr rs
      \<and> (bt_wf (bt_insert (rid r) r acc) \<longrightarrow> bt_wf rs)
      \<and> (\<forall>k q. map_of rs k = Some q \<longleftrightarrow> map_of (bt_insert (rid r) r acc) k = Some q
           \<or> rid q = k \<and> (\<exists>b. (slot_name io k, b) \<in> set es \<and> ?sf q b))"
  proof (rule Cons.IH [OF _ _ sep])
    show "\<forall>(name, b)\<in>set es. \<exists>r. ?sf r b \<and> name = slot_name io (rid r)" using Cons.prems(1) by simp
    show "distinct (map fst es)" using Cons.prems(2) by simp
  qed
  then obtain rs where rs: "read_slots_loop io j kind (snd sd) rid (bt_insert (rid r) r acc) es = Inr rs"
      "bt_wf (bt_insert (rid r) r acc) \<longrightarrow> bt_wf rs"
      "\<And>k q. map_of rs k = Some q \<longleftrightarrow> map_of (bt_insert (rid r) r acc) k = Some q
           \<or> rid q = k \<and> (\<exists>b. (slot_name io k, b) \<in> set es \<and> ?sf q b)"
    by (elim exE conjE) simp
  have "map_of rs k = Some q \<longleftrightarrow> map_of acc k = Some q
      \<or> rid q = k \<and> (\<exists>b. (slot_name io k, b) \<in> set (x # es) \<and> ?sf q b)" for k q
  proof (cases "k = rid r")
    case True
    have gone: "(slot_name io k, b') \<notin> set es" for b'
      using True Cons.prems(2) x r(2) by force
    have "map_of rs k = Some q \<longleftrightarrow> q = r" using rs(3) [of k q] True gone by auto
    moreover have "map_of acc k = None" using fresh True by (simp add: bt_has_def)
    moreover have "?sf q b \<longleftrightarrow> q = r" using slot_file_unique [OF io sd r(1), of q] r(1) by blast
    ultimately show ?thesis using gone x True r(2) by auto
  next
    case False
    have "\<not> (rid q = k \<and> ?sf q b)"
      using False slot_file_unique [OF io sd r(1)] by blast
    moreover have "map_of (bt_insert (rid r) r acc) k = map_of acc k" using False by simp
    ultimately show ?thesis unfolding rs(3) x by auto
  qed
  moreover have "read_slots_loop io j kind (snd sd) rid acc (x # es) = Inr rs"
    using x e r(2) fresh slot_name_json [OF io] rs(1) by simp
  ultimately show ?case using rs(2) bt_wf_insert [of acc "rid r" r] by blast
qed auto

lemma holds_slots_read:
  assumes io: "io_ok io" and sd: "serde_ok sd"
    and h: "holds_slots io (j_session_record_sha256 j) (j_key j) kind sd rid (files d dir) m"
  shows "\<exists>rs. read_slots io j d dir kind (snd sd) rid = Inr rs \<and> bt_wf rs \<and> map_of rs = m"
proof -
  let ?sf = "slot_file io (j_session_record_sha256 j) (j_key j) kind sd" and ?fs = "files d dir"
  have wf: "bt_wf ?fs" using h by (simp add: holds_slots_def)
  have owner: "\<exists>r. m (rid r) = Some r \<and> ?sf r b \<and> name = slot_name io (rid r)"
    if "map_of ?fs name = Some b" for name b
  proof -
    from h that obtain k r where "m k = Some r" "name = slot_name io k"
      by (force simp: holds_slots_def)
    moreover from this h obtain b' where "rid r = k" "map_of ?fs (slot_name io k) = Some b'" "?sf r b'"
      by (auto simp: holds_slots_def)
    ultimately show ?thesis using that by auto
  qed
  have all: "\<forall>(name, b)\<in>set ?fs. \<exists>r. ?sf r b \<and> name = slot_name io (rid r)"
  proof (clarify)
    fix name b assume "(name, b) \<in> set ?fs"
    then have "map_of ?fs name = Some b" by (simp add: bt_in_iff [OF wf])
    from owner [OF this] show "\<exists>r. ?sf r b \<and> name = slot_name io (rid r)" by blast
  qed
  have "\<forall>k. bt_has ([] :: 'a btree) k \<longrightarrow> slot_name io k \<notin> fst ` set ?fs" by (simp add: bt_has_def)
  from read_slots_loop_ok [OF io sd all bt_wf_distinct [OF wf] this] obtain rs where
      rs: "read_slots_loop io j kind (snd sd) rid [] ?fs = Inr rs" "bt_wf rs"
      "\<And>k r. map_of rs k = Some r \<longleftrightarrow> rid r = k \<and> (\<exists>b. (slot_name io k, b) \<in> set ?fs \<and> ?sf r b)"
    by auto
  have "map_of rs k = Some r \<longleftrightarrow> m k = Some r" for k r
  proof
    assume "map_of rs k = Some r"
    then obtain b where b: "rid r = k" "map_of ?fs (slot_name io k) = Some b" "?sf r b"
      using rs(3) bt_in_iff [OF wf] by blast
    from owner [OF b(2)] obtain r' where "m (rid r') = Some r'" "?sf r' b" by blast
    with slot_file_unique [OF io sd b(3)] b(1) show "m k = Some r" by blast
  next
    assume "m k = Some r"
    then show "map_of rs k = Some r"
      using h rs(3) bt_in_iff [OF wf] by (auto simp: holds_slots_def)
  qed
  then have "map_of rs = m" by (intro ext) (metis not_None_eq)
  then show ?thesis using rs by (auto simp: read_slots_def)
qed

subsection \<open>Writing and removing a slot\<close>

lemma run_effects_simps [simp]:
  "run_effects [] d = d" "run_effects (e # es) d = run_effects es (apply_effect e d)"
  "run_effects (es @ es') d = run_effects es' (run_effects es d)"
  by (simp_all add: run_effects_def)

lemma files_set_file [simp]:
  "files (set_file dir name b d) = (files d)(dir := bt_insert name b (files d dir))"
  "session_file (set_file dir name b d) = session_file d"
  by (simp_all add: set_file_def)

lemma bt_insert_twice: "bt_insert k v (bt_insert k v' m) = bt_insert k v m"
  by (induction k v m rule: bt_insert.induct) auto

text \<open>What an exclusive write does to the disk, and the two shapes of the effects of a slot write.\<close>

lemma write_exclusive_Inr:
  "write_exclusive d dir name b = Inr es \<longleftrightarrow>
     file_at d dir name = None \<and> es = [CreateNew dir name, WriteAll dir name b]"
  by (auto simp: write_exclusive_def bt_has_def)

definition slot_write :: "dir \<Rightarrow> string \<Rightarrow> bytes \<Rightarrow> effect list" where
  "slot_write dir name b = [CreateNew dir name, WriteAll dir name b]"

lemma run_slot_write:
  "run_effects (slot_write dir name b) d = set_file dir name b d"
  by (simp add: slot_write_def) (simp add: set_file_def bt_insert_twice)

lemma write_slot_cases:
  assumes io: "io_ok io" and sd: "serde_ok sd"
    and h: "holds_slots io (j_session_record_sha256 j) (j_key j) kind sd rid (files d dir) m"
    and w: "write_slot io j d dir k kind (fst sd) r = Inr es" and k: "rid r = k"
  shows "(es = [] \<and> m k = Some r)
    \<or> (\<exists>b. es = slot_write dir (slot_name io k) b \<and> m k = None
         \<and> file_at d dir (slot_name io k) = None
         \<and> slot_bytes io (j_session_record_sha256 j) (j_key j) kind sd r = Inr b)"
proof (cases "file_at d dir (slot_name io k)")
  case None
  then have "m k = None" using h by (metis holds_slots_def not_None_eq)
  with None w show ?thesis
    by (auto simp: write_slot_def bind_res_Inr_iff write_exclusive_Inr slot_write_def slot_bytes_def)
next
  case (Some b)
  let ?sf = "slot_file io (j_session_record_sha256 j) (j_key j) kind sd"
  from h Some obtain k' r' where "m k' = Some r'" "slot_name io k = slot_name io k'"
    using holds_slots_owner [OF h] by blast
  with holds_slots_entry [OF h] Some have r': "rid r' = k'" "m k' = Some r'" "?sf r' b" by force+
  from slot_file_decodes [OF io sd r'(3)] obtain e' where
      e': "read_json (io_parse_envelope io) SLOT_BYTES b = Inr e'" "io_json_envelope io e' = Inr b"
          "decode_journal io e' kind (j_session_record_sha256 j) (snd sd) (j_key j) = Inr r'" by blast
  from w Some e' obtain e where
      e: "journal_envelope io kind (j_session_record_sha256 j) (fst sd) r (j_key j) = Inr e"
         "io_json_envelope io e = Inr b" "es = []"
    by (auto simp: write_slot_def bind_res_Inr_iff split: if_splits)
  have "e = e'" using io_okD(3) [OF io e(2)] io_okD(3) [OF io e'(2)] by simp
  then have "r = r'" using envelope_decodes [OF io sd e(1)] e'(3) by simp
  with r' k e(3) show ?thesis by auto
qed

lemma holds_slots_insert:
  assumes h: "holds_slots io sha key kind sd rid fs m"
    and free: "map_of fs (slot_name io k) = None"
    and r: "slot_file io sha key kind sd r b" "rid r = k"
  shows "holds_slots io sha key kind sd rid (bt_insert (slot_name io k) b fs) (m(k \<mapsto> r))"
proof -
  have other: "slot_name io k' \<noteq> slot_name io k" if "m k' = Some r'" for k' r'
    using holds_slots_entry [OF h that] free by auto
  show ?thesis
    unfolding holds_slots_def
  proof (intro conjI allI impI)
    show "bt_wf (bt_insert (slot_name io k) b fs)" using h by (simp add: holds_slots_def)
  next
    fix k' r' assume k': "(m(k \<mapsto> r)) k' = Some r'"
    show "rid r' = k'"
      using k' r(2) holds_slots_entry [OF h] by (cases "k' = k") simp_all
    show "\<exists>ba. map_of (bt_insert (slot_name io k) b fs) (slot_name io k') = Some ba
        \<and> slot_file io sha key kind sd r' ba"
    proof (cases "k' = k")
      case True
      with k' r show ?thesis by simp
    next
      case False
      with k' have m: "m k' = Some r'" by simp
      from other [OF m] holds_slots_entry [OF h m] show ?thesis by simp
    qed
  next
    fix name b' assume n: "map_of (bt_insert (slot_name io k) b fs) name = Some b'"
    show "\<exists>k'. (m(k \<mapsto> r)) k' \<noteq> None \<and> name = slot_name io k'"
    proof (cases "name = slot_name io k")
      case True
      then show ?thesis by (intro exI [of _ k]) simp
    next
      case False
      with n have "map_of fs name = Some b'" by simp
      from holds_slots_owner [OF h this] obtain k' r' where "m k' = Some r'" "name = slot_name io k'"
        by blast
      then show ?thesis by (intro exI [of _ k']) simp
    qed
  qed
qed

lemma holds_slots_remove:
  assumes h: "holds_slots io sha key kind sd rid fs m"
    and inj: "\<And>k' r'. m k' = Some r' \<Longrightarrow> slot_name io k' = slot_name io k \<Longrightarrow> k' = k"
  shows "holds_slots io sha key kind sd rid (bt_remove (slot_name io k) fs) (m(k := None))"
  unfolding holds_slots_def
proof (intro conjI allI impI)
  show "bt_wf (bt_remove (slot_name io k) fs)" using h by (simp add: holds_slots_def)
next
  fix k' r' assume k': "(m(k := None)) k' = Some r'"
  then have ne: "k' \<noteq> k" and m: "m k' = Some r'" by (auto split: if_splits)
  show "rid r' = k'" using m h by (simp add: holds_slots_def)
  have "slot_name io k' \<noteq> slot_name io k" using inj [OF m] ne by blast
  then show "\<exists>b. map_of (bt_remove (slot_name io k) fs) (slot_name io k') = Some b
      \<and> slot_file io sha key kind sd r' b"
    using m h by (auto simp: holds_slots_def)
next
  fix name b assume n: "map_of (bt_remove (slot_name io k) fs) name = Some b"
  then have "name \<noteq> slot_name io k" "map_of fs name = Some b" by (auto split: if_splits)
  moreover from holds_slots_owner [OF h this(2)] obtain k' r' where
    "m k' = Some r'" "name = slot_name io k'" by blast
  ultimately show "\<exists>k'. (m(k := None)) k' \<noteq> None \<and> name = slot_name io k'"
    by (intro exI [of _ k']) auto
qed

end
