(* ===== verification/Journal_Recovery.thy ===== *)
theory Journal_Recovery
  imports Journal_Store
begin

section \<open>Opening a journal replays its commit chain\<close>

text \<open>
  What the files of a journal mean. A \<open>view\<close> is the seven directories as maps; the commits of a
  view form one chain from the session's genesis position, all but at most the last of them active
  (\<open>disk_inv\<close>); the journal in memory mirrors the view (\<open>mem_inv\<close>). Shown here: opening a disk whose
  view satisfies the invariant succeeds, and the journal it returns mirrors the view. In particular
  the search for the unique causal successor in \<open>restore_records\<close> finds the chain without any
  assumption on the hash function, because every commit moves the height or closes the session.
\<close>

subsection \<open>Positions and chains\<close>

record position =
  p_tokens :: "nat list"
  p_height :: nat
  p_head :: string
  p_frontier :: frontier_v2
  p_sampler :: sampler_state_v2

definition pos_of :: "journal \<Rightarrow> position" where
  "pos_of j = \<lparr>p_tokens = j_evaluated_tokens j, p_height = j_output_height j, p_head = j_head_sha256 j,
     p_frontier = j_frontier j, p_sampler = j_sampler_state j\<rparr>"

definition genesis_pos :: "auth_session_v2 \<Rightarrow> position" where
  "genesis_pos s = \<lparr>p_tokens = s2_initial_evaluated_tokens (body s),
     p_height = s2_initial_output_height (body s), p_head = s2_genesis_head_sha256 (body s),
     p_frontier = s2_initial_frontier (body s), p_sampler = s2_initial_sampler_state (body s)\<rparr>"

definition pos_match :: "journal_io \<Rightarrow> position \<Rightarrow> auth_round_v2 \<Rightarrow> bool" where
  "pos_match io p request \<longleftrightarrow>
     r2_base_output_height (body request) = p_height p
     \<and> r2_base_head_sha256 (body request) = p_head p
     \<and> r2_frontier_in (body request) = p_frontier p
     \<and> r2_base_sampler_state (body request) = p_sampler p
     \<and> r2_base_evaluated_tokens (body request) = p_tokens p
     \<and> r2_base_tokens_sha256 (body request) = token_digest (io_crypto io) (p_tokens p)"

definition pos_next :: "auth_result_v2 \<Rightarrow> position \<Rightarrow> position" where
  "pos_next result p = \<lparr>p_tokens = p_tokens p @ o2_committed_tokens (body result),
     p_height = o2_new_output_height (body result), p_head = o2_new_head_sha256 (body result),
     p_frontier = o2_new_frontier (body result), p_sampler = o2_post_verify_sampler_state (body result)\<rparr>"

lemma matches_pos: "matches_current_parent io j request \<longleftrightarrow> pos_match io (pos_of j) request"
  by (auto simp: matches_current_parent_def pos_match_def pos_of_def)

lemma pos_of_advance [simp]: "pos_of (advance_journal request result j) = pos_next result (pos_of j)"
  by (simp add: pos_of_def pos_next_def advance_journal_def)

lemma pos_of_updates [simp]:
  "pos_of (j\<lparr>j_reservations := a\<rparr>) = pos_of j" "pos_of (j\<lparr>j_prepared := b\<rparr>) = pos_of j"
  "pos_of (j\<lparr>j_staged := c\<rparr>) = pos_of j" "pos_of (j\<lparr>j_acknowledgements := e\<rparr>) = pos_of j"
  "pos_of (j\<lparr>j_tombstones := f\<rparr>) = pos_of j" "pos_of (j\<lparr>j_pending_activation := g\<rparr>) = pos_of j"
  "pos_of (j\<lparr>j_completions := h\<rparr>) = pos_of j"
  by (simp_all add: pos_of_def)

definition commit_ok :: "journal_io \<Rightarrow> auth_session_v2 \<Rightarrow> bytes \<Rightarrow> commit_record \<Rightarrow> bool" where
  "commit_ok io s key c \<longleftrightarrow>
     round_verify_historical_v2 (io_crypto io) (cm_request c) (body s) key = Inr ()
     \<and> verify_against_v2 (io_crypto io) (cm_result c) (cm_request c) (body s) = Inr ()
     \<and> validate_stage_receipt io (cm_renderer c) (cm_result c) = Inr ()"

fun linked_from :: "journal_io \<Rightarrow> position \<Rightarrow> commit_record list \<Rightarrow> bool" where
  "linked_from io p [] \<longleftrightarrow> True"
| "linked_from io p (c # cs) \<longleftrightarrow>
     pos_match io p (cm_request c) \<and> linked_from io (pos_next (cm_result c) p) cs"

definition pos_after :: "position \<Rightarrow> commit_record list \<Rightarrow> position" where
  "pos_after p cs = fold (\<lambda>c. pos_next (cm_result c)) cs p"

lemma pos_after_simps [simp]:
  "pos_after p [] = p" "pos_after p (c # cs) = pos_after (pos_next (cm_result c) p) cs"
  "pos_after p (cs @ ds) = pos_after (pos_after p cs) ds"
  by (simp_all add: pos_after_def)

lemma linked_from_append:
  "linked_from io p (cs @ ds) \<longleftrightarrow> linked_from io p cs \<and> linked_from io (pos_after p cs) ds"
  by (induction cs arbitrary: p) auto

text \<open>Heights grow strictly along a chain: a commit that does not move the height closes the
  session, and a closed position has no successor.\<close>

lemma linked_heights:
  assumes "linked_from io p cs" "\<forall>c\<in>set cs. commit_ok io s key c"
  shows "c \<in> set cs \<Longrightarrow> p_height p \<le> r2_base_output_height (body (cm_request c))"
    and "cs = d # ds \<Longrightarrow> c \<in> set ds \<Longrightarrow> p_height p < r2_base_output_height (body (cm_request c))"
proof -
  have *: "(\<forall>c\<in>set cs. p_height p \<le> r2_base_output_height (body (cm_request c)))
      \<and> (\<forall>c\<in>set (tl cs). p_height p < r2_base_output_height (body (cm_request c)))"
    using assms
  proof (induction cs arbitrary: p)
    case (Cons c cs)
    let ?q = "pos_next (cm_result c) p"
    have m: "pos_match io p (cm_request c)" and l: "linked_from io ?q cs"
      and v: "verify_against_v2 (io_crypto io) (cm_result c) (cm_request c) (body s) = Inr ()"
      using Cons.prems by (auto simp: commit_ok_def)
    have h: "p_height p = r2_base_output_height (body (cm_request c))"
      using m by (simp add: pos_match_def)
    have q: "p_height ?q = o2_new_output_height (body (cm_result c))"
        "p_frontier ?q = o2_new_frontier (body (cm_result c))" by (simp_all add: pos_next_def)
    have up: "cs = [] \<or> p_height p < p_height ?q"
    proof (cases cs)
      case (Cons e es)
      with l Cons.prems obtain f where "p_frontier ?q = OpenFrontier f (p_height ?q)"
        using verified_frontier_open [of "io_crypto io" "cm_result e" "cm_request e" "body s"]
        by (auto simp: commit_ok_def pos_match_def)
      with verified_progress [OF v] q h show ?thesis by auto
    qed simp
    have "\<forall>c\<in>set cs. p_height ?q \<le> r2_base_output_height (body (cm_request c))"
      using Cons.IH [OF l] Cons.prems by simp
    with up have "\<forall>c\<in>set cs. p_height p < r2_base_output_height (body (cm_request c))"
      by (cases cs) fastforce+
    with h show ?case by (auto intro: less_imp_le)
  qed simp
  then show "c \<in> set cs \<Longrightarrow> p_height p \<le> r2_base_output_height (body (cm_request c))"
    and "cs = d # ds \<Longrightarrow> c \<in> set ds \<Longrightarrow> p_height p < r2_base_output_height (body (cm_request c))"
    by auto
qed

lemma filter_single:
  assumes "distinct xs" "x \<in> set xs" "P x" "\<And>y. y \<in> set xs \<Longrightarrow> P y \<Longrightarrow> y = x"
  shows "filter P xs = [x]"
proof -
  obtain as bs where xs: "xs = as @ x # bs" using split_list [OF assms(2)] by blast
  have "\<not> P y" if "y \<in> set as \<union> set bs" for y
  proof
    assume "P y"
    with assms(4) [of y] that xs have "y = x" by auto
    with that xs assms(1) show False by auto
  qed
  then have "filter P as = []" "filter P bs = []" by (simp_all add: filter_empty_conv)
  with xs assms(3) show ?thesis by simp
qed

subsection \<open>Restoring the chain\<close>

definition commit_map :: "commit_record list \<Rightarrow> string \<rightharpoonup> commit_record" where
  "commit_map cs = map_of (map (\<lambda>c. (cm_id c, c)) cs)"

lemma commit_map_simps [simp]:
  "commit_map [] = Map.empty" "commit_map (c # cs) = (commit_map cs)(cm_id c \<mapsto> c)"
  by (simp_all add: commit_map_def)

lemma commit_map_None: "commit_map cs k = None \<longleftrightarrow> k \<notin> cm_id ` set cs"
  by (simp add: commit_map_def map_of_eq_None_iff image_image)

lemma commit_map_Some:
  "distinct (map cm_id cs) \<Longrightarrow> commit_map cs k = Some c \<longleftrightarrow> c \<in> set cs \<and> cm_id c = k"
  by (induction cs) (auto simp: rev_image_eqI)

lemma commit_map_snoc:
  "cm_id c \<notin> cm_id ` set cs \<Longrightarrow> commit_map (cs @ [c]) = (commit_map cs)(cm_id c \<mapsto> c)"
  by (induction cs) (auto simp: fun_upd_twist)

lemma commit_map_eq_Nil: "map_of (xs :: commit_record btree) = commit_map cs \<Longrightarrow> xs = [] \<longleftrightarrow> cs = []"
proof -
  assume m: "map_of xs = commit_map cs"
  have "fst ` set xs = cm_id ` set cs"
    using fun_cong [OF m] by (metis (no_types, lifting) commit_map_None map_of_eq_None_iff subsetI subset_antisym)
  then show ?thesis by auto
qed

definition active_ok :: "journal_io \<Rightarrow> active_record \<Rightarrow> commit_record \<Rightarrow> bool" where
  "active_ok io a c \<longleftrightarrow>
     result_record_digest (io_crypto io) (cm_result c) = Inr (ac_result_sha256 a)
     \<and> ac_new_head_sha256 a = o2_new_head_sha256 (body (cm_result c))"

definition frags_ok :: "journal_io \<Rightarrow> disk \<Rightarrow> auth_result_v2 \<Rightarrow> bool" where
  "frags_ok io d result \<longleftrightarrow> verify_fragment_cas io d result = Inr ()"

definition advance_all :: "commit_record list \<Rightarrow> journal \<Rightarrow> journal" where
  "advance_all cs = fold (\<lambda>c. advance_journal (cm_request c) (cm_result c)) cs"

lemma advance_journal_keeps [simp]:
  "j_key (advance_journal q r j) = j_key j" "j_session (advance_journal q r j) = j_session j"
  "j_session_record_sha256 (advance_journal q r j) = j_session_record_sha256 j"
  "j_tombstones (advance_journal q r j) = j_tombstones j"
  "j_reservations (advance_journal q r j) = j_reservations j"
  "j_prepared (advance_journal q r j) = j_prepared j" "j_staged (advance_journal q r j) = j_staged j"
  "j_acknowledgements (advance_journal q r j) = j_acknowledgements j"
  "j_pending_activation (advance_journal q r j) = j_pending_activation j"
  "j_completions (advance_journal q r j) = bt_insert (r2_request_id (body q)) r (j_completions j)"
  by (simp_all add: advance_journal_def)

lemma advance_all_simps [simp]:
  "advance_all [] j = j"
  "advance_all (c # cs) j = advance_all cs (advance_journal (cm_request c) (cm_result c) j)"
  by (simp_all add: advance_all_def)

lemma advance_all_keeps [simp]:
  "j_key (advance_all cs j) = j_key j" "j_session (advance_all cs j) = j_session j"
  "j_session_record_sha256 (advance_all cs j) = j_session_record_sha256 j"
  "j_tombstones (advance_all cs j) = j_tombstones j"
  "j_reservations (advance_all cs j) = j_reservations j"
  "j_prepared (advance_all cs j) = j_prepared j" "j_staged (advance_all cs j) = j_staged j"
  "j_acknowledgements (advance_all cs j) = j_acknowledgements j"
  "pos_of (advance_all cs j) = pos_after (pos_of j) cs"
  by (induction cs arbitrary: j) simp_all

lemma advance_all_completions:
  "bt_wf (j_completions j) \<Longrightarrow> distinct (map cm_id cs) \<Longrightarrow>
     bt_wf (j_completions (advance_all cs j))
     \<and> (\<forall>k. map_of (j_completions (advance_all cs j)) k =
          (case commit_map cs k of Some c \<Rightarrow> Some (cm_result c) | None \<Rightarrow> map_of (j_completions j) k))"
proof (induction cs arbitrary: j)
  case (Cons c cs)
  let ?j = "advance_journal (cm_request c) (cm_result c) j"
  have n: "commit_map cs (cm_id c) = None" using Cons.prems(2) by (simp add: commit_map_None)
  from Cons.IH [of ?j] Cons.prems show ?case
    by (auto simp: n cm_id_def [symmetric] split: option.split)
qed simp

lemma restore_chain_ok:
  assumes "linked_from io (pos_of j) cs" "\<forall>c\<in>set cs. commit_ok io (j_session j) (j_key j) c"
    and "distinct (map cm_id cs)" "bt_wf commits" "map_of commits = commit_map cs"
    and "\<forall>c\<in>set cs. \<forall>a. map_of active (cm_id c) = Some a \<longrightarrow> active_ok io a c"
    and "\<forall>c\<in>set (butlast cs). map_of active (cm_id c) \<noteq> None"
    and "\<forall>c\<in>set cs. \<not> bt_has (j_tombstones j) (cm_id c) \<longrightarrow> frags_ok io d (cm_result c)"
    and "\<forall>c\<in>set cs. map_of (j_completions j) (cm_id c) = None"
    and "j_pending_activation j = None"
  shows "restore_chain io d active commits j =
    Inr ((advance_all (filter (\<lambda>c. map_of active (cm_id c) \<noteq> None) cs) j)
           \<lparr>j_pending_activation := find (\<lambda>c. map_of active (cm_id c) = None) cs\<rparr>)"
  using assms
proof (induction cs arbitrary: commits j)
  case Nil
  then have "commits = []" using commit_map_eq_Nil [of commits "[]"] by simp
  with Nil show ?case by (simp add: id_def)
next
  case (Cons c cs)
  let ?m = "\<lambda>(_, commit). matches_current_parent io j (cm_request commit)"
  have in_set: "(k, e) \<in> set commits \<longleftrightarrow> e \<in> set (c # cs) \<and> cm_id e = k" for k e
    using bt_in_iff [OF Cons.prems(4)] Cons.prems(5) commit_map_Some [OF Cons.prems(3)] by simp
  obtain x xs where x: "commits = x # xs"
    using in_set [of "cm_id c" c] by (cases commits) auto
  have one: "filter ?m commits = [(cm_id c, c)]"
  proof (rule filter_single)
    show "distinct commits" using bt_wf_distinct [OF Cons.prems(4)] by (simp add: distinct_map)
    show "(cm_id c, c) \<in> set commits" by (simp add: in_set)
    show "?m (cm_id c, c)" using Cons.prems(1) by (simp add: matches_pos)
    fix y assume y: "y \<in> set commits" "?m y"
    obtain k e where ye: "y = (k, e)" by force
    with y have e: "e \<in> set (c # cs)" "cm_id e = k"
      "p_height (pos_of j) = r2_base_output_height (body (cm_request e))"
      by (auto simp: in_set matches_pos pos_match_def)
    have "e \<notin> set cs" using linked_heights(2) [OF Cons.prems(1,2) refl, of e] e(3) by auto
    with e ye show "y = (cm_id c, c)" by auto
  qed
  let ?rest = "bt_remove (cm_id c) commits"
  have rest: "bt_wf ?rest" "map_of ?rest = commit_map cs"
    using Cons.prems(3,4,5) commit_map_None [of cs "cm_id c"] by (auto simp: fun_eq_iff)
  have cok: "round_verify_historical_v2 (io_crypto io) (cm_request c) (body (j_session j)) (j_key j) = Inr ()"
      "verify_against_v2 (io_crypto io) (cm_result c) (cm_request c) (body (j_session j)) = Inr ()"
      "validate_stage_receipt io (cm_renderer c) (cm_result c) = Inr ()"
    using Cons.prems(2) by (simp_all add: commit_ok_def)
  have fr: "(if bt_has (j_tombstones j) (cm_id c) then Inr () else verify_fragment_cas io d (cm_result c)) = Inr ()"
    using Cons.prems(8) by (simp add: frags_ok_def)
  obtain dg where dg: "result_record_digest (io_crypto io) (cm_result c) = Inr dg"
    using cok(3) by (auto simp: validate_stage_receipt_def bind_res_Inr_iff)
  have unfold: "restore_chain io d active commits j =
      (case map_of active (cm_id c) of
         Some r \<Rightarrow>
           if ac_result_sha256 r = dg \<and> ac_new_head_sha256 r = o2_new_head_sha256 (body (cm_result c))
           then bind_res (apply_active io j (cm_request c) (cm_result c)) (\<lambda>j'.
                  restore_chain io d active ?rest j')
           else Inl (invalid ''active record differs from WAL commit'')
       | None \<Rightarrow>
           if j_pending_activation j = None \<and> ?rest = []
           then Inr (j\<lparr>j_pending_activation := Some c\<rparr>)
           else Inl (invalid ''journal commit/active chain is ambiguous''))"
    unfolding x restore_chain.simps(2) one [unfolded x] by (simp add: cok fr dg Let_def)
  show ?case
  proof (cases "map_of active (cm_id c)")
    case None
    with Cons.prems(7) have "cs = []" by (cases cs) auto
    with rest have "?rest = []" using commit_map_eq_Nil [of ?rest "[]"] by simp
    with None unfold Cons.prems(10) \<open>cs = []\<close> show ?thesis by simp
  next
    case (Some r)
    let ?j = "advance_journal (cm_request c) (cm_result c) j"
    have a: "active_ok io r c" using Cons.prems(6) Some by simp
    have "map_of (j_completions j) (r2_request_id (body (cm_request c))) = None"
      using Cons.prems(9) by (simp add: cm_id_def)
    then have ap: "apply_active io j (cm_request c) (cm_result c) = Inr ?j"
      using Cons.prems(1) cok(2) by (simp add: apply_active_def matches_pos)
    have ids: "\<forall>e\<in>set cs. cm_id e \<noteq> r2_request_id (body (cm_request c))"
      using Cons.prems(3) by (auto simp: cm_id_def [symmetric] rev_image_eqI)
    have IH: "restore_chain io d active ?rest ?j =
      Inr ((advance_all (filter (\<lambda>c. map_of active (cm_id c) \<noteq> None) cs) ?j)
           \<lparr>j_pending_activation := find (\<lambda>c. map_of active (cm_id c) = None) cs\<rparr>)"
    proof (rule Cons.IH)
      show "\<forall>c\<in>set (butlast cs). map_of active (cm_id c) \<noteq> None"
        using Cons.prems(7) by (cases cs) auto
    qed (use Cons.prems rest ids in auto)
    show ?thesis
      using a dg Some unfold ap IH by (simp add: active_ok_def)
  qed
qed

subsection \<open>The view of a disk\<close>

record view =
  v_res :: "string \<rightharpoonup> reservation_record"
  v_prep :: "string \<rightharpoonup> prepared_record"
  v_stg :: "string \<rightharpoonup> staged_record"
  v_cmt :: "string \<rightharpoonup> commit_record"
  v_act :: "string \<rightharpoonup> active_record"
  v_ack :: "string \<rightharpoonup> ack_record"
  v_tomb :: "string \<rightharpoonup> tombstone_record"

definition holds :: "journal_io \<Rightarrow> string \<Rightarrow> bytes \<Rightarrow> disk \<Rightarrow> view \<Rightarrow> bool" where
  "holds io sha key d v \<longleftrightarrow>
     holds_slots io sha key ''reservation'' (io_reservation io) rv_id (files d Reservations) (v_res v)
     \<and> holds_slots io sha key ''prepared'' (io_prepared io) pr_id (files d Prepared) (v_prep v)
     \<and> holds_slots io sha key ''staged'' (io_staged io) sg_request_id (files d Staged) (v_stg v)
     \<and> holds_slots io sha key ''commit'' (io_commit io) cm_id (files d Commits) (v_cmt v)
     \<and> holds_slots io sha key ''active'' (io_active io) ac_request_id (files d Active) (v_act v)
     \<and> holds_slots io sha key ''ack'' (io_ack io) ak_request_id (files d Acks) (v_ack v)
     \<and> holds_slots io sha key ''tombstone'' (io_tombstone io) tb_request_id (files d Tombstones) (v_tomb v)"

text \<open>The chain of a view and the part of it that is active.\<close>

definition active_part :: "view \<Rightarrow> commit_record list \<Rightarrow> commit_record list" where
  "active_part v chain = filter (\<lambda>c. v_act v (cm_id c) \<noteq> None) chain"

definition chain_inv :: "journal_io \<Rightarrow> auth_session_v2 \<Rightarrow> bytes \<Rightarrow> disk \<Rightarrow> view \<Rightarrow> commit_record list \<Rightarrow> bool" where
  "chain_inv io s key d v chain \<longleftrightarrow>
     distinct (map cm_id chain) \<and> v_cmt v = commit_map chain
     \<and> linked_from io (genesis_pos s) chain
     \<and> (\<forall>c\<in>set chain. commit_ok io s key c)
     \<and> (\<forall>c\<in>set chain. v_tomb v (cm_id c) = None \<longrightarrow> frags_ok io d (cm_result c))
     \<and> (\<forall>k a. v_act v k = Some a \<longrightarrow> (\<exists>c\<in>set chain. cm_id c = k \<and> active_ok io a c))
     \<and> (\<forall>c\<in>set (butlast chain). v_act v (cm_id c) \<noteq> None)"

definition phases_inv :: "journal_io \<Rightarrow> auth_session_v2 \<Rightarrow> bytes \<Rightarrow> disk \<Rightarrow> view \<Rightarrow> bool" where
  "phases_inv io s key d v \<longleftrightarrow>
     (\<forall>k r. v_res v k = Some r \<longrightarrow>
        round_verify_historical_v2 (io_crypto io) (rv_request r) (body s) key = Inr ())
     \<and> (\<forall>k p. v_prep v k = Some p \<longrightarrow> v_tomb v k = None \<longrightarrow>
        (\<exists>r. v_res v k = Some r
           \<and> intent_sha256_v2 (io_crypto io) (rv_request r) = Inr (pr_request_intent_sha256 p)
           \<and> verify_against_v2 (io_crypto io) (pr_result p) (rv_request r) (body s) = Inr ()))
     \<and> (\<forall>k g. v_stg v k = Some g \<longrightarrow> v_tomb v k = None \<longrightarrow>
        (\<exists>p. v_prep v k = Some p \<and> sg_request_intent_sha256 g = pr_request_intent_sha256 p
           \<and> result_record_digest (io_crypto io) (pr_result p) = Inr (sg_result_sha256 g)
           \<and> validate_stage_receipt io (sg_renderer g) (pr_result p) = Inr ()
           \<and> frags_ok io d (pr_result p)))"

definition retry_inv :: "journal_io \<Rightarrow> view \<Rightarrow> commit_record list \<Rightarrow> bool" where
  "retry_inv io v chain \<longleftrightarrow>
     (\<forall>k a. v_ack v k = Some a \<longrightarrow> v_act v k \<noteq> None
        \<and> (\<forall>c\<in>set chain. cm_id c = k \<longrightarrow>
             result_record_digest (io_crypto io) (cm_result c) = Inr (ak_result_sha256 a)
             \<and> ak_applied_head_sha256 a = o2_new_head_sha256 (body (cm_result c))))
     \<and> (\<forall>k t. v_tomb v k = Some t \<longrightarrow> v_act v k \<noteq> None
        \<and> (\<forall>c\<in>set chain. cm_id c = k \<longrightarrow>
             result_record_digest (io_crypto io) (cm_result c) = Inr (tb_result_sha256 t)))"

text \<open>There is at most one reservation whose decision is not active, it is a child of the current
  position, and until it is retired a committed decision is the one that was prepared.\<close>

definition child_inv :: "journal_io \<Rightarrow> auth_session_v2 \<Rightarrow> view \<Rightarrow> commit_record list \<Rightarrow> bool" where
  "child_inv io s v chain \<longleftrightarrow>
     (\<forall>k r. v_res v k = Some r \<longrightarrow> v_act v k = None \<longrightarrow>
        pos_match io (pos_after (genesis_pos s) (active_part v chain)) (rv_request r))
     \<and> (\<forall>k k'. v_res v k \<noteq> None \<longrightarrow> v_act v k = None \<longrightarrow> v_res v k' \<noteq> None \<longrightarrow> v_act v k' = None \<longrightarrow> k = k')
     \<and> (\<forall>c\<in>set chain. v_tomb v (cm_id c) = None \<longrightarrow>
          (\<exists>p. v_prep v (cm_id c) = Some p \<and> pr_result p = cm_result c))"

definition ids_inv :: "string set \<Rightarrow> view \<Rightarrow> bool" where
  "ids_inv ids v \<longleftrightarrow> dom (v_res v) \<subseteq> ids \<and> dom (v_prep v) \<subseteq> ids \<and> dom (v_stg v) \<subseteq> ids
     \<and> dom (v_cmt v) \<subseteq> ids \<and> dom (v_ack v) \<subseteq> ids"

definition disk_inv ::
  "journal_io \<Rightarrow> auth_session_v2 \<Rightarrow> bytes \<Rightarrow> string set \<Rightarrow> disk \<Rightarrow> view \<Rightarrow> commit_record list \<Rightarrow> bool" where
  "disk_inv io s key ids d v chain \<longleftrightarrow> chain_inv io s key d v chain \<and> phases_inv io s key d v
     \<and> retry_inv io v chain \<and> child_inv io s v chain \<and> ids_inv ids v"

subsection \<open>The journal in memory\<close>

definition mirrors :: "view \<Rightarrow> 'r btree \<Rightarrow> (string \<rightharpoonup> 'r) \<Rightarrow> bool" where
  "mirrors v m f \<longleftrightarrow> bt_wf m \<and> map_of m \<subseteq>\<^sub>m f
     \<and> (\<forall>k. v_act v k = None \<longrightarrow> map_of m k = f k) \<and> (\<forall>k. v_tomb v k \<noteq> None \<longrightarrow> map_of m k = None)"

definition completions_inv :: "view \<Rightarrow> commit_record list \<Rightarrow> auth_result_v2 btree \<Rightarrow> bool" where
  "completions_inv v chain m \<longleftrightarrow> bt_wf m
     \<and> (\<forall>k r. map_of m k = Some r \<longrightarrow> v_act v k \<noteq> None \<and> (\<exists>c\<in>set chain. cm_id c = k \<and> cm_result c = r))
     \<and> (\<forall>c\<in>set chain. v_act v (cm_id c) \<noteq> None \<longrightarrow> v_tomb v (cm_id c) = None \<longrightarrow>
          map_of m (cm_id c) = Some (cm_result c))"

definition mem_inv ::
  "auth_session_v2 \<Rightarrow> bytes \<Rightarrow> string \<Rightarrow> view \<Rightarrow> commit_record list \<Rightarrow> journal \<Rightarrow> bool" where
  "mem_inv s key sha v chain j \<longleftrightarrow>
     j_key j = key \<and> j_session j = s \<and> j_session_record_sha256 j = sha
     \<and> pos_of j = pos_after (genesis_pos s) (active_part v chain)
     \<and> j_pending_activation j = find (\<lambda>c. v_act v (cm_id c) = None) chain
     \<and> map_of (j_tombstones j) = v_tomb v \<and> bt_wf (j_tombstones j)
     \<and> mirrors v (j_reservations j) (v_res v) \<and> mirrors v (j_prepared j) (v_prep v)
     \<and> mirrors v (j_staged j) (v_stg v)
     \<and> completions_inv v chain (j_completions j)
     \<and> bt_wf (j_acknowledgements j) \<and> map_of (j_acknowledgements j) \<subseteq>\<^sub>m v_ack v
     \<and> (\<forall>k. v_tomb v k = None \<longrightarrow> map_of (j_acknowledgements j) k = v_ack v k)"

lemma for_each_pairs:
  "bt_wf m \<Longrightarrow> for_each f m = Inr () \<longleftrightarrow> (\<forall>k r. map_of m k = Some r \<longrightarrow> f (k, r) = Inr ())"
  by (auto simp: for_each_Inr_iff bt_in_iff)

lemma active_part_cases:
  assumes "\<forall>c\<in>set (butlast chain). v_act v (cm_id c) \<noteq> None"
  shows "find (\<lambda>c. v_act v (cm_id c) = None) chain = None \<and> active_part v chain = chain
    \<or> (\<exists>cs c. chain = cs @ [c] \<and> v_act v (cm_id c) = None \<and> active_part v chain = cs
          \<and> find (\<lambda>c. v_act v (cm_id c) = None) chain = Some c)"
proof (cases chain rule: rev_cases)
  case (snoc cs c)
  have cs: "\<forall>c\<in>set cs. v_act v (cm_id c) \<noteq> None" using assms snoc by simp
  then have f: "find (\<lambda>c. v_act v (cm_id c) = None) cs = None" by (simp add: find_None_iff)
  have app: "find P (xs @ ys) = (case find P xs of None \<Rightarrow> find P ys | Some z \<Rightarrow> Some z)"
    for P :: "commit_record \<Rightarrow> bool" and xs ys by (induction xs) simp_all
  show ?thesis using snoc cs f app by (cases "v_act v (cm_id c)") (auto simp: active_part_def)
qed (simp add: active_part_def)

subsection \<open>Opening\<close>

lemma io_ok_serde:
  assumes "io_ok io"
  shows "serde_ok (io_reservation io)" "serde_ok (io_prepared io)" "serde_ok (io_staged io)"
    "serde_ok (io_commit io)" "serde_ok (io_active io)" "serde_ok (io_ack io)" "serde_ok (io_tombstone io)"
  using assms by (simp_all add: io_ok_def)

lemma holds_read:
  assumes "io_ok io" "holds io (j_session_record_sha256 j) (j_key j) d v"
  obtains res prep stg cmt act ack tomb where
    "read_slots io j d Reservations ''reservation'' (snd (io_reservation io)) rv_id = Inr res"
    "bt_wf res" "map_of res = v_res v"
    "read_slots io j d Prepared ''prepared'' (snd (io_prepared io)) pr_id = Inr prep"
    "bt_wf prep" "map_of prep = v_prep v"
    "read_slots io j d Staged ''staged'' (snd (io_staged io)) sg_request_id = Inr stg"
    "bt_wf stg" "map_of stg = v_stg v"
    "read_slots io j d Commits ''commit'' (snd (io_commit io)) cm_id = Inr cmt"
    "bt_wf cmt" "map_of cmt = v_cmt v"
    "read_slots io j d Active ''active'' (snd (io_active io)) ac_request_id = Inr act"
    "bt_wf act" "map_of act = v_act v"
    "read_slots io j d Acks ''ack'' (snd (io_ack io)) ak_request_id = Inr ack"
    "bt_wf ack" "map_of ack = v_ack v"
    "read_slots io j d Tombstones ''tombstone'' (snd (io_tombstone io)) tb_request_id = Inr tomb"
    "bt_wf tomb" "map_of tomb = v_tomb v"
proof -
  note h = assms(2) [unfolded holds_def]
  note sd = io_ok_serde [OF assms(1)]
  from holds_slots_read [OF assms(1) sd(1)] h
  obtain res where 1: "read_slots io j d Reservations ''reservation'' (snd (io_reservation io)) rv_id = Inr res"
    "bt_wf res" "map_of res = v_res v" by blast
  from holds_slots_read [OF assms(1) sd(2)] h
  obtain prep where 2: "read_slots io j d Prepared ''prepared'' (snd (io_prepared io)) pr_id = Inr prep"
    "bt_wf prep" "map_of prep = v_prep v" by blast
  from holds_slots_read [OF assms(1) sd(3)] h
  obtain stg where 3: "read_slots io j d Staged ''staged'' (snd (io_staged io)) sg_request_id = Inr stg"
    "bt_wf stg" "map_of stg = v_stg v" by blast
  from holds_slots_read [OF assms(1) sd(4)] h
  obtain cmt where 4: "read_slots io j d Commits ''commit'' (snd (io_commit io)) cm_id = Inr cmt"
    "bt_wf cmt" "map_of cmt = v_cmt v" by blast
  from holds_slots_read [OF assms(1) sd(5)] h
  obtain act where 5: "read_slots io j d Active ''active'' (snd (io_active io)) ac_request_id = Inr act"
    "bt_wf act" "map_of act = v_act v" by blast
  from holds_slots_read [OF assms(1) sd(6)] h
  obtain ack where 6: "read_slots io j d Acks ''ack'' (snd (io_ack io)) ak_request_id = Inr ack"
    "bt_wf ack" "map_of ack = v_ack v" by blast
  from holds_slots_read [OF assms(1) sd(7)] h
  obtain tomb where 7: "read_slots io j d Tombstones ''tombstone'' (snd (io_tombstone io)) tb_request_id = Inr tomb"
    "bt_wf tomb" "map_of tomb = v_tomb v" by blast
  from 1 2 3 4 5 6 7 show thesis by (rule that)
qed

lemma read_slots_cong:
  "j_session_record_sha256 j = j_session_record_sha256 j' \<Longrightarrow> j_key j = j_key j' \<Longrightarrow>
     read_slots io j d dir kind f rid = read_slots io j' d dir kind f rid"
proof -
  assume a: "j_session_record_sha256 j = j_session_record_sha256 j'" "j_key j = j_key j'"
  have "read_slots_loop io j kind f rid acc es = read_slots_loop io j' kind f rid acc es" for acc es
    by (induction es arbitrary: acc) (auto simp: a cong: bind_res_cong)
  then show ?thesis by (simp add: read_slots_def)
qed

lemma chain_completed:
  assumes "chain_inv io s key d v chain" "v_act v k = Some a"
  shows "\<exists>c. commit_map (active_part v chain) k = Some c \<and> c \<in> set chain \<and> cm_id c = k"
proof -
  from assms obtain c where c: "c \<in> set chain" "cm_id c = k"
    unfolding chain_inv_def by blast
  moreover have "distinct (map cm_id (active_part v chain))"
    using assms(1) by (simp add: chain_inv_def active_part_def distinct_map_filter)
  ultimately show ?thesis
    using assms(2) commit_map_Some [of "active_part v chain" k c] by (auto simp: active_part_def)
qed

lemma restored_completions:
  assumes ci: "chain_inv io s key d v chain"
    and "bt_wf m" "\<And>k. map_of m k = map_option cm_result (commit_map (active_part v chain) k)"
  shows "completions_inv v chain m"
    and "bt_has m k \<longleftrightarrow> v_act v k \<noteq> None"
proof -
  have dis: "distinct (map cm_id (active_part v chain))"
    using ci by (simp add: chain_inv_def active_part_def distinct_map_filter)
  show "bt_has m k \<longleftrightarrow> v_act v k \<noteq> None"
    using chain_completed [OF ci] commit_map_Some [OF dis, of k] assms(3) [of k]
    by (fastforce simp: bt_has_def active_part_def)
  show "completions_inv v chain m"
    unfolding completions_inv_def
  proof (intro conjI allI impI ballI assms(2))
    fix k r assume "map_of m k = Some r"
    then obtain c where c: "commit_map (active_part v chain) k = Some c" "r = cm_result c"
      using assms(3) by auto
    then have "c \<in> set (active_part v chain)" "cm_id c = k" using commit_map_Some [OF dis] by auto
    then show "v_act v k \<noteq> None" "\<exists>c\<in>set chain. cm_id c = k \<and> cm_result c = r"
      using c(2) by (auto simp: active_part_def)
  next
    fix c assume "c \<in> set chain" "v_act v (cm_id c) \<noteq> None"
    then have "commit_map (active_part v chain) (cm_id c) = Some c"
      using commit_map_Some [OF dis] by (simp add: active_part_def)
    then show "map_of m (cm_id c) = Some (cm_result c)" using assms(3) by simp
  qed
qed

lemma mirrors_drop:
  assumes "bt_wf m" "map_of m = f" "\<And>k. v_tomb v k \<noteq> None \<Longrightarrow> v_act v k \<noteq> None"
    and "\<And>k. P k \<longleftrightarrow> v_tomb v k \<noteq> None" "\<And>k. Q k \<longleftrightarrow> v_act v k \<noteq> None"
  shows "mirrors v (drop_keys Q (drop_keys P m)) f"
proof -
  have "v_tomb v k = None" if "v_act v k = None" for k using assms(3) that by blast
  moreover have "map_of (drop_keys Q (drop_keys P m)) \<subseteq>\<^sub>m f"
    using assms(2) by (auto simp: map_le_def dom_def split: if_splits)
  ultimately show ?thesis using assms(1,2) by (simp add: mirrors_def assms(4,5))
qed

lemma restore_records_ok:
  assumes io: "io_ok io" and j: "from_session io key s = Inr j"
    and h: "holds io (j_session_record_sha256 j) key d v"
    and inv: "disk_inv io s key ids d v chain"
  shows "\<exists>j'. restore_records io d j = Inr j' \<and> mem_inv s key (j_session_record_sha256 j) v chain j'"
proof -
  have j0: "j_key j = key" "j_session j = s" "pos_of j = genesis_pos s" "j_completions j = []"
      "j_pending_activation j = None"
    using j by (auto simp: from_session_def bind_res_Inr_iff pos_of_def genesis_pos_def)
  have ci: "chain_inv io s key d v chain" and ph: "phases_inv io s key d v"
    and rt: "retry_inv io v chain"
    using inv by (simp_all add: disk_inv_def)
  from holds_read [OF io, of j d v] h j0(1) obtain res prep stg cmt act ack tomb where
      res: "read_slots io j d Reservations ''reservation'' (snd (io_reservation io)) rv_id = Inr res"
        "bt_wf res" "map_of res = v_res v"
    and prep: "read_slots io j d Prepared ''prepared'' (snd (io_prepared io)) pr_id = Inr prep"
        "bt_wf prep" "map_of prep = v_prep v"
    and stg: "read_slots io j d Staged ''staged'' (snd (io_staged io)) sg_request_id = Inr stg"
        "bt_wf stg" "map_of stg = v_stg v"
    and cmt: "read_slots io j d Commits ''commit'' (snd (io_commit io)) cm_id = Inr cmt"
        "bt_wf cmt" "map_of cmt = v_cmt v"
    and act: "read_slots io j d Active ''active'' (snd (io_active io)) ac_request_id = Inr act"
        "bt_wf act" "map_of act = v_act v"
    and ack: "read_slots io j d Acks ''ack'' (snd (io_ack io)) ak_request_id = Inr ack"
        "bt_wf ack" "map_of ack = v_ack v"
    and tomb: "read_slots io j d Tombstones ''tombstone'' (snd (io_tombstone io)) tb_request_id = Inr tomb"
        "bt_wf tomb" "map_of tomb = v_tomb v"
    by (metis (no_types))
  define j1 where "j1 = j\<lparr>j_tombstones := tomb, j_reservations := drop_keys (bt_has tomb) res,
      j_prepared := drop_keys (bt_has tomb) prep, j_staged := drop_keys (bt_has tomb) stg,
      j_acknowledgements := ack\<rparr>"
  have j1: "j_key j1 = key" "j_session j1 = s" "pos_of j1 = genesis_pos s" "j_completions j1 = []"
      "j_pending_activation j1 = None" "j_tombstones j1 = tomb" "j_acknowledgements j1 = ack"
      "j_session_record_sha256 j1 = j_session_record_sha256 j"
      "j_reservations j1 = drop_keys (bt_has tomb) res" "j_prepared j1 = drop_keys (bt_has tomb) prep"
      "j_staged j1 = drop_keys (bt_has tomb) stg"
    using j0 by (simp_all add: j1_def pos_of_def)
  have dead: "bt_has tomb k \<longleftrightarrow> v_tomb v k \<noteq> None" for k by (simp add: bt_has_def tomb(3))
  have c1: "for_each (\<lambda>(_, r). round_verify_historical_v2 (io_crypto io) (rv_request r)
              (body (j_session j)) (j_key j)) (j_reservations j1) = Inr ()"
    using ph res(2,3) j0 by (auto simp: for_each_pairs j1(9) phases_inv_def)
  have c2: "for_each (prepared_check io j1) (j_prepared j1) = Inr ()"
  proof -
    have "prepared_check io j1 (k, p) = Inr ()" if k: "v_prep v k = Some p" "v_tomb v k = None" for k p
    proof -
      from ph k obtain r where "v_res v k = Some r"
        "intent_sha256_v2 (io_crypto io) (rv_request r) = Inr (pr_request_intent_sha256 p)"
        "verify_against_v2 (io_crypto io) (pr_result p) (rv_request r) (body s) = Inr ()"
        unfolding phases_inv_def by blast
      then show ?thesis using k j1(2,9) res(3) dead by (simp add: prepared_check_def)
    qed
    then show ?thesis using prep(2,3) by (simp add: j1(10) for_each_pairs dead)
  qed
  have c3: "for_each (staged_check io d j1) (j_staged j1) = Inr ()"
  proof -
    have "staged_check io d j1 (k, g) = Inr ()" if k: "v_stg v k = Some g" "v_tomb v k = None" for k g
    proof -
      from ph k obtain p where "v_prep v k = Some p"
        "sg_request_intent_sha256 g = pr_request_intent_sha256 p"
        "result_record_digest (io_crypto io) (pr_result p) = Inr (sg_result_sha256 g)"
        "validate_stage_receipt io (sg_renderer g) (pr_result p) = Inr ()" "frags_ok io d (pr_result p)"
        unfolding phases_inv_def by blast
      then show ?thesis using k j1(10) prep(3) dead by (simp add: staged_check_def frags_ok_def)
    qed
    then show ?thesis using stg(2,3) by (simp add: j1(11) for_each_pairs dead)
  qed
  have slots1: "read_slots io j1 d Commits ''commit'' (snd (io_commit io)) cm_id = Inr cmt"
      "read_slots io j1 d Active ''active'' (snd (io_active io)) ac_request_id = Inr act"
    using cmt(1) act(1) j1(1,8) j0(1)
    by (simp_all add: read_slots_cong [of j1 j, where ?'a = commit_record]
        read_slots_cong [of j1 j, where ?'a = active_record])
  have c4: "\<not> list_ex (\<lambda>(request_id, _). \<not> bt_has cmt request_id) act"
    using ci act(2,3) cmt(3)
    by (fastforce simp: list_ex_iff bt_in_iff bt_has_def chain_inv_def commit_map_None)
  define j2 where "j2 = (advance_all (active_part v chain) j1)
      \<lparr>j_pending_activation := find (\<lambda>c. v_act v (cm_id c) = None) chain\<rparr>"
  have c5: "restore_chain io d act cmt j1 = Inr j2"
  proof -
    have "restore_chain io d act cmt j1 =
        Inr ((advance_all (filter (\<lambda>c. map_of act (cm_id c) \<noteq> None) chain) j1)
           \<lparr>j_pending_activation := find (\<lambda>c. map_of act (cm_id c) = None) chain\<rparr>)"
    proof (rule restore_chain_ok)
      show "\<forall>c\<in>set chain. \<forall>a. map_of act (cm_id c) = Some a \<longrightarrow> active_ok io a c"
      proof (intro ballI allI impI)
        fix c a assume c: "c \<in> set chain" "map_of act (cm_id c) = Some a"
        with ci act(3) obtain c' where "c' \<in> set chain" "cm_id c' = cm_id c" "active_ok io a c'"
          unfolding chain_inv_def by metis
        moreover have "inj_on cm_id (set chain)" using ci by (simp add: chain_inv_def distinct_map)
        ultimately show "active_ok io a c" using c(1) by (auto dest: inj_onD)
      qed
    qed (use ci cmt act j1 dead in \<open>auto simp: chain_inv_def\<close>)
    then show ?thesis by (simp add: act(3) j2_def active_part_def)
  qed
  have dis: "distinct (map cm_id (active_part v chain))"
    using ci by (simp add: chain_inv_def active_part_def distinct_map_filter)
  have comp: "bt_wf (j_completions j2)"
      "map_of (j_completions j2) k = map_option cm_result (commit_map (active_part v chain) k)" for k
    using advance_all_completions [of j1 "active_part v chain"] dis j1(4)
    by (auto simp: j2_def split: option.split)
  note rc = restored_completions [OF ci comp(1) comp(2)]
  define j3 where "j3 = j2\<lparr>j_reservations := drop_keys (bt_has (j_completions j2)) (j_reservations j2),
      j_prepared := drop_keys (bt_has (j_completions j2)) (j_prepared j2),
      j_staged := drop_keys (bt_has (j_completions j2)) (j_staged j2)\<rparr>"
  have found: "\<exists>c\<in>set chain. cm_id c = k \<and> map_of (j_completions j3) k = Some (cm_result c)"
    if "v_act v k \<noteq> None" for k
    using that chain_completed [OF ci] comp(2) [of k] by (force simp: j3_def)
  have c6: "for_each (ack_check io j3) (j_acknowledgements j3) = Inr ()"
  proof -
    have "ack_check io j3 (k, a) = Inr ()" if "v_ack v k = Some a" for k a
      using rt that found [of k] by (auto simp: retry_inv_def ack_check_def bind_res_Inr_iff ok_or_Inr_iff)
    then show ?thesis using ack(2,3) by (simp add: j3_def j2_def j1(7) for_each_pairs)
  qed
  have c7: "for_each (tombstone_check io j3) (j_tombstones j3) = Inr ()"
  proof -
    have "tombstone_check io j3 (k, a) = Inr ()" if "v_tomb v k = Some a" for k a
      using rt that found [of k] by (auto simp: retry_inv_def tombstone_check_def bind_res_Inr_iff ok_or_Inr_iff)
    then show ?thesis using tomb(2,3) by (simp add: j3_def j2_def j1(6) for_each_pairs)
  qed
  have keep3: "j_acknowledgements j3 = j_acknowledgements j2" "j_tombstones j3 = j_tombstones j2"
    by (simp_all add: j3_def)
  have "restore_records io d j = Inr j3"
    unfolding restore_records_def
    using res prep stg ack tomb c1 [unfolded j1(9)] c2 [unfolded j1(10)] c3 [unfolded j1(11)] c4 c5
      c6 [unfolded keep3] c7 [unfolded keep3] slots1
    by (simp add: j1_def [symmetric] j3_def [symmetric] Let_def)
  moreover have "mem_inv s key (j_session_record_sha256 j) v chain j3"
  proof -
    have "v_tomb v k \<noteq> None \<Longrightarrow> v_act v k \<noteq> None" for k using rt by (auto simp: retry_inv_def)
    note mir = mirrors_drop [where v = v, OF _ _ this dead rc(2)]
    show ?thesis
      unfolding mem_inv_def j3_def
      using mir [OF res(2,3)] mir [OF prep(2,3)] mir [OF stg(2,3)] rc(1) ack tomb j1
      by (simp add: j2_def map_le_def)
  qed
  ultimately show ?thesis by blast
qed

definition session_on_disk ::
  "journal_io \<Rightarrow> auth_session_v2 \<Rightarrow> bytes \<Rightarrow> string \<Rightarrow> string \<Rightarrow> nat \<Rightarrow> disk \<Rightarrow> bool" where
  "session_on_disk io s key sha key_id epoch d \<longleftrightarrow>
     (\<exists>b. session_file d = Some b \<and> json_auth_session_v2 (io_crypto io) s = Inr b
        \<and> length b \<le> SESSION_BYTES)
     \<and> session_record_digest (io_crypto io) s = Inr sha
     \<and> session_verify_historical_v2 (io_crypto io) s key key_id epoch = Inr ()"

lemma open_ok:
  assumes io: "io_ok io" and sd: "session_on_disk io s key sha key_id epoch d"
    and h: "holds io sha key d v" and inv: "disk_inv io s key ids d v chain"
  shows "\<exists>j. open_journal io d key key_id epoch = Inr j \<and> mem_inv s key sha v chain j"
proof -
  from sd obtain b where b: "session_file d = Some b" "json_auth_session_v2 (io_crypto io) s = Inr b"
      "length b \<le> SESSION_BYTES" by (auto simp: session_on_disk_def)
  have "b \<noteq> []" "io_parse_session io b = Inr s" using io b(2) by (simp_all add: io_ok_def)
  then have r: "read_json (io_parse_session io) SESSION_BYTES b = Inr s"
    using b(3) by (simp add: read_json_def)
  from sd obtain j where j: "from_session io key s = Inr j" "j_session_record_sha256 j = sha"
    by (auto simp: session_on_disk_def from_session_def)
  from restore_records_ok [OF io j(1), unfolded j(2), OF h inv] sd b r j show ?thesis
    by (auto simp: open_journal_def session_on_disk_def)
qed

end
