(* ===== verification/Journal_Disk.thy ===== *)
theory Journal_Disk
  imports Journal_Recovery
begin

section \<open>How the journal's writes change its disk\<close>

text \<open>
  The effects of the journal on the view of its disk. A crash cuts a list of effects off after some
  of them, or inside a write. A property of the disk that holds at every cut which leaves no torn
  slot file is \<open>all_safe\<close>; the writes of a slot, of fragments and the removals are composed with
  it. For each kind of record there is a lemma on the view its file adds and one that the invariant
  of the disk is kept.
\<close>

subsection \<open>Crashes inside a list of effects\<close>

text \<open>\<open>cut_effects es n m\<close> is what has happened when a crash comes after \<open>n\<close> effects: when the next effect is
  a write, its first \<open>m\<close> bytes have reached the file. With \<open>m = 0\<close> that is the crash between
  \<open>create_new\<close> and \<open>write_all\<close>, which leaves an empty file.\<close>

fun cut_write :: "effect \<Rightarrow> nat \<Rightarrow> effect list" where
  "cut_write (WriteAll dir name b) m = [WriteAll dir name (take m b)]"
| "cut_write _ m = []"

definition cut_effects :: "effect list \<Rightarrow> nat \<Rightarrow> nat \<Rightarrow> effect list" where
  "cut_effects es n m = take n es @ (if n < length es then cut_write (es ! n) m else [])"

text \<open>The cut falls inside the write of a slot file: the file is there and its contents are not
  complete. A fragment file may be torn: it is read only through its digest.\<close>

fun torn_write :: "effect \<Rightarrow> nat \<Rightarrow> bool" where
  "torn_write (WriteAll dir name b) m \<longleftrightarrow> dir \<noteq> Fragments \<and> m < length b"
| "torn_write _ m \<longleftrightarrow> False"

definition torn :: "effect list \<Rightarrow> nat \<Rightarrow> nat \<Rightarrow> bool" where
  "torn es n m \<longleftrightarrow> n < length es \<and> torn_write (es ! n) m"

lemma cut_Nil [simp]: "cut_effects [] n m = []" "\<not> torn [] n m"
  by (simp_all add: cut_effects_def torn_def)

lemma cut_Cons [simp]:
  "cut_effects (e # es) 0 m = cut_write e m" "cut_effects (e # es) (Suc n) m = e # cut_effects es n m"
  "torn (e # es) 0 m \<longleftrightarrow> torn_write e m" "torn (e # es) (Suc n) m \<longleftrightarrow> torn es n m"
  by (simp_all add: cut_effects_def torn_def)

lemma cut_append:
  "cut_effects (es @ es') n m = (if n < length es then cut_effects es n m else es @ cut_effects es' (n - length es) m)"
  "torn (es @ es') n m \<longleftrightarrow> (if n < length es then torn es n m else torn es' (n - length es) m)"
  by (auto simp: cut_effects_def torn_def nth_append)

fun fits_slot :: "effect \<Rightarrow> bool" where
  "fits_slot (WriteAll dir name b) \<longleftrightarrow> dir = Fragments \<or> length b \<le> SLOT_BYTES"
| "fits_slot _ \<longleftrightarrow> True"

text \<open>Every slot file written is within the limit that reading it back enforces.\<close>

definition fits :: "effect list \<Rightarrow> bool" where
  "fits es \<longleftrightarrow> list_all fits_slot es"

lemma fits_simps [simp]:
  "fits []" "fits (e # es) \<longleftrightarrow> fits_slot e \<and> fits es" "fits (es @ es') \<longleftrightarrow> fits es \<and> fits es'"
  by (simp_all add: fits_def)

definition all_safe :: "(disk \<Rightarrow> bool) \<Rightarrow> effect list \<Rightarrow> disk \<Rightarrow> bool" where
  "all_safe Q es d \<longleftrightarrow> (\<forall>n m. \<not> torn es n m \<longrightarrow> Q (run_effects (cut_effects es n m) d))"

lemma all_safe_Nil: "Q d \<Longrightarrow> all_safe Q [] d"
  by (simp add: all_safe_def)

text \<open>An effect that writes no bytes happens or does not.\<close>

lemma all_safe_single:
  assumes "Q d" "Q (apply_effect e d)" "\<And>m. cut_write e m = []"
  shows "all_safe Q [e] d"
  unfolding all_safe_def
proof (intro allI impI)
  fix n m show "Q (run_effects (cut_effects [e] n m) d)" by (cases n) (simp_all add: assms)
qed

text \<open>A slot file is there completely or not at all; a fragment file may hold any part of its
  payload.\<close>

lemma all_safe_slot_write:
  assumes "Q d" "Q (set_file dir name b d)"
    and "\<And>m. dir = Fragments \<Longrightarrow> Q (set_file dir name (take m b) d)"
  shows "all_safe Q (slot_write dir name b) d"
  unfolding all_safe_def slot_write_def
proof (intro allI impI)
  fix n m assume t: "\<not> torn [CreateNew dir name, WriteAll dir name b] n m"
  have w: "Q (run_effects [CreateNew dir name, WriteAll dir name b'] d)" if "Q (set_file dir name b' d)" for b'
    using that run_slot_write [of dir name b' d] by (simp add: slot_write_def)
  consider "n = 0" | "n = 1" | k where "n = Suc (Suc k)" by (metis One_nat_def not0_implies_Suc)
  then show "Q (run_effects (cut_effects [CreateNew dir name, WriteAll dir name b] n m) d)"
  proof cases
    case 2
    with t have "dir = Fragments \<or> take m b = b" by auto
    with assms(2,3) have "Q (set_file dir name (take m b) d)" by metis
    from w [OF this] 2 show ?thesis by simp
  next
    case 3
    with w [OF assms(2)] show ?thesis by simp
  qed (simp add: assms(1))
qed

lemma all_safe_append:
  assumes "all_safe Q es d" "all_safe Q es' (run_effects es d)"
  shows "all_safe Q (es @ es') d"
  using assms by (simp add: all_safe_def cut_append)

lemma all_safe_mono: "all_safe Q es d \<Longrightarrow> (\<And>d. Q d \<Longrightarrow> Q' d) \<Longrightarrow> all_safe Q' es d"
  by (simp add: all_safe_def)

lemma run_effects_session [simp]: "session_file (run_effects es d) = session_file d"
proof (induction es arbitrary: d)
  case (Cons e es)
  then show ?case by (cases e) simp_all
qed simp

subsection \<open>Fragments\<close>

lemma frags_ok_iff:
  "frags_ok io d result \<longleftrightarrow> (\<forall>x\<in>set (o2_fragments (body result)). \<exists>p.
     file_at d Fragments (fragment_name (d2_sha256 x)) = Some p \<and> length p = d2_byte_len x
     \<and> sha256_hex (prim (io_crypto io)) p = d2_sha256 x)"
  by (auto simp: frags_ok_def verify_fragment_cas_def for_each_Inr_iff bind_res_Inr_iff ok_or_Inr_iff)

lemma frags_ok_cong: "files d Fragments = files d' Fragments \<Longrightarrow> frags_ok io d r \<longleftrightarrow> frags_ok io d' r"
  by (simp add: frags_ok_iff)

lemma frags_ok_set_file [simp]:
  "dir \<noteq> Fragments \<Longrightarrow> frags_ok io (set_file dir name b d) r \<longleftrightarrow> frags_ok io d r"
  by (rule frags_ok_cong) simp

lemma fragment_name_inj [simp]: "fragment_name a = fragment_name b \<longleftrightarrow> a = b"
  by (simp add: fragment_name_def)

lemma write_fragment_cases:
  assumes "write_fragment d f = Inr es"
  shows "es = [] \<and> file_at d Fragments (fragment_name (d2_sha256 (f2_descriptor f))) = Some (f2_payload f)
    \<or> es = slot_write Fragments (fragment_name (d2_sha256 (f2_descriptor f))) (f2_payload f)
      \<and> file_at d Fragments (fragment_name (d2_sha256 (f2_descriptor f))) = None"
  using assms
  by (auto simp: write_fragment_def Let_def write_exclusive_Inr slot_write_def split: option.splits if_splits)

text \<open>Writing fragments adds files and changes no file: it keeps every property of the disk that
  added fragments keep, and afterwards holds what it wrote.\<close>

lemma write_fragments_safe:
  assumes "write_fragments d fs = (res, es)" "Q d"
    and "\<And>d name b. Q d \<Longrightarrow> file_at d Fragments name = None \<Longrightarrow> Q (set_file Fragments name b d)"
  shows "all_safe Q es d \<and> Q (run_effects es d) \<and> fits es
    \<and> (\<forall>name b. file_at d Fragments name = Some b \<longrightarrow> file_at (run_effects es d) Fragments name = Some b)
    \<and> (res = Inr () \<longrightarrow> (\<forall>f\<in>set fs. file_at (run_effects es d) Fragments
          (fragment_name (d2_sha256 (f2_descriptor f))) = Some (f2_payload f)))
    \<and> (\<forall>dir. dir \<noteq> Fragments \<longrightarrow> files (run_effects es d) dir = files d dir)"
  using assms(1,2)
proof (induction d fs arbitrary: res es rule: write_fragments.induct)
  case (2 d f fs)
  show ?case
  proof (cases "write_fragment d f")
    case (Inl e)
    with 2(2,3) show ?thesis by (auto simp: all_safe_Nil)
  next
    case (Inr es1)
    obtain res2 es2 where w: "write_fragments (run_effects es1 d) fs = (res2, es2)" by force
    with 2(2) Inr have re: "res = res2" "es = es1 @ es2" by auto
    let ?n = "fragment_name (d2_sha256 (f2_descriptor f))" and ?d = "run_effects es1 d"
    have one: "all_safe Q es1 d \<and> Q ?d \<and> fits es1 \<and> file_at ?d Fragments ?n = Some (f2_payload f)
      \<and> (\<forall>name b. file_at d Fragments name = Some b \<longrightarrow> file_at ?d Fragments name = Some b)
      \<and> (\<forall>dir. dir \<noteq> Fragments \<longrightarrow> files ?d dir = files d dir)"
      using write_fragment_cases [OF Inr] 2(3) assms(3) [OF 2(3)]
      by (auto simp: all_safe_Nil run_slot_write intro!: all_safe_slot_write) (auto simp: slot_write_def)
    show ?thesis
      using one 2(1) [OF Inr w] re all_safe_append [of Q es1 d es2] by auto
  qed
qed (auto simp: all_safe_Nil)

subsection \<open>Slot writes and the view\<close>

definition puts :: "dir \<Rightarrow> effect list \<Rightarrow> bool" where
  "puts dir es \<longleftrightarrow> es = [] \<or> (\<exists>name b. es = slot_write dir name b)"

lemma puts_safe:
  "puts dir es \<Longrightarrow> dir \<noteq> Fragments \<Longrightarrow> Q d \<Longrightarrow> Q (run_effects es d) \<Longrightarrow> all_safe Q es d"
  by (auto simp: puts_def all_safe_Nil run_slot_write intro: all_safe_slot_write)

lemma puts_frags: "puts dir es \<Longrightarrow> dir \<noteq> Fragments \<Longrightarrow> frags_ok io (run_effects es d) r \<longleftrightarrow> frags_ok io d r"
  by (auto simp: puts_def run_slot_write)

lemma write_slot_put:
  assumes io: "io_ok io" and sd: "serde_ok sd" and dir: "dir \<noteq> Fragments"
    and h: "holds_slots io (j_session_record_sha256 j) (j_key j) kind sd rid (files d dir) m"
    and w: "write_slot io j d dir k kind (fst sd) r = Inr es" and k: "rid r = k" and f: "fits es"
  shows "puts dir es" "m k = None \<or> m k = Some r"
    "holds_slots io (j_session_record_sha256 j) (j_key j) kind sd rid
       (files (run_effects es d) dir) (m(k \<mapsto> r))"
    "dir' \<noteq> dir \<Longrightarrow> files (run_effects es d) dir' = files d dir'"
proof -
  note cases = write_slot_cases [OF io sd h w k]
  show "puts dir es" "m k = None \<or> m k = Some r"
    "dir' \<noteq> dir \<Longrightarrow> files (run_effects es d) dir' = files d dir'"
    using cases by (auto simp: puts_def run_slot_write)
  show "holds_slots io (j_session_record_sha256 j) (j_key j) kind sd rid
       (files (run_effects es d) dir) (m(k \<mapsto> r))"
    using cases
  proof (elim disjE exE conjE)
    assume "es = []" "m k = Some r"
    with h show ?thesis by (simp add: map_upd_triv)
  next
    fix b assume b: "es = slot_write dir (slot_name io k) b" "file_at d dir (slot_name io k) = None"
      "slot_bytes io (j_session_record_sha256 j) (j_key j) kind sd r = Inr b"
    then have "slot_file io (j_session_record_sha256 j) (j_key j) kind sd r b"
      using f dir by (simp add: slot_file_def slot_write_def)
    from holds_slots_insert [OF h b(2) this k] b(1) show ?thesis by (simp add: run_slot_write)
  qed
qed

text \<open>One lemma for each directory.\<close>

lemma write_reservation:
  assumes "io_ok io" "holds io sha key d v" "j_session_record_sha256 j = sha" "j_key j = key"
    and "write_slot io j d Reservations k ''reservation'' (fst (io_reservation io)) r = Inr es"
    and "rv_id r = k" "fits es"
  shows "puts Reservations es \<and> (v_res v k = None \<or> v_res v k = Some r)
    \<and> holds io sha key (run_effects es d) (v\<lparr>v_res := (v_res v)(k \<mapsto> r)\<rparr>)"
  using write_slot_put [where rid = rv_id and m = "v_res v", OF assms(1) io_ok_serde(1) [OF assms(1)] _ _ assms(5,6,7)] assms(2,3,4)
  by (simp add: holds_def)

lemma write_prepared:
  assumes "io_ok io" "holds io sha key d v" "j_session_record_sha256 j = sha" "j_key j = key"
    and "write_slot io j d Prepared k ''prepared'' (fst (io_prepared io)) r = Inr es"
    and "pr_id r = k" "fits es"
  shows "puts Prepared es \<and> (v_prep v k = None \<or> v_prep v k = Some r)
    \<and> holds io sha key (run_effects es d) (v\<lparr>v_prep := (v_prep v)(k \<mapsto> r)\<rparr>)"
  using write_slot_put [where rid = pr_id and m = "v_prep v", OF assms(1) io_ok_serde(2) [OF assms(1)] _ _ assms(5,6,7)] assms(2,3,4)
  by (simp add: holds_def)

lemma write_staged:
  assumes "io_ok io" "holds io sha key d v" "j_session_record_sha256 j = sha" "j_key j = key"
    and "write_slot io j d Staged k ''staged'' (fst (io_staged io)) r = Inr es"
    and "sg_request_id r = k" "fits es"
  shows "puts Staged es \<and> (v_stg v k = None \<or> v_stg v k = Some r)
    \<and> holds io sha key (run_effects es d) (v\<lparr>v_stg := (v_stg v)(k \<mapsto> r)\<rparr>)"
  using write_slot_put [where rid = sg_request_id and m = "v_stg v", OF assms(1) io_ok_serde(3) [OF assms(1)] _ _ assms(5,6,7)] assms(2,3,4)
  by (simp add: holds_def)

lemma write_commit:
  assumes "io_ok io" "holds io sha key d v" "j_session_record_sha256 j = sha" "j_key j = key"
    and "write_slot io j d Commits k ''commit'' (fst (io_commit io)) r = Inr es"
    and "cm_id r = k" "fits es"
  shows "puts Commits es \<and> (v_cmt v k = None \<or> v_cmt v k = Some r)
    \<and> holds io sha key (run_effects es d) (v\<lparr>v_cmt := (v_cmt v)(k \<mapsto> r)\<rparr>)"
  using write_slot_put [where rid = cm_id and m = "v_cmt v", OF assms(1) io_ok_serde(4) [OF assms(1)] _ _ assms(5,6,7)] assms(2,3,4)
  by (simp add: holds_def)

lemma write_active_slot:
  assumes "io_ok io" "holds io sha key d v" "j_session_record_sha256 j = sha" "j_key j = key"
    and "write_slot io j d Active k ''active'' (fst (io_active io)) r = Inr es"
    and "ac_request_id r = k" "fits es"
  shows "puts Active es \<and> (v_act v k = None \<or> v_act v k = Some r)
    \<and> holds io sha key (run_effects es d) (v\<lparr>v_act := (v_act v)(k \<mapsto> r)\<rparr>)"
  using write_slot_put [where rid = ac_request_id and m = "v_act v", OF assms(1) io_ok_serde(5) [OF assms(1)] _ _ assms(5,6,7)] assms(2,3,4)
  by (simp add: holds_def)

lemma write_ack:
  assumes "io_ok io" "holds io sha key d v" "j_session_record_sha256 j = sha" "j_key j = key"
    and "write_slot io j d Acks k ''ack'' (fst (io_ack io)) r = Inr es"
    and "ak_request_id r = k" "fits es"
  shows "puts Acks es \<and> (v_ack v k = None \<or> v_ack v k = Some r)
    \<and> holds io sha key (run_effects es d) (v\<lparr>v_ack := (v_ack v)(k \<mapsto> r)\<rparr>)"
  using write_slot_put [where rid = ak_request_id and m = "v_ack v", OF assms(1) io_ok_serde(6) [OF assms(1)] _ _ assms(5,6,7)] assms(2,3,4)
  by (simp add: holds_def)

lemma write_tombstone:
  assumes "io_ok io" "holds io sha key d v" "j_session_record_sha256 j = sha" "j_key j = key"
    and "write_slot io j d Tombstones k ''tombstone'' (fst (io_tombstone io)) r = Inr es"
    and "tb_request_id r = k" "fits es"
  shows "puts Tombstones es \<and> (v_tomb v k = None \<or> v_tomb v k = Some r)
    \<and> holds io sha key (run_effects es d) (v\<lparr>v_tomb := (v_tomb v)(k \<mapsto> r)\<rparr>)"
  using write_slot_put [where rid = tb_request_id and m = "v_tomb v", OF assms(1) io_ok_serde(7) [OF assms(1)] _ _ assms(5,6,7)] assms(2,3,4)
  by (simp add: holds_def)

lemma holds_cong: "(\<And>dir. dir \<noteq> Fragments \<Longrightarrow> files d' dir = files d dir) \<Longrightarrow> holds io sha key d' v \<longleftrightarrow> holds io sha key d v"
  by (simp add: holds_def)

text \<open>Removing the four evidence slots of a request.\<close>

lemma holds_remove:
  assumes h: "holds io sha key d v" and ids: "ids_inv ids v" and inj: "inj_on (slot_name io) ids"
    and k: "k \<in> ids"
  shows "holds io sha key (apply_effect (RemoveFile Reservations (slot_name io k)) d) (v\<lparr>v_res := (v_res v)(k := None)\<rparr>)"
    "holds io sha key (apply_effect (RemoveFile Prepared (slot_name io k)) d) (v\<lparr>v_prep := (v_prep v)(k := None)\<rparr>)"
    "holds io sha key (apply_effect (RemoveFile Staged (slot_name io k)) d) (v\<lparr>v_stg := (v_stg v)(k := None)\<rparr>)"
    "holds io sha key (apply_effect (RemoveFile Acks (slot_name io k)) d) (v\<lparr>v_ack := (v_ack v)(k := None)\<rparr>)"
proof -
  have same: "k' = k" if "dom m \<subseteq> ids" "m k' = Some r" "slot_name io k' = slot_name io k"
    for m :: "string \<rightharpoonup> 'r" and k' r
    using inj_onD [OF inj that(3) _ k] that(1,2) by blast
  show "holds io sha key (apply_effect (RemoveFile Reservations (slot_name io k)) d) (v\<lparr>v_res := (v_res v)(k := None)\<rparr>)"
    using h ids same [of "v_res v"] by (auto simp: holds_def ids_inv_def intro!: holds_slots_remove)
  show "holds io sha key (apply_effect (RemoveFile Prepared (slot_name io k)) d) (v\<lparr>v_prep := (v_prep v)(k := None)\<rparr>)"
    using h ids same [of "v_prep v"] by (auto simp: holds_def ids_inv_def intro!: holds_slots_remove)
  show "holds io sha key (apply_effect (RemoveFile Staged (slot_name io k)) d) (v\<lparr>v_stg := (v_stg v)(k := None)\<rparr>)"
    using h ids same [of "v_stg v"] by (auto simp: holds_def ids_inv_def intro!: holds_slots_remove)
  show "holds io sha key (apply_effect (RemoveFile Acks (slot_name io k)) d) (v\<lparr>v_ack := (v_ack v)(k := None)\<rparr>)"
    using h ids same [of "v_ack v"] by (auto simp: holds_def ids_inv_def intro!: holds_slots_remove)
qed

subsection \<open>How each record extends the view\<close>

lemma disk_inv_res:
  "disk_inv io s key ids d v chain \<Longrightarrow> v_res v k = Some r \<Longrightarrow>
     round_verify_historical_v2 (io_crypto io) (rv_request r) (body s) key = Inr () \<and> k \<in> ids"
  unfolding disk_inv_def phases_inv_def ids_inv_def by blast

lemma disk_inv_prep:
  "disk_inv io s key ids d v chain \<Longrightarrow> v_prep v k = Some p \<Longrightarrow> v_tomb v k = None \<Longrightarrow>
     \<exists>r. v_res v k = Some r
       \<and> intent_sha256_v2 (io_crypto io) (rv_request r) = Inr (pr_request_intent_sha256 p)
       \<and> verify_against_v2 (io_crypto io) (pr_result p) (rv_request r) (body s) = Inr ()"
  unfolding disk_inv_def phases_inv_def by blast

lemma disk_inv_stg:
  "disk_inv io s key ids d v chain \<Longrightarrow> v_stg v k = Some g \<Longrightarrow> v_tomb v k = None \<Longrightarrow>
     \<exists>p. v_prep v k = Some p \<and> sg_request_intent_sha256 g = pr_request_intent_sha256 p
       \<and> result_record_digest (io_crypto io) (pr_result p) = Inr (sg_result_sha256 g)
       \<and> validate_stage_receipt io (sg_renderer g) (pr_result p) = Inr () \<and> frags_ok io d (pr_result p)"
  unfolding disk_inv_def phases_inv_def by blast

lemma disk_inv_inactive:
  "disk_inv io s key ids d v chain \<Longrightarrow> v_act v k = None \<Longrightarrow> v_tomb v k = None \<and> v_ack v k = None"
  unfolding disk_inv_def retry_inv_def by (metis not_None_eq)

lemma disk_inv_prepared_commit:
  "disk_inv io s key ids d v chain \<Longrightarrow> c \<in> set chain \<Longrightarrow> v_tomb v (cm_id c) = None \<Longrightarrow>
     \<exists>p. v_prep v (cm_id c) = Some p \<and> pr_result p = cm_result c"
  unfolding disk_inv_def child_inv_def by blast

lemma disk_inv_active:
  "disk_inv io s key ids d v chain \<Longrightarrow> v_act v k = Some a \<Longrightarrow>
     \<exists>c\<in>set chain. cm_id c = k \<and> active_ok io a c"
  unfolding disk_inv_def chain_inv_def by blast

lemma disk_inv_child:
  "disk_inv io s key ids d v chain \<Longrightarrow> v_res v k = Some r \<Longrightarrow> v_act v k = None \<Longrightarrow>
     pos_match io (pos_after (genesis_pos s) (active_part v chain)) (rv_request r)"
  "disk_inv io s key ids d v chain \<Longrightarrow> v_res v k \<noteq> None \<Longrightarrow> v_act v k = None \<Longrightarrow>
     v_res v k' \<noteq> None \<Longrightarrow> v_act v k' = None \<Longrightarrow> k = k'"
  unfolding disk_inv_def child_inv_def by blast+

lemma disk_inv_frags:
  assumes "disk_inv io s key ids d v chain" "\<And>r. frags_ok io d r \<Longrightarrow> frags_ok io d' r"
  shows "disk_inv io s key ids d' v chain"
proof -
  have "chain_inv io s key d' v chain" using assms unfolding disk_inv_def chain_inv_def by blast
  moreover have "phases_inv io s key d' v" using assms unfolding disk_inv_def phases_inv_def by blast
  ultimately show ?thesis using assms(1) by (simp add: disk_inv_def)
qed

lemma disk_inv_reserve:
  assumes inv: "disk_inv io s key ids d v chain" and old: "v_res v k = None \<or> v_res v k = Some r"
    and ver: "round_verify_historical_v2 (io_crypto io) (rv_request r) (body s) key = Inr ()"
    and pos: "pos_match io (pos_after (genesis_pos s) (active_part v chain)) (rv_request r)"
    and uniq: "\<And>k'. v_res v k' \<noteq> None \<Longrightarrow> v_act v k' = None \<Longrightarrow> k' = k" and k: "k \<in> ids"
  shows "disk_inv io s key ids d (v\<lparr>v_res := (v_res v)(k \<mapsto> r)\<rparr>) chain"
proof -
  let ?v = "v\<lparr>v_res := (v_res v)(k \<mapsto> r)\<rparr>"
  have "chain_inv io s key d ?v chain" using inv by (simp add: disk_inv_def chain_inv_def)
  moreover have "phases_inv io s key d ?v"
    unfolding phases_inv_def
  proof (intro conjI allI impI)
    fix k' r' assume "v_res ?v k' = Some r'"
    then show "round_verify_historical_v2 (io_crypto io) (rv_request r') (body s) key = Inr ()"
      using inv ver by (cases "k' = k") (auto simp: disk_inv_def phases_inv_def)
  next
    fix k' p assume "v_prep ?v k' = Some p" "v_tomb ?v k' = None"
    then obtain r' where "v_res v k' = Some r'"
        "intent_sha256_v2 (io_crypto io) (rv_request r') = Inr (pr_request_intent_sha256 p)"
        "verify_against_v2 (io_crypto io) (pr_result p) (rv_request r') (body s) = Inr ()"
      using disk_inv_prep [OF inv, of k' p] by auto
    then show "\<exists>r'. v_res ?v k' = Some r'
        \<and> intent_sha256_v2 (io_crypto io) (rv_request r') = Inr (pr_request_intent_sha256 p)
        \<and> verify_against_v2 (io_crypto io) (pr_result p) (rv_request r') (body s) = Inr ()"
      using old by (intro exI [of _ r']) auto
  qed (use inv in \<open>simp add: disk_inv_def phases_inv_def\<close>)
  moreover have "child_inv io s ?v chain"
    using inv pos uniq by (auto simp: disk_inv_def child_inv_def active_part_def)
  ultimately show ?thesis using inv k by (auto simp: disk_inv_def retry_inv_def ids_inv_def)
qed

lemma disk_inv_prepare:
  assumes inv: "disk_inv io s key ids d v chain" and old: "v_prep v k = None \<or> v_prep v k = Some p"
    and r: "v_res v k = Some r"
      "intent_sha256_v2 (io_crypto io) (rv_request r) = Inr (pr_request_intent_sha256 p)"
      "verify_against_v2 (io_crypto io) (pr_result p) (rv_request r) (body s) = Inr ()"
  shows "disk_inv io s key ids d (v\<lparr>v_prep := (v_prep v)(k \<mapsto> p)\<rparr>) chain"
proof -
  let ?v = "v\<lparr>v_prep := (v_prep v)(k \<mapsto> p)\<rparr>"
  have "phases_inv io s key d ?v"
    unfolding phases_inv_def
  proof (intro conjI allI impI)
    fix k' p' assume "v_prep ?v k' = Some p'" "v_tomb ?v k' = None"
    then show "\<exists>r'. v_res ?v k' = Some r'
        \<and> intent_sha256_v2 (io_crypto io) (rv_request r') = Inr (pr_request_intent_sha256 p')
        \<and> verify_against_v2 (io_crypto io) (pr_result p') (rv_request r') (body s) = Inr ()"
      using disk_inv_prep [OF inv, of k' p'] r by (cases "k' = k") auto
  next
    fix k' g assume g: "v_stg ?v k' = Some g" "v_tomb ?v k' = None"
    then obtain p' where "v_prep v k' = Some p'" "sg_request_intent_sha256 g = pr_request_intent_sha256 p'"
        "result_record_digest (io_crypto io) (pr_result p') = Inr (sg_result_sha256 g)"
        "validate_stage_receipt io (sg_renderer g) (pr_result p') = Inr ()" "frags_ok io d (pr_result p')"
      using disk_inv_stg [OF inv, of k' g] by auto
    then show "\<exists>p'. v_prep ?v k' = Some p' \<and> sg_request_intent_sha256 g = pr_request_intent_sha256 p'
        \<and> result_record_digest (io_crypto io) (pr_result p') = Inr (sg_result_sha256 g)
        \<and> validate_stage_receipt io (sg_renderer g) (pr_result p') = Inr () \<and> frags_ok io d (pr_result p')"
      using old by (intro exI [of _ p']) auto
  qed (use inv in \<open>simp add: disk_inv_def phases_inv_def\<close>)
  moreover have "child_inv io s ?v chain"
    unfolding child_inv_def
  proof (intro conjI ballI impI)
    fix c assume c: "c \<in> set chain" "v_tomb ?v (cm_id c) = None"
    then obtain p' where "v_prep v (cm_id c) = Some p'" "pr_result p' = cm_result c"
      using disk_inv_prepared_commit [OF inv, of c] by auto
    then show "\<exists>p'. v_prep ?v (cm_id c) = Some p' \<and> pr_result p' = cm_result c"
      using old by (intro exI [of _ p']) auto
  qed (use inv in \<open>simp_all add: disk_inv_def child_inv_def active_part_def\<close>)
  ultimately show ?thesis using inv r(1) by (auto simp: disk_inv_def chain_inv_def retry_inv_def ids_inv_def)
qed

lemma disk_inv_stage:
  assumes inv: "disk_inv io s key ids d v chain"
    and p: "v_prep v k = Some p" "sg_request_intent_sha256 g = pr_request_intent_sha256 p"
      "result_record_digest (io_crypto io) (pr_result p) = Inr (sg_result_sha256 g)"
      "validate_stage_receipt io (sg_renderer g) (pr_result p) = Inr ()" "frags_ok io d (pr_result p)"
  shows "disk_inv io s key ids d (v\<lparr>v_stg := (v_stg v)(k \<mapsto> g)\<rparr>) chain"
proof -
  let ?v = "v\<lparr>v_stg := (v_stg v)(k \<mapsto> g)\<rparr>"
  have "phases_inv io s key d ?v"
    unfolding phases_inv_def
  proof (intro conjI allI impI)
    fix k' g' assume "v_stg ?v k' = Some g'" "v_tomb ?v k' = None"
    then show "\<exists>p'. v_prep ?v k' = Some p' \<and> sg_request_intent_sha256 g' = pr_request_intent_sha256 p'
        \<and> result_record_digest (io_crypto io) (pr_result p') = Inr (sg_result_sha256 g')
        \<and> validate_stage_receipt io (sg_renderer g') (pr_result p') = Inr () \<and> frags_ok io d (pr_result p')"
      using disk_inv_stg [OF inv, of k' g'] p by (cases "k' = k") auto
  qed (use inv in \<open>simp_all add: disk_inv_def phases_inv_def\<close>)
  moreover have "chain_inv io s key d ?v chain" using inv by (simp add: disk_inv_def chain_inv_def)
  moreover have "child_inv io s ?v chain"
    using inv by (simp add: disk_inv_def child_inv_def active_part_def)
  moreover have "ids_inv ids ?v" using inv p(1) by (auto simp: disk_inv_def ids_inv_def)
  ultimately show ?thesis using inv by (simp add: disk_inv_def retry_inv_def)
qed

lemma disk_inv_commit:
  assumes inv: "disk_inv io s key ids d v chain"
    and all: "\<forall>c\<in>set chain. v_act v (cm_id c) \<noteq> None"
    and new: "cm_id c \<notin> cm_id ` set chain" "v_act v (cm_id c) = None"
    and pos: "pos_match io (pos_after (genesis_pos s) chain) (cm_request c)"
    and ok: "commit_ok io s key c" "frags_ok io d (cm_result c)" "cm_id c \<in> ids"
    and p: "v_prep v (cm_id c) = Some p" "pr_result p = cm_result c"
  shows "disk_inv io s key ids d (v\<lparr>v_cmt := (v_cmt v)(cm_id c \<mapsto> c)\<rparr>) (chain @ [c])"
proof -
  let ?v = "v\<lparr>v_cmt := (v_cmt v)(cm_id c \<mapsto> c)\<rparr>"
  have part: "active_part ?v (chain @ [c]) = active_part v chain"
    using new(2) by (simp add: active_part_def)
  have "chain_inv io s key d ?v (chain @ [c])"
    unfolding chain_inv_def
  proof (intro conjI)
    show "v_cmt ?v = commit_map (chain @ [c])"
      using inv new(1) by (simp add: commit_map_snoc disk_inv_def chain_inv_def)
    show "linked_from io (genesis_pos s) (chain @ [c])"
      using inv pos by (simp add: linked_from_append disk_inv_def chain_inv_def)
    show "\<forall>k a. v_act ?v k = Some a \<longrightarrow> (\<exists>ca\<in>set (chain @ [c]). cm_id ca = k \<and> active_ok io a ca)"
    proof (intro allI impI)
      fix k a assume "v_act ?v k = Some a"
      then have "v_act v k = Some a" by simp
      then obtain e where "e \<in> set chain" "cm_id e = k" "active_ok io a e"
        using inv unfolding disk_inv_def chain_inv_def by blast
      then show "\<exists>ca\<in>set (chain @ [c]). cm_id ca = k \<and> active_ok io a ca" by auto
    qed
  qed (use inv all new ok in \<open>auto simp: disk_inv_def chain_inv_def\<close>)
  moreover have "retry_inv io ?v (chain @ [c])"
    using inv disk_inv_inactive [OF inv new(2)] by (auto simp: disk_inv_def retry_inv_def)
  moreover have "child_inv io s ?v (chain @ [c])"
    using inv p unfolding child_inv_def part by (auto simp: disk_inv_def child_inv_def)
  ultimately show ?thesis
    using inv ok(3) by (auto simp: disk_inv_def phases_inv_def ids_inv_def)
qed

lemma retry_inv_mono:
  assumes "retry_inv io v chain" "v_ack v' = v_ack v" "v_tomb v' = v_tomb v"
    and "\<And>k. v_act v k \<noteq> None \<Longrightarrow> v_act v' k \<noteq> None"
  shows "retry_inv io v' chain"
  using assms(1,4) unfolding retry_inv_def assms(2,3) by metis

lemma disk_inv_activate:
  assumes inv: "disk_inv io s key ids d v (cs @ [c])" and c: "v_act v (cm_id c) = None"
    and a: "active_ok io a c"
  shows "disk_inv io s key ids d (v\<lparr>v_act := (v_act v)(cm_id c \<mapsto> a)\<rparr>) (cs @ [c])"
    and "active_part (v\<lparr>v_act := (v_act v)(cm_id c \<mapsto> a)\<rparr>) (cs @ [c]) = cs @ [c]"
    and "find (\<lambda>e. v_act (v\<lparr>v_act := (v_act v)(cm_id c \<mapsto> a)\<rparr>) (cm_id e) = None) (cs @ [c]) = None"
    and "\<exists>r p. v_res v (cm_id c) = Some r \<and> v_prep v (cm_id c) = Some p \<and> pr_result p = cm_result c"
proof -
  let ?v = "v\<lparr>v_act := (v_act v)(cm_id c \<mapsto> a)\<rparr>"
  have ci: "chain_inv io s key d v (cs @ [c])" using inv by (simp add: disk_inv_def)
  have cs: "\<forall>e\<in>set cs. v_act v (cm_id e) \<noteq> None" using ci by (simp add: chain_inv_def)
  then show part: "active_part ?v (cs @ [c]) = cs @ [c]" by (auto simp: active_part_def)
  show "find (\<lambda>e. v_act ?v (cm_id e) = None) (cs @ [c]) = None"
    using cs by (auto simp: find_None_iff)
  have tomb: "v_tomb v (cm_id c) = None" using disk_inv_inactive [OF inv c] by simp
  show own: "\<exists>r p. v_res v (cm_id c) = Some r \<and> v_prep v (cm_id c) = Some p \<and> pr_result p = cm_result c"
    using disk_inv_prepared_commit [OF inv _ tomb] disk_inv_prep [OF inv _ tomb] by fastforce
  have "chain_inv io s key d ?v (cs @ [c])"
    unfolding chain_inv_def
  proof (intro conjI)
    show "\<forall>k b. v_act ?v k = Some b \<longrightarrow> (\<exists>e\<in>set (cs @ [c]). cm_id e = k \<and> active_ok io b e)"
    proof (intro allI impI)
      fix k b assume b: "v_act ?v k = Some b"
      show "\<exists>e\<in>set (cs @ [c]). cm_id e = k \<and> active_ok io b e"
      proof (cases "k = cm_id c")
        case True
        with a b show ?thesis by (intro bexI [of _ c]) auto
      next
        case False
        with b disk_inv_active [OF inv, of k b] show ?thesis by simp
      qed
    qed
  qed (use ci in \<open>auto simp: chain_inv_def\<close>)
  moreover have "child_inv io s ?v (cs @ [c])"
  proof -
    have gone: "v_res v k = None" if "v_act ?v k = None" for k
    proof (rule ccontr)
      assume "v_res v k \<noteq> None"
      moreover have "k \<noteq> cm_id c" "v_act v k = None" using that by (simp_all split: if_splits)
      moreover have "v_res v (cm_id c) \<noteq> None" using own by auto
      ultimately show False using disk_inv_child(2) [OF inv] c by metis
    qed
    show ?thesis
      unfolding child_inv_def
    proof (intro conjI ballI allI impI)
      fix e assume "e \<in> set (cs @ [c])" "v_tomb ?v (cm_id e) = None"
      then show "\<exists>p. v_prep ?v (cm_id e) = Some p \<and> pr_result p = cm_result e"
        using disk_inv_prepared_commit [OF inv] by simp
    next
      fix k r assume "v_res ?v k = Some r" "v_act ?v k = None"
      with gone [of k] show "pos_match io (pos_after (genesis_pos s) (active_part ?v (cs @ [c]))) (rv_request r)"
        by simp
    next
      fix k k' assume "v_res ?v k \<noteq> None" "v_act ?v k = None"
      with gone [of k] show "k = k'" by simp
    qed
  qed
  moreover have "retry_inv io ?v (cs @ [c])"
  proof (rule retry_inv_mono)
    show "retry_inv io v (cs @ [c])" using inv by (simp add: disk_inv_def)
  qed auto
  ultimately show "disk_inv io s key ids d ?v (cs @ [c])"
    using inv by (simp add: disk_inv_def phases_inv_def ids_inv_def)
qed

lemma disk_inv_ack:
  assumes inv: "disk_inv io s key ids d v chain" and act: "v_act v k \<noteq> None" and k: "k \<in> ids"
    and a: "\<And>c. c \<in> set chain \<Longrightarrow> cm_id c = k \<Longrightarrow>
          result_record_digest (io_crypto io) (cm_result c) = Inr (ak_result_sha256 a)
          \<and> ak_applied_head_sha256 a = o2_new_head_sha256 (body (cm_result c))"
  shows "disk_inv io s key ids d (v\<lparr>v_ack := (v_ack v)(k \<mapsto> a)\<rparr>) chain"
proof -
  let ?v = "v\<lparr>v_ack := (v_ack v)(k \<mapsto> a)\<rparr>"
  have r: "retry_inv io v chain" using inv by (simp add: disk_inv_def)
  have "retry_inv io ?v chain"
    unfolding retry_inv_def
  proof (intro conjI allI impI)
    fix k' a' assume k': "v_ack ?v k' = Some a'"
    show "v_act ?v k' \<noteq> None" "\<forall>c\<in>set chain. cm_id c = k' \<longrightarrow>
        result_record_digest (io_crypto io) (cm_result c) = Inr (ak_result_sha256 a')
        \<and> ak_applied_head_sha256 a' = o2_new_head_sha256 (body (cm_result c))"
      using r act a k' by (cases "k' = k"; simp add: retry_inv_def)+
  qed (use r in \<open>simp_all add: retry_inv_def\<close>)
  moreover have "ids_inv ids ?v" using inv k by (auto simp: disk_inv_def ids_inv_def)
  ultimately show ?thesis
    using inv by (simp add: disk_inv_def chain_inv_def phases_inv_def child_inv_def active_part_def)
qed

lemma disk_inv_tomb:
  assumes inv: "disk_inv io s key ids d v chain" and act: "v_act v k \<noteq> None"
    and a: "\<And>c. c \<in> set chain \<Longrightarrow> cm_id c = k \<Longrightarrow>
          result_record_digest (io_crypto io) (cm_result c) = Inr (tb_result_sha256 a)"
  shows "disk_inv io s key ids d (v\<lparr>v_tomb := (v_tomb v)(k \<mapsto> a)\<rparr>) chain"
proof -
  let ?v = "v\<lparr>v_tomb := (v_tomb v)(k \<mapsto> a)\<rparr>"
  have r: "retry_inv io v chain" using inv by (simp add: disk_inv_def)
  have "retry_inv io ?v chain"
    unfolding retry_inv_def
  proof (intro conjI allI impI)
    fix k' a' assume k': "v_tomb ?v k' = Some a'"
    show "v_act ?v k' \<noteq> None" "\<forall>c\<in>set chain. cm_id c = k' \<longrightarrow>
        result_record_digest (io_crypto io) (cm_result c) = Inr (tb_result_sha256 a')"
      using r act a k' by (cases "k' = k"; simp add: retry_inv_def)+
  qed (use r in \<open>simp_all add: retry_inv_def\<close>)
  moreover have "chain_inv io s key d ?v chain"
    using inv by (simp add: disk_inv_def chain_inv_def)
  moreover have "phases_inv io s key d ?v"
    using inv by (simp add: disk_inv_def phases_inv_def)
  moreover have "child_inv io s ?v chain"
    using inv by (simp add: disk_inv_def child_inv_def active_part_def)
  ultimately show ?thesis using inv by (simp add: disk_inv_def ids_inv_def)
qed

text \<open>The evidence of a retired request may go, in any order.\<close>

lemma disk_inv_drop:
  assumes inv: "disk_inv io s key ids d v chain" and k: "v_tomb v k \<noteq> None"
  shows "disk_inv io s key ids d (v\<lparr>v_res := (v_res v)(k := None)\<rparr>) chain"
    "disk_inv io s key ids d (v\<lparr>v_prep := (v_prep v)(k := None)\<rparr>) chain"
    "disk_inv io s key ids d (v\<lparr>v_stg := (v_stg v)(k := None)\<rparr>) chain"
    "disk_inv io s key ids d (v\<lparr>v_ack := (v_ack v)(k := None)\<rparr>) chain"
proof -
  note parts = inv [unfolded disk_inv_def]
  have ph: "phases_inv io s key d (v\<lparr>v_res := (v_res v)(k := None)\<rparr>)"
    "phases_inv io s key d (v\<lparr>v_prep := (v_prep v)(k := None)\<rparr>)"
    "phases_inv io s key d (v\<lparr>v_stg := (v_stg v)(k := None)\<rparr>)"
    using parts k unfolding phases_inv_def by (auto simp: fun_upd_def)
  have ch: "child_inv io s (v\<lparr>v_res := (v_res v)(k := None)\<rparr>) chain"
    "child_inv io s (v\<lparr>v_prep := (v_prep v)(k := None)\<rparr>) chain"
    using parts k by (auto simp: child_inv_def active_part_def)
  have rt: "retry_inv io (v\<lparr>v_ack := (v_ack v)(k := None)\<rparr>) chain"
    using parts by (simp add: retry_inv_def)
  show "disk_inv io s key ids d (v\<lparr>v_res := (v_res v)(k := None)\<rparr>) chain"
    using parts ph(1) ch(1) by (auto simp: disk_inv_def chain_inv_def retry_inv_def ids_inv_def)
  show "disk_inv io s key ids d (v\<lparr>v_prep := (v_prep v)(k := None)\<rparr>) chain"
    using parts ph(2) ch(2) by (auto simp: disk_inv_def chain_inv_def retry_inv_def ids_inv_def)
  show "disk_inv io s key ids d (v\<lparr>v_stg := (v_stg v)(k := None)\<rparr>) chain"
    using parts ph(3) by (auto simp: disk_inv_def chain_inv_def retry_inv_def child_inv_def active_part_def ids_inv_def)
  show "disk_inv io s key ids d (v\<lparr>v_ack := (v_ack v)(k := None)\<rparr>) chain"
    using parts rt by (auto simp: disk_inv_def chain_inv_def phases_inv_def child_inv_def active_part_def ids_inv_def)
qed

end
