(* ===== verification/Journal_Correct.thy ===== *)
theory Journal_Correct
  imports Journal_Disk
begin

section \<open>The journal survives crashes\<close>

text \<open>
  Every operation of the journal keeps the invariant of \<open>Journal_Recovery\<close>, at its end and at every
  cut of its effects that does not tear a slot file, so that a crash at any such point leaves a disk
  that opens again to the position before the operation or after its commit.
\<close>

subsection \<open>What an operation keeps\<close>

definition good :: "journal_io \<Rightarrow> auth_session_v2 \<Rightarrow> bytes \<Rightarrow> string \<Rightarrow> string set \<Rightarrow> string set \<Rightarrow> commit_record list \<Rightarrow> disk \<Rightarrow> bool" where
  "good io s key sha ids A chain d \<longleftrightarrow> 
     (\<exists>v. holds io sha key d v \<and> disk_inv io s key ids d v chain \<and> A \<subseteq> dom (v_act v))"

definition synced ::
  "journal_io \<Rightarrow> auth_session_v2 \<Rightarrow> bytes \<Rightarrow> string \<Rightarrow> string set \<Rightarrow> string set \<Rightarrow> commit_record list \<Rightarrow> journal \<Rightarrow> disk \<Rightarrow> bool" where
  "synced io s key sha ids A chain j d \<longleftrightarrow>
     (\<exists>v. holds io sha key d v \<and> disk_inv io s key ids d v chain \<and> mem_inv s key sha v chain j
        \<and> A \<subseteq> dom (v_act v))"

definition keeps ::
  "journal_io \<Rightarrow> auth_session_v2 \<Rightarrow> bytes \<Rightarrow> string \<Rightarrow> string set \<Rightarrow> string set \<Rightarrow> commit_record list \<Rightarrow> disk \<Rightarrow> journal
     \<Rightarrow> effect list \<Rightarrow> bool" where
  "keeps io s key sha ids A chain d j' es \<longleftrightarrow>
     all_safe (\<lambda>d'. \<exists>cs. good io s key sha ids A (chain @ cs) d') es d
     \<and> (\<exists>cs. synced io s key sha ids A (chain @ cs) j' (run_effects es d))"

lemma synced_good: "synced io s key sha ids A chain j d \<Longrightarrow> good io s key sha ids A chain d"
  by (auto simp: synced_def good_def)

lemma good_extends: "good io s key sha ids A chain d \<Longrightarrow> \<exists>cs. good io s key sha ids A (chain @ cs) d"
  by (intro exI [of _ "[]"]) simp

lemma keeps_nothing: "synced io s key sha ids A chain j d \<Longrightarrow> keeps io s key sha ids A chain d j []"
  unfolding keeps_def by (metis all_safe_Nil append_Nil2 run_effects_simps(1) synced_good)

lemma keeps_put:
  assumes "synced io s key sha ids A chain j d" "puts dir es" "dir \<noteq> Fragments"
    and "holds io sha key (run_effects es d) v" "disk_inv io s key ids (run_effects es d) v (chain @ cs)"
    and "mem_inv s key sha v (chain @ cs) j'" "A \<subseteq> dom (v_act v)"
  shows "keeps io s key sha ids A chain d j' es"
proof -
  have "synced io s key sha ids A (chain @ cs) j' (run_effects es d)"
    using assms(4-7) by (auto simp: synced_def)
  moreover have "\<exists>cs. good io s key sha ids A (chain @ cs) d"
    using synced_good [OF assms(1)] by (metis append_Nil2)
  ultimately show ?thesis
    unfolding keeps_def using puts_safe [OF assms(2,3)] synced_good by metis
qed

text \<open>Two steps in a row.\<close>

lemma keeps_append:
  assumes "keeps io s key sha ids A chain d j1 es1"
    and "\<And>cs. synced io s key sha ids A (chain @ cs) j1 (run_effects es1 d) \<Longrightarrow>
           keeps io s key sha ids A (chain @ cs) (run_effects es1 d) j2 es2"
  shows "keeps io s key sha ids A chain d j2 (es1 @ es2)"
proof -
  from assms(1) obtain cs where
      1: "all_safe (\<lambda>d'. \<exists>cs. good io s key sha ids A (chain @ cs) d') es1 d"
    and 2: "synced io s key sha ids A (chain @ cs) j1 (run_effects es1 d)" by (auto simp: keeps_def)
  from assms(2) [OF 2] obtain ds where
      3: "all_safe (\<lambda>d'. \<exists>cs'. good io s key sha ids A ((chain @ cs) @ cs') d') es2 (run_effects es1 d)"
    and 4: "synced io s key sha ids A ((chain @ cs) @ ds) j2 (run_effects es2 (run_effects es1 d))"
    by (auto simp: keeps_def)
  have "all_safe (\<lambda>d'. \<exists>cs. good io s key sha ids A (chain @ cs) d') es2 (run_effects es1 d)"
    using 3 by (rule all_safe_mono) (metis append_assoc)
  with 1 have "all_safe (\<lambda>d'. \<exists>cs. good io s key sha ids A (chain @ cs) d') (es1 @ es2) d"
    by (rule all_safe_append)
  moreover have "\<exists>cs. synced io s key sha ids A (chain @ cs) j2 (run_effects (es1 @ es2) d)"
    using 4 by (auto intro: exI [of _ "cs @ ds"])
  ultimately show ?thesis by (simp add: keeps_def)
qed

lemma unchanged_iff:
  "unchanged j m = (res, j', es) \<longleftrightarrow>
     (\<exists>e. m = Inl e \<and> res = Inl e \<and> j' = j \<and> es = []) \<or> (\<exists>a. m = Inr (a, j', es) \<and> res = Inr a)"
  by (auto simp: unchanged_def split: sum.splits)

lemma mem_inv_simps:
  assumes "mem_inv s key sha v chain j"
  shows "j_key j = key" "j_session j = s" "j_session_record_sha256 j = sha"
    "pos_of j = pos_after (genesis_pos s) (active_part v chain)"
    "j_pending_activation j = find (\<lambda>c. v_act v (cm_id c) = None) chain"
    "map_of (j_tombstones j) = v_tomb v"
  using assms by (simp_all add: mem_inv_def)

lemma mirrors_get: "mirrors v m f \<Longrightarrow> map_of m k = Some r \<Longrightarrow> f k = Some r \<and> v_tomb v k = None"
  by (metis (no_types, lifting) domI map_le_def mirrors_def option.distinct(1))

lemma mirrors_inactive: "mirrors v m f \<Longrightarrow> v_act v k = None \<Longrightarrow> map_of m k = f k"
  by (simp add: mirrors_def)

lemma mirrors_insert:
  assumes "mirrors v m f" "v_tomb v k = None" "f k = None \<or> f k = Some r"
    and "v_act v' = v_act v" "v_tomb v' = v_tomb v"
  shows "mirrors v' (bt_insert k r m) (f(k \<mapsto> r))"
  using assms by (auto simp: mirrors_def map_le_def dom_def)

lemma mirrors_cong:
  "mirrors v m f \<Longrightarrow> v_act v' = v_act v \<Longrightarrow> v_tomb v' = v_tomb v \<Longrightarrow> mirrors v' m f"
  by (simp add: mirrors_def)

text \<open>A request that is neither retired nor completed in memory has no active decision.\<close>

lemma not_completed_inactive:
  assumes "disk_inv io s key ids d v chain" "mem_inv s key sha v chain j"
    and "map_of (j_completions j) k = None" "v_tomb v k = None"
  shows "v_act v k = None"
proof (rule ccontr)
  assume "v_act v k \<noteq> None"
  with disk_inv_active [OF assms(1)] obtain c where c: "c \<in> set chain" "cm_id c = k" by auto
  with assms \<open>v_act v k \<noteq> None\<close> have "map_of (j_completions j) k = Some (cm_result c)"
    by (auto simp: mem_inv_def completions_inv_def)
  with assms(3) show False by simp
qed

subsection \<open>Reserving\<close>

lemma reserve_cases:
  assumes "reserve io j d request permits now = (res, j', es)"
  shows "j' = j \<and> es = []
    \<or> (\<exists>r. r = \<lparr>rv_request = request, rv_reserved_unix_ms = now\<rparr>
        \<and> j' = j\<lparr>j_reservations := bt_insert (r2_request_id (body request)) r (j_reservations j)\<rparr>
        \<and> write_slot io j d Reservations (r2_request_id (body request)) ''reservation''
            (fst (io_reservation io)) r = Inr es
        \<and> j_pending_activation j = None
        \<and> round_verify_historical_v2 (io_crypto io) request (body (j_session j)) (j_key j) = Inr ()
        \<and> (\<forall>t. map_of (j_tombstones j) (r2_request_id (body request)) = Some t \<longrightarrow>
             tb_request_id t \<noteq> r2_request_id (body request))
        \<and> map_of (j_completions j) (r2_request_id (body request)) = None
        \<and> map_of (j_reservations j) (r2_request_id (body request)) = None
        \<and> matches_current_parent io j request
        \<and> \<not> list_ex (\<lambda>(_, q). r2_base_head_sha256 (body (rv_request q)) = j_head_sha256 j
             \<and> rv_id q \<noteq> r2_request_id (body request)) (j_reservations j))"
proof (cases "j' = j \<and> es = []")
  case False
  let ?k = "r2_request_id (body request)"
  from assms False obtain a intent where
      p: "j_pending_activation j = None"
    and ver: "round_verify_historical_v2 (io_crypto io) request (body (j_session j)) (j_key j) = Inr ()"
    and tomb: "(case map_of (j_tombstones j) ?k of
                  Some tombstone \<Rightarrow> ensure (tb_request_id tombstone \<noteq> ?k) ResyncRequired
                | None \<Rightarrow> Inr ()) = Inr ()"
    and rest: "(case map_of (j_completions j) ?k of
        Some result \<Rightarrow>
          if o2_request_intent_sha256 (body result) \<noteq> intent then Inl ChangedIntentV2
          else Inr (Replay result, j, [])
      | None \<Rightarrow>
      case map_of (j_prepared j) ?k of
        Some p \<Rightarrow>
          if pr_request_intent_sha256 p \<noteq> intent then Inl ChangedIntentV2
          else Inr (PreparedOutcome (pr_result p), j, [])
      | None \<Rightarrow>
      case map_of (j_reservations j) ?k of
        Some reservation \<Rightarrow>
          bind_res (intent_sha256_v2 (io_crypto io) (rv_request reservation)) (\<lambda>reserved_intent.
            if reserved_intent \<noteq> intent then Inl ChangedIntentV2 else Inr (Reserved, j, []))
      | None \<Rightarrow> reserve_new io j d request permits now) = Inr (a, j', es)"
    unfolding reserve_def unchanged_iff Let_def bind_res_Inr_iff by (auto simp: bind_res_Inr_unit_iff)
  from rest False have c: "map_of (j_completions j) ?k = None" by (auto split: option.splits if_splits)
  with rest False have q: "map_of (j_prepared j) ?k = None" by (auto split: option.splits if_splits)
  with rest c False have r: "map_of (j_reservations j) ?k = None"
    by (auto simp: bind_res_Inr_iff split: option.splits if_splits)
  with rest c q have "reserve_new io j d request permits now = Inr (a, j', es)" by simp
  with False p ver tomb c r show ?thesis
    by (simp add: reserve_new_def Let_def bind_res_Inr_iff ensure_Inr_iff split: if_splits)
      (auto simp: ensure_Inr_iff)
qed simp

lemma reserve_keeps:
  assumes io: "io_ok io" and sy: "synced io s key sha ids A chain j d"
    and op: "reserve io j d request permits now = (res, j', es)"
    and f: "fits es" and k: "r2_request_id (body request) \<in> ids"
  shows "keeps io s key sha ids A chain d j' es"
proof -
  let ?k = "r2_request_id (body request)"
  define r where "r = \<lparr>rv_request = request, rv_reserved_unix_ms = now\<rparr>"
  from sy obtain v where v: "holds io sha key d v" "disk_inv io s key ids d v chain"
      "mem_inv s key sha v chain j" "A \<subseteq> dom (v_act v)" by (auto simp: synced_def)
  note m = mem_inv_simps [OF v(3)]
  from reserve_cases [OF op] show ?thesis
  proof (elim disjE exE conjE)
    assume "j' = j" "es = []"
    with keeps_nothing [OF sy] show ?thesis by simp
  next
    fix r0 assume r0: "r0 = \<lparr>rv_request = request, rv_reserved_unix_ms = now\<rparr>"
      and w: "write_slot io j d Reservations ?k ''reservation'' (fst (io_reservation io)) r0 = Inr es"
      and j': "j' = j\<lparr>j_reservations := bt_insert ?k r0 (j_reservations j)\<rparr>"
      and pend: "j_pending_activation j = None"
      and ver: "round_verify_historical_v2 (io_crypto io) request (body (j_session j)) (j_key j) = Inr ()"
      and tomb: "\<forall>t. map_of (j_tombstones j) ?k = Some t \<longrightarrow> tb_request_id t \<noteq> ?k"
      and comp: "map_of (j_completions j) ?k = None"
      and par: "matches_current_parent io j request"
      and busy: "\<not> list_ex (\<lambda>(_, q). r2_base_head_sha256 (body (rv_request q)) = j_head_sha256 j
             \<and> rv_id q \<noteq> ?k) (j_reservations j)"
    have rid: "rv_id r0 = ?k" "rv_request r0 = request" by (simp_all add: rv_id_def r0)
    from write_reservation [OF io v(1) m(3,1) w rid(1) f]
    have put: "puts Reservations es" and old: "v_res v ?k = None \<or> v_res v ?k = Some r0"
      and h: "holds io sha key (run_effects es d) (v\<lparr>v_res := (v_res v)(?k \<mapsto> r0)\<rparr>)" by simp_all
    have t: "v_tomb v ?k = None"
    proof (rule ccontr)
      assume "v_tomb v ?k \<noteq> None"
      then obtain t where "v_tomb v ?k = Some t" by auto
      moreover from this v(1) have "tb_request_id t = ?k"
        by (auto simp: holds_def dest: holds_slots_id)
      ultimately show False using tomb m(6) by auto
    qed
    have act: "v_act v ?k = None" by (rule not_completed_inactive [OF v(2,3) comp t])
    have mir: "mirrors v (j_reservations j) (v_res v)" using v(3) by (simp add: mem_inv_def)
    have uniq: "k' = ?k" if inact: "v_res v k' \<noteq> None" "v_act v k' = None" for k'
    proof -
      from inact obtain q where q: "v_res v k' = Some q" by auto
      have "map_of (j_reservations j) k' = Some q" using mirrors_inactive [OF mir inact(2)] q by simp
      then have "(k', q) \<in> set (j_reservations j)" by (rule map_of_SomeD)
      moreover have "r2_base_head_sha256 (body (rv_request q)) = j_head_sha256 j"
        using disk_inv_child(1) [OF v(2) q inact(2)] m(4) by (metis pos_match_def pos_of_def position.select_convs(3))
      moreover have "rv_id q = k'" using v(1) q by (auto simp: holds_def dest: holds_slots_id)
      ultimately show ?thesis using busy by (auto simp: list_ex_iff)
    qed
    have inv: "disk_inv io s key ids (run_effects es d) (v\<lparr>v_res := (v_res v)(?k \<mapsto> r0)\<rparr>) (chain @ [])"
    proof -
      have "disk_inv io s key ids (run_effects es d) v chain"
        using v(2) by (rule disk_inv_frags) (simp add: puts_frags [OF put])
      then show ?thesis
        using disk_inv_reserve [of io s key ids _ v chain ?k r0] old ver par uniq k m rid
        by (simp add: matches_pos)
    qed
    have "mem_inv s key sha (v\<lparr>v_res := (v_res v)(?k \<mapsto> r0)\<rparr>) (chain @ []) j'"
      using v(3) j' mirrors_insert [OF mir t old, of "v\<lparr>v_res := (v_res v)(?k \<mapsto> r0)\<rparr>"]
        mirrors_cong [of v _ _ "v\<lparr>v_res := (v_res v)(?k \<mapsto> r0)\<rparr>"]
      by (simp add: mem_inv_def active_part_def completions_inv_def mirrors_def)
    from keeps_put [OF sy put _ h inv this] v(4) show ?thesis by simp
  qed
qed

subsection \<open>Preparing and staging\<close>

lemma record_prepared_cases:
  assumes "record_prepared io j d request result permits now = (res, j', es)"
  shows "j' = j \<and> es = []
    \<or> (\<exists>p q. map_of (j_reservations j) (r2_request_id (body request)) = Some q \<and> rv_request q = request
        \<and> pr_result p = result
        \<and> intent_sha256_v2 (io_crypto io) request = Inr (pr_request_intent_sha256 p)
        \<and> verify_against_v2 (io_crypto io) result request (body (j_session j)) = Inr ()
        \<and> j' = j\<lparr>j_prepared := bt_insert (r2_request_id (body request)) p (j_prepared j)\<rparr>
        \<and> write_slot io j d Prepared (r2_request_id (body request)) ''prepared''
            (fst (io_prepared io)) p = Inr es)"
proof (cases "j' = j \<and> es = []")
  case False
  let ?k = "r2_request_id (body request)"
  from assms False obtain a intent q where
      ver: "verify_against_v2 (io_crypto io) result request (body (j_session j)) = Inr ()"
    and int: "intent_sha256_v2 (io_crypto io) request = Inr intent"
    and q: "map_of (j_reservations j) ?k = Some q"
    and rest: "(if rv_request q \<noteq> request \<or> \<not> matches_current_parent io j request then Inl StaleHeadV2
      else case map_of (j_prepared j) ?k of
        Some existing \<Rightarrow> if pr_result existing = result then Inr ((), j, []) else Inl ChangedIntentV2
      | None \<Rightarrow>
          let r = \<lparr>pr_request_intent_sha256 = intent, pr_result = result, pr_prepared_unix_ms = now\<rparr> in
          bind_res (write_slot io j d Prepared ?k ''prepared'' (fst (io_prepared io)) r) (\<lambda>es.
            Inr ((), j\<lparr>j_prepared := bt_insert ?k r (j_prepared j)\<rparr>, es))) = Inr (a, j', es)"
    unfolding record_prepared_def unchanged_iff Let_def bind_res_Inr_iff ok_or_Inr_iff
    by (auto simp: bind_res_Inr_unit_iff)
  from rest False have "map_of (j_prepared j) ?k = None" by (auto split: option.splits if_splits)
  with rest ver int q show ?thesis by (auto simp: Let_def bind_res_Inr_iff split: if_splits)
qed simp

lemma record_prepared_keeps:
  assumes io: "io_ok io" and sy: "synced io s key sha ids A chain j d"
    and op: "record_prepared io j d request result permits now = (res, j', es)" and f: "fits es"
  shows "keeps io s key sha ids A chain d j' es"
proof -
  let ?k = "r2_request_id (body request)"
  from sy obtain v where v: "holds io sha key d v" "disk_inv io s key ids d v chain"
      "mem_inv s key sha v chain j" "A \<subseteq> dom (v_act v)" by (auto simp: synced_def)
  note m = mem_inv_simps [OF v(3)]
  from record_prepared_cases [OF op] show ?thesis
  proof (elim disjE exE conjE)
    assume "j' = j" "es = []"
    with keeps_nothing [OF sy] show ?thesis by simp
  next
    fix p q assume q: "map_of (j_reservations j) ?k = Some q" "rv_request q = request"
      and p: "pr_result p = result" "intent_sha256_v2 (io_crypto io) request = Inr (pr_request_intent_sha256 p)"
        "verify_against_v2 (io_crypto io) result request (body (j_session j)) = Inr ()"
      and j': "j' = j\<lparr>j_prepared := bt_insert ?k p (j_prepared j)\<rparr>"
      and w: "write_slot io j d Prepared ?k ''prepared'' (fst (io_prepared io)) p = Inr es"
    have "pr_id p = ?k" using verified_request_id [OF p(3)] p(1) by (simp add: pr_id_def)
    from write_prepared [OF io v(1) m(3,1) w this f]
    have put: "puts Prepared es" and old: "v_prep v ?k = None \<or> v_prep v ?k = Some p"
      and h: "holds io sha key (run_effects es d) (v\<lparr>v_prep := (v_prep v)(?k \<mapsto> p)\<rparr>)" by simp_all
    have mir: "mirrors v (j_reservations j) (v_res v)" "mirrors v (j_prepared j) (v_prep v)"
      using v(3) by (simp_all add: mem_inv_def)
    from mirrors_get [OF mir(1) q(1)] have res: "v_res v ?k = Some q" and t: "v_tomb v ?k = None" by simp_all
    have inv: "disk_inv io s key ids (run_effects es d) (v\<lparr>v_prep := (v_prep v)(?k \<mapsto> p)\<rparr>) (chain @ [])"
    proof -
      have "disk_inv io s key ids (run_effects es d) v chain"
        using v(2) by (rule disk_inv_frags) (simp add: puts_frags [OF put])
      from disk_inv_prepare [OF this old res] p q(2) m(2) show ?thesis by simp
    qed
    have "mem_inv s key sha (v\<lparr>v_prep := (v_prep v)(?k \<mapsto> p)\<rparr>) (chain @ []) j'"
      using v(3) j' mirrors_insert [OF mir(2) t old, of "v\<lparr>v_prep := (v_prep v)(?k \<mapsto> p)\<rparr>"]
      by (simp add: mem_inv_def active_part_def completions_inv_def mirrors_def)
    from keeps_put [OF sy put _ h inv this] v(4) show ?thesis by simp
  qed
qed

lemma closure_frags_ok:
  assumes "closure_verify_result_v2 c closure result = Inr ()" "closure_ok_v2 c closure" "c = io_crypto io"
    and "\<forall>f\<in>set (c2_fragments closure).
           file_at d Fragments (fragment_name (d2_sha256 (f2_descriptor f))) = Some (f2_payload f)"
  shows "frags_ok io d result"
proof -
  have len: "length (c2_fragments closure) = length (o2_fragments (body result))"
    and nth: "\<forall>x\<in>set (zip (c2_fragments closure) (o2_fragments (body result))). f2_descriptor (fst x) = snd x"
    using assms(1) by (auto simp: closure_verify_result_v2_def bind_res_Inr_iff list_ex_iff)
  show ?thesis
    unfolding frags_ok_iff
  proof
    fix x assume "x \<in> set (o2_fragments (body result))"
    then obtain i where i: "i < length (o2_fragments (body result))" "x = o2_fragments (body result) ! i"
      by (auto simp: in_set_conv_nth)
    let ?f = "c2_fragments closure ! i"
    have "(?f, x) \<in> set (zip (c2_fragments closure) (o2_fragments (body result)))"
      using i len by (auto simp: in_set_zip)
    with nth have "f2_descriptor ?f = x" by fastforce
    moreover have "?f \<in> set (c2_fragments closure)" using i len by simp
    ultimately show "\<exists>p. file_at d Fragments (fragment_name (d2_sha256 x)) = Some p
        \<and> length p = d2_byte_len x \<and> sha256_hex (prim (io_crypto io)) p = d2_sha256 x"
      using assms(2-4) by (auto simp: closure_ok_v2_def list_all_iff)
  qed
qed

text \<open>Fragments that are written before anything refers to them do not matter to the journal.\<close>

lemma synced_add_fragment:
  assumes "synced io s key sha ids A chain j d" "file_at d Fragments name = None"
  shows "synced io s key sha ids A chain j (set_file Fragments name b d)"
proof -
  from assms(1) obtain v where v: "holds io sha key d v" "disk_inv io s key ids d v chain"
      "mem_inv s key sha v chain j" "A \<subseteq> dom (v_act v)" by (auto simp: synced_def)
  have "holds io sha key (set_file Fragments name b d) v"
    using v(1) by (subst holds_cong) simp_all
  moreover have "frags_ok io (set_file Fragments name b d) r" if "frags_ok io d r" for r
    unfolding frags_ok_iff
  proof
    fix x assume "x \<in> set (o2_fragments (body r))"
    with that obtain p where p: "file_at d Fragments (fragment_name (d2_sha256 x)) = Some p"
        "length p = d2_byte_len x" "sha256_hex (prim (io_crypto io)) p = d2_sha256 x"
      by (auto simp: frags_ok_iff)
    moreover have "fragment_name (d2_sha256 x) \<noteq> name" using p(1) assms(2) by auto
    ultimately show "\<exists>p. file_at (set_file Fragments name b d) Fragments (fragment_name (d2_sha256 x)) = Some p
        \<and> length p = d2_byte_len x \<and> sha256_hex (prim (io_crypto io)) p = d2_sha256 x" by simp
  qed
  then have "disk_inv io s key ids (set_file Fragments name b d) v chain" by (rule disk_inv_frags [OF v(2)])
  ultimately show ?thesis using v(3,4) by (auto simp: synced_def)
qed

lemma write_fragments_keeps:
  assumes "write_fragments d fs = (res, es)" "synced io s key sha ids A chain j d"
  shows "keeps io s key sha ids A chain d j es" "synced io s key sha ids A chain j (run_effects es d)"
    "res = Inr () \<Longrightarrow> \<forall>f\<in>set fs. file_at (run_effects es d) Fragments
       (fragment_name (d2_sha256 (f2_descriptor f))) = Some (f2_payload f)"
proof -
  have w: "all_safe (synced io s key sha ids A chain j) es d \<and> synced io s key sha ids A chain j (run_effects es d)
      \<and> (res = Inr () \<longrightarrow> (\<forall>f\<in>set fs. file_at (run_effects es d) Fragments
       (fragment_name (d2_sha256 (f2_descriptor f))) = Some (f2_payload f)))"
    using write_fragments_safe [OF assms(1), where Q = "synced io s key sha ids A chain j", OF assms(2)]
      synced_add_fragment by blast
  show syn: "synced io s key sha ids A chain j (run_effects es d)" using w by blast
  have "all_safe (\<lambda>d'. \<exists>cs. good io s key sha ids A (chain @ cs) d') es d"
    using conjunct1 [OF w] by (rule all_safe_mono) (rule good_extends [OF synced_good])
  then show "keeps io s key sha ids A chain d j es"
    unfolding keeps_def using syn by (metis append_Nil2)
  show "res = Inr () \<Longrightarrow> \<forall>f\<in>set fs. file_at (run_effects es d) Fragments
       (fragment_name (d2_sha256 (f2_descriptor f))) = Some (f2_payload f)" using w by blast
qed

lemma keeps_call:
  assumes "synced io s key sha ids A chain j d" "\<And>d. apply_effect e d = d" "\<And>m. cut_write e m = []"
  shows "keeps io s key sha ids A chain d j [e]"
proof -
  have "\<exists>cs. good io s key sha ids A (chain @ cs) d" using synced_good [OF assms(1)] by (metis append_Nil2)
  then have "all_safe (\<lambda>d'. \<exists>cs. good io s key sha ids A (chain @ cs) d') [e] d"
    by (intro all_safe_single) (simp_all add: assms(2,3))
  then show ?thesis unfolding keeps_def using assms(1,2) by (auto intro: exI [of _ "[]"])
qed

lemma stage_record_keeps:
  assumes io: "io_ok io" and sy: "synced io s key sha ids A chain j d"
    and p: "map_of (j_prepared j) k = Some p" and fr: "frags_ok io d (pr_result p)"
    and op: "stage_record io j d k p receipt now = Inr (j', es)" and f: "fits es"
    and none: "map_of (j_staged j) k = None"
  shows "keeps io s key sha ids A chain d j' es"
proof -
  from sy obtain v where v: "holds io sha key d v" "disk_inv io s key ids d v chain"
      "mem_inv s key sha v chain j" "A \<subseteq> dom (v_act v)" by (auto simp: synced_def)
  note m = mem_inv_simps [OF v(3)]
  from op obtain dg where dg: "result_record_digest (io_crypto io) (pr_result p) = Inr dg"
    by (auto simp: stage_record_def bind_res_Inr_iff)
  define g where "g = \<lparr>sg_request_id = k, sg_request_intent_sha256 = pr_request_intent_sha256 p,
      sg_result_sha256 = dg, sg_renderer = receipt, sg_staged_unix_ms = now\<rparr>"
  have g: "sg_request_id g = k" "sg_request_intent_sha256 g = pr_request_intent_sha256 p"
      "result_record_digest (io_crypto io) (pr_result p) = Inr (sg_result_sha256 g)"
      "validate_stage_receipt io (sg_renderer g) (pr_result p) = Inr ()"
      "j' = j\<lparr>j_staged := bt_insert k g (j_staged j)\<rparr>"
    and w: "write_slot io j d Staged k ''staged'' (fst (io_staged io)) g = Inr es"
    using op dg by (auto simp: stage_record_def bind_res_Inr_iff Let_def g_def)
  from write_staged [OF io v(1) m(3,1) w g(1) f]
  have put: "puts Staged es" and old: "v_stg v k = None \<or> v_stg v k = Some g"
    and h: "holds io sha key (run_effects es d) (v\<lparr>v_stg := (v_stg v)(k \<mapsto> g)\<rparr>)" by simp_all
  have mir: "mirrors v (j_prepared j) (v_prep v)" "mirrors v (j_staged j) (v_stg v)"
    using v(3) by (simp_all add: mem_inv_def)
  from mirrors_get [OF mir(1) p] have prep: "v_prep v k = Some p" and t: "v_tomb v k = None" by simp_all
  have inv: "disk_inv io s key ids (run_effects es d) (v\<lparr>v_stg := (v_stg v)(k \<mapsto> g)\<rparr>) (chain @ [])"
  proof -
    have "disk_inv io s key ids (run_effects es d) v chain"
      using v(2) by (rule disk_inv_frags) (simp add: puts_frags [OF put])
    from disk_inv_stage [OF this prep g(2-4)] fr show ?thesis by (simp add: puts_frags [OF put])
  qed
  have "mem_inv s key sha (v\<lparr>v_stg := (v_stg v)(k \<mapsto> g)\<rparr>) (chain @ []) j'"
    using v(3) g(5) mirrors_insert [OF mir(2) t old, of "v\<lparr>v_stg := (v_stg v)(k \<mapsto> g)\<rparr>"]
    by (simp add: mem_inv_def active_part_def completions_inv_def mirrors_def)
  from keeps_put [OF sy put _ h inv this] v(4) show ?thesis by simp
qed

lemma stage_new_keeps:
  assumes io: "io_ok io" and sy: "synced io s key sha ids A chain j d"
    and p: "map_of (j_prepared j) k = Some p" "map_of (j_staged j) k = None"
    and cl: "closure_verify_result_v2 (io_crypto io) closure (pr_result p) = Inr ()"
      "closure_ok_v2 (io_crypto io) closure"
    and op: "stage_new io j d k p closure stage now = (res, j', es)" and f: "fits es"
  shows "keeps io s key sha ids A chain d j' es"
proof -
  obtain wr es0 where w: "write_fragments d (c2_fragments closure) = (wr, es0)" by force
  note kw = write_fragments_keeps [OF w sy]
  show ?thesis
  proof (cases wr)
    case (Inl e)
    with op w kw(1) show ?thesis by (simp add: stage_new_def)
  next
    case (Inr u)
    let ?e = "RendererStage (pr_result p) closure" and ?d = "run_effects es0 d"
    have call: "keeps io s key sha ids A chain ?d j [?e]" using kw(2) by (rule keeps_call) simp_all
    have two: "keeps io s key sha ids A chain d j (es0 @ [?e])"
    proof (rule keeps_append [OF kw(1)])
      fix cs assume "synced io s key sha ids A (chain @ cs) j (run_effects es0 d)"
      then show "keeps io s key sha ids A (chain @ cs) (run_effects es0 d) j [?e]"
        by (rule keeps_call) simp_all
    qed
    have fr: "frags_ok io ?d (pr_result p)"
      using closure_frags_ok [OF cl refl] kw(3) Inr by simp
    from op w Inr consider "j' = j" "es = es0 @ [?e]"
      | receipt es2 where "stage_record io j ?d k p receipt now = Inr (j', es2)" "es = (es0 @ [?e]) @ es2"
      by (auto simp: stage_new_def Let_def split: sum.splits prod.splits)
    then show ?thesis
    proof cases
      case 1
      with two show ?thesis by simp
    next
      case (2 receipt es2)
      show ?thesis
        unfolding 2(2)
      proof (rule keeps_append [OF two])
        fix cs assume sy': "synced io s key sha ids A (chain @ cs) j (run_effects (es0 @ [?e]) d)"
        show "keeps io s key sha ids A (chain @ cs) (run_effects (es0 @ [?e]) d) j' es2"
          using stage_record_keeps [OF io sy' p(1) _ _ _ p(2), of receipt now j' es2] fr 2 f by simp
      qed
    qed
  qed
qed

lemma stage_result_keeps:
  assumes io: "io_ok io" and sy: "synced io s key sha ids A chain j d"
    and cl: "closure_ok_v2 (io_crypto io) closure"
    and op: "stage_result io j d request closure stage now = (res, j', es)" and f: "fits es"
  shows "keeps io s key sha ids A chain d j' es"
proof (cases "j' = j \<and> es = []")
  case True
  with keeps_nothing [OF sy] show ?thesis by simp
next
  case False
  let ?k = "r2_request_id (body request)"
  from op False obtain p where p: "map_of (j_prepared j) ?k = Some p"
      "closure_verify_result_v2 (io_crypto io) closure (pr_result p) = Inr ()"
      "map_of (j_staged j) ?k = None" "stage_new io j d ?k p closure stage now = (res, j', es)"
    by (auto simp: stage_result_def Let_def split: option.splits sum.splits if_splits)
  from stage_new_keeps [OF io sy p(1,3,2) cl p(4) f] show ?thesis .
qed

subsection \<open>Committing and activating\<close>

text \<open>The pending commit is the last of the chain.\<close>

lemma pending_last:
  assumes "disk_inv io s key ids d v chain" "mem_inv s key sha v chain j"
    and "j_pending_activation j = Some c"
  obtains cs where "chain = cs @ [c]" "v_act v (cm_id c) = None" "active_part v chain = cs"
  using active_part_cases [of chain v] assms by (auto simp: disk_inv_def chain_inv_def mem_inv_def)

lemma no_pending_all_active:
  assumes "disk_inv io s key ids d v chain" "mem_inv s key sha v chain j" "j_pending_activation j = None"
  shows "active_part v chain = chain" "\<forall>c\<in>set chain. v_act v (cm_id c) \<noteq> None"
  using active_part_cases [of chain v] assms
  by (auto simp: disk_inv_def chain_inv_def mem_inv_def find_None_iff)

lemma write_active_new:
  assumes io: "io_ok io" and h: "holds io sha key d v"
    and none: "v_act v (ac_request_id a) = None"
    and cmt: "\<And>k'. v_act v k' \<noteq> None \<Longrightarrow> slot_name io k' = slot_name io (ac_request_id a) \<Longrightarrow> k' = ac_request_id a"
  shows "write_active io j d a = write_slot io j d Active (ac_request_id a) ''active'' (fst (io_active io)) a"
proof -
  have "file_at d Active (slot_name io (ac_request_id a)) = None"
  proof (rule ccontr)
    assume "file_at d Active (slot_name io (ac_request_id a)) \<noteq> None"
    then obtain b where "file_at d Active (slot_name io (ac_request_id a)) = Some b" by auto
    then obtain k' r where "v_act v k' = Some r" "slot_name io (ac_request_id a) = slot_name io k'"
      using holds_slots_owner h unfolding holds_def by blast
    with cmt [of k'] none show False by auto
  qed
  then show ?thesis by (simp add: write_active_def)
qed

lemma completions_activate:
  assumes "completions_inv v (cs @ [c]) m" "distinct (map cm_id (cs @ [c]))"
  shows "completions_inv (v\<lparr>v_act := (v_act v)(cm_id c \<mapsto> a)\<rparr>) (cs @ [c]) (bt_insert (cm_id c) (cm_result c) m)"
proof -
  have ne: "cm_id e \<noteq> cm_id c" if "e \<in> set cs" for e using assms(2) that by (auto simp: rev_image_eqI)
  show ?thesis
    unfolding completions_inv_def
  proof (intro conjI allI impI ballI)
    show "bt_wf (bt_insert (cm_id c) (cm_result c) m)" using assms(1) by (simp add: completions_inv_def)
  next
    fix k r assume k: "map_of (bt_insert (cm_id c) (cm_result c) m) k = Some r"
    have "v_act (v\<lparr>v_act := (v_act v)(cm_id c \<mapsto> a)\<rparr>) k \<noteq> None
      \<and> (\<exists>e\<in>set (cs @ [c]). cm_id e = k \<and> cm_result e = r)"
    proof (cases "k = cm_id c")
      case True
      with k show ?thesis by simp
    next
      case False
      with k have "map_of m k = Some r" by simp
      with assms(1) have "v_act v k \<noteq> None" "\<exists>e\<in>set (cs @ [c]). cm_id e = k \<and> cm_result e = r"
        unfolding completions_inv_def by blast+
      with False show ?thesis by simp
    qed
    then show "v_act (v\<lparr>v_act := (v_act v)(cm_id c \<mapsto> a)\<rparr>) k \<noteq> None"
      "\<exists>e\<in>set (cs @ [c]). cm_id e = k \<and> cm_result e = r" by blast+
  next
    fix e assume e: "e \<in> set (cs @ [c])" "v_act (v\<lparr>v_act := (v_act v)(cm_id c \<mapsto> a)\<rparr>) (cm_id e) \<noteq> None"
      "v_tomb (v\<lparr>v_act := (v_act v)(cm_id c \<mapsto> a)\<rparr>) (cm_id e) = None"
    show "map_of (bt_insert (cm_id c) (cm_result c) m) (cm_id e) = Some (cm_result e)"
    proof (cases "e = c")
      case False
      with e(1) ne have "cm_id e \<noteq> cm_id c" by auto
      with e have "v_act v (cm_id e) \<noteq> None" "v_tomb v (cm_id e) = None" by simp_all
      with e(1) assms(1) have "map_of m (cm_id e) = Some (cm_result e)"
        unfolding completions_inv_def by blast
      with \<open>cm_id e \<noteq> cm_id c\<close> show ?thesis by simp
    qed simp
  qed
qed

lemma mirrors_activate: "mirrors v m f \<Longrightarrow> mirrors (v\<lparr>v_act := (v_act v)(k \<mapsto> a)\<rparr>) m f"
  unfolding mirrors_def by (simp split: if_splits)

lemma publish_active_keeps:
  assumes io: "io_ok io" and inj: "inj_on (slot_name io) ids"
    and sy: "synced io s key sha ids A chain j d" and pend: "j_pending_activation j = Some c"
    and op: "publish_active io j d c now = (res, j', es)" and f: "fits es"
  shows "keeps io s key sha ids A chain d j' es"
    and "es = [] \<and> j' = j \<or> puts Active es \<and> res = Inr () \<and> j_pending_activation j' = None
      \<and> map_of (j_completions j') (cm_id c) = Some (cm_result c)"
proof -
  from sy obtain v where v: "holds io sha key d v" "disk_inv io s key ids d v chain"
      "mem_inv s key sha v chain j" "A \<subseteq> dom (v_act v)" by (auto simp: synced_def)
  note m = mem_inv_simps [OF v(3)]
  from pending_last [OF v(2,3) pend] obtain cs where
      ch: "chain = cs @ [c]" and na: "v_act v (cm_id c) = None" and part: "active_part v chain = cs" .
  have ci: "chain_inv io s key d v chain" using v(2) by (simp add: disk_inv_def)
  have "keeps io s key sha ids A chain d j' es \<and> (es = [] \<and> j' = j \<or> puts Active es \<and> res = Inr ()
      \<and> j_pending_activation j' = None \<and> map_of (j_completions j') (cm_id c) = Some (cm_result c))"
  proof (cases "j' = j \<and> es = []")
    case True
    with keeps_nothing [OF sy] show ?thesis by simp
  next
    case False
    from op False obtain dg where dg: "result_record_digest (io_crypto io) (cm_result c) = Inr dg"
      by (auto simp: publish_active_def split: sum.splits)
    define a where "a = \<lparr>ac_request_id = cm_id c, ac_result_sha256 = dg,
        ac_new_head_sha256 = o2_new_head_sha256 (body (cm_result c)), ac_activated_unix_ms = now\<rparr>"
    have a: "ac_request_id a = cm_id c" "active_ok io a c" using dg by (simp_all add: a_def active_ok_def)
    have cmt: "v_cmt v = commit_map chain" using ci by (simp add: chain_inv_def)
    have dom: "v_cmt v k \<noteq> None" if "v_act v k \<noteq> None" for k
    proof -
      from that obtain b where "v_act v k = Some b" by auto
      from disk_inv_active [OF v(2) this] show ?thesis unfolding cmt commit_map_None by blast
    qed
    have ids: "dom (v_cmt v) \<subseteq> ids" using v(2) by (simp add: disk_inv_def ids_inv_def)
    have cid: "v_cmt v (cm_id c) \<noteq> None" unfolding cmt commit_map_None ch by simp
    have "k' = cm_id c" if "v_act v k' \<noteq> None" "slot_name io k' = slot_name io (cm_id c)" for k'
      using inj_onD [OF inj that(2)] dom [OF that(1)] cid ids by blast
    then have wa: "write_active io j d a = write_slot io j d Active (cm_id c) ''active'' (fst (io_active io)) a"
      using write_active_new [OF io v(1), of a j] na a(1) by simp
    with op False dg obtain es1 where
        w: "write_slot io j d Active (cm_id c) ''active'' (fst (io_active io)) a = Inr es1"
      by (auto simp: publish_active_def a_def [symmetric] split: sum.splits)
    have "completions_inv v chain (j_completions j)" using v(3) by (simp add: mem_inv_def)
    then have "map_of (j_completions j) (cm_id c) = None"
      using na unfolding completions_inv_def by (metis option.exhaust)
    moreover have "verify_against_v2 (io_crypto io) (cm_result c) (cm_request c) (body s) = Inr ()"
      using ci ch by (simp add: chain_inv_def commit_ok_def)
    moreover have "matches_current_parent io j (cm_request c)"
      using ci ch m(4) part by (simp add: matches_pos chain_inv_def linked_from_append)
    ultimately have ap: "apply_active io j (cm_request c) (cm_result c) = Inr (advance_journal (cm_request c) (cm_result c) j)"
      using m(2) by (simp add: apply_active_def cm_id_def)
    let ?v = "v\<lparr>v_act := (v_act v)(cm_id c \<mapsto> a)\<rparr>"
    have re: "res = Inr ()" "es = es1"
        "j' = (advance_journal (cm_request c) (cm_result c) j)\<lparr>j_pending_activation := None\<rparr>"
      using op dg w ap wa by (simp_all add: publish_active_def a_def)
    from write_active_slot [OF io v(1) m(3,1) w a(1)] f re(2)
    have put: "puts Active es" and h: "holds io sha key (run_effects es d) ?v" by simp_all
    have base: "disk_inv io s key ids (run_effects es d) v chain"
      using v(2) by (rule disk_inv_frags) (simp add: puts_frags [OF put])
    note ac = disk_inv_activate [OF base [unfolded ch] na a(2)]
    have "completions_inv ?v chain (j_completions j')"
      using completions_activate [of v cs c "j_completions j" a] v(3) ci ch re(3)
      by (simp add: mem_inv_def chain_inv_def cm_id_def)
    moreover have "pos_of j' = pos_after (genesis_pos s) (active_part ?v chain)"
      using re(3) ac(2) ch m(4) part by simp
    ultimately have "mem_inv s key sha ?v (chain @ []) j'"
      using v(3) re(3) ac(3) ch unfolding mem_inv_def by (simp add: mirrors_activate)
    have "A \<subseteq> dom (v_act ?v)" using v(4) by auto
    from keeps_put [OF sy put _ h _ \<open>mem_inv s key sha ?v (chain @ []) j'\<close> this] ac(1) ch re put
    show ?thesis by (simp add: cm_id_def)
  qed
  then show "keeps io s key sha ids A chain d j' es"
    and "es = [] \<and> j' = j \<or> puts Active es \<and> res = Inr () \<and> j_pending_activation j' = None
      \<and> map_of (j_completions j') (cm_id c) = Some (cm_result c)" by simp_all
qed

lemma recover_pending_keeps:
  assumes io: "io_ok io" and inj: "inj_on (slot_name io) ids"
    and sy: "synced io s key sha ids A chain j d"
    and op: "recover_pending io j d activate now = (res, j', es)" and f: "fits es"
  shows "keeps io s key sha ids A chain d j' es"
proof (cases "j_pending_activation j")
  case None
  with op keeps_nothing [OF sy] show ?thesis by (simp add: recover_pending_def)
next
  case (Some c)
  let ?e = "RendererActivate (cm_renderer c)"
  have call: "keeps io s key sha ids A (chain @ cs) d j [?e]" if "synced io s key sha ids A (chain @ cs) j d" for cs
    using that by (rule keeps_call) simp_all
  have one: "keeps io s key sha ids A chain d j [?e]" using call [of "[]"] sy by simp
  from op Some consider "j' = j" "es = []" | "j' = j" "es = [?e]"
    | res' es' where "publish_active io j d c now = (res', j', es')" "es = [?e] @ es'"
    by (auto simp: recover_pending_def split: sum.splits prod.splits)
  then show ?thesis
  proof cases
    case 1
    with keeps_nothing [OF sy] show ?thesis by simp
  next
    case 2
    with one show ?thesis by simp
  next
    case (3 res' es')
    show ?thesis
      unfolding 3(2)
    proof (rule keeps_append [OF one])
      fix cs assume "synced io s key sha ids A (chain @ cs) j (run_effects [?e] d)"
      then have "synced io s key sha ids A (chain @ cs) j d" by simp
      from publish_active_keeps(1) [OF io inj this Some 3(1)] f 3(2)
      show "keeps io s key sha ids A (chain @ cs) (run_effects [?e] d) j' es'" by simp
    qed
  qed
qed

text \<open>The caller commits the request it reserved.\<close>

definition same_request :: "journal \<Rightarrow> auth_round_v2 \<Rightarrow> bool" where
  "same_request j request \<longleftrightarrow>
     (\<forall>r. map_of (j_reservations j) (r2_request_id (body request)) = Some r \<longrightarrow> rv_request r = request)"

lemma commit_record_for_Inr:
  "commit_record_for io j request now = Inr c \<longleftrightarrow>
     (\<exists>p g. map_of (j_prepared j) (r2_request_id (body request)) = Some p
        \<and> map_of (j_staged j) (r2_request_id (body request)) = Some g
        \<and> intent_sha256_v2 (io_crypto io) request = Inr (pr_request_intent_sha256 p)
        \<and> result_record_digest (io_crypto io) (pr_result p) = Inr (sg_result_sha256 g)
        \<and> matches_current_parent io j request
        \<and> c = \<lparr>cm_request = request, cm_result = pr_result p, cm_renderer = sg_renderer g,
               cm_committed_unix_ms = now\<rparr>)"
  by (auto simp: commit_record_for_def Let_def bind_res_Inr_iff ok_or_Inr_iff ensure_Inr_iff)

text \<open>Writing the commit makes it the pending end of the chain.\<close>

lemma write_commit_synced:
  assumes io: "io_ok io" and sy: "synced io s key sha ids A chain j d"
    and pend: "j_pending_activation j = None" and same: "same_request j request"
    and none: "map_of (j_completions j) (r2_request_id (body request)) = None"
    and c: "commit_record_for io j request now = Inr c"
    and w: "write_slot io j d Commits (r2_request_id (body request)) ''commit'' (fst (io_commit io)) c = Inr es"
    and f: "fits es"
  shows "puts Commits es
    \<and> synced io s key sha ids A (chain @ [c]) (j\<lparr>j_pending_activation := Some c\<rparr>) (run_effects es d)"
proof -
  let ?k = "r2_request_id (body request)"
  from sy obtain v where v: "holds io sha key d v" "disk_inv io s key ids d v chain"
      "mem_inv s key sha v chain j" "A \<subseteq> dom (v_act v)" by (auto simp: synced_def)
  note m = mem_inv_simps [OF v(3)]
  from c obtain p g where
      p: "map_of (j_prepared j) ?k = Some p" and g: "map_of (j_staged j) ?k = Some g"
    and par: "matches_current_parent io j request"
    and cc: "cm_request c = request" "cm_result c = pr_result p" "cm_renderer c = sg_renderer g"
    unfolding commit_record_for_Inr by auto
  have cid: "cm_id c = ?k" by (simp add: cm_id_def cc(1))
  have mir: "mirrors v (j_reservations j) (v_res v)" "mirrors v (j_prepared j) (v_prep v)"
      "mirrors v (j_staged j) (v_stg v)" using v(3) by (simp_all add: mem_inv_def)
  from mirrors_get [OF mir(2) p] have vp: "v_prep v ?k = Some p" and t: "v_tomb v ?k = None" by simp_all
  from mirrors_get [OF mir(3) g] have vg: "v_stg v ?k = Some g" by simp
  have act: "v_act v ?k = None" by (rule not_completed_inactive [OF v(2,3) none t])
  from disk_inv_prep [OF v(2) vp t] obtain r where
      vr: "v_res v ?k = Some r"
    and ver: "verify_against_v2 (io_crypto io) (pr_result p) (rv_request r) (body s) = Inr ()" by blast
  have "map_of (j_reservations j) ?k = Some r" using mirrors_inactive [OF mir(1) act] vr by simp
  then have rq: "rv_request r = request" using same by (simp add: same_request_def)
  from disk_inv_stg [OF v(2) vg t] vp have
      rc: "validate_stage_receipt io (sg_renderer g) (pr_result p) = Inr ()" and fr: "frags_ok io d (pr_result p)"
    by auto
  note all = no_pending_all_active [OF v(2,3) pend]
  have new: "cm_id c \<notin> cm_id ` set chain" using all(2) act cid by auto
  from write_commit [OF io v(1) m(3,1) w cid f] have
      put: "puts Commits es" and h: "holds io sha key (run_effects es d) (v\<lparr>v_cmt := (v_cmt v)(?k \<mapsto> c)\<rparr>)"
    by simp_all
  have base: "disk_inv io s key ids (run_effects es d) v chain"
    using v(2) by (rule disk_inv_frags) (simp add: puts_frags [OF put])
  have inv: "disk_inv io s key ids (run_effects es d) (v\<lparr>v_cmt := (v_cmt v)(cm_id c \<mapsto> c)\<rparr>) (chain @ [c])"
  proof (rule disk_inv_commit [OF base all(2) new])
    show "v_act v (cm_id c) = None" using act cid by simp
    show "pos_match io (pos_after (genesis_pos s) chain) (cm_request c)"
      using par m(4) all(1) cc(1) by (simp add: matches_pos)
    show "commit_ok io s key c"
      using disk_inv_res [OF v(2) vr] ver rc cc rq by (simp add: commit_ok_def)
    show "frags_ok io (run_effects es d) (cm_result c)" using fr cc(2) by (simp add: puts_frags [OF put])
    show "cm_id c \<in> ids" using disk_inv_res [OF v(2) vr] cid by simp
    show "v_prep v (cm_id c) = Some p" "pr_result p = cm_result c" using vp cid cc by simp_all
  qed
  have "mem_inv s key sha (v\<lparr>v_cmt := (v_cmt v)(?k \<mapsto> c)\<rparr>) (chain @ [c]) (j\<lparr>j_pending_activation := Some c\<rparr>)"
  proof -
    have part: "active_part (v\<lparr>v_cmt := (v_cmt v)(?k \<mapsto> c)\<rparr>) (chain @ [c]) = active_part v chain"
      using act cid by (simp add: active_part_def)
    have "find (\<lambda>c. v_act v (cm_id c) = None) chain = None" using all(2) by (auto simp: find_None_iff)
    then have "find (\<lambda>c. v_act v (cm_id c) = None) (chain @ [c]) = Some c"
      using act cid by (induction chain) (auto split: if_splits)
    moreover have "completions_inv (v\<lparr>v_cmt := (v_cmt v)(?k \<mapsto> c)\<rparr>) (chain @ [c]) (j_completions j)"
      using v(3) act cid by (auto simp: mem_inv_def completions_inv_def)
    ultimately show ?thesis using v(3) unfolding mem_inv_def part by (simp add: mirrors_def)
  qed
  with h inv v(4) have "synced io s key sha ids A (chain @ [c]) (j\<lparr>j_pending_activation := Some c\<rparr>) (run_effects es d)"
    unfolding synced_def cid by (intro exI [of _ "v\<lparr>v_cmt := (v_cmt v)(?k \<mapsto> c)\<rparr>"]) simp
  with put show ?thesis by simp
qed

lemma recover_pending_mem:
  assumes "recover_pending io j d activate now = (res, j', es)"
  shows "j_reservations j' = j_reservations j" "res = Inr () \<Longrightarrow> j_pending_activation j' = None"
  using assms
  by (auto simp: recover_pending_def publish_active_def apply_active_def bind_res_Inr_iff
      split: option.splits sum.splits prod.splits if_splits)

lemma commit_new_keeps:
  assumes io: "io_ok io" and inj: "inj_on (slot_name io) ids"
    and sy: "synced io s key sha ids A chain j d"
    and pend: "j_pending_activation j = None" and same: "same_request j request"
    and op: "commit_new io j d request permits activate now = (res, j', es)" and f: "fits es"
  shows "keeps io s key sha ids A chain d j' es"
proof (cases "j' = j \<and> es = []")
  case True
  with keeps_nothing [OF sy] show ?thesis by simp
next
  case False
  let ?k = "r2_request_id (body request)"
  from op False obtain c es1 r2 es2 where
      none: "map_of (j_completions j) ?k = None" and c: "commit_record_for io j request now = Inr c"
    and w: "write_slot io j d Commits ?k ''commit'' (fst (io_commit io)) c = Inr es1"
    and rp: "recover_pending io (j\<lparr>j_pending_activation := Some c\<rparr>) (run_effects es1 d) activate now = (r2, j', es2)"
    and es: "es = es1 @ es2"
    by (auto simp: commit_new_def Let_def split: option.splits sum.splits prod.splits)
  from write_commit_synced [OF io sy pend same none c w] f es
  have put: "puts Commits es1"
    and sy1: "synced io s key sha ids A (chain @ [c]) (j\<lparr>j_pending_activation := Some c\<rparr>) (run_effects es1 d)"
    by simp_all
  from sy1 obtain v where "holds io sha key (run_effects es1 d) v"
      "disk_inv io s key ids (run_effects es1 d) v (chain @ [c])"
      "mem_inv s key sha v (chain @ [c]) (j\<lparr>j_pending_activation := Some c\<rparr>)" "A \<subseteq> dom (v_act v)"
    by (auto simp: synced_def)
  from keeps_put [OF sy put _ this]
  have one: "keeps io s key sha ids A chain d (j\<lparr>j_pending_activation := Some c\<rparr>) es1" by simp
  show ?thesis
    unfolding es
  proof (rule keeps_append [OF one])
    fix cs assume "synced io s key sha ids A (chain @ cs) (j\<lparr>j_pending_activation := Some c\<rparr>) (run_effects es1 d)"
    from recover_pending_keeps [OF io inj this rp] f es
    show "keeps io s key sha ids A (chain @ cs) (run_effects es1 d) j' es2" by simp
  qed
qed

lemma commit_and_activate_keeps:
  assumes io: "io_ok io" and inj: "inj_on (slot_name io) ids"
    and sy: "synced io s key sha ids A chain j d" and same: "same_request j request"
    and op: "commit_and_activate io j d request permits activate now = (res, j', es)" and f: "fits es"
  shows "keeps io s key sha ids A chain d j' es"
proof (cases "j_pending_activation j = None")
  case True
  with op have "commit_new io j d request permits activate now = (res, j', es)"
    by (auto simp: commit_and_activate_def split: prod.splits)
  from commit_new_keeps [OF io inj sy True same this f] show ?thesis .
next
  case False
  obtain r1 j1 es1 where rp: "recover_pending io j d activate now = (r1, j1, es1)"
    using prod_cases3 by blast
  show ?thesis
  proof (cases r1)
    case (Inl e)
    with op False rp have "j' = j1" "es = es1" by (auto simp: commit_and_activate_def)
    with recover_pending_keeps [OF io inj sy rp] f show ?thesis by simp
  next
    case (Inr u)
    with op False rp obtain es2 where
        cn: "commit_new io j1 (run_effects es1 d) request permits activate now = (res, j', es2)"
      and es: "es = es1 @ es2"
      by (auto simp: commit_and_activate_def split: prod.splits)
    have mem: "j_pending_activation j1 = None" "same_request j1 request"
      using recover_pending_mem [OF rp] Inr same by (simp_all add: same_request_def)
    have f12: "fits es1" "fits es2" using f es by simp_all
    show ?thesis
      unfolding es
    proof (rule keeps_append [OF recover_pending_keeps [OF io inj sy rp f12(1)]])
      fix cs assume "synced io s key sha ids A (chain @ cs) j1 (run_effects es1 d)"
      from commit_new_keeps [OF io inj this mem cn f12(2)]
      show "keeps io s key sha ids A (chain @ cs) (run_effects es1 d) j' es2" .
    qed
  qed
qed

subsection \<open>Acknowledging\<close>

lemma completion_commit:
  assumes "disk_inv io s key ids d v chain" "mem_inv s key sha v chain j"
    and "map_of (j_completions j) k = Some result"
  obtains c where "c \<in> set chain" "cm_id c = k" "cm_result c = result" "v_act v k \<noteq> None" "k \<in> ids"
    "\<forall>e\<in>set chain. cm_id e = k \<longrightarrow> e = c"
proof -
  have "completions_inv v chain (j_completions j)" using assms(2) by (simp add: mem_inv_def)
  with assms(3) obtain c where c: "c \<in> set chain" "cm_id c = k" "cm_result c = result" "v_act v k \<noteq> None"
    unfolding completions_inv_def by blast
  have ci: "chain_inv io s key d v chain" "ids_inv ids v" using assms(1) by (simp_all add: disk_inv_def)
  then have "inj_on cm_id (set chain)" by (simp add: chain_inv_def distinct_map)
  then have uniq: "e = c" if "e \<in> set chain" "cm_id e = k" for e
    using c(1,2) that by (auto dest: inj_onD)
  have "v_cmt v k \<noteq> None" using ci(1) c by (auto simp: chain_inv_def commit_map_None)
  then have "k \<in> ids" using ci(2) by (auto simp: ids_inv_def)
  then show thesis using c uniq that by blast
qed

lemma acknowledge_keeps:
  assumes io: "io_ok io" and sy: "synced io s key sha ids A chain j d"
    and op: "acknowledge io j d k head now = (res, j', es)" and f: "fits es"
  shows "keeps io s key sha ids A chain d j' es"
proof (cases "j' = j \<and> es = []")
  case True
  with keeps_nothing [OF sy] show ?thesis by simp
next
  case False
  from sy obtain v where v: "holds io sha key d v" "disk_inv io s key ids d v chain"
      "mem_inv s key sha v chain j" "A \<subseteq> dom (v_act v)" by (auto simp: synced_def)
  note m = mem_inv_simps [OF v(3)]
  from op False obtain result dg where
      r: "map_of (j_completions j) k = Some result" "head = o2_new_head_sha256 (body result)"
    and dg: "result_record_digest (io_crypto io) result = Inr dg"
    unfolding acknowledge_def unchanged_iff bind_res_Inr_iff ok_or_Inr_iff refuse_Inr_iff by blast
  have ac: "map_of (j_acknowledgements j) k = None"
  proof (cases "map_of (j_acknowledgements j) k")
    case (Some x)
    with op False r dg show ?thesis
      unfolding acknowledge_def unchanged_iff by (simp add: bind_res_Inr_iff Let_def split: if_splits)
  qed
  define a where "a = \<lparr>ak_request_id = k, ak_result_sha256 = dg, ak_applied_head_sha256 = head,
      ak_acknowledged_unix_ms = now\<rparr>"
  from op False r dg ac have
      w: "write_slot io j d Acks k ''ack'' (fst (io_ack io)) a = Inr es"
    and j': "j' = j\<lparr>j_acknowledgements := bt_insert k a (j_acknowledgements j)\<rparr>"
    unfolding acknowledge_def unchanged_iff
    by (simp_all add: bind_res_Inr_iff Let_def a_def)
  from completion_commit [OF v(2,3) r(1)] obtain c where
      c: "c \<in> set chain" "cm_id c = k" "cm_result c = result" "v_act v k \<noteq> None" "k \<in> ids"
      "\<forall>e\<in>set chain. cm_id e = k \<longrightarrow> e = c" .
  have aid: "ak_request_id a = k" by (simp add: a_def)
  from write_ack [OF io v(1) m(3,1) w aid f]
  have put: "puts Acks es" and old: "v_ack v k = None \<or> v_ack v k = Some a"
    and h: "holds io sha key (run_effects es d) (v\<lparr>v_ack := (v_ack v)(k \<mapsto> a)\<rparr>)" by simp_all
  have base: "disk_inv io s key ids (run_effects es d) v chain"
    using v(2) by (rule disk_inv_frags) (simp add: puts_frags [OF put])
  have "result_record_digest (io_crypto io) (cm_result e) = Inr (ak_result_sha256 a)
      \<and> ak_applied_head_sha256 a = o2_new_head_sha256 (body (cm_result e))"
    if "e \<in> set chain" "cm_id e = k" for e
    using c(6) that c(3) dg r(2) by (auto simp: a_def)
  from disk_inv_ack [OF base c(4,5) this]
  have inv: "disk_inv io s key ids (run_effects es d) (v\<lparr>v_ack := (v_ack v)(k \<mapsto> a)\<rparr>) (chain @ [])" by simp
  have "mem_inv s key sha (v\<lparr>v_ack := (v_ack v)(k \<mapsto> a)\<rparr>) (chain @ []) j'"
    using v(3) j' by (auto simp: mem_inv_def active_part_def completions_inv_def mirrors_def map_le_def)
  from keeps_put [OF sy put _ h inv this] v(4) show ?thesis by simp
qed

subsection \<open>Collecting garbage\<close>

text \<open>The results whose fragments the invariant needs on disk.\<close>

definition needed :: "view \<Rightarrow> commit_record list \<Rightarrow> auth_result_v2 \<Rightarrow> bool" where
  "needed v chain r \<longleftrightarrow>
     (\<exists>c\<in>set chain. v_tomb v (cm_id c) = None \<and> r = cm_result c)
     \<or> (\<exists>k g p. v_stg v k = Some g \<and> v_tomb v k = None \<and> v_prep v k = Some p \<and> r = pr_result p)"

lemma disk_inv_needed:
  assumes inv: "disk_inv io s key ids d v chain"
    and keep: "\<And>r. needed v chain r \<Longrightarrow> frags_ok io d r \<Longrightarrow> frags_ok io d' r"
  shows "disk_inv io s key ids d' v chain"
proof -
  have ci: "chain_inv io s key d v chain" and ph: "phases_inv io s key d v" using inv by (simp_all add: disk_inv_def)
  have "frags_ok io d' (cm_result c)" if "c \<in> set chain" "v_tomb v (cm_id c) = None" for c
  proof (rule keep)
    show "needed v chain (cm_result c)" using that by (auto simp: needed_def)
    show "frags_ok io d (cm_result c)" using ci that by (simp add: chain_inv_def)
  qed
  then have "chain_inv io s key d' v chain" using ci unfolding chain_inv_def by blast
  moreover have "phases_inv io s key d' v"
    unfolding phases_inv_def
  proof (intro conjI allI impI)
    fix k g assume g: "v_stg v k = Some g" "v_tomb v k = None"
    from disk_inv_stg [OF inv g] obtain p where p: "v_prep v k = Some p"
      "sg_request_intent_sha256 g = pr_request_intent_sha256 p"
      "result_record_digest (io_crypto io) (pr_result p) = Inr (sg_result_sha256 g)"
      "validate_stage_receipt io (sg_renderer g) (pr_result p) = Inr ()" "frags_ok io d (pr_result p)" by blast
    have "needed v chain (pr_result p)" using g p(1) by (auto simp: needed_def)
    from keep [OF this p(5)] p show "\<exists>p. v_prep v k = Some p
        \<and> sg_request_intent_sha256 g = pr_request_intent_sha256 p
        \<and> result_record_digest (io_crypto io) (pr_result p) = Inr (sg_result_sha256 g)
        \<and> validate_stage_receipt io (sg_renderer g) (pr_result p) = Inr () \<and> frags_ok io d' (pr_result p)" by blast
  qed (use ph in \<open>simp_all add: phases_inv_def\<close>)
  ultimately show ?thesis using inv by (simp add: disk_inv_def)
qed

lemma remove_all_safe:
  assumes "Q d" "\<And>dir name d. (dir, name) \<in> set ps \<Longrightarrow> Q d \<Longrightarrow> Q (apply_effect (RemoveFile dir name) d)"
  shows "all_safe Q (remove_all d ps) d \<and> Q (run_effects (remove_all d ps) d)"
  using assms
proof (induction d ps rule: remove_all.induct)
  case (2 d dir name ps)
  let ?es = "remove_if_exists d dir name"
  have one: "all_safe Q ?es d" "Q (run_effects ?es d)"
    using 2(2) 2(3) [of dir name d] by (auto simp: remove_if_exists_def all_safe_Nil intro: all_safe_single)
  have "all_safe Q (remove_all (run_effects ?es d) ps) (run_effects ?es d)
      \<and> Q (run_effects (remove_all (run_effects ?es d) ps) (run_effects ?es d))"
    using one(2) 2(3) by (intro 2(1)) auto
  then show ?case using all_safe_append [OF one(1)] by (simp add: Let_def)
qed (simp add: all_safe_Nil)

text \<open>Removing a fragment that no needed result names.\<close>

lemma remove_fragment_keeps:
  assumes h: "holds io sha key d v" and inv: "disk_inv io s key ids d v chain"
    and un: "\<And>r x. needed v chain r \<Longrightarrow> x \<in> set (o2_fragments (body r)) \<Longrightarrow> d2_sha256 x \<noteq> dg"
  shows "holds io sha key (apply_effect (RemoveFile Fragments (fragment_name dg)) d) v
    \<and> disk_inv io s key ids (apply_effect (RemoveFile Fragments (fragment_name dg)) d) v chain"
proof
  show "holds io sha key (apply_effect (RemoveFile Fragments (fragment_name dg)) d) v"
    using h by (subst holds_cong) simp_all
  show "disk_inv io s key ids (apply_effect (RemoveFile Fragments (fragment_name dg)) d) v chain"
  proof (rule disk_inv_needed [OF inv])
    fix r assume r: "needed v chain r" "frags_ok io d r"
    show "frags_ok io (apply_effect (RemoveFile Fragments (fragment_name dg)) d) r"
      unfolding frags_ok_iff
    proof
      fix x assume x: "x \<in> set (o2_fragments (body r))"
      have ne: "d2_sha256 x \<noteq> dg" by (rule un [OF r(1) x])
      from r(2) x obtain p where "file_at d Fragments (fragment_name (d2_sha256 x)) = Some p"
          "length p = d2_byte_len x" "sha256_hex (prim (io_crypto io)) p = d2_sha256 x"
        unfolding frags_ok_iff by blast
      then show "\<exists>p. file_at (apply_effect (RemoveFile Fragments (fragment_name dg)) d) Fragments
            (fragment_name (d2_sha256 x)) = Some p
          \<and> length p = d2_byte_len x \<and> sha256_hex (prim (io_crypto io)) p = d2_sha256 x"
        using ne by simp
    qed
  qed
qed

text \<open>Every needed result is a completion or a prepared result of another request.\<close>

lemma needed_protected:
  assumes inv: "disk_inv io s key ids d v chain" and mem: "mem_inv s key sha v chain j"
    and k: "v_act v k \<noteq> None"
    and r: "needed (v\<lparr>v_tomb := (v_tomb v)(k \<mapsto> t)\<rparr>) chain r" and x: "x \<in> set (o2_fragments (body r))"
    and j1: "j_completions j1 = j_completions j" "j_prepared j1 = j_prepared j"
  shows "d2_sha256 x \<in> set (protected_digests j1 k)"
proof -
  have mp: "mirrors v (j_prepared j) (v_prep v)" and wf: "bt_wf (j_completions j)" "bt_wf (j_prepared j)"
    and co: "completions_inv v chain (j_completions j)"
    using mem by (simp_all add: mem_inv_def mirrors_def completions_inv_def)
  have comp: "d2_sha256 x \<in> set (protected_digests j1 k)"
    if "map_of (j_completions j) k' = Some r" "k' \<noteq> k" for k'
  proof -
    from that(1) have "(k', r) \<in> set (j_completions j)" by (rule map_of_SomeD)
    with that(2) x j1 show ?thesis by (force simp: protected_digests_def)
  qed
  have prep: "d2_sha256 x \<in> set (protected_digests j1 k)"
    if "map_of (j_prepared j) k' = Some p" "pr_result p = r" "k' \<noteq> k" for k' p
  proof -
    from that(1) have "(k', p) \<in> set (j_prepared j)" by (rule map_of_SomeD)
    with that(2,3) x j1 show ?thesis by (force simp: protected_digests_def)
  qed
  have fin: "d2_sha256 x \<in> set (protected_digests j1 k)"
    if c: "c \<in> set chain" "v_tomb v (cm_id c) = None" "cm_result c = r" "cm_id c \<noteq> k" for c
  proof (cases "v_act v (cm_id c)")
    case None
    from disk_inv_prepared_commit [OF inv c(1,2)] obtain p where
      "v_prep v (cm_id c) = Some p" "pr_result p = cm_result c" by blast
    with mirrors_inactive [OF mp None] prep [of "cm_id c" p] c show ?thesis by simp
  next
    case (Some a)
    with co c have "map_of (j_completions j) (cm_id c) = Some r" unfolding completions_inv_def by blast
    with comp c(4) show ?thesis by blast
  qed
  from r show ?thesis
    unfolding needed_def
  proof (elim disjE bexE exE conjE)
    fix c assume "c \<in> set chain" "v_tomb (v\<lparr>v_tomb := (v_tomb v)(k \<mapsto> t)\<rparr>) (cm_id c) = None" "r = cm_result c"
    then show ?thesis using fin [of c] by (simp split: if_splits)
  next
    fix k' g p assume g: "v_stg (v\<lparr>v_tomb := (v_tomb v)(k \<mapsto> t)\<rparr>) k' = Some g"
      "v_tomb (v\<lparr>v_tomb := (v_tomb v)(k \<mapsto> t)\<rparr>) k' = None"
      "v_prep (v\<lparr>v_tomb := (v_tomb v)(k \<mapsto> t)\<rparr>) k' = Some p" "r = pr_result p"
    then have ne: "k' \<noteq> k" and tn: "v_tomb v k' = None" and vp: "v_prep v k' = Some p"
      by (simp_all split: if_splits)
    show ?thesis
    proof (cases "v_act v k'")
      case None
      with mirrors_inactive [OF mp None] prep [of k' p] vp g(4) ne show ?thesis by simp
    next
      case (Some a)
      from disk_inv_active [OF inv Some] obtain c where c: "c \<in> set chain" "cm_id c = k'" by blast
      from disk_inv_prepared_commit [OF inv c(1)] c(2) tn vp have "pr_result p = cm_result c" by auto
      with fin [of c] c tn ne g(4) show ?thesis by simp
    qed
  qed
qed

lemma retire_view:
  assumes io: "io_ok io" and v: "holds io sha key d v" "disk_inv io s key ids d v chain"
      "mem_inv s key sha v chain j"
    and r: "map_of (j_completions j) k = Some result"
    and op: "retire io j d k result now retention = Inr (j1, es)" and f: "fits es"
  obtains t where "puts Tombstones es"
    "holds io sha key (run_effects es d) (v\<lparr>v_tomb := (v_tomb v)(k \<mapsto> t)\<rparr>)"
    "disk_inv io s key ids (run_effects es d) (v\<lparr>v_tomb := (v_tomb v)(k \<mapsto> t)\<rparr>) chain"
    "map_of (j_tombstones j1) = (v_tomb v)(k \<mapsto> t)" "bt_wf (j_tombstones j1)"
    "j1 = j\<lparr>j_tombstones := j_tombstones j1\<rparr>"
proof -
  note m = mem_inv_simps [OF v(3)]
  have wf: "bt_wf (j_tombstones j)" using v(3) by (simp add: mem_inv_def)
  from completion_commit [OF v(2,3) r] obtain c where
      c: "c \<in> set chain" "cm_id c = k" "cm_result c = result" "v_act v k \<noteq> None" "k \<in> ids"
      "\<forall>e\<in>set chain. cm_id e = k \<longrightarrow> e = c" .
  from op obtain dg where dg: "result_record_digest (io_crypto io) result = Inr dg"
    by (auto simp: retire_def bind_res_Inr_iff)
  show thesis
  proof (cases "map_of (j_tombstones j) k")
    case (Some t)
    with op dg have "j1 = j" "es = []" by (auto simp: retire_def split: if_splits)
    moreover have t: "v_tomb v k = Some t" using Some m(6) by simp
    ultimately show thesis
      using that [of t] v(1,2) wf m(6) by (simp add: puts_def map_upd_triv)
  next
    case None
    define t where "t = \<lparr>tb_request_id = k, tb_result_sha256 = dg, tb_retired_unix_ms = now\<rparr>"
    from op dg None have w: "write_slot io j d Tombstones k ''tombstone'' (fst (io_tombstone io)) t = Inr es"
      and j1: "j1 = j\<lparr>j_tombstones := bt_insert k t (j_tombstones j)\<rparr>"
      by (auto simp: retire_def bind_res_Inr_iff Let_def t_def)
    have tid: "tb_request_id t = k" by (simp add: t_def)
    from write_tombstone [OF io v(1) m(3,1) w tid f] have put: "puts Tombstones es"
      and h: "holds io sha key (run_effects es d) (v\<lparr>v_tomb := (v_tomb v)(k \<mapsto> t)\<rparr>)" by simp_all
    have base: "disk_inv io s key ids (run_effects es d) v chain"
      using v(2) by (rule disk_inv_frags) (simp add: puts_frags [OF put])
    have "result_record_digest (io_crypto io) (cm_result e) = Inr (tb_result_sha256 t)"
      if "e \<in> set chain" "cm_id e = k" for e using c(3,6) that dg by (auto simp: t_def)
    from disk_inv_tomb [OF base c(4) this] put h j1 wf m(6) show thesis
      using that [of t] by simp
  qed
qed

text \<open>Two views that agree except on the evidence of one request.\<close>

definition agree_off :: "string \<Rightarrow> view \<Rightarrow> view \<Rightarrow> bool" where
  "agree_off k v w \<longleftrightarrow> v_cmt w = v_cmt v \<and> v_act w = v_act v \<and> v_tomb w = v_tomb v
     \<and> (\<forall>k'. k' \<noteq> k \<longrightarrow> v_res w k' = v_res v k' \<and> v_prep w k' = v_prep v k' \<and> v_stg w k' = v_stg v k'
          \<and> v_ack w k' = v_ack v k')"

lemma remove_evidence_keeps:
  assumes inj: "inj_on (slot_name io) ids" and k: "k \<in> ids" "v_tomb v k \<noteq> None"
    and Q: "\<exists>w. holds io sha key d w \<and> disk_inv io s key ids d w chain \<and> agree_off k v w"
    and dir: "dir \<in> {Reservations, Prepared, Staged, Acks}"
  shows "\<exists>w. holds io sha key (apply_effect (RemoveFile dir (slot_name io k)) d) w
    \<and> disk_inv io s key ids (apply_effect (RemoveFile dir (slot_name io k)) d) w chain \<and> agree_off k v w"
proof -
  from Q obtain w where w: "holds io sha key d w" "disk_inv io s key ids d w chain" "agree_off k v w" by blast
  have ids: "ids_inv ids w" using w(2) by (simp add: disk_inv_def)
  have tk: "v_tomb w k \<noteq> None" using w(3) k(2) by (simp add: agree_off_def)
  note h = holds_remove [OF w(1) ids inj k(1)] and dd = disk_inv_drop [OF w(2) tk]
  have fr: "disk_inv io s key ids (apply_effect (RemoveFile dir (slot_name io k)) d) w' chain"
    if "disk_inv io s key ids d w' chain" for w'
    using that
  proof (rule disk_inv_frags)
    fix r assume "frags_ok io d r"
    moreover have "files d Fragments = files (apply_effect (RemoveFile dir (slot_name io k)) d) Fragments"
      using dir by auto
    ultimately show "frags_ok io (apply_effect (RemoveFile dir (slot_name io k)) d) r"
      using frags_ok_cong by blast
  qed
  from dir consider "dir = Reservations" | "dir = Prepared" | "dir = Staged" | "dir = Acks" by blast
  then show ?thesis
  proof cases
    case 1
    with h(1) fr [OF dd(1)] w(3) show ?thesis
      by (intro exI [of _ "w\<lparr>v_res := (v_res w)(k := None)\<rparr>"]) (simp add: agree_off_def)
  next
    case 2
    with h(2) fr [OF dd(2)] w(3) show ?thesis
      by (intro exI [of _ "w\<lparr>v_prep := (v_prep w)(k := None)\<rparr>"]) (simp add: agree_off_def)
  next
    case 3
    with h(3) fr [OF dd(3)] w(3) show ?thesis
      by (intro exI [of _ "w\<lparr>v_stg := (v_stg w)(k := None)\<rparr>"]) (simp add: agree_off_def)
  next
    case 4
    with h(4) fr [OF dd(4)] w(3) show ?thesis
      by (intro exI [of _ "w\<lparr>v_ack := (v_ack w)(k := None)\<rparr>"]) (simp add: agree_off_def)
  qed
qed

definition forget :: "string \<Rightarrow> journal \<Rightarrow> journal" where
  "forget k j = j\<lparr>j_reservations := bt_remove k (j_reservations j), j_prepared := bt_remove k (j_prepared j),
     j_staged := bt_remove k (j_staged j), j_completions := bt_remove k (j_completions j),
     j_acknowledgements := bt_remove k (j_acknowledgements j)\<rparr>"

lemma mirrors_forget:
  assumes "mirrors v m f" "v_act v k \<noteq> None" "\<And>k'. k' \<noteq> k \<Longrightarrow> g k' = f k'"
    and "v_act w = v_act v" "v_tomb w = (v_tomb v)(k \<mapsto> t)"
  shows "mirrors w (bt_remove k m) g"
  unfolding mirrors_def
proof (intro conjI allI impI)
  show "bt_wf (bt_remove k m)" using assms(1) by (simp add: mirrors_def)
  show "map_of (bt_remove k m) \<subseteq>\<^sub>m g"
    using assms(1,3) by (auto simp: mirrors_def map_le_def dom_def split: if_splits)
  show "map_of (bt_remove k m) k' = g k'" if "v_act w k' = None" for k'
    using that assms by (cases "k' = k") (auto simp: mirrors_def)
  show "map_of (bt_remove k m) k' = None" if "v_tomb w k' \<noteq> None" for k'
    using that assms(1,5) by (cases "k' = k") (auto simp: mirrors_def)
qed

lemma mem_inv_forget:
  assumes mem: "mem_inv s key sha v chain j" and act: "v_act v k \<noteq> None"
    and w: "agree_off k (v\<lparr>v_tomb := (v_tomb v)(k \<mapsto> t)\<rparr>) w"
    and tb: "map_of x = (v_tomb v)(k \<mapsto> t)" "bt_wf x"
  shows "mem_inv s key sha w chain (forget k (j\<lparr>j_tombstones := x\<rparr>))"
proof -
  have eq: "v_act w = v_act v" "v_tomb w = (v_tomb v)(k \<mapsto> t)"
    and off: "k' \<noteq> k \<Longrightarrow> v_res w k' = v_res v k' \<and> v_prep w k' = v_prep v k' \<and> v_stg w k' = v_stg v k'
          \<and> v_ack w k' = v_ack v k'" for k'
    using w by (simp_all add: agree_off_def)
  have part: "active_part w chain = active_part v chain" by (simp add: active_part_def eq)
  have mir: "mirrors w (bt_remove k (j_reservations j)) (v_res w)"
      "mirrors w (bt_remove k (j_prepared j)) (v_prep w)" "mirrors w (bt_remove k (j_staged j)) (v_stg w)"
    using mem off by (auto simp: mem_inv_def intro: mirrors_forget [OF _ act _ eq])
  have co: "completions_inv v chain (j_completions j)" using mem by (simp add: mem_inv_def)
  have com: "completions_inv w chain (bt_remove k (j_completions j))"
    unfolding completions_inv_def eq
  proof (intro conjI allI impI ballI)
    show "bt_wf (bt_remove k (j_completions j))" using co by (simp add: completions_inv_def)
  next
    fix k' r assume "map_of (bt_remove k (j_completions j)) k' = Some r"
    then have "map_of (j_completions j) k' = Some r" by (simp split: if_splits)
    with co show "v_act v k' \<noteq> None" "\<exists>c\<in>set chain. cm_id c = k' \<and> cm_result c = r"
      unfolding completions_inv_def by blast+
  next
    fix c assume c: "c \<in> set chain" "v_act v (cm_id c) \<noteq> None" "((v_tomb v)(k \<mapsto> t)) (cm_id c) = None"
    then have ne: "cm_id c \<noteq> k" "v_tomb v (cm_id c) = None" by (simp_all split: if_splits)
    with co c have "map_of (j_completions j) (cm_id c) = Some (cm_result c)"
      unfolding completions_inv_def by blast
    with ne show "map_of (bt_remove k (j_completions j)) (cm_id c) = Some (cm_result c)" by simp
  qed
  have ak: "bt_wf (j_acknowledgements j)" "map_of (j_acknowledgements j) \<subseteq>\<^sub>m v_ack v"
      "\<forall>k. v_tomb v k = None \<longrightarrow> map_of (j_acknowledgements j) k = v_ack v k"
    using mem by (simp_all add: mem_inv_def)
  have "map_of (bt_remove k (j_acknowledgements j)) \<subseteq>\<^sub>m v_ack w"
    using ak(2) off by (auto simp: map_le_def dom_def split: if_splits)
  moreover have "map_of (bt_remove k (j_acknowledgements j)) k' = v_ack w k'" if "v_tomb w k' = None" for k'
    using that ak(3) off eq(2) by (cases "k' = k") auto
  ultimately show ?thesis
    using mem mir com tb ak(1) unfolding mem_inv_def part eq by (simp add: forget_def)
qed

lemma garbage_collect_keeps:
  assumes io: "io_ok io" and inj: "inj_on (slot_name io) ids"
    and sy: "synced io s key sha ids A chain j d"
    and op: "garbage_collect io j d k now retention = (res, j', es)" and f: "fits es"
  shows "keeps io s key sha ids A chain d j' es"
proof (cases "j' = j \<and> es = []")
  case True
  with keeps_nothing [OF sy] show ?thesis by simp
next
  case False
  from sy obtain v where v: "holds io sha key d v" "disk_inv io s key ids d v chain"
      "mem_inv s key sha v chain j" "A \<subseteq> dom (v_act v)" by (auto simp: synced_def)
  from op False obtain result j1 es1 where
      r: "map_of (j_completions j) k = Some result" and rt: "retire io j d k result now retention = Inr (j1, es1)"
    by (auto simp: garbage_collect_def split: option.splits sum.splits prod.splits)
  define d1 where "d1 = run_effects es1 d"
  define names where "names = map fragment_name (filter (\<lambda>dg. dg \<notin> set (protected_digests j1 k))
      (map d2_sha256 (o2_fragments (body result))))"
  define es2 where "es2 = remove_all d1 (map (Pair Fragments) names)"
  define d2 where "d2 = run_effects es2 d1"
  define es3 where "es3 = remove_all d2
      (map (\<lambda>dir. (dir, slot_name io k)) [Reservations, Prepared, Staged, Acks])"
  have es: "es = es1 @ es2 @ es3" and j': "j' = forget k j1"
    using op r rt by (simp_all add: garbage_collect_def Let_def forget_def d1_def names_def es2_def d2_def es3_def)
  have f1: "fits es1" using f es by simp
  from retire_view [OF io v(1,2,3) r rt f1, folded d1_def] obtain t where
      put: "puts Tombstones es1" and h1: "holds io sha key d1 (v\<lparr>v_tomb := (v_tomb v)(k \<mapsto> t)\<rparr>)"
    and i1: "disk_inv io s key ids d1 (v\<lparr>v_tomb := (v_tomb v)(k \<mapsto> t)\<rparr>) chain"
    and tb: "map_of (j_tombstones j1) = (v_tomb v)(k \<mapsto> t)" "bt_wf (j_tombstones j1)"
    and j1: "j1 = j\<lparr>j_tombstones := j_tombstones j1\<rparr>" .
  let ?v1 = "v\<lparr>v_tomb := (v_tomb v)(k \<mapsto> t)\<rparr>"
  from completion_commit [OF v(2,3) r] have act: "v_act v k \<noteq> None" and kid: "k \<in> ids" by blast+
  have same: "j_completions j1 = j_completions j" "j_prepared j1 = j_prepared j"
    using arg_cong [OF j1, of j_completions] arg_cong [OF j1, of j_prepared] by simp_all
  let ?Q2 = "\<lambda>d. holds io sha key d ?v1 \<and> disk_inv io s key ids d ?v1 chain"
  have "all_safe ?Q2 es2 d1 \<and> ?Q2 d2"
    unfolding es2_def d2_def
  proof (rule remove_all_safe)
    show "?Q2 d1" using h1 i1 by simp
    fix dir name e assume p: "(dir, name) \<in> set (map (Pair Fragments) names)" and q: "?Q2 e"
    from p obtain dg where dg: "dir = Fragments" "name = fragment_name dg"
        "dg \<notin> set (protected_digests j1 k)" by (auto simp: names_def)
    show "?Q2 (apply_effect (RemoveFile dir name) e)"
      unfolding dg(1,2)
    proof (rule remove_fragment_keeps)
      fix r x assume "needed ?v1 chain r" "x \<in> set (o2_fragments (body r))"
      from needed_protected [OF v(2,3) act this same] dg(3) show "d2_sha256 x \<noteq> dg" by auto
    qed (use q in simp_all)
  qed
  then have s2: "all_safe ?Q2 es2 d1" and q2: "?Q2 d2" by simp_all
  let ?Q3 = "\<lambda>d. \<exists>w. holds io sha key d w \<and> disk_inv io s key ids d w chain \<and> agree_off k ?v1 w"
  have "all_safe ?Q3 es3 d2 \<and> ?Q3 (run_effects es3 d2)"
    unfolding es3_def
  proof (rule remove_all_safe)
    show "?Q3 d2" using q2 by (auto simp: agree_off_def)
    fix dir name e assume p: "(dir, name) \<in> set (map (\<lambda>dir. (dir, slot_name io k)) [Reservations, Prepared, Staged, Acks])"
      and q: "?Q3 e"
    have "name = slot_name io k" "dir \<in> {Reservations, Prepared, Staged, Acks}" using p by auto
    then show "?Q3 (apply_effect (RemoveFile dir name) e)"
      using remove_evidence_keeps [OF inj kid _ q] by simp
  qed
  then have s3: "all_safe ?Q3 es3 d2" and q3: "?Q3 (run_effects es3 d2)" by simp_all
  let ?G = "\<lambda>d'. \<exists>cs. good io s key sha ids A (chain @ cs) d'"
  have G: "?G d'" if "holds io sha key d' w" "disk_inv io s key ids d' w chain" "v_act w = v_act v" for d' w
    unfolding good_def using that v(4) by (metis append_Nil2)
  have "all_safe ?G es1 d"
    using G [OF v(1,2) refl] G [OF h1 i1] unfolding d1_def by (intro puts_safe [OF put]) simp_all
  moreover have "all_safe ?G es2 d1" using s2 by (rule all_safe_mono) (rule G [of _ ?v1], simp_all)
  moreover have "all_safe ?G es3 d2" using s3
  proof (rule all_safe_mono)
    fix d' assume "?Q3 d'"
    then obtain w where "holds io sha key d' w" "disk_inv io s key ids d' w chain" "v_act w = v_act v"
      by (auto simp: agree_off_def)
    then show "?G d'" by (rule G)
  qed
  ultimately have "all_safe ?G es d"
    unfolding es by (intro all_safe_append) (simp_all add: d1_def d2_def)
  moreover have "synced io s key sha ids A (chain @ []) j' (run_effects es d)"
  proof -
    from q3 obtain w where w: "holds io sha key (run_effects es d) w" "disk_inv io s key ids (run_effects es d) w chain"
        "agree_off k ?v1 w" unfolding es by (auto simp: d1_def d2_def)
    from mem_inv_forget [OF v(3) act w(3) tb, folded j1] have "mem_inv s key sha w chain j'" unfolding j' .
    moreover have "v_act w = v_act v" using w(3) by (simp add: agree_off_def)
    ultimately show ?thesis unfolding synced_def using w(1,2) v(4) by (metis append_Nil2)
  qed
  ultimately show ?thesis unfolding keeps_def by blast
qed

end
