(* ===== verification/Journal_Safety.thy ===== *)
theory Journal_Safety
  imports Journal_Correct
begin

section \<open>Runs of the journal with crashes\<close>

text \<open>
  The journal as a transition system. A state is the journal in memory and its disk; a step is one
  operation of \<open>DurableVerifierJournalV2\<close>, or an operation that a crash cuts off, between two effects
  or inside the write of a fragment, followed by opening the journal again. A crash inside the write
  of a slot file ends the run, as the journal does not open after it (\<open>crash_recovery\<close>). What a cut
  leaves out is what the crash loses: the effects before it are taken as durable, which every write
  is, as it ends with the sync of its file and directory, and the removals of \<open>garbage_collect\<close> are
  not before the next write to their directory. The invariant of \<open>Journal_Correct\<close> is an invariant of the
  system, and the properties of its reachable states are the contract of the journal: it opens
  again, opening loses nothing that was decided, the transcript only grows, a decision once completed
  never changes, and the renderer is activated only for a decision that is already on the disk.
\<close>

subsection \<open>Operations and steps\<close>

datatype journal_op =
  OpReserve auth_round_v2 fence nat
| OpPrepare auth_round_v2 auth_result_v2 fence nat
| OpStage auth_round_v2 closure_v2 "auth_result_v2 \<Rightarrow> closure_v2 \<Rightarrow> nat \<Rightarrow> string + stage_receipt" nat
| OpCommit auth_round_v2 fence "stage_receipt \<Rightarrow> string + unit" nat
| OpRecover "stage_receipt \<Rightarrow> string + unit" nat
| OpAcknowledge string string nat
| OpCollect string nat nat

fun run_op :: "journal_io \<Rightarrow> journal_op \<Rightarrow> journal \<Rightarrow> disk \<Rightarrow> journal \<times> effect list" where
  "run_op io (OpReserve request permits now) j d = snd (reserve io j d request permits now)"
| "run_op io (OpPrepare request result permits now) j d = snd (record_prepared io j d request result permits now)"
| "run_op io (OpStage request closure stage now) j d = snd (stage_result io j d request closure stage now)"
| "run_op io (OpCommit request permits activate now) j d = snd (commit_and_activate io j d request permits activate now)"
| "run_op io (OpRecover activate now) j d = snd (recover_pending io j d activate now)"
| "run_op io (OpAcknowledge k head now) j d = snd (acknowledge io j d k head now)"
| "run_op io (OpCollect k now retention) j d = snd (garbage_collect io j d k now retention)"

text \<open>What a caller owes. The request ids of a run are in a set on which the slot names, which are
  SHA-256 digests, do not collide; a closure comes from an assembler, whose fields are private to it;
  the request committed is the request reserved, which \<open>commit_and_activate\<close> does not check itself;
  and no slot file is larger than the limit its reader enforces.\<close>

fun op_ok :: "journal_io \<Rightarrow> string set \<Rightarrow> journal \<Rightarrow> journal_op \<Rightarrow> bool" where
  "op_ok io ids j (OpReserve request permits now) \<longleftrightarrow> r2_request_id (body request) \<in> ids"
| "op_ok io ids j (OpStage request closure stage now) \<longleftrightarrow> closure_ok_v2 (io_crypto io) closure"
| "op_ok io ids j (OpCommit request permits activate now) \<longleftrightarrow> same_request j request"
| "op_ok io ids j op \<longleftrightarrow> True"

definition performs ::
  "journal_io \<Rightarrow> string set \<Rightarrow> journal \<Rightarrow> disk \<Rightarrow> journal_op \<Rightarrow> journal \<Rightarrow> effect list \<Rightarrow> bool" where
  "performs io ids j d op j' es \<longleftrightarrow> op_ok io ids j op \<and> run_op io op j d = (j', es) \<and> fits es"

inductive journal_step ::
  "journal_io \<Rightarrow> string set \<Rightarrow> string \<Rightarrow> nat \<Rightarrow> journal \<times> disk \<Rightarrow> journal \<times> disk \<Rightarrow> bool"
  for io ids key_id epoch where
  Operate: "performs io ids j d op j' es \<Longrightarrow> journal_step io ids key_id epoch (j, d) (j', run_effects es d)"
| Crash: "performs io ids j d op j1 es \<Longrightarrow> \<not> torn es n m \<Longrightarrow>
    open_journal io (run_effects (cut_effects es n m) d) (j_key j) key_id epoch = Inr j' \<Longrightarrow>
    journal_step io ids key_id epoch (j, d) (j', run_effects (cut_effects es n m) d)"

definition created ::
  "journal_io \<Rightarrow> auth_session_v2 \<Rightarrow> bytes \<Rightarrow> nat \<Rightarrow> string \<Rightarrow> nat \<Rightarrow> journal \<times> disk \<Rightarrow> bool" where
  "created io s key now key_id epoch st \<longleftrightarrow>
     create io True s key now key_id epoch = Inr st
     \<and> (\<forall>b. session_file (snd st) = Some b \<longrightarrow> length b \<le> SESSION_BYTES)"

text \<open>The reachable states of a journal: what a run that began with \<open>create\<close> can get to.\<close>

definition journal_run ::
  "journal_io \<Rightarrow> string set \<Rightarrow> auth_session_v2 \<Rightarrow> bytes \<Rightarrow> string \<Rightarrow> nat \<Rightarrow> journal \<times> disk \<Rightarrow> bool" where
  "journal_run io ids s key key_id epoch =
     reachable (\<lambda>st. \<exists>now. created io s key now key_id epoch st) (journal_step io ids key_id epoch)"

subsection \<open>The invariant\<close>

lemma op_keeps:
  assumes "io_ok io" "inj_on (slot_name io) ids" "synced io s key sha ids A chain j d"
    and "performs io ids j d op j' es"
  shows "keeps io s key sha ids A chain d j' es"
proof (cases op)
  case (OpReserve r p n)
  with assms show ?thesis
    using reserve_keeps [of io s key sha ids A chain j d r p n] by (cases "reserve io j d r p n") (simp add: performs_def)
next
  case (OpPrepare r x p n)
  with assms show ?thesis
    using record_prepared_keeps [of io s key sha ids A chain j d r x p n]
    by (cases "record_prepared io j d r x p n") (simp add: performs_def)
next
  case (OpStage r c f n)
  with assms show ?thesis
    using stage_result_keeps [of io s key sha ids A chain j d c r f n]
    by (cases "stage_result io j d r c f n") (simp add: performs_def)
next
  case (OpCommit r p f n)
  with assms show ?thesis
    using commit_and_activate_keeps [of io ids s key sha A chain j d r p f n]
    by (cases "commit_and_activate io j d r p f n") (simp add: performs_def)
next
  case (OpRecover f n)
  with assms show ?thesis
    using recover_pending_keeps [of io ids s key sha A chain j d f n]
    by (cases "recover_pending io j d f n") (simp add: performs_def)
next
  case (OpAcknowledge k h n)
  with assms show ?thesis
    using acknowledge_keeps [of io s key sha ids A chain j d k h n]
    by (cases "acknowledge io j d k h n") (simp add: performs_def)
next
  case (OpCollect k n r)
  with assms show ?thesis
    using garbage_collect_keeps [of io ids s key sha A chain j d k n r]
    by (cases "garbage_collect io j d k n r") (simp add: performs_def)
qed

definition jinv ::
  "journal_io \<Rightarrow> string set \<Rightarrow> auth_session_v2 \<Rightarrow> bytes \<Rightarrow> string \<Rightarrow> nat \<Rightarrow> string set \<Rightarrow> commit_record list
     \<Rightarrow> journal \<times> disk \<Rightarrow> bool" where
  "jinv io ids s key key_id epoch A chain st \<longleftrightarrow>
     (\<exists>sha cs. session_on_disk io s key sha key_id epoch (snd st)
        \<and> synced io s key sha ids A (chain @ cs) (fst st) (snd st))"

lemma session_on_disk_run [simp]:
  "session_on_disk io s key sha key_id epoch (run_effects es d) \<longleftrightarrow> session_on_disk io s key sha key_id epoch d"
  by (simp add: session_on_disk_def)

text \<open>Opening a good disk.\<close>

lemma good_opens:
  assumes "io_ok io" "session_on_disk io s key sha key_id epoch d" "good io s key sha ids A chain d"
  shows "\<exists>j. open_journal io d key key_id epoch = Inr j \<and> synced io s key sha ids A chain j d"
proof -
  from assms(3) obtain v where "holds io sha key d v" "disk_inv io s key ids d v chain" "A \<subseteq> dom (v_act v)"
    by (auto simp: good_def)
  with open_ok [OF assms(1,2), of v ids chain] show ?thesis unfolding synced_def by blast
qed

lemma synced_key: "synced io s key sha ids A chain j d \<Longrightarrow> j_key j = key"
  by (auto simp: synced_def mem_inv_def)

lemma crash_opens:
  assumes io: "io_ok io" and inj: "inj_on (slot_name io) ids"
    and inv: "jinv io ids s key key_id epoch A chain (j, d)" and op: "performs io ids j d op j' es"
    and w: "\<not> torn es n m"
  shows "\<exists>j1. open_journal io (run_effects (cut_effects es n m) d) (j_key j) key_id epoch = Inr j1
    \<and> jinv io ids s key key_id epoch A chain (j1, run_effects (cut_effects es n m) d)"
proof -
  from inv obtain sha cs where sd: "session_on_disk io s key sha key_id epoch d"
    and sy: "synced io s key sha ids A (chain @ cs) j d" by (auto simp: jinv_def)
  from op_keeps [OF io inj sy op] w obtain ds where
      g: "good io s key sha ids A ((chain @ cs) @ ds) (run_effects (cut_effects es n m) d)"
    by (auto simp: keeps_def all_safe_def)
  have "session_on_disk io s key sha key_id epoch (run_effects (cut_effects es n m) d)" using sd by simp
  from good_opens [OF io this g] this show ?thesis
    using synced_key [OF sy] unfolding jinv_def fst_conv snd_conv append_assoc by blast
qed

lemma jinv_step:
  assumes io: "io_ok io" and inj: "inj_on (slot_name io) ids"
    and st: "journal_step io ids key_id epoch st st'" and inv: "jinv io ids s key key_id epoch A chain st"
  shows "jinv io ids s key key_id epoch A chain st'"
  using st inv
proof (cases rule: journal_step.cases)
  case (Operate j d op j' es)
  with inv obtain sha cs where sd: "session_on_disk io s key sha key_id epoch d"
    and sy: "synced io s key sha ids A (chain @ cs) j d" by (auto simp: jinv_def)
  from op_keeps [OF io inj sy Operate(3)] obtain ds where
      "synced io s key sha ids A ((chain @ cs) @ ds) j' (run_effects es d)" by (auto simp: keeps_def)
  with sd Operate(2) show ?thesis unfolding jinv_def by auto
next
  case (Crash j d op j1 es n m j')
  with crash_opens [OF io inj, of s key key_id epoch A chain j d op j1 es n m] inv show ?thesis by auto
qed

lemma jinv_created:
  assumes "created io s key now key_id epoch st"
  shows "jinv io ids s key key_id epoch {} [] st"
proof -
  obtain j d where st: "st = (j, d)" by force
  with assms obtain b where live: "session_verify_live (io_crypto io) s key now key_id epoch = Inr ()"
    and b: "json_auth_session_v2 (io_crypto io) s = Inr b" "d = \<lparr>session_file = Some b, files = (\<lambda>_. [])\<rparr>"
    and j: "from_session io key s = Inr j" and len: "length b \<le> SESSION_BYTES"
    by (auto simp: created_def create_def bind_res_Inr_iff)
  from j obtain sha where sha: "session_record_digest (io_crypto io) s = Inr sha"
    by (auto simp: from_session_def bind_res_Inr_iff)
  have "session_verify_historical_v2 (io_crypto io) s key key_id epoch = Inr ()"
    using live by (simp add: session_verify_live_def bind_res_Inr_iff all_ok.simps(1))
  then have sd: "session_on_disk io s key sha key_id epoch d"
    using b sha len by (simp add: session_on_disk_def)
  define v where "v = \<lparr>v_res = Map.empty, v_prep = Map.empty, v_stg = Map.empty, v_cmt = Map.empty,
    v_act = Map.empty, v_ack = Map.empty, v_tomb = Map.empty\<rparr>"
  have "holds io sha key d v" by (simp add: holds_def v_def b(2) holds_slots_empty)
  moreover have "disk_inv io s key ids d v []"
    by (simp add: disk_inv_def chain_inv_def phases_inv_def retry_inv_def child_inv_def ids_inv_def v_def
        commit_map_def)
  moreover have "mem_inv s key sha v [] j"
    using j sha by (auto simp: from_session_def mem_inv_def v_def pos_of_def genesis_pos_def active_part_def
        mirrors_def completions_inv_def)
  ultimately have "synced io s key sha ids {} [] j d" unfolding synced_def by blast
  with sd st show ?thesis unfolding jinv_def by fastforce
qed

interpretation journal: invariant_system "\<lambda>st. \<exists>now. created io s key now key_id epoch st"
    "journal_step io ids key_id epoch"
    "\<lambda>st. io_ok io \<longrightarrow> inj_on (slot_name io) ids \<longrightarrow> jinv io ids s key key_id epoch {} [] st"
  for io ids s key key_id epoch
  by unfold_locales (auto intro: jinv_created jinv_step)

lemma journal_run_inv:
  assumes "io_ok io" "inj_on (slot_name io) ids" "journal_run io ids s key key_id epoch st"
  shows "jinv io ids s key key_id epoch {} [] st"
  using journal.inv_reachable [of io s key key_id epoch ids st] assms by (simp add: journal_run_def)

lemma jinv_steps:
  assumes "io_ok io" "inj_on (slot_name io) ids" "(journal_step io ids key_id epoch)\<^sup>*\<^sup>* st st'"
    and "jinv io ids s key key_id epoch A chain st"
  shows "jinv io ids s key key_id epoch A chain st'"
  using assms(3,4) by (induction rule: rtranclp_induct) (auto intro: jinv_step [OF assms(1,2)])

text \<open>What a reachable state looks like: its records and its chain of decisions. The decisions that
  are active now are active in every later state.\<close>

lemma jinvE:
  assumes "jinv io ids s key key_id epoch A chain (j, d)"
  obtains sha v cs where "session_on_disk io s key sha key_id epoch d" "holds io sha key d v"
    "disk_inv io s key ids d v (chain @ cs)" "mem_inv s key sha v (chain @ cs) j" "A \<subseteq> dom (v_act v)"
    "jinv io ids s key key_id epoch (dom (v_act v)) (chain @ cs) (j, d)"
proof -
  from assms obtain sha cs v where
      "session_on_disk io s key sha key_id epoch d" "holds io sha key d v"
      "disk_inv io s key ids d v (chain @ cs)" "mem_inv s key sha v (chain @ cs) j" "A \<subseteq> dom (v_act v)"
    by (auto simp: jinv_def synced_def)
  moreover from this have "jinv io ids s key key_id epoch (dom (v_act v)) (chain @ cs) (j, d)"
    unfolding jinv_def synced_def fst_conv snd_conv by (metis append_Nil2 order_refl)
  ultimately show thesis by (rule that)
qed

lemma journal_runE:
  assumes "io_ok io" "inj_on (slot_name io) ids" "journal_run io ids s key key_id epoch (j, d)"
  obtains sha v chain where "session_on_disk io s key sha key_id epoch d" "holds io sha key d v"
    "disk_inv io s key ids d v chain" "mem_inv s key sha v chain j"
    "jinv io ids s key key_id epoch (dom (v_act v)) chain (j, d)"
  using journal_run_inv [OF assms] by (rule jinvE) (use that in simp)

subsection \<open>The transcript only grows\<close>

definition chain_tokens :: "commit_record list \<Rightarrow> nat list" where
  "chain_tokens cs = concat (map (\<lambda>c. o2_committed_tokens (body (cm_result c))) cs)"

lemma pos_after_tokens: "p_tokens (pos_after p cs) = p_tokens p @ chain_tokens cs"
  by (induction cs arbitrary: p) (simp_all add: chain_tokens_def pos_next_def)

lemma pos_after_height:
  "linked_from io p cs \<Longrightarrow> \<forall>c\<in>set cs. commit_ok io s key c \<Longrightarrow>
     p_height (pos_after p cs) = p_height p + length (chain_tokens cs)"
proof (induction cs arbitrary: p)
  case (Cons c cs)
  then have "p_height (pos_next (cm_result c) p) = p_height p + length (o2_committed_tokens (body (cm_result c)))"
    using verified_height [of "io_crypto io" "cm_result c" "cm_request c" "body s"]
    by (simp add: commit_ok_def pos_match_def pos_next_def)
  with Cons show ?case by (simp add: chain_tokens_def)
qed (simp add: chain_tokens_def)

lemma active_part_prefix:
  assumes "disk_inv io s key ids d v chain"
  shows "\<exists>ys. chain = active_part v chain @ ys"
  using active_part_cases [of chain v] assms unfolding disk_inv_def chain_inv_def by (metis append_Nil2)

lemma active_part_active: "c \<in> set (active_part v chain) \<Longrightarrow> c \<in> set chain \<and> v_act v (cm_id c) \<noteq> None"
  by (simp add: active_part_def)

lemma active_part_grows:
  assumes "disk_inv io s key ids d v chain" "dom (v_act v) \<subseteq> dom (v_act w)"
  shows "\<exists>ds. active_part w (chain @ cs) = active_part v chain @ ds"
proof -
  from active_part_prefix [OF assms(1)] obtain ys where ys: "chain = active_part v chain @ ys" ..
  have "active_part w (active_part v chain) = active_part v chain"
    using assms(2) active_part_active [of _ v chain] unfolding active_part_def [of w]
    by (intro filter_True) blast
  moreover have "active_part w (chain @ cs)
      = active_part w (active_part v chain) @ active_part w (ys @ cs)"
    by (subst ys) (simp add: active_part_def)
  ultimately show ?thesis by auto
qed

lemma linked_active:
  assumes "disk_inv io s key ids d v chain"
  shows "linked_from io (genesis_pos s) (active_part v chain)"
    "\<forall>c\<in>set (active_part v chain). commit_ok io s key c"
proof -
  have ch: "linked_from io (genesis_pos s) chain" "\<forall>c\<in>set chain. commit_ok io s key c"
    using assms by (simp_all add: disk_inv_def chain_inv_def)
  from active_part_prefix [OF assms] ch(1) show "linked_from io (genesis_pos s) (active_part v chain)"
    by (metis linked_from_append)
  show "\<forall>c\<in>set (active_part v chain). commit_ok io s key c" using ch(2) by (simp add: active_part_def)
qed

lemma position_of_run:
  assumes "disk_inv io s key ids d v chain" "mem_inv s key sha v chain j"
  shows "j_evaluated_tokens j = s2_initial_evaluated_tokens (body s) @ chain_tokens (active_part v chain)"
    "j_output_height j = s2_initial_output_height (body s) + length (chain_tokens (active_part v chain))"
proof -
  have "pos_of j = pos_after (genesis_pos s) (active_part v chain)" by (rule mem_inv_simps(4) [OF assms(2)])
  then show "j_evaluated_tokens j = s2_initial_evaluated_tokens (body s) @ chain_tokens (active_part v chain)"
    "j_output_height j = s2_initial_output_height (body s) + length (chain_tokens (active_part v chain))"
    using pos_after_tokens [of "genesis_pos s"] pos_after_height [OF linked_active [OF assms(1)]]
    by (auto simp: pos_of_def genesis_pos_def dest: arg_cong [of _ _ p_tokens] arg_cong [of _ _ p_height])
qed

text \<open>How a later state compares with an earlier one.\<close>

definition extends :: "journal \<Rightarrow> journal \<Rightarrow> bool" where
  "extends j j' \<longleftrightarrow>
     (\<exists>ts. j_evaluated_tokens j' = j_evaluated_tokens j @ ts
         \<and> j_output_height j' = j_output_height j + length ts)
     \<and> (\<forall>k result. completed_result j k = Some result \<longrightarrow>
          completed_result j' k = Some result \<or> map_of (j_tombstones j') k \<noteq> None)"

lemma later_extends:
  assumes d: "disk_inv io s key ids d v chain" and m: "mem_inv s key sha v chain j"
    and later: "jinv io ids s key key_id epoch (dom (v_act v)) chain (j', d')"
  shows "extends j j'"
proof -
  from later obtain sha' w cs where
      w: "disk_inv io s key ids d' w (chain @ cs)" "mem_inv s key sha' w (chain @ cs) j'" "dom (v_act v) \<subseteq> dom (v_act w)"
    by (rule jinvE) blast
  from active_part_grows [OF d w(3)] obtain ds where
      "active_part w (chain @ cs) = active_part v chain @ ds" by blast
  then have grow: "\<exists>ts. j_evaluated_tokens j' = j_evaluated_tokens j @ ts
         \<and> j_output_height j' = j_output_height j + length ts"
    using position_of_run [OF d m] position_of_run [OF w(1,2)]
    by (intro exI [of _ "chain_tokens ds"]) (simp add: chain_tokens_def)
  have "completed_result j' k = Some r \<or> map_of (j_tombstones j') k \<noteq> None"
    if "completed_result j k = Some r" for k r
  proof -
    from completion_commit [OF d m that [unfolded completed_result_def]] obtain c where
        c: "c \<in> set chain" "cm_id c = k" "cm_result c = r" "v_act v k \<noteq> None" by blast
    then have "v_act w k \<noteq> None" using w(3) by blast
    with c w(2) have "v_tomb w k = None \<longrightarrow> map_of (j_completions j') k = Some r"
      by (auto simp: mem_inv_def completions_inv_def)
    then show ?thesis using mem_inv_simps(6) [OF w(2)] by (auto simp: completed_result_def)
  qed
  with grow show ?thesis by (simp add: extends_def)
qed

text \<open>What a torn slot file does: every slot file is read when the journal is opened, and one that is
  empty or does not parse refuses the whole journal.\<close>

lemma read_slots_parse:
  "read_slots_loop io j kind from_value rid records entries = Inr x \<Longrightarrow> (name, b) \<in> set entries \<Longrightarrow>
     \<exists>e. read_json (io_parse_envelope io) SLOT_BYTES b = Inr e"
proof (induction entries arbitrary: records)
  case (Cons a entries)
  obtain name' b' where a: "a = (name', b')" by force
  from Cons show ?case unfolding a by (auto simp: bind_res_Inr_iff)
qed simp

lemma open_reads_slots:
  assumes "open_journal io d key key_id epoch = Inr j" "dir \<noteq> Fragments" "(name, b) \<in> set (files d dir)"
  shows "\<exists>e. read_json (io_parse_envelope io) SLOT_BYTES b = Inr e"
proof -
  from assms(1) obtain j0 where "restore_records io d j0 = Inr j"
    by (auto simp: open_journal_def bind_res_Inr_iff)
  then obtain j1 t r p s a c f where rs:
      "read_slots io j0 d Tombstones ''tombstone'' (snd (io_tombstone io)) tb_request_id = Inr t"
      "read_slots io j0 d Reservations ''reservation'' (snd (io_reservation io)) rv_id = Inr r"
      "read_slots io j0 d Prepared ''prepared'' (snd (io_prepared io)) pr_id = Inr p"
      "read_slots io j0 d Staged ''staged'' (snd (io_staged io)) sg_request_id = Inr s"
      "read_slots io j0 d Acks ''ack'' (snd (io_ack io)) ak_request_id = Inr a"
      "read_slots io j1 d Commits ''commit'' (snd (io_commit io)) cm_id = Inr c"
      "read_slots io j1 d Active ''active'' (snd (io_active io)) ac_request_id = Inr f"
    unfolding restore_records_def bind_res_Inr_iff Let_def by blast
  show ?thesis
    using assms(2,3) rs [unfolded read_slots_def, THEN read_slots_parse, of name b] by (cases dir) simp_all
qed

lemma cut_at_write:
  assumes "n < length es" "es ! n = WriteAll dir name b"
  shows "(name, take m b) \<in> set (files (run_effects (cut_effects es n m) d) dir)"
proof -
  have "run_effects (cut_effects es n m) d = set_file dir name (take m b) (run_effects (take n es) d)"
    using assms by (simp add: cut_effects_def)
  then have "file_at (run_effects (cut_effects es n m) d) dir name = Some (take m b)" by simp
  then show ?thesis by (rule map_of_SomeD)
qed

lemma torn_blocks_open:
  assumes t: "torn es n m" and w: "es ! n = WriteAll dir name b"
    and bad: "m = 0 \<or> (\<exists>e. io_parse_envelope io (take m b) = Inl e)"
  shows "\<exists>e. open_journal io (run_effects (cut_effects es n m) d) key key_id epoch = Inl e"
proof (cases "open_journal io (run_effects (cut_effects es n m) d) key key_id epoch")
  case (Inr j)
  from t w have "n < length es" "dir \<noteq> Fragments" by (simp_all add: torn_def)
  from open_reads_slots [OF Inr this(2) cut_at_write [OF this(1) w]] bad show ?thesis
    by (auto simp: read_json_def map_err_def split: if_splits)
qed simp

text \<open>C3: Recovery from a crash at any point. After any run of the operations, with crashes and
  restarts, let one more operation be cut off by a crash after any number \<open>n\<close> of its effects, with any
  number \<open>m\<close> of bytes of the next write already in its file. Unless that tears a slot file, opening the
  journal succeeds, the transcript it restores extends the one before the operation with its height,
  and no completed result is lost or changed unless it was retired. When it does tear a slot file,
  the file being still empty or holding a strict prefix of its contents that the JSON parser refuses,
  opening the journal fails with an error. The effects before the cut are taken as durable.\<close>

theorem crash_recovery:
  assumes "io_ok io" "inj_on (slot_name io) ids" "journal_run io ids s key key_id epoch (j, d)"
    and "performs io ids j d op j' es"
  shows "if torn es n m
    then \<forall>dir name b. es ! n = WriteAll dir name b \<longrightarrow> m = 0 \<or> (\<exists>e. io_parse_envelope io (take m b) = Inl e) \<longrightarrow>
      (\<exists>e. open_journal io (run_effects (cut_effects es n m) d) (j_key j) key_id epoch = Inl e)
    else \<exists>j1. open_journal io (run_effects (cut_effects es n m) d) (j_key j) key_id epoch = Inr j1 \<and> extends j j1"
proof (cases "torn es n m")
  case True
  then show ?thesis using torn_blocks_open by auto
next
  case False
  from journal_runE [OF assms(1-3)] obtain sha v chain where
      v: "disk_inv io s key ids d v chain" "mem_inv s key sha v chain j"
      "jinv io ids s key key_id epoch (dom (v_act v)) chain (j, d)"
    by blast
  from crash_opens [OF assms(1,2) v(3) assms(4) False] later_extends [OF v(1,2)] False show ?thesis by auto
qed

text \<open>C5: Decisions are final. However a run goes on, with any operations, crashes and restarts, the
  transcript of every later state extends the earlier one, the height grows by exactly the tokens
  added, and a completed result is still the same result unless its request has been retired.\<close>

theorem decisions_final:
  assumes "io_ok io" "inj_on (slot_name io) ids" "journal_run io ids s key key_id epoch (j, d)"
    and "(journal_step io ids key_id epoch)\<^sup>*\<^sup>* (j, d) (j', d')"
  shows "extends j j'"
proof -
  from journal_runE [OF assms(1-3)] obtain sha v chain where
      v: "disk_inv io s key ids d v chain" "mem_inv s key sha v chain j"
      "jinv io ids s key key_id epoch (dom (v_act v)) chain (j, d)"
    by blast
  from later_extends [OF v(1,2) jinv_steps [OF assms(1,2,4) v(3)]] show ?thesis .
qed

text \<open>A torn fragment file does not keep the journal from opening, but no later stage can write the
  fragment: the file that is there differs from the payload.\<close>

theorem torn_fragment_blocks_stage:
  assumes "file_at d Fragments (fragment_name (d2_sha256 (f2_descriptor f))) = Some (take m (f2_payload f))"
    and "m < length (f2_payload f)"
  shows "write_fragments d (f # fs) = (Inl (invalid ''content-addressed fragment collision''), [])"
proof -
  have "take m (f2_payload f) \<noteq> f2_payload f" using assms(2) by (metis length_take min.absorb4 nat_neq_iff)
  with assms(1) show ?thesis by (simp add: write_fragment_def Let_def)
qed

subsection \<open>Opening again\<close>

lemma bt_eqI:
  assumes "bt_wf m" "bt_wf n" "set m = set n"
  shows "m = n"
proof (rule map_inj_on [of fst])
  have "sorted_wrt (<) (map fst m)" "sorted_wrt (<) (map fst n)" using assms by (simp_all add: bt_wf_def)
  moreover have "set (map fst m) = set (map fst n)" using assms(3) by simp
  ultimately show "map fst m = map fst n" by (metis strict_sorted_equal)
  show "inj_on fst (set m \<union> set n)"
    using bt_wf_distinct [OF assms(1)] assms(3) by (simp add: distinct_map)
qed

definition unfinished :: "journal_io \<Rightarrow> journal \<Rightarrow> reservation_record btree" where
  "unfinished io j = filter (\<lambda>(request_id, reservation).
     \<not> bt_has (j_completions j) request_id \<and> \<not> bt_has (j_tombstones j) request_id
     \<and> matches_current_parent io j (rv_request reservation)) (j_reservations j)"

text \<open>The unfinished reservations are those whose decision is not active.\<close>

lemma unfinished_wf: "mem_inv s key sha v chain j \<Longrightarrow> bt_wf (unfinished io j)"
  by (simp add: unfinished_def mem_inv_def mirrors_def)

lemma unfinished_iff:
  assumes d: "disk_inv io s key ids d v chain" and m: "mem_inv s key sha v chain j"
  shows "(k, r) \<in> set (unfinished io j) \<longleftrightarrow> v_res v k = Some r \<and> v_act v k = None"
proof -
  have mir: "mirrors v (j_reservations j) (v_res v)" using m by (simp add: mem_inv_def)
  then have wf: "bt_wf (j_reservations j)" by (simp add: mirrors_def)
  have tomb: "v_tomb v k = None" if "v_act v k = None"
    using d that unfolding disk_inv_def retry_inv_def by (metis not_None_eq)
  show ?thesis
  proof
    assume "(k, r) \<in> set (unfinished io j)"
    then have "map_of (j_reservations j) k = Some r" "map_of (j_completions j) k = None"
        "map_of (j_tombstones j) k = None"
      using bt_in_iff [OF wf] by (auto simp: unfinished_def bt_has_def)
    with mirrors_get [OF mir, of k r] not_completed_inactive [OF d m, of k]
    show "v_res v k = Some r \<and> v_act v k = None" by simp
  next
    assume a: "v_res v k = Some r \<and> v_act v k = None"
    then have "map_of (j_reservations j) k = Some r" using mirrors_inactive [OF mir, of k] by simp
    moreover have "map_of (j_completions j) k = None"
    proof (rule ccontr)
      assume "map_of (j_completions j) k \<noteq> None"
      then obtain x where "map_of (j_completions j) k = Some x" by blast
      from completion_commit [OF d m this] a show False by blast
    qed
    moreover have "map_of (j_tombstones j) k = None" using tomb a mem_inv_simps(6) [OF m] by simp
    moreover have "matches_current_parent io j (rv_request r)"
      using disk_inv_child(1) [OF d, of k r] a mem_inv_simps(4) [OF m] by (simp add: matches_pos)
    ultimately show "(k, r) \<in> set (unfinished io j)"
      using bt_in_iff [OF wf, of k r] by (simp add: unfinished_def bt_has_def)
  qed
qed

lemma unfinished_cases:
  assumes d: "disk_inv io s key ids d v chain" and m: "mem_inv s key sha v chain j"
  shows "unfinished io j = [] \<or> (\<exists>k r. unfinished io j = [(k, r)] \<and> v_act v k = None)"
proof (cases "unfinished io j")
  case (Cons x xs)
  obtain k r where x: "x = (k, r)" by force
  have k: "v_res v k \<noteq> None" "v_act v k = None" using unfinished_iff [OF d m, of k r] Cons x by auto
  have "fst y = k" if "y \<in> set (unfinished io j)" for y
    using unfinished_iff [OF d m, of "fst y" "snd y"] that disk_inv_child(2) [OF d, of "fst y" k] k by auto
  moreover have "distinct (map fst (unfinished io j))" by (rule bt_wf_distinct [OF unfinished_wf [OF m]])
  ultimately have "xs = []" using Cons x by (cases xs) auto
  with Cons x k show ?thesis by auto
qed simp

lemma pending_round_alt:
  "pending_round io j =
     (if j_pending_activation j \<noteq> None then
        Inl (invalid ''journal has a WAL-committed activation; recover it before resuming rounds'')
      else case unfinished io j of
        [] \<Rightarrow> Inr None
      | [(k, r)] \<Rightarrow>
          (case map_of (j_prepared j) k of
             None \<Rightarrow> Inr (Some (PendingReserved (rv_request r)))
           | Some p \<Rightarrow>
               (case map_of (j_staged j) k of
                  None \<Rightarrow> Inr (Some (PendingPrepared (rv_request r) (pr_result p)))
                | Some sg \<Rightarrow> Inr (Some (PendingStaged (rv_request r) (pr_result p) (sg_renderer sg)))))
      | _ \<Rightarrow> Inl (invalid ''journal has multiple unfinished children of the current head''))"
  by (simp add: pending_round_def unfinished_def)

lemma pending_round_same:
  assumes d: "disk_inv io s key ids d v chain" and m: "mem_inv s key sha v chain j" "mem_inv s key sha v chain j'"
  shows "pending_round io j' = pending_round io j"
proof -
  have "set (unfinished io j') = set (unfinished io j)"
    using unfinished_iff [OF d m(1)] unfinished_iff [OF d m(2)] by auto
  then have u: "unfinished io j' = unfinished io j"
    by (intro bt_eqI unfinished_wf [OF m(1)] unfinished_wf [OF m(2)])
  have pa: "j_pending_activation j' = j_pending_activation j"
    using mem_inv_simps(5) [OF m(1)] mem_inv_simps(5) [OF m(2)] by simp
  have pr: "map_of (j_prepared j') k = map_of (j_prepared j) k" "map_of (j_staged j') k = map_of (j_staged j) k"
    if "v_act v k = None" for k
  proof -
    have "mirrors v (j_prepared i) (v_prep v)" "mirrors v (j_staged i) (v_stg v)" if "mem_inv s key sha v chain i" for i
      using that by (simp_all add: mem_inv_def)
    with m that show "map_of (j_prepared j') k = map_of (j_prepared j) k" "map_of (j_staged j') k = map_of (j_staged j) k"
      by (metis mirrors_inactive)+
  qed
  show ?thesis
    using unfinished_cases [OF d m(1)] unfolding pending_round_alt u pa by (auto simp: pr split: option.split)
qed

text \<open>C6: Opening restores the journal. In every reachable state, opening the journal's disk gives a
  journal at the same position, with the same decision waiting for its activation, the same unfinished
  round in the same phase, the same tombstones, and for every request that was not retired the same
  completed result and acknowledgement.\<close>

theorem reopen_exact:
  assumes "io_ok io" "inj_on (slot_name io) ids" "journal_run io ids s key key_id epoch (j, d)"
  shows "\<exists>j'. open_journal io d (j_key j) key_id epoch = Inr j'
    \<and> j_evaluated_tokens j' = j_evaluated_tokens j \<and> current_head j' = current_head j
    \<and> j_pending_activation j' = j_pending_activation j \<and> pending_round io j' = pending_round io j
    \<and> map_of (j_tombstones j') = map_of (j_tombstones j)
    \<and> (\<forall>k. map_of (j_tombstones j) k = None \<longrightarrow> completed_result j' k = completed_result j k
          \<and> map_of (j_acknowledgements j') k = map_of (j_acknowledgements j) k)"
proof -
  from journal_runE [OF assms] obtain sha v chain where
      sd: "session_on_disk io s key sha key_id epoch d"
    and v: "holds io sha key d v" "disk_inv io s key ids d v chain" "mem_inv s key sha v chain j"
    by blast
  from open_ok [OF assms(1) sd v(1,2)] obtain j' where
      o: "open_journal io d key key_id epoch = Inr j'" and m: "mem_inv s key sha v chain j'" by blast
  note a = mem_inv_simps [OF v(3)] and b = mem_inv_simps [OF m]
  have pos: "pos_of j' = pos_of j" using a(4) b(4) by simp
  have comp: "map_of (j_completions j') k = map_of (j_completions j) k" if t: "v_tomb v k = None" for k
  proof (cases "v_act v k")
    case (Some x)
    from disk_inv_active [OF v(2) Some] obtain c where c: "c \<in> set chain" "cm_id c = k" by blast
    then show ?thesis using v(3) m Some t unfolding mem_inv_def completions_inv_def by (metis option.distinct(1))
  next
    case None
    have "map_of (j_completions i) k = None" if i: "mem_inv s key sha v chain i" for i
      using completion_commit [OF v(2) i] None by (metis not_None_eq)
    then show ?thesis using v(3) m by simp
  qed
  have ack: "map_of (j_acknowledgements j') k = map_of (j_acknowledgements j) k" if "v_tomb v k = None" for k
    using v(3) m that by (simp add: mem_inv_def)
  have "j_evaluated_tokens j' = j_evaluated_tokens j" "current_head j' = current_head j"
    using pos by (simp_all add: pos_of_def current_head_def)
  then show ?thesis
    using o a b comp ack pending_round_same [OF v(2,3) m] by (intro exI [of _ j']) (simp add: completed_result_def)
qed

text \<open>C7: A journal has one history. In every reachable state there is a sequence of decisions, each
  authenticated, verified against its request and asked for at the position the previous one left,
  that leads from the session's genesis to the journal's position; the transcript is the initial one
  followed by the tokens they committed, the height counts them, every completed result is the result
  of one of them, and at most one more decision is committed without being active.\<close>

theorem journal_is_one_chain:
  assumes "io_ok io" "inj_on (slot_name io) ids" "journal_run io ids s key key_id epoch (j, d)"
  shows "\<exists>chain. linked_from io (genesis_pos s) chain \<and> list_all (commit_ok io s key) chain
    \<and> distinct (map cm_id chain) \<and> pos_of j = pos_after (genesis_pos s) chain
    \<and> j_evaluated_tokens j = s2_initial_evaluated_tokens (body s) @ chain_tokens chain
    \<and> j_output_height j = s2_initial_output_height (body s) + length (chain_tokens chain)
    \<and> (\<forall>k result. completed_result j k = Some result \<longrightarrow> (\<exists>c\<in>set chain. cm_id c = k \<and> cm_result c = result))
    \<and> (\<forall>c. j_pending_activation j = Some c \<longrightarrow> linked_from io (genesis_pos s) (chain @ [c]) \<and> commit_ok io s key c)"
proof -
  from journal_runE [OF assms] obtain sha v chain where
      v: "disk_inv io s key ids d v chain" "mem_inv s key sha v chain j"
    by blast
  let ?c = "active_part v chain"
  have ci: "chain_inv io s key d v chain" using v(1) by (simp add: disk_inv_def)
  have dis: "distinct (map cm_id ?c)" using ci by (simp add: chain_inv_def active_part_def distinct_map_filter)
  have comp: "\<exists>c\<in>set ?c. cm_id c = k \<and> cm_result c = r" if "completed_result j k = Some r" for k r
  proof -
    from completion_commit [OF v that [unfolded completed_result_def]] obtain c where
        "c \<in> set chain" "cm_id c = k" "cm_result c = r" "v_act v k \<noteq> None" by blast
    then show ?thesis by (intro bexI [of _ c]) (simp_all add: active_part_def)
  qed
  have pend: "linked_from io (genesis_pos s) (?c @ [c]) \<and> commit_ok io s key c"
    if "j_pending_activation j = Some c" for c
  proof -
    have "find (\<lambda>c. v_act v (cm_id c) = None) chain = Some c" using that mem_inv_simps(5) [OF v(2)] by simp
    moreover have "\<forall>c\<in>set (butlast chain). v_act v (cm_id c) \<noteq> None" using ci by (simp add: chain_inv_def)
    ultimately have chain: "chain = ?c @ [c]" using active_part_cases [of chain v] by auto
    then have "c \<in> set chain" by (metis in_set_conv_decomp)
    moreover have "linked_from io (genesis_pos s) chain" "\<forall>c\<in>set chain. commit_ok io s key c"
      using ci by (simp_all add: chain_inv_def)
    ultimately show ?thesis using chain by metis
  qed
  show ?thesis
    using linked_active [OF v(1)] dis mem_inv_simps(4) [OF v(2)] position_of_run [OF v] comp pend
    unfolding list_all_iff by (intro exI [of _ ?c] conjI) blast+
qed

text \<open>There is never a second unfinished child. In every reachable state, \<open>pending_round\<close> fails
  only while a committed decision waits for its activation; otherwise it names the one reservation
  that is not finished, or that there is none.\<close>

theorem one_unfinished_child:
  assumes "io_ok io" "inj_on (slot_name io) ids" "journal_run io ids s key key_id epoch (j, d)"
    and "j_pending_activation j = None"
  shows "\<exists>p. pending_round io j = Inr p"
proof -
  from journal_runE [OF assms(1-3)] obtain sha v chain where
      v: "disk_inv io s key ids d v chain" "mem_inv s key sha v chain j"
    by blast
  from unfinished_cases [OF v] assms(4) show ?thesis
    unfolding pending_round_alt by (auto split: option.splits)
qed

text \<open>C8: Retries stay answerable. In every reachable state, garbage collection included, the
  fragment files of every completed result that is not retired are all on the disk with the digests
  and lengths the result names.\<close>

theorem retained_fragments_intact:
  assumes "io_ok io" "inj_on (slot_name io) ids" "journal_run io ids s key key_id epoch (j, d)"
    and "completed_result j k = Some result" "map_of (j_tombstones j) k = None"
  shows "verify_fragment_cas io d result = Inr ()"
proof -
  from journal_runE [OF assms(1-3)] obtain sha v chain where
      v: "disk_inv io s key ids d v chain" "mem_inv s key sha v chain j"
    by blast
  from completion_commit [OF v assms(4) [unfolded completed_result_def]] obtain c where
      "c \<in> set chain" "cm_id c = k" "cm_result c = result" by blast
  with v(1) assms(5) mem_inv_simps(6) [OF v(2)] show ?thesis
    unfolding disk_inv_def chain_inv_def frags_ok_def by auto
qed

subsection \<open>Activation follows the commit\<close>

fun is_activate :: "effect \<Rightarrow> bool" where
  "is_activate (RendererActivate receipt) = True"
| "is_activate _ = False"

definition silent :: "effect list \<Rightarrow> bool" where
  "silent es \<longleftrightarrow> list_all (\<lambda>e. \<not> is_activate e) es"

lemma silent_simps [simp]:
  "silent []" "silent (e # es) \<longleftrightarrow> \<not> is_activate e \<and> silent es" "silent (es @ es') \<longleftrightarrow> silent es \<and> silent es'"
  by (simp_all add: silent_def)

lemma silent_write_slot: "write_slot io j d dir k kind to_value r = Inr es \<Longrightarrow> silent es"
  by (auto simp: write_slot_def bind_res_Inr_iff write_exclusive_Inr split: option.splits if_splits)

lemma silent_write_active: "write_active io j d a = Inr es \<Longrightarrow> silent es"
  by (auto simp: write_active_def bind_res_Inr_iff silent_write_slot split: option.splits if_splits)

lemma silent_write_fragments: "write_fragments d fs = (res, es) \<Longrightarrow> silent es"
proof (induction d fs arbitrary: res es rule: write_fragments.induct)
  case (2 d f fs)
  show ?case
  proof (cases "write_fragment d f")
    case (Inr es1)
    obtain r2 es2 where w: "write_fragments (run_effects es1 d) fs = (r2, es2)" by force
    have "silent es1" using write_fragment_cases [OF Inr] by (auto simp: slot_write_def)
    with 2(1) [OF Inr w] 2(2) Inr w show ?thesis by auto
  qed (use 2(2) in simp)
qed simp

lemma silent_remove_all: "silent (remove_all d ps)"
  by (induction d ps rule: remove_all.induct) (simp_all add: Let_def remove_if_exists_def)

text \<open>\<open>decided d receipt\<close>: the disk holds a committed decision with this receipt that is not yet
  active, as opening the journal finds.\<close>

definition decided :: "journal_io \<Rightarrow> bytes \<Rightarrow> string \<Rightarrow> nat \<Rightarrow> disk \<Rightarrow> stage_receipt \<Rightarrow> bool" where
  "decided io key key_id epoch d receipt \<longleftrightarrow>
     (\<exists>j c. open_journal io d key key_id epoch = Inr j \<and> j_pending_activation j = Some c \<and> cm_renderer c = receipt)"

definition announced :: "(disk \<Rightarrow> stage_receipt \<Rightarrow> bool) \<Rightarrow> effect list \<Rightarrow> disk \<Rightarrow> bool" where
  "announced P es d \<longleftrightarrow>
     (\<forall>n receipt. n < length es \<longrightarrow> es ! n = RendererActivate receipt \<longrightarrow> P (run_effects (take n es) d) receipt)"

lemma announced_silent: "silent es \<Longrightarrow> announced P es d"
  unfolding announced_def silent_def list_all_length by (metis is_activate.simps(1))

lemma announced_Cons: "P d receipt \<Longrightarrow> silent es \<Longrightarrow> announced P (RendererActivate receipt # es) d"
  using announced_silent [of es P d] by (auto simp: announced_def nth_Cons take_Cons split: nat.splits)

lemma announced_append:
  assumes "announced P es d" "announced P es' (run_effects es d)"
  shows "announced P (es @ es') d"
  unfolding announced_def
proof (intro allI impI)
  fix n receipt assume n: "n < length (es @ es')" "(es @ es') ! n = RendererActivate receipt"
  show "P (run_effects (take n (es @ es')) d) receipt"
  proof (cases "n < length es")
    case True
    with n assms(1) show ?thesis by (simp add: announced_def nth_append)
  next
    case False
    then obtain m where m: "n = length es + m" using le_Suc_ex not_less by blast
    with n assms(2) show ?thesis by (simp add: announced_def nth_append)
  qed
qed

lemma pending_decided:
  assumes io: "io_ok io" and sd: "session_on_disk io s key sha key_id epoch d"
    and sy: "synced io s key sha ids A chain j d" and p: "j_pending_activation j = Some c"
  shows "decided io key key_id epoch d (cm_renderer c)"
proof -
  from sy obtain v where v: "holds io sha key d v" "disk_inv io s key ids d v chain" "mem_inv s key sha v chain j"
    by (auto simp: synced_def)
  from open_ok [OF io sd v(1,2)] obtain j' where
      "open_journal io d key key_id epoch = Inr j'" "mem_inv s key sha v chain j'" by blast
  with p mem_inv_simps(5) [OF v(3)] mem_inv_simps(5) show ?thesis unfolding decided_def by metis
qed

lemma silent_publish_active: "publish_active io j d c now = (res, j', es) \<Longrightarrow> silent es"
  by (auto simp: publish_active_def silent_write_active split: sum.splits)

lemma recover_pending_announced:
  assumes "io_ok io" "session_on_disk io s key sha key_id epoch d" "synced io s key sha ids A chain j d"
    and op: "recover_pending io j d activate now = (res, j', es)"
  shows "announced (decided io key key_id epoch) es d"
proof (cases "j_pending_activation j")
  case None
  with op show ?thesis by (simp add: recover_pending_def announced_silent)
next
  case (Some c)
  with op have "es = [] \<or> (\<exists>es'. es = RendererActivate (cm_renderer c) # es' \<and> silent es')"
    by (auto simp: recover_pending_def dest: silent_publish_active split: sum.splits prod.splits)
  with pending_decided [OF assms(1-3) Some] show ?thesis by (auto intro: announced_Cons announced_silent)
qed

lemma commit_new_announced:
  assumes io: "io_ok io" and sd: "session_on_disk io s key sha key_id epoch d"
    and sy: "synced io s key sha ids A chain j d"
    and pend: "j_pending_activation j = None" and same: "same_request j request"
    and op: "commit_new io j d request permits activate now = (res, j', es)" and f: "fits es"
  shows "announced (decided io key key_id epoch) es d"
proof (cases "es = []")
  case True
  then show ?thesis by (simp add: announced_silent)
next
  case False
  let ?k = "r2_request_id (body request)"
  from op False obtain c es1 r2 es2 where
      none: "map_of (j_completions j) ?k = None" and c: "commit_record_for io j request now = Inr c"
    and w: "write_slot io j d Commits ?k ''commit'' (fst (io_commit io)) c = Inr es1"
    and rp: "recover_pending io (j\<lparr>j_pending_activation := Some c\<rparr>) (run_effects es1 d) activate now = (r2, j', es2)"
    and es: "es = es1 @ es2"
    by (auto simp: commit_new_def Let_def split: option.splits sum.splits prod.splits)
  have "synced io s key sha ids A (chain @ [c]) (j\<lparr>j_pending_activation := Some c\<rparr>) (run_effects es1 d)"
    using write_commit_synced [OF io sy pend same none c w] f es by simp
  from recover_pending_announced [OF io _ this rp] sd
  have "announced (decided io key key_id epoch) es2 (run_effects es1 d)" by simp
  with announced_silent [OF silent_write_slot [OF w]] show ?thesis unfolding es by (rule announced_append)
qed

lemma commit_and_activate_announced:
  assumes io: "io_ok io" and inj: "inj_on (slot_name io) ids"
    and sd: "session_on_disk io s key sha key_id epoch d"
    and sy: "synced io s key sha ids A chain j d" and same: "same_request j request"
    and op: "commit_and_activate io j d request permits activate now = (res, j', es)" and f: "fits es"
  shows "announced (decided io key key_id epoch) es d"
proof (cases "j_pending_activation j = None")
  case True
  with op have "commit_new io j d request permits activate now = (res, j', es)"
    by (auto simp: commit_and_activate_def split: prod.splits)
  from commit_new_announced [OF io sd sy True same this f] show ?thesis .
next
  case False
  obtain r1 j1 es1 where rp: "recover_pending io j d activate now = (r1, j1, es1)"
    using prod_cases3 by blast
  have an: "announced (decided io key key_id epoch) es1 d"
    by (rule recover_pending_announced [OF io sd sy rp])
  show ?thesis
  proof (cases r1)
    case (Inl e)
    with op False rp have "es = es1" by (auto simp: commit_and_activate_def)
    with an show ?thesis by simp
  next
    case (Inr u)
    with op False rp obtain es2 where
        cn: "commit_new io j1 (run_effects es1 d) request permits activate now = (res, j', es2)"
      and es: "es = es1 @ es2"
      by (auto simp: commit_and_activate_def split: prod.splits)
    have mem: "j_pending_activation j1 = None" "same_request j1 request"
      using recover_pending_mem [OF rp] Inr same by (simp_all add: same_request_def)
    have f12: "fits es1" "fits es2" using f es by simp_all
    from recover_pending_keeps [OF io inj sy rp f12(1)] obtain cs where
        sy1: "synced io s key sha ids A (chain @ cs) j1 (run_effects es1 d)" by (auto simp: keeps_def)
    have "announced (decided io key key_id epoch) es2 (run_effects es1 d)"
      using commit_new_announced [OF io _ sy1 mem cn f12(2)] sd by simp
    with an show ?thesis unfolding es by (rule announced_append)
  qed
qed

lemma silent_reserve: "reserve io j d r p n = (res, j', es) \<Longrightarrow> silent es"
  using reserve_cases silent_write_slot by fastforce

lemma silent_record_prepared: "record_prepared io j d r x p n = (res, j', es) \<Longrightarrow> silent es"
  using record_prepared_cases silent_write_slot by fastforce

lemma silent_stage_result: "stage_result io j d r c f n = (res, j', es) \<Longrightarrow> silent es"
  by (auto simp: stage_result_def stage_new_def stage_record_def Let_def bind_res_Inr_iff
      dest: silent_write_fragments silent_write_slot split: option.splits sum.splits prod.splits if_splits)

lemma silent_acknowledge: "acknowledge io j d k h n = (res, j', es) \<Longrightarrow> silent es"
  by (auto simp: acknowledge_def unchanged_iff bind_res_Inr_iff Let_def
      dest: silent_write_slot split: option.splits if_splits)

lemma silent_retire: "retire io j d k r n m = Inr (j', es) \<Longrightarrow> silent es"
  by (auto simp: retire_def bind_res_Inr_iff Let_def dest: silent_write_slot split: option.splits if_splits)

lemma silent_garbage_collect: "garbage_collect io j d k n m = (res, j', es) \<Longrightarrow> silent es"
  by (auto simp: garbage_collect_def Let_def silent_remove_all simp del: remove_all.simps map_map list.map
      dest: silent_retire split: option.splits sum.splits)

lemma op_announced:
  assumes io: "io_ok io" and inj: "inj_on (slot_name io) ids"
    and sd: "session_on_disk io s key sha key_id epoch d" and sy: "synced io s key sha ids A chain j d"
    and pf: "performs io ids j d op j' es"
  shows "announced (decided io key key_id epoch) es d"
proof (cases op)
  case (OpReserve r p n)
  with pf silent_reserve [of io j d r p n] show ?thesis
    by (cases "reserve io j d r p n") (simp add: performs_def announced_silent)
next
  case (OpPrepare r x p n)
  with pf silent_record_prepared [of io j d r x p n] show ?thesis
    by (cases "record_prepared io j d r x p n") (simp add: performs_def announced_silent)
next
  case (OpStage r c f n)
  with pf silent_stage_result [of io j d r c f n] show ?thesis
    by (cases "stage_result io j d r c f n") (simp add: performs_def announced_silent)
next
  case (OpCommit r p f n)
  with pf commit_and_activate_announced [OF io inj sd sy, of r p f n] show ?thesis
    by (cases "commit_and_activate io j d r p f n") (simp add: performs_def)
next
  case (OpRecover f n)
  with pf recover_pending_announced [OF io sd sy, of f n] show ?thesis
    by (cases "recover_pending io j d f n") (simp add: performs_def)
next
  case (OpAcknowledge k h n)
  with pf silent_acknowledge [of io j d k h n] show ?thesis
    by (cases "acknowledge io j d k h n") (simp add: performs_def announced_silent)
next
  case (OpCollect k n m)
  with pf silent_garbage_collect [of io j d k n m] show ?thesis
    by (cases "garbage_collect io j d k n m") (simp add: performs_def announced_silent)
qed

text \<open>C4: The renderer is activated only for a decision that is already durable. Whenever an operation
  calls the renderer's activation, the effects before the call have left a disk from which the journal
  opens with the committed decision of exactly that receipt waiting to be activated, so that a crash
  during or after the call repeats the activation and loses nothing.\<close>

theorem activation_after_commit:
  assumes "io_ok io" "inj_on (slot_name io) ids" "journal_run io ids s key key_id epoch (j, d)"
    and "performs io ids j d op j' es" "n < length es" "es ! n = RendererActivate receipt"
  shows "\<exists>j1 c. open_journal io (run_effects (take n es) d) (j_key j) key_id epoch = Inr j1
    \<and> j_pending_activation j1 = Some c \<and> cm_renderer c = receipt"
proof -
  from journal_run_inv [OF assms(1-3)] obtain sha chain where
      sd: "session_on_disk io s key sha key_id epoch d" and sy: "synced io s key sha ids {} chain j d"
    by (auto simp: jinv_def)
  from op_announced [OF assms(1,2) sd sy assms(4)] assms(5,6) synced_key [OF sy] show ?thesis
    by (simp add: announced_def decided_def)
qed

subsection \<open>A commit is not checked against its reservation\<close>

lemma apply_active_keeps:
  "apply_active io j request result = Inr j' \<Longrightarrow> j_session j' = j_session j \<and> j_key j' = j_key j"
  by (auto simp: apply_active_def bind_res_Inr_iff split: option.splits if_splits)

text \<open>Opening verifies the request of every commit it replays.\<close>

lemma restore_chain_verifies:
  assumes "restore_chain io d active commits j = Inr j'" "bt_wf commits" "(k, c) \<in> set commits"
  shows "round_verify_historical_v2 (io_crypto io) (cm_request c) (body (j_session j)) (j_key j) = Inr ()"
  using assms
proof (induction "length commits" arbitrary: commits j rule: less_induct)
  case less
  then obtain x xs where ne: "commits = x # xs" by (cases commits) auto
  from less.prems(1) ne obtain k0 c0 where
      f: "filter (\<lambda>(_, commit). matches_current_parent io j (cm_request commit)) commits = [(k0, c0)]"
    by (auto split: list.splits)
  let ?rest = "bt_remove k0 commits"
  from less.prems(1) f ne have
      v: "round_verify_historical_v2 (io_crypto io) (cm_request c0) (body (j_session j)) (j_key j) = Inr ()"
    and r: "?rest = [] \<or> (\<exists>j1. apply_active io j (cm_request c0) (cm_result c0) = Inr j1
        \<and> restore_chain io d active ?rest j1 = Inr j')"
    by (auto simp: Let_def bind_res_Inr_iff split: option.splits if_splits)
  have in0: "(k0, c0) \<in> set commits" using f by (metis filter_is_subset list.set_intros(1) subsetD)
  show ?case
  proof (cases "k = k0")
    case True
    then have "c = c0" using in0 less.prems(2,3) by (metis bt_in_iff option.inject)
    with v show ?thesis by simp
  next
    case False
    with less.prems(3) have kc: "(k, c) \<in> set ?rest" by (auto simp: bt_remove_def)
    with r obtain j1 where j1: "apply_active io j (cm_request c0) (cm_result c0) = Inr j1"
      "restore_chain io d active ?rest j1 = Inr j'" by auto
    have "length ?rest < length commits" using f by (rule filtered_entry_shrinks)
    from less.hyps [OF this j1(2) _ kc] less.prems(2) apply_active_keeps [OF j1(1)] show ?thesis by simp
  qed
qed

lemma open_verifies_commits:
  assumes io: "io_ok io" and sd: "session_on_disk io s key sha key_id epoch d"
    and h: "holds_slots io sha key ''commit'' (io_commit io) cm_id (files d Commits) m" "m k = Some c"
    and op: "open_journal io d key key_id epoch = Inr j"
  shows "round_verify_historical_v2 (io_crypto io) (cm_request c) (body s) key = Inr ()"
proof -
  from sd obtain b where b: "session_file d = Some b" "json_auth_session_v2 (io_crypto io) s = Inr b"
      "length b \<le> SESSION_BYTES" by (auto simp: session_on_disk_def)
  have "b \<noteq> []" "io_parse_session io b = Inr s" using io b(2) by (simp_all add: io_ok_def)
  with b(3) have rd: "read_json (io_parse_session io) SESSION_BYTES b = Inr s" by (simp add: read_json_def)
  from op b(1) rd obtain j0 where j0: "from_session io key s = Inr j0" "restore_records io d j0 = Inr j"
    by (auto simp: open_journal_def bind_res_Inr_iff)
  have f: "j_session_record_sha256 j0 = sha" "j_key j0 = key" "j_session j0 = s"
    using j0(1) sd by (auto simp: from_session_def session_on_disk_def bind_res_Inr_iff)
  from j0(2) obtain j1 active commits j2 where
      rs: "read_slots io j1 d Commits ''commit'' (snd (io_commit io)) cm_id = Inr commits"
    and rc: "restore_chain io d active commits j1 = Inr j2"
    and j1: "j_session_record_sha256 j1 = sha" "j_key j1 = key" "j_session j1 = s"
    unfolding restore_records_def bind_res_Inr_iff Let_def using f by auto
  have sok: "serde_ok (io_commit io)" using io by (simp add: io_ok_def)
  from holds_slots_read [OF io sok, of j1 "''commit''" cm_id d Commits m] h(1) j1 rs
  have "map_of commits = m" "bt_wf commits" by auto
  with h(2) have "(k, c) \<in> set commits" by (simp add: bt_in_iff)
  from restore_chain_verifies [OF rc \<open>bt_wf commits\<close> this] j1 show ?thesis by simp
qed

lemma recover_pending_commits:
  assumes "recover_pending io j d activate now = (res, j', es)"
  shows "files (run_effects es d) Commits = files d Commits"
proof -
  have w: "files (run_effects es d) Commits = files d Commits" if "write_active io j d a = Inr es" for a es
    using that by (auto simp: write_active_def write_slot_def bind_res_Inr_iff write_exclusive_Inr
        split: option.splits if_splits)
  show ?thesis
    using assms by (auto simp: recover_pending_def publish_active_def w split: option.splits sum.splits prod.splits)
qed

text \<open>C9: \<open>commit_and_activate\<close> does not check the tag of the request it commits. It compares the
  request with the prepared record by the digest of its body only, so a request with the body of the
  reserved one and a tag that does not verify is accepted and written to the log; from then on the
  journal does not open.\<close>

theorem unverified_commit_blocks_open:
  assumes "io_ok io" "inj_on (slot_name io) ids" "journal_run io ids s key key_id epoch (j, d)"
    and "j_pending_activation j = None" "completed_result j (r2_request_id (body request)) = None"
    and "commit_and_activate io j d request permits activate now = (Inr result, j', es)" "fits es"
    and "round_verify_historical_v2 (io_crypto io) request (body s) key \<noteq> Inr ()"
  shows "\<exists>e. open_journal io (run_effects es d) (j_key j) key_id epoch = Inl e"
proof -
  let ?k = "r2_request_id (body request)"
  from journal_runE [OF assms(1-3)] obtain sha v chain where
      sd: "session_on_disk io s key sha key_id epoch d"
    and v: "holds io sha key d v" "mem_inv s key sha v chain j"
    by blast
  note m = mem_inv_simps [OF v(2)]
  have "commit_new io j d request permits activate now = (Inr result, j', es)"
    using assms(4,6) by (auto simp: commit_and_activate_def split: prod.splits)
  then obtain c es1 r2 es2 where
      c: "commit_record_for io j request now = Inr c"
    and w: "write_slot io j d Commits ?k ''commit'' (fst (io_commit io)) c = Inr es1"
    and rp: "recover_pending io (j\<lparr>j_pending_activation := Some c\<rparr>) (run_effects es1 d) activate now = (r2, j', es2)"
    and es: "es = es1 @ es2"
    using assms(5) by (auto simp: commit_new_def completed_result_def Let_def split: option.splits sum.splits prod.splits)
  have cr: "cm_request c = request" "cm_id c = ?k" using c by (auto simp: commit_record_for_Inr cm_id_def)
  from write_commit [OF assms(1) v(1) m(3,1) w cr(2)] assms(7) es
  have "holds io sha key (run_effects es1 d) (v\<lparr>v_cmt := (v_cmt v)(?k \<mapsto> c)\<rparr>)" by simp
  then have h: "holds_slots io sha key ''commit'' (io_commit io) cm_id
      (files (run_effects es d) Commits) ((v_cmt v)(?k \<mapsto> c))"
    using recover_pending_commits [OF rp] es by (simp add: holds_def)
  have "session_on_disk io s key sha key_id epoch (run_effects es d)" using sd by simp
  from open_verifies_commits [OF assms(1) this h, of ?k c] assms(8) cr m(1) show ?thesis
    by (cases "open_journal io (run_effects es d) (j_key j) key_id epoch") auto
qed

end
