(* ===== verification/Journal_Examples.thy ===== *)
theory Journal_Examples
  imports Journal_Safety
begin

section \<open>A journal through one round\<close>

text \<open>
  A concrete run of the journal on the session of \<open>Verifier_V2\<close>: create, reserve, prepare, stage and
  commit one round. The serializers succeed on the records of this run only, so that each has an
  inverse. On its states the hypotheses of the theorems of \<open>Journal_Safety\<close> are discharged.
\<close>

subsection \<open>The records of the run\<close>

definition demo_reservation :: reservation_record where
  "demo_reservation = \<lparr>rv_request = demo_auth_round, rv_reserved_unix_ms = 50\<rparr>"

definition demo_prepared :: prepared_record where
  "demo_prepared = \<lparr>pr_request_intent_sha256 = demo_digest, pr_result = demo_auth_result,
     pr_prepared_unix_ms = 50\<rparr>"

definition demo_receipt :: stage_receipt where
  "demo_receipt = \<lparr>rs_result_sha256 = demo_digest, rs_render_root_sha256 = demo_digest,
     rs_stage_token = ''request-1'', rs_staged_unix_ms = 50\<rparr>"

definition demo_staged :: staged_record where
  "demo_staged = \<lparr>sg_request_id = ''request-1'', sg_request_intent_sha256 = demo_digest,
     sg_result_sha256 = demo_digest, sg_renderer = demo_receipt, sg_staged_unix_ms = 50\<rparr>"

definition demo_commit :: commit_record where
  "demo_commit = \<lparr>cm_request = demo_auth_round, cm_result = demo_auth_result, cm_renderer = demo_receipt,
     cm_committed_unix_ms = 50\<rparr>"

definition demo_active :: active_record where
  "demo_active = \<lparr>ac_request_id = ''request-1'', ac_result_sha256 = demo_digest,
     ac_new_head_sha256 = demo_digest, ac_activated_unix_ms = 50\<rparr>"

definition demo_ack :: ack_record where
  "demo_ack = \<lparr>ak_request_id = ''request-1'', ak_result_sha256 = demo_digest,
     ak_applied_head_sha256 = demo_digest, ak_acknowledged_unix_ms = 50\<rparr>"

definition demo_tombstone :: tombstone_record where
  "demo_tombstone = \<lparr>tb_request_id = ''request-1'', tb_result_sha256 = demo_digest, tb_retired_unix_ms = 50\<rparr>"

definition demo_closure :: closure_v2 where
  "demo_closure = \<lparr>c2_result_sha256 = demo_digest,
     c2_fragments = [\<lparr>f2_descriptor = demo_fragment_v2, f2_payload = replicate 4 0\<rparr>]\<rparr>"

text \<open>The tag of this request does not verify.\<close>

definition demo_forged_round :: auth_round_v2 where
  "demo_forged_round = demo_auth_round\<lparr>tag_hex := replicate 64 CHR ''f''\<rparr>"

definition demo_forged_commit :: commit_record where
  "demo_forged_commit = demo_commit\<lparr>cm_request := demo_forged_round\<rparr>"

definition only :: "'r \<Rightarrow> 'r serde" where
  "only x = (\<lambda>r. if r = x then Inr [1] else Inl ''another record'',
             \<lambda>v. if v = [1] then Inr x else Inl ''malformed'')"

definition either :: "'r \<Rightarrow> 'r \<Rightarrow> 'r serde" where
  "either x y = (\<lambda>r. if r = x then Inr [1] else if r = y then Inr [2] else Inl ''another record'',
                 \<lambda>v. if v = [1] then Inr x else if v = [2] then Inr y else Inl ''malformed'')"

definition demo_envelope :: "string \<times> bytes \<Rightarrow> envelope" where
  "demo_envelope kp = \<lparr>e_protocol = VERIFIER_JOURNAL_PROTOCOL_V2, e_kind = fst kp,
     e_session_record_sha256 = demo_digest, e_payload = snd kp, e_hmac_sha256 = demo_digest\<rparr>"

definition demo_print :: "string \<times> bytes \<Rightarrow> bytes" where
  "demo_print kp = (if kp = (''reservation'', [1]) then [1] else if kp = (''prepared'', [1]) then [2]
     else if kp = (''staged'', [1]) then [3] else if kp = (''commit'', [1]) then [4]
     else if kp = (''commit'', [2]) then [6] else [5])"

definition demo_parse :: "bytes \<Rightarrow> string \<times> bytes" where
  "demo_parse b = (if b = [1] then (''reservation'', [1]) else if b = [2] then (''prepared'', [1])
     else if b = [3] then (''staged'', [1]) else if b = [4] then (''commit'', [1])
     else if b = [6] then (''commit'', [2]) else (''active'', [1]))"

definition demo_io :: journal_io where
  "demo_io = \<lparr>io_crypto = demo_crypto_v2,
     io_json_envelope = (\<lambda>e. let kp = (e_kind e, e_payload e) in
        if e = demo_envelope kp \<and> demo_parse (demo_print kp) = kp then Inr (demo_print kp) else Inl ''another envelope''),
     io_parse_envelope = (\<lambda>b. Inr (demo_envelope (demo_parse b))),
     io_json_unsigned = (\<lambda>_. Inr []),
     io_parse_session = (\<lambda>b. if b = [1] then Inr demo_auth_session else Inl ''malformed''),
     io_reservation = only demo_reservation, io_prepared = only demo_prepared, io_staged = only demo_staged,
     io_commit = either demo_commit demo_forged_commit, io_active = only demo_active, io_ack = only demo_ack,
     io_tombstone = only demo_tombstone\<rparr>"

lemma demo_io_simps [simp]:
  "io_crypto demo_io = demo_crypto_v2" "io_json_unsigned demo_io u = Inr []"
  "io_reservation demo_io = only demo_reservation" "io_prepared demo_io = only demo_prepared"
  "io_staged demo_io = only demo_staged"
  "io_commit demo_io = either demo_commit demo_forged_commit"
  "io_active demo_io = only demo_active" "io_ack demo_io = only demo_ack"
  "io_tombstone demo_io = only demo_tombstone"
  by (simp_all add: demo_io_def)

lemma only_ok: "serde_ok (only x)" "serde_ok (either x y)"
  by (simp_all add: serde_ok_def only_def either_def)

lemma demo_io_ok: "io_ok demo_io"
proof -
  have "demo_print k \<noteq> []" for k by (simp add: demo_print_def)
  then show ?thesis
    by (auto simp: io_ok_def demo_crypto_v2_ok only_ok) (auto simp: demo_io_def Let_def split: if_splits)
qed

definition demo_slot :: string where
  "demo_slot = demo_digest @ ''.json''"

lemma fst_only [simp]:
  "fst (only x) x = Inr [1]" "fst (either x y) x = Inr [1]" "y \<noteq> x \<Longrightarrow> fst (either x y) y = Inr [2]"
  by (simp_all add: only_def either_def)

lemma demo_slot_name [simp]: "slot_name demo_io k = demo_slot"
  by (simp add: slot_name_def demo_slot_def)

lemma demo_write_slot:
  assumes "j_session_record_sha256 j = demo_digest" "j_key j = []" "file_at d dir demo_slot = None"
    and "to_value x = Inr p" "(kind, p) \<in> {(''reservation'', [1]), (''prepared'', [1]), (''staged'', [1]),
      (''commit'', [1]), (''commit'', [2]), (''active'', [1])}"
  shows "write_slot demo_io j d dir k kind to_value x = Inr (slot_write dir demo_slot (demo_print (kind, p)))"
proof -
  have tag: "tag_domain_hex demo_crypto [] VERIFIER_JOURNAL_MAC_DOMAIN_V2 b = Some demo_digest" for b
    by (simp add: tag_domain_hex_def VERIFIER_JOURNAL_MAC_DOMAIN_V2_def str_def demo_crypto_def demo_hex)
  have "list_all ident_v2 [''reservation'', ''prepared'', ''staged'', ''commit'', ''active'']" by code_simp
  with assms(5) have kinds: "ident_v2 kind" by auto
  have "journal_envelope demo_io kind demo_digest to_value x [] = Inr (demo_envelope (kind, p))"
    using kinds demo_digest_ok tag assms(4)
    by (simp add: journal_envelope_def canonical_v2_def demo_envelope_def bind_res_Inr_iff)
  moreover have "demo_parse (demo_print (kind, p)) = (kind, p)"
    using assms(5) by (elim insertE emptyE) (simp_all add: demo_print_def demo_parse_def)
  then have "io_json_envelope demo_io (demo_envelope (kind, p)) = Inr (demo_print (kind, p))"
    by (simp add: demo_io_def demo_envelope_def Let_def)
  ultimately show ?thesis
    using assms(1-3) by (simp add: write_slot_def canonical_v2_def write_exclusive_def bt_has_def slot_write_def)
qed

subsection \<open>The states of the run\<close>

definition demo_j0 :: journal where
  "demo_j0 = \<lparr>j_key = [], j_session = demo_auth_session, j_session_record_sha256 = demo_digest,
     j_evaluated_tokens = [5, 6], j_output_height = 0, j_head_sha256 = demo_digest,
     j_frontier = OpenFrontier 11 0, j_sampler_state = stateless,
     j_reservations = [], j_prepared = [], j_staged = [], j_completions = [],
     j_acknowledgements = [], j_tombstones = [], j_pending_activation = None\<rparr>"

definition demo_d0 :: disk where
  "demo_d0 = \<lparr>session_file = Some [1], files = (\<lambda>_. [])\<rparr>"

definition demo_j1 :: journal where
  "demo_j1 = demo_j0\<lparr>j_reservations := [(''request-1'', demo_reservation)]\<rparr>"

definition demo_d1 :: disk where
  "demo_d1 = set_file Reservations demo_slot [1] demo_d0"

definition demo_j2 :: journal where
  "demo_j2 = demo_j1\<lparr>j_prepared := [(''request-1'', demo_prepared)]\<rparr>"

definition demo_d2 :: disk where
  "demo_d2 = set_file Prepared demo_slot [2] demo_d1"

definition demo_j3 :: journal where
  "demo_j3 = demo_j2\<lparr>j_staged := [(''request-1'', demo_staged)]\<rparr>"

definition demo_d3 :: disk where
  "demo_d3 = set_file Staged demo_slot [3] (set_file Fragments (fragment_name demo_digest) (replicate 4 0) demo_d2)"

definition demo_j4 :: journal where
  "demo_j4 = advance_journal demo_auth_round demo_auth_result demo_j3"

definition demo_d4 :: disk where
  "demo_d4 = set_file Active demo_slot [5] (set_file Commits demo_slot [4] demo_d3)"

definition demo_permits :: fence where
  "demo_permits = (\<lambda>_ _ _ _ _ _. True)"

lemma demo_j0_fields [simp]:
  "j_key demo_j0 = []" "j_session demo_j0 = demo_auth_session" "j_session_record_sha256 demo_j0 = demo_digest"
  "j_head_sha256 demo_j0 = demo_digest" "j_frontier demo_j0 = OpenFrontier 11 0"
  "j_reservations demo_j0 = []" "j_prepared demo_j0 = []" "j_staged demo_j0 = []" "j_completions demo_j0 = []"
  "j_acknowledgements demo_j0 = []" "j_tombstones demo_j0 = []" "j_pending_activation demo_j0 = None"
  by (simp_all add: demo_j0_def)

lemma demo_d0_fields [simp]: "files demo_d0 dir = []" "session_file demo_d0 = Some [1]"
  by (simp_all add: demo_d0_def)

lemma demo_bodies [simp]:
  "body demo_auth_session = demo_session_v2" "body demo_auth_round = demo_round_v2"
  "body demo_auth_result = demo_result_v2" "r2_request_id demo_round_v2 = ''request-1''"
  "o2_request_id demo_result_v2 = ''request-1''"
  by (simp_all add: demo_auth_session_def demo_auth_round_def demo_auth_result_def demo_round_v2_def demo_result_v2_def)

lemma demo_digests_of [simp]:
  "intent_sha256_v2 demo_crypto_v2 r = Inr demo_digest" "result_record_digest demo_crypto_v2 x = Inr demo_digest"
  by (simp_all add: intent_sha256_v2_def result_record_digest_def)

lemma demo_created: "created demo_io demo_auth_session [] 500 ''key-a'' 7 (demo_j0, demo_d0)"
proof -
  have "from_session demo_io [] demo_auth_session = Inr demo_j0"
    by (simp add: from_session_def session_record_digest_def demo_j0_def demo_session_v2_def)
  then show ?thesis
    by (simp add: created_def create_def demo_session_verified canonical_v2_def demo_d0_def SESSION_BYTES_def)
qed

lemma demo_matches: "matches_current_parent demo_io j request"
  if "pos_of j = pos_of demo_j0" "body request = demo_round_v2"
  using that unfolding matches_pos by (simp add: pos_match_def pos_of_def demo_j0_def demo_round_v2_def)

lemma demo_fence [simp]: "check_live_fence j demo_permits now = Inr ()"
  by (simp add: check_live_fence_def demo_permits_def)

lemma demo_reserve:
  "run_op demo_io (OpReserve demo_auth_round demo_permits 50) demo_j0 demo_d0
     = (demo_j1, slot_write Reservations demo_slot [1])"
proof -
  have "round_verify_historical_v2 demo_crypto_v2 demo_auth_round demo_session_v2 [] = Inr ()"
    using demo_round_verified by (simp add: round_verify_live_def all_ok.simps(1))
  moreover have "write_slot demo_io demo_j0 demo_d0 Reservations ''request-1'' ''reservation''
      (fst (only demo_reservation)) demo_reservation = Inr (slot_write Reservations demo_slot [1])"
    using demo_write_slot [of demo_j0 demo_d0 Reservations "fst (only demo_reservation)" demo_reservation "[1]" "''reservation''"] by (simp add: demo_print_def)
  ultimately show ?thesis
    using demo_matches [of demo_j0 demo_auth_round] demo_round_verified
    by (simp add: reserve_def reserve_new_def unchanged_def demo_j1_def flip: demo_reservation_def)
qed

lemma demo_prepare:
  "run_op demo_io (OpPrepare demo_auth_round demo_auth_result demo_permits 50) demo_j1 demo_d1
     = (demo_j2, slot_write Prepared demo_slot [2])"
proof -
  have "write_slot demo_io demo_j1 demo_d1 Prepared ''request-1'' ''prepared''
      (fst (only demo_prepared)) demo_prepared = Inr (slot_write Prepared demo_slot [2])"
    using demo_write_slot [of demo_j1 demo_d1 Prepared "fst (only demo_prepared)" demo_prepared "[1]" "''prepared''"] by (simp add: demo_print_def demo_j1_def demo_d1_def)
  moreover have "rv_request demo_reservation = demo_auth_round" by (simp add: demo_reservation_def)
  ultimately show ?thesis
    using demo_matches [of demo_j1 demo_auth_round] demo_result_v2_ok
    by (simp add: record_prepared_def unchanged_def Let_def demo_j2_def demo_j1_def flip: demo_prepared_def)
qed

definition demo_stage :: "auth_result_v2 \<Rightarrow> closure_v2 \<Rightarrow> nat \<Rightarrow> string + stage_receipt" where
  "demo_stage result closure now = Inr demo_receipt"

lemma demo_receipt_ok: "validate_stage_receipt demo_io demo_receipt demo_auth_result = Inr ()"
  by (simp add: validate_stage_receipt_def demo_receipt_def demo_digest_ok demo_idents bind_res_Inr_iff)
    (simp add: demo_result_v2_def)

lemma demo_stage_op:
  "run_op demo_io (OpStage demo_auth_round demo_closure demo_stage 50) demo_j2 demo_d2
     = (demo_j3, slot_write Fragments (fragment_name demo_digest) (replicate 4 0)
          @ RendererStage demo_auth_result demo_closure # slot_write Staged demo_slot [3])"
proof -
  let ?d = "set_file Fragments (fragment_name demo_digest) (replicate 4 0) demo_d2"
  have frag: "d2_sha256 demo_fragment_v2 = demo_digest" "o2_fragments demo_result_v2 = [demo_fragment_v2]"
    by (simp_all add: demo_fragment_v2_def demo_result_v2_def)
  have w: "write_fragments demo_d2 (c2_fragments demo_closure)
      = (Inr (), slot_write Fragments (fragment_name demo_digest) (replicate 4 0))"
    by (simp add: demo_closure_def write_fragment_def frag write_exclusive_def bt_has_def slot_write_def Let_def
        demo_d2_def demo_d1_def)
  have cl: "closure_verify_result_v2 demo_crypto_v2 demo_closure demo_auth_result = Inr ()"
    by (simp add: closure_verify_result_v2_def demo_closure_def frag)
  have p: "pr_result demo_prepared = demo_auth_result" "pr_request_intent_sha256 demo_prepared = demo_digest"
    by (simp_all add: demo_prepared_def)
  have "write_slot demo_io demo_j2 ?d Staged ''request-1'' ''staged''
      (fst (only demo_staged)) demo_staged = Inr (slot_write Staged demo_slot [3])"
    using demo_write_slot [of demo_j2 ?d Staged "fst (only demo_staged)" demo_staged "[1]" "''staged''"]
    by (simp add: demo_print_def demo_j2_def demo_j1_def demo_d2_def demo_d1_def)
  then have rec: "stage_record demo_io demo_j2 ?d ''request-1'' demo_prepared demo_receipt 50
      = Inr (demo_j3, slot_write Staged demo_slot [3])"
    by (simp add: stage_record_def p demo_receipt_ok demo_j3_def demo_j2_def demo_j1_def flip: demo_staged_def)
  have j: "map_of (j_prepared demo_j2) ''request-1'' = Some demo_prepared" "map_of (j_staged demo_j2) ''request-1'' = None"
    by (simp_all add: demo_j2_def demo_j1_def)
  show ?thesis
    by (simp add: stage_result_def stage_new_def j p cl w demo_stage_def run_slot_write rec)
qed

definition demo_activate :: "stage_receipt \<Rightarrow> string + unit" where
  "demo_activate receipt = Inr ()"

definition demo_commit_effects :: "bytes \<Rightarrow> effect list" where
  "demo_commit_effects b = slot_write Commits demo_slot b
     @ RendererActivate demo_receipt # slot_write Active demo_slot [5]"

lemma verify_against_body:
  assumes "body request = body request'"
  shows "verify_against_v2 c result request s = verify_against_v2 c result request' s"
proof -
  have eq: "intent_sha256_v2 c request = intent_sha256_v2 c request'"
      "result_commitments_check c x request s = result_commitments_check c x request' s" for x
    using assms by (simp_all add: intent_sha256_v2_def result_commitments_check_def validate_closure_geometry_def)
  show ?thesis unfolding verify_against_v2_def assms eq ..
qed

lemma demo_commit_op:
  assumes rq: "body request = demo_round_v2" and c: "c = demo_commit\<lparr>cm_request := request\<rparr>"
    and p: "fst (io_commit demo_io) c = Inr p" "p = [1] \<or> p = [2]"
  shows "commit_and_activate demo_io demo_j3 demo_d3 request demo_permits demo_activate 50
     = (Inr demo_auth_result, demo_j4, demo_commit_effects (demo_print (''commit'', p)))"
proof -
  let ?j = "demo_j3\<lparr>j_pending_activation := Some c\<rparr>"
  let ?d = "set_file Commits demo_slot (demo_print (''commit'', p)) demo_d3"
  have m: "matches_current_parent demo_io demo_j3 request" "matches_current_parent demo_io ?j request"
    by (rule demo_matches, simp add: demo_j3_def demo_j2_def demo_j1_def, rule rq)+
  have r: "cm_request c = request" "cm_result c = demo_auth_result"
      "cm_renderer c = demo_receipt" "cm_id c = ''request-1''"
    using rq by (simp_all add: c demo_commit_def cm_id_def)
  have g: "pr_result demo_prepared = demo_auth_result" "pr_request_intent_sha256 demo_prepared = demo_digest"
      "sg_result_sha256 demo_staged = demo_digest" "sg_renderer demo_staged = demo_receipt"
      "o2_new_head_sha256 demo_result_v2 = demo_digest"
    by (simp_all add: demo_prepared_def demo_staged_def demo_result_v2_def)
  have j: "map_of (j_prepared demo_j3) ''request-1'' = Some demo_prepared"
      "map_of (j_staged demo_j3) ''request-1'' = Some demo_staged" "j_completions demo_j3 = []"
      "j_pending_activation demo_j3 = None" "j_session demo_j3 = demo_auth_session"
      "j_session_record_sha256 demo_j3 = demo_digest" "j_key demo_j3 = []"
    by (simp_all add: demo_j3_def demo_j2_def demo_j1_def)
  have no: "file_at demo_d3 Commits demo_slot = None" "file_at ?d Active demo_slot = None"
    by (simp_all add: demo_d3_def demo_d2_def demo_d1_def)
  have w1: "write_slot demo_io demo_j3 demo_d3 Commits ''request-1'' ''commit'' (fst (io_commit demo_io)) c
      = Inr (slot_write Commits demo_slot (demo_print (''commit'', p)))"
    by (rule demo_write_slot [where to_value = "fst (io_commit demo_io)" and x = c, OF j(6,7) no(1) p(1)])
      (use p(2) in auto)
  have w2: "write_active demo_io ?j ?d demo_active = Inr (slot_write Active demo_slot [5])"
    using demo_write_slot [of ?j ?d Active "fst (only demo_active)" demo_active "[1]" "''active''"] j no
    by (simp add: write_active_def demo_print_def)
  have cr: "commit_record_for demo_io demo_j3 request 50 = Inr c"
    using m rq by (simp add: commit_record_for_def Let_def j g c demo_commit_def bind_res_Inr_iff ensure_Inr_iff)
  have "verify_against_v2 demo_crypto_v2 demo_auth_result request demo_session_v2 = Inr ()"
    using demo_result_v2_ok verify_against_body [of request demo_auth_round] rq by simp
  then have "apply_active demo_io ?j request demo_auth_result = Inr (advance_journal request demo_auth_result ?j)"
    using m by (simp add: apply_active_def j)
  then have "publish_active demo_io ?j ?d c 50 = (Inr (), demo_j4, slot_write Active demo_slot [5])"
    using w2 by (simp add: publish_active_def r g demo_active_def)
      (simp add: advance_journal_def demo_j4_def j rq)
  then have rp: "recover_pending demo_io ?j ?d demo_activate 50
      = (Inr (), demo_j4, RendererActivate demo_receipt # slot_write Active demo_slot [5])"
    by (simp add: recover_pending_def r demo_receipt_ok demo_activate_def)
  have "map_of (j_completions demo_j4) ''request-1'' = Some demo_auth_result"
    by (simp add: demo_j4_def advance_journal_def j)
  with rp show ?thesis
    by (simp add: commit_and_activate_def commit_new_def j rq cr w1 [simplified] run_slot_write demo_commit_effects_def)
qed

subsection \<open>The run\<close>

abbreviation demo_ids :: "string set" where
  "demo_ids \<equiv> {''request-1''}"

abbreviation demo_run :: "journal \<times> disk \<Rightarrow> bool" where
  "demo_run \<equiv> journal_run demo_io demo_ids demo_auth_session [] ''key-a'' 7"

lemma demo_inj: "inj_on (slot_name demo_io) demo_ids"
  by simp

lemma demo_fits: "length b \<le> 1 \<Longrightarrow> fits (slot_write dir demo_slot b)"
  by (simp add: slot_write_def SLOT_BYTES_def)

lemma demo_run_step:
  assumes "demo_run (j, d)" "performs demo_io demo_ids j d op j' es" "d' = run_effects es d"
  shows "demo_run (j', d')"
  using assms unfolding journal_run_def by (auto intro: reach_step journal_step.Operate)

lemma demo_run0: "demo_run (demo_j0, demo_d0)"
  unfolding journal_run_def using demo_created by (auto intro: reach_init)

lemma demo_run1: "demo_run (demo_j1, demo_d1)"
proof (rule demo_run_step [OF demo_run0])
  show "performs demo_io demo_ids demo_j0 demo_d0 (OpReserve demo_auth_round demo_permits 50) demo_j1
      (slot_write Reservations demo_slot [1])"
    by (simp add: performs_def demo_reserve demo_fits del: run_op.simps)
qed (simp add: demo_d1_def run_slot_write)

lemma demo_run2: "demo_run (demo_j2, demo_d2)"
proof (rule demo_run_step [OF demo_run1])
  show "performs demo_io demo_ids demo_j1 demo_d1 (OpPrepare demo_auth_round demo_auth_result demo_permits 50) demo_j2
      (slot_write Prepared demo_slot [2])"
    by (simp add: performs_def demo_prepare demo_fits del: run_op.simps)
qed (simp add: demo_d2_def run_slot_write)

lemma demo_closure_ok: "closure_ok_v2 demo_crypto_v2 demo_closure"
  by (simp add: closure_ok_v2_def demo_closure_def demo_fragment_v2_def)

lemma demo_run3: "demo_run (demo_j3, demo_d3)"
proof (rule demo_run_step [OF demo_run2])
  show "performs demo_io demo_ids demo_j2 demo_d2 (OpStage demo_auth_round demo_closure demo_stage 50) demo_j3
      (slot_write Fragments (fragment_name demo_digest) (replicate 4 0)
          @ RendererStage demo_auth_result demo_closure # slot_write Staged demo_slot [3])"
    using demo_fits [of "[3]" Staged]
    by (simp add: performs_def demo_stage_op demo_closure_ok del: run_op.simps) (simp add: slot_write_def)
qed (simp add: demo_d3_def run_slot_write)

lemma demo_fits_commit: "length b \<le> 1 \<Longrightarrow> fits (demo_commit_effects b)"
  by (simp add: demo_commit_effects_def demo_fits)

lemma demo_commits:
  "performs demo_io demo_ids demo_j3 demo_d3 (OpCommit demo_auth_round demo_permits demo_activate 50) demo_j4
     (demo_commit_effects [4])"
proof -
  have "same_request demo_j3 demo_auth_round"
    by (simp add: same_request_def demo_j3_def demo_j2_def demo_j1_def demo_reservation_def)
  moreover have "demo_commit = demo_commit\<lparr>cm_request := demo_auth_round\<rparr>" by (simp add: demo_commit_def)
  from demo_commit_op [OF _ this, of "[1]"] have "run_op demo_io (OpCommit demo_auth_round demo_permits demo_activate 50)
      demo_j3 demo_d3 = (demo_j4, demo_commit_effects [4])" by (simp add: demo_print_def)
  ultimately show ?thesis by (simp add: performs_def demo_fits_commit del: run_op.simps)
qed

lemma demo_run4: "demo_run (demo_j4, demo_d4)"
  by (rule demo_run_step [OF demo_run3 demo_commits])
    (simp add: demo_commit_effects_def demo_d4_def run_slot_write)

lemma demo_keys [simp]: "j_key demo_j3 = []" "j_key demo_j4 = []"
  by (simp_all add: demo_j4_def demo_j3_def demo_j2_def demo_j1_def)

subsection \<open>The theorems on the run\<close>

text \<open>A crash between the write of the commit and the activation of the renderer, and one between the
  creation of the commit file and its write.\<close>

theorem crash_recovery_witness:
  "(\<exists>j. open_journal demo_io (run_effects (cut_effects (demo_commit_effects [4]) 2 0) demo_d3) [] ''key-a'' 7 = Inr j
      \<and> extends demo_j3 j)
   \<and> (\<exists>e. open_journal demo_io (run_effects (cut_effects (demo_commit_effects [4]) 1 0) demo_d3) [] ''key-a'' 7 = Inl e)"
proof -
  have "\<not> torn (demo_commit_effects [4]) 2 0" "torn (demo_commit_effects [4]) 1 0"
      "demo_commit_effects [4] ! 1 = WriteAll Commits demo_slot [4]"
    by (simp_all add: demo_commit_effects_def slot_write_def torn_def)
  with crash_recovery [OF demo_io_ok demo_inj demo_run3 demo_commits, of 2 0]
    crash_recovery [OF demo_io_ok demo_inj demo_run3 demo_commits, of 1 0]
  show ?thesis by simp
qed

theorem decisions_final_witness: "extends demo_j3 demo_j4 \<and> completed_result demo_j4 ''request-1'' = Some demo_auth_result"
proof -
  have "journal_step demo_io demo_ids ''key-a'' 7 (demo_j3, demo_d3) (demo_j4, run_effects (demo_commit_effects [4]) demo_d3)"
    by (rule journal_step.Operate [OF demo_commits])
  then have "(journal_step demo_io demo_ids ''key-a'' 7)\<^sup>*\<^sup>* (demo_j3, demo_d3)
      (demo_j4, run_effects (demo_commit_effects [4]) demo_d3)" by (rule r_into_rtranclp)
  from decisions_final [OF demo_io_ok demo_inj demo_run3 this] show ?thesis
    by (simp add: completed_result_def demo_j4_def advance_journal_def)
qed

theorem reopen_exact_witness:
  "\<exists>j. open_journal demo_io demo_d3 [] ''key-a'' 7 = Inr j \<and> j_evaluated_tokens j = [5, 6]
     \<and> pending_round demo_io j = pending_round demo_io demo_j3"
  using reopen_exact [OF demo_io_ok demo_inj demo_run3]
  by (auto simp: demo_j3_def demo_j2_def demo_j1_def) (auto simp: demo_j0_def)

theorem journal_is_one_chain_witness:
  "\<exists>chain. linked_from demo_io (genesis_pos demo_auth_session) chain \<and> chain_tokens chain = [11, 12]"
proof -
  have "j_evaluated_tokens demo_j4 = [5, 6, 11, 12]" "s2_initial_evaluated_tokens demo_session_v2 = [5, 6]"
    by (simp_all add: demo_j4_def advance_journal_def demo_j3_def demo_j2_def demo_j1_def)
      (simp_all add: demo_j0_def demo_result_v2_def demo_session_v2_def)
  with journal_is_one_chain [OF demo_io_ok demo_inj demo_run4] show ?thesis by auto
qed

theorem one_unfinished_child_witness: "\<exists>p. pending_round demo_io demo_j3 = Inr p"
  by (rule one_unfinished_child [OF demo_io_ok demo_inj demo_run3])
    (simp add: demo_j3_def demo_j2_def demo_j1_def)

theorem retained_fragments_intact_witness: "verify_fragment_cas demo_io demo_d4 demo_auth_result = Inr ()"
  by (rule retained_fragments_intact [OF demo_io_ok demo_inj demo_run4, of "''request-1''"])
    (simp_all add: completed_result_def demo_j4_def advance_journal_def demo_j3_def demo_j2_def demo_j1_def)

theorem activation_after_commit_witness:
  "\<exists>j c. open_journal demo_io (run_effects (take 2 (demo_commit_effects [4])) demo_d3) [] ''key-a'' 7 = Inr j
     \<and> j_pending_activation j = Some c \<and> cm_renderer c = demo_receipt"
proof -
  have "2 < length (demo_commit_effects [4])" "demo_commit_effects [4] ! 2 = RendererActivate demo_receipt"
    by (simp_all add: demo_commit_effects_def slot_write_def)
  from activation_after_commit [OF demo_io_ok demo_inj demo_run3 demo_commits this] show ?thesis by simp
qed

theorem unverified_commit_blocks_open_witness:
  "\<exists>es e. commit_and_activate demo_io demo_j3 demo_d3 demo_forged_round demo_permits demo_activate 50
       = (Inr demo_auth_result, demo_j4, es)
     \<and> open_journal demo_io (run_effects es demo_d3) [] ''key-a'' 7 = Inl e"
proof -
  have b: "body demo_forged_round = demo_round_v2" by (simp add: demo_forged_round_def)
  have tag: "tag_hex demo_forged_round \<noteq> demo_digest" by (simp add: demo_forged_round_def demo_digest_def)
  have "cm_request demo_forged_commit = demo_forged_round" "tag_hex (cm_request demo_commit) = demo_digest"
    by (simp_all add: demo_forged_commit_def demo_commit_def demo_auth_round_def)
  with tag have ne: "demo_forged_commit \<noteq> demo_commit" by auto
  have op: "commit_and_activate demo_io demo_j3 demo_d3 demo_forged_round demo_permits demo_activate 50
       = (Inr demo_auth_result, demo_j4, demo_commit_effects (demo_print (''commit'', [2])))"
    by (rule demo_commit_op [OF b demo_forged_commit_def]) (use ne in simp_all)
  have "round_sign_v2 demo_crypto_v2 demo_round_v2 demo_session_v2 [] \<noteq> Inr demo_forged_round"
  proof
    assume "round_sign_v2 demo_crypto_v2 demo_round_v2 demo_session_v2 [] = Inr demo_forged_round"
    then have "\<lparr>body = demo_round_v2, tag_hex = demo_digest\<rparr> = demo_forged_round"
      by (auto simp: round_sign_v2_def bind_res_Inr_iff ok_or_Inr_iff tag_domain_hex_def demo_crypto_def
          demo_hex split: if_splits)
    from arg_cong [OF this, of tag_hex] tag show False by simp
  qed
  then have "round_verify_historical_v2 demo_crypto_v2 demo_forged_round demo_session_v2 [] \<noteq> Inr ()"
    using round_sign_iff_verify [OF demo_crypto_v2_ok, of demo_forged_round] b by simp
  moreover have "j_pending_activation demo_j3 = None" "completed_result demo_j3 ''request-1'' = None"
    by (simp_all add: completed_result_def demo_j3_def demo_j2_def demo_j1_def)
  ultimately show ?thesis
    using unverified_commit_blocks_open [OF demo_io_ok demo_inj demo_run3 _ _ op] b op
    by (auto simp: demo_fits_commit demo_print_def)
qed

end
