(* ===== verification/Gateway_Codec.thy ===== *)
theory Gateway_Codec
  imports Verifier_Journal
begin

section \<open>Frames of the verifier gateway\<close>

text \<open>
  \<open>crates/muser-cluster/src/verifier_gateway_codec.rs\<close>: the bounded framing of the gateway between a
  source and a verifier. A frame is a magic, the lengths of its header and payload, the canonical
  JSON of the header and the payload; the header repeats the length of the payload, commits to its
  digest and carries the message, an authenticated request of the source or a reply of the gateway.
  A stream is the list of bytes still to be read. Lengths are written in big-endian order.

  Addresses are 64 bits wide, so the conversion of the payload length to \<open>usize\<close> cannot fail; a
  writer accepts every byte, and a reader that ends too early is \<open>CodecIo\<close>. Messages of the serializer
  that quote a length are shortened.

  As in \<open>Verifier_V2\<close> the hash functions and serializers are parameters (\<open>gateway_io\<close>). What is
  assumed is that parsing a serialized header returns it (\<open>gateway_ok\<close>). \<open>decode_canonical_json\<close>
  (\<open>kvpack-handoff\<close>), which serializes what it parsed and compares, is modelled as written.

  Shown here: a frame is read from a stream exactly when the stream begins with the bytes that
  writing the frame produces, so that no two byte sequences are read as the same frame; streams of
  frames are read back in order; and a request of the source verifies exactly when signing its core
  returns it.
\<close>

subsection \<open>Errors and checks\<close>

datatype codec_error = CodecIo | CodecValidation string | CodecAuthentication

fun v2_message :: "v2_error \<Rightarrow> string" where
  "v2_message (ValidationV2 m) = ''verifier V2 validation: '' @ m"
| "v2_message AuthenticationV2 = ''verifier V2 authentication failed''"
| "v2_message LeaseNotLive = ''verifier V2 authority lease is not live''"
| "v2_message ChangedIntentV2 = ''verifier V2 request changed intent''"
| "v2_message StaleHeadV2 = ''verifier V2 parent is stale''"
| "v2_message BusyParent = ''verifier V2 parent already has an in-flight child''"
| "v2_message TerminalV2 = ''verifier V2 session is terminal''"
| "v2_message IncompleteV2 = ''verifier V2 closure is incomplete''"
| "v2_message ResyncRequired = ''verifier V2 retry is outside retained history''"
| "v2_message (RendererError m) = ''verifier V2 renderer: '' @ m"
| "v2_message (IoError m) = ''verifier V2 I/O: '' @ m"

definition codec_refuse :: "bool \<Rightarrow> string \<Rightarrow> codec_error + unit" where
  "codec_refuse b m = (if b then Inl (CodecValidation m) else Inr ())"

lemma codec_refuse_Inr_iff [simp]: "codec_refuse b m = Inr u \<longleftrightarrow> \<not> b"
  by (simp add: codec_refuse_def)

definition lift_v2 :: "v2_error + 'a \<Rightarrow> codec_error + 'a" where
  "lift_v2 r = map_err (\<lambda>e. CodecValidation (v2_message e)) r"

lemma lift_v2_Inr_iff [simp]: "lift_v2 r = Inr a \<longleftrightarrow> r = Inr a"
  by (simp add: lift_v2_def map_err_Inr_iff)

definition is_digest :: "string \<Rightarrow> bool" where
  "is_digest v \<longleftrightarrow> length v = 64 \<and> list_all is_lower_hex v"

definition gateway_digest :: "string \<Rightarrow> string \<Rightarrow> codec_error + unit" where
  "gateway_digest label v = codec_refuse (\<not> is_digest v) (label @ '' digest differs'')"

definition gateway_identifier :: "string \<Rightarrow> string \<Rightarrow> codec_error + unit" where
  "gateway_identifier label v =
     codec_refuse (v = [] \<or> length v > 128
        \<or> \<not> list_all (\<lambda>b. is_ascii_alphanumeric b \<or> b \<in> set ''-_.:'') v)
       (label @ '' identifier differs'')"

text \<open>\<open>windows(2).any(|w| w[0] >= w[1])\<close>.\<close>

definition not_increasing :: "nat list \<Rightarrow> bool" where
  "not_increasing xs = list_ex (\<lambda>(a, b). a \<ge> b) (zip xs (tl xs))"

subsection \<open>Messages\<close>

definition VERIFIER_GATEWAY_PROTOCOL_V1 :: string where
  "VERIFIER_GATEWAY_PROTOCOL_V1 = ''muser-verifier-gateway-v2''"
definition VERIFIER_GATEWAY_SOURCE_PROTOCOL_V1 :: string where
  "VERIFIER_GATEWAY_SOURCE_PROTOCOL_V1 = ''muser-verifier-gateway-source-v2''"
definition VERIFIER_GATEWAY_SOURCE_MAC_DOMAIN_V1 :: bytes where
  "VERIFIER_GATEWAY_SOURCE_MAC_DOMAIN_V1 = str ''muser-verifier-gateway-source-v2''"
definition VERIFIER_SOURCE_INSTALL_RECEIPT_PROTOCOL_V1 :: string where
  "VERIFIER_SOURCE_INSTALL_RECEIPT_PROTOCOL_V1 = ''muser-verifier-source-install-v2''"
definition VERIFIER_MIRROR_PREDICTION_PROTOCOL_V1 :: string where
  "VERIFIER_MIRROR_PREDICTION_PROTOCOL_V1 = ''muser-mirror-prediction-v1''"
definition VERIFIER_GATEWAY_MAGIC_V1 :: bytes where
  "VERIFIER_GATEWAY_MAGIC_V1 = str ''MUVERF1'' @ [0]"
definition MAX_VERIFIER_GATEWAY_HEADER_BYTES_V1 :: nat where
  "MAX_VERIFIER_GATEWAY_HEADER_BYTES_V1 = 64 * 1024 * 1024"
definition DEFAULT_VERIFIER_GATEWAY_HEADER_BYTES_V1 :: nat where
  "DEFAULT_VERIFIER_GATEWAY_HEADER_BYTES_V1 = 32 * 1024 * 1024"
definition DEFAULT_VERIFIER_GATEWAY_PAYLOAD_BYTES_V1 :: nat where
  "DEFAULT_VERIFIER_GATEWAY_PAYLOAD_BYTES_V1 = 64 * 1024 * 1024"

record frame_limits =
  max_header_bytes :: nat
  max_payload_bytes :: nat

definition default_limits :: frame_limits where
  "default_limits = \<lparr>max_header_bytes = DEFAULT_VERIFIER_GATEWAY_HEADER_BYTES_V1,
     max_payload_bytes = DEFAULT_VERIFIER_GATEWAY_PAYLOAD_BYTES_V1\<rparr>"

definition limits_validate :: "frame_limits \<Rightarrow> codec_error + unit" where
  "limits_validate l =
     codec_refuse (max_header_bytes l = 0
        \<or> max_header_bytes l > MAX_VERIFIER_GATEWAY_HEADER_BYTES_V1
        \<or> max_payload_bytes l > MAX_FRAGMENT_BYTES_V2)
       ''frame limits exceed the closed protocol bounds''"

record mirror_prediction =
  mp_protocol :: string
  mp_request_id :: string
  mp_request_intent_sha256 :: string
  mp_base_head_sha256 :: string
  mp_predicted_frontier_token :: nat
  mp_provisional_parent_cache_revision :: nat
  mp_provisional_cache_revision :: nat
  mp_provisional_state_sha256 :: string

record install_receipt =
  in_protocol :: string
  in_request_id :: string
  in_result_sha256 :: string
  in_applied_head_sha256 :: string
  in_render_root_sha256 :: string
  in_source_state_sha256 :: string
  in_source_state_bytes :: nat
  in_installed_output_height :: nat
  in_installed_transcript_sha256 :: string
  in_durable_unix_ms :: nat

datatype failure_reason = ExpiredReserved | PermanentEvaluator | ActivationFenceConflict

record session_failure =
  sf_reason :: failure_reason
  sf_request_id :: string
  sf_request_intent_sha256 :: string
  sf_base_head_sha256 :: string
  sf_request_expires_unix_ms :: nat
  sf_failed_unix_ms :: nat

datatype source_command =
  AdmitSession auth_session_v2
| SubmitRound auth_round_v2 "mirror_prediction option"
| FetchMissing string string "nat list"
| SourceAck install_receipt

record source_core =
  gs_protocol :: string
  gs_session_record_sha256 :: string
  gs_command :: source_command

type_synonym auth_source = "source_core tagged"

datatype pending_summary =
  SummaryReserved auth_round_v2
| SummaryPrepared auth_round_v2 auth_result_v2
| SummaryStaged auth_round_v2 auth_result_v2 stage_receipt

datatype gateway_reply =
  SessionAccepted auth_session_v2 string "pending_summary option"
| RoundCommitted auth_result_v2 string string bool
| FragmentReply string string descriptor_v2
| FetchComplete string string "nat list"
| SourceAcked string string string
| SessionFailed string session_failure
| StaleReply string nat string frontier_v2 sampler_state_v2 string

datatype gateway_message = SourceMessage auth_source | GatewayMessage gateway_reply

record gateway_frame =
  gf_message :: gateway_message
  gf_payload :: bytes

definition source_frame :: "auth_source \<Rightarrow> gateway_frame" where
  "source_frame request = \<lparr>gf_message = SourceMessage request, gf_payload = []\<rparr>"

definition reply_frame :: "gateway_reply \<Rightarrow> gateway_frame" where
  "reply_frame reply = \<lparr>gf_message = GatewayMessage reply, gf_payload = []\<rparr>"

definition fragment_frame :: "gateway_reply \<Rightarrow> bytes \<Rightarrow> gateway_frame" where
  "fragment_frame reply payload = \<lparr>gf_message = GatewayMessage reply, gf_payload = payload\<rparr>"

record frame_header =
  gh_protocol :: string
  gh_payload_bytes :: nat
  gh_payload_sha256 :: string
  gh_message :: gateway_message

record gateway_io =
  g_crypto :: crypto_v2
  g_json_source :: "source_core \<Rightarrow> string + bytes"
  g_json_auth_source :: "auth_source \<Rightarrow> string + bytes"
  g_json_header :: "frame_header \<Rightarrow> string + bytes"
  g_parse_header :: "bytes \<Rightarrow> string + frame_header"

definition gateway_ok :: "gateway_io \<Rightarrow> bool" where
  "gateway_ok g \<longleftrightarrow> crypto_v2_ok (g_crypto g)
     \<and> (\<forall>h b. g_json_header g h = Inr b \<longrightarrow> g_parse_header g b = Inr h)"

subsection \<open>Validation of requests and replies\<close>

definition mirror_validate_for :: "gateway_io \<Rightarrow> mirror_prediction \<Rightarrow> auth_round_v2 \<Rightarrow> codec_error + unit" where
  "mirror_validate_for g m round =
     (let differs = Inl (CodecValidation ''Mirror prediction commitment differs from round'') in
      if mp_protocol m \<noteq> VERIFIER_MIRROR_PREDICTION_PROTOCOL_V1
         \<or> mp_request_id m \<noteq> r2_request_id (body round) then differs
      else bind_res (lift_v2 (intent_sha256_v2 (g_crypto g) round)) (\<lambda>intent.
        if mp_request_intent_sha256 m \<noteq> intent
           \<or> mp_base_head_sha256 m \<noteq> r2_base_head_sha256 (body round) then differs
        else bind_res (ok_or (checked_add (mp_provisional_parent_cache_revision m) 1)
                         (CodecValidation ''Mirror cache revision overflow'')) (\<lambda>revision.
          if mp_provisional_cache_revision m \<noteq> revision then differs
          else all_ok
           [gateway_identifier ''Mirror prediction request'' (mp_request_id m),
            gateway_digest ''Mirror prediction intent'' (mp_request_intent_sha256 m),
            gateway_digest ''Mirror prediction parent'' (mp_base_head_sha256 m),
            gateway_digest ''Mirror provisional state'' (mp_provisional_state_sha256 m)])))"

definition mirror_for_round ::
  "gateway_io \<Rightarrow> auth_round_v2 \<Rightarrow> nat \<Rightarrow> nat \<Rightarrow> nat \<Rightarrow> string \<Rightarrow> codec_error + mirror_prediction" where
  "mirror_for_round g round token parent_revision revision state_sha256 =
     bind_res (lift_v2 (intent_sha256_v2 (g_crypto g) round)) (\<lambda>intent.
     let m = \<lparr>mp_protocol = VERIFIER_MIRROR_PREDICTION_PROTOCOL_V1,
              mp_request_id = r2_request_id (body round), mp_request_intent_sha256 = intent,
              mp_base_head_sha256 = r2_base_head_sha256 (body round),
              mp_predicted_frontier_token = token,
              mp_provisional_parent_cache_revision = parent_revision,
              mp_provisional_cache_revision = revision,
              mp_provisional_state_sha256 = state_sha256\<rparr> in
     bind_res (mirror_validate_for g m round) (\<lambda>_. Inr m))"

definition receipt_validate :: "install_receipt \<Rightarrow> codec_error + unit" where
  "receipt_validate r =
     all_ok
      [codec_refuse (in_protocol r \<noteq> VERIFIER_SOURCE_INSTALL_RECEIPT_PROTOCOL_V1 \<or> in_durable_unix_ms r = 0)
         ''source install receipt protocol or time differs'',
       gateway_identifier ''ACK request'' (in_request_id r),
       gateway_digest ''ACK result'' (in_result_sha256 r),
       gateway_digest ''ACK head'' (in_applied_head_sha256 r),
       gateway_digest ''ACK render root'' (in_render_root_sha256 r),
       gateway_digest ''ACK source state'' (in_source_state_sha256 r),
       gateway_digest ''ACK installed transcript'' (in_installed_transcript_sha256 r),
       codec_refuse (in_source_state_bytes r = 0) ''source install receipt has no durable state'']"

fun command_validate :: "gateway_io \<Rightarrow> string \<Rightarrow> source_command \<Rightarrow> codec_error + unit" where
  "command_validate g session_sha (AdmitSession session) =
     bind_res (lift_v2 (session_record_digest (g_crypto g) session)) (\<lambda>digest.
       codec_refuse (digest \<noteq> session_sha) ''admitted session digest differs'')"
| "command_validate g session_sha (SubmitRound round prediction) =
     bind_res (gateway_identifier ''round request'' (r2_request_id (body round))) (\<lambda>_.
       case prediction of None \<Rightarrow> Inr () | Some m \<Rightarrow> mirror_validate_for g m round)"
| "command_validate g session_sha (FetchMissing request_id result_sha256 ordinals) =
     all_ok
      [gateway_identifier ''fetch request'' request_id,
       gateway_digest ''fetch result'' result_sha256,
       codec_refuse (length ordinals > MAX_FRAGMENTS_V2 \<or> not_increasing ordinals)
         ''missing fragment ordinals are not a bounded strict set'']"
| "command_validate g session_sha (SourceAck receipt) = receipt_validate receipt"

definition source_validate :: "gateway_io \<Rightarrow> source_core \<Rightarrow> codec_error + unit" where
  "source_validate g k =
     all_ok
      [codec_refuse (gs_protocol k \<noteq> VERIFIER_GATEWAY_SOURCE_PROTOCOL_V1) ''source request protocol differs'',
       gateway_digest ''session record'' (gs_session_record_sha256 k),
       command_validate g (gs_session_record_sha256 k) (gs_command k)]"

definition source_sign :: "gateway_io \<Rightarrow> string \<Rightarrow> source_command \<Rightarrow> bytes \<Rightarrow> codec_error + auth_source" where
  "source_sign g session_sha command key =
     (let k = \<lparr>gs_protocol = VERIFIER_GATEWAY_SOURCE_PROTOCOL_V1, gs_session_record_sha256 = session_sha,
               gs_command = command\<rparr> in
      bind_res (source_validate g k) (\<lambda>_.
      bind_res (map_err CodecValidation (g_json_source g k)) (\<lambda>b.
      bind_res (ok_or (tag_domain_hex (prim (g_crypto g)) key VERIFIER_GATEWAY_SOURCE_MAC_DOMAIN_V1 b)
                  CodecAuthentication) (\<lambda>tag.
        Inr \<lparr>body = k, tag_hex = tag\<rparr>))))"

definition source_verify :: "gateway_io \<Rightarrow> auth_source \<Rightarrow> bytes \<Rightarrow> codec_error + unit" where
  "source_verify g request key =
     bind_res (source_validate g (body request)) (\<lambda>_.
     bind_res (gateway_digest ''source request HMAC'' (tag_hex request)) (\<lambda>_.
     bind_res (map_err CodecValidation (g_json_source g (body request))) (\<lambda>b.
       ensure (verify_domain_hex (prim (g_crypto g)) key VERIFIER_GATEWAY_SOURCE_MAC_DOMAIN_V1 b
                 (tag_hex request)) CodecAuthentication)))"

definition source_record_digest :: "gateway_io \<Rightarrow> auth_source \<Rightarrow> codec_error + string" where
  "source_record_digest g request =
     bind_res (map_err CodecValidation (g_json_auth_source g request)) (\<lambda>b.
       Inr (sha256_hex (prim (g_crypto g)) b))"

definition validate_pending_pair ::
  "gateway_io \<Rightarrow> auth_round_v2 \<Rightarrow> auth_result_v2 \<Rightarrow> codec_error + unit" where
  "validate_pending_pair g request result =
     (let differs = Inl (CodecValidation ''pending request/result identity differs'') in
      bind_res (gateway_identifier ''pending request'' (r2_request_id (body request))) (\<lambda>_.
      if r2_request_id (body request) \<noteq> o2_request_id (body result) then differs
      else bind_res (lift_v2 (intent_sha256_v2 (g_crypto g) request)) (\<lambda>intent.
        if intent \<noteq> o2_request_intent_sha256 (body result) then differs else Inr ())))"

fun summary_validate :: "gateway_io \<Rightarrow> pending_summary \<Rightarrow> codec_error + unit" where
  "summary_validate g (SummaryReserved request) =
     gateway_identifier ''pending request'' (r2_request_id (body request))"
| "summary_validate g (SummaryPrepared request result) = validate_pending_pair g request result"
| "summary_validate g (SummaryStaged request result renderer) =
     bind_res (all_ok
      [validate_pending_pair g request result,
       gateway_digest ''pending renderer result'' (rs_result_sha256 renderer),
       gateway_digest ''pending renderer root'' (rs_render_root_sha256 renderer),
       gateway_identifier ''pending renderer token'' (rs_stage_token renderer)]) (\<lambda>_.
     bind_res (lift_v2 (result_record_digest (g_crypto g) result)) (\<lambda>digest.
       codec_refuse (rs_result_sha256 renderer \<noteq> digest
          \<or> rs_render_root_sha256 renderer \<noteq> o2_fragments_sha256 (body result))
         ''pending renderer receipt differs''))"

definition failure_validate :: "session_failure \<Rightarrow> codec_error + unit" where
  "failure_validate f =
     all_ok
      [gateway_identifier ''failed request'' (sf_request_id f),
       gateway_digest ''failed request intent'' (sf_request_intent_sha256 f),
       gateway_digest ''failed request parent'' (sf_base_head_sha256 f),
       codec_refuse (sf_request_expires_unix_ms f = 0 \<or> sf_failed_unix_ms f = 0)
         ''failed session timestamps differ'',
       codec_refuse (sf_reason f = ExpiredReserved \<and> sf_failed_unix_ms f \<le> sf_request_expires_unix_ms f)
         ''expired reservation failure predates expiry'']"

fun validate_reply :: "gateway_io \<Rightarrow> gateway_reply \<Rightarrow> codec_error + unit" where
  "validate_reply g (SessionAccepted session session_sha pending) =
     bind_res (gateway_digest ''accepted session'' session_sha) (\<lambda>_.
     bind_res (lift_v2 (session_record_digest (g_crypto g) session)) (\<lambda>digest.
     bind_res (codec_refuse (digest \<noteq> session_sha) ''accepted session record digest differs'') (\<lambda>_.
       case pending of None \<Rightarrow> Inr () | Some p \<Rightarrow> summary_validate g p)))"
| "validate_reply g (RoundCommitted result result_sha admission_sha replayed) =
     bind_res (all_ok
      [gateway_digest ''committed result'' result_sha,
       gateway_digest ''committed source admission'' admission_sha,
       gateway_identifier ''committed request'' (o2_request_id (body result))]) (\<lambda>_.
     bind_res (lift_v2 (result_record_digest (g_crypto g) result)) (\<lambda>digest.
       codec_refuse (digest \<noteq> result_sha) ''committed result digest differs''))"
| "validate_reply g (FragmentReply request_id result_sha d) =
     all_ok
      [gateway_identifier ''fragment request'' request_id,
       gateway_digest ''fragment result'' result_sha,
       gateway_identifier ''fragment component'' (d2_component_id d),
       gateway_identifier ''fragment ABI'' (d2_payload_abi d),
       gateway_digest ''fragment payload'' (d2_sha256 d),
       codec_refuse (d2_ordinal d \<ge> MAX_FRAGMENTS_V2 \<or> d2_byte_len d = 0
          \<or> d2_byte_len d > MAX_FRAGMENT_BYTES_V2) ''fragment descriptor exceeds wire bounds'']"
| "validate_reply g (FetchComplete request_id result_sha ordinals) =
     all_ok
      [gateway_identifier ''fetch completion request'' request_id,
       gateway_digest ''fetch completion result'' result_sha,
       codec_refuse (length ordinals > MAX_FRAGMENTS_V2 \<or> not_increasing ordinals)
         ''fetch completion ordinal set differs'']"
| "validate_reply g (SourceAcked request_id result_sha head_sha) =
     all_ok
      [gateway_identifier ''ACKed request'' request_id,
       gateway_digest ''ACKed result'' result_sha,
       gateway_digest ''ACKed head'' head_sha]"
| "validate_reply g (SessionFailed session_sha failure) =
     all_ok
      [gateway_digest ''failed session'' session_sha, failure_validate failure]"
| "validate_reply g (StaleReply request_id height head_sha frontier sampler transcript_sha) =
     all_ok
      [gateway_identifier ''stale request'' request_id,
       gateway_digest ''stale head'' head_sha,
       gateway_digest ''stale transcript'' transcript_sha]"

fun validate_message_header :: "gateway_io \<Rightarrow> gateway_message \<Rightarrow> nat \<Rightarrow> codec_error + unit" where
  "validate_message_header g (SourceMessage request) payload_bytes =
     bind_res (source_validate g (body request)) (\<lambda>_.
       codec_refuse (payload_bytes \<noteq> 0) ''source control frame carries a payload'')"
| "validate_message_header g (GatewayMessage reply) payload_bytes =
     bind_res (validate_reply g reply) (\<lambda>_.
       case reply of
         FragmentReply _ _ d \<Rightarrow>
           codec_refuse (payload_bytes \<noteq> d2_byte_len d) ''fragment preamble length differs from descriptor''
       | _ \<Rightarrow> codec_refuse (payload_bytes \<noteq> 0) ''control reply carries a payload'')"

definition frame_validate :: "gateway_io \<Rightarrow> gateway_frame \<Rightarrow> codec_error + unit" where
  "frame_validate g frame =
     bind_res (validate_message_header g (gf_message frame) (length (gf_payload frame))) (\<lambda>_.
       case gf_message frame of
         SourceMessage request \<Rightarrow> source_validate g (body request)
       | GatewayMessage (FragmentReply _ _ d) \<Rightarrow>
           codec_refuse (length (gf_payload frame) \<noteq> d2_byte_len d
              \<or> sha256_hex (prim (g_crypto g)) (gf_payload frame) \<noteq> d2_sha256 d) ''fragment frame payload differs''
       | _ \<Rightarrow> Inr ())"

subsection \<open>Reading and writing frames\<close>

definition be_bytes :: "nat \<Rightarrow> nat \<Rightarrow> bytes" where
  "be_bytes n v = rev (le_bytes n v)"

definition be_nat :: "bytes \<Rightarrow> nat" where
  "be_nat bs = le_nat (rev bs)"

definition write_verifier_gateway_frame_v1 :: "gateway_io \<Rightarrow> gateway_frame \<Rightarrow> frame_limits \<Rightarrow> codec_error + bytes" where
  "write_verifier_gateway_frame_v1 g frame limits =
     bind_res (limits_validate limits) (\<lambda>_.
     bind_res (frame_validate g frame) (\<lambda>_.
     bind_res (codec_refuse (length (gf_payload frame) > max_payload_bytes limits)
                 ''frame payload exceeds configured bounds'') (\<lambda>_.
     bind_res (map_err CodecValidation (g_json_header g
         \<lparr>gh_protocol = VERIFIER_GATEWAY_PROTOCOL_V1, gh_payload_bytes = length (gf_payload frame),
          gh_payload_sha256 = sha256_hex (prim (g_crypto g)) (gf_payload frame),
          gh_message = gf_message frame\<rparr>)) (\<lambda>header.
     bind_res (codec_refuse (header = [] \<or> length header > max_header_bytes limits)
                 ''frame header exceeds configured bounds'') (\<lambda>_.
     bind_res (codec_refuse (length header \<ge> 2 ^ 32) ''frame header overflow'') (\<lambda>_.
       Inr (VERIFIER_GATEWAY_MAGIC_V1 @ be_bytes 4 (length header)
            @ be_bytes 8 (length (gf_payload frame)) @ header @ gf_payload frame)))))))"

definition read_bytes :: "nat \<Rightarrow> bytes \<Rightarrow> codec_error + bytes \<times> bytes" where
  "read_bytes n bs = (if length bs < n then Inl CodecIo else Inr (take n bs, drop n bs))"

definition decode_canonical_json :: "'r serde \<Rightarrow> bytes \<Rightarrow> nat \<Rightarrow> string + 'r" where
  "decode_canonical_json sd bs max_bytes =
     bind_res (ensure (bs \<noteq> [] \<and> length bs \<le> max_bytes) ''JSON length is outside the limit'') (\<lambda>_.
     bind_res (snd sd bs) (\<lambda>decoded.
     bind_res (fst sd decoded) (\<lambda>encoded.
     bind_res (ensure (encoded = bs) ''JSON is not in the canonical compact sorted-key encoding'') (\<lambda>_.
       Inr decoded))))"

abbreviation header_serde :: "gateway_io \<Rightarrow> frame_header serde" where
  "header_serde g \<equiv> (g_json_header g, g_parse_header g)"

definition read_verifier_gateway_frame_v1 :: "gateway_io \<Rightarrow> frame_limits \<Rightarrow> bytes \<Rightarrow> codec_error + gateway_frame \<times> bytes" where
  "read_verifier_gateway_frame_v1 g limits bs0 =
     bind_res (limits_validate limits) (\<lambda>_.
     bind_res (read_bytes 8 bs0) (\<lambda>(magic, bs1).
     bind_res (read_bytes 4 bs1) (\<lambda>(header_be, bs2).
     bind_res (read_bytes 8 bs2) (\<lambda>(payload_be, bs3).
     bind_res (codec_refuse (magic \<noteq> VERIFIER_GATEWAY_MAGIC_V1) ''frame magic differs'') (\<lambda>_.
     let header_len = be_nat header_be; payload_len = be_nat payload_be in
     bind_res (codec_refuse (header_len = 0 \<or> header_len > max_header_bytes limits
                  \<or> payload_len > max_payload_bytes limits) ''frame lengths exceed configured bounds'') (\<lambda>_.
     bind_res (read_bytes header_len bs3) (\<lambda>(header_bytes, bs4).
     bind_res (map_err CodecValidation
         (decode_canonical_json (header_serde g) header_bytes (max_header_bytes limits))) (\<lambda>header.
     bind_res (codec_refuse (gh_protocol header \<noteq> VERIFIER_GATEWAY_PROTOCOL_V1
                  \<or> gh_payload_bytes header \<noteq> payload_len \<or> \<not> is_digest (gh_payload_sha256 header))
                 ''frame header identity or payload length differs'') (\<lambda>_.
     bind_res (validate_message_header g (gh_message header) payload_len) (\<lambda>_.
     bind_res (read_bytes payload_len bs4) (\<lambda>(payload, rest).
     bind_res (codec_refuse (sha256_hex (prim (g_crypto g)) payload \<noteq> gh_payload_sha256 header)
                 ''frame payload commitment differs'') (\<lambda>_.
     let frame = \<lparr>gf_message = gh_message header, gf_payload = payload\<rparr> in
     bind_res (frame_validate g frame) (\<lambda>_. Inr (frame, rest))))))))))))))"

subsection \<open>Round trips\<close>

lemma length_be_bytes [simp]: "length (be_bytes n v) = n"
  by (simp add: be_bytes_def)

lemma be_nat_be_bytes: "v < 256 ^ n \<Longrightarrow> be_nat (be_bytes n v) = v"
  by (simp add: be_nat_def be_bytes_def le_nat_le_bytes)

lemma be_bytes_be_nat: "length bs = n \<Longrightarrow> be_bytes n (be_nat bs) = bs"
  using le_bytes_le_nat [of "rev bs"] by (simp add: be_nat_def be_bytes_def)

lemma read_bytes_Inr_iff: "read_bytes n bs = Inr (a, r) \<longleftrightarrow> bs = a @ r \<and> length a = n"
  by (auto simp: read_bytes_def not_less)

lemma is_digest_iff: "is_digest v \<longleftrightarrow> lower_hex_64 v"
  by (simp add: is_digest_def lower_hex_64_def)

lemma length_magic: "length VERIFIER_GATEWAY_MAGIC_V1 = 8"
  by (simp add: VERIFIER_GATEWAY_MAGIC_V1_def str_def)

text \<open>The header of a frame.\<close>

definition header_of :: "gateway_io \<Rightarrow> gateway_frame \<Rightarrow> frame_header" where
  "header_of g frame = \<lparr>gh_protocol = VERIFIER_GATEWAY_PROTOCOL_V1, gh_payload_bytes = length (gf_payload frame),
     gh_payload_sha256 = sha256_hex (prim (g_crypto g)) (gf_payload frame), gh_message = gf_message frame\<rparr>"

text \<open>With a parser that inverts the serializer, what is decoded is exactly what serializing gives.\<close>

lemma decode_canonical_json_iff:
  assumes "\<forall>r b. fst sd r = Inr b \<longrightarrow> snd sd b = Inr r"
  shows "decode_canonical_json sd bs n = Inr r \<longleftrightarrow> fst sd r = Inr bs \<and> bs \<noteq> [] \<and> length bs \<le> n"
  using assms by (auto simp: decode_canonical_json_def bind_res_Inr_iff ensure_Inr_iff)

lemma decode_header_iff:
  assumes "gateway_ok g"
  shows "decode_canonical_json (header_serde g) bs n = Inr h
    \<longleftrightarrow> g_json_header g h = Inr bs \<and> bs \<noteq> [] \<and> length bs \<le> n"
  using decode_canonical_json_iff [of "header_serde g"] assms by (simp add: gateway_ok_def)

lemma write_frame_Inr_iff:
  "write_verifier_gateway_frame_v1 g frame limits = Inr w \<longleftrightarrow>
     limits_validate limits = Inr () \<and> frame_validate g frame = Inr ()
     \<and> length (gf_payload frame) \<le> max_payload_bytes limits
     \<and> (\<exists>hb. g_json_header g (header_of g frame) = Inr hb \<and> hb \<noteq> [] \<and> length hb \<le> max_header_bytes limits
          \<and> w = VERIFIER_GATEWAY_MAGIC_V1 @ be_bytes 4 (length hb) @ be_bytes 8 (length (gf_payload frame))
                @ hb @ gf_payload frame)"
proof -
  have "limits_validate limits = Inr () \<Longrightarrow> length hb \<le> max_header_bytes limits \<Longrightarrow> length hb < 2 ^ 32" for hb :: bytes
    by (simp add: limits_validate_def MAX_VERIFIER_GATEWAY_HEADER_BYTES_V1_def)
  then show ?thesis
    by (auto simp: write_verifier_gateway_frame_v1_def bind_res_Inr_iff map_err_Inr_iff header_of_def not_less not_le)
qed

lemma read_frame_Inr_iff:
  assumes "gateway_ok g"
  shows "read_verifier_gateway_frame_v1 g limits bs = Inr (frame, rest) \<longleftrightarrow>
     limits_validate limits = Inr () \<and> frame_validate g frame = Inr ()
     \<and> (\<exists>lb pb hb. bs = VERIFIER_GATEWAY_MAGIC_V1 @ lb @ pb @ hb @ gf_payload frame @ rest
          \<and> length lb = 4 \<and> length pb = 8 \<and> be_nat lb = length hb \<and> be_nat pb = length (gf_payload frame)
          \<and> hb \<noteq> [] \<and> length hb \<le> max_header_bytes limits
          \<and> length (gf_payload frame) \<le> max_payload_bytes limits
          \<and> g_json_header g (header_of g frame) = Inr hb)"
  (is "?l \<longleftrightarrow> ?r")
proof
  assume ?l
  then obtain lb pb hb h where
      lim: "limits_validate limits = Inr ()" and fr: "frame_validate g frame = Inr ()"
    and bs: "bs = VERIFIER_GATEWAY_MAGIC_V1 @ lb @ pb @ hb @ gf_payload frame @ rest"
    and len: "length lb = 4" "length pb = 8" "be_nat lb = length hb" "be_nat pb = length (gf_payload frame)"
    and sz: "be_nat lb \<noteq> 0" "be_nat lb \<le> max_header_bytes limits" "be_nat pb \<le> max_payload_bytes limits"
    and js: "g_json_header g h = Inr hb"
    and h: "gh_protocol h = VERIFIER_GATEWAY_PROTOCOL_V1" "gh_payload_bytes h = be_nat pb"
      "gh_payload_sha256 h = sha256_hex (prim (g_crypto g)) (gf_payload frame)" "gh_message h = gf_message frame"
    by (auto simp: read_verifier_gateway_frame_v1_def bind_res_Inr_iff map_err_Inr_iff read_bytes_Inr_iff Let_def not_less
        decode_header_iff [OF assms])
  have "h = header_of g frame" using h len(4) by (simp add: header_of_def)
  with js len sz lim fr bs show ?r by auto
next
  assume ?r
  then obtain lb pb hb where
      bs: "bs = VERIFIER_GATEWAY_MAGIC_V1 @ lb @ pb @ hb @ gf_payload frame @ rest"
    and r: "limits_validate limits = Inr ()" "frame_validate g frame = Inr ()" "length lb = 4" "length pb = 8"
      "be_nat lb = length hb" "be_nat pb = length (gf_payload frame)" "hb \<noteq> []"
      "length hb \<le> max_header_bytes limits" "length (gf_payload frame) \<le> max_payload_bytes limits"
      "g_json_header g (header_of g frame) = Inr hb" by blast
  have take: "read_bytes n (a @ b) = Inr (a, b)" if "length a = n" for n a b
    using that by (simp add: read_bytes_Inr_iff)
  have dec: "decode_canonical_json (header_serde g) hb (max_header_bytes limits) = Inr (header_of g frame)"
    using r by (simp add: decode_header_iff [OF assms])
  have hd: "validate_message_header g (gf_message frame) (length (gf_payload frame)) = Inr ()"
    using r(2) by (auto simp: frame_validate_def bind_res_Inr_iff)
  have dg: "is_digest (sha256_hex (prim (g_crypto g)) (gf_payload frame))"
    using assms by (simp add: is_digest_iff gateway_ok_def crypto_v2_ok_def sha256_hex_digest)
  have eta: "\<lparr>gf_message = gf_message frame, gf_payload = gf_payload frame\<rparr> = frame" by simp
  show ?l
    unfolding read_verifier_gateway_frame_v1_def bs
    using r dec hd dg take [OF length_magic] take [OF r(3)] take [OF r(4)] take [of hb "length hb"]
      take [of "gf_payload frame" "length (gf_payload frame)"]
    by (simp add: Let_def header_of_def not_less codec_refuse_def map_err_def eta)
qed

lemma read_frame_Inr_written:
  assumes "gateway_ok g" "write_verifier_gateway_frame_v1 g frame limits = Inr w"
  shows "read_verifier_gateway_frame_v1 g limits (w @ rest) = Inr (frame, rest)"
proof -
  obtain hb where
      w: "w = VERIFIER_GATEWAY_MAGIC_V1 @ be_bytes 4 (length hb) @ be_bytes 8 (length (gf_payload frame))
            @ hb @ gf_payload frame"
    and r: "hb \<noteq> []" "length hb \<le> max_header_bytes limits" "length (gf_payload frame) \<le> max_payload_bytes limits"
      "g_json_header g (header_of g frame) = Inr hb" "limits_validate limits = Inr ()" "frame_validate g frame = Inr ()"
    using assms(2) unfolding write_frame_Inr_iff by auto
  have "length hb < 256 ^ 4" "length (gf_payload frame) < 256 ^ 8"
    using r(2,3,5) by (simp_all add: limits_validate_def MAX_VERIFIER_GATEWAY_HEADER_BYTES_V1_def MAX_FRAGMENT_BYTES_V2_def)
  then have "be_nat (be_bytes 4 (length hb)) = length hb"
      "be_nat (be_bytes 8 (length (gf_payload frame))) = length (gf_payload frame)"
    by (simp_all add: be_nat_be_bytes)
  then show ?thesis
    unfolding read_frame_Inr_iff [OF assms(1)] using w r by (metis length_be_bytes append.assoc)
qed

text \<open>C33: Frames have exactly one encoding. With limits in force on both sides, a frame is read from a
  stream, leaving a rest, exactly when writing that frame succeeds and the stream is the bytes written
  followed by the rest: what is written is read back, and every byte sequence that is read is the one
  that writing the frame produces.\<close>

theorem frame_read_iff_written:
  assumes "gateway_ok g"
  shows "read_verifier_gateway_frame_v1 g limits bs = Inr (frame, rest)
    \<longleftrightarrow> (\<exists>w. write_verifier_gateway_frame_v1 g frame limits = Inr w \<and> bs = w @ rest)"
proof
  assume "read_verifier_gateway_frame_v1 g limits bs = Inr (frame, rest)"
  then obtain lb pb hb where
      "bs = VERIFIER_GATEWAY_MAGIC_V1 @ lb @ pb @ hb @ gf_payload frame @ rest"
      "length lb = 4" "length pb = 8" "be_nat lb = length hb" "be_nat pb = length (gf_payload frame)"
      "hb \<noteq> []" "length hb \<le> max_header_bytes limits" "length (gf_payload frame) \<le> max_payload_bytes limits"
      "g_json_header g (header_of g frame) = Inr hb" "limits_validate limits = Inr ()" "frame_validate g frame = Inr ()"
    unfolding read_frame_Inr_iff [OF assms] by blast
  moreover from this have "be_bytes 4 (length hb) = lb" "be_bytes 8 (length (gf_payload frame)) = pb"
    by (metis be_bytes_be_nat)+
  ultimately show "\<exists>w. write_verifier_gateway_frame_v1 g frame limits = Inr w \<and> bs = w @ rest"
    unfolding write_frame_Inr_iff by auto
next
  assume "\<exists>w. write_verifier_gateway_frame_v1 g frame limits = Inr w \<and> bs = w @ rest"
  then show "read_verifier_gateway_frame_v1 g limits bs = Inr (frame, rest)"
    using read_frame_Inr_written [OF assms] by blast
qed

text \<open>A source request verifies exactly when signing its command returns it.\<close>

lemma source_verify_iff_signed:
  assumes "gateway_ok g" "gs_protocol (body request) = VERIFIER_GATEWAY_SOURCE_PROTOCOL_V1"
  shows "source_verify g request key = Inr ()
    \<longleftrightarrow> source_sign g (gs_session_record_sha256 (body request)) (gs_command (body request)) key = Inr request"
proof -
  have "crypto_ok (prim (g_crypto g))" using assms by (simp add: gateway_ok_def crypto_v2_ok_def)
  moreover have "\<lparr>gs_protocol = VERIFIER_GATEWAY_SOURCE_PROTOCOL_V1,
      gs_session_record_sha256 = gs_session_record_sha256 (body request), gs_command = gs_command (body request)\<rparr>
      = body request" using assms(2) by simp
  ultimately show ?thesis
    by (cases request) (auto simp: source_verify_def source_sign_def Let_def bind_res_Inr_iff map_err_Inr_iff
        ok_or_Inr_iff ensure_Inr_iff verify_domain_hex_iff gateway_digest_def is_digest_iff tag_domain_hex_digest)
qed


text \<open>Frames are a codec in the sense of the prelude, for every serializer that satisfies the
  assumption: what was written is a prefix-free code, and a stream of written frames is read back
  frame by frame.\<close>

definition written :: "gateway_io \<Rightarrow> frame_limits \<Rightarrow> gateway_frame \<Rightarrow> bytes" where
  "written g limits frame = (case write_verifier_gateway_frame_v1 g frame limits of Inr w \<Rightarrow> w | Inl _ \<Rightarrow> [])"

definition writable :: "gateway_io \<Rightarrow> frame_limits \<Rightarrow> gateway_frame \<Rightarrow> bool" where
  "writable g limits frame \<longleftrightarrow> gateway_ok g \<and> write_verifier_gateway_frame_v1 g frame limits = Inr (written g limits frame)"

interpretation frame_codec: codec "written g limits" "read_verifier_gateway_frame_v1 g limits" "writable g limits" for g limits
  by unfold_locales (auto simp: writable_def read_frame_Inr_written)

lemma frame_stream_roundtrip:
  "\<forall>f\<in>set frames. writable g limits f \<Longrightarrow>
     read_n (length frames) (read_verifier_gateway_frame_v1 g limits) (concat (map (written g limits) frames) @ rest) = Inr (frames, rest)"
  by (rule frame_codec.dec_list)

subsection \<open>An acknowledgement on the wire\<close>

definition demo_reply :: gateway_frame where
  "demo_reply = reply_frame (SourceAcked ''request-1'' demo_digest demo_digest)"

definition demo_frame_header :: frame_header where
  "demo_frame_header = \<lparr>gh_protocol = VERIFIER_GATEWAY_PROTOCOL_V1, gh_payload_bytes = 0,
     gh_payload_sha256 = demo_digest, gh_message = gf_message demo_reply\<rparr>"

definition demo_gateway :: gateway_io where
  "demo_gateway = \<lparr>g_crypto = demo_crypto_v2, g_json_source = (\<lambda>_. Inr []), g_json_auth_source = (\<lambda>_. Inr []),
     g_json_header = (\<lambda>h. if h = demo_frame_header then Inr [123, 125] else Inl ''another header''),
     g_parse_header = (\<lambda>b. if b = [123, 125] then Inr demo_frame_header else Inl ''another text'')\<rparr>"

lemma demo_gateway_ok: "gateway_ok demo_gateway"
  by (auto simp: gateway_ok_def demo_gateway_def demo_crypto_v2_ok)

lemma demo_limits_ok: "limits_validate default_limits = Inr ()"
  by (simp add: limits_validate_def default_limits_def DEFAULT_VERIFIER_GATEWAY_HEADER_BYTES_V1_def
      MAX_VERIFIER_GATEWAY_HEADER_BYTES_V1_def DEFAULT_VERIFIER_GATEWAY_PAYLOAD_BYTES_V1_def MAX_FRAGMENT_BYTES_V2_def)

lemma demo_reply_ok: "frame_validate demo_gateway demo_reply = Inr ()"
  by (simp add: frame_validate_def demo_reply_def reply_frame_def gateway_identifier_def gateway_digest_def
      is_digest_iff demo_digest_ok is_ascii_alphanumeric_def is_digit_byte_def codec_refuse_def all_ok.simps)

lemma demo_reply_header: "header_of demo_gateway demo_reply = demo_frame_header"
  by (simp add: header_of_def demo_frame_header_def demo_reply_def reply_frame_def demo_gateway_def)

lemma demo_lengths:
  "be_bytes 4 (Suc (Suc 0)) = [0, 0, 0, 2]" "be_bytes 8 0 = [0, 0, 0, 0, 0, 0, 0, 0]"
  "VERIFIER_GATEWAY_MAGIC_V1 = [77, 85, 86, 69, 82, 70, 49, 0]"
  by code_simp+

lemma demo_reply_written:
  "write_verifier_gateway_frame_v1 demo_gateway demo_reply default_limits
    = Inr ([77, 85, 86, 69, 82, 70, 49, 0, 0, 0, 0, 2, 0, 0, 0, 0, 0, 0, 0, 0, 123, 125])"
proof -
  have "g_json_header demo_gateway demo_frame_header = Inr [123, 125]" "gf_payload demo_reply = []"
    "2 \<le> max_header_bytes default_limits"
    by (simp_all add: demo_gateway_def demo_reply_def reply_frame_def default_limits_def
        DEFAULT_VERIFIER_GATEWAY_HEADER_BYTES_V1_def)
  then show ?thesis
    unfolding write_frame_Inr_iff demo_reply_header
    by (simp add: demo_limits_ok demo_reply_ok demo_lengths)
qed

theorem frame_read_iff_written_witness:
  "read_verifier_gateway_frame_v1 demo_gateway default_limits
     ([77, 85, 86, 69, 82, 70, 49, 0, 0, 0, 0, 2, 0, 0, 0, 0, 0, 0, 0, 0, 123, 125] @ [9]) = Inr (demo_reply, [9])"
  unfolding frame_read_iff_written [OF demo_gateway_ok] using demo_reply_written by simp

end
