(* ===== verification/Grammar_Matcher.thy ===== *)
theory Grammar_Matcher
  imports Muser_Prelude "HOL-Library.Product_Lexorder"
begin

section \<open>Grammar-constrained decoding: the matcher\<close>

text \<open>
  \<open>crates/muser-server/src/grammar.rs\<close>, the matcher: an Earley recognizer over Unicode code points and
  token terminals that keeps every ambiguous reading of the sampled tokens alive as a branch and
  accepts byte fragments that end inside a UTF-8 sequence.

  A \<open>HashSet\<close> of items is a set; iteration takes its elements in ascending order, and the result of
  the closure is shown to be the least fixed point, which does not depend on that order. The closure
  loop is a \<^theory_text>\<open>partial_function\<close>: its value \<^const>\<open>None\<close> stands for an index out of range (a panic) and
  for not returning, and both are excluded for well-formed grammars. \<open>char::from\<close> and
  \<open>str::from_utf8\<close> are written out.

  Shown here: the character-set overlap test, the closure as a least fixed point, soundness and
  completeness of the recognizer, and the language of the whole matcher on token sequences.
\<close>

subsection \<open>Grammars\<close>

record charset =
  cs_inverted :: bool
  cs_ranges :: "(nat \<times> nat) list"

datatype token_value = TokenId nat | TokenPiece bytes

record token_terminal =
  tt_inverted :: bool
  tt_value :: token_value

datatype symbol = Rule nat | Character charset | Token token_terminal

record production =
  lhs :: nat
  rhs :: "symbol list"

record grammar =
  productions :: "production list"
  by_lhs :: "nat list list"
  start_production :: nat

datatype item = Item (item_production: nat) (item_dot: nat) (item_origin: nat)

instantiation item :: linorder
begin

definition less_eq_item :: "item \<Rightarrow> item \<Rightarrow> bool" where
  "x \<le> y \<longleftrightarrow> (item_production x, item_dot x, item_origin x) \<le> (item_production y, item_dot y, item_origin y)"

definition less_item :: "item \<Rightarrow> item \<Rightarrow> bool" where
  "x < y \<longleftrightarrow> (item_production x, item_dot x, item_origin x) < (item_production y, item_dot y, item_origin y)"

instance
  by standard (auto simp: less_eq_item_def less_item_def intro: item.expand)

end

definition charset_one :: "nat \<Rightarrow> charset" where
  "charset_one v = \<lparr>cs_inverted = False, cs_ranges = [(v, v)]\<rparr>"

definition charset_matches :: "charset \<Rightarrow> nat \<Rightarrow> bool" where
  "charset_matches cs v \<longleftrightarrow> list_ex (\<lambda>(lower, upper). lower \<le> v \<and> v \<le> upper) (cs_ranges cs) \<noteq> cs_inverted cs"

text \<open>The sweep over the covered ranges; \<open>saturating_add\<close> is on \<open>u32\<close>.\<close>

fun sweep :: "nat \<Rightarrow> nat \<Rightarrow> (nat \<times> nat) list \<Rightarrow> bool" where
  "sweep cursor upper [] \<longleftrightarrow> cursor \<le> upper"
| "sweep cursor upper ((range_lower, range_upper) # rs) \<longleftrightarrow>
     (if range_lower > cursor then True
      else let cursor' = max cursor (min (range_upper + 1) (2 ^ 32 - 1)) in
           if cursor' > upper then False else sweep cursor' upper rs)"

definition clip_range :: "nat \<Rightarrow> nat \<Rightarrow> nat \<times> nat \<Rightarrow> (nat \<times> nat) option" where
  "clip_range lower upper = (\<lambda>(range_lower, range_upper).
     let l = max range_lower lower; u = min range_upper upper in if l \<le> u then Some (l, u) else None)"

definition charset_intersects :: "charset \<Rightarrow> nat \<Rightarrow> nat \<Rightarrow> bool" where
  "charset_intersects cs lower upper =
     (if \<not> cs_inverted cs
      then list_ex (\<lambda>(range_lower, range_upper). range_lower \<le> upper \<and> lower \<le> range_upper) (cs_ranges cs)
      else sweep lower upper (sort (List.map_filter (clip_range lower upper) (cs_ranges cs))))"

definition token_matches :: "token_terminal \<Rightarrow> nat \<Rightarrow> bytes \<Rightarrow> bool" where
  "token_matches tt token bs \<longleftrightarrow>
     (case tt_value tt of TokenId expected \<Rightarrow> token = expected | TokenPiece expected \<Rightarrow> bs = expected)
     \<noteq> tt_inverted tt"

subsection \<open>The overlap test\<close>

lemma sweep_iff:
  assumes "upper < 2 ^ 32 - 1" and "sorted rs" and "\<forall>(l, u)\<in>set rs. l \<le> u \<and> u \<le> upper"
  shows "sweep cursor upper rs \<longleftrightarrow> (\<exists>v. cursor \<le> v \<and> v \<le> upper \<and> (\<forall>(l, u)\<in>set rs. \<not> (l \<le> v \<and> v \<le> u)))"
  using assms(2,3)
proof (induction rs arbitrary: cursor)
  case (Cons r rs)
  obtain l u where r: "r = (l, u)" by (cases r)
  have lu: "l \<le> u" "u \<le> upper" using Cons.prems r by auto
  have low: "l \<le> l'" if "(l', u') \<in> set rs" for l' u'
    using Cons.prems(1) that r by (auto simp: less_eq_prod_def)
  show ?case
  proof (cases "l > cursor")
    case True
    have "\<not> (l' \<le> cursor \<and> cursor \<le> u')" if "(l', u') \<in> set (r # rs)" for l' u'
      using that low True r by fastforce
    then have "\<exists>v. cursor \<le> v \<and> v \<le> upper \<and> (\<forall>(l, u)\<in>set (r # rs). \<not> (l \<le> v \<and> v \<le> u))"
      using True lu by (intro exI [of _ cursor]) auto
    then show ?thesis using True r by simp
  next
    case False
    let ?c = "max cursor (u + 1)"
    have c: "max cursor (min (u + 1) (2 ^ 32 - 1)) = ?c" using lu assms(1) by simp
    have eq: "(\<exists>v. cursor \<le> v \<and> v \<le> upper \<and> (\<forall>(l, u)\<in>set (r # rs). \<not> (l \<le> v \<and> v \<le> u)))
        \<longleftrightarrow> (\<exists>v. ?c \<le> v \<and> v \<le> upper \<and> (\<forall>(l, u)\<in>set rs. \<not> (l \<le> v \<and> v \<le> u)))"
      using False r by (auto intro: le_trans)
    have IH: "sweep ?c upper rs \<longleftrightarrow> (\<exists>v. ?c \<le> v \<and> v \<le> upper \<and> (\<forall>(l, u)\<in>set rs. \<not> (l \<le> v \<and> v \<le> u)))"
      by (rule Cons.IH) (use Cons.prems in auto)
    have "sweep cursor upper (r # rs) \<longleftrightarrow> ?c \<le> upper \<and> sweep ?c upper rs"
      unfolding r sweep.simps Let_def c using False by auto
    with IH eq show ?thesis by auto
  qed
qed (auto intro: le_trans)

lemma clip_range_Some:
  "clip_range lower upper (l, u) = Some (l', u') \<longleftrightarrow> l' = max l lower \<and> u' = min u upper \<and> l' \<le> u'"
  by (auto simp: clip_range_def Let_def)

lemma charset_intersects_iff:
  assumes "lower \<le> upper" and "upper < 2 ^ 32 - 1" and "\<forall>(l, u)\<in>set (cs_ranges cs). l \<le> u"
  shows "charset_intersects cs lower upper \<longleftrightarrow> (\<exists>v. lower \<le> v \<and> v \<le> upper \<and> charset_matches cs v)"
proof (cases "cs_inverted cs")
  case False
  have "(\<exists>v. lower \<le> v \<and> v \<le> upper \<and> l \<le> v \<and> v \<le> u) \<longleftrightarrow> l \<le> upper \<and> lower \<le> u"
    if "(l, u) \<in> set (cs_ranges cs)" for l u
  proof -
    have "l \<le> u" using assms(3) that by auto
    then show ?thesis using assms(1) by (auto intro!: exI [of _ "max lower l"])
  qed
  with False show ?thesis
    by (fastforce simp: charset_intersects_def charset_matches_def list_ex_iff)
next
  case True
  let ?rs = "sort (List.map_filter (clip_range lower upper) (cs_ranges cs))"
  have mem: "y \<in> set ?rs \<longleftrightarrow> (\<exists>x\<in>set (cs_ranges cs). clip_range lower upper x = Some y)" for y
    by (force simp: List.map_filter_def)
  have bound: "\<forall>(l, u)\<in>set ?rs. l \<le> u \<and> u \<le> upper"
    unfolding Ball_def mem by (auto simp: clip_range_Some)
  have cov: "(\<exists>(l, u)\<in>set ?rs. l \<le> v \<and> v \<le> u) \<longleftrightarrow> (\<exists>(l, u)\<in>set (cs_ranges cs). l \<le> v \<and> v \<le> u)"
    if v: "lower \<le> v" "v \<le> upper" for v
  proof
    assume "\<exists>(l, u)\<in>set ?rs. l \<le> v \<and> v \<le> u"
    then show "\<exists>(l, u)\<in>set (cs_ranges cs). l \<le> v \<and> v \<le> u"
      unfolding Bex_def mem by (fastforce simp: clip_range_Some)
  next
    assume "\<exists>(l, u)\<in>set (cs_ranges cs). l \<le> v \<and> v \<le> u"
    then obtain l u where lu: "(l, u) \<in> set (cs_ranges cs)" "l \<le> v" "v \<le> u" by auto
    then have "clip_range lower upper (l, u) = Some (max l lower, min u upper)"
      using v by (simp add: clip_range_def)
    then have "(max l lower, min u upper) \<in> set ?rs" using lu(1) mem by blast
    moreover have "max l lower \<le> v \<and> v \<le> min u upper" using lu v by simp
    ultimately show "\<exists>(l, u)\<in>set ?rs. l \<le> v \<and> v \<le> u" by blast
  qed
  have "charset_intersects cs lower upper \<longleftrightarrow>
      (\<exists>v. lower \<le> v \<and> v \<le> upper \<and> \<not> (\<exists>(l, u)\<in>set ?rs. l \<le> v \<and> v \<le> u))"
    using sweep_iff [OF assms(2) _ bound] True by (simp add: charset_intersects_def split_def)
  also have "\<dots> \<longleftrightarrow> (\<exists>v. lower \<le> v \<and> v \<le> upper \<and> charset_matches cs v)"
  proof (intro iff_exI conj_cong refl)
    fix v assume "lower \<le> v" "v \<le> upper"
    then show "(\<not> (\<exists>(l, u)\<in>set ?rs. l \<le> v \<and> v \<le> u)) \<longleftrightarrow> charset_matches cs v"
      using True by (simp only: cov) (simp add: charset_matches_def list_ex_iff)
  qed
  finally show ?thesis .
qed

subsection \<open>The closure of a chart cell\<close>

text \<open>Cells before the current one are \<open>prev\<close>, so the current position is \<^term>\<open>length prev\<close>. An
  item whose production is out of range panics when it is taken from the agenda; every item of the
  cell is taken once, so reading such an item elsewhere need not be singled out.\<close>

definition get_at :: "'a list \<Rightarrow> nat \<Rightarrow> 'a option" where
  "get_at xs i = (if i < length xs then Some (xs ! i) else None)"

definition production_of :: "grammar \<Rightarrow> item \<Rightarrow> production" where
  "production_of g x = productions g ! item_production x"

definition next_symbol :: "grammar \<Rightarrow> item \<Rightarrow> symbol option" where
  "next_symbol g x = get_at (rhs (production_of g x)) (item_dot x)"

definition advanced :: "item \<Rightarrow> item" where
  "advanced x = Item (item_production x) (item_dot x + 1) (item_origin x)"

definition completed :: "grammar \<Rightarrow> item \<Rightarrow> bool" where
  "completed g x \<longleftrightarrow> item_dot x = length (rhs (production_of g x))"

definition insert_item :: "item set \<times> item list \<Rightarrow> item \<Rightarrow> item set \<times> item list" where
  "insert_item = (\<lambda>(cell, agenda) x. if x \<in> cell then (cell, agenda) else (insert x cell, agenda @ [x]))"

definition insert_items :: "item list \<Rightarrow> item set \<times> item list \<Rightarrow> item set \<times> item list" where
  "insert_items xs s = foldl insert_item s xs"

definition predictions :: "grammar \<Rightarrow> nat \<Rightarrow> nat \<Rightarrow> item list" where
  "predictions g pos r = map (\<lambda>candidate. Item candidate 0 pos) (by_lhs g ! r)"

definition nullable_complete :: "grammar \<Rightarrow> nat \<Rightarrow> item set \<Rightarrow> nat \<Rightarrow> bool" where
  "nullable_complete g pos cell r \<longleftrightarrow>
     (\<exists>x\<in>cell. item_origin x = pos \<and> lhs (production_of g x) = r \<and> completed g x)"

definition parents_of :: "grammar \<Rightarrow> item set list \<Rightarrow> item set \<Rightarrow> item \<Rightarrow> item list" where
  "parents_of g prev cell x =
     filter (\<lambda>p. next_symbol g p = Some (Rule (lhs (production_of g x))))
       (sorted_list_of_set (if item_origin x = length prev then cell else prev ! item_origin x))"

definition close_step ::
  "grammar \<Rightarrow> item set list \<Rightarrow> item set \<Rightarrow> item \<Rightarrow> item list \<Rightarrow> (item set \<times> item list) option" where
  "close_step g prev cell x rest =
     (if item_production x \<ge> length (productions g) then None
      else case next_symbol g x of
          Some (Rule r) \<Rightarrow>
            if r \<ge> length (by_lhs g) then None
            else
              let s = insert_items (predictions g (length prev) r) (cell, rest)
              in Some (if nullable_complete g (length prev) (fst s) r then insert_item s (advanced x) else s)
        | Some _ \<Rightarrow> Some (cell, rest)
        | None \<Rightarrow>
            if item_origin x > length prev then None
            else Some (insert_items (map advanced (parents_of g prev cell x)) (cell, rest)))"

partial_function (option) close_loop ::
  "grammar \<Rightarrow> item set list \<Rightarrow> item set \<Rightarrow> item list \<Rightarrow> item set option" where
  "close_loop g prev cell agenda =
     (if agenda = [] then Some cell
      else Option.bind (close_step g prev cell (hd agenda) (tl agenda))
             (\<lambda>s. close_loop g prev (fst s) (snd s)))"

declare close_loop.simps [code]

definition close :: "grammar \<Rightarrow> item set list \<Rightarrow> item set \<Rightarrow> item set option" where
  "close g prev cell = close_loop g prev cell (sorted_list_of_set cell)"

text \<open>The least set that contains the seed and is closed under prediction and completion.\<close>

inductive_set closure :: "grammar \<Rightarrow> item set list \<Rightarrow> item set \<Rightarrow> item set" for g prev seed where
  seed: "x \<in> seed \<Longrightarrow> x \<in> closure g prev seed"
| predict: "x \<in> closure g prev seed \<Longrightarrow> next_symbol g x = Some (Rule r) \<Longrightarrow> c \<in> set (by_lhs g ! r) \<Longrightarrow>
    Item c 0 (length prev) \<in> closure g prev seed"
| complete_earlier: "y \<in> closure g prev seed \<Longrightarrow> next_symbol g y = None \<Longrightarrow> item_origin y < length prev \<Longrightarrow>
    x \<in> prev ! item_origin y \<Longrightarrow> next_symbol g x = Some (Rule (lhs (production_of g y))) \<Longrightarrow>
    advanced x \<in> closure g prev seed"
| complete_here: "y \<in> closure g prev seed \<Longrightarrow> next_symbol g y = None \<Longrightarrow> item_origin y = length prev \<Longrightarrow>
    x \<in> closure g prev seed \<Longrightarrow> next_symbol g x = Some (Rule (lhs (production_of g y))) \<Longrightarrow>
    advanced x \<in> closure g prev seed"

definition wf_symbol :: "grammar \<Rightarrow> symbol \<Rightarrow> bool" where
  "wf_symbol g s = (case s of
      Rule r \<Rightarrow> r < length (by_lhs g)
    | Character cs \<Rightarrow> list_all (\<lambda>(l, u). l \<le> u) (cs_ranges cs)
    | Token _ \<Rightarrow> True)"

definition wf_grammar :: "grammar \<Rightarrow> bool" where
  "wf_grammar g \<longleftrightarrow>
     start_production g < length (productions g)
     \<and> length (rhs (productions g ! start_production g)) = 1
     \<and> list_all (\<lambda>p. lhs p < length (by_lhs g) \<and> list_all (wf_symbol g) (rhs p)) (productions g)
     \<and> by_lhs g = map (\<lambda>r. filter (\<lambda>i. lhs (productions g ! i) = r) [0..<length (productions g)])
                    [0..<length (by_lhs g)]"

definition items_upto :: "grammar \<Rightarrow> nat \<Rightarrow> item set" where
  "items_upto g pos = {x. item_production x < length (productions g)
     \<and> item_dot x \<le> length (rhs (production_of g x)) \<and> item_origin x \<le> pos}"

definition cells_ok :: "grammar \<Rightarrow> item set list \<Rightarrow> bool" where
  "cells_ok g cells \<longleftrightarrow> (\<forall>k<length cells. cells ! k \<subseteq> items_upto g k)"

lemma finite_items_upto [simp]: "finite (items_upto g pos)"
proof -
  let ?n = "Max (insert 0 ((\<lambda>p. length (rhs p)) ` set (productions g)))"
  have "items_upto g pos \<subseteq> (\<lambda>(p, d, k). Item p d k) ` ({..<length (productions g)} \<times> {..?n} \<times> {..pos})"
  proof
    fix x assume x: "x \<in> items_upto g pos"
    then have "production_of g x \<in> set (productions g)" by (simp add: items_upto_def production_of_def)
    then have "length (rhs (production_of g x)) \<le> ?n" by (intro Max_ge) auto
    with x show "x \<in> (\<lambda>(p, d, k). Item p d k) ` ({..<length (productions g)} \<times> {..?n} \<times> {..pos})"
      by (cases x) (auto simp: items_upto_def image_iff)
  qed
  then show ?thesis by (rule finite_subset) auto
qed

lemma next_symbol_None: "x \<in> items_upto g pos \<Longrightarrow> next_symbol g x = None \<longleftrightarrow> completed g x"
  by (auto simp: items_upto_def next_symbol_def get_at_def completed_def)

lemma advanced_in_items:
  "x \<in> items_upto g pos \<Longrightarrow> next_symbol g x = Some s \<Longrightarrow> advanced x \<in> items_upto g pos"
  by (auto simp: items_upto_def next_symbol_def get_at_def advanced_def production_of_def split: if_splits)

lemma items_upto_mono: "a \<le> b \<Longrightarrow> items_upto g a \<subseteq> items_upto g b"
  by (auto simp: items_upto_def)

lemma by_lhs_iff:
  assumes "wf_grammar g" and "r < length (by_lhs g)"
  shows "c \<in> set (by_lhs g ! r) \<longleftrightarrow> c < length (productions g) \<and> lhs (productions g ! c) = r"
proof -
  have "by_lhs g ! r = filter (\<lambda>i. lhs (productions g ! i) = r) [0..<length (productions g)]"
    using assms by (subst wf_grammar_def [THEN iffD1, THEN conjunct2, THEN conjunct2, THEN conjunct2]) auto
  then show ?thesis by auto
qed

lemma next_symbol_wf:
  assumes "wf_grammar g" and "x \<in> items_upto g pos" and "next_symbol g x = Some s"
  shows "wf_symbol g s"
proof -
  have "production_of g x \<in> set (productions g)" using assms(2) by (simp add: items_upto_def production_of_def)
  then have "list_all (wf_symbol g) (rhs (production_of g x))"
    using assms(1) by (simp add: wf_grammar_def list_all_iff)
  moreover have "s \<in> set (rhs (production_of g x))"
    using assms(3) by (auto simp: next_symbol_def get_at_def in_set_conv_nth split: if_splits)
  ultimately show ?thesis by (simp add: list_all_iff)
qed

lemma next_rule_ok:
  "wf_grammar g \<Longrightarrow> x \<in> items_upto g pos \<Longrightarrow> next_symbol g x = Some (Rule r) \<Longrightarrow> r < length (by_lhs g)"
  using next_symbol_wf [of g x pos "Rule r"] by (simp add: wf_symbol_def)

lemma prediction_in_items:
  assumes "wf_grammar g" and "r < length (by_lhs g)" and "c \<in> set (by_lhs g ! r)"
  shows "Item c 0 pos \<in> items_upto g pos"
  using by_lhs_iff [OF assms(1,2)] assms(3) by (simp add: items_upto_def)

lemma insert_items_spec:
  "\<exists>new. insert_items xs (cell, agenda) = (cell \<union> set xs, agenda @ new) \<and> set new = set xs - cell \<and> distinct new"
proof (induction xs arbitrary: cell agenda)
  case (Cons x xs)
  show ?case
  proof (cases "x \<in> cell")
    case True
    then show ?thesis using Cons.IH [of cell agenda] by (auto simp: insert_items_def insert_item_def)
  next
    case False
    obtain new where new: "insert_items xs (insert x cell, agenda @ [x])
        = (insert x cell \<union> set xs, (agenda @ [x]) @ new)" "set new = set xs - insert x cell" "distinct new"
      using Cons.IH by blast
    then have "insert_items (x # xs) (cell, agenda) = (cell \<union> set (x # xs), agenda @ x # new)"
      using False by (simp add: insert_items_def insert_item_def)
    moreover have "set (x # new) = set (x # xs) - cell" "distinct (x # new)" using new False by auto
    ultimately show ?thesis by blast
  qed
qed (simp add: insert_items_def)

definition loop_inv :: "grammar \<Rightarrow> item set list \<Rightarrow> item set \<Rightarrow> item set \<Rightarrow> item list \<Rightarrow> bool" where
  "loop_inv g prev seed cell agenda \<longleftrightarrow>
     seed \<subseteq> cell \<and> set agenda \<subseteq> cell \<and> cell \<subseteq> items_upto g (length prev) \<and> cell \<subseteq> closure g prev seed
     \<and> (\<forall>x\<in>cell - set agenda. \<forall>r. next_symbol g x = Some (Rule r) \<longrightarrow> set (predictions g (length prev) r) \<subseteq> cell)
     \<and> (\<forall>y\<in>cell - set agenda. next_symbol g y = None \<and> item_origin y < length prev \<longrightarrow>
          (\<forall>x\<in>prev ! item_origin y. next_symbol g x = Some (Rule (lhs (production_of g y))) \<longrightarrow> advanced x \<in> cell))
     \<and> (\<forall>y\<in>cell - set agenda. next_symbol g y = None \<and> item_origin y = length prev \<longrightarrow>
          (\<forall>x\<in>cell - set agenda. next_symbol g x = Some (Rule (lhs (production_of g y))) \<longrightarrow> advanced x \<in> cell))"

text \<open>One iteration: the item leaves the agenda, a set of new items enters the cell and the agenda.\<close>

lemma loop_inv_add:
  assumes inv: "loop_inv g prev seed cell (x # rest)"
    and X: "X \<subseteq> items_upto g (length prev)" "X \<subseteq> closure g prev seed" "set new = X - cell"
    and pr: "\<And>r. next_symbol g x = Some (Rule r) \<Longrightarrow> set (predictions g (length prev) r) \<subseteq> X"
    and early: "\<And>p. next_symbol g x = None \<Longrightarrow> item_origin x < length prev \<Longrightarrow> p \<in> prev ! item_origin x \<Longrightarrow>
        next_symbol g p = Some (Rule (lhs (production_of g x))) \<Longrightarrow> advanced p \<in> X"
    and here: "\<And>p. next_symbol g x = None \<Longrightarrow> item_origin x = length prev \<Longrightarrow> p \<in> cell \<Longrightarrow>
        next_symbol g p = Some (Rule (lhs (production_of g x))) \<Longrightarrow> advanced p \<in> X"
    and null: "\<And>y. y \<in> cell \<Longrightarrow> next_symbol g y = None \<Longrightarrow> item_origin y = length prev \<Longrightarrow>
        next_symbol g x = Some (Rule (lhs (production_of g y))) \<Longrightarrow> advanced x \<in> X"
  shows "loop_inv g prev seed (cell \<union> X) (rest @ new)"
proof -
  have proc: "(cell \<union> X) - set (rest @ new) \<subseteq> insert x (cell - set (x # rest))" using X(3) by auto
  note i = inv [unfolded loop_inv_def]
  show ?thesis unfolding loop_inv_def
  proof (intro conjI ballI allI impI)
    show "seed \<subseteq> cell \<union> X" "set (rest @ new) \<subseteq> cell \<union> X" "cell \<union> X \<subseteq> items_upto g (length prev)"
      "cell \<union> X \<subseteq> closure g prev seed" using i X by auto
  next
    fix y r assume "y \<in> cell \<union> X - set (rest @ new)" and n: "next_symbol g y = Some (Rule r)"
    then have "y = x \<or> y \<in> cell - set (x # rest)" using proc by blast
    then show "set (predictions g (length prev) r) \<subseteq> cell \<union> X" using i pr n by blast
  next
    fix y p assume "y \<in> cell \<union> X - set (rest @ new)" and n: "next_symbol g y = None \<and> item_origin y < length prev"
      and p: "p \<in> prev ! item_origin y" "next_symbol g p = Some (Rule (lhs (production_of g y)))"
    then have "y = x \<or> y \<in> cell - set (x # rest)" using proc by blast
    then show "advanced p \<in> cell \<union> X" using i early n p by blast
  next
    fix y p assume yp: "y \<in> cell \<union> X - set (rest @ new)" "p \<in> cell \<union> X - set (rest @ new)"
      and n: "next_symbol g y = None \<and> item_origin y = length prev"
      and p: "next_symbol g p = Some (Rule (lhs (production_of g y)))"
    have x: "x \<in> cell" using i by simp
    from yp proc have "y = x \<or> y \<in> cell - set (x # rest)" "p = x \<or> p \<in> cell - set (x # rest)" by blast+
    then consider "y = x" "p \<in> cell" | "p = x" "y \<in> cell" | "y \<in> cell - set (x # rest)" "p \<in> cell - set (x # rest)"
      using x by blast
    then show "advanced p \<in> cell \<union> X"
      using here null n p i by cases blast+
  qed
qed

lemma parents_of_iff:
  assumes "finite cell" and "cells_ok g prev" and "item_origin x \<le> length prev"
  shows "p \<in> set (parents_of g prev cell x) \<longleftrightarrow>
    p \<in> (if item_origin x = length prev then cell else prev ! item_origin x)
    \<and> next_symbol g p = Some (Rule (lhs (production_of g x)))"
proof -
  have "finite (prev ! item_origin x)" if "item_origin x \<noteq> length prev"
  proof -
    have "item_origin x < length prev" using assms(3) that by simp
    with assms(2) have "prev ! item_origin x \<subseteq> items_upto g (item_origin x)" by (simp add: cells_ok_def)
    then show ?thesis by (rule finite_subset) simp
  qed
  with assms(1) show ?thesis by (auto simp: parents_of_def)
qed

lemma close_step_inv:
  assumes wf: "wf_grammar g" and cells: "cells_ok g prev" and inv: "loop_inv g prev seed cell (x # rest)"
  shows "\<exists>X new. close_step g prev cell x rest = Some (cell \<union> X, rest @ new)
    \<and> set new = X - cell \<and> distinct new \<and> loop_inv g prev seed (cell \<union> X) (rest @ new)"
proof -
  let ?pos = "length prev"
  have x: "x \<in> cell" and items: "cell \<subseteq> items_upto g ?pos" and cl: "cell \<subseteq> closure g prev seed"
    using inv by (auto simp: loop_inv_def)
  have range: "\<not> item_production x \<ge> length (productions g)" "item_origin x \<le> ?pos"
    using x items by (auto simp: items_upto_def)
  have fin: "finite cell" by (rule finite_subset [OF items finite_items_upto])
  show ?thesis
  proof (cases "next_symbol g x")
    case None
    let ?ps = "map advanced (parents_of g prev cell x)"
    obtain new where new: "insert_items ?ps (cell, rest) = (cell \<union> set ?ps, rest @ new)"
      "set new = set ?ps - cell" "distinct new" using insert_items_spec [of ?ps cell rest] by blast
    note par = parents_of_iff [OF fin cells range(2)]
    have "advanced p \<in> items_upto g ?pos \<and> advanced p \<in> closure g prev seed"
      if "p \<in> set (parents_of g prev cell x)" for p
    proof (cases "item_origin x = ?pos")
      case True
      with that par have p: "p \<in> cell" "next_symbol g p = Some (Rule (lhs (production_of g x)))" by auto
      have "advanced p \<in> closure g prev seed"
        by (rule closure.complete_here [OF _ None True _ p(2)]) (use x p(1) cl in blast)+
      with p items show ?thesis by (blast intro: advanced_in_items)
    next
      case False
      with that par have p: "p \<in> prev ! item_origin x" "next_symbol g p = Some (Rule (lhs (production_of g x)))" by auto
      have lt: "item_origin x < ?pos" using False range(2) by simp
      have "advanced p \<in> closure g prev seed"
        by (rule closure.complete_earlier [OF _ None lt p]) (use x cl in blast)
      moreover have "p \<in> items_upto g ?pos"
        using cells p(1) lt items_upto_mono [of "item_origin x" ?pos g] by (auto simp: cells_ok_def)
      ultimately show ?thesis using p(2) by (blast intro: advanced_in_items)
    qed
    then have "set ?ps \<subseteq> items_upto g ?pos" "set ?ps \<subseteq> closure g prev seed" by auto
    then have "loop_inv g prev seed (cell \<union> set ?ps) (rest @ new)"
      by (rule loop_inv_add [OF inv _ _ new(2)]) (use None par in auto)
    then show ?thesis using new None range by (auto simp: close_step_def)
  next
    case (Some s)
    show ?thesis
    proof (cases s)
      case (Rule r)
      have r: "r < length (by_lhs g)" using next_rule_ok [OF wf _ Some [unfolded Rule]] x items by blast
      let ?ps = "predictions g ?pos r"
      let ?null = "nullable_complete g ?pos (cell \<union> set ?ps) r"
      let ?xs = "?ps @ (if ?null then [advanced x] else [])"
      obtain new where new: "insert_items ?xs (cell, rest) = (cell \<union> set ?xs, rest @ new)"
        "set new = set ?xs - cell" "distinct new" using insert_items_spec [of ?xs cell rest] by blast
      obtain n1 where n1: "insert_items ?ps (cell, rest) = (cell \<union> set ?ps, rest @ n1)"
        using insert_items_spec by blast
      have step: "close_step g prev cell x rest = Some (cell \<union> set ?xs, rest @ new)"
      proof -
        have "close_step g prev cell x rest = Some (insert_items ?xs (cell, rest))"
          using Some Rule r range(1) n1 by (simp add: close_step_def insert_items_def)
        then show ?thesis by (simp only: new(1))
      qed
      have preds: "y \<in> items_upto g ?pos \<and> y \<in> closure g prev seed" if "y \<in> set ?ps" for y
        using that prediction_in_items [OF wf r] closure.predict [of x g prev seed r] x cl Some Rule
        by (auto simp: predictions_def)
      have adv: "advanced x \<in> closure g prev seed" if "?null"
      proof -
        from that obtain y where y: "y \<in> cell \<union> set ?ps" "item_origin y = ?pos" "lhs (production_of g y) = r"
          "completed g y" by (auto simp: nullable_complete_def)
        have "next_symbol g y = None" using y next_symbol_None [of y g ?pos] items preds by blast
        moreover have "y \<in> closure g prev seed" "x \<in> closure g prev seed" using y(1) preds x cl by blast+
        ultimately show ?thesis
          by (intro closure.complete_here [of y g prev seed x]) (use y Some Rule in auto)
      qed
      have adv_item: "advanced x \<in> items_upto g ?pos" using advanced_in_items [OF _ Some] x items by blast
      have "y \<in> items_upto g ?pos \<and> y \<in> closure g prev seed" if "y \<in> set ?xs" for y
      proof (cases "y \<in> set ?ps")
        case False
        then have "y = advanced x \<and> ?null" using that by (cases ?null) auto
        then show ?thesis using adv adv_item by blast
      qed (rule preds)
      then have "set ?xs \<subseteq> items_upto g ?pos" "set ?xs \<subseteq> closure g prev seed" by blast+
      then have "loop_inv g prev seed (cell \<union> set ?xs) (rest @ new)"
      proof (rule loop_inv_add [OF inv _ _ new(2)])
        fix y assume y: "y \<in> cell" "next_symbol g y = None" "item_origin y = ?pos"
          "next_symbol g x = Some (Rule (lhs (production_of g y)))"
        then have "completed g y" using next_symbol_None items by blast
        with y Some Rule have "?null" by (auto simp: nullable_complete_def)
        then show "advanced x \<in> set ?xs" by simp
      next
        fix r' assume "next_symbol g x = Some (Rule r')"
        then have "r' = r" using Some Rule by simp
        then show "set (predictions g ?pos r') \<subseteq> set ?xs" by (simp only: set_append Un_upper1)
      qed (simp_all only: Some option.distinct)
      with step new(2,3) show ?thesis by blast
    qed (use Some range in \<open>auto simp: close_step_def intro!: exI [of _ "{}"] loop_inv_add [OF inv, of "{}" "[]", simplified]\<close>)
  qed
qed

lemma close_loop_total:
  assumes wf: "wf_grammar g" and cells: "cells_ok g prev"
  shows "loop_inv g prev seed cell agenda \<Longrightarrow> distinct agenda \<Longrightarrow>
    \<exists>out. close_loop g prev cell agenda = Some out \<and> loop_inv g prev seed out []"
proof (induction "2 * card (items_upto g (length prev) - cell) + length agenda" arbitrary: cell agenda
    rule: less_induct)
  case less
  show ?case
  proof (cases agenda)
    case Nil
    then show ?thesis using less.prems by (subst close_loop.simps) simp
  next
    case (Cons x rest)
    obtain X new where step: "close_step g prev cell x rest = Some (cell \<union> X, rest @ new)"
      and new: "set new = X - cell" "distinct new" and inv: "loop_inv g prev seed (cell \<union> X) (rest @ new)"
      using close_step_inv [OF wf cells less.prems(1) [unfolded Cons]] by blast
    let ?U = "items_upto g (length prev)"
    have sub: "set new \<subseteq> ?U - cell" using inv new(1) by (auto simp: loop_inv_def)
    have "?U - (cell \<union> X) = (?U - cell) - set new" using new(1) by auto
    then have "card (?U - (cell \<union> X)) = card (?U - cell) - card (set new)"
      using sub by (simp add: card_Diff_subset)
    moreover have "card (set new) \<le> card (?U - cell)" using sub by (intro card_mono) auto
    ultimately have dec: "2 * card (?U - (cell \<union> X)) + length (rest @ new)
        < 2 * card (?U - cell) + length agenda"
      using new(2) Cons by (simp add: distinct_card)
    have "set rest \<subseteq> cell" using less.prems(1) Cons by (simp add: loop_inv_def)
    then have "distinct (rest @ new)" using less.prems(2) Cons new by auto
    from less.hyps [OF dec inv this] show ?thesis
      using step Cons by (subst close_loop.simps) simp
  qed
qed

lemma closure_subset_inv:
  assumes "wf_grammar g" and inv: "loop_inv g prev seed cell []"
  shows "closure g prev seed \<subseteq> cell"
proof
  fix x assume "x \<in> closure g prev seed"
  then show "x \<in> cell"
  proof induction
    case (predict x r c)
    then have "set (predictions g (length prev) r) \<subseteq> cell" using inv by (simp add: loop_inv_def)
    with predict show ?case by (auto simp: predictions_def)
  qed (use inv in \<open>auto simp: loop_inv_def\<close>)
qed

lemma close_exact_aux:
  assumes "wf_grammar g" and "cells_ok g prev" and "seed \<subseteq> items_upto g (length prev)"
  shows "close g prev seed = Some (closure g prev seed)"
proof -
  have fin: "finite seed" using assms(3) by (rule finite_subset) simp
  then have "loop_inv g prev seed seed (sorted_list_of_set seed)"
    using assms(3) by (auto simp: loop_inv_def intro: closure.seed)
  from close_loop_total [OF assms(1,2) this] obtain out
    where out: "close g prev seed = Some out" "loop_inv g prev seed out []"
    by (auto simp: close_def)
  with closure_subset_inv [OF assms(1) out(2)] show ?thesis by (auto simp: loop_inv_def)
qed

text \<open>C21: The agenda loop returns, never indexes out of range, and computes the least set that
  contains the seed and is closed under prediction and completion, for a well-formed grammar and
  chart: taking each item once, with the extra check for children that completed at this position,
  misses nothing, and the result does not depend on the order in which a hash set is walked.\<close>

theorem close_exact:
  assumes "wf_grammar g" and "cells_ok g prev" and "seed \<subseteq> items_upto g (length prev)"
  shows "close g prev seed = Some (closure g prev seed)"
  by (rule close_exact_aux [OF assms])

text \<open>A small grammar for concrete instances: \<open>root ::= opt "x"\<close> and \<open>opt ::= | "a" opt\<close>.\<close>

definition demo_grammar :: grammar where
  "demo_grammar = \<lparr>productions =
      [\<lparr>lhs = 1, rhs = [Rule 2, Character (charset_one 120)]\<rparr>, \<lparr>lhs = 2, rhs = []\<rparr>,
       \<lparr>lhs = 2, rhs = [Character (charset_one 97), Rule 2]\<rparr>, \<lparr>lhs = 0, rhs = [Rule 1]\<rparr>],
    by_lhs = [[3], [0], [1, 2]], start_production = 3\<rparr>"

lemma demo_grammar_wf: "wf_grammar demo_grammar"
  by (simp add: wf_grammar_def demo_grammar_def wf_symbol_def charset_one_def upt_rec)

theorem close_exact_witness:
  "close demo_grammar [] {Item 3 0 0} = Some (closure demo_grammar [] {Item 3 0 0})"
proof (rule close_exact [OF demo_grammar_wf])
  show "cells_ok demo_grammar []" by (simp add: cells_ok_def)
  show "{Item 3 0 0} \<subseteq> items_upto demo_grammar (length [])" by (simp add: items_upto_def demo_grammar_def)
qed

subsection \<open>Advancing a branch\<close>

record match_branch =
  chart :: "item set list"
  pending_utf8 :: bytes

datatype match_error = CharacterRejected nat | TokenNotTerminal nat | InvalidUtf8 | IncompleteRejected
  | TokenRejected nat | BytesRejected | MatcherPanic

text \<open>Both scanners advance the items whose next symbol is a terminal that matches, refuse when
  none does, and close the new cell. The index panics are the empty chart, an item whose production
  is out of range, and those of the closure.\<close>

definition scan_set :: "grammar \<Rightarrow> (symbol \<Rightarrow> bool) \<Rightarrow> item set \<Rightarrow> item set" where
  "scan_set g matches cell =
     advanced ` {x \<in> cell. (case next_symbol g x of None \<Rightarrow> False | Some s \<Rightarrow> matches s)}"

definition scan_frontier ::
  "grammar \<Rightarrow> (symbol \<Rightarrow> bool) \<Rightarrow> match_error \<Rightarrow> match_branch \<Rightarrow> match_error + match_branch" where
  "scan_frontier g matches refusal branch =
     (if chart branch = [] \<or> (\<exists>x\<in>last (chart branch). item_production x \<ge> length (productions g))
      then Inl MatcherPanic
      else
        let nxt = scan_set g matches (last (chart branch))
        in if nxt = {} then Inl refusal
           else case close g (chart branch) nxt of
               None \<Rightarrow> Inl MatcherPanic
             | Some cell \<Rightarrow> Inr (branch\<lparr>chart := chart branch @ [cell]\<rparr>))"

definition character_symbol :: "nat \<Rightarrow> symbol \<Rightarrow> bool" where
  "character_symbol v s = (case s of Character cs \<Rightarrow> charset_matches cs v | _ \<Rightarrow> False)"

definition token_symbol :: "nat \<Rightarrow> bytes \<Rightarrow> symbol \<Rightarrow> bool" where
  "token_symbol token bs s = (case s of Token tt \<Rightarrow> token_matches tt token bs | _ \<Rightarrow> False)"

definition accept_char :: "grammar \<Rightarrow> match_branch \<Rightarrow> nat \<Rightarrow> match_error + match_branch" where
  "accept_char g branch v = scan_frontier g (character_symbol v) (CharacterRejected v) branch"

definition accept_token_terminal ::
  "grammar \<Rightarrow> match_branch \<Rightarrow> nat \<Rightarrow> bytes \<Rightarrow> match_error + match_branch" where
  "accept_token_terminal g branch token bs =
     scan_frontier g (token_symbol token bs) (TokenNotTerminal token) branch"

text \<open>The language of a grammar over events: a code point, or a whole token matched by a token
  terminal.\<close>

datatype event = CharEvent nat | TokenEvent nat bytes

fun event_symbol :: "event \<Rightarrow> symbol \<Rightarrow> bool" where
  "event_symbol (CharEvent v) s = character_symbol v s"
| "event_symbol (TokenEvent token bs) s = token_symbol token bs s"

inductive gen :: "grammar \<Rightarrow> symbol list \<Rightarrow> event list \<Rightarrow> bool" for g where
  gen_empty: "gen g [] []"
| gen_terminal: "event_symbol e s \<Longrightarrow> gen g ss w \<Longrightarrow> gen g (s # ss) (e # w)"
| gen_rule: "p < length (productions g) \<Longrightarrow> lhs (productions g ! p) = r \<Longrightarrow> gen g (rhs (productions g ! p)) u \<Longrightarrow>
    gen g ss v \<Longrightarrow> gen g (Rule r # ss) (u @ v)"

definition language :: "grammar \<Rightarrow> event list \<Rightarrow> bool" where
  "language g w \<longleftrightarrow> gen g (rhs (productions g ! start_production g)) w"

definition seed_of :: "grammar \<Rightarrow> event list \<Rightarrow> item set list \<Rightarrow> nat \<Rightarrow> item set" where
  "seed_of g w cells k =
     (case k of 0 \<Rightarrow> {Item (start_production g) 0 0} | Suc j \<Rightarrow> scan_set g (event_symbol (w ! j)) (cells ! j))"

definition chart_of :: "grammar \<Rightarrow> event list \<Rightarrow> item set list \<Rightarrow> bool" where
  "chart_of g w cells \<longleftrightarrow> length cells = length w + 1
     \<and> (\<forall>k\<le>length w. cells ! k = closure g (take k cells) (seed_of g w cells k))"

definition segment :: "nat \<Rightarrow> nat \<Rightarrow> 'a list \<Rightarrow> 'a list" where
  "segment i j xs = take (j - i) (drop i xs)"

lemma segment_append: "i \<le> j \<Longrightarrow> j \<le> k \<Longrightarrow> segment i j xs @ segment j k xs = segment i k xs"
  unfolding segment_def
  by (metis add_diff_inverse_nat diff_add_inverse2 drop_drop le_add_diff_inverse2 linorder_not_less
      Nat.diff_add_assoc2 take_add)

lemma segment_same [simp]: "segment i i xs = []"
  by (simp add: segment_def)

lemma segment_Suc: "i \<le> k \<Longrightarrow> k < length xs \<Longrightarrow> segment i (Suc k) xs = segment i k xs @ [xs ! k]"
  by (simp add: segment_def Suc_diff_le take_Suc_conv_app_nth)

lemma gen_append: "gen g ss u \<Longrightarrow> gen g ts v \<Longrightarrow> gen g (ss @ ts) (u @ v)"
  by (induction rule: gen.induct) (auto intro: gen.intros)

lemma gen_snoc_terminal: "gen g ss u \<Longrightarrow> event_symbol e s \<Longrightarrow> gen g (ss @ [s]) (u @ [e])"
  by (rule gen_append) (auto intro: gen.intros)

lemma gen_snoc_rule:
  assumes "gen g ss u" and "p < length (productions g)" and "lhs (productions g ! p) = r"
    and "gen g (rhs (productions g ! p)) v"
  shows "gen g (ss @ [Rule r]) (u @ v)"
  using gen_append [OF assms(1) gen_rule [OF assms(2-4) gen_empty]] by simp

subsection \<open>Soundness of the chart\<close>

definition item_sound :: "grammar \<Rightarrow> event list \<Rightarrow> nat \<Rightarrow> item \<Rightarrow> bool" where
  "item_sound g w k x \<longleftrightarrow> x \<in> items_upto g k
     \<and> gen g (take (item_dot x) (rhs (production_of g x))) (segment (item_origin x) k w)"

lemma next_symbol_take:
  "next_symbol g x = Some s \<Longrightarrow>
    take (Suc (item_dot x)) (rhs (production_of g x)) = take (item_dot x) (rhs (production_of g x)) @ [s]"
  by (auto simp: next_symbol_def get_at_def take_Suc_conv_app_nth split: if_splits)

lemma advanced_simps [simp]:
  "item_production (advanced x) = item_production x" "item_dot (advanced x) = Suc (item_dot x)"
  "item_origin (advanced x) = item_origin x" "production_of g (advanced x) = production_of g x"
  by (simp_all add: advanced_def production_of_def)

lemma complete_sound:
  assumes x: "item_sound g w (item_origin y) x" and y: "item_sound g w k y" and k: "k \<le> length w"
    and nx: "next_symbol g x = Some (Rule (lhs (production_of g y)))" and ny: "next_symbol g y = None"
  shows "item_sound g w k (advanced x)"
proof -
  have origins: "item_origin x \<le> item_origin y" "item_origin y \<le> k"
    using x y by (simp_all add: item_sound_def items_upto_def)
  have "completed g y" using y ny next_symbol_None [of y g k] by (simp add: item_sound_def)
  then have "gen g (rhs (production_of g y)) (segment (item_origin y) k w)"
    using y by (simp add: item_sound_def completed_def)
  moreover have "item_production y < length (productions g)" using y by (simp add: item_sound_def items_upto_def)
  moreover have "gen g (take (item_dot x) (rhs (production_of g x))) (segment (item_origin x) (item_origin y) w)"
    using x by (simp add: item_sound_def)
  ultimately have "gen g (take (Suc (item_dot x)) (rhs (production_of g x)))
      (segment (item_origin x) (item_origin y) w @ segment (item_origin y) k w)"
    unfolding next_symbol_take [OF nx] by (intro gen_snoc_rule) (simp_all add: production_of_def)
  then have "gen g (take (Suc (item_dot x)) (rhs (production_of g x))) (segment (item_origin x) k w)"
    using origins by (simp add: segment_append)
  moreover have "advanced x \<in> items_upto g k"
    using x nx items_upto_mono [OF origins(2), of g] unfolding item_sound_def
    by (blast intro: advanced_in_items)
  ultimately show ?thesis by (simp add: item_sound_def)
qed

lemma scan_sound:
  assumes x: "item_sound g w k x" and k: "k < length w"
    and s: "next_symbol g x = Some s" "event_symbol (w ! k) s"
  shows "item_sound g w (Suc k) (advanced x)"
proof -
  have "item_origin x \<le> k" using x by (simp add: item_sound_def items_upto_def)
  then have "gen g (take (Suc (item_dot x)) (rhs (production_of g x))) (segment (item_origin x) (Suc k) w)"
    using x k s gen_snoc_terminal by (simp add: item_sound_def next_symbol_take segment_Suc)
  moreover have "advanced x \<in> items_upto g (Suc k)"
    using x s(1) items_upto_mono [of k "Suc k" g] unfolding item_sound_def
    by (auto intro: advanced_in_items)
  ultimately show ?thesis by (simp add: item_sound_def)
qed

lemma closure_sound:
  assumes wf: "wf_grammar g" and k: "length prev = k" "k \<le> length w"
    and prev: "\<And>j x. j < k \<Longrightarrow> x \<in> prev ! j \<Longrightarrow> item_sound g w j x"
    and seed: "\<And>x. x \<in> seed \<Longrightarrow> item_sound g w k x"
  shows "x \<in> closure g prev seed \<Longrightarrow> item_sound g w k x"
proof (induction rule: closure.induct)
  case (predict x r c)
  then have "r < length (by_lhs g)" using next_rule_ok [OF wf] by (auto simp: item_sound_def)
  then show ?case
    using predict k by (simp add: item_sound_def prediction_in_items [OF wf] gen_empty)
next
  case (complete_earlier y x)
  then show ?case using complete_sound [of g w y x k] prev k by simp
next
  case (complete_here y x)
  then show ?case using complete_sound [of g w y x k] k by simp
qed (rule seed)

lemma chart_sound:
  assumes wf: "wf_grammar g" and ch: "chart_of g w cells"
  shows "k \<le> length w \<Longrightarrow> x \<in> cells ! k \<Longrightarrow> item_sound g w k x"
proof (induction k arbitrary: x rule: less_induct)
  case (less k)
  have cell: "cells ! k = closure g (take k cells) (seed_of g w cells k)"
    using ch less.prems by (simp add: chart_of_def)
  have len: "length (take k cells) = k" using ch less.prems by (simp add: chart_of_def)
  show ?case
  proof (rule closure_sound [OF wf len less.prems(1)])
    show "item_sound g w j y" if "j < k" "y \<in> take k cells ! j" for j y
      using less.IH [of j y] that less.prems by simp
    show "item_sound g w k y" if y: "y \<in> seed_of g w cells k" for y
    proof (cases k)
      case 0
      have "start_production g < length (productions g)" using wf by (simp add: wf_grammar_def)
      with y 0 show ?thesis by (auto simp: seed_of_def item_sound_def items_upto_def gen_empty)
    next
      case (Suc j)
      with y obtain z s where "z \<in> cells ! j" "next_symbol g z = Some s" "event_symbol (w ! j) s" "y = advanced z"
        by (auto simp: seed_of_def scan_set_def split: option.splits)
      then show ?thesis using scan_sound [of g w j z s] less Suc by simp
    qed
    show "x \<in> closure g (take k cells) (seed_of g w cells k)" using cell less.prems by simp
  qed
qed

lemma chart_cells_ok:
  assumes "wf_grammar g" and "chart_of g w cells"
  shows "cells_ok g cells"
  using chart_sound [OF assms] assms(2) by (auto simp: cells_ok_def item_sound_def chart_of_def)

subsection \<open>Completeness of the chart\<close>

lemma chart_closure:
  "chart_of g w cells \<Longrightarrow> k \<le> length w \<Longrightarrow>
    cells ! k = closure g (take k cells) (seed_of g w cells k) \<and> length (take k cells) = k"
  by (auto simp: chart_of_def)

lemma chart_predict:
  assumes "chart_of g w cells" "wf_grammar g" "k \<le> length w" and x: "x \<in> cells ! k"
    and nx: "next_symbol g x = Some (Rule r)" and p: "p < length (productions g)" "lhs (productions g ! p) = r"
  shows "Item p 0 k \<in> cells ! k"
proof -
  note c = chart_closure [OF assms(1,3)]
  have "r < length (by_lhs g)"
    using next_rule_ok [OF assms(2) _ nx, of k] chart_sound [OF assms(2,1,3) x] by (simp add: item_sound_def)
  then have "p \<in> set (by_lhs g ! r)" using by_lhs_iff [OF assms(2)] p by simp
  then show ?thesis using closure.predict [of x g "take k cells" _ r p] x c nx by metis
qed

lemma chart_complete:
  assumes ch: "chart_of g w cells" and m: "m \<le> length w" and y: "y \<in> cells ! m" "next_symbol g y = None"
    and o: "item_origin y = k" "k \<le> m"
    and x: "x \<in> cells ! k" "next_symbol g x = Some (Rule (lhs (production_of g y)))"
  shows "advanced x \<in> cells ! m"
proof -
  note c = chart_closure [OF ch m]
  let ?seed = "seed_of g w cells m"
  have y': "y \<in> closure g (take m cells) ?seed" using y c by simp
  show ?thesis
  proof (cases "k = m")
    case True
    then have "x \<in> closure g (take m cells) ?seed" using x(1) c by simp
    with closure.complete_here [OF y' y(2) _ this x(2)] c o True show ?thesis by simp
  next
    case False
    then have "item_origin y < length (take m cells)" "x \<in> take m cells ! item_origin y"
      using o c x(1) by auto
    with closure.complete_earlier [OF y' y(2) this x(2)] c show ?thesis by simp
  qed
qed

lemma chart_scan:
  assumes ch: "chart_of g w cells" and k: "k < length w" and x: "x \<in> cells ! k"
    and s: "next_symbol g x = Some s" "event_symbol (w ! k) s"
  shows "advanced x \<in> cells ! Suc k"
proof -
  have "advanced x \<in> seed_of g w cells (Suc k)" using x s by (auto simp: seed_of_def scan_set_def)
  then show ?thesis using chart_closure [OF ch, of "Suc k"] k by (auto intro: closure.seed)
qed

lemma next_symbol_drop:
  "drop d (rhs (productions g ! p)) = s # ss \<Longrightarrow>
    next_symbol g (Item p d k) = Some s \<and> drop (Suc d) (rhs (productions g ! p)) = ss"
  by (auto simp: next_symbol_def get_at_def production_of_def drop_Suc tl_drop [symmetric]
      dest: arg_cong [of _ _ length] simp flip: hd_drop_conv_nth)

lemma chart_derives:
  assumes ch: "chart_of g w cells" and wf: "wf_grammar g"
  shows "gen g ss u \<Longrightarrow> k + length u \<le> length w \<Longrightarrow> segment k (k + length u) w = u \<Longrightarrow>
    Item p d j \<in> cells ! k \<Longrightarrow> drop d (rhs (productions g ! p)) = ss @ ts \<Longrightarrow>
    Item p (d + length ss) j \<in> cells ! (k + length u)"
proof (induction arbitrary: k p d j ts rule: gen.induct)
  case (gen_terminal e s ss v)
  have k: "k < length w" "w ! k = e" and seg: "segment (Suc k) (Suc k + length v) w = v"
    using gen_terminal.prems(1,2) by (auto simp: segment_def drop_Suc Cons_nth_drop_Suc [symmetric])
  note nx = next_symbol_drop [of d g p s "ss @ ts" j]
  have "Item p (Suc d) j \<in> cells ! Suc k"
    using chart_scan [OF ch k(1) gen_terminal.prems(3)] nx gen_terminal.prems(4) gen_terminal.hyps(1) k(2)
    by (simp add: advanced_def)
  from gen_terminal.IH [OF _ seg this] show ?case using nx gen_terminal.prems by simp
next
  case (gen_rule q r u ss v)
  let ?m = "k + length u"
  have le: "?m \<le> length w" "k \<le> length w" using gen_rule.prems(1) by simp_all
  have seg: "segment k ?m w = u" "segment ?m (?m + length v) w = v"
  proof -
    have "segment k ?m w @ segment ?m (?m + length v) w = u @ v"
      using gen_rule.prems(2) by (simp add: segment_append add.assoc)
    moreover have "length (segment k ?m w) = length u" using le by (simp add: segment_def)
    ultimately show "segment k ?m w = u" "segment ?m (?m + length v) w = v" by simp_all
  qed
  note nx = next_symbol_drop [of d g p "Rule r" "ss @ ts" j]
  have "Item q 0 k \<in> cells ! k"
    using chart_predict [OF ch wf le(2) gen_rule.prems(3)] nx gen_rule by simp
  from gen_rule.IH(1) [OF le(1) seg(1) this, of "[]"]
  have complete: "Item q (length (rhs (productions g ! q))) k \<in> cells ! ?m" by simp
  have "Item p (Suc d) j \<in> cells ! ?m"
    using chart_complete [OF ch le(1) complete _ _ _ gen_rule.prems(3)] nx gen_rule.prems(4) gen_rule.hyps(2)
    by (simp add: advanced_def next_symbol_def get_at_def production_of_def)
  from gen_rule.IH(2) [OF _ seg(2) this] show ?case using nx gen_rule.prems by (simp add: add.assoc)
qed simp

text \<open>A derivation that runs past the end of the chart has a frontier item waiting for the next
  event.\<close>

lemma chart_frontier:
  assumes ch: "chart_of g w cells" and wf: "wf_grammar g"
  shows "gen g ss u \<Longrightarrow> k \<le> length w \<Longrightarrow> u = drop k w @ e # rest \<Longrightarrow> Item p d j \<in> cells ! k \<Longrightarrow>
    drop d (rhs (productions g ! p)) = ss @ ts \<Longrightarrow>
    \<exists>x\<in>cells ! length w. \<exists>s. next_symbol g x = Some s \<and> event_symbol e s"
proof (induction arbitrary: k p d j ts rest rule: gen.induct)
  case (gen_terminal e' s ss v)
  note nx = next_symbol_drop [of d g p s "ss @ ts" j]
  show ?case
  proof (cases "k = length w")
    case True
    then show ?thesis using gen_terminal nx by fastforce
  next
    case False
    then have k: "k < length w" using gen_terminal.prems by simp
    then have e: "w ! k = e'" and v: "v = drop (Suc k) w @ e # rest"
      using gen_terminal.prems(2) by (auto simp: Cons_nth_drop_Suc [symmetric])
    have "Item p (Suc d) j \<in> cells ! Suc k"
      using chart_scan [OF ch k gen_terminal.prems(3)] nx gen_terminal.prems(4) gen_terminal.hyps(1) e
      by (simp add: advanced_def)
    from gen_terminal.IH [OF _ v this] show ?thesis using nx gen_terminal.prems k by simp
  qed
next
  case (gen_rule q r u ss v)
  note nx = next_symbol_drop [of d g p "Rule r" "ss @ ts" j]
  have q: "Item q 0 k \<in> cells ! k"
    using chart_predict [OF ch wf gen_rule.prems(1,3)] nx gen_rule by simp
  show ?case
  proof (cases "length u \<le> length w - k")
    case True
    let ?m = "k + length u"
    have le: "?m \<le> length w" using True gen_rule.prems(1) by simp
    have seg: "segment k ?m w = u" and v: "v = drop ?m w @ e # rest"
    proof -
      have "segment k ?m w @ drop ?m w = drop k w"
        by (simp add: segment_def) (metis append_take_drop_id drop_drop add.commute)
      then have "segment k ?m w @ drop ?m w @ e # rest = u @ v"
        using gen_rule.prems(2) by (metis append.assoc)
      moreover have "length (segment k ?m w) = length u" using le by (simp add: segment_def)
      ultimately show "segment k ?m w = u" "v = drop ?m w @ e # rest" by simp_all
    qed
    have "Item p (Suc d) j \<in> cells ! ?m"
    proof -
      have "gen g (Rule r # []) (u @ [])" by (rule gen.gen_rule [OF gen_rule.hyps(1-3) gen_empty])
      then show ?thesis
        using chart_derives [OF ch wf, of "[Rule r]" u k p d j "ss @ ts"] gen_rule.prems le seg by simp
    qed
    from gen_rule.IH(2) [OF le v this] show ?thesis using nx gen_rule.prems by simp
  next
    case False
    then have lt: "length (drop k w) < length u" by simp
    from gen_rule.prems(2) consider us where "u @ us = drop k w" | us where "u = drop k w @ us" "us @ v = e # rest"
      by (auto simp: append_eq_append_conv2)
    then obtain t where "u = drop k w @ e # t"
    proof cases
      case 1
      then show thesis using lt by (metis length_append not_add_less1)
    next
      case (2 us)
      then show thesis using lt that by (cases us) auto
    qed
    from gen_rule.IH(1) [OF gen_rule.prems(1) this q, of "[]"] show ?thesis by simp
  qed
qed simp

subsection \<open>The recognizer\<close>

definition start_branch :: "grammar \<Rightarrow> match_error + match_branch" where
  "start_branch g =
     (case close g [] {Item (start_production g) 0 0} of
        None \<Rightarrow> Inl MatcherPanic
      | Some cell \<Rightarrow> Inr \<lparr>chart = [cell], pending_utf8 = []\<rparr>)"

definition branch_accepting :: "grammar \<Rightarrow> match_branch \<Rightarrow> bool" where
  "branch_accepting g branch \<longleftrightarrow> pending_utf8 branch = [] \<and> chart branch \<noteq> []
     \<and> Item (start_production g) 1 0 \<in> last (chart branch)"

definition accept_event :: "grammar \<Rightarrow> event \<Rightarrow> match_branch \<Rightarrow> match_error + match_branch" where
  "accept_event g e branch = (case e of
      CharEvent v \<Rightarrow> accept_char g branch v
    | TokenEvent token bs \<Rightarrow> accept_token_terminal g branch token bs)"

fun accept_events :: "grammar \<Rightarrow> event list \<Rightarrow> match_branch \<Rightarrow> match_error + match_branch" where
  "accept_events g [] branch = Inr branch"
| "accept_events g (e # es) branch =
     (case accept_event g e branch of Inl err \<Rightarrow> Inl err | Inr branch' \<Rightarrow> accept_events g es branch')"

definition recognize :: "grammar \<Rightarrow> event list \<Rightarrow> match_error + match_branch" where
  "recognize g w = (case start_branch g of Inl err \<Rightarrow> Inl err | Inr branch \<Rightarrow> accept_events g w branch)"

lemma start_branch_ok:
  assumes "wf_grammar g"
  shows "\<exists>branch. start_branch g = Inr branch \<and> chart_of g [] (chart branch) \<and> pending_utf8 branch = []"
proof -
  have "close g [] {Item (start_production g) 0 0} = Some (closure g [] {Item (start_production g) 0 0})"
    by (rule close_exact_aux [OF assms]) (use assms in \<open>auto simp: cells_ok_def items_upto_def wf_grammar_def\<close>)
  then show ?thesis by (simp add: start_branch_def chart_of_def seed_of_def)
qed

lemma chart_last:
  assumes "chart_of g w cells"
  shows "length cells = Suc (length w)" and "last cells = cells ! length w"
proof -
  show len: "length cells = Suc (length w)" using assms by (simp add: chart_of_def)
  then have "cells \<noteq> []" by auto
  then show "last cells = cells ! length w" using len by (simp add: last_conv_nth)
qed

lemma chart_extend:
  assumes "chart_of g w cells"
  shows "chart_of g (w @ [e]) (cells @ [closure g cells (scan_set g (event_symbol e) (last cells))])"
proof -
  let ?c = "closure g cells (scan_set g (event_symbol e) (last cells))"
  note len = chart_last(1) [OF assms] and last = chart_last(2) [OF assms]
  have "(cells @ [?c]) ! k = closure g (take k (cells @ [?c])) (seed_of g (w @ [e]) (cells @ [?c]) k)"
    if "k \<le> Suc (length w)" for k
  proof (cases "k \<le> length w")
    case True
    then have "seed_of g (w @ [e]) (cells @ [?c]) k = seed_of g w cells k"
      using len by (auto simp: seed_of_def nth_append split: nat.split)
    with True assms len show ?thesis by (simp add: chart_of_def nth_append)
  next
    case False
    then have "k = Suc (length w)" using that by simp
    then show ?thesis using len last by (simp add: seed_of_def nth_append)
  qed
  then show ?thesis using len by (simp add: chart_of_def)
qed

lemma language_frontier:
  assumes wf: "wf_grammar g" and ch: "chart_of g w cells" and l: "language g (w @ e # rest)"
  obtains x s where "x \<in> last cells" "next_symbol g x = Some s" "event_symbol e s"
proof -
  have "Item (start_production g) 0 0 \<in> cells ! 0"
    using chart_closure [OF ch, of 0] by (auto simp: seed_of_def intro: closure.seed)
  then show thesis
    using chart_frontier [OF ch wf l [unfolded language_def], of 0 e rest "start_production g" 0 0 "[]"]
      chart_last(2) [OF ch] that by auto
qed

text \<open>One event on a branch whose chart is that of the events read so far: the scanners never panic,
  refuse only an event that no sentence has at this point, and otherwise extend the chart.\<close>

lemma scan_frontier_cases:
  assumes wf: "wf_grammar g" and ch: "chart_of g w (chart branch)"
  obtains (refused) "scan_frontier g (event_symbol e) refusal branch = Inl refusal"
      "\<And>rest. \<not> language g (w @ e # rest)"
  | (advanced) branch' where "scan_frontier g (event_symbol e) refusal branch = Inr branch'"
      "chart_of g (w @ [e]) (chart branch')" "pending_utf8 branch' = pending_utf8 branch"
proof -
  let ?cells = "chart branch" and ?next = "scan_set g (event_symbol e) (last (chart branch))"
  note len = chart_last(1) [OF ch] and last = chart_last(2) [OF ch]
  have items: "last ?cells \<subseteq> items_upto g (length w)"
    using chart_sound [OF wf ch] last by (auto simp: item_sound_def)
  then have ok: "\<not> (?cells = [] \<or> (\<exists>x\<in>last ?cells. item_production x \<ge> length (productions g)))"
    using len by (auto simp: items_upto_def)
  show thesis
  proof (cases "?next = {}")
    case True
    have "\<not> language g (w @ e # rest)" for rest
    proof
      assume l: "language g (w @ e # rest)"
      from language_frontier [OF wf ch l] obtain x s
        where "x \<in> last ?cells" "next_symbol g x = Some s" "event_symbol e s" .
      then have "advanced x \<in> ?next" by (auto simp: scan_set_def)
      with True show False by simp
    qed
    moreover have "scan_frontier g (event_symbol e) refusal branch = Inl refusal"
      unfolding scan_frontier_def if_not_P [OF ok] using True by simp
    ultimately show thesis by (rule refused [rotated])
  next
    case False
    have "?next \<subseteq> items_upto g (length ?cells)"
    proof
      fix y assume "y \<in> ?next"
      then obtain x s where "x \<in> last ?cells" "next_symbol g x = Some s" "y = advanced x"
        by (auto simp: scan_set_def split: option.splits)
      then show "y \<in> items_upto g (length ?cells)"
        using items items_upto_mono [of "length w" "length ?cells" g] len
        by (auto intro: advanced_in_items)
    qed
    from close_exact_aux [OF wf chart_cells_ok [OF wf ch] this]
    have "scan_frontier g (event_symbol e) refusal branch
        = Inr (branch\<lparr>chart := ?cells @ [closure g ?cells ?next]\<rparr>)"
      unfolding scan_frontier_def if_not_P [OF ok] using False by (simp add: Let_def)
    then show thesis by (rule advanced) (simp_all add: chart_extend [OF ch])
  qed
qed

lemma accept_event_scan:
  "\<exists>refusal. refusal \<noteq> MatcherPanic \<and> accept_event g e branch = scan_frontier g (event_symbol e) refusal branch"
proof (cases e)
  case (CharEvent v)
  then have "event_symbol e = character_symbol v" by (auto simp: fun_eq_iff)
  with CharEvent show ?thesis by (auto simp: accept_event_def accept_char_def)
next
  case (TokenEvent token bs)
  then have "event_symbol e = token_symbol token bs" by (auto simp: fun_eq_iff)
  with TokenEvent show ?thesis by (auto simp: accept_event_def accept_token_terminal_def)
qed

lemma accept_event_cases:
  assumes wf: "wf_grammar g" and ch: "chart_of g w (chart branch)"
  obtains (refused) err where "accept_event g e branch = Inl err" "err \<noteq> MatcherPanic"
      "\<And>rest. \<not> language g (w @ e # rest)"
  | (advanced) branch' where "accept_event g e branch = Inr branch'"
      "chart_of g (w @ [e]) (chart branch')" "pending_utf8 branch' = pending_utf8 branch"
proof -
  obtain refusal where r: "refusal \<noteq> MatcherPanic"
    "accept_event g e branch = scan_frontier g (event_symbol e) refusal branch"
    using accept_event_scan by blast
  show thesis
    by (cases rule: scan_frontier_cases [OF wf ch, of e refusal]) (use r refused advanced in auto)
qed

lemma accept_events_cases:
  assumes wf: "wf_grammar g" and ch: "chart_of g w (chart branch)"
  obtains (refused) err where "accept_events g es branch = Inl err" "err \<noteq> MatcherPanic"
      "\<And>rest. \<not> language g (w @ es @ rest)"
  | (advanced) branch' where "accept_events g es branch = Inr branch'"
      "chart_of g (w @ es) (chart branch')" "pending_utf8 branch' = pending_utf8 branch"
  using ch
proof (induction es arbitrary: w branch thesis)
  case Nil
  then show ?case by simp
next
  case (Cons e es)
  show ?case
  proof (cases rule: accept_event_cases [OF wf Cons.prems(3), of e])
    case (1 err)
    then show ?thesis using Cons.prems(1) [of err] by simp
  next
    case (2 b)
    note step = this
    show ?thesis
      by (rule Cons.IH [OF _ _ step(2)]) (use step Cons.prems(1,2) in auto)
  qed
qed

lemma chart_accepting_iff:
  assumes wf: "wf_grammar g" and ch: "chart_of g w (chart branch)"
  shows "branch_accepting g branch \<longleftrightarrow> pending_utf8 branch = [] \<and> language g w"
proof -
  let ?s = "start_production g" and ?cells = "chart branch"
  note len = chart_last(1) [OF ch] and last = chart_last(2) [OF ch]
  have one: "length (rhs (productions g ! ?s)) = 1" using wf by (simp add: wf_grammar_def)
  have "Item ?s 1 0 \<in> ?cells ! length w \<longleftrightarrow> language g w"
  proof
    assume "Item ?s 1 0 \<in> ?cells ! length w"
    from chart_sound [OF wf ch _ this] show "language g w"
      using one by (simp add: item_sound_def language_def production_of_def segment_def)
  next
    assume "language g w"
    moreover have "Item ?s 0 0 \<in> ?cells ! 0"
      using chart_closure [OF ch, of 0] by (auto simp: seed_of_def intro: closure.seed)
    ultimately show "Item ?s 1 0 \<in> ?cells ! length w"
      using chart_derives [OF ch wf, of "rhs (productions g ! ?s)" w 0 ?s 0 0 "[]"] one
      by (simp add: language_def segment_def)
  qed
  then show ?thesis using len last by (auto simp: branch_accepting_def)
qed

text \<open>C20: The recognizer decides the language of the grammar: for a well-formed grammar, reading a
  sequence of code points and token terminals never panics; when every event is accepted the branch
  is accepting exactly when the sequence is derivable from the start production; and an event is
  refused only when no sentence of the language continues the sequence read so far.\<close>

theorem recognizer_exact:
  assumes "wf_grammar g"
  shows "case recognize g w of
      Inr branch \<Rightarrow> branch_accepting g branch \<longleftrightarrow> language g w
    | Inl err \<Rightarrow> err \<noteq> MatcherPanic \<and> (\<forall>rest. \<not> language g (w @ rest))"
proof -
  obtain b where b: "start_branch g = Inr b" "chart_of g [] (chart b)" "pending_utf8 b = []"
    using start_branch_ok [OF assms] by blast
  show ?thesis
    by (cases rule: accept_events_cases [OF assms b(2), of w])
      (use b in \<open>simp_all add: recognize_def chart_accepting_iff [OF assms]\<close>)
qed

lemma demo_language: "language demo_grammar [CharEvent 97, CharEvent 120]"
proof -
  have "gen demo_grammar [Rule 2] []"
    using gen_rule [of 1 demo_grammar 2 "[]" "[]" "[]"] by (simp add: demo_grammar_def gen_empty)
  then have "gen demo_grammar [Character (charset_one 97), Rule 2] [CharEvent 97]"
    by (intro gen_terminal) (simp_all add: character_symbol_def charset_one_def charset_matches_def)
  then have "gen demo_grammar (Rule 2 # [Character (charset_one 120)]) ([CharEvent 97] @ [CharEvent 120])"
    by (intro gen_rule [of 2])
      (simp_all add: demo_grammar_def gen_empty gen_terminal character_symbol_def charset_one_def charset_matches_def)
  then have "gen demo_grammar (Rule 1 # []) ([CharEvent 97, CharEvent 120] @ [])"
    by (intro gen_rule [of 0]) (simp_all add: demo_grammar_def gen_empty)
  then show ?thesis by (simp add: language_def demo_grammar_def)
qed

theorem recognizer_exact_witness:
  "case recognize demo_grammar [CharEvent 97, CharEvent 120] of
     Inr branch \<Rightarrow> branch_accepting demo_grammar branch | Inl err \<Rightarrow> False"
  using recognizer_exact [OF demo_grammar_wf, of "[CharEvent 97, CharEvent 120]"] demo_language
  by (auto split: sum.splits dest: spec [of _ "[]"])

end
