(* ===== verification/Utf8_Text.thy ===== *)
theory Utf8_Text
  imports Muser_Prelude
begin

section \<open>UTF-8 text of the Rust standard library\<close>

text \<open>
  Strings of the program are their UTF-8 bytes. \<open>std::str::from_utf8\<close> is written out as a decoder of
  the first scalar value, with its three outcomes: a scalar, input that ends too early (\<open>error_len\<close> is
  \<open>None\<close>), and malformed input. The same decoder gives \<open>chars\<close>, \<open>String::from_utf8_lossy\<close> and
  \<open>char::encode_utf8\<close> its inverse; \<open>str::find\<close>, \<open>str::replace\<close> and hexadecimal \<open>from_str_radix\<close>
  complete what the tokenizer and the grammar code use. Shown here: encoding and decoding are inverse,
  and a text splits uniquely at its first malformed or incomplete sequence.
\<close>

subsection \<open>UTF-8 decoding\<close>

datatype utf8_head = Scalar nat bytes | Incomplete | Malformed

definition continuation :: "u8 \<Rightarrow> nat" where
  "continuation b = unat b mod 64"

text \<open>The scalar at the start of a non-empty byte sequence.\<close>

fun utf8_tail :: "nat \<Rightarrow> nat \<Rightarrow> bytes \<Rightarrow> utf8_head" where
  "utf8_tail 0 value bs = Scalar value bs"
| "utf8_tail (Suc n) value [] = Incomplete"
| "utf8_tail (Suc n) value (b # bs) =
     (if in_range 128 191 b then utf8_tail n (value * 64 + continuation b) bs else Malformed)"

definition utf8_second :: "nat \<Rightarrow> nat \<Rightarrow> nat \<Rightarrow> nat \<Rightarrow> bytes \<Rightarrow> utf8_head" where
  "utf8_second lo hi n value bs = (case bs of
      [] \<Rightarrow> Incomplete
    | b # r \<Rightarrow> if in_range lo hi b then utf8_tail n (value * 64 + continuation b) r else Malformed)"

fun utf8_first :: "bytes \<Rightarrow> utf8_head" where
  "utf8_first [] = Incomplete"
| "utf8_first (b # bs) =
    (if in_range 0 127 b then Scalar (unat b) bs
     else if in_range 194 223 b then utf8_tail 1 (unat b mod 32) bs
     else if in_range 224 239 b then
       utf8_second (if b = 224 then 160 else 128) (if b = 237 then 159 else 191) 1 (unat b mod 16) bs
     else if in_range 240 244 b then
       utf8_second (if b = 240 then 144 else 128) (if b = 244 then 143 else 191) 2 (unat b mod 8) bs
     else Malformed)"

lemma utf8_tail_shorter: "utf8_tail n v bs = Scalar c rest \<Longrightarrow> length rest \<le> length bs"
  by (induction n v bs rule: utf8_tail.induct) (auto split: if_splits)

lemma utf8_first_shorter: "utf8_first bs = Scalar c rest \<Longrightarrow> length rest < length bs"
  by (cases bs)
    (auto simp: utf8_second_def le_imp_less_Suc split: if_splits list.splits dest!: utf8_tail_shorter)

text \<open>The longest valid prefix as code points, the bytes after it, and whether those only miss their
  end (\<open>error_len\<close> is \<open>None\<close>).\<close>

function utf8_split :: "bytes \<Rightarrow> nat list \<times> bytes \<times> bool" where
  "utf8_split bs =
     (if bs = [] then ([], [], True)
      else case utf8_first bs of
          Scalar c rest \<Rightarrow> (case utf8_split rest of (cs, r, incomplete) \<Rightarrow> (c # cs, r, incomplete))
        | Incomplete \<Rightarrow> ([], bs, True)
        | Malformed \<Rightarrow> ([], bs, False))"
  by pat_completeness auto
termination
  by (relation "measure length") (auto dest: utf8_first_shorter)

declare utf8_split.simps [simp del]

lemma utf8_split_rest:
  "utf8_split bs = (cs, rest, inc) \<Longrightarrow>
    utf8_split rest = ([], rest, inc) \<and> (cs = [] \<longrightarrow> rest = bs) \<and> (cs \<noteq> [] \<longrightarrow> length rest < length bs)"
proof (induction bs arbitrary: cs rest inc rule: utf8_split.induct)
  case (1 bs)
  show ?case
  proof (cases "bs = []")
    case True
    then show ?thesis using 1 by (auto simp: utf8_split.simps)
  next
    case False
    show ?thesis
    proof (cases "utf8_first bs")
      case (Scalar c r)
      obtain cs' rest' inc' where sp: "utf8_split r = (cs', rest', inc')" by (metis prod_cases3)
      with 1(2) Scalar False have eqs: "cs = c # cs'" "rest = rest'" "inc = inc'"
        by (auto simp: utf8_split.simps [of bs])
      from 1(1) [OF False Scalar sp] have "length rest' \<le> length r" by (cases "cs' = []") auto
      with 1(1) [OF False Scalar sp] eqs utf8_first_shorter [OF Scalar] show ?thesis by simp
    qed (use 1 False in \<open>auto simp: utf8_split.simps\<close>)
  qed
qed

lemma utf8_split_incomplete: "p \<noteq> [] \<Longrightarrow> utf8_split p = ([], p, True) \<longleftrightarrow> utf8_first p = Incomplete"
  by (auto simp: utf8_split.simps [of p] split: utf8_head.splits prod.splits)

lemma byte_of_nat: "n < 256 \<Longrightarrow> unat (of_nat n :: u8) = n"
  by (simp add: unat_of_nat)

lemma unat_continuation: "t < 64 \<Longrightarrow> unat (of_nat (128 + t) :: u8) = 128 + t"
  by (rule byte_of_nat) simp

lemma continuation_byte: "t < 64 \<Longrightarrow> continuation (of_nat (128 + t)) = t"
  unfolding continuation_def by (subst unat_continuation) (simp_all add: le_mod_geq)

lemma in_range_byte: "t < 64 \<Longrightarrow> in_range lo hi (of_nat (128 + t)) \<longleftrightarrow> lo \<le> 128 + t \<and> 128 + t \<le> hi"
  unfolding in_range_def by (subst unat_continuation, assumption)+ simp

lemma continuation_in_range: "in_range lo hi b \<Longrightarrow> 128 \<le> lo \<Longrightarrow> hi < 192 \<Longrightarrow> continuation b = unat b - 128"
  by (auto simp: in_range_def continuation_def le_mod_geq)

lemma utf8_tail_Suc: "utf8_tail (Suc n) v q = utf8_second 128 191 n v q"
  by (cases q) (simp_all add: utf8_second_def)

lemma byte_eq_iff: "(b :: u8) = 224 \<longleftrightarrow> unat b = 224" "b = 237 \<longleftrightarrow> unat b = 237"
  "b = 240 \<longleftrightarrow> unat b = 240" "b = 244 \<longleftrightarrow> unat b = 244"
  by (auto simp: word_unat_eq_iff)

subsection \<open>Hexadecimal numbers\<close>

definition hex_digit :: "u8 \<Rightarrow> nat option" where
  "hex_digit b = (if in_range 48 57 b then Some (unat b - 48)
     else if in_range 65 70 b then Some (unat b - 55)
     else if in_range 97 102 b then Some (unat b - 87) else None)"

text \<open>\<open>u32::from_str_radix(text, 16)\<close>: an optional sign \<open>+\<close>, then at least one digit. Eight digits do
  not overflow.\<close>

fun hex_value :: "nat \<Rightarrow> bytes \<Rightarrow> nat option" where
  "hex_value v [] = Some v"
| "hex_value v (b # bs) = (case hex_digit b of None \<Rightarrow> None | Some d \<Rightarrow> hex_value (v * 16 + d) bs)"

definition from_str_radix_16 :: "bytes \<Rightarrow> nat option" where
  "from_str_radix_16 bs =
     (let ds = (if bs \<noteq> [] \<and> hd bs = 43 then tl bs else bs) in if ds = [] then None else hex_value 0 ds)"

definition is_scalar :: "nat \<Rightarrow> bool" where
  "is_scalar v \<longleftrightarrow> v < 0xD800 \<or> 0xE000 \<le> v \<and> v \<le> 0x10FFFF"

subsection \<open>Encoding\<close>

text \<open>\<open>char::encode_utf8\<close>.\<close>

definition utf8_encode :: "nat \<Rightarrow> bytes" where
  "utf8_encode c =
     (if c < 0x80 then [of_nat c]
      else if c < 0x800 then [of_nat (192 + c div 64), of_nat (128 + c mod 64)]
      else if c < 0x10000 then
        [of_nat (224 + c div 4096), of_nat (128 + c div 64 mod 64), of_nat (128 + c mod 64)]
      else [of_nat (240 + c div 262144), of_nat (128 + c div 4096 mod 64), of_nat (128 + c div 64 mod 64),
            of_nat (128 + c mod 64)])"

abbreviation utf8_text :: "nat list \<Rightarrow> bytes" where
  "utf8_text cs \<equiv> concat (map utf8_encode cs)"

definition chars :: "bytes \<Rightarrow> nat list" where
  "chars bs = fst (utf8_split bs)"

definition utf8_rest :: "bytes \<Rightarrow> bytes" where
  "utf8_rest bs = fst (snd (utf8_split bs))"

lemma in_range_of_nat: "n < 256 \<Longrightarrow> in_range lo hi (of_nat n :: u8) \<longleftrightarrow> lo \<le> n \<and> n \<le> hi"
  by (simp add: in_range_def byte_of_nat)

lemma eq_of_nat: "n < 256 \<Longrightarrow> m < 256 \<Longrightarrow> (of_nat n :: u8) = of_nat m \<longleftrightarrow> n = m"
  by (metis byte_of_nat)

lemma utf8_tail_encode:
  "t < 64 \<Longrightarrow> utf8_tail (Suc n) v (of_nat (128 + t) # r) = utf8_tail n (v * 64 + t) r"
  using in_range_byte [of t 128 191] continuation_byte [of t] by (simp del: of_nat_add)

lemma utf8_second_encode:
  "t < 64 \<Longrightarrow> lo \<le> 128 + t \<Longrightarrow> 128 + t \<le> hi \<Longrightarrow>
    utf8_second lo hi n v (of_nat (128 + t) # r) = utf8_tail n (v * 64 + t) r"
  using in_range_byte [of t lo hi] continuation_byte [of t] by (simp add: utf8_second_def del: of_nat_add)

lemma utf8_first_two:
  "2 \<le> x \<Longrightarrow> x < 32 \<Longrightarrow> utf8_first (of_nat (192 + x) # r) = utf8_tail 1 x r"
  using in_range_of_nat [of "192 + x"] byte_of_nat [of "192 + x"] by (simp add: le_mod_geq del: of_nat_add)

lemma utf8_first_three:
  assumes "x < 16"
  shows "utf8_first (of_nat (224 + x) # r)
    = utf8_second (if x = 0 then 160 else 128) (if x = 13 then 159 else 191) 1 x r"
proof -
  have u: "unat (of_nat (224 + x) :: u8) = 224 + x" using assms by (intro byte_of_nat) simp
  then have m: "unat (of_nat (224 + x) :: u8) mod 16 = x" using assms by (simp add: le_mod_geq)
  show ?thesis using assms u m by (simp add: in_range_def byte_eq_iff del: of_nat_add)
qed

lemma utf8_first_four:
  assumes "x < 5"
  shows "utf8_first (of_nat (240 + x) # r)
    = utf8_second (if x = 0 then 144 else 128) (if x = 4 then 143 else 191) 2 x r"
proof -
  have u: "unat (of_nat (240 + x) :: u8) = 240 + x" using assms by (intro byte_of_nat) simp
  then have m: "unat (of_nat (240 + x) :: u8) mod 8 = x" using assms by (simp add: le_mod_geq)
  show ?thesis using assms u m by (simp add: in_range_def byte_eq_iff del: of_nat_add)
qed

lemma base64_digits:
  "(c div 4096 * 64 + c div 64 mod 64) * 64 + c mod 64 = (c::nat)"
  "((c div 262144 * 64 + c div 4096 mod 64) * 64 + c div 64 mod 64) * 64 + c mod 64 = c"
  using div_mult_mod_eq [of c 64] div_mult_mod_eq [of "c div 64" 64] div_mult_mod_eq [of "c div 4096" 64]
  by (simp_all add: div_mult2_eq [symmetric])

lemma utf8_first_encode:
  assumes "is_scalar c"
  shows "utf8_first (utf8_encode c @ r) = Scalar c r"
proof -
  consider (one) "c < 0x80" | (two) "0x80 \<le> c" "c < 0x800" | (three) "0x800 \<le> c" "c < 0x10000"
    | (four) "0x10000 \<le> c" "c < 0x110000"
    using assms by (fastforce simp: is_scalar_def)
  then show ?thesis
  proof cases
    case one
    then show ?thesis using in_range_of_nat [of c] by (simp add: utf8_encode_def byte_of_nat)
  next
    case two
    then have "2 \<le> c div 64" "c div 64 < 32" by auto
    from utf8_first_two [OF this] utf8_tail_encode [of "c mod 64" 0] two show ?thesis
      by (simp add: utf8_encode_def del: of_nat_add)
  next
    case three
    define x y z where "x = c div 4096" and "y = c div 64 mod 64" and "z = c mod 64"
    have c: "c = (x * 64 + y) * 64 + z" unfolding x_def y_def z_def by (rule base64_digits(1) [symmetric])
    have b: "x < 16" "y < 64" "z < 64" using three by (auto simp: x_def y_def z_def)
    have lo: "x = 0 \<longrightarrow> 32 \<le> y" using three c b by auto
    have hi: "x = 13 \<longrightarrow> y < 32" using assms c b by (auto simp: is_scalar_def)
    have e: "utf8_encode c = [of_nat (224 + x), of_nat (128 + y), of_nat (128 + z)]"
      using three by (simp add: utf8_encode_def x_def y_def z_def)
    have "utf8_first (utf8_encode c @ r) = utf8_tail 1 (x * 64 + y) (of_nat (128 + z) # r)"
      unfolding e append_Cons append_Nil utf8_first_three [OF b(1)]
      by (rule utf8_second_encode [OF b(2)]) (use lo hi b in auto)
    then show ?thesis using utf8_tail_encode [OF b(3), of 0] c by (simp del: of_nat_add utf8_first.simps)
  next
    case four
    define x y z w where "x = c div 262144" and "y = c div 4096 mod 64" and "z = c div 64 mod 64" and "w = c mod 64"
    have c: "c = ((x * 64 + y) * 64 + z) * 64 + w"
      unfolding x_def y_def z_def w_def by (rule base64_digits(2) [symmetric])
    have b: "x < 5" "y < 64" "z < 64" "w < 64" using four by (auto simp: x_def y_def z_def w_def)
    have lo: "x = 0 \<longrightarrow> 16 \<le> y" using four c b by auto
    have hi: "x = 4 \<longrightarrow> y < 16" using four c b by auto
    have e: "utf8_encode c = [of_nat (240 + x), of_nat (128 + y), of_nat (128 + z), of_nat (128 + w)]"
      using four by (simp add: utf8_encode_def x_def y_def z_def w_def)
    have "utf8_first (utf8_encode c @ r) = utf8_tail 2 (x * 64 + y) (of_nat (128 + z) # of_nat (128 + w) # r)"
      unfolding e append_Cons append_Nil utf8_first_four [OF b(1)]
      by (rule utf8_second_encode [OF b(2)]) (use lo hi b in auto)
    also have "\<dots> = Scalar c r"
      using utf8_tail_encode [OF b(3), of 1] utf8_tail_encode [OF b(4), of 0] c
      by (simp add: numeral_2_eq_2 del: of_nat_add)
    finally show ?thesis .
  qed
qed

lemma continuation_byteE:
  assumes "in_range lo hi b" and "128 \<le> lo" and "hi < 192"
  obtains t where "t < 64" "lo \<le> 128 + t" "128 + t \<le> hi" "b = of_nat (128 + t)" "continuation b = t"
proof
  show "unat b - 128 < 64" "lo \<le> 128 + (unat b - 128)" "128 + (unat b - 128) \<le> hi"
    using assms by (auto simp: in_range_def)
  have "128 + (unat b - 128) = unat b" using assms by (auto simp: in_range_def)
  then show "b = of_nat (128 + (unat b - 128))" by simp
  show "continuation b = unat b - 128" by (rule continuation_in_range [OF assms])
qed

lemma utf8_second_Scalar:
  assumes "utf8_second lo hi n v bs = Scalar c r" and "128 \<le> lo" and "hi < 192"
  obtains t q where "t < 64" "lo \<le> 128 + t" "128 + t \<le> hi" "bs = of_nat (128 + t) # q"
    "utf8_tail n (v * 64 + t) q = Scalar c r"
proof -
  obtain b q where q: "bs = b # q" "in_range lo hi b" "utf8_tail n (v * 64 + continuation b) q = Scalar c r"
    using assms(1) by (auto simp: utf8_second_def split: list.splits if_splits)
  from continuation_byteE [OF q(2) assms(2,3)] show ?thesis using q that by metis
qed

lemma utf8_tail_Scalar:
  assumes "utf8_tail (Suc n) v bs = Scalar c r"
  obtains t q where "t < 64" "bs = of_nat (128 + t) # q" "utf8_tail n (v * 64 + t) q = Scalar c r"
proof -
  have "utf8_second 128 191 n v bs = Scalar c r" using assms by (simp only: utf8_tail_Suc)
  then show ?thesis by (rule utf8_second_Scalar) (simp, simp, rule that)
qed

lemma base64_unique:
  assumes "(y::nat) < 64" "z < 64"
  shows "((x * 64 + y) * 64 + z) div 4096 = x" "((x * 64 + y) * 64 + z) div 64 mod 64 = y"
    "((x * 64 + y) * 64 + z) div 64 = x * 64 + y" "((x * 64 + y) * 64 + z) mod 64 = z"
proof -
  show d: "((x * 64 + y) * 64 + z) div 64 = x * 64 + y" using assms by simp
  then show "((x * 64 + y) * 64 + z) div 64 mod 64 = y" using assms by simp
  have "((x * 64 + y) * 64 + z) div 4096 = ((x * 64 + y) * 64 + z) div 64 div 64" by (simp flip: div_mult2_eq)
  then show "((x * 64 + y) * 64 + z) div 4096 = x" unfolding d using assms by simp
  show "((x * 64 + y) * 64 + z) mod 64 = z" using assms mod_mult_self3 [of "x * 64 + y" 64 z] by (simp only: mod_less)
qed

lemma utf8_first_Scalar:
  assumes "utf8_first bs = Scalar c r"
  shows "is_scalar c \<and> bs = utf8_encode c @ r"
proof -
  obtain b q where bs: "bs = b # q" using assms by (cases bs) auto
  note dec = assms [unfolded bs]
  consider (one) "in_range 0 127 b" | (two) "in_range 194 223 b" | (three) "in_range 224 239 b"
    | (four) "in_range 240 244 b"
    using dec by (auto split: if_splits)
  then show ?thesis
  proof cases
    case one
    then show ?thesis using dec bs by (auto simp: utf8_encode_def is_scalar_def in_range_def)
  next
    case two
    define x where "x = unat b - 192"
    have x: "b = of_nat (192 + x)" "2 \<le> x" "x < 32" using two by (auto simp: x_def in_range_def)
    have "utf8_tail (Suc 0) x q = Scalar c r"
      using dec unfolding x(1) utf8_first_two [OF x(2,3)] by simp
    then obtain t q' where t: "t < 64" "q = of_nat (128 + t) # q'" "utf8_tail 0 (x * 64 + t) q' = Scalar c r"
      by (rule utf8_tail_Scalar)
    then have "c = x * 64 + t" "q' = r" by simp_all
    then show ?thesis using x t bs by (auto simp: utf8_encode_def is_scalar_def)
  next
    case three
    define x where "x = unat b - 224"
    have x: "b = of_nat (224 + x)" "x < 16" using three by (auto simp: x_def in_range_def)
    let ?lo = "if x = 0 then 160 else 128 :: nat" and ?hi = "if x = 13 then 159 else 191 :: nat"
    have "utf8_second ?lo ?hi 1 x q = Scalar c r" "128 \<le> ?lo" "?hi < 192"
      using dec unfolding x(1) utf8_first_three [OF x(2)] by simp_all
    then obtain y q1 where y: "y < 64" "?lo \<le> 128 + y" "128 + y \<le> ?hi" "q = of_nat (128 + y) # q1"
      "utf8_tail 1 (x * 64 + y) q1 = Scalar c r" by (rule utf8_second_Scalar)
    from y(5) [unfolded One_nat_def] obtain z q2 where z: "z < 64" "q1 = of_nat (128 + z) # q2"
      "utf8_tail 0 ((x * 64 + y) * 64 + z) q2 = Scalar c r" by (rule utf8_tail_Scalar)
    then have c: "c = (x * 64 + y) * 64 + z" "q2 = r" by simp_all
    have low: "32 \<le> x * 64 + y" using y(2) by (cases "x = 0") simp_all
    have "x * 64 + y < 864 \<or> 896 \<le> x * 64 + y"
      using x(2) y(1,3) by (cases x "13 :: nat" rule: linorder_cases) simp_all
    then have "c < 0xD800 \<or> 0xE000 \<le> c" using z(1) unfolding c(1) by (elim disjE) simp_all
    moreover have "x * 64 + y < 1024" using x(2) y(1) by simp
    then have "c < 0x10000" using z(1) unfolding c(1) by simp
    moreover have "0x800 \<le> c" using low unfolding c(1) by simp
    ultimately have "0x800 \<le> c" "c < 0x10000" "is_scalar c" by (auto simp: is_scalar_def)
    then show ?thesis using c base64_unique [OF y(1) z(1), of x] x y(4) z(2) bs
      by (simp add: utf8_encode_def)
  next
    case four
    define x where "x = unat b - 240"
    have x: "b = of_nat (240 + x)" "x < 5" using four by (auto simp: x_def in_range_def)
    let ?lo = "if x = 0 then 144 else 128 :: nat" and ?hi = "if x = 4 then 143 else 191 :: nat"
    have "utf8_second ?lo ?hi 2 x q = Scalar c r" "128 \<le> ?lo" "?hi < 192"
      using dec unfolding x(1) utf8_first_four [OF x(2)] by simp_all
    then obtain y q1 where y: "y < 64" "?lo \<le> 128 + y" "128 + y \<le> ?hi" "q = of_nat (128 + y) # q1"
      "utf8_tail 2 (x * 64 + y) q1 = Scalar c r" by (rule utf8_second_Scalar)
    from y(5) [unfolded numeral_2_eq_2] obtain z q2 where z: "z < 64" "q1 = of_nat (128 + z) # q2"
      "utf8_tail (Suc 0) ((x * 64 + y) * 64 + z) q2 = Scalar c r" by (rule utf8_tail_Scalar)
    from z(3) obtain w q3 where w: "w < 64" "q2 = of_nat (128 + w) # q3"
      "utf8_tail 0 (((x * 64 + y) * 64 + z) * 64 + w) q3 = Scalar c r" by (rule utf8_tail_Scalar)
    then have c: "c = ((x * 64 + y) * 64 + z) * 64 + w" "q3 = r" by simp_all
    have "16 \<le> x * 64 + y" using y(2) by (cases "x = 0") simp_all
    moreover have "x * 64 + y < 272" using x(2) y(1,3) by (cases "x = 4") simp_all
    ultimately have "0x10000 \<le> c" "c < 0x110000" using z(1) w(1) unfolding c(1) by simp_all
    then have s: "\<not> c < 0x80" "\<not> c < 0x800" "\<not> c < 0x10000" "is_scalar c" by (simp_all add: is_scalar_def)
    have q: "c div 64 = (x * 64 + y) * 64 + z" "c mod 64 = w"
      unfolding c(1) by (rule base64_unique [OF z(1) w(1)])+
    have "c div 262144 = c div 64 div 4096" "c div 4096 = c div 64 div 64" by (simp_all flip: div_mult2_eq)
    then have d: "c div 262144 = x" "c div 4096 mod 64 = y" "c div 64 mod 64 = z"
      unfolding q(1) base64_unique [OF y(1) z(1)] using y(1) by simp_all
    have "utf8_encode c = [of_nat (240 + x), of_nat (128 + y), of_nat (128 + z), of_nat (128 + w)]"
      unfolding utf8_encode_def d q(2) by (simp only: s if_False)
    then show ?thesis using s(4) bs x(1) y(4) z(2) w(2) c(2) by simp
  qed
qed

subsection \<open>Texts\<close>

declare utf8_first.simps [simp del] utf8_valid.simps(2) [simp del]

lemma utf8_encode_Cons: "\<exists>b bs. utf8_encode c = b # bs"
  by (simp add: utf8_encode_def)

lemma utf8_encode_nonempty [simp]: "utf8_encode c \<noteq> []"
  using utf8_encode_Cons [of c] by auto

lemma utf8_split_text:
  "utf8_split bs = (cs, rest, inc) \<Longrightarrow> bs = utf8_text cs @ rest \<and> list_all is_scalar cs"
proof (induction bs arbitrary: cs rest inc rule: utf8_split.induct)
  case (1 bs)
  show ?case
  proof (cases "bs = [] \<or> utf8_first bs = Incomplete \<or> utf8_first bs = Malformed")
    case True
    then show ?thesis using 1(2) by (auto simp: utf8_split.simps [of bs] split: if_splits)
  next
    case False
    then obtain c r where f: "utf8_first bs = Scalar c r" by (cases "utf8_first bs") auto
    obtain cs' rest' inc' where sp: "utf8_split r = (cs', rest', inc')" by (metis prod_cases3)
    with 1(2) f False have "cs = c # cs'" "rest = rest'" by (auto simp: utf8_split.simps [of bs])
    then show ?thesis using 1(1) [OF _ f sp] False utf8_first_Scalar [OF f] by simp
  qed
qed

lemma utf8_split_encode_one:
  "is_scalar c \<Longrightarrow> utf8_split (utf8_encode c @ r) = (case utf8_split r of (ds, q, i) \<Rightarrow> (c # ds, q, i))"
  by (subst utf8_split.simps) (simp add: utf8_first_encode)

lemma utf8_split_encode:
  "list_all is_scalar cs \<Longrightarrow> utf8_split (utf8_text cs @ r) = (case utf8_split r of (ds, q, i) \<Rightarrow> (cs @ ds, q, i))"
  by (induction cs) (simp_all add: utf8_split_encode_one split: prod.splits)

lemma utf8_split_Nil [simp]: "utf8_split [] = ([], [], True)"
  by (simp add: utf8_split.simps)

lemma chars_text [simp]: "list_all is_scalar cs \<Longrightarrow> chars (utf8_text cs) = cs"
  using utf8_split_encode [of cs "[]"] by (simp add: chars_def)

lemma text_chars: "utf8_text (chars bs) @ utf8_rest bs = bs" and chars_scalar: "list_all is_scalar (chars bs)"
  by (cases "utf8_split bs"; auto simp: chars_def utf8_rest_def dest: utf8_split_text)+

lemma utf8_first_valid:
  "utf8_valid (b # bs) \<longleftrightarrow> (\<exists>c r. utf8_first (b # bs) = Scalar c r \<and> utf8_valid r)"
proof -
  let ?lo3 = "if b = 224 then 160 else 128 :: nat" and ?hi3 = "if b = 237 then 159 else 191 :: nat"
  let ?lo4 = "if b = 240 then 144 else 128 :: nat" and ?hi4 = "if b = 244 then 143 else 191 :: nat"
  consider (one) "in_range 0 127 b" | (two) "in_range 194 223 b" "\<not> in_range 0 127 b"
    | (three) "in_range 224 239 b" "\<not> in_range 194 223 b" "\<not> in_range 0 127 b"
    | (four) "in_range 240 244 b" "\<not> in_range 224 239 b" "\<not> in_range 194 223 b" "\<not> in_range 0 127 b"
    | (bad) "\<not> in_range 240 244 b" "\<not> in_range 224 239 b" "\<not> in_range 194 223 b" "\<not> in_range 0 127 b"
    by blast
  then show ?thesis
  proof cases
    case one
    then show ?thesis by (simp add: utf8_first.simps utf8_valid.simps(2))
  next
    case two
    then show ?thesis by (cases bs) (simp_all add: utf8_first.simps utf8_valid.simps(2))
  next
    case three
    then have f: "utf8_first (b # bs) = utf8_second ?lo3 ?hi3 1 (unat b mod 16) bs"
      and v: "utf8_valid (b # bs) = (case bs of c1 # c2 # r \<Rightarrow>
        in_range ?lo3 ?hi3 c1 \<and> in_range 128 191 c2 \<and> utf8_valid r | _ \<Rightarrow> False)"
      by (simp_all only: utf8_first.simps utf8_valid.simps if_True if_False)
    show ?thesis unfolding f v by (cases bs; cases "tl bs") (simp_all add: utf8_second_def)
  next
    case four
    then have f: "utf8_first (b # bs) = utf8_second ?lo4 ?hi4 2 (unat b mod 8) bs"
      and v: "utf8_valid (b # bs) = (case bs of c1 # c2 # c3 # r \<Rightarrow>
        in_range ?lo4 ?hi4 c1 \<and> in_range 128 191 c2 \<and> in_range 128 191 c3 \<and> utf8_valid r | _ \<Rightarrow> False)"
      by (simp_all only: utf8_first.simps utf8_valid.simps if_True if_False)
    show ?thesis unfolding f v
      by (cases bs; cases "tl bs"; cases "tl (tl bs)") (simp_all add: utf8_second_def numeral_2_eq_2)
  next
    case bad
    then show ?thesis by (simp add: utf8_first.simps utf8_valid.simps(2))
  qed
qed

lemma utf8_valid_iff_rest: "utf8_valid bs \<longleftrightarrow> utf8_rest bs = []"
proof (induction bs rule: utf8_split.induct)
  case (1 bs)
  show ?case
  proof (cases bs)
    case (Cons b q)
    show ?thesis
    proof (cases "utf8_first bs")
      case (Scalar c r)
      then have "utf8_rest bs = utf8_rest r"
        using Cons by (simp add: utf8_rest_def utf8_split.simps [of "b # q"] split: prod.splits)
      moreover have "utf8_valid r \<longleftrightarrow> utf8_rest r = []" using 1 Scalar Cons by (auto split: prod.splits)
      ultimately show ?thesis using utf8_first_valid [of b q] Scalar Cons by simp
    qed (use Cons utf8_first_valid [of b q] in \<open>auto simp: utf8_rest_def utf8_split.simps [of "b # q"]\<close>)
  qed (simp add: utf8_rest_def)
qed

lemma valid_text_chars: "utf8_valid bs \<Longrightarrow> utf8_text (chars bs) = bs"
  using text_chars [of bs] utf8_valid_iff_rest [of bs] by simp

lemma utf8_valid_text [simp]: "list_all is_scalar cs \<Longrightarrow> utf8_valid (utf8_text cs)"
  using utf8_split_encode [of cs "[]"] by (simp add: utf8_valid_iff_rest utf8_rest_def)

lemma utf8_validE:
  assumes "utf8_valid bs"
  obtains cs where "bs = utf8_text cs" "list_all is_scalar cs"
  using valid_text_chars [OF assms] chars_scalar [of bs] that by metis

lemma utf8_valid_append: "utf8_valid a \<Longrightarrow> utf8_valid (a @ b) \<longleftrightarrow> utf8_valid b"
  by (elim utf8_validE) (simp add: utf8_valid_iff_rest utf8_rest_def utf8_split_encode split: prod.splits)

subsection \<open>Incomplete sequences\<close>

lemma utf8_lead_cases:
  obtains (one) "\<And>q. utf8_first (b # q) = Scalar (unat b) q"
  | (two) v where "\<And>q. utf8_first (b # q) = utf8_tail 1 v q"
  | (more) lo hi n v where "n \<le> 2" "128 \<le> lo" "hi \<le> 191" "\<And>q. utf8_first (b # q) = utf8_second lo hi n v q"
  | (bad) "\<And>q. utf8_first (b # q) = Malformed"
proof -
  have three: "in_range 224 239 b \<Longrightarrow> \<not> in_range 194 223 b \<Longrightarrow> \<not> in_range 0 127 b \<Longrightarrow> thesis"
    by (rule more [of 1 "if b = 224 then 160 else 128" "if b = 237 then 159 else 191" "unat b mod 16"])
      (simp_all only: utf8_first.simps if_True if_False, simp_all)
  have four: "in_range 240 244 b \<Longrightarrow> \<not> in_range 224 239 b \<Longrightarrow> \<not> in_range 194 223 b \<Longrightarrow> \<not> in_range 0 127 b \<Longrightarrow> thesis"
    by (rule more [of 2 "if b = 240 then 144 else 128" "if b = 244 then 143 else 191" "unat b mod 8"])
      (simp_all only: utf8_first.simps if_True if_False, simp_all)
  show thesis
    by (cases "in_range 0 127 b"; cases "in_range 194 223 b"; cases "in_range 224 239 b"; cases "in_range 240 244 b")
      (use three four one two bad in \<open>simp_all only: utf8_first.simps if_True if_False not_False_eq_True\<close>)
qed

lemma utf8_tail_Incomplete: "utf8_tail n v bs = Incomplete \<Longrightarrow> length bs < n"
  by (induction n v bs rule: utf8_tail.induct) (auto split: if_splits)

lemma utf8_second_Incomplete: "utf8_second lo hi n v bs = Incomplete \<Longrightarrow> length bs \<le> n"
  by (cases bs) (auto simp: utf8_second_def dest: utf8_tail_Incomplete split: if_splits)

lemma incomplete_short: "utf8_first bs = Incomplete \<Longrightarrow> length bs \<le> 3"
proof (cases bs)
  case (Cons b q)
  assume "utf8_first bs = Incomplete"
  then show ?thesis unfolding Cons
    by (cases rule: utf8_lead_cases [of b]) (auto dest: utf8_tail_Incomplete utf8_second_Incomplete)
qed simp

lemma utf8_tail_append:
  "utf8_tail n v bs \<noteq> Incomplete \<Longrightarrow> utf8_tail n v (bs @ r)
    = (case utf8_tail n v bs of Scalar c q \<Rightarrow> Scalar c (q @ r) | x \<Rightarrow> x)"
  by (induction n v bs rule: utf8_tail.induct) auto

lemma utf8_second_append:
  "utf8_second lo hi n v bs \<noteq> Incomplete \<Longrightarrow> utf8_second lo hi n v (bs @ r)
    = (case utf8_second lo hi n v bs of Scalar c q \<Rightarrow> Scalar c (q @ r) | x \<Rightarrow> x)"
  by (cases bs) (auto simp: utf8_second_def utf8_tail_append split: if_splits)

text \<open>More input does not change a decision the decoder has already made.\<close>

lemma utf8_first_append:
  assumes "utf8_first bs \<noteq> Incomplete"
  shows "utf8_first (bs @ r) = (case utf8_first bs of Scalar c q \<Rightarrow> Scalar c (q @ r) | x \<Rightarrow> x)"
proof (cases bs)
  case Nil
  with assms show ?thesis by (simp add: utf8_first.simps)
next
  case (Cons b q)
  show ?thesis using assms unfolding Cons append_Cons
    by (cases rule: utf8_lead_cases [of b]) (simp_all add: utf8_tail_append utf8_second_append)
qed

lemma malformed_append: "utf8_first bs = Malformed \<Longrightarrow> utf8_first (bs @ r) = Malformed"
  by (simp add: utf8_first_append)

lemma utf8_tail_lead:
  "utf8_tail n v q = Incomplete \<Longrightarrow> \<not> in_range 128 191 b \<Longrightarrow> utf8_tail n v (q @ b # r) = Malformed"
  by (induction n v q rule: utf8_tail.induct) (auto split: if_splits)

lemma utf8_second_lead:
  assumes "utf8_second lo hi n v q = Incomplete" and "\<not> in_range 128 191 b" and "128 \<le> lo" and "hi \<le> 191"
  shows "utf8_second lo hi n v (q @ b # r) = Malformed"
proof (cases q)
  case Nil
  have "\<not> in_range lo hi b" using assms(2-4) by (auto simp: in_range_def)
  then show ?thesis using Nil by (simp add: utf8_second_def)
qed (use assms(1,2) in \<open>auto simp: utf8_second_def utf8_tail_lead split: if_splits\<close>)

lemma incomplete_then_lead:
  assumes "utf8_first q = Incomplete" and "q \<noteq> []" and "\<not> in_range 128 191 b"
  shows "utf8_first (q @ b # r) = Malformed"
proof (cases q)
  case (Cons c q')
  show ?thesis using assms(1) unfolding Cons append_Cons
    by (cases rule: utf8_lead_cases [of c]) (simp_all add: utf8_tail_lead utf8_second_lead assms(3))
qed (use assms(2) in simp)

text \<open>A prefix of valid text is valid up to an incomplete last character.\<close>

lemma prefix_of_valid:
  assumes "utf8_valid (bs @ r)"
  shows "utf8_rest bs = [] \<or> utf8_first (utf8_rest bs) = Incomplete"
proof (rule ccontr)
  assume bad: "\<not> ?thesis"
  let ?q = "utf8_rest bs"
  have "utf8_valid (utf8_text (chars bs) @ ?q @ r)" using assms text_chars [of bs] by (metis append.assoc)
  then have v: "utf8_valid (?q @ r)" using utf8_valid_append [OF utf8_valid_text [OF chars_scalar]] by blast
  have "utf8_split ?q = ([], ?q, snd (snd (utf8_split bs)))"
    using utf8_split_rest [of bs "chars bs" ?q "snd (snd (utf8_split bs))"] by (simp add: chars_def utf8_rest_def)
  then have "\<nexists>c s. utf8_first ?q = Scalar c s" using bad
    by (auto simp: utf8_split.simps [of ?q] split: prod.splits)
  then have "utf8_first ?q = Malformed" using bad by (cases "utf8_first ?q") auto
  then have "utf8_first (?q @ r) = Malformed" by (rule malformed_append)
  then show False using v bad utf8_first_valid [of "hd ?q" "tl ?q @ r"] by (cases ?q) auto
qed

text \<open>A text cut before a character is cut into texts.\<close>

lemma cut_before_lead:
  assumes "utf8_valid (a @ b # r)" and "\<not> in_range 128 191 b"
  shows "utf8_valid a"
proof (rule ccontr)
  assume "\<not> utf8_valid a"
  then have ne: "utf8_rest a \<noteq> []" by (simp add: utf8_valid_iff_rest)
  then have "utf8_first (utf8_rest a) = Incomplete" using prefix_of_valid [OF assms(1)] by simp
  then have bad: "utf8_first (utf8_rest a @ b # r) = Malformed" using incomplete_then_lead ne assms(2) by blast
  have "utf8_valid (utf8_text (chars a) @ utf8_rest a @ b # r)" using assms(1) text_chars [of a] by (metis append.assoc)
  then have "utf8_valid (utf8_rest a @ b # r)" using utf8_valid_append [OF utf8_valid_text [OF chars_scalar]] by blast
  then show False using bad ne utf8_first_valid [of "hd (utf8_rest a)" "tl (utf8_rest a) @ b # r"]
    by (cases "utf8_rest a") auto
qed

subsection \<open>Lossy conversion\<close>

text \<open>\<open>String::from_utf8_lossy\<close>: each maximal invalid part (a truncated sequence, or one byte) becomes
  U+FFFD.\<close>

definition invalid_len :: "bytes \<Rightarrow> nat" where
  "invalid_len bs =
     (if utf8_first (take 3 bs) = Incomplete then 3
      else if utf8_first (take 2 bs) = Incomplete then 2 else 1)"

function from_utf8_lossy :: "bytes \<Rightarrow> bytes" where
  "from_utf8_lossy bs =
     (if bs = [] then []
      else case utf8_first bs of
          Scalar c r \<Rightarrow> utf8_encode c @ from_utf8_lossy r
        | _ \<Rightarrow> utf8_encode 0xFFFD @ from_utf8_lossy (drop (invalid_len bs) bs))"
  by pat_completeness auto
termination
  by (relation "measure length") (auto dest: utf8_first_shorter simp: invalid_len_def)

declare from_utf8_lossy.simps [simp del]

lemma lossy_Nil [simp]: "from_utf8_lossy [] = []"
  by (simp add: from_utf8_lossy.simps)

lemma lossy_encode: "is_scalar c \<Longrightarrow> from_utf8_lossy (utf8_encode c @ r) = utf8_encode c @ from_utf8_lossy r"
  by (subst from_utf8_lossy.simps) (simp add: utf8_first_encode)

lemma lossy_text: "list_all is_scalar cs \<Longrightarrow> from_utf8_lossy (utf8_text cs @ r) = utf8_text cs @ from_utf8_lossy r"
  by (induction cs) (simp_all add: lossy_encode)

lemma lossy_append: "utf8_valid a \<Longrightarrow> from_utf8_lossy (a @ b) = a @ from_utf8_lossy b"
  by (elim utf8_validE) (simp add: lossy_text)

lemma lossy_valid: "utf8_valid a \<Longrightarrow> from_utf8_lossy a = a"
  using lossy_append [of a "[]"] by simp

lemma valid_lossy: "utf8_valid (from_utf8_lossy bs)"
proof (induction bs rule: from_utf8_lossy.induct)
  case (1 bs)
  have enc: "utf8_valid (utf8_encode c @ r) \<longleftrightarrow> utf8_valid r" if "is_scalar c" for c r
    using utf8_valid_append [of "utf8_text [c]" r] utf8_valid_text [of "[c]"] that by simp
  have "is_scalar 0xFFFD" by (simp add: is_scalar_def)
  then show ?case
    using 1 by (subst from_utf8_lossy.simps)
      (auto simp: enc split: utf8_head.splits intro: enc [THEN iffD2, OF utf8_first_Scalar [THEN conjunct1]])
qed

subsection \<open>Searching and replacing\<close>

definition starts_with :: "bytes \<Rightarrow> bytes \<Rightarrow> bool" where
  "starts_with p s \<longleftrightarrow> take (length p) s = p"

fun str_find :: "bytes \<Rightarrow> bytes \<Rightarrow> nat option" where
  "str_find p [] = (if p = [] then Some 0 else None)"
| "str_find p (b # s) = (if starts_with p (b # s) then Some 0 else map_option Suc (str_find p s))"

function str_replace :: "bytes \<Rightarrow> bytes \<Rightarrow> bytes \<Rightarrow> bytes" where
  "str_replace p r s =
     (if s = [] then []
      else if p \<noteq> [] \<and> starts_with p s then r @ str_replace p r (drop (length p) s)
      else hd s # str_replace p r (tl s))"
  by pat_completeness auto
termination
  by (relation "measure (\<lambda>(p, r, s). length s)") auto

declare str_replace.simps [simp del]

lemma starts_with_append [simp]: "starts_with p (p @ s)"
  by (simp add: starts_with_def)

lemma starts_with_split: "starts_with p s \<Longrightarrow> s = p @ drop (length p) s"
  by (metis append_take_drop_id starts_with_def)

lemma str_find_split:
  "str_find p s = Some i \<Longrightarrow> i \<le> length s \<and> s = take i s @ p @ drop (i + length p) s"
proof (induction s arbitrary: i)
  case (Cons b s)
  then show ?case
    by (auto split: if_splits dest: starts_with_split)
qed (auto split: if_splits)

lemma str_replace_Nil [simp]: "str_replace p r [] = []"
  by (simp add: str_replace.simps)

lemma str_replace_skip:
  assumes "\<forall>x\<in>set bs. x \<noteq> hd p" and "p \<noteq> []"
  shows "str_replace p r (bs @ s) = bs @ str_replace p r s"
  using assms(1)
proof (induction bs)
  case (Cons b bs)
  then have "\<not> starts_with p (b # bs @ s)" using assms(2) by (cases p) (auto simp: starts_with_def)
  then show ?case using Cons by (subst str_replace.simps) simp
qed simp

lemma utf8_encode_bytes:
  "is_scalar c \<Longrightarrow> \<forall>x\<in>set (tl (utf8_encode c)). in_range 128 191 x"
  "is_scalar c \<Longrightarrow> \<not> in_range 128 191 (hd (utf8_encode c))"
  by (auto simp: utf8_encode_def is_scalar_def in_range_byte in_range_of_nat simp del: of_nat_add)

lemma cut_around:
  assumes "utf8_valid (a @ p @ r)" and "utf8_valid p" and "p \<noteq> []"
  shows "utf8_valid a" and "utf8_valid r"
proof -
  obtain cs where cs: "p = utf8_text cs" "list_all is_scalar cs" using assms(2) by (rule utf8_validE)
  then obtain c cs' where c: "cs = c # cs'" "is_scalar c" using assms(3) by (cases cs) auto
  obtain b bs where b: "utf8_encode c = b # bs" using utf8_encode_Cons by metis
  have "\<not> in_range 128 191 b" using utf8_encode_bytes(2) [OF c(2)] b by simp
  then show a: "utf8_valid a"
    using cut_before_lead [of a b "bs @ utf8_text cs' @ r"] assms(1) cs(1) c(1) b by simp
  have "utf8_valid (a @ p)" using a assms(2) by (simp add: utf8_valid_append)
  then show "utf8_valid r" using utf8_valid_append [of "a @ p" r] assms(1) by simp
qed

text \<open>Replacing one character by a text, on texts: no occurrence straddles two characters.\<close>

lemma str_replace_encode:
  assumes "is_scalar c" and "is_scalar d"
  shows "str_replace (utf8_encode d) r (utf8_encode c @ s)
    = (if c = d then r else utf8_encode c) @ str_replace (utf8_encode d) r s"
proof (cases "c = d")
  case True
  then show ?thesis by (subst str_replace.simps) simp
next
  case False
  have "\<not> starts_with (utf8_encode d) (utf8_encode c @ s)"
  proof
    assume "starts_with (utf8_encode d) (utf8_encode c @ s)"
    then obtain q where "utf8_encode c @ s = utf8_encode d @ q" using starts_with_split by metis
    then show False using utf8_first_encode [OF assms(1), of s] utf8_first_encode [OF assms(2), of q] False by simp
  qed
  moreover obtain b bs where e: "utf8_encode c = b # bs" using utf8_encode_Cons by metis
  moreover have "\<forall>x\<in>set bs. x \<noteq> hd (utf8_encode d)"
    using utf8_encode_bytes(1) [OF assms(1)] utf8_encode_bytes(2) [OF assms(2)] e by auto
  ultimately show ?thesis using False str_replace_skip [of bs "utf8_encode d" r s]
    by (subst str_replace.simps) simp
qed

lemma str_replace_text:
  "list_all is_scalar cs \<Longrightarrow> is_scalar d \<Longrightarrow> str_replace (utf8_encode d) (utf8_encode e) (utf8_text cs @ s)
    = utf8_text (map (\<lambda>c. if c = d then e else c) cs) @ str_replace (utf8_encode d) (utf8_encode e) s"
  by (induction cs) (simp_all add: str_replace_encode)

lemma str_replace_append:
  assumes "utf8_valid a" and "is_scalar d"
  shows "str_replace (utf8_encode d) (utf8_encode e) (a @ b)
    = str_replace (utf8_encode d) (utf8_encode e) a @ str_replace (utf8_encode d) (utf8_encode e) b"
  using assms(1)
proof (rule utf8_validE)
  fix cs assume cs: "a = utf8_text cs" "list_all is_scalar cs"
  show ?thesis using str_replace_text [OF cs(2) assms(2), of e b] str_replace_text [OF cs(2) assms(2), of e "[]"] cs(1)
    by simp
qed

end
