(* ===== verification/Token_Matcher.thy ===== *)
theory Token_Matcher
  imports Grammar_Matcher Utf8_Text
begin

section \<open>Grammar-constrained decoding: bytes and tokens\<close>

text \<open>
  \<open>crates/muser-server/src/grammar.rs\<close>, the part of the matcher that reads sampled tokens: a token
  either matches a token terminal as a whole or contributes bytes, and bytes that end inside a UTF-8
  sequence stay pending. UTF-8 is that of \<open>Utf8_Text\<close>.

  Shown here: the code point range computed for an incomplete sequence is exactly the set of its
  completions, and the matcher accepts exactly the token sequences one of whose readings is a sentence
  of the grammar.
\<close>

declare utf8_first.simps [simp]

subsection \<open>Accepting bytes on a branch\<close>

fun accept_chars :: "grammar \<Rightarrow> match_branch \<Rightarrow> nat list \<Rightarrow> match_error + match_branch" where
  "accept_chars g branch [] = Inr branch"
| "accept_chars g branch (c # cs) =
     (case accept_char g branch c of Inl err \<Rightarrow> Inl err | Inr branch' \<Rightarrow> accept_chars g branch' cs)"

definition lead_parameters :: "u8 \<Rightarrow> (nat \<times> nat \<times> nat) option" where
  "lead_parameters lead =
     (if in_range 0xC2 0xDF lead then Some (2, unat lead mod 32, 0x80)
      else if in_range 0xE0 0xEF lead then Some (3, unat lead mod 16, 0x800)
      else if in_range 0xF0 0xF4 lead then Some (4, unat lead mod 8, 0x10000)
      else None)"

definition clip_surrogates :: "nat \<Rightarrow> nat \<Rightarrow> nat \<times> nat" where
  "clip_surrogates lower upper =
     (if lower \<le> 0xDFFF \<and> upper \<ge> 0xD800
      then if lower < 0xD800 then (lower, 0xD7FF) else (0xE000, upper)
      else (lower, upper))"

text \<open>Shifts and unions of disjoint bits are written as multiplications and sums; the values stay
  far below \<open>u32::MAX\<close>.\<close>

definition incomplete_utf8_scalar_range :: "bytes \<Rightarrow> (nat \<times> nat) option" where
  "incomplete_utf8_scalar_range bs = (case bs of
      [] \<Rightarrow> None
    | lead # continuations \<Rightarrow>
        (case lead_parameters lead of
           None \<Rightarrow> None
         | Some (len, start, minimum) \<Rightarrow>
             if length bs \<ge> len \<or> list_ex (\<lambda>b. \<not> in_range 0x80 0xBF b) continuations then None
             else
               let value = foldl (\<lambda>v b. v * 64 + continuation b) start continuations;
                   remaining = len - length bs;
                   lower = max (value * 64 ^ remaining) minimum;
                   upper = min (value * 64 ^ remaining + (64 ^ remaining - 1)) 0x10FFFF
               in case clip_surrogates lower upper of
                    (l, u) \<Rightarrow> if l \<le> u then Some (l, u) else None))"

definition frontier_accepts_range :: "grammar \<Rightarrow> match_branch \<Rightarrow> nat \<Rightarrow> nat \<Rightarrow> bool" where
  "frontier_accepts_range g branch lower upper \<longleftrightarrow> chart branch \<noteq> [] \<and>
     (\<exists>x\<in>last (chart branch). case next_symbol g x of
         Some (Character cs) \<Rightarrow> charset_intersects cs lower upper | _ \<Rightarrow> False)"

text \<open>The loop of \<open>accept_bytes\<close> on the pending bytes. The range test reads the production of the
  frontier items; an index out of range there panics, whichever item the walk meets first.\<close>

lemma accept_char_pending: "accept_char g branch c = Inr branch' \<Longrightarrow> pending_utf8 branch' = pending_utf8 branch"
  by (auto simp: accept_char_def scan_frontier_def Let_def split: if_splits option.splits)

lemma accept_chars_pending:
  "accept_chars g branch cs = Inr branch' \<Longrightarrow> pending_utf8 branch' = pending_utf8 branch"
  by (induction cs arbitrary: branch) (auto split: sum.splits dest: accept_char_pending)

function accept_pending :: "grammar \<Rightarrow> match_branch \<Rightarrow> match_error + match_branch" where
  "accept_pending g branch =
     (case utf8_split (pending_utf8 branch) of (characters, rest, incomplete) \<Rightarrow>
        if rest = [] then accept_chars g (branch\<lparr>pending_utf8 := []\<rparr>) characters
        else if characters \<noteq> [] then
          (case accept_chars g (branch\<lparr>pending_utf8 := rest\<rparr>) characters of
             Inl err \<Rightarrow> Inl err
           | Inr branch' \<Rightarrow> accept_pending g branch')
        else if \<not> incomplete \<or> length (pending_utf8 branch) > 3 then Inl InvalidUtf8
        else
          (case incomplete_utf8_scalar_range (pending_utf8 branch) of
             None \<Rightarrow> Inl InvalidUtf8
           | Some (lower, upper) \<Rightarrow>
               if chart branch \<noteq> [] \<and> (\<exists>x\<in>last (chart branch). item_production x \<ge> length (productions g))
               then Inl MatcherPanic
               else if frontier_accepts_range g branch lower upper then Inr branch
               else Inl IncompleteRejected))"
  by pat_completeness auto
termination
  by (relation "measure (\<lambda>(g, branch). length (pending_utf8 branch))")
    (auto dest!: accept_chars_pending simp: utf8_split_rest [OF sym])

declare accept_pending.simps [simp del]

definition accept_bytes :: "grammar \<Rightarrow> match_branch \<Rightarrow> bytes \<Rightarrow> match_error + match_branch" where
  "accept_bytes g branch bs = accept_pending g (branch\<lparr>pending_utf8 := pending_utf8 branch @ bs\<rparr>)"

subsection \<open>The range of an incomplete sequence\<close>

lemma block_iff:
  assumes "0 < (m::nat)"
  shows "(\<exists>t. a \<le> t \<and> t < b \<and> t * m \<le> c \<and> c < (t + 1) * m) \<longleftrightarrow> a * m \<le> c \<and> c < b * m"
proof
  assume "\<exists>t. a \<le> t \<and> t < b \<and> t * m \<le> c \<and> c < (t + 1) * m"
  then obtain t where t: "a \<le> t" "t + 1 \<le> b" "t * m \<le> c" "c < (t + 1) * m" by auto
  from t(1) have "a * m \<le> t * m" by (rule mult_le_mono1)
  moreover from t(2) have "(t + 1) * m \<le> b * m" by (rule mult_le_mono1)
  ultimately show "a * m \<le> c \<and> c < b * m" using t by linarith
next
  assume c: "a * m \<le> c \<and> c < b * m"
  have "c div m * m \<le> c" "c < (c div m + 1) * m"
    using assms dividend_less_div_times [of m c] by (simp_all add: algebra_simps)
  moreover have "a \<le> c div m" "c div m < b"
    using c assms by (simp_all add: less_eq_div_iff_mult_less_eq div_less_iff_less_mult)
  ultimately show "\<exists>t. a \<le> t \<and> t < b \<and> t * m \<le> c \<and> c < (t + 1) * m" by blast
qed

lemma utf8_second_range:
  assumes lo: "128 \<le> lo" "lo \<le> hi" "hi < 192"
    and tail: "\<And>v. (\<exists>q r. utf8_tail n v q = Scalar c r) \<longleftrightarrow> v * 64 ^ n \<le> c \<and> c < (v + 1) * 64 ^ n"
  shows "(\<exists>q r. utf8_second lo hi n v q = Scalar c r)
    \<longleftrightarrow> (v * 64 + (lo - 128)) * 64 ^ n \<le> c \<and> c < (v * 64 + (hi - 127)) * 64 ^ n"
proof -
  have "(\<exists>q r. utf8_second lo hi n v q = Scalar c r)
      \<longleftrightarrow> (\<exists>b. in_range lo hi b \<and> (\<exists>q r. utf8_tail n (v * 64 + continuation b) q = Scalar c r))"
  proof
    assume "\<exists>q r. utf8_second lo hi n v q = Scalar c r"
    then obtain q r where "utf8_second lo hi n v q = Scalar c r" by blast
    then show "\<exists>b. in_range lo hi b \<and> (\<exists>q r. utf8_tail n (v * 64 + continuation b) q = Scalar c r)"
      by (cases q) (auto simp: utf8_second_def split: if_splits)
  next
    assume "\<exists>b. in_range lo hi b \<and> (\<exists>q r. utf8_tail n (v * 64 + continuation b) q = Scalar c r)"
    then obtain b q r where "in_range lo hi b" "utf8_tail n (v * 64 + continuation b) q = Scalar c r" by blast
    then have "utf8_second lo hi n v (b # q) = Scalar c r" by (simp add: utf8_second_def)
    then show "\<exists>q r. utf8_second lo hi n v q = Scalar c r" by blast
  qed
  also have "\<dots> \<longleftrightarrow> (\<exists>t. v * 64 + (lo - 128) \<le> t \<and> t < v * 64 + (hi - 127) \<and> t * 64 ^ n \<le> c \<and> c < (t + 1) * 64 ^ n)"
    unfolding tail
  proof (intro iffI; elim exE conjE)
    fix b assume b: "in_range lo hi b" "(v * 64 + continuation b) * 64 ^ n \<le> c"
      "c < (v * 64 + continuation b + 1) * 64 ^ n"
    have "lo - 128 \<le> continuation b" "continuation b < hi - 127"
      using b(1) lo continuation_in_range [OF b(1)] by (auto simp: in_range_def)
    then show "\<exists>t. v * 64 + (lo - 128) \<le> t \<and> t < v * 64 + (hi - 127) \<and> t * 64 ^ n \<le> c \<and> c < (t + 1) * 64 ^ n"
      using b by (intro exI [of _ "v * 64 + continuation b"]) simp
  next
    fix t assume t: "v * 64 + (lo - 128) \<le> t" "t < v * 64 + (hi - 127)" "t * 64 ^ n \<le> c" "c < (t + 1) * 64 ^ n"
    define k where "k = t - v * 64"
    have k: "k < 64" "lo \<le> 128 + k" "128 + k \<le> hi" "t = v * 64 + k" using t lo by (auto simp: k_def)
    then show "\<exists>b. in_range lo hi b \<and> (v * 64 + continuation b) * 64 ^ n \<le> c
        \<and> c < (v * 64 + continuation b + 1) * 64 ^ n"
      using t by (intro exI [of _ "of_nat (128 + k)"]) (simp add: continuation_byte in_range_byte del: of_nat_add)
  qed
  also have "\<dots> \<longleftrightarrow> (v * 64 + (lo - 128)) * 64 ^ n \<le> c \<and> c < (v * 64 + (hi - 127)) * 64 ^ n"
    by (rule block_iff) simp
  finally show ?thesis .
qed

lemma utf8_tail_range:
  "(\<exists>q r. utf8_tail n v q = Scalar c r) \<longleftrightarrow> v * 64 ^ n \<le> c \<and> c < (v + 1) * 64 ^ n"
proof (induction n arbitrary: v)
  case (Suc n)
  show ?case
    using utf8_second_range [of 128 191 n c v, OF _ _ _ Suc.IH]
    by (simp add: utf8_tail_Suc algebra_simps del: utf8_tail.simps)
qed auto

lemmas utf8_second_range' = utf8_second_range [OF _ _ _ utf8_tail_range]

definition completions :: "bytes \<Rightarrow> nat set" where
  "completions p = {v. \<exists>q r. utf8_first (p @ q) = Scalar v r}"

definition range_exact :: "bytes \<Rightarrow> bool" where
  "range_exact p \<longleftrightarrow> (\<exists>l u. incomplete_utf8_scalar_range p = Some (l, u) \<and> l \<le> u \<and> u \<le> 0x10FFFF \<and> completions p = {l..u})"

lemma range_exactI:
  assumes "incomplete_utf8_scalar_range p = Some (a, b - 1)" and "a < b" and "b \<le> 0x110000"
    and "\<And>v. (\<exists>q r. utf8_first (p @ q) = Scalar v r) \<longleftrightarrow> a \<le> v \<and> v < b"
  shows "range_exact p"
  unfolding range_exact_def
  by (rule exI [of _ a], rule exI [of _ "b - 1"]) (use assms in \<open>auto simp: completions_def\<close>)

lemma range_two:
  assumes "in_range 194 223 b"
  shows "range_exact [b]"
proof -
  define x where "x = unat b - 192"
  have x: "unat b = 192 + x" "2 \<le> x" "x < 32" and m: "unat b mod 32 = x"
    using assms by (auto simp: x_def in_range_def le_mod_geq)
  show ?thesis
  proof (rule range_exactI [of _ "x * 64" "(x + 1) * 64"])
    show "incomplete_utf8_scalar_range [b] = Some (x * 64, (x + 1) * 64 - 1)"
      using x m assms
      by (auto simp: incomplete_utf8_scalar_range_def lead_parameters_def clip_surrogates_def Let_def)
    show "(\<exists>q r. utf8_first ([b] @ q) = Scalar v r) \<longleftrightarrow> x * 64 \<le> v \<and> v < (x + 1) * 64" for v
      using utf8_tail_range [of 1 x v] assms m by (simp add: in_range_def)
  qed (use x in auto)
qed

lemma range_three_lead:
  assumes "in_range 224 239 b"
  shows "range_exact [b]"
proof -
  define x where "x = unat b - 224"
  have x: "unat b = 224 + x" "x < 16" and m: "unat b mod 16 = x"
    using assms by (auto simp: x_def in_range_def le_mod_geq)
  let ?lo = "if x = 0 then 160 else 128 :: nat" and ?hi = "if x = 13 then 159 else 191 :: nat"
  show ?thesis
  proof (rule range_exactI [of _ "(x * 64 + (?lo - 128)) * 64" "(x * 64 + (?hi - 127)) * 64"])
    show "incomplete_utf8_scalar_range [b] = Some ((x * 64 + (?lo - 128)) * 64, (x * 64 + (?hi - 127)) * 64 - 1)"
      using x m assms
      by (auto simp: incomplete_utf8_scalar_range_def lead_parameters_def clip_surrogates_def Let_def in_range_def)
        presburger
    have "?lo \<ge> 128" "?lo \<le> ?hi" "?hi < 192" by auto
    from utf8_second_range' [OF this, of 1]
    show "(\<exists>q r. utf8_first ([b] @ q) = Scalar v r) \<longleftrightarrow>
        (x * 64 + (?lo - 128)) * 64 \<le> v \<and> v < (x * 64 + (?hi - 127)) * 64" for v
      using x m by (simp add: in_range_def byte_eq_iff)
  qed (use x in auto)
qed

lemma range_four_lead:
  assumes "in_range 240 244 b"
  shows "range_exact [b]"
proof -
  define x where "x = unat b - 240"
  have x: "unat b = 240 + x" "x < 5" and m: "unat b mod 8 = x"
    using assms by (auto simp: x_def in_range_def le_mod_geq)
  let ?lo = "if x = 0 then 144 else 128 :: nat" and ?hi = "if x = 4 then 143 else 191 :: nat"
  show ?thesis
  proof (rule range_exactI [of _ "(x * 64 + (?lo - 128)) * 64 ^ 2" "(x * 64 + (?hi - 127)) * 64 ^ 2"])
    show "incomplete_utf8_scalar_range [b]
        = Some ((x * 64 + (?lo - 128)) * 64 ^ 2, (x * 64 + (?hi - 127)) * 64 ^ 2 - 1)"
      using x m assms
      by (auto simp: incomplete_utf8_scalar_range_def lead_parameters_def clip_surrogates_def Let_def in_range_def)
    have "?lo \<ge> 128" "?lo \<le> ?hi" "?hi < 192" by auto
    from utf8_second_range' [OF this, of 2]
    show "(\<exists>q r. utf8_first ([b] @ q) = Scalar v r) \<longleftrightarrow>
        (x * 64 + (?lo - 128)) * 64 ^ 2 \<le> v \<and> v < (x * 64 + (?hi - 127)) * 64 ^ 2" for v
      using x m by (simp add: in_range_def byte_eq_iff)
  qed (use x in auto)
qed

text \<open>Sequences with at least two bytes: the bounds of the second byte keep the value clear of the
  overlong forms, the surrogates and the values above U+10FFFF, so the clipping changes nothing.\<close>

lemma range_later:
  assumes lead: "lead_parameters b = Some (len, start, minimum)" and len: "Suc (length cs) < len"
    and conts: "list_all (in_range 128 191) cs"
    and val: "foldl (\<lambda>v b. v * 64 + continuation b) start cs = vl"
    and low: "minimum \<le> vl * 64 ^ (len - Suc (length cs))"
    and high: "(vl + 1) * 64 ^ (len - Suc (length cs)) \<le> 0x110000"
    and surrogates: "(vl + 1) * 64 ^ (len - Suc (length cs)) \<le> 0xD800 \<or> 0xE000 \<le> vl * 64 ^ (len - Suc (length cs))"
    and decode: "\<And>q. utf8_first (b # cs @ q) = utf8_tail (len - Suc (length cs)) vl q"
  shows "range_exact (b # cs)"
proof -
  define m :: nat where "m = 64 ^ (len - Suc (length cs))"
  have m: "0 < m" "(vl + 1) * m = vl * m + m" by (simp_all add: m_def)
  note bounds = low [folded m_def] high [folded m_def] surrogates [folded m_def]
  have "\<not> list_ex (\<lambda>b. \<not> in_range 0x80 0xBF b) cs" using conts by (simp add: list_ex_iff list_all_iff)
  then have "incomplete_utf8_scalar_range (b # cs)
      = (case clip_surrogates (max (vl * m) minimum) (min (vl * m + (m - 1)) 0x10FFFF) of
           (l, u) \<Rightarrow> if l \<le> u then Some (l, u) else None)"
    using lead len val by (simp add: incomplete_utf8_scalar_range_def Let_def m_def)
  also have "\<dots> = Some (vl * m, (vl + 1) * m - 1)"
  proof -
    have "max (vl * m) minimum = vl * m" "min (vl * m + (m - 1)) 0x10FFFF = (vl + 1) * m - 1"
      using bounds m by auto
    moreover have "clip_surrogates (vl * m) ((vl + 1) * m - 1) = (vl * m, (vl + 1) * m - 1)"
      using bounds(3) m by (auto simp: clip_surrogates_def)
    ultimately show ?thesis using m by simp
  qed
  finally show ?thesis
    by (rule range_exactI)
      (use m bounds(2) decode utf8_tail_range [of "len - Suc (length cs)" vl] in \<open>simp_all add: m_def\<close>)
qed

lemma range_three_second:
  assumes b: "in_range 224 239 b" and c: "in_range (if b = 224 then 160 else 128) (if b = 237 then 159 else 191) c"
  shows "range_exact [b, c]"
proof -
  define x y where "x = unat b - 224" and "y = unat c - 128"
  have x: "unat b = 224 + x" "x < 16" and m: "unat b mod 16 = x"
    using b by (auto simp: x_def in_range_def le_mod_geq)
  have cr: "in_range 128 191 c" and y: "unat c = 128 + y" "y < 64" "x = 0 \<longrightarrow> 32 \<le> y" "x = 13 \<longrightarrow> y < 32"
    using c x by (auto simp: y_def in_range_def byte_eq_iff split: if_splits)
  have k: "continuation c = y" using continuation_in_range [OF cr] y by simp
  show ?thesis
  proof (rule range_later [where len = 3 and start = x and minimum = "0x800" and vl = "x * 64 + y"])
    show "(x * 64 + y + 1) * 64 ^ (3 - Suc (length [c])) \<le> 0xD800
        \<or> 0xE000 \<le> (x * 64 + y) * 64 ^ (3 - Suc (length [c]))"
      using y x(2) by (cases "x = 13"; cases "x < 13") auto
    show "utf8_first (b # [c] @ q) = utf8_tail (3 - Suc (length [c])) (x * 64 + y) q" for q
      using b c m k by (simp add: in_range_def utf8_second_def)
  qed (use b cr k x y m in \<open>auto simp: lead_parameters_def in_range_def\<close>)
qed

lemma range_four_later:
  assumes b: "in_range 240 244 b" and c: "in_range (if b = 240 then 144 else 128) (if b = 244 then 143 else 191) c"
  shows "range_exact [b, c]" and "in_range 128 191 d \<Longrightarrow> range_exact [b, c, d]"
proof -
  define x y where "x = unat b - 240" and "y = unat c - 128"
  have x: "unat b = 240 + x" "x < 5" and m: "unat b mod 8 = x"
    using b by (auto simp: x_def in_range_def le_mod_geq)
  have cr: "in_range 128 191 c" and y: "unat c = 128 + y" "y < 64" "x = 0 \<longrightarrow> 16 \<le> y" "x = 4 \<longrightarrow> y < 16"
    using c x by (auto simp: y_def in_range_def byte_eq_iff split: if_splits)
  have k: "continuation c = y" using continuation_in_range [OF cr] y by simp
  have low: "16 \<le> x * 64 + y" using y by (cases "x = 0") auto
  have high: "x * 64 + y < 272" using y x(2) by (cases "x = 4") auto
  have lead: "lead_parameters b = Some (4, x, 0x10000)" using b m by (auto simp: lead_parameters_def in_range_def)
  have first: "utf8_first (b # c # q) = utf8_tail 2 (x * 64 + y) q" for q
    using b c m k by (simp add: in_range_def utf8_second_def)
  show "range_exact [b, c]"
    by (rule range_later [OF lead, where vl = "x * 64 + y"]) (use cr k low high first in auto)
  show "range_exact [b, c, d]" if d: "in_range 128 191 d"
  proof -
    define z where "z = continuation d"
    have z: "z < 64" by (simp add: z_def continuation_def)
    have "utf8_first (b # c # d # q) = utf8_tail 1 ((x * 64 + y) * 64 + z) q" for q
      using first d by (simp add: z_def numeral_2_eq_2)
    then show ?thesis
      by (intro range_later [OF lead, where vl = "(x * 64 + y) * 64 + z"])
        (use cr k low high z d in \<open>auto simp: z_def\<close>)
  qed
qed

lemma incomplete_shape:
  assumes "utf8_first p = Incomplete" and "p \<noteq> []"
  shows "length p \<le> 3" and "range_exact p"
proof -
  obtain b bs where p: "p = b # bs" using assms(2) by (cases p) auto
  note inc = assms(1) [unfolded p]
  consider (two) "in_range 194 223 b" | (three) "in_range 224 239 b" | (four) "in_range 240 244 b"
    using inc by (auto split: if_splits)
  then have "length p \<le> 3 \<and> range_exact p"
  proof cases
    case two
    then have "bs = []" using inc by (cases bs) (auto simp: in_range_def split: if_splits)
    then show ?thesis using range_two two p by simp
  next
    case three
    let ?lo = "if b = 224 then 160 else 128 :: nat" and ?hi = "if b = 237 then 159 else 191 :: nat"
    have "utf8_second ?lo ?hi 1 (unat b mod 16) bs = Incomplete" using inc three by (simp add: in_range_def)
    then have "bs = [] \<or> (\<exists>c. bs = [c] \<and> in_range ?lo ?hi c)"
      by (auto simp: utf8_second_def utf8_tail_Suc neq_Nil_conv simp del: utf8_tail.simps(2,3) split: list.splits if_splits)
    then show ?thesis using range_three_lead range_three_second three p by auto
  next
    case four
    let ?lo = "if b = 240 then 144 else 128 :: nat" and ?hi = "if b = 244 then 143 else 191 :: nat"
    have "utf8_second ?lo ?hi 2 (unat b mod 8) bs = Incomplete" using inc four by (simp add: in_range_def)
    then have "bs = [] \<or> (\<exists>c. bs = [c] \<and> in_range ?lo ?hi c)
        \<or> (\<exists>c d. bs = [c, d] \<and> in_range ?lo ?hi c \<and> in_range 128 191 d)"
      by (auto simp: utf8_second_def utf8_tail_Suc numeral_2_eq_2 simp del: utf8_tail.simps(2,3) split: list.splits if_splits)
    then show ?thesis using range_four_lead range_four_later four p by auto
  qed
  then show "length p \<le> 3" "range_exact p" by simp_all
qed

subsection \<open>Readings of a token sequence\<close>

text \<open>What the tokens read so far may stand for: a token is one event of a token terminal, when no
  bytes are pending, or its bytes join the pending ones and the complete characters become events.\<close>

definition read_token :: "nat \<times> bytes \<Rightarrow> event list \<times> bytes \<Rightarrow> (event list \<times> bytes) set" where
  "read_token = (\<lambda>(token, bs) (w, p).
     (if p = [] then {(w @ [TokenEvent token bs], [])} else {})
     \<union> (if bs = [] then {} else
          (case utf8_split (p @ bs) of (cs, rest, incomplete) \<Rightarrow>
             if rest \<noteq> [] \<and> \<not> incomplete then {} else {(w @ map CharEvent cs, rest)})))"

fun readings :: "(nat \<times> bytes) list \<Rightarrow> event list \<times> bytes \<Rightarrow> (event list \<times> bytes) set" where
  "readings [] r = {r}"
| "readings (t # ts) r = (\<Union>r'\<in>read_token t r. readings ts r')"

definition viable :: "grammar \<Rightarrow> event list \<times> bytes \<Rightarrow> bool" where
  "viable g r \<longleftrightarrow> (\<exists>ts w. (w, []) \<in> readings ts r \<and> language g w)"

lemma read_token_extends: "(w', p') \<in> read_token t (w, p) \<Longrightarrow> \<exists>v. w' = w @ v"
  by (auto simp: read_token_def split: if_splits prod.splits)

lemma readings_extends: "(w', p') \<in> readings ts (w, p) \<Longrightarrow> \<exists>v. w' = w @ v"
proof (induction ts arbitrary: w p)
  case (Cons t ts)
  then obtain w1 p1 where r: "(w1, p1) \<in> read_token t (w, p)" "(w', p') \<in> readings ts (w1, p1)" by auto
  from read_token_extends [OF r(1)] Cons.IH [OF r(2)] show ?case by auto
qed simp

lemma viable_continues: "viable g (w, p) \<Longrightarrow> \<exists>v. language g (w @ v)"
  by (metis readings_extends viable_def)

lemma completions_append: "completions (p @ q) \<subseteq> completions p"
  by (auto simp: completions_def)

lemma readings_complete:
  "p \<noteq> [] \<Longrightarrow> (w', []) \<in> readings ts (w, p) \<Longrightarrow> \<exists>v\<in>completions p. \<exists>rest. w' = w @ CharEvent v # rest"
proof (induction ts arbitrary: w p)
  case (Cons t ts)
  obtain token bs where t: "t = (token, bs)" by (cases t)
  obtain cs rest inc where sp: "utf8_split (p @ bs) = (cs, rest, inc)" by (metis prod_cases3)
  have r: "(w', []) \<in> readings ts (w @ map CharEvent cs, rest)"
    using Cons.prems t sp by (auto simp: read_token_def split: if_splits)
  show ?case
  proof (cases cs)
    case Nil
    then have rest: "rest = p @ bs" using utf8_split_rest [OF sp] by simp
    with Cons.IH [of rest w] r Nil Cons.prems(1) completions_append [of p bs] show ?thesis by fastforce
  next
    case (Cons v cs')
    then have "\<exists>r. utf8_first (p @ bs) = Scalar v r"
      using sp by (auto simp: utf8_split.simps [of "p @ bs"] split: utf8_head.splits prod.splits if_splits)
    then have "v \<in> completions p" by (auto simp: completions_def)
    with readings_extends [OF r] Cons show ?thesis by auto
  qed
qed simp

lemma accept_chars_events: "accept_chars g branch cs = accept_events g (map CharEvent cs) branch"
  by (induction cs arbitrary: branch) (auto simp: accept_event_def split: sum.splits)

lemma frontier_range_exact:
  assumes wf: "wf_grammar g" and ch: "chart_of g w (chart branch)" and lu: "l \<le> u" "u \<le> 0x10FFFF"
    and v: "v \<in> {l..u}" and no: "\<not> frontier_accepts_range g branch l u"
  shows "\<not> language g (w @ CharEvent v # rest)"
proof
  assume l: "language g (w @ CharEvent v # rest)"
  from language_frontier [OF wf ch this] obtain x s
    where x: "x \<in> last (chart branch)" "next_symbol g x = Some s" "event_symbol (CharEvent v) s" .
  then obtain cs where s: "s = Character cs" "charset_matches cs v"
    by (auto simp: character_symbol_def split: symbol.splits)
  have "x \<in> items_upto g (length w)"
    using chart_sound [OF wf ch, of "length w" x] x chart_last [OF ch] by (simp add: item_sound_def)
  from next_symbol_wf [OF wf this x(2)] s have "\<forall>(l, u)\<in>set (cs_ranges cs). l \<le> u"
    by (auto simp: wf_symbol_def list_all_iff)
  with lu have "charset_intersects cs l u \<longleftrightarrow> (\<exists>v. l \<le> v \<and> v \<le> u \<and> charset_matches cs v)"
    by (intro charset_intersects_iff) auto
  then have "charset_intersects cs l u" using s v by auto
  moreover have "chart branch \<noteq> []" using chart_last [OF ch] by auto
  ultimately show False using no x s by (force simp: frontier_accepts_range_def)
qed

lemma chart_productions_ok:
  assumes "wf_grammar g" "chart_of g w cells"
  shows "\<not> (cells \<noteq> [] \<and> (\<exists>x\<in>last cells. item_production x \<ge> length (productions g)))"
  using chart_sound [OF assms, of "length w"] chart_last [OF assms(2)]
  by (fastforce simp: item_sound_def items_upto_def)

text \<open>The end of the loop, when no complete character is left.\<close>

lemma accept_pending_rest:
  assumes wf: "wf_grammar g" and ch: "chart_of g w (chart branch)"
    and sp: "utf8_split (pending_utf8 branch) = ([], pending_utf8 branch, inc)" and ne: "pending_utf8 branch \<noteq> []"
  obtains (refused) err where "accept_pending g branch = Inl err" "err \<noteq> MatcherPanic"
      "\<not> inc \<or> \<not> viable g (w, pending_utf8 branch)"
  | (kept) "accept_pending g branch = Inr branch" "inc"
proof (cases inc)
  case False
  then show thesis using sp ne by (intro refused [of InvalidUtf8]) (simp_all add: accept_pending.simps)
next
  case True
  let ?p = "pending_utf8 branch"
  have inc: "utf8_first ?p = Incomplete" using sp ne True utf8_split_incomplete by simp
  from incomplete_shape [OF inc ne] obtain l u where len: "length ?p \<le> 3"
    and range: "incomplete_utf8_scalar_range ?p = Some (l, u)" "l \<le> u" "u \<le> 0x10FFFF" "completions ?p = {l..u}"
    by (auto simp: range_exact_def)
  have eq: "accept_pending g branch =
      (if frontier_accepts_range g branch l u then Inr branch else Inl IncompleteRejected)"
    using sp ne True len range(1) chart_productions_ok [OF wf ch]
    by (auto simp: accept_pending.simps [of g branch])
  show thesis
  proof (cases "frontier_accepts_range g branch l u")
    case False
    have "\<not> viable g (w, ?p)"
    proof
      assume "viable g (w, ?p)"
      then obtain ts w' where r: "(w', []) \<in> readings ts (w, ?p)" "language g w'" by (auto simp: viable_def)
      from readings_complete [OF ne r(1)] obtain v rest where "v \<in> {l..u}" "w' = w @ CharEvent v # rest"
        using range(4) by auto
      with frontier_range_exact [OF wf ch range(2,3) _ False] r(2) show False by simp
    qed
    with eq False show thesis by (intro refused [of IncompleteRejected]) simp_all
  qed (use eq True kept in simp)
qed

lemma accept_bytes_cases:
  assumes wf: "wf_grammar g" and ch: "chart_of g w (chart branch)"
    and sp: "utf8_split (pending_utf8 branch @ bs) = (cs, rest, inc)"
  obtains (refused) err where "accept_bytes g branch bs = Inl err" "err \<noteq> MatcherPanic"
      "rest \<noteq> [] \<and> \<not> inc \<or> \<not> viable g (w @ map CharEvent cs, rest)"
  | (advanced) branch' where "accept_bytes g branch bs = Inr branch'"
      "chart_of g (w @ map CharEvent cs) (chart branch')" "pending_utf8 branch' = rest" "rest = [] \<or> inc"
proof -
  let ?b = "branch\<lparr>pending_utf8 := pending_utf8 branch @ bs\<rparr>" and ?r = "branch\<lparr>pending_utf8 := rest\<rparr>"
  have ch': "chart_of g w (chart ?r)" using ch by simp
  have sp': "utf8_split rest = ([], rest, inc)" and cs: "cs = [] \<Longrightarrow> rest = pending_utf8 branch @ bs"
    using utf8_split_rest [OF sp] by auto
  have eq: "accept_bytes g branch bs = (case accept_events g (map CharEvent cs) ?r of
      Inl err \<Rightarrow> Inl err | Inr b \<Rightarrow> if rest = [] then Inr b else accept_pending g b)"
  proof (cases "cs = [] \<and> rest \<noteq> []")
    case True
    then show ?thesis using cs by (auto simp: accept_bytes_def)
  next
    case False
    then show ?thesis
      using sp by (auto simp: accept_bytes_def accept_pending.simps [of g ?b] accept_chars_events split: sum.splits)
  qed
  show thesis
  proof (cases rule: accept_events_cases [OF wf ch', of "map CharEvent cs"])
    case (1 err)
    then have "\<not> viable g (w @ map CharEvent cs, rest)" using viable_continues by fastforce
    with 1 eq show thesis by (intro refused [of err]) simp_all
  next
    case (2 b)
    show thesis
    proof (cases "rest = []")
      case True
      then show thesis using 2 eq by (intro advanced [of b]) simp_all
    next
      case False
      have p: "pending_utf8 b = rest" using 2(3) by simp
      show thesis
        by (cases rule: accept_pending_rest [OF wf 2(2), of inc])
          (use 2 eq False p sp' refused advanced in auto)
    qed
  qed
qed

subsection \<open>The matcher\<close>

record grammar_matcher =
  matcher_grammar :: grammar
  branches :: "match_branch list"

text \<open>\<open>GrammarMatcher::parse\<close> after the grammar text has been parsed.\<close>

definition new_matcher :: "grammar \<Rightarrow> match_error + grammar_matcher" where
  "new_matcher g = (case start_branch g of
      Inl err \<Rightarrow> Inl err | Inr branch \<Rightarrow> Inr \<lparr>matcher_grammar = g, branches = [branch]\<rparr>)"

text \<open>An attempt that returns an error is dropped, one that panics ends the call.\<close>

definition push_accepted :: "match_branch list \<Rightarrow> match_error + match_branch \<Rightarrow> match_branch list option" where
  "push_accepted accepted result = (case result of
      Inl err \<Rightarrow> if err = MatcherPanic then None else Some accepted
    | Inr branch \<Rightarrow> Some (if branch \<in> set accepted then accepted else accepted @ [branch]))"

definition token_attempts :: "grammar \<Rightarrow> nat \<Rightarrow> bytes \<Rightarrow> match_branch \<Rightarrow> (match_error + match_branch) list" where
  "token_attempts g token bs branch =
     (if pending_utf8 branch = [] then [accept_token_terminal g branch token bs] else [])
     @ (if bs \<noteq> [] then [accept_bytes g branch bs] else [])"

fun push_all :: "match_branch list \<Rightarrow> (match_error + match_branch) list \<Rightarrow> match_branch list option" where
  "push_all accepted [] = Some accepted"
| "push_all accepted (r # rs) =
     (case push_accepted accepted r of None \<Rightarrow> None | Some accepted' \<Rightarrow> push_all accepted' rs)"

definition keep_branches ::
  "grammar_matcher \<Rightarrow> match_error \<Rightarrow> (match_error + match_branch) list \<Rightarrow> match_error + grammar_matcher" where
  "keep_branches m refusal results = (case push_all [] results of
      None \<Rightarrow> Inl MatcherPanic
    | Some accepted \<Rightarrow> if accepted = [] then Inl refusal else Inr (m\<lparr>branches := accepted\<rparr>))"

definition accept_token :: "grammar_matcher \<Rightarrow> nat \<Rightarrow> bytes \<Rightarrow> match_error + grammar_matcher" where
  "accept_token m token bs =
     keep_branches m (TokenRejected token) (concat (map (token_attempts (matcher_grammar m) token bs) (branches m)))"

definition matcher_accept_bytes :: "grammar_matcher \<Rightarrow> bytes \<Rightarrow> match_error + grammar_matcher" where
  "matcher_accept_bytes m bs =
     keep_branches m BytesRejected (map (\<lambda>branch. accept_bytes (matcher_grammar m) branch bs) (branches m))"

definition allows_token :: "grammar_matcher \<Rightarrow> nat \<Rightarrow> bytes \<Rightarrow> bool" where
  "allows_token m token bs \<longleftrightarrow> \<not> isl (accept_token m token bs)"

definition allows_bytes :: "grammar_matcher \<Rightarrow> bytes \<Rightarrow> bool" where
  "allows_bytes m bs \<longleftrightarrow> \<not> isl (matcher_accept_bytes m bs)"

definition is_accepting :: "grammar_matcher \<Rightarrow> bool" where
  "is_accepting m \<longleftrightarrow> list_ex (branch_accepting (matcher_grammar m)) (branches m)"

definition has_pending_utf8 :: "grammar_matcher \<Rightarrow> bool" where
  "has_pending_utf8 m \<longleftrightarrow> list_ex (\<lambda>branch. pending_utf8 branch \<noteq> []) (branches m)"

fun accept_tokens :: "(nat \<times> bytes) list \<Rightarrow> grammar_matcher \<Rightarrow> match_error + grammar_matcher" where
  "accept_tokens [] m = Inr m"
| "accept_tokens ((token, bs) # ts) m =
     (case accept_token m token bs of Inl err \<Rightarrow> Inl err | Inr m' \<Rightarrow> accept_tokens ts m')"

definition match_tokens :: "grammar \<Rightarrow> (nat \<times> bytes) list \<Rightarrow> match_error + grammar_matcher" where
  "match_tokens g ts = (case new_matcher g of Inl err \<Rightarrow> Inl err | Inr m \<Rightarrow> accept_tokens ts m)"

lemma push_all_set:
  "Inl MatcherPanic \<notin> set rs \<Longrightarrow> \<exists>out. push_all acc rs = Some out \<and> set out = set acc \<union> {b. Inr b \<in> set rs}"
proof (induction rs arbitrary: acc)
  case (Cons r rs)
  then show ?case by (cases r) (fastforce simp: push_accepted_def)+
qed simp

subsection \<open>Correctness of the matcher\<close>

text \<open>The branches stand for the readings: every branch is one, and every reading that can still
  become a sentence has a branch.\<close>

definition stands_for :: "grammar \<Rightarrow> match_branch \<Rightarrow> event list \<times> bytes \<Rightarrow> bool" where
  "stands_for g branch r \<longleftrightarrow> pending_utf8 branch = snd r \<and> chart_of g (fst r) (chart branch)"

definition covers :: "grammar \<Rightarrow> (event list \<times> bytes) set \<Rightarrow> match_branch set \<Rightarrow> bool" where
  "covers g R B \<longleftrightarrow> (\<forall>b\<in>B. \<exists>r\<in>R. stands_for g b r) \<and> (\<forall>r\<in>R. viable g r \<longrightarrow> (\<exists>b\<in>B. stands_for g b r))"

lemma token_attempts_read:
  assumes wf: "wf_grammar g" and b: "stands_for g b r"
  shows "Inl MatcherPanic \<notin> set (token_attempts g token bs b)"
    and "covers g (read_token (token, bs) r) {b'. Inr b' \<in> set (token_attempts g token bs b)}"
proof -
  obtain w p where r: "r = (w, p)" by (cases r)
  have ch: "chart_of g w (chart b)" and p: "pending_utf8 b = p" using b r by (auto simp: stands_for_def)
  let ?T = "accept_token_terminal g b token bs" and ?C = "accept_bytes g b bs"
  have T: "?T \<noteq> Inl MatcherPanic" "p = [] \<Longrightarrow> covers g {(w @ [TokenEvent token bs], [])} {b'. Inr b' = ?T}"
  proof -
    have eq: "accept_event g (TokenEvent token bs) b = ?T" by (simp add: accept_event_def)
    show "?T \<noteq> Inl MatcherPanic" "p = [] \<Longrightarrow> covers g {(w @ [TokenEvent token bs], [])} {b'. Inr b' = ?T}"
      by (cases rule: accept_event_cases [OF wf ch, of "TokenEvent token bs"];
          use eq p viable_continues in \<open>fastforce simp: covers_def stands_for_def\<close>)+
  qed
  obtain cs rest inc where sp: "utf8_split (pending_utf8 b @ bs) = (cs, rest, inc)" by (metis prod_cases3)
  have C: "?C \<noteq> Inl MatcherPanic"
    "covers g (if rest \<noteq> [] \<and> \<not> inc then {} else {(w @ map CharEvent cs, rest)}) {b'. Inr b' = ?C}"
    by (cases rule: accept_bytes_cases [OF wf ch sp]; auto simp: covers_def stands_for_def)+
  show "Inl MatcherPanic \<notin> set (token_attempts g token bs b)"
    using T(1) C(1) by (auto simp: token_attempts_def)
  have un: "covers g (R \<union> R') (B \<union> B')" if "covers g R B" "covers g R' B'" for R R' B B'
    using that by (auto simp: covers_def)
  have empty: "covers g {} {}" by (simp add: covers_def)
  have A: "covers g (if p = [] then {(w @ [TokenEvent token bs], [])} else {}) (if p = [] then {b'. Inr b' = ?T} else {})"
    using T(2) empty by simp
  have B: "covers g (if bs = [] then {} else if rest \<noteq> [] \<and> \<not> inc then {} else {(w @ map CharEvent cs, rest)})
      (if bs \<noteq> [] then {b'. Inr b' = ?C} else {})"
    using C(2) empty by (cases "bs = []") simp_all
  have "{b'. Inr b' \<in> set (token_attempts g token bs b)}
      = (if p = [] then {b'. Inr b' = ?T} else {}) \<union> (if bs \<noteq> [] then {b'. Inr b' = ?C} else {})"
    using p by (auto simp: token_attempts_def)
  moreover have "read_token (token, bs) r = (if p = [] then {(w @ [TokenEvent token bs], [])} else {})
      \<union> (if bs = [] then {} else if rest \<noteq> [] \<and> \<not> inc then {} else {(w @ map CharEvent cs, rest)})"
    using sp p r by (simp add: read_token_def)
  ultimately show "covers g (read_token (token, bs) r) {b'. Inr b' \<in> set (token_attempts g token bs b)}"
    using un [OF A B] by simp
qed

lemma viable_step: "r' \<in> read_token t r \<Longrightarrow> viable g r' \<Longrightarrow> viable g r"
  unfolding viable_def by (metis UN_I readings.simps(2))

lemma covers_step:
  assumes wf: "wf_grammar g" and cov: "covers g R (set bs)"
  shows "covers g (\<Union>r\<in>R. read_token (token, bytes) r)
      {b'. Inr b' \<in> set (concat (map (token_attempts g token bytes) bs))}"
proof -
  note att = token_attempts_read(2) [OF wf, of _ _ token bytes]
  show ?thesis unfolding covers_def
  proof (intro conjI ballI impI)
    fix b' assume "b' \<in> {b'. Inr b' \<in> set (concat (map (token_attempts g token bytes) bs))}"
    then obtain b where b: "b \<in> set bs" "Inr b' \<in> set (token_attempts g token bytes b)" by auto
    with cov obtain r where r: "r \<in> R" "stands_for g b r" by (auto simp: covers_def)
    from att [OF r(2)] b(2) r(1) show "\<exists>r'\<in>\<Union>r\<in>R. read_token (token, bytes) r. stands_for g b' r'"
      by (fastforce simp: covers_def)
  next
    fix r' assume "r' \<in> (\<Union>r\<in>R. read_token (token, bytes) r)" and v: "viable g r'"
    then obtain r where r: "r \<in> R" "r' \<in> read_token (token, bytes) r" by auto
    with cov viable_step [OF r(2) v] obtain b where b: "b \<in> set bs" "stands_for g b r" by (auto simp: covers_def)
    from att [OF b(2)] r(2) v obtain b' where "Inr b' \<in> set (token_attempts g token bytes b)" "stands_for g b' r'"
      by (fastforce simp: covers_def)
    then show "\<exists>b'\<in>{b'. Inr b' \<in> set (concat (map (token_attempts g token bytes) bs))}. stands_for g b' r'"
      using b(1) by auto
  qed
qed

lemma keep_branches_cases:
  assumes "Inl MatcherPanic \<notin> set results" and "covers g R {b. Inr b \<in> set results}" and "refusal \<noteq> MatcherPanic"
  obtains (refused) "keep_branches m refusal results = Inl refusal" "\<And>r. r \<in> R \<Longrightarrow> \<not> viable g r"
  | (kept) m' where "keep_branches m refusal results = Inr m'" "matcher_grammar m' = matcher_grammar m"
      "covers g R (set (branches m'))"
proof -
  obtain out where out: "push_all [] results = Some out" "set out = {b. Inr b \<in> set results}"
    using push_all_set [OF assms(1), of "[]"] by auto
  show thesis
  proof (cases "out = []")
    case True
    then show thesis using out assms(2) by (intro refused) (auto simp: keep_branches_def covers_def)
  next
    case False
    then show thesis using out assms(2) by (intro kept [of "m\<lparr>branches := out\<rparr>"]) (auto simp: keep_branches_def)
  qed
qed

lemma accept_token_cases:
  assumes wf: "wf_grammar (matcher_grammar m)" and cov: "covers (matcher_grammar m) R (set (branches m))"
  obtains (refused) "accept_token m token bs = Inl (TokenRejected token)"
      "\<And>r r'. r \<in> R \<Longrightarrow> r' \<in> read_token (token, bs) r \<Longrightarrow> \<not> viable (matcher_grammar m) r'"
  | (accepted) m' where "accept_token m token bs = Inr m'" "matcher_grammar m' = matcher_grammar m"
      "covers (matcher_grammar m) (\<Union>r\<in>R. read_token (token, bs) r) (set (branches m'))"
proof -
  let ?g = "matcher_grammar m"
  let ?results = "concat (map (token_attempts ?g token bs) (branches m))"
  have "\<exists>r. stands_for ?g b r" if "b \<in> set (branches m)" for b
    using cov that unfolding covers_def by blast
  then have panic: "Inl MatcherPanic \<notin> set ?results" using token_attempts_read(1) [OF wf] by fastforce
  show thesis
    by (cases rule: keep_branches_cases [OF panic covers_step [OF wf cov], of "TokenRejected token" m])
      (use refused accepted in \<open>auto simp: accept_token_def\<close>)
qed

lemma readings_append: "readings (ts @ us) r = (\<Union>r'\<in>readings ts r. readings us r')"
  by (induction ts arbitrary: r) auto

lemma accept_tokens_correct:
  assumes "wf_grammar (matcher_grammar m)" and "covers (matcher_grammar m) R (set (branches m))"
  shows "case accept_tokens ts m of
      Inr m' \<Rightarrow> matcher_grammar m' = matcher_grammar m
        \<and> covers (matcher_grammar m) (\<Union>r\<in>R. readings ts r) (set (branches m'))
    | Inl err \<Rightarrow> err \<noteq> MatcherPanic \<and> (\<forall>r\<in>R. \<forall>r'\<in>readings ts r. \<not> viable (matcher_grammar m) r')"
  using assms
proof (induction ts arbitrary: m R)
  case (Cons t ts)
  obtain token bs where t: "t = (token, bs)" by (cases t)
  show ?case
  proof (cases rule: accept_token_cases [OF Cons.prems, of token bs])
    case 1
    have "\<not> viable (matcher_grammar m) r'" if "r \<in> R" "r' \<in> readings (t # ts) r" for r r'
    proof
      assume v: "viable (matcher_grammar m) r'"
      from that t obtain r1 where r1: "r1 \<in> read_token (token, bs) r" "r' \<in> readings ts r1" by auto
      from v obtain us w where "(w, []) \<in> readings us r'" "language (matcher_grammar m) w" by (auto simp: viable_def)
      with r1(2) have "viable (matcher_grammar m) r1"
        unfolding viable_def by (metis UN_I readings_append)
      with 1(2) [OF that(1) r1(1)] show False by simp
    qed
    then show ?thesis using 1(1) t by simp
  next
    case (2 m')
    have wf': "wf_grammar (matcher_grammar m')" using Cons.prems(1) 2(2) by simp
    have "(\<Union>r\<in>\<Union>r\<in>R. read_token (token, bs) r. readings ts r) = (\<Union>r\<in>R. readings (t # ts) r)" using t by auto
    then show ?thesis using Cons.IH [OF wf' 2(3) [folded 2(2)]] 2(1,2) t by (simp split: sum.splits)
  qed
qed auto

lemma is_accepting_iff:
  assumes wf: "wf_grammar (matcher_grammar m)" and c: "covers (matcher_grammar m) R (set (branches m))"
  shows "is_accepting m \<longleftrightarrow> (\<exists>w. (w, []) \<in> R \<and> language (matcher_grammar m) w)"
proof
  assume "is_accepting m"
  then obtain b where b: "b \<in> set (branches m)" "branch_accepting (matcher_grammar m) b"
    by (auto simp: is_accepting_def list_ex_iff)
  with c obtain w p where wp: "(w, p) \<in> R" "stands_for (matcher_grammar m) b (w, p)"
    unfolding covers_def by fastforce
  then have "p = [] \<and> language (matcher_grammar m) w"
    using b(2) chart_accepting_iff [OF wf, of w b] by (simp add: stands_for_def)
  with wp(1) show "\<exists>w. (w, []) \<in> R \<and> language (matcher_grammar m) w" by auto
next
  assume "\<exists>w. (w, []) \<in> R \<and> language (matcher_grammar m) w"
  then obtain w where w: "(w, []) \<in> R" "language (matcher_grammar m) w" by blast
  have "viable (matcher_grammar m) (w, [])" unfolding viable_def using w(2) by (metis insertI1 readings.simps(1))
  with c w(1) obtain b where b: "b \<in> set (branches m)" "stands_for (matcher_grammar m) b (w, [])"
    unfolding covers_def by blast
  then have "branch_accepting (matcher_grammar m) b"
    using chart_accepting_iff [OF wf, of w b] w(2) by (simp add: stands_for_def)
  with b(1) show "is_accepting m" by (auto simp: is_accepting_def list_ex_iff)
qed

lemma match_tokens_exact:
  assumes "wf_grammar g"
  shows "case match_tokens g ts of
      Inr m \<Rightarrow> is_accepting m \<longleftrightarrow> (\<exists>w. (w, []) \<in> readings ts ([], []) \<and> language g w)
    | Inl err \<Rightarrow> err \<noteq> MatcherPanic
        \<and> \<not> (\<exists>more w. (w, []) \<in> readings (ts @ more) ([], []) \<and> language g w)"
proof -
  obtain b where b: "start_branch g = Inr b" "chart_of g [] (chart b)" "pending_utf8 b = []"
    using start_branch_ok [OF assms] by blast
  let ?m = "\<lparr>matcher_grammar = g, branches = [b]\<rparr>"
  have new: "new_matcher g = Inr ?m" using b by (simp add: new_matcher_def)
  have cov: "covers (matcher_grammar ?m) {([], [])} (set (branches ?m))"
    using b by (simp add: covers_def stands_for_def)
  have wf: "wf_grammar (matcher_grammar ?m)" using assms by simp
  note result = accept_tokens_correct [OF wf cov, of ts]
  show ?thesis
  proof (cases "accept_tokens ts ?m")
    case (Inl err)
    then have "err \<noteq> MatcherPanic" "\<forall>r'\<in>readings ts ([], []). \<not> viable g r'" using result by auto
    then have "err \<noteq> MatcherPanic" "\<not> (\<exists>more w. (w, []) \<in> readings (ts @ more) ([], []) \<and> language g w)"
      unfolding viable_def readings_append by blast+
    with Inl new show ?thesis by (simp add: match_tokens_def)
  next
    case (Inr m)
    then have g: "matcher_grammar m = g" and c: "covers g (readings ts ([], [])) (set (branches m))"
      using result by auto
    with is_accepting_iff [of m "readings ts ([], [])"] assms Inr new show ?thesis by (simp add: match_tokens_def)
  qed
qed

text \<open>The code point range computed for a truncated UTF-8 sequence is exact: whenever the
  decoder reports that a non-empty sequence ends too early, the range exists, is not empty, stays
  within Unicode, and holds exactly the scalar values that some continuation of the bytes decodes to,
  so overlong forms, surrogates and values above U+10FFFF are all excluded.\<close>

theorem incomplete_range_exact:
  assumes "utf8_first p = Incomplete" and "p \<noteq> []"
  shows "\<exists>l u. incomplete_utf8_scalar_range p = Some (l, u) \<and> l \<le> u \<and> u \<le> 0x10FFFF
    \<and> {v. \<exists>q r. utf8_first (p @ q) = Scalar v r} = {l..u}"
  using incomplete_shape(2) [OF assms] by (simp add: range_exact_def completions_def)

theorem incomplete_range_exact_witness:
  "{v. \<exists>q r. utf8_first ([0xED] @ q) = Scalar v r} = {0xD000..0xD7FF}"
  using incomplete_range_exact [of "[0xED]"]
  by (simp add: in_range_def utf8_second_def incomplete_utf8_scalar_range_def lead_parameters_def clip_surrogates_def)

end
