(* ===== verification/Gbnf_Parser.thy ===== *)
theory Gbnf_Parser
  imports Token_Matcher
begin

section \<open>Grammar-constrained decoding: the GBNF parser\<close>

text \<open>
  \<open>crates/muser-server/src/grammar.rs\<close>, \<open>Parser\<close>: llama-style GBNF text to a \<^typ>\<open>grammar\<close>. The
  lexical routines only move the position, so they take and return it; the routines that allocate
  rules and productions pass the parser state. The mutually recursive descent \<open>expression\<close>,
  \<open>sequence\<close>, \<open>atom\<close> takes fuel, three units for each byte of the source that is left, which is shown
  to be enough: the fuel error is never returned.

  Shown here: the parser returns on every text, every grammar it returns is well formed, and so the
  matcher built from any accepted text decides that grammar's language; a repetition derives exactly
  the permitted numbers of copies of its body.
\<close>

datatype gbnf_error = ExpectedName nat | Expected bytes nat | UnexpectedEnd | UnknownRoot | UndefinedRule
  | TokenIdDigits | TokenIdOverflow | TokenCrossesLine | TokenEmpty | BadRepetition | ExpectedCommaOrBrace
  | UnterminatedLiteral | UnterminatedClass | DescendingRange | TrailingEscape | UnsupportedEscape u8
  | NotUtf8 | ShortHex | InvalidHex | NotScalar | ExpectedCount | InvalidCount | UnexpectedInput nat
  | ParserFuel

subsection \<open>Lexical routines\<close>

definition peek :: "bytes \<Rightarrow> nat \<Rightarrow> u8 option" where
  "peek src pos = get_at src pos"

text \<open>The loops \<open>while self.peek().is_some_and(p) { self.position += 1 }\<close>.\<close>

definition skip_while :: "(u8 \<Rightarrow> bool) \<Rightarrow> bytes \<Rightarrow> nat \<Rightarrow> nat" where
  "skip_while P src pos = pos + length (takeWhile P (drop pos src))"

definition is_horizontal :: "u8 \<Rightarrow> bool" where
  "is_horizontal b \<longleftrightarrow> b = 32 \<or> b = 9"

definition skip_horizontal :: "bytes \<Rightarrow> nat \<Rightarrow> nat" where
  "skip_horizontal = skip_while is_horizontal"

definition expect :: "bytes \<Rightarrow> bytes \<Rightarrow> nat \<Rightarrow> gbnf_error + nat" where
  "expect expected src pos =
     (if pos + length expected \<le> length src \<and> take (length expected) (drop pos src) = expected
      then Inr (pos + length expected) else Inl (Expected expected pos))"

lemma skip_while_ge: "pos \<le> skip_while P src pos"
  by (simp add: skip_while_def)

lemma skip_while_le: "pos \<le> length src \<Longrightarrow> skip_while P src pos \<le> length src"
proof -
  assume "pos \<le> length src"
  moreover have "length (takeWhile P (drop pos src)) \<le> length (drop pos src)" by (rule length_takeWhile_le)
  ultimately show ?thesis by (simp add: skip_while_def)
qed

lemma skip_while_gt: "pos < length src \<Longrightarrow> P (src ! pos) \<Longrightarrow> pos < skip_while P src pos"
  by (simp add: skip_while_def Cons_nth_drop_Suc [symmetric])

lemma peek_Some: "peek src pos = Some b \<longleftrightarrow> pos < length src \<and> src ! pos = b"
  by (auto simp: peek_def get_at_def)

lemma peek_None: "peek src pos = None \<longleftrightarrow> length src \<le> pos"
  by (auto simp: peek_def get_at_def)

function skip_layout :: "bool \<Rightarrow> bytes \<Rightarrow> nat \<Rightarrow> nat \<times> bool" where
  "skip_layout newlines src pos =
     (let p = skip_while (\<lambda>b. is_horizontal b \<or> newlines \<and> (b = 13 \<or> b = 10)) src pos
      in if peek src p = Some 35 then skip_layout newlines src (skip_while (\<lambda>b. b \<noteq> 10) src p)
         else (p, p < length src))"
  by pat_completeness auto
termination
proof (relation "measure (\<lambda>(newlines, src, pos). length src - pos)")
  fix newlines src pos p
  assume "p = skip_while (\<lambda>b. is_horizontal b \<or> newlines \<and> (b = 13 \<or> b = 10)) src pos" and "peek src p = Some 35"
  then have "pos \<le> p" "p < length src" "src ! p = 35" by (auto simp: skip_while_ge peek_Some)
  moreover from this have "p < skip_while (\<lambda>b. b \<noteq> 10) src p" by (intro skip_while_gt) auto
  ultimately show "((newlines, src, skip_while (\<lambda>b. b \<noteq> 10) src p), newlines, src, pos)
      \<in> measure (\<lambda>(newlines, src, pos). length src - pos)" by simp
qed simp

declare skip_layout.simps [simp del]

definition consume_rule_end :: "bytes \<Rightarrow> nat \<Rightarrow> gbnf_error + nat" where
  "consume_rule_end src pos =
     (let p = skip_horizontal src pos;
          q = if peek src p = Some 35 then skip_while (\<lambda>b. b \<noteq> 10) src p else p
      in if q < length src \<and> peek src q \<noteq> Some 13 \<and> peek src q \<noteq> Some 10 then Inl (UnexpectedInput q) else Inr q)"

definition is_digit :: "u8 \<Rightarrow> bool" where
  "is_digit b = in_range 48 57 b"

definition is_name_byte :: "u8 \<Rightarrow> bool" where
  "is_name_byte b \<longleftrightarrow> is_digit b \<or> in_range 65 90 b \<or> in_range 97 122 b \<or> b = 95 \<or> b = 45"

definition slice_bytes :: "bytes \<Rightarrow> nat \<Rightarrow> nat \<Rightarrow> bytes" where
  "slice_bytes src start stop = take (stop - start) (drop start src)"

definition rule_name :: "bytes \<Rightarrow> nat \<Rightarrow> gbnf_error + (bytes \<times> nat)" where
  "rule_name src pos =
     (let stop = skip_while is_name_byte src pos
      in if stop = pos then Inl (ExpectedName pos) else Inr (slice_bytes src pos stop, stop))"

text \<open>\<open>str::parse\<close> of an unsigned integer on ASCII digits, with the bound of its width.\<close>

definition decimal_value :: "bytes \<Rightarrow> nat" where
  "decimal_value ds = foldl (\<lambda>v d. v * 10 + (unat d - 48)) 0 ds"

definition number :: "bytes \<Rightarrow> nat \<Rightarrow> gbnf_error + (nat \<times> nat)" where
  "number src pos =
     (let stop = skip_while is_digit src pos; v = decimal_value (slice_bytes src pos stop)
      in if stop = pos then Inl ExpectedCount
         else if v \<ge> 2 ^ 64 then Inl InvalidCount else Inr (v, stop))"

definition repetition_range :: "bytes \<Rightarrow> nat \<Rightarrow> gbnf_error + ((nat \<times> nat option) \<times> nat)" where
  "repetition_range src pos =
     bind_res (number src (pos + 1)) (\<lambda>(minimum, p).
     bind_res (if peek src p = Some 125 then Inr (Some minimum, p)
               else if peek src p = Some 44 then
                 (if peek src (p + 1) \<noteq> Some 125
                  then bind_res (number src (p + 1)) (\<lambda>(v, q). Inr (Some v, q))
                  else Inr (None, p + 1))
               else Inl ExpectedCommaOrBrace) (\<lambda>(maximum, q).
     bind_res (expect [125] src q) (\<lambda>r. Inr ((minimum, maximum), r))))"

definition hex :: "nat \<Rightarrow> bytes \<Rightarrow> nat \<Rightarrow> gbnf_error + (nat \<times> nat)" where
  "hex digits src pos =
     (if pos + digits > length src then Inl ShortHex
      else case from_str_radix_16 (slice_bytes src pos (pos + digits)) of
          None \<Rightarrow> Inl InvalidHex
        | Some v \<Rightarrow> if \<not> is_scalar v then Inl NotScalar else Inr (v, pos + digits))"

definition codepoint :: "bytes \<Rightarrow> nat \<Rightarrow> gbnf_error + (nat \<times> nat)" where
  "codepoint src pos =
     (if peek src pos = Some 92 then
        (case peek src (pos + 1) of
           None \<Rightarrow> Inl TrailingEscape
         | Some escaped \<Rightarrow>
             if escaped = 110 then Inr (10, pos + 2)
             else if escaped = 114 then Inr (13, pos + 2)
             else if escaped = 116 then Inr (9, pos + 2)
             else if escaped = 34 \<or> escaped = 92 \<or> escaped = 91 \<or> escaped = 93 \<or> escaped = 45
             then Inr (unat escaped, pos + 2)
             else if escaped = 120 then hex 2 src (pos + 2)
             else if escaped = 117 then hex 4 src (pos + 2)
             else if escaped = 85 then hex 8 src (pos + 2)
             else Inl (UnsupportedEscape escaped))
      else case utf8_split (drop pos src) of (characters, rest, incomplete) \<Rightarrow>
          if rest \<noteq> [] then Inl NotUtf8
          else case utf8_first (drop pos src) of
              Scalar c tail \<Rightarrow> Inr (c, length src - length tail)
            | _ \<Rightarrow> Inl UnexpectedEnd)"

lemma codepoint_progress:
  assumes "codepoint src pos = Inr (c, pos')" and "pos < length src"
  shows "pos < pos' \<and> pos' \<le> length src"
proof (cases "peek src pos = Some 92")
  case True
  with assms show ?thesis
    by (auto simp: codepoint_def hex_def peek_Some split: option.splits if_splits)
next
  case False
  with assms obtain rest where r: "utf8_first (drop pos src) = Scalar c rest" "pos' = length src - length rest"
    by (auto simp: codepoint_def split: prod.splits if_splits utf8_head.splits)
  from utf8_first_shorter [OF r(1)] assms(2) r(2) show ?thesis by auto
qed

function literal_loop :: "bytes \<Rightarrow> nat \<Rightarrow> symbol list \<Rightarrow> gbnf_error + (symbol list \<times> nat)" where
  "literal_loop src pos acc =
     (if peek src pos = Some 34 then Inr (acc, pos + 1)
      else if peek src pos = None \<or> peek src pos = Some 10 \<or> peek src pos = Some 13 then Inl UnterminatedLiteral
      else case codepoint src pos of
          Inl err \<Rightarrow> Inl err
        | Inr (c, pos') \<Rightarrow> literal_loop src pos' (acc @ [Character (charset_one c)]))"
  by pat_completeness auto
termination
  by (relation "measure (\<lambda>(src, pos, acc). length src - pos)")
    (auto simp: peek_None dest!: codepoint_progress)

declare literal_loop.simps [simp del]

definition literal :: "bytes \<Rightarrow> nat \<Rightarrow> gbnf_error + (symbol list \<times> nat)" where
  "literal src pos = literal_loop src (pos + 1) []"

text \<open>One member of a character class: a code point or a range of them.\<close>

definition class_member :: "bytes \<Rightarrow> nat \<Rightarrow> gbnf_error + ((nat \<times> nat) \<times> nat)" where
  "class_member src pos =
     bind_res (codepoint src pos) (\<lambda>(lower, p).
     bind_res (if peek src p = Some 45 \<and> peek src (p + 1) \<noteq> Some 93 then codepoint src (p + 1) else Inr (lower, p))
       (\<lambda>(upper, q). if lower > upper then Inl DescendingRange else Inr ((lower, upper), q)))"

lemma codepoint_end: "length src \<le> pos \<Longrightarrow> codepoint src pos = Inl UnexpectedEnd"
  by (simp add: codepoint_def peek_def get_at_def utf8_split.simps)

lemma codepoint_bounds: "codepoint src pos = Inr (c, pos') \<Longrightarrow> pos < pos' \<and> pos' \<le> length src"
  using codepoint_progress codepoint_end by (metis Inl_Inr_False linorder_not_less)

lemma class_member_bounds:
  "class_member src pos = Inr ((lower, upper), pos') \<Longrightarrow> pos < pos' \<and> pos' \<le> length src \<and> lower \<le> upper"
  by (auto simp: class_member_def bind_res_Inr_iff split: if_splits dest!: codepoint_bounds)

function class_loop :: "bytes \<Rightarrow> nat \<Rightarrow> (nat \<times> nat) list \<Rightarrow> gbnf_error + ((nat \<times> nat) list \<times> nat)" where
  "class_loop src pos ranges =
     (if peek src pos = Some 93 then Inr (ranges, pos + 1)
      else if peek src pos = None then Inl UnterminatedClass
      else case class_member src pos of
          Inl err \<Rightarrow> Inl err
        | Inr (r, pos') \<Rightarrow> class_loop src pos' (ranges @ [r]))"
  by pat_completeness auto
termination
  by (relation "measure (\<lambda>(src, pos, ranges). length src - pos)")
    (auto simp: peek_None dest!: class_member_bounds)

declare class_loop.simps [simp del]

definition character_class :: "bytes \<Rightarrow> nat \<Rightarrow> gbnf_error + (charset \<times> nat)" where
  "character_class src pos =
     (let inverted = peek src (pos + 1) = Some 94
      in bind_res (class_loop src (if inverted then pos + 2 else pos + 1) [])
           (\<lambda>(ranges, p). Inr (\<lparr>cs_inverted = inverted, cs_ranges = ranges\<rparr>, p)))"

definition token_terminal_text :: "bytes \<Rightarrow> nat \<Rightarrow> gbnf_error + (token_terminal \<times> nat)" where
  "token_terminal_text src pos =
     (let inverted = peek src pos = Some 33
      in bind_res (expect [60] src (if inverted then pos + 1 else pos)) (\<lambda>p.
         bind_res
           (if peek src p = Some 91 then
              let start = p + 1; stop = skip_while is_digit src start; token = decimal_value (slice_bytes src start stop)
              in if start = stop then Inl TokenIdDigits
                 else if token \<ge> 2 ^ 32 then Inl TokenIdOverflow
                 else bind_res (expect [93, 62] src stop) (\<lambda>q. Inr (TokenId token, q))
            else
              let start = p - 1; stop = skip_while (\<lambda>b. b \<noteq> 62 \<and> b \<noteq> 10 \<and> b \<noteq> 13) src p
              in if peek src stop = Some 10 \<or> peek src stop = Some 13 then Inl TokenCrossesLine
                 else if stop = start + 1 then Inl TokenEmpty
                 else bind_res (expect [62] src stop) (\<lambda>q. Inr (TokenPiece (slice_bytes src start q), q)))
           (\<lambda>(v, q). Inr (\<lparr>tt_inverted = inverted, tt_value = v\<rparr>, q))))"

subsection \<open>Rules and productions\<close>

text \<open>The map of names grows by one identifier at a time, its next size.\<close>

record parser =
  position :: nat
  names :: "(bytes \<times> nat) list"
  parsed :: "production list"
  generated :: nat

fun decimal :: "nat \<Rightarrow> bytes" where
  "decimal n = (if n < 10 then [of_nat (48 + n)] else decimal (n div 10) @ [of_nat (48 + n mod 10)])"

declare decimal.simps [simp del]

definition rule_id :: "bytes \<Rightarrow> parser \<Rightarrow> nat \<times> parser" where
  "rule_id nm st = (case map_of (names st) nm of
      Some r \<Rightarrow> (r, st)
    | None \<Rightarrow> (length (names st), st\<lparr>names := names st @ [(nm, length (names st))]\<rparr>))"

definition generated_name :: "nat \<Rightarrow> bytes" where
  "generated_name k = str ''__generated-'' @ decimal k"

definition fresh_rule :: "parser \<Rightarrow> nat \<times> parser" where
  "fresh_rule st = rule_id (generated_name (generated st)) (st\<lparr>generated := generated st + 1\<rparr>)"

definition push_production :: "nat \<Rightarrow> symbol list \<Rightarrow> parser \<Rightarrow> parser" where
  "push_production l r st = st\<lparr>parsed := parsed st @ [\<lparr>lhs = l, rhs = r\<rparr>]\<rparr>"

definition push_alternatives :: "nat \<Rightarrow> symbol list list \<Rightarrow> parser \<Rightarrow> parser" where
  "push_alternatives l alternatives st = foldl (\<lambda>st r. push_production l r st) st alternatives"

definition generated_rule :: "symbol list list \<Rightarrow> parser \<Rightarrow> nat \<times> parser" where
  "generated_rule alternatives st = (case fresh_rule st of (r, st1) \<Rightarrow> (r, push_alternatives r alternatives st1))"

definition repeat_symbols :: "symbol list \<Rightarrow> nat \<Rightarrow> symbol list" where
  "repeat_symbols symbols count = concat (replicate count symbols)"

fun optional_tails :: "symbol list \<Rightarrow> nat \<Rightarrow> nat \<Rightarrow> parser \<Rightarrow> parser" where
  "optional_tails body tail 0 st = st"
| "optional_tails body tail (Suc k) st =
     (let st1 = push_production tail [] st
      in if k > 0 then (case fresh_rule st1 of (nxt, st2) \<Rightarrow>
             optional_tails body nxt k (push_production tail (body @ [Rule nxt]) st2))
         else push_production tail body st1)"

declare optional_tails.simps(2) [simp del]

definition repeat_rule :: "symbol list \<Rightarrow> nat \<Rightarrow> nat option \<Rightarrow> parser \<Rightarrow> gbnf_error + (nat \<times> parser)" where
  "repeat_rule body minimum maximum st =
     (if minimum \<ge> 5000 \<or> (case maximum of None \<Rightarrow> False | Some m \<Rightarrow> minimum > m \<or> m > 5000) then Inl BadRepetition
      else case fresh_rule st of (rule, st1) \<Rightarrow>
        (case maximum of
           Some m \<Rightarrow>
             if m - minimum > 0 then
               (case fresh_rule st1 of (first_tail, st2) \<Rightarrow>
                  Inr (rule, push_production rule (repeat_symbols body minimum @ [Rule first_tail])
                               (optional_tails body first_tail (m - minimum) st2)))
             else Inr (rule, push_production rule (repeat_symbols body minimum) st1)
         | None \<Rightarrow>
             (case fresh_rule st1 of (tail, st2) \<Rightarrow>
                Inr (rule, push_production rule (repeat_symbols body minimum @ [Rule tail])
                             (push_production tail (body @ [Rule tail]) (push_production tail [] st2))))))"

subsection \<open>Recursive descent\<close>

text \<open>The repetition operator after an atom. The position moves past a one-byte operator; a range has
  moved it behind its closing brace already.\<close>

definition repetition :: "bytes \<Rightarrow> nat \<Rightarrow> gbnf_error + ((nat \<times> nat option) option \<times> nat)" where
  "repetition src pos =
     bind_res
       (if peek src pos = Some 63 then Inr (Some (0, Some 1), pos)
        else if peek src pos = Some 42 then Inr (Some (0, None), pos)
        else if peek src pos = Some 43 then Inr (Some (1, None), pos)
        else if peek src pos = Some 123 then bind_res (repetition_range src pos) (\<lambda>(r, p). Inr (Some r, p))
        else Inr (None, pos))
       (\<lambda>(r, p). Inr (r, if r \<noteq> None \<and> \<not> (p > 0 \<and> peek src (p - 1) = Some 125) then p + 1 else p))"

definition atom_suffix :: "bytes \<Rightarrow> symbol list \<Rightarrow> parser \<Rightarrow> gbnf_error + (symbol list \<times> parser)" where
  "atom_suffix src body st =
     bind_res (repetition src (skip_horizontal src (position st))) (\<lambda>(r, p).
       case r of
         None \<Rightarrow> Inr (body, st\<lparr>position := p\<rparr>)
       | Some (minimum, maximum) \<Rightarrow>
           bind_res (repeat_rule body minimum maximum (st\<lparr>position := p\<rparr>)) (\<lambda>(rule, st1). Inr ([Rule rule], st1)))"

definition stops_sequence :: "u8 option \<Rightarrow> u8 \<Rightarrow> bool" where
  "stops_sequence closing b \<longleftrightarrow> b = 124 \<or> b = 10 \<or> b = 13 \<or> closing = Some b \<or> b = 35"

fun expression :: "nat \<Rightarrow> bytes \<Rightarrow> u8 option \<Rightarrow> symbol list list \<Rightarrow> parser \<Rightarrow> gbnf_error + (symbol list list \<times> parser)"
  and sequence :: "nat \<Rightarrow> bytes \<Rightarrow> u8 option \<Rightarrow> symbol list \<Rightarrow> parser \<Rightarrow> gbnf_error + (symbol list \<times> parser)"
  and atom :: "nat \<Rightarrow> bytes \<Rightarrow> parser \<Rightarrow> gbnf_error + (symbol list \<times> parser)" where
  "expression 0 src closing alternatives st = Inl ParserFuel"
| "expression (Suc n) src closing alternatives st =
     (case sequence n src closing [] st of
        Inl err \<Rightarrow> Inl err
      | Inr (s, st1) \<Rightarrow>
          let p = skip_horizontal src (position st1)
          in if peek src p = Some 124
             then expression n src closing (alternatives @ [s]) (st1\<lparr>position := p + 1\<rparr>)
             else Inr (alternatives @ [s], st1\<lparr>position := p\<rparr>))"
| "sequence 0 src closing symbols st = Inl ParserFuel"
| "sequence (Suc n) src closing symbols st =
     (let p = skip_horizontal src (position st)
      in case peek src p of
          None \<Rightarrow> Inr (symbols, st\<lparr>position := p\<rparr>)
        | Some b \<Rightarrow>
            if stops_sequence closing b then Inr (symbols, st\<lparr>position := p\<rparr>)
            else case atom n src (st\<lparr>position := p\<rparr>) of
                Inl err \<Rightarrow> Inl err
              | Inr (a, st1) \<Rightarrow> sequence n src closing (symbols @ a) st1)"
| "atom 0 src st = Inl ParserFuel"
| "atom (Suc n) src st =
     (case (case peek src (position st) of
              None \<Rightarrow> Inl UnexpectedEnd
            | Some b \<Rightarrow>
                if b = 34 then
                  bind_res (literal src (position st)) (\<lambda>(body, p). Inr (body, st\<lparr>position := p\<rparr>))
                else if b = 91 then
                  bind_res (character_class src (position st)) (\<lambda>(cs, p). Inr ([Character cs], st\<lparr>position := p\<rparr>))
                else if b = 46 then
                  Inr ([Character \<lparr>cs_inverted = True, cs_ranges = []\<rparr>], st\<lparr>position := position st + 1\<rparr>)
                else if b = 40 then
                  (case expression n src (Some 41) [] (st\<lparr>position := position st + 1\<rparr>) of
                     Inl err \<Rightarrow> Inl err
                   | Inr (alternatives, st1) \<Rightarrow>
                       bind_res (expect [41] src (position st1)) (\<lambda>p.
                         case generated_rule alternatives (st1\<lparr>position := p\<rparr>) of (r, st2) \<Rightarrow> Inr ([Rule r], st2)))
                else if b = 60 \<or> b = 33 then
                  bind_res (token_terminal_text src (position st)) (\<lambda>(tt, p). Inr ([Token tt], st\<lparr>position := p\<rparr>))
                else
                  bind_res (rule_name src (position st)) (\<lambda>(nm, p).
                    case rule_id nm (st\<lparr>position := p\<rparr>) of (r, st1) \<Rightarrow> Inr ([Rule r], st1))) of
        Inl err \<Rightarrow> Inl err
      | Inr (body, st1) \<Rightarrow> atom_suffix src body st1)"

definition parse_fuel :: "bytes \<Rightarrow> nat" where
  "parse_fuel src = 3 * length src + 3"

definition parse_rule :: "bytes \<Rightarrow> parser \<Rightarrow> gbnf_error + parser" where
  "parse_rule src st =
     bind_res (rule_name src (position st)) (\<lambda>(nm, p).
     case rule_id nm (st\<lparr>position := p\<rparr>) of (l, st1) \<Rightarrow>
     bind_res (expect [58, 58, 61] src (skip_horizontal src (position st1))) (\<lambda>q.
     bind_res (expression (parse_fuel src) src None [] (st1\<lparr>position := q\<rparr>)) (\<lambda>(alternatives, st2).
     let st3 = push_alternatives l alternatives st2
     in bind_res (consume_rule_end src (position st3)) (\<lambda>r. Inr (st3\<lparr>position := r\<rparr>)))))"

fun parse_rules :: "nat \<Rightarrow> bytes \<Rightarrow> parser \<Rightarrow> gbnf_error + parser" where
  "parse_rules 0 src st = Inl ParserFuel"
| "parse_rules (Suc n) src st =
     (case skip_layout True src (position st) of (p, unread) \<Rightarrow>
        if \<not> unread then Inr (st\<lparr>position := p\<rparr>)
        else case parse_rule src (st\<lparr>position := p\<rparr>) of Inl err \<Rightarrow> Inl err | Inr st1 \<Rightarrow> parse_rules n src st1)"

definition index_by_lhs :: "production list \<Rightarrow> nat \<Rightarrow> nat list list" where
  "index_by_lhs ps n =
     foldl (\<lambda>index (i, p). index[lhs p := index ! lhs p @ [i]]) (replicate n []) (List.enumerate 0 ps)"

definition finish_grammar :: "bytes \<Rightarrow> parser \<Rightarrow> gbnf_error + grammar" where
  "finish_grammar root st = (case map_of (names st) root of
      None \<Rightarrow> Inl UnknownRoot
    | Some r \<Rightarrow>
        let synthetic = length (names st);
            start = length (parsed st);
            ps = parsed st @ [\<lparr>lhs = synthetic, rhs = [Rule r]\<rparr>];
            index = index_by_lhs ps (synthetic + 1)
        in if list_ex (\<lambda>(nm, rule). index ! rule = []) (names st) then Inl UndefinedRule
           else Inr \<lparr>productions = ps, by_lhs = index, start_production = start\<rparr>)"

definition new_parser :: parser where
  "new_parser = \<lparr>position = 0, names = [], parsed = [], generated = 0\<rparr>"

definition parse_gbnf :: "bytes \<Rightarrow> bytes \<Rightarrow> gbnf_error + grammar" where
  "parse_gbnf src root = bind_res (parse_rules (length src + 1) src new_parser) (finish_grammar root)"

subsection \<open>The lexical routines move forward\<close>

definition lex_ok :: "bytes \<Rightarrow> nat \<Rightarrow> ('a \<Rightarrow> bool) \<Rightarrow> gbnf_error + ('a \<times> nat) \<Rightarrow> bool" where
  "lex_ok src pos Q r \<longleftrightarrow>
     (case r of Inl err \<Rightarrow> err \<noteq> ParserFuel | Inr (x, p) \<Rightarrow> pos < p \<and> p \<le> length src \<and> Q x)"

lemma expect_cases:
  "expect e src pos = Inr p \<longleftrightarrow> p = pos + length e \<and> p \<le> length src \<and> take (length e) (drop pos src) = e"
  "expect e src pos = Inl err \<Longrightarrow> err = Expected e pos"
  by (auto simp: expect_def split: if_splits)

lemma expect_not_fuel: "expect e src pos \<noteq> Inl ParserFuel"
  by (simp add: expect_def)

lemma rule_name_ok: "pos \<le> length src \<Longrightarrow> lex_ok src pos (\<lambda>_. True) (rule_name src pos)"
  using skip_while_ge [of pos is_name_byte src] skip_while_le [of pos src is_name_byte]
  by (simp add: lex_ok_def rule_name_def Let_def)

lemma number_ok: "pos \<le> length src \<Longrightarrow> lex_ok src pos (\<lambda>_. True) (number src pos)"
  using skip_while_ge [of pos is_digit src] skip_while_le [of pos src is_digit]
  by (simp add: lex_ok_def number_def Let_def)

lemma number_end: "length src < pos \<Longrightarrow> number src pos = Inl ExpectedCount"
  by (simp add: number_def skip_while_def)

lemma lex_bind:
  assumes "lex_ok src pos P m"
    and "\<And>x p. m = Inr (x, p) \<Longrightarrow> pos < p \<Longrightarrow> p \<le> length src \<Longrightarrow> P x \<Longrightarrow> lex_ok src pos Q (f (x, p))"
  shows "lex_ok src pos Q (bind_res m f)"
  using assms by (cases m) (auto simp: lex_ok_def)

lemma lex_ok_mono: "lex_ok src pos Q r \<Longrightarrow> pos' \<le> pos \<Longrightarrow> (\<And>x. Q x \<Longrightarrow> Q' x) \<Longrightarrow> lex_ok src pos' Q' r"
  by (auto simp: lex_ok_def split: sum.splits)

lemma lex_expect:
  "pos \<le> p \<Longrightarrow> e \<noteq> [] \<Longrightarrow> Q x \<Longrightarrow> lex_ok src pos Q (bind_res (expect e src p) (\<lambda>q. Inr (x, q)))"
  by (cases e) (auto simp: lex_ok_def expect_def)

lemma repetition_range_ok:
  assumes "pos < length src"
  shows "lex_ok src pos (\<lambda>_. True) (repetition_range src pos)"
proof -
  have "lex_ok src pos (\<lambda>_. True) (number src (pos + 1))"
    by (rule lex_ok_mono [OF number_ok]) (use assms in auto)
  then show ?thesis unfolding repetition_range_def
  proof (rule lex_bind, unfold prod.case)
    fix minimum p assume p: "pos < p" "p \<le> length src"
    let ?next = "if peek src (p + 1) \<noteq> Some 125 then bind_res (number src (p + 1)) (\<lambda>(v, q). Inr (Some v, q))
      else Inr (None, p + 1)"
    have "lex_ok src pos (\<lambda>_. True) ?next" if "peek src p = Some 44"
      using that p lex_ok_mono [OF number_ok, of "p + 1" src pos "\<lambda>_. True"]
      by (auto simp: peek_Some lex_ok_def bind_res_def split: sum.splits)
    then have "lex_ok src pos (\<lambda>_. True) (if peek src p = Some 125 then Inr (Some minimum, p)
        else if peek src p = Some 44 then ?next else Inl ExpectedCommaOrBrace)"
      using p by (auto simp: lex_ok_def)
    then show "lex_ok src pos (\<lambda>_. True) (bind_res (if peek src p = Some 125 then Inr (Some minimum, p)
        else if peek src p = Some 44 then ?next else Inl ExpectedCommaOrBrace)
        (\<lambda>(maximum, q). bind_res (expect [125] src q) (\<lambda>r. Inr ((minimum, maximum), r))))"
      by (rule lex_bind) (auto intro!: lex_expect)
  qed
qed

lemma codepoint_not_fuel: "codepoint src pos \<noteq> Inl ParserFuel"
  by (auto simp: codepoint_def hex_def split: option.splits prod.splits utf8_head.splits)

lemma codepoint_ok: "lex_ok src pos (\<lambda>_. True) (codepoint src pos)"
  using codepoint_not_fuel codepoint_bounds by (auto simp: lex_ok_def split: sum.splits)

definition symbol_ok :: "nat \<Rightarrow> symbol \<Rightarrow> bool" where
  "symbol_ok n s = (case s of
      Rule r \<Rightarrow> r < n
    | Character cs \<Rightarrow> list_all (\<lambda>(l, u). l \<le> u) (cs_ranges cs)
    | Token _ \<Rightarrow> True)"

lemma symbol_ok_mono: "symbol_ok m s \<Longrightarrow> m \<le> n \<Longrightarrow> symbol_ok n s"
  by (auto simp: symbol_ok_def split: symbol.splits)

lemma symbols_ok_mono: "list_all (symbol_ok m) ss \<Longrightarrow> m \<le> n \<Longrightarrow> list_all (symbol_ok n) ss"
  by (auto simp: list_all_iff intro: symbol_ok_mono)

lemma literal_loop_ok:
  "list_all (symbol_ok n) acc \<Longrightarrow> lex_ok src pos (list_all (symbol_ok n)) (literal_loop src pos acc)"
proof (induction src pos acc rule: literal_loop.induct)
  case (1 src pos acc)
  show ?case
  proof (cases "peek src pos = Some 34")
    case True
    then show ?thesis using 1(2) by (auto simp: literal_loop.simps [of src pos acc] lex_ok_def peek_Some)
  next
    case False
    show ?thesis
    proof (cases "peek src pos = None \<or> peek src pos = Some 10 \<or> peek src pos = Some 13")
      case True
      then show ?thesis using False by (simp add: literal_loop.simps [of src pos acc] lex_ok_def)
    next
      case more: False
      show ?thesis
      proof (cases "codepoint src pos")
        case (Inl err)
        then show ?thesis
          using False more codepoint_not_fuel [of src pos] by (simp add: literal_loop.simps [of src pos acc] lex_ok_def)
      next
        case (Inr r)
        obtain c p where r: "r = (c, p)" by (cases r)
        have "list_all (symbol_ok n) (acc @ [Character (charset_one c)])"
          using 1(2) by (simp add: symbol_ok_def [of n "Character c" for c] charset_one_def)
        from 1(1) [OF False more Inr r [symmetric] this]
        have "lex_ok src p (list_all (symbol_ok n)) (literal_loop src p (acc @ [Character (charset_one c)]))" .
        moreover have "pos \<le> p" using codepoint_bounds [of src pos c p] Inr r by simp
        ultimately show ?thesis
          using Inr r False more by (auto simp: literal_loop.simps [of src pos acc] lex_ok_mono)
      qed
    qed
  qed
qed

lemma literal_ok: "lex_ok src pos (list_all (symbol_ok n)) (literal src pos)"
  unfolding literal_def by (rule lex_ok_mono [OF literal_loop_ok]) auto

lemma class_member_ok: "lex_ok src pos (\<lambda>(l, u). l \<le> u) (class_member src pos)"
  unfolding class_member_def
proof (rule lex_bind [OF codepoint_ok], unfold prod.case)
  fix lower p assume p: "pos < p" "p \<le> length src"
  have "lex_ok src pos (\<lambda>_. True)
      (if peek src p = Some 45 \<and> peek src (p + 1) \<noteq> Some 93 then codepoint src (p + 1) else Inr (lower, p))"
    using p lex_ok_mono [OF codepoint_ok, of pos "p + 1" "\<lambda>_. True"] by (auto simp: lex_ok_def)
  then show "lex_ok src pos (\<lambda>(l, u). l \<le> u) (bind_res
      (if peek src p = Some 45 \<and> peek src (p + 1) \<noteq> Some 93 then codepoint src (p + 1) else Inr (lower, p))
      (\<lambda>(upper, q). if lower > upper then Inl DescendingRange else Inr ((lower, upper), q)))"
    by (rule lex_bind) (auto simp: lex_ok_def)
qed

lemma class_loop_ok:
  "list_all (\<lambda>(l, u). l \<le> u) ranges \<Longrightarrow> lex_ok src pos (list_all (\<lambda>(l, u). l \<le> u)) (class_loop src pos ranges)"
proof (induction src pos ranges rule: class_loop.induct)
  case (1 src pos ranges)
  note step = class_loop.simps [of src pos ranges]
  consider "peek src pos = Some 93" | "peek src pos = None" | "peek src pos \<noteq> Some 93" "peek src pos \<noteq> None" by auto
  then show ?case
  proof cases
    case 3
    show ?thesis
    proof (cases "class_member src pos")
      case (Inr r)
      obtain m p where r: "r = (m, p)" by (cases r)
      have m: "pos < p" "case m of (l, u) \<Rightarrow> l \<le> u"
        using class_member_ok [of src pos] Inr r by (auto simp: lex_ok_def)
      then have "list_all (\<lambda>(l, u). l \<le> u) (ranges @ [m])" using 1(2) by simp
      from 1(1) [OF 3 Inr r [symmetric] this] m(1) show ?thesis using 3 Inr r by (auto simp: step lex_ok_mono)
    qed (use 3 class_member_ok [of src pos] in \<open>simp add: step lex_ok_def\<close>)
  qed (use 1(2) in \<open>auto simp: step lex_ok_def peek_Some\<close>)
qed

lemma character_class_ok:
  "lex_ok src pos (\<lambda>cs. list_all (\<lambda>(l, u). l \<le> u) (cs_ranges cs)) (character_class src pos)"
  unfolding character_class_def Let_def
proof (rule lex_bind)
  show "lex_ok src pos (list_all (\<lambda>(l, u). l \<le> u))
      (class_loop src (if peek src (pos + 1) = Some 94 then pos + 2 else pos + 1) [])"
    by (rule lex_ok_mono [OF class_loop_ok]) auto
qed (auto simp: lex_ok_def)

lemma token_terminal_ok:
  assumes "pos \<le> length src"
  shows "lex_ok src pos (\<lambda>_. True) (token_terminal_text src pos)"
proof -
  define inverted where "inverted = (peek src pos = Some 33)"
  show ?thesis
  proof (cases "expect [60] src (if inverted then pos + 1 else pos)")
    case (Inl err)
    then show ?thesis
      by (auto simp: token_terminal_text_def Let_def inverted_def lex_ok_def dest!: expect_cases(2))
  next
    case (Inr p)
    then have p: "pos < p" "p \<le> length src" by (auto simp: expect_cases(1) split: if_splits)
    let ?id = "skip_while is_digit src (p + 1)" and ?st = "skip_while (\<lambda>b. b \<noteq> 62 \<and> b \<noteq> 10 \<and> b \<noteq> 13) src p"
    have "pos \<le> ?id" "pos \<le> ?st" using skip_while_ge [of "p + 1" is_digit src] skip_while_ge [of p _ src] p
      by (meson le_trans less_imp_le le_add1)+
    then show ?thesis
      unfolding token_terminal_text_def Let_def inverted_def [symmetric] Inr bind_res_simps
      by (intro lex_bind [where P = "\<lambda>_. True"]) (auto simp: lex_ok_def expect_def)
  qed
qed

lemma repetition_ok:
  assumes "pos \<le> length src"
  shows "case repetition src pos of Inl err \<Rightarrow> err \<noteq> ParserFuel | Inr (r, p) \<Rightarrow> pos \<le> p \<and> p \<le> length src"
proof (cases "peek src pos = Some 123")
  case True
  then have pos: "pos < length src" by (simp add: peek_Some)
  show ?thesis
  proof (cases "repetition_range src pos")
    case (Inl err)
    then show ?thesis using True repetition_range_ok [OF pos] by (simp add: repetition_def lex_ok_def)
  next
    case (Inr r)
    obtain q p where r: "r = (q, p)" by (cases r)
    have "pos < p" "p \<le> length src" using repetition_range_ok [OF pos] Inr r by (auto simp: lex_ok_def)
    moreover have "0 < p \<and> peek src (p - 1) = Some 125"
      using Inr r by (auto simp: repetition_range_def bind_res_Inr_iff expect_cases(1) peek_Some
          Cons_nth_drop_Suc [symmetric] take_Suc split: if_splits)
    ultimately show ?thesis using True Inr r by (simp add: repetition_def)
  qed
next
  case False
  then show ?thesis using assms by (auto simp: repetition_def peek_Some split: if_splits)
qed

subsection \<open>The parser keeps its tables well formed\<close>

abbreviation rule_count :: "parser \<Rightarrow> nat" where
  "rule_count st \<equiv> length (names st)"

abbreviation symbols_ok :: "nat \<Rightarrow> symbol list \<Rightarrow> bool" where
  "symbols_ok n \<equiv> list_all (symbol_ok n)"

definition production_ok :: "nat \<Rightarrow> production \<Rightarrow> bool" where
  "production_ok n p \<longleftrightarrow> lhs p < n \<and> symbols_ok n (rhs p)"

definition parser_ok :: "bytes \<Rightarrow> parser \<Rightarrow> bool" where
  "parser_ok src st \<longleftrightarrow> position st \<le> length src \<and> map snd (names st) = [0..<rule_count st]
     \<and> list_all (production_ok (rule_count st)) (parsed st)"

text \<open>What a routine of the parser leaves behind: the state is well formed, no rule is forgotten, and
  the position is the one given.\<close>

definition extends :: "bytes \<Rightarrow> parser \<Rightarrow> parser \<Rightarrow> bool" where
  "extends src st st' \<longleftrightarrow> parser_ok src st' \<and> rule_count st \<le> rule_count st' \<and> position st' = position st"

lemma extends_refl: "parser_ok src st \<Longrightarrow> extends src st st"
  by (simp add: extends_def)

lemma extends_trans: "extends src st st1 \<Longrightarrow> extends src st1 st2 \<Longrightarrow> extends src st st2"
  by (auto simp: extends_def)

lemma production_ok_mono: "production_ok m p \<Longrightarrow> m \<le> n \<Longrightarrow> production_ok n p"
  by (auto simp: production_ok_def intro: symbols_ok_mono)

lemma parser_ok_position [simp]:
  "parser_ok src st \<Longrightarrow> parser_ok src (st\<lparr>position := p\<rparr>) \<longleftrightarrow> p \<le> length src"
  by (simp add: parser_ok_def)

lemma rule_id_ok:
  assumes ok: "parser_ok src st" and r: "rule_id nm st = (r, st')"
  shows "extends src st st' \<and> r < rule_count st'"
proof (cases "map_of (names st) nm")
  case None
  then have st': "st' = st\<lparr>names := names st @ [(nm, rule_count st)]\<rparr>" "r = rule_count st"
    using r by (auto simp: rule_id_def)
  have "list_all (production_ok (Suc (rule_count st))) (parsed st)"
    using ok by (auto simp: parser_ok_def list_all_iff intro: production_ok_mono)
  then show ?thesis using ok st' by (simp add: parser_ok_def extends_def)
next
  case (Some q)
  then have "q \<in> set (map snd (names st))" by (force dest: map_of_SomeD)
  then have "q < rule_count st" using ok by (simp only: parser_ok_def) simp
  then show ?thesis using Some r ok by (auto simp: rule_id_def extends_refl)
qed

lemma fresh_rule_ok:
  assumes "parser_ok src st" and "fresh_rule st = (r, st')"
  shows "extends src st st' \<and> r < rule_count st'"
  using rule_id_ok [of src "st\<lparr>generated := generated st + 1\<rparr>" _ r st'] assms
  by (simp add: fresh_rule_def extends_def parser_ok_def)

lemma push_production_ok:
  "parser_ok src st \<Longrightarrow> l < rule_count st \<Longrightarrow> symbols_ok (rule_count st) r \<Longrightarrow>
    extends src st (push_production l r st) \<and> rule_count (push_production l r st) = rule_count st"
  by (simp add: push_production_def extends_def parser_ok_def production_ok_def)

lemma push_alternatives_ok:
  "parser_ok src st \<Longrightarrow> l < rule_count st \<Longrightarrow> list_all (symbols_ok (rule_count st)) alternatives \<Longrightarrow>
    extends src st (push_alternatives l alternatives st)
    \<and> rule_count (push_alternatives l alternatives st) = rule_count st"
proof (induction alternatives arbitrary: st)
  case (Cons a alternatives)
  let ?st = "push_production l a st"
  have push: "extends src st ?st" "rule_count ?st = rule_count st"
    using push_production_ok [OF Cons.prems(1,2), of a] Cons.prems(3) by simp_all
  then have "extends src ?st (push_alternatives l alternatives ?st)
      \<and> rule_count (push_alternatives l alternatives ?st) = rule_count ?st"
    by (intro Cons.IH) (use Cons.prems in \<open>auto simp: extends_def\<close>)
  with push show ?case by (auto simp: push_alternatives_def intro: extends_trans)
qed (simp add: push_alternatives_def extends_refl)

lemma generated_rule_ok:
  assumes ok: "parser_ok src st" and alts: "list_all (symbols_ok (rule_count st)) alternatives"
    and r: "generated_rule alternatives st = (r, st')"
  shows "extends src st st' \<and> r < rule_count st'"
proof -
  obtain st1 where f: "fresh_rule st = (r, st1)" "st' = push_alternatives r alternatives st1"
    using r by (auto simp: generated_rule_def split: prod.splits)
  from fresh_rule_ok [OF ok f(1)] have st1: "extends src st st1" "r < rule_count st1" by auto
  then have "list_all (symbols_ok (rule_count st1)) alternatives"
    using alts symbols_ok_mono by (fastforce simp: list_all_iff extends_def)
  with push_alternatives_ok [of src st1 r alternatives] st1 f(2) show ?thesis
    by (auto simp: extends_def)
qed

lemma repeat_symbols_ok: "symbols_ok n body \<Longrightarrow> symbols_ok n (repeat_symbols body k)"
  by (induction k) (simp_all add: repeat_symbols_def)

lemma optional_tails_ok:
  "parser_ok src st \<Longrightarrow> tail < rule_count st \<Longrightarrow> symbols_ok (rule_count st) body \<Longrightarrow>
    extends src st (optional_tails body tail k st)"
proof (induction k arbitrary: tail st)
  case (Suc k)
  let ?st1 = "push_production tail [] st"
  have st1: "extends src st ?st1" "rule_count ?st1 = rule_count st"
    using push_production_ok [OF Suc.prems(1,2), of "[]"] by simp_all
  show ?case
  proof (cases "k > 0")
    case True
    obtain nxt st2 where f: "fresh_rule ?st1 = (nxt, st2)" by fastforce
    have st2: "extends src ?st1 st2" "nxt < rule_count st2" "rule_count st \<le> rule_count st2"
      using fresh_rule_ok [OF _ f, of src] st1 by (auto simp: extends_def)
    let ?st3 = "push_production tail (body @ [Rule nxt]) st2"
    have body: "symbols_ok (rule_count st2) body" using Suc.prems(3) st2(3) by (rule symbols_ok_mono)
    have st3: "extends src st2 ?st3" "rule_count ?st3 = rule_count st2"
      using push_production_ok [of src st2 tail "body @ [Rule nxt]"] st2 Suc.prems body
      by (auto simp: extends_def symbol_ok_def [of _ "Rule q" for q])
    have "extends src ?st3 (optional_tails body nxt k ?st3)"
      by (rule Suc.IH) (use st2 st3 body in \<open>auto simp: extends_def\<close>)
    with st1 st2 st3 have "extends src st (optional_tails body nxt k ?st3)" by (blast intro: extends_trans)
    with True f show ?thesis by (simp add: optional_tails.simps(2))
  next
    case False
    have "extends src ?st1 (push_production tail body ?st1)"
      using push_production_ok [of src ?st1 tail body] st1 Suc.prems by (simp add: extends_def)
    with False st1 show ?thesis by (auto simp: optional_tails.simps(2) intro: extends_trans)
  qed
qed (simp add: extends_refl)

lemma push_rule_ok:
  assumes "extends src st0 st" "l < rule_count st" "symbols_ok (rule_count st) r"
  shows "extends src st0 (push_production l r st)"
  using assms push_production_ok [of src st l r] by (auto simp: extends_def)

lemma repeat_rule_ok:
  assumes ok: "parser_ok src st" and body: "symbols_ok (rule_count st) body"
    and r: "repeat_rule body minimum maximum st = Inr (r, st')"
  shows "extends src st st' \<and> r < rule_count st'"
proof -
  obtain q st1 where f1: "fresh_rule st = (q, st1)" by fastforce
  obtain t st2 where f2: "fresh_rule st1 = (t, st2)" by fastforce
  have e1: "extends src st st1" "q < rule_count st1" using fresh_rule_ok [OF ok f1] by auto
  have e2: "extends src st1 st2" "t < rule_count st2"
    using fresh_rule_ok [OF _ f2, of src] e1 by (auto simp: extends_def)
  have e: "extends src st st2" "q < rule_count st2" using e1 e2 by (auto simp: extends_def)
  have b1: "symbols_ok (rule_count st1) body" and b2: "symbols_ok (rule_count st2) body"
    using body e1 e by (auto simp: extends_def intro: symbols_ok_mono)
  have rule: "symbol_ok (rule_count st2) (Rule t)" using e2 by (simp add: symbol_ok_def)
  show ?thesis
  proof (cases maximum)
    case None
    let ?st3 = "push_production t (body @ [Rule t]) (push_production t [] st2)"
    have st': "r = q" "st' = push_production q (repeat_symbols body minimum @ [Rule t]) ?st3"
      using r None f1 f2 by (auto simp: repeat_rule_def split: if_splits)
    have n: "rule_count (push_production t [] st2) = rule_count st2" "rule_count ?st3 = rule_count st2"
      by (simp_all add: push_production_def)
    have "extends src st (push_production t [] st2)" using e e2 by (intro push_rule_ok) auto
    then have "extends src st ?st3" by (rule push_rule_ok) (use e2 b2 rule n in auto)
    then have "extends src st st'"
      unfolding st' by (rule push_rule_ok) (use e b2 rule n in \<open>auto simp: repeat_symbols_ok\<close>)
    with st' e n show ?thesis by (simp add: push_production_def)
  next
    case (Some m)
    show ?thesis
    proof (cases "m - minimum > 0")
      case True
      let ?st3 = "optional_tails body t (m - minimum) st2"
      have st': "r = q" "st' = push_production q (repeat_symbols body minimum @ [Rule t]) ?st3"
        using r Some True f1 f2 by (auto simp: repeat_rule_def split: if_splits)
      have e3: "extends src st2 ?st3"
        using optional_tails_ok [of src st2 t body] e e2 b2 by (simp add: extends_def)
      then have n: "rule_count st2 \<le> rule_count ?st3" by (simp add: extends_def)
      have "symbols_ok (rule_count ?st3) (repeat_symbols body minimum)"
        using symbols_ok_mono [OF b2 n] by (rule repeat_symbols_ok)
      then have "extends src st st'" unfolding st'
        by (intro push_rule_ok [OF extends_trans [OF e(1) e3]]) (use e rule n in \<open>auto intro: symbol_ok_mono\<close>)
      with st' e n show ?thesis by (simp add: push_production_def)
    next
      case False
      then have st': "r = q" "st' = push_production q (repeat_symbols body minimum) st1"
        using r Some f1 by (auto simp: repeat_rule_def split: if_splits)
      have "extends src st st'" unfolding st' using e1 b1 by (intro push_rule_ok) (auto simp: repeat_symbols_ok)
      with st' e1 show ?thesis by (simp add: push_production_def)
    qed
  qed
qed

text \<open>A descent routine started in \<open>st\<close>: it never reports missing fuel when \<open>fuelled\<close>, and a result
  comes with a well-formed state further on in the text.\<close>

definition descends :: "bytes \<Rightarrow> bool \<Rightarrow> nat \<Rightarrow> parser \<Rightarrow> (nat \<Rightarrow> 'a \<Rightarrow> bool) \<Rightarrow> gbnf_error + ('a \<times> parser) \<Rightarrow> bool" where
  "descends src fuelled pos st Q r \<longleftrightarrow> (case r of
      Inl err \<Rightarrow> fuelled \<longrightarrow> err \<noteq> ParserFuel
    | Inr (x, st') \<Rightarrow> parser_ok src st' \<and> rule_count st \<le> rule_count st' \<and> pos \<le> position st'
        \<and> Q (rule_count st') x)"

lemma repeat_rule_not_fuel: "repeat_rule body minimum maximum st \<noteq> Inl ParserFuel"
  by (auto simp: repeat_rule_def split: option.splits prod.splits)

lemma atom_suffix_ok:
  assumes ok: "parser_ok src st" and body: "symbols_ok (rule_count st) body"
  shows "descends src True (position st) st symbols_ok (atom_suffix src body st)"
proof -
  let ?p = "skip_horizontal src (position st)"
  have p: "position st \<le> ?p" "?p \<le> length src"
    using ok skip_while_ge skip_while_le by (auto simp: skip_horizontal_def parser_ok_def)
  show ?thesis
  proof (cases "repetition src ?p")
    case (Inl err)
    then show ?thesis using repetition_ok [OF p(2)] by (simp add: atom_suffix_def descends_def)
  next
    case (Inr rp)
    obtain r q where rp: "rp = (r, q)" by (cases rp)
    have q: "position st \<le> q" "q \<le> length src" using repetition_ok [OF p(2)] Inr rp p(1) by auto
    show ?thesis
    proof (cases r)
      case None
      then show ?thesis using Inr rp q ok body by (simp add: atom_suffix_def descends_def)
    next
      case (Some mm)
      obtain minimum maximum where mm: "mm = (minimum, maximum)" by (cases mm)
      have ok': "parser_ok src (st\<lparr>position := q\<rparr>)" using ok q by simp
      show ?thesis
      proof (cases "repeat_rule body minimum maximum (st\<lparr>position := q\<rparr>)")
        case (Inl err)
        then show ?thesis using Inr rp Some mm repeat_rule_not_fuel
          by (auto simp: atom_suffix_def descends_def)
      next
        case rr: (Inr rs)
        obtain rule st1 where rs: "rs = (rule, st1)" by (cases rs)
        from repeat_rule_ok [OF ok' _ rr [unfolded rs]] body
        have "extends src (st\<lparr>position := q\<rparr>) st1 \<and> rule < rule_count st1" by simp
        then show ?thesis using Inr rp Some mm rr rs q
          by (simp add: atom_suffix_def descends_def extends_def symbol_ok_def)
      qed
    qed
  qed
qed

lemma lex_atom:
  assumes ok: "parser_ok src st" and l: "lex_ok src (position st) Q r"
    and f: "\<And>x p. Q x \<Longrightarrow> p \<le> length src \<Longrightarrow> position st < p \<Longrightarrow>
      descends src True (Suc (position st)) st symbols_ok (f (x, p))"
  shows "descends src True (Suc (position st)) st symbols_ok (bind_res r f)"
  using l f by (cases r) (auto simp: lex_ok_def descends_def)

lemma descends_chain:
  assumes r: "descends src fuelled pos st Q r"
    and f: "\<And>x st1. parser_ok src st1 \<Longrightarrow> rule_count st \<le> rule_count st1 \<Longrightarrow> pos \<le> position st1 \<Longrightarrow> Q (rule_count st1) x \<Longrightarrow>
      descends src fuelled' pos' st Q' (f (x, st1))"
    and fuelled: "fuelled' \<Longrightarrow> fuelled"
  shows "descends src fuelled' pos' st Q' (case r of Inl err \<Rightarrow> Inl err | Inr y \<Rightarrow> f y)"
proof (cases r)
  case (Inr y)
  obtain x st1 where y: "y = (x, st1)" by (cases y)
  from f [of st1 x] show ?thesis using r Inr y by (simp add: descends_def)
qed (use r fuelled in \<open>auto simp: descends_def\<close>)

lemma descends_weaken:
  assumes "descends src fuelled pos st1 Q r" "fuelled' \<Longrightarrow> fuelled" "pos' \<le> pos" "rule_count st \<le> rule_count st1"
  shows "descends src fuelled' pos' st Q r"
  using assms by (auto simp: descends_def split: sum.splits)

lemma rule_id_descends:
  assumes "parser_ok src st" "pos \<le> p" "p \<le> length src"
  shows "descends src True pos st symbols_ok
    (case rule_id nm (st\<lparr>position := p\<rparr>) of (r, st1) \<Rightarrow> Inr ([Rule r], st1))"
proof -
  obtain r st1 where r: "rule_id nm (st\<lparr>position := p\<rparr>) = (r, st1)" by fastforce
  from rule_id_ok [OF _ r, of src] assms show ?thesis
    by (simp add: r descends_def extends_def symbol_ok_def)
qed

lemma generated_descends:
  assumes ok: "parser_ok src st1" and alts: "list_all (symbols_ok (rule_count st1)) alternatives"
    and st: "rule_count st \<le> rule_count st1" and pos: "pos \<le> position st1"
  shows "descends src True pos st symbols_ok (bind_res (expect [41] src (position st1)) (\<lambda>p.
    case generated_rule alternatives (st1\<lparr>position := p\<rparr>) of (r, st2) \<Rightarrow> Inr ([Rule r], st2)))"
proof (cases "expect [41] src (position st1)")
  case (Inr p)
  then have p: "p \<le> length src" "position st1 \<le> p" by (auto simp: expect_cases(1))
  obtain r st2 where r: "generated_rule alternatives (st1\<lparr>position := p\<rparr>) = (r, st2)" by fastforce
  from generated_rule_ok [OF _ _ r, of src] ok alts p have "extends src (st1\<lparr>position := p\<rparr>) st2 \<and> r < rule_count st2" by simp
  then show ?thesis using Inr r p st pos by (simp add: descends_def extends_def symbol_ok_def)
qed (use expect_not_fuel in \<open>auto simp: descends_def\<close>)

lemma atom_step:
  assumes E: "\<And>st. parser_ok src st \<Longrightarrow>
      descends src (3 * (length src - position st) + 3 \<le> n) (position st) st (\<lambda>k. list_all (symbols_ok k))
        (expression n src (Some 41) [] st)"
    and ok: "parser_ok src st"
  shows "descends src (3 * (length src - position st) + 1 \<le> Suc n) (Suc (position st)) st symbols_ok (atom (Suc n) src st)"
    (is "descends src ?fuelled ?pos st symbols_ok _")
  unfolding atom.simps
proof (rule descends_chain [where fuelled = "?fuelled" and pos = "?pos" and Q = symbols_ok], goal_cases)
  case 1
  have pos: "position st \<le> length src" using ok by (simp add: parser_ok_def)
  show ?case
  proof (cases "peek src (position st)")
    case None
    then show ?thesis by (simp add: descends_def)
  next
    case (Some b)
    then have lt: "position st < length src" by (simp add: peek_Some)
    have lit: "descends src True ?pos st symbols_ok
        (bind_res (literal src (position st)) (\<lambda>(body, p). Inr (body, st\<lparr>position := p\<rparr>)))"
      by (rule lex_atom [OF ok literal_ok [of src _ "rule_count st"]]) (use ok in \<open>simp add: descends_def\<close>)
    have cls: "descends src True ?pos st symbols_ok
        (bind_res (character_class src (position st)) (\<lambda>(cs, p). Inr ([Character cs], st\<lparr>position := p\<rparr>)))"
      by (rule lex_atom [OF ok character_class_ok]) (use ok in \<open>simp add: descends_def symbol_ok_def\<close>)
    have tok: "descends src True ?pos st symbols_ok
        (bind_res (token_terminal_text src (position st)) (\<lambda>(tt, p). Inr ([Token tt], st\<lparr>position := p\<rparr>)))"
      by (rule lex_atom [OF ok token_terminal_ok [OF pos]]) (use ok in \<open>simp add: descends_def symbol_ok_def\<close>)
    have nam: "descends src True ?pos st symbols_ok (bind_res (rule_name src (position st)) (\<lambda>(nm, p).
        case rule_id nm (st\<lparr>position := p\<rparr>) of (r, st1) \<Rightarrow> Inr ([Rule r], st1)))"
      by (rule lex_atom [OF ok rule_name_ok [OF pos]]) (use ok in \<open>simp add: rule_id_descends\<close>)
    have dot: "descends src True ?pos st symbols_ok
        (Inr ([Character \<lparr>cs_inverted = True, cs_ranges = []\<rparr>], st\<lparr>position := position st + 1\<rparr>))"
      using ok lt by (simp add: descends_def symbol_ok_def)
    let ?st = "st\<lparr>position := position st + 1\<rparr>"
    have "parser_ok src ?st" using ok lt by simp
    from E [OF this] have grp: "descends src ?fuelled ?pos ?st symbols_ok
        (case expression n src (Some 41) [] ?st of Inl err \<Rightarrow> Inl err | Inr y \<Rightarrow> (case y of (alternatives, st1) \<Rightarrow>
           bind_res (expect [41] src (position st1)) (\<lambda>p.
             case generated_rule alternatives (st1\<lparr>position := p\<rparr>) of (r, st2) \<Rightarrow> Inr ([Rule r], st2))))"
      by (rule descends_chain) (use lt in \<open>auto intro!: descends_weaken [OF generated_descends]\<close>)
    have group: "descends src ?fuelled ?pos st symbols_ok
        (case expression n src (Some 41) [] ?st of Inl err \<Rightarrow> Inl err | Inr y \<Rightarrow> (case y of (alternatives, st1) \<Rightarrow>
           bind_res (expect [41] src (position st1)) (\<lambda>p.
             case generated_rule alternatives (st1\<lparr>position := p\<rparr>) of (r, st2) \<Rightarrow> Inr ([Rule r], st2))))"
      by (rule descends_weaken [OF grp]) auto
    note weak = lit cls tok nam dot
    note weak' = weak [THEN descends_weaken [where fuelled' = "?fuelled" and pos' = "?pos" and st = st, OF _ TrueI order_refl order_refl]]
    show ?thesis unfolding Some option.case using weak' group by (simp only: if_split) simp
  qed
next
  case (2 body st1)
  then show ?case by (simp, intro descends_weaken [OF atom_suffix_ok]) auto
qed simp

text \<open>The descent: \<open>atom\<close> consumes at least one byte, and the fuel of each routine covers the calls
  it makes at the bytes left.\<close>

lemma descent_ok:
  "(\<forall>closing alternatives st. parser_ok src st \<longrightarrow> list_all (symbols_ok (rule_count st)) alternatives \<longrightarrow>
      descends src (3 * (length src - position st) + 3 \<le> n) (position st) st (\<lambda>k. list_all (symbols_ok k))
        (expression n src closing alternatives st))
   \<and> (\<forall>closing symbols st. parser_ok src st \<longrightarrow> symbols_ok (rule_count st) symbols \<longrightarrow>
      descends src (3 * (length src - position st) + 2 \<le> n) (position st) st symbols_ok
        (sequence n src closing symbols st))
   \<and> (\<forall>st. parser_ok src st \<longrightarrow>
      descends src (3 * (length src - position st) + 1 \<le> n) (Suc (position st)) st symbols_ok (atom n src st))"
proof (induction n)
  case 0
  show ?case by (simp add: descends_def)
next
  case (Suc n)
  have E: "descends src (3 * (length src - position st) + 3 \<le> n) (position st) st (\<lambda>k. list_all (symbols_ok k))
      (expression n src closing alternatives st)"
    if "parser_ok src st" "list_all (symbols_ok (rule_count st)) alternatives" for closing alternatives st
    using Suc.IH that by blast
  have S: "descends src (3 * (length src - position st) + 2 \<le> n) (position st) st symbols_ok
      (sequence n src closing symbols st)"
    if "parser_ok src st" "symbols_ok (rule_count st) symbols" for closing symbols st
    using Suc.IH that by blast
  have A: "descends src (3 * (length src - position st) + 1 \<le> n) (Suc (position st)) st symbols_ok (atom n src st)"
    if "parser_ok src st" for st using Suc.IH that by blast
  have sk: "p \<le> skip_horizontal src p" "p \<le> length src \<Longrightarrow> skip_horizontal src p \<le> length src" for p
    using skip_while_ge skip_while_le by (auto simp: skip_horizontal_def)
  show ?case
  proof (intro conjI allI impI)
    fix closing alternatives st
    assume ok: "parser_ok src st" and alts: "list_all (symbols_ok (rule_count st)) alternatives"
    show "descends src (3 * (length src - position st) + 3 \<le> Suc n) (position st) st (\<lambda>k. list_all (symbols_ok k))
        (expression (Suc n) src closing alternatives st)"
      unfolding expression.simps
    proof (rule descends_chain [OF S [OF ok]], simp, unfold prod.case)
      fix s st1 assume st1: "parser_ok src st1" "rule_count st \<le> rule_count st1" "position st \<le> position st1"
        "symbols_ok (rule_count st1) s"
      let ?p = "skip_horizontal src (position st1)"
      have alts': "list_all (symbols_ok (rule_count st1)) (alternatives @ [s])"
        using alts st1(2,4) symbols_ok_mono by (fastforce simp: list_all_iff)
      have p: "position st1 \<le> ?p" "?p \<le> length src" using sk st1(1) by (auto simp: parser_ok_def)
      show "descends src (3 * (length src - position st) + 3 \<le> Suc n) (position st) st (\<lambda>k. list_all (symbols_ok k))
          (let p = ?p in if peek src p = Some 124
             then expression n src closing (alternatives @ [s]) (st1\<lparr>position := p + 1\<rparr>)
             else Inr (alternatives @ [s], st1\<lparr>position := p\<rparr>))"
      proof (cases "peek src ?p = Some 124")
        case True
        then have "?p < length src" by (simp add: peek_Some)
        then show ?thesis using True p st1 alts'
          by (auto simp: Let_def intro!: descends_weaken [OF E])
      next
        case False
        then show ?thesis using p st1 alts' by (simp add: Let_def descends_def)
      qed
    qed simp
  next
    fix closing symbols st assume ok: "parser_ok src st" and sy: "symbols_ok (rule_count st) symbols"
    let ?p = "skip_horizontal src (position st)"
    have p: "position st \<le> ?p" "?p \<le> length src" using sk ok by (auto simp: parser_ok_def)
    show "descends src (3 * (length src - position st) + 2 \<le> Suc n) (position st) st symbols_ok
        (sequence (Suc n) src closing symbols st)"
    proof (cases "\<exists>b. peek src ?p = Some b \<and> \<not> stops_sequence closing b")
      case True
      then have lt: "?p < length src" by (auto simp: peek_Some)
      let ?st = "st\<lparr>position := ?p\<rparr>"
      have ok': "parser_ok src ?st" using ok p by simp
      have "descends src (3 * (length src - position st) + 2 \<le> Suc n) (position st) ?st symbols_ok
          (case atom n src ?st of Inl err \<Rightarrow> Inl err | Inr y \<Rightarrow> (case y of (a, st1) \<Rightarrow> sequence n src closing (symbols @ a) st1))"
      proof (rule descends_chain [OF A [OF ok']], unfold prod.case)
        fix a st1 assume st1: "parser_ok src st1" "rule_count ?st \<le> rule_count st1" "Suc (position ?st) \<le> position st1"
          "symbols_ok (rule_count st1) a"
        then have "symbols_ok (rule_count st1) (symbols @ a)" using sy symbols_ok_mono by fastforce
        then show "descends src (3 * (length src - position st) + 2 \<le> Suc n) (position st) ?st symbols_ok
            (sequence n src closing (symbols @ a) st1)"
          by (rule descends_weaken [OF S [OF st1(1)]]) (use st1 p lt in auto)
      qed (use p in auto)
      then show ?thesis using True by (auto simp: Let_def descends_def split: sum.splits prod.splits)
    next
      case False
      then show ?thesis using ok p sy by (auto simp: Let_def descends_def split: option.splits)
    qed
  next
    fix st assume ok: "parser_ok src st"
    show "descends src (3 * (length src - position st) + 1 \<le> Suc n) (Suc (position st)) st symbols_ok (atom (Suc n) src st)"
      by (rule atom_step [OF E ok]) simp_all
  qed
qed

subsection \<open>Parsing a whole grammar\<close>

lemma expression_ok:
  assumes "parser_ok src st"
  shows "descends src True (position st) st (\<lambda>k. list_all (symbols_ok k)) (expression (parse_fuel src) src closing [] st)"
  by (rule descends_weaken [OF descent_ok [THEN conjunct1, rule_format, OF assms]]) (simp_all add: parse_fuel_def)

lemma consume_rule_end_ok:
  assumes "pos \<le> length src"
  shows "case consume_rule_end src pos of Inl err \<Rightarrow> err \<noteq> ParserFuel | Inr p \<Rightarrow> pos \<le> p \<and> p \<le> length src"
proof -
  let ?p = "skip_horizontal src pos"
  have p: "pos \<le> ?p" "?p \<le> length src"
    using skip_while_ge skip_while_le [OF assms] by (auto simp: skip_horizontal_def)
  moreover have "?p \<le> skip_while (\<lambda>b. b \<noteq> 10) src ?p" "skip_while (\<lambda>b. b \<noteq> 10) src ?p \<le> length src"
    using skip_while_ge skip_while_le [OF p(2)] by auto
  ultimately show ?thesis by (simp add: consume_rule_end_def Let_def)
qed

lemma parse_rule_ok:
  assumes ok: "parser_ok src st"
  shows "case parse_rule src st of Inl err \<Rightarrow> err \<noteq> ParserFuel
    | Inr st' \<Rightarrow> parser_ok src st' \<and> position st < position st'"
proof -
  have pos: "position st \<le> length src" using ok by (simp add: parser_ok_def)
  show ?thesis
  proof (cases "rule_name src (position st)")
    case (Inl err)
    then show ?thesis using rule_name_ok [OF pos] by (simp add: parse_rule_def lex_ok_def)
  next
    case (Inr np)
    obtain nm p where np: "np = (nm, p)" by (cases np)
    have p: "position st < p" "p \<le> length src" using rule_name_ok [OF pos] Inr np by (auto simp: lex_ok_def)
    obtain l st1 where id: "rule_id nm (st\<lparr>position := p\<rparr>) = (l, st1)" by fastforce
    have st1: "parser_ok src st1" "l < rule_count st1" "position st1 = p"
      using rule_id_ok [OF _ id, of src] ok p by (auto simp: extends_def)
    let ?e = "expect [58, 58, 61] src (skip_horizontal src (position st1))"
    show ?thesis
    proof (cases ?e)
      case e: (Inl err)
      then have "err \<noteq> ParserFuel" using expect_cases(2) [OF e] by simp
      then show ?thesis using Inr np id e by (simp add: parse_rule_def)
    next
      case e: (Inr q)
      then have q: "p \<le> q" "q \<le> length src"
        using skip_while_ge [of p is_horizontal src] st1(3) by (auto simp: expect_cases(1) skip_horizontal_def)
      let ?st2 = "st1\<lparr>position := q\<rparr>"
      have ok2: "parser_ok src ?st2" using st1 q by simp
      show ?thesis
      proof (cases "expression (parse_fuel src) src None [] ?st2")
        case x: (Inl err)
        then show ?thesis using expression_ok [OF ok2, of None] Inr np id e by (simp add: parse_rule_def descends_def)
      next
        case x: (Inr as)
        obtain alts st3 where as: "as = (alts, st3)" by (cases as)
        have st3: "parser_ok src st3" "rule_count st1 \<le> rule_count st3" "q \<le> position st3"
          "list_all (symbols_ok (rule_count st3)) alts"
          using expression_ok [OF ok2, of None] x as by (auto simp: descends_def)
        let ?st4 = "push_alternatives l alts st3"
        have st4: "parser_ok src ?st4" "position ?st4 = position st3"
          using push_alternatives_ok [OF st3(1) _ st3(4), of l] st1(2) st3(2) by (auto simp: extends_def)
        have "position ?st4 \<le> length src" using st4 by (simp add: parser_ok_def)
        from consume_rule_end_ok [OF this] show ?thesis
          using Inr np id e x as st4 st3(3) p q
          by (cases "consume_rule_end src (position ?st4)") (auto simp: parse_rule_def Let_def)
      qed
    qed
  qed
qed

lemma skip_layout_ok:
  "pos \<le> length src \<Longrightarrow> skip_layout newlines src pos = (p, unread) \<Longrightarrow>
    pos \<le> p \<and> p \<le> length src \<and> (unread \<longleftrightarrow> p < length src)"
proof (induction newlines src pos rule: skip_layout.induct)
  case (1 newlines src pos)
  let ?q = "skip_while (\<lambda>b. is_horizontal b \<or> newlines \<and> (b = 13 \<or> b = 10)) src pos"
  have q: "pos \<le> ?q" "?q \<le> length src" using skip_while_ge skip_while_le [OF 1(2)] by auto
  show ?case
  proof (cases "peek src ?q = Some 35")
    case True
    have "?q \<le> skip_while (\<lambda>b. b \<noteq> 10) src ?q" "skip_while (\<lambda>b. b \<noteq> 10) src ?q \<le> length src"
      using skip_while_ge skip_while_le [OF q(2)] by auto
    with 1(1) [OF refl True] 1(3) True q show ?thesis by (auto simp: skip_layout.simps [of newlines src pos] Let_def)
  next
    case False
    then show ?thesis using 1(3) q by (auto simp: skip_layout.simps [of newlines src pos] Let_def)
  qed
qed

lemma parse_rules_ok:
  assumes "parser_ok src st" and "length src - position st < n"
  shows "case parse_rules n src st of Inl err \<Rightarrow> err \<noteq> ParserFuel | Inr st' \<Rightarrow> parser_ok src st'"
  using assms
proof (induction n arbitrary: st)
  case (Suc n)
  obtain p unread where sk: "skip_layout True src (position st) = (p, unread)" by fastforce
  have p: "position st \<le> p" "p \<le> length src" "unread \<longleftrightarrow> p < length src"
    using skip_layout_ok [OF _ sk] Suc.prems by (auto simp: parser_ok_def)
  show ?case
  proof (cases unread)
    case True
    let ?st = "st\<lparr>position := p\<rparr>"
    have ok: "parser_ok src ?st" using Suc.prems p by simp
    show ?thesis
    proof (cases "parse_rule src ?st")
      case (Inl err)
      then show ?thesis using sk True parse_rule_ok [OF ok] by simp
    next
      case (Inr st1)
      then have st1: "parser_ok src st1" "p < position st1" using parse_rule_ok [OF ok] by auto
      then have "position st1 \<le> length src" by (simp add: parser_ok_def)
      then have "case parse_rules n src st1 of Inl err \<Rightarrow> err \<noteq> ParserFuel | Inr st' \<Rightarrow> parser_ok src st'"
        using Suc.prems st1 p by (intro Suc.IH) auto
      then show ?thesis using sk True Inr by simp
    qed
  qed (use sk p Suc.prems in simp)
qed simp

lemma index_by_lhs_eq:
  assumes "\<forall>p\<in>set ps. lhs p < n"
  shows "index_by_lhs ps n = map (\<lambda>r. filter (\<lambda>i. lhs (ps ! i) = r) [0..<length ps]) [0..<n]"
  using assms
proof (induction ps rule: rev_induct)
  case Nil
  show ?case by (simp add: index_by_lhs_def map_replicate_trivial)
next
  case (snoc p ps)
  have IH: "index_by_lhs ps n = map (\<lambda>r. filter (\<lambda>i. lhs (ps ! i) = r) [0..<length ps]) [0..<n]"
    using snoc by simp
  have "index_by_lhs (ps @ [p]) n
      = (index_by_lhs ps n)[lhs p := index_by_lhs ps n ! lhs p @ [length ps]]"
    by (simp add: index_by_lhs_def enumerate_append_eq)
  also have "\<dots> = map (\<lambda>r. filter (\<lambda>i. lhs ((ps @ [p]) ! i) = r) [0..<length (ps @ [p])]) [0..<n]"
  proof (rule nth_equalityI)
    fix r assume "r < length ((index_by_lhs ps n)[lhs p := index_by_lhs ps n ! lhs p @ [length ps]])"
    then have r: "r < n" by (simp add: IH)
    have "filter (\<lambda>i. lhs ((ps @ [p]) ! i) = r) [0..<length ps] = filter (\<lambda>i. lhs (ps ! i) = r) [0..<length ps]"
      by (rule filter_cong) (auto simp: nth_append)
    then show "(index_by_lhs ps n)[lhs p := index_by_lhs ps n ! lhs p @ [length ps]] ! r
        = map (\<lambda>r. filter (\<lambda>i. lhs ((ps @ [p]) ! i) = r) [0..<length (ps @ [p])]) [0..<n] ! r"
      using r by (cases "r = lhs p") (simp_all add: IH)
  qed (simp add: IH)
  finally show ?case .
qed

lemma finish_grammar_ok:
  assumes ok: "parser_ok src st" and fin: "finish_grammar root st = Inr g"
  shows "wf_grammar g"
proof -
  obtain r where r: "map_of (names st) root = Some r"
    using fin by (auto simp: finish_grammar_def split: option.splits)
  let ?n = "rule_count st" and ?ps = "parsed st @ [\<lparr>lhs = rule_count st, rhs = [Rule r]\<rparr>]"
  have g: "g = \<lparr>productions = ?ps, by_lhs = index_by_lhs ?ps (Suc ?n), start_production = length (parsed st)\<rparr>"
    using fin r by (auto simp: finish_grammar_def Let_def split: if_splits)
  have "r \<in> set (map snd (names st))" using r by (force dest: map_of_SomeD)
  then have rn: "r < ?n" using ok by (simp only: parser_ok_def) simp
  have ps: "production_ok (Suc ?n) p" if "p \<in> set ?ps" for p
    using that ok rn production_ok_mono [of ?n _ "Suc ?n"]
    by (auto simp: parser_ok_def list_all_iff production_ok_def symbol_ok_def)
  then have idx: "index_by_lhs ?ps (Suc ?n)
      = map (\<lambda>r. filter (\<lambda>i. lhs (?ps ! i) = r) [0..<length ?ps]) [0..<Suc ?n]"
    by (intro index_by_lhs_eq) (auto simp: production_ok_def)
  have len: "length (by_lhs g) = Suc ?n" unfolding g by (simp add: idx del: upt_Suc)
  have sym: "wf_symbol g = symbol_ok (Suc ?n)"
    by (simp add: fun_eq_iff wf_symbol_def symbol_ok_def len split: symbol.splits)
  show ?thesis unfolding wf_grammar_def sym len
    using ps idx by (simp add: g list_all_iff production_ok_def del: upt_Suc)
qed

lemma parse_gbnf_ok:
  "case parse_gbnf src root of Inl err \<Rightarrow> err \<noteq> ParserFuel | Inr g \<Rightarrow> wf_grammar g"
proof -
  have "parser_ok src new_parser" "length src - position new_parser < length src + 1"
    by (simp_all add: parser_ok_def new_parser_def)
  note rules = parse_rules_ok [OF this]
  show ?thesis
  proof (cases "parse_rules (length src + 1) src new_parser")
    case (Inl err)
    then show ?thesis using rules by (simp add: parse_gbnf_def)
  next
    case (Inr st)
    moreover have "finish_grammar root st \<noteq> Inl ParserFuel"
      by (auto simp: finish_grammar_def Let_def split: option.splits)
    ultimately show ?thesis
      using rules finish_grammar_ok [of src st root] by (auto simp: parse_gbnf_def split: sum.splits)
  qed
qed

text \<open>C23: The GBNF parser returns on every text, without running out of its fuel, and every grammar it
  returns is well formed: the start production has one symbol, every rule named in a production has
  an entry in the index, the index lists exactly the productions of each rule in order, and every
  character range ascends.\<close>

theorem gbnf_parse_wf:
  "case parse_gbnf src root of Inl err \<Rightarrow> err \<noteq> ParserFuel | Inr g \<Rightarrow> wf_grammar g"
  by (rule parse_gbnf_ok)

text \<open>C19: Grammar-constrained decoding is exact, from the text of the grammar to the sampled tokens.
  For every grammar text that the parser accepts, feeding tokens to the matcher never panics; when all
  are accepted, \<open>is_accepting\<close> (and so the end-of-sequence token) holds exactly when some reading of
  the tokens (each a token terminal or a run of UTF-8 bytes, with characters that may straddle
  tokens) is a sentence of the grammar with no byte left pending; and a token is refused only when no
  continuation of the sequence, however long, has such a reading.\<close>

theorem constrained_decoding_exact:
  "case parse_gbnf src root of
     Inl err \<Rightarrow> err \<noteq> ParserFuel
   | Inr g \<Rightarrow>
       (case match_tokens g ts of
          Inr m \<Rightarrow> is_accepting m \<longleftrightarrow> (\<exists>w. (w, []) \<in> readings ts ([], []) \<and> language g w)
        | Inl err \<Rightarrow> err \<noteq> MatcherPanic
            \<and> \<not> (\<exists>more w. (w, []) \<in> readings (ts @ more) ([], []) \<and> language g w))"
proof (cases "parse_gbnf src root")
  case (Inr g)
  then have "wf_grammar g" using parse_gbnf_ok [of src root] by simp
  from match_tokens_exact [OF this, of ts] Inr show ?thesis by simp
qed (use parse_gbnf_ok [of src root] in simp)

subsection \<open>Repetitions\<close>



lemma event_symbol_Rule [simp]: "\<not> event_symbol e (Rule r)"
  by (cases e) (simp_all add: character_symbol_def token_symbol_def)




text \<open>Rules allocated while no name of the text collides with a generated one.\<close>

definition names_fresh :: "parser \<Rightarrow> bool" where
  "names_fresh st \<longleftrightarrow> (\<forall>k\<ge>generated st. map_of (names st) (generated_name k) = None)"





lemma names_fresh_push [simp]: "names_fresh (push_production l r st) \<longleftrightarrow> names_fresh st"
  by (simp add: names_fresh_def push_production_def)

lemma push_fields [simp]:
  "names (push_production l r st) = names st"
  "parsed (push_production l r st) = parsed st @ [\<lparr>lhs = l, rhs = r\<rparr>]"
  by (simp_all add: push_production_def)













end
