(* ===== verification/Dflash_Cache.thy ===== *)
theory Dflash_Cache
  imports Transfer_Schedule
begin

section \<open>The context cache of the draft model\<close>

text \<open>
  \<open>crates/muser-engine/src/dflash/cache.rs\<close>: per layer a key and a value plane that keep the first
  \<open>sink_size\<close> rows of the context and its last \<open>window_size\<close> rows, with checkpoints that undo one
  provisional append and snapshots. A plane is a flat list of 32-bit float patterns, \<open>width\<close> of them per row.
  Revisions are \<open>u64\<close> with wrapping increments; the identity counter of new caches is an argument. Sums
  of row counts are not bounded (they count rows that are in memory). \<open>assert!\<close> and slices out of range
  are the error \<open>CachePanic\<close>.

  Shown here: after any sequence of rounds the cache holds exactly the sink and the window of each
  layer's history, at the absolute positions it reports; a rollback restores the cache exactly, also when
  only some layers were appended; installing a snapshot and taking it again is the identity.
\<close>

subsection \<open>State\<close>

type_synonym f32s = "u32 list"

record context_cache =
  ctx_k :: "f32s list"
  ctx_v :: "f32s list"
  ctx_len :: nat
  ctx_offset :: nat
  ctx_sink :: nat
  ctx_window :: nat
  ctx_width :: nat
  ctx_identity :: nat
  ctx_revision :: nat
  layer_revisions :: "nat list"

record context_checkpoint =
  cp_identity :: nat
  cp_len :: nat
  cp_offset :: nat
  cp_revision :: nat
  cp_sink :: nat
  cp_window :: nat
  cp_width :: nat
  cp_append_tokens :: nat
  cp_removed_rows :: nat
  cp_removed :: "(f32s \<times> f32s) list"
  cp_layer_revisions :: "nat list"

record context_snapshot =
  sn_position :: nat
  sn_sink :: nat
  sn_window :: nat
  sn_elements :: nat
  sn_layers :: "(f32s \<times> f32s) list"

datatype cache_error = SnapshotGeometry | SnapshotOverflow | SnapshotPlaneLength | GeometryMismatch string nat nat
  | RollbackIdentity | RollbackAppendCount | RollbackOverflow | RollbackRetention | RollbackTail | RollbackTarget
  | RollbackLayerRevision nat | RollbackLayerLength nat | RollbackIncomplete | RollbackInconsistent
  | IncompleteAppend | GapNotAfterSink | CachePanic

definition wrapping_succ :: "nat \<Rightarrow> nat" where
  "wrapping_succ n = (n + 1) mod 2 ^ 64"

definition new_cache :: "nat \<Rightarrow> nat \<Rightarrow> nat \<Rightarrow> nat \<Rightarrow> nat \<Rightarrow> cache_error + context_cache" where
  "new_cache identity layers width sink window =
     (if width = 0 then Inl CachePanic
      else Inr \<lparr>ctx_k = replicate layers [], ctx_v = replicate layers [], ctx_len = 0, ctx_offset = 0,
        ctx_sink = sink, ctx_window = window, ctx_width = width, ctx_identity = identity,
        ctx_revision = 0, layer_revisions = replicate layers 0\<rparr>)"

definition physical_capacity :: "context_cache \<Rightarrow> nat" where
  "physical_capacity c = ctx_sink c + ctx_window c"

text \<open>\<open>&plane[rows(start, count)]\<close> and \<open>Vec::drain(rows(start, count))\<close>.\<close>

definition row_slice :: "nat \<Rightarrow> nat \<Rightarrow> nat \<Rightarrow> f32s \<Rightarrow> cache_error + f32s" where
  "row_slice width start count plane =
     (if (start + count) * width \<le> length plane then Inr (take (count * width) (drop (start * width) plane)) else Inl CachePanic)"

definition row_drain :: "nat \<Rightarrow> nat \<Rightarrow> nat \<Rightarrow> f32s \<Rightarrow> cache_error + f32s" where
  "row_drain width start count plane =
     (if (start + count) * width \<le> length plane
      then Inr (take (start * width) plane @ drop ((start + count) * width) plane) else Inl CachePanic)"

definition k_rows :: "context_cache \<Rightarrow> nat \<Rightarrow> nat \<Rightarrow> nat \<Rightarrow> cache_error + f32s" where
  "k_rows c layer start count =
     (if layer < length (ctx_k c) then row_slice (ctx_width c) start count (ctx_k c ! layer) else Inl CachePanic)"

definition v_rows :: "context_cache \<Rightarrow> nat \<Rightarrow> nat \<Rightarrow> nat \<Rightarrow> cache_error + f32s" where
  "v_rows c layer start count =
     (if layer < length (ctx_v c) then row_slice (ctx_width c) start count (ctx_v c ! layer) else Inl CachePanic)"

text \<open>The plain cache of the draft model: planes that are only cropped.\<close>

record draft_kv_cache =
  kv_k :: "f32s list"
  kv_v :: "f32s list"
  kv_len :: nat
  kv_width :: nat

definition new_kv_cache :: "nat \<Rightarrow> nat \<Rightarrow> draft_kv_cache" where
  "new_kv_cache layers width = \<lparr>kv_k = replicate layers [], kv_v = replicate layers [], kv_len = 0, kv_width = width\<rparr>"

definition crop :: "draft_kv_cache \<Rightarrow> nat \<Rightarrow> cache_error + draft_kv_cache" where
  "crop c n =
     (let keep = min n (kv_len c)
      in if length (kv_v c) < length (kv_k c) then Inl CachePanic
         else Inr (c\<lparr>kv_k := map (take (keep * kv_width c)) (kv_k c),
                     kv_v := map (take (keep * kv_width c)) (take (length (kv_k c)) (kv_v c)) @ drop (length (kv_k c)) (kv_v c),
                     kv_len := keep\<rparr>))"

subsection \<open>Appending\<close>

definition retain_long :: "context_cache \<Rightarrow> nat \<Rightarrow> f32s \<Rightarrow> f32s \<Rightarrow> cache_error + f32s" where
  "retain_long c tokens current fresh =
     (let w = ctx_width c;
          sink_from_current = min (length current div w) (ctx_sink c);
          sink_from_fresh = ctx_sink c - sink_from_current
      in bind_res (row_slice w 0 sink_from_current current) (\<lambda>a.
         bind_res (row_slice w 0 sink_from_fresh fresh) (\<lambda>b.
         bind_res (row_slice w (tokens - ctx_window c) (ctx_window c) fresh) (\<lambda>d. Inr (a @ b @ d)))))"

definition set_layer :: "context_cache \<Rightarrow> nat \<Rightarrow> f32s \<Rightarrow> f32s \<Rightarrow> context_cache" where
  "set_layer c layer k v = c\<lparr>ctx_k := (ctx_k c)[layer := k], ctx_v := (ctx_v c)[layer := v],
     layer_revisions := (layer_revisions c)[layer := wrapping_succ (layer_revisions c ! layer)]\<rparr>"

definition append_layer :: "context_cache \<Rightarrow> nat \<Rightarrow> f32s \<Rightarrow> f32s \<Rightarrow> nat \<Rightarrow> cache_error + context_cache" where
  "append_layer c layer k v tokens =
     (let w = ctx_width c; needed = tokens * w; maximum = ctx_sink c + ctx_window c
      in if length k < needed \<or> length v < needed
           \<or> length (ctx_k c) \<le> layer \<or> length (ctx_v c) \<le> layer \<or> length (layer_revisions c) \<le> layer
         then Inl CachePanic
         else if tokens > maximum then
           bind_res (retain_long c tokens (ctx_k c ! layer) k) (\<lambda>k'.
           bind_res (retain_long c tokens (ctx_v c ! layer) v) (\<lambda>v'. Inr (set_layer c layer k' v')))
         else
           let k' = ctx_k c ! layer @ take needed k; v' = ctx_v c ! layer @ take needed v; total = length k' div w
           in if total > maximum then
                bind_res (row_drain w (ctx_sink c) (total - maximum) k') (\<lambda>k''.
                bind_res (row_drain w (ctx_sink c) (total - maximum) v') (\<lambda>v''. Inr (set_layer c layer k'' v'')))
              else Inr (set_layer c layer k' v'))"

definition planes_full :: "context_cache \<Rightarrow> bool" where
  "planes_full c = list_all (\<lambda>(k, v). length k = ctx_len c * ctx_width c \<and> length v = ctx_len c * ctx_width c)
     (zip (ctx_k c) (ctx_v c))"

definition advance_round :: "context_cache \<Rightarrow> nat \<Rightarrow> cache_error + context_cache" where
  "advance_round c tokens =
     (let c1 = c\<lparr>ctx_offset := ctx_offset c + tokens,
                 ctx_len := (case ctx_k c of [] \<Rightarrow> 0 | k # _ \<Rightarrow> length k div ctx_width c)\<rparr>
      in if \<not> planes_full c1 then Inl CachePanic
         else Inr (c1\<lparr>ctx_revision := wrapping_succ (ctx_revision c1)\<rparr>))"

definition advance_prompt_gap :: "context_cache \<Rightarrow> nat \<Rightarrow> cache_error + context_cache" where
  "advance_prompt_gap c next_offset =
     (let expected_sink = min (ctx_sink c) (ctx_offset c)
      in if next_offset \<le> ctx_offset c \<or> ctx_len c \<noteq> expected_sink \<or> ctx_offset c \<noteq> expected_sink
         then Inl GapNotAfterSink
         else Inr (c\<lparr>ctx_offset := next_offset, ctx_revision := wrapping_succ (ctx_revision c)\<rparr>))"

text \<open>The remainder by an empty window panics.\<close>

definition physical_slot :: "context_cache \<Rightarrow> nat \<Rightarrow> cache_error + nat" where
  "physical_slot c pos =
     (if pos < ctx_sink c then Inr pos
      else if ctx_window c = 0 then Inl CachePanic
      else Inr (ctx_sink c + (pos - ctx_sink c) mod ctx_window c))"

definition retained_absolute_position :: "context_cache \<Rightarrow> nat \<Rightarrow> cache_error + nat" where
  "retained_absolute_position c row =
     (if row \<ge> ctx_len c then Inl CachePanic
      else
        let sink_rows = min (ctx_len c) (ctx_sink c); tail_rows = ctx_len c - sink_rows
        in if row < sink_rows then Inr row
           else if tail_rows > ctx_offset c then Inl CachePanic
           else Inr (ctx_offset c - tail_rows + (row - sink_rows)))"

subsection \<open>Checkpoints\<close>

definition checkpoint_append :: "context_cache \<Rightarrow> nat \<Rightarrow> cache_error + context_checkpoint" where
  "checkpoint_append c tokens =
     (let removed_rows = ctx_len c + tokens - (ctx_sink c + ctx_window c)
      in bind_res
           (if removed_rows = 0 then Inr (replicate (length (ctx_k c)) ([], []))
            else map_res (\<lambda>(k, v).
                bind_res (row_slice (ctx_width c) (ctx_sink c) removed_rows k) (\<lambda>rk.
                bind_res (row_slice (ctx_width c) (ctx_sink c) removed_rows v) (\<lambda>rv. Inr (rk, rv))))
              (zip (ctx_k c) (ctx_v c)))
           (\<lambda>removed. Inr \<lparr>cp_identity = ctx_identity c, cp_len = ctx_len c, cp_offset = ctx_offset c,
              cp_revision = ctx_revision c, cp_sink = ctx_sink c, cp_window = ctx_window c, cp_width = ctx_width c,
              cp_append_tokens = tokens, cp_removed_rows = removed_rows, cp_removed = removed,
              cp_layer_revisions = layer_revisions c\<rparr>))"

text \<open>The checks of the layers of a rollback target, with the number of layers already appended.\<close>

fun check_layers :: "nat \<Rightarrow> nat \<Rightarrow> nat \<Rightarrow> ((f32s \<times> f32s) \<times> nat \<times> nat) list \<Rightarrow> cache_error + nat" where
  "check_layers layer before after [] = Inr 0"
| "check_layers layer before after (((key, val), current, previous) # rest) =
     bind_res
       (if current = previous then Inr (before, 0)
        else if current = wrapping_succ previous then Inr (after, 1)
        else Inl (RollbackLayerRevision layer))
       (\<lambda>(expected, changed).
          if length key \<noteq> expected \<or> length val \<noteq> expected then Inl (RollbackLayerLength layer)
          else bind_res (check_layers (layer + 1) before after rest) (\<lambda>n. Inr (n + changed)))"

definition validate_rollback_target :: "context_cache \<Rightarrow> context_checkpoint \<Rightarrow> cache_error + unit" where
  "validate_rollback_target c cp =
     (let n = length (cp_layer_revisions cp)
      in if ctx_identity c \<noteq> cp_identity cp \<or> ctx_sink c \<noteq> cp_sink cp \<or> ctx_window c \<noteq> cp_window cp
           \<or> ctx_width c \<noteq> cp_width cp \<or> length (ctx_k c) \<noteq> n \<or> length (ctx_v c) \<noteq> n
           \<or> length (layer_revisions c) \<noteq> n \<or> length (cp_removed cp) \<noteq> n
         then Inl RollbackIdentity
         else if cp_append_tokens cp = 0 \<or> cp_append_tokens cp > ctx_window c then Inl RollbackAppendCount
         else case checked_add (cp_len cp) (cp_append_tokens cp) of
             None \<Rightarrow> Inl RollbackOverflow
           | Some appended_rows \<Rightarrow>
               let capacity = physical_capacity c;
                   removed_elements = cp_removed_rows cp * ctx_width c;
                   after_rows = min appended_rows capacity
               in if cp_len cp > capacity \<or> cp_removed_rows cp \<noteq> appended_rows - capacity
                    \<or> cp_removed_rows cp > cp_len cp
                  then Inl RollbackRetention
                  else if list_ex (\<lambda>(k, v). length k \<noteq> removed_elements \<or> length v \<noteq> removed_elements) (cp_removed cp)
                  then Inl RollbackTail
                  else
                    let is_before = ctx_revision c = cp_revision cp \<and> ctx_len c = cp_len cp \<and> ctx_offset c = cp_offset cp;
                        maybe_after = ctx_revision c = wrapping_succ (cp_revision cp) \<and> ctx_len c = after_rows
                    in if maybe_after \<and> checked_add (cp_offset cp) (cp_append_tokens cp) = None
                       then Inl RollbackOverflow
                       else
                         let is_after = maybe_after \<and> ctx_offset c = cp_offset cp + cp_append_tokens cp
                         in if \<not> is_before \<and> \<not> is_after then Inl RollbackTarget
                            else bind_res
                              (check_layers 0 (cp_len cp * ctx_width c) (after_rows * ctx_width c)
                                 (zip (zip (ctx_k c) (ctx_v c)) (zip (layer_revisions c) (cp_layer_revisions cp))))
                              (\<lambda>changed. if is_after \<and> changed \<noteq> n then Inl RollbackIncomplete else Inr ()))"

definition validate_completed_append :: "context_cache \<Rightarrow> context_checkpoint \<Rightarrow> cache_error + unit" where
  "validate_completed_append c cp =
     bind_res (validate_rollback_target c cp) (\<lambda>_.
       let after_rows = min (cp_len cp + cp_append_tokens cp) (cp_sink cp + cp_window cp)
       in if ctx_revision c \<noteq> wrapping_succ (cp_revision cp) \<or> ctx_len c \<noteq> after_rows then Inl IncompleteAppend
          else case checked_add (cp_offset cp) (cp_append_tokens cp) of
              None \<Rightarrow> Inl RollbackOverflow
            | Some offset \<Rightarrow>
                if ctx_offset c \<noteq> offset
                  \<or> list_ex (\<lambda>(after, before). after \<noteq> wrapping_succ before) (zip (layer_revisions c) (cp_layer_revisions cp))
                then Inl IncompleteAppend else Inr ())"

text \<open>One layer of a rollback: unchanged when its revision is the old one, otherwise the appended rows
  are cut off and the evicted ones put back behind the sink. Truncating below zero and splicing past
  the end panic.\<close>

definition restore_plane :: "nat \<Rightarrow> nat \<Rightarrow> nat \<Rightarrow> f32s \<Rightarrow> f32s \<Rightarrow> cache_error + f32s" where
  "restore_plane appended insertion removed_rows plane removed =
     (if length plane < appended then Inl CachePanic
      else
        let kept = take (length plane - appended) plane
        in if removed_rows = 0 then Inr kept
           else if length kept < insertion then Inl CachePanic
           else Inr (take insertion kept @ removed @ drop insertion kept))"

definition restore_layer ::
  "nat \<Rightarrow> nat \<Rightarrow> nat \<Rightarrow> ((f32s \<times> f32s) \<times> (f32s \<times> f32s)) \<times> nat \<times> nat \<Rightarrow> cache_error + (f32s \<times> f32s)" where
  "restore_layer appended insertion removed_rows = (\<lambda>(((key, val), (removed_key, removed_value)), current, previous).
     if current = previous then Inr (key, val)
     else bind_res (restore_plane appended insertion removed_rows key removed_key) (\<lambda>k.
          bind_res (restore_plane appended insertion removed_rows val removed_value) (\<lambda>v. Inr (k, v))))"

definition rollback_append :: "context_cache \<Rightarrow> context_checkpoint \<Rightarrow> cache_error + context_cache" where
  "rollback_append c cp =
     bind_res (validate_rollback_target c cp) (\<lambda>_.
     bind_res (map_res (restore_layer (cp_append_tokens cp * ctx_width c) (ctx_sink c * ctx_width c) (cp_removed_rows cp))
         (zip (zip (zip (ctx_k c) (ctx_v c)) (cp_removed cp)) (zip (layer_revisions c) (cp_layer_revisions cp))))
       (\<lambda>planes.
          let c1 = c\<lparr>ctx_k := map fst planes, ctx_v := map snd planes, ctx_len := cp_len cp, ctx_offset := cp_offset cp,
                     ctx_revision := cp_revision cp, layer_revisions := cp_layer_revisions cp\<rparr>
          in if planes_full c1 then Inr c1 else Inl RollbackInconsistent))"

subsection \<open>Snapshots\<close>

definition snapshot_validate :: "context_snapshot \<Rightarrow> cache_error + unit" where
  "snapshot_validate s =
     (if sn_position s = 0 \<or> sn_elements s = 0 \<or> sn_layers s = [] \<or> sn_sink s = 0 \<or> sn_window s = 0
      then Inl SnapshotGeometry
      else case checked_mul (min (sn_position s) (sn_sink s + sn_window s)) (sn_elements s) of
          None \<Rightarrow> Inl SnapshotOverflow
        | Some elements \<Rightarrow>
            if list_ex (\<lambda>(k, v). length k \<noteq> elements \<or> length v \<noteq> elements) (sn_layers s)
            then Inl SnapshotPlaneLength else Inr ())"

definition context_geometry :: "context_cache \<Rightarrow> dflash_geometry" where
  "context_geometry c = \<lparr>geo_layers = length (ctx_k c), geo_elements_per_token = ctx_width c,
     sink_size = ctx_sink c, window_size = ctx_window c\<rparr>"

definition validate_snapshot_identity :: "context_cache \<Rightarrow> context_snapshot \<Rightarrow> cache_error + unit" where
  "validate_snapshot_identity c s =
     bind_res (snapshot_validate s) (\<lambda>_.
       let expected = context_geometry c
       in for_each (\<lambda>(name, expected, actual). if actual \<noteq> expected then Inl (GeometryMismatch name expected actual) else Inr ())
            [(''layers'', geo_layers expected, length (sn_layers s)),
             (''elements_per_token'', geo_elements_per_token expected, sn_elements s),
             (''sink_size'', sink_size expected, sn_sink s),
             (''window_size'', window_size expected, sn_window s)])"

definition cache_snapshot :: "context_cache \<Rightarrow> context_snapshot" where
  "cache_snapshot c = \<lparr>sn_position = ctx_offset c, sn_sink = ctx_sink c, sn_window = ctx_window c,
     sn_elements = ctx_width c, sn_layers = zip (ctx_k c) (ctx_v c)\<rparr>"

definition install_snapshot :: "context_cache \<Rightarrow> context_snapshot \<Rightarrow> cache_error + context_cache" where
  "install_snapshot c s =
     bind_res (validate_snapshot_identity c s) (\<lambda>_.
       let c1 = c\<lparr>ctx_offset := sn_position s, ctx_len := min (sn_position s) (sn_sink s + sn_window s)\<rparr>;
           c2 = foldl (\<lambda>c (layer, (key, val)). set_layer c layer key val) c1 (List.enumerate 0 (sn_layers s))
       in Inr (c2\<lparr>ctx_revision := wrapping_succ (ctx_revision c2)\<rparr>))"

definition prepare_snapshot :: "nat \<Rightarrow> context_cache \<Rightarrow> context_snapshot \<Rightarrow> cache_error + context_cache" where
  "prepare_snapshot identity c s =
     bind_res (validate_snapshot_identity c s) (\<lambda>_.
     bind_res (new_cache identity (length (ctx_k c)) (ctx_width c) (ctx_sink c) (ctx_window c)) (\<lambda>prepared.
       install_snapshot prepared s))"

subsection \<open>Rows\<close>

text \<open>What the cache should keep of a history of rows.\<close>

definition retained :: "nat \<Rightarrow> nat \<Rightarrow> 'a list \<Rightarrow> 'a list" where
  "retained sink window h =
     (if length h \<le> sink + window then h else take sink h @ drop (length h - window) h)"

definition rows_ok :: "nat \<Rightarrow> 'a list list \<Rightarrow> bool" where
  "rows_ok w rows \<longleftrightarrow> (\<forall>r\<in>set rows. length r = w)"

lemma rows_ok_simps [simp]:
  "rows_ok w []" "rows_ok w (r # rs) \<longleftrightarrow> length r = w \<and> rows_ok w rs"
  "rows_ok w (xs @ ys) \<longleftrightarrow> rows_ok w xs \<and> rows_ok w ys"
  by (auto simp: rows_ok_def)

lemma rows_ok_take_drop: "rows_ok w rs \<Longrightarrow> rows_ok w (take n rs)" "rows_ok w rs \<Longrightarrow> rows_ok w (drop n rs)"
  by (auto simp: rows_ok_def dest: in_set_takeD in_set_dropD)

lemma rows_ok_retained: "rows_ok w h \<Longrightarrow> rows_ok w (retained s m h)"
  by (simp add: retained_def rows_ok_take_drop)

lemma length_flat: "rows_ok w rs \<Longrightarrow> length (concat rs) = length rs * w"
  by (induction rs) auto

lemma take_flat: "rows_ok w rs \<Longrightarrow> take (n * w) (concat rs) = concat (take n rs)"
proof (induction rs arbitrary: n)
  case (Cons r rs)
  then show ?case by (cases n) auto
qed simp

lemma drop_flat: "rows_ok w rs \<Longrightarrow> drop (n * w) (concat rs) = concat (drop n rs)"
proof (induction rs arbitrary: n)
  case (Cons r rs)
  then show ?case by (cases n) auto
qed simp

lemma length_retained: "length (retained s m h) = min (length h) (s + m)"
  by (simp add: retained_def)

lemma take_retained: "take s (retained s m h) = take s h"
  by (simp add: retained_def)

lemma retained_append_long:
  assumes "s + m < length f"
  shows "take (min (length (retained s m h)) s) (retained s m h) @ take (s - min (length (retained s m h)) s) f
      @ drop (length f - m) f = retained s m (h @ f)"
proof -
  have "take (min (length (retained s m h)) s) (retained s m h) = take s h"
    using take_retained [of s m h] by (metis min.cobounded1 min_def take_all)
  moreover have "s - min (length (retained s m h)) s = s - length h" by (simp add: length_retained min_def)
  ultimately show ?thesis using assms by (simp add: retained_def)
qed

lemma retained_append_short:
  "(if length (retained s m h @ f) > s + m
    then take s (retained s m h @ f) @ drop (s + (length (retained s m h @ f) - (s + m))) (retained s m h @ f)
    else retained s m h @ f) = retained s m (h @ f)"
proof (cases "length h \<le> s + m")
  case True
  then show ?thesis by (simp add: retained_def algebra_simps)
next
  case False
  let ?x = "drop (length h - m) h"
  have r: "retained s m h = take s h @ ?x" and x: "length ?x = m" and s: "s \<le> length h"
    using False by (simp_all add: retained_def)
  have "drop (length h + length f - m) (h @ f) = drop (length f) (drop (length h - m) (h @ f))"
    using False by (simp add: drop_drop [symmetric] del: drop_append) (simp add: algebra_simps)
  also have "drop (length h - m) (h @ f) = ?x @ f" by simp
  finally have dr: "drop (length h + length f - m) (h @ f) = drop (length f) (?x @ f)" .
  have "retained s m (h @ f) = take s h @ drop (length f) (?x @ f)"
    using False dr s by (simp add: retained_def del: drop_append)
  moreover have "drop (s + length f) (take s h @ ?x @ f) = drop (length f) (?x @ f)"
    using s by (simp only: drop_drop [symmetric] add.commute [of s]) simp
  ultimately show ?thesis using r x s by (cases "f = []") (simp_all del: drop_append)
qed

subsection \<open>Appending rows\<close>

lemma flat_facts:
  assumes "rows_ok w rs"
  shows "length (concat rs) = length rs * w" and "take (n * w) (concat rs) = concat (take n rs)"
    and "drop (n * w) (concat rs) = concat (drop n rs)"
  using assms by (simp_all add: length_flat take_flat drop_flat)

lemma row_slice_flat:
  assumes rs: "rows_ok w rs" and len: "start + count \<le> length rs"
  shows "row_slice w start count (concat rs @ junk) = Inr (concat (take count (drop start rs)))"
proof -
  note f = flat_facts [OF rs] and g = flat_facts [OF rows_ok_take_drop(2) [OF rs, of start]]
  have a: "(start + count) * w \<le> length rs * w" using len by (rule mult_le_mono1)
  have "count * w \<le> (length rs - start) * w" using len by (intro mult_le_mono1) simp
  then have b: "count * w \<le> length (concat (drop start rs))" by (simp only: g length_drop)
  have "start * w \<le> length (concat rs)" using len by (simp only: f) (intro mult_le_mono1, simp)
  then have "take (count * w) (drop (start * w) (concat rs @ junk)) = concat (take count (drop start rs))"
    using b by (simp add: f(3) g(2))
  moreover have "(start + count) * w \<le> length (concat rs @ junk)"
    unfolding length_append f(1) using a by (rule trans_le_add1)
  ultimately show ?thesis by (simp only: row_slice_def if_True)
qed

lemma row_drain_flat:
  assumes rs: "rows_ok w rs" and len: "start + count \<le> length rs"
  shows "row_drain w start count (concat rs) = Inr (concat (take start rs @ drop (start + count) rs))"
  using mult_le_mono1 [OF len, of w] flat_facts [OF rs] by (simp add: row_drain_def)

lemma retain_long_rows:
  assumes w: "ctx_width c = w" "0 < w" and h: "rows_ok w h" and f: "rows_ok w f" "length f = tokens"
    and long: "tokens > ctx_sink c + ctx_window c"
  shows "retain_long c tokens (concat (retained (ctx_sink c) (ctx_window c) h)) (concat f @ junk)
    = Inr (concat (retained (ctx_sink c) (ctx_window c) (h @ f)))"
proof -
  let ?s = "ctx_sink c" and ?m = "ctx_window c"
  let ?r = "retained ?s ?m h"
  have r: "rows_ok w ?r" using h by (rule rows_ok_retained)
  have n: "length (concat ?r) div w = length ?r" using length_flat [OF r] w by simp
  let ?a = "min (length ?r) ?s"
  have "row_slice w 0 ?a (concat ?r) = Inr (concat (take ?a ?r))"
    using row_slice_flat [OF r, of 0 ?a "[]"] by simp
  moreover have "row_slice w 0 (?s - ?a) (concat f @ junk) = Inr (concat (take (?s - ?a) f))"
    using row_slice_flat [OF f(1), of 0 "?s - ?a" junk] long f(2) by simp
  moreover have "row_slice w (tokens - ?m) ?m (concat f @ junk) = Inr (concat (drop (tokens - ?m) f))"
    using row_slice_flat [OF f(1), of "tokens - ?m" ?m junk] long f(2) by simp
  ultimately show ?thesis
    using retained_append_long [of ?s ?m f h] long f(2) w(1) n by (simp add: retain_long_def Let_def flip: concat_append)
qed

lemma append_layer_rows:
  assumes w: "ctx_width c = w" "0 < w" and layer: "layer < length (ctx_k c)" "layer < length (ctx_v c)" "layer < length (layer_revisions c)"
    and k: "ctx_k c ! layer = concat (retained (ctx_sink c) (ctx_window c) hk)" "rows_ok w hk" "rows_ok w fk" "length fk = tokens"
    and v: "ctx_v c ! layer = concat (retained (ctx_sink c) (ctx_window c) hv)" "rows_ok w hv" "rows_ok w fv" "length fv = tokens"
    and same: "length hv = length hk"
  shows "append_layer c layer (concat fk @ jk) (concat fv @ jv) tokens
    = Inr (set_layer c layer (concat (retained (ctx_sink c) (ctx_window c) (hk @ fk)))
                             (concat (retained (ctx_sink c) (ctx_window c) (hv @ fv))))"
proof -
  let ?s = "ctx_sink c" and ?m = "ctx_window c"
  have guard: "\<not> (length (concat fk @ jk) < tokens * w \<or> length (concat fv @ jv) < tokens * w
      \<or> length (ctx_k c) \<le> layer \<or> length (ctx_v c) \<le> layer \<or> length (layer_revisions c) \<le> layer)"
    using layer k v length_flat [of w fk] length_flat [of w fv] by simp
  show ?thesis
  proof (cases "tokens > ?s + ?m")
    case True
    then show ?thesis
      using guard k v w retain_long_rows [OF w k(2,3,4) True, of jk] retain_long_rows [OF w v(2,3,4) True, of jv]
      by (simp add: append_layer_def Let_def)
  next
    case False
    let ?rk = "retained ?s ?m hk @ fk" and ?rv = "retained ?s ?m hv @ fv"
    have ok: "rows_ok w ?rk" "rows_ok w ?rv" using k v by (simp_all add: rows_ok_retained)
    have tk: "take (tokens * w) (concat fk @ jk) = concat fk" "take (tokens * w) (concat fv @ jv) = concat fv"
      using k v flat_facts(1) [of w fk] flat_facts(1) [of w fv] by simp_all
    have len: "length ?rv = length ?rk" using same k v by (simp add: length_retained)
    have total: "length (concat ?rk) div w = length ?rk" using length_flat [OF ok(1)] w by simp
    show ?thesis
    proof (cases "length ?rk > ?s + ?m")
      case True
      have "?s + (length ?rk - (?s + ?m)) \<le> length ?rk" using True by simp
      from row_drain_flat [OF ok(1) this] row_drain_flat [OF ok(2) this [folded len]]
      show ?thesis
        using guard False True k(1) v(1) w tk total len retained_append_short [of ?s ?m hk fk] retained_append_short [of ?s ?m hv fv]
        by (simp add: append_layer_def Let_def del: length_append concat_append flip: concat_append)
    next
      case False
      then show ?thesis
        using guard \<open>\<not> tokens > ?s + ?m\<close> k(1) v(1) w tk total len retained_append_short [of ?s ?m hk fk] retained_append_short [of ?s ?m hv fv]
        by (simp add: append_layer_def Let_def del: length_append concat_append flip: concat_append)
    qed
  qed
qed

subsection \<open>Rounds\<close>

text \<open>A round appends the same number of rows to every layer and then advances; the callers of the cache
  (\<open>commit_round\<close> of the Metal backend, the CPU forward pass) make exactly these calls.\<close>

definition append_layers :: "context_cache \<Rightarrow> (nat \<times> f32s \<times> f32s) list \<Rightarrow> nat \<Rightarrow> cache_error + context_cache" where
  "append_layers c batch tokens =
     foldl (\<lambda>r (layer, k, v). bind_res r (\<lambda>c. append_layer c layer k v tokens)) (Inr c) batch"

definition append_round :: "context_cache \<Rightarrow> (f32s \<times> f32s) list \<Rightarrow> nat \<Rightarrow> cache_error + context_cache" where
  "append_round c planes tokens =
     bind_res (append_layers c (List.enumerate 0 planes) tokens) (\<lambda>c1. advance_round c1 tokens)"

text \<open>The fields other than the planes and the layer revisions, and the parts of the planes that hold
  a history: the refinement of the cache by the full histories of all layers.\<close>

definition holds :: "context_cache \<Rightarrow> nat \<Rightarrow> f32s list \<Rightarrow> f32s list \<Rightarrow> bool" where
  "holds c layer hk hv \<longleftrightarrow>
     ctx_k c ! layer = concat (retained (ctx_sink c) (ctx_window c) hk)
     \<and> ctx_v c ! layer = concat (retained (ctx_sink c) (ctx_window c) hv)
     \<and> rows_ok (ctx_width c) hk \<and> rows_ok (ctx_width c) hv \<and> length hv = length hk"

definition cache_layers :: "context_cache \<Rightarrow> nat \<Rightarrow> bool" where
  "cache_layers c n \<longleftrightarrow> length (ctx_k c) = n \<and> length (ctx_v c) = n \<and> length (layer_revisions c) = n \<and> 0 < ctx_width c"

definition same_scalars :: "context_cache \<Rightarrow> context_cache \<Rightarrow> bool" where
  "same_scalars c c' \<longleftrightarrow> ctx_len c' = ctx_len c \<and> ctx_offset c' = ctx_offset c \<and> ctx_sink c' = ctx_sink c
     \<and> ctx_window c' = ctx_window c \<and> ctx_width c' = ctx_width c \<and> ctx_identity c' = ctx_identity c
     \<and> ctx_revision c' = ctx_revision c"

lemma set_layer_fields [simp]:
  "same_scalars c (set_layer c layer k v)" "cache_layers (set_layer c layer k v) n \<longleftrightarrow> cache_layers c n"
  "ctx_k (set_layer c layer k v) = (ctx_k c)[layer := k]" "ctx_v (set_layer c layer k v) = (ctx_v c)[layer := v]"
  "layer_revisions (set_layer c layer k v) = (layer_revisions c)[layer := wrapping_succ (layer_revisions c ! layer)]"
  by (simp_all add: set_layer_def same_scalars_def cache_layers_def)

text \<open>Appending a batch for distinct layers: exactly those layers gain their rows.\<close>

definition batch_ok :: "context_cache \<Rightarrow> nat \<Rightarrow> nat \<Rightarrow> (nat \<Rightarrow> f32s list) \<Rightarrow> (nat \<Rightarrow> f32s list) \<Rightarrow> (nat \<times> f32s \<times> f32s) list \<Rightarrow> bool" where
  "batch_ok c n tokens fk fv batch \<longleftrightarrow> distinct (map fst batch) \<and> (\<forall>(layer, k, v)\<in>set batch. layer < n
     \<and> (\<exists>jk. k = concat (fk layer) @ jk) \<and> (\<exists>jv. v = concat (fv layer) @ jv)
     \<and> rows_ok (ctx_width c) (fk layer) \<and> length (fk layer) = tokens
     \<and> rows_ok (ctx_width c) (fv layer) \<and> length (fv layer) = tokens)"

definition layer_appended ::
  "context_cache \<Rightarrow> context_cache \<Rightarrow> (nat \<Rightarrow> f32s list) \<Rightarrow> (nat \<Rightarrow> f32s list) \<Rightarrow> nat \<Rightarrow> bool \<Rightarrow> bool" where
  "layer_appended c c' hk hv layer changed \<longleftrightarrow>
     (if changed then holds c' layer (hk layer) (hv layer) \<and> layer_revisions c' ! layer = wrapping_succ (layer_revisions c ! layer)
      else ctx_k c' ! layer = ctx_k c ! layer \<and> ctx_v c' ! layer = ctx_v c ! layer
        \<and> layer_revisions c' ! layer = layer_revisions c ! layer)"

lemma set_layer_other:
  "layer \<noteq> l \<Longrightarrow> layer_appended c (set_layer c1 l k v) hk hv layer changed \<longleftrightarrow> layer_appended c c1 hk hv layer changed"
  by (simp add: layer_appended_def holds_def set_layer_def)

lemma append_layers_rows:
  assumes "cache_layers c n" and h: "\<And>layer. layer < n \<Longrightarrow> holds c layer (hk layer) (hv layer)"
    and "batch_ok c n tokens fk fv batch"
  shows "\<exists>c'. append_layers c batch tokens = Inr c' \<and> cache_layers c' n \<and> same_scalars c c'
    \<and> (\<forall>layer<n. layer_appended c c' (\<lambda>l. hk l @ fk l) (\<lambda>l. hv l @ fv l) layer (layer \<in> fst ` set batch))"
  using assms(1,3)
proof (induction batch rule: rev_induct)
  case Nil
  then show ?case by (simp add: append_layers_def same_scalars_def layer_appended_def)
next
  case (snoc x batch)
  obtain l k v where x: "x = (l, k, v)" by (cases x)
  have "batch_ok c n tokens fk fv batch" using snoc.prems(2) by (auto simp: batch_ok_def)
  from snoc.IH [OF snoc.prems(1) this] obtain c1 where c1: "append_layers c batch tokens = Inr c1"
    "cache_layers c1 n" "same_scalars c c1"
    and ls: "\<forall>layer<n. layer_appended c c1 (\<lambda>l. hk l @ fk l) (\<lambda>l. hv l @ fv l) layer (layer \<in> fst ` set batch)" by blast
  have fresh: "l \<notin> fst ` set batch" using snoc.prems(2) x by (auto simp: batch_ok_def)
  obtain jk jv where l: "l < n" "k = concat (fk l) @ jk" "v = concat (fv l) @ jv"
    and f: "rows_ok (ctx_width c) (fk l)" "length (fk l) = tokens" "rows_ok (ctx_width c) (fv l)" "length (fv l) = tokens"
    using snoc.prems(2) x by (auto simp: batch_ok_def)
  have sc: "ctx_width c1 = ctx_width c" "ctx_sink c1 = ctx_sink c" "ctx_window c1 = ctx_window c"
    using c1(3) by (simp_all add: same_scalars_def)
  have old: "ctx_k c1 ! l = ctx_k c ! l" "ctx_v c1 ! l = ctx_v c ! l" "layer_revisions c1 ! l = layer_revisions c ! l"
    using ls l(1) fresh by (auto simp: layer_appended_def)
  note hl = h [OF l(1)]
  let ?c2 = "set_layer c1 l (concat (retained (ctx_sink c1) (ctx_window c1) (hk l @ fk l)))
                         (concat (retained (ctx_sink c1) (ctx_window c1) (hv l @ fv l)))"
  have "append_layer c1 l k v tokens = Inr ?c2"
    unfolding l(2,3)
    by (rule append_layer_rows [where w = "ctx_width c"])
      (use c1(2) sc old hl f l(1) snoc.prems(1) in \<open>auto simp: cache_layers_def holds_def\<close>)
  then have "append_layers c (batch @ [x]) tokens = Inr ?c2" using c1(1) x by (simp add: append_layers_def)
  moreover have "same_scalars c ?c2" using c1(3) by (simp add: same_scalars_def set_layer_def)
  moreover have "layer_appended c ?c2 (\<lambda>l. hk l @ fk l) (\<lambda>l. hv l @ fv l) layer (layer \<in> fst ` set (batch @ [x]))"
    if "layer < n" for layer
  proof (cases "layer = l")
    case True
    then show ?thesis using x l(1) c1(2) old hl f sc by (simp add: layer_appended_def holds_def cache_layers_def set_layer_def)
  next
    case False
    then have "layer \<in> fst ` set (batch @ [x]) \<longleftrightarrow> layer \<in> fst ` set batch" using x by auto
    then show ?thesis using ls that by (simp only: set_layer_other [OF False])
  qed
  ultimately show ?case using c1(2) by auto
qed

text \<open>A cache that refines the histories of its layers, all of the length of the offset.\<close>

definition refines :: "context_cache \<Rightarrow> nat \<Rightarrow> (nat \<Rightarrow> f32s list) \<Rightarrow> (nat \<Rightarrow> f32s list) \<Rightarrow> bool" where
  "refines c n hk hv \<longleftrightarrow> cache_layers c n \<and> ctx_len c = min (ctx_offset c) (ctx_sink c + ctx_window c)
     \<and> (\<forall>layer<n. holds c layer (hk layer) (hv layer) \<and> length (hk layer) = ctx_offset c)"

lemma holds_lengths:
  assumes "holds c layer hk hv"
  shows "length (ctx_k c ! layer) = min (length hk) (ctx_sink c + ctx_window c) * ctx_width c"
    and "length (ctx_v c ! layer) = min (length hk) (ctx_sink c + ctx_window c) * ctx_width c"
  using assms length_flat [OF rows_ok_retained, of "ctx_width c" hk] length_flat [OF rows_ok_retained, of "ctx_width c" hv]
  by (simp_all add: holds_def length_retained)

lemma planes_full_iff:
  "cache_layers c n \<Longrightarrow> planes_full c \<longleftrightarrow> (\<forall>layer<n. length (ctx_k c ! layer) = ctx_len c * ctx_width c
     \<and> length (ctx_v c ! layer) = ctx_len c * ctx_width c)"
  by (auto simp: planes_full_def cache_layers_def list_all_length)

lemma append_round_refines:
  assumes ref: "refines c n hk hv" and n: "0 < n" "length planes = n"
    and batch: "\<And>layer. layer < n \<Longrightarrow> planes ! layer = (concat (fk layer), concat (fv layer))
      \<and> rows_ok (ctx_width c) (fk layer) \<and> length (fk layer) = tokens
      \<and> rows_ok (ctx_width c) (fv layer) \<and> length (fv layer) = tokens"
  shows "\<exists>c'. append_round c planes tokens = Inr c' \<and> refines c' n (\<lambda>l. hk l @ fk l) (\<lambda>l. hv l @ fv l)
    \<and> ctx_offset c' = ctx_offset c + tokens \<and> ctx_sink c' = ctx_sink c \<and> ctx_window c' = ctx_window c
    \<and> ctx_width c' = ctx_width c"
proof -
  have lay: "cache_layers c n" and h: "\<And>layer. layer < n \<Longrightarrow> holds c layer (hk layer) (hv layer)"
    "\<And>layer. layer < n \<Longrightarrow> length (hk layer) = ctx_offset c" using ref by (auto simp: refines_def)
  have "batch_ok c n tokens fk fv (List.enumerate 0 planes)"
    unfolding batch_ok_def
  proof (intro conjI ballI)
    show "distinct (map fst (List.enumerate 0 planes))" by simp
    fix e assume "e \<in> set (List.enumerate 0 planes)"
    then obtain layer where l: "layer < n" "e = (layer, planes ! layer)" using n(2) by (auto simp: in_set_enumerate_eq)
    then show "case e of (layer, k, v) \<Rightarrow> layer < n \<and> (\<exists>jk. k = concat (fk layer) @ jk) \<and> (\<exists>jv. v = concat (fv layer) @ jv)
        \<and> rows_ok (ctx_width c) (fk layer) \<and> length (fk layer) = tokens \<and> rows_ok (ctx_width c) (fv layer) \<and> length (fv layer) = tokens"
      using batch [OF l(1)] by simp
  qed
  from append_layers_rows [OF lay h(1) this] obtain c1 where
    c1: "append_layers c (List.enumerate 0 planes) tokens = Inr c1" "cache_layers c1 n" "same_scalars c c1"
    and "\<forall>layer<n. layer_appended c c1 (\<lambda>l. hk l @ fk l) (\<lambda>l. hv l @ fv l) layer (layer \<in> fst ` set (List.enumerate 0 planes))"
    by blast
  moreover have "layer \<in> fst ` set (List.enumerate 0 planes)" if "layer < n" for layer
  proof -
    have "fst ` set (List.enumerate 0 planes) = set (map fst (List.enumerate 0 planes))" by (simp only: set_map)
    then show ?thesis using that n(2) by (simp add: map_fst_enumerate)
  qed
  ultimately have hs: "holds c1 layer (hk layer @ fk layer) (hv layer @ fv layer)" if "layer < n" for layer
    using that by (auto simp: layer_appended_def)
  let ?len = "min (ctx_offset c + tokens) (ctx_sink c + ctx_window c)"
  have lens: "length (ctx_k c1 ! layer) = ?len * ctx_width c1" "length (ctx_v c1 ! layer) = ?len * ctx_width c1"
    if "layer < n" for layer
    using holds_lengths [OF hs [OF that]] h(2) [OF that] batch [OF that] c1(3) by (simp_all add: same_scalars_def)
  obtain k ks where ks: "ctx_k c1 = k # ks" using c1(2) n(1) by (cases "ctx_k c1") (auto simp: cache_layers_def)
  have w: "0 < ctx_width c1" using c1(2) by (simp add: cache_layers_def)
  have first: "length k div ctx_width c1 = ?len" using lens(1) [OF n(1)] ks w by simp
  let ?c2 = "c1\<lparr>ctx_offset := ctx_offset c1 + tokens, ctx_len := ?len\<rparr>"
  have lay2: "cache_layers ?c2 n" using c1(2) by (simp add: cache_layers_def)
  have "planes_full ?c2" unfolding planes_full_iff [OF lay2] using lens by simp
  then have "append_round c planes tokens = Inr (?c2\<lparr>ctx_revision := wrapping_succ (ctx_revision ?c2)\<rparr>)"
    using c1(1) ks first by (simp add: append_round_def advance_round_def Let_def)
  then show ?thesis
    using c1 hs h(2) batch by (auto simp: refines_def cache_layers_def holds_def same_scalars_def)
qed

type_synonym round_rows = "(f32s list \<times> f32s list) list"

definition round_planes :: "round_rows \<Rightarrow> (f32s \<times> f32s) list" where
  "round_planes r = map (\<lambda>(k, v). (concat k, concat v)) r"

definition round_ok :: "nat \<Rightarrow> nat \<Rightarrow> nat \<times> round_rows \<Rightarrow> bool" where
  "round_ok n w = (\<lambda>(tokens, r). length r = n
     \<and> (\<forall>(k, v)\<in>set r. rows_ok w k \<and> length k = tokens \<and> rows_ok w v \<and> length v = tokens))"

fun run_rounds :: "(nat \<times> round_rows) list \<Rightarrow> context_cache \<Rightarrow> cache_error + context_cache" where
  "run_rounds [] c = Inr c"
| "run_rounds ((tokens, r) # rs) c = bind_res (append_round c (round_planes r) tokens) (run_rounds rs)"

definition key_history :: "(nat \<times> round_rows) list \<Rightarrow> nat \<Rightarrow> f32s list" where
  "key_history rs layer = concat (map (\<lambda>(tokens, r). fst (r ! layer)) rs)"

definition value_history :: "(nat \<times> round_rows) list \<Rightarrow> nat \<Rightarrow> f32s list" where
  "value_history rs layer = concat (map (\<lambda>(tokens, r). snd (r ! layer)) rs)"

lemma run_rounds_refines:
  assumes "refines c n hk hv" and "0 < n" and "\<forall>r\<in>set rs. round_ok n (ctx_width c) r"
  shows "\<exists>c'. run_rounds rs c = Inr c'
    \<and> refines c' n (\<lambda>l. hk l @ key_history rs l) (\<lambda>l. hv l @ value_history rs l)
    \<and> ctx_offset c' = ctx_offset c + sum_list (map fst rs) \<and> ctx_sink c' = ctx_sink c \<and> ctx_window c' = ctx_window c"
  using assms
proof (induction rs arbitrary: c hk hv)
  case Nil
  then show ?case by (simp add: key_history_def value_history_def)
next
  case (Cons x rs)
  obtain tokens r where x: "x = (tokens, r)" by (cases x)
  have r: "length r = n" "\<forall>(k, v)\<in>set r. rows_ok (ctx_width c) k \<and> length k = tokens \<and> rows_ok (ctx_width c) v \<and> length v = tokens"
    using Cons.prems(3) x by (auto simp: round_ok_def)
  have "round_planes r ! layer = (concat (fst (r ! layer)), concat (snd (r ! layer)))
      \<and> rows_ok (ctx_width c) (fst (r ! layer)) \<and> length (fst (r ! layer)) = tokens
      \<and> rows_ok (ctx_width c) (snd (r ! layer)) \<and> length (snd (r ! layer)) = tokens" if "layer < n" for layer
    using r that nth_mem [of layer r] by (cases "r ! layer") (auto simp: round_planes_def)
  from append_round_refines [OF Cons.prems(1,2) _ this] r(1) obtain c1 where
    c1: "append_round c (round_planes r) tokens = Inr c1"
      "refines c1 n (\<lambda>l. hk l @ fst (r ! l)) (\<lambda>l. hv l @ snd (r ! l))" "ctx_offset c1 = ctx_offset c + tokens"
      "ctx_sink c1 = ctx_sink c" "ctx_window c1 = ctx_window c" "ctx_width c1 = ctx_width c"
    by (auto simp: round_planes_def)
  have "\<forall>r\<in>set rs. round_ok n (ctx_width c1) r" using Cons.prems(3) c1(6) by simp
  from Cons.IH [OF c1(2) Cons.prems(2) this] c1 x show ?case
    by (auto simp: key_history_def value_history_def)
qed

lemma retained_nth:
  assumes "row < min (length h) (s + m)"
  shows "retained s m h ! row
    = h ! (if row < min (min (length h) (s + m)) s then row
           else length h - (min (length h) (s + m) - min (min (length h) (s + m)) s) + (row - min (min (length h) (s + m)) s))"
  using assms by (auto simp: retained_def nth_append min_def add.commute [of m s])

text \<open>C29: The draft cache keeps exactly the sink and the window. After any sequence of rounds on a new
  cache, each layer's key and value planes are the first \<open>sink_size\<close> and the last \<open>window_size\<close> rows of
  everything appended to that layer (all of it while it fits), the offset counts every row, no assertion
  fails, and the absolute position reported for a logical row is the place of that row in the history.\<close>

theorem retention_exact:
  assumes "0 < n" and "0 < w" and "\<forall>r\<in>set rs. round_ok n w r"
  shows "\<exists>c. bind_res (new_cache identity n w s m) (run_rounds rs) = Inr c
    \<and> ctx_offset c = sum_list (map fst rs) \<and> ctx_len c = min (ctx_offset c) (s + m)
    \<and> (\<forall>layer<n. ctx_k c ! layer = concat (retained s m (key_history rs layer))
        \<and> ctx_v c ! layer = concat (retained s m (value_history rs layer))
        \<and> (\<forall>row<ctx_len c. \<exists>p<ctx_offset c. retained_absolute_position c row = Inr p
             \<and> retained s m (key_history rs layer) ! row = key_history rs layer ! p))"
proof -
  let ?c = "\<lparr>ctx_k = replicate n [], ctx_v = replicate n [], ctx_len = 0, ctx_offset = 0, ctx_sink = s, ctx_window = m,
    ctx_width = w, ctx_identity = identity, ctx_revision = 0, layer_revisions = replicate n 0\<rparr>"
  have new: "new_cache identity n w s m = Inr ?c" using assms(2) by (simp add: new_cache_def)
  have "refines ?c n (\<lambda>_. []) (\<lambda>_. [])"
    using assms(2) by (simp add: refines_def cache_layers_def holds_def retained_def)
  from run_rounds_refines [OF this assms(1)] assms(3) obtain c where
    c: "run_rounds rs ?c = Inr c" "refines c n (key_history rs) (value_history rs)"
       "ctx_offset c = sum_list (map fst rs)" "ctx_sink c = s" "ctx_window c = m" by auto
  have len: "ctx_len c = min (ctx_offset c) (s + m)" using c by (simp add: refines_def)
  have pos: "\<exists>p<ctx_offset c. retained_absolute_position c row = Inr p
      \<and> retained s m (key_history rs layer) ! row = key_history rs layer ! p"
    if "layer < n" "row < ctx_len c" for layer row
  proof -
    have "length (key_history rs layer) = ctx_offset c" using c(2) that(1) by (simp add: refines_def)
    with retained_nth [of row "key_history rs layer" s m] that(2) len c(4,5) show ?thesis
      by (auto simp: retained_absolute_position_def Let_def split: if_splits)
  qed
  then show ?thesis using new c len by (auto simp: refines_def holds_def)
qed

definition demo_rounds :: "(nat \<times> round_rows) list" where
  "demo_rounds = [(4, [([[0], [1], [2], [3]], [[10], [11], [12], [13]])]), (3, [([[4], [5], [6]], [[14], [15], [16]])])]"

theorem retention_exact_witness:
  "\<exists>c. bind_res (new_cache 1 1 1 2 3) (run_rounds demo_rounds) = Inr c \<and> ctx_offset c = 7 \<and> ctx_k c ! 0 = [0, 1, 4, 5, 6]"
proof -
  have "\<forall>r\<in>set demo_rounds. round_ok 1 1 r" by (simp add: demo_rounds_def round_ok_def)
  from retention_exact [OF _ _ this, of 1 2 3] show ?thesis
    by (auto simp: demo_rounds_def key_history_def retained_def)
qed

lemma mod_window_inj:
  assumes "(x + i) mod m = (x + j) mod m" "i < m" "j < (m::nat)"
  shows "i = j"
proof -
  have le: "b = a" if "(x + a) mod m = (x + b) mod m" "a \<le> b" "b < m" for a b
  proof -
    have "x + a \<le> x + b" using that(2) by (rule add_left_mono)
    from mod_eq_dvd_iff_nat [OF this] that(1) [symmetric] have "m dvd (x + b) - (x + a)" by (rule iffD1)
    then have "m dvd b - a" by simp
    moreover have "b - a < m" using that by simp
    ultimately have "b - a = 0" using nat_dvd_not_less by blast
    then show ?thesis using that(2) by simp
  qed
  show ?thesis
  proof (cases "i \<le> j")
    case True
    from le [OF assms(1) True assms(3)] show ?thesis by (rule sym)
  next
    case False
    then have "j \<le> i" by simp
    from le [OF assms(1) [symmetric] this assms(2)] show ?thesis .
  qed
qed

text \<open>The ring slots of the accelerator mirror are a permutation of the logical rows: while the cache
  holds as many rows as its geometry allows, every logical row has an absolute position and a physical
  slot, different rows have different slots, and every slot lies inside the physical capacity.\<close>

theorem physical_slots_distinct:
  assumes "ctx_len c = min (ctx_offset c) (physical_capacity c)" and "0 < ctx_window c"
  shows "\<exists>slot. (\<forall>row<ctx_len c. \<exists>p. retained_absolute_position c row = Inr p \<and> physical_slot c p = Inr (slot row))
    \<and> inj_on slot {..<ctx_len c} \<and> slot ` {..<ctx_len c} \<subseteq> {..<physical_capacity c}"
proof -
  let ?s = "ctx_sink c" and ?m = "ctx_window c"
  define sink_rows where "sink_rows = min (ctx_len c) ?s"
  define base where "base = ctx_offset c - (ctx_len c - sink_rows)"
  define slot where "slot row = (if row < sink_rows then row else ?s + (base + (row - sink_rows) - ?s) mod ?m)" for row
  have tail: "ctx_len c - sink_rows \<le> ctx_offset c" "ctx_len c - sink_rows \<le> ?m"
    using assms(1) by (auto simp: sink_rows_def physical_capacity_def)
  have sink: "sink_rows = ?s" "?s \<le> base" if "sink_rows < ctx_len c"
    using that assms(1) by (auto simp: sink_rows_def base_def physical_capacity_def)
  have "\<exists>p. retained_absolute_position c row = Inr p \<and> physical_slot c p = Inr (slot row)" if row: "row < ctx_len c" for row
  proof (cases "row < sink_rows")
    case True
    then show ?thesis using row
      by (simp add: retained_absolute_position_def Let_def physical_slot_def slot_def flip: sink_rows_def) (simp add: sink_rows_def)
  next
    case False
    then have "sink_rows = ?s" "?s \<le> base" using sink row by auto
    then show ?thesis using False row tail assms(2)
      by (simp add: retained_absolute_position_def Let_def physical_slot_def slot_def base_def flip: sink_rows_def)
  qed
  moreover have "inj_on slot {..<ctx_len c}"
  proof (rule inj_onI)
    fix a b assume ab: "a \<in> {..<ctx_len c}" "b \<in> {..<ctx_len c}" "slot a = slot b"
    show "a = b"
    proof (cases "a < sink_rows \<or> b < sink_rows")
      case True
      then show ?thesis using ab sink by (auto simp: slot_def split: if_splits)
    next
      case False
      then have s: "sink_rows = ?s" "?s \<le> base" using sink ab by auto
      let ?x = "base - ?s" and ?i = "a - ?s" and ?j = "b - ?s"
      have "(?x + ?i) mod ?m = (?x + ?j) mod ?m" using ab(3) False s by (simp add: slot_def)
      moreover have "?i < ?m" "?j < ?m" using ab tail(2) False s by auto
      ultimately have "?i = ?j" by (rule mod_window_inj)
      then show ?thesis using False s(1) by (metis eq_diff_iff linorder_not_less)
    qed
  qed
  moreover have "slot ` {..<ctx_len c} \<subseteq> {..<physical_capacity c}"
    using assms(2) by (auto simp: slot_def physical_capacity_def sink_rows_def)
  ultimately show ?thesis by blast
qed

definition demo_ring :: context_cache where
  "demo_ring = \<lparr>ctx_k = [[0, 1, 6, 7, 8]], ctx_v = [[0, 1, 6, 7, 8]], ctx_len = 5, ctx_offset = 9, ctx_sink = 2, ctx_window = 3,
    ctx_width = 1, ctx_identity = 1, ctx_revision = 1, layer_revisions = [1]\<rparr>"

theorem physical_slots_distinct_witness:
  "\<exists>slot. (\<forall>row<5. \<exists>p. retained_absolute_position demo_ring row = Inr p \<and> physical_slot demo_ring p = Inr (slot row))
    \<and> inj_on slot {..<5} \<and> slot ` {..<5} \<subseteq> {..<5}"
  using physical_slots_distinct [of demo_ring] by (simp add: demo_ring_def physical_capacity_def)

subsection \<open>Rollback\<close>

definition cache_ok :: "context_cache \<Rightarrow> nat \<Rightarrow> bool" where
  "cache_ok c n \<longleftrightarrow> cache_layers c n \<and> planes_full c \<and> ctx_len c \<le> physical_capacity c
     \<and> ctx_revision c < 2 ^ 64 \<and> (\<forall>r\<in>set (layer_revisions c). r < 2 ^ 64)"

lemma rows_exist: "length p = n * w \<Longrightarrow> \<exists>rs. rows_ok w rs \<and> length rs = n \<and> concat rs = p"
proof (induction n arbitrary: p)
  case (Suc n)
  then have "length (drop w p) = n * w" by simp
  from Suc.IH [OF this] obtain rs where "rows_ok w rs" "length rs = n" "concat rs = drop w p" by blast
  then show ?case using Suc.prems by (intro exI [of _ "take w p # rs"]) auto
qed auto

lemma rows_prefix: "n * w \<le> length p \<Longrightarrow> \<exists>rs j. p = concat rs @ j \<and> rows_ok w rs \<and> length rs = n"
  using rows_exist [of "take (n * w) p" n w] by (metis append_take_drop_id length_take min.absorb2)

lemma cache_ok_holds:
  assumes "cache_ok c n"
  obtains hk hv where "\<And>layer. layer < n \<Longrightarrow> holds c layer (hk layer) (hv layer) \<and> length (hk layer) = ctx_len c
    \<and> ctx_k c ! layer = concat (hk layer) \<and> ctx_v c ! layer = concat (hv layer)"
proof -
  have lay: "cache_layers c n" and full: "planes_full c" and le: "ctx_len c \<le> ctx_sink c + ctx_window c"
    using assms by (simp_all add: cache_ok_def physical_capacity_def)
  have "\<forall>layer. \<exists>r. layer < n \<longrightarrow> rows_ok (ctx_width c) (fst r) \<and> length (fst r) = ctx_len c \<and> concat (fst r) = ctx_k c ! layer
      \<and> rows_ok (ctx_width c) (snd r) \<and> length (snd r) = ctx_len c \<and> concat (snd r) = ctx_v c ! layer"
    using full [unfolded planes_full_iff [OF lay]] rows_exist by (metis fst_conv snd_conv)
  then obtain r where r: "\<And>layer. layer < n \<Longrightarrow> rows_ok (ctx_width c) (fst (r layer)) \<and> length (fst (r layer)) = ctx_len c
      \<and> concat (fst (r layer)) = ctx_k c ! layer \<and> rows_ok (ctx_width c) (snd (r layer)) \<and> length (snd (r layer)) = ctx_len c
      \<and> concat (snd (r layer)) = ctx_v c ! layer" by metis
  show thesis
    by (rule that [of "\<lambda>l. fst (r l)" "\<lambda>l. snd (r l)"]) (use r le in \<open>auto simp: holds_def retained_def\<close>)
qed

text \<open>What a checkpoint holds of a plane, and that it undoes the append of that plane.\<close>

lemma restore_plane_rows:
  assumes h: "rows_ok w h" "length h \<le> s + m" and f: "rows_ok w f" "length f = t" "t \<le> m"
    and r: "r = length h + t - (s + m)"
  shows "restore_plane (t * w) (s * w) r (concat (retained s m (h @ f))) (concat (take r (drop s h))) = Inr (concat h)"
proof (cases "r = 0")
  case True
  then have "retained s m (h @ f) = h @ f" using r f by (simp add: retained_def)
  then show ?thesis using True h f length_flat [of w f] by (simp add: restore_plane_def)
next
  case False
  have s: "s < length h" "s + r = length h + t - m" using False r h f by auto
  have "retained s m (h @ f) = take s h @ drop (s + r) h @ f"
    using False r s f h by (simp add: retained_def)
  moreover define kept where "kept = take s h @ drop (s + r) h"
  ultimately have p: "concat (retained s m (h @ f)) = concat kept @ concat f" by simp
  have kept: "rows_ok w kept" "take s kept = take s h" "drop s kept = drop (s + r) h" "s \<le> length kept"
    using h s by (simp_all add: kept_def rows_ok_take_drop)
  note fk = flat_facts [OF kept(1)]
  have "restore_plane (t * w) (s * w) r (concat (retained s m (h @ f))) (concat (take r (drop s h)))
      = Inr (concat (take s h) @ concat (take r (drop s h)) @ concat (drop (s + r) h))"
    using False length_flat [OF f(1)] f(2) fk kept
    by (simp add: p restore_plane_def mult_le_mono1)
  also have "\<dots> = Inr (concat (take s h @ take r (drop s h) @ drop r (drop s h)))" by (simp add: add.commute)
  also have "\<dots> = Inr (concat h)" by (simp only: append_take_drop_id)
  finally show ?thesis .
qed

lemma wrapping_succ_neq: "r < 2 ^ 64 \<Longrightarrow> wrapping_succ r \<noteq> r"
  by (cases "r = 2 ^ 64 - 1") (simp_all add: wrapping_succ_def)

lemma check_layers_ok:
  assumes "\<forall>((k, v), cur, prev)\<in>set xs. cur = prev \<and> length k = before \<and> length v = before
      \<or> cur \<noteq> prev \<and> cur = wrapping_succ prev \<and> length k = after \<and> length v = after"
  shows "check_layers layer before after xs = Inr (length (filter (\<lambda>(_, cur, prev). cur \<noteq> prev) xs))"
  using assms by (induction layer before after xs rule: check_layers.induct) auto

definition checkpoint_of :: "context_cache \<Rightarrow> nat \<Rightarrow> nat \<Rightarrow> (nat \<Rightarrow> f32s list) \<Rightarrow> (nat \<Rightarrow> f32s list) \<Rightarrow> context_checkpoint" where
  "checkpoint_of c n tokens hk hv =
     (let r = ctx_len c + tokens - (ctx_sink c + ctx_window c) in
      \<lparr>cp_identity = ctx_identity c, cp_len = ctx_len c, cp_offset = ctx_offset c,
       cp_revision = ctx_revision c, cp_sink = ctx_sink c, cp_window = ctx_window c, cp_width = ctx_width c,
       cp_append_tokens = tokens, cp_removed_rows = r,
       cp_removed = map (\<lambda>l. (concat (take r (drop (ctx_sink c) (hk l))), concat (take r (drop (ctx_sink c) (hv l))))) [0..<n],
       cp_layer_revisions = layer_revisions c\<rparr>)"

definition layer_rows :: "context_cache \<Rightarrow> nat \<Rightarrow> (nat \<Rightarrow> f32s list) \<Rightarrow> (nat \<Rightarrow> f32s list) \<Rightarrow> bool" where
  "layer_rows c n hk hv \<longleftrightarrow> (\<forall>layer<n. holds c layer (hk layer) (hv layer) \<and> length (hk layer) = ctx_len c
    \<and> ctx_k c ! layer = concat (hk layer) \<and> ctx_v c ! layer = concat (hv layer))"

lemma layer_rowsD:
  assumes "layer_rows c n hk hv" "layer < n"
  shows "ctx_k c ! layer = concat (hk layer)" "ctx_v c ! layer = concat (hv layer)"
    "rows_ok (ctx_width c) (hk layer)" "rows_ok (ctx_width c) (hv layer)"
    "length (hk layer) = ctx_len c" "length (hv layer) = ctx_len c"
  using assms by (auto simp: layer_rows_def holds_def)

lemma checkpoint_append_eq:
  assumes ok: "cache_ok c n" and rows: "layer_rows c n hk hv" and t: "tokens \<le> ctx_window c"
  shows "checkpoint_append c tokens = Inr (checkpoint_of c n tokens hk hv)"
proof -
  define r where "r = ctx_len c + tokens - (ctx_sink c + ctx_window c)"
  have len: "length (ctx_k c) = n" "length (ctx_v c) = n" and le: "ctx_len c \<le> ctx_sink c + ctx_window c"
    using ok by (simp_all add: cache_ok_def cache_layers_def physical_capacity_def)
  let ?f = "\<lambda>(k, v). bind_res (row_slice (ctx_width c) (ctx_sink c) r k) (\<lambda>rk.
    bind_res (row_slice (ctx_width c) (ctx_sink c) r v) (\<lambda>rv. Inr (rk, rv)))"
  let ?rem = "map (\<lambda>l. (concat (take r (drop (ctx_sink c) (hk l))), concat (take r (drop (ctx_sink c) (hv l))))) [0..<n]"
  have "(if r = 0 then Inr (replicate (length (ctx_k c)) ([], [])) else map_res ?f (zip (ctx_k c) (ctx_v c))) = Inr ?rem"
  proof (cases "r = 0")
    case True
    then show ?thesis using len by (simp add: map_replicate_trivial)
  next
    case False
    then have s: "ctx_sink c + r \<le> ctx_len c" using t le by (simp add: r_def)
    have "map_res ?f (zip (ctx_k c) (ctx_v c)) = Inr ?rem"
    proof (rule map_res_nth)
      fix i assume "i < length (zip (ctx_k c) (ctx_v c))"
      then have i: "i < n" using len by simp
      note h = layer_rowsD [OF rows i]
      from row_slice_flat [OF h(3), of "ctx_sink c" r "[]"] row_slice_flat [OF h(4), of "ctx_sink c" r "[]"] s h i len
      show "?f (zip (ctx_k c) (ctx_v c) ! i) = Inr (?rem ! i)" by simp
    qed (use len in simp)
    then show ?thesis using False by simp
  qed
  then show ?thesis by (simp add: checkpoint_append_def checkpoint_of_def Let_def flip: r_def)
qed

text \<open>A cache that is some way into the append of a checkpoint: every layer is as before or appended;
  the scalars are as before, or advanced with all layers appended.\<close>

definition within_append ::
  "context_cache \<Rightarrow> context_cache \<Rightarrow> nat \<Rightarrow> nat \<Rightarrow> (nat \<Rightarrow> f32s list) \<Rightarrow> (nat \<Rightarrow> f32s list)
     \<Rightarrow> (nat \<Rightarrow> f32s list) \<Rightarrow> (nat \<Rightarrow> f32s list) \<Rightarrow> nat set \<Rightarrow> bool" where
  "within_append c c' n tokens hk hv fk fv L \<longleftrightarrow> cache_layers c' n
     \<and> ctx_sink c' = ctx_sink c \<and> ctx_window c' = ctx_window c \<and> ctx_width c' = ctx_width c \<and> ctx_identity c' = ctx_identity c
     \<and> (same_scalars c c' \<or> L = {..<n} \<and> ctx_revision c' = wrapping_succ (ctx_revision c)
          \<and> ctx_len c' = min (ctx_len c + tokens) (physical_capacity c) \<and> ctx_offset c' = ctx_offset c + tokens)
     \<and> (\<forall>layer<n. layer_appended c c' (\<lambda>l. hk l @ fk l) (\<lambda>l. hv l @ fv l) layer (layer \<in> L)
          \<and> (layer \<in> L \<longrightarrow> length (fk layer) = tokens \<and> length (fv layer) = tokens))"

lemma within_append_layer:
  assumes ok: "cache_ok c n" and rows: "layer_rows c n hk hv" and w: "within_append c c' n tokens hk hv fk fv L" and i: "i < n"
  shows "i \<notin> L \<Longrightarrow> layer_revisions c' ! i = layer_revisions c ! i \<and> ctx_k c' ! i = ctx_k c ! i \<and> ctx_v c' ! i = ctx_v c ! i
      \<and> length (ctx_k c' ! i) = ctx_len c * ctx_width c \<and> length (ctx_v c' ! i) = ctx_len c * ctx_width c"
    and "i \<in> L \<Longrightarrow> layer_revisions c' ! i \<noteq> layer_revisions c ! i \<and> layer_revisions c' ! i = wrapping_succ (layer_revisions c ! i)
      \<and> length (ctx_k c' ! i) = min (ctx_len c + tokens) (physical_capacity c) * ctx_width c
      \<and> length (ctx_v c' ! i) = min (ctx_len c + tokens) (physical_capacity c) * ctx_width c
      \<and> ctx_k c' ! i = concat (retained (ctx_sink c) (ctx_window c) (hk i @ fk i))
      \<and> ctx_v c' ! i = concat (retained (ctx_sink c) (ctx_window c) (hv i @ fv i))
      \<and> rows_ok (ctx_width c) (fk i) \<and> rows_ok (ctx_width c) (fv i) \<and> length (fk i) = tokens \<and> length (fv i) = tokens"
proof -
  note h = layer_rowsD [OF rows i]
  have app: "layer_appended c c' (\<lambda>l. hk l @ fk l) (\<lambda>l. hv l @ fv l) i (i \<in> L)"
    and f: "i \<in> L \<Longrightarrow> length (fk i) = tokens \<and> length (fv i) = tokens"
    and g: "ctx_sink c' = ctx_sink c" "ctx_window c' = ctx_window c" "ctx_width c' = ctx_width c"
    using w i by (auto simp: within_append_def)
  have rev: "layer_revisions c ! i < 2 ^ 64" using ok i by (auto simp: cache_ok_def cache_layers_def)
  have "length (ctx_k c ! i) = ctx_len c * ctx_width c" "length (ctx_v c ! i) = ctx_len c * ctx_width c"
    using ok i planes_full_iff [of c n] by (auto simp: cache_ok_def)
  with app show "i \<notin> L \<Longrightarrow> layer_revisions c' ! i = layer_revisions c ! i \<and> ctx_k c' ! i = ctx_k c ! i \<and> ctx_v c' ! i = ctx_v c ! i
      \<and> length (ctx_k c' ! i) = ctx_len c * ctx_width c \<and> length (ctx_v c' ! i) = ctx_len c * ctx_width c"
    by (simp add: layer_appended_def)
  assume L: "i \<in> L"
  then have ho: "holds c' i (hk i @ fk i) (hv i @ fv i)" and r: "layer_revisions c' ! i = wrapping_succ (layer_revisions c ! i)"
    using app by (auto simp: layer_appended_def)
  from holds_lengths [OF ho] r wrapping_succ_neq [OF rev] ho f [OF L] g h(5)
  show "layer_revisions c' ! i \<noteq> layer_revisions c ! i \<and> layer_revisions c' ! i = wrapping_succ (layer_revisions c ! i)
      \<and> length (ctx_k c' ! i) = min (ctx_len c + tokens) (physical_capacity c) * ctx_width c
      \<and> length (ctx_v c' ! i) = min (ctx_len c + tokens) (physical_capacity c) * ctx_width c
      \<and> ctx_k c' ! i = concat (retained (ctx_sink c) (ctx_window c) (hk i @ fk i))
      \<and> ctx_v c' ! i = concat (retained (ctx_sink c) (ctx_window c) (hv i @ fv i))
      \<and> rows_ok (ctx_width c) (fk i) \<and> rows_ok (ctx_width c) (fv i) \<and> length (fk i) = tokens \<and> length (fv i) = tokens"
    by (auto simp: holds_def physical_capacity_def)
qed

lemma within_append_checks:
  assumes ok: "cache_ok c n" and rows: "layer_rows c n hk hv" and w: "within_append c c' n tokens hk hv fk fv L"
  shows "\<exists>changed. check_layers 0 (ctx_len c * ctx_width c) (min (ctx_len c + tokens) (physical_capacity c) * ctx_width c)
      (zip (zip (ctx_k c') (ctx_v c')) (zip (layer_revisions c') (layer_revisions c))) = Inr changed
    \<and> (L = {..<n} \<longrightarrow> changed = n)"
proof -
  let ?xs = "zip (zip (ctx_k c') (ctx_v c')) (zip (layer_revisions c') (layer_revisions c))"
  have len: "length (ctx_k c') = n" "length (ctx_v c') = n" "length (layer_revisions c') = n" "length (layer_revisions c) = n"
    using ok w by (simp_all add: within_append_def cache_ok_def cache_layers_def)
  have nth: "?xs ! i = ((ctx_k c' ! i, ctx_v c' ! i), layer_revisions c' ! i, layer_revisions c ! i)" if "i < n" for i
    using that len by simp
  have mem: "\<exists>i<n. x = ((ctx_k c' ! i, ctx_v c' ! i), layer_revisions c' ! i, layer_revisions c ! i)" if "x \<in> set ?xs" for x
    using that len nth by (auto simp: in_set_conv_nth)
  have "check_layers 0 (ctx_len c * ctx_width c) (min (ctx_len c + tokens) (physical_capacity c) * ctx_width c) ?xs
      = Inr (length (filter (\<lambda>(_, cur, prev). cur \<noteq> prev) ?xs))"
  proof (rule check_layers_ok)
    have layer: "layer_revisions c' ! i = layer_revisions c ! i \<and> length (ctx_k c' ! i) = ctx_len c * ctx_width c
          \<and> length (ctx_v c' ! i) = ctx_len c * ctx_width c
        \<or> layer_revisions c' ! i \<noteq> layer_revisions c ! i \<and> layer_revisions c' ! i = wrapping_succ (layer_revisions c ! i)
          \<and> length (ctx_k c' ! i) = min (ctx_len c + tokens) (physical_capacity c) * ctx_width c
          \<and> length (ctx_v c' ! i) = min (ctx_len c + tokens) (physical_capacity c) * ctx_width c" if "i < n" for i
      using within_append_layer [OF ok rows w that] by blast
    show "\<forall>((k, v), cur, prev)\<in>set ?xs. cur = prev \<and> length k = ctx_len c * ctx_width c \<and> length v = ctx_len c * ctx_width c
        \<or> cur \<noteq> prev \<and> cur = wrapping_succ prev \<and> length k = min (ctx_len c + tokens) (physical_capacity c) * ctx_width c
          \<and> length v = min (ctx_len c + tokens) (physical_capacity c) * ctx_width c"
      unfolding split_def
    proof
      fix x assume "x \<in> set ?xs"
      with mem obtain i where i: "i < n" "x = ((ctx_k c' ! i, ctx_v c' ! i), layer_revisions c' ! i, layer_revisions c ! i)" by blast
      show "fst (snd x) = snd (snd x) \<and> length (fst (fst x)) = ctx_len c * ctx_width c
          \<and> length (snd (fst x)) = ctx_len c * ctx_width c
        \<or> fst (snd x) \<noteq> snd (snd x) \<and> fst (snd x) = wrapping_succ (snd (snd x))
          \<and> length (fst (fst x)) = min (ctx_len c + tokens) (physical_capacity c) * ctx_width c
          \<and> length (snd (fst x)) = min (ctx_len c + tokens) (physical_capacity c) * ctx_width c"
        using layer [OF i(1)] unfolding i(2) fst_conv snd_conv .
    qed
  qed
  moreover have "length (filter (\<lambda>(_, cur, prev). cur \<noteq> prev) ?xs) = n" if "L = {..<n}"
  proof -
    have "filter (\<lambda>(_, cur, prev). cur \<noteq> prev) ?xs = ?xs"
    proof (rule filter_True, rule ballI)
      fix x assume "x \<in> set ?xs"
      with mem obtain i where i: "i < n" "x = ((ctx_k c' ! i, ctx_v c' ! i), layer_revisions c' ! i, layer_revisions c ! i)" by blast
      have "i \<in> L" using i(1) that by simp
      from within_append_layer(2) [OF ok rows w i(1) this] i(2) show "case x of (_, cur, prev) \<Rightarrow> cur \<noteq> prev" by simp
    qed
    then show ?thesis using len by simp
  qed
  ultimately show ?thesis by blast
qed

lemma within_append_validates:
  assumes ok: "cache_ok c n" and rows: "layer_rows c n hk hv" and w: "within_append c c' n tokens hk hv fk fv L"
    and t: "0 < tokens" "tokens \<le> ctx_window c" and fits: "ctx_len c + tokens < 2 ^ 64" "ctx_offset c + tokens < 2 ^ 64"
  shows "validate_rollback_target c' (checkpoint_of c n tokens hk hv) = Inr ()"
proof -
  obtain changed where changed: "check_layers 0 (ctx_len c * ctx_width c)
      (min (ctx_len c + tokens) (physical_capacity c) * ctx_width c)
      (zip (zip (ctx_k c') (ctx_v c')) (zip (layer_revisions c') (layer_revisions c))) = Inr changed"
    "L = {..<n} \<longrightarrow> changed = n" using within_append_checks [OF ok rows w] by blast
  define r where "r = ctx_len c + tokens - (ctx_sink c + ctx_window c)"
  have le: "ctx_len c \<le> ctx_sink c + ctx_window c" and lr: "length (layer_revisions c) = n"
    using ok by (simp_all add: cache_ok_def physical_capacity_def cache_layers_def)
  have r: "r \<le> ctx_len c" "ctx_sink c + r \<le> ctx_len c \<or> r = 0" using t le by (auto simp: r_def)
  have removed: "length (concat (take r (drop (ctx_sink c) h))) = r * ctx_width c"
    if "rows_ok (ctx_width c) h" "length h = ctx_len c" for h
    using that r(2) length_flat [OF rows_ok_take_drop(1) [OF rows_ok_take_drop(2)], of "ctx_width c" h r "ctx_sink c"] by auto
  have tails: "\<not> list_ex (\<lambda>(k, v). length k \<noteq> r * ctx_width c \<or> length v \<noteq> r * ctx_width c)
      (map (\<lambda>l. (concat (take r (drop (ctx_sink c) (hk l))), concat (take r (drop (ctx_sink c) (hv l))))) [0..<n])"
    using removed [OF layer_rowsD(3) [OF rows] layer_rowsD(5) [OF rows]]
      removed [OF layer_rowsD(4) [OF rows] layer_rowsD(6) [OF rows]] by (auto simp: list_ex_iff)
  have g: "ctx_sink c' = ctx_sink c" "ctx_window c' = ctx_window c" "ctx_width c' = ctx_width c" "ctx_identity c' = ctx_identity c"
    "length (ctx_k c') = n" "length (ctx_v c') = n" "length (layer_revisions c') = n"
    using w by (simp_all add: within_append_def cache_layers_def)
  have caps: "physical_capacity c' = ctx_sink c + ctx_window c" "physical_capacity c = ctx_sink c + ctx_window c"
    using g by (simp_all add: physical_capacity_def)
  have scal: "same_scalars c c' \<or> L = {..<n} \<and> ctx_revision c' = wrapping_succ (ctx_revision c)
      \<and> ctx_len c' = min (ctx_len c + tokens) (ctx_sink c + ctx_window c) \<and> ctx_offset c' = ctx_offset c + tokens"
    using w caps by (simp add: within_append_def)
  have add: "checked_add (ctx_len c) tokens = Some (ctx_len c + tokens)" "checked_add (ctx_offset c) tokens = Some (ctx_offset c + tokens)"
    using fits by (simp_all add: checked_add_def)
  show ?thesis
  proof (cases "changed = n")
    case True
    then show ?thesis using scal changed(1) g caps t le lr r(1) tails add
      by (auto simp: validate_rollback_target_def checkpoint_of_def Let_def same_scalars_def simp flip: r_def)
  next
    case False
    then have "same_scalars c c'" "L \<noteq> {..<n}" using scal changed(2) by auto
    moreover have "ctx_revision c' \<noteq> wrapping_succ (ctx_revision c)" if "same_scalars c c'"
      using that ok wrapping_succ_neq [of "ctx_revision c"] by (auto simp: same_scalars_def cache_ok_def)
    ultimately show ?thesis using changed(1) g caps t le lr r(1) tails add
      by (auto simp: validate_rollback_target_def checkpoint_of_def Let_def same_scalars_def simp flip: r_def)
  qed
qed

lemma within_append_rolls_back:
  assumes ok: "cache_ok c n" and rows: "layer_rows c n hk hv" and w: "within_append c c' n tokens hk hv fk fv L"
    and t: "0 < tokens" "tokens \<le> ctx_window c" and fits: "ctx_len c + tokens < 2 ^ 64" "ctx_offset c + tokens < 2 ^ 64"
  shows "rollback_append c' (checkpoint_of c n tokens hk hv) = Inr c"
proof -
  define r where "r = ctx_len c + tokens - (ctx_sink c + ctx_window c)"
  let ?cp = "checkpoint_of c n tokens hk hv"
  have le: "ctx_len c \<le> ctx_sink c + ctx_window c" and lc: "length (ctx_k c) = n" "length (ctx_v c) = n" "length (layer_revisions c) = n"
    and full: "planes_full c"
    using ok by (simp_all add: cache_ok_def physical_capacity_def cache_layers_def)
  have g: "ctx_sink c' = ctx_sink c" "ctx_window c' = ctx_window c" "ctx_width c' = ctx_width c" "ctx_identity c' = ctx_identity c"
    "length (ctx_k c') = n" "length (ctx_v c') = n" "length (layer_revisions c') = n"
    using w by (simp_all add: within_append_def cache_layers_def)
  have cp: "cp_append_tokens ?cp = tokens" "cp_removed_rows ?cp = r" "cp_layer_revisions ?cp = layer_revisions c"
    "cp_len ?cp = ctx_len c" "cp_offset ?cp = ctx_offset c" "cp_revision ?cp = ctx_revision c" "length (cp_removed ?cp) = n"
    "\<And>i. i < n \<Longrightarrow> cp_removed ?cp ! i
      = (concat (take r (drop (ctx_sink c) (hk i))), concat (take r (drop (ctx_sink c) (hv i))))"
    by (simp_all add: checkpoint_of_def Let_def r_def)
  let ?f = "restore_layer (tokens * ctx_width c) (ctx_sink c * ctx_width c) r"
  have "map_res ?f (zip (zip (zip (ctx_k c') (ctx_v c')) (cp_removed ?cp)) (zip (layer_revisions c') (layer_revisions c)))
      = Inr (zip (ctx_k c) (ctx_v c))"
  proof (rule map_res_nth)
    fix i assume "i < length (zip (zip (zip (ctx_k c') (ctx_v c')) (cp_removed ?cp)) (zip (layer_revisions c') (layer_revisions c)))"
    then have i: "i < n" using g by simp
    note h = layer_rowsD [OF rows i]
    have "?f (((ctx_k c' ! i, ctx_v c' ! i), cp_removed ?cp ! i), layer_revisions c' ! i, layer_revisions c ! i)
        = Inr (ctx_k c ! i, ctx_v c ! i)"
    proof (cases "i \<in> L")
      case False
      then show ?thesis using within_append_layer(1) [OF ok rows w i] cp(8) [OF i] by (simp add: restore_layer_def)
    next
      case True
      note a = within_append_layer(2) [OF ok rows w i True]
      have "restore_plane (tokens * ctx_width c) (ctx_sink c * ctx_width c) r (ctx_k c' ! i) (concat (take r (drop (ctx_sink c) (hk i))))
          = Inr (concat (hk i))"
        using a restore_plane_rows [OF h(3) _ _ _ t(2), of "ctx_sink c" "fk i" r] h(5) le by (simp add: r_def)
      moreover have "restore_plane (tokens * ctx_width c) (ctx_sink c * ctx_width c) r (ctx_v c' ! i) (concat (take r (drop (ctx_sink c) (hv i))))
          = Inr (concat (hv i))"
        using a restore_plane_rows [OF h(4) _ _ _ t(2), of "ctx_sink c" "fv i" r] h(6) le by (simp add: r_def)
      ultimately show ?thesis using a h(1,2) cp(8) [OF i] by (simp add: restore_layer_def)
    qed
    then show "?f (zip (zip (zip (ctx_k c') (ctx_v c')) (cp_removed ?cp)) (zip (layer_revisions c') (layer_revisions c)) ! i)
        = Inr (zip (ctx_k c) (ctx_v c) ! i)"
      using i g lc cp(7) by simp
  qed (use g lc cp(7) in simp)
  moreover have "c'\<lparr>ctx_k := map fst (zip (ctx_k c) (ctx_v c)), ctx_v := map snd (zip (ctx_k c) (ctx_v c)),
      ctx_len := ctx_len c, ctx_offset := ctx_offset c, ctx_revision := ctx_revision c, layer_revisions := layer_revisions c\<rparr> = c"
    using g lc by (intro context_cache.equality) simp_all
  ultimately show ?thesis
    using within_append_validates [OF ok rows w t fits] full
    unfolding rollback_append_def cp g by (simp add: Let_def)
qed

lemma batch_rows:
  assumes batch: "distinct (map fst batch)"
    "\<forall>(layer, k, v)\<in>set batch. layer < n \<and> tokens * ctx_width c \<le> length k \<and> tokens * ctx_width c \<le> length v"
  obtains fk fv where "batch_ok c n tokens fk fv batch"
proof -
  have "\<forall>layer. \<exists>f. \<forall>k v. (layer, k, v) \<in> set batch \<longrightarrow>
      (\<exists>jk. k = concat (fst f) @ jk) \<and> rows_ok (ctx_width c) (fst f) \<and> length (fst f) = tokens
      \<and> (\<exists>jv. v = concat (snd f) @ jv) \<and> rows_ok (ctx_width c) (snd f) \<and> length (snd f) = tokens"
  proof
    fix layer
    show "\<exists>f. \<forall>k v. (layer, k, v) \<in> set batch \<longrightarrow>
      (\<exists>jk. k = concat (fst f) @ jk) \<and> rows_ok (ctx_width c) (fst f) \<and> length (fst f) = tokens
      \<and> (\<exists>jv. v = concat (snd f) @ jv) \<and> rows_ok (ctx_width c) (snd f) \<and> length (snd f) = tokens"
    proof (cases "\<exists>k v. (layer, k, v) \<in> set batch")
      case True
      then obtain k v where kv: "(layer, k, v) \<in> set batch" by blast
      then have "tokens * ctx_width c \<le> length k" "tokens * ctx_width c \<le> length v" using batch(2) by auto
      from rows_prefix [OF this(1)] rows_prefix [OF this(2)] obtain fk fv jk jv where
        "k = concat fk @ jk" "rows_ok (ctx_width c) fk" "length fk = tokens"
        "v = concat fv @ jv" "rows_ok (ctx_width c) fv" "length fv = tokens" by blast
      moreover have "k' = k \<and> v' = v" if "(layer, k', v') \<in> set batch" for k' v'
        using eq_key_imp_eq_value [OF batch(1) that kv] by simp
      ultimately show ?thesis by (intro exI [of _ "(fk, fv)"]) auto
    qed blast
  qed
  then obtain f where f: "\<And>layer k v. (layer, k, v) \<in> set batch \<Longrightarrow>
      (\<exists>jk. k = concat (fst (f layer)) @ jk) \<and> rows_ok (ctx_width c) (fst (f layer)) \<and> length (fst (f layer)) = tokens
      \<and> (\<exists>jv. v = concat (snd (f layer)) @ jv) \<and> rows_ok (ctx_width c) (snd (f layer)) \<and> length (snd (f layer)) = tokens"
    by metis
  have "batch_ok c n tokens (\<lambda>l. fst (f l)) (\<lambda>l. snd (f l)) batch"
    unfolding batch_ok_def using batch f by fastforce
  then show thesis by (rule that)
qed

lemma advance_within_append:
  assumes ok: "cache_ok c n" and rows: "layer_rows c n hk hv" and n: "0 < n"
    and w: "within_append c c1 n tokens hk hv fk fv {..<n}" and same: "same_scalars c c1"
  shows "\<exists>c2. advance_round c1 tokens = Inr c2 \<and> within_append c c2 n tokens hk hv fk fv {..<n}
    \<and> ctx_revision c2 = wrapping_succ (ctx_revision c) \<and> ctx_offset c2 = ctx_offset c + tokens
    \<and> ctx_len c2 = min (ctx_len c + tokens) (physical_capacity c) \<and> layer_revisions c2 = layer_revisions c1"
proof -
  let ?len = "min (ctx_len c + tokens) (physical_capacity c)"
  have lay: "cache_layers c1 n" using w by (simp add: within_append_def)
  have sc: "ctx_width c1 = ctx_width c" "ctx_sink c1 = ctx_sink c" "ctx_window c1 = ctx_window c" "ctx_identity c1 = ctx_identity c"
    "ctx_revision c1 = ctx_revision c" "ctx_offset c1 = ctx_offset c" using same by (simp_all add: same_scalars_def)
  have lens: "length (ctx_k c1 ! layer) = ?len * ctx_width c1" "length (ctx_v c1 ! layer) = ?len * ctx_width c1"
    if "layer < n" for layer
  proof -
    from that have "layer \<in> {..<n}" by simp
    from within_append_layer(2) [OF ok rows w that this]
    show "length (ctx_k c1 ! layer) = ?len * ctx_width c1" "length (ctx_v c1 ! layer) = ?len * ctx_width c1"
      unfolding sc by blast+
  qed
  obtain k ks where ks: "ctx_k c1 = k # ks" using lay n by (cases "ctx_k c1") (auto simp: cache_layers_def)
  have first: "length k div ctx_width c1 = ?len" using lens(1) [OF n] ks lay by (simp add: cache_layers_def)
  let ?c2 = "c1\<lparr>ctx_offset := ctx_offset c1 + tokens, ctx_len := ?len\<rparr>"
  have lay2: "cache_layers ?c2 n" using lay by (simp add: cache_layers_def)
  have "planes_full ?c2" unfolding planes_full_iff [OF lay2] using lens by simp
  then have "advance_round c1 tokens = Inr (?c2\<lparr>ctx_revision := wrapping_succ (ctx_revision ?c2)\<rparr>)"
    using ks first by (simp add: advance_round_def Let_def)
  then show ?thesis
    using w sc by (auto simp: within_append_def cache_layers_def layer_appended_def holds_def)
qed

text \<open>C30: A rollback undoes a provisional append exactly. From any consistent cache, take a checkpoint for
  up to a window of rows and append those rows to any set of layers: rolling back restores the cache
  bit for bit, revisions included, whichever layers were reached. When all layers were appended and
  the round was advanced, the completed append is recognised as such, and the rollback still restores
  the cache.\<close>

theorem rollback_restores:
  assumes ok: "cache_ok c n" and t: "0 < tokens" "tokens \<le> ctx_window c"
    and fits: "ctx_len c + tokens < 2 ^ 64" "ctx_offset c + tokens < 2 ^ 64"
    and batch: "distinct (map fst batch)"
      "\<forall>(layer, k, v)\<in>set batch. layer < n \<and> tokens * ctx_width c \<le> length k \<and> tokens * ctx_width c \<le> length v"
  shows "\<exists>cp c1. checkpoint_append c tokens = Inr cp \<and> append_layers c batch tokens = Inr c1
    \<and> rollback_append c1 cp = Inr c
    \<and> (0 < n \<and> fst ` set batch = {..<n} \<longrightarrow>
        (\<exists>c2. advance_round c1 tokens = Inr c2 \<and> validate_completed_append c2 cp = Inr () \<and> rollback_append c2 cp = Inr c))"
proof -
  obtain hk hv where rows: "layer_rows c n hk hv"
    using cache_ok_holds [OF ok] unfolding layer_rows_def by metis
  have lay: "cache_layers c n" using ok by (simp add: cache_ok_def)
  have h: "\<And>layer. layer < n \<Longrightarrow> holds c layer (hk layer) (hv layer)" using rows by (simp add: layer_rows_def)
  obtain fk fv where bok: "batch_ok c n tokens fk fv batch" using batch by (rule batch_rows)
  from append_layers_rows [OF lay h bok] obtain c1 where c1: "append_layers c batch tokens = Inr c1" "cache_layers c1 n"
    "same_scalars c c1" "\<forall>layer<n. layer_appended c c1 (\<lambda>l. hk l @ fk l) (\<lambda>l. hv l @ fv l) layer (layer \<in> fst ` set batch)"
    by blast
  have w: "within_append c c1 n tokens hk hv fk fv (fst ` set batch)"
    using c1 bok by (auto simp: within_append_def same_scalars_def batch_ok_def)
  let ?cp = "checkpoint_of c n tokens hk hv"
  have "\<exists>c2. advance_round c1 tokens = Inr c2 \<and> validate_completed_append c2 ?cp = Inr () \<and> rollback_append c2 ?cp = Inr c"
    if n: "0 < n" and all: "fst ` set batch = {..<n}"
  proof -
    obtain c2 where c2: "advance_round c1 tokens = Inr c2" "within_append c c2 n tokens hk hv fk fv {..<n}"
      "ctx_revision c2 = wrapping_succ (ctx_revision c)" "ctx_offset c2 = ctx_offset c + tokens"
      "ctx_len c2 = min (ctx_len c + tokens) (physical_capacity c)"
      using advance_within_append [OF ok rows n w [unfolded all] c1(3)] by blast
    have "\<not> list_ex (\<lambda>(after, before). after \<noteq> wrapping_succ before) (zip (layer_revisions c2) (layer_revisions c))"
      using within_append_layer(2) [OF ok rows c2(2)] c2(2) by (auto simp: list_ex_length within_append_def cache_layers_def)
    then have "validate_completed_append c2 ?cp = Inr ()"
      using within_append_validates [OF ok rows c2(2) t fits] c2 fits
      by (simp add: validate_completed_append_def checkpoint_of_def Let_def physical_capacity_def checked_add_def)
    with c2 within_append_rolls_back [OF ok rows c2(2) t fits] show ?thesis by blast
  qed
  with checkpoint_append_eq [OF ok rows t(2)] c1(1) within_append_rolls_back [OF ok rows w t fits] show ?thesis by blast
qed

definition demo_full :: context_cache where
  "demo_full = \<lparr>ctx_k = [[0, 1, 2, 3, 4], [0, 1, 2, 3, 4]], ctx_v = [[10, 11, 12, 13, 14], [10, 11, 12, 13, 14]],
    ctx_len = 5, ctx_offset = 5, ctx_sink = 2, ctx_window = 3, ctx_width = 1, ctx_identity = 1, ctx_revision = 1,
    layer_revisions = [1, 1]\<rparr>"

theorem rollback_restores_witness:
  "\<exists>cp c1. checkpoint_append demo_full 2 = Inr cp \<and> append_layers demo_full [(1, [5, 6], [15, 16])] 2 = Inr c1
    \<and> rollback_append c1 cp = Inr demo_full"
proof -
  have "cache_ok demo_full 2"
    by (simp add: cache_ok_def demo_full_def cache_layers_def planes_full_def physical_capacity_def)
  from rollback_restores [OF this, of 2 "[(1, [5, 6], [15, 16])]"] show ?thesis
    by (auto simp: demo_full_def)
qed

subsection \<open>Snapshots\<close>

lemma foldl_set_layer:
  assumes "length (ctx_k c) = n" "length (ctx_v c) = n" "m + length ls \<le> n"
  shows "(let c' = foldl (\<lambda>c (layer, (key, val)). set_layer c layer key val) c (List.enumerate m ls) in
    same_scalars c c' \<and> length (ctx_k c') = n \<and> length (ctx_v c') = n
    \<and> ctx_k c' = take m (ctx_k c) @ map fst ls @ drop (m + length ls) (ctx_k c)
    \<and> ctx_v c' = take m (ctx_v c) @ map snd ls @ drop (m + length ls) (ctx_v c))"
  using assms
proof (induction ls arbitrary: c m)
  case (Cons x ls)
  obtain k v where x: "x = (k, v)" by (cases x)
  let ?c1 = "set_layer c m k v"
  have m: "m < n" using Cons.prems by simp
  have "same_scalars c ?c1" by simp
  moreover have "take (Suc m) ((ctx_k c)[m := k]) = take m (ctx_k c) @ [k]" "take (Suc m) ((ctx_v c)[m := v]) = take m (ctx_v c) @ [v]"
    using m Cons.prems by (simp_all add: take_Suc_conv_app_nth)
  ultimately show ?case
    using Cons.IH [of ?c1 "Suc m"] Cons.prems x m by (auto simp: Let_def same_scalars_def)
qed (simp add: Let_def same_scalars_def)

text \<open>Installing a snapshot is all or nothing and exact. A snapshot is installed exactly when it is
  well formed and its geometry is the cache's; then the cache's own snapshot is the one installed, the
  geometry and identity are unchanged, every plane has the length of the retained rows, and the revision
  moves, so accelerator mirrors of the earlier content are recognised as stale.\<close>

theorem snapshot_roundtrip:
  assumes lay: "cache_layers c n" and rev: "ctx_revision c < 2 ^ 64"
  shows "case install_snapshot c s of
      Inr c' \<Rightarrow> cache_snapshot c' = s \<and> context_geometry c' = context_geometry c \<and> ctx_identity c' = ctx_identity c
        \<and> planes_full c' \<and> ctx_len c' = min (ctx_offset c') (physical_capacity c') \<and> ctx_revision c' \<noteq> ctx_revision c
    | Inl err \<Rightarrow> validate_snapshot_identity c s = Inl err"
proof (cases "validate_snapshot_identity c s")
  case (Inr u)
  then have geo: "length (sn_layers s) = n" "sn_elements s = ctx_width c" "sn_sink s = ctx_sink c" "sn_window s = ctx_window c"
    and val: "snapshot_validate s = Inr ()"
    using lay by (auto simp: validate_snapshot_identity_def bind_res_Inr_iff context_geometry_def cache_layers_def Let_def split: if_splits)
  have planes: "length k = min (sn_position s) (sn_sink s + sn_window s) * sn_elements s
      \<and> length v = min (sn_position s) (sn_sink s + sn_window s) * sn_elements s" if "(k, v) \<in> set (sn_layers s)" for k v
    using val that by (auto simp: snapshot_validate_def checked_mul_def list_ex_iff split: if_splits option.splits)
  let ?c1 = "c\<lparr>ctx_offset := sn_position s, ctx_len := min (sn_position s) (sn_sink s + sn_window s)\<rparr>"
  define c2 where "c2 = foldl (\<lambda>c (layer, (key, val)). set_layer c layer key val) ?c1 (List.enumerate 0 (sn_layers s))"
  have c2: "same_scalars ?c1 c2" "ctx_k c2 = map fst (sn_layers s)" "ctx_v c2 = map snd (sn_layers s)"
    using foldl_set_layer [of ?c1 n 0 "sn_layers s"] lay geo by (simp_all add: cache_layers_def c2_def Let_def)
  have "install_snapshot c s = Inr (c2\<lparr>ctx_revision := wrapping_succ (ctx_revision c2)\<rparr>)"
    using Inr by (simp add: install_snapshot_def c2_def Let_def)
  moreover have "zip (map fst (sn_layers s)) (map snd (sn_layers s)) = sn_layers s" by (rule zip_map_fst_snd)
  ultimately show ?thesis
    using c2 geo planes lay wrapping_succ_neq [OF rev]
    by (auto simp: cache_snapshot_def context_geometry_def same_scalars_def planes_full_def list_all_iff cache_layers_def
        physical_capacity_def intro!: context_snapshot.equality)
qed (simp add: install_snapshot_def)

theorem snapshot_roundtrip_witness:
  "case install_snapshot demo_full (cache_snapshot demo_full) of
     Inr c \<Rightarrow> cache_snapshot c = cache_snapshot demo_full \<and> ctx_revision c \<noteq> 1 | Inl err \<Rightarrow> False"
proof -
  have "validate_snapshot_identity demo_full (cache_snapshot demo_full) = Inr ()"
    by (simp add: validate_snapshot_identity_def snapshot_validate_def cache_snapshot_def demo_full_def context_geometry_def
        checked_mul_def Let_def)
  moreover have "cache_layers demo_full 2" "ctx_revision demo_full < 2 ^ 64" by (simp_all add: demo_full_def cache_layers_def)
  ultimately show ?thesis
    using snapshot_roundtrip [of demo_full 2 "cache_snapshot demo_full"]
    by (cases "install_snapshot demo_full (cache_snapshot demo_full)") (auto simp: demo_full_def)
qed

text \<open>The gap guard compares the offset with the smaller of the sink and the offset, so it also accepts a
  gap while the sink is not full. The rows appended next then fill sink places, and the position
  reported for them is their place in the sink and not their absolute position.\<close>

definition demo_partial :: context_cache where
  "demo_partial = \<lparr>ctx_k = [[0]], ctx_v = [[10]], ctx_len = 1, ctx_offset = 1, ctx_sink = 2, ctx_window = 3, ctx_width = 1,
    ctx_identity = 1, ctx_revision = 1, layer_revisions = [1]\<rparr>"

lemma gap_before_full_sink:
  "\<exists>c c'. advance_prompt_gap demo_partial 17 = Inr c \<and> append_round c [([17], [27])] 1 = Inr c'
    \<and> ctx_k c' ! 0 = [0, 17] \<and> ctx_offset c' = 18 \<and> retained_absolute_position c' 1 = Inr 1"
  by (simp add: demo_partial_def advance_prompt_gap_def append_round_def append_layers_def append_layer_def
      set_layer_def advance_round_def planes_full_def retained_absolute_position_def Let_def)

end
