(* ===== verification/Bpe_Tokenizer.thy ===== *)
theory Bpe_Tokenizer
  imports Utf8_Text
begin

section \<open>The byte-pair tokenizer\<close>

text \<open>
  \<open>crates/muser-engine/src/tokenizer/bpe.rs\<close>: the tokenizer built from the vocabulary, the merge rules
  and the token types of a GGUF file. Strings are their UTF-8 bytes, token ids 32-bit words, the
  \<open>u32::MAX\<close> sentinel is \<open>NO_TOKEN\<close>. The arenas are kept as the source packs them, with offsets cut to
  32 bits; an index or a slice out of range is \<^const>\<open>None\<close>, a panic. The hash maps are functions, except
  for the two-byte table, an association list in insertion order.

  The regular expression engine is not code of the program: \<open>find_from_pos\<close> stands for \<open>Regex::find_from_pos\<close>,
  with both \<open>Ok(None)\<close> and \<open>Err\<close> as \<^const>\<open>None\<close>; the expressions themselves and what is asked of a search
  are in \<open>Pre_Regex\<close>. The loops that depend on it or on the vocabulary to make
  progress are partial functions, with \<^const>\<open>None\<close> for a run that does not end.
\<close>

named_theorems bpe_defs \<open>constructor and accessors of the tokenizer\<close>

subsection \<open>Data\<close>

definition NO_TOKEN :: u32 where
  "NO_TOKEN = - 1"

text \<open>The four pre-tokenization expressions of the source, by the model family they belong to.\<close>

datatype pre_pattern = Gpt4oPattern | QwenPattern | LinePattern | Gpt2Pattern

type_synonym finder = "pre_pattern \<Rightarrow> bytes \<Rightarrow> nat \<Rightarrow> (nat \<times> nat) option"

record bpe_tokenizer =
  tok_arena :: bytes
  tok_offsets :: "u32 list"
  bytes_arena :: bytes
  bytes_offsets :: "u32 list"
  merge_table :: "u32 \<times> u32 \<Rightarrow> (u32 \<times> u32) option"
  byte_to_token :: "u32 list"
  byte_to_fallback :: "u32 list"
  pre_regex :: pre_pattern
  special_tokens :: "(bytes \<times> u32) list"
  qwen_two_byte_tokens :: "((u8 \<times> u8) \<times> u32) list"
  is_spm_bpe :: bool
  char_to_token :: "bytes \<Rightarrow> u32 option"

datatype segment = TextSegment bytes | SpecialSegment u32

datatype tokenizer_error = UnencodableByte u8

subsection \<open>The GPT-2 byte alphabet\<close>

definition keeps_itself :: "nat \<Rightarrow> bool" where
  "keeps_itself b \<longleftrightarrow> 33 \<le> b \<and> b \<le> 126 \<or> 161 \<le> b \<and> b \<le> 172 \<or> 174 \<le> b \<and> b \<le> 255"

definition gpt2_byte_unicode_pairs :: "(u8 \<times> nat) list" where
  "gpt2_byte_unicode_pairs =
     map (\<lambda>b. (of_nat b, b)) (filter keeps_itself [0..<256])
     @ map (\<lambda>(n, b). (of_nat b, 256 + n)) (enumerate 0 (filter (\<lambda>b. \<not> keeps_itself b) [0..<256]))"

definition gpt2_unicode_to_byte :: "nat \<Rightarrow> u8 option" where
  "gpt2_unicode_to_byte c = map_of (map (\<lambda>(b, c). (c, b)) gpt2_byte_unicode_pairs) c"

definition spm_space :: bytes where
  "spm_space = utf8_encode 0x2581"

text \<open>The raw byte a \<open><0xNN>\<close> token stands for.\<close>

definition byte_fallback_byte :: "bytes \<Rightarrow> int option \<Rightarrow> u8 option" where
  "byte_fallback_byte token token_type =
     (if (case token_type of Some declared \<Rightarrow> declared \<noteq> 6 | None \<Rightarrow> False) then None
      else if starts_with (str ''<0x'') token \<and> drop 3 token \<noteq> [] \<and> last (drop 3 token) = 62 then
        (let hex = butlast (drop 3 token) in
         if length hex \<noteq> 2 then None else map_option of_nat (from_str_radix_16 hex))
      else None)"

subsection \<open>Construction\<close>

fun pack_arena :: "bytes \<Rightarrow> u32 list \<Rightarrow> bytes list \<Rightarrow> bytes \<times> u32 list" where
  "pack_arena arena offsets [] = (arena, offsets @ [of_nat (length arena)])"
| "pack_arena arena offsets (t # ts) = pack_arena (arena @ t) (offsets @ [of_nat (length arena)]) ts"

definition token_to_id :: "bytes list \<Rightarrow> bytes \<Rightarrow> u32 option" where
  "token_to_id vocab = foldl (\<lambda>m (tid, t). m(t \<mapsto> of_nat tid)) Map.empty (enumerate 0 vocab)"

definition add_merge :: "(bytes \<Rightarrow> u32 option) \<Rightarrow> (u32 \<times> u32 \<Rightarrow> (u32 \<times> u32) option)
    \<Rightarrow> nat \<times> bytes \<times> bytes \<Rightarrow> (u32 \<times> u32 \<Rightarrow> (u32 \<times> u32) option)" where
  "add_merge ids table rule = (case rule of (priority, a, b) \<Rightarrow>
     (case (ids a, ids b) of
        (Some aid, Some bid) \<Rightarrow>
          (case ids (a @ b) of
             Some mid \<Rightarrow> table((aid, bid) \<mapsto> (of_nat priority, mid))
           | None \<Rightarrow> table)
      | _ \<Rightarrow> table))"

definition build_merge_table :: "bytes list \<Rightarrow> (bytes \<times> bytes) list \<Rightarrow> u32 \<times> u32 \<Rightarrow> (u32 \<times> u32) option" where
  "build_merge_table vocab merges = foldl (add_merge (token_to_id vocab)) Map.empty (enumerate 0 merges)"

definition detect_spm :: "bytes list \<Rightarrow> string \<Rightarrow> bool" where
  "detect_spm vocab pre_type \<longleftrightarrow> pre_type = ''gemma4''
     \<or> (length (filter (starts_with spm_space) vocab) > 100
        \<and> length (filter (starts_with (utf8_encode 0x0120)) vocab) < 100)"

definition fallback_bytes :: "bytes list \<Rightarrow> int list \<Rightarrow> u8 option list" where
  "fallback_bytes vocab token_types =
     map (\<lambda>(tid, t). byte_fallback_byte t (if tid < length token_types then Some (token_types ! tid) else None))
       (enumerate 0 vocab)"

definition build_byte_to_fallback :: "u8 option list \<Rightarrow> u32 list" where
  "build_byte_to_fallback fallbacks =
     foldl (\<lambda>table (tid, byte). case byte of
         Some b \<Rightarrow> if table ! unat b = NO_TOKEN then table[unat b := of_nat tid] else table
       | None \<Rightarrow> table) (replicate 256 NO_TOKEN) (enumerate 0 fallbacks)"

definition gpt2_bytes :: "bytes \<Rightarrow> bytes" where
  "gpt2_bytes t = map (\<lambda>c. case gpt2_unicode_to_byte c of Some b \<Rightarrow> b | None \<Rightarrow> of_nat c) (chars t)"

definition decoded_bytes :: "bool \<Rightarrow> u8 option \<Rightarrow> bytes \<Rightarrow> bytes" where
  "decoded_bytes spm fallback t =
     (case fallback of Some b \<Rightarrow> [b] | None \<Rightarrow> if spm then t else gpt2_bytes t)"

definition build_byte_to_token :: "bytes list \<Rightarrow> u32 list" where
  "build_byte_to_token vocab =
     foldl (\<lambda>table (b, c). case token_to_id vocab (utf8_encode c) of
         Some tid \<Rightarrow> table[unat b := tid] | None \<Rightarrow> table)
       (replicate 256 NO_TOKEN) gpt2_byte_unicode_pairs"

definition build_char_to_token :: "bytes list \<Rightarrow> bool \<Rightarrow> bytes \<Rightarrow> u32 option" where
  "build_char_to_token vocab spm =
     (if spm then
        (let m = foldl (\<lambda>m (tid, t). if length (chars t) = 1 then m(t \<mapsto> of_nat tid) else m) Map.empty
               (enumerate 0 vocab)
         in foldl (\<lambda>m b. if m (utf8_encode b) = None then
              (case token_to_id vocab (utf8_encode b) of Some tid \<Rightarrow> m(utf8_encode b \<mapsto> tid) | None \<Rightarrow> m)
            else m) m [0..<256])
      else Map.empty)"

text \<open>The bytes of a packed entry; a slice with bad bounds panics.\<close>

definition arena_slice :: "bytes \<Rightarrow> u32 list \<Rightarrow> u32 \<Rightarrow> bytes option" where
  "arena_slice arena offsets tid =
     (if unat tid + 1 < length offsets then
        (let start = unat (offsets ! unat tid); stop = unat (offsets ! (unat tid + 1)) in
         if start \<le> stop \<and> stop \<le> length arena then Some (take (stop - start) (drop start arena)) else None)
      else None)"

fun add_two_byte :: "((u8 \<times> u8) \<times> u32) list \<Rightarrow> nat \<times> bytes \<Rightarrow> ((u8 \<times> u8) \<times> u32) list" where
  "add_two_byte m (tid, [a, b]) = (if map_of m (a, b) = None then m @ [((a, b), of_nat tid)] else m)"
| "add_two_byte m (tid, bs) = m"

definition build_two_byte :: "bytes \<Rightarrow> u32 list \<Rightarrow> nat \<Rightarrow> ((u8 \<times> u8) \<times> u32) list option" where
  "build_two_byte arena offsets n =
     map_option (\<lambda>parts. foldl add_two_byte [] (enumerate 0 parts))
       (those (map (\<lambda>tid. arena_slice arena offsets (of_nat tid)) [0..<n]))"

definition is_qwen :: "string \<Rightarrow> bool" where
  "is_qwen pre_type \<longleftrightarrow> pre_type = ''qwen2'' \<or> pre_type = ''qwen35''"

definition select_pattern :: "string \<Rightarrow> bool \<Rightarrow> pre_pattern" where
  "select_pattern pre_type spm =
     (if pre_type = ''llama4'' \<or> pre_type = ''gpt-4o'' then Gpt4oPattern
      else if is_qwen pre_type then QwenPattern
      else if pre_type = ''gemma4'' \<or> spm then LinePattern
      else Gpt2Pattern)"

definition is_special :: "int list \<Rightarrow> nat \<Rightarrow> bytes \<Rightarrow> bool" where
  "is_special token_types tid t =
     (if token_types \<noteq> [] \<and> tid < length token_types then token_types ! tid = 3 \<or> token_types ! tid = 4
      else starts_with (str ''<|'') t \<and> length t \<ge> 2 \<and> drop (length t - 2) t = str ''|>'')"

definition collect_specials :: "bytes list \<Rightarrow> int list \<Rightarrow> (bytes \<times> u32) list" where
  "collect_specials vocab token_types =
     sort_key (\<lambda>(t, tid). - int (length t))
       (map (\<lambda>(tid, t). (t, of_nat tid)) (filter (\<lambda>(tid, t). is_special token_types tid t) (enumerate 0 vocab)))"

definition bpe_new :: "bytes list \<Rightarrow> (bytes \<times> bytes) list \<Rightarrow> string \<Rightarrow> int list \<Rightarrow> bpe_tokenizer option" where
  "bpe_new vocab merges pre_type token_types =
     (let (arena, offsets) = pack_arena [] [] vocab;
          spm = detect_spm vocab pre_type;
          fallbacks = fallback_bytes vocab token_types;
          (decoded, decoded_offsets) = pack_arena [] [] (map2 (decoded_bytes spm) fallbacks vocab)
      in map_option
           (\<lambda>two_byte. \<lparr>tok_arena = arena, tok_offsets = offsets, bytes_arena = decoded,
              bytes_offsets = decoded_offsets, merge_table = build_merge_table vocab merges,
              byte_to_token = build_byte_to_token vocab,
              byte_to_fallback = build_byte_to_fallback fallbacks,
              pre_regex = select_pattern pre_type spm,
              special_tokens = collect_specials vocab token_types,
              qwen_two_byte_tokens = two_byte, is_spm_bpe = spm,
              char_to_token = build_char_to_token vocab spm\<rparr>)
           (if is_qwen pre_type \<and> \<not> spm then build_two_byte decoded decoded_offsets (length vocab) else Some []))"

subsection \<open>Token strings and bytes\<close>

definition vocab_size :: "bpe_tokenizer \<Rightarrow> nat" where
  "vocab_size tok = length (tok_offsets tok) - 1"

definition token_str :: "bpe_tokenizer \<Rightarrow> u32 \<Rightarrow> bytes option" where
  "token_str tok tid = map_option (\<lambda>s. if utf8_valid s then s else []) (arena_slice (tok_arena tok) (tok_offsets tok) tid)"

definition token_bytes :: "bpe_tokenizer \<Rightarrow> u32 \<Rightarrow> bytes option" where
  "token_bytes tok tid = arena_slice (bytes_arena tok) (bytes_offsets tok) tid"

definition get_token_bytes :: "bpe_tokenizer \<Rightarrow> u32 \<Rightarrow> bytes option" where
  "get_token_bytes tok tid = (if unat tid < vocab_size tok then token_bytes tok tid else Some [])"

subsection \<open>Byte-pair merging\<close>

definition scan_pair ::
    "(u32 \<times> u32 \<Rightarrow> (u32 \<times> u32) option) \<Rightarrow> u32 list \<Rightarrow> u32 \<times> nat option \<Rightarrow> nat \<Rightarrow> u32 \<times> nat option" where
  "scan_pair table ids best i =
     (case table (ids ! i, ids ! (i + 1)) of
        Some (priority, _) \<Rightarrow> if priority < fst best then (priority, Some i) else best
      | None \<Rightarrow> best)"

definition best_pair :: "(u32 \<times> u32 \<Rightarrow> (u32 \<times> u32) option) \<Rightarrow> u32 list \<Rightarrow> nat option" where
  "best_pair table ids = snd (foldl (scan_pair table ids) (NO_TOKEN, None) [0..<length ids - 1])"

definition remove_at :: "nat \<Rightarrow> 'a list \<Rightarrow> 'a list" where
  "remove_at i xs = take i xs @ drop (Suc i) xs"

definition mergeable :: "(u32 \<times> u32 \<Rightarrow> (u32 \<times> u32) option) \<Rightarrow> u32 list \<Rightarrow> nat \<Rightarrow> u32 \<Rightarrow> u32 \<Rightarrow> bool" where
  "mergeable table ids i p m \<longleftrightarrow> Suc i < length ids \<and> table (ids ! i, ids ! Suc i) = Some (p, m) \<and> p \<noteq> NO_TOKEN"

lemma less_NO_TOKEN: "p < NO_TOKEN \<longleftrightarrow> p \<noteq> NO_TOKEN"
  by (simp add: NO_TOKEN_def word_order.not_eq_extremum)

lemma scan_pairs:
  assumes "foldl (scan_pair table ids) (NO_TOKEN, None) [0..<n] = (p, best)" and "n < length ids"
  shows "(case best of
      None \<Rightarrow> p = NO_TOKEN \<and> (\<forall>j<n. \<forall>q m. \<not> mergeable table ids j q m)
    | Some i \<Rightarrow> i < n \<and> (\<exists>m. mergeable table ids i p m)
        \<and> (\<forall>j<n. \<forall>q m. mergeable table ids j q m \<longrightarrow> p \<le> q \<and> (j < i \<longrightarrow> p < q)))"
  using assms
proof (induction n arbitrary: p best)
  case (Suc n)
  obtain p0 best0 where f: "foldl (scan_pair table ids) (NO_TOKEN, None) [0..<n] = (p0, best0)" by fastforce
  note IH = Suc.IH [OF f Suc_lessD [OF Suc.prems(2)]]
  have step: "scan_pair table ids (p0, best0) n = (p, best)" using Suc.prems(1) f by simp
  have len: "Suc n < length ids" using Suc.prems(2) .
  have bound: "p0 \<noteq> NO_TOKEN \<or> best0 = None" using IH by (cases best0) (auto simp: mergeable_def)
  show ?case
  proof (cases "\<exists>q m. table (ids ! n, ids ! Suc n) = Some (q, m) \<and> q < p0")
    case True
    then obtain q m where q: "table (ids ! n, ids ! Suc n) = Some (q, m)" "q < p0" by blast
    have ne: "q \<noteq> NO_TOKEN" using q(2) order.strict_trans1 [of q q p0] less_NO_TOKEN word_order.extremum_strict
      by (metis NO_TOKEN_def not_less_iff_gr_or_eq word_order.not_eq_extremum)
    have eq: "p = q" "best = Some n" using step q by (simp_all add: scan_pair_def)
    have "mergeable table ids n q m" using q ne len by (simp add: mergeable_def)
    moreover have "q \<le> q' \<and> (j < n \<longrightarrow> q < q')" if "j < Suc n" "mergeable table ids j q' m'" for j q' m'
    proof (cases "j = n")
      case True
      then show ?thesis using that q by (simp add: mergeable_def)
    next
      case False
      then have "j < n" using that(1) by simp
      then have "p0 \<le> q'" using IH that(2) by (cases best0) (simp, simp, blast)
      then show ?thesis using q(2) by auto
    qed
    ultimately show ?thesis using eq by auto
  next
    case False
    then have eq: "p = p0" "best = best0"
      using step by (auto simp: scan_pair_def split: option.splits if_splits)
    show ?thesis
    proof (cases best0)
      case None
      then have "p0 = NO_TOKEN" using IH by simp
      then have "\<not> mergeable table ids n q m" for q m using False by (auto simp: mergeable_def less_NO_TOKEN)
      then show ?thesis using IH None eq by (auto simp: less_Suc_eq)
    next
      case (Some i)
      have "p0 \<le> q" if "mergeable table ids n q m" for q m
        using False that by (auto simp: mergeable_def not_less)
      then show ?thesis using IH Some eq by (auto simp: less_Suc_eq)
    qed
  qed
qed simp

lemma best_pair_Some:
  assumes "best_pair table ids = Some i"
  shows "\<exists>p m. mergeable table ids i p m
    \<and> (\<forall>j q m'. mergeable table ids j q m' \<longrightarrow> p \<le> q \<and> (j < i \<longrightarrow> p < q))"
proof -
  obtain p where f: "foldl (scan_pair table ids) (NO_TOKEN, None) [0..<length ids - 1] = (p, Some i)"
    using assms by (auto simp: best_pair_def prod_eq_iff)
  have "ids \<noteq> []" using f by auto
  then have "length ids - 1 < length ids" by simp
  from scan_pairs [OF f this] obtain m where m: "mergeable table ids i p m"
    "\<forall>j<length ids - 1. \<forall>q m. mergeable table ids j q m \<longrightarrow> p \<le> q \<and> (j < i \<longrightarrow> p < q)" by auto
  have "mergeable table ids j q m' \<Longrightarrow> j < length ids - 1" for j q m' by (auto simp: mergeable_def)
  with m show ?thesis by blast
qed

lemma best_pair_None:
  assumes "best_pair table ids = None"
  shows "\<not> mergeable table ids j q m"
proof (cases "ids = []")
  case False
  obtain p where f: "foldl (scan_pair table ids) (NO_TOKEN, None) [0..<length ids - 1] = (p, None)"
    using assms by (auto simp: best_pair_def prod_eq_iff)
  have "length ids - 1 < length ids" using False by simp
  from scan_pairs [OF f this] have "\<forall>j<length ids - 1. \<forall>q m. \<not> mergeable table ids j q m" by simp
  moreover have "mergeable table ids j q m \<Longrightarrow> j < length ids - 1" by (auto simp: mergeable_def)
  ultimately show ?thesis by blast
qed (simp add: mergeable_def)

lemma length_remove_at: "i < length xs \<Longrightarrow> length (remove_at i xs) = length xs - 1"
  by (simp add: remove_at_def)

function bpe_merge_ids :: "(u32 \<times> u32 \<Rightarrow> (u32 \<times> u32) option) \<Rightarrow> u32 list \<Rightarrow> u32 list option" where
  "bpe_merge_ids table ids =
     (if length ids < 2 then Some ids
      else case best_pair table ids of
          None \<Rightarrow> Some ids
        | Some i \<Rightarrow>
            (case table (ids ! i, ids ! (i + 1)) of
               Some (_, merged_id) \<Rightarrow> bpe_merge_ids table (remove_at (i + 1) (ids[i := merged_id]))
             | None \<Rightarrow> None))"
  by pat_completeness auto
termination
proof (relation "measure (\<lambda>(table, ids). length ids)")
  fix table ids i x p m
  assume "best_pair table ids = Some i"
  then have "Suc i < length ids" using best_pair_Some by (auto simp: mergeable_def)
  then show "((table, remove_at (i + 1) (ids[i := m])), table, ids) \<in> measure (\<lambda>(table, ids). length ids)"
    by (simp add: length_remove_at)
qed simp

declare bpe_merge_ids.simps [simp del]

subsection \<open>Encoding\<close>

definition byte_token :: "bpe_tokenizer \<Rightarrow> u8 \<Rightarrow> tokenizer_error + u32" where
  "byte_token tok byte =
     (if byte_to_token tok ! unat byte \<noteq> NO_TOKEN then Inr (byte_to_token tok ! unat byte)
      else if byte_to_fallback tok ! unat byte \<noteq> NO_TOKEN then Inr (byte_to_fallback tok ! unat byte)
      else Inl (UnencodableByte byte))"

definition qwen_exact_two_byte_token_id :: "bpe_tokenizer \<Rightarrow> bytes \<Rightarrow> u32 option" where
  "qwen_exact_two_byte_token_id tok word =
     (if is_spm_bpe tok \<or> qwen_two_byte_tokens tok = [] then None
      else if length word \<noteq> 2 then None
      else map_of (qwen_two_byte_tokens tok) (word ! 0, word ! 1))"

definition spm_char_ids :: "bpe_tokenizer \<Rightarrow> nat \<Rightarrow> tokenizer_error + u32 list" where
  "spm_char_ids tok c =
     (case char_to_token tok (utf8_encode c) of
        Some tid \<Rightarrow> Inr [tid]
      | None \<Rightarrow> map_res (byte_token tok) (utf8_encode c))"

definition word_ids :: "bpe_tokenizer \<Rightarrow> bytes \<Rightarrow> tokenizer_error + u32 list" where
  "word_ids tok word =
     (if is_spm_bpe tok then bind_res (map_res (spm_char_ids tok) (chars word)) (\<lambda>parts. Inr (concat parts))
      else map_res (byte_token tok) word)"

partial_function (option) encode_loop ::
    "finder \<Rightarrow> bpe_tokenizer \<Rightarrow> bytes \<Rightarrow> nat \<Rightarrow> u32 list \<Rightarrow> (tokenizer_error + u32 list) option" where
  "encode_loop find_from_pos tok text pos result =
     (if pos < length text then
        (case find_from_pos (pre_regex tok) text pos of
           Some (start, stop) \<Rightarrow>
             (case qwen_exact_two_byte_token_id tok (take (stop - start) (drop start text)) of
                Some tid \<Rightarrow> encode_loop find_from_pos tok text stop (result @ [tid])
              | None \<Rightarrow>
                  (case word_ids tok (take (stop - start) (drop start text)) of
                     Inl err \<Rightarrow> Some (Inl err)
                   | Inr ids \<Rightarrow>
                       (case bpe_merge_ids (merge_table tok) ids of
                          None \<Rightarrow> None
                        | Some merged \<Rightarrow> encode_loop find_from_pos tok text stop (result @ merged))))
         | None \<Rightarrow>
             (case byte_token tok (text ! pos) of
                Inl err \<Rightarrow> Some (Inl err)
              | Inr tid \<Rightarrow> encode_loop find_from_pos tok text (pos + 1) (result @ [tid])))
      else Some (Inr result))"

definition effective_text :: "bpe_tokenizer \<Rightarrow> bytes \<Rightarrow> bytes" where
  "effective_text tok text = (if is_spm_bpe tok then str_replace (utf8_encode 32) spm_space text else text)"

definition encode_segment ::
    "finder \<Rightarrow> bpe_tokenizer \<Rightarrow> bytes \<Rightarrow> u32 list \<Rightarrow> (tokenizer_error + u32 list) option" where
  "encode_segment find_from_pos tok text result = encode_loop find_from_pos tok (effective_text tok text) 0 result"

definition closer_special ::
    "bytes \<Rightarrow> (nat \<times> bytes \<times> u32) option \<Rightarrow> bytes \<times> u32 \<Rightarrow> (nat \<times> bytes \<times> u32) option" where
  "closer_special remaining best entry = (case entry of (t, tid) \<Rightarrow>
     (case str_find t remaining of
        Some pos \<Rightarrow> if (case best of None \<Rightarrow> True | Some (p, _) \<Rightarrow> pos < p) then Some (pos, t, tid) else best
      | None \<Rightarrow> best))"

definition best_special :: "(bytes \<times> u32) list \<Rightarrow> bytes \<Rightarrow> (nat \<times> bytes \<times> u32) option" where
  "best_special specials remaining = foldl (closer_special remaining) None specials"

partial_function (option) split_loop :: "(bytes \<times> u32) list \<Rightarrow> bytes \<Rightarrow> segment list \<Rightarrow> segment list option" where
  "split_loop specials remaining segments =
     (if remaining = [] then Some segments
      else case best_special specials remaining of
          Some (pos, t, tid) \<Rightarrow>
            split_loop specials (drop (pos + length t) remaining)
              (segments @ (if pos > 0 then [TextSegment (take pos remaining)] else []) @ [SpecialSegment tid])
        | None \<Rightarrow> Some (segments @ [TextSegment remaining]))"

definition split_special_tokens :: "bpe_tokenizer \<Rightarrow> bytes \<Rightarrow> segment list option" where
  "split_special_tokens tok text =
     (if special_tokens tok = [] then Some [TextSegment text] else split_loop (special_tokens tok) text [])"

fun encode_segments ::
    "finder \<Rightarrow> bpe_tokenizer \<Rightarrow> segment list \<Rightarrow> u32 list \<Rightarrow> (tokenizer_error + u32 list) option" where
  "encode_segments find_from_pos tok [] result = Some (Inr result)"
| "encode_segments find_from_pos tok (SpecialSegment tid # segments) result =
     encode_segments find_from_pos tok segments (result @ [tid])"
| "encode_segments find_from_pos tok (TextSegment s # segments) result =
     (case encode_segment find_from_pos tok s result of
        None \<Rightarrow> None
      | Some (Inl err) \<Rightarrow> Some (Inl err)
      | Some (Inr result') \<Rightarrow> encode_segments find_from_pos tok segments result')"

definition try_encode_with_options ::
    "finder \<Rightarrow> bpe_tokenizer \<Rightarrow> bytes \<Rightarrow> bool \<Rightarrow> (tokenizer_error + u32 list) option" where
  "try_encode_with_options find_from_pos tok text parse_special =
     (if text = [] then Some (Inr [])
      else if \<not> parse_special then encode_segment find_from_pos tok text []
      else case split_special_tokens tok text of
          None \<Rightarrow> None
        | Some segments \<Rightarrow> encode_segments find_from_pos tok segments [])"

definition try_encode :: "finder \<Rightarrow> bpe_tokenizer \<Rightarrow> bytes \<Rightarrow> (tokenizer_error + u32 list) option" where
  "try_encode find_from_pos tok text = try_encode_with_options find_from_pos tok text True"

text \<open>The panicking forms: an error is \<^const>\<open>None\<close> as well.\<close>

definition encode_with_options :: "finder \<Rightarrow> bpe_tokenizer \<Rightarrow> bytes \<Rightarrow> bool \<Rightarrow> u32 list option" where
  "encode_with_options find_from_pos tok text parse_special =
     (case try_encode_with_options find_from_pos tok text parse_special of Some (Inr ids) \<Rightarrow> Some ids | _ \<Rightarrow> None)"

definition encode :: "finder \<Rightarrow> bpe_tokenizer \<Rightarrow> bytes \<Rightarrow> u32 list option" where
  "encode find_from_pos tok text = encode_with_options find_from_pos tok text True"

subsection \<open>Decoding\<close>

definition spm_fixup :: "bpe_tokenizer \<Rightarrow> bytes \<Rightarrow> bytes" where
  "spm_fixup tok s = (if is_spm_bpe tok then str_replace spm_space (utf8_encode 32) s else s)"

definition decode_raw :: "bpe_tokenizer \<Rightarrow> u32 \<Rightarrow> bytes option" where
  "decode_raw tok tid = (if unat tid < vocab_size tok then token_str tok tid else Some [])"

definition decode :: "bpe_tokenizer \<Rightarrow> u32 \<Rightarrow> bytes option" where
  "decode tok tid =
     (if unat tid < vocab_size tok then map_option (\<lambda>bs. spm_fixup tok (from_utf8_lossy bs)) (token_bytes tok tid)
      else Some [])"

definition decode_ref :: "bpe_tokenizer \<Rightarrow> u32 \<Rightarrow> bytes option" where
  "decode_ref tok tid =
     (if unat tid < vocab_size tok then
        map_option (\<lambda>bs. let cow = from_utf8_lossy bs in
            if is_spm_bpe tok \<and> str_find spm_space cow \<noteq> None
            then str_replace spm_space (utf8_encode 32) cow else cow) (token_bytes tok tid)
      else Some [])"

fun token_stream :: "bpe_tokenizer \<Rightarrow> u32 list \<Rightarrow> bytes option" where
  "token_stream tok [] = Some []"
| "token_stream tok (tid # ids) =
     (case get_token_bytes tok tid of
        None \<Rightarrow> None
      | Some bs \<Rightarrow> map_option (\<lambda>rest. bs @ rest) (token_stream tok ids))"

definition decode_all :: "bpe_tokenizer \<Rightarrow> u32 list \<Rightarrow> bytes option" where
  "decode_all tok ids = map_option (\<lambda>bs. spm_fixup tok (from_utf8_lossy bs)) (token_stream tok ids)"

end
