(* ===== verification/Pre_Regex.thy ===== *)
theory Pre_Regex
  imports Bpe_Tokenizer
begin

section \<open>The pre-tokenization expressions\<close>

text \<open>
  The four regular expressions that \<open>BpeTokenizer::new\<close> hands to \<open>fancy_regex\<close>, as syntax trees, and
  what a search with them promises. An expression is a relation between the positions of a list of
  code points: \<open>re_match cs r i j\<close> says that \<open>r\<close> can match from \<open>i\<close> to \<open>j\<close>. Which of the possible ends
  the engine prefers is left open. The classes \<open>\p{L}\<close>, \<open>\p{N}\<close> and \<open>\s\<close> are tables of the engine and
  a parameter, on which nothing is assumed.

  Two facts about the expressions carry the tokenizer's proofs: none of them matches the empty text,
  and each of them matches at every character, whatever the tables say.
\<close>

subsection \<open>Regular expressions\<close>

datatype re =
  Cls "nat \<Rightarrow> bool"
| Eps
| Seq re re
| Alt re re
| Star re
| Ahead re
| NotAhead re

primrec re_match :: "nat list \<Rightarrow> re \<Rightarrow> nat \<Rightarrow> nat \<Rightarrow> bool" where
  "re_match cs (Cls P) i j \<longleftrightarrow> i < length cs \<and> P (cs ! i) \<and> j = Suc i"
| "re_match cs Eps i j \<longleftrightarrow> j = i"
| "re_match cs (Seq r s) i j \<longleftrightarrow> (\<exists>k. re_match cs r i k \<and> re_match cs s k j)"
| "re_match cs (Alt r s) i j \<longleftrightarrow> re_match cs r i j \<or> re_match cs s i j"
| "re_match cs (Star r) i j \<longleftrightarrow> (re_match cs r)\<^sup>*\<^sup>* i j"
| "re_match cs (Ahead r) i j \<longleftrightarrow> j = i \<and> (\<exists>k. re_match cs r i k)"
| "re_match cs (NotAhead r) i j \<longleftrightarrow> j = i \<and> (\<nexists>k. re_match cs r i k)"

definition seqs :: "re list \<Rightarrow> re" where
  "seqs rs = foldr Seq rs Eps"

definition alts :: "re list \<Rightarrow> re" where
  "alts rs = foldr Alt rs (Cls (\<lambda>_. False))"

definition opt_re :: "re \<Rightarrow> re" where
  "opt_re r = Alt r Eps"

definition plus_re :: "re \<Rightarrow> re" where
  "plus_re r = Seq r (Star r)"

lemma re_match_seqs [simp]:
  "re_match cs (seqs []) i j \<longleftrightarrow> j = i"
  "re_match cs (seqs (r # rs)) i j \<longleftrightarrow> (\<exists>k. re_match cs r i k \<and> re_match cs (seqs rs) k j)"
  by (simp_all add: seqs_def)

lemma re_match_alts [simp]: "re_match cs (alts rs) i j \<longleftrightarrow> (\<exists>r\<in>set rs. re_match cs r i j)"
  by (induction rs) (auto simp: alts_def)

text \<open>Can an expression match without taking a character?\<close>

primrec nullable :: "re \<Rightarrow> bool" where
  "nullable (Cls P) \<longleftrightarrow> False"
| "nullable Eps \<longleftrightarrow> True"
| "nullable (Seq r s) \<longleftrightarrow> nullable r \<and> nullable s"
| "nullable (Alt r s) \<longleftrightarrow> nullable r \<or> nullable s"
| "nullable (Star r) \<longleftrightarrow> True"
| "nullable (Ahead r) \<longleftrightarrow> True"
| "nullable (NotAhead r) \<longleftrightarrow> True"

lemma nullable_lists [simp]:
  "nullable (seqs rs) \<longleftrightarrow> list_all nullable rs" "nullable (alts rs) \<longleftrightarrow> list_ex nullable rs"
  by (induction rs) (simp_all add: seqs_def alts_def)

text \<open>A match goes forward and stays inside the text, and strictly forward if the expression is not
  nullable.\<close>

lemma re_match_forward: "re_match cs r i j \<Longrightarrow> i \<le> j \<and> (i < j \<longrightarrow> j \<le> length cs)"
proof (induction r arbitrary: i j)
  case (Seq r s)
  then obtain k where k: "re_match cs r i k" "re_match cs s k j" by auto
  from Seq.IH(1) [OF k(1)] Seq.IH(2) [OF k(2)] show ?case by (cases "k = j") auto
next
  case (Star r)
  then have "(re_match cs r)\<^sup>*\<^sup>* i j" by simp
  then show ?case
  proof (induction rule: rtranclp_induct)
    case (step k l)
    with Star.IH [OF step.hyps(2)] show ?case by (cases "k = l") auto
  qed simp
next
  case (Alt r s)
  then show ?case by (metis re_match.simps(4))
qed auto

lemma re_match_progress: "re_match cs r i j \<Longrightarrow> \<not> nullable r \<Longrightarrow> i < j"
proof (induction r arbitrary: i j)
  case (Seq r s)
  then obtain k where k: "re_match cs r i k" "re_match cs s k j" by auto
  note f = re_match_forward [OF k(1)] re_match_forward [OF k(2)]
  show ?case
  proof (cases "nullable r")
    case True
    with Seq.prems(2) Seq.IH(2) [OF k(2)] f show ?thesis by simp
  next
    case False
    with Seq.IH(1) [OF k(1)] f show ?thesis by simp
  qed
qed auto

subsection \<open>The four expressions\<close>

text \<open>The engine's tables: \<open>\p{L}\<close>, \<open>\p{N}\<close>, \<open>\s\<close>.\<close>

record unicode =
  uc_letter :: "nat \<Rightarrow> bool"
  uc_number :: "nat \<Rightarrow> bool"
  uc_space :: "nat \<Rightarrow> bool"

definition one_of :: "nat list \<Rightarrow> re" where
  "one_of cs = Cls (\<lambda>c. c \<in> set cs)"

definition lit :: "string \<Rightarrow> re" where
  "lit s = seqs (map (\<lambda>c. one_of [of_char c]) s)"

text \<open>\<open>(?:'[sS]|'[tT]|'[rR][eE]|'[vV][eE]|'[mM]|'[lL][lL]|'[dD])\<close>\<close>

definition either_case :: "char \<Rightarrow> char \<Rightarrow> re" where
  "either_case a b = one_of [of_char a, of_char b]"

definition contraction :: re where
  "contraction = alts
     [seqs [lit [CHR 0x27], either_case CHR ''s'' CHR ''S''],
      seqs [lit [CHR 0x27], either_case CHR ''t'' CHR ''T''],
      seqs [lit [CHR 0x27], either_case CHR ''r'' CHR ''R'', either_case CHR ''e'' CHR ''E''],
      seqs [lit [CHR 0x27], either_case CHR ''v'' CHR ''V'', either_case CHR ''e'' CHR ''E''],
      seqs [lit [CHR 0x27], either_case CHR ''m'' CHR ''M''],
      seqs [lit [CHR 0x27], either_case CHR ''l'' CHR ''L'', either_case CHR ''l'' CHR ''L''],
      seqs [lit [CHR 0x27], either_case CHR ''d'' CHR ''D'']]"

text \<open>\<open>[^\r\n\p{L}\p{N}]\<close>, \<open>[^\s\p{L}\p{N}]\<close>, \<open>\s+(?!\S)\<close> and \<open>[\r\n]\<close>\<close>

definition no_word :: "unicode \<Rightarrow> re" where
  "no_word u = Cls (\<lambda>c. c \<noteq> 13 \<and> c \<noteq> 10 \<and> \<not> uc_letter u c \<and> \<not> uc_number u c)"

definition other_char :: "unicode \<Rightarrow> re" where
  "other_char u = Cls (\<lambda>c. \<not> uc_space u c \<and> \<not> uc_letter u c \<and> \<not> uc_number u c)"

definition trailing_space :: "unicode \<Rightarrow> re" where
  "trailing_space u = seqs [plus_re (Cls (uc_space u)), NotAhead (Cls (\<lambda>c. \<not> uc_space u c))]"

definition line_break :: re where
  "line_break = one_of [13, 10]"

text \<open>\<open>((?=[\p{L}])([^a-z]))\<close> and \<open>((?=[\p{L}])([^A-Z]))\<close>\<close>

definition not_lower :: "unicode \<Rightarrow> re" where
  "not_lower u = Seq (Ahead (Cls (uc_letter u))) (Cls (\<lambda>c. \<not> (97 \<le> c \<and> c \<le> 122)))"

definition not_upper :: "unicode \<Rightarrow> re" where
  "not_upper u = Seq (Ahead (Cls (uc_letter u))) (Cls (\<lambda>c. \<not> (65 \<le> c \<and> c \<le> 90)))"

definition gpt4o_re :: "unicode \<Rightarrow> re" where
  "gpt4o_re u = alts
     [seqs [opt_re (no_word u), Star (not_lower u), plus_re (not_upper u), opt_re contraction],
      seqs [opt_re (no_word u), plus_re (not_lower u), Star (not_upper u), opt_re contraction],
      seqs [Cls (uc_number u), opt_re (Cls (uc_number u)), opt_re (Cls (uc_number u))],
      seqs [opt_re (lit '' ''), plus_re (other_char u), Star (one_of [13, 10, 47])],
      seqs [Star (Cls (uc_space u)), plus_re line_break],
      trailing_space u,
      plus_re (Cls (uc_space u))]"

definition qwen_re :: "unicode \<Rightarrow> re" where
  "qwen_re u = alts
     [contraction,
      seqs [opt_re (no_word u), plus_re (Cls (uc_letter u))],
      Cls (uc_number u),
      seqs [opt_re (lit '' ''), plus_re (other_char u), Star line_break],
      seqs [Star (Cls (uc_space u)), plus_re line_break],
      trailing_space u,
      plus_re (Cls (uc_space u))]"

definition line_re :: re where
  "line_re = alts [plus_re (Cls (\<lambda>c. c \<noteq> 10)), plus_re (one_of [10])]"

definition gpt2_re :: "unicode \<Rightarrow> re" where
  "gpt2_re u = alts
     [lit [CHR 0x27, CHR ''s''], lit [CHR 0x27, CHR ''t''], lit [CHR 0x27, CHR ''r'', CHR ''e''],
      lit [CHR 0x27, CHR ''v'', CHR ''e''], lit [CHR 0x27, CHR ''m''],
      lit [CHR 0x27, CHR ''l'', CHR ''l''], lit [CHR 0x27, CHR ''d''],
      seqs [opt_re (lit '' ''), plus_re (Cls (uc_letter u))],
      seqs [opt_re (lit '' ''), plus_re (Cls (uc_number u))],
      seqs [opt_re (lit '' ''), plus_re (other_char u)],
      trailing_space u,
      plus_re (Cls (uc_space u))]"

fun pattern_re :: "unicode \<Rightarrow> pre_pattern \<Rightarrow> re" where
  "pattern_re u Gpt4oPattern = gpt4o_re u"
| "pattern_re u QwenPattern = qwen_re u"
| "pattern_re u LinePattern = line_re"
| "pattern_re u Gpt2Pattern = gpt2_re u"

subsection \<open>Every character is matched, never the empty text\<close>

lemma opt_skip [simp]: "re_match cs (opt_re r) i i"
  by (simp add: opt_re_def)

lemma star_skip [simp]: "re_match cs (Star r) i i"
  by simp

lemma plus_once: "re_match cs r i j \<Longrightarrow> re_match cs (plus_re r) i j"
  by (auto simp: plus_re_def)

text \<open>A list of parts of which one takes the character and the others nothing.\<close>

lemma seqs_skip: "re_match cs r i i \<Longrightarrow> re_match cs (seqs rs) i j \<Longrightarrow> re_match cs (seqs (r # rs)) i j"
  by auto

lemma seqs_take:
  "re_match cs r i j \<Longrightarrow> list_all (\<lambda>r. re_match cs r j j) rs \<Longrightarrow> re_match cs (seqs (r # rs)) i j"
proof -
  have "list_all (\<lambda>r. re_match cs r j j) rs \<Longrightarrow> re_match cs (seqs rs) j j"
    by (induction rs) auto
  then show "re_match cs r i j \<Longrightarrow> list_all (\<lambda>r. re_match cs r j j) rs \<Longrightarrow> ?thesis" by auto
qed

lemma nullable_parts [simp]:
  "nullable (opt_re r)" "nullable (plus_re r) \<longleftrightarrow> nullable r" "\<not> nullable (one_of cs)"
  "\<not> nullable (either_case a b)"
  by (simp_all add: opt_re_def plus_re_def one_of_def either_case_def)

lemma nullable_lit [simp]: "nullable (lit s) \<longleftrightarrow> s = []"
  by (cases s) (simp_all add: lit_def)

lemma nullable_contraction [simp]: "\<not> nullable contraction"
  by (simp add: contraction_def)

theorem pattern_not_empty: "re_match cs (pattern_re u p) i j \<Longrightarrow> i < j"
proof (erule re_match_progress)
  show "\<not> nullable (pattern_re u p)"
    by (cases p) (simp_all add: gpt4o_re_def qwen_re_def line_re_def gpt2_re_def no_word_def other_char_def
        trailing_space_def line_break_def not_lower_def not_upper_def)
qed

lemma seqs_one: "re_match cs (seqs [r]) i j \<longleftrightarrow> re_match cs r i j"
  by simp

text \<open>The alternative that takes a character depends on its class only.\<close>

lemma word_covered:
  assumes "i < length cs" "P (cs ! i)"
  shows "re_match cs (plus_re (Cls P)) i (Suc i)"
  using assms by (intro plus_once) simp

lemma spaced_covered:
  assumes "i < length cs" "P (cs ! i)"
  shows "re_match cs (seqs [opt_re r, plus_re (Cls P)]) i (Suc i)"
    "re_match cs (seqs [opt_re r, plus_re (Cls P), Star r']) i (Suc i)"
  using word_covered [where P = P, OF assms] by (auto intro!: seqs_skip [OF opt_skip] seqs_take simp del: re_match_seqs)

lemma cased_covered:
  assumes "i < length cs" "uc_letter u (cs ! i)"
  shows "re_match cs (seqs [opt_re (no_word u), Star (not_lower u), plus_re (not_upper u), opt_re contraction]) i (Suc i)
    \<or> re_match cs (seqs [opt_re (no_word u), plus_re (not_lower u), Star (not_upper u), opt_re contraction]) i (Suc i)"
proof (cases "65 \<le> cs ! i \<and> cs ! i \<le> 90")
  case True
  then have "re_match cs (plus_re (not_lower u)) i (Suc i)"
    using assms by (intro plus_once) (simp add: not_lower_def)
  then show ?thesis by (intro disjI2 seqs_skip [OF opt_skip] seqs_take) simp_all
next
  case False
  then have "re_match cs (plus_re (not_upper u)) i (Suc i)"
    using assms by (intro plus_once) (simp add: not_upper_def)
  then show ?thesis
    by (intro disjI1 seqs_skip [OF opt_skip] seqs_skip [OF star_skip] seqs_take) simp_all
qed

theorem pattern_covers:
  assumes "i < length cs"
  shows "re_match cs (pattern_re u p) i (Suc i)"
proof -
  let ?c = "cs ! i"
  note word = word_covered [where cs = cs and i = i, OF assms]
    and spaced = spaced_covered [where cs = cs and i = i, OF assms]
  note alt = re_match_alts list.set bex_simps(5) simp_thms
  consider (l) "uc_letter u ?c" | (n) "uc_number u ?c" | (s) "uc_space u ?c"
    | (o) "\<not> uc_space u ?c \<and> \<not> uc_letter u ?c \<and> \<not> uc_number u ?c" by blast
  note class_cases = this
  show ?thesis
  proof (cases p)
    case Gpt4oPattern
    have num: "re_match cs (seqs [Cls (uc_number u), opt_re r, opt_re r]) i (Suc i)" if "uc_number u ?c" for r
      using that assms by (intro seqs_take) simp_all
    have "re_match cs (gpt4o_re u) i (Suc i)"
      using class_cases
    proof cases
      case l
      from cased_covered [where u = u, OF assms l] show ?thesis
        unfolding gpt4o_re_def by (auto simp only: alt)
    qed (simp_all only: gpt4o_re_def other_char_def alt num spaced word)
    then show ?thesis by (simp only: Gpt4oPattern pattern_re.simps)
  next
    case QwenPattern
    have num: "re_match cs (Cls (uc_number u)) i (Suc i)" if "uc_number u ?c" using that assms by simp
    show ?thesis unfolding QwenPattern pattern_re.simps qwen_re_def other_char_def
      using class_cases by cases (simp_all only: alt num spaced word)
  next
    case LinePattern
    show ?thesis unfolding LinePattern pattern_re.simps line_re_def one_of_def
      by (cases "?c = 10") (simp_all only: alt word list.set insert_iff)
  next
    case Gpt2Pattern
    show ?thesis unfolding Gpt2Pattern pattern_re.simps gpt2_re_def other_char_def
      using class_cases by cases (simp_all only: alt spaced word)
  qed
qed

subsection \<open>Searching\<close>

text \<open>The byte position of a character of a text.\<close>

definition char_pos :: "bytes \<Rightarrow> nat \<Rightarrow> nat" where
  "char_pos text i = length (utf8_text (take i (chars text)))"

text \<open>What \<open>Regex::find_from_pos\<close> promises when it returns a match: it is a match of the expression
  between two characters of the text, it begins at the given position or behind it, and the
  expression matches at no character in between. Nothing is said when there is no result: the engine
  gives up with an error when it has to backtrack too often.\<close>

definition leftmost_search :: "unicode \<Rightarrow> finder \<Rightarrow> bool" where
  "leftmost_search u find_from_pos \<longleftrightarrow> (\<forall>p text pos start stop.
     utf8_valid text \<and> find_from_pos p text pos = Some (start, stop) \<longrightarrow>
     (\<exists>i j. i \<le> length (chars text) \<and> start = char_pos text i \<and> stop = char_pos text j
        \<and> re_match (chars text) (pattern_re u p) i j \<and> pos \<le> start
        \<and> (\<forall>k j. pos \<le> char_pos text k \<and> char_pos text k < start \<longrightarrow>
             \<not> re_match (chars text) (pattern_re u p) k j)))"

text \<open>The engine does not give up on a text: from the beginning of a character it finds a match when
  there is one.\<close>

definition completes :: "unicode \<Rightarrow> finder \<Rightarrow> pre_pattern \<Rightarrow> bytes \<Rightarrow> bool" where
  "completes u find_from_pos p text \<longleftrightarrow> (\<forall>i k j. i \<le> k \<and> re_match (chars text) (pattern_re u p) k j \<longrightarrow>
     find_from_pos p text (char_pos text i) \<noteq> None)"

lemma char_pos_0 [simp]: "char_pos text 0 = 0"
  by (simp add: char_pos_def)

lemma char_pos_Suc: "i < length (chars text) \<Longrightarrow> char_pos text (Suc i) = char_pos text i + length (utf8_encode (chars text ! i))"
  by (simp add: char_pos_def take_Suc_conv_app_nth)

lemma char_pos_less: "i < j \<Longrightarrow> j \<le> length (chars text) \<Longrightarrow> char_pos text i < char_pos text j"
proof (induction j)
  case (Suc j)
  have "0 < length (utf8_encode (chars text ! j))" by simp
  with Suc show ?case by (cases "i = j") (auto simp: char_pos_Suc less_Suc_eq)
qed simp

lemma char_pos_end: "utf8_valid text \<Longrightarrow> char_pos text (length (chars text)) = length text"
  by (simp add: char_pos_def valid_text_chars)

lemma drop_char_pos: "utf8_valid text \<Longrightarrow> drop (char_pos text i) text = utf8_text (drop i (chars text))"
proof -
  assume "utf8_valid text"
  then have "text = utf8_text (take i (chars text)) @ utf8_text (drop i (chars text))"
    by (metis append_take_drop_id concat_append map_append valid_text_chars)
  then show ?thesis unfolding char_pos_def by (metis append_eq_conv_conj)
qed

lemma chars_slice:
  assumes "utf8_valid text" "i \<le> j" "j \<le> length (chars text)"
  shows "take (char_pos text j - char_pos text i) (drop (char_pos text i) text)
    = utf8_text (take (j - i) (drop i (chars text)))"
proof -
  have "take j (chars text) = take i (chars text) @ take (j - i) (drop i (chars text))"
    using assms(2) by (metis le_add_diff_inverse take_add)
  then have "char_pos text j - char_pos text i = length (utf8_text (take (j - i) (drop i (chars text))))"
    by (simp add: char_pos_def)
  moreover have "utf8_text (drop i (chars text))
      = utf8_text (take (j - i) (drop i (chars text))) @ utf8_text (drop (j - i) (drop i (chars text)))"
    by (metis append_take_drop_id concat_append map_append)
  ultimately show ?thesis using drop_char_pos [OF assms(1), of i] by simp
qed

text \<open>Any match advances, and its word is a text.\<close>

lemma search_result:
  assumes "leftmost_search u find_from_pos" "utf8_valid text" "find_from_pos p text pos = Some (start, stop)"
  obtains i j where "i < j" "j \<le> length (chars text)" "start = char_pos text i" "stop = char_pos text j"
    "pos \<le> start" "start < stop" "stop \<le> length text"
    "utf8_valid (take (stop - start) (drop start text))"
    "\<And>k j. pos \<le> char_pos text k \<Longrightarrow> char_pos text k < start \<Longrightarrow> \<not> re_match (chars text) (pattern_re u p) k j"
proof -
  from assms obtain i j where ij: "i \<le> length (chars text)" "start = char_pos text i" "stop = char_pos text j"
      "re_match (chars text) (pattern_re u p) i j" "pos \<le> start"
    and least: "\<And>k j. pos \<le> char_pos text k \<Longrightarrow> char_pos text k < start \<Longrightarrow>
      \<not> re_match (chars text) (pattern_re u p) k j"
    unfolding leftmost_search_def by blast
  have j: "i < j" "j \<le> length (chars text)"
    using pattern_not_empty [OF ij(4)] re_match_forward [OF ij(4)] by simp_all
  have "start < stop" using char_pos_less [OF j] ij(2,3) by simp
  moreover have "stop \<le> length text"
    using char_pos_less [of j "length (chars text)" "text"] j(2) ij(3) char_pos_end [OF assms(2)]
    by (cases "j = length (chars text)") simp_all
  moreover have "list_all is_scalar (take (j - i) (drop i (chars text)))"
    using chars_scalar [of "text"] by (auto simp: list_all_iff dest: in_set_takeD in_set_dropD)
  then have "utf8_valid (take (stop - start) (drop start text))"
    using chars_slice [OF assms(2) less_imp_le [OF j(1)] j(2)] ij(2,3) by simp
  ultimately show thesis using that [OF j ij(2,3,5)] least by blast
qed

text \<open>From the beginning of a character the match begins right there.\<close>

lemma search_at_char:
  assumes "leftmost_search u find_from_pos" "utf8_valid text" "i < length (chars text)"
    and "find_from_pos p text (char_pos text i) = Some (start, stop)"
  shows "start = char_pos text i"
  using assms(1,2,4)
proof (rule search_result)
  assume "char_pos text i \<le> start"
    and "\<And>k j. char_pos text i \<le> char_pos text k \<Longrightarrow> char_pos text k < start \<Longrightarrow>
      \<not> re_match (chars text) (pattern_re u p) k j"
  then show ?thesis using pattern_covers [OF assms(3)] by (metis le_less order_refl)
qed

lemma completes_at_char:
  "completes u find_from_pos p text \<Longrightarrow> i < length (chars text) \<Longrightarrow> find_from_pos p text (char_pos text i) \<noteq> None"
  unfolding completes_def using pattern_covers by blast

end
