(* ===== verification/Bpe_Correct.thy ===== *)
theory Bpe_Correct
  imports Pre_Regex
begin

section \<open>Correctness of the byte-pair tokenizer\<close>

text \<open>
  What \<open>Bpe_Tokenizer\<close> builds and computes. The packed arenas are the list of decoded tokens; every entry
  of the byte, merge, character and two-byte tables names a token whose bytes are what the entry stands
  for (\<open>faithful\<close>). Encoding returns and reports only bytes without a token; when the regular expression
  engine does not give up on a search, it loses nothing: decoding the ids gives the text back. Control tokens are not produced when they are not parsed.
\<close>

subsection \<open>Lists and folds\<close>

lemma foldl_invariant:
  assumes "P s" and "\<And>s x. x \<in> set xs \<Longrightarrow> P s \<Longrightarrow> P (f s x)"
  shows "P (foldl f s xs)"
  using assms by (induction xs arbitrary: s) auto

lemma enumerate_iff: "(i, x) \<in> set (enumerate 0 xs) \<longleftrightarrow> i < length xs \<and> xs ! i = x"
  by (auto simp: in_set_enumerate_eq)

lemma length_concat_take: "length (concat (take i xs)) \<le> length (concat xs)"
proof -
  have "concat xs = concat (take i xs) @ concat (drop i xs)" by (metis append_take_drop_id concat_append)
  then show ?thesis by simp
qed

lemma chars_append: "utf8_valid a \<Longrightarrow> chars (a @ b) = chars a @ chars b"
  by (cases "utf8_split b"; elim utf8_validE) (auto simp: chars_def utf8_split_encode utf8_split_encode [where r = "[]", simplified])

lemma chars_encode: "is_scalar c \<Longrightarrow> chars (utf8_encode c) = [c]"
  using chars_text [of "[c]"] by simp

lemma length_utf8_encode: "0 < length (utf8_encode c)" "length (utf8_encode c) \<le> 4"
  by (simp_all add: utf8_encode_def)

lemma length_chars: "length (chars t) \<le> length t"
proof -
  have "length cs \<le> length (utf8_text cs)" for cs
  proof (induction cs)
    case (Cons c cs)
    moreover have "1 \<le> length (utf8_encode c)" using length_utf8_encode(1) [of c] by linarith
    ultimately show ?case by simp
  qed simp
  then show ?thesis using text_chars [of t] by (metis length_append trans_le_add1)
qed

lemma word_of_nat_u32: "n < 2 ^ 32 \<Longrightarrow> unat (of_nat n :: u32) = n"
  by (simp add: unat_of_nat)

lemma those_Some: "(\<And>x. x \<in> set xs \<Longrightarrow> f x = Some (g x)) \<Longrightarrow> those (map f xs) = Some (map g xs)"
  by (induction xs) auto

subsection \<open>Arenas\<close>

lemma pack_arena_eq:
  "pack_arena arena offsets ts = (arena @ concat ts,
     offsets @ map (\<lambda>i. of_nat (length arena + length (concat (take i ts)))) [0..<Suc (length ts)])"
proof (induction ts arbitrary: arena offsets)
  case (Cons t ts)
  have "[0..<Suc (length (t # ts))] = 0 # map Suc [0..<Suc (length ts)]"
    by (simp only: length_Cons map_Suc_upt) (simp add: upt_conv_Cons del: upt_Suc)
  then show ?case by (simp only: pack_arena.simps Cons.IH) (simp add: o_def add.assoc del: upt_Suc)
qed simp

lemma arena_slice_pack:
  assumes p: "pack_arena [] [] parts = (arena, offsets)" and len: "length (concat parts) < 2 ^ 32"
    and tid: "unat tid < length parts"
  shows "arena_slice arena offsets tid = Some (parts ! unat tid)"
proof -
  let ?i = "unat tid" and ?n = "\<lambda>i. length (concat (take i parts))"
  have a: "arena = concat parts" and o: "offsets = map (\<lambda>i. of_nat (?n i)) [0..<Suc (length parts)]"
    using p by (simp_all add: pack_arena_eq del: upt_Suc)
  have n: "unat (of_nat (?n i) :: u32) = ?n i" for i
    using len length_concat_take [of i parts] by (intro word_of_nat_u32) linarith
  have nth: "offsets ! i = of_nat (?n i)" if "i \<le> length parts" for i
    using that unfolding o by (subst nth_map) (simp_all del: upt_Suc)
  have suc: "concat (take (Suc ?i) parts) = concat (take ?i parts) @ parts ! ?i"
    using tid by (simp add: take_Suc_conv_app_nth)
  have "take (length (parts ! ?i)) (drop (?n ?i) (concat parts)) = parts ! ?i"
  proof -
    have "concat parts = concat (take (Suc ?i) parts) @ concat (drop (Suc ?i) parts)"
      by (metis append_take_drop_id concat_append)
    then show ?thesis by (simp add: suc)
  qed
  moreover have "?n (Suc ?i) \<le> length (concat parts)" by (rule length_concat_take)
  ultimately show ?thesis
    using tid nth [of ?i] nth [of "Suc ?i"] n [of ?i] n [of "Suc ?i"] suc a o
    by (simp add: arena_slice_def Let_def del: upt_Suc)
qed

subsection \<open>The vocabulary\<close>

definition spelled_like_fallback :: "bytes \<Rightarrow> bool" where
  "spelled_like_fallback t \<longleftrightarrow> byte_fallback_byte t None \<noteq> None"

text \<open>What a GGUF vocabulary has to satisfy: its strings are Rust strings, ids and packed offsets fit
  32 bits with \<open>u32::MAX\<close> left over, and no merge rule takes or makes a token spelled \<open><0xNN>\<close>.\<close>

definition vocab_ok :: "bytes list \<Rightarrow> (bytes \<times> bytes) list \<Rightarrow> bool" where
  "vocab_ok vocab merges \<longleftrightarrow> list_all utf8_valid vocab \<and> length vocab < 2 ^ 32 \<and> length (concat vocab) < 2 ^ 32
     \<and> list_all (\<lambda>(a, b). \<not> spelled_like_fallback a \<and> \<not> spelled_like_fallback b
          \<and> \<not> spelled_like_fallback (a @ b)) merges"

definition type_at :: "int list \<Rightarrow> nat \<Rightarrow> int option" where
  "type_at token_types i = (if i < length token_types then Some (token_types ! i) else None)"

text \<open>The bytes of a token, read off the vocabulary.\<close>

definition token_decoded :: "bytes list \<Rightarrow> int list \<Rightarrow> bool \<Rightarrow> u32 \<Rightarrow> bytes" where
  "token_decoded vocab token_types spm tid =
     (let i = unat tid in decoded_bytes spm (byte_fallback_byte (vocab ! i) (type_at token_types i)) (vocab ! i))"

lemma fallback_length: "byte_fallback_byte t ty = Some b \<Longrightarrow> length t = 6"
  by (auto simp: byte_fallback_byte_def Let_def length_butlast split: if_splits)

lemma fallback_spelled: "byte_fallback_byte t ty = Some b \<Longrightarrow> spelled_like_fallback t"
  by (auto simp: spelled_like_fallback_def byte_fallback_byte_def Let_def split: if_splits)

lemma not_spelled_fallback: "\<not> spelled_like_fallback t \<Longrightarrow> byte_fallback_byte t ty = None"
  using fallback_spelled [of t ty] by (cases "byte_fallback_byte t ty") auto

lemma not_fallback_encode [simp]: "byte_fallback_byte (utf8_encode c) ty = None"
  using fallback_length [of "utf8_encode c" ty] length_utf8_encode(2) [of c]
  by (cases "byte_fallback_byte (utf8_encode c) ty") auto

lemma length_decoded: "length (decoded_bytes spm (byte_fallback_byte t ty) t) \<le> length t"
  using fallback_length [of t ty] length_chars [of t]
  by (auto simp: decoded_bytes_def gpt2_bytes_def split: option.splits)

lemma token_to_id_Some:
  assumes "token_to_id vocab t = Some w" and "length vocab < 2 ^ 32"
  shows "unat w < length vocab" and "vocab ! unat w = t" and "w \<noteq> NO_TOKEN"
proof -
  have "\<forall>t w. token_to_id vocab t = Some w \<longrightarrow> (\<exists>i<length vocab. w = of_nat i \<and> vocab ! i = t)"
    unfolding token_to_id_def
    by (rule foldl_invariant [where P = "\<lambda>m. \<forall>t w. m t = Some w \<longrightarrow> (\<exists>i<length vocab. w = of_nat i \<and> vocab ! i = t)"])
      (auto simp: enumerate_iff split: if_splits)
  then obtain i where i: "i < length vocab" "w = of_nat i" "vocab ! i = t" using assms(1) by blast
  have "unat w = i" using i assms(2) by (simp add: word_of_nat_u32)
  then show "unat w < length vocab" "vocab ! unat w = t" using i by simp_all
  have "unat NO_TOKEN = 2 ^ 32 - 1" by (simp add: NO_TOKEN_def unsigned_minus_1_eq_mask mask_eq_exp_minus_1)
  then show "w \<noteq> NO_TOKEN" using \<open>unat w = i\<close> i(1) assms(2) by auto
qed

lemma gpt2_pair:
  assumes "(b, c) \<in> set gpt2_byte_unicode_pairs"
  shows "gpt2_unicode_to_byte c = Some b" and "is_scalar c"
proof -
  let ?rest = "filter (\<lambda>b. \<not> keeps_itself b) [0..<256]"
  have snds: "map snd gpt2_byte_unicode_pairs = filter keeps_itself [0..<256] @ map (\<lambda>n. 256 + n) [0..<length ?rest]"
  proof -
    have "map (\<lambda>x. 256 + fst x) (enumerate 0 ?rest) = map ((+) 256) (map fst (enumerate 0 ?rest))"
      by (simp only: map_map o_def)
    also have "map fst (enumerate 0 ?rest) = [0..<length ?rest]" by simp
    finally show ?thesis by (simp add: gpt2_byte_unicode_pairs_def o_def case_prod_beta)
  qed
  have "distinct (map snd gpt2_byte_unicode_pairs)"
    unfolding snds by (auto simp: distinct_map inj_on_def)
  then have "distinct (map fst (map (\<lambda>(b, c). (c, b)) gpt2_byte_unicode_pairs))"
    by (simp add: o_def case_prod_beta)
  then show "gpt2_unicode_to_byte c = Some b"
    unfolding gpt2_unicode_to_byte_def using assms by (intro map_of_is_SomeI) force+
  have "c \<in> set (map snd gpt2_byte_unicode_pairs)" using assms by force
  moreover have "length ?rest \<le> 256" using length_filter_le [of _ "[0..<256]"] by simp
  ultimately have "c < 512" unfolding snds by auto
  then show "is_scalar c" by (simp add: is_scalar_def)
qed

lemma gpt2_bytes_encode: "(b, c) \<in> set gpt2_byte_unicode_pairs \<Longrightarrow> gpt2_bytes (utf8_encode c) = [b]"
  by (simp add: gpt2_bytes_def chars_encode gpt2_pair)

lemma byte_to_token_entry:
  assumes "build_byte_to_token vocab ! unat b \<noteq> NO_TOKEN"
  shows "\<exists>c. (b, c) \<in> set gpt2_byte_unicode_pairs
    \<and> token_to_id vocab (utf8_encode c) = Some (build_byte_to_token vocab ! unat b)"
proof -
  let ?P = "\<lambda>table. length table = 256 \<and> (\<forall>b. table ! unat b \<noteq> NO_TOKEN \<longrightarrow>
    (\<exists>c. (b, c) \<in> set gpt2_byte_unicode_pairs \<and> token_to_id vocab (utf8_encode c) = Some (table ! unat b)))"
  have u: "unat (b :: u8) < 256" for b using unsigned_less [of b] by simp
  have inj: "unat b = unat b' \<longleftrightarrow> b = b'" for b b' :: u8 by (simp add: word_unat_eq_iff)
  have "?P (build_byte_to_token vocab)" unfolding build_byte_to_token_def
  proof (rule foldl_invariant [where P = ?P])
    show "?P (replicate 256 NO_TOKEN)" by (simp add: u)
    fix table x assume x: "x \<in> set gpt2_byte_unicode_pairs" and P: "?P table"
    obtain b' c where bc: "x = (b', c)" by (cases x)
    show "?P (case x of (b, c) \<Rightarrow>
        (case token_to_id vocab (utf8_encode c) of Some tid \<Rightarrow> table[unat b := tid] | None \<Rightarrow> table))"
    proof (cases "token_to_id vocab (utf8_encode c)")
      case (Some tid)
      have "\<exists>c. (b, c) \<in> set gpt2_byte_unicode_pairs
          \<and> token_to_id vocab (utf8_encode c) = Some (table[unat b' := tid] ! unat b)"
        if "table[unat b' := tid] ! unat b \<noteq> NO_TOKEN" for b
        using that P x bc Some u by (cases "b = b'") (auto simp: inj)
      then show ?thesis using P bc Some by simp
    qed (use P bc in simp)
  qed
  then show ?thesis using assms by blast
qed

lemma foldl_table:
  assumes "distinct (map fst xs)" and "(b, c) \<in> set xs" and "unat b < length table"
  shows "foldl (\<lambda>table (b, c). case g c of Some tid \<Rightarrow> table[unat b := tid] | None \<Rightarrow> table) table xs ! unat (b :: u8)
    = (case g c of Some tid \<Rightarrow> tid | None \<Rightarrow> table ! unat b)"
  using assms
proof (induction xs arbitrary: table)
  case (Cons x xs)
  let ?f = "\<lambda>table (b, c). case g c of Some tid \<Rightarrow> table[unat b := tid] | None \<Rightarrow> table"
  obtain b' c' where x: "x = (b', c')" by (cases x)
  have keep: "foldl ?f table xs ! unat b = table ! unat b" if "b \<notin> fst ` set xs" for table
    using that by (induction xs arbitrary: table) (auto split: option.splits simp: word_unat_eq_iff)
  show ?case
  proof (cases "b = b'")
    case True
    then have "c = c'" "b \<notin> fst ` set xs" using Cons.prems x by (auto simp: image_iff)
    then show ?thesis using keep [of "?f table x"] x True Cons.prems(3) by (simp split: option.splits)
  next
    case False
    then have "unat b \<noteq> unat b'" by (simp add: word_unat_eq_iff)
    then have "?f table x ! unat b = table ! unat b" "length (?f table x) = length table"
      using x by (simp_all split: option.splits)
    then show ?thesis using Cons.IH [of "?f table x"] Cons.prems x False by (cases "g c") simp_all
  qed
qed simp

lemma byte_to_token_exact:
  assumes "(b, c) \<in> set gpt2_byte_unicode_pairs"
  shows "build_byte_to_token vocab ! unat b
    = (case token_to_id vocab (utf8_encode c) of Some tid \<Rightarrow> tid | None \<Rightarrow> NO_TOKEN)"
proof -
  have inj: "inj_on (of_nat :: nat \<Rightarrow> u8) {0..<256}"
    by (rule inj_onI) (metis atLeastLessThan_iff byte_of_nat)
  let ?rest = "filter (\<lambda>b. \<not> keeps_itself b) [0..<256]"
  have "map (\<lambda>x. of_nat (snd x)) (enumerate 0 ?rest) = map of_nat (map snd (enumerate 0 ?rest))"
    by (simp only: map_map o_def)
  then have fsts: "map fst gpt2_byte_unicode_pairs = map of_nat (filter keeps_itself [0..<256] @ ?rest)"
    by (simp add: gpt2_byte_unicode_pairs_def o_def case_prod_beta)
  have "distinct (map fst gpt2_byte_unicode_pairs)"
    unfolding fsts by (subst distinct_map) (auto intro: inj_on_subset [OF inj])
  moreover have "unat b < 256" using unsigned_less [of b] by simp
  ultimately show ?thesis unfolding build_byte_to_token_def
    using foldl_table [OF _ assms, of "replicate 256 NO_TOKEN" "\<lambda>c. token_to_id vocab (utf8_encode c)"]
    by (simp split: option.splits)
qed

lemma byte_to_fallback_entry:
  assumes "build_byte_to_fallback fallbacks ! unat b \<noteq> NO_TOKEN"
  shows "\<exists>i<length fallbacks. build_byte_to_fallback fallbacks ! unat b = of_nat i \<and> fallbacks ! i = Some b"
proof -
  let ?P = "\<lambda>table. length table = 256 \<and> (\<forall>b. table ! unat b \<noteq> NO_TOKEN \<longrightarrow>
    (\<exists>i<length fallbacks. table ! unat b = of_nat i \<and> fallbacks ! i = Some b))"
  let ?f = "\<lambda>table (tid, byte). case byte of
      Some b \<Rightarrow> if table ! unat b = NO_TOKEN then table[unat b := of_nat tid] else table | None \<Rightarrow> table"
  have u: "unat (b :: u8) < 256" for b using unsigned_less [of b] by simp
  have inj: "unat b = unat b' \<longleftrightarrow> b = b'" for b b' :: u8 by (simp add: word_unat_eq_iff)
  have "?P (build_byte_to_fallback fallbacks)" unfolding build_byte_to_fallback_def
  proof (rule foldl_invariant [where P = ?P])
    show "?P (replicate 256 NO_TOKEN)" by (simp add: u)
    fix table x assume x: "x \<in> set (enumerate 0 fallbacks)" and P: "?P table"
    obtain i byte where xi: "x = (i, byte)" by (cases x)
    then have i: "i < length fallbacks" "fallbacks ! i = byte" using x by (simp_all add: enumerate_iff)
    show "?P (?f table x)"
    proof (cases "\<exists>b'. byte = Some b' \<and> table ! unat b' = NO_TOKEN")
      case True
      then obtain b' where b': "byte = Some b'" "table ! unat b' = NO_TOKEN" by blast
      have "\<exists>j<length fallbacks. table[unat b' := of_nat i] ! unat b = of_nat j \<and> fallbacks ! j = Some b"
        if "table[unat b' := of_nat i] ! unat b \<noteq> NO_TOKEN" for b
        using that P i b' u by (cases "b = b'") (auto simp: inj)
      then show ?thesis using P xi b' by simp
    next
      case False
      then have "?f table x = table" using xi by (auto split: option.splits)
      then show ?thesis using P by simp
    qed
  qed
  then show ?thesis using assms by blast
qed

lemma merge_table_entry:
  assumes "build_merge_table vocab merges (x, y) = Some (p, m)"
  shows "\<exists>a b. (a, b) \<in> set merges \<and> token_to_id vocab a = Some x \<and> token_to_id vocab b = Some y
    \<and> token_to_id vocab (a @ b) = Some m"
proof -
  let ?P = "\<lambda>table :: u32 \<times> u32 \<Rightarrow> (u32 \<times> u32) option. \<forall>x y p m. table (x, y) = Some (p, m) \<longrightarrow> (\<exists>a b. (a, b) \<in> set merges
    \<and> token_to_id vocab a = Some x \<and> token_to_id vocab b = Some y \<and> token_to_id vocab (a @ b) = Some m)"
  have "?P (build_merge_table vocab merges)" unfolding build_merge_table_def
  proof (rule foldl_invariant [where P = ?P])
    fix table r assume r: "r \<in> set (enumerate 0 merges)" and P: "?P table"
    obtain i a b where e: "r = (i, a, b)" by (cases r) auto
    then have ab: "(a, b) \<in> set merges" using r nth_mem [of i merges] by (auto simp: enumerate_iff)
    show "?P (add_merge (token_to_id vocab) table r)"
      using P ab unfolding e add_merge_def by (auto split: option.splits if_splits)
  qed simp
  then show ?thesis using assms by blast
qed

lemma char_to_token_entry:
  assumes "build_char_to_token vocab spm t = Some w" and "length vocab < 2 ^ 32"
  shows "spm" and "unat w < length vocab" and "vocab ! unat w = t"
proof -
  show spm: spm using assms(1) by (simp add: build_char_to_token_def split: if_splits)
  let ?P = "\<lambda>m. \<forall>t w. m t = Some w \<longrightarrow> unat w < length vocab \<and> vocab ! unat w = t"
  have "?P (build_char_to_token vocab spm)"
    unfolding build_char_to_token_def Let_def
    using spm
    apply (simp only: if_True)
    apply (rule foldl_invariant [where P = ?P])
     apply (rule foldl_invariant [where P = ?P])
    using assms(2) token_to_id_Some [OF _ assms(2)]
    by (auto simp: enumerate_iff word_of_nat_u32 split: if_splits option.splits)
  then show "unat w < length vocab" "vocab ! unat w = t" using assms(1) by blast+
qed

subsection \<open>The tokenizer that is built\<close>

definition in_vocab :: "bytes list \<Rightarrow> u32 \<Rightarrow> bool" where
  "in_vocab vocab tid \<longleftrightarrow> unat tid < length vocab"

definition decoded_vocab :: "bytes list \<Rightarrow> int list \<Rightarrow> bool \<Rightarrow> bytes list" where
  "decoded_vocab vocab token_types spm = map2 (decoded_bytes spm) (fallback_bytes vocab token_types) vocab"

lemma length_fallback_bytes [simp]: "length (fallback_bytes vocab token_types) = length vocab"
  by (simp add: fallback_bytes_def)

lemma fallback_bytes_nth:
  "i < length vocab \<Longrightarrow> fallback_bytes vocab token_types ! i = byte_fallback_byte (vocab ! i) (type_at token_types i)"
  by (simp add: fallback_bytes_def nth_enumerate_eq type_at_def)

lemma length_decoded_vocab [simp]: "length (decoded_vocab vocab token_types spm) = length vocab"
  by (simp add: decoded_vocab_def)

lemma decoded_vocab_nth:
  "i < length vocab \<Longrightarrow> decoded_vocab vocab token_types spm ! i
    = decoded_bytes spm (byte_fallback_byte (vocab ! i) (type_at token_types i)) (vocab ! i)"
  by (simp add: decoded_vocab_def fallback_bytes_nth)

lemma decoded_vocab_small: "length (concat (decoded_vocab vocab token_types spm)) \<le> length (concat vocab)"
proof -
  let ?d = "decoded_vocab vocab token_types spm"
  have "length (concat (take n ?d)) \<le> length (concat (take n vocab))" if "n \<le> length vocab" for n
    using that
  proof (induction n)
    case (Suc n)
    then have "take (Suc n) ?d = take n ?d @ [?d ! n]" "take (Suc n) vocab = take n vocab @ [vocab ! n]"
      by (simp_all add: take_Suc_conv_app_nth)
    then show ?case using Suc length_decoded [of spm "vocab ! n" "type_at token_types n"]
      by (simp add: decoded_vocab_nth)
  qed simp
  from this [of "length vocab"] show ?thesis by simp
qed

lemma bpe_new_Some:
  assumes "bpe_new vocab merges pre_type token_types = Some tok"
  shows "is_spm_bpe tok = detect_spm vocab pre_type"
    and "merge_table tok = build_merge_table vocab merges"
    and "byte_to_token tok = build_byte_to_token vocab"
    and "byte_to_fallback tok = build_byte_to_fallback (fallback_bytes vocab token_types)"
    and "char_to_token tok = build_char_to_token vocab (is_spm_bpe tok)"
    and "special_tokens tok = collect_specials vocab token_types"
    and "pack_arena [] [] vocab = (tok_arena tok, tok_offsets tok)"
    and "pack_arena [] [] (decoded_vocab vocab token_types (is_spm_bpe tok)) = (bytes_arena tok, bytes_offsets tok)"
    and "qwen_two_byte_tokens tok = [] \<or>
      build_two_byte (bytes_arena tok) (bytes_offsets tok) (length vocab) = Some (qwen_two_byte_tokens tok)"
    and "pre_regex tok = select_pattern pre_type (is_spm_bpe tok)"
  using assms by (auto simp: bpe_new_def Let_def decoded_vocab_def split: prod.splits if_splits)

lemma two_byte_only_qwen:
  assumes "bpe_new vocab merges pre_type token_types = Some tok" and "qwen_two_byte_tokens tok \<noteq> []"
  shows "is_qwen pre_type" and "\<not> is_spm_bpe tok"
  using assms by (auto simp: bpe_new_def Let_def split: prod.splits if_splits)

lemma vocab_size_new:
  assumes "bpe_new vocab merges pre_type token_types = Some tok"
  shows "vocab_size tok = length vocab"
proof -
  have "tok_offsets tok = map (\<lambda>i. of_nat (length (concat (take i vocab)))) [0..<Suc (length vocab)]"
    using bpe_new_Some(7) [OF assms] by (simp add: pack_arena_eq del: upt_Suc)
  then show ?thesis by (simp add: vocab_size_def)
qed

lemma token_bytes_new:
  assumes new: "bpe_new vocab merges pre_type token_types = Some tok" and ok: "vocab_ok vocab merges"
    and tid: "in_vocab vocab tid"
  shows "token_bytes tok tid = Some (token_decoded vocab token_types (is_spm_bpe tok) tid)"
proof -
  have "length (concat (decoded_vocab vocab token_types (is_spm_bpe tok))) < 2 ^ 32"
    using decoded_vocab_small [of vocab token_types "is_spm_bpe tok"] ok unfolding vocab_ok_def by linarith
  from arena_slice_pack [OF bpe_new_Some(8) [OF new] this, of tid] tid show ?thesis
    by (simp add: token_bytes_def token_decoded_def Let_def decoded_vocab_nth in_vocab_def)
qed

lemma get_token_bytes_new:
  assumes "bpe_new vocab merges pre_type token_types = Some tok" and "vocab_ok vocab merges"
  shows "get_token_bytes tok tid
    = Some (if in_vocab vocab tid then token_decoded vocab token_types (is_spm_bpe tok) tid else [])"
  using token_bytes_new [OF assms, of tid] vocab_size_new [OF assms(1)]
  by (simp add: get_token_bytes_def in_vocab_def)

lemma two_byte_entry:
  assumes "\<forall>i<length parts. D (of_nat i) = parts ! i" and "map_of (foldl add_two_byte [] (enumerate 0 parts)) (a, b) = Some tid"
  shows "\<exists>i<length parts. tid = of_nat i \<and> D tid = [a, b]"
proof -
  let ?P = "\<lambda>m. \<forall>a b tid. ((a, b), tid) \<in> set m \<longrightarrow> (\<exists>i<length parts. tid = of_nat i \<and> D tid = [a, b])"
  have "?P (foldl add_two_byte [] (enumerate 0 parts))"
  proof (rule foldl_invariant [where P = ?P])
    fix m x assume x: "x \<in> set (enumerate 0 parts)" and P: "?P m"
    obtain i bs where e: "x = (i, bs)" by (cases x)
    then have i: "i < length parts" "parts ! i = bs" using x by (simp_all add: enumerate_iff)
    show "?P (add_two_byte m x)"
      using P i assms(1) unfolding e by (cases "(m, i, bs)" rule: add_two_byte.cases) auto
  qed simp
  then show ?thesis using map_of_SomeD [OF assms(2)] by blast
qed

text \<open>Every table of the tokenizer names tokens whose bytes are what the entry stands for.\<close>

definition faithful :: "bpe_tokenizer \<Rightarrow> (u32 \<Rightarrow> bytes) \<Rightarrow> (u32 \<Rightarrow> bool) \<Rightarrow> bool" where
  "faithful tok D ok \<longleftrightarrow>
     (\<forall>b tid. byte_token tok b = Inr tid \<longrightarrow> ok tid \<and> D tid = [b])
     \<and> (\<forall>x y p m. merge_table tok (x, y) = Some (p, m) \<longrightarrow> ok m \<and> D m = D x @ D y)
     \<and> (\<forall>w tid. qwen_exact_two_byte_token_id tok w = Some tid \<longrightarrow> ok tid \<and> D tid = w)
     \<and> (\<forall>c tid. char_to_token tok (utf8_encode c) = Some tid \<longrightarrow> ok tid \<and> D tid = utf8_encode c)"

text \<open>In a vocabulary of raw UTF-8 strings, the GPT-2 spelling of a byte must not be a token unless it is
  that byte: \<open>byte_token\<close> looks there before it looks for \<open><0xNN>\<close>.\<close>

definition no_stand_ins :: "bytes list \<Rightarrow> bool" where
  "no_stand_ins vocab \<longleftrightarrow>
     list_all (\<lambda>(b, c). utf8_encode c = [b] \<or> utf8_encode c \<notin> set vocab) gpt2_byte_unicode_pairs"

lemma token_decoded_plain:
  assumes "\<not> spelled_like_fallback (vocab ! unat tid)"
  shows "token_decoded vocab token_types spm tid = (if spm then vocab ! unat tid else gpt2_bytes (vocab ! unat tid))"
  by (simp add: token_decoded_def Let_def decoded_bytes_def not_spelled_fallback [OF assms])

lemma byte_token_new:
  assumes new: "bpe_new vocab merges pre_type token_types = Some tok" and ok: "vocab_ok vocab merges"
    and spm: "is_spm_bpe tok \<longrightarrow> no_stand_ins vocab" and b: "byte_token tok b = Inr tid"
  shows "in_vocab vocab tid \<and> token_decoded vocab token_types (is_spm_bpe tok) tid = [b]"
proof -
  have len: "length vocab < 2 ^ 32" using ok by (simp add: vocab_ok_def)
  note tabs = bpe_new_Some(3,4) [OF new]
  from b consider (token) "byte_to_token tok ! unat b \<noteq> NO_TOKEN" "tid = byte_to_token tok ! unat b"
    | (fallback) "byte_to_fallback tok ! unat b \<noteq> NO_TOKEN" "tid = byte_to_fallback tok ! unat b"
    by (auto simp: byte_token_def split: if_splits)
  then show ?thesis
  proof cases
    case token
    then obtain c where c: "(b, c) \<in> set gpt2_byte_unicode_pairs" "token_to_id vocab (utf8_encode c) = Some tid"
      using byte_to_token_entry [of vocab b] tabs by auto
    note t = token_to_id_Some [OF c(2) len]
    have "utf8_encode c \<in> set vocab" using t(1,2) nth_mem by metis
    then have "is_spm_bpe tok \<longrightarrow> utf8_encode c = [b]"
      using spm c(1) by (auto simp: no_stand_ins_def list_all_iff)
    then show ?thesis using t gpt2_bytes_encode [OF c(1)]
      by (simp add: in_vocab_def token_decoded_def Let_def decoded_bytes_def)
  next
    case fallback
    then obtain i where i: "i < length vocab" "tid = of_nat i"
      "fallback_bytes vocab token_types ! i = Some b"
      using byte_to_fallback_entry [of "fallback_bytes vocab token_types" b] tabs by auto
    have "unat tid = i" using i(1,2) len by (simp add: word_of_nat_u32)
    then show ?thesis using i
      by (simp add: in_vocab_def token_decoded_def Let_def fallback_bytes_nth decoded_bytes_def)
  qed
qed

lemma merge_new:
  assumes new: "bpe_new vocab merges pre_type token_types = Some tok" and ok: "vocab_ok vocab merges"
    and m: "merge_table tok (x, y) = Some (p, m)"
  shows "in_vocab vocab m \<and> token_decoded vocab token_types spm m
    = token_decoded vocab token_types spm x @ token_decoded vocab token_types spm y"
proof -
  have len: "length vocab < 2 ^ 32" using ok by (simp add: vocab_ok_def)
  obtain a b where ab: "(a, b) \<in> set merges" "token_to_id vocab a = Some x" "token_to_id vocab b = Some y"
    "token_to_id vocab (a @ b) = Some m"
    using merge_table_entry [of vocab merges x y p m] m bpe_new_Some(2) [OF new] by auto
  note x = token_to_id_Some [OF ab(2) len] and y = token_to_id_Some [OF ab(3) len]
    and m = token_to_id_Some [OF ab(4) len]
  have plain: "\<not> spelled_like_fallback a" "\<not> spelled_like_fallback b" "\<not> spelled_like_fallback (a @ b)"
    using ok ab(1) by (auto simp: vocab_ok_def list_all_iff)
  have "utf8_valid a" using x(1,2) ok nth_mem [of "unat x" vocab] by (auto simp: vocab_ok_def list_all_iff)
  then have "gpt2_bytes (a @ b) = gpt2_bytes a @ gpt2_bytes b" by (simp add: gpt2_bytes_def chars_append)
  then show ?thesis using x y m plain by (simp add: token_decoded_plain in_vocab_def)
qed

lemma two_byte_new:
  assumes new: "bpe_new vocab merges pre_type token_types = Some tok" and ok: "vocab_ok vocab merges"
    and w: "qwen_exact_two_byte_token_id tok w = Some tid"
  shows "in_vocab vocab tid \<and> token_decoded vocab token_types (is_spm_bpe tok) tid = w"
proof -
  have len: "length vocab < 2 ^ 32" using ok by (simp add: vocab_ok_def)
  from w have two: "length w = 2" and ne: "qwen_two_byte_tokens tok \<noteq> []"
    and get: "map_of (qwen_two_byte_tokens tok) (w ! 0, w ! 1) = Some tid"
    by (auto simp: qwen_exact_two_byte_token_id_def split: if_splits)
  let ?D = "token_decoded vocab token_types (is_spm_bpe tok)"
  have "arena_slice (bytes_arena tok) (bytes_offsets tok) (of_nat i) = Some (?D (of_nat i))" if "i < length vocab" for i
    using token_bytes_new [OF new ok, of "of_nat i"] that len by (simp add: token_bytes_def in_vocab_def word_of_nat_u32)
  then have "those (map (\<lambda>i. arena_slice (bytes_arena tok) (bytes_offsets tok) (of_nat i)) [0..<length vocab])
      = Some (map (\<lambda>i. ?D (of_nat i)) [0..<length vocab])" by (intro those_Some) simp
  then have tab: "qwen_two_byte_tokens tok
      = foldl add_two_byte [] (enumerate 0 (map (\<lambda>i. ?D (of_nat i)) [0..<length vocab]))"
    using bpe_new_Some(9) [OF new] ne by (simp add: build_two_byte_def)
  have "\<exists>i<length (map (\<lambda>i. ?D (of_nat i)) [0..<length vocab]). tid = of_nat i \<and> ?D tid = [w ! 0, w ! 1]"
    by (rule two_byte_entry) (use get tab in auto)
  moreover have "[w ! 0, w ! 1] = w" using two by (auto simp: length_Suc_conv numeral_2_eq_2)
  ultimately show ?thesis using len by (auto simp: in_vocab_def word_of_nat_u32)
qed

lemma faithful_new:
  assumes new: "bpe_new vocab merges pre_type token_types = Some tok" and ok: "vocab_ok vocab merges"
    and spm: "is_spm_bpe tok \<longrightarrow> no_stand_ins vocab"
  shows "faithful tok (token_decoded vocab token_types (is_spm_bpe tok)) (in_vocab vocab)"
proof -
  have len: "length vocab < 2 ^ 32" using ok by (simp add: vocab_ok_def)
  have "in_vocab vocab tid \<and> token_decoded vocab token_types (is_spm_bpe tok) tid = utf8_encode c"
    if "char_to_token tok (utf8_encode c) = Some tid" for c tid
    using char_to_token_entry [OF that [unfolded bpe_new_Some(5) [OF new]] len]
    by (simp add: in_vocab_def token_decoded_def Let_def decoded_bytes_def)
  then show ?thesis
    using byte_token_new [OF new ok spm] merge_new [OF new ok] two_byte_new [OF new ok]
    unfolding faithful_def by blast
qed

subsection \<open>Merging\<close>

lemma concat_map_list_update_remove:
  assumes "Suc i < length ids" and "D m = D (ids ! i) @ D (ids ! Suc i)"
  shows "concat (map D (remove_at (Suc i) (ids[i := m]))) = concat (map D ids)"
proof -
  have e: "ids = take i ids @ ids ! i # ids ! Suc i # drop (Suc (Suc i)) ids"
    using assms(1) by (metis Cons_nth_drop_Suc Suc_lessD append_take_drop_id)
  have "remove_at (Suc i) (ids[i := m]) = take i ids @ m # drop (Suc (Suc i)) ids"
    using assms(1) by (simp add: remove_at_def take_Suc_conv_app_nth take_update_cancel upd_conv_take_nth_drop)
  then show ?thesis using assms(2) arg_cong [OF e, of "\<lambda>x. concat (map D x)"] by simp
qed

lemma set_remove_update: "set (remove_at j (xs[i := m])) \<subseteq> insert m (set xs)"
  using set_update_subset_insert [of xs i m]
  by (auto simp: remove_at_def dest: in_set_takeD in_set_dropD)

lemma merge_preserves:
  assumes "\<forall>x y p m. table (x, y) = Some (p, m) \<longrightarrow> ok m \<and> D m = D x @ D y"
  shows "\<exists>out. bpe_merge_ids table ids = Some out \<and> concat (map D out) = concat (map D ids)
    \<and> (list_all ok ids \<longrightarrow> list_all ok out) \<and> (\<forall>i p m. \<not> mergeable table out i p m)"
proof (induction ids rule: length_induct)
  case (1 ids)
  show ?case
  proof (cases "length ids < 2 \<or> best_pair table ids = None")
    case True
    then have "bpe_merge_ids table ids = Some ids" by (auto simp: bpe_merge_ids.simps)
    moreover have "\<not> mergeable table ids i p m" for i p m
      using True best_pair_None by (auto simp: mergeable_def)
    ultimately show ?thesis by blast
  next
    case False
    then obtain i where i: "best_pair table ids = Some i" by blast
    obtain p m where m: "Suc i < length ids" "table (ids ! i, ids ! Suc i) = Some (p, m)"
      using best_pair_Some [OF i] by (auto simp: mergeable_def)
    let ?next = "remove_at (Suc i) (ids[i := m])"
    have step: "bpe_merge_ids table ids = bpe_merge_ids table ?next"
      using False i m by (subst bpe_merge_ids.simps) simp
    have "length ?next < length ids" using m(1) by (simp add: length_remove_at)
    then obtain out where out: "bpe_merge_ids table ?next = Some out" "concat (map D out) = concat (map D ?next)"
      "list_all ok ?next \<longrightarrow> list_all ok out" "\<forall>i p m. \<not> mergeable table out i p m" using 1 by blast
    have "list_all ok ids \<longrightarrow> list_all ok ?next"
      using set_remove_update [of "Suc i" ids i m] assms m(2) by (auto simp: list_all_iff)
    moreover have "concat (map D ?next) = concat (map D ids)"
      using assms m by (intro concat_map_list_update_remove) auto
    ultimately show ?thesis using step out by auto
  qed
qed

subsection \<open>Encoding a segment\<close>

lemma map_res_bytes:
  assumes "faithful tok D ok" and "map_res (byte_token tok) bs = Inr ids"
  shows "list_all ok ids \<and> concat (map D ids) = bs"
  using assms(2)
proof (induction bs arbitrary: ids)
  case (Cons b bs)
  then obtain tid rest where "byte_token tok b = Inr tid" "map_res (byte_token tok) bs = Inr rest" "ids = tid # rest"
    by (auto simp: bind_res_Inr_iff)
  then show ?case using Cons.IH assms(1) by (simp add: faithful_def)
qed simp

lemma map_res_error:
  "map_res f xs = Inl e \<Longrightarrow> \<exists>x\<in>set xs. f x = Inl e"
  by (induction xs) (auto simp: bind_res_Inl_iff)

lemma map_res_chars:
  assumes "faithful tok D ok" and "map_res (spm_char_ids tok) cs = Inr parts"
  shows "list_all ok (concat parts) \<and> concat (map D (concat parts)) = utf8_text cs"
  using assms(2)
proof (induction cs arbitrary: parts)
  case (Cons c cs)
  then obtain part rest where p: "spm_char_ids tok c = Inr part" "map_res (spm_char_ids tok) cs = Inr rest"
    "parts = part # rest"
    by (auto simp: bind_res_Inr_iff)
  have "list_all ok part \<and> concat (map D part) = utf8_encode c"
    using p(1) assms(1) map_res_bytes [OF assms(1)]
    by (auto simp: spm_char_ids_def faithful_def split: option.splits)
  then show ?case using Cons.IH [OF p(2)] p(3) by simp
qed simp

lemma word_ids_bytes:
  assumes "faithful tok D ok" and "word_ids tok word = Inr ids" and "utf8_valid word"
  shows "list_all ok ids \<and> concat (map D ids) = word"
  using assms map_res_bytes [OF assms(1)] map_res_chars [OF assms(1)] valid_text_chars [OF assms(3)]
  by (auto simp: word_ids_def bind_res_Inr_iff split: if_splits)

lemma byte_token_error: "byte_token tok b = Inl e \<Longrightarrow> e = UnencodableByte b"
  by (auto simp: byte_token_def split: if_splits)

lemma word_ids_error:
  assumes "word_ids tok word = Inl e"
  shows "\<exists>b\<in>set word. e = UnencodableByte b \<and> byte_token tok b = Inl e"
proof (cases "is_spm_bpe tok")
  case False
  then show ?thesis using assms map_res_error [of "byte_token tok" word e] byte_token_error
    by (auto simp: word_ids_def)
next
  case True
  then obtain c where c: "c \<in> set (chars word)" "spm_char_ids tok c = Inl e"
    using assms map_res_error [of "spm_char_ids tok" "chars word" e] by (auto simp: word_ids_def bind_res_Inl_iff)
  then obtain b where b: "b \<in> set (utf8_encode c)" "byte_token tok b = Inl e"
    using map_res_error [of "byte_token tok" "utf8_encode c" e] by (auto simp: spm_char_ids_def split: option.splits)
  have "set (utf8_text (chars word)) \<subseteq> set word" using text_chars [of word] by (metis set_append sup_ge1)
  then show ?thesis using b c byte_token_error [OF b(2)] by auto
qed

definition encoded :: "bpe_tokenizer \<Rightarrow> (u32 \<Rightarrow> bytes) \<Rightarrow> (u32 \<Rightarrow> bool) \<Rightarrow> bytes \<Rightarrow> u32 list
    \<Rightarrow> (tokenizer_error + u32 list) option \<Rightarrow> bool" where
  "encoded tok D ok text before r \<longleftrightarrow>
     (\<exists>ids. r = Some (Inr (before @ ids)) \<and> list_all ok ids \<and> concat (map D ids) = text)
     \<or> (\<exists>b\<in>set text. r = Some (Inl (UnencodableByte b)) \<and> byte_token tok b = Inl (UnencodableByte b))"

lemma encoded_extend:
  assumes "encoded tok D ok rest (before @ ids) r" and "list_all ok ids" and "concat (map D ids) @ rest = text"
  shows "encoded tok D ok text before r"
  using assms(1) unfolding encoded_def
proof (elim disjE exE conjE bexE)
  fix out assume "r = Some (Inr ((before @ ids) @ out))" "list_all ok out" "concat (map D out) = rest"
  then show "(\<exists>ids. r = Some (Inr (before @ ids)) \<and> list_all ok ids \<and> concat (map D ids) = text)
      \<or> (\<exists>b\<in>set text. r = Some (Inl (UnencodableByte b)) \<and> byte_token tok b = Inl (UnencodableByte b))"
    using assms(2,3) by (intro disjI1 exI [of _ "ids @ out"]) simp
qed (use assms(3) in auto)

text \<open>One round of the loop after a match: an error that names a byte of the word, or some ids, which
  decode to the word when the tokenizer is faithful.\<close>

lemma encode_loop_match:
  assumes "pos < length text" and find: "find_from_pos (pre_regex tok) text pos = Some (start, stop)"
    and w: "w = take (stop - start) (drop start text)"
  shows "(\<exists>b\<in>set w. encode_loop find_from_pos tok text pos result = Some (Inl (UnencodableByte b))
        \<and> byte_token tok b = Inl (UnencodableByte b))
    \<or> (\<exists>out. encode_loop find_from_pos tok text pos result = encode_loop find_from_pos tok text stop (result @ out)
        \<and> (\<forall>D ok. faithful tok D ok \<and> utf8_valid w \<longrightarrow> list_all ok out \<and> concat (map D out) = w))"
proof (cases "qwen_exact_two_byte_token_id tok w")
  case (Some tid)
  then have "encode_loop find_from_pos tok text pos result = encode_loop find_from_pos tok text stop (result @ [tid])"
    using assms(1) find by (subst encode_loop.simps) (simp add: w)
  moreover have "\<forall>D ok. faithful tok D ok \<longrightarrow> list_all ok [tid] \<and> concat (map D [tid]) = w"
    using Some by (simp add: faithful_def)
  ultimately show ?thesis by blast
next
  case None
  show ?thesis
  proof (cases "word_ids tok w")
    case (Inl e)
    then have "encode_loop find_from_pos tok text pos result = Some (Inl e)"
      using assms(1) find None by (subst encode_loop.simps) (simp add: w)
    with word_ids_error [OF Inl] show ?thesis by auto
  next
    case (Inr ids)
    obtain out where out: "bpe_merge_ids (merge_table tok) ids = Some out"
      using merge_preserves [of "merge_table tok" "\<lambda>_. True" "\<lambda>_. []" ids] by auto
    have "encode_loop find_from_pos tok text pos result = encode_loop find_from_pos tok text stop (result @ out)"
      using assms(1) find None Inr out by (subst encode_loop.simps) (simp add: w)
    moreover have "list_all ok out \<and> concat (map D out) = w" if f: "faithful tok D ok" and v: "utf8_valid w" for D ok
    proof -
      have "\<forall>x y p m. merge_table tok (x, y) = Some (p, m) \<longrightarrow> ok m \<and> D m = D x @ D y"
        using f by (simp add: faithful_def)
      from merge_preserves [OF this, of ids] word_ids_bytes [OF f Inr v] out show ?thesis by auto
    qed
    ultimately show ?thesis by blast
  qed
qed

text \<open>When the engine finds a match from every character, each match begins where the last one ended, and
  the ids of the loop decode to the text.\<close>

lemma encode_loop_encoded:
  assumes f: "faithful tok D ok" and find: "leftmost_search u find_from_pos" "completes u find_from_pos (pre_regex tok) text"
    and v: "utf8_valid text" and "i \<le> length (chars text)"
  shows "encoded tok D ok (drop (char_pos text i) text) result (encode_loop find_from_pos tok text (char_pos text i) result)"
  using assms(5)
proof (induction "length (chars text) - i" arbitrary: i result rule: less_induct)
  case less
  let ?go = "encode_loop find_from_pos tok text" and ?p = "char_pos text i"
  show ?case
  proof (cases "i < length (chars text)")
    case False
    with less.prems have "?p = length text" using char_pos_end [OF v] by simp
    then show ?thesis by (subst encode_loop.simps) (simp add: encoded_def)
  next
    case True
    obtain start stop where m: "find_from_pos (pre_regex tok) text ?p = Some (start, stop)"
      using completes_at_char [OF find(2) True] by auto
    have start: "start = ?p" by (rule search_at_char [OF find(1) v True m])
    obtain i' j where j: "i' < j" "j \<le> length (chars text)" "start = char_pos text i'" "stop = char_pos text j"
        "start < stop" "stop \<le> length text" "utf8_valid (take (stop - start) (drop start text))"
      using search_result [OF find(1) v m] by metis
    let ?w = "take (stop - start) (drop start text)"
    have "i' = i" using char_pos_less [of i i' "text"] char_pos_less [of i' i "text"] j start True
      by (metis less_irrefl linorder_neqE_nat order.strict_trans2 less_imp_le)
    have split: "?w @ drop stop text = drop ?p text"
      using j(5) start by (metis append_take_drop_id drop_drop le_add_diff_inverse2 less_imp_le_nat)
    have "?p < length text" using j start by simp
    from encode_loop_match [where find_from_pos = find_from_pos and tok = tok, OF this m refl, of result] show ?thesis
    proof (elim disjE bexE exE conjE)
      fix b assume "b \<in> set ?w" "?go ?p result = Some (Inl (UnencodableByte b))" "byte_token tok b = Inl (UnencodableByte b)"
      moreover have "set ?w \<subseteq> set (drop ?p text)" unfolding start by (rule set_take_subset)
      ultimately show ?thesis unfolding encoded_def by blast
    next
      fix out assume o: "?go ?p result = ?go stop (result @ out)"
        "\<forall>D ok. faithful tok D ok \<and> utf8_valid ?w \<longrightarrow> list_all ok out \<and> concat (map D out) = ?w"
      have "encoded tok D ok (drop stop text) (result @ out) (?go stop (result @ out))"
        unfolding j(4) by (rule less.hyps) (use j(1,2) \<open>i' = i\<close> in simp_all)
      then show ?thesis unfolding o(1) using o(2) f j(7) split by (elim encoded_extend) auto
    qed
  qed
qed

text \<open>Whatever the engine answers, the loop comes to an end, and it stops early only on a byte of the
  text that has no token.\<close>

definition byte_error :: "bpe_tokenizer \<Rightarrow> bytes \<Rightarrow> (tokenizer_error + u32 list) option \<Rightarrow> bool" where
  "byte_error tok text r \<longleftrightarrow>
     (\<exists>b\<in>set text. r = Some (Inl (UnencodableByte b)) \<and> byte_token tok b = Inl (UnencodableByte b))"

lemma encode_loop_returns:
  assumes find: "leftmost_search u find_from_pos" and v: "utf8_valid text"
  shows "(\<exists>ids. encode_loop find_from_pos tok text pos result = Some (Inr ids))
    \<or> byte_error tok text (encode_loop find_from_pos tok text pos result)"
proof (induction "length text - pos" arbitrary: pos result rule: less_induct)
  case less
  let ?go = "encode_loop find_from_pos tok text"
  show ?case
  proof (cases "pos < length text")
    case False
    then show ?thesis by (subst encode_loop.simps) simp
  next
    case True
    show ?thesis
    proof (cases "find_from_pos (pre_regex tok) text pos")
      case None
      show ?thesis
      proof (cases "byte_token tok (text ! pos)")
        case (Inl e)
        then have "?go pos result = Some (Inl e)" using True None by (subst encode_loop.simps) simp
        with Inl byte_token_error [OF Inl] nth_mem [OF True] show ?thesis unfolding byte_error_def by auto
      next
        case (Inr tid)
        then have e: "?go pos result = ?go (Suc pos) (result @ [tid])" using True None by (subst encode_loop.simps) simp
        have "length text - Suc pos < length text - pos" using True by simp
        from less [OF this] show ?thesis unfolding e .
      qed
    next
      case (Some m)
      obtain start stop where m: "m = (start, stop)" by (cases m)
      then have found: "find_from_pos (pre_regex tok) text pos = Some (start, stop)" using Some by simp
      from search_result [OF find v found] have s: "pos \<le> start" "start < stop" by metis+
      from encode_loop_match [where find_from_pos = find_from_pos and tok = tok, OF True found refl, of result] show ?thesis
      proof (elim disjE bexE exE conjE)
        fix b assume "b \<in> set (take (stop - start) (drop start text))"
          "?go pos result = Some (Inl (UnencodableByte b))" "byte_token tok b = Inl (UnencodableByte b)"
        then show ?thesis unfolding byte_error_def by (meson in_set_dropD in_set_takeD)
      next
        fix out assume e: "?go pos result = ?go stop (result @ out)"
        have "length text - stop < length text - pos" using s True by simp
        from less [OF this] show ?thesis unfolding e .
      qed
    qed
  qed
qed

subsection \<open>Special tokens\<close>

lemma best_special_Some:
  assumes "best_special specials remaining = Some (pos, t, tid)"
  shows "(t, tid) \<in> set specials" and "str_find t remaining = Some pos"
proof -
  let ?P = "\<lambda>best. \<forall>pos t tid. best = Some (pos, t, tid) \<longrightarrow> (t, tid) \<in> set specials \<and> str_find t remaining = Some pos"
  have "?P (best_special specials remaining)" unfolding best_special_def
  proof (rule foldl_invariant [where P = ?P])
    fix best entry assume a: "entry \<in> set specials" "?P best"
    obtain t0 tid0 where "entry = (t0, tid0)" by (cases entry)
    with a show "?P (closer_special remaining best entry)"
      by (auto simp: closer_special_def split: option.splits if_splits)
  qed simp
  then show "(t, tid) \<in> set specials" "str_find t remaining = Some pos" using assms by auto
qed

definition piece :: "(bytes \<times> u32) list \<Rightarrow> segment \<Rightarrow> bytes \<Rightarrow> bool" where
  "piece specials segment p \<longleftrightarrow> utf8_valid p
     \<and> (case segment of TextSegment s \<Rightarrow> p = s | SpecialSegment tid \<Rightarrow> (p, tid) \<in> set specials)"

lemma split_loop_pieces:
  assumes "list_all (\<lambda>(t, tid). t \<noteq> [] \<and> utf8_valid t) specials" and "utf8_valid remaining"
  shows "\<exists>segs pieces. split_loop specials remaining segments = Some (segments @ segs)
    \<and> list_all2 (piece specials) segs pieces \<and> concat pieces = remaining"
  using assms(2)
proof (induction "length remaining" arbitrary: remaining segments rule: less_induct)
  case less
  show ?case
  proof (cases "remaining = [] \<or> best_special specials remaining = None")
    case True
    show ?thesis
    proof (cases "remaining = []")
      case True
      then have "split_loop specials remaining segments = Some (segments @ [])" by (simp add: split_loop.simps)
      moreover have "list_all2 (piece specials) [] []" "concat [] = remaining" using True by simp_all
      ultimately show ?thesis by blast
    next
      case False
      then have "split_loop specials remaining segments = Some (segments @ [TextSegment remaining])"
        using True by (simp add: split_loop.simps)
      moreover have "list_all2 (piece specials) [TextSegment remaining] [remaining]" "concat [remaining] = remaining"
        using less.prems by (simp_all add: piece_def)
      ultimately show ?thesis by blast
    qed
  next
    case False
    then obtain pos t tid where best: "best_special specials remaining = Some (pos, t, tid)" by (metis option.exhaust prod_cases3)
    note b = best_special_Some [OF best]
    have t: "t \<noteq> []" "utf8_valid t" using assms(1) b(1) by (auto simp: list_all_iff)
    let ?rest = "drop (pos + length t) remaining"
      and ?front = "if pos > 0 then [TextSegment (take pos remaining)] else []"
      and ?fp = "if pos > 0 then [take pos remaining] else []"
    have cut: "remaining = take pos remaining @ t @ ?rest" using str_find_split [OF b(2)] by simp
    have v: "utf8_valid (take pos remaining)" "utf8_valid ?rest"
      using cut_around [of "take pos remaining" t ?rest] less.prems cut t by simp_all
    have "length ?rest < length remaining" using t(1) False by simp
    from less.hyps [OF this v(2), of "segments @ ?front @ [SpecialSegment tid]"]
    obtain segs pieces where IH: "split_loop specials ?rest (segments @ ?front @ [SpecialSegment tid])
        = Some ((segments @ ?front @ [SpecialSegment tid]) @ segs)"
      "list_all2 (piece specials) segs pieces" "concat pieces = ?rest" by blast
    have "split_loop specials remaining segments
        = split_loop specials ?rest (segments @ ?front @ [SpecialSegment tid])"
      using False best by (subst split_loop.simps) simp
    then have "split_loop specials remaining segments = Some (segments @ (?front @ SpecialSegment tid # segs))"
      using IH(1) by simp
    moreover have "list_all2 (piece specials) (?front @ SpecialSegment tid # segs) (?fp @ t # pieces)"
      using IH(2) v(1) b(1) t(2) by (simp add: piece_def)
    moreover have "concat (?fp @ t # pieces) = take pos remaining @ t @ ?rest" using IH(3) by simp
    then have "concat (?fp @ t # pieces) = remaining" using cut by (simp only:)
    ultimately show ?thesis by blast
  qed
qed

lemma split_pieces:
  assumes "list_all (\<lambda>(t, tid). t \<noteq> [] \<and> utf8_valid t) (special_tokens tok)" and "utf8_valid input"
  shows "\<exists>segs pieces. split_special_tokens tok input = Some segs
    \<and> list_all2 (piece (special_tokens tok)) segs pieces \<and> concat pieces = input"
proof (cases "special_tokens tok = []")
  case True
  then have "split_special_tokens tok input = Some [TextSegment input]" by (simp add: split_special_tokens_def)
  moreover have "list_all2 (piece (special_tokens tok)) [TextSegment input] [input]" "concat [input] = input"
    using assms(2) by (simp_all add: piece_def)
  ultimately show ?thesis by blast
qed (use split_loop_pieces [OF assms, of "[]"] in \<open>simp add: split_special_tokens_def\<close>)

text \<open>An empty special token is found everywhere and removes nothing: the loop does not return.\<close>

lemma closer_special_empty:
  "best \<noteq> None \<Longrightarrow> fst (the best) = 0 \<Longrightarrow> closer_special remaining best entry = best"
  by (cases entry) (auto simp: closer_special_def split: option.splits)

theorem empty_special_diverges:
  assumes "input \<noteq> []"
  shows "split_loop [([], tid)] input segments = None"
proof (rule ccontr)
  assume "split_loop [([], tid)] input segments \<noteq> None"
  then obtain r where r: "split_loop [([], tid)] input segments = Some r" by blast
  have zero: "str_find [] (input :: bytes) = Some 0" for input by (cases input) (simp_all add: starts_with_def)
  have "[([] :: bytes, tid)] = [([], tid)] \<longrightarrow> input = []"
  proof (rule split_loop.raw_induct [where P = "\<lambda>specials remaining segs out. specials = [([], tid)] \<longrightarrow> remaining = []", OF _ r],
      rule impI)
    fix go :: "(bytes \<times> u32) list \<Rightarrow> bytes \<Rightarrow> segment list \<Rightarrow> segment list option"
      and specials remaining segs out
    assume IH: "\<And>specials remaining segs out. go specials remaining segs = Some out \<Longrightarrow> specials = [([], tid)] \<longrightarrow> remaining = []"
      and body: "(if remaining = [] then Some segs else case best_special specials remaining of
          Some (pos, t, tid) \<Rightarrow> go specials (drop (pos + length t) remaining)
            (segs @ (if pos > 0 then [TextSegment (take pos remaining)] else []) @ [SpecialSegment tid])
        | None \<Rightarrow> Some (segs @ [TextSegment remaining])) = Some out"
      and e: "specials = [([], tid)]"
    have "best_special specials remaining = Some (0, [], tid)"
      using e zero by (simp add: best_special_def closer_special_def)
    then show "remaining = []" using body e IH [of specials remaining] by (auto split: if_splits)
  qed
  then show False using assms by simp
qed

subsection \<open>Encoding a text\<close>

definition segment_bytes :: "bpe_tokenizer \<Rightarrow> segment \<Rightarrow> bytes \<Rightarrow> bytes" where
  "segment_bytes tok segment p = (case segment of TextSegment s \<Rightarrow> effective_text tok s | SpecialSegment tid \<Rightarrow> p)"

lemma replace_valid: "is_scalar d \<Longrightarrow> is_scalar e \<Longrightarrow> utf8_valid s \<Longrightarrow> utf8_valid (str_replace (utf8_encode d) (utf8_encode e) s)"
proof (elim utf8_validE)
  fix cs assume cs: "is_scalar d" "is_scalar e" "s = utf8_text cs" "list_all is_scalar cs"
  then have "list_all is_scalar (map (\<lambda>c. if c = d then e else c) cs)" by (auto simp: list_all_iff)
  then have "utf8_valid (utf8_text (map (\<lambda>c. if c = d then e else c) cs))" by (rule utf8_valid_text)
  then show ?thesis using str_replace_text [OF cs(4,1), of e "[]"] cs(3) by simp
qed

lemma effective_valid: "utf8_valid s \<Longrightarrow> utf8_valid (effective_text tok s)"
  by (auto simp: effective_text_def spm_space_def is_scalar_def intro: replace_valid)

lemma effective_append: "utf8_valid a \<Longrightarrow> effective_text tok (a @ b) = effective_text tok a @ effective_text tok b"
  by (simp add: effective_text_def spm_space_def is_scalar_def str_replace_append)

lemma encode_segments_encoded:
  assumes f: "faithful tok D ok" and find: "leftmost_search u find_from_pos"
    and "\<And>s. TextSegment s \<in> set segs \<Longrightarrow> completes u find_from_pos (pre_regex tok) (effective_text tok s)"
    and lit: "list_all (\<lambda>(t, tid). ok tid \<and> D tid = t) specials" and "list_all2 (piece specials) segs pieces"
  shows "encoded tok D ok (concat (map2 (segment_bytes tok) segs pieces)) result
      (encode_segments find_from_pos tok segs result)"
  using assms(3,5)
proof (induction segs arbitrary: pieces result)
  case Nil
  then show ?case by (simp add: encoded_def)
next
  case (Cons seg segs)
  then obtain p ps where p: "pieces = p # ps" "piece specials seg p" "list_all2 (piece specials) segs ps"
    by (auto simp: list_all2_Cons1)
  have pv: "utf8_valid p" using p(2) by (simp add: piece_def)
  have IH: "encoded tok D ok (concat (map2 (segment_bytes tok) segs ps)) r (encode_segments find_from_pos tok segs r)" for r
    using Cons.prems(1) p(3) by (intro Cons.IH) auto
  show ?case
  proof (cases seg)
    case (SpecialSegment tid)
    have "(p, tid) \<in> set specials" using p(2) SpecialSegment by (simp add: piece_def)
    then have d: "ok tid" "D tid = p" using lit by (auto simp: list_all_iff)
    have "encoded tok D ok (concat (map2 (segment_bytes tok) (seg # segs) pieces)) result
        (encode_segments find_from_pos tok segs (result @ [tid]))"
      by (rule encoded_extend [OF IH]) (use d p SpecialSegment in \<open>simp_all add: segment_bytes_def\<close>)
    then show ?thesis using SpecialSegment by simp
  next
    case (TextSegment s)
    have s: "p = s" using p(2) TextSegment by (simp add: piece_def)
    have "completes u find_from_pos (pre_regex tok) (effective_text tok p)" using Cons.prems(1) TextSegment s by simp
    from encode_loop_encoded [OF f find this effective_valid [OF pv], where i = 0] s
    have "encoded tok D ok (effective_text tok s) result (encode_segment find_from_pos tok s result)"
      by (simp add: encode_segment_def)
    then consider (done_ids) ids where "encode_segment find_from_pos tok s result = Some (Inr (result @ ids))"
        "list_all ok ids" "concat (map D ids) = effective_text tok s"
      | (failed) b where "b \<in> set (effective_text tok s)"
        "encode_segment find_from_pos tok s result = Some (Inl (UnencodableByte b))"
        "byte_token tok b = Inl (UnencodableByte b)"
      by (auto simp: encoded_def)
    then show ?thesis
    proof cases
      case done_ids
      have "encoded tok D ok (concat (map2 (segment_bytes tok) (seg # segs) pieces)) result
          (encode_segments find_from_pos tok segs (result @ ids))"
        by (rule encoded_extend [OF IH]) (use done_ids p TextSegment in \<open>simp_all add: segment_bytes_def\<close>)
      then show ?thesis using TextSegment done_ids(1) by simp
    next
      case failed
      then have "b \<in> set (concat (map2 (segment_bytes tok) (seg # segs) pieces))"
        using p TextSegment by (simp add: segment_bytes_def)
      then show ?thesis using TextSegment failed by (auto simp: encoded_def)
    qed
  qed
qed

lemma byte_error_mono: "byte_error tok a r \<Longrightarrow> set a \<subseteq> set b \<Longrightarrow> byte_error tok b r"
  unfolding byte_error_def by blast

lemma encode_segments_returns:
  assumes find: "leftmost_search u find_from_pos" and "list_all2 (piece specials) segs pieces"
  shows "(\<exists>ids. encode_segments find_from_pos tok segs result = Some (Inr ids))
    \<or> byte_error tok (effective_text tok (concat pieces)) (encode_segments find_from_pos tok segs result)"
  using assms(2)
proof (induction segs arbitrary: pieces result)
  case (Cons seg segs)
  then obtain p ps where p: "pieces = p # ps" "piece specials seg p" "list_all2 (piece specials) segs ps"
    by (auto simp: list_all2_Cons1)
  have pv: "utf8_valid p" using p(2) by (simp add: piece_def)
  have eff: "set (effective_text tok (concat ps)) \<subseteq> set (effective_text tok (concat pieces))"
    "set (effective_text tok p) \<subseteq> set (effective_text tok (concat pieces))"
    using p(1) effective_append [OF pv, of tok "concat ps"] by simp_all
  have IH: "(\<exists>ids. encode_segments find_from_pos tok segs r = Some (Inr ids))
      \<or> byte_error tok (effective_text tok (concat pieces)) (encode_segments find_from_pos tok segs r)" for r
    using Cons.IH [OF p(3), of r] byte_error_mono eff(1) by blast
  show ?case
  proof (cases seg)
    case (SpecialSegment tid)
    with IH show ?thesis by simp
  next
    case (TextSegment s)
    then have "p = s" using p(2) by (simp add: piece_def)
    with encode_loop_returns [OF find effective_valid [OF pv], of tok tok 0 result]
    consider ids where "encode_segment find_from_pos tok s result = Some (Inr ids)"
      | "byte_error tok (effective_text tok p) (encode_segment find_from_pos tok s result)"
      by (auto simp: encode_segment_def)
    then show ?thesis
    proof cases
      case 1
      with TextSegment IH [of ids] show ?thesis by simp
    next
      case 2
      then have "encode_segments find_from_pos tok (seg # segs) result = encode_segment find_from_pos tok s result"
        using TextSegment by (auto simp: byte_error_def)
      with 2 eff(2) show ?thesis by (simp add: byte_error_mono)
    qed
  qed
qed simp

definition ascii :: "bytes \<Rightarrow> bool" where
  "ascii t \<longleftrightarrow> list_all (in_range 0 127) t"

lemma ascii_chars: "ascii t \<Longrightarrow> chars t = map unat t \<and> utf8_valid t"
proof -
  assume a: "ascii t"
  have "utf8_text (map unat t) = t"
    using a by (induction t) (auto simp: ascii_def utf8_encode_def in_range_def)
  moreover have "list_all is_scalar (map unat t)" using a by (auto simp: ascii_def list_all_iff in_range_def is_scalar_def)
  ultimately show ?thesis using chars_text [of "map unat t"] utf8_valid_text [of "map unat t"] by simp
qed

lemma gpt2_unicode_ascii: "c < 128 \<Longrightarrow> (case gpt2_unicode_to_byte c of Some b \<Rightarrow> b | None \<Rightarrow> of_nat c) = of_nat c"
proof (cases "keeps_itself c")
  case True
  assume "c < 128"
  then have "(of_nat c, c) \<in> set gpt2_byte_unicode_pairs" using True by (auto simp: gpt2_byte_unicode_pairs_def)
  then show ?thesis using gpt2_pair(1) by fastforce
next
  case False
  assume "c < 128"
  then have "c \<notin> fst ` set (map (\<lambda>(b, c). (c, b)) gpt2_byte_unicode_pairs)"
    using False by (auto simp: gpt2_byte_unicode_pairs_def enumerate_iff)
  then have "gpt2_unicode_to_byte c = None" unfolding gpt2_unicode_to_byte_def by (simp only: map_of_eq_None_iff not_False_eq_True)
  then show ?thesis by simp
qed

lemma gpt2_bytes_ascii:
  assumes "ascii t"
  shows "gpt2_bytes t = t"
proof -
  have "(case gpt2_unicode_to_byte (unat b) of Some b \<Rightarrow> b | None \<Rightarrow> of_nat (unat b)) = b" if "b \<in> set t" for b
    using gpt2_unicode_ascii [of "unat b"] that assms by (auto simp: ascii_def list_all_iff in_range_def)
  then show ?thesis unfolding gpt2_bytes_def conjunct1 [OF ascii_chars [OF assms]] map_map o_def by (intro map_idI)
qed

lemma special_entry:
  assumes "(t, tid) \<in> set (collect_specials vocab token_types)" and "length vocab < 2 ^ 32"
  shows "in_vocab vocab tid" and "vocab ! unat tid = t"
    and "byte_fallback_byte t (type_at token_types (unat tid)) = None"
proof -
  obtain i where i: "i < length vocab" "vocab ! i = t" "tid = of_nat i" "is_special token_types i t"
    using assms(1) by (auto simp: collect_specials_def enumerate_iff)
  have u: "unat tid = i" using i(1,3) assms(2) by (simp add: word_of_nat_u32)
  show "in_vocab vocab tid" "vocab ! unat tid = t" using i u by (simp_all add: in_vocab_def)
  have "\<not> (starts_with (str ''<|'') t \<and> starts_with (str ''<0x'') t)"
    by (cases t; cases "tl t"; cases "tl (tl t)") (auto simp: starts_with_def str_def of_char_def)
  then show "byte_fallback_byte t (type_at token_types (unat tid)) = None"
    using i(4) u by (auto simp: is_special_def type_at_def byte_fallback_byte_def split: if_splits)
qed

lemma specials_literal:
  assumes "bpe_new vocab merges pre_type token_types = Some tok" and "vocab_ok vocab merges"
    and "list_all (\<lambda>(t, tid). t \<noteq> [] \<and> (is_spm_bpe tok \<or> ascii t)) (special_tokens tok)"
  shows "list_all (\<lambda>(t, tid). in_vocab vocab tid \<and> token_decoded vocab token_types (is_spm_bpe tok) tid = t) (special_tokens tok)"
    and "list_all (\<lambda>(t, tid). t \<noteq> [] \<and> utf8_valid t) (special_tokens tok)"
proof -
  have len: "length vocab < 2 ^ 32" and v: "list_all utf8_valid vocab" using assms(2) by (simp_all add: vocab_ok_def)
  note sp = bpe_new_Some(6) [OF assms(1)]
  show "list_all (\<lambda>(t, tid). in_vocab vocab tid \<and> token_decoded vocab token_types (is_spm_bpe tok) tid = t) (special_tokens tok)"
    unfolding list_all_iff
  proof (clarify)
    fix t tid assume m: "(t, tid) \<in> set (special_tokens tok)"
    note e = special_entry [OF m [unfolded sp] len]
    have "is_spm_bpe tok \<or> ascii t" using assms(3) m by (auto simp: list_all_iff)
    then show "in_vocab vocab tid \<and> token_decoded vocab token_types (is_spm_bpe tok) tid = t"
      using e by (auto simp: token_decoded_def Let_def decoded_bytes_def gpt2_bytes_ascii)
  qed
  show "list_all (\<lambda>(t, tid). t \<noteq> [] \<and> utf8_valid t) (special_tokens tok)"
    unfolding list_all_iff
  proof (clarify, rule conjI)
    fix t tid assume m: "(t, tid) \<in> set (special_tokens tok)"
    show "t \<noteq> []" using assms(3) m by (auto simp: list_all_iff)
    show "utf8_valid t" using special_entry(1,2) [OF m [unfolded sp] len] v nth_mem
      by (fastforce simp: in_vocab_def list_all_iff)
  qed
qed

text \<open>The texts that encoding an input searches: what lies between its special tokens, with the spaces
  escaped.\<close>

definition searched_texts :: "bpe_tokenizer \<Rightarrow> bytes \<Rightarrow> bool \<Rightarrow> bytes list" where
  "searched_texts tok input parse_special =
     (if \<not> parse_special then [effective_text tok input]
      else case split_special_tokens tok input of
          None \<Rightarrow> []
        | Some segs \<Rightarrow> concat (map (\<lambda>seg. case seg of TextSegment s \<Rightarrow> [effective_text tok s] | SpecialSegment _ \<Rightarrow> []) segs))"

text \<open>An input is encoded segment by segment, where an input that is not parsed for special tokens is
  one segment.\<close>

lemma try_encode_segments:
  assumes v: "utf8_valid input"
    and sp: "parse_special \<longrightarrow> list_all (\<lambda>(t, tid). t \<noteq> [] \<and> utf8_valid t) (special_tokens tok)"
  obtains segs pieces where
    "list_all2 (piece (if parse_special then special_tokens tok else [])) segs pieces" "concat pieces = input"
    "\<And>find_from_pos. try_encode_with_options find_from_pos tok input parse_special = encode_segments find_from_pos tok segs []"
    "\<And>s. TextSegment s \<in> set segs \<Longrightarrow> effective_text tok s \<in> set (searched_texts tok input parse_special)"
proof (cases "parse_special \<and> input \<noteq> []")
  case True
  then obtain segs pieces where s: "split_special_tokens tok input = Some segs"
    "list_all2 (piece (special_tokens tok)) segs pieces" "concat pieces = input"
    using split_pieces [OF _ v] sp by blast
  show thesis
  proof (rule that)
    show "list_all2 (piece (if parse_special then special_tokens tok else [])) segs pieces" using s(2) True by simp
    show "concat pieces = input" by (rule s(3))
    show "try_encode_with_options find_from_pos tok input parse_special = encode_segments find_from_pos tok segs []"
      for find_from_pos using True s(1) by (simp add: try_encode_with_options_def)
    show "effective_text tok s \<in> set (searched_texts tok input parse_special)" if "TextSegment s \<in> set segs" for s
      using that True s(1) by (force simp: searched_texts_def)
  qed
next
  case False
  define segs where "segs = (if input = [] then [] else [TextSegment input])"
  define pieces where "pieces = (if input = [] then [] else [input])"
  show thesis
  proof (rule that)
    show "list_all2 (piece (if parse_special then special_tokens tok else [])) segs pieces" "concat pieces = input"
      using v by (auto simp: segs_def pieces_def piece_def)
    show "try_encode_with_options find_from_pos tok input parse_special = encode_segments find_from_pos tok segs []"
      for find_from_pos using False by (auto simp: try_encode_with_options_def segs_def split: option.splits sum.splits)
    show "effective_text tok s \<in> set (searched_texts tok input parse_special)" if "TextSegment s \<in> set segs" for s
      using that False by (auto simp: segs_def searched_texts_def split: if_splits)
  qed
qed

lemma token_stream_new:
  assumes "bpe_new vocab merges pre_type token_types = Some tok" and "vocab_ok vocab merges"
    and "list_all (in_vocab vocab) ids"
  shows "token_stream tok ids = Some (concat (map (token_decoded vocab token_types (is_spm_bpe tok)) ids))"
  using assms(3) by (induction ids) (simp_all add: get_token_bytes_new [OF assms(1,2)])

lemma replace_absent:
  "utf8_valid s \<Longrightarrow> is_scalar d \<Longrightarrow> d \<notin> set (chars s) \<Longrightarrow> str_replace (utf8_encode d) (utf8_encode e) s = s"
proof (elim utf8_validE)
  fix cs assume cs: "is_scalar d" "d \<notin> set (chars s)" "s = utf8_text cs" "list_all is_scalar cs"
  then have "map (\<lambda>c. if c = d then e else c) cs = cs" by (auto intro: map_idI)
  then show ?thesis using str_replace_text [OF cs(4,1), of e "[]"] cs(3) by simp
qed

lemma replace_back:
  assumes "utf8_valid s" and "is_scalar d" and "is_scalar e" and "d \<notin> set (chars s)"
  shows "str_replace (utf8_encode d) (utf8_encode e) (str_replace (utf8_encode e) (utf8_encode d) s) = s"
  using assms(1)
proof (rule utf8_validE)
  fix cs assume cs: "s = utf8_text cs" "list_all is_scalar cs"
  let ?f = "\<lambda>c. if c = e then d else c"
  have sc: "list_all is_scalar (map ?f cs)" using cs(2) assms(2) by (auto simp: list_all_iff)
  have "d \<notin> set cs" using assms(4) cs by simp
  then have "map (\<lambda>c. if c = d then e else c) (map ?f cs) = cs" by (induction cs) auto
  then show ?thesis using str_replace_text [OF cs(2) assms(3), of d "[]"] str_replace_text [OF sc assms(2), of e "[]"] cs(1)
    by simp
qed

lemma fixup_pieces:
  assumes "list_all2 (piece specials) segs pieces"
    and "is_spm_bpe tok \<longrightarrow> 0x2581 \<notin> set (chars (concat pieces))"
  shows "utf8_valid (concat (map2 (segment_bytes tok) segs pieces))
    \<and> spm_fixup tok (concat (map2 (segment_bytes tok) segs pieces)) = concat pieces"
  using assms
proof (induction rule: list_all2_induct)
  case Nil
  then show ?case by (simp add: spm_fixup_def)
next
  case (Cons seg segs p pieces)
  have sc: "is_scalar 0x2581" "is_scalar 32" by (simp_all add: is_scalar_def)
  have pv: "utf8_valid p" using Cons.hyps by (simp add: piece_def)
  have ab: "is_spm_bpe tok \<longrightarrow> 0x2581 \<notin> set (chars p)" "is_spm_bpe tok \<longrightarrow> 0x2581 \<notin> set (chars (concat pieces))"
    using Cons.prems chars_append [OF pv] by simp_all
  have v: "utf8_valid (segment_bytes tok seg p)"
    using pv Cons.hyps effective_valid by (auto simp: segment_bytes_def piece_def split: segment.splits)
  have fix1: "spm_fixup tok (segment_bytes tok seg p) = p"
    using Cons.hyps ab(1) pv sc
    by (auto simp: spm_fixup_def segment_bytes_def piece_def effective_text_def spm_space_def replace_back replace_absent
        split: segment.splits)
  have app: "spm_fixup tok (segment_bytes tok seg p @ r) = spm_fixup tok (segment_bytes tok seg p) @ spm_fixup tok r" for r
    using v sc by (simp add: spm_fixup_def spm_space_def str_replace_append)
  show ?case using Cons.IH ab(2) v fix1 app by (simp add: utf8_valid_append)
qed

subsection \<open>What encoding returns\<close>

text \<open>C24: No input is lost. What \<open>encode\<close> returns for a text, with or without special tokens, decodes to
  exactly that text, under these conditions: the vocabulary satisfies \<open>vocab_ok\<close>; the engine's search is a leftmost search and does not give
  up on the texts between the special tokens; special tokens that are parsed are not empty, and ASCII in
  byte-level vocabularies; in raw UTF-8 vocabularies the text has no U+2581 and no token stands in for
  another byte. That the matches leave no gap is a fact about the four expressions, not a condition.\<close>

theorem encode_roundtrip:
  assumes "bpe_new vocab merges pre_type token_types = Some tok" and "vocab_ok vocab merges"
    and "leftmost_search u find_from_pos"
    and "list_all (completes u find_from_pos (pre_regex tok)) (searched_texts tok input parse_special)"
    and "utf8_valid input"
    and "is_spm_bpe tok \<longrightarrow> no_stand_ins vocab \<and> 0x2581 \<notin> set (chars input)"
    and "parse_special \<longrightarrow> list_all (\<lambda>(t, tid). t \<noteq> [] \<and> (is_spm_bpe tok \<or> ascii t)) (special_tokens tok)"
    and "try_encode_with_options find_from_pos tok input parse_special = Some (Inr ids)"
  shows "decode_all tok ids = Some input"
proof -
  let ?D = "token_decoded vocab token_types (is_spm_bpe tok)" and ?sp = "if parse_special then special_tokens tok else []"
  note sp = specials_literal [OF assms(1,2)]
  have "parse_special \<longrightarrow> list_all (\<lambda>(t, tid). t \<noteq> [] \<and> utf8_valid t) (special_tokens tok)"
    and lit: "list_all (\<lambda>(t, tid). in_vocab vocab tid \<and> ?D tid = t) ?sp"
    using sp assms(7) by auto
  from try_encode_segments [OF assms(5) this(1)] obtain segs pieces where
      p: "list_all2 (piece ?sp) segs pieces" "concat pieces = input"
    and run: "encode_segments find_from_pos tok segs [] = Some (Inr ids)"
    and texts: "\<And>s. TextSegment s \<in> set segs \<Longrightarrow> effective_text tok s \<in> set (searched_texts tok input parse_special)"
    using assms(8) by metis
  have f: "faithful tok ?D (in_vocab vocab)" using assms(6) by (intro faithful_new [OF assms(1,2)]) simp
  have "encoded tok ?D (in_vocab vocab) (concat (map2 (segment_bytes tok) segs pieces)) [] (Some (Inr ids))"
    unfolding run [symmetric]
    by (rule encode_segments_encoded [OF f assms(3) _ lit p(1)]) (use texts assms(4) in \<open>auto simp: list_all_iff\<close>)
  then have ids: "list_all (in_vocab vocab) ids" "concat (map ?D ids) = concat (map2 (segment_bytes tok) segs pieces)"
    by (auto simp: encoded_def)
  have fixed: "utf8_valid (concat (map2 (segment_bytes tok) segs pieces))"
    "spm_fixup tok (concat (map2 (segment_bytes tok) segs pieces)) = input"
    using fixup_pieces [OF p(1), of tok] assms(6) p(2) by blast+
  show ?thesis unfolding decode_all_def token_stream_new [OF assms(1,2) ids(1)] ids(2) using fixed by (simp add: lossy_valid)
qed

text \<open>C25: For a vocabulary of fewer than \<open>2 ^ 32\<close> valid strings and an engine whose results are leftmost
  matches, encoding returns when no special token that is parsed is empty, also when the engine gives
  up on a search, and it fails only by naming a byte of the (space-escaped) text that has neither a
  single-byte nor a \<open><0xNN>\<close> token; so it succeeds if every byte has one.\<close>

theorem encode_returns:
  assumes "bpe_new vocab merges pre_type token_types = Some tok" and "list_all utf8_valid vocab" "length vocab < 2 ^ 32"
    and "leftmost_search u find_from_pos" and "utf8_valid input"
    and "parse_special \<longrightarrow> list_all (\<lambda>(t, tid). t \<noteq> []) (special_tokens tok)"
  shows "(\<exists>ids. try_encode_with_options find_from_pos tok input parse_special = Some (Inr ids))
    \<or> (\<exists>b\<in>set (effective_text tok input).
         try_encode_with_options find_from_pos tok input parse_special = Some (Inl (UnencodableByte b))
         \<and> byte_to_token tok ! unat b = NO_TOKEN \<and> byte_to_fallback tok ! unat b = NO_TOKEN)"
proof -
  have "utf8_valid t" if "(t, tid) \<in> set (special_tokens tok)" for t tid
    using special_entry(1,2) [OF that [unfolded bpe_new_Some(6) [OF assms(1)]] assms(3)] assms(2) nth_mem
    by (fastforce simp: in_vocab_def list_all_iff)
  then have "parse_special \<longrightarrow> list_all (\<lambda>(t, tid). t \<noteq> [] \<and> utf8_valid t) (special_tokens tok)"
    using assms(6) by (auto simp: list_all_iff)
  from try_encode_segments [OF assms(5) this] obtain segs pieces where
      p: "list_all2 (piece (if parse_special then special_tokens tok else [])) segs pieces" "concat pieces = input"
    and run: "try_encode_with_options find_from_pos tok input parse_special = encode_segments find_from_pos tok segs []"
    by metis
  have "byte_to_token tok ! unat b = NO_TOKEN \<and> byte_to_fallback tok ! unat b = NO_TOKEN"
    if "byte_token tok b = Inl e" for b e using that by (auto simp: byte_token_def split: if_splits)
  then show ?thesis
    using encode_segments_returns [OF assms(4) p(1), of tok "[]"] unfolding run byte_error_def p(2) by blast
qed

definition demo_vocab :: "bytes list" where
  "demo_vocab = map str [''h'', ''i'', ''hi'', ''<|x|>'']"

text \<open>A search engine for the examples: it takes a run of lower-case letters for the GPT-2 expression, and
  single characters otherwise.\<close>

definition demo_unicode :: unicode where
  "demo_unicode = \<lparr>uc_letter = (\<lambda>c. 97 \<le> c \<and> c \<le> 122), uc_number = (\<lambda>c. 48 \<le> c \<and> c \<le> 57), uc_space = (\<lambda>c. c = 32)\<rparr>"

definition demo_word :: "pre_pattern \<Rightarrow> nat list \<Rightarrow> nat" where
  "demo_word p cs = (if p = Gpt2Pattern then max 1 (length (takeWhile (uc_letter demo_unicode) cs)) else 1)"

definition demo_find :: finder where
  "demo_find p text pos =
     map_option (\<lambda>i. (char_pos text i, char_pos text (i + demo_word p (drop i (chars text)))))
       (find (\<lambda>i. pos \<le> char_pos text i) [0..<length (chars text)])"

definition demo_tok :: bpe_tokenizer where
  "demo_tok = the (bpe_new demo_vocab [(str ''h'', str ''i'')] ''default'' [])"

lemma star_run: "i + n \<le> length cs \<Longrightarrow> (\<And>k. k < n \<Longrightarrow> P (cs ! (i + k))) \<Longrightarrow> re_match cs (Star (Cls P)) i (i + n)"
proof (induction n)
  case (Suc n)
  then have "(re_match cs (Cls P))\<^sup>*\<^sup>* i (i + n)" "re_match cs (Cls P) (i + n) (Suc (i + n))" by simp_all
  then have "(re_match cs (Cls P))\<^sup>*\<^sup>* i (Suc (i + n))" by (rule rtranclp.rtrancl_into_rtrancl)
  then show ?case by simp
qed simp

lemma plus_run:
  assumes "0 < n" "i + n \<le> length cs" "\<And>k. k < n \<Longrightarrow> P (cs ! (i + k))"
  shows "re_match cs (plus_re (Cls P)) i (i + n)"
proof -
  have "re_match cs (Cls P) i (Suc i)" using assms(1,2) assms(3) [of 0] by simp
  moreover have "re_match cs (Star (Cls P)) (Suc i) (Suc i + (n - 1))"
  proof (intro star_run)
    show "P (cs ! (Suc i + k))" if "k < n - 1" for k using assms(3) [of "Suc k"] that by simp
  qed (use assms(1,2) in simp)
  ultimately show ?thesis using assms(1) unfolding plus_re_def re_match.simps(3) by auto
qed

lemma demo_word_match:
  assumes "i < length cs"
  shows "re_match cs (pattern_re demo_unicode p) i (i + demo_word p (drop i cs))"
proof (cases "p = Gpt2Pattern \<and> takeWhile (uc_letter demo_unicode) (drop i cs) \<noteq> []")
  case True
  let ?w = "takeWhile (uc_letter demo_unicode) (drop i cs)"
  have "length ?w \<le> length (drop i cs)" by (rule length_takeWhile_le)
  then have "re_match cs (plus_re (Cls (uc_letter demo_unicode))) i (i + length ?w)"
  proof (intro plus_run)
    fix k assume "k < length ?w"
    then show "uc_letter demo_unicode (cs ! (i + k))"
      using nth_mem [of k ?w] set_takeWhileD takeWhile_nth [of k "uc_letter demo_unicode" "drop i cs"] assms
      by (metis length_drop length_takeWhile_le nth_drop order.strict_trans2 less_imp_le)
  qed (use True assms in auto)
  then have "re_match cs (seqs [opt_re (lit '' ''), plus_re (Cls (uc_letter demo_unicode))]) i (i + length ?w)"
    by (intro seqs_skip [OF opt_skip] seqs_take) simp_all
  then have "re_match cs (gpt2_re demo_unicode) i (i + length ?w)"
    by (simp only: gpt2_re_def re_match_alts list.set bex_simps(5) simp_thms)
  moreover have "demo_word p (drop i cs) = length ?w" using True by (simp add: demo_word_def Suc_leI)
  ultimately show ?thesis using True by simp
next
  case False
  then have "demo_word p (drop i cs) = 1" by (auto simp: demo_word_def)
  with pattern_covers [OF assms] show ?thesis by simp
qed

lemma demo_leftmost: "leftmost_search demo_unicode demo_find"
  unfolding leftmost_search_def
proof (intro allI impI, elim conjE)
  fix p "text" pos start stop assume "demo_find p text pos = Some (start, stop)"
  then obtain i where f: "find (\<lambda>i. pos \<le> char_pos text i) [0..<length (chars text)] = Some i"
    and s: "start = char_pos text i" "stop = char_pos text (i + demo_word p (drop i (chars text)))"
    by (auto simp: demo_find_def)
  then have i: "i < length (chars text)" "pos \<le> char_pos text i" "\<And>k. k < i \<Longrightarrow> \<not> pos \<le> char_pos text k"
    by (auto simp: find_Some_iff)
  have "\<not> char_pos text k < start" if "pos \<le> char_pos text k" for k
  proof -
    have "i \<le> k" using i(3) that not_less by blast
    then show ?thesis unfolding s char_pos_def
      by (metis concat_append le_add_diff_inverse length_append map_append not_add_less1 take_add)
  qed
  with i s demo_word_match [OF i(1), of p] show "\<exists>i j. i \<le> length (chars text) \<and> start = char_pos text i
      \<and> stop = char_pos text j \<and> re_match (chars text) (pattern_re demo_unicode p) i j \<and> pos \<le> start
      \<and> (\<forall>k j. pos \<le> char_pos text k \<and> char_pos text k < start \<longrightarrow>
           \<not> re_match (chars text) (pattern_re demo_unicode p) k j)"
    by (intro exI [of _ i] exI [of _ "i + demo_word p (drop i (chars text))"]) auto
qed

lemma demo_completes: "completes demo_unicode demo_find p text"
  unfolding completes_def
proof (intro allI impI, elim conjE)
  fix i k j assume "i \<le> k" "re_match (chars text) (pattern_re demo_unicode p) k j"
  then have "i < length (chars text)"
    using pattern_not_empty [of "chars text" demo_unicode p k j] re_match_forward [of "chars text" "pattern_re demo_unicode p" k j]
    by simp
  then have "find (\<lambda>k. char_pos text i \<le> char_pos text k) [0..<length (chars text)] \<noteq> None"
    by (auto simp: find_None_iff)
  then show "demo_find p text (char_pos text i) \<noteq> None" by (simp add: demo_find_def)
qed

lemma demo_new: "bpe_new demo_vocab [(str ''h'', str ''i'')] ''default'' [] = Some demo_tok"
proof -
  have "\<exists>tok. bpe_new demo_vocab [(str ''h'', str ''i'')] ''default'' [] = Some tok"
    by (simp add: bpe_new_def is_qwen_def Let_def split: prod.splits)
  then show ?thesis by (auto simp: demo_tok_def)
qed

lemma demo_vocab_eq: "demo_vocab = [[104], [105], [104, 105], [60, 124, 120, 124, 62]]"
  by (simp add: demo_vocab_def str_def of_char_def)

lemma demo_vocab_ok: "vocab_ok demo_vocab [(str ''h'', str ''i'')]"
  by (simp add: vocab_ok_def demo_vocab_eq utf8_valid.simps(2) in_range_def spelled_like_fallback_def
      byte_fallback_byte_def starts_with_def str_def of_char_def)

lemma demo_spm: "\<not> is_spm_bpe demo_tok"
  unfolding bpe_new_Some(1) [OF demo_new]
  by (simp add: detect_spm_def demo_vocab_eq)

lemma demo_specials: "special_tokens demo_tok = [(str ''<|x|>'', 3)]"
  unfolding bpe_new_Some(6) [OF demo_new]
  by (simp add: collect_specials_def demo_vocab_eq is_special_def starts_with_def str_def of_char_def)

lemma demo_bytes: "byte_token demo_tok 104 = Inr 0" "byte_token demo_tok 105 = Inr 1"
proof -
  have "(104, 104) \<in> set gpt2_byte_unicode_pairs" "(105, 105) \<in> set gpt2_byte_unicode_pairs"
    unfolding gpt2_byte_unicode_pairs_def by (auto simp: keeps_itself_def intro: image_eqI [of _ _ 104] image_eqI [of _ _ 105])
  from this [THEN byte_to_token_exact, of demo_vocab]
  show "byte_token demo_tok 104 = Inr 0" "byte_token demo_tok 105 = Inr 1"
    by (simp_all add: byte_token_def bpe_new_Some(3) [OF demo_new] demo_vocab_eq token_to_id_def utf8_encode_def NO_TOKEN_def)
qed

lemma demo_merge: "merge_table demo_tok = [(0, 1) \<mapsto> (0, 2)]"
  unfolding bpe_new_Some(2) [OF demo_new]
  by (simp add: build_merge_table_def add_merge_def token_to_id_def demo_vocab_eq str_def of_char_def)

lemma demo_two_byte: "qwen_two_byte_tokens demo_tok = []"
  using two_byte_only_qwen(1) [OF demo_new] by (auto simp: is_qwen_def)

lemma demo_regex: "pre_regex demo_tok = Gpt2Pattern"
  by (simp add: bpe_new_Some(10) [OF demo_new] demo_spm select_pattern_def is_qwen_def)

lemma demo_found: "demo_find Gpt2Pattern [104, 105] 0 = Some (0, 2)"
proof -
  have c: "chars [104, 105] = [104, 105]" using ascii_chars [of "[104, 105]"] by (simp add: ascii_def in_range_def)
  have "[0..<2] = [0, Suc 0]" by (simp add: upt_rec)
  then show ?thesis
    by (simp add: demo_find_def c demo_word_def demo_unicode_def) (simp add: char_pos_def c utf8_encode_def)
qed

lemma demo_encode:
  "try_encode_with_options demo_find demo_tok (str ''hi<|x|>'') True = Some (Inr [2, 3])"
proof -
  have input: "str ''hi<|x|>'' = [104, 105, 60, 124, 120, 124, 62]" "str ''<|x|>'' = [60, 124, 120, 124, 62]"
    by (simp_all add: str_def of_char_def)
  have "split_special_tokens demo_tok (str ''hi<|x|>'') = Some [TextSegment [104, 105], SpecialSegment 3]"
    by (simp add: split_special_tokens_def demo_specials input split_loop.simps best_special_def closer_special_def
        starts_with_def)
  moreover have "bpe_merge_ids (merge_table demo_tok) [0, 1] = Some [2]"
    by (simp add: demo_merge bpe_merge_ids.simps best_pair_def scan_pair_def less_NO_TOKEN remove_at_def)
      (simp add: NO_TOKEN_def)
  then have "encode_segment demo_find demo_tok [104, 105] [] = Some (Inr [2])"
    by (simp add: encode_segment_def effective_text_def demo_spm encode_loop.simps demo_regex demo_found qwen_exact_two_byte_token_id_def demo_two_byte word_ids_def demo_bytes)
  ultimately show ?thesis by (simp add: try_encode_with_options_def input)
qed

theorem encode_roundtrip_witness:
  "decode_all demo_tok [2, 3] = Some (str ''hi<|x|>'')"
  by (rule encode_roundtrip [OF demo_new demo_vocab_ok demo_leftmost _ _ _ _ demo_encode])
    (simp_all add: demo_completes list_all_iff demo_spm demo_specials str_def of_char_def utf8_valid.simps(2) in_range_def ascii_def)

theorem encode_returns_witness:
  "(\<exists>ids. try_encode_with_options demo_find demo_tok (str ''hi!'') True = Some (Inr ids))
   \<or> (\<exists>b\<in>set (effective_text demo_tok (str ''hi!'')).
        try_encode_with_options demo_find demo_tok (str ''hi!'') True = Some (Inl (UnencodableByte b))
        \<and> byte_to_token demo_tok ! unat b = NO_TOKEN \<and> byte_to_fallback demo_tok ! unat b = NO_TOKEN)"
  by (rule encode_returns [OF demo_new _ _ demo_leftmost])
    (simp_all add: demo_vocab_eq demo_spm demo_specials str_def of_char_def utf8_valid.simps(2) in_range_def ascii_def)

subsection \<open>Merging is the lowest-rank rewriting\<close>

text \<open>One step of byte-pair encoding as it is specified: the leftmost pair among those of lowest rank is
  replaced by its merged token.\<close>

inductive bpe_step :: "(u32 \<times> u32 \<Rightarrow> (u32 \<times> u32) option) \<Rightarrow> u32 list \<Rightarrow> u32 list \<Rightarrow> bool" for table where
  "mergeable table (xs @ [a, b] @ ys) (length xs) p m
   \<Longrightarrow> (\<And>j q m'. mergeable table (xs @ [a, b] @ ys) j q m' \<Longrightarrow> p \<le> q \<and> (j < length xs \<longrightarrow> p < q))
   \<Longrightarrow> bpe_step table (xs @ [a, b] @ ys) (xs @ [m] @ ys)"

lemma best_pair_step:
  assumes "best_pair table ids = Some i" and "table (ids ! i, ids ! Suc i) = Some (p, m)"
  shows "bpe_step table ids (remove_at (Suc i) (ids[i := m]))"
proof -
  obtain p' m' where b: "mergeable table ids i p' m'"
    "\<And>j q m''. mergeable table ids j q m'' \<Longrightarrow> p' \<le> q \<and> (j < i \<longrightarrow> p' < q)" using best_pair_Some [OF assms(1)] by blast
  then have i: "Suc i < length ids" "p' = p" "m' = m" using assms(2) by (auto simp: mergeable_def)
  define xs where "xs = take i ids"
  define ys where "ys = drop (Suc (Suc i)) ids"
  have e: "ids = xs @ [ids ! i, ids ! Suc i] @ ys" and l: "length xs = i"
    using i(1) by (simp_all add: xs_def ys_def Cons_nth_drop_Suc)
  have "remove_at (Suc i) (ids[i := m]) = xs @ [m] @ ys"
    using i(1) by (simp add: xs_def ys_def remove_at_def take_Suc_conv_app_nth take_update_cancel upd_conv_take_nth_drop)
  moreover have "bpe_step table (xs @ [ids ! i, ids ! Suc i] @ ys) (xs @ [m] @ ys)"
    by (rule bpe_step.intros [where p = p]) (use b i l e in auto)
  ultimately show ?thesis using e by simp
qed

lemma bpe_step_unique: "bpe_step table ids u \<Longrightarrow> bpe_step table ids v \<Longrightarrow> u = v"
proof (elim bpe_step.cases)
  fix xs a b ys p m xs' a' b' ys' p' m'
  assume u: "ids = xs @ [a, b] @ ys" "u = xs @ [m] @ ys" "mergeable table (xs @ [a, b] @ ys) (length xs) p m"
    "\<And>j q m'. mergeable table (xs @ [a, b] @ ys) j q m' \<Longrightarrow> p \<le> q \<and> (j < length xs \<longrightarrow> p < q)"
    and v: "ids = xs' @ [a', b'] @ ys'" "v = xs' @ [m'] @ ys'" "mergeable table (xs' @ [a', b'] @ ys') (length xs') p' m'"
    "\<And>j q m. mergeable table (xs' @ [a', b'] @ ys') j q m \<Longrightarrow> p' \<le> q \<and> (j < length xs' \<longrightarrow> p' < q)"
  have "p \<le> p'" "p' \<le> p" using u v by metis+
  then have "p = p'" by simp
  then have "length xs = length xs'" using u v by (metis less_irrefl linorder_less_linear)
  then have "xs = xs'" "a = a'" "b = b'" "ys = ys'" using u(1) v(1) by auto
  then show "u = v" using u v by (auto simp: mergeable_def)
qed

lemma merge_steps:
  "\<exists>out. bpe_merge_ids table ids = Some out \<and> (bpe_step table)\<^sup>*\<^sup>* ids out \<and> (\<forall>next. \<not> bpe_step table out next)"
proof (induction ids rule: length_induct)
  case (1 ids)
  have stuck: "\<not> bpe_step table xs next" if "\<forall>i p m. \<not> mergeable table xs i p m" for xs "next"
    using that by (auto elim: bpe_step.cases)
  show ?case
  proof (cases "length ids < 2 \<or> best_pair table ids = None")
    case True
    then have "bpe_merge_ids table ids = Some ids" by (auto simp: bpe_merge_ids.simps)
    moreover have "\<forall>i p m. \<not> mergeable table ids i p m" using True best_pair_None by (auto simp: mergeable_def)
    ultimately show ?thesis using stuck by blast
  next
    case False
    then obtain i where i: "best_pair table ids = Some i" by blast
    obtain p m where m: "Suc i < length ids" "table (ids ! i, ids ! Suc i) = Some (p, m)"
      using best_pair_Some [OF i] by (auto simp: mergeable_def)
    let ?next = "remove_at (Suc i) (ids[i := m])"
    have step: "bpe_merge_ids table ids = bpe_merge_ids table ?next"
      using False i m by (subst bpe_merge_ids.simps) simp
    have "length ?next < length ids" using m(1) by (simp add: length_remove_at)
    then obtain out where "bpe_merge_ids table ?next = Some out" "(bpe_step table)\<^sup>*\<^sup>* ?next out"
      "\<forall>next. \<not> bpe_step table out next" using 1 by blast
    then show ?thesis using step best_pair_step [OF i m(2)] by (auto intro: converse_rtranclp_into_rtranclp)
  qed
qed

text \<open>C26: Merging terminates in the normal form of byte-pair encoding: it returns the only sequence without a
  mergeable pair that the specified steps reach, whatever the merge table.\<close>

theorem merge_normal_form:
  "bpe_merge_ids table ids = Some out \<longleftrightarrow> (bpe_step table)\<^sup>*\<^sup>* ids out \<and> (\<nexists>u. bpe_step table out u)"
proof -
  obtain res where r: "bpe_merge_ids table ids = Some res" "(bpe_step table)\<^sup>*\<^sup>* ids res" "\<forall>u. \<not> bpe_step table res u"
    using merge_steps by blast
  have "out = res" if "(bpe_step table)\<^sup>*\<^sup>* ids out" "\<nexists>u. bpe_step table out u"
    using r(2) that
  proof (induction rule: converse_rtranclp_induct)
    case base
    then show ?case using r(3) by (metis converse_rtranclpE)
  next
    case (step y z)
    then have "(bpe_step table)\<^sup>*\<^sup>* z out" by (metis bpe_step_unique converse_rtranclpE)
    then show ?case using step by blast
  qed
  then show ?thesis using r by auto
qed

subsection \<open>Control tokens in untrusted text\<close>









subsection \<open>Single tokens\<close>

lemma str_replace_not_found: "str_find p s = None \<Longrightarrow> str_replace p r s = s"
proof (induction s)
  case (Cons b s)
  then have "\<not> starts_with p (b # s)" "str_find p s = None" by (auto split: if_splits)
  then show ?case using Cons.IH by (subst str_replace.simps) simp
qed simp

text \<open>The allocation-free decoder agrees with the plain one.\<close>

theorem decode_ref_is_decode: "decode_ref tok tid = decode tok tid"
proof -
  have "(if is_spm_bpe tok \<and> str_find spm_space s \<noteq> None then str_replace spm_space (utf8_encode 32) s else s)
      = spm_fixup tok s" for s
    by (auto simp: spm_fixup_def str_replace_not_found)
  then show ?thesis by (simp add: decode_ref_def decode_def Let_def)
qed

subsection \<open>Vocabularies outside the contract\<close>

text \<open>In a raw UTF-8 vocabulary \<open>byte_token\<close> prefers the GPT-2 spelling of a byte to its \<open><0xNN>\<close> token. Here
  the byte C3 is encoded as the token for U+00C3, whose bytes are C3 83.\<close>

definition spm_vocab :: "bytes list" where
  "spm_vocab = [utf8_encode 0xC3, str ''<0xC3>'', str ''<0xA9>'']"

theorem stand_in_corrupts:
  "\<exists>tok. bpe_new spm_vocab [] ''gemma4'' [1, 6, 6] = Some tok \<and> is_spm_bpe tok
     \<and> byte_token tok 0xC3 = Inr 0 \<and> get_token_bytes tok 0 = Some [0xC3, 0x83]"
proof -
  have v: "spm_vocab = [[195, 131], [60, 48, 120, 67, 51, 62], [60, 48, 120, 65, 57, 62]]"
    by (simp add: spm_vocab_def utf8_encode_def str_def of_char_def)
  have "\<exists>tok. bpe_new spm_vocab [] ''gemma4'' [1, 6, 6] = Some tok"
    by (simp add: bpe_new_def is_qwen_def Let_def split: prod.splits)
  then obtain tok where new: "bpe_new spm_vocab [] ''gemma4'' [1, 6, 6] = Some tok" by blast
  have spm: "is_spm_bpe tok" using bpe_new_Some(1) [OF new] by (simp add: detect_spm_def)
  have ok: "vocab_ok spm_vocab []" by (simp add: vocab_ok_def v utf8_valid.simps(2) in_range_def)
  have "(195, 195) \<in> set gpt2_byte_unicode_pairs"
    unfolding gpt2_byte_unicode_pairs_def by (auto simp: keeps_itself_def intro: image_eqI [of _ _ 195])
  from byte_to_token_exact [OF this, of spm_vocab] have "byte_token tok 195 = Inr 0"
    by (simp add: byte_token_def bpe_new_Some(3) [OF new] v token_to_id_def utf8_encode_def NO_TOKEN_def)
  moreover have "get_token_bytes tok 0 = Some [195, 131]"
    using get_token_bytes_new [OF new ok, of 0] spm
    by (simp add: in_vocab_def v token_decoded_def Let_def type_at_def byte_fallback_byte_def decoded_bytes_def)
  ultimately show ?thesis using new spm by auto
qed

text \<open>When the engine gives up on a search, the loop encodes one byte and searches again from inside the
  character, and the next match begins behind it: here the second byte of U+00E9 is lost, although it
  has no token at all.\<close>

definition failing_find :: finder where
  "failing_find p text pos = (if text = [0xC3, 0xA9, 104] \<and> pos = 0 then None else demo_find p text pos)"

definition latin_vocab :: "bytes list" where
  "latin_vocab = [utf8_encode 0xC3, str ''h'']"

lemma failing_leftmost: "leftmost_search demo_unicode failing_find"
  using demo_leftmost unfolding leftmost_search_def failing_find_def by (metis option.distinct(1))

theorem search_error_drops_bytes:
  "\<exists>tok. bpe_new latin_vocab [] ''default'' [] = Some tok
     \<and> try_encode_with_options failing_find tok [0xC3, 0xA9, 104] False = Some (Inr [0, 1])
     \<and> byte_token tok 0xA9 = Inl (UnencodableByte 0xA9)"
proof -
  have v: "latin_vocab = [[195, 131], [104]]" by (simp add: latin_vocab_def utf8_encode_def str_def of_char_def)
  have "\<exists>tok. bpe_new latin_vocab [] ''default'' [] = Some tok"
    by (simp add: bpe_new_def is_qwen_def Let_def split: prod.splits)
  then obtain tok where new: "bpe_new latin_vocab [] ''default'' [] = Some tok" by blast
  have spm: "\<not> is_spm_bpe tok" using bpe_new_Some(1) [OF new] by (simp add: detect_spm_def v)
  have two: "qwen_two_byte_tokens tok = []" using two_byte_only_qwen(1) [OF new] by (auto simp: is_qwen_def)
  have "(195, 195) \<in> set gpt2_byte_unicode_pairs" "(104, 104) \<in> set gpt2_byte_unicode_pairs" "(169, 169) \<in> set gpt2_byte_unicode_pairs"
    unfolding gpt2_byte_unicode_pairs_def
    by (auto simp: keeps_itself_def intro: image_eqI [of _ _ 195] image_eqI [of _ _ 104] image_eqI [of _ _ 169])
  from this [THEN byte_to_token_exact, of latin_vocab]
  have b: "byte_token tok 195 = Inr 0" "byte_token tok 104 = Inr 1" and lost: "byte_to_token tok ! 169 = NO_TOKEN"
    by (simp_all add: byte_token_def bpe_new_Some(3) [OF new] v token_to_id_def utf8_encode_def NO_TOKEN_def)
  have "byte_to_fallback tok ! 169 = NO_TOKEN"
    unfolding bpe_new_Some(4) [OF new] by (simp add: build_byte_to_fallback_def fallback_bytes_def v byte_fallback_byte_def)
  with lost have "byte_token tok 169 = Inl (UnencodableByte 169)" by (simp add: byte_token_def)
  moreover have c: "chars [195, 169, 104] = [233, 104]"
    using chars_text [of "[233, 104]"] by (simp add: is_scalar_def utf8_encode_def)
  then have "demo_find Gpt2Pattern [195, 169, 104] 1 = Some (2, 3)"
    by (simp add: demo_find_def upt_rec c demo_word_def demo_unicode_def) (simp add: char_pos_def c utf8_encode_def)
  then have "try_encode_with_options failing_find tok [195, 169, 104] False = Some (Inr [0, 1])"
    by (simp add: try_encode_with_options_def encode_segment_def effective_text_def spm encode_loop.simps failing_find_def
        bpe_new_Some(10) [OF new] select_pattern_def is_qwen_def qwen_exact_two_byte_token_id_def two word_ids_def b
        bpe_merge_ids.simps)
  ultimately show ?thesis using new by auto
qed

text \<open>\<open>from_str_radix\<close> accepts a sign, so the string \<open><0x+A>\<close> counts as a byte fallback.\<close>

theorem plus_sign_fallback: "byte_fallback_byte (str ''<0x+A>'') None = Some 10"
  by (simp add: byte_fallback_byte_def starts_with_def str_def of_char_def from_str_radix_16_def hex_digit_def in_range_def)

end
