(* ===== verification/Spec2Isabelle.thy ===== *)
theory Spec2Isabelle
  imports Gguf Prefix_Reuse Transfer_Schedule Resumable_Stream Verifier_Log Journal_Examples Gateway_Codec Gbnf_Parser Dflash_Cache
    Streaming_Detokenizer
begin

text \<open>
  A verification library of \<^emph>\<open>muser\<close>, a local inference engine for one hybrid transformer (39
  sliding-window layers and 13 full NoPE layers) with reusable prompt prefixes, cluster handoff and a
  remote speculative verifier. The parts of the program that carry discrete state are modelled here;
  every definition names the function it translates, and every theorem is about those definitions.

  \<^bold>\<open>Parts of the program and how they interact.\<close> The engine loads a GGUF file, runs prompts and can
  export or install the key/value cache of a session as a snapshot. The reuse ladder looks for the
  deepest prefix of a new prompt that is already computed: in the current session, in the resident
  index, in the durable store, in a remote store; it installs the winner into the session. When the
  rest of the prompt is computed elsewhere, the cluster's schedule says which segments of the cache
  the producer sends. The verifier protocol lets a remote target check drafts in rounds and keeps one
  authenticated history of committed tokens; its second version keeps that history in a journal on
  disk and talks to the source in frames. The server keeps event streams that clients can resume
  and can constrain sampling to a grammar.

  \<^bold>\<open>Theories.\<close>
  \<^item> \<open>Muser_Prelude\<close>: checked, saturating and wrapping 64-bit arithmetic on \<^typ>\<open>nat\<close>, results as
    sums, fallible loops, little-endian integers, slices, ranges that tile an interval; the locales
    \<open>codec\<close> and \<open>invariant_system\<close>.
  \<^item> \<open>Gguf\<close> (\<open>muser-engine/src/gguf.rs\<close>, \<open>gguf/*.rs\<close>): parser, metadata, accessors, tokenizer
    identity. Soundness of acceptance, round trip with an encoder, bounds.
  \<^item> \<open>Muse_Cache\<close> (\<open>muser-engine/src/config.rs\<close>, \<open>cache.rs\<close>): layer partition, snapshots and their
    validation, tile writes.
  \<^item> \<open>Radix_Tree\<close>, \<open>Resident\<close> (\<open>muser-kvpack/src/resident.rs\<close>): the compressed radix tree behind the
    locale \<open>prefix_index\<close>, the interning chunk pool, eviction, capped lookup, and the transition
    system of the index with hits still held by callers.
  \<^item> \<open>Engine_Session\<close> (\<open>muser-engine/src/reference.rs\<close>, \<open>api.rs\<close>): the CPU session's cache behind the
    locale \<open>engine_session\<close>.
  \<^item> \<open>Prefix_Reuse\<close> (\<open>muser-kvpack/src/reuse.rs\<close>, \<open>session.rs\<close>, \<open>remote.rs\<close>): the ladder; the durable
    and the remote store are records of functions.
  \<^item> \<open>Transfer_Schedule\<close> (\<open>muser-cluster/src/schedule.rs\<close>, \<open>muser-engine/src/dflash/config.rs\<close>).
  \<^item> \<open>Dflash_Cache\<close> (\<open>muser-engine/src/dflash/cache.rs\<close>): the draft model's sink-and-window cache, its
    checkpoints and snapshots.
  \<^item> \<open>Verifier_Protocol\<close>, \<open>Fragment_Assembly\<close>, \<open>Verifier_Log\<close> (\<open>muser-cluster/src/verifier.rs\<close>, and
    \<open>MacKey\<close> of the vendored \<open>kvpack-handoff\<close>): records, authentication, manifests, assembly of
    fragments, and the round log behind the locale \<open>single_writer_log\<close>.
  \<^item> \<open>Mt19937\<close> (\<open>muser-engine/src/sampling.rs\<close>): the sampler's Mersenne twister, whose outputs are the
    tempered terms of one linear recurrence, and its snapshots.
  \<^item> \<open>Verifier_V2\<close> (\<open>muser-cluster/src/verifier_v2.rs\<close>, first half): the carried-frontier protocol. A
    result is built exactly when it verifies against its request, its fragments tile the schema's
    rows, and the draft tokens of a sparse round are determined by its sampler snapshot.
  \<^item> \<open>Verifier_Journal\<close> (\<open>verifier_v2.rs\<close>, second half): \<open>DurableVerifierJournalV2\<close>, every operation with
    the ordered list of its effects on the disk. \<open>Journal_Store\<close> reads a directory as a map,
    \<open>Journal_Recovery\<close> shows that opening replays the commit chain, \<open>Journal_Disk\<close> and
    \<open>Journal_Correct\<close> that every operation keeps the invariant wherever a crash cuts its effects,
    \<open>Journal_Safety\<close> states the contract over runs with crashes, \<open>Journal_Examples\<close> is a concrete run.
  \<^item> \<open>Gateway_Codec\<close> (\<open>muser-cluster/src/verifier_gateway_codec.rs\<close>): the frames between a source and a
    verifier; a frame is read exactly from the bytes that writing it produces.
  \<^item> \<open>Resumable_Stream\<close> (\<open>muser-server/src/resumable_stream.rs\<close>): histories with offsets, expiry and
    replacement.
  \<^item> \<open>Utf8_Text\<close>: UTF-8 decoding and encoding, lossy conversion, search and replacement on texts, as the
    standard library defines them.
  \<^item> \<open>Bpe_Tokenizer\<close>, \<open>Pre_Regex\<close>, \<open>Bpe_Correct\<close>, \<open>Streaming_Detokenizer\<close>
    (\<open>muser-engine/src/tokenizer/\<close>): the byte-pair tokenizer built from a vocabulary, encoding with
    special tokens, decoding in one piece and token by token; the four pre-tokenization expressions as
    syntax trees, which match every character and never the empty text. Round trip, error behaviour, the normal form of merging, containment of control
    tokens, streaming equals batch.
  \<^item> \<open>Grammar_Matcher\<close>, \<open>Token_Matcher\<close>, \<open>Gbnf_Parser\<close> (\<open>muser-server/src/grammar.rs\<close>): the Earley
    recognizer and its closure as a least fixed point, soundness and completeness against a
    derivation relation, UTF-8 fragments and token terminals, the GBNF parser, repetitions.

  \<^bold>\<open>Conventions.\<close> A struct is a \<^theory_text>\<open>record\<close> with a field prefix where names collide, an enum a
  \<^theory_text>\<open>datatype\<close>, \<open>Result\<close> a sum with the error on the left, \<open>?\<close> the operator \<open>bind_res\<close>.
  \<open>u64\<close>, \<open>u32\<close> and \<open>usize\<close> are \<^typ>\<open>nat\<close> with the bound written out, or words where bytes are
  concerned. A method with \<open>&mut self\<close> returns the next state. Panics (\<open>expect\<close>, indexing) are error
  values or are shown to be unreachable. Clocks are arguments. Digests, MACs and serializers of
  third-party crates are parameters; the assumptions on them are named (\<open>crypto_ok\<close>: 32-byte
  outputs; \<open>crypto_v2_ok\<close>: signatures of a key pair verify; \<open>io_ok\<close>, \<open>gateway_ok\<close>: parsing inverts
  printing) or absent. No theorem assumes that a digest has no collisions, except that the request
  ids of one journal are drawn from a set on which the digest that names their files is injective. The
  regular expression engine is assumed to search for the leftmost match (\<open>leftmost_search\<close>) and, for the
  round trip, not to give up on the text at hand (\<open>completes\<close>).

  \<^bold>\<open>What callers of the journal owe.\<close> The runs of \<open>Journal_Safety\<close> have the caller hand in closures
  that an assembler finished, pass \<open>commit_and_activate\<close> the request that was reserved
  (\<open>unverified_commit_blocks_open\<close> shows what happens otherwise) and keep records below the size limit
  of a file. A crash falls between two effects or inside a write. Inside the write of a slot file it
  leaves a torn file, which the code refuses to open; \<open>crash_recovery\<close> says so, and the runs go on only
  after the other crashes. The effects before a crash are taken as durable: writes are synced, the
  removals of \<open>garbage_collect\<close> are not.

  \<^bold>\<open>Termination and fuel.\<close> Loops are structural or have a measure (the radix recursion by key length,
  the eviction loop by the number of entries, metadata nesting by depth, text loops by the bytes
  left). The chart closure and the tokenizer's loops are \<^theory_text>\<open>partial_function\<close>s, shown to return. Only the mutually recursive
  descent of the GBNF parser has fuel, three units for each byte left and three more, and one unit per
  rule for the loop over rules; the fuel error is shown never to be returned.

  \<^bold>\<open>Not modelled.\<close> Floating-point transformer arithmetic, Metal, CoreML and ANE kernels, the HTTP
  surface, command line tools, benchmarks, and the parts that are I/O (files, TLS, processes). Of the
  verifier: the gateway's request handler and result store (\<open>verifier_gateway.rs\<close>), which compose the
  modelled codec and journal, file modes, the advisory lock and failing file-system calls of the journal, \<open>SparseWeightRowV2::probabilities\<close>. Of the sampler:
  everything but the random number generator, since the rest is \<open>f32\<close> arithmetic.
\<close>

section \<open>Properties across components\<close>

text \<open>The engine and the cluster agree on the model: the transfer schedule's layer tables, layer
  count and window are those of the engine's layer partition, and its cut alignment is the one at
  which the resident index lets a descendant reuse an ancestor.\<close>

theorem layer_tables_agree:
  "Transfer_Schedule.NOPE_LAYERS = nope_layers \<and> Transfer_Schedule.swa_layers = config_swa_layers
   \<and> N_LAYERS = MUSE_LAYER_COUNT \<and> SWA_WINDOW = MUSE_SWA_WINDOW \<and> PREFIX_CUT_ALIGN = RESIDENT_CUT_TOKENS"
  by code_simp

text \<open>C35: An armed delta can be sent. Whenever the reuse ladder, asked with the handoff's cut alignment,
  offers a delta transfer, the schedule of the transfer exists for that cut and for the position the
  receiver expects, which is the prompt without its last token, and the schedule's NoPE tiles
  partition exactly the tokens between the two.\<close>

theorem armed_delta_has_schedule:
  assumes "prepare_remote api p s tokens PREFIX_CUT_ALIGN = (p', s', Inr (Some offer))"
    and "offer_action offer = ArmDelta"
  shows "\<exists>sched. muse_schedule_span (length (butlast tokens)) (offer_matched offer) None = Inr (Some sched)
    \<and> tiles (offer_matched offer) (length (butlast tokens)) (ranges ''target'' NopeTile None (segments sched))"
proof -
  let ?position = "length (butlast tokens)"
  have "remote_action (offer_matched offer) (length tokens) PREFIX_CUT_ALIGN = ArmDelta"
    using prepare_remote_action [OF assms(1)] assms(2) by simp
  then have "offer_matched offer < ?position" "is_multiple_of (offer_matched offer) PREFIX_CUT_ALIGN"
    by (auto simp: remote_action_def split: if_splits)
  then have "\<exists>sched. muse_schedule_span_for ?position (offer_matched offer) None ''f16_le'' 256
      = Inr (Some sched)"
    by (auto simp: muse_schedule_span_for_def PACKED_PLANES_def Let_def)
  then obtain sched where s: "muse_schedule_span_for ?position (offer_matched offer) None ''f16_le'' 256
      = Inr (Some sched)" ..
  with schedule_nope_ranges [OF s] show ?thesis by (simp add: muse_schedule_span_def)
qed

definition demo_held :: "u32 list" where
  "demo_held = replicate 256 7"

definition demo_prompt :: "u32 list" where
  "demo_prompt = demo_held @ replicate 44 7"

theorem armed_delta_has_schedule_witness:
  "\<exists>sched. muse_schedule_span 299 256 None = Inr (Some sched)
    \<and> tiles 256 299 (ranges ''target'' NopeTile None (segments sched))"
proof -
  let ?p = "demo_ladder\<lparr>durable := None\<rparr>" and ?s = "Engine_Session.demo_session\<lparr>history := demo_held\<rparr>"
  have len: "length demo_held = 256" "length demo_prompt = 300" unfolding demo_prompt_def demo_held_def
    by (simp_all only: length_append length_replicate)
  have "prefix demo_held demo_prompt" "demo_held \<noteq> []" using len by (auto simp: demo_prompt_def)
  then have "plan ?p demo_held demo_prompt = (?p, Inr (PlanCurrent 256))"
    by (simp add: plan_unfold current_prefix_def len)
  then have "prepare_remote cpu_api ?p ?s demo_prompt PREFIX_CUT_ALIGN
      = (?p, ?s, Inr (Some \<lparr>offer_action = ArmDelta, offer_source = CurrentSession, offer_matched = 256\<rparr>))"
    by (simp add: prepare_remote_def Let_def cpu_api_def remote_action_def PREFIX_CUT_ALIGN_def is_multiple_of_dvd len)
  from armed_delta_has_schedule [OF this] show ?thesis by (simp add: len)
qed

end
